(* ===== verification/Jos_Prelude.thy ===== *)
theory Jos_Prelude
  imports Main "HOL-Library.Word" "HOL-Library.Monad_Syntax"
begin

section \<open>Prelude: machine words, byte memory, linked lists\<close>

text \<open>
  What every component shares: the C integer types as words of their width, the
  byte-addressed memory of the machine with its little-endian 32-bit accesses, the
  singly linked lists that the kernel threads through its arrays (\<open>pp_link\<close>,
  \<open>env_link\<close>), and the collections of simplification rules.
\<close>

unbundle bit_operations_syntax

type_synonym u8 = "8 word"
type_synonym u16 = "16 word"
type_synonym u32 = "32 word"
type_synonym u64 = "64 word"

text \<open>
  \<open>layout\<close> collects the constants of the memory layout, \<open>kframe\<close> the rules that say
  which fields of the kernel state an operation leaves alone.
\<close>

named_theorems layout
named_theorems kframe

subsection \<open>Words as naturals\<close>

lemma unat_add_no_wrap:
  fixes a b :: u32
  assumes "unat a + unat b < 2 ^ 32"
  shows "unat (a + b) = unat a + unat b"
  using assms by (simp add: unat_word_ariths)

lemma unat_mult_no_wrap:
  fixes a b :: u32
  assumes "unat a * unat b < 2 ^ 32"
  shows "unat (a * b) = unat a * unat b"
  using assms by (simp add: unat_word_ariths)

lemma unat_u32_bound [simp]: "unat (a :: u32) < 4294967296"
proof -
  have "unat a < 2 ^ LENGTH(32)" by (rule unsigned_less)
  then show ?thesis by simp
qed

lemma unat_and_mask:
  fixes a :: u32
  shows "unat (a AND mask n) = unat a mod 2 ^ n"
  by (simp flip: take_bit_eq_mask take_bit_eq_mod unsigned_take_bit_eq)

lemma unat_drop_bit_div: "unat (drop_bit n (a :: u32)) = unat a div 2 ^ n"
  by (metis unat_drop_bit_eq drop_bit_eq_div)

lemma sint_u32: "sint (w :: u32) = (if unat w < 2147483648 then int (unat w) else int (unat w) - 4294967296)"
proof -
  define n where "n = unat w"
  have u: "uint w = int n"
    by (simp add: n_def)
  have s: "sint w = (int n + 2147483648) mod 4294967296 - 2147483648"
    using int_word_sint [of "uint w", where 'a = 32] by (simp only: u [symmetric]) simp
  have b: "n < 4294967296"
    using unat_u32_bound [of w] by (simp only: n_def)
  have "sint w = (if n < 2147483648 then int n else int n - 4294967296)"
    using s b by (auto simp: mod_pos_geq)
  then show ?thesis
    by (simp only: n_def)
qed

lemma sint_pos_iff: "0 < sint (w :: u32) \<longleftrightarrow> 0 < unat w \<and> unat w < 2147483648"
  and sint_neg_iff: "sint w < 0 \<longleftrightarrow> 2147483648 \<le> unat w"
proof -
  define n where "n = unat w"
  have "n < 4294967296" "sint w = (if n < 2147483648 then int n else int n - 4294967296)"
    using unat_u32_bound [of w] sint_u32 [of w] by (simp_all only: n_def)
  then have "(0 < sint w \<longleftrightarrow> 0 < n \<and> n < 2147483648) \<and> (sint w < 0 \<longleftrightarrow> 2147483648 \<le> n)"
    by auto
  then show "0 < sint w \<longleftrightarrow> 0 < unat w \<and> unat w < 2147483648" "sint w < 0 \<longleftrightarrow> 2147483648 \<le> unat w"
    by (simp_all only: n_def)
qed

subsection \<open>Byte-addressed memory\<close>

type_synonym bytemem = "u32 \<Rightarrow> u8"

definition rd32 :: "bytemem \<Rightarrow> u32 \<Rightarrow> u32" where
  "rd32 m a =
     ucast (m a) OR push_bit 8 (ucast (m (a + 1)))
       OR push_bit 16 (ucast (m (a + 2))) OR push_bit 24 (ucast (m (a + 3)))"

definition wr32 :: "bytemem \<Rightarrow> u32 \<Rightarrow> u32 \<Rightarrow> bytemem" where
  "wr32 m a v =
     m(a := ucast v, a + 1 := ucast (drop_bit 8 v),
       a + 2 := ucast (drop_bit 16 v), a + 3 := ucast (drop_bit 24 v))"

lemma bytes_join:
  "(ucast (ucast v :: u8) :: u32) OR push_bit 8 (ucast (ucast (drop_bit 8 v) :: u8))
     OR push_bit 16 (ucast (ucast (drop_bit 16 v) :: u8))
     OR push_bit 24 (ucast (ucast (drop_bit 24 v) :: u8)) = v"
proof (rule bit_word_eqI)
  fix n assume n: "n < LENGTH(32)"
  then consider "n < 8" | "8 \<le> n" "n < 16" | "16 \<le> n" "n < 24" | "24 \<le> n" "n < 32"
    by fastforce
  then show "bit ((ucast (ucast v :: u8) :: u32) OR push_bit 8 (ucast (ucast (drop_bit 8 v) :: u8))
     OR push_bit 16 (ucast (ucast (drop_bit 16 v) :: u8))
     OR push_bit 24 (ucast (ucast (drop_bit 24 v) :: u8))) n = bit v n"
    by cases (auto simp: bit_or_iff bit_push_bit_iff bit_unsigned_iff bit_drop_bit_eq
        bit_ucast_iff)
qed

lemma rd32_wr32_same [simp]: "rd32 (wr32 m a v) a = v"
  by (simp add: rd32_def wr32_def bytes_join)

text \<open>
  Two aligned words that are not the same word do not share a byte: a store to one is
  invisible to a load of the other.
\<close>

definition aligned4 :: "u32 \<Rightarrow> bool" where
  "aligned4 a \<longleftrightarrow> a AND 3 = 0"

lemma aligned4_unat: "aligned4 a \<longleftrightarrow> unat a mod 4 = 0"
proof -
  have "unat (a AND mask 2) = unat a mod 4"
    using unat_and_mask [of a 2] by simp
  moreover have "(mask 2 :: u32) = 3"
    by (simp add: mask_eq_exp_minus_1)
  ultimately show ?thesis
    by (metis aligned4_def unat_eq_zero)
qed

lemma unat_aligned4_add:
  assumes "aligned4 a" "i < 4"
  shows "unat (a + word_of_nat i) = unat a + i"
proof -
  have "unat a mod 4 = 0" "unat a < 4294967296"
    using assms(1) by (auto simp: aligned4_unat)
  then have "unat a + i < 4294967296"
    using assms(2) by presburger
  moreover have "unat (word_of_nat i :: u32) = i"
    using assms(2) by (simp add: unat_of_nat)
  ultimately show ?thesis
    using unat_add_no_wrap [of a "word_of_nat i"] by simp
qed

lemma aligned4_bytes_disjoint:
  assumes "aligned4 a" "aligned4 b" "a \<noteq> b" "i < 4" "j < 4"
  shows "a + word_of_nat i \<noteq> b + word_of_nat j"
proof
  assume "a + word_of_nat i = b + word_of_nat j"
  then have "unat a + i = unat b + j"
    using unat_aligned4_add [OF assms(1,4)] unat_aligned4_add [OF assms(2,5)] by metis
  moreover have "unat a mod 4 = 0" "unat b mod 4 = 0" "unat a \<noteq> unat b"
    using assms by (auto simp: aligned4_unat word_unat_eq_iff)
  ultimately show False
    using assms(4,5) by presburger
qed

lemma rd32_wr32_other:
  assumes a: "aligned4 a" and b: "aligned4 b" and ne: "a \<noteq> b"
  shows "rd32 (wr32 m a v) b = rd32 m b"
proof -
  have d: "b + word_of_nat j \<noteq> a + word_of_nat i" if "i < 4" "j < 4" for i j
    using aligned4_bytes_disjoint [OF a b ne that] by metis
  show ?thesis
    using d [of 0 0] d [of 1 0] d [of 2 0] d [of 3 0]
      d [of 0 1] d [of 1 1] d [of 2 1] d [of 3 1]
      d [of 0 2] d [of 1 2] d [of 2 2] d [of 3 2]
      d [of 0 3] d [of 1 3] d [of 2 3] d [of 3 3]
    by (simp add: rd32_def wr32_def)
qed

lemma wr32_outside:
  assumes "x \<noteq> a" "x \<noteq> a + 1" "x \<noteq> a + 2" "x \<noteq> a + 3"
  shows "wr32 m a v x = m x"
  using assms by (simp add: wr32_def)

text \<open>Bulk operations of \<open>lib/string.c\<close> as the machine sees them: the bytes of a range.\<close>

definition in_range :: "u32 \<Rightarrow> nat \<Rightarrow> u32 \<Rightarrow> bool" where
  "in_range a n x \<longleftrightarrow> unat (x - a) < n"

definition fill_bytes :: "bytemem \<Rightarrow> u32 \<Rightarrow> u8 \<Rightarrow> nat \<Rightarrow> bytemem" where
  "fill_bytes m a c n = (\<lambda>x. if in_range a n x then c else m x)"

definition copy_bytes :: "bytemem \<Rightarrow> u32 \<Rightarrow> u32 \<Rightarrow> nat \<Rightarrow> bytemem" where
  "copy_bytes m d s n = (\<lambda>x. if in_range d n x then m (s + (x - d)) else m x)"

lemma rd32_cong:
  assumes "m' b = m b" "m' (b + 1) = m (b + 1)" "m' (b + 2) = m (b + 2)" "m' (b + 3) = m (b + 3)"
  shows "rd32 m' b = rd32 m b"
  using assms by (simp add: rd32_def)

subsection \<open>Loops\<close>

text \<open>A \<^verbatim>\<open>for\<close> loop whose body may fail, and its proof rule: an invariant indexed by the number of
  rounds done.\<close>

fun for_each :: "('a \<Rightarrow> 's \<Rightarrow> 's option) \<Rightarrow> 'a list \<Rightarrow> 's \<Rightarrow> 's option" where
  "for_each f [] s = Some s"
| "for_each f (x # xs) s = do { s1 \<leftarrow> f x s; for_each f xs s1 }"

lemma for_each_append: "for_each f (xs @ ys) s = do { s1 \<leftarrow> for_each f xs s; for_each f ys s1 }"
  by (induction xs arbitrary: s) (auto split: bind_splits)

lemma for_each_upt:
  assumes "P 0 s" and "\<And>k s. k < n \<Longrightarrow> P k s \<Longrightarrow> \<exists>s'. f k s = Some s' \<and> P (Suc k) s'"
  shows "\<exists>s'. for_each f [0..<n] s = Some s' \<and> P n s'"
  using assms
proof (induction n)
  case 0
  then show ?case by simp
next
  case (Suc n)
  then obtain s1 where "for_each f [0..<n] s = Some s1" "P n s1"
    by (metis less_SucI)
  with Suc.prems(2) [of n s1] show ?case
    by (auto simp: for_each_append)
qed

subsection \<open>Lists threaded through an array\<close>

text \<open>
  \<open>linked f p xs\<close>: following the link field \<open>f\<close> from the pointer \<open>p\<close> (\<open>None\<close> is the
  null pointer) meets the cells \<open>xs\<close> in this order and ends in the null pointer.
\<close>

fun linked :: "(nat \<Rightarrow> nat option) \<Rightarrow> nat option \<Rightarrow> nat list \<Rightarrow> bool" where
  "linked f p [] \<longleftrightarrow> p = None"
| "linked f p (x # xs) \<longleftrightarrow> p = Some x \<and> linked f (f x) xs"

lemma linked_cong:
  "(\<And>x. x \<in> set xs \<Longrightarrow> f x = g x) \<Longrightarrow> linked f p xs = linked g p xs"
  by (induction xs arbitrary: p) auto

lemma linked_upd_notin [simp]:
  "x \<notin> set xs \<Longrightarrow> linked (f(x := q)) p xs = linked f p xs"
  by (rule linked_cong) auto

lemma linked_None [simp]: "linked f None xs \<longleftrightarrow> xs = []"
  by (cases xs) auto

lemma linked_Some: "linked f (Some x) xs \<longleftrightarrow> (\<exists>ys. xs = x # ys \<and> linked f (f x) ys)"
  by (cases xs) auto

lemma linked_unique: "linked f p xs \<Longrightarrow> linked f p ys \<Longrightarrow> xs = ys"
proof (induction xs arbitrary: p ys)
  case Nil
  then show ?case by simp
next
  case (Cons x xs)
  then obtain zs where "ys = x # zs" "linked f (f x) zs"
    by (auto simp: linked_Some)
  with Cons show ?case by auto
qed

lemma linked_suffix: "linked f p (xs @ x # ys) \<Longrightarrow> linked f (f x) ys"
  by (induction xs arbitrary: p) auto

lemma linked_distinct: "linked f p xs \<Longrightarrow> distinct xs"
proof (induction xs arbitrary: p)
  case Nil
  then show ?case by simp
next
  case (Cons x xs)
  have "x \<notin> set xs"
  proof
    assume "x \<in> set xs"
    then obtain ys zs where xs: "xs = ys @ x # zs"
      by (meson split_list)
    with Cons.prems have "linked f (f x) zs" "linked f (f x) xs"
      by (auto dest: linked_suffix)
    then have "xs = zs"
      by (rule linked_unique [rotated])
    with xs have "length zs = length ys + Suc (length zs)"
      by (metis length_append length_Cons)
    then show False by simp
  qed
  with Cons show ?case by auto
qed

lemma linked_upt:
  assumes "a < b" "\<And>i. a \<le> i \<Longrightarrow> Suc i < b \<Longrightarrow> f i = Some (Suc i)"
  shows "linked f (Some a) ([a..<b] @ ys) \<longleftrightarrow> linked f (f (b - 1)) ys"
  using assms
proof (induction "b - a" arbitrary: a)
  case 0
  then show ?case by simp
next
  case (Suc n)
  show ?case
  proof (cases "Suc a = b")
    case True
    then show ?thesis by (auto simp: upt_conv_Cons)
  next
    case False
    with Suc.prems have lt: "Suc a < b" by simp
    moreover from this Suc.prems have "f a = Some (Suc a)" by simp
    moreover have "linked f (Some (Suc a)) ([Suc a..<b] @ ys) \<longleftrightarrow> linked f (f (b - 1)) ys"
      by (rule Suc.hyps(1)) (use Suc lt in auto)
    ultimately show ?thesis
      using Suc.prems(1) by (simp add: upt_conv_Cons)
  qed
qed

text \<open>
  The interface of a free list kept as a stack: one operation unlinks the first cell, one
  pushes a cell. The page allocator (\<^verbatim>\<open>pp_link\<close>) and the environment allocator
  (\<^verbatim>\<open>env_link\<close>) both provide it. \<open>pop s x s'\<close>: the operation that takes a cell out of the
  list succeeds in state \<open>s\<close>, returns \<open>x\<close> and ends in \<open>s'\<close>; likewise \<open>push\<close>.
\<close>

locale free_stack =
  fixes head :: "'s \<Rightarrow> nat option"
    and link :: "'s \<Rightarrow> nat \<Rightarrow> nat option"
    and pop :: "'s \<Rightarrow> nat \<Rightarrow> 's \<Rightarrow> bool"
    and push :: "'s \<Rightarrow> nat \<Rightarrow> 's \<Rightarrow> bool"
  assumes pop_head: "pop s x s' \<Longrightarrow> head s = Some x"
    and head_pop: "pop s x s' \<Longrightarrow> head s' = link s x"
    and link_pop: "pop s x s' \<Longrightarrow> y \<noteq> x \<Longrightarrow> link s' y = link s y"
    and head_push: "push s x s' \<Longrightarrow> head s' = Some x"
    and link_push: "push s x s' \<Longrightarrow> link s' x = head s"
    and link_push_other: "push s x s' \<Longrightarrow> y \<noteq> x \<Longrightarrow> link s' y = link s y"
begin

lemma pop_cells:
  assumes "pop s x s'" "linked (link s) (head s) xs"
  shows "\<exists>ys. xs = x # ys \<and> linked (link s') (head s') ys \<and> x \<notin> set ys"
proof -
  have "head s = Some x"
    using assms(1) by (rule pop_head)
  with assms(2) obtain ys where xs: "xs = x # ys" and l: "linked (link s) (link s x) ys"
    by (auto simp: linked_Some)
  have d: "x \<notin> set ys"
    using linked_distinct [OF assms(2)] xs by simp
  have "linked (link s') (link s x) ys = linked (link s) (link s x) ys"
    by (rule linked_cong) (metis d link_pop [OF assms(1)])
  with l xs d head_pop [OF assms(1)] show ?thesis
    by simp
qed

lemma push_cells:
  assumes "push s x s'" "linked (link s) (head s) xs" "x \<notin> set xs"
  shows "linked (link s') (head s') (x # xs)"
proof -
  have "linked (link s') (head s) xs = linked (link s) (head s) xs"
    by (rule linked_cong) (metis assms(1,3) link_push_other)
  with assms show ?thesis
    by (simp add: head_push link_push)
qed

lemma pop_pop_distinct:
  assumes "linked (link s) (head s) xs" "pop s x s1" "pop s1 y s2"
  shows "x \<noteq> y"
  using pop_cells [OF assms(2,1)] pop_cells [OF assms(3)] by fastforce

lemma push_pop:
  assumes "push s x s1" "pop s1 y s2"
  shows "y = x" "head s2 = head s"
  using assms head_push [OF assms(1)] pop_head [OF assms(2)]
  by (auto simp: head_pop link_push)

end

end
