(* ===== verification/Mmu.thy ===== *)
theory Mmu
  imports Jos_Prelude
begin

section \<open>Addresses, page table entries and the memory layout\<close>

text \<open>
  The macros of \<^verbatim>\<open>inc/mmu.h\<close>, \<^verbatim>\<open>inc/memlayout.h\<close> and \<^verbatim>\<open>inc/types.h\<close>: how a linear
  address splits into directory index, table index and offset, the flags of an entry, the
  constants of the address space, rounding, and the segment and gate descriptors.
  Pointers and addresses are 32-bit words; all arithmetic wraps as in C.
\<close>

subsection \<open>Linear addresses\<close>

definition PTXSHIFT :: nat where [layout]: "PTXSHIFT = 12"
definition PDXSHIFT :: nat where [layout]: "PDXSHIFT = 22"
definition PGSHIFT :: nat where [layout]: "PGSHIFT = 12"
definition PT_DIGITS :: nat where [layout]: "PT_DIGITS = 10"
definition PGSIZE :: u32 where [layout]: "PGSIZE = 4096"
definition NPDENTRIES :: nat where [layout]: "NPDENTRIES = 1024"
definition NPTENTRIES :: nat where [layout]: "NPTENTRIES = 1024"
definition PTSIZE :: u32 where [layout]: "PTSIZE = PGSIZE * 1024"

definition PGNUM :: "u32 \<Rightarrow> u32" where
  "PGNUM la = drop_bit PTXSHIFT la"

definition PDX :: "u32 \<Rightarrow> u32" where
  "PDX la = drop_bit PDXSHIFT la AND 0x3FF"

definition PTX :: "u32 \<Rightarrow> u32" where
  "PTX la = drop_bit PTXSHIFT la AND 0x3FF"

definition PGOFF :: "u32 \<Rightarrow> u32" where
  "PGOFF la = la AND 0xFFF"

definition PGADDR :: "u32 \<Rightarrow> u32 \<Rightarrow> u32 \<Rightarrow> u32" where
  "PGADDR d t off = push_bit PDXSHIFT d OR push_bit PTXSHIFT t OR off"

definition PGNUM2LA :: "u32 \<Rightarrow> u32" where
  "PGNUM2LA n = push_bit PTXSHIFT n"

definition PTE_ADDR :: "u32 \<Rightarrow> u32" where
  "PTE_ADDR pte = pte AND NOT 0xFFF"

definition ROUNDDOWN :: "u32 \<Rightarrow> u32 \<Rightarrow> u32" where
  "ROUNDDOWN a n = a - a mod n"

definition ROUNDUP :: "u32 \<Rightarrow> u32 \<Rightarrow> u32" where
  "ROUNDUP a n = ROUNDDOWN (a + n - 1) n"

subsection \<open>Entry flags\<close>

definition PTE_P :: u32 where [layout]: "PTE_P = 0x001"
definition PTE_W :: u32 where [layout]: "PTE_W = 0x002"
definition PTE_U :: u32 where [layout]: "PTE_U = 0x004"
definition PTE_AVAIL :: u32 where [layout]: "PTE_AVAIL = 0xE00"
definition PTE_SYSCALL :: u32 where [layout]: "PTE_SYSCALL = PTE_AVAIL OR PTE_P OR PTE_W OR PTE_U"
definition PTE_COW :: u32 where [layout]: "PTE_COW = 0x800"
definition FL_IF :: u32 where [layout]: "FL_IF = 0x200"
definition FEC_PR :: u32 where [layout]: "FEC_PR = 0x1"
definition FEC_WR :: u32 where [layout]: "FEC_WR = 0x2"
definition FEC_U :: u32 where [layout]: "FEC_U = 0x4"

subsection \<open>Memory layout\<close>

definition KERNBASE :: u32 where [layout]: "KERNBASE = 0xF0000000"
definition IOPHYSMEM :: u32 where [layout]: "IOPHYSMEM = 0x0A0000"
definition EXTPHYSMEM :: u32 where [layout]: "EXTPHYSMEM = 0x100000"
definition KSTACKTOP :: u32 where [layout]: "KSTACKTOP = KERNBASE - PTSIZE"
definition KSTKSIZE :: u32 where [layout]: "KSTKSIZE = 8 * PGSIZE"
definition KSTKGAP :: u32 where [layout]: "KSTKGAP = 8 * PGSIZE"
definition ULIM :: u32 where [layout]: "ULIM = KSTACKTOP - PTSIZE"
definition UVPT :: u32 where [layout]: "UVPT = ULIM - PTSIZE"
definition UPAGES :: u32 where [layout]: "UPAGES = UVPT - PTSIZE"
definition UENVS :: u32 where [layout]: "UENVS = UPAGES - PTSIZE"
definition UTOP :: u32 where [layout]: "UTOP = UENVS"
definition UXSTACKTOP :: u32 where [layout]: "UXSTACKTOP = UTOP"
definition UXSTACKBASE :: u32 where [layout]: "UXSTACKBASE = UTOP - PGSIZE"
definition IPC_NO_PAGE :: u32 where [layout]: "IPC_NO_PAGE = 0xaabbccdd"
definition USTACKTOP :: u32 where [layout]: "USTACKTOP = UTOP - 2 * PGSIZE"
definition UTEXT :: u32 where [layout]: "UTEXT = 2 * PTSIZE"
definition UTEMP :: u32 where [layout]: "UTEMP = PTSIZE"
definition PFTEMP :: u32 where [layout]: "PFTEMP = UTEMP + PTSIZE - PGSIZE"
definition USTABDATA :: u32 where [layout]: "USTABDATA = PTSIZE div 2"
definition MPENTRY_PADDR :: u32 where [layout]: "MPENTRY_PADDR = 0x7000"
definition IOMEM_PADDR :: u32 where [layout]: "IOMEM_PADDR = 0xfe000000"
definition IOMEMBASE :: u32 where [layout]: "IOMEMBASE = 0xfe000000"

subsection \<open>Segment and gate descriptors\<close>

record Segdesc =
  sd_lim_15_0 :: "16 word"
  sd_base_15_0 :: "16 word"
  sd_base_23_16 :: "8 word"
  sd_type :: "4 word"
  sd_s :: "1 word"
  sd_dpl :: "2 word"
  sd_p :: "1 word"
  sd_lim_19_16 :: "4 word"
  sd_avl :: "1 word"
  sd_rsv1 :: "1 word"
  sd_db :: "1 word"
  sd_g :: "1 word"
  sd_base_31_24 :: "8 word"

definition SEG_NULL :: Segdesc where
  "SEG_NULL = \<lparr> sd_lim_15_0 = 0, sd_base_15_0 = 0, sd_base_23_16 = 0, sd_type = 0, sd_s = 0,
     sd_dpl = 0, sd_p = 0, sd_lim_19_16 = 0, sd_avl = 0, sd_rsv1 = 0, sd_db = 0, sd_g = 0,
     sd_base_31_24 = 0 \<rparr>"

definition SEG :: "u32 \<Rightarrow> u32 \<Rightarrow> u32 \<Rightarrow> u32 \<Rightarrow> Segdesc" where
  "SEG type base lim dpl = \<lparr> sd_lim_15_0 = ucast (drop_bit 12 lim AND 0xffff),
     sd_base_15_0 = ucast (base AND 0xffff), sd_base_23_16 = ucast (drop_bit 16 base AND 0xff),
     sd_type = ucast type, sd_s = 1, sd_dpl = ucast dpl, sd_p = 1,
     sd_lim_19_16 = ucast (drop_bit 28 lim), sd_avl = 0, sd_rsv1 = 0, sd_db = 1, sd_g = 1,
     sd_base_31_24 = ucast (drop_bit 24 base) \<rparr>"

definition SEG16 :: "u32 \<Rightarrow> u32 \<Rightarrow> u32 \<Rightarrow> u32 \<Rightarrow> Segdesc" where
  "SEG16 type base lim dpl = \<lparr> sd_lim_15_0 = ucast (lim AND 0xffff),
     sd_base_15_0 = ucast (base AND 0xffff), sd_base_23_16 = ucast (drop_bit 16 base AND 0xff),
     sd_type = ucast type, sd_s = 1, sd_dpl = ucast dpl, sd_p = 1,
     sd_lim_19_16 = ucast (drop_bit 16 lim), sd_avl = 0, sd_rsv1 = 0, sd_db = 1, sd_g = 0,
     sd_base_31_24 = ucast (drop_bit 24 base) \<rparr>"

record Gatedesc =
  gd_off_15_0 :: "16 word"
  gd_sel :: "16 word"
  gd_args :: "5 word"
  gd_rsv1 :: "3 word"
  gd_type :: "4 word"
  gd_s :: "1 word"
  gd_dpl :: "2 word"
  gd_p :: "1 word"
  gd_off_31_16 :: "16 word"

definition STS_T32A :: u32 where [layout]: "STS_T32A = 0x9"
definition STS_IG32 :: "4 word" where [layout]: "STS_IG32 = 0xE"
definition STS_TG32 :: "4 word" where [layout]: "STS_TG32 = 0xF"
definition DPL_KERN :: u32 where [layout]: "DPL_KERN = 0x1"
definition DPL_USER :: u32 where [layout]: "DPL_USER = 0x3"

definition SETGATE :: "bool \<Rightarrow> u16 \<Rightarrow> u32 \<Rightarrow> u32 \<Rightarrow> Gatedesc" where
  "SETGATE istrap sel off dpl = \<lparr> gd_off_15_0 = ucast (off AND 0xffff), gd_sel = sel,
     gd_args = 0, gd_rsv1 = 0, gd_type = (if istrap then STS_TG32 else STS_IG32), gd_s = 0,
     gd_dpl = ucast dpl, gd_p = 1, gd_off_31_16 = ucast (drop_bit 16 off) \<rparr>"

text \<open>What the processor reads back out of a descriptor: the base of a segment, the handler
  address of a gate.\<close>

definition seg_base :: "Segdesc \<Rightarrow> u32" where
  "seg_base d = ucast (sd_base_15_0 d) OR push_bit 16 (ucast (sd_base_23_16 d))
     OR push_bit 24 (ucast (sd_base_31_24 d))"

definition gate_offset :: "Gatedesc \<Rightarrow> u32" where
  "gate_offset g = ucast (gd_off_15_0 g) OR push_bit 16 (ucast (gd_off_31_16 g))"

subsection \<open>Arithmetic of the address macros\<close>

lemma and_0x3FF: "(a :: u32) AND 0x3FF = take_bit 10 a"
  by (simp add: take_bit_eq_mask mask_eq_exp_minus_1)

lemma and_0xFFF: "(a :: u32) AND 0xFFF = take_bit 12 a"
  by (simp add: take_bit_eq_mask mask_eq_exp_minus_1)

lemma unat_take_bit: "unat (take_bit n (a :: u32)) = unat a mod 2 ^ n"
  by (simp add: take_bit_eq_mask unat_and_mask)

lemma unat_PGNUM: "unat (PGNUM la) = unat la div 4096"
  by (simp add: PGNUM_def unat_drop_bit_div layout)

lemma unat_PDX: "unat (PDX la) = unat la div 4194304"
proof -
  have "unat la div 4194304 < 1024"
    using unat_u32_bound [of la] by (simp add: less_mult_imp_div_less)
  then show ?thesis
    by (simp add: PDX_def and_0x3FF unat_take_bit unat_drop_bit_div layout)
qed

lemma unat_PTX: "unat (PTX la) = unat la div 4096 mod 1024"
  by (simp add: PTX_def and_0x3FF unat_take_bit unat_drop_bit_div layout)

lemma unat_PGOFF: "unat (PGOFF la) = unat la mod 4096"
  by (simp add: PGOFF_def and_0xFFF unat_take_bit)

lemma PTE_ADDR_shift: "PTE_ADDR a = push_bit 12 (drop_bit 12 a)"
proof -
  have "a AND NOT (mask 12) = push_bit 12 (drop_bit 12 a)"
    by (rule bit_word_eqI)
      (auto simp: bit_and_iff bit_not_iff bit_mask_iff bit_push_bit_iff bit_drop_bit_eq)
  then show ?thesis
    by (simp add: PTE_ADDR_def mask_eq_exp_minus_1)
qed

lemma unat_PTE_ADDR: "unat (PTE_ADDR a) = unat a - unat a mod 4096"
proof -
  have "PTE_ADDR a + PGOFF a = a"
    by (simp add: PTE_ADDR_shift PGOFF_def and_0xFFF bits_ident)
  then have "PTE_ADDR a = a - PGOFF a"
    by (metis add_diff_cancel_right')
  moreover have "PGOFF a \<le> a"
    by (simp add: word_le_nat_alt unat_PGOFF)
  ultimately show ?thesis
    by (simp add: unat_sub unat_PGOFF)
qed

lemma PDX_less [simp]: "unat (PDX la) < 1024"
  using unat_u32_bound [of la] by (simp add: unat_PDX less_mult_imp_div_less)

lemma PTX_less [simp]: "unat (PTX la) < 1024"
  by (simp add: unat_PTX)

lemma PGADDR_PDX_PTX_PGOFF: "PGADDR (PDX la) (PTX la) (PGOFF la) = la"
proof (rule bit_word_eqI)
  fix n assume n: "n < LENGTH(32)"
  then consider "n < 12" | "12 \<le> n" "n < 22" | "22 \<le> n" "n < 32"
    by fastforce
  then show "bit (PGADDR (PDX la) (PTX la) (PGOFF la)) n = bit la n"
    by cases (auto simp: PGADDR_def PDX_def PTX_def PGOFF_def layout and_0x3FF and_0xFFF
        bit_or_iff bit_push_bit_iff bit_take_bit_iff bit_drop_bit_eq)
qed

lemma take_bit_small: "unat (a :: u32) < 2 ^ n \<Longrightarrow> take_bit n a = a"
  by (simp add: word_unat_eq_iff unat_take_bit)

lemma unat_push_or:
  assumes "unat a < 2 ^ n" "unat b * 2 ^ n + unat a < 2 ^ 32"
  shows "unat (push_bit n b OR a) = unat b * 2 ^ n + unat (a :: u32)"
proof -
  have "push_bit n b AND a = 0"
    by (subst take_bit_small [OF assms(1), symmetric], rule bit_word_eqI)
      (auto simp: bit_and_iff bit_push_bit_iff bit_take_bit_iff)
  then have "push_bit n b OR a = push_bit n b + a"
    by (simp add: disjunctive_add_eq_or)
  moreover have "unat (push_bit n b) = unat b * 2 ^ n"
    using assms(2) by (simp add: unsigned_push_bit_eq) (simp add: take_bit_eq_mod push_bit_eq_mult)
  ultimately show ?thesis
    using assms(2) by (simp add: unat_add_no_wrap)
qed

lemma unat_PGADDR:
  assumes "unat d < 1024" "unat t < 1024" "unat off < 4096"
  shows "unat (PGADDR d t off) = unat d * 4194304 + unat t * 4096 + unat off"
proof -
  have "unat (push_bit 12 t OR off) = unat t * 4096 + unat off"
    using assms unat_push_or [of off 12 t] by simp
  then show ?thesis
    using assms unat_push_or [of "push_bit 12 t OR off" 22 d] by (simp add: PGADDR_def layout)
qed

lemma PDX_PGADDR:
  assumes "unat d < 1024" "unat t < 1024" "unat off < 4096"
  shows "PDX (PGADDR d t off) = d" "PTX (PGADDR d t off) = t" "PGOFF (PGADDR d t off) = off"
proof -
  let ?a = "unat d * 4194304 + (unat t * 4096 + unat off)"
  have a: "unat (PGADDR d t off) = ?a"
    using unat_PGADDR [OF assms] by simp
  have "unat t * 4096 + unat off < 4194304"
    using assms by simp
  then have "?a div 4194304 = unat d"
    by simp
  moreover have "?a = (unat d * 1024 + unat t) * 4096 + unat off"
    by simp
  then have "?a div 4096 = unat d * 1024 + unat t" "?a mod 4096 = unat off"
    using assms(3) by (metis div_mult_self3 div_less add.right_neutral zero_neq_numeral,
        metis mod_mult_self3 mod_less)
  ultimately show "PDX (PGADDR d t off) = d" "PTX (PGADDR d t off) = t"
      "PGOFF (PGADDR d t off) = off"
    using assms a by (simp_all add: word_unat_eq_iff unat_PDX unat_PTX unat_PGOFF)
qed

subsection \<open>Pages and slots\<close>

definition page_aligned :: "u32 \<Rightarrow> bool" where
  "page_aligned a \<longleftrightarrow> PGOFF a = 0"

lemma page_aligned_unat: "page_aligned a \<longleftrightarrow> unat a mod 4096 = 0"
  by (simp add: page_aligned_def word_unat_eq_iff unat_PGOFF)

lemma page_aligned_obtain:
  assumes "page_aligned a"
  obtains k where "unat a = 4096 * k" "k < 1048576"
proof -
  obtain k where k: "unat a = 4096 * k"
    using assms unfolding page_aligned_unat by (auto simp: mod_eq_0_iff_dvd elim: dvdE)
  then show thesis
    using that unat_u32_bound [of a] by simp
qed

lemma page_aligned_PTE_ADDR [simp]: "page_aligned (PTE_ADDR a)"
  by (simp add: page_aligned_unat unat_PTE_ADDR minus_mod_eq_mult_div)

lemma PTE_ADDR_aligned: "page_aligned a \<Longrightarrow> PTE_ADDR a = a"
  by (simp add: page_aligned_unat word_unat_eq_iff unat_PTE_ADDR)

text \<open>Entry \<open>i\<close> of the table (or directory) that starts at the page-aligned address \<open>base\<close>.\<close>

definition slot :: "u32 \<Rightarrow> u32 \<Rightarrow> u32" where
  "slot base i = base + 4 * i"

lemma unat_slot:
  assumes "page_aligned base" "unat i < 1024"
  shows "unat (slot base i) = unat base + 4 * unat i"
proof -
  obtain k where "unat base = 4096 * k" "k < 1048576"
    using assms(1) by (rule page_aligned_obtain)
  moreover have "unat (4 * i) = 4 * unat i"
    using assms(2) by (simp add: unat_mult_no_wrap)
  ultimately show ?thesis
    using assms(2) unat_add_no_wrap [of base "4 * i"] by (simp add: slot_def)
qed

lemma slot_aligned4:
  assumes "page_aligned base" "unat i < 1024"
  shows "aligned4 (slot base i)"
proof -
  obtain k where "unat base = 4096 * k" "k < 1048576"
    using assms(1) by (rule page_aligned_obtain)
  then have "unat (slot base i) = 4 * (1024 * k + unat i)"
    using unat_slot [OF assms] by simp
  then show ?thesis
    by (simp add: aligned4_unat)
qed

lemma slot_page:
  assumes "page_aligned b" "unat i < 1024" "j < 4"
  shows "PTE_ADDR (slot b i + word_of_nat j) = b"
proof -
  obtain k where k: "unat b = 4096 * k" "k < 1048576"
    using assms(1) by (rule page_aligned_obtain)
  have "unat (slot b i + word_of_nat j) = 4096 * k + (4 * unat i + j)"
    using unat_aligned4_add [OF slot_aligned4 [OF assms(1,2)] assms(3)] unat_slot [OF assms(1,2)] k
    by simp
  moreover have "(4096 * k + (4 * unat i + j)) mod 4096 = 4 * unat i + j"
    using assms(2,3) by simp
  ultimately show ?thesis
    using k by (simp add: word_unat_eq_iff unat_PTE_ADDR)
qed

lemma slot_inject:
  assumes "page_aligned b" "unat i < 1024" "page_aligned b'" "unat i' < 1024"
  shows "slot b i = slot b' i' \<longleftrightarrow> b = b' \<and> i = i'"
proof
  assume eq: "slot b i = slot b' i'"
  then have "b = b'"
    using slot_page [OF assms(1,2), of 0] slot_page [OF assms(3,4), of 0] by simp
  moreover from this have "unat i = unat i'"
    using eq unat_slot [OF assms(1,2)] unat_slot [OF assms(3,4)] by simp
  ultimately show "b = b' \<and> i = i'"
    by (simp add: word_unat_eq_iff)
qed auto

end
