(* ===== verification/Console.thy ===== *)
theory Console
  imports Jos_Prelude
begin

section \<open>Console devices and the interrupt controller\<close>

text \<open>
  \<^verbatim>\<open>kern/console.c\<close> and \<^verbatim>\<open>kern/picirq.c\<close>: the serial port, the parallel port, the CGA display, the keyboard,
  the ring buffer of input characters, and the mask of the 8259A interrupt controllers. The record
  \<open>console\<close> holds the static variables of the two files and the devices behind them: the bytes
  waiting in the keyboard controller (\<open>kbd_in\<close>) and in the serial port (\<open>com_in\<close>), the video
  memory \<open>crt_buf\<close>, and the log \<open>outs\<close> of all \<^verbatim>\<open>outb\<close> instructions, oldest first. Reading a data port
  consumes the waiting byte, and the status port says whether there is one. The delay loops that
  wait for the serial and parallel port only pass time and are left out, and so are the messages the
  drivers print themselves.

  The section closes with what they guarantee: the input buffer is a first-in first-out queue as long as
  fewer than 512 characters wait, the polling loops end, the cursor stays on the screen.
\<close>

subsection \<open>State\<close>

record console =
  cbuf :: "nat \<Rightarrow> u8"
  rpos :: u32
  wpos :: u32
  serial_exists :: bool
  shift :: u32
  addr_6845 :: u32
  crt_buf :: "nat \<Rightarrow> u16"
  crt_pos :: u16
  irq_mask_8259A :: u16
  didinit :: bool
  kbd_in :: "u8 list"
  com_in :: "u8 list"
  outs :: "(u32 \<times> u8) list"

definition outb :: "u32 \<Rightarrow> u8 \<Rightarrow> console \<Rightarrow> console" where
  "outb port v s = s\<lparr>outs := outs s @ [(port, v)]\<rparr>"

subsection \<open>The interrupt controllers (\<^verbatim>\<open>kern/picirq.c\<close>)\<close>

definition IO_PIC1 :: u32 where [layout]: "IO_PIC1 = 0x20"
definition IO_PIC2 :: u32 where [layout]: "IO_PIC2 = 0xA0"
definition IRQ_OFFSET :: u32 where [layout]: "IRQ_OFFSET = 32"
definition IRQ_SLAVE :: nat where [layout]: "IRQ_SLAVE = 2"

definition irq_setmask_8259A :: "u16 \<Rightarrow> console \<Rightarrow> console" where
  "irq_setmask_8259A msk s =
     (let s1 = s\<lparr>irq_mask_8259A := msk\<rparr>
      in if \<not> didinit s1 then s1
         else outb (IO_PIC2 + 1) (ucast (drop_bit 8 msk)) (outb (IO_PIC1 + 1) (ucast msk) s1))"

definition pic_init :: "console \<Rightarrow> console" where
  "pic_init s =
     (let s1 = fold (\<lambda>(p, v). outb p v)
            [(IO_PIC1 + 1, 0xFF), (IO_PIC2 + 1, 0xFF),
             (IO_PIC1, 0x11), (IO_PIC1 + 1, ucast IRQ_OFFSET), (IO_PIC1 + 1, push_bit IRQ_SLAVE 1), (IO_PIC1 + 1, 0x3),
             (IO_PIC2, 0x11), (IO_PIC2 + 1, ucast IRQ_OFFSET + 8), (IO_PIC2 + 1, word_of_nat IRQ_SLAVE), (IO_PIC2 + 1, 0x01),
             (IO_PIC1, 0x68), (IO_PIC1, 0x0a), (IO_PIC2, 0x68), (IO_PIC2, 0x0a)]
            (s\<lparr>didinit := True\<rparr>)
      in if irq_mask_8259A s1 \<noteq> 0xFFFF then irq_setmask_8259A (irq_mask_8259A s1) s1 else s1)"

subsection \<open>Serial and parallel port\<close>

definition COM1 :: u32 where [layout]: "COM1 = 0x3F8"

definition serial_proc_data :: "console \<Rightarrow> int \<times> console" where
  "serial_proc_data s = (case com_in s of [] \<Rightarrow> (- 1, s) | b # bs \<Rightarrow> (uint b, s\<lparr>com_in := bs\<rparr>))"

definition serial_putc :: "u32 \<Rightarrow> console \<Rightarrow> console" where
  "serial_putc c = outb COM1 (ucast c)"

definition lpt_putc :: "u32 \<Rightarrow> console \<Rightarrow> console" where
  "lpt_putc c s = outb (0x378 + 2) 0x08 (outb (0x378 + 2) (0x08 OR 0x04 OR 0x01) (outb 0x378 (ucast c) s))"

text \<open>\<open>lsr\<close> is what the line status register reads at the end of the initialisation; the last read of the
  receive buffer drops a waiting byte.\<close>

definition serial_init :: "u8 \<Rightarrow> console \<Rightarrow> console" where
  "serial_init lsr s =
     (let s1 = fold (\<lambda>(p, v). outb p v)
            [(COM1 + 2, 0), (COM1 + 3, 0x80), (COM1, word_of_nat (115200 div 9600)), (COM1 + 1, 0),
             (COM1 + 3, 0x03 AND NOT 0x80), (COM1 + 4, 0), (COM1 + 1, 0x01)] s
      in s1\<lparr>serial_exists := (lsr \<noteq> 0xFF), com_in := drop 1 (com_in s1)\<rparr>)"

subsection \<open>The display\<close>

definition CRT_ROWS :: nat where [layout]: "CRT_ROWS = 25"
definition CRT_COLS :: nat where [layout]: "CRT_COLS = 80"
definition CRT_SIZE :: nat where [layout]: "CRT_SIZE = CRT_ROWS * CRT_COLS"
definition MONO_BASE :: u32 where [layout]: "MONO_BASE = 0x3B4"
definition CGA_BASE :: u32 where [layout]: "CGA_BASE = 0x3D4"

text \<open>\<open>cga\<close> says whether a word written to the CGA buffer reads back, \<open>hi\<close> and \<open>lo\<close> are the two bytes of the
  cursor location the controller returns.\<close>

definition cga_init :: "bool \<Rightarrow> u8 \<Rightarrow> u8 \<Rightarrow> console \<Rightarrow> console" where
  "cga_init cga hi lo s =
     (let s1 = s\<lparr>addr_6845 := (if cga then CGA_BASE else MONO_BASE)\<rparr>;
          s2 = outb (addr_6845 s1) 15 (outb (addr_6845 s1) 14 s1)
      in s2\<lparr>crt_pos := push_bit 8 (ucast hi) OR ucast lo\<rparr>)"

definition cga_scroll :: "console \<Rightarrow> console" where
  "cga_scroll s =
     (if CRT_SIZE \<le> unat (crt_pos s)
      then s\<lparr>crt_buf := (\<lambda>i. if i < CRT_SIZE - CRT_COLS then crt_buf s (i + CRT_COLS)
                            else if i < CRT_SIZE then 0x0700 OR 0x20 else crt_buf s i),
             crt_pos := crt_pos s - word_of_nat CRT_COLS\<rparr>
      else s)"

definition cga_cursor :: "console \<Rightarrow> console" where
  "cga_cursor s = outb (addr_6845 s + 1) (ucast (crt_pos s)) (outb (addr_6845 s) 15
     (outb (addr_6845 s + 1) (ucast (drop_bit 8 (crt_pos s))) (outb (addr_6845 s) 14 s)))"

text \<open>The cases of the \<^verbatim>\<open>switch\<close> of \<^verbatim>\<open>cga_putc\<close> other than the tabulator.\<close>

definition cga_char :: "u32 \<Rightarrow> console \<Rightarrow> console" where
  "cga_char c s =
     (if c AND 0xFF = 8
      then if 0 < crt_pos s
           then s\<lparr>crt_pos := crt_pos s - 1,
                  crt_buf := (crt_buf s)(unat (crt_pos s - 1) := ucast ((c AND NOT 0xFF) OR 0x20))\<rparr>
           else s
      else if c AND 0xFF = 10
      then let p = crt_pos s + word_of_nat CRT_COLS in s\<lparr>crt_pos := p - p mod word_of_nat CRT_COLS\<rparr>
      else if c AND 0xFF = 13
      then s\<lparr>crt_pos := crt_pos s - crt_pos s mod word_of_nat CRT_COLS\<rparr>
      else s\<lparr>crt_buf := (crt_buf s)(unat (crt_pos s) := ucast c), crt_pos := crt_pos s + 1\<rparr>)"

definition cga_attr :: "u32 \<Rightarrow> u32" where
  "cga_attr c = (if c AND NOT 0xFF = 0 then c OR 0x0700 else c)"

lemma cga_attr_low [simp]: "cga_attr c AND 0xFF = c AND 0xFF"
  by (simp add: cga_attr_def bit.conj_disj_distrib2)

text \<open>A tabulator prints five blanks through \<^verbatim>\<open>cons_putc\<close>, which calls \<^verbatim>\<open>cga_putc\<close> back.\<close>

function cons_putc :: "u32 \<Rightarrow> console \<Rightarrow> console" and cga_putc :: "u32 \<Rightarrow> console \<Rightarrow> console" where
  "cons_putc c s = cga_putc c (lpt_putc c (serial_putc c s))"
| "cga_putc c s =
     (let c' = cga_attr c;
          s1 = (if c' AND 0xFF = 9
                then cons_putc 0x20 (cons_putc 0x20 (cons_putc 0x20 (cons_putc 0x20 (cons_putc 0x20 s))))
                else cga_char c' s)
      in cga_cursor (cga_scroll s1))"
  by pat_completeness auto
termination
  by (relation "measure (case_sum (\<lambda>(c, s). if c AND 0xFF = (9 :: u32) then 3 else 1)
       (\<lambda>(c, s). if c AND 0xFF = (9 :: u32) then 2 else 0))") auto


subsection \<open>The keyboard\<close>

definition SHIFT :: u32 where [layout]: "SHIFT = 1"
definition CTL :: u32 where [layout]: "CTL = 2"
definition ALT :: u32 where [layout]: "ALT = 4"
definition CAPSLOCK :: u32 where [layout]: "CAPSLOCK = 8"
definition NUMLOCK :: u32 where [layout]: "NUMLOCK = 16"
definition SCROLLLOCK :: u32 where [layout]: "SCROLLLOCK = 32"
definition E0ESC :: u32 where [layout]: "E0ESC = 64"

definition shiftcode :: "u8 \<Rightarrow> u32" where
  "shiftcode d = (if d = 0x1D \<or> d = 0x9D then CTL else if d = 0x2A \<or> d = 0x36 then SHIFT
     else if d = 0x38 \<or> d = 0xB8 then ALT else 0)"

definition togglecode :: "u8 \<Rightarrow> u32" where
  "togglecode d = (if d = 0x3A then CAPSLOCK else if d = 0x45 then NUMLOCK else if d = 0x46 then SCROLLLOCK else 0)"

text \<open>The three character tables: the first rows as lists, the designated initialisers after them.
  The special keys are \<^verbatim>\<open>KEY_HOME\<close> (\<open>0xE0\<close>), \<^verbatim>\<open>KEY_END\<close>, \<^verbatim>\<open>KEY_UP\<close>, \<^verbatim>\<open>KEY_DN\<close>, \<^verbatim>\<open>KEY_LF\<close>, \<^verbatim>\<open>KEY_RT\<close>, \<^verbatim>\<open>KEY_PGUP\<close>,
  \<^verbatim>\<open>KEY_PGDN\<close>, \<^verbatim>\<open>KEY_INS\<close>, \<^verbatim>\<open>KEY_DEL\<close> (\<open>0xE9\<close>).\<close>

definition KEY_DEL :: u8 where [layout]: "KEY_DEL = 0xE9"

definition special_keys :: "(u8 \<times> u8) list" where
  "special_keys = [(0xC8, 0xE2), (0xC9, 0xE6), (0xCB, 0xE4), (0xCD, 0xE5), (0xCF, 0xE1), (0xD0, 0xE3), (0xD1, 0xE7),
     (0xD2, 0xE8), (0xD3, 0xE9)]"

definition table_lookup :: "u8 list \<Rightarrow> (u8 \<times> u8) list \<Rightarrow> u8 \<Rightarrow> u8" where
  "table_lookup rows extra d =
     (if unat d < length rows then rows ! unat d else case map_of extra d of Some v \<Rightarrow> v | None \<Rightarrow> 0)"

definition normalmap :: "u8 \<Rightarrow> u8" where
  "normalmap = table_lookup [
      0, 0x1b, 0x31, 0x32, 0x33, 0x34, 0x35, 0x36,
      0x37, 0x38, 0x39, 0x30, 0x2d, 0x3d, 0x8, 0x9,
      0x71, 0x77, 0x65, 0x72, 0x74, 0x79, 0x75, 0x69,
      0x6f, 0x70, 0x5b, 0x5d, 0xa, 0, 0x61, 0x73,
      0x64, 0x66, 0x67, 0x68, 0x6a, 0x6b, 0x6c, 0x3b,
      0x27, 0x60, 0, 0x5c, 0x7a, 0x78, 0x63, 0x76,
      0x62, 0x6e, 0x6d, 0x2c, 0x2e, 0x2f, 0, 0x2a,
      0, 0x20, 0, 0, 0, 0, 0, 0,
      0, 0, 0, 0, 0, 0, 0, 0x37,
      0x38, 0x39, 0x2d, 0x34, 0x35, 0x36, 0x2b, 0x31,
      0x32, 0x33, 0x30, 0x2e, 0, 0, 0, 0]
     ([(0xC7, 0xE0), (0x9C, 0x0A), (0xB5, 0x2F)] @ special_keys)"

definition shiftmap :: "u8 \<Rightarrow> u8" where
  "shiftmap = table_lookup [
      0, 0x1b, 0x21, 0x40, 0x23, 0x24, 0x25, 0x5e,
      0x26, 0x2a, 0x28, 0x29, 0x5f, 0x2b, 0x8, 0x9,
      0x51, 0x57, 0x45, 0x52, 0x54, 0x59, 0x55, 0x49,
      0x4f, 0x50, 0x7b, 0x7d, 0xa, 0, 0x41, 0x53,
      0x44, 0x46, 0x47, 0x48, 0x4a, 0x4b, 0x4c, 0x3a,
      0x22, 0x7e, 0, 0x7c, 0x5a, 0x58, 0x43, 0x56,
      0x42, 0x4e, 0x4d, 0x3c, 0x3e, 0x3f, 0, 0x2a,
      0, 0x20, 0, 0, 0, 0, 0, 0,
      0, 0, 0, 0, 0, 0, 0, 0x37,
      0x38, 0x39, 0x2d, 0x34, 0x35, 0x36, 0x2b, 0x31,
      0x32, 0x33, 0x30, 0x2e, 0, 0, 0, 0]
     ([(0xC7, 0xE0), (0x9C, 0x0A), (0xB5, 0x2F)] @ special_keys)"

definition ctlmap :: "u8 \<Rightarrow> u8" where
  "ctlmap = table_lookup [
      0, 0, 0, 0, 0, 0, 0, 0,
      0, 0, 0, 0, 0, 0, 0, 0,
      0x11, 0x17, 0x5, 0x12, 0x14, 0x19, 0x15, 0x9,
      0xf, 0x10, 0, 0, 0xd, 0, 0x1, 0x13,
      0x4, 0x6, 0x7, 0x8, 0xa, 0xb, 0xc, 0,
      0, 0, 0, 0x1c, 0x1a, 0x18, 0x3, 0x16,
      0x2, 0xe, 0xd, 0, 0, 0xef, 0, 0]
     ([(0x97, 0xE0), (0xB5, 0xEF)] @ special_keys)"

definition charcode :: "u32 \<Rightarrow> u8 \<Rightarrow> u8" where
  "charcode i = (if i = 0 then normalmap else if i = SHIFT then shiftmap else ctlmap)"

text \<open>What \<^verbatim>\<open>kbd_proc_data\<close> does with a scan code that completes a key press, once the escape bit is merged.\<close>

definition kbd_press :: "u8 \<Rightarrow> console \<Rightarrow> int \<times> console" where
  "kbd_press data s =
     (let sh = (shift s OR shiftcode data) XOR togglecode data;
          s1 = s\<lparr>shift := sh\<rparr>;
          c = uint (charcode (sh AND (CTL OR SHIFT)) data);
          c' = (if sh AND CAPSLOCK \<noteq> 0
                then if 97 \<le> c \<and> c \<le> 122 then c - 32 else if 65 \<le> c \<and> c \<le> 90 then c + 32 else c
                else c);
          s2 = (if NOT sh AND (CTL OR ALT) = 0 \<and> c' = uint KEY_DEL then outb 0x92 0x3 s1 else s1)
      in (c', s2))"

definition kbd_proc_data :: "console \<Rightarrow> int \<times> console" where
  "kbd_proc_data s =
     (case kbd_in s of
        [] \<Rightarrow> (- 1, s)
      | data # rest \<Rightarrow>
          let s1 = s\<lparr>kbd_in := rest\<rparr>
          in if data = 0xE0 then (0, s1\<lparr>shift := shift s1 OR E0ESC\<rparr>)
             else if data AND 0x80 \<noteq> 0
             then let data' = (if shift s1 AND E0ESC \<noteq> 0 then data else data AND 0x7F)
                  in (0, s1\<lparr>shift := shift s1 AND NOT (shiftcode data' OR E0ESC)\<rparr>)
             else if shift s1 AND E0ESC \<noteq> 0
             then kbd_press (data OR 0x80) (s1\<lparr>shift := shift s1 AND NOT E0ESC\<rparr>)
             else kbd_press data s1)"

subsection \<open>The input buffer\<close>

definition CONSBUFSIZE :: nat where [layout]: "CONSBUFSIZE = 512"

definition cons_store :: "int \<Rightarrow> console \<Rightarrow> console" where
  "cons_store c s =
     (let s1 = s\<lparr>cbuf := (cbuf s)(unat (wpos s) := word_of_int c), wpos := wpos s + 1\<rparr>
      in if unat (wpos s1) = CONSBUFSIZE then s1\<lparr>wpos := 0\<rparr> else s1)"

text \<open>The loop ends only when \<^verbatim>\<open>proc\<close> answers \<open>-1\<close>; not ending is the value \<open>None\<close>.\<close>

partial_function (option) cons_intr :: "(console \<Rightarrow> int \<times> console) \<Rightarrow> console \<Rightarrow> console option" where
  "cons_intr proc s =
     (case proc s of
        (c, s1) \<Rightarrow> if c = - 1 then Some s1 else if c = 0 then cons_intr proc s1 else cons_intr proc (cons_store c s1))"

definition serial_intr :: "console \<Rightarrow> console option" where
  "serial_intr s = (if serial_exists s then cons_intr serial_proc_data s else Some s)"

definition kbd_intr :: "console \<Rightarrow> console option" where
  "kbd_intr s = cons_intr kbd_proc_data s"

definition cons_take :: "console \<Rightarrow> int \<times> console" where
  "cons_take s =
     (if rpos s \<noteq> wpos s
      then let c = cbuf s (unat (rpos s)); s1 = s\<lparr>rpos := rpos s + 1\<rparr>
           in (uint c, if unat (rpos s1) = CONSBUFSIZE then s1\<lparr>rpos := 0\<rparr> else s1)
      else (0, s))"

definition cons_getc :: "console \<Rightarrow> (int \<times> console) option" where
  "cons_getc s = do { s1 \<leftarrow> serial_intr s; s2 \<leftarrow> kbd_intr s1; Some (cons_take s2) }"

definition kbd_init :: "console \<Rightarrow> console option" where
  "kbd_init s = do { s1 \<leftarrow> kbd_intr s; Some (irq_setmask_8259A (irq_mask_8259A s1 AND NOT (push_bit 1 1)) s1) }"

definition cons_init :: "bool \<Rightarrow> u8 \<Rightarrow> u8 \<Rightarrow> u8 \<Rightarrow> console \<Rightarrow> console option" where
  "cons_init cga hi lo lsr s = do { s1 \<leftarrow> kbd_init (cga_init cga hi lo s); Some (serial_init lsr s1) }"

definition cputchar :: "u32 \<Rightarrow> console \<Rightarrow> console" where
  "cputchar = cons_putc"

text \<open>\<open>getchar\<close> waits until a character arrives. What the devices receive while it waits is the argument
  \<open>arrivals\<close>, the pairs of keyboard and serial bytes that arrive before each further poll; when they
  end without a character, it is still waiting.\<close>

fun getchar :: "(u8 list \<times> u8 list) list \<Rightarrow> console \<Rightarrow> (int \<times> console) option" where
  "getchar arrivals s =
     do {
       (c, s1) \<leftarrow> cons_getc s;
       (if c \<noteq> 0 then Some (c, s1)
        else case arrivals of
               [] \<Rightarrow> None
             | (k, b) # rest \<Rightarrow> getchar rest (s1\<lparr>kbd_in := kbd_in s1 @ k, com_in := com_in s1 @ b\<rparr>))
     }"

declare cons_putc.simps [simp del] cga_putc.simps [simp del] getchar.simps [simp del]

subsection \<open>The interface of a bounded queue\<close>

locale bounded_fifo =
  fixes ok :: "'s \<Rightarrow> bool" and items :: "'s \<Rightarrow> 'a list" and room :: nat
    and put :: "'a \<Rightarrow> 's \<Rightarrow> 's" and get :: "'s \<Rightarrow> 'a option \<times> 's"
  assumes put_ok: "ok s \<Longrightarrow> ok (put c s)"
    and put_items: "ok s \<Longrightarrow> length (items s) < room \<Longrightarrow> items (put c s) = items s @ [c]"
    and get_ok: "ok s \<Longrightarrow> ok (snd (get s))"
    and get_items: "ok s \<Longrightarrow> (case items s of [] \<Rightarrow> get s = (None, s)
          | c # cs \<Rightarrow> fst (get s) = Some c \<and> items (snd (get s)) = cs)"
begin

lemma puts_ok: "ok s \<Longrightarrow> ok (fold put xs s)"
  by (induction xs arbitrary: s) (simp_all add: put_ok)

lemma puts_items: "ok s \<Longrightarrow> length (items s) + length xs \<le> room \<Longrightarrow> items (fold put xs s) = items s @ xs"
  by (induction xs arbitrary: s) (simp_all add: put_ok put_items)

lemma puts_get:
  assumes "ok s" "length (items s) + length xs \<le> room"
  shows "case items s @ xs of [] \<Rightarrow> get (fold put xs s) = (None, fold put xs s)
    | c # cs \<Rightarrow> fst (get (fold put xs s)) = Some c \<and> items (snd (get (fold put xs s))) = cs"
  using get_items [OF puts_ok [OF assms(1)], of xs] puts_items [OF assms] by simp

end

subsection \<open>The ring buffer\<close>

definition cons_ok :: "console \<Rightarrow> bool" where
  "cons_ok s \<longleftrightarrow> unat (rpos s) < 512 \<and> unat (wpos s) < 512"

definition pend_len :: "console \<Rightarrow> nat" where
  "pend_len s = (unat (wpos s) + 512 - unat (rpos s)) mod 512"

definition pend :: "console \<Rightarrow> u8 list" where
  "pend s = map (\<lambda>k. cbuf s ((unat (rpos s) + k) mod 512)) [0..<pend_len s]"

definition cons_get :: "console \<Rightarrow> u8 option \<times> console" where
  "cons_get s = (if rpos s \<noteq> wpos s then (Some (word_of_int (fst (cons_take s))), snd (cons_take s)) else (None, s))"

lemma unat_next:
  assumes "unat (a :: u32) < 512"
  shows "unat (if unat (a + 1) = 512 then 0 else a + 1) = (unat a + 1) mod 512"
proof -
  have "unat (a + 1) = unat a + 1"
    using assms unat_add_no_wrap [of a 1] by simp
  then show ?thesis using assms by (simp add: mod_if)
qed

lemma cons_store_sel:
  "cbuf (cons_store c s) = (cbuf s)(unat (wpos s) := word_of_int c)" "rpos (cons_store c s) = rpos s"
  "wpos (cons_store c s) = (if unat (wpos s + 1) = 512 then 0 else wpos s + 1)"
  "kbd_in (cons_store c s) = kbd_in s" "com_in (cons_store c s) = com_in s" "shift (cons_store c s) = shift s"
  "serial_exists (cons_store c s) = serial_exists s"
  by (simp_all add: cons_store_def Let_def layout)

lemma pend_len_0: "cons_ok s \<Longrightarrow> pend_len s = 0 \<longleftrightarrow> rpos s = wpos s"
  unfolding pend_len_def cons_ok_def word_unat_eq_iff by (auto simp: mod_if split: if_splits)

lemma cons_store_items:
  assumes "cons_ok s" "length (pend s) < 511"
  shows "pend (cons_store (uint c) s) = pend s @ [c]"
proof -
  let ?r = "unat (rpos s)" and ?w = "unat (wpos s)" and ?n = "pend_len s"
  have b: "?r < 512" "?w < 512" and n: "?n < 511"
    using assms by (auto simp: cons_ok_def pend_def)
  have w: "(?r + ?n) mod 512 = ?w"
    using b unfolding pend_len_def by (auto simp: mod_if split: if_splits)
  have "pend_len (cons_store (uint c) s) = ((?w + 1) mod 512 + 512 - ?r) mod 512"
    using unat_next [OF b(2)] by (simp add: pend_len_def cons_store_sel)
  also have "\<dots> = ?n + 1"
    using b n unfolding pend_len_def by (auto simp: mod_if split: if_splits)
  finally have len: "pend_len (cons_store (uint c) s) = Suc ?n"
    by simp
  have "(?r + k) mod 512 \<noteq> ?w" if "k < ?n" for k
    using that b n w by (auto simp: mod_if split: if_splits)
  then show ?thesis
    by (simp add: pend_def len cons_store_sel w)
qed

lemma cons_take_items:
  assumes "cons_ok s"
  shows "cons_ok (snd (cons_take s))" "case pend s of [] \<Rightarrow> rpos s = wpos s \<and> cons_take s = (0, s)
    | c # cs \<Rightarrow> rpos s \<noteq> wpos s \<and> fst (cons_take s) = uint c \<and> pend (snd (cons_take s)) = cs"
proof -
  let ?r = "unat (rpos s)" and ?w = "unat (wpos s)" and ?n = "pend_len s" and ?s = "snd (cons_take s)"
  have b: "?r < 512" "?w < 512"
    using assms by (auto simp: cons_ok_def)
  have sel: "cbuf ?s = cbuf s" "wpos ?s = wpos s"
    "rpos ?s = (if rpos s \<noteq> wpos s then if unat (rpos s + 1) = 512 then 0 else rpos s + 1 else rpos s)"
    by (simp_all add: cons_take_def Let_def layout)
  have r: "unat (rpos ?s) = (?r + 1) mod 512" if "rpos s \<noteq> wpos s"
    using that unat_next [OF b(1)] by (simp only: sel if_True simp_thms)
  show "cons_ok ?s"
    using b r by (cases "rpos s = wpos s") (auto simp: cons_ok_def sel)
  show "case pend s of [] \<Rightarrow> rpos s = wpos s \<and> cons_take s = (0, s)
    | c # cs \<Rightarrow> rpos s \<noteq> wpos s \<and> fst (cons_take s) = uint c \<and> pend ?s = cs"
  proof (cases "rpos s = wpos s")
    case True
    then show ?thesis
      using pend_len_0 [OF assms] by (simp add: pend_def cons_take_def)
  next
    case False
    then obtain m where m: "?n = Suc m"
      using pend_len_0 [OF assms] by (cases ?n) auto
    have "pend_len ?s = (?w + 512 - (?r + 1) mod 512) mod 512"
      using r [OF False] by (simp add: pend_len_def sel)
    also have "\<dots> = m"
      using m b unfolding pend_len_def by (auto simp: mod_if split: if_splits)
    finally have "pend_len ?s = m" .
    moreover have "(?r + Suc k) mod 512 = ((?r + 1) mod 512 + k) mod 512" for k
      by (metis add.assoc mod_add_left_eq plus_1_eq_Suc)
    ultimately have "pend s = cbuf s ?r # pend ?s"
      using b r [OF False] m by (simp add: pend_def upt_conv_Cons sel map_Suc_upt [symmetric] del: upt_Suc)
    with False show ?thesis
      by (simp add: cons_take_def Let_def)
  qed
qed

interpretation input_queue: bounded_fifo cons_ok pend 511 "\<lambda>c. cons_store (uint c)" cons_get
proof (unfold_locales, goal_cases)
  case (1 s c)
  then have "unat (if unat (wpos s + 1) = 512 then 0 else wpos s + 1) < 512"
    by (subst unat_next) (simp_all add: cons_ok_def)
  with 1 show ?case
    unfolding cons_ok_def cons_store_sel by simp
next
  case (2 s c)
  then show ?case by (rule cons_store_items)
next
  case (3 s)
  then show ?case using cons_take_items(1) by (simp add: cons_get_def)
next
  case (4 s)
  then show ?case
    using cons_take_items(2) [of s] by (auto simp: cons_get_def split: list.splits)
qed

subsection \<open>The interrupt loops end\<close>

text \<open>\<open>kbd_key d sh\<close>: the character a scan code produces (0 for none) and the modifier state after it;
  \<open>kbd_chars\<close> the characters of a sequence of scan codes.\<close>

definition caps :: "u32 \<Rightarrow> u8 \<Rightarrow> u8" where
  "caps sh c = (if sh AND CAPSLOCK \<noteq> 0
     then if 97 \<le> c \<and> c \<le> 122 then c - 32 else if 65 \<le> c \<and> c \<le> 90 then c + 32 else c else c)"

definition kbd_key :: "u8 \<Rightarrow> u32 \<Rightarrow> u8 \<times> u32" where
  "kbd_key d sh =
     (if d = 0xE0 then (0, sh OR E0ESC)
      else if d AND 0x80 \<noteq> 0
      then (0, sh AND NOT (shiftcode (if sh AND E0ESC \<noteq> 0 then d else d AND 0x7F) OR E0ESC))
      else let d' = (if sh AND E0ESC \<noteq> 0 then d OR 0x80 else d);
               sh' = ((sh AND NOT E0ESC) OR shiftcode d') XOR togglecode d';
               c = charcode (sh' AND (CTL OR SHIFT)) d'
           in (caps sh' c, sh'))"

fun kbd_chars :: "u8 list \<Rightarrow> u32 \<Rightarrow> u8 list" where
  "kbd_chars [] sh = []"
| "kbd_chars (d # ds) sh =
     (let (c, sh') = kbd_key d sh in if c = 0 then kbd_chars ds sh' else c # kbd_chars ds sh')"

fun kbd_shift :: "u8 list \<Rightarrow> u32 \<Rightarrow> u32" where
  "kbd_shift [] sh = sh"
| "kbd_shift (d # ds) sh = kbd_shift ds (snd (kbd_key d sh))"

lemma uint_capslock:
  "(if 97 \<le> uint c \<and> uint c \<le> 122 then uint c - 32 else if 65 \<le> uint c \<and> uint c \<le> 90 then uint c + 32 else uint c) =
   uint (if 97 \<le> c \<and> c \<le> 122 then c - 32 else if 65 \<le> c \<and> c \<le> 90 then c + 32 else (c :: u8))"
proof -
  have "uint (c - 32) = uint c - 32" if "97 \<le> uint c"
    using that uint_lt2p [of c] by (simp add: uint_word_ariths mod_pos_pos_trivial)
  moreover have "uint (c + 32) = uint c + 32" if "uint c \<le> 90"
    using that by (simp add: uint_word_ariths mod_pos_pos_trivial)
  ultimately show ?thesis
    by (simp add: word_le_def)
qed

lemma and_not_absorb: "sh AND m = 0 \<Longrightarrow> sh AND NOT m = (sh :: u32)"
proof -
  assume "sh AND m = 0"
  moreover have "sh = (sh AND m) OR (sh AND NOT m)"
    by (simp add: bit.conj_disj_distrib [symmetric])
  ultimately show ?thesis by simp
qed

lemma kbd_press_eq:
  assumes "sh = (shift s OR shiftcode d) XOR togglecode d"
  shows "\<exists>os. kbd_press d s = (uint (caps sh (charcode (sh AND (CTL OR SHIFT)) d)), s\<lparr>shift := sh, outs := os\<rparr>)"
proof -
  let ?c = "charcode (sh AND (CTL OR SHIFT)) d"
  have "uint (caps sh ?c) = (if sh AND CAPSLOCK \<noteq> 0
      then if 97 \<le> uint ?c \<and> uint ?c \<le> 122 then uint ?c - 32 else if 65 \<le> uint ?c \<and> uint ?c \<le> 90 then uint ?c + 32 else uint ?c
      else uint ?c)"
    unfolding caps_def uint_capslock by (rule if_distrib)
  then have "kbd_press d s = (uint (caps sh ?c), s\<lparr>shift := sh, outs :=
     (if NOT sh AND (CTL OR ALT) = 0 \<and> uint (caps sh ?c) = uint KEY_DEL then outs s @ [(0x92, 0x3)] else outs s)\<rparr>)"
    unfolding kbd_press_def Let_def assms [symmetric] by (simp add: outb_def)
  then show ?thesis by blast
qed

lemma kbd_proc_data_key:
  assumes "kbd_in s = d # ds"
  shows "\<exists>os. kbd_proc_data s = (uint (fst (kbd_key d (shift s))),
    s\<lparr>kbd_in := ds, shift := snd (kbd_key d (shift s)), outs := os\<rparr>)"
proof -
  consider "d = 0xE0" | "d \<noteq> 0xE0" "d AND 0x80 \<noteq> 0"
    | (esc) "d \<noteq> 0xE0" "d AND 0x80 = 0" "shift s AND E0ESC \<noteq> 0"
    | (plain) "d \<noteq> 0xE0" "d AND 0x80 = 0" "shift s AND E0ESC = 0" by blast
  then show ?thesis
  proof cases
    case 1
    then show ?thesis
      by (intro exI [of _ "outs s"]) (simp add: kbd_proc_data_def assms kbd_key_def)
  next
    case 2
    then show ?thesis
      by (intro exI [of _ "outs s"]) (simp add: kbd_proc_data_def assms kbd_key_def)
  next
    case esc
    let ?s = "s\<lparr>kbd_in := ds, shift := shift s AND NOT E0ESC\<rparr>"
    have "kbd_proc_data s = kbd_press (d OR 0x80) ?s"
      using esc by (simp add: kbd_proc_data_def assms)
    with esc kbd_press_eq [OF refl, of "d OR 0x80" ?s] show ?thesis
      by (simp add: kbd_key_def Let_def)
  next
    case plain
    have "kbd_proc_data s = kbd_press d (s\<lparr>kbd_in := ds\<rparr>)"
      using plain by (simp add: kbd_proc_data_def assms)
    with plain kbd_press_eq [OF refl, of d "s\<lparr>kbd_in := ds\<rparr>"] show ?thesis
      by (simp add: kbd_key_def Let_def and_not_absorb)
  qed
qed

lemma uint_tests: "uint (b :: u8) \<noteq> - 1" "uint b = 0 \<longleftrightarrow> b = 0"
  by (metis uint_ge_0 not_le less_minus_one_simps(1)) (simp add: unsigned_eq_0_iff)

lemma puts_sel:
  "kbd_in (fold (\<lambda>c. cons_store (uint c)) xs s) = kbd_in s" "com_in (fold (\<lambda>c. cons_store (uint c)) xs s) = com_in s"
  "shift (fold (\<lambda>c. cons_store (uint c)) xs s) = shift s"
  "serial_exists (fold (\<lambda>c. cons_store (uint c)) xs s) = serial_exists s"
  by (induction xs arbitrary: s) (simp_all add: cons_store_sel)

lemma cons_intr_serial:
  "cons_intr serial_proc_data s =
     Some (fold (\<lambda>c. cons_store (uint c)) (filter (\<lambda>b. b \<noteq> 0) (com_in s)) (s\<lparr>com_in := []\<rparr>))"
proof (induction "com_in s" arbitrary: s)
  case Nil
  then show ?case
    by (subst cons_intr.simps) (cases s, simp add: serial_proc_data_def)
next
  case (Cons b bs)
  have m: "cons_store c (s\<lparr>com_in := bs\<rparr>) = (cons_store c s)\<lparr>com_in := bs\<rparr>" for c bs
    by (simp add: cons_store_def Let_def)
  have "cons_intr serial_proc_data s =
      cons_intr serial_proc_data (if b = 0 then s\<lparr>com_in := bs\<rparr> else cons_store (uint b) (s\<lparr>com_in := bs\<rparr>))"
    by (subst cons_intr.simps) (simp add: serial_proc_data_def Cons(2) [symmetric] uint_tests)
  with Cons(1) [of "if b = 0 then s\<lparr>com_in := bs\<rparr> else cons_store (uint b) (s\<lparr>com_in := bs\<rparr>)"]
  show ?case
    by (auto simp: Cons(2) [symmetric] cons_store_sel m)
qed

text \<open>The keyboard loop: the state it ends in agrees with storing the characters of the scan codes, up to the port
  log.\<close>

lemma cons_intr_kbd:
  "\<exists>os. cons_intr kbd_proc_data s = Some ((fold (\<lambda>c. cons_store (uint c)) (kbd_chars (kbd_in s) (shift s))
     (s\<lparr>kbd_in := [], shift := kbd_shift (kbd_in s) (shift s)\<rparr>))\<lparr>outs := os\<rparr>)"
proof (induction "kbd_in s" arbitrary: s)
  case Nil
  then show ?case
    by (intro exI [of _ "outs s"], subst cons_intr.simps) (cases s, simp add: kbd_proc_data_def)
next
  case (Cons d ds)
  obtain c sh' where k: "kbd_key d (shift s) = (c, sh')"
    by (cases "kbd_key d (shift s)")
  obtain os where p: "kbd_proc_data s = (uint c, s\<lparr>kbd_in := ds, shift := sh', outs := os\<rparr>)"
    using kbd_proc_data_key [OF Cons(2) [symmetric]] k by auto
  let ?s = "s\<lparr>kbd_in := ds, shift := sh', outs := os\<rparr>"
  let ?t = "if c = 0 then ?s else cons_store (uint c) ?s"
  have run: "cons_intr kbd_proc_data s = cons_intr kbd_proc_data ?t"
    by (subst cons_intr.simps) (simp add: p uint_tests)
  have m: "cons_store a (s\<lparr>kbd_in := x, shift := y, outs := z\<rparr>) = (cons_store a s)\<lparr>kbd_in := x, shift := y, outs := z\<rparr>" for a s x y z
    by (simp add: cons_store_def Let_def)
  have f: "(fold (\<lambda>c. cons_store (uint c)) xs (s\<lparr>kbd_in := x, shift := y, outs := z\<rparr>))\<lparr>outs := w\<rparr> =
      (fold (\<lambda>c. cons_store (uint c)) xs (s\<lparr>kbd_in := x, shift := y\<rparr>))\<lparr>outs := w\<rparr>" for xs s x y z w
  proof (induction xs arbitrary: s)
    case (Cons a as)
    have "cons_store (uint a) (s\<lparr>kbd_in := x, shift := y\<rparr>) = (cons_store (uint a) s)\<lparr>kbd_in := x, shift := y\<rparr>"
      by (simp add: cons_store_def Let_def)
    with Cons show ?case by (simp add: m)
  qed simp
  have "kbd_in ?t = ds" "shift ?t = sh'"
    by (simp_all add: cons_store_sel)
  with Cons(1) [of ?t] obtain w where
    "cons_intr kbd_proc_data ?t = Some ((fold (\<lambda>c. cons_store (uint c)) (kbd_chars ds sh') (?t\<lparr>kbd_in := [], shift := kbd_shift ds sh'\<rparr>))\<lparr>outs := w\<rparr>)"
    by auto
  moreover have "cons_store (uint c) (s\<lparr>kbd_in := ds, shift := x\<rparr>)\<lparr>kbd_in := y\<rparr> = cons_store (uint c) (s\<lparr>kbd_in := y, shift := x\<rparr>)" for x y
    by (simp add: cons_store_def Let_def)
  moreover have "?t\<lparr>kbd_in := [], shift := kbd_shift ds sh'\<rparr> = (if c = 0 then s\<lparr>kbd_in := [], shift := kbd_shift ds sh', outs := os\<rparr>
      else (cons_store (uint c) s)\<lparr>kbd_in := [], shift := kbd_shift ds sh', outs := os\<rparr>)"
    by (simp add: m)
  moreover have "cons_store (uint c) (s\<lparr>kbd_in := [], shift := kbd_shift ds sh'\<rparr>) = (cons_store (uint c) s)\<lparr>kbd_in := [], shift := kbd_shift ds sh'\<rparr>"
    by (simp add: cons_store_def Let_def)
  ultimately show ?case
    using run by (intro exI [of _ w]) (simp add: Cons(2) [symmetric] k f)
qed

subsection \<open>Concrete states\<close>

definition demo_cons :: console where
  "demo_cons = \<lparr>cbuf = (\<lambda>_. 0), rpos = 0, wpos = 0, serial_exists = True, shift = 0, addr_6845 = CGA_BASE,
     crt_buf = (\<lambda>_. 0), crt_pos = 1999, irq_mask_8259A = 0xFFFB, didinit = False, kbd_in = [], com_in = [], outs = []\<rparr>"

lemma demo_cons_ok: "cons_ok demo_cons" "pend demo_cons = []"
  by (simp_all add: cons_ok_def pend_def pend_len_def demo_cons_def)

subsection \<open>What console input guarantees\<close>

lemma pend_upd [simp]:
  "pend (s\<lparr>com_in := a\<rparr>) = pend s" "pend (s\<lparr>kbd_in := a\<rparr>) = pend s" "pend (s\<lparr>shift := x\<rparr>) = pend s"
  "pend (s\<lparr>outs := os\<rparr>) = pend s" "cons_ok (s\<lparr>com_in := a\<rparr>) = cons_ok s" "cons_ok (s\<lparr>kbd_in := a\<rparr>) = cons_ok s"
  "cons_ok (s\<lparr>shift := x\<rparr>) = cons_ok s" "cons_ok (s\<lparr>outs := os\<rparr>) = cons_ok s"
  by (simp_all add: pend_def pend_len_def cons_ok_def)

text \<open>C37. Console input is a queue: \<^verbatim>\<open>cons_getc\<close> ends, drains both devices, and returns the oldest character of those
  that were waiting in the buffer, followed by the non-zero serial bytes and the characters typed on
  the keyboard, keeping the others in order; it returns 0 exactly when there is none. This holds as long as
  fewer than 512 characters wait.\<close>

theorem cons_getc_fifo:
  assumes "cons_ok s" "serial_exists s"
    "xs = pend s @ filter (\<lambda>b. b \<noteq> 0) (com_in s) @ kbd_chars (kbd_in s) (shift s)" "length xs < 512"
  shows "\<exists>r s'. cons_getc s = Some (r, s') \<and> cons_ok s' \<and> com_in s' = [] \<and> kbd_in s' = [] \<and>
    shift s' = kbd_shift (kbd_in s) (shift s) \<and>
    (case xs of [] \<Rightarrow> r = 0 \<and> pend s' = [] | c # cs \<Rightarrow> r = uint c \<and> pend s' = cs)"
proof -
  let ?put = "fold (\<lambda>c. cons_store (uint c))" and ?ser = "filter (\<lambda>b. b \<noteq> 0) (com_in s)" and ?kbd = "kbd_chars (kbd_in s) (shift s)"
  define s1 where "s1 = ?put ?ser (s\<lparr>com_in := []\<rparr>)"
  have 1: "serial_intr s = Some s1" "cons_ok s1" "pend s1 = pend s @ ?ser" "kbd_in s1 = kbd_in s" "shift s1 = shift s" "com_in s1 = []"
    using assms input_queue.puts_ok [of "s\<lparr>com_in := []\<rparr>" ?ser] input_queue.puts_items [of "s\<lparr>com_in := []\<rparr>" ?ser]
    by (simp_all add: serial_intr_def cons_intr_serial s1_def puts_sel)
  let ?t = "s1\<lparr>kbd_in := [], shift := kbd_shift (kbd_in s) (shift s)\<rparr>"
  obtain os where k: "kbd_intr s1 = Some ((?put ?kbd ?t)\<lparr>outs := os\<rparr>)"
    using cons_intr_kbd [of s1] 1(4,5) by (auto simp: kbd_intr_def)
  define s2 where "s2 = (?put ?kbd ?t)\<lparr>outs := os\<rparr>"
  have 2: "kbd_intr s1 = Some s2" "cons_ok s2" "pend s2 = xs" "com_in s2 = []" "kbd_in s2 = []"
    "shift s2 = kbd_shift (kbd_in s) (shift s)"
    using k 1 assms(3,4) input_queue.puts_ok [of ?t ?kbd] input_queue.puts_items [of ?t ?kbd] by (simp_all add: s2_def puts_sel)
  have sel: "com_in (snd (cons_take s2)) = []" "kbd_in (snd (cons_take s2)) = []" "shift (snd (cons_take s2)) = shift s2"
    using 2(4,5) by (simp_all add: cons_take_def Let_def)
  have run: "cons_getc s = Some (cons_take s2)"
    using 1(1) 2(1) by (simp add: cons_getc_def)
  show ?thesis
    using run cons_take_items [OF 2(2)] 2 sel by (cases "cons_take s2") (auto split: list.splits)
qed

theorem cons_getc_fifo_witness:
  "\<exists>s'. cons_getc (demo_cons\<lparr>com_in := [0x68, 0, 0x69], kbd_in := [0x2A, 0x1E]\<rparr>) = Some (0x68, s') \<and> pend s' = [0x69, 0x41]"
proof -
  have k: "kbd_chars [0x2A, 0x1E] 0 = [0x41]"
    by (simp add: kbd_key_def shiftcode_def togglecode_def charcode_def shiftmap_def normalmap_def table_lookup_def
        special_keys_def caps_def Let_def layout)
  have "cons_ok (demo_cons\<lparr>com_in := [0x68, 0, 0x69], kbd_in := [0x2A, 0x1E]\<rparr>)"
    "pend (demo_cons\<lparr>com_in := [0x68, 0, 0x69], kbd_in := [0x2A, 0x1E]\<rparr>) = []"
    using demo_cons_ok by simp_all
  then show ?thesis
    using cons_getc_fifo [OF _ _ refl, of "demo_cons\<lparr>com_in := [0x68, 0, 0x69], kbd_in := [0x2A, 0x1E]\<rparr>"] k
    by (auto simp: demo_cons_def)
qed

lemma puts_wpos:
  fixes xs :: "u8 list"
  assumes "cons_ok s"
  shows "rpos (fold (\<lambda>c. cons_store (uint c)) xs s) = rpos s"
    "unat (wpos (fold (\<lambda>c. cons_store (uint c)) xs s)) = (unat (wpos s) + length xs) mod 512"
  using assms
proof (induction xs arbitrary: s)
  case (Cons x xs)
  { case 1
    then show ?case using Cons(1) [OF input_queue.put_ok [OF 1]] by (simp add: cons_store_sel)
  next
    case 2
    have "unat (wpos (cons_store (uint x) s)) = (unat (wpos s) + 1) mod 512"
      using unat_next [of "wpos s"] 2 by (simp add: cons_store_sel cons_ok_def)
    with Cons(2) [OF input_queue.put_ok [OF 2]] show ?case by (simp add: mod_simps)
  }
qed (simp_all add: cons_ok_def)

text \<open>The buffer has no overflow check: when 512 serial bytes are polled at once on an empty buffer, the write
  position returns to the read position and all of them are lost, \<^verbatim>\<open>cons_getc\<close> reporting no input.\<close>

theorem cons_getc_overflow:
  assumes "cons_ok s" "serial_exists s" "kbd_in s = []" "pend s = []" "length (com_in s) = 512" "0 \<notin> set (com_in s)"
  shows "\<exists>s'. cons_getc s = Some (0, s') \<and> com_in s' = [] \<and> pend s' = []"
proof -
  have f: "filter (\<lambda>b. b \<noteq> 0) (com_in s) = com_in s"
    using assms(6) by (induction "com_in s") (auto simp: filter_id_conv)
  let ?s1 = "fold (\<lambda>c. cons_store (uint c)) (com_in s) (s\<lparr>com_in := []\<rparr>)"
  have e: "rpos s = wpos s"
    using assms(1,4) pend_len_0 [OF assms(1)] by (simp add: pend_def)
  have "unat (wpos ?s1) = unat (wpos s)" "rpos ?s1 = rpos s" and ok: "cons_ok ?s1"
    using puts_wpos [of "s\<lparr>com_in := []\<rparr>" "com_in s"] input_queue.puts_ok [of "s\<lparr>com_in := []\<rparr>"] assms(1,5) by (simp_all add: cons_ok_def)
  then have r: "rpos ?s1 = wpos ?s1"
    using e by (simp add: word_unat_eq_iff)
  have k: "kbd_intr ?s1 = Some ?s1"
    unfolding kbd_intr_def by (subst cons_intr.simps) (simp add: kbd_proc_data_def puts_sel assms(3))
  have "cons_getc s = Some (0, ?s1)"
    using k r by (simp add: cons_getc_def serial_intr_def assms(2) cons_intr_serial f cons_take_def)
  moreover have "pend ?s1 = []"
    using r pend_len_0 [OF ok] by (simp add: pend_def)
  ultimately show ?thesis
    by (simp add: puts_sel)
qed

theorem cons_getc_overflow_witness:
  "\<exists>s'. cons_getc (demo_cons\<lparr>com_in := replicate 512 0x61\<rparr>) = Some (0, s') \<and> com_in s' = [] \<and> pend s' = []"
proof -
  have "serial_exists demo_cons" "kbd_in demo_cons = []"
    by (simp_all add: demo_cons_def)
  then show ?thesis
    using cons_getc_overflow [of "demo_cons\<lparr>com_in := replicate 512 0x61\<rparr>"] demo_cons_ok by simp
qed

text \<open>Holding Shift around a key: with no modifier active, the scan codes \<open>press Shift, press d, release d,
  release Shift\<close> of a key \<open>d\<close> that is not itself a modifier produce exactly the character of the shift table
  (nothing when the table has none), and leave no modifier behind.\<close>

theorem kbd_shifted_key:
  assumes "cons_ok s" "shift s = 0" "length (pend s) < 511" "d < 0x80" "shiftcode d = 0" "togglecode d = 0"
    "kbd_in s = [0x2A, d, d OR 0x80, 0xAA]" "d \<noteq> 0x60"
  shows "\<exists>s'. kbd_intr s = Some s' \<and> shift s' = 0 \<and> kbd_in s' = [] \<and> cons_ok s' \<and>
    pend s' = pend s @ (if shiftmap d = 0 then [] else [shiftmap d])"
proof -
  have d: "d AND 0x80 = 0" "(d OR 0x80) AND 0x7F = d" "d \<noteq> 0xE0" "(d OR 0x80) AND 0x80 \<noteq> 0" "d OR 0x80 \<noteq> 0xE0"
  proof -
    have "take_bit 7 d = d"
      using assms(4) by (simp add: word_unat_eq_iff take_bit_eq_mod unat_mod word_less_nat_alt)
    then have a: "d AND 0x7F = d"
      by (simp add: take_bit_eq_mask mask_eq_exp_minus_1)
    then have "d AND 0x80 = d AND (0x7F AND 0x80)"
      by (metis and.assoc)
    then show "d AND 0x80 = 0" by simp
    show c: "(d OR 0x80) AND 0x7F = d"
      using a by (simp add: bit.conj_disj_distrib2)
    show "(d OR 0x80) AND 0x80 \<noteq> 0" "d \<noteq> 0xE0"
      using assms(4) by (auto simp: bit.conj_disj_distrib2 word_less_nat_alt)
    show "d OR 0x80 \<noteq> 0xE0"
      using c assms(8) by auto
  qed
  have none: "shiftmap 0x2A = 0"
    by (simp add: shiftmap_def table_lookup_def)
  have k1: "kbd_key 0x2A 0 = (0, 1)" and k4: "kbd_key 0xAA 1 = (0, 0)"
    by (simp_all add: none kbd_key_def Let_def shiftcode_def togglecode_def charcode_def caps_def layout)
  have k2: "kbd_key d 1 = (shiftmap d, 1)" and k3: "kbd_key (d OR 0x80) 1 = (0, 1)"
    using d by (simp_all add: assms(5,6) kbd_key_def Let_def charcode_def caps_def layout)
  have k: "kbd_chars (kbd_in s) (shift s) = (if shiftmap d = 0 then [] else [shiftmap d])" "kbd_shift (kbd_in s) (shift s) = 0"
    using k1 k2 k3 k4 by (simp_all add: assms(2,7))
  obtain os where "kbd_intr s = Some ((fold (\<lambda>c. cons_store (uint c)) (kbd_chars (kbd_in s) (shift s))
     (s\<lparr>kbd_in := [], shift := 0\<rparr>))\<lparr>outs := os\<rparr>)"
    using cons_intr_kbd [of s] k(2) by (auto simp: kbd_intr_def)
  then show ?thesis
    using assms(1,3) k input_queue.puts_items [of "s\<lparr>kbd_in := [], shift := 0\<rparr>"] input_queue.puts_ok [of "s\<lparr>kbd_in := [], shift := 0\<rparr>"]
    by (simp add: puts_sel)
qed

theorem kbd_shifted_key_witness:
  "\<exists>s'. kbd_intr (demo_cons\<lparr>kbd_in := [0x2A, 0x1E, 0x9E, 0xAA]\<rparr>) = Some s' \<and> shift s' = 0 \<and> pend s' = [0x41]"
proof -
  have "shift demo_cons = 0" "shiftmap 0x1E = 0x41" "shiftcode 0x1E = 0" "togglecode 0x1E = 0"
    by (simp_all add: demo_cons_def shiftmap_def table_lookup_def shiftcode_def togglecode_def)
  then show ?thesis
    using kbd_shifted_key [of "demo_cons\<lparr>kbd_in := [0x2A, 0x1E, 0x9E, 0xAA]\<rparr>" "0x1E"] demo_cons_ok by auto
qed

subsection \<open>What console output guarantees\<close>

text \<open>\<open>on_screen\<close>: the cursor is on the screen, and the display controller is not addressed through the serial
  port. \<open>serial_out\<close>: the bytes sent to the serial port so far.\<close>

definition on_screen :: "console \<Rightarrow> bool" where
  "on_screen s \<longleftrightarrow> unat (crt_pos s) < 2000 \<and> (addr_6845 s = CGA_BASE \<or> addr_6845 s = MONO_BASE)"

definition serial_out :: "console \<Rightarrow> u8 list" where
  "serial_out s = map snd (filter (\<lambda>(p, v). p = COM1) (outs s))"

text \<open>\<open>scrolls s t\<close>: \<open>t\<close> changes nothing outside the screen, and what the drivers of input keep.\<close>

definition screen_frame :: "console \<Rightarrow> console \<Rightarrow> bool" where
  "screen_frame s t \<longleftrightarrow> on_screen t \<and> (\<forall>i \<ge> 2000. crt_buf t i = crt_buf s i) \<and> cbuf t = cbuf s \<and> rpos t = rpos s \<and>
     wpos t = wpos s \<and> shift t = shift s \<and> kbd_in t = kbd_in s \<and> com_in t = com_in s"

lemma screen_frame_trans: "screen_frame s t \<Longrightarrow> screen_frame t u \<Longrightarrow> screen_frame s u"
  by (simp add: screen_frame_def)

lemma unat16_add: "unat (a :: u16) + b < 65536 \<Longrightarrow> unat (a + word_of_nat b) = unat a + b"
  by (simp add: unat_word_ariths unat_of_nat)

lemma unat16_sub:
  assumes "b \<le> unat (a :: u16)"
  shows "unat (a - word_of_nat b) = unat a - b"
proof -
  have "unat (word_of_nat b :: u16) = b"
    using assms unsigned_less [of a, where 'a = nat] by (simp add: unat_of_nat)
  then show ?thesis
    using assms by (simp add: unat_sub word_le_nat_alt)
qed

lemma crt_line: "unat ((p :: u16) - p mod word_of_nat 80) = unat p - unat p mod 80"
proof -
  have "p mod word_of_nat 80 = word_of_nat (unat p mod 80)"
    by (simp add: word_unat_eq_iff unat_mod unat_of_nat)
  then show ?thesis
    by (simp add: unat16_sub)
qed

lemma cga_char_pos:
  assumes "unat (crt_pos s) < 2000"
  shows "unat (crt_pos (cga_char c s)) \<le> 2079" "addr_6845 (cga_char c s) = addr_6845 s"
    "2000 \<le> i \<Longrightarrow> crt_buf (cga_char c s) i = crt_buf s i"
proof -
  let ?p = "crt_pos s"
  have dec: "unat (?p - 1) < unat ?p" if "0 < ?p"
    using that by (simp add: word_gt_0 measure_unat)
  have "unat (?p + word_of_nat 80) = unat ?p + 80"
    using assms by (intro unat16_add) simp
  then have nl: "unat (?p + word_of_nat 80 - (?p + word_of_nat 80) mod word_of_nat 80) \<le> 2079"
    using assms unfolding crt_line by linarith
  have cr: "unat (?p - ?p mod word_of_nat 80) \<le> 2079"
    using assms unfolding crt_line by linarith
  have inc: "unat (?p + 1) \<le> 2079"
    using assms unat16_add [of ?p 1] by simp
  show "unat (crt_pos (cga_char c s)) \<le> 2079"
    using nl cr inc dec assms by (auto simp: cga_char_def Let_def layout simp del: of_nat_numeral)
  show "addr_6845 (cga_char c s) = addr_6845 s"
    by (simp add: cga_char_def Let_def)
  show "2000 \<le> i \<Longrightarrow> crt_buf (cga_char c s) i = crt_buf s i"
    using dec assms by (auto simp: cga_char_def Let_def)
qed

lemma cga_tail:
  assumes "unat (crt_pos t) \<le> 2079" "addr_6845 t = CGA_BASE \<or> addr_6845 t = MONO_BASE"
  shows "on_screen (cga_cursor (cga_scroll t))" "serial_out (cga_cursor (cga_scroll t)) = serial_out t"
    "2000 \<le> i \<Longrightarrow> crt_buf (cga_cursor (cga_scroll t)) i = crt_buf t i"
proof -
  have "unat (crt_pos (cga_scroll t)) < 2000"
    using assms(1) unat16_sub [of 80 "crt_pos t"] by (auto simp: cga_scroll_def layout)
  then show "on_screen (cga_cursor (cga_scroll t))"
    using assms(2) by (simp add: on_screen_def cga_cursor_def outb_def) (simp add: cga_scroll_def)
  show "serial_out (cga_cursor (cga_scroll t)) = serial_out t"
    using assms(2) by (auto simp: serial_out_def cga_cursor_def outb_def cga_scroll_def layout)
  show "2000 \<le> i \<Longrightarrow> crt_buf (cga_cursor (cga_scroll t)) i = crt_buf t i"
    by (simp add: cga_cursor_def outb_def cga_scroll_def layout)
qed

lemma replicate5: "replicate 5 x = [x, x, x, x, x]"
  by (simp add: numeral_eq_Suc)

lemma cons_putc_plain:
  assumes "on_screen s" "c AND 0xFF \<noteq> 9"
  shows "screen_frame s (cons_putc c s)" "serial_out (cons_putc c s) = serial_out s @ [ucast c]"
proof -
  let ?s = "lpt_putc c (serial_putc c s)"
  have s: "crt_pos ?s = crt_pos s" "addr_6845 ?s = addr_6845 s" "crt_buf ?s = crt_buf s" "serial_out ?s = serial_out s @ [ucast c]"
    by (simp_all add: lpt_putc_def serial_putc_def outb_def serial_out_def layout)
  have eq: "cons_putc c s = cga_cursor (cga_scroll (cga_char (cga_attr c) ?s))"
    using assms(2) by (simp add: cons_putc.simps cga_putc.simps Let_def)
  have o: "serial_out (cga_char (cga_attr c) ?s) = serial_out ?s"
    by (simp add: serial_out_def cga_char_def Let_def)
  have C: "unat (crt_pos (cga_char (cga_attr c) ?s)) \<le> 2079" "addr_6845 (cga_char (cga_attr c) ?s) = addr_6845 s"
    "\<And>i. 2000 \<le> i \<Longrightarrow> crt_buf (cga_char (cga_attr c) ?s) i = crt_buf s i"
    using cga_char_pos [where s = ?s and c = "cga_attr c"] assms(1) s by (simp_all add: on_screen_def)
  note T = cga_tail [OF C(1), unfolded C(2)]
  have f: "cbuf (cons_putc c s) = cbuf s" "rpos (cons_putc c s) = rpos s" "wpos (cons_putc c s) = wpos s"
    "shift (cons_putc c s) = shift s" "kbd_in (cons_putc c s) = kbd_in s" "com_in (cons_putc c s) = com_in s"
    by (simp_all add: eq cga_cursor_def cga_scroll_def cga_char_def Let_def lpt_putc_def serial_putc_def outb_def)
  show "serial_out (cons_putc c s) = serial_out s @ [ucast c]"
    using T(2) assms(1) o s(4) by (simp add: eq on_screen_def)
  show "screen_frame s (cons_putc c s)"
    unfolding screen_frame_def using f T(1,3) C(3) assms(1) by (simp add: eq on_screen_def)
qed

text \<open>\<^verbatim>\<open>cons_putc\<close> sends the character to the serial port (followed by five blanks when it is a tabulator, because
  the display driver expands it through \<^verbatim>\<open>cons_putc\<close>), keeps the cursor on the screen, and changes neither memory
  behind the 2000 cells of the screen nor anything of console input.\<close>

theorem cons_putc_correct:
  assumes "on_screen s"
  shows "screen_frame s (cons_putc c s) \<and>
    serial_out (cons_putc c s) = serial_out s @ ucast c # (if c AND 0xFF = 9 then replicate 5 0x20 else [])"
proof (cases "c AND 0xFF = 9")
  case False
  with cons_putc_plain [OF assms False] show ?thesis by simp
next
  case True
  let ?s = "lpt_putc c (serial_putc c s)"
  have s: "on_screen ?s" "serial_out ?s = serial_out s @ [ucast c]" "screen_frame s ?s"
    using assms by (simp_all add: lpt_putc_def serial_putc_def outb_def serial_out_def layout on_screen_def screen_frame_def)
  define b where "b = cons_putc 0x20"
  have b: "screen_frame t (b t) \<and> serial_out (b t) = serial_out t @ [0x20] \<and> on_screen (b t)" if "on_screen t" for t
    using cons_putc_plain [OF that, of "0x20"] by (simp add: b_def screen_frame_def)
  let ?t = "b (b (b (b (b ?s))))"
  define P where "P t n \<longleftrightarrow> screen_frame s t \<and> on_screen t \<and> serial_out t = serial_out s @ ucast c # replicate n 0x20" for t n
  have step: "P (b t) (Suc n)" if "P t n" for t n
    using that b [of t] screen_frame_trans [of s t "b t"] by (simp add: P_def replicate_append_same)
  have "P ?s 0"
    using s by (simp add: P_def)
  from step [OF step [OF step [OF step [OF step [OF this]]]]]
  have t: "screen_frame s ?t" "serial_out ?t = serial_out s @ ucast c # replicate 5 0x20"
    by (simp_all add: P_def replicate5)
  have "unat (crt_pos ?t) \<le> 2079" "addr_6845 ?t = CGA_BASE \<or> addr_6845 ?t = MONO_BASE"
    using t(1) by (auto simp: screen_frame_def on_screen_def)
  note T = cga_tail [OF this]
  have "cons_putc c s = cga_cursor (cga_scroll ?t)"
    using True by (simp add: cons_putc.simps [of c] cga_putc.simps [of c] b_def Let_def)
  moreover have "screen_frame ?t (cga_cursor (cga_scroll ?t))"
    using T(1,3) by (simp add: screen_frame_def) (simp add: cga_cursor_def cga_scroll_def outb_def)
  ultimately show ?thesis
    using T(2) t screen_frame_trans True by auto
qed

theorem cons_putc_correct_witness:
  "on_screen (cons_putc 0x41 demo_cons) \<and> serial_out (cons_putc 0x41 demo_cons) = [0x41] \<and>
   serial_out (cons_putc 9 demo_cons) = [9, 0x20, 0x20, 0x20, 0x20, 0x20]"
proof -
  have "on_screen demo_cons" "serial_out demo_cons = []"
    by (simp_all add: on_screen_def serial_out_def demo_cons_def)
  then show ?thesis
    using cons_putc_correct [of demo_cons "0x41"] cons_putc_correct [of demo_cons 9]
    by (simp add: screen_frame_def replicate5)
qed

end
