(* ===== verification/Kstate.thy ===== *)
theory Kstate
  imports Mmu Console
begin

section \<open>The kernel's data structures\<close>

text \<open>
  The structs of \<^verbatim>\<open>inc/memlayout.h\<close>, \<^verbatim>\<open>inc/trap.h\<close>, \<^verbatim>\<open>inc/env.h\<close>, \<^verbatim>\<open>kern/cpu.h\<close> and
  \<^verbatim>\<open>kern/spinlock.h\<close> as records, the error codes, and one record \<open>kstate\<close> for the global
  variables of the kernel together with the machine it drives (physical memory, the page
  directory register, the log of \<^verbatim>\<open>invlpg\<close> instructions, the executing processor).

  A \<^verbatim>\<open>struct Page *\<close> is an index into \<^verbatim>\<open>pages[]\<close> and a \<^verbatim>\<open>struct Env *\<close> an index into
  \<^verbatim>\<open>envs[]\<close>, \<open>None\<close> being the null pointer; pointers to page directories and to page table
  entries are kernel virtual addresses. The kernel dereferences a kernel virtual address
  through the direct map of physical memory at \<open>KERNBASE\<close>. Padding fields are left out.
  The state of the console drivers is one field of it. The \<^verbatim>\<open>cprintf\<close> diagnostics of the kernel are
  not modelled; what the \<^verbatim>\<open>sys_cputs\<close> system call prints is.
\<close>

subsection \<open>Pages, trap frames, environments, processors\<close>

record Page =
  pp_link :: "nat option"
  paddr :: u32
  pp_ref :: u16

record PushRegs =
  reg_edi :: u32
  reg_esi :: u32
  reg_ebp :: u32
  reg_oesp :: u32
  reg_ebx :: u32
  reg_edx :: u32
  reg_ecx :: u32
  reg_eax :: u32

record Trapframe =
  tf_regs :: PushRegs
  tf_es :: u16
  tf_ds :: u16
  tf_trapno :: u32
  tf_err :: u32
  tf_eip :: u32
  tf_cs :: u16
  tf_eflags :: u32
  tf_esp :: u32
  tf_ss :: u16

datatype EnvType = ENV_TYPE_USER | ENV_TYPE_IDLE

record Env =
  env_tf :: Trapframe
  env_link :: "nat option"
  env_id :: u32
  env_parent_id :: u32
  env_type :: EnvType
  env_status :: u32
  env_runs :: u32
  env_cpunum :: u32
  env_pgdir :: u32
  env_pgfault_upcall :: u32
  env_ipc_recving :: bool
  env_ipc_dstva :: u32
  env_ipc_value :: u32
  env_ipc_from :: u32
  env_ipc_perm :: u32

text \<open>The values of \<open>env_status\<close>; the field is an \<^verbatim>\<open>unsigned\<close>, not an enum, in the source.\<close>

definition ENV_FREE :: u32 where [layout]: "ENV_FREE = 0"
definition ENV_DYING :: u32 where [layout]: "ENV_DYING = 1"
definition ENV_RUNNABLE :: u32 where [layout]: "ENV_RUNNABLE = 2"
definition ENV_RUNNING :: u32 where [layout]: "ENV_RUNNING = 3"
definition ENV_NOT_RUNNABLE :: u32 where [layout]: "ENV_NOT_RUNNABLE = 4"

definition LOG2NENV :: nat where [layout]: "LOG2NENV = 10"
definition NENV :: nat where [layout]: "NENV = 1024"

definition ENVX :: "u32 \<Rightarrow> u32" where
  "ENVX envid = envid AND 1023"

record Taskstate =
  ts_esp0 :: u32
  ts_ss0 :: u16

record Cpu =
  cpu_id :: u8
  cpu_status :: u32
  cpu_env :: "nat option"
  cpu_ts :: Taskstate

definition NCPU :: nat where [layout]: "NCPU = 8"

record spinlock =
  locked :: u32
  lk_cpu :: "nat option"

subsection \<open>Error codes\<close>

definition E_UNSPECIFIED :: int where [layout]: "E_UNSPECIFIED = 1"
definition E_BAD_ENV :: int where [layout]: "E_BAD_ENV = 2"
definition E_INVAL :: int where [layout]: "E_INVAL = 3"
definition E_NO_MEM :: int where [layout]: "E_NO_MEM = 4"
definition E_NO_FREE_ENV :: int where [layout]: "E_NO_FREE_ENV = 5"
definition E_FAULT :: int where [layout]: "E_FAULT = 6"
definition E_IPC_NOT_RECV :: int where [layout]: "E_IPC_NOT_RECV = 7"
definition E_EOF :: int where [layout]: "E_EOF = 8"

subsection \<open>The kernel state\<close>

record kstate =
  npages :: u32
  npages_basemem :: u32
  nAvailPages :: u32
  nextfree :: u32
  kern_pgdir :: u32
  pages :: "nat \<Rightarrow> Page"
  page_free_list :: "nat option"
  pmem :: bytemem
  envs :: "nat \<Rightarrow> Env"
  env_free_list :: "nat option"
  cpus :: "nat \<Rightarrow> Cpu"
  cpunum :: nat
  cr3 :: u32
  invlpgs :: "u32 list"
  user_mem_check_addr :: u32
  kernel_lock :: spinlock
  con :: console

text \<open>
  A kernel function that may panic returns an \<open>option\<close>: \<open>None\<close> is a call of \<^verbatim>\<open>_panic\<close>,
  after which the kernel does nothing more. A function that may leave the kernel for good
  returns a \<open>flow\<close>: it either returns to its caller or ends in user mode (\<open>Run\<close>, after the
  \<^verbatim>\<open>iret\<close> of \<^verbatim>\<open>env_pop_tf\<close>) or in the endless monitor loop of the scheduler (\<open>Monitor\<close>).
\<close>

datatype exit = Run | Monitor

datatype 'a flow = Ret 'a | Leave exit

definition curenv :: "kstate \<Rightarrow> nat option" where
  "curenv s = cpu_env (cpus s (cpunum s))"

definition set_curenv :: "nat option \<Rightarrow> kstate \<Rightarrow> kstate" where
  "set_curenv e s = s\<lparr>cpus := (cpus s)(cpunum s := (cpus s (cpunum s))\<lparr>cpu_env := e\<rparr>)\<rparr>"

definition upd_env :: "nat \<Rightarrow> (Env \<Rightarrow> Env) \<Rightarrow> kstate \<Rightarrow> kstate" where
  "upd_env e f s = s\<lparr>envs := (envs s)(e := f (envs s e))\<rparr>"

definition upd_page :: "nat \<Rightarrow> (Page \<Rightarrow> Page) \<Rightarrow> kstate \<Rightarrow> kstate" where
  "upd_page p f s = s\<lparr>pages := (pages s)(p := f (pages s p))\<rparr>"

text \<open>Loads and stores through a kernel virtual address in the direct map of physical memory at \<^verbatim>\<open>KERNBASE\<close>. They never
  fault: that only the first 4 MB are mapped until \<^verbatim>\<open>mem_init\<close> loads its own directory, the reason why
  \<^verbatim>\<open>check_page_free_list\<close> moves the low pages to the front of the list, is not modelled.\<close>

definition kld :: "kstate \<Rightarrow> u32 \<Rightarrow> u32" where
  "kld s kva = rd32 (pmem s) (kva - KERNBASE)"

definition kst :: "u32 \<Rightarrow> u32 \<Rightarrow> kstate \<Rightarrow> kstate" where
  "kst kva v s = s\<lparr>pmem := wr32 (pmem s) (kva - KERNBASE) v\<rparr>"

subsection \<open>Address conversion (\<^verbatim>\<open>kern/pmap.h\<close>)\<close>

definition PADDR :: "u32 \<Rightarrow> u32 option" where
  "PADDR kva = (if kva < KERNBASE then None else Some (kva - KERNBASE))"

definition KADDR :: "kstate \<Rightarrow> u32 \<Rightarrow> u32 option" where
  "KADDR s pa = (if npages s \<le> PGNUM pa then None else Some (pa + KERNBASE))"

definition page2pa :: "nat \<Rightarrow> u32" where
  "page2pa pp = push_bit PGSHIFT (word_of_nat pp)"

definition pa2page :: "kstate \<Rightarrow> u32 \<Rightarrow> nat option" where
  "pa2page s pa = (if npages s \<le> PGNUM pa then None else Some (unat (PGNUM pa)))"

definition page2kva :: "kstate \<Rightarrow> nat \<Rightarrow> u32 option" where
  "page2kva s pp = KADDR s (page2pa pp)"

subsection \<open>Frame rules of the accessors\<close>

lemma upd_env_sel [simp]:
  "npages (upd_env e f s) = npages s" "pages (upd_env e f s) = pages s"
  "page_free_list (upd_env e f s) = page_free_list s" "pmem (upd_env e f s) = pmem s"
  "cpus (upd_env e f s) = cpus s" "cpunum (upd_env e f s) = cpunum s"
  "env_free_list (upd_env e f s) = env_free_list s" "kern_pgdir (upd_env e f s) = kern_pgdir s"
  "curenv (upd_env e f s) = curenv s" "cr3 (upd_env e f s) = cr3 s"
  "nAvailPages (upd_env e f s) = nAvailPages s" "invlpgs (upd_env e f s) = invlpgs s"
  "kernel_lock (upd_env e f s) = kernel_lock s" "con (upd_env e f s) = con s"
  "envs (upd_env e f s) = (envs s)(e := f (envs s e))" "kld (upd_env e f s) a = kld s a"
  by (simp_all add: upd_env_def curenv_def kld_def)

lemma set_curenv_sel [simp]:
  "npages (set_curenv e s) = npages s" "pages (set_curenv e s) = pages s"
  "page_free_list (set_curenv e s) = page_free_list s" "pmem (set_curenv e s) = pmem s"
  "cpunum (set_curenv e s) = cpunum s" "envs (set_curenv e s) = envs s"
  "env_free_list (set_curenv e s) = env_free_list s" "kern_pgdir (set_curenv e s) = kern_pgdir s"
  "curenv (set_curenv e s) = e" "cr3 (set_curenv e s) = cr3 s"
  "nAvailPages (set_curenv e s) = nAvailPages s" "invlpgs (set_curenv e s) = invlpgs s"
  "kernel_lock (set_curenv e s) = kernel_lock s" "con (set_curenv e s) = con s"
  "kld (set_curenv e s) a = kld s a"
  by (simp_all add: set_curenv_def curenv_def kld_def)

lemma upd_page_sel [simp]:
  "npages (upd_page p f s) = npages s" "envs (upd_page p f s) = envs s"
  "page_free_list (upd_page p f s) = page_free_list s" "pmem (upd_page p f s) = pmem s"
  "cpus (upd_page p f s) = cpus s" "cpunum (upd_page p f s) = cpunum s"
  "env_free_list (upd_page p f s) = env_free_list s" "kern_pgdir (upd_page p f s) = kern_pgdir s"
  "curenv (upd_page p f s) = curenv s" "cr3 (upd_page p f s) = cr3 s"
  "nAvailPages (upd_page p f s) = nAvailPages s" "invlpgs (upd_page p f s) = invlpgs s"
  "kernel_lock (upd_page p f s) = kernel_lock s" "con (upd_page p f s) = con s"
  "pages (upd_page p f s) = (pages s)(p := f (pages s p))" "kld (upd_page p f s) a = kld s a"
  by (simp_all add: upd_page_def curenv_def kld_def)

lemma kst_sel [simp]:
  "npages (kst a v s) = npages s" "pages (kst a v s) = pages s" "envs (kst a v s) = envs s"
  "page_free_list (kst a v s) = page_free_list s"
  "cpus (kst a v s) = cpus s" "cpunum (kst a v s) = cpunum s"
  "env_free_list (kst a v s) = env_free_list s" "kern_pgdir (kst a v s) = kern_pgdir s"
  "curenv (kst a v s) = curenv s" "cr3 (kst a v s) = cr3 s"
  "nAvailPages (kst a v s) = nAvailPages s" "invlpgs (kst a v s) = invlpgs s"
  "kernel_lock (kst a v s) = kernel_lock s" "con (kst a v s) = con s"
  by (simp_all add: kst_def curenv_def)

lemma kld_kst_same [simp]: "kld (kst a v s) a = v"
  by (simp add: kld_def kst_def)

subsection \<open>Page numbers and addresses\<close>

lemma unat_page2pa:
  assumes "p < 1048576"
  shows "unat (page2pa p) = p * 4096"
proof -
  have "unat (word_of_nat p :: u32) = p"
    using assms by (simp add: unat_of_nat)
  then show ?thesis
    using assms by (simp add: page2pa_def layout push_bit_eq_mult unat_mult_no_wrap)
qed

lemma page_aligned_page2pa [simp]: "p < 1048576 \<Longrightarrow> page_aligned (page2pa p)"
  by (simp add: page_aligned_unat unat_page2pa)

lemma PGNUM_page2pa: "p < 1048576 \<Longrightarrow> PGNUM (page2pa p) = word_of_nat p"
  by (simp add: word_unat_eq_iff unat_PGNUM unat_page2pa unat_of_nat)

lemma PTE_ADDR_or_flags:
  assumes "page_aligned a" "unat f < 4096"
  shows "PTE_ADDR (a OR f) = a"
proof -
  have "PTE_ADDR (a OR f) = PTE_ADDR a OR PTE_ADDR f"
    by (simp add: PTE_ADDR_shift push_bit_or drop_bit_or)
  moreover have "PTE_ADDR f = 0"
    using assms(2) by (simp add: word_unat_eq_iff unat_PTE_ADDR)
  ultimately show ?thesis
    using assms(1) by (simp add: PTE_ADDR_aligned)
qed

lemma PGNUM_PTE_ADDR [simp]: "PGNUM (PTE_ADDR a) = PGNUM a"
  by (simp add: word_unat_eq_iff unat_PGNUM unat_PTE_ADDR minus_mod_eq_mult_div)

lemma page2pa_PGNUM: "page2pa (unat (PGNUM a)) = PTE_ADDR a"
  by (simp add: page2pa_def PGNUM_def PTE_ADDR_shift layout)

lemma pa2page_page2pa:
  assumes "p < unat (npages s)" "unat (npages s) \<le> 1048576"
  shows "pa2page s (page2pa p) = Some p"
  using assms by (simp add: pa2page_def PGNUM_page2pa word_le_nat_alt unat_of_nat)

end
