(* ===== verification/Pmap_Alloc.thy ===== *)
theory Pmap_Alloc
  imports Kstate
begin

section \<open>Physical pages: detection, boot allocator, free list\<close>

text \<open>
  The first half of \<^verbatim>\<open>kern/pmap.c\<close>: memory detection from the CMOS, the boot-time bump
  allocator \<^verbatim>\<open>boot_alloc\<close>, and the allocator proper (\<^verbatim>\<open>page_init\<close>, \<^verbatim>\<open>page_alloc\<close>,
  \<^verbatim>\<open>page_free\<close>, \<^verbatim>\<open>page_decref\<close>) on the list threaded through \<^verbatim>\<open>pages[].pp_link\<close>.
  The non-volatile RAM is a parameter \<open>nv\<close> (register to byte) and the linker symbol
  \<^verbatim>\<open>end\<close> a parameter \<open>kend\<close>.
\<close>

subsection \<open>Memory detection\<close>

definition MC_NVRAM_START :: nat where [layout]: "MC_NVRAM_START = 14"
definition NVRAM_BASELO :: nat where [layout]: "NVRAM_BASELO = MC_NVRAM_START + 7"
definition NVRAM_EXTLO :: nat where [layout]: "NVRAM_EXTLO = MC_NVRAM_START + 9"

definition nvram_read :: "(nat \<Rightarrow> u8) \<Rightarrow> nat \<Rightarrow> u32" where
  "nvram_read nv r = ucast (nv r) OR push_bit 8 (ucast (nv (r + 1)))"

definition i386_detect_memory :: "(nat \<Rightarrow> u8) \<Rightarrow> kstate \<Rightarrow> kstate" where
  "i386_detect_memory nv s =
     (let basemem = (nvram_read nv NVRAM_BASELO * 1024) div PGSIZE;
          extmem = (nvram_read nv NVRAM_EXTLO * 1024) div PGSIZE;
          n = (if extmem \<noteq> 0 then EXTPHYSMEM div PGSIZE + extmem else basemem)
      in s\<lparr>npages_basemem := basemem, npages := n\<rparr>)"

subsection \<open>The boot allocator\<close>

definition boot_alloc :: "u32 \<Rightarrow> u32 \<Rightarrow> kstate \<Rightarrow> (u32 \<times> kstate) option" where
  "boot_alloc kend n s =
     (let s0 = (if nextfree s = 0
                then s\<lparr>nAvailPages := npages s, nextfree := ROUNDUP kend PGSIZE\<rparr> else s);
          amount_pages = n div PGSIZE + (if n mod PGSIZE \<noteq> 0 then 1 else 0)
      in if nAvailPages s0 < amount_pages then None
         else let result = nextfree s0;
                  s1 = (if n \<noteq> 0
                        then s0\<lparr>nAvailPages := nAvailPages s0 - amount_pages,
                                nextfree := ROUNDUP (nextfree s0 + amount_pages * PGSIZE) PGSIZE\<rparr>
                        else s0)
              in Some (result, s1))"

subsection \<open>The page allocator\<close>

definition ALLOC_ZERO :: u32 where [layout]: "ALLOC_ZERO = 1"

text \<open>\<^verbatim>\<open>page_init\<close> in the two phases of its body: first all pages are chained and page 0 is
  taken out, then, from the position of the boot allocator on, the reserved ranges are cut
  out of the chain.\<close>

definition page_init_chain :: "kstate \<Rightarrow> kstate" where
  "page_init_chain s =
     (let n = unat (npages s);
          s1 = fold (\<lambda>i. upd_page (i - 1)
                  (\<lambda>pg. pg\<lparr>pp_ref := 0, pp_link := Some i, paddr := page2pa (i - 1)\<rparr>)) [1..<n] s;
          s2 = upd_page (n - 1) (\<lambda>pg. pg\<lparr>pp_ref := 0, pp_link := None, paddr := page2pa (n - 1)\<rparr>) s1
      in (upd_page 0 (\<lambda>pg. pg\<lparr>pp_ref := 1, pp_link := None\<rparr>) s2)\<lparr>page_free_list := Some 1\<rparr>)"

definition page_init_reserve :: "nat \<Rightarrow> kstate \<Rightarrow> kstate" where
  "page_init_reserve nbf s4 =
     (let io = unat (PGNUM IOPHYSMEM);
          ext = unat (PGNUM EXTPHYSMEM);
          mp = unat (PGNUM MPENTRY_PADDR);
          s5 = fold (\<lambda>i. upd_page i (\<lambda>pg. pg\<lparr>pp_ref := 1\<rparr>)) [ext..<nbf] s4;
          s6 = upd_page (io - 1) (\<lambda>pg. pg\<lparr>pp_link := Some nbf\<rparr>) s5;
          s7 = upd_page (nbf - 1) (\<lambda>pg. pg\<lparr>pp_link := None\<rparr>) s6;
          s8 = upd_page 0 (\<lambda>pg. pg\<lparr>pp_link := Some io\<rparr>) s7;
          s9 = upd_page (mp - 1) (\<lambda>pg. pg\<lparr>pp_link := Some (mp + 1)\<rparr>) s8;
          s10 = upd_page mp (\<lambda>pg. pg\<lparr>pp_ref := 1, pp_link := None\<rparr>) s9;
          s11 = upd_page io (\<lambda>pg. pg\<lparr>pp_link := Some mp\<rparr>) s10
      in s11\<lparr>nAvailPages := nAvailPages s11 - (1 + (PGNUM EXTPHYSMEM - PGNUM IOPHYSMEM))\<rparr>)"

definition page_init :: "u32 \<Rightarrow> kstate \<Rightarrow> kstate option" where
  "page_init kend s =
     do {
       (kva, s4) \<leftarrow> boot_alloc kend 0 (page_init_chain s);
       next_boot_free \<leftarrow> PADDR kva;
       Some (page_init_reserve (unat (PGNUM next_boot_free)) s4)
     }"

definition page_alloc :: "kstate \<Rightarrow> u32 \<Rightarrow> (nat option \<times> kstate) option" where
  "page_alloc s alloc_flags =
     (case page_free_list s of
        None \<Rightarrow> Some (None, s)
      | Some ret_page \<Rightarrow>
          let s1 = upd_page ret_page (\<lambda>pg. pg\<lparr>pp_link := None\<rparr>)
                (s\<lparr>page_free_list := pp_link (pages s ret_page), nAvailPages := nAvailPages s - 1\<rparr>)
          in do {
            s2 \<leftarrow> (if ALLOC_ZERO AND alloc_flags \<noteq> 0
                  then do {
                    kva \<leftarrow> KADDR s1 (paddr (pages s1 ret_page));
                    Some (s1\<lparr>pmem := fill_bytes (pmem s1) (kva - KERNBASE) 0 4096\<rparr>)
                  }
                  else Some s1);
            Some (Some ret_page, upd_page ret_page (\<lambda>pg. pg\<lparr>pp_ref := 0\<rparr>) s2)
          })"

definition page_free :: "kstate \<Rightarrow> nat option \<Rightarrow> kstate" where
  "page_free s pp =
     (case pp of
        None \<Rightarrow> s
      | Some p \<Rightarrow>
          if npages s \<le> PGNUM (paddr (pages s p)) then s
          else (upd_page p (\<lambda>pg. pg\<lparr>pp_link := page_free_list s\<rparr>) s)
                 \<lparr>page_free_list := Some p, nAvailPages := nAvailPages s + 1\<rparr>)"

definition page_decref :: "kstate \<Rightarrow> nat \<Rightarrow> kstate" where
  "page_decref s p =
     (let s1 = upd_page p (\<lambda>pg. pg\<lparr>pp_ref := pp_ref pg - 1\<rparr>) s
      in if pp_ref (pages s1 p) = 0 then page_free s1 (Some p) else s1)"

subsection \<open>Invariant of the allocator\<close>

text \<open>
  \<open>pages_wf\<close>: every \<^verbatim>\<open>struct Page\<close> knows its own physical address, and physical memory
  fits in the 256 MB window at \<open>KERNBASE\<close>. \<open>free_list s fl\<close>: the free list is exactly \<open>fl\<close>,
  every page of it exists and has no reference.
\<close>

definition page_links :: "kstate \<Rightarrow> nat \<Rightarrow> nat option" where
  "page_links s i = pp_link (pages s i)"

definition pages_wf :: "kstate \<Rightarrow> bool" where
  "pages_wf s \<longleftrightarrow> 0 < unat (npages s) \<and> unat (npages s) \<le> 65536 \<and>
     (\<forall>i < unat (npages s). paddr (pages s i) = page2pa i)"

definition free_list :: "kstate \<Rightarrow> nat list \<Rightarrow> bool" where
  "free_list s fl \<longleftrightarrow> linked (page_links s) (page_free_list s) fl \<and>
     (\<forall>p \<in> set fl. p < unat (npages s) \<and> pp_ref (pages s p) = 0)"

definition alloc_inv :: "kstate \<Rightarrow> bool" where
  "alloc_inv s \<longleftrightarrow> pages_wf s \<and> (\<exists>fl. free_list s fl)"

lemma pages_wf_upd [simp]:
  "pages_wf (upd_page p (\<lambda>pg. pg\<lparr>pp_ref := f pg\<rparr>) s) = pages_wf s"
  "pages_wf (upd_page p (\<lambda>pg. pg\<lparr>pp_link := g pg\<rparr>) s) = pages_wf s"
  "pages_wf (kst a v s) = pages_wf s"
  by (auto simp: pages_wf_def upd_page_def)

lemma page_links_frame [simp]:
  "page_links (kst a v s) = page_links s" "page_links (s\<lparr>invlpgs := l\<rparr>) = page_links s"
  "page_links (upd_page p (\<lambda>pg. pg\<lparr>pp_ref := f pg\<rparr>) s) = page_links s"
  by (auto simp: page_links_def)

lemma free_list_frame [simp]:
  "free_list (kst a v s) fl = free_list s fl" "free_list (s\<lparr>invlpgs := l\<rparr>) fl = free_list s fl"
  by (simp_all add: free_list_def)

text \<open>\<open>mm_frame s s'\<close>: only memory management (page structures, physical memory, the TLB log)
  may differ between the two states.\<close>

definition mm_frame :: "kstate \<Rightarrow> kstate \<Rightarrow> bool" where
  "mm_frame s s' \<longleftrightarrow> npages s' = npages s \<and> npages_basemem s' = npages_basemem s \<and>
     nextfree s' = nextfree s \<and> kern_pgdir s' = kern_pgdir s \<and> envs s' = envs s \<and>
     env_free_list s' = env_free_list s \<and> cpus s' = cpus s \<and> cpunum s' = cpunum s \<and>
     cr3 s' = cr3 s \<and> user_mem_check_addr s' = user_mem_check_addr s \<and>
     kernel_lock s' = kernel_lock s \<and> con s' = con s"

lemma mm_frame_refl [simp, intro]: "mm_frame s s"
  by (simp add: mm_frame_def)

lemma mm_frame_trans [trans]: "mm_frame s t \<Longrightarrow> mm_frame t u \<Longrightarrow> mm_frame s u"
  by (simp add: mm_frame_def)

lemma mm_frame_upd_page [simp]: "mm_frame s (upd_page p f t) \<longleftrightarrow> mm_frame s t"
  by (simp add: mm_frame_def upd_page_def)

lemma mm_frame_kst [simp]: "mm_frame s (kst a v t) \<longleftrightarrow> mm_frame s t"
  by (simp add: mm_frame_def kst_def)

lemma mm_frame_curenv: "mm_frame s s' \<Longrightarrow> curenv s' = curenv s"
  by (simp add: mm_frame_def curenv_def)

lemma mm_frame_sel:
  assumes "mm_frame s s'"
  shows "npages s' = npages s" "kern_pgdir s' = kern_pgdir s" "envs s' = envs s"
    "env_free_list s' = env_free_list s" "cpus s' = cpus s" "cpunum s' = cpunum s" "cr3 s' = cr3 s"
  using assms by (simp_all add: mm_frame_def)

subsection \<open>Allocation\<close>

lemma page_alloc_None:
  "page_alloc s f = Some (None, s') \<longleftrightarrow> page_free_list s = None \<and> s' = s"
  by (auto simp: page_alloc_def Let_def split: option.splits if_splits bind_splits)

lemma page_alloc_Some:
  assumes "page_alloc s f = Some (Some p, s')"
  shows "page_free_list s = Some p" "page_free_list s' = page_links s p"
    "pages s' = (pages s)(p := (pages s p)\<lparr>pp_link := None, pp_ref := 0\<rparr>)"
    "nAvailPages s' = nAvailPages s - 1" "mm_frame s s'" "invlpgs s' = invlpgs s"
  using assms
  by (auto simp: page_alloc_def Let_def page_links_def mm_frame_def upd_page_def
      split: option.splits if_splits bind_splits)

lemma page_alloc_pmem:
  assumes "page_alloc s f = Some (Some p, s')" "pages_wf s" "p < unat (npages s)"
  shows "pmem s' = (if ALLOC_ZERO AND f \<noteq> 0 then fill_bytes (pmem s) (page2pa p) 0 4096 else pmem s)"
  using assms
  by (auto simp: page_alloc_def Let_def pages_wf_def KADDR_def upd_page_def
      split: option.splits if_splits bind_splits)

interpretation page_stack: free_stack page_free_list page_links
  "\<lambda>s x s'. \<exists>f. page_alloc s f = Some (Some x, s')"
  "\<lambda>s x s'. PGNUM (paddr (pages s x)) < npages s \<and> page_free s (Some x) = s'"
proof (unfold_locales, goal_cases)
  case (1 s x s')
  then show ?case by (elim exE) (rule page_alloc_Some)
next
  case (2 s x s')
  then show ?case by (elim exE) (rule page_alloc_Some)
next
  case (3 s x s' y)
  then obtain f where "page_alloc s f = Some (Some x, s')" by blast
  with 3(2) show ?case by (simp add: page_alloc_Some(3) page_links_def)
next
  case (4 s x s')
  then show ?case by (auto simp: page_free_def)
next
  case (5 s x s')
  then show ?case by (auto simp: page_free_def page_links_def)
next
  case (6 s x s' y)
  then show ?case by (auto simp: page_free_def page_links_def)
qed

text \<open>\<^verbatim>\<open>page_alloc\<close> does not panic, and what it hands out leaves the free list.\<close>

lemma free_list_head:
  assumes "free_list s fl" "page_free_list s = Some p"
  shows "p < unat (npages s)" "pp_ref (pages s p) = 0"
  using assms by (auto simp: free_list_def linked_Some)

lemma page_alloc_total:
  assumes "alloc_inv s"
  shows "\<exists>r s'. page_alloc s f = Some (r, s')"
proof (cases "page_free_list s")
  case None
  then show ?thesis by (simp add: page_alloc_def)
next
  case (Some p)
  have "paddr (pages s p) = page2pa p" "p < unat (npages s)" "unat (npages s) \<le> 65536"
    using assms Some by (auto simp: alloc_inv_def pages_wf_def dest: free_list_head)
  then have "\<not> npages s \<le> PGNUM (paddr (pages s p))"
    by (simp add: PGNUM_page2pa word_le_nat_alt unat_of_nat)
  with Some show ?thesis
    by (simp add: page_alloc_def Let_def KADDR_def)
qed

lemma page_alloc_free_list:
  assumes a: "page_alloc s f = Some (Some p, s')" and fl: "free_list s fl"
  shows "\<exists>ys. fl = p # ys \<and> free_list s' ys \<and> p \<notin> set ys"
proof -
  obtain ys where ys: "fl = p # ys" "linked (page_links s') (page_free_list s') ys" "p \<notin> set ys"
    using page_stack.pop_cells [of s p s' fl] a fl unfolding free_list_def by blast
  with fl page_alloc_Some(3,5) [OF a] have "free_list s' ys"
    by (auto simp: free_list_def mm_frame_def)
  with ys show ?thesis by blast
qed

lemma page_alloc_pages_wf:
  assumes "page_alloc s f = Some (r, s')" "pages_wf s"
  shows "pages_wf s'"
proof (cases r)
  case None
  with assms show ?thesis by (simp add: page_alloc_None)
next
  case (Some p)
  with assms page_alloc_Some(3,5) [of s f p s'] show ?thesis
    by (auto simp: pages_wf_def mm_frame_def)
qed

lemma page_alloc_inv:
  assumes "alloc_inv s" "page_alloc s f = Some (r, s')"
  shows "alloc_inv s'"
  using assms page_alloc_free_list page_alloc_pages_wf
  by (cases r) (auto simp: alloc_inv_def page_alloc_None, blast)

lemma page_alloc_run:
  assumes wf: "pages_wf s" and fl: "free_list s (p # ys)"
  shows "\<exists>s'. page_alloc s f = Some (Some p, s') \<and> pages_wf s' \<and> free_list s' ys \<and> p \<notin> set ys \<and>
    pmem s' = (if ALLOC_ZERO AND f \<noteq> 0 then fill_bytes (pmem s) (page2pa p) 0 4096 else pmem s)"
proof -
  have hd: "page_free_list s = Some p" "p < unat (npages s)"
    using fl by (auto simp: free_list_def)
  have "alloc_inv s"
    using wf fl unfolding alloc_inv_def by blast
  then obtain r s' where run: "page_alloc s f = Some (r, s')"
    using page_alloc_total by blast
  then have r: "r = Some p"
    using hd page_alloc_None [of s f s'] page_alloc_Some(1) [of s f _ s'] by (cases r) auto
  note A = run [unfolded r]
  show ?thesis
    using A page_alloc_pmem [OF A wf hd(2)] page_alloc_pages_wf [OF A wf] page_alloc_free_list [OF A fl] by auto
qed

subsection \<open>Freeing\<close>

lemma page_free_sel:
  assumes "pages_wf s" "p < unat (npages s)"
  shows "page_free_list (page_free s (Some p)) = Some p"
    "pages (page_free s (Some p)) = (pages s)(p := (pages s p)\<lparr>pp_link := page_free_list s\<rparr>)"
    "nAvailPages (page_free s (Some p)) = nAvailPages s + 1"
    "pmem (page_free s (Some p)) = pmem s" "invlpgs (page_free s (Some p)) = invlpgs s"
proof -
  have "\<not> npages s \<le> PGNUM (paddr (pages s p))"
    using assms by (simp add: pages_wf_def PGNUM_page2pa word_le_nat_alt unat_of_nat)
  then show "page_free_list (page_free s (Some p)) = Some p"
    "pages (page_free s (Some p)) = (pages s)(p := (pages s p)\<lparr>pp_link := page_free_list s\<rparr>)"
    "nAvailPages (page_free s (Some p)) = nAvailPages s + 1"
    "pmem (page_free s (Some p)) = pmem s" "invlpgs (page_free s (Some p)) = invlpgs s"
    by (simp_all add: page_free_def)
qed

lemma page_free_mm_frame [simp]: "mm_frame s (page_free s pp)"
  by (auto simp: page_free_def mm_frame_def upd_page_def split: option.splits)

lemma page_free_free_list:
  assumes wf: "pages_wf s" and p: "p < unat (npages s)" and z: "pp_ref (pages s p) = 0"
    and fl: "free_list s fl" and new: "p \<notin> set fl"
  shows "free_list (page_free s (Some p)) (p # fl)"
proof -
  have "PGNUM (paddr (pages s p)) < npages s"
    using wf p by (simp add: pages_wf_def PGNUM_page2pa word_less_nat_alt unat_of_nat)
  then have "linked (page_links (page_free s (Some p))) (page_free_list (page_free s (Some p))) (p # fl)"
    using page_stack.push_cells [of s p "page_free s (Some p)" fl] fl new
    unfolding free_list_def by blast
  with fl p z page_free_sel [OF wf p] show ?thesis
    by (auto simp: free_list_def mm_frame_sel(1) [OF page_free_mm_frame])
qed

lemma page_free_pages_wf: "pages_wf s \<Longrightarrow> pages_wf (page_free s pp)"
  by (auto simp: pages_wf_def page_free_def split: option.splits)

subsection \<open>Dropping a reference\<close>

lemma page_decref_mm_frame [simp]: "mm_frame s (page_decref s p)"
  unfolding page_decref_def Let_def
  by (simp add: mm_frame_trans [OF _ page_free_mm_frame])

lemma page_decref_pages_wf: "pages_wf s \<Longrightarrow> pages_wf (page_decref s p)"
  unfolding page_decref_def Let_def
  by (auto intro!: page_free_pages_wf)

lemma page_decref_ref:
  assumes "pages_wf s" "p < unat (npages s)"
  shows "pp_ref (pages (page_decref s p) q) = (if q = p then pp_ref (pages s p) - 1 else pp_ref (pages s q))"
    "pmem (page_decref s p) = pmem s" "invlpgs (page_decref s p) = invlpgs s"
proof -
  let ?s1 = "upd_page p (\<lambda>pg. pg\<lparr>pp_ref := pp_ref pg - 1\<rparr>) s"
  have "pages_wf ?s1" "p < unat (npages ?s1)"
    using assms by (auto simp: pages_wf_def)
  then show "pp_ref (pages (page_decref s p) q) = (if q = p then pp_ref (pages s p) - 1 else pp_ref (pages s q))"
    "pmem (page_decref s p) = pmem s" "invlpgs (page_decref s p) = invlpgs s"
    by (auto simp: page_decref_def Let_def page_free_sel)
qed

lemma page_decref_free_list:
  assumes wf: "pages_wf s" and p: "p < unat (npages s)" and fl: "free_list s fl"
    and used: "pp_ref (pages s p) \<noteq> 0"
  shows "free_list (page_decref s p) (if pp_ref (pages s p) = 1 then p # fl else fl)"
proof -
  let ?s1 = "upd_page p (\<lambda>pg. pg\<lparr>pp_ref := pp_ref pg - 1\<rparr>) s"
  have wf1: "pages_wf ?s1" "p < unat (npages ?s1)"
    using wf p by (auto simp: pages_wf_def)
  have new: "p \<notin> set fl"
    using fl used by (auto simp: free_list_def)
  have "page_links ?s1 = page_links s"
    by (auto simp: page_links_def)
  with fl new have fl1: "free_list ?s1 fl"
    by (auto simp: free_list_def)
  have one: "pp_ref (pages s p) - 1 = 0 \<longleftrightarrow> pp_ref (pages s p) = 1"
    by simp
  show ?thesis
    using page_free_free_list [OF wf1 _ fl1 new] fl1 one
    by (auto simp: page_decref_def Let_def)
qed

lemma page_decref_inv:
  assumes "alloc_inv s" "p < unat (npages s)" "pp_ref (pages s p) \<noteq> 0"
  shows "alloc_inv (page_decref s p)"
proof -
  obtain fl where "pages_wf s" "free_list s fl"
    using assms(1) by (auto simp: alloc_inv_def)
  then show ?thesis
    using page_decref_free_list [OF _ assms(2) _ assms(3)] page_decref_pages_wf
    unfolding alloc_inv_def by blast
qed

subsection \<open>Building the free list\<close>

lemma pages_fold_upd_pred:
  assumes "1 \<le> n"
  shows "pages (fold (\<lambda>i. upd_page (i - Suc 0) (f i)) [Suc 0..<n] s) j =
    (if Suc j < n then f (Suc j) (pages s j) else pages s j)"
  using assms [unfolded One_nat_def]
proof (induction n rule: dec_induct)
  case base
  then show ?case by simp
next
  case (step n)
  then show ?case by auto
qed

lemma pages_fold_upd:
  "pages (fold (\<lambda>i. upd_page i f) [a..<b] s) j =
    (if a \<le> j \<and> j < b then f (pages s j) else pages s j)"
  by (induction b) auto

lemma fold_upd_page_frame:
  "npages (fold (\<lambda>i. upd_page (h i) (f i)) xs s) = npages s"
  "nextfree (fold (\<lambda>i. upd_page (h i) (f i)) xs s) = nextfree s"
  "nAvailPages (fold (\<lambda>i. upd_page (h i) (f i)) xs s) = nAvailPages s"
  "page_free_list (fold (\<lambda>i. upd_page (h i) (f i)) xs s) = page_free_list s"
  by (induction xs arbitrary: s) (auto simp: upd_page_def)

lemma page_init_chain_sel:
  "npages (page_init_chain s) = npages s" "nextfree (page_init_chain s) = nextfree s"
  "nAvailPages (page_init_chain s) = nAvailPages s" "page_free_list (page_init_chain s) = Some 1"
  by (simp_all add: page_init_chain_def Let_def fold_upd_page_frame upd_page_def)

lemma page_init_chain_pages:
  assumes "1 < unat (npages s)" "i < unat (npages s)"
  shows "pp_link (pages (page_init_chain s) i) = (if i = 0 \<or> Suc i = unat (npages s) then None else Some (Suc i))"
    "paddr (pages (page_init_chain s) i) = page2pa i"
    "pp_ref (pages (page_init_chain s) i) = (if i = 0 then 1 else 0)"
  using assms by (auto simp: page_init_chain_def Let_def pages_fold_upd_pred)

lemma boot_page_numbers:
  "unat (PGNUM IOPHYSMEM) = 160" "unat (PGNUM EXTPHYSMEM) = 256" "unat (PGNUM MPENTRY_PADDR) = 7"
  "PGNUM EXTPHYSMEM - PGNUM IOPHYSMEM = 96"
  by (simp_all add: PGNUM_def layout)

lemma page_init_reserve_sel:
  "npages (page_init_reserve k s) = npages s"
  "page_free_list (page_init_reserve k s) = page_free_list s"
  "nAvailPages (page_init_reserve k s) = nAvailPages s - 97"
  by (simp_all add: page_init_reserve_def Let_def fold_upd_page_frame boot_page_numbers)

lemma page_init_reserve_pages:
  assumes "256 < k"
  shows "pp_link (pages (page_init_reserve k s) i) =
      (if i = 0 then Some 160 else if i = 6 then Some 8 else if i = 7 then None
       else if i = 159 then Some k else if i = 160 then Some 7 else if Suc i = k then None
       else pp_link (pages s i))"
    "paddr (pages (page_init_reserve k s) i) = paddr (pages s i)"
    "pp_ref (pages (page_init_reserve k s) i) =
      (if i = 7 \<or> 256 \<le> i \<and> i < k then 1 else pp_ref (pages s i))"
  using assms by (auto simp: page_init_reserve_def Let_def pages_fold_upd boot_page_numbers)

lemma page_init_run:
  assumes "nextfree s \<noteq> 0" "KERNBASE \<le> nextfree s"
  shows "page_init kend s =
    Some (page_init_reserve (unat (PGNUM (nextfree s - KERNBASE))) (page_init_chain s))"
  using assms by (simp add: page_init_def boot_alloc_def Let_def page_init_chain_sel PADDR_def)

lemma page_init_free_list:
  assumes nf: "nextfree s \<noteq> 0" "KERNBASE \<le> nextfree s"
    and k: "k = unat (PGNUM (nextfree s - KERNBASE))" "256 < k" "k < unat (npages s)"
    and n: "unat (npages s) \<le> 65536" and run: "page_init kend s = Some s'"
  shows "free_list s' ([1..<7] @ [8..<160] @ [k..<unat (npages s)])" "pages_wf s'"
proof -
  let ?n = "unat (npages s)"
  have s': "s' = page_init_reserve k (page_init_chain s)"
    using page_init_run [OF nf] run k(1) by simp
  have np: "npages s' = npages s"
    by (simp add: s' page_init_reserve_sel page_init_chain_sel)
  have link: "page_links s' i = (if i = 0 then Some 160 else if i = 6 then Some 8 else if i = 7 then None
       else if i = 159 then Some k else if i = 160 then Some 7 else if Suc i = k \<or> Suc i = ?n then None
       else Some (Suc i))" if "i < ?n" for i
    using that k by (simp add: s' page_links_def page_init_reserve_pages page_init_chain_pages)
  have ref: "pp_ref (pages s' i) = (if i = 0 \<or> i = 7 \<or> 256 \<le> i \<and> i < k then 1 else 0)" if "i < ?n" for i
    using that k by (simp add: s' page_init_reserve_pages page_init_chain_pages)
  have "linked (page_links s') (Some k) ([k..<?n] @ [])"
    using k link by (subst linked_upt) auto
  then have "linked (page_links s') (Some 8) ([8..<160] @ [k..<?n])"
    using k link by (subst linked_upt) auto
  then have "linked (page_links s') (Some 1) ([1..<7] @ [8..<160] @ [k..<?n])"
    using k link by (subst linked_upt) auto
  moreover have "page_free_list s' = Some 1"
    by (simp add: s' page_init_reserve_sel page_init_chain_sel)
  ultimately show "free_list s' ([1..<7] @ [8..<160] @ [k..<?n])"
    using k ref np by (auto simp: free_list_def)
  show "pages_wf s'"
    using k n np by (auto simp: pages_wf_def s' page_init_reserve_pages page_init_chain_pages)
qed

subsection \<open>A concrete state\<close>

text \<open>Eight pages of memory: page 0 belongs to the kernel, page 1 is an empty page directory,
  pages 2 and 3 are free, page 4 is held by the kernel with one reference, pages 5 to 7 are
  allocated and have no reference yet.\<close>

definition demo_pages :: "nat \<Rightarrow> Page" where
  "demo_pages i = \<lparr>pp_link = (if i = 2 then Some 3 else None), paddr = page2pa i,
     pp_ref = (if i \<le> 1 \<or> i = 4 then 1 else 0)\<rparr>"

definition demo_tf :: Trapframe where
  "demo_tf = \<lparr>tf_regs = \<lparr>reg_edi = 0, reg_esi = 0, reg_ebp = 0, reg_oesp = 0, reg_ebx = 0, reg_edx = 0,
     reg_ecx = 0, reg_eax = 0\<rparr>, tf_es = 0, tf_ds = 0, tf_trapno = 0, tf_err = 0, tf_eip = 0, tf_cs = 0,
     tf_eflags = 0, tf_esp = 0, tf_ss = 0\<rparr>"

definition demo_env :: "nat \<Rightarrow> Env" where
  "demo_env i = \<lparr>env_tf = demo_tf, env_link = (if i + 1 < 1024 then Some (i + 1) else None), env_id = 0,
     env_parent_id = 0, env_type = ENV_TYPE_USER, env_status = ENV_FREE, env_runs = 0, env_cpunum = 0,
     env_pgdir = 0, env_pgfault_upcall = 0, env_ipc_recving = False, env_ipc_dstva = 0,
     env_ipc_value = 0, env_ipc_from = 0, env_ipc_perm = 0\<rparr>"

definition demo_base :: "nat \<Rightarrow> nat" where
  "demo_base p = of_bool (p = 0 \<or> p = 4)"

definition demo :: kstate where
  "demo = \<lparr>npages = 8, npages_basemem = 8, nAvailPages = 2, nextfree = 0, kern_pgdir = 0xF0000000,
     pages = demo_pages, page_free_list = Some 2, pmem = (\<lambda>_. 0), envs = demo_env,
     env_free_list = Some 0,
     cpus = (\<lambda>i. \<lparr>cpu_id = word_of_nat i, cpu_status = 0, cpu_env = None, cpu_ts = \<lparr>ts_esp0 = 0, ts_ss0 = 0\<rparr>\<rparr>),
     cpunum = 0, cr3 = 0, invlpgs = [], user_mem_check_addr = 0,
     kernel_lock = \<lparr>locked = 0, lk_cpu = None\<rparr>, con = demo_cons\<rparr>"

lemma demo_sel [simp]:
  "npages demo = 8" "page_free_list demo = Some 2" "pages demo = demo_pages" "pmem demo = (\<lambda>_. 0)"
  "envs demo = demo_env" "env_free_list demo = Some 0" "curenv demo = None" "cpunum demo = 0"
  "kern_pgdir demo = 0xF0000000" "invlpgs demo = []"
  by (simp_all add: demo_def curenv_def)

lemma demo_wf: "pages_wf demo" "free_list demo [2, 3]"
  by (simp_all add: pages_wf_def free_list_def page_links_def demo_pages_def)

subsection \<open>What the allocator guarantees\<close>

text \<open>\<^verbatim>\<open>page_alloc\<close> returns \<^verbatim>\<open>NULL\<close> exactly when no page is free and then changes nothing;
  otherwise it returns the head of the free list, which leaves the list, with reference count 0,
  with its 4096 bytes zeroed exactly when \<^verbatim>\<open>ALLOC_ZERO\<close> is given, and no other page structure,
  no other byte of memory and nothing else of the kernel's state changes. It never panics.\<close>

theorem page_alloc_correct:
  assumes "pages_wf s" "free_list s fl"
  shows "case fl of
      [] \<Rightarrow> page_alloc s f = Some (None, s)
    | p # ys \<Rightarrow> \<exists>s'. page_alloc s f = Some (Some p, s') \<and> pages_wf s' \<and> free_list s' ys \<and> p \<notin> set ys \<and>
        pp_ref (pages s' p) = 0 \<and> (\<forall>q. q \<noteq> p \<longrightarrow> pages s' q = pages s q) \<and> mm_frame s s' \<and>
        pmem s' = (if ALLOC_ZERO AND f \<noteq> 0 then fill_bytes (pmem s) (page2pa p) 0 4096 else pmem s)"
proof (cases fl)
  case Nil
  then show ?thesis using assms by (simp add: page_alloc_def free_list_def)
next
  case (Cons p ys)
  with page_alloc_run [of s p ys f] assms obtain s' where
    A: "page_alloc s f = Some (Some p, s')" "pages_wf s'" "free_list s' ys" "p \<notin> set ys"
    "pmem s' = (if ALLOC_ZERO AND f \<noteq> 0 then fill_bytes (pmem s) (page2pa p) 0 4096 else pmem s)" by blast
  then show ?thesis
    using Cons page_alloc_Some [OF A(1)] by simp
qed

theorem page_alloc_correct_witness:
  "\<exists>s'. page_alloc demo ALLOC_ZERO = Some (Some 2, s') \<and> free_list s' [3]"
  using page_alloc_correct [OF demo_wf, of ALLOC_ZERO] by auto

text \<open>What is freed is what is allocated next: after \<^verbatim>\<open>page_free\<close> of a page without references, the
  next \<^verbatim>\<open>page_alloc\<close> returns that page and leaves the free list as it was before both calls.\<close>

theorem page_free_alloc:
  assumes "pages_wf s" "free_list s fl" "p < unat (npages s)" "pp_ref (pages s p) = 0" "p \<notin> set fl"
  shows "\<exists>s'. page_alloc (page_free s (Some p)) f = Some (Some p, s') \<and> free_list s' fl \<and>
    page_free_list s' = page_free_list s"
proof -
  have wf: "pages_wf (page_free s (Some p))" and fl: "free_list (page_free s (Some p)) (p # fl)"
    using assms by (auto intro: page_free_pages_wf page_free_free_list)
  then have "alloc_inv (page_free s (Some p))"
    unfolding alloc_inv_def by blast
  then obtain r s' where run: "page_alloc (page_free s (Some p)) f = Some (r, s')"
    using page_alloc_total by blast
  have "page_free_list (page_free s (Some p)) = Some p"
    using page_free_sel(1) [OF assms(1,3)] .
  then have A: "page_alloc (page_free s (Some p)) f = Some (Some p, s')"
    using run page_alloc_None [of "page_free s (Some p)" f s'] page_alloc_Some(1) [of "page_free s (Some p)" f _ s']
    by (cases r) auto
  have "PGNUM (paddr (pages s p)) < npages s"
    using assms by (simp add: pages_wf_def PGNUM_page2pa word_less_nat_alt unat_of_nat)
  then have "page_free_list s' = page_free_list s"
    using page_stack.push_pop(2) [of s p "page_free s (Some p)" p s'] A by blast
  then show ?thesis
    using A page_alloc_free_list [OF A fl] by auto
qed

theorem page_free_alloc_witness:
  "\<exists>s'. page_alloc (page_free demo (Some 5)) 0 = Some (Some 5, s') \<and> free_list s' [2, 3]"
  using page_free_alloc [OF demo_wf, of 5 0] by (auto simp: demo_pages_def)

text \<open>When \<^verbatim>\<open>page_init\<close> runs with the boot allocator past the kernel image, it returns, and the free
  list then holds exactly the pages of base memory except page 0 and the page of the
  multiprocessor entry code, and the pages from the boot allocator's position on: the I/O hole
  and the kernel are never handed out. Every free page has no reference, and the array is well
  formed.\<close>

theorem page_init_correct:
  assumes "KERNBASE \<le> nextfree s" "256 < unat (PGNUM (nextfree s - KERNBASE))"
    "unat (PGNUM (nextfree s - KERNBASE)) < unat (npages s)" "unat (npages s) \<le> 65536"
  shows "\<exists>s'. page_init kend s = Some s' \<and> pages_wf s' \<and>
    free_list s' ([1..<7] @ [8..<160] @ [unat (PGNUM (nextfree s - KERNBASE))..<unat (npages s)])"
proof -
  have "nextfree s \<noteq> 0"
    using assms(1) by (auto simp: layout)
  then show ?thesis
    using page_init_run [of s kend] page_init_free_list [OF _ assms(1) refl assms(2-4)] assms(1) by auto
qed

theorem page_init_correct_witness:
  "\<exists>s'. page_init 0xF0110000 (demo\<lparr>npages := 1024, nextfree := 0xF0200000\<rparr>) = Some s' \<and> pages_wf s' \<and>
     free_list s' ([1..<7] @ [8..<160] @ [512..<1024])"
  using page_init_correct [of "demo\<lparr>npages := 1024, nextfree := 0xF0200000\<rparr>" "0xF0110000"]
  by (simp add: layout PGNUM_def)

end
