(* ===== verification/Pmap_Walk.thy ===== *)
theory Pmap_Walk
  imports Pmap_Alloc
begin

section \<open>Page tables\<close>

text \<open>
  The page table half of \<^verbatim>\<open>kern/pmap.c\<close>: \<^verbatim>\<open>pgdir_walk\<close>, \<^verbatim>\<open>page_lookup\<close>, \<^verbatim>\<open>page_remove\<close>,
  \<^verbatim>\<open>page_insert\<close>, \<^verbatim>\<open>tlb_invalidate\<close>, \<^verbatim>\<open>boot_map_region\<close> and \<^verbatim>\<open>check_va2pa\<close>, on the bytes
  of physical memory. A \<^verbatim>\<open>pde_t *\<close> or \<^verbatim>\<open>pte_t *\<close> is a kernel virtual address, \<open>0\<close> being
  \<^verbatim>\<open>NIL\<close>.
\<close>

subsection \<open>Operations\<close>

definition pgdir_walk :: "kstate \<Rightarrow> u32 \<Rightarrow> u32 \<Rightarrow> bool \<Rightarrow> (u32 \<times> kstate) option" where
  "pgdir_walk s pgdir va create =
     (let pde = kld s (slot pgdir (PDX va))
      in if PTE_P AND pde \<noteq> 0
         then do {
           pde_pg \<leftarrow> pa2page s pde;
           pgtable \<leftarrow> page2kva s pde_pg;
           Some (slot pgtable (PTX va), s)
         }
         else if \<not> create then Some (0, s)
         else do {
           (r, s1) \<leftarrow> page_alloc s ALLOC_ZERO;
           (case r of
              None \<Rightarrow> Some (0, s1)
            | Some pde_pg \<Rightarrow>
                let s2 = upd_page pde_pg (\<lambda>pg. pg\<lparr>pp_ref := pp_ref pg + 1\<rparr>) s1;
                    s3 = kst (slot pgdir (PDX va)) (page2pa pde_pg OR PTE_P OR PTE_W) s2
                in do {
                  pgtable \<leftarrow> page2kva s3 pde_pg;
                  Some (slot pgtable (PTX va), s3)
                })
         })"

text \<open>The result of \<^verbatim>\<open>page_lookup\<close> is the page together with what it stores through
  \<^verbatim>\<open>pte_store\<close>; a failed lookup stores nothing.\<close>

definition page_lookup :: "kstate \<Rightarrow> u32 \<Rightarrow> u32 \<Rightarrow> (nat \<times> u32) option option" where
  "page_lookup s pgdir va =
     do {
       (tmp_pte, s1) \<leftarrow> pgdir_walk s pgdir va False;
       (if tmp_pte = 0 then Some None
        else if kld s1 tmp_pte AND PTE_P = 0 then Some None
        else do {
          pg \<leftarrow> pa2page s1 (PTE_ADDR (kld s1 tmp_pte));
          Some (Some (pg, tmp_pte))
        })
     }"

definition tlb_invalidate :: "u32 \<Rightarrow> u32 \<Rightarrow> kstate \<Rightarrow> kstate" where
  "tlb_invalidate pgdir va s =
     (case curenv s of
        None \<Rightarrow> s\<lparr>invlpgs := va # invlpgs s\<rparr>
      | Some e \<Rightarrow> if env_pgdir (envs s e) = pgdir then s\<lparr>invlpgs := va # invlpgs s\<rparr> else s)"

definition page_remove :: "kstate \<Rightarrow> u32 \<Rightarrow> u32 \<Rightarrow> kstate option" where
  "page_remove s pgdir va =
     do {
       r \<leftarrow> page_lookup s pgdir va;
       (case r of
          None \<Rightarrow> Some s
        | Some (rm_page, rm_pte) \<Rightarrow>
            let s1 = page_decref s rm_page;
                s2 = (if pp_ref (pages s1 rm_page) = 0 then tlb_invalidate pgdir va s1 else s1)
            in Some (kst rm_pte 0 s2))
     }"

definition page_insert :: "kstate \<Rightarrow> u32 \<Rightarrow> nat option \<Rightarrow> u32 \<Rightarrow> u32 \<Rightarrow> (int \<times> kstate) option" where
  "page_insert s pgdir pp va perm =
     do {
       (ptep, s1) \<leftarrow> pgdir_walk s pgdir va True;
       (if ptep = 0 then Some (- E_NO_MEM, s1)
        else case pp of
          None \<Rightarrow> Some (- E_UNSPECIFIED, s1)
        | Some p \<Rightarrow>
            let s2 = kst (slot pgdir (PDX va)) (kld s1 (slot pgdir (PDX va)) OR (perm OR PTE_P)) s1
            in do {
              s3 \<leftarrow> (if paddr (pages s2 p) \<noteq> PTE_ADDR (kld s2 ptep)
                    then let s' = upd_page p (\<lambda>pg. pg\<lparr>pp_ref := pp_ref pg + 1\<rparr>) s2
                         in if kld s' ptep AND PTE_P \<noteq> 0 then page_remove s' pgdir va else Some s'
                    else Some s2);
              Some (0, kst ptep (page2pa p OR perm OR PTE_P) s3)
            })
     }"

fun compare_MAX_from :: "u32 \<Rightarrow> u32 \<Rightarrow> nat \<Rightarrow> nat \<Rightarrow> int" where
  "compare_MAX_from v mx i 0 = 0"
| "compare_MAX_from v mx i (Suc n) =
     (if v + word_of_nat i = mx then - 1 else compare_MAX_from v mx (Suc i) n)"

definition compare_MAX :: "u32 \<Rightarrow> u32 \<Rightarrow> u8 \<Rightarrow> int" where
  "compare_MAX v mx units = compare_MAX_from v mx 0 (unat units)"

text \<open>One round of the loop of \<^verbatim>\<open>boot_map_region\<close>, then the loop: \<open>size\<close> is a multiple of the
  page size after the rounding, so that \<open>i\<close> takes the values \<open>0, PGSIZE, 2 * PGSIZE, \<dots>\<close> below it.\<close>

definition boot_map_page :: "u32 \<Rightarrow> u32 \<Rightarrow> u32 \<Rightarrow> u32 \<Rightarrow> u32 \<Rightarrow> kstate \<Rightarrow> kstate option" where
  "boot_map_page pgdir va pa perm i s =
     do {
       (ptep, s1) \<leftarrow> pgdir_walk s pgdir (va + i) True;
       (if ptep = 0 then None
        else let s2 = kst ptep (PTE_ADDR (pa + i) OR perm OR PTE_P) s1;
                 pdep = slot pgdir (PDX (va + i))
             in Some (if PTE_U AND perm \<noteq> 0 \<and> PTE_U AND kld s2 pdep = 0
                      then kst pdep (kld s2 pdep OR PTE_U) s2 else s2))
     }"

fun boot_map_loop :: "u32 \<Rightarrow> u32 \<Rightarrow> u32 \<Rightarrow> u32 \<Rightarrow> u32 list \<Rightarrow> kstate \<Rightarrow> kstate option" where
  "boot_map_loop pgdir va pa perm [] s = Some s"
| "boot_map_loop pgdir va pa perm (i # is) s =
     (if compare_MAX va 0xFFFFFFFF 4 = 0 \<and> compare_MAX pa 0xFFFFFFFF 4 = 0
      then do { s1 \<leftarrow> boot_map_page pgdir va pa perm i s; boot_map_loop pgdir va pa perm is s1 }
      else Some s)"

definition boot_map_region :: "u32 \<Rightarrow> u32 \<Rightarrow> u32 \<Rightarrow> u32 \<Rightarrow> u32 \<Rightarrow> kstate \<Rightarrow> kstate option" where
  "boot_map_region pgdir va sz pa perm s =
     boot_map_loop pgdir va pa perm
       (map (\<lambda>k. word_of_nat k * PGSIZE) [0..<unat (ROUNDUP sz PGSIZE div PGSIZE)]) s"

text \<open>The processor's own walk, as \<^verbatim>\<open>check_va2pa\<close> emulates it.\<close>

definition check_va2pa :: "kstate \<Rightarrow> u32 \<Rightarrow> u32 \<Rightarrow> u32 option" where
  "check_va2pa s pgdir va =
     (let pde = kld s (slot pgdir (PDX va))
      in if pde AND PTE_P = 0 then Some 0xFFFFFFFF
         else do {
           p \<leftarrow> KADDR s (PTE_ADDR pde);
           Some (let pte = kld s (slot p (PTX va))
                 in if pte AND PTE_P = 0 then 0xFFFFFFFF else PTE_ADDR pte)
         })"

subsection \<open>Entries of a frame\<close>

lemma PGNUM_eq_iff: "PGNUM a = PGNUM b \<longleftrightarrow> PDX a = PDX b \<and> PTX a = PTX b"
proof -
  have split: "n = m \<longleftrightarrow> n div 1024 = m div 1024 \<and> n mod 1024 = m mod 1024" for n m :: nat
    by (metis div_mult_mod_eq)
  have "unat x div 4194304 = unat x div 4096 div 1024" for x :: u32
    by (simp flip: div_mult2_eq)
  then show ?thesis
    unfolding word_unat_eq_iff unat_PGNUM unat_PDX unat_PTX
    using split [of "unat a div 4096" "unat b div 4096"] by metis
qed

text \<open>\<open>kpage f\<close> is the kernel virtual address of physical frame \<open>f\<close>, \<open>entry s f i\<close> the \<open>i\<close>-th
  32-bit word of that frame.\<close>

definition kpage :: "nat \<Rightarrow> u32" where
  "kpage f = page2pa f + KERNBASE"

definition entry :: "kstate \<Rightarrow> nat \<Rightarrow> u32 \<Rightarrow> u32" where
  "entry s f i = rd32 (pmem s) (slot (page2pa f) i)"

definition present :: "u32 \<Rightarrow> bool" where
  "present e \<longleftrightarrow> PTE_P AND e \<noteq> 0"

definition frame :: "u32 \<Rightarrow> nat" where
  "frame e = unat (PGNUM e)"

lemma slot_kpage: "slot (kpage f) i - KERNBASE = slot (page2pa f) i"
  by (simp add: slot_def kpage_def)

lemma kld_kpage: "kld s (slot (kpage f) i) = entry s f i"
  by (simp add: kld_def entry_def slot_kpage)

lemma page2pa_inject:
  assumes "f < 65536" "f' < 65536"
  shows "page2pa f = page2pa f' \<longleftrightarrow> f = f'"
proof
  assume eq: "page2pa f = page2pa f'"
  have "unat (page2pa f) = f * 4096" "unat (page2pa f') = f' * 4096"
    using assms by (simp_all add: unat_page2pa)
  then have "f * 4096 = f' * 4096"
    by (simp only: eq)
  then show "f = f'" by simp
qed simp

lemma entry_kst:
  assumes "f < 65536" "f' < 65536" "unat i < 1024" "unat i' < 1024"
  shows "entry (kst (slot (kpage f) i) v s) f' i' = (if f' = f \<and> i' = i then v else entry s f' i')"
proof (cases "f' = f \<and> i' = i")
  case True
  then show ?thesis
    by (simp add: entry_def kst_def slot_kpage)
next
  case False
  then have "slot (page2pa f) i \<noteq> slot (page2pa f') i'"
    using assms slot_inject [of "page2pa f" i "page2pa f'" i'] by (auto simp: page2pa_inject)
  moreover have "aligned4 (slot (page2pa f) i)" "aligned4 (slot (page2pa f') i')"
    using assms by (auto intro: slot_aligned4)
  ultimately show ?thesis
    using False by (auto simp: entry_def kst_def slot_kpage rd32_wr32_other)
qed

lemma in_range_page:
  assumes "f < 65536" "page_aligned a" "PTE_ADDR x = a"
  shows "in_range (page2pa f) 4096 x \<longleftrightarrow> page2pa f = a"
proof -
  obtain k where k: "unat a = 4096 * k" "k < 1048576"
    using assms(2) by (rule page_aligned_obtain)
  have f: "unat (page2pa f) = 4096 * f"
    using assms(1) by (simp add: unat_page2pa)
  have "unat x = 4096 * k + unat x mod 4096"
    using assms(3) k(1) unat_PTE_ADDR [of x] by (metis le_add_diff_inverse2 mod_less_eq_dividend)
  then obtain r where r: "unat x = 4096 * k + r" "r < 4096"
    by (metis mod_less_divisor zero_less_numeral)
  show ?thesis
  proof (cases "page2pa f \<le> x")
    case True
    then have "unat (x - page2pa f) = unat x - unat (page2pa f)"
      by (simp add: unat_sub)
    moreover have "4096 * f \<le> 4096 * k + r"
      using True f r by (simp add: word_le_nat_alt)
    ultimately have "in_range (page2pa f) 4096 x \<longleftrightarrow> 4096 * k + r < 4096 * f + 4096"
      using f r by (simp add: in_range_def) linarith
    also have "\<dots> \<longleftrightarrow> k = f"
      using r(2) \<open>4096 * f \<le> 4096 * k + r\<close> by linarith
    finally show ?thesis
      using f k by (auto simp: word_unat_eq_iff)
  next
    case False
    then have "unat x < unat (page2pa f)"
      by (simp add: word_le_nat_alt)
    then have "unat (x - page2pa f) = unat x + 4294967296 - unat (page2pa f)"
      by (simp add: unat_sub_if_size word_size)
    then have "\<not> in_range (page2pa f) 4096 x"
      using f assms(1) by (simp add: in_range_def)
    moreover have "page2pa f \<noteq> a"
      using \<open>unat x < unat (page2pa f)\<close> k r by auto
    ultimately show ?thesis by simp
  qed
qed

lemma entry_fill:
  assumes "f < 65536" "f' < 65536" "unat i < 1024" "pmem s' = fill_bytes (pmem s) (page2pa f) 0 4096"
  shows "entry s' f' i = (if f' = f then 0 else entry s f' i)"
proof -
  have "in_range (page2pa f) 4096 (slot (page2pa f') i + word_of_nat j) \<longleftrightarrow> f = f'" if "j < 4" for j
    using assms that in_range_page [OF assms(1) _ slot_page [of "page2pa f'" i j]]
    by (simp add: page2pa_inject)
  from this [of 0] this [of 1] this [of 2] this [of 3] show ?thesis
    by (auto simp: entry_def assms(4) fill_bytes_def rd32_def)
qed

lemma present_bit: "present e \<longleftrightarrow> bit e 0"
  by (simp add: present_def layout one_and_eq bit_0 odd_iff_mod_2_eq_one)

lemma present_or [simp]: "present (a OR b) \<longleftrightarrow> present a \<or> present b"
  by (simp add: present_bit bit_or_iff)

lemma present_PTE_P [simp]: "present PTE_P"
  by (simp add: present_bit layout)

lemma not_present_0 [simp]: "\<not> present 0"
  by (simp add: present_bit)

lemma PTE_P_test:
  "PTE_P AND e \<noteq> 0 \<longleftrightarrow> present e" "e AND PTE_P \<noteq> 0 \<longleftrightarrow> present e"
  "PTE_P AND e = 0 \<longleftrightarrow> \<not> present e" "e AND PTE_P = 0 \<longleftrightarrow> \<not> present e"
  by (auto simp: present_def and.commute)

lemma frame_or_flags:
  assumes "p < 65536" "unat f < 4096"
  shows "frame (page2pa p OR f) = p"
proof -
  have "PGNUM (page2pa p OR f) = PGNUM (page2pa p)"
    using PTE_ADDR_or_flags [of "page2pa p" f] PGNUM_PTE_ADDR [of "page2pa p OR f"] assms by simp
  then show ?thesis
    using assms by (simp add: frame_def PGNUM_page2pa unat_of_nat)
qed

lemma frame_keep_or:
  assumes "unat f < 4096"
  shows "frame (e OR f) = frame e"
proof -
  have "PTE_ADDR f = 0"
    using assms by (simp add: word_unat_eq_iff unat_PTE_ADDR)
  then have "PTE_ADDR (e OR f) = PTE_ADDR e"
    by (simp add: PTE_ADDR_shift push_bit_or drop_bit_or)
  then show ?thesis
    by (metis PGNUM_PTE_ADDR frame_def)
qed

lemma flags_or:
  assumes "unat (f :: u32) < 4096" "unat g < 4096"
  shows "unat (f OR g) < 4096"
proof -
  have "take_bit 12 f = f" "take_bit 12 g = g"
    using assms by (simp_all add: take_bit_small)
  then have "take_bit 12 (f OR g) = f OR g"
    by (simp add: take_bit_or)
  then have "unat (f OR g) = unat (f OR g) mod 4096"
    using unat_take_bit [of 12 "f OR g"] by simp
  then show ?thesis
    by (metis mod_less_divisor zero_less_numeral)
qed

lemma pa2page_frame: "frame e < unat (npages s) \<Longrightarrow> pa2page s e = Some (frame e)"
  by (simp add: pa2page_def frame_def word_le_nat_alt)

lemma page2kva_kpage:
  assumes "f < unat (npages s)" "unat (npages s) \<le> 65536"
  shows "page2kva s f = Some (kpage f)"
  using assms by (simp add: page2kva_def KADDR_def kpage_def PGNUM_page2pa word_le_nat_alt unat_of_nat)

lemma PADDR_kpage:
  assumes "f < 65536"
  shows "PADDR (kpage f) = Some (page2pa f)"
proof -
  have "unat (kpage f) = f * 4096 + 4026531840"
    using assms unat_add_no_wrap [of "page2pa f" KERNBASE] by (simp add: kpage_def unat_page2pa layout)
  then show ?thesis
    by (simp add: PADDR_def word_less_nat_alt) (simp add: kpage_def layout)
qed

lemma slot_kpage_nonzero:
  assumes "f < 65536" "unat j < 1024"
  shows "slot (kpage f) j \<noteq> 0"
proof
  assume "slot (kpage f) j = 0"
  then have "slot (page2pa f) j = 0x10000000"
    using slot_kpage [of f j] by (simp add: layout)
  then have "unat (slot (page2pa f) j) = 268435456"
    by simp
  moreover have "unat (slot (page2pa f) j) = f * 4096 + 4 * unat j"
    using assms unat_slot [of "page2pa f" j] by (simp add: unat_page2pa)
  ultimately show False
    using assms by simp
qed

subsection \<open>Address spaces and the reference-count invariant\<close>

text \<open>
  \<open>pte s d i j\<close> is the page table entry that the two-level structure rooted in frame \<open>d\<close>
  gives for directory index \<open>i\<close> and table index \<open>j\<close> (\<open>0\<close> when there is no table), \<open>vmap s d\<close>
  the address space it describes. \<open>D\<close> is the set of the frames that hold the page directories
  of live environments, and only the part below \<open>UTOP\<close> belongs to an environment.

  \<open>vm_inv base D fl s\<close>: the free list is \<open>fl\<close>; every table and every mapped page of every
  address space in \<open>D\<close> exists; a page table entry is either present or zero; the reference
  count of every page is the number of its uses (as a directory, as a page table, as a mapped
  page) plus \<open>base p\<close>, the references held by the kernel; and a page used as directory or as
  page table has that single use. That an unused page is on the free list is not part of it: a page
  between its allocation and its first mapping is on no list. Where an operation gives pages back, its
  property says which pages the list has gained.
\<close>

definition user_pdx :: "u32 \<Rightarrow> bool" where
  "user_pdx i \<longleftrightarrow> i < PDX UTOP"

definition pte :: "kstate \<Rightarrow> nat \<Rightarrow> u32 \<Rightarrow> u32 \<Rightarrow> u32" where
  "pte s d i j = (if present (entry s d i) then entry s (frame (entry s d i)) j else 0)"

definition vmap :: "kstate \<Rightarrow> nat \<Rightarrow> u32 \<Rightarrow> u32 option" where
  "vmap s d va = (let e = pte s d (PDX va) (PTX va) in if present e then Some e else None)"

definition tabset :: "kstate \<Rightarrow> nat set \<Rightarrow> nat \<Rightarrow> (nat \<times> u32) set" where
  "tabset s D p = {(d, i). d \<in> D \<and> user_pdx i \<and> present (entry s d i) \<and> frame (entry s d i) = p}"

definition mapset :: "kstate \<Rightarrow> nat set \<Rightarrow> nat \<Rightarrow> (nat \<times> u32 \<times> u32) set" where
  "mapset s D p = {(d, i, j). d \<in> D \<and> user_pdx i \<and> unat j < 1024 \<and>
     present (pte s d i j) \<and> frame (pte s d i j) = p}"

definition vm_inv :: "(nat \<Rightarrow> nat) \<Rightarrow> nat set \<Rightarrow> nat list \<Rightarrow> kstate \<Rightarrow> bool" where
  "vm_inv base D fl s \<longleftrightarrow> pages_wf s \<and> free_list s fl \<and>
     (\<forall>d \<in> D. d < unat (npages s)) \<and>
     (\<forall>d \<in> D. \<forall>i. user_pdx i \<longrightarrow> present (entry s d i) \<longrightarrow> frame (entry s d i) < unat (npages s)) \<and>
     (\<forall>d \<in> D. \<forall>i j. user_pdx i \<longrightarrow> unat j < 1024 \<longrightarrow>
        (if present (pte s d i j) then frame (pte s d i j) < unat (npages s) else pte s d i j = 0)) \<and>
     (\<forall>p < unat (npages s). unat (pp_ref (pages s p)) =
        of_bool (p \<in> D) + card (tabset s D p) + card (mapset s D p) + base p) \<and>
     (\<forall>p < unat (npages s). p \<in> D \<or> tabset s D p \<noteq> {} \<longrightarrow> pp_ref (pages s p) = 1)"

lemma user_pdx_less: "user_pdx i \<Longrightarrow> unat i < 1024"
proof -
  assume "user_pdx i"
  then have "unat i < unat (PDX UTOP)"
    by (simp add: user_pdx_def word_less_nat_alt)
  then show ?thesis
    using PDX_less [of UTOP] by linarith
qed

lemma vm_invD:
  assumes "vm_inv base D fl s"
  shows "pages_wf s" "free_list s fl" "d \<in> D \<Longrightarrow> d < unat (npages s)"
    "d \<in> D \<Longrightarrow> user_pdx i \<Longrightarrow> present (entry s d i) \<Longrightarrow> frame (entry s d i) < unat (npages s)"
    "d \<in> D \<Longrightarrow> user_pdx i \<Longrightarrow> unat j < 1024 \<Longrightarrow> present (pte s d i j) \<Longrightarrow> frame (pte s d i j) < unat (npages s)"
    "d \<in> D \<Longrightarrow> user_pdx i \<Longrightarrow> unat j < 1024 \<Longrightarrow> \<not> present (pte s d i j) \<Longrightarrow> pte s d i j = 0"
    "p < unat (npages s) \<Longrightarrow>
      unat (pp_ref (pages s p)) = of_bool (p \<in> D) + card (tabset s D p) + card (mapset s D p) + base p"
    "p < unat (npages s) \<Longrightarrow> p \<in> D \<or> tabset s D p \<noteq> {} \<Longrightarrow> pp_ref (pages s p) = 1"
    "unat (npages s) \<le> 65536" "finite D"
proof -
  show "finite D"
    using assms by (auto simp: vm_inv_def intro: finite_subset [of _ "{..<unat (npages s)}"])
qed (use assms in \<open>auto simp: vm_inv_def pages_wf_def split: if_splits\<close>)

lemma finite_tabset: "finite D \<Longrightarrow> finite (tabset s D p)"
  by (rule finite_subset [of _ "D \<times> UNIV"]) (auto simp: tabset_def)

lemma finite_mapset: "finite D \<Longrightarrow> finite (mapset s D p)"
  by (rule finite_subset [of _ "D \<times> UNIV"]) (auto simp: mapset_def)

text \<open>A table is not a directory, is used once, and is not mapped.\<close>

lemma vm_table:
  assumes inv: "vm_inv base D fl s" and d: "d \<in> D" "user_pdx i" "present (entry s d i)"
  shows "frame (entry s d i) < 65536" "frame (entry s d i) < unat (npages s)" "frame (entry s d i) \<notin> D"
    "mapset s D (frame (entry s d i)) = {}" "base (frame (entry s d i)) = 0"
    "pp_ref (pages s (frame (entry s d i))) = 1"
    "d' \<in> D \<Longrightarrow> user_pdx i' \<Longrightarrow> present (entry s d' i') \<Longrightarrow>
       frame (entry s d' i') = frame (entry s d i) \<longleftrightarrow> d' = d \<and> i' = i"
proof -
  let ?p = "frame (entry s d i)"
  note I = vm_invD [OF inv]
  show p: "?p < unat (npages s)"
    using I(4) d by blast
  then show "?p < 65536"
    using I(9) by simp
  have mem: "(d, i) \<in> tabset s D ?p"
    using d by (simp add: tabset_def)
  then have one: "pp_ref (pages s ?p) = 1"
    using I(8) p by blast
  then show "pp_ref (pages s ?p) = 1" .
  have "card (tabset s D ?p) \<noteq> 0"
    using mem I(10) by (auto simp: finite_tabset)
  then have card: "of_bool (?p \<in> D) = (0 :: nat)" "card (tabset s D ?p) = 1"
      "card (mapset s D ?p) = 0" "base ?p = 0"
    using I(7) [OF p] one by (cases "?p \<in> D"; simp)+
  then show "?p \<notin> D" "mapset s D ?p = {}" "base ?p = 0"
    using I(10) finite_mapset by (auto split: if_splits)
  assume d': "d' \<in> D" "user_pdx i'" "present (entry s d' i')"
  obtain x where "tabset s D ?p = {x}"
    using card(2) card_1_singletonE by blast
  with mem have "(d', i') \<in> tabset s D ?p \<longleftrightarrow> (d', i') = (d, i)"
    by auto
  with d' show "frame (entry s d' i') = ?p \<longleftrightarrow> d' = d \<and> i' = i"
    by (simp add: tabset_def)
qed

lemma vm_dir:
  assumes inv: "vm_inv base D fl s" and d: "d \<in> D"
  shows "d < 65536" "d < unat (npages s)" "tabset s D d = {}" "mapset s D d = {}" "base d = 0"
    "pp_ref (pages s d) = 1"
proof -
  note I = vm_invD [OF inv]
  show p: "d < unat (npages s)" "d < 65536"
    using I(3,9) d by fastforce+
  show one: "pp_ref (pages s d) = 1"
    using I(8) p d by blast
  have "card (tabset s D d) = 0" "card (mapset s D d) = 0" "base d = 0"
    using I(7) [OF p(1)] one d by simp_all
  then show "tabset s D d = {}" "mapset s D d = {}" "base d = 0"
    using I(10) finite_mapset finite_tabset by auto
qed

lemma vm_free_page:
  assumes inv: "vm_inv base D fl s" and p: "p \<in> set fl"
  shows "p < 65536" "p < unat (npages s)" "p \<notin> D" "tabset s D p = {}" "mapset s D p = {}" "base p = 0"
    "pp_ref (pages s p) = 0"
proof -
  note I = vm_invD [OF inv]
  show lt: "p < unat (npages s)" "p < 65536" and z: "pp_ref (pages s p) = 0"
    using I(2,9) p by (auto simp: free_list_def)
  then have "of_bool (p \<in> D) + card (tabset s D p) + card (mapset s D p) + base p = 0"
    using I(7) [OF lt(1)] by simp
  then show "p \<notin> D" "tabset s D p = {}" "mapset s D p = {}" "base p = 0"
    using I(10) finite_mapset finite_tabset by (auto split: if_splits)
qed

text \<open>\<open>kern_same base s s'\<close>: the pages the kernel itself holds have the same content in both states.\<close>

definition kern_same :: "(nat \<Rightarrow> nat) \<Rightarrow> kstate \<Rightarrow> kstate \<Rightarrow> bool" where
  "kern_same base s s' \<longleftrightarrow> (\<forall>f i. f < 65536 \<longrightarrow> base f \<noteq> 0 \<longrightarrow> unat i < 1024 \<longrightarrow> entry s' f i = entry s f i)"

lemma kern_same_refl [simp]: "kern_same base s s"
  by (simp add: kern_same_def)

lemma kern_same_trans: "kern_same base s t \<Longrightarrow> kern_same base t u \<Longrightarrow> kern_same base s u"
  by (simp add: kern_same_def)

lemma kern_same_entry: "entry s' = entry s \<Longrightarrow> kern_same base s s'"
  by (simp add: kern_same_def)

lemma kern_same_kst:
  assumes "f < 65536" "base f = 0" "unat i < 1024"
  shows "kern_same base s (kst (slot (kpage f) i) v s)"
  unfolding kern_same_def
proof (intro allI impI)
  fix f' and i' :: u32 assume "f' < 65536" "base f' \<noteq> 0" "unat i' < 1024"
  then show "entry (kst (slot (kpage f) i) v s) f' i' = entry s f' i'"
    using entry_kst [OF assms(1) _ assms(3)] assms(2) by metis
qed

subsection \<open>Counting uses across an update\<close>

lemma card_move:
  assumes "finite A"
  shows "card (A - {x} \<union> (if b then {x} else {})) + of_bool (x \<in> A) = card A + of_bool b"
proof (cases "x \<in> A")
  case True
  then have "card A = Suc (card (A - {x}))"
    using assms card.remove by metis
  moreover from True have "A - {x} \<union> {x} = A"
    by auto
  ultimately show ?thesis
    using True by simp
next
  case False
  with assms show ?thesis by simp
qed

text \<open>
  \<open>upd_at s s' D d i j v\<close>: the directories of \<open>D\<close> are as in \<open>s\<close> up to flags, and the page
  table entries of all address spaces are those of \<open>s\<close> except the one at \<open>d, i, j\<close>, which is
  now \<open>v\<close>.
\<close>

definition same_dirs :: "kstate \<Rightarrow> kstate \<Rightarrow> nat set \<Rightarrow> bool" where
  "same_dirs s s' D \<longleftrightarrow> (\<forall>d \<in> D. \<forall>i. user_pdx i \<longrightarrow>
     present (entry s' d i) = present (entry s d i) \<and>
     (present (entry s d i) \<longrightarrow> frame (entry s' d i) = frame (entry s d i)))"

definition upd_at :: "kstate \<Rightarrow> kstate \<Rightarrow> nat set \<Rightarrow> nat \<Rightarrow> u32 \<Rightarrow> u32 \<Rightarrow> u32 \<Rightarrow> bool" where
  "upd_at s s' D d i j v \<longleftrightarrow> same_dirs s s' D \<and>
     (\<forall>d' \<in> D. \<forall>i' j'. user_pdx i' \<longrightarrow> unat j' < 1024 \<longrightarrow>
        pte s' d' i' j' = (if d' = d \<and> i' = i \<and> j' = j then v else pte s d' i' j'))"

lemma tabset_same_dirs: "same_dirs s s' D \<Longrightarrow> tabset s' D p = tabset s D p"
  by (auto simp: tabset_def same_dirs_def)

lemma upd_atD:
  assumes "upd_at s s' D d i j v" "d' \<in> D" "user_pdx i'" "unat j' < 1024"
  shows "pte s' d' i' j' = (if d' = d \<and> i' = i \<and> j' = j then v else pte s d' i' j')"
  using assms by (simp add: upd_at_def)

lemma mapset_upd_at:
  assumes "upd_at s s' D d i j v" "d \<in> D" "user_pdx i" "unat j < 1024"
  shows "mapset s' D p = mapset s D p - {(d, i, j)} \<union> (if present v \<and> frame v = p then {(d, i, j)} else {})"
proof (rule set_eqI, clarify)
  fix d' i' j'
  show "(d', i', j') \<in> mapset s' D p \<longleftrightarrow>
    (d', i', j') \<in> mapset s D p - {(d, i, j)} \<union> (if present v \<and> frame v = p then {(d, i, j)} else {})"
  proof (cases "d' = d \<and> i' = i \<and> j' = j")
    case True
    with assms show ?thesis by (simp add: mapset_def upd_atD)
  next
    case False
    then have "pte s' d' i' j' = pte s d' i' j'" if "d' \<in> D" "user_pdx i'" "unat j' < 1024"
      using upd_atD [OF assms(1) that] by auto
    with False show ?thesis by (auto simp: mapset_def)
  qed
qed

lemma card_mapset_upd_at:
  assumes "upd_at s s' D d i j v" "d \<in> D" "user_pdx i" "unat j < 1024" "finite D"
  shows "card (mapset s' D p) + of_bool (present (pte s d i j) \<and> frame (pte s d i j) = p) =
    card (mapset s D p) + of_bool (present v \<and> frame v = p)"
proof -
  have "(d, i, j) \<in> mapset s D p \<longleftrightarrow> present (pte s d i j) \<and> frame (pte s d i j) = p"
    using assms(2-4) by (auto simp: mapset_def)
  then show ?thesis
    using card_move [OF finite_mapset [OF assms(5)], of s p "(d, i, j)" "present v \<and> frame v = p"]
    by (simp only: mapset_upd_at [OF assms(1-4)])
qed

text \<open>The invariant across the update of one entry, when the reference counts follow.\<close>

lemma vm_inv_upd_at:
  assumes inv: "vm_inv base D fl s" and at: "d \<in> D" "user_pdx i" "unat j < 1024"
    and upd: "upd_at s s' D d i j v" and np: "npages s' = npages s"
    and wf: "pages_wf s'" "free_list s' fl'"
    and v: "v = 0 \<or> present v \<and> frame v < unat (npages s)"
    and kind: "\<And>p. p < unat (npages s) \<Longrightarrow> p \<in> D \<or> tabset s D p \<noteq> {} \<Longrightarrow>
      pp_ref (pages s' p) = pp_ref (pages s p)"
    and ref: "\<And>p. p < unat (npages s) \<Longrightarrow>
      unat (pp_ref (pages s' p)) + of_bool (present (pte s d i j) \<and> frame (pte s d i j) = p) + base p =
      unat (pp_ref (pages s p)) + of_bool (present v \<and> frame v = p) + base' p"
  shows "vm_inv base' D fl' s'"
proof -
  note I = vm_invD [OF inv]
  have sd: "same_dirs s s' D"
    using upd by (simp add: upd_at_def)
  have tab: "tabset s' D p = tabset s D p" for p
    using sd by (rule tabset_same_dirs)
  have count: "unat (pp_ref (pages s' p)) =
      of_bool (p \<in> D) + card (tabset s' D p) + card (mapset s' D p) + base' p" if "p < unat (npages s)" for p
    using I(7) [OF that] ref [OF that] card_mapset_upd_at [OF upd at I(10), of p] unfolding tab by linarith
  have pte: "if present (pte s' d' i' j') then frame (pte s' d' i' j') < unat (npages s) else pte s' d' i' j' = 0"
    if "d' \<in> D" "user_pdx i'" "unat j' < 1024" for d' i' j'
    using upd_atD [OF upd that] v I(5,6) [OF that] by auto
  have "frame (entry s' d' i') < unat (npages s)" if "d' \<in> D" "user_pdx i'" "present (entry s' d' i')" for d' i'
    using sd that I(4) by (auto simp: same_dirs_def)
  then show ?thesis
    unfolding vm_inv_def np
    using wf I(3,8) count pte kind tab by (intro conjI ballI allI impI) (simp_all only:, metis)
qed

lemma entry_pmem_cong: "pmem s' = pmem s \<Longrightarrow> entry s' = entry s"
  by (intro ext) (simp add: entry_def)

lemma pte_cong:
  assumes "entry s' = entry s"
  shows "pte s' = pte s" "tabset s' = tabset s" "mapset s' = mapset s"
proof -
  show p: "pte s' = pte s"
    by (simp add: pte_def assms fun_eq_iff)
  show "tabset s' = tabset s" "mapset s' = mapset s"
    by (simp_all add: tabset_def mapset_def p assms fun_eq_iff)
qed

text \<open>A store into a page table changes one entry of one address space.\<close>

lemma upd_at_kst:
  assumes inv: "vm_inv base D fl s" and at: "d \<in> D" "user_pdx i" "unat j < 1024" "present (entry s d i)"
    and t: "pmem t = pmem s"
  shows "upd_at s (kst (slot (kpage (frame (entry s d i))) j) v t) D d i j v"
proof -
  let ?f = "frame (entry s d i)" and ?s' = "kst (slot (kpage (frame (entry s d i))) j) v t"
  note T = vm_table [OF inv at(1,2,4)]
  have e: "entry ?s' f k = (if f = ?f \<and> k = j then v else entry s f k)" if "f < 65536" "unat k < 1024" for f k
    using entry_kst [OF T(1) that(1) at(3) that(2)] entry_pmem_cong [OF t] by simp
  have dir: "entry ?s' d' i' = entry s d' i'" if "d' \<in> D" "user_pdx i'" for d' i'
    using that e [of d' i'] vm_dir(1) [OF inv that(1)] user_pdx_less T(3) by auto
  have pte: "pte ?s' d' i' j' = (if d' = d \<and> i' = i \<and> j' = j then v else pte s d' i' j')"
    if "d' \<in> D" "user_pdx i'" "unat j' < 1024" for d' i' j'
  proof (cases "present (entry s d' i')")
    case True
    then have "frame (entry s d' i') < 65536"
      using vm_table(1) [OF inv that(1,2)] by simp
    then show ?thesis
      using True that at dir e T(7) by (simp add: pte_def)
  next
    case False
    then show ?thesis
      using that at dir by (auto simp: pte_def)
  qed
  show ?thesis
    unfolding upd_at_def same_dirs_def using dir pte by simp
qed

text \<open>Setting flags in a directory entry changes nothing else.\<close>

lemma pde_flags:
  assumes inv: "vm_inv base D fl s" and at: "d \<in> D" "user_pdx i" "present (entry s d i)"
    and g: "unat g < 4096" and s': "s' = kst (slot (kpage d) i) (entry s d i OR g) s"
  shows "vm_inv base D fl s'" "frame (entry s' d i) = frame (entry s d i)" "present (entry s' d i)"
    "tabset s' D = tabset s D" "kern_same base s s'"
    "\<And>d' i' j'. d' \<in> D \<Longrightarrow> user_pdx i' \<Longrightarrow> unat j' < 1024 \<Longrightarrow> pte s' d' i' j' = pte s d' i' j'"
proof -
  note Dr = vm_dir [OF inv at(1)]
  have e: "entry s' f k = (if f = d \<and> k = i then entry s d i OR g else entry s f k)"
    if "f < 65536" "unat k < 1024" for f k
    using entry_kst [OF Dr(1) that(1) user_pdx_less [OF at(2)] that(2)] s' by simp
  show ed: "frame (entry s' d i) = frame (entry s d i)" "present (entry s' d i)"
    using e [of d i] Dr(1) user_pdx_less at g by (simp_all add: frame_keep_or)
  have sd: "present (entry s' d' i') = present (entry s d' i')" "frame (entry s' d' i') = frame (entry s d' i')"
    if "d' \<in> D" "user_pdx i'" for d' i'
    using e [of d' i'] vm_dir(1) [OF inv that(1)] user_pdx_less [OF that(2)] at(3) ed that
    by (auto simp: frame_keep_or g)
  show pte: "pte s' d' i' j' = pte s d' i' j'" if "d' \<in> D" "user_pdx i'" "unat j' < 1024" for d' i' j'
  proof (cases "present (entry s d' i')")
    case True
    with vm_table(1,3) [OF inv that(1,2)] at(1) have "frame (entry s d' i') < 65536" "frame (entry s d' i') \<noteq> d"
      by auto
    with True that sd e show ?thesis
      by (simp add: pte_def)
  qed (use that sd in \<open>simp add: pte_def\<close>)
  have upd: "upd_at s s' D d i 0 (pte s d i 0)"
    using sd pte by (auto simp: upd_at_def same_dirs_def)
  then show "tabset s' D = tabset s D"
    by (auto simp: upd_at_def tabset_same_dirs)
  show "kern_same base s s'"
    unfolding s' by (rule kern_same_kst) (use Dr(1,5) user_pdx_less [OF at(2)] in simp_all)
  show "vm_inv base D fl s'"
    by (rule vm_inv_upd_at [OF inv at(1,2) _ upd])
      (use vm_invD(1,2) [OF inv] vm_invD(5,6) [OF inv at(1,2), of 0] in \<open>auto simp: s'\<close>)
qed

text \<open>When the entries stay as they are, only the counts have to agree.\<close>

lemma vm_inv_recount:
  assumes inv: "vm_inv base D fl s" and e: "entry s' = entry s" and np: "npages s' = npages s"
    and wf: "pages_wf s'" "free_list s' fl'"
    and kind: "\<And>p. p < unat (npages s) \<Longrightarrow> p \<in> D \<or> tabset s D p \<noteq> {} \<Longrightarrow>
      pp_ref (pages s' p) = pp_ref (pages s p)"
    and ref: "\<And>p. p < unat (npages s) \<Longrightarrow>
      unat (pp_ref (pages s' p)) + base p = unat (pp_ref (pages s p)) + base' p"
  shows "vm_inv base' D fl' s'"
proof -
  note I = vm_invD [OF inv]
  have "unat (pp_ref (pages s' p)) = of_bool (p \<in> D) + card (tabset s D p) + card (mapset s D p) + base' p"
    if "p < unat (npages s)" for p
    using I(7) [OF that] ref [OF that] by linarith
  then show ?thesis
    unfolding vm_inv_def np e pte_cong [OF e]
    using wf I(3-6,8) kind by (intro conjI ballI allI impI) (simp_all only: if_split, metis+)
qed

lemma vm_inv_incref:
  assumes inv: "vm_inv base D fl s" and p: "p < unat (npages s)" "p \<notin> D" "tabset s D p = {}" "p \<notin> set fl"
    and room: "unat (pp_ref (pages s p)) < 65535"
    and s': "s' = upd_page p (\<lambda>pg. pg\<lparr>pp_ref := pp_ref pg + 1\<rparr>) s"
  shows "vm_inv (base(p := Suc (base p))) D fl s'"
proof (rule vm_inv_recount [OF inv])
  show "entry s' = entry s"
    by (rule entry_pmem_cong) (simp add: s')
  show "free_list s' fl"
    using vm_invD(2) [OF inv] p(4) by (auto simp: free_list_def s')
  have "unat (pp_ref (pages s p) + 1) = Suc (unat (pp_ref (pages s p)))"
    using room by (simp add: unat_word_ariths)
  then show "unat (pp_ref (pages s' q)) + base q = unat (pp_ref (pages s q)) + (base(p := Suc (base p))) q" for q
    by (simp add: s')
qed (use vm_invD(1) [OF inv] p in \<open>auto simp: s'\<close>)

subsection \<open>\<^verbatim>\<open>pgdir_walk\<close>\<close>

definition same_ptes :: "kstate \<Rightarrow> kstate \<Rightarrow> nat set \<Rightarrow> bool" where
  "same_ptes s s' D \<longleftrightarrow> (\<forall>d \<in> D. \<forall>i j. user_pdx i \<longrightarrow> unat j < 1024 \<longrightarrow> pte s' d i j = pte s d i j)"

lemma same_ptes_refl [simp]: "same_ptes s s D"
  by (simp add: same_ptes_def)

lemma mapset_same_ptes: "same_ptes s s' D \<Longrightarrow> mapset s' D = mapset s D"
  by (rule ext) (auto simp: mapset_def same_ptes_def)

lemma walk_present:
  assumes inv: "vm_inv base D fl s" and d: "d \<in> D" "user_pdx (PDX va)" "present (entry s d (PDX va))"
  shows "pgdir_walk s (kpage d) va c = Some (slot (kpage (frame (entry s d (PDX va)))) (PTX va), s)"
  using d vm_table(2) [OF inv d] vm_invD(9) [OF inv]
  by (simp add: pgdir_walk_def kld_kpage Let_def PTE_P_test pa2page_frame page2kva_kpage)

lemma walk_absent:
  assumes "\<not> present (entry s d (PDX va))"
  shows "pgdir_walk s (kpage d) va False = Some (0, s)"
  using assms by (simp add: pgdir_walk_def kld_kpage Let_def PTE_P_test)

lemma walk_no_memory:
  assumes "\<not> present (entry s d (PDX va))" "free_list s []"
  shows "pgdir_walk s (kpage d) va True = Some (0, s)"
  using assms by (simp add: pgdir_walk_def kld_kpage Let_def PTE_P_test free_list_def page_alloc_def)

text \<open>Taking a zeroed page off the free list and hooking it into a directory as a page table.\<close>

lemma new_table:
  assumes inv: "vm_inv base D (p # fl) s" and d: "d \<in> D" "user_pdx i" "\<not> present (entry s d i)"
    and al: "page_alloc s ALLOC_ZERO = Some (Some p, s1)"
    and s3: "s3 = kst (slot (kpage d) i) (page2pa p OR PTE_P OR PTE_W)
      (upd_page p (\<lambda>pg. pg\<lparr>pp_ref := pp_ref pg + 1\<rparr>) s1)"
  shows "vm_inv base D fl s3" "same_ptes s s3 D" "present (entry s3 d i)" "frame (entry s3 d i) = p"
    "q \<noteq> p \<Longrightarrow> tabset s3 D q = tabset s D q"
    "(\<And>f. base' f \<noteq> 0 \<Longrightarrow> f \<notin> D \<and> f \<noteq> p) \<Longrightarrow> kern_same base' s s3"
proof -
  note P = vm_free_page [OF inv, of p, simplified] and Dr = vm_dir [OF inv d(1)] and I = vm_invD [OF inv]
  note A = page_alloc_Some [OF al]
  have pm: "pmem s1 = fill_bytes (pmem s) (page2pa p) 0 4096"
    using page_alloc_pmem [OF al I(1) P(2)] by (simp add: layout)
  have e: "entry s3 f k = (if f = d \<and> k = i then page2pa p OR PTE_P OR PTE_W
      else if f = p then 0 else entry s f k)" if "f < 65536" "unat k < 1024" for f k
    using entry_kst [OF Dr(1) that(1) user_pdx_less [OF d(2)] that(2)]
      entry_fill [OF P(1) that pm] entry_pmem_cong [of "upd_page p (\<lambda>pg. pg\<lparr>pp_ref := pp_ref pg + 1\<rparr>) s1" s1]
    by (cases "f = p"; simp add: s3)
  show "kern_same base' s s3" if "\<And>f. base' f \<noteq> 0 \<Longrightarrow> f \<notin> D \<and> f \<noteq> p"
    unfolding kern_same_def using e that d(1) by auto
  have fl: "unat (PTE_P OR PTE_W) < 4096"
    by (simp add: layout)
  have new: "frame (page2pa p OR PTE_P OR PTE_W) = p"
    using frame_or_flags [OF P(1) fl] by (simp add: or.assoc)
  show ed: "present (entry s3 d i)" "frame (entry s3 d i) = p"
    using e [of d i] Dr(1) user_pdx_less [OF d(2)] new by simp_all
  have dir: "entry s3 d' i' = entry s d' i'" if "d' \<in> D" "user_pdx i'" "(d', i') \<noteq> (d, i)" for d' i'
    using that e [of d' i'] vm_dir(1) [OF inv that(1)] user_pdx_less [OF that(2)] P(3) by auto
  have pte: "pte s3 d' i' j' = pte s d' i' j'" if x: "d' \<in> D" "user_pdx i'" "unat j' < 1024" for d' i' j'
  proof (cases "(d', i') = (d, i)")
    case True
    with e [OF P(1) x(3)] d ed P(3) show ?thesis by (auto simp: pte_def)
  next
    case False
    show ?thesis
    proof (cases "present (entry s d' i')")
      case True
      with x P(4) have "frame (entry s d' i') \<noteq> p" by (auto simp: tabset_def)
      moreover have "frame (entry s d' i') \<noteq> d"
        using vm_table(3) [OF inv x(1,2) True] d(1) by metis
      ultimately show ?thesis
        using e [OF vm_table(1) [OF inv x(1,2) True] x(3)] dir [OF x(1,2) False] by (simp add: pte_def)
    qed (simp add: pte_def dir [OF x(1,2) False])
  qed
  then show sp: "same_ptes s s3 D"
    by (simp add: same_ptes_def)
  have tab: "tabset s3 D q = (if q = p then {(d, i)} else tabset s D q)" for q
  proof (rule set_eqI, clarify)
    fix d' i'
    show "(d', i') \<in> tabset s3 D q \<longleftrightarrow> (d', i') \<in> (if q = p then {(d, i)} else tabset s D q)"
    proof (cases "(d', i') = (d, i)")
      case True
      then show ?thesis using ed d by (auto simp: tabset_def)
    next
      case False
      then have "(d', i') \<in> tabset s3 D q \<longleftrightarrow> (d', i') \<in> tabset s D q"
        using dir [of d' i'] by (auto simp: tabset_def)
      with False P(4) show ?thesis by auto
    qed
  qed
  then show "q \<noteq> p \<Longrightarrow> tabset s3 D q = tabset s D q"
    by simp
  have np: "npages s3 = npages s"
    using mm_frame_sel(1) [OF A(5)] by (simp add: s3)
  have ref: "pp_ref (pages s3 q) = (if q = p then 1 else pp_ref (pages s q))" for q
    using A(3) by (simp add: s3)
  have "free_list s1 fl" "pages_wf s1" "p \<notin> set fl"
    using page_alloc_free_list [OF al I(2)] page_alloc_pages_wf [OF al I(1)] by auto
  then have wf: "free_list s3 fl" "pages_wf s3"
    by (auto simp: s3 free_list_def)
  show "vm_inv base D fl s3"
    unfolding vm_inv_def np
  proof (intro conjI ballI allI impI)
    fix q assume q: "q < unat (npages s)"
    show "unat (pp_ref (pages s3 q)) = of_bool (q \<in> D) + card (tabset s3 D q) + card (mapset s3 D q) + base q"
      using I(7) [OF q] P(3,5,6) by (simp add: tab ref mapset_same_ptes [OF sp])
  next
    fix d' i' assume "d' \<in> D" "user_pdx i'" "present (entry s3 d' i')"
    then show "frame (entry s3 d' i') < unat (npages s)"
      using dir I(4) ed P(2) by (cases "(d', i') = (d, i)") auto
  qed (use wf I(3,5,6,8) pte P(3) in \<open>auto simp: tab ref split: if_splits\<close>)
qed

lemma walk_create:
  assumes inv: "vm_inv base D fl s" and d: "d \<in> D" "user_pdx (PDX va)"
  shows "(pgdir_walk s (kpage d) va True = Some (0, s) \<and> fl = [] \<and> \<not> present (entry s d (PDX va))) \<or>
    (\<exists>s' fl'. pgdir_walk s (kpage d) va True = Some (slot (kpage (frame (entry s' d (PDX va)))) (PTX va), s') \<and>
       vm_inv base D fl' s' \<and> same_ptes s s' D \<and> present (entry s' d (PDX va)) \<and> mm_frame s s' \<and>
       set fl' \<subseteq> set fl \<and> (\<forall>q. q \<notin> set fl \<longrightarrow> pages s' q = pages s q \<and> tabset s' D q = tabset s D q) \<and> invlpgs s' = invlpgs s \<and>
       (\<forall>base'. (\<forall>f. base' f \<noteq> 0 \<longrightarrow> f \<notin> D \<and> f \<notin> set fl) \<longrightarrow> kern_same base' s s'))"
proof (cases "present (entry s d (PDX va))")
  case True
  with inv walk_present [OF inv d True] show ?thesis
    by (intro disjI2 exI [of _ s] exI [of _ fl]) simp
next
  case False
  show ?thesis
  proof (cases fl)
    case Nil
    with False walk_no_memory [OF False] vm_invD(2) [OF inv] show ?thesis by simp
  next
    case (Cons p fl')
    then have "alloc_inv s" "page_free_list s = Some p"
      using vm_invD(1,2) [OF inv] unfolding alloc_inv_def by (blast, simp add: free_list_def)
    then obtain s1 where al: "page_alloc s ALLOC_ZERO = Some (Some p, s1)"
      using page_alloc_run [of s p fl' ALLOC_ZERO] vm_invD(1,2) [OF inv] Cons by auto
    define s3 where "s3 = kst (slot (kpage d) (PDX va)) (page2pa p OR PTE_P OR PTE_W)
      (upd_page p (\<lambda>pg. pg\<lparr>pp_ref := pp_ref pg + 1\<rparr>) s1)"
    note N = new_table [OF inv [unfolded Cons] d False al s3_def]
    note A = page_alloc_Some [OF al]
    have "npages s3 = npages s"
      using mm_frame_sel(1) [OF A(5)] by (simp add: s3_def)
    then have "page2kva s3 p = Some (kpage p)"
      using vm_free_page(2) [OF inv, of p] vm_invD(9) [OF inv] Cons by (simp add: page2kva_kpage)
    then have "pgdir_walk s (kpage d) va True = Some (slot (kpage p) (PTX va), s3)"
      using False al by (simp add: pgdir_walk_def kld_kpage Let_def PTE_P_test s3_def)
    moreover have "mm_frame s s3" "invlpgs s3 = invlpgs s" "\<forall>q. q \<notin> set fl \<longrightarrow> pages s3 q = pages s q \<and> tabset s3 D q = tabset s D q"
      using A Cons N(5) by (simp_all add: s3_def)
    ultimately show ?thesis
      using N Cons by (intro disjI2 exI [of _ s3] exI [of _ fl']) auto
  qed
qed

subsection \<open>\<^verbatim>\<open>page_lookup\<close> and \<^verbatim>\<open>page_remove\<close>\<close>

lemma page_lookup_vmap:
  assumes inv: "vm_inv base D fl s" and d: "d \<in> D" "user_pdx (PDX va)"
  shows "page_lookup s (kpage d) va =
    Some (case vmap s d va of None \<Rightarrow> None
          | Some e \<Rightarrow> Some (frame e, slot (kpage (frame (entry s d (PDX va)))) (PTX va)))"
proof (cases "present (entry s d (PDX va))")
  case True
  let ?t = "frame (entry s d (PDX va))"
  have e: "pte s d (PDX va) (PTX va) = entry s ?t (PTX va)"
    using True by (simp add: pte_def)
  have nz: "slot (kpage ?t) (PTX va) \<noteq> 0"
    using slot_kpage_nonzero vm_table(1) [OF inv d True] PTX_less by blast
  show ?thesis
  proof (cases "present (entry s ?t (PTX va))")
    case p: True
    then have "frame (entry s ?t (PTX va)) < unat (npages s)"
      using vm_invD(5) [OF inv d, of "PTX va"] e by simp
    then have "pa2page s (PTE_ADDR (entry s ?t (PTX va))) = Some (frame (entry s ?t (PTX va)))"
      using pa2page_frame [of "PTE_ADDR (entry s ?t (PTX va))" s] by (simp add: frame_def)
    then show ?thesis
      using p nz by (simp add: page_lookup_def walk_present [OF inv d True] kld_kpage PTE_P_test vmap_def e)
  next
    case False
    then show ?thesis
      using nz by (simp add: page_lookup_def walk_present [OF inv d True] kld_kpage PTE_P_test vmap_def e)
  qed
next
  case False
  then show ?thesis
    by (simp add: page_lookup_def walk_absent vmap_def pte_def)
qed

lemma tlb_invalidate_sel [simp]:
  "npages (tlb_invalidate g va s) = npages s" "pages (tlb_invalidate g va s) = pages s"
  "pmem (tlb_invalidate g va s) = pmem s" "page_free_list (tlb_invalidate g va s) = page_free_list s"
  "pages_wf (tlb_invalidate g va s) = pages_wf s" "free_list (tlb_invalidate g va s) fl = free_list s fl"
  "mm_frame r (tlb_invalidate g va s) = mm_frame r s" "nAvailPages (tlb_invalidate g va s) = nAvailPages s"
  by (auto simp: tlb_invalidate_def pages_wf_def mm_frame_def split: option.splits)

lemma vmap_eq_Some: "vmap s d va = Some e \<longleftrightarrow> present e \<and> pte s d (PDX va) (PTX va) = e"
  by (auto simp: vmap_def Let_def)

lemma vmap_upd_at:
  assumes "upd_at s s' D d (PDX va) (PTX va) v" "d' \<in> D" "user_pdx (PDX va')"
  shows "vmap s' d' va' =
    (if d' = d \<and> PGNUM va' = PGNUM va then (if present v then Some v else None) else vmap s d' va')"
proof -
  show ?thesis
    unfolding PGNUM_eq_iff
    using upd_atD [OF assms, of "PTX va'"] by (auto simp: vmap_def Let_def)
qed

lemma vm_mapped:
  assumes inv: "vm_inv base D fl s" and d: "d \<in> D" "user_pdx i" "unat j < 1024" "present (pte s d i j)"
  shows "frame (pte s d i j) < unat (npages s)" "frame (pte s d i j) \<notin> D"
    "tabset s D (frame (pte s d i j)) = {}" "pp_ref (pages s (frame (pte s d i j))) \<noteq> 0"
    "frame (pte s d i j) \<notin> set fl" "present (entry s d i)"
proof -
  let ?q = "frame (pte s d i j)"
  have mem: "(d, i, j) \<in> mapset s D ?q"
    using d by (simp add: mapset_def)
  show lt: "?q < unat (npages s)"
    using vm_invD(5) [OF inv d] .
  show "?q \<notin> D"
    using mem vm_dir(4) [OF inv] by auto
  show "tabset s D ?q = {}"
  proof (rule ccontr)
    assume "tabset s D ?q \<noteq> {}"
    then obtain d' i' where "d' \<in> D" "user_pdx i'" "present (entry s d' i')" "frame (entry s d' i') = ?q"
      by (auto simp: tabset_def)
    with vm_table(4) [OF inv] mem show False by fastforce
  qed
  have "card (mapset s D ?q) \<noteq> 0"
    using mem finite_mapset [OF vm_invD(10) [OF inv]] by auto
  then show "pp_ref (pages s ?q) \<noteq> 0"
    using vm_invD(7) [OF inv lt] by auto
  then show "?q \<notin> set fl"
    using vm_free_page(7) [OF inv] by auto
  show "present (entry s d i)"
    using d(4) by (auto simp: pte_def split: if_splits)
qed

lemma page_remove_unmapped:
  assumes "vm_inv base D fl s" "d \<in> D" "user_pdx (PDX va)" "vmap s d va = None"
  shows "page_remove s (kpage d) va = Some s"
  using assms by (simp add: page_remove_def page_lookup_vmap)

lemma page_remove_mapped:
  assumes inv: "vm_inv base D fl s" and d: "d \<in> D" "user_pdx (PDX va)" and e: "vmap s d va = Some e"
  shows "\<exists>s'. page_remove s (kpage d) va = Some s' \<and>
    vm_inv base D (if pp_ref (pages s (frame e)) = 1 then frame e # fl else fl) s' \<and>
    upd_at s s' D d (PDX va) (PTX va) 0 \<and> mm_frame s s' \<and> kern_same base s s' \<and>
    (\<forall>q. pp_ref (pages s' q) = (if q = frame e then pp_ref (pages s q) - 1 else pp_ref (pages s q)))"
proof -
  have p: "present (pte s d (PDX va) (PTX va))" "e = pte s d (PDX va) (PTX va)"
    using e by (auto simp: vmap_eq_Some)
  note M = vm_mapped [OF inv d PTX_less p(1), folded p(2)] and I = vm_invD [OF inv]
  define s1 where "s1 = page_decref s (frame e)"
  define s2 where "s2 = (if pp_ref (pages s1 (frame e)) = 0 then tlb_invalidate (kpage d) va s1 else s1)"
  define s' where "s' = kst (slot (kpage (frame (entry s d (PDX va)))) (PTX va)) 0 s2"
  have run: "page_remove s (kpage d) va = Some s'"
    using inv d e by (simp add: page_remove_def page_lookup_vmap s'_def s2_def s1_def)
  have pm: "pmem s2 = pmem s"
    by (simp add: s2_def s1_def page_decref_ref(2) [OF I(1) M(1)])
  have upd: "upd_at s s' D d (PDX va) (PTX va) 0"
    unfolding s'_def by (rule upd_at_kst [OF inv d PTX_less M(6) pm])
  have ref: "pp_ref (pages s' q) = (if q = frame e then pp_ref (pages s q) - 1 else pp_ref (pages s q))" for q
    using page_decref_ref(1) [OF I(1) M(1)] by (simp add: s'_def s2_def s1_def)
  have mm: "mm_frame s s'"
    by (simp add: s'_def s2_def s1_def)
  have fl: "free_list s' (if pp_ref (pages s (frame e)) = 1 then frame e # fl else fl)"
    using page_decref_free_list [OF I(1) M(1) I(2) M(4)] by (simp add: s'_def s2_def s1_def split: if_splits)
  have wf: "pages_wf s'"
    using page_decref_pages_wf [OF I(1)] by (simp add: s'_def s2_def s1_def)
  have dec: "unat (pp_ref (pages s (frame e)) - 1) + 1 = unat (pp_ref (pages s (frame e)))"
    using M(4) by (simp add: unat_minus_one) (metis Suc_pred unat_gt_0)
  have "vm_inv base D (if pp_ref (pages s (frame e)) = 1 then frame e # fl else fl) s'"
  proof (rule vm_inv_upd_at [OF inv d PTX_less upd mm_frame_sel(1) [OF mm] wf fl])
    fix q assume "q \<in> D \<or> tabset s D q \<noteq> {}"
    then show "pp_ref (pages s' q) = pp_ref (pages s q)"
      using M(2,3) ref by auto
  next
    fix q
    show "unat (pp_ref (pages s' q)) + of_bool (present (pte s d (PDX va) (PTX va)) \<and>
        frame (pte s d (PDX va) (PTX va)) = q) + base q =
      unat (pp_ref (pages s q)) + of_bool (present 0 \<and> frame 0 = q) + base q"
      using p dec ref [of q] by auto
  qed simp
  moreover have "kern_same base s s'"
  proof -
    have "kern_same base s2 s'"
      using vm_table(1,5) [OF inv d M(6)] unfolding s'_def by (intro kern_same_kst) simp_all
    then show ?thesis
      by (simp add: kern_same_def entry_pmem_cong [OF pm])
  qed
  ultimately show ?thesis
    using run upd mm ref by blast
qed

subsection \<open>\<^verbatim>\<open>page_insert\<close>\<close>

text \<open>The store that ends \<^verbatim>\<open>page_insert\<close>: a page that was counted beforehand, or that was already
  there, becomes the content of the entry.\<close>

lemma install_pte:
  assumes inv: "vm_inv base' D fl s" and at: "d \<in> D" "user_pdx i" "unat j < 1024" "present (entry s d i)"
    and p: "p < unat (npages s)" "p \<notin> D" "tabset s D p = {}" and g: "unat g < 4096" "present g"
    and old: "pte s d i j = 0 \<and> base' = base(p := Suc (base p)) \<or>
      present (pte s d i j) \<and> frame (pte s d i j) = p \<and> base' = base"
    and s': "s' = kst (slot (kpage (frame (entry s d i))) j) (page2pa p OR g) s"
  shows "vm_inv base D fl s'" "upd_at s s' D d i j (page2pa p OR g)" "kern_same (base(p := Suc (base p))) s s'"
proof -
  have "frame (entry s d i) \<noteq> p"
    using at p(3) by (auto simp: tabset_def)
  then have "(base(p := Suc (base p))) (frame (entry s d i)) = 0"
    using vm_table(5) [OF inv at(1,2,4)] old by auto
  then show "kern_same (base(p := Suc (base p))) s s'"
    unfolding s' using vm_table(1) [OF inv at(1,2,4)] at(3) by (intro kern_same_kst)
  show upd: "upd_at s s' D d i j (page2pa p OR g)"
    unfolding s' by (rule upd_at_kst [OF inv at refl])
  have fr: "frame (page2pa p OR g) = p" "present (page2pa p OR g)"
    using p(1) vm_invD(9) [OF inv] g by (simp_all add: frame_or_flags)
  show "vm_inv base D fl s'"
    by (rule vm_inv_upd_at [OF inv at(1-3) upd])
      (use vm_invD(1,2) [OF inv] p fr old in \<open>auto simp: s'\<close>)
qed

lemma mm_frame_upd_pageI: "mm_frame s t \<Longrightarrow> mm_frame s (upd_page p f t)"
  by simp

text \<open>The middle of \<^verbatim>\<open>page_insert\<close>: the reference is taken and whatever was mapped is removed.\<close>

lemma make_room:
  assumes inv: "vm_inv base D fl s" and d: "d \<in> D" "user_pdx (PDX va)" "present (entry s d (PDX va))"
    and p: "p < unat (npages s)" "p \<notin> D" "tabset s D p = {}" "p \<notin> set fl" "p \<noteq> 0"
      "unat (pp_ref (pages s p)) < 65535"
    and ne: "\<not> (present (pte s d (PDX va) (PTX va)) \<and> frame (pte s d (PDX va) (PTX va)) = p)"
    and s0: "s0 = upd_page p (\<lambda>pg. pg\<lparr>pp_ref := pp_ref pg + 1\<rparr>) s"
  shows "\<exists>s3 fl'. (if present (pte s d (PDX va) (PTX va)) then page_remove s0 (kpage d) va else Some s0) = Some s3 \<and>
    vm_inv (base(p := Suc (base p))) D fl' s3 \<and> upd_at s s3 D d (PDX va) (PTX va) 0 \<and> mm_frame s s3 \<and>
    kern_same (base(p := Suc (base p))) s s3"
proof -
  have inv0: "vm_inv (base(p := Suc (base p))) D fl s0"
    by (rule vm_inv_incref [OF inv p(1-4,6) s0])
  have e0: "entry s0 = entry s"
    by (rule entry_pmem_cong) (simp add: s0)
  have mm0: "mm_frame s s0"
    by (simp add: s0)
  show ?thesis
  proof (cases "present (pte s d (PDX va) (PTX va))")
    case True
    then have "vmap s0 d va = Some (pte s d (PDX va) (PTX va))"
      by (simp add: vmap_eq_Some pte_cong(1) [OF e0])
    from page_remove_mapped [OF inv0 d(1,2) this] obtain s3 fl' where
      "page_remove s0 (kpage d) va = Some s3" "vm_inv (base(p := Suc (base p))) D fl' s3"
      "upd_at s0 s3 D d (PDX va) (PTX va) 0" "mm_frame s0 s3" "kern_same (base(p := Suc (base p))) s0 s3" by blast
    moreover from this(5) have "kern_same (base(p := Suc (base p))) s s3"
      by (simp add: kern_same_def e0)
    moreover from calculation(3) have "upd_at s s3 D d (PDX va) (PTX va) 0"
      by (simp add: upd_at_def same_dirs_def e0 pte_cong [OF e0])
    ultimately show ?thesis
      using True mm_frame_trans [OF mm0] by auto
  next
    case False
    then have "pte s d (PDX va) (PTX va) = 0"
      using vm_invD(6) [OF inv d(1,2)] PTX_less by blast
    then have "upd_at s s0 D d (PDX va) (PTX va) 0"
      by (auto simp: upd_at_def same_dirs_def e0 pte_cong [OF e0])
    with False inv0 mm0 kern_same_entry [OF e0] show ?thesis by auto
  qed
qed

lemma upd_at_upd_at:
  assumes "upd_at s t D d i j u" "upd_at t s' D d i j v"
  shows "upd_at s s' D d i j v"
  using assms by (auto simp: upd_at_def same_dirs_def)

lemma same_frame_iff:
  assumes inv: "vm_inv base D fl s" and d: "d \<in> D" "user_pdx i" "unat j < 1024"
    and p: "p < unat (npages s)" "p \<noteq> 0"
  shows "paddr (pages s p) = PTE_ADDR (pte s d i j) \<longleftrightarrow> present (pte s d i j) \<and> frame (pte s d i j) = p"
proof -
  have np: "unat (npages s) \<le> 65536" and pa: "paddr (pages s p) = page2pa p"
    using vm_invD(1) [OF inv] p by (auto simp: pages_wf_def)
  show ?thesis
  proof (cases "present (pte s d i j)")
    case True
    have lt: "frame (pte s d i j) < 65536"
      using vm_invD(5) [OF inv d True] np by simp
    have "PTE_ADDR (pte s d i j) = page2pa (frame (pte s d i j))"
      by (simp add: frame_def page2pa_PGNUM)
    then show ?thesis
      using True pa page2pa_inject [OF _ lt, of p] p np by simp metis
  next
    case False
    then have "pte s d i j = 0"
      using vm_invD(6) [OF inv d] by simp
    moreover have "page2pa p \<noteq> 0"
      using p np unat_page2pa [of p] by (auto simp: unat_eq_zero)
    ultimately show ?thesis
      using pa by (simp add: PTE_ADDR_def)
  qed
qed

text \<open>\<open>store_pte\<close>: what \<^verbatim>\<open>page_insert\<close> does once it holds the entry of \<open>va\<close>, in the table \<open>t\<close>.\<close>

definition store_pte :: "kstate \<Rightarrow> nat \<Rightarrow> nat \<Rightarrow> nat \<Rightarrow> u32 \<Rightarrow> u32 \<Rightarrow> (int \<times> kstate) option" where
  "store_pte s d t p va perm =
     do { s3 \<leftarrow> (if paddr (pages s p) \<noteq> PTE_ADDR (pte s d (PDX va) (PTX va))
                  then let s' = upd_page p (\<lambda>pg. pg\<lparr>pp_ref := pp_ref pg + 1\<rparr>) s
                       in if present (pte s d (PDX va) (PTX va)) then page_remove s' (kpage d) va else Some s'
                  else Some s);
          Some (0, kst (slot (kpage t) (PTX va)) (page2pa p OR perm OR PTE_P) s3) }"

lemma page_insert_store:
  assumes walk: "pgdir_walk s (kpage d) va True = Some (slot (kpage t) (PTX va), s1)" and t: "t < 65536"
    and s2: "s2 = kst (slot (kpage d) (PDX va)) (entry s1 d (PDX va) OR (perm OR PTE_P)) s1"
    and e: "present (entry s2 d (PDX va))" "frame (entry s2 d (PDX va)) = t"
  shows "page_insert s (kpage d) (Some p) va perm = store_pte s2 d t p va perm"
proof -
  have "kld s2 (slot (kpage t) (PTX va)) = pte s2 d (PDX va) (PTX va)"
    using e by (simp add: kld_kpage pte_def)
  then show ?thesis
    using walk slot_kpage_nonzero [OF t PTX_less]
    by (simp add: page_insert_def kld_kpage [of s1] s2 [symmetric] PTE_P_test store_pte_def Let_def del: kst_sel)
qed

lemma store_pte_run:
  assumes inv: "vm_inv base D fl s" and d: "d \<in> D" "user_pdx (PDX va)" "present (entry s d (PDX va))"
    and t: "t = frame (entry s d (PDX va))"
    and p: "p < unat (npages s)" "p \<notin> D" "tabset s D p = {}" "p \<notin> set fl" "p \<noteq> 0"
      "unat (pp_ref (pages s p)) < 65535"
    and perm: "unat perm < 4096"
  shows "\<exists>s' fl'. store_pte s d t p va perm = Some (0, s') \<and> vm_inv base D fl' s' \<and> mm_frame s s' \<and>
    kern_same (base(p := Suc (base p))) s s' \<and> upd_at s s' D d (PDX va) (PTX va) (page2pa p OR perm OR PTE_P)"
proof -
  let ?i = "PDX va" and ?j = "PTX va"
  have g: "unat (perm OR PTE_P) < 4096" "present (perm OR PTE_P)"
    using perm by (auto intro: flags_or simp: layout) (simp add: present_bit bit_or_iff)
  show ?thesis
  proof (cases "present (pte s d ?i ?j) \<and> frame (pte s d ?i ?j) = p")
    case True
    let ?s' = "kst (slot (kpage t) ?j) (page2pa p OR perm OR PTE_P) s"
    have "vm_inv base D fl ?s'" "upd_at s ?s' D d ?i ?j (page2pa p OR perm OR PTE_P)" "kern_same (base(p := Suc (base p))) s ?s'"
      using install_pte [OF inv d(1,2) PTX_less d(3) p(1-3) g, of va base] True t by auto
    with same_frame_iff [OF inv d(1,2) PTX_less p(1,5)] True show ?thesis
      by (intro exI [of _ ?s'] exI [of _ fl]) (simp add: store_pte_def)
  next
    case False
    from make_room [OF inv d p False refl] obtain s3 fl3 where
      r: "(if present (pte s d ?i ?j) then page_remove (upd_page p (\<lambda>pg. pg\<lparr>pp_ref := pp_ref pg + 1\<rparr>) s) (kpage d) va
        else Some (upd_page p (\<lambda>pg. pg\<lparr>pp_ref := pp_ref pg + 1\<rparr>) s)) = Some s3"
      "vm_inv (base(p := Suc (base p))) D fl3 s3" "upd_at s s3 D d ?i ?j 0" "mm_frame s s3"
      "kern_same (base(p := Suc (base p))) s s3" by auto
    let ?s' = "kst (slot (kpage t) ?j) (page2pa p OR perm OR PTE_P) s3"
    have e3: "present (entry s3 d ?i)" "frame (entry s3 d ?i) = t" "pte s3 d ?i ?j = 0" "tabset s3 D p = {}"
      using r(3) t d p(3) tabset_same_dirs [of s s3 D p] by (auto simp: upd_at_def same_dirs_def)
    have p3: "p < unat (npages s3)"
      using p(1) mm_frame_sel(1) [OF r(4)] by simp
    have i3: "vm_inv base D fl3 ?s'" "upd_at s3 ?s' D d ?i ?j (page2pa p OR perm OR PTE_P)"
      "kern_same (base(p := Suc (base p))) s3 ?s'"
      using install_pte [OF r(2) d(1,2) PTX_less e3(1) p3 p(2) e3(4) g, of va base] e3 by auto
    have "kern_same (base(p := Suc (base p))) s ?s'"
      by (rule kern_same_trans [OF r(5) i3(3)])
    with i3 upd_at_upd_at [OF r(3) i3(2)] r(1,4) same_frame_iff [OF inv d(1,2) PTX_less p(1,5)] False
    show ?thesis
      by (intro exI [of _ ?s'] exI [of _ fl3]) (simp add: store_pte_def Let_def)
  qed
qed

lemma page_insert_run:
  assumes inv: "vm_inv base D fl s" and d: "d \<in> D" "user_pdx (PDX va)"
    and p: "p < unat (npages s)" "p \<notin> D" "tabset s D p = {}" "p \<notin> set fl" "p \<noteq> 0"
      "unat (pp_ref (pages s p)) < 65535"
    and perm: "unat perm < 4096"
  shows "(page_insert s (kpage d) (Some p) va perm = Some (- E_NO_MEM, s) \<and> fl = [] \<and>
      \<not> present (entry s d (PDX va))) \<or>
    (\<exists>s' fl'. page_insert s (kpage d) (Some p) va perm = Some (0, s') \<and> vm_inv base D fl' s' \<and>
      mm_frame s s' \<and> kern_same (base(p := Suc (base p))) s s' \<and> (\<forall>d' \<in> D. \<forall>va'. user_pdx (PDX va') \<longrightarrow> vmap s' d' va' =
        (if d' = d \<and> PGNUM va' = PGNUM va then Some (page2pa p OR perm OR PTE_P) else vmap s d' va')))"
proof -
  let ?i = "PDX va" and ?j = "PTX va" and ?b = "base(p := Suc (base p))"
  have b: "f \<notin> D \<and> f \<notin> set fl" if "?b f \<noteq> 0" for f
    using that p(2,4) vm_dir(5) [OF inv] vm_free_page(6) [OF inv] by (auto split: if_splits)
  consider (fail) "pgdir_walk s (kpage d) va True = Some (0, s)" "fl = []" "\<not> present (entry s d ?i)"
    | (ok) s1 fl1 where "pgdir_walk s (kpage d) va True = Some (slot (kpage (frame (entry s1 d ?i))) ?j, s1)"
      "vm_inv base D fl1 s1" "same_ptes s s1 D" "present (entry s1 d ?i)" "mm_frame s s1" "set fl1 \<subseteq> set fl"
      "pages s1 p = pages s p" "tabset s1 D p = {}" "kern_same ?b s s1"
  proof (cases "pgdir_walk s (kpage d) va True = Some (0, s) \<and> fl = [] \<and> \<not> present (entry s d ?i)")
    case False
    then obtain s1 fl1 where "pgdir_walk s (kpage d) va True = Some (slot (kpage (frame (entry s1 d ?i))) ?j, s1)"
      "vm_inv base D fl1 s1" "same_ptes s s1 D" "present (entry s1 d ?i)" "mm_frame s s1" "set fl1 \<subseteq> set fl"
      and q: "\<And>q. q \<notin> set fl \<Longrightarrow> pages s1 q = pages s q \<and> tabset s1 D q = tabset s D q"
      and k: "\<And>base'. \<forall>f. base' f \<noteq> 0 \<longrightarrow> f \<notin> D \<and> f \<notin> set fl \<Longrightarrow> kern_same base' s s1"
      using walk_create [OF inv d] by blast
    with that(2) q [OF p(4)] p(3) k [of ?b] b show thesis by auto
  qed (use that(1) in blast)
  then show ?thesis
  proof cases
    case fail
    then show ?thesis by (simp add: page_insert_def)
  next
    case ok
    define s2 where "s2 = kst (slot (kpage d) ?i) (entry s1 d ?i OR (perm OR PTE_P)) s1"
    have g: "unat (perm OR PTE_P) < 4096"
      using perm by (auto intro: flags_or simp: layout)
    note F = pde_flags [OF ok(2) d ok(4) g s2_def]
    have mm2: "mm_frame s s2"
      using ok(5) by (simp add: s2_def)
    have p2: "p < unat (npages s2)" "tabset s2 D p = {}" "p \<notin> set fl1" "unat (pp_ref (pages s2 p)) < 65535"
      using p mm_frame_sel(1) [OF mm2] ok F(4) by (auto simp: s2_def)
    have "page_insert s (kpage d) (Some p) va perm = store_pte s2 d (frame (entry s2 d ?i)) p va perm"
      using page_insert_store [OF ok(1) vm_table(1) [OF ok(2) d ok(4)] s2_def F(3,2)] F(2) by simp
    moreover from store_pte_run [OF F(1) d F(3) refl p2(1) p(2) p2(2,3) p(5) p2(4) perm] obtain s' fl' where
      s': "store_pte s2 d (frame (entry s2 d ?i)) p va perm = Some (0, s')" "vm_inv base D fl' s'" "mm_frame s2 s'"
        "upd_at s2 s' D d ?i ?j (page2pa p OR perm OR PTE_P)" "kern_same ?b s2 s'" by blast
    moreover have "kern_same ?b s1 s2"
      unfolding s2_def using vm_dir(1,5) [OF inv d(1)] d(1) p(2) user_pdx_less [OF d(2)] by (intro kern_same_kst) auto
    then have "kern_same ?b s s'"
      using kern_same_trans [OF ok(9) kern_same_trans [OF _ s'(5)]] by blast
    moreover have "vmap s2 d' va' = vmap s d' va'" if "d' \<in> D" "user_pdx (PDX va')" for d' va'
      using F(6) ok(3) that by (simp add: vmap_def same_ptes_def)
    then have "vmap s' d' va' = (if d' = d \<and> PGNUM va' = PGNUM va then Some (page2pa p OR perm OR PTE_P)
        else vmap s d' va')" if "d' \<in> D" "user_pdx (PDX va')" for d' va'
      using vmap_upd_at [OF s'(4) that] that by simp
    ultimately show ?thesis
      using mm_frame_trans [OF mm2] by auto
  qed
qed

subsection \<open>Updates outside memory management\<close>

lemma vm_cong:
  assumes "npages s' = npages s" "pages s' = pages s" "page_free_list s' = page_free_list s" "pmem s' = pmem s"
  shows "pages_wf s' = pages_wf s" "free_list s' = free_list s" "entry s' = entry s" "pte s' = pte s"
    "vmap s' = vmap s" "vm_inv base D fl s' = vm_inv base D fl s" "kld s' = kld s"
proof -
  have l: "page_links s' = page_links s"
    by (rule ext) (simp add: page_links_def assms)
  show wf: "pages_wf s' = pages_wf s" and fl: "free_list s' = free_list s"
    by (simp_all add: pages_wf_def free_list_def l assms fun_eq_iff)
  show e: "entry s' = entry s" and "kld s' = kld s"
    by (simp_all add: entry_def kld_def assms fun_eq_iff)
  show p: "pte s' = pte s"
    by (simp add: pte_def e fun_eq_iff)
  show "vmap s' = vmap s"
    by (simp add: vmap_def p fun_eq_iff)
  show "vm_inv base D fl s' = vm_inv base D fl s"
    by (simp add: vm_inv_def wf fl e p tabset_def mapset_def assms)
qed

text \<open>The fields that memory management does not look at.\<close>

lemma vm_frame [simp]:
  "vm_inv base D fl (upd_env x g s) = vm_inv base D fl s"
  "vm_inv base D fl (set_curenv c s) = vm_inv base D fl s"
  "vm_inv base D fl (s\<lparr>cr3 := r\<rparr>) = vm_inv base D fl s"
  "vm_inv base D fl (s\<lparr>env_free_list := l\<rparr>) = vm_inv base D fl s"
  "vm_inv base D fl (s\<lparr>kernel_lock := k\<rparr>) = vm_inv base D fl s"
  "vm_inv base D fl (s\<lparr>user_mem_check_addr := a\<rparr>) = vm_inv base D fl s"
  "vm_inv base D fl (s\<lparr>con := b\<rparr>) = vm_inv base D fl s"
  "vmap (upd_env x g s) = vmap s" "vmap (set_curenv c s) = vmap s" "vmap (s\<lparr>cr3 := r\<rparr>) = vmap s"
  "vmap (s\<lparr>env_free_list := l\<rparr>) = vmap s" "vmap (s\<lparr>kernel_lock := k\<rparr>) = vmap s"
  "vmap (s\<lparr>user_mem_check_addr := a\<rparr>) = vmap s" "vmap (s\<lparr>con := b\<rparr>) = vmap s"
  "entry (upd_env x g s) = entry s" "entry (s\<lparr>cr3 := r\<rparr>) = entry s"
  "free_list (upd_env x g s) = free_list s" "pages_wf (upd_env x g s) = pages_wf s"
  by (rule vm_cong; simp)+

lemma pages_frame [simp]:
  "page_links (s\<lparr>pmem := m\<rparr>) = page_links s" "page_links (upd_env x g s) = page_links s"
  "pages_wf (s\<lparr>pmem := m\<rparr>) = pages_wf s"
  by (auto simp: page_links_def pages_wf_def fun_eq_iff)

subsection \<open>The interface of an address space\<close>

text \<open>
  What the rest of the kernel relies on: \<open>look\<close> reads the entry of a page, \<open>map_page\<close> sets
  it, \<open>unmap\<close> clears it, other pages keep theirs, and the invariant \<open>ok\<close> is kept.
\<close>

locale address_space =
  fixes ok :: "'s \<Rightarrow> bool"
    and user :: "u32 \<Rightarrow> bool"
    and look :: "'s \<Rightarrow> u32 \<Rightarrow> u32 option"
    and map_page :: "'s \<Rightarrow> nat \<Rightarrow> u32 \<Rightarrow> u32 \<Rightarrow> 's \<Rightarrow> bool"
    and unmap :: "'s \<Rightarrow> u32 \<Rightarrow> 's \<Rightarrow> bool"
    and mk :: "nat \<Rightarrow> u32 \<Rightarrow> u32"
  assumes look_page: "PGNUM va' = PGNUM va \<Longrightarrow> look s va' = look s va"
    and ok_map: "ok s \<Longrightarrow> user va \<Longrightarrow> map_page s p va perm s' \<Longrightarrow> ok s'"
    and ok_unmap: "ok s \<Longrightarrow> user va \<Longrightarrow> unmap s va s' \<Longrightarrow> ok s'"
    and look_map: "ok s \<Longrightarrow> user va \<Longrightarrow> map_page s p va perm s' \<Longrightarrow> user va' \<Longrightarrow>
      look s' va' = (if PGNUM va' = PGNUM va then Some (mk p perm) else look s va')"
    and look_unmap: "ok s \<Longrightarrow> user va \<Longrightarrow> unmap s va s' \<Longrightarrow> user va' \<Longrightarrow>
      look s' va' = (if PGNUM va' = PGNUM va then None else look s va')"
begin

lemma look_map_same: "ok s \<Longrightarrow> user va \<Longrightarrow> map_page s p va perm s' \<Longrightarrow> look s' va = Some (mk p perm)"
  by (simp add: look_map)

lemma map_unmap:
  assumes "ok s" "user va" "map_page s p va perm s1" "unmap s1 va s2" "look s va = None" "user va'"
  shows "ok s2" "look s2 va' = look s va'"
proof -
  have ok1: "ok s1"
    using assms by (blast intro: ok_map)
  then show "ok s2"
    using assms by (blast intro: ok_unmap)
  show "look s2 va' = look s va'"
    using look_page [of va' va s] assms(5) look_unmap [OF ok1 assms(2,4,6)] look_map [OF assms(1-3,6)]
    by auto
qed

lemma map_map_commute:
  assumes "ok s" "user va" "user vb" "PGNUM va \<noteq> PGNUM vb" "user vx"
    and "map_page s p va perm s1" "map_page s1 q vb perm' s2"
    and "map_page s q vb perm' t1" "map_page t1 p va perm t2"
  shows "look s2 vx = look t2 vx"
  using assms look_map [OF ok_map [OF assms(1,2,6)] assms(3,7,5)] look_map [OF assms(1,2,6,5)]
    look_map [OF ok_map [OF assms(1,3,8)] assms(2,9,5)] look_map [OF assms(1,3,8,5)]
  by simp

end

definition mappable :: "nat set \<Rightarrow> kstate \<Rightarrow> nat \<Rightarrow> bool" where
  "mappable D s p \<longleftrightarrow> p < unat (npages s) \<and> p \<notin> D \<and> tabset s D p = {} \<and> p \<noteq> 0 \<and>
     unat (pp_ref (pages s p)) < 65535 \<and> (\<forall>fl. free_list s fl \<longrightarrow> p \<notin> set fl)"

lemma free_list_unique: "free_list s fl \<Longrightarrow> free_list s fl' \<Longrightarrow> fl' = fl"
  by (auto simp: free_list_def intro: linked_unique)

lemma mappable_run:
  assumes "vm_inv base D fl s" "mappable D s p"
  shows "p < unat (npages s)" "p \<notin> D" "tabset s D p = {}" "p \<notin> set fl" "p \<noteq> 0"
    "unat (pp_ref (pages s p)) < 65535"
  using assms by (auto simp: mappable_def vm_inv_def)

lemma page_insert_ok:
  assumes inv: "vm_inv base D fl s" and d: "d \<in> D" "user_pdx (PDX va)" and p: "mappable D s p"
    and perm: "unat perm < 4096" and run: "page_insert s (kpage d) (Some p) va perm = Some (0, s')"
  shows "\<exists>fl'. vm_inv base D fl' s'" "mm_frame s s'"
    "d' \<in> D \<Longrightarrow> user_pdx (PDX va') \<Longrightarrow> vmap s' d' va' =
      (if d' = d \<and> PGNUM va' = PGNUM va then Some (page2pa p OR perm OR PTE_P) else vmap s d' va')"
    "kern_same base s s'" "kern_same (base(p := Suc (base p))) s s'"
proof -
  show k: "kern_same (base(p := Suc (base p))) s s'"
    using page_insert_run [OF inv d mappable_run [OF inv p] perm] run by (auto simp: layout)
  then show "kern_same base s s'"
    by (simp add: kern_same_def)
qed (use page_insert_run [OF inv d mappable_run [OF inv p] perm] run in \<open>auto simp: layout\<close>)

lemma page_remove_ok:
  assumes inv: "vm_inv base D fl s" and d: "d \<in> D" "user_pdx (PDX va)"
    and run: "page_remove s (kpage d) va = Some s'"
  shows "\<exists>fl'. vm_inv base D fl' s'" "mm_frame s s'"
    "d' \<in> D \<Longrightarrow> user_pdx (PDX va') \<Longrightarrow> vmap s' d' va' =
      (if d' = d \<and> PGNUM va' = PGNUM va then None else vmap s d' va')"
    "kern_same base s s'"
proof -
  have "(\<exists>fl'. vm_inv base D fl' s') \<and> mm_frame s s' \<and> (d' \<in> D \<longrightarrow> user_pdx (PDX va') \<longrightarrow> vmap s' d' va' =
      (if d' = d \<and> PGNUM va' = PGNUM va then None else vmap s d' va')) \<and> kern_same base s s'"
  proof (cases "vmap s d va")
    case None
    have "vmap s d va' = None" if "PGNUM va' = PGNUM va"
      using None that unfolding PGNUM_eq_iff by (simp add: vmap_def Let_def split: if_splits)
    with None run inv page_remove_unmapped [OF inv d None] show ?thesis by auto
  next
    case (Some e)
    from page_remove_mapped [OF inv d Some] run obtain fl' where
      "vm_inv base D fl' s'" "upd_at s s' D d (PDX va) (PTX va) 0" "mm_frame s s'" "kern_same base s s'" by auto
    with vmap_upd_at [of s s' D d va 0 d' va'] show ?thesis by auto
  qed
  then show "\<exists>fl'. vm_inv base D fl' s'" "mm_frame s s'"
    "d' \<in> D \<Longrightarrow> user_pdx (PDX va') \<Longrightarrow> vmap s' d' va' =
      (if d' = d \<and> PGNUM va' = PGNUM va then None else vmap s d' va')" "kern_same base s s'"
    by blast+
qed

interpretation vm: address_space "\<lambda>s. \<exists>fl. vm_inv base D fl s" "\<lambda>va. user_pdx (PDX va)" "\<lambda>s. vmap s d"
  "\<lambda>s p va perm s'. d \<in> D \<and> mappable D s p \<and> unat perm < 4096 \<and>
     page_insert s (kpage d) (Some p) va perm = Some (0, s')"
  "\<lambda>s va s'. d \<in> D \<and> page_remove s (kpage d) va = Some s'"
  "\<lambda>p perm. page2pa p OR perm OR PTE_P" for base D d
proof (unfold_locales, goal_cases)
  case (1 va' va s)
  then show ?case unfolding PGNUM_eq_iff by (simp add: vmap_def)
next
  case (2 s va p perm s')
  then show ?case using page_insert_ok(1) by blast
next
  case (3 s va s')
  then show ?case using page_remove_ok(1) by blast
next
  case (4 s va p perm s' va')
  then obtain fl where "vm_inv base D fl s" by blast
  with 4 page_insert_ok(3) [of base D fl s d va p perm s' d va'] show ?case by simp
next
  case (5 s va s' va')
  then obtain fl where "vm_inv base D fl s" by blast
  with 5 page_remove_ok(3) [of base D fl s d va s' d va'] show ?case by simp
qed

subsection \<open>Address spaces of the concrete state\<close>

lemma demo_entry [simp]: "entry demo f i = 0"
  by (simp add: entry_def rd32_def)

lemma demo_vm_inv: "vm_inv demo_base {1} [2, 3] demo"
proof -
  have "tabset demo {1} p = {}" "mapset demo {1} p = {}" for p
    by (auto simp: tabset_def mapset_def pte_def)
  then show ?thesis
    using demo_wf by (auto simp: vm_inv_def pte_def demo_pages_def demo_base_def)
qed

lemma demo_mappable: "mappable {1} demo 4"
  by (auto simp: mappable_def tabset_def demo_pages_def dest!: free_list_unique [OF demo_wf(2)])

lemma demo_user: "user_pdx (PDX 0x800000)" "user_pdx (PDX 0x801000)" "PGNUM 0x801000 \<noteq> PGNUM 0x800000"
  by (simp_all add: user_pdx_def PDX_def PGNUM_def layout)

subsection \<open>What the page table operations guarantee\<close>

text \<open>C5. \<^verbatim>\<open>page_insert\<close> of an allocated page either fails with \<^verbatim>\<open>-E_NO_MEM\<close>, only when a page table is
  missing and no page is free, and then changes nothing; or it returns 0, and then exactly the
  given page of exactly the given address space is mapped to the given frame with permissions
  \<^verbatim>\<open>perm | PTE_P\<close>, every other mapping of every address space is as before, nothing outside
  memory management changes, neither a page the kernel holds nor the mapped page itself is written, and
  every page's reference count is again the number of its uses.
  It never panics.\<close>

theorem page_insert_correct:
  assumes "vm_inv base D fl s" "d \<in> D" "user_pdx (PDX va)" "mappable D s p" "unat perm < 4096"
  shows "(page_insert s (kpage d) (Some p) va perm = Some (- E_NO_MEM, s) \<and> fl = [] \<and>
      \<not> present (entry s d (PDX va))) \<or>
    (\<exists>s' fl'. page_insert s (kpage d) (Some p) va perm = Some (0, s') \<and> vm_inv base D fl' s' \<and>
      mm_frame s s' \<and> kern_same (base(p := Suc (base p))) s s' \<and>
      (\<forall>d' \<in> D. \<forall>va'. user_pdx (PDX va') \<longrightarrow> vmap s' d' va' =
        (if d' = d \<and> PGNUM va' = PGNUM va then Some (page2pa p OR perm OR PTE_P) else vmap s d' va')))"
  by (rule page_insert_run [OF assms(1-3) mappable_run [OF assms(1,4)] assms(5)])

theorem page_insert_correct_witness:
  "\<exists>s' fl'. page_insert demo (kpage 1) (Some 4) 0x800000 6 = Some (0, s') \<and>
     vm_inv demo_base {1} fl' s' \<and> vmap s' 1 0x800000 = Some 0x4007 \<and> vmap s' 1 0x801000 = None"
proof -
  have "page2pa 4 OR 6 OR PTE_P = 0x4007"
    by (simp add: page2pa_def layout)
  moreover have "vmap demo 1 0x801000 = None"
    by (simp add: vmap_def pte_def)
  ultimately show ?thesis
    using page_insert_correct [OF demo_vm_inv _ demo_user(1) demo_mappable, of 1 6] demo_user by auto
qed

text \<open>C6. \<^verbatim>\<open>page_remove\<close> never panics; it clears exactly the mapping of the given page of the given
  address space, drops exactly the reference of the page that was mapped there, puts that page
  on the free list exactly when this was the last reference, and keeps the reference counts equal
  to the uses. Without a mapping it does nothing.\<close>

theorem page_remove_correct:
  assumes "vm_inv base D fl s" "d \<in> D" "user_pdx (PDX va)"
  shows "case vmap s d va of
      None \<Rightarrow> page_remove s (kpage d) va = Some s
    | Some e \<Rightarrow> \<exists>s'. page_remove s (kpage d) va = Some s' \<and>
        vm_inv base D (if pp_ref (pages s (frame e)) = 1 then frame e # fl else fl) s' \<and> mm_frame s s' \<and>
        (\<forall>q. pp_ref (pages s' q) = (if q = frame e then pp_ref (pages s q) - 1 else pp_ref (pages s q))) \<and>
        (\<forall>d' \<in> D. \<forall>va'. user_pdx (PDX va') \<longrightarrow> vmap s' d' va' =
           (if d' = d \<and> PGNUM va' = PGNUM va then None else vmap s d' va'))"
proof (cases "vmap s d va")
  case None
  then show ?thesis using page_remove_unmapped [OF assms] by simp
next
  case (Some e)
  then show ?thesis using page_remove_mapped [OF assms Some] vmap_upd_at by fastforce
qed

lemma demo_mapped:
  obtains s fl where "page_insert demo (kpage 1) (Some 4) 0x800000 6 = Some (0, s)" "vm_inv demo_base {1} fl s"
    "vmap s 1 0x800000 = Some 0x4007" "npages s = 8" "frame 0x4007 = 4" "unat (pp_ref (pages s 4)) \<noteq> 1"
proof -
  have pa: "page2pa 4 OR 6 OR PTE_P = 0x4007"
    by (simp add: page2pa_def layout)
  obtain s fl where s: "page_insert demo (kpage 1) (Some 4) 0x800000 6 = Some (0, s)" "vm_inv demo_base {1} fl s"
    "vmap s 1 0x800000 = Some 0x4007" "npages s = 8"
    using page_insert_run [OF demo_vm_inv _ demo_user(1) mappable_run [OF demo_vm_inv demo_mappable], of 1 6]
      demo_user pa by (auto simp: mm_frame_def)
  have fr: "frame 0x4007 = 4"
    by (simp add: frame_def PGNUM_def layout)
  have "(1, PDX 0x800000, PTX 0x800000) \<in> mapset s {1} 4"
    using s(3) demo_user(1) fr by (simp add: mapset_def vmap_eq_Some)
  then have "card (mapset s {1} 4) \<noteq> 0"
    using finite_mapset [of "{1}"] by auto
  then have "unat (pp_ref (pages s 4)) \<noteq> 1"
    using vm_invD(7) [OF s(2), of 4] s(4) by (simp add: demo_base_def)
  with that s fr show thesis by blast
qed

theorem page_remove_correct_witness:
  "\<exists>s s'. page_insert demo (kpage 1) (Some 4) 0x800000 6 = Some (0, s) \<and> page_remove s (kpage 1) 0x800000 = Some s' \<and>
     pp_ref (pages s' 4) = pp_ref (pages s 4) - 1 \<and> vmap s 1 0x800000 = Some 0x4007 \<and> vmap s' 1 0x800000 = None"
proof -
  obtain s fl where s: "page_insert demo (kpage 1) (Some 4) 0x800000 6 = Some (0, s)" "vm_inv demo_base {1} fl s"
    "vmap s 1 0x800000 = Some 0x4007" "frame 0x4007 = 4"
    using demo_mapped by metis
  have "\<exists>s'. page_remove s (kpage 1) 0x800000 = Some s' \<and> pp_ref (pages s' 4) = pp_ref (pages s 4) - 1 \<and> vmap s' 1 0x800000 = None"
    using page_remove_correct [OF s(2) _ demo_user(1), of 1] demo_user(1) unfolding s(3) option.case s(4) by auto
  with s show ?thesis by blast
qed

text \<open>C7. \<^verbatim>\<open>page_lookup\<close> agrees with the walk of the processor, as \<^verbatim>\<open>check_va2pa\<close> emulates it: it finds a
  page exactly when the hardware would translate the address, it is the page the hardware would
  reach, and the entry it stores through \<^verbatim>\<open>pte_store\<close> is the one that maps the address.\<close>

theorem page_lookup_hardware:
  assumes "vm_inv base D fl s" "d \<in> D" "user_pdx (PDX va)"
  shows "check_va2pa s (kpage d) va = Some (case vmap s d va of None \<Rightarrow> 0xFFFFFFFF | Some e \<Rightarrow> PTE_ADDR e) \<and>
    page_lookup s (kpage d) va = Some (case vmap s d va of None \<Rightarrow> None
       | Some e \<Rightarrow> Some (frame e, slot (kpage (frame (entry s d (PDX va)))) (PTX va))) \<and>
    (\<forall>e. vmap s d va = Some e \<longrightarrow> kld s (slot (kpage (frame (entry s d (PDX va)))) (PTX va)) = e \<and>
      page2pa (frame e) = PTE_ADDR e)"
proof (intro conjI allI impI)
  show "page_lookup s (kpage d) va = Some (case vmap s d va of None \<Rightarrow> None
       | Some e \<Rightarrow> Some (frame e, slot (kpage (frame (entry s d (PDX va)))) (PTX va)))"
    by (rule page_lookup_vmap [OF assms])
  show "kld s (slot (kpage (frame (entry s d (PDX va)))) (PTX va)) = e" "page2pa (frame e) = PTE_ADDR e"
    if "vmap s d va = Some e" for e
    using that by (auto simp: vmap_eq_Some kld_kpage pte_def frame_def page2pa_PGNUM split: if_splits)
  show "check_va2pa s (kpage d) va = Some (case vmap s d va of None \<Rightarrow> 0xFFFFFFFF | Some e \<Rightarrow> PTE_ADDR e)"
  proof (cases "present (entry s d (PDX va))")
    case True
    have "KADDR s (PTE_ADDR (entry s d (PDX va))) = Some (kpage (frame (entry s d (PDX va))))"
      using page2kva_kpage [OF vm_table(2) [OF assms True] vm_invD(9) [OF assms(1)]]
      by (simp add: page2kva_def frame_def page2pa_PGNUM)
    then show ?thesis
      using True by (simp add: check_va2pa_def kld_kpage PTE_P_test vmap_def pte_def Let_def)
  qed (simp add: check_va2pa_def kld_kpage PTE_P_test vmap_def pte_def Let_def)
qed

theorem page_lookup_hardware_witness:
  "check_va2pa demo (kpage 1) 0x800000 = Some 0xFFFFFFFF \<and> page_lookup demo (kpage 1) 0x800000 = Some None \<and>
   (\<exists>s a. page_insert demo (kpage 1) (Some 4) 0x800000 6 = Some (0, s) \<and> check_va2pa s (kpage 1) 0x800000 = Some 0x4000 \<and>
     page_lookup s (kpage 1) 0x800000 = Some (Some (4, a)) \<and> kld s a = 0x4007)"
proof -
  obtain s fl where s: "page_insert demo (kpage 1) (Some 4) 0x800000 6 = Some (0, s)" "vm_inv demo_base {1} fl s"
    "vmap s 1 0x800000 = Some 0x4007" "frame 0x4007 = 4"
    using demo_mapped by metis
  have "PTE_ADDR 0x4007 = 0x4000"
    by (simp add: PTE_ADDR_def)
  then have "\<exists>a. check_va2pa s (kpage 1) 0x800000 = Some 0x4000 \<and> page_lookup s (kpage 1) 0x800000 = Some (Some (4, a)) \<and> kld s a = 0x4007"
    using page_lookup_hardware [OF s(2) _ demo_user(1), of 1] s(3,4) by auto
  moreover have "vmap demo 1 0x800000 = None"
    by (simp add: vmap_def pte_def)
  then have "check_va2pa demo (kpage 1) 0x800000 = Some 0xFFFFFFFF \<and> page_lookup demo (kpage 1) 0x800000 = Some None"
    using page_lookup_hardware [OF demo_vm_inv _ demo_user(1), of 1] by simp
  ultimately show ?thesis
    using s(1) by blast
qed

text \<open>C34. Removing a mapping that lowers the reference count of the page to anything but zero issues no
  \<^verbatim>\<open>invlpg\<close>, although the comment on \<^verbatim>\<open>page_remove\<close> requires one whenever an entry is removed: the
  processor may go on using the mapping.\<close>

theorem page_remove_stale_tlb:
  assumes "vm_inv base D fl s" "d \<in> D" "user_pdx (PDX va)" "vmap s d va = Some e"
    and "pp_ref (pages s (frame e)) \<noteq> 1"
  shows "\<exists>s'. page_remove s (kpage d) va = Some s' \<and> vmap s' d va = None \<and> invlpgs s' = invlpgs s"
proof -
  have e: "present (pte s d (PDX va) (PTX va))" "e = pte s d (PDX va) (PTX va)"
    using assms(4) by (auto simp: vmap_eq_Some)
  note M = vm_mapped [OF assms(1-3) PTX_less e(1), folded e(2)]
  have "pp_ref (pages (page_decref s (frame e)) (frame e)) \<noteq> 0"
    using assms(5) page_decref_ref(1) [OF vm_invD(1) [OF assms(1)] M(1)] by simp
  then have "page_remove s (kpage d) va =
      Some (kst (slot (kpage (frame (entry s d (PDX va)))) (PTX va)) 0 (page_decref s (frame e)))"
    using assms by (simp add: page_remove_def page_lookup_vmap)
  moreover from this have "vmap (kst (slot (kpage (frame (entry s d (PDX va)))) (PTX va)) 0
      (page_decref s (frame e))) d va = None"
    using page_remove_ok(3) [OF assms(1-3) _ assms(2,3)] by simp
  ultimately show ?thesis
    using page_decref_ref(3) [OF vm_invD(1) [OF assms(1)] M(1)] by simp
qed

theorem page_remove_stale_tlb_witness:
  "\<exists>s s'. vmap s 1 0x800000 = Some 0x4007 \<and> page_remove s (kpage 1) 0x800000 = Some s' \<and>
     vmap s' 1 0x800000 = None \<and> invlpgs s' = invlpgs s"
proof -
  obtain s fl where s: "vm_inv demo_base {1} fl s" "vmap s 1 0x800000 = Some 0x4007" "frame 0x4007 = 4" "unat (pp_ref (pages s 4)) \<noteq> 1"
    using demo_mapped by metis
  then have "pp_ref (pages s (frame 0x4007)) \<noteq> 1"
    by auto
  then show ?thesis
    using page_remove_stale_tlb [OF s(1) _ demo_user(1) s(2)] s(2) by auto
qed

text \<open>The reference count of a page has 16 bits and nothing keeps it from wrapping around: mapping a page that has 65535
  references once more leaves it with none, while it is still mapped everywhere.\<close>

lemma page_insert_ref_wraps:
  assumes inv: "vm_inv base D fl s" and d: "d \<in> D" "user_pdx (PDX va)" "present (entry s d (PDX va))"
    and va: "vmap s d va = None" and p: "p < unat (npages s)" "p \<noteq> 0" "pp_ref (pages s p) = 0xFFFF" and perm: "unat perm < 4096"
  shows "\<exists>s'. page_insert s (kpage d) (Some p) va perm = Some (0, s') \<and> pp_ref (pages s' p) = 0"
proof -
  let ?i = "PDX va" and ?j = "PTX va"
  let ?t = "frame (entry s d ?i)"
  let ?a = "slot (kpage d) ?i" and ?b = "slot (kpage ?t) ?j"
  let ?s2 = "kst ?a (kld s ?a OR (perm OR PTE_P)) s"
  note T = vm_table [OF inv d] and Dr = vm_dir [OF inv d(1)] and I = vm_invD [OF inv]
  have "pte s d ?i ?j = 0"
    using I(6) [OF d(1,2) PTX_less] va by (auto simp: vmap_def Let_def split: if_splits)
  then have "entry s ?t ?j = 0"
    using d(3) by (simp add: pte_def)
  moreover have "?t \<noteq> d"
    using T(3) d(1) by auto
  ultimately have "entry ?s2 ?t ?j = 0"
    using entry_kst [OF Dr(1) T(1) user_pdx_less [OF d(2)] PTX_less] by simp
  then have e: "kld ?s2 ?b = 0" "\<And>f. kld (upd_page p f ?s2) ?b = 0"
    by (simp_all add: kld_kpage) (simp add: entry_def)
  have "?b \<noteq> 0"
    using slot_kpage_nonzero [OF T(1) PTX_less] .
  moreover have "paddr (pages s p) \<noteq> 0"
    using I(1) p(1,2) I(9) page2pa_inject [of p 0] by (auto simp: pages_wf_def page2pa_def)
  ultimately show ?thesis
    using walk_present [OF inv d, of True] e p(3) by (simp add: page_insert_def Let_def PTE_ADDR_def)
qed

end
