(* ===== verification/Spinlock.thy ===== *)
theory Spinlock
  imports Kstate
begin

section \<open>The big kernel lock\<close>

text \<open>
  \<^verbatim>\<open>kern/spinlock.c\<close> and the inline functions of \<^verbatim>\<open>kern/spinlock.h\<close>, twice: as the sequence of
  atomic accesses to the lock word that each processor performs, interleaved with those of the
  other processors (a step relation with one program counter per processor), and as the
  functions on the kernel state that the other components call. The lock is compiled with
  \<^verbatim>\<open>DEBUG_SPINLOCK\<close>, so acquiring a lock one holds and releasing a lock one does not hold panic.
\<close>

subsection \<open>The lock operations\<close>

definition holding :: "nat \<Rightarrow> spinlock \<Rightarrow> bool" where
  "holding c lk \<longleftrightarrow> locked lk \<noteq> 0 \<and> lk_cpu lk = Some c"

definition spin_initlock :: spinlock where
  "spin_initlock = \<lparr>locked = 0, lk_cpu = None\<rparr>"

text \<open>The exchange instruction: the old value of the lock word, and the lock with the new one.\<close>

definition xchg :: "spinlock \<Rightarrow> u32 \<Rightarrow> u32 \<times> spinlock" where
  "xchg lk v = (locked lk, lk\<lparr>locked := v\<rparr>)"

text \<open>\<open>spin_lock\<close>: the state after the loop, which is left by the exchange that found the lock word
  zero; \<open>spin_unlock\<close>: the check, the two stores, the exchange.\<close>

definition spin_lock :: "nat \<Rightarrow> spinlock \<Rightarrow> spinlock option" where
  "spin_lock c lk = (if holding c lk then None else Some ((snd (xchg lk 1))\<lparr>lk_cpu := Some c\<rparr>))"

definition spin_unlock :: "nat \<Rightarrow> spinlock \<Rightarrow> spinlock option" where
  "spin_unlock c lk = (if \<not> holding c lk then None else Some (snd (xchg (lk\<lparr>lk_cpu := None\<rparr>) 0)))"

definition lock_kernel :: "kstate \<Rightarrow> kstate option" where
  "lock_kernel s = do { lk \<leftarrow> spin_lock (cpunum s) (kernel_lock s); Some (s\<lparr>kernel_lock := lk\<rparr>) }"

definition unlock_kernel :: "kstate \<Rightarrow> kstate option" where
  "unlock_kernel s = do { lk \<leftarrow> spin_unlock (cpunum s) (kernel_lock s); Some (s\<lparr>kernel_lock := lk\<rparr>) }"

text \<open>\<^verbatim>\<open>get_caller_pcs\<close>: ten saved program counters along the frame pointer chain, which is followed
  only while it stays between \<open>ULIM\<close> and \<open>IOMEMBASE\<close>; \<open>rd\<close> reads a word of memory.\<close>

fun caller_pcs_from :: "(u32 \<Rightarrow> u32) \<Rightarrow> u32 \<Rightarrow> nat \<Rightarrow> u32 list" where
  "caller_pcs_from rd ebp 0 = []"
| "caller_pcs_from rd ebp (Suc n) =
     (if ebp = 0 \<or> ebp < ULIM \<or> IOMEMBASE \<le> ebp then replicate (Suc n) 0
      else rd (ebp + 4) # caller_pcs_from rd (rd ebp) n)"

definition get_caller_pcs :: "(u32 \<Rightarrow> u32) \<Rightarrow> u32 \<Rightarrow> u32 list" where
  "get_caller_pcs rd ebp = caller_pcs_from rd ebp 10"

subsection \<open>Processors as interleaved steps\<close>

text \<open>
  The program counter of a processor: outside; inside \<^verbatim>\<open>spin_lock\<close> after the test of \<^verbatim>\<open>holding\<close>
  (\<open>Spin\<close>) and after the successful exchange (\<open>Got\<close>); in the critical section; inside
  \<^verbatim>\<open>spin_unlock\<close> after the test (\<open>Rel\<close>) and after the store to \<^verbatim>\<open>lk->cpu\<close> (\<open>Cleared\<close>); stopped in
  \<^verbatim>\<open>panic\<close>.
\<close>

datatype pc = Outside | Spin | Got | Crit | Rel | Cleared | Panicked

inductive cpu_step :: "nat \<Rightarrow> pc \<Rightarrow> spinlock \<Rightarrow> pc \<Rightarrow> spinlock \<Rightarrow> bool" where
  enter: "\<not> holding c lk \<Longrightarrow> cpu_step c Outside lk Spin lk"
| enter_panic: "holding c lk \<Longrightarrow> cpu_step c Outside lk Panicked lk"
| spin: "fst (xchg lk 1) \<noteq> 0 \<Longrightarrow> cpu_step c Spin lk Spin (snd (xchg lk 1))"
| acquire: "fst (xchg lk 1) = 0 \<Longrightarrow> cpu_step c Spin lk Got (snd (xchg lk 1))"
| record_cpu: "cpu_step c Got lk Crit (lk\<lparr>lk_cpu := Some c\<rparr>)"
| leave: "holding c lk \<Longrightarrow> cpu_step c Crit lk Rel lk"
| leave_panic: "\<not> holding c lk \<Longrightarrow> cpu_step c Crit lk Panicked lk"
| clear_cpu: "cpu_step c Rel lk Cleared (lk\<lparr>lk_cpu := None\<rparr>)"
| release: "cpu_step c Cleared lk Outside (snd (xchg lk 0))"

inductive_cases cpu_stepE: "cpu_step c p lk p' lk'"

inductive lock_step :: "(nat \<Rightarrow> pc) \<times> spinlock \<Rightarrow> (nat \<Rightarrow> pc) \<times> spinlock \<Rightarrow> bool" where
  "cpu_step c (pcs c) lk p' lk' \<Longrightarrow> lock_step (pcs, lk) (pcs(c := p'), lk')"

inductive lock_reachable :: "(nat \<Rightarrow> pc) \<times> spinlock \<Rightarrow> bool" where
  init: "lock_reachable (\<lambda>_. Outside, spin_initlock)"
| step: "lock_reachable x \<Longrightarrow> lock_step x y \<Longrightarrow> lock_reachable y"

definition owns :: "pc \<Rightarrow> bool" where
  "owns p \<longleftrightarrow> p \<in> {Got, Crit, Rel, Cleared}"

text \<open>The invariant, with the owner as a ghost: nobody owns the lock and every processor is outside or
  spinning, or exactly one owns it.\<close>

definition waiting :: "pc \<Rightarrow> bool" where
  "waiting p \<longleftrightarrow> p = Outside \<or> p = Spin"

definition unowned :: "(nat \<Rightarrow> pc) \<Rightarrow> spinlock \<Rightarrow> bool" where
  "unowned pcs lk \<longleftrightarrow> locked lk = 0 \<and> lk_cpu lk = None \<and> (\<forall>c. waiting (pcs c))"

definition owned_by :: "nat \<Rightarrow> (nat \<Rightarrow> pc) \<Rightarrow> spinlock \<Rightarrow> bool" where
  "owned_by w pcs lk \<longleftrightarrow> locked lk \<noteq> 0 \<and> owns (pcs w) \<and> (\<forall>c. c \<noteq> w \<longrightarrow> waiting (pcs c)) \<and>
     lk_cpu lk = (if pcs w = Crit \<or> pcs w = Rel then Some w else None)"

definition lock_inv :: "(nat \<Rightarrow> pc) \<Rightarrow> spinlock \<Rightarrow> bool" where
  "lock_inv pcs lk \<longleftrightarrow> unowned pcs lk \<or> (\<exists>w. owned_by w pcs lk)"

lemma unowned_step:
  assumes "unowned pcs lk" "cpu_step c (pcs c) lk p' lk'"
  shows "lock_inv (pcs(c := p')) lk'"
  using assms(2)
proof (cases rule: cpu_step.cases)
  case acquire
  then have "owned_by c (pcs(c := p')) lk'"
    using assms(1) by (auto simp: owned_by_def unowned_def owns_def xchg_def)
  then show ?thesis by (auto simp: lock_inv_def)
qed (use assms(1) in \<open>auto simp: lock_inv_def unowned_def waiting_def xchg_def holding_def dest: spec [of _ c]\<close>)

lemma owned_step_self:
  assumes "owned_by c pcs lk" "cpu_step c (pcs c) lk p' lk'"
  shows "lock_inv (pcs(c := p')) lk'"
proof (cases "pcs c = Cleared")
  case True
  then have "unowned (pcs(c := p')) lk'"
    using assms by (auto simp: owned_by_def unowned_def xchg_def waiting_def elim: cpu_stepE)
  then show ?thesis by (simp add: lock_inv_def)
next
  case False
  then have "owned_by c (pcs(c := p')) lk'"
    using assms by (auto simp: owned_by_def owns_def xchg_def holding_def elim!: cpu_stepE)
  then show ?thesis by (auto simp: lock_inv_def)
qed

lemma owned_step_other:
  assumes "owned_by w pcs lk" "cpu_step c (pcs c) lk p' lk'" "c \<noteq> w"
  shows "owned_by w (pcs(c := p')) lk'"
proof -
  have "waiting (pcs c)" and nh: "\<not> holding c lk" and lk: "locked lk \<noteq> 0"
    using assms by (auto simp: owned_by_def holding_def)
  then have "waiting p'" "locked lk' \<noteq> 0" "lk_cpu lk' = lk_cpu lk"
    using assms(2) nh lk by (auto simp: waiting_def xchg_def elim!: cpu_stepE)
  then show ?thesis
    using assms(1,3) by (auto simp: owned_by_def)
qed

lemma lock_reachable_inv: "lock_reachable x \<Longrightarrow> lock_inv (fst x) (snd x)"
proof (induction rule: lock_reachable.induct)
  case init
  then show ?case
    by (simp add: lock_inv_def unowned_def spin_initlock_def waiting_def)
next
  case (step x y)
  from step(2,3) show ?case
  proof (cases rule: lock_step.cases)
    case (1 c pcs lk p' lk')
    with step(3) have "unowned pcs lk \<or> (\<exists>w. owned_by w pcs lk)"
      by (simp add: lock_inv_def)
    then show ?thesis
      using 1 unowned_step owned_step_self owned_step_other by (metis fst_conv lock_inv_def snd_conv)
  qed
qed

subsection \<open>What the lock guarantees\<close>

text \<open>C36. Mutual exclusion: in every interleaving of any number of processors through
  \<^verbatim>\<open>spin_lock\<close> and \<^verbatim>\<open>spin_unlock\<close>, no two of them are between the exchange that acquires the lock and
  the exchange that releases it, the recorded owner is right, and neither debugging check ever
  panics.\<close>

theorem lock_mutual_exclusion:
  assumes "lock_reachable (pcs, lk)"
  shows "(\<forall>c c'. owns (pcs c) \<longrightarrow> owns (pcs c') \<longrightarrow> c = c') \<and> (\<forall>c. pcs c = Crit \<longrightarrow> holding c lk) \<and>
    (\<forall>c. pcs c \<noteq> Panicked)"
proof -
  have "unowned pcs lk \<or> (\<exists>w. owned_by w pcs lk)"
    using lock_reachable_inv [OF assms] by (simp add: lock_inv_def)
  then show ?thesis
  proof
    assume "unowned pcs lk"
    then have "waiting (pcs c)" for c by (simp add: unowned_def)
    then show ?thesis by (metis waiting_def owns_def pc.distinct insert_iff empty_iff)
  next
    assume "\<exists>w. owned_by w pcs lk"
    then obtain w where o: "owned_by w pcs lk" ..
    have u: "owns (pcs c) \<or> pcs c = Panicked \<Longrightarrow> c = w" for c
      using o by (auto simp: owned_by_def waiting_def owns_def)
    moreover have "owns (pcs w)" "pcs w \<noteq> Panicked"
      using o by (auto simp: owned_by_def owns_def)
    moreover have "pcs w = Crit \<Longrightarrow> holding w lk"
      using o by (simp add: owned_by_def holding_def)
    ultimately show ?thesis by (metis owns_def insert_iff)
  qed
qed

lemma demo_lock_run:
  "lock_reachable ((\<lambda>_. Outside)(0 := Crit, 1 := Spin), \<lparr>locked = 1, lk_cpu = Some 0\<rparr>)"
proof -
  have a: "lock_reachable ((\<lambda>_. Outside)(0 := Spin), spin_initlock)"
    by (rule lock_reachable.step [OF init], rule lock_step.intros)
      (simp add: cpu_step.enter holding_def spin_initlock_def)
  have b: "lock_reachable (((\<lambda>_. Outside)(0 := Spin))(0 := Got), snd (xchg spin_initlock 1))"
    by (rule lock_reachable.step [OF a], rule lock_step.intros)
      (use cpu_step.acquire [of spin_initlock 0] in \<open>simp add: xchg_def spin_initlock_def\<close>)
  have c: "lock_reachable ((((\<lambda>_. Outside)(0 := Spin))(0 := Got))(0 := Crit), (snd (xchg spin_initlock 1))\<lparr>lk_cpu := Some 0\<rparr>)"
    by (rule lock_reachable.step [OF b], rule lock_step.intros) (simp add: cpu_step.record_cpu)
  have "lock_reachable (((((\<lambda>_. Outside)(0 := Spin))(0 := Got))(0 := Crit))(1 := Spin), (snd (xchg spin_initlock 1))\<lparr>lk_cpu := Some 0\<rparr>)"
    by (rule lock_reachable.step [OF c], rule lock_step.intros)
      (simp add: cpu_step.enter holding_def xchg_def spin_initlock_def)
  then show ?thesis
    by (simp add: xchg_def spin_initlock_def)
qed

theorem lock_mutual_exclusion_witness:
  "holding 0 \<lparr>locked = 1, lk_cpu = Some 0\<rparr> \<and> lock_reachable ((\<lambda>_. Outside)(0 := Crit, 1 := Spin), \<lparr>locked = 1, lk_cpu = Some 0\<rparr>)"
  using lock_mutual_exclusion [OF demo_lock_run] demo_lock_run by simp

text \<open>A processor that acquires the kernel lock can release it again without a panic, and gets the
  lock state it started from; acquiring twice or releasing a lock that somebody else holds panics.\<close>

theorem lock_unlock_kernel:
  "\<exists>s1. lock_kernel (s\<lparr>kernel_lock := spin_initlock\<rparr>) = Some s1 \<and> holding (cpunum s) (kernel_lock s1) \<and>
     lock_kernel s1 = None \<and> unlock_kernel (s\<lparr>kernel_lock := spin_initlock\<rparr>) = None \<and>
     (\<forall>c. unlock_kernel (s1\<lparr>cpunum := c\<rparr>) =
        (if c = cpunum s then Some (s\<lparr>kernel_lock := spin_initlock\<rparr>) else None))"
  by (simp add: lock_kernel_def unlock_kernel_def spin_lock_def spin_unlock_def holding_def xchg_def
      spin_initlock_def)

text \<open>\<^verbatim>\<open>get_caller_pcs\<close> always fills its ten entries, and reads memory only through frame pointers in
  \<open>[ULIM, IOMEMBASE)\<close>: two memories that agree there (and on the word after) give the same result.\<close>

theorem get_caller_pcs_safe:
  assumes "\<And>a. ULIM \<le> a \<Longrightarrow> a < IOMEMBASE + 4 \<Longrightarrow> rd a = rd' a"
  shows "length (get_caller_pcs rd ebp) = 10 \<and> get_caller_pcs rd ebp = get_caller_pcs rd' ebp"
proof -
  have len: "length (caller_pcs_from rd ebp n) = n" for ebp n
    by (induction n arbitrary: ebp) auto
  have "caller_pcs_from rd ebp n = caller_pcs_from rd' ebp n" for n
  proof (induction n arbitrary: ebp)
    case (Suc n)
    show ?case
    proof (cases "ebp = 0 \<or> ebp < ULIM \<or> IOMEMBASE \<le> ebp")
      case False
      have "unat ebp < 4261412864"
        using False by (simp add: word_le_nat_alt layout)
      then have "unat (ebp + 4) = unat ebp + 4"
        using unat_add_no_wrap [of ebp 4] by simp
      then have "ULIM \<le> ebp + 4" "ebp + 4 < IOMEMBASE + 4" "ebp < IOMEMBASE + 4"
        using False by (simp_all add: word_less_nat_alt word_le_nat_alt layout)
      then have "rd (ebp + 4) = rd' (ebp + 4)" "rd ebp = rd' ebp"
        using assms False by auto
      then show ?thesis using Suc False by simp
    qed simp
  qed simp
  then show ?thesis
    by (metis get_caller_pcs_def len)
qed

theorem get_caller_pcs_safe_witness:
  "get_caller_pcs (\<lambda>a. if a < ULIM then 5 else 0xF0100000) 0xEFC00000 = get_caller_pcs (\<lambda>a. 0xF0100000) 0xEFC00000"
  using get_caller_pcs_safe [of "\<lambda>a. if a < ULIM then 5 else 0xF0100000" "\<lambda>a. 0xF0100000" "0xEFC00000"]
  by (simp flip: linorder_not_less)

end
