(* ===== verification/Env.thy ===== *)
theory Env
  imports Pmap_Walk Spinlock
begin

section \<open>Environments\<close>

text \<open>
  \<^verbatim>\<open>kern/env.c\<close>: the table of environments and its free list, address space set-up, allocation,
  loading of an ELF image, release, and the switch to user mode. \<open>env_destroy\<close>, which may enter
  the scheduler, is in the theory of the scheduler.
\<close>

subsection \<open>Access to user memory\<close>

text \<open>The translation the processor makes with the page directory in \<open>cr3\<close>; the kernel runs with
  \<^verbatim>\<open>CR0_WP\<close> set, so a store needs a writable page in both levels. \<open>None\<close> is a page fault, in
  kernel mode a panic.\<close>

definition hw_translate :: "kstate \<Rightarrow> u32 \<Rightarrow> bool \<Rightarrow> u32 option" where
  "hw_translate s va write =
     (let pde = rd32 (pmem s) (slot (PTE_ADDR (cr3 s)) (PDX va));
          e = rd32 (pmem s) (slot (PTE_ADDR pde) (PTX va))
      in if pde AND PTE_P = 0 \<or> e AND PTE_P = 0 \<or> (write \<and> (pde AND PTE_W = 0 \<or> e AND PTE_W = 0)) then None
         else Some (PTE_ADDR e OR PGOFF va))"

definition va_read :: "kstate \<Rightarrow> u32 \<Rightarrow> u8 option" where
  "va_read s va = do { pa \<leftarrow> hw_translate s va False; Some (pmem s pa) }"

definition va_write :: "u32 \<Rightarrow> u8 \<Rightarrow> kstate \<Rightarrow> kstate option" where
  "va_write va b s = do { pa \<leftarrow> hw_translate s va True; Some (s\<lparr>pmem := (pmem s)(pa := b)\<rparr>) }"

fun va_write_list :: "u32 \<Rightarrow> u8 list \<Rightarrow> kstate \<Rightarrow> kstate option" where
  "va_write_list va [] s = Some s"
| "va_write_list va (b # bs) s = do { s1 \<leftarrow> va_write va b s; va_write_list (va + 1) bs s1 }"

subsection \<open>Lookup by identifier\<close>

definition ENVGENSHIFT :: nat where [layout]: "ENVGENSHIFT = 12"
definition GD_KT :: u16 where [layout]: "GD_KT = 0x08"
definition GD_KD :: u16 where [layout]: "GD_KD = 0x10"
definition GD_UT :: u16 where [layout]: "GD_UT = 0x18"
definition GD_UD :: u16 where [layout]: "GD_UD = 0x20"
definition GD_TSS0 :: u16 where [layout]: "GD_TSS0 = 0x28"

text \<open>The result code together with what is stored through \<^verbatim>\<open>env_store\<close>: \<open>None\<close> when the function
  returns without storing, \<open>Some p\<close> when it stores the pointer \<open>p\<close>. A null \<^verbatim>\<open>curenv\<close> dereferenced
  by the permission check is a kernel fault.\<close>

definition envid2env :: "kstate \<Rightarrow> u32 \<Rightarrow> bool \<Rightarrow> (int \<times> nat option option) option" where
  "envid2env s envid checkperm =
     (if sint envid < 0 then Some (- E_BAD_ENV, None)
      else if envid = 0 then Some (0, Some (curenv s))
      else let e = unat (ENVX envid)
           in if env_status (envs s e) = ENV_FREE \<or> env_id (envs s e) \<noteq> envid
              then Some (- E_BAD_ENV, Some None)
              else if checkperm \<and> Some e \<noteq> curenv s
                   then do {
                     c \<leftarrow> curenv s;
                     Some (if env_parent_id (envs s e) \<noteq> env_id (envs s c)
                           then (- E_BAD_ENV, Some None) else (0, Some (Some e)))
                   }
                   else Some (0, Some (Some e)))"

subsection \<open>Initialisation of the table\<close>

definition zero_regs :: PushRegs where
  "zero_regs = \<lparr>reg_edi = 0, reg_esi = 0, reg_ebp = 0, reg_oesp = 0, reg_ebx = 0, reg_edx = 0,
     reg_ecx = 0, reg_eax = 0\<rparr>"

definition zero_tf :: Trapframe where
  "zero_tf = \<lparr>tf_regs = zero_regs, tf_es = 0, tf_ds = 0, tf_trapno = 0, tf_err = 0, tf_eip = 0, tf_cs = 0,
     tf_eflags = 0, tf_esp = 0, tf_ss = 0\<rparr>"

definition zero_env :: Env where
  "zero_env = \<lparr>env_tf = zero_tf, env_link = None, env_id = 0, env_parent_id = 0, env_type = ENV_TYPE_USER,
     env_status = 0, env_runs = 0, env_cpunum = 0, env_pgdir = 0, env_pgfault_upcall = 0,
     env_ipc_recving = False, env_ipc_dstva = 0, env_ipc_value = 0, env_ipc_from = 0, env_ipc_perm = 0\<rparr>"

definition env_init :: "kstate \<Rightarrow> kstate" where
  "env_init s =
     (let s0 = s\<lparr>envs := (\<lambda>i. if i < NENV then zero_env else envs s i), env_free_list := Some 0\<rparr>;
          s1 = fold (\<lambda>i. upd_env (i - 1) (\<lambda>e. e\<lparr>env_type := ENV_TYPE_IDLE, env_link := Some i\<rparr>)) [1..<NENV] s0
      in upd_env (NENV - 1) (\<lambda>e. e\<lparr>env_link := None\<rparr>) s1)"

subsection \<open>Allocation\<close>

definition env_setup_vm :: "kstate \<Rightarrow> nat \<Rightarrow> (int \<times> kstate) option" where
  "env_setup_vm s e =
     do {
       (r, s1) \<leftarrow> page_alloc s ALLOC_ZERO;
       (case r of
          None \<Rightarrow> Some (- E_NO_MEM, s1)
        | Some p \<Rightarrow> do {
            pgdir \<leftarrow> page2kva s1 p;
            let s2 = upd_env e (\<lambda>v. v\<lparr>env_pgdir := pgdir\<rparr>) s1;
            let s3 = s2\<lparr>pmem := copy_bytes (pmem s2) (pgdir - KERNBASE) (kern_pgdir s2 - KERNBASE) 4096\<rparr>;
            let s4 = upd_page p (\<lambda>pg. pg\<lparr>pp_ref := pp_ref pg + 1\<rparr>) s3;
            (if pp_ref (pages s4 p) \<noteq> 1 then None
             else do {
               pa \<leftarrow> PADDR pgdir;
               Some (0, kst (slot pgdir (PDX UVPT)) (pa OR PTE_P OR PTE_U) s4)
             })
          })
     }"

definition new_env_id :: "u32 \<Rightarrow> nat \<Rightarrow> u32" where
  "new_env_id old e =
     (let generation = (old + push_bit ENVGENSHIFT 1) AND NOT 1023;
          generation' = (if sint generation \<le> 0 then push_bit ENVGENSHIFT 1 else generation)
      in generation' OR word_of_nat e)"

definition env_alloc :: "kstate \<Rightarrow> u32 \<Rightarrow> (int \<times> nat option \<times> kstate) option" where
  "env_alloc s parent_id =
     (case env_free_list s of
        None \<Rightarrow> Some (- E_NO_FREE_ENV, None, s)
      | Some e \<Rightarrow> do {
          (r, s1) \<leftarrow> env_setup_vm s e;
          (if r < 0 then Some (r, None, s1)
           else let s2 = upd_env e (\<lambda>v. v\<lparr>env_id := new_env_id (env_id v) e, env_parent_id := parent_id,
                    env_type := ENV_TYPE_USER, env_status := ENV_RUNNABLE, env_runs := 0,
                    env_tf := zero_tf\<lparr>tf_ds := GD_UD OR 3, tf_es := GD_UD OR 3, tf_ss := GD_UD OR 3,
                      tf_esp := USTACKTOP, tf_cs := GD_UT OR 3, tf_eflags := 0 OR FL_IF\<rparr>,
                    env_pgfault_upcall := 0, env_ipc_recving := False\<rparr>) s1
                in Some (0, Some e, s2\<lparr>env_free_list := env_link (envs s2 e)\<rparr>))
        })"

subsection \<open>Loading a program\<close>

text \<open>The loop variable of \<^verbatim>\<open>region_alloc\<close> and its bound are page aligned, so it runs through the pages
  from one to the other.\<close>

definition region_pages :: "u32 \<Rightarrow> u32 \<Rightarrow> u32 list" where
  "region_pages from to =
     (if from < to then map (\<lambda>k. from + word_of_nat k * PGSIZE) [0..<unat ((to - from) div PGSIZE)] else [])"

definition region_page :: "u32 \<Rightarrow> u32 \<Rightarrow> kstate \<Rightarrow> kstate option" where
  "region_page pgdir va s =
     do {
       (p, s1) \<leftarrow> page_alloc s 0;
       (case p of
          None \<Rightarrow> None
        | Some q \<Rightarrow> do { (_, s2) \<leftarrow> page_insert s1 pgdir (Some q) va (PTE_U OR PTE_P OR PTE_W); Some s2 })
     }"

definition region_alloc :: "kstate \<Rightarrow> nat \<Rightarrow> u32 \<Rightarrow> u32 \<Rightarrow> (u32 \<times> kstate) option" where
  "region_alloc s e va len =
     (let dstoft = ROUNDUP (va + len) PGSIZE
      in if UTOP \<le> dstoft then None
         else do {
           s1 \<leftarrow> for_each (region_page (env_pgdir (envs s e))) (region_pages (ROUNDDOWN va PGSIZE) dstoft) s;
           pgdir_walk s1 (env_pgdir (envs s1 e)) va False
         })"

definition ELF_MAGIC :: u32 where [layout]: "ELF_MAGIC = 0x464C457F"
definition ELF_PROG_LOAD :: u32 where [layout]: "ELF_PROG_LOAD = 1"

text \<open>The fields of \<^verbatim>\<open>struct Elf\<close> and \<^verbatim>\<open>struct Proghdr\<close> at their offsets in the image, which lies at the
  kernel virtual address \<open>binary\<close>; \<open>kbytes\<close> reads a run of bytes of the image.\<close>

definition kld16 :: "kstate \<Rightarrow> u32 \<Rightarrow> u32" where
  "kld16 s kva = kld s kva AND 0xFFFF"

definition kbytes :: "kstate \<Rightarrow> u32 \<Rightarrow> u32 \<Rightarrow> u8 list" where
  "kbytes s kva n = map (\<lambda>k. pmem s (kva - KERNBASE + word_of_nat k)) [0..<unat n]"

definition load_segment :: "nat \<Rightarrow> u32 \<Rightarrow> u32 \<Rightarrow> kstate \<Rightarrow> kstate option" where
  "load_segment e binary ph s =
     (let p_type = kld s ph; p_offset = kld s (ph + 4); p_va = kld s (ph + 8);
          p_filesz = kld s (ph + 16); p_memsz = kld s (ph + 20)
      in if p_type \<noteq> ELF_PROG_LOAD then Some s
         else if p_memsz < p_filesz then None
         else do {
           (_, s1) \<leftarrow> region_alloc s e p_va p_memsz;
           s2 \<leftarrow> va_write_list p_va (kbytes s1 (binary + p_offset) p_filesz) s1;
           va_write_list (p_va + p_filesz) (replicate (unat (p_memsz - p_filesz)) 0) s2
         })"

definition load_icode :: "kstate \<Rightarrow> nat \<Rightarrow> u32 \<Rightarrow> kstate option" where
  "load_icode s e binary =
     (if kld s binary \<noteq> ELF_MAGIC then Some s
      else do {
        pa \<leftarrow> PADDR (env_pgdir (envs s e));
        let ph = binary + kld s (binary + 28);
        s1 \<leftarrow> for_each (load_segment e binary)
               (map (\<lambda>i. ph + 32 * word_of_nat i) [0..<unat (kld16 s (binary + 44))]) (s\<lparr>cr3 := pa\<rparr>);
        (pte, s2) \<leftarrow> region_alloc s1 e (USTACKTOP - PGSIZE) PGSIZE;
        (if pte = 0 then None
         else do {
           s3 \<leftarrow> va_write_list (tf_esp (env_tf (envs s2 e)) - PGSIZE) (replicate 4096 0) s2;
           let s4 = upd_env e (\<lambda>v. v\<lparr>env_tf := (env_tf v)\<lparr>tf_eip := kld s3 (binary + 24)\<rparr>\<rparr>) s3;
           kpa \<leftarrow> PADDR (kern_pgdir s4);
           Some (s4\<lparr>cr3 := kpa\<rparr>)
         })
      })"

definition env_create :: "kstate \<Rightarrow> u32 \<Rightarrow> EnvType \<Rightarrow> kstate option" where
  "env_create s binary type =
     do {
       (r, ne, s1) \<leftarrow> env_alloc s 0;
       (if r < 0 then None
        else do {
          e \<leftarrow> ne;
          s2 \<leftarrow> load_icode s1 e binary;
          Some (upd_env e (\<lambda>v. v\<lparr>env_type := type, env_parent_id := 0\<rparr>) s2)
        })
     }"

subsection \<open>Release\<close>

definition env_free_pte :: "u32 \<Rightarrow> u32 \<Rightarrow> u32 \<Rightarrow> nat \<Rightarrow> kstate \<Rightarrow> kstate option" where
  "env_free_pte pgdir pt pdeno pteno s =
     (if kld s (slot pt (word_of_nat pteno)) AND PTE_P \<noteq> 0
      then page_remove s pgdir (PGADDR pdeno (word_of_nat pteno) 0) else Some s)"

definition env_free_pde :: "u32 \<Rightarrow> nat \<Rightarrow> kstate \<Rightarrow> kstate option" where
  "env_free_pde pgdir pdeno s =
     (let pde = kld s (slot pgdir (word_of_nat pdeno))
      in if pde AND PTE_P = 0 then Some s
         else let pa = PTE_ADDR pde
              in do {
                pt \<leftarrow> KADDR s pa;
                s1 \<leftarrow> for_each (env_free_pte pgdir pt (word_of_nat pdeno)) [0..<1024] s;
                let s2 = kst (slot pgdir (word_of_nat pdeno)) 0 s1;
                p \<leftarrow> pa2page s2 pa;
                Some (page_decref s2 p)
              })"

definition env_free :: "kstate \<Rightarrow> nat \<Rightarrow> kstate option" where
  "env_free s e =
     do {
       s0 \<leftarrow> (if curenv s = Some e
             then do { pa \<leftarrow> PADDR (kern_pgdir s); Some (s\<lparr>cr3 := pa\<rparr>) } else Some s);
       s1 \<leftarrow> for_each (env_free_pde (env_pgdir (envs s0 e))) [0..<unat (PDX UTOP)] s0;
       pa \<leftarrow> PADDR (env_pgdir (envs s1 e));
       let s2 = upd_env e (\<lambda>v. v\<lparr>env_pgdir := 0\<rparr>) s1;
       p \<leftarrow> pa2page s2 pa;
       let s3 = page_decref s2 p;
       let s4 = upd_env e (\<lambda>v. v\<lparr>env_status := ENV_FREE, env_link := env_free_list s3\<rparr>) s3;
       Some (s4\<lparr>env_free_list := Some e\<rparr>)
     }"

subsection \<open>Running\<close>

definition env_pop_tf :: "kstate \<Rightarrow> kstate option" where
  "env_pop_tf s = do { c \<leftarrow> curenv s; Some (upd_env c (\<lambda>v. v\<lparr>env_cpunum := word_of_nat (cpunum s)\<rparr>) s) }"

text \<open>\<open>env_run\<close> ends in user mode; the result is the state the kernel leaves behind.\<close>

definition env_run :: "kstate \<Rightarrow> nat \<Rightarrow> kstate option" where
  "env_run s e =
     (let s1 = (case curenv s of
            None \<Rightarrow> s
          | Some c \<Rightarrow> if env_status (envs s c) = ENV_RUNNING
                      then upd_env c (\<lambda>v. v\<lparr>env_status := ENV_RUNNABLE\<rparr>) s else s);
          s2 = upd_env e (\<lambda>v. v\<lparr>env_status := ENV_RUNNING, env_runs := env_runs v + 1\<rparr>)
                 (set_curenv (Some e) s1)
      in do {
        s3 \<leftarrow> unlock_kernel s2;
        pa \<leftarrow> PADDR (env_pgdir (envs s3 e));
        env_pop_tf (s3\<lparr>cr3 := pa\<rparr>)
      })"

subsection \<open>Identifiers\<close>

lemma unat_and_not_1023: "unat (a AND NOT 1023 :: u32) = unat a - unat a mod 1024"
proof -
  have "a AND NOT (mask 10) = push_bit 10 (drop_bit 10 a)"
    by (rule bit_word_eqI) (auto simp: bit_and_iff bit_not_iff bit_mask_iff bit_push_bit_iff bit_drop_bit_eq)
  then have "a AND NOT 1023 = push_bit 10 (drop_bit 10 a)"
    by (simp add: mask_eq_exp_minus_1)
  moreover have "unat a div 1024 * 1024 < 4294967296"
    using unat_u32_bound [of a] by (metis div_times_less_eq_dividend order_le_less_trans)
  then have "unat (push_bit 10 (drop_bit 10 a) OR 0) = unat (drop_bit 10 a) * 2 ^ 10 + unat (0 :: u32)"
    by (intro unat_push_or) (simp_all add: unat_drop_bit_div)
  ultimately show ?thesis
    by (simp add: unat_drop_bit_div minus_mod_eq_div_mult)
qed

lemma new_env_id_facts:
  assumes "e < 1024"
  shows "ENVX (new_env_id old e) = word_of_nat e" "0 < sint (new_env_id old e)" "new_env_id old e \<noteq> old"
proof -
  define g where "g = (old + 4096) AND NOT (1023 :: u32)"
  define g' where "g' = (if sint g \<le> 0 then 4096 else g)"
  have new: "new_env_id old e = g' OR word_of_nat e"
    by (simp add: new_env_id_def g'_def g_def Let_def layout)
  have ug: "unat g = unat (old + 4096) - unat (old + 4096) mod 1024"
    unfolding g_def by (rule unat_and_not_1023)
  obtain k where k: "unat g' = 1024 * k" "0 < k" "k < 2097152"
  proof (cases "sint g \<le> 0")
    case True
    then show thesis using that [of 4] by (simp add: g'_def)
  next
    case False
    then have "unat g \<noteq> 0" "unat g < 2147483648"
      using sint_pos_iff [of g] by (auto simp: not_le)
    moreover have "unat g = 1024 * (unat (old + 4096) div 1024)"
      using ug by (simp add: minus_mod_eq_mult_div)
    ultimately show thesis
      using False that [of "unat (old + 4096) div 1024"] by (simp add: g'_def)
  qed
  have e: "unat (word_of_nat e :: u32) = e"
    using assms by (simp add: unat_of_nat)
  have "g' = g' AND NOT (mask 10)"
    using unat_and_not_1023 [of g'] k(1) by (simp add: word_unat_eq_iff mask_eq_exp_minus_1)
  moreover have "word_of_nat e = (word_of_nat e AND mask 10 :: u32)"
    using assms e by (simp add: word_unat_eq_iff unat_and_mask)
  ultimately have "g' AND word_of_nat e = 0"
    by (metis (no_types, opaque_lifting) and.assoc and.commute bit.conj_cancel_left and_zero_eq zero_and_eq)
  then have un: "unat (new_env_id old e) = 1024 * k + e"
    using unat_add_no_wrap [of g' "word_of_nat e"] k assms e by (simp add: new disjunctive_add_eq_or)
  show "ENVX (new_env_id old e) = word_of_nat e"
    using un e assms by (simp add: word_unat_eq_iff ENVX_def and_0x3FF unat_take_bit)
  show "0 < sint (new_env_id old e)"
    using un k assms by (simp add: sint_pos_iff)
  show "new_env_id old e \<noteq> old"
  proof
    assume "new_env_id old e = old"
    then have old: "unat old = 1024 * k + e"
      using un by simp
    then have "unat (old + 4096) = 1024 * k + e + 4096"
      using k(3) assms unat_add_no_wrap [of old 4096] by simp
    moreover have "(1024 * k + e + 4096) mod 1024 = e"
      using assms by (metis (no_types) ab_semigroup_add_class.add_ac(1) add.commute mod_less mod_mult_self2
          mult_2_right numeral_Bit0 mod_add_self2 mod_mult_self4)
    ultimately have g: "unat g = 1024 * k + 4096"
      using ug by simp
    show False
    proof (cases "sint g \<le> 0")
      case True
      then have "k = 4"
        using k(1) by (simp add: g'_def)
      with g True sint_pos_iff [of g] show False by simp
    qed (use g k(1) in \<open>simp add: g'_def\<close>)
  qed
qed
end
