(* ===== verification/Env_Space.thy ===== *)
theory Env_Space
  imports Env
begin

section \<open>Creating and destroying address spaces\<close>

text \<open>
  The reference-count invariant of page tables across the life of an environment:
  \<^verbatim>\<open>env_setup_vm\<close> adds an empty address space to the set of live ones, \<^verbatim>\<open>env_free\<close> takes one
  out and gives back every page it used.
\<close>

subsection \<open>A new directory\<close>

lemma entry_copy:
  assumes "p < 65536" "k < 65536" "f < 65536" "unat i < 1024"
    "pmem s' = copy_bytes (pmem s) (page2pa p) (page2pa k) 4096"
  shows "entry s' f i = entry s (if f = p then k else f) i"
proof -
  have r: "in_range (page2pa p) 4096 (slot (page2pa f) i + word_of_nat j) \<longleftrightarrow> f = p" if "j < 4" for j
    using assms that in_range_page [OF assms(1) _ slot_page [of "page2pa f" i j]]
    by (auto simp: page2pa_inject)
  have b: "pmem s' (slot (page2pa f) i + word_of_nat j) =
      pmem s (slot (page2pa (if f = p then k else f)) i + word_of_nat j)" if "j < 4" for j
    using r [OF that] by (auto simp: assms(5) copy_bytes_def slot_def algebra_simps)
  show ?thesis
    using b [of 0] b [of 1] b [of 2] b [of 3] by (simp add: entry_def rd32_def)
qed

lemma new_space:
  assumes inv: "vm_inv base D (p # fl) s" and np: "npages s' = npages s"
    and wf: "pages_wf s'" "free_list s' fl"
    and ref: "\<And>q. pp_ref (pages s' q) = (if q = p then 1 else pp_ref (pages s q))"
    and other: "\<And>f i. f < 65536 \<Longrightarrow> f \<noteq> p \<Longrightarrow> unat i < 1024 \<Longrightarrow> entry s' f i = entry s f i"
    and empty: "\<And>i. user_pdx i \<Longrightarrow> \<not> present (entry s' p i)"
  shows "vm_inv base (insert p D) fl s'" "same_ptes s s' D"
proof -
  note P = vm_free_page [OF inv, of p, simplified] and I = vm_invD [OF inv]
  have dir: "entry s' d i = entry s d i" if "d \<in> D" "user_pdx i" for d i
    using other [of d i] vm_dir(1) [OF inv that(1)] P(3) that user_pdx_less by auto
  have pte: "pte s' d i j = pte s d i j" if "d \<in> D" "user_pdx i" "unat j < 1024" for d i j
  proof (cases "present (entry s d i)")
    case True
    with that P(4) have "frame (entry s d i) \<noteq> p" by (auto simp: tabset_def)
    then show ?thesis
      using other [OF vm_table(1) [OF inv that(1,2) True] _ that(3)] dir that by (simp add: pte_def)
  qed (use dir that in \<open>simp add: pte_def\<close>)
  then show sp: "same_ptes s s' D"
    by (simp add: same_ptes_def)
  have tab: "tabset s' (insert p D) q = tabset s D q" for q
    using dir empty by (auto simp: tabset_def)
  have map: "mapset s' (insert p D) q = mapset s D q" for q
    using pte empty by (auto simp: mapset_def) (auto simp: pte_def split: if_splits)
  show "vm_inv base (insert p D) fl s'"
    unfolding vm_inv_def np
  proof (intro conjI ballI allI impI)
    fix q assume q: "q < unat (npages s)"
    show "unat (pp_ref (pages s' q)) =
      of_bool (q \<in> insert p D) + card (tabset s' (insert p D) q) + card (mapset s' (insert p D) q) + base q"
      using I(7) [OF q] P(3-7) by (auto simp: tab map ref)
  next
    fix d and i j :: u32 assume "d \<in> insert p D" "user_pdx i" "unat j < 1024"
    then show "if present (pte s' d i j) then frame (pte s' d i j) < unat (npages s) else pte s' d i j = 0"
      using pte I(5,6) empty by (cases "d = p") (auto simp: pte_def [of s' p])
  next
    fix q assume "q < unat (npages s)" "q \<in> insert p D \<or> tabset s' (insert p D) q \<noteq> {}"
    then show "pp_ref (pages s' q) = 1"
      using I(8) [of q] by (auto simp: tab ref)
  qed (use wf I(3,4) dir empty P(2) in auto)
qed

text \<open>\<open>kern_template base k s\<close>: the kernel's page directory is in frame \<open>k\<close>, which the kernel holds,
  and maps nothing below \<open>UTOP\<close>.\<close>

definition kern_template :: "(nat \<Rightarrow> nat) \<Rightarrow> nat \<Rightarrow> kstate \<Rightarrow> bool" where
  "kern_template base k s \<longleftrightarrow> kern_pgdir s = kpage k \<and> k < unat (npages s) \<and> base k \<noteq> 0 \<and>
     (\<forall>i. user_pdx i \<longrightarrow> \<not> present (entry s k i))"

lemma kern_template_kept:
  assumes "kern_template base k s" "kern_same base s s'" "npages s' = npages s" "kern_pgdir s' = kern_pgdir s"
    "unat (npages s) \<le> 65536"
  shows "kern_template base k s'"
  using assms user_pdx_less by (simp add: kern_template_def kern_same_def)

lemma user_pdx_UVPT: "\<not> user_pdx (PDX UVPT)" "unat (PDX UVPT) < 1024"
  by (simp_all add: user_pdx_def PDX_def layout)

lemma env_setup_vm_run:
  assumes inv: "vm_inv base D fl s" and k: "kern_template base k s"
  shows "case fl of
      [] \<Rightarrow> env_setup_vm s e = Some (- E_NO_MEM, s)
    | p # ys \<Rightarrow> \<exists>s'. env_setup_vm s e = Some (0, s') \<and> vm_inv base (insert p D) ys s' \<and> p \<notin> D \<and>
        same_ptes s s' D \<and> (\<forall>va. user_pdx (PDX va) \<longrightarrow> vmap s' p va = None) \<and>
        (\<forall>i. unat i < 1024 \<longrightarrow> entry s' p i = (if i = PDX UVPT then page2pa p OR PTE_P OR PTE_U else entry s k i)) \<and>
        envs s' = (envs s)(e := (envs s e)\<lparr>env_pgdir := kpage p\<rparr>) \<and>
        mm_frame (upd_env e (\<lambda>v. v\<lparr>env_pgdir := kpage p\<rparr>) s) s' \<and> kern_same base s s' \<and>
        (\<forall>f i. f < 65536 \<longrightarrow> f \<noteq> p \<longrightarrow> unat i < 1024 \<longrightarrow> entry s' f i = entry s f i)"
proof (cases fl)
  case Nil
  then show ?thesis
    using vm_invD(2) [OF inv] by (simp add: env_setup_vm_def page_alloc_def free_list_def)
next
  case (Cons p ys)
  note P = vm_free_page [OF inv, of p, unfolded Cons, simplified] and I = vm_invD [OF inv]
  have K: "kern_pgdir s = kpage k" "k < 65536" "k \<noteq> p" "\<And>i. user_pdx i \<Longrightarrow> \<not> present (entry s k i)"
    using k P(6) I(9) by (auto simp: kern_template_def)
  obtain s1 where al: "page_alloc s ALLOC_ZERO = Some (Some p, s1)" "pages_wf s1" "free_list s1 ys" "p \<notin> set ys"
    and pm: "pmem s1 = fill_bytes (pmem s) (page2pa p) 0 4096"
    using page_alloc_run [of s p ys ALLOC_ZERO] I(1,2) Cons by (auto simp: layout)
  note A = page_alloc_Some [OF al(1)]
  let ?s2 = "upd_env e (\<lambda>v. v\<lparr>env_pgdir := kpage p\<rparr>) s1"
  let ?s3 = "?s2\<lparr>pmem := copy_bytes (pmem s1) (page2pa p) (page2pa k) 4096\<rparr>"
  let ?s4 = "upd_page p (\<lambda>pg. pg\<lparr>pp_ref := pp_ref pg + 1\<rparr>) ?s3"
  let ?s' = "kst (slot (kpage p) (PDX UVPT)) (page2pa p OR PTE_P OR PTE_U) ?s4"
  have np: "npages s1 = npages s" "kern_pgdir s1 = kpage k" "envs s1 = envs s"
    using mm_frame_sel [OF A(5)] K(1) by simp_all
  have "page2kva s1 p = Some (kpage p)"
    using P(2) I(9) np by (simp add: page2kva_kpage)
  moreover have "pp_ref (pages ?s4 p) = 1"
    using A(3) by simp
  ultimately have run: "env_setup_vm s e = Some (0, ?s')"
    using al(1) np by (simp add: env_setup_vm_def PADDR_kpage [OF P(1)]) (simp add: kpage_def)
  have e: "entry ?s' f i = (if f = p then if i = PDX UVPT then page2pa p OR PTE_P OR PTE_U else entry s k i
      else entry s f i)" if "f < 65536" "unat i < 1024" for f i
    using entry_kst [OF P(1) that(1) user_pdx_UVPT(2) that(2)] entry_pmem_cong [of ?s4 ?s3]
      entry_copy [OF P(1) K(2) that, of ?s3 s1] entry_fill [OF P(1) _ that(2) pm] K(2,3) that(1)
    by (cases "f = p") simp_all
  have ref: "pp_ref (pages ?s' q) = (if q = p then 1 else pp_ref (pages s q))" for q
    using A(3) by simp
  have wf: "pages_wf ?s'" "free_list ?s' ys"
    using al by (auto simp: free_list_def)
  have empty: "\<not> present (entry ?s' p i)" if "user_pdx i" for i
    using e [OF P(1) user_pdx_less [OF that]] K(4) [OF that] that user_pdx_UVPT(1) by auto
  have sp: "vm_inv base (insert p D) ys ?s'" "same_ptes s ?s' D"
    by (rule new_space [OF inv [unfolded Cons] _ wf ref _ empty]; use e np in simp)+
  have "vmap ?s' p va = None" if "user_pdx (PDX va)" for va
    using empty [OF that] by (simp add: vmap_def pte_def)
  moreover have "kern_same base s ?s'"
    unfolding kern_same_def using e P(6) by (auto simp del: kst_sel)
  moreover have "mm_frame (upd_env e (\<lambda>v. v\<lparr>env_pgdir := kpage p\<rparr>) s) ?s'"
    using A(5) by (simp add: mm_frame_def upd_env_def upd_page_def kst_def)
  ultimately show ?thesis
    using Cons run sp P(3) e np by (simp add: P(1) del: kst_sel) (simp add: upd_env_def)
qed

subsection \<open>Pages given back\<close>

text \<open>\<open>released s fl s' fl'\<close>: between the two states no page came into use, and the free list \<open>fl'\<close> is the
  list \<open>fl\<close> with exactly the pages that went out of use put in front of it.\<close>

definition released :: "kstate \<Rightarrow> nat list \<Rightarrow> kstate \<Rightarrow> nat list \<Rightarrow> bool" where
  "released s fl s' fl' \<longleftrightarrow> (\<forall>p. pp_ref (pages s p) = 0 \<longrightarrow> pp_ref (pages s' p) = 0) \<and>
     (\<exists>xs. fl' = xs @ fl \<and> set xs = {p. pp_ref (pages s p) \<noteq> 0 \<and> pp_ref (pages s' p) = 0})"

lemma released_refl: "(\<And>p. pp_ref (pages s' p) = pp_ref (pages s p)) \<Longrightarrow> released s fl s' fl"
  by (simp add: released_def)

lemma released_one:
  assumes "\<And>q. pp_ref (pages s' q) = (if q = p then 0 else pp_ref (pages s q))" "pp_ref (pages s p) \<noteq> 0"
  shows "released s fl s' (p # fl)"
proof -
  have "set [p] = {q. pp_ref (pages s q) \<noteq> 0 \<and> pp_ref (pages s' q) = 0}"
    using assms by auto
  then show ?thesis
    unfolding released_def using assms(1) by (metis append_Cons append_Nil)
qed

lemma released_trans:
  assumes "released s fl t fl1" "released t fl1 u fl2"
  shows "released s fl u fl2"
proof -
  obtain xs ys where x: "fl1 = xs @ fl" "set xs = {p. pp_ref (pages s p) \<noteq> 0 \<and> pp_ref (pages t p) = 0}"
    and y: "fl2 = ys @ fl1" "set ys = {p. pp_ref (pages t p) \<noteq> 0 \<and> pp_ref (pages u p) = 0}"
    using assms by (auto simp: released_def)
  have m: "pp_ref (pages s p) = 0 \<Longrightarrow> pp_ref (pages t p) = 0" "pp_ref (pages t p) = 0 \<Longrightarrow> pp_ref (pages u p) = 0" for p
    using assms by (auto simp: released_def)
  have "fl2 = (ys @ xs) @ fl" "set (ys @ xs) = {p. pp_ref (pages s p) \<noteq> 0 \<and> pp_ref (pages u p) = 0}"
    using x y m by auto
  with m show ?thesis
    unfolding released_def by blast
qed

lemma released_cong:
  assumes "pages s' = pages s" "pages t' = pages t"
  shows "released s' fl t' fl' = released s fl t fl'"
  using assms by (simp add: released_def)

lemma released_decr:
  assumes "\<And>q. pp_ref (pages s' q) = (if q = p then pp_ref (pages s q) - 1 else pp_ref (pages s q))"
    "pp_ref (pages s p) \<noteq> 0"
  shows "released s fl s' (if pp_ref (pages s p) = 1 then p # fl else fl)"
proof (cases "pp_ref (pages s p) = 1")
  case True
  then have "\<And>q. pp_ref (pages s' q) = (if q = p then 0 else pp_ref (pages s q))"
    using assms(1) by simp
  then show ?thesis
    using True released_one [of s' p s fl] by simp
next
  case False
  then show ?thesis
    using assms by (auto simp: released_def)
qed

subsection \<open>Dropping a table, dropping a directory\<close>

lemma drop_table:
  assumes inv: "vm_inv base D fl s" and d: "d \<in> D" "user_pdx i" "present (entry s d i)"
    and t: "t = frame (entry s d i)" and zero: "\<And>j. unat j < 1024 \<Longrightarrow> pte s d i j = 0"
    and s': "s' = page_decref (kst (slot (kpage d) i) 0 s) t"
  shows "vm_inv base D (t # fl) s'" "same_ptes s s' D" "kern_same base s s'"
    "\<And>d' i'. d' \<in> D \<Longrightarrow> user_pdx i' \<Longrightarrow> entry s' d' i' = (if d' = d \<and> i' = i then 0 else entry s d' i')"
    "released s fl s' (t # fl)"
proof -
  let ?s1 = "kst (slot (kpage d) i) 0 s"
  note T = vm_table [OF inv d, folded t] and Dr = vm_dir [OF inv d(1)] and I = vm_invD [OF inv]
  have wf1: "pages_wf ?s1" "t < unat (npages ?s1)" "free_list ?s1 fl" "pp_ref (pages ?s1 t) = 1"
    using I(1,2) T(2,6) by simp_all
  have e': "entry s' = entry ?s1"
    unfolding s' by (rule entry_pmem_cong, rule page_decref_ref(2) [OF wf1(1,2)])
  have e: "entry s' f k = (if f = d \<and> k = i then 0 else entry s f k)" if "f < 65536" "unat k < 1024" for f k
    using entry_kst [OF Dr(1) that(1) user_pdx_less [OF d(2)] that(2)] by (simp add: e')
  show "kern_same base s s'"
    unfolding kern_same_def using e Dr(5) by auto
  show dir: "entry s' d' i' = (if d' = d \<and> i' = i then 0 else entry s d' i')" if "d' \<in> D" "user_pdx i'" for d' i'
    using e [of d' i'] vm_dir(1) [OF inv that(1)] user_pdx_less [OF that(2)] by simp
  have pte: "pte s' d' i' j' = pte s d' i' j'" if "d' \<in> D" "user_pdx i'" "unat j' < 1024" for d' i' j'
  proof (cases "d' = d \<and> i' = i")
    case True
    then show ?thesis
      using dir [OF that(1,2)] zero [OF that(3)] by (simp add: pte_def [of s'])
  next
    case False
    then have same: "entry s' d' i' = entry s d' i'"
      using dir [OF that(1,2)] by auto
    show ?thesis
    proof (cases "present (entry s d' i')")
      case True
      then have "frame (entry s d' i') \<noteq> d" "frame (entry s d' i') < 65536"
        using vm_table(1,3) [OF inv that(1,2)] d(1) by auto
      then show ?thesis
        using same e [OF _ that(3)] by (simp add: pte_def)
    qed (simp add: pte_def same)
  qed
  then show sp: "same_ptes s s' D"
    by (simp add: same_ptes_def)
  have tab: "tabset s' D q = (if q = t then {} else tabset s D q)" for q
    using dir d t T(7) by (auto simp: tabset_def split: if_splits)
  have ref: "pp_ref (pages s' q) = (if q = t then 0 else pp_ref (pages s q))" for q
    using page_decref_ref(1) [OF wf1(1,2)] wf1(4) by (simp add: s')
  have np: "npages s' = npages s"
    using mm_frame_sel(1) [OF page_decref_mm_frame, of ?s1 t] by (simp add: s')
  have wf: "pages_wf s'" "free_list s' (t # fl)"
    using page_decref_pages_wf [OF wf1(1)] page_decref_free_list [OF wf1(1-3)] wf1(4) by (simp_all add: s')
  show "released s fl s' (t # fl)"
    by (rule released_one [OF ref]) (simp add: T(6))
  have one: "card (tabset s D t) = 1"
    using I(7) [OF T(2)] T(3-6) by simp
  show "vm_inv base D (t # fl) s'"
    unfolding vm_inv_def np
  proof (intro conjI ballI allI impI)
    fix q assume q: "q < unat (npages s)"
    show "unat (pp_ref (pages s' q)) = of_bool (q \<in> D) + card (tabset s' D q) + card (mapset s' D q) + base q"
      using I(7) [OF q] T(3-5) by (simp add: tab ref mapset_same_ptes [OF sp])
  next
    fix q assume q: "q < unat (npages s)" "q \<in> D \<or> tabset s' D q \<noteq> {}"
    then show "pp_ref (pages s' q) = 1"
      using I(8) [of q] T(3) by (auto simp: tab ref split: if_splits)
  qed (use wf I(3-6) dir pte in \<open>auto split: if_splits\<close>)
qed

lemma drop_space:
  assumes inv: "vm_inv base D fl s" and d: "d \<in> D" "\<And>i. user_pdx i \<Longrightarrow> \<not> present (entry s d i)"
  shows "vm_inv base (D - {d}) (d # fl) (page_decref s d)" "released s fl (page_decref s d) (d # fl)"
proof -
  let ?s' = "page_decref s d"
  note Dr = vm_dir [OF inv d(1)] and I = vm_invD [OF inv]
  have e: "entry ?s' = entry s"
    by (rule entry_pmem_cong, rule page_decref_ref(2) [OF I(1) Dr(2)])
  have ref: "pp_ref (pages ?s' q) = (if q = d then 0 else pp_ref (pages s q))" for q
    using page_decref_ref(1) [OF I(1) Dr(2)] Dr(6) by simp
  have np: "npages ?s' = npages s"
    using mm_frame_sel(1) [OF page_decref_mm_frame] .
  have wf: "pages_wf ?s'" "free_list ?s' (d # fl)"
    using page_decref_pages_wf [OF I(1)] page_decref_free_list [OF I(1) Dr(2) I(2)] Dr(6) by simp_all
  show "released s fl ?s' (d # fl)"
    by (rule released_one [OF ref]) (simp add: Dr(6))
  have tab: "tabset s (D - {d}) = tabset s D" and map: "mapset s (D - {d}) = mapset s D"
    using d(2) by (auto simp: tabset_def mapset_def pte_def fun_eq_iff split: if_splits)
  show "vm_inv base (D - {d}) (d # fl) ?s'"
    unfolding vm_inv_def np e pte_cong [OF e] tab map
  proof (intro conjI ballI allI impI)
    fix q assume q: "q < unat (npages s)"
    show "unat (pp_ref (pages ?s' q)) = of_bool (q \<in> D - {d}) + card (tabset s D q) + card (mapset s D q) + base q"
      using I(7) [OF q] Dr(3-5) by (simp add: ref)
  next
    fix q assume q: "q < unat (npages s)" "q \<in> D - {d} \<or> tabset s D q \<noteq> {}"
    then show "pp_ref (pages ?s' q) = 1"
      using I(8) [of q] Dr(3) by (auto simp: ref)
  qed (use wf I(3-6) in auto)
qed

subsection \<open>\<^verbatim>\<open>env_free\<close>\<close>

text \<open>\<open>cleared s s' D d A\<close>: the page table entries are those of \<open>s\<close>, except that those of \<open>d\<close> at the
  positions in \<open>A\<close> are now zero.\<close>

definition cleared :: "kstate \<Rightarrow> kstate \<Rightarrow> nat set \<Rightarrow> nat \<Rightarrow> (u32 \<times> u32) set \<Rightarrow> bool" where
  "cleared s s' D d A \<longleftrightarrow> (\<forall>d' \<in> D. \<forall>i j. user_pdx i \<longrightarrow> unat j < 1024 \<longrightarrow>
     pte s' d' i j = (if d' = d \<and> (i, j) \<in> A then 0 else pte s d' i j))"

lemma clearedD:
  "cleared s s' D d A \<Longrightarrow> d' \<in> D \<Longrightarrow> user_pdx i \<Longrightarrow> unat j < 1024 \<Longrightarrow>
     pte s' d' i j = (if d' = d \<and> (i, j) \<in> A then 0 else pte s d' i j)"
  by (simp add: cleared_def)

lemma cleared_empty [simp]: "cleared s s D d {}"
  by (simp add: cleared_def)

lemma cleared_trans:
  assumes "cleared s t D d A" "cleared t u D d B"
  shows "cleared s u D d (A \<union> B)"
  unfolding cleared_def
proof (intro ballI allI impI)
  fix d' and i j :: u32 assume x: "d' \<in> D" "user_pdx i" "unat j < 1024"
  show "pte u d' i j = (if d' = d \<and> (i, j) \<in> A \<union> B then 0 else pte s d' i j)"
    using clearedD [OF assms(1) x] clearedD [OF assms(2) x] by auto
qed

lemma cleared_cong:
  assumes "cleared s s' D d A" "\<And>i j. user_pdx i \<Longrightarrow> unat j < 1024 \<Longrightarrow> (i, j) \<in> A \<longleftrightarrow> (i, j) \<in> B"
  shows "cleared s s' D d B"
  using assms by (simp add: cleared_def)

lemma same_ptes_cleared: "same_ptes s s' D \<Longrightarrow> cleared s s' D d {}"
  by (simp add: same_ptes_def cleared_def)

lemma upd_at_cleared: "upd_at s s' D d i j 0 \<Longrightarrow> cleared s s' D d {(i, j)}"
  by (simp add: upd_at_def cleared_def)

lemma same_dirs_trans: "same_dirs s t D \<Longrightarrow> same_dirs t u D \<Longrightarrow> same_dirs s u D"
  by (simp add: same_dirs_def)

lemma env_free_pte_run:
  assumes inv: "vm_inv base D fl s" and d: "d \<in> D" "user_pdx i" "present (entry s d i)"
    and t: "t = frame (entry s d i)" and k: "k < 1024"
  shows "\<exists>s' fl'. env_free_pte (kpage d) (kpage t) i k s = Some s' \<and> vm_inv base D fl' s' \<and> mm_frame s s' \<and>
    kern_same base s s' \<and> upd_at s s' D d i (word_of_nat k) 0 \<and> released s fl s' fl'"
proof -
  let ?j = "word_of_nat k :: u32" and ?va = "PGADDR i (word_of_nat k) 0"
  have j: "unat ?j < 1024"
    using k by (simp add: unat_of_nat)
  have va: "PDX ?va = i" "PTX ?va = ?j"
    using PDX_PGADDR [OF user_pdx_less [OF d(2)] j, of 0] by simp_all
  have e: "kld s (slot (kpage t) ?j) = pte s d i ?j"
    using d t by (simp add: kld_kpage pte_def)
  show ?thesis
  proof (cases "present (pte s d i ?j)")
    case True
    then have m: "vmap s d ?va = Some (pte s d i ?j)"
      by (simp add: vmap_eq_Some va)
    have u: "user_pdx (PDX ?va)"
      using va d by simp
    let ?p = "frame (pte s d i ?j)"
    from page_remove_mapped [OF inv d(1) u m] obtain s' where
      r: "page_remove s (kpage d) ?va = Some s'" "vm_inv base D (if pp_ref (pages s ?p) = 1 then ?p # fl else fl) s'"
        "upd_at s s' D d (PDX ?va) (PTX ?va) 0" "mm_frame s s'" "kern_same base s s'"
        "\<And>q. pp_ref (pages s' q) = (if q = ?p then pp_ref (pages s q) - 1 else pp_ref (pages s q))" by blast
    have "released s fl s' (if pp_ref (pages s ?p) = 1 then ?p # fl else fl)"
      by (rule released_decr [OF r(6) vm_mapped(4) [OF inv d(1,2) j True]])
    moreover have "env_free_pte (kpage d) (kpage t) i k s = Some s'"
      using r(1) True e by (simp add: env_free_pte_def PTE_P_test)
    ultimately show ?thesis
      using r(2-5) va by (intro exI [of _ s'] exI [of _ "if pp_ref (pages s ?p) = 1 then ?p # fl else fl"]) simp
  next
    case False
    then have "pte s d i ?j = 0"
      using vm_invD(6) [OF inv d(1,2) j] by simp
    then have "upd_at s s D d i ?j 0"
      by (auto simp: upd_at_def same_dirs_def)
    with False inv e released_refl [of s s fl] show ?thesis
      by (auto simp: env_free_pte_def PTE_P_test)
  qed
qed

lemma env_free_ptes_run:
  assumes inv: "vm_inv base D fl s" and d: "d \<in> D" "user_pdx i" "present (entry s d i)"
    and t: "t = frame (entry s d i)"
  shows "\<exists>s' fl'. for_each (env_free_pte (kpage d) (kpage t) i) [0..<1024] s = Some s' \<and> vm_inv base D fl' s' \<and>
    mm_frame s s' \<and> kern_same base s s' \<and> same_dirs s s' D \<and> cleared s s' D d ({i} \<times> UNIV) \<and> released s fl s' fl'"
proof -
  define P where "P = (\<lambda>k s'. (\<exists>fl'. vm_inv base D fl' s' \<and> released s fl s' fl') \<and> mm_frame s s' \<and> kern_same base s s' \<and> same_dirs s s' D \<and>
    cleared s s' D d ({i} \<times> {j. unat j < k}))"
  have "P 0 s"
    using inv released_refl [of s s fl] by (auto simp: P_def same_dirs_def)
  moreover have "\<exists>s''. env_free_pte (kpage d) (kpage t) i k s' = Some s'' \<and> P (Suc k) s''" if k: "k < 1024" "P k s'" for k s'
  proof -
    from k(2) obtain fl' where p: "vm_inv base D fl' s'" "mm_frame s s'" "same_dirs s s' D"
      "cleared s s' D d ({i} \<times> {j. unat j < k})" "kern_same base s s'" "released s fl s' fl'" by (auto simp: P_def)
    from p(3) d t have e: "present (entry s' d i)" "t = frame (entry s' d i)"
      by (auto simp: same_dirs_def)
    from env_free_pte_run [OF p(1) d(1,2) e k(1)] obtain s'' fl'' where
      q: "env_free_pte (kpage d) (kpage t) i k s' = Some s''" "vm_inv base D fl'' s''" "mm_frame s' s''"
        "upd_at s' s'' D d i (word_of_nat k) 0" "kern_same base s' s''" "released s' fl' s'' fl''" by blast
    have "cleared s s'' D d ({i} \<times> {j. unat j < k} \<union> {(i, word_of_nat k)})"
      by (rule cleared_trans [OF p(4) upd_at_cleared [OF q(4)]])
    then have "cleared s s'' D d ({i} \<times> {j. unat j < Suc k})"
      by (rule cleared_cong) (use k(1) in \<open>auto simp: less_Suc_eq unat_of_nat word_unat_eq_iff\<close>)
    moreover have "same_dirs s s'' D"
      using q(4) same_dirs_trans [OF p(3)] by (simp add: upd_at_def)
    ultimately have "P (Suc k) s''"
      unfolding P_def using q(2) mm_frame_trans [OF p(2) q(3)] kern_same_trans [OF p(5) q(5)]
        released_trans [OF p(6) q(6)] by blast
    with q(1) show ?thesis by blast
  qed
  ultimately obtain s' where s': "for_each (env_free_pte (kpage d) (kpage t) i) [0..<1024] s = Some s'" "P 1024 s'"
    using for_each_upt [of P s 1024 "env_free_pte (kpage d) (kpage t) i"] by blast
  then have p: "\<exists>fl'. vm_inv base D fl' s' \<and> released s fl s' fl'" "mm_frame s s'" "same_dirs s s' D"
    "cleared s s' D d ({i} \<times> {j. unat j < 1024})" "kern_same base s s'" by (simp_all only: P_def)
  have "cleared s s' D d ({i} \<times> UNIV)"
    by (rule cleared_cong [OF p(4)]) simp
  with s'(1) p show ?thesis by blast
qed

lemma env_free_pde_run:
  assumes inv: "vm_inv base D fl s" and d: "d \<in> D" "user_pdx i" and k: "i = word_of_nat k"
  shows "\<exists>s' fl'. env_free_pde (kpage d) k s = Some s' \<and> vm_inv base D fl' s' \<and> mm_frame s s' \<and>
    kern_same base s s' \<and> \<not> present (entry s' d i) \<and>
    (\<forall>i'. user_pdx i' \<longrightarrow> \<not> present (entry s d i') \<longrightarrow> \<not> present (entry s' d i')) \<and>
    cleared s s' D d ({i} \<times> UNIV) \<and> released s fl s' fl' \<and> same_dirs s s' (D - {d})"
proof (cases "present (entry s d i)")
  case False
  then have "cleared s s D d ({i} \<times> UNIV)"
    by (auto simp: cleared_def pte_def)
  moreover have "same_dirs s s (D - {d})"
    by (simp add: same_dirs_def)
  ultimately show ?thesis
    using False inv k released_refl [of s s fl] by (auto simp: env_free_pde_def kld_kpage PTE_P_test)
next
  case True
  let ?t = "frame (entry s d i)"
  note T = vm_table [OF inv d True] and I = vm_invD [OF inv]
  have pa: "KADDR s (PTE_ADDR (entry s d i)) = Some (kpage ?t)"
    using page2kva_kpage [OF T(2) I(9)] by (simp add: page2kva_def frame_def page2pa_PGNUM)
  from env_free_ptes_run [OF inv d True refl] obtain s1 fl1 where
    L: "for_each (env_free_pte (kpage d) (kpage ?t) i) [0..<1024] s = Some s1" "vm_inv base D fl1 s1"
      "mm_frame s s1" "same_dirs s s1 D" "cleared s s1 D d ({i} \<times> UNIV)" "kern_same base s s1"
      "released s fl s1 fl1" by blast
  have e1: "present (entry s1 d i)" "?t = frame (entry s1 d i)"
    using L(4) d True by (auto simp: same_dirs_def)
  have zero: "pte s1 d i j = 0" if "unat j < 1024" for j
    using clearedD [OF L(5) d that] by simp
  define s' where "s' = page_decref (kst (slot (kpage d) i) 0 s1) ?t"
  have N: "vm_inv base D (?t # fl1) s'" "same_ptes s1 s' D"
    "\<And>d' i'. d' \<in> D \<Longrightarrow> user_pdx i' \<Longrightarrow> entry s' d' i' = (if d' = d \<and> i' = i then 0 else entry s1 d' i')"
    and K: "kern_same base s1 s'" and R: "released s1 fl1 s' (?t # fl1)"
    by (rule drop_table [OF L(2) d e1 zero s'_def]; assumption)+
  have "pa2page (kst (slot (kpage d) i) 0 s1) (PTE_ADDR (entry s d i)) = Some ?t"
    using T(2) mm_frame_sel(1) [OF L(3)]
      pa2page_frame [of "PTE_ADDR (entry s d i)" "kst (slot (kpage d) i) 0 s1"] by (simp add: frame_def)
  then have "env_free_pde (kpage d) k s = Some s'"
    using True pa L(1) k by (simp add: env_free_pde_def kld_kpage PTE_P_test s'_def)
  moreover have "mm_frame s s'"
    unfolding s'_def by (rule mm_frame_trans [OF _ page_decref_mm_frame]) (simp add: L(3))
  moreover have "\<not> present (entry s' d i')" if "user_pdx i'" "\<not> present (entry s d i')" for i'
    using N(3) [OF d(1) that(1)] L(4) d(1) that by (auto simp: same_dirs_def)
  moreover have "cleared s s' D d ({i} \<times> UNIV)"
    using cleared_trans [OF L(5) same_ptes_cleared [OF N(2)]] by simp
  moreover have "same_dirs s s' (D - {d})"
    using L(4) N(3) by (auto simp: same_dirs_def)
  ultimately show ?thesis
    using N(1) N(3) [OF d] kern_same_trans [OF L(6) K] released_trans [OF L(7) R] by (intro exI [of _ s'] exI [of _ "?t # fl1"]) simp
qed

lemma env_free_pdes_run:
  assumes inv: "vm_inv base D fl s" and d: "d \<in> D"
  shows "\<exists>s' fl'. for_each (env_free_pde (kpage d)) [0..<unat (PDX UTOP)] s = Some s' \<and> vm_inv base D fl' s' \<and>
    mm_frame s s' \<and> kern_same base s s' \<and> (\<forall>i. user_pdx i \<longrightarrow> \<not> present (entry s' d i)) \<and> cleared s s' D d UNIV \<and>
    released s fl s' fl' \<and> same_dirs s s' (D - {d})"
proof -
  define P where "P = (\<lambda>k s'. (\<exists>fl'. vm_inv base D fl' s' \<and> released s fl s' fl') \<and> mm_frame s s' \<and>
    kern_same base s s' \<and> same_dirs s s' (D - {d}) \<and>
    (\<forall>i. user_pdx i \<longrightarrow> unat i < k \<longrightarrow> \<not> present (entry s' d i)) \<and> cleared s s' D d ({i. unat i < k} \<times> UNIV))"
  have "P 0 s"
    using inv released_refl [of s s fl] by (auto simp: P_def same_dirs_def)
  moreover have "\<exists>s''. env_free_pde (kpage d) k s' = Some s'' \<and> P (Suc k) s''"
    if k: "k < unat (PDX UTOP)" "P k s'" for k s'
  proof -
    let ?i = "word_of_nat k :: u32"
    from k(2) obtain fl' where p: "vm_inv base D fl' s'" "mm_frame s s'"
      "\<And>i. user_pdx i \<Longrightarrow> unat i < k \<Longrightarrow> \<not> present (entry s' d i)"
      "cleared s s' D d ({i. unat i < k} \<times> UNIV)" "kern_same base s s'" "released s fl s' fl'"
      "same_dirs s s' (D - {d})" unfolding P_def by blast
    have ki: "unat ?i = k"
      using less_trans [OF k(1) PDX_less] by (simp add: unat_of_nat)
    then have u: "user_pdx ?i"
      using k(1) by (simp add: user_pdx_def word_less_nat_alt)
    from env_free_pde_run [OF p(1) d u refl] obtain s'' fl'' where
      q: "env_free_pde (kpage d) k s' = Some s''" "vm_inv base D fl'' s''" "mm_frame s' s''"
        "\<not> present (entry s'' d ?i)"
        "\<And>i'. user_pdx i' \<Longrightarrow> \<not> present (entry s' d i') \<Longrightarrow> \<not> present (entry s'' d i')"
        "cleared s' s'' D d ({?i} \<times> UNIV)" "kern_same base s' s''" "released s' fl' s'' fl''"
        "same_dirs s' s'' (D - {d})" by blast
    have "cleared s s'' D d ({i. unat i < Suc k} \<times> UNIV)"
      by (rule cleared_cong [OF cleared_trans [OF p(4) q(6)]])
        (use ki in \<open>auto simp: less_Suc_eq word_unat_eq_iff\<close>)
    moreover have "\<not> present (entry s'' d i)" if "user_pdx i" "unat i < Suc k" for i
      using that p(3) q(4,5) ki by (cases "unat i = k") (auto simp: less_Suc_eq word_unat_eq_iff)
    ultimately have "P (Suc k) s''"
      unfolding P_def using q(2) mm_frame_trans [OF p(2) q(3)] kern_same_trans [OF p(5) q(7)]
        released_trans [OF p(6) q(8)] same_dirs_trans [OF p(7) q(9)] by blast
    with q(1) show ?thesis by blast
  qed
  ultimately obtain s' where s': "for_each (env_free_pde (kpage d)) [0..<unat (PDX UTOP)] s = Some s'"
      "P (unat (PDX UTOP)) s'"
    using for_each_upt [of P s "unat (PDX UTOP)" "env_free_pde (kpage d)"] by blast
  then have p: "\<exists>fl'. vm_inv base D fl' s' \<and> released s fl s' fl'" "mm_frame s s'"
    "\<And>i. user_pdx i \<Longrightarrow> unat i < unat (PDX UTOP) \<Longrightarrow> \<not> present (entry s' d i)"
    "cleared s s' D d ({i. unat i < unat (PDX UTOP)} \<times> UNIV)" "kern_same base s s'"
    "same_dirs s s' (D - {d})" unfolding P_def by blast+
  have u: "unat i < unat (PDX UTOP)" if "user_pdx i" for i
    using that by (simp add: user_pdx_def word_less_nat_alt)
  have "cleared s s' D d UNIV"
    by (rule cleared_cong [OF p(4)]) (simp add: u)
  with s'(1) p u show ?thesis by blast
qed

lemma vmap_cleared:
  assumes "cleared s s' D d A" "d' \<in> D" "d' \<noteq> d" "user_pdx (PDX va)"
  shows "vmap s' d' va = vmap s d' va"
  using clearedD [OF assms(1,2,4) PTX_less] assms(3) by (simp add: vmap_def)

lemma env_free_run:
  assumes inv: "vm_inv base D fl s" and d: "d \<in> D" and e: "env_pgdir (envs s e) = kpage d"
    and k: "KERNBASE \<le> kern_pgdir s"
  shows "\<exists>s' fl'. env_free s e = Some s' \<and> vm_inv base (D - {d}) (d # fl') s' \<and>
    envs s' = (envs s)(e := (envs s e)\<lparr>env_pgdir := 0, env_status := ENV_FREE, env_link := env_free_list s\<rparr>) \<and>
    env_free_list s' = Some e \<and> cpus s' = cpus s \<and> cpunum s' = cpunum s \<and> kern_pgdir s' = kern_pgdir s \<and>
    kernel_lock s' = kernel_lock s \<and> npages s' = npages s \<and> kern_same base s s' \<and>
    cr3 s' = (if curenv s = Some e then kern_pgdir s - KERNBASE else cr3 s) \<and>
    (\<forall>d' \<in> D - {d}. \<forall>va. user_pdx (PDX va) \<longrightarrow> vmap s' d' va = vmap s d' va) \<and>
    released s fl s' (d # fl') \<and> same_dirs s s' (D - {d}) \<and> same_ptes s s' (D - {d})"
proof -
  let ?s0 = "if curenv s = Some e then s\<lparr>cr3 := kern_pgdir s - KERNBASE\<rparr> else s"
  have inv0: "vm_inv base D fl ?s0"
    using inv by simp
  from env_free_pdes_run [OF inv0 d] obtain s1 fl1 where
    L: "for_each (env_free_pde (kpage d)) [0..<unat (PDX UTOP)] ?s0 = Some s1" "vm_inv base D fl1 s1"
      "mm_frame ?s0 s1" "\<And>i. user_pdx i \<Longrightarrow> \<not> present (entry s1 d i)" "cleared ?s0 s1 D d UNIV"
      "kern_same base ?s0 s1" "released ?s0 fl s1 fl1" "same_dirs ?s0 s1 (D - {d})" by blast
  note Dr = vm_dir [OF L(2) d]
  let ?s2 = "upd_env e (\<lambda>v. v\<lparr>env_pgdir := 0\<rparr>) s1"
  let ?s3 = "page_decref ?s2 d"
  let ?s' = "(upd_env e (\<lambda>v. v\<lparr>env_status := ENV_FREE, env_link := env_free_list ?s3\<rparr>) ?s3)\<lparr>env_free_list := Some e\<rparr>"
  note F = mm_frame_sel [OF L(3)] and G = mm_frame_sel [OF page_decref_mm_frame, of ?s2 d]
  have s0: "(if curenv s = Some e then do { pa \<leftarrow> PADDR (kern_pgdir s); Some (s\<lparr>cr3 := pa\<rparr>) } else Some s) = Some ?s0"
    using leD [OF k] by (simp add: PADDR_def)
  have pg: "env_pgdir (envs ?s0 e) = kpage d" "env_pgdir (envs s1 e) = kpage d"
    using e F(3) by auto
  have "pa2page ?s2 (page2pa d) = Some d"
    using Dr(2) vm_invD(9) [OF L(2)] by (simp add: pa2page_page2pa)
  then have run: "env_free s e = Some ?s'"
    unfolding env_free_def s0 using pg L(1) by (simp add: PADDR_kpage [OF Dr(1)] Let_def)
  have "vm_inv base D fl1 ?s2" "\<And>i. user_pdx i \<Longrightarrow> \<not> present (entry ?s2 d i)"
    using L(2,4) by simp_all
  then have D: "vm_inv base (D - {d}) (d # fl1) ?s3" "released ?s2 fl1 ?s3 (d # fl1)"
    using drop_space d by blast+
  have "released ?s0 fl ?s2 fl1"
    using L(7) by (simp add: released_def)
  from released_trans [OF this D(2)] have rel: "released s fl ?s' (d # fl1)"
    by (subst (asm) released_cong [of _ s ?s3 ?s3]) (simp_all add: released_cong [of s s ?s' ?s3])
  from D(1) have inv': "vm_inv base (D - {d}) (d # fl1) ?s'"
    by simp
  have e3: "entry ?s3 = entry ?s2"
    by (rule entry_pmem_cong, rule page_decref_ref(2)) (use vm_invD(1) [OF L(2)] Dr(2) in simp_all)
  have E: "entry ?s0 = entry s" "entry ?s' = entry s1"
    using e3 by (simp_all add: entry_def fun_eq_iff)
  then have same: "kern_same base s ?s'"
    using L(6) by (simp add: kern_same_def)
  have vm: "vmap ?s' d' va = vmap s d' va" if "d' \<in> D - {d}" "user_pdx (PDX va)" for d' va
  proof -
    have "vmap ?s' d' va = vmap s1 d' va"
      using e3 by (simp add: vmap_def pte_def)
    also have "\<dots> = vmap ?s0 d' va"
      by (rule vmap_cleared [OF L(5)]) (use that in auto)
    finally show ?thesis by simp
  qed
  have ptes: "same_ptes s ?s' (D - {d})"
  proof -
    show ?thesis
      using L(5) unfolding same_ptes_def cleared_def pte_cong [OF E(1)] pte_cong [OF E(2)] by simp
  qed
  have dirs: "same_dirs s ?s' (D - {d})"
    using L(8) unfolding same_dirs_def E .
  have "kernel_lock ?s' = kernel_lock s"
    using L(3) page_decref_mm_frame [of ?s2 d] by (simp add: mm_frame_def)
  then show ?thesis
    using run inv' vm F G same rel ptes dirs by (intro exI [of _ ?s'] exI [of _ fl1]) (auto simp: fun_eq_iff)
qed

end
