(* ===== verification/Env_Table.thy ===== *)
theory Env_Table
  imports Env_Space
begin

section \<open>The environment table\<close>

text \<open>
  Identifiers, the free list of \<^verbatim>\<open>envs[]\<close>, and what allocating and freeing an environment does to
  the table: the frame conditions of the memory operations, the interpretation of the free-list
  interface, and the properties of \<^verbatim>\<open>envid2env\<close>, \<^verbatim>\<open>env_init\<close>, \<^verbatim>\<open>env_alloc\<close> and \<^verbatim>\<open>env_free\<close>.
\<close>

subsection \<open>Memory operations touch only memory management\<close>

lemma page_alloc_mm_frame: "page_alloc s f = Some (r, s1) \<Longrightarrow> mm_frame s s1"
  by (cases r) (auto simp: page_alloc_None dest: page_alloc_Some(5))

lemma pgdir_walk_mm_frame: "pgdir_walk s g va c = Some (p, s') \<Longrightarrow> mm_frame s s'"
  using page_alloc_mm_frame
  by (fastforce simp: pgdir_walk_def Let_def split: if_splits bind_splits option.splits)

lemma page_remove_mm_frame: "page_remove s g va = Some s' \<Longrightarrow> mm_frame s s'"
  by (auto simp: page_remove_def Let_def split: if_splits bind_splits option.splits prod.splits)

lemma page_insert_mm_frame:
  assumes "page_insert s g pp va perm = Some (r, s')"
  shows "mm_frame s s'"
proof -
  obtain ptep s1 where w: "pgdir_walk s g va True = Some (ptep, s1)"
    using assms by (auto simp: page_insert_def split: bind_splits)
  note f1 = pgdir_walk_mm_frame [OF w]
  have "mm_frame s s''" if "page_remove (upd_page p h (kst a v s1)) g va = Some s''" for s'' p h a v
    by (rule mm_frame_trans [OF _ page_remove_mm_frame [OF that]]) (simp add: f1)
  then show ?thesis
    using assms w f1
    by (auto simp: page_insert_def Let_def split: if_splits bind_splits option.splits)
qed

lemma for_each_rel:
  assumes "\<And>s. R s s" "\<And>a b c. R a b \<Longrightarrow> R b c \<Longrightarrow> R a c" "\<And>x s s'. f x s = Some s' \<Longrightarrow> R s s'"
  shows "for_each f xs s = Some s' \<Longrightarrow> R s s'"
  using assms by (induction xs arbitrary: s) (auto split: bind_splits, blast)

lemma for_each_mm_frame:
  "(\<And>x s s'. f x s = Some s' \<Longrightarrow> mm_frame s s') \<Longrightarrow> for_each f xs s = Some s' \<Longrightarrow> mm_frame s s'"
  using for_each_rel [of mm_frame f] mm_frame_trans by blast

lemma env_free_pde_mm_frame:
  assumes "env_free_pde g k s = Some s'"
  shows "mm_frame s s'"
proof -
  have p: "env_free_pte g pt i j t = Some t' \<Longrightarrow> mm_frame t t'" for pt i j t t'
    by (auto simp: env_free_pte_def split: if_splits intro: page_remove_mm_frame)
  have "for_each (env_free_pte g pt i) xs t = Some t' \<Longrightarrow> mm_frame t (page_decref (kst a v t') q)"
    for pt i xs t t' a v q
    by (rule mm_frame_trans [OF _ page_decref_mm_frame]) (simp add: for_each_mm_frame [OF p])
  then show ?thesis
    using assms by (auto simp: env_free_pde_def Let_def split: if_splits bind_splits)
qed

lemma env_setup_vm_frame:
  assumes "env_setup_vm s e = Some (r, s')"
  shows "env_free_list s' = env_free_list s" "y \<noteq> e \<Longrightarrow> envs s' y = envs s y"
    "envs s' e = (envs s e)\<lparr>env_pgdir := env_pgdir (envs s' e)\<rparr>"
proof -
  have f: "page_alloc s f = Some (r, s1) \<Longrightarrow> env_free_list s1 = env_free_list s \<and> envs s1 = envs s" for f r s1
    using mm_frame_sel(3,4) page_alloc_mm_frame by blast
  show "env_free_list s' = env_free_list s" "y \<noteq> e \<Longrightarrow> envs s' y = envs s y"
    "envs s' e = (envs s e)\<lparr>env_pgdir := env_pgdir (envs s' e)\<rparr>"
    using assms f by (auto simp: env_setup_vm_def Let_def split: bind_splits option.splits if_splits)
qed

subsection \<open>The free list of environments\<close>

definition env_links :: "kstate \<Rightarrow> nat \<Rightarrow> nat option" where
  "env_links s e = env_link (envs s e)"

lemma env_alloc_sel:
  assumes "env_alloc s par = Some (0, Some e, s')"
  shows "env_free_list s = Some e" "env_free_list s' = env_links s e" "y \<noteq> e \<Longrightarrow> envs s' y = envs s y"
    "env_id (envs s' e) = new_env_id (env_id (envs s e)) e" "env_parent_id (envs s' e) = par"
    "env_status (envs s' e) = ENV_RUNNABLE" "env_type (envs s' e) = ENV_TYPE_USER"
    "env_pgfault_upcall (envs s' e) = 0" "\<not> env_ipc_recving (envs s' e)" "env_runs (envs s' e) = 0"
    "tf_cs (env_tf (envs s' e)) = GD_UT OR 3" "tf_eflags (env_tf (envs s' e)) = FL_IF"
    "tf_regs (env_tf (envs s' e)) = zero_regs" "env_links s' e = env_links s e"
    "\<exists>s1. env_setup_vm s e = Some (0, s1)"
proof -
  obtain r s1 where h: "env_free_list s = Some e" and v: "env_setup_vm s e = Some (r, s1)" "\<not> r < 0"
    using assms by (auto simp: env_alloc_def Let_def split: option.splits bind_splits if_splits)
  then have r: "r = 0"
    by (auto simp: env_setup_vm_def Let_def layout split: option.splits bind_splits if_splits)
  obtain g where g: "envs s1 e = (envs s e)\<lparr>env_pgdir := g\<rparr>"
    using env_setup_vm_frame(3) [OF v(1)] by blast
  show "env_free_list s = Some e" "\<exists>s1. env_setup_vm s e = Some (0, s1)"
    using h v r by auto
  show "env_free_list s' = env_links s e" "y \<noteq> e \<Longrightarrow> envs s' y = envs s y"
    "env_id (envs s' e) = new_env_id (env_id (envs s e)) e" "env_parent_id (envs s' e) = par"
    "env_status (envs s' e) = ENV_RUNNABLE" "env_type (envs s' e) = ENV_TYPE_USER"
    "env_pgfault_upcall (envs s' e) = 0" "\<not> env_ipc_recving (envs s' e)" "env_runs (envs s' e) = 0"
    "tf_cs (env_tf (envs s' e)) = GD_UT OR 3" "tf_eflags (env_tf (envs s' e)) = FL_IF"
    "tf_regs (env_tf (envs s' e)) = zero_regs" "env_links s' e = env_links s e"
    using assms h v(1) r g env_setup_vm_frame(2) [OF v(1)]
    by (auto simp: env_alloc_def Let_def env_links_def zero_tf_def)
qed

lemma env_free_sel:
  assumes "env_free s e = Some s'"
  shows "env_free_list s' = Some e" "env_links s' e = env_free_list s" "y \<noteq> e \<Longrightarrow> envs s' y = envs s y"
    "env_status (envs s' e) = ENV_FREE" "env_id (envs s' e) = env_id (envs s e)"
proof -
  obtain s0 s1 p where
    s0: "s0 = s \<or> s0 = s\<lparr>cr3 := kern_pgdir s - KERNBASE\<rparr>" and
    L: "for_each (env_free_pde (env_pgdir (envs s0 e))) [0..<unat (PDX UTOP)] s0 = Some s1" and
    s': "s' = (upd_env e (\<lambda>v. v\<lparr>env_status := ENV_FREE, env_link := env_free_list
        (page_decref (upd_env e (\<lambda>v. v\<lparr>env_pgdir := 0\<rparr>) s1) p)\<rparr>)
        (page_decref (upd_env e (\<lambda>v. v\<lparr>env_pgdir := 0\<rparr>) s1) p))\<lparr>env_free_list := Some e\<rparr>"
    using assms by (auto simp: env_free_def Let_def PADDR_def split: bind_splits if_splits)
  note F = mm_frame_sel [OF for_each_mm_frame [OF env_free_pde_mm_frame L]]
    mm_frame_sel [OF page_decref_mm_frame, of "upd_env e (\<lambda>v. v\<lparr>env_pgdir := 0\<rparr>) s1" p]
  show "env_free_list s' = Some e" "env_links s' e = env_free_list s" "y \<noteq> e \<Longrightarrow> envs s' y = envs s y"
    "env_status (envs s' e) = ENV_FREE" "env_id (envs s' e) = env_id (envs s e)"
    using s0 F by (auto simp: s' env_links_def)
qed

interpretation env_stack: free_stack env_free_list env_links
  "\<lambda>s e s'. \<exists>par. env_alloc s par = Some (0, Some e, s')" "\<lambda>s e s'. env_free s e = Some s'"
proof (unfold_locales, goal_cases)
  case (3 s x s' y)
  then show ?case using env_alloc_sel(3) by (fastforce simp: env_links_def)
next
  case (6 s x s' y)
  then show ?case using env_free_sel(3) by (fastforce simp: env_links_def)
qed (auto dest: env_alloc_sel(1,2) env_free_sel(1,2))

subsection \<open>Concrete states\<close>

text \<open>\<open>demo_run\<close>: environment 0 runs on processor 0, with the address space in frame 1.\<close>

definition demo_run :: kstate where
  "demo_run = set_curenv (Some 0) (upd_env 0 (\<lambda>v. v\<lparr>env_id := 0x1000, env_status := ENV_RUNNING,
     env_pgdir := kpage 1\<rparr>) (demo\<lparr>env_free_list := Some 1, kernel_lock := \<lparr>locked = 1, lk_cpu = Some 0\<rparr>\<rparr>))"

lemma demo_run_sel [simp]:
  "npages demo_run = 8" "pages demo_run = demo_pages" "kern_pgdir demo_run = 0xF0000000"
  "envs demo_run = (demo_env)(0 := (demo_env 0)\<lparr>env_id := 0x1000, env_status := ENV_RUNNING, env_pgdir := kpage 1\<rparr>)"
  "env_free_list demo_run = Some 1" "curenv demo_run = Some 0" "cpunum demo_run = 0"
  "kernel_lock demo_run = \<lparr>locked = 1, lk_cpu = Some 0\<rparr>"
  by (simp_all add: demo_run_def)

lemma demo_run_vm_inv: "vm_inv demo_base {1} [2, 3] demo_run"
  using demo_vm_inv by (simp add: demo_run_def)

lemma demo_run_template: "kern_template demo_base 0 demo_run"
proof -
  have "entry demo_run = entry demo"
    by (rule entry_pmem_cong) (simp add: demo_run_def)
  then show ?thesis
    by (simp add: kern_template_def kpage_def page2pa_def layout demo_base_def)
qed

text \<open>In \<open>demo_share\<close> the address space of environment 0 maps the page at \<^verbatim>\<open>0x800000\<close>, user writable, to
  frame 5, through the table in frame 2.\<close>

definition demo_share :: kstate where
  "demo_share = (kst (slot (kpage 2) 0) 0x5007 (kst (slot (kpage 1) 2) 0x2007 demo_run))
     \<lparr>pages := (demo_pages)(2 := (demo_pages 2)\<lparr>pp_link := None, pp_ref := 1\<rparr>, 5 := (demo_pages 5)\<lparr>pp_ref := 1\<rparr>),
      page_free_list := Some 3\<rparr>"

lemma demo_share_sel [simp]:
  "npages demo_share = 8" "kern_pgdir demo_share = 0xF0000000" "envs demo_share = envs demo_run"
  "env_free_list demo_share = env_free_list demo_run" "curenv demo_share = Some 0"
proof -
  have "cpus demo_share = cpus demo_run" "cpunum demo_share = cpunum demo_run"
    by (simp_all add: demo_share_def)
  then show "curenv demo_share = Some 0"
    using demo_run_sel(6) by (simp add: curenv_def)
qed (simp_all add: demo_share_def)

lemma demo_share_entry:
  assumes "f < 65536" "unat i < 1024"
  shows "entry demo_share f i = (if f = 2 \<and> i = 0 then 0x5007 else if f = 1 \<and> i = 2 then 0x2007 else 0)"
proof -
  have "entry demo_share = entry (kst (slot (kpage 2) 0) 0x5007 (kst (slot (kpage 1) 2) 0x2007 demo_run))"
    by (rule entry_pmem_cong) (simp add: demo_share_def)
  moreover have "entry demo_run = entry demo"
    by (rule entry_pmem_cong) (simp add: demo_run_def)
  ultimately show ?thesis
    using assms by (simp add: entry_kst)
qed

lemma demo_frames: "frame 0x2007 = 2" "present 0x2007" "frame 0x5007 = 5" "present 0x5007" "\<not> present 0" "user_pdx 2"
  by (simp_all add: frame_def PGNUM_def layout present_def user_pdx_def PDX_def)

lemma demo_share_pte:
  assumes "user_pdx i" "unat j < 1024"
  shows "pte demo_share (Suc 0) i j = (if i = 2 \<and> j = 0 then 0x5007 else 0)"
  using assms user_pdx_less [OF assms(1)] by (auto simp: pte_def demo_share_entry demo_frames)

lemma demo_share_sets:
  "tabset demo_share {1} p = (if p = 2 then {(1, 2)} else {})"
  "mapset demo_share {1} p = (if p = 5 then {(1, 2, 0)} else {})"
  using user_pdx_less by (auto simp: tabset_def mapset_def demo_share_entry demo_share_pte demo_frames split: if_splits)

lemma demo_share_vm_inv: "vm_inv demo_base {1} [3] demo_share"
proof -
  have pg: "pages demo_share q = (if q = 2 then (demo_pages 2)\<lparr>pp_link := None, pp_ref := 1\<rparr>
      else if q = 5 then (demo_pages 5)\<lparr>pp_ref := 1\<rparr> else demo_pages q)" for q
    by (simp add: demo_share_def)
  have wf: "pages_wf demo_share" "free_list demo_share [3]"
    by (simp_all add: pages_wf_def free_list_def page_links_def pg demo_pages_def) (simp add: demo_share_def)
  then show ?thesis
    unfolding vm_inv_def demo_share_sets using user_pdx_less
    by (auto simp: demo_share_entry demo_share_pte demo_frames pg demo_pages_def demo_base_def)
qed

subsection \<open>The initial table\<close>

text \<open>\<^verbatim>\<open>env_init\<close> leaves all 1024 environments free with identifier 0, linked in the order of the array,
  so that the first call of \<^verbatim>\<open>env_alloc\<close> takes slot 0.\<close>

theorem env_init_correct:
  "linked (env_links (env_init s)) (env_free_list (env_init s)) [0..<1024] \<and>
     (\<forall>e \<in> {..<1024}. env_status (envs (env_init s) e) = ENV_FREE \<and> env_id (envs (env_init s) e) = 0)"
proof -
  let ?f = "\<lambda>i v. v\<lparr>env_type := ENV_TYPE_IDLE, env_link := Some i\<rparr>"
  have fold: "envs (fold (\<lambda>i. upd_env (i - Suc 0) (?f i)) [Suc 0..<n] t) j =
      (if Suc j < n then ?f (Suc j) (envs t j) else envs t j)" if "1 \<le> n" for n t j
    using that [unfolded One_nat_def] by (induction n rule: dec_induct) auto
  have frame: "env_free_list (fold (\<lambda>i. upd_env (h i) (g i)) xs t) = env_free_list t" for h g xs t
    by (induction xs arbitrary: t) auto
  have env: "envs (env_init s) j = (if j = 1023 then zero_env\<lparr>env_link := None\<rparr> else ?f (Suc j) zero_env)"
    if "j < 1024" for j
    using that fold [of 1024] by (auto simp: env_init_def Let_def layout)
  have "linked (env_links (env_init s)) (Some 0) ([0..<1024] @ [])"
    by (subst linked_upt) (auto simp: env_links_def env)
  moreover have "env_free_list (env_init s) = Some 0"
    by (simp add: env_init_def Let_def frame)
  ultimately show ?thesis
    by (simp add: env zero_env_def layout)
qed

lemma env_init_sel:
  "npages (env_init s) = npages s" "pages (env_init s) = pages s" "page_free_list (env_init s) = page_free_list s" "pmem (env_init s) = pmem s"
  "kern_pgdir (env_init s) = kern_pgdir s"
proof -
  have "npages (fold (\<lambda>i. upd_env (i - 1) (f i)) xs t) = npages t" "pages (fold (\<lambda>i. upd_env (i - 1) (f i)) xs t) = pages t"
    "page_free_list (fold (\<lambda>i. upd_env (i - 1) (f i)) xs t) = page_free_list t" "pmem (fold (\<lambda>i. upd_env (i - 1) (f i)) xs t) = pmem t"
    "kern_pgdir (fold (\<lambda>i. upd_env (i - 1) (f i)) xs t) = kern_pgdir t" for f xs t
    by (induction xs arbitrary: t) auto
  then show "npages (env_init s) = npages s" "pages (env_init s) = pages s" "page_free_list (env_init s) = page_free_list s"
    "pmem (env_init s) = pmem s" "kern_pgdir (env_init s) = kern_pgdir s"
    by (simp_all add: env_init_def Let_def)
qed

lemma env_init_free:
  "e < NENV \<Longrightarrow> env_status (envs (env_init s) e) = ENV_FREE" "linked (env_links (env_init s)) (env_free_list (env_init s)) [0..<NENV]"
  using env_init_correct [of s] by (simp_all add: layout)

lemma env_init_head: "env_free_list (env_init s) = Some 0"
  using env_init_correct [of s] by (subst (asm) upt_conv_Cons) simp_all

subsection \<open>What the environment table guarantees\<close>

text \<open>The states of the table from \<^verbatim>\<open>env_init\<close> on: \<^verbatim>\<open>env_alloc\<close> (failing or not), \<^verbatim>\<open>env_free\<close>, and any other step,
  which keeps the identifiers and brings no free slot to life.\<close>

inductive table_run :: "kstate \<Rightarrow> bool" where
  init: "table_run (env_init s)"
| alloc: "table_run s \<Longrightarrow> env_alloc s par = Some (r, ne, s') \<Longrightarrow> table_run s'"
| free: "table_run s \<Longrightarrow> env_free s e = Some s' \<Longrightarrow> table_run s'"
| other: "table_run s \<Longrightarrow> (\<And>e. env_id (envs s' e) = env_id (envs s e)) \<Longrightarrow>
    (\<And>e. env_status (envs s e) = ENV_FREE \<Longrightarrow> env_status (envs s' e) = ENV_FREE) \<Longrightarrow> table_run s'"

lemma ENVX_NENV: "unat (ENVX envid) < NENV"
  by (simp add: ENVX_def and_0x3FF unat_take_bit layout)

definition ids_ok :: "kstate \<Rightarrow> bool" where
  "ids_ok s \<longleftrightarrow> (\<forall>e < NENV. env_status (envs s e) \<noteq> ENV_FREE \<longrightarrow>
     0 < sint (env_id (envs s e)) \<and> ENVX (env_id (envs s e)) = word_of_nat e)"

lemma ids_okD:
  assumes "ids_ok s" "e < NENV" "env_status (envs s e) \<noteq> ENV_FREE"
  shows "0 < sint (env_id (envs s e))" "unat (ENVX (env_id (envs s e))) = e"
  using assms by (auto simp: ids_ok_def layout unat_of_nat)

lemma ids_ok_keep:
  assumes "ids_ok s" "\<And>e. e < NENV \<Longrightarrow> env_status (envs s' e) \<noteq> ENV_FREE \<Longrightarrow>
    env_status (envs s e) \<noteq> ENV_FREE \<and> env_id (envs s' e) = env_id (envs s e)"
  shows "ids_ok s'"
  using assms by (simp add: ids_ok_def)

lemma env_alloc_cases:
  assumes "env_alloc s par = Some (r, ne, s')"
  shows "(\<exists>e. r = 0 \<and> ne = Some e) \<or>
    (\<forall>y. env_id (envs s' y) = env_id (envs s y) \<and> env_status (envs s' y) = env_status (envs s y))"
proof (cases "env_free_list s")
  case None
  then show ?thesis using assms by (simp add: env_alloc_def)
next
  case (Some e)
  then obtain r1 s1 where v: "env_setup_vm s e = Some (r1, s1)"
    using assms by (auto simp: env_alloc_def split: bind_splits)
  obtain g where g: "envs s1 e = (envs s e)\<lparr>env_pgdir := g\<rparr>"
    using env_setup_vm_frame(3) [OF v] by blast
  have "env_id (envs s1 y) = env_id (envs s y) \<and> env_status (envs s1 y) = env_status (envs s y)" for y
    using env_setup_vm_frame(2) [OF v, of y] g by (cases "y = e") auto
  then show ?thesis
    using assms Some v by (auto simp: env_alloc_def Let_def split: if_splits)
qed

lemma ids_ok_alloc:
  assumes "ids_ok s" "env_alloc s par = Some (r, ne, s')"
  shows "ids_ok s'"
proof -
  consider e where "r = 0" "ne = Some e"
    | "\<forall>y. env_id (envs s' y) = env_id (envs s y) \<and> env_status (envs s' y) = env_status (envs s y)"
    using env_alloc_cases [OF assms(2)] by blast
  then show ?thesis
  proof cases
    case 1
    note A = env_alloc_sel [OF assms(2) [unfolded 1]]
    have "0 < sint (env_id (envs s' y)) \<and> ENVX (env_id (envs s' y)) = word_of_nat y"
      if "y < NENV" "env_status (envs s' y) \<noteq> ENV_FREE" for y
      using that assms(1) A(3) [of y] A(4) new_env_id_facts [of e]
      by (cases "y = e") (auto simp: ids_ok_def NENV_def)
    then show ?thesis by (simp add: ids_ok_def)
  next
    case 2
    then show ?thesis
      by (intro ids_ok_keep [OF assms(1)]) simp
  qed
qed

lemma table_run_ids_ok: "table_run s \<Longrightarrow> ids_ok s"
proof (induction rule: table_run.induct)
  case (init s)
  then show ?case
    using env_init_free(1) by (simp add: ids_ok_def)
next
  case (alloc s par r ne s')
  then show ?case by (blast intro: ids_ok_alloc)
next
  case (free s e s')
  show ?case
    by (rule ids_ok_keep [OF free.IH]) (metis env_free_sel(3,4) free.hyps(2))
next
  case (other s s')
  show ?case
    by (rule ids_ok_keep [OF other.IH]) (use other.hyps in auto)
qed

text \<open>C17. \<^verbatim>\<open>envid2env\<close> is a constant-time search of the whole table. In every state the table can get
  into from \<^verbatim>\<open>env_init\<close> on, no two live environments have the same identifier, and for a positive
  identifier \<^verbatim>\<open>envid2env\<close>, which looks only at the slot in the low bits of the identifier, gives what a
  search through all 1024 slots gives: the live environment with that identifier, if there is one and, with
  \<^verbatim>\<open>checkperm\<close>, it is the caller or a child of the caller, and \<^verbatim>\<open>-E_BAD_ENV\<close> otherwise. The identifier 0
  is the caller.\<close>

theorem envid2env_search:
  assumes "table_run s" "curenv s = Some c"
  shows "envid2env s envid checkperm =
      (if sint envid < 0 then Some (- E_BAD_ENV, None) else if envid = 0 then Some (0, Some (Some c)) else
       case find (\<lambda>e. env_status (envs s e) \<noteq> ENV_FREE \<and> env_id (envs s e) = envid) [0..<NENV] of
         None \<Rightarrow> Some (- E_BAD_ENV, Some None)
       | Some e \<Rightarrow> if checkperm \<and> e \<noteq> c \<and> env_parent_id (envs s e) \<noteq> env_id (envs s c)
                   then Some (- E_BAD_ENV, Some None) else Some (0, Some (Some e))) \<and>
    (\<forall>e < NENV. \<forall>e' < NENV. env_status (envs s e) \<noteq> ENV_FREE \<longrightarrow> env_status (envs s e') \<noteq> ENV_FREE \<longrightarrow>
       env_id (envs s e) = env_id (envs s e') \<longrightarrow> e = e')"
proof (intro conjI)
  note I = ids_okD [OF table_run_ids_ok [OF assms(1)]]
  let ?P = "\<lambda>e. env_status (envs s e) \<noteq> ENV_FREE \<and> env_id (envs s e) = envid"
  let ?e = "unat (ENVX envid)"
  show "\<forall>e < NENV. \<forall>e' < NENV. env_status (envs s e) \<noteq> ENV_FREE \<longrightarrow> env_status (envs s e') \<noteq> ENV_FREE \<longrightarrow>
       env_id (envs s e) = env_id (envs s e') \<longrightarrow> e = e'"
    using I(2) by metis
  have lt: "?e < NENV"
    by (rule ENVX_NENV)
  have only: "e = ?e" if "e < NENV" "?P e" for e
    using I(2) [of e] that by auto
  have found: "find ?P [0..<NENV] = (if ?P ?e then Some ?e else None)"
  proof (cases "find ?P [0..<NENV]")
    case None
    then show ?thesis
      using lt by (auto simp: find_None_iff)
  next
    case (Some e)
    then have "e < NENV" "?P e"
      by (auto simp: find_Some_iff nth_upt)
    with only Some show ?thesis by auto
  qed
  show "envid2env s envid checkperm =
      (if sint envid < 0 then Some (- E_BAD_ENV, None) else if envid = 0 then Some (0, Some (Some c)) else
       case find ?P [0..<NENV] of
         None \<Rightarrow> Some (- E_BAD_ENV, Some None)
       | Some e \<Rightarrow> if checkperm \<and> e \<noteq> c \<and> env_parent_id (envs s e) \<noteq> env_id (envs s c)
                   then Some (- E_BAD_ENV, Some None) else Some (0, Some (Some e)))"
    unfolding found using assms(2) by (auto simp: envid2env_def Let_def)
qed

text \<open>C18. Stale identifiers: after an environment is freed, its slot is the next one \<^verbatim>\<open>env_alloc\<close> hands out,
  under an identifier that is positive, has the slot as its index, and differs from the old one, so
  that the old identifier is rejected from then on (until the slot is reused again).\<close>

theorem env_id_not_reused:
  assumes "env_free s e = Some s1" "env_alloc s1 par = Some (0, Some e', s2)" "e < 1024"
    "env_id (envs s e) \<noteq> 0" "\<not> sint (env_id (envs s e)) < 0" "ENVX (env_id (envs s e)) = word_of_nat e"
  shows "e' = e \<and> 0 < sint (env_id (envs s2 e)) \<and> ENVX (env_id (envs s2 e)) = word_of_nat e \<and>
    env_id (envs s2 e) \<noteq> env_id (envs s e) \<and> env_free_list s2 = env_free_list s \<and>
    envid2env s1 (env_id (envs s e)) checkperm = Some (- E_BAD_ENV, Some None) \<and>
    envid2env s2 (env_id (envs s e)) checkperm = Some (- E_BAD_ENV, Some None)"
proof -
  have e: "e' = e" "env_free_list s2 = env_free_list s"
    using env_stack.push_pop [of s e s1 e' s2] assms(1,2) by blast+
  note F = env_free_sel [OF assms(1)] and A = env_alloc_sel [OF assms(2)]
  have "env_id (envs s2 e) = new_env_id (env_id (envs s e)) e"
    using A(4) e(1) F(5) by simp
  moreover note N = new_env_id_facts [OF assms(3), of "env_id (envs s e)"]
  moreover have "unat (ENVX (env_id (envs s e))) = e"
    using assms(3,6) by (simp add: unat_of_nat)
  ultimately show ?thesis
    using e F(4,5) assms(4,5) by (simp add: envid2env_def Let_def)
qed

lemma env_alloc_run:
  assumes inv: "vm_inv base D (p # ys) s" and k: "kern_template base k s" and e: "env_free_list s = Some e"
  shows "\<exists>s'. env_alloc s par = Some (0, Some e, s') \<and> vm_inv base (insert p D) ys s' \<and> p \<notin> D \<and>
    env_pgdir (envs s' e) = kpage p \<and> (\<forall>va. user_pdx (PDX va) \<longrightarrow> vmap s' p va = None) \<and>
    (\<forall>d \<in> D. \<forall>va. user_pdx (PDX va) \<longrightarrow> vmap s' d va = vmap s d va) \<and> kern_template base k s' \<and>
    cpus s' = cpus s \<and> cpunum s' = cpunum s \<and> kernel_lock s' = kernel_lock s \<and> cr3 s' = cr3 s"
proof -
  obtain s1 where s1: "env_setup_vm s e = Some (0, s1)" "vm_inv base (insert p D) ys s1" "p \<notin> D" "same_ptes s s1 D"
    "\<And>va. user_pdx (PDX va) \<Longrightarrow> vmap s1 p va = None" "envs s1 = (envs s)(e := (envs s e)\<lparr>env_pgdir := kpage p\<rparr>)"
    "mm_frame (upd_env e (\<lambda>v. v\<lparr>env_pgdir := kpage p\<rparr>) s) s1" "kern_same base s s1"
    using env_setup_vm_run [OF inv k, of e] by auto
  have k1: "kern_template base k s1"
    using kern_template_kept [OF k s1(8)] s1(7) vm_invD(9) [OF inv] by (simp add: mm_frame_def)
  have "vmap s1 d va = vmap s d va" if "d \<in> D" "user_pdx (PDX va)" for d va
    using s1(4) that by (simp add: same_ptes_def vmap_def)
  moreover have "kern_template base k s1 = kern_template base k (upd_env e f s1\<lparr>env_free_list := l\<rparr>)" for f l
    by (simp add: kern_template_def entry_def)
  ultimately show ?thesis
    using e s1 k1 by (simp add: env_alloc_def Let_def mm_frame_def)
qed

lemma env_alloc_other:
  assumes inv: "vm_inv base D (p # ys) s" and k: "kern_template base k s" and run: "env_alloc s par = Some (0, Some e, s')"
  shows "f < 65536 \<Longrightarrow> f \<noteq> p \<Longrightarrow> unat i < 1024 \<Longrightarrow> entry s' f i = entry s f i" "tf_esp (env_tf (envs s' e)) = USTACKTOP"
proof -
  obtain s1 where s1: "env_setup_vm s e = Some (0, s1)" "\<And>f i. f < 65536 \<Longrightarrow> f \<noteq> p \<Longrightarrow> unat i < 1024 \<Longrightarrow> entry s1 f i = entry s f i"
    using env_setup_vm_run [OF inv k, of e] by auto
  obtain g l where "s' = upd_env e g s1\<lparr>env_free_list := l\<rparr>" "\<And>v. tf_esp (env_tf (g v)) = USTACKTOP"
    using run s1(1) env_alloc_sel(1) [OF run] by (auto simp: env_alloc_def Let_def)
  moreover from this(1) have "entry s' = entry s1"
    by (simp add: entry_def fun_eq_iff)
  ultimately show "f < 65536 \<Longrightarrow> f \<noteq> p \<Longrightarrow> unat i < 1024 \<Longrightarrow> entry s' f i = entry s f i" "tf_esp (env_tf (envs s' e)) = USTACKTOP"
    using s1(2) by simp_all
qed

text \<open>C14. \<^verbatim>\<open>env_alloc\<close> fails with \<^verbatim>\<open>-E_NO_FREE_ENV\<close> when the table is full and with \<^verbatim>\<open>-E_NO_MEM\<close> when no page
  is left, in both cases without changing the state. Otherwise it takes the first free slot, whose
  environment is runnable, has the given parent, a fresh positive identifier for that slot, cleared
  registers in user mode with interrupts enabled, and a new address space that maps nothing below
  \<^verbatim>\<open>UTOP\<close>; all other environments and address spaces are as before and the page invariant holds for the
  enlarged set of address spaces.\<close>

theorem env_alloc_correct:
  assumes "vm_inv base D fl s" "kern_template base k s"
  shows "case env_free_list s of
      None \<Rightarrow> env_alloc s par = Some (- E_NO_FREE_ENV, None, s)
    | Some e \<Rightarrow> (case fl of
        [] \<Rightarrow> env_alloc s par = Some (- E_NO_MEM, None, s)
      | p # ys \<Rightarrow> \<exists>s'. env_alloc s par = Some (0, Some e, s') \<and> vm_inv base (insert p D) ys s' \<and> p \<notin> D \<and>
          env_pgdir (envs s' e) = kpage p \<and> (\<forall>va. user_pdx (PDX va) \<longrightarrow> vmap s' p va = None) \<and>
          (\<forall>d \<in> D. \<forall>va. user_pdx (PDX va) \<longrightarrow> vmap s' d va = vmap s d va) \<and>
          env_id (envs s' e) = new_env_id (env_id (envs s e)) e \<and> env_parent_id (envs s' e) = par \<and>
          env_status (envs s' e) = ENV_RUNNABLE \<and> tf_cs (env_tf (envs s' e)) = GD_UT OR 3 \<and>
          tf_eflags (env_tf (envs s' e)) = FL_IF \<and> tf_regs (env_tf (envs s' e)) = zero_regs \<and>
          (\<forall>y. y \<noteq> e \<longrightarrow> envs s' y = envs s y))"
proof (cases "env_free_list s")
  case None
  then show ?thesis by (simp add: env_alloc_def)
next
  case e: (Some e)
  show ?thesis
  proof (cases fl)
    case Nil
    then have "env_setup_vm s e = Some (- E_NO_MEM, s)"
      using env_setup_vm_run [OF assms, of e] by simp
    with e Nil show ?thesis by (simp add: env_alloc_def layout)
  next
    case (Cons p ys)
    from env_alloc_run [OF assms [unfolded Cons] e, of par] obtain s' where
      s': "env_alloc s par = Some (0, Some e, s')" "vm_inv base (insert p D) ys s'" "p \<notin> D"
      "env_pgdir (envs s' e) = kpage p" "\<And>va. user_pdx (PDX va) \<Longrightarrow> vmap s' p va = None"
      "\<And>d va. d \<in> D \<Longrightarrow> user_pdx (PDX va) \<Longrightarrow> vmap s' d va = vmap s d va" by blast
    then show ?thesis
      using e Cons env_alloc_sel [OF s'(1)] by simp
  qed
qed

theorem env_alloc_correct_witness:
  "\<exists>s'. env_alloc demo_run 0x1000 = Some (0, Some 1, s') \<and> vm_inv demo_base {2, 1} [3] s' \<and>
     env_id (envs s' 1) = 0x1001 \<and> env_parent_id (envs s' 1) = 0x1000"
proof -
  have "new_env_id 0 1 = 0x1001"
    by (simp add: new_env_id_def layout sint_u32)
  then show ?thesis
    using env_alloc_correct [OF demo_run_vm_inv demo_run_template, of "0x1000"] by (auto simp: demo_env_def)
qed

lemma env_free_given_back:
  assumes inv: "vm_inv base D fl s" and d: "d \<in> D" and v': "vm_inv base (D - {d}) (d # fl') s'"
    and np: "npages s' = npages s" and same: "same_dirs s s' (D - {d})" "same_ptes s s' (D - {d})"
    and rel: "released s fl s' (d # fl')"
  shows "\<exists>xs. fl' = xs @ fl \<and> set (d # xs) = {q. q < unat (npages s) \<and> pp_ref (pages s q) \<noteq> 0 \<and> base q = 0 \<and>
    q \<notin> D - {d} \<and> tabset s (D - {d}) q = {} \<and> mapset s (D - {d}) q = {}}"
proof -
  obtain ys where ys: "d # fl' = ys @ fl" "set ys = {p. pp_ref (pages s p) \<noteq> 0 \<and> pp_ref (pages s' p) = 0}"
    using rel by (auto simp: released_def)
  have "d \<in> set ys"
    using ys(2) vm_dir(6) [OF inv d] vm_free_page(7) [OF v', of d] by simp
  then obtain xs where xs: "ys = d # xs"
    using ys(1) by (cases ys) auto
  have z: "pp_ref (pages s' q) = 0 \<longleftrightarrow> base q = 0 \<and> q \<notin> D - {d} \<and> tabset s (D - {d}) q = {} \<and> mapset s (D - {d}) q = {}"
    if "q < unat (npages s)" for q
  proof -
    have "unat (pp_ref (pages s' q)) =
        of_bool (q \<in> D - {d}) + card (tabset s (D - {d}) q) + card (mapset s (D - {d}) q) + base q"
      using vm_invD(7) [OF v', of q] that np tabset_same_dirs [OF same(1)] mapset_same_ptes [OF same(2)] by simp
    moreover have "finite (tabset s (D - {d}) q)" "finite (mapset s (D - {d}) q)"
      using vm_invD(10) [OF v'] by (simp_all add: finite_tabset finite_mapset)
    ultimately show ?thesis
      by (auto simp: unat_eq_0)
  qed
  have "q < unat (npages s)" if "q \<in> set ys" for q
    using vm_free_page(2) [OF v', of q] that ys(1) np by auto
  then have "set ys = {q. q < unat (npages s) \<and> pp_ref (pages s q) \<noteq> 0 \<and> pp_ref (pages s' q) = 0}"
    using ys(2) by auto
  also have "\<dots> = {q. q < unat (npages s) \<and> pp_ref (pages s q) \<noteq> 0 \<and> base q = 0 \<and>
    q \<notin> D - {d} \<and> tabset s (D - {d}) q = {} \<and> mapset s (D - {d}) q = {}}"
    using z by blast
  finally show ?thesis
    using ys(1) xs by (intro exI [of _ xs]) simp
qed

text \<open>C16. \<^verbatim>\<open>env_free\<close> never panics. It removes the environment's address space and gives back every page
  that only this environment used: the free list of pages is the old one with exactly those pages in
  front of it that were in use and that neither the kernel nor any other address space uses, as a
  directory, as a page table or as a mapped page; the directory is the first of them. The
  reference counts of all pages again equal their uses by the remaining address spaces, the other
  address spaces are unchanged, the processor no longer uses the directory when it was the current
  environment's, and the slot is at the head of the free list of environments with status \<^verbatim>\<open>ENV_FREE\<close>.\<close>

theorem env_free_correct:
  assumes "vm_inv base D fl s" "d \<in> D" "env_pgdir (envs s e) = kpage d" "KERNBASE \<le> kern_pgdir s"
  shows "\<exists>s' xs. env_free s e = Some s' \<and> vm_inv base (D - {d}) (d # xs @ fl) s' \<and> kern_same base s s' \<and>
    set (d # xs) = {q. q < unat (npages s) \<and> pp_ref (pages s q) \<noteq> 0 \<and> base q = 0 \<and>
      q \<notin> D - {d} \<and> tabset s (D - {d}) q = {} \<and> mapset s (D - {d}) q = {}} \<and>
    envs s' = (envs s)(e := (envs s e)\<lparr>env_pgdir := 0, env_status := ENV_FREE, env_link := env_free_list s\<rparr>) \<and>
    env_free_list s' = Some e \<and> cpus s' = cpus s \<and> kernel_lock s' = kernel_lock s \<and>
    cr3 s' = (if curenv s = Some e then kern_pgdir s - KERNBASE else cr3 s) \<and>
    (\<forall>d' \<in> D - {d}. \<forall>va. user_pdx (PDX va) \<longrightarrow> vmap s' d' va = vmap s d' va)"
proof -
  from env_free_run [OF assms] obtain s' fl' where
    r: "env_free s e = Some s'" "vm_inv base (D - {d}) (d # fl') s'"
      "envs s' = (envs s)(e := (envs s e)\<lparr>env_pgdir := 0, env_status := ENV_FREE, env_link := env_free_list s\<rparr>)"
      "env_free_list s' = Some e" "cpus s' = cpus s" "kernel_lock s' = kernel_lock s" "npages s' = npages s"
      "kern_same base s s'" "cr3 s' = (if curenv s = Some e then kern_pgdir s - KERNBASE else cr3 s)"
      "\<forall>d' \<in> D - {d}. \<forall>va. user_pdx (PDX va) \<longrightarrow> vmap s' d' va = vmap s d' va"
      "released s fl s' (d # fl')" "same_dirs s s' (D - {d})" "same_ptes s s' (D - {d})" by blast
  from env_free_given_back [OF assms(1,2) r(2,7,12,13,11)] r show ?thesis by blast
qed

theorem env_free_correct_witness:
  "\<exists>s' x y. env_free demo_share 0 = Some s' \<and> vm_inv demo_base {} [1, x, y, 3] s' \<and> {x, y} = {2, 5} \<and>
     env_free_list s' = Some 0 \<and> cr3 s' = 0"
proof -
  obtain s' xs where s': "env_free demo_share 0 = Some s'" "vm_inv demo_base {} (1 # xs @ [3]) s'"
    "env_free_list s' = Some 0" "cr3 s' = 0"
    "set (1 # xs) = {q. q < 8 \<and> pp_ref (pages demo_share q) \<noteq> 0 \<and> demo_base q = 0}"
    using env_free_correct [OF demo_share_vm_inv, of 1 0] by (auto simp: layout tabset_def mapset_def)
  have "{q. q < 8 \<and> pp_ref (pages demo_share q) \<noteq> 0 \<and> demo_base q = 0} = {1, 2, 5}"
    by (auto simp: demo_share_def demo_base_def demo_pages_def less_Suc_eq eval_nat_numeral split: if_splits)
  with s'(5) have S: "set (1 # xs) = {1, 2, 5}"
    by (rule trans)
  have "distinct (1 # xs @ [3])"
    using vm_invD(2) [OF s'(2)] by (auto simp: free_list_def simp del: linked.simps dest!: linked_distinct)
  then have "distinct xs" "set xs = set (1 # xs) - {1}"
    by auto
  then have "distinct xs" "set xs = {2, 5}"
    unfolding S by auto
  moreover from this have "length xs = Suc (Suc 0)"
    using distinct_card [of xs] by simp
  then obtain x y where "xs = [x, y]"
    unfolding length_Suc_conv by blast
  ultimately have "xs = [x, y]" "{x, y} = {2, 5}"
    by simp_all
  with s' show ?thesis by auto
qed

theorem envid2env_search_witness:
  "\<exists>s. env_alloc (env_init demo) 0 = Some (0, Some 0, s) \<and>
     envid2env (set_curenv (Some 0) s) 0x1000 True = Some (0, Some (Some 0)) \<and>
     envid2env (set_curenv (Some 0) s) 0x2000 False = Some (- E_BAD_ENV, Some None)"
proof -
  have v: "vm_inv demo_base {1} (2 # [3]) (env_init demo)" "kern_template demo_base 0 (env_init demo)"
  proof -
    have e: "entry (env_init demo) = entry demo"
      by (rule entry_pmem_cong) (rule env_init_sel(4))
    have l: "page_links (env_init demo) = page_links demo"
      by (simp add: page_links_def fun_eq_iff env_init_sel)
    show "vm_inv demo_base {1} (2 # [3]) (env_init demo)"
      using demo_vm_inv unfolding vm_inv_def pages_wf_def free_list_def pte_cong [OF e] e env_init_sel l .
    show "kern_template demo_base 0 (env_init demo)"
      by (simp add: kern_template_def e env_init_sel kpage_def page2pa_def layout demo_base_def)
  qed
  have h: "env_free_list (env_init demo) = Some 0" "env_id (envs (env_init demo) 0) = 0"
    using env_init_head env_init_correct [of demo] by simp_all
  obtain s where s: "env_alloc (env_init demo) 0 = Some (0, Some 0, s)"
    using env_alloc_run [OF v h(1), of 0] by blast
  note A = env_alloc_sel [OF s]
  let ?t = "set_curenv (Some 0) s"
  have t: "table_run ?t" "curenv ?t = Some 0"
    using table_run.other [OF table_run.alloc [OF table_run.init s], of ?t] by simp_all
  have "new_env_id 0 0 = 0x1000"
    by (simp add: new_env_id_def layout sint_u32)
  then have e: "env_id (envs ?t 0) = 0x1000" "env_status (envs ?t 0) \<noteq> ENV_FREE"
    using A(4,6) h(2) by (simp_all add: layout)
  have f: "env_status (envs ?t y) = ENV_FREE" if "y < NENV" "y \<noteq> 0" for y
    using A(3) [OF that(2)] env_init_free(1) [OF that(1)] by simp
  have "find (\<lambda>e. env_status (envs ?t e) \<noteq> ENV_FREE \<and> env_id (envs ?t e) = 0x1000) [0..<NENV] = Some 0"
    using e by (subst upt_conv_Cons) (simp_all add: NENV_def)
  moreover have "find (\<lambda>e. env_status (envs ?t e) \<noteq> ENV_FREE \<and> env_id (envs ?t e) = 0x2000) [0..<NENV] = None"
    unfolding find_None_iff
  proof (intro notI, elim exE conjE)
    fix x assume "x \<in> set [0..<NENV]" "env_status (envs ?t x) \<noteq> ENV_FREE" "env_id (envs ?t x) = 0x2000"
    then show False
      using e(1) f [of x] by (cases "x = 0") auto
  qed
  ultimately show ?thesis
    using s envid2env_search [OF t, of "0x1000" True] envid2env_search [OF t, of "0x2000" False]
    by (simp add: sint_u32)
qed

theorem env_id_not_reused_witness:
  "\<exists>s1 s2. env_free demo_run 0 = Some s1 \<and> env_alloc s1 0 = Some (0, Some 0, s2) \<and>
     env_id (envs s2 0) \<noteq> 0x1000 \<and> envid2env s2 0x1000 False = Some (- E_BAD_ENV, Some None)"
proof -
  obtain s1 fl where f: "env_free demo_run 0 = Some s1" "vm_inv demo_base {} (1 # fl) s1" "kern_same demo_base demo_run s1"
    "env_free_list s1 = Some 0" "kern_pgdir s1 = kern_pgdir demo_run" "npages s1 = npages demo_run"
    using env_free_run [OF demo_run_vm_inv, of 1 0] by (auto simp: layout)
  have k: "kern_template demo_base 0 s1"
    by (rule kern_template_kept [OF demo_run_template f(3,6,5)]) simp
  obtain s2 where a: "env_alloc s1 0 = Some (0, Some 0, s2)"
    using env_alloc_run [OF f(2) k f(4), of 0] by blast
  then show ?thesis
    using env_id_not_reused [OF f(1) a, of False] f(1) by (simp add: ENVX_def sint_u32)
qed

theorem env_init_correct_witness:
  "env_status (envs (env_init demo) 17) = ENV_FREE"
  using env_init_correct [of demo] by simp

end
