(* ===== verification/Sched.thy ===== *)
theory Sched
  imports Env_Table
begin

section \<open>The scheduler\<close>

text \<open>
  \<^verbatim>\<open>kern/sched.c\<close>, compiled with \<^verbatim>\<open>TESTING_GRADE_PURPOSE\<close>, and \<^verbatim>\<open>env_destroy\<close> of \<^verbatim>\<open>kern/env.c\<close>, which enters
  it. \<open>sched_yield\<close> does not return: its result says whether the processor ends in user mode or in
  the endless monitor loop, with the state it leaves.
\<close>

subsection \<open>Operations\<close>

definition schedulable :: "Env \<Rightarrow> bool" where
  "schedulable e \<longleftrightarrow> env_type e \<noteq> ENV_TYPE_IDLE \<and> env_status e = ENV_RUNNABLE"

text \<open>The loop over \<^verbatim>\<open>cnt\<close>, with the number of rounds left as the last argument.\<close>

fun sched_scan :: "(nat \<Rightarrow> Env) \<Rightarrow> nat \<Rightarrow> nat \<Rightarrow> nat option" where
  "sched_scan es i 0 = None"
| "sched_scan es i (Suc n) =
     (let i' = (if NENV \<le> i then i mod NENV else i)
      in if schedulable (es i') then Some i' else sched_scan es (i' + 1) n)"

definition sched_start :: "kstate \<Rightarrow> nat \<times> kstate" where
  "sched_start s =
     (case curenv s of
        None \<Rightarrow> (0, s)
      | Some c \<Rightarrow> if env_status (envs s c) = ENV_RUNNING
                  then (c + 1, upd_env c (\<lambda>v. v\<lparr>env_status := ENV_RUNNABLE\<rparr>) s) else (c, s))"

definition sched_yield :: "kstate \<Rightarrow> (exit \<times> kstate) option" where
  "sched_yield s =
     (let (i, s1) = sched_start s
      in case sched_scan (envs s1) i NENV of
           Some e \<Rightarrow> do { s2 \<leftarrow> env_run s1 e; Some (Run, s2) }
         | None \<Rightarrow>
             if \<not> list_ex (\<lambda>i. env_type (envs s1 i) \<noteq> ENV_TYPE_IDLE \<and>
                  (env_status (envs s1 i) = ENV_RUNNABLE \<or> env_status (envs s1 i) = ENV_RUNNING)) [0..<NENV]
             then Some (Monitor, s1)
             else let idle = cpunum s1
                  in if \<not> (env_status (envs s1 idle) = ENV_RUNNABLE \<or> env_status (envs s1 idle) = ENV_RUNNING)
                     then None
                     else do { s2 \<leftarrow> env_run s1 idle; Some (Run, s2) })"

definition env_destroy :: "kstate \<Rightarrow> nat \<Rightarrow> (unit flow \<times> kstate) option" where
  "env_destroy s e =
     (if env_status (envs s e) = ENV_RUNNING \<and> curenv s \<noteq> Some e
      then Some (Ret (), upd_env e (\<lambda>v. v\<lparr>env_status := ENV_DYING\<rparr>) s)
      else do {
        s1 \<leftarrow> env_free s e;
        (if curenv s1 = Some e
         then do { (x, s2) \<leftarrow> sched_yield (set_curenv None s1); Some (Leave x, s2) }
         else Some (Ret (), s1))
      })"

subsection \<open>The scan\<close>

lemma sched_scan_mod:
  "sched_scan es i n = sched_scan es (i mod NENV) n"
proof (cases n)
  case (Suc m)
  then show ?thesis by (simp add: Let_def layout)
qed simp

lemma sched_scan_Some:
  "sched_scan es i n = Some e \<longleftrightarrow>
     (\<exists>k<n. e = (i + k) mod NENV \<and> schedulable (es e) \<and> (\<forall>j<k. \<not> schedulable (es ((i + j) mod NENV))))"
proof (induction n arbitrary: i)
  case 0
  then show ?case by simp
next
  case (Suc n)
  let ?i = "i mod NENV"
  have i: "(if NENV \<le> i then i mod NENV else i) = ?i"
    by (simp add: layout)
  show ?case
  proof (cases "schedulable (es ?i)")
    case True
    have first: "k = 0" if "\<forall>j<k. \<not> schedulable (es ((i + j) mod NENV))" for k
      using that True by (cases k) auto
    have "sched_scan es i (Suc n) = Some e \<longleftrightarrow> e = ?i"
      using True by (auto simp: Let_def i)
    also have "\<dots> \<longleftrightarrow> (\<exists>k<Suc n. e = (i + k) mod NENV \<and> schedulable (es e) \<and>
        (\<forall>j<k. \<not> schedulable (es ((i + j) mod NENV))))"
      using first True by (metis add.right_neutral less_nat_zero_code zero_less_Suc)
    finally show ?thesis .
  next
    case False
    have shift: "(?i + 1 + k) mod NENV = (i + Suc k) mod NENV" for k
      by (metis add.assoc add_Suc_right mod_add_left_eq plus_1_eq_Suc)
    have all: "(\<forall>j<Suc k. \<not> schedulable (es ((i + j) mod NENV))) \<longleftrightarrow>
        (\<forall>j<k. \<not> schedulable (es ((i + Suc j) mod NENV)))" for k
      using False by (auto simp: less_Suc_eq_0_disj)
    have "sched_scan es i (Suc n) = sched_scan es (?i + 1) n"
      using False by (simp add: Let_def i)
    also have "\<dots> = Some e \<longleftrightarrow> (\<exists>k<n. e = (i + Suc k) mod NENV \<and> schedulable (es e) \<and>
        (\<forall>j<k. \<not> schedulable (es ((i + Suc j) mod NENV))))"
      unfolding Suc.IH shift ..
    also have "\<dots> \<longleftrightarrow> (\<exists>k<Suc n. e = (i + k) mod NENV \<and> schedulable (es e) \<and>
        (\<forall>j<k. \<not> schedulable (es ((i + j) mod NENV))))"
      unfolding Ex_less_Suc2 all using False by auto
    finally show ?thesis .
  qed
qed

lemma ring_distance:
  fixes e N :: nat
  assumes "e < N"
  shows "\<exists>k<N. (i + k) mod N = e"
proof -
  have "(i + (e + N - i mod N) mod N) mod N = (i mod N + (e + N - i mod N)) mod N"
    by (metis mod_add_left_eq mod_add_right_eq)
  also have "\<dots> = e"
    using assms by (simp add: less_imp_le trans_le_add2)
  finally show ?thesis
    using assms by (intro exI [of _ "(e + N - i mod N) mod N"]) auto
qed

lemma sched_scan_None:
  "sched_scan es i NENV = None \<longleftrightarrow> (\<forall>e<NENV. \<not> schedulable (es e))"
proof
  assume none: "sched_scan es i NENV = None"
  show "\<forall>e<NENV. \<not> schedulable (es e)"
  proof (intro allI impI notI)
    fix e assume e: "e < NENV" "schedulable (es e)"
    obtain k where hit: "(i + k) mod NENV = e" and k: "k < NENV"
      using ring_distance [OF e(1), of i] by blast
    define m where "m = (LEAST m. schedulable (es ((i + m) mod NENV)))"
    have m: "schedulable (es ((i + m) mod NENV))" "m \<le> k" "\<forall>j<m. \<not> schedulable (es ((i + j) mod NENV))"
      unfolding m_def using e(2) hit LeastI [of "\<lambda>m. schedulable (es ((i + m) mod NENV))" k]
        Least_le [of "\<lambda>m. schedulable (es ((i + m) mod NENV))" k]
        not_less_Least by auto
    then have "sched_scan es i NENV = Some ((i + m) mod NENV)"
      unfolding sched_scan_Some using k by (intro exI [of _ m]) auto
    with none show False by simp
  qed
next
  assume none: "\<forall>e<NENV. \<not> schedulable (es e)"
  have "sched_scan es i NENV \<noteq> Some e" for e
  proof
    assume "sched_scan es i NENV = Some e"
    then obtain k where "e = (i + k) mod NENV" "schedulable (es e)"
      unfolding sched_scan_Some by blast
    with none show False by (simp add: layout)
  qed
  then show "sched_scan es i NENV = None"
    by (cases "sched_scan es i NENV") auto
qed

subsection \<open>Running the chosen environment\<close>

text \<open>\<open>demoted es c\<close>: the table after the current environment \<open>c\<close>, if it was running, became runnable.\<close>

definition demoted :: "(nat \<Rightarrow> Env) \<Rightarrow> nat option \<Rightarrow> nat \<Rightarrow> Env" where
  "demoted es c = (case c of None \<Rightarrow> es
     | Some x \<Rightarrow> if env_status (es x) = ENV_RUNNING then es(x := (es x)\<lparr>env_status := ENV_RUNNABLE\<rparr>) else es)"

lemma demoted_pgdir [simp]: "env_pgdir (demoted es c e) = env_pgdir (es e)" "env_type (demoted es c e) = env_type (es e)"
  by (auto simp: demoted_def split: option.splits)

lemma demoted_demoted [simp]: "demoted (demoted es c) c = demoted es c"
  by (auto simp: demoted_def layout split: option.splits)

lemma env_run_eq:
  assumes lock: "holding (cpunum s) (kernel_lock s)" and pg: "KERNBASE \<le> env_pgdir (envs s e)"
  shows "\<exists>s'. env_run s e = Some s' \<and> curenv s' = Some e \<and> cpunum s' = cpunum s \<and>
    envs s' = (demoted (envs s) (curenv s))(e := (demoted (envs s) (curenv s) e)
      \<lparr>env_status := ENV_RUNNING, env_runs := env_runs (envs s e) + 1, env_cpunum := word_of_nat (cpunum s)\<rparr>) \<and>
    (\<forall>c. c \<noteq> cpunum s \<longrightarrow> cpus s' c = cpus s c) \<and> cr3 s' = env_pgdir (envs s e) - KERNBASE \<and>
    kernel_lock s' = spin_initlock \<and> env_free_list s' = env_free_list s \<and>
    (\<forall>base D fl. vm_inv base D fl s' = vm_inv base D fl s)"
proof -
  define s1 where "s1 = (case curenv s of None \<Rightarrow> s | Some c \<Rightarrow> if env_status (envs s c) = ENV_RUNNING
      then upd_env c (\<lambda>v. v\<lparr>env_status := ENV_RUNNABLE\<rparr>) s else s)"
  have s1: "envs s1 = demoted (envs s) (curenv s)" "cpus s1 = cpus s" "cpunum s1 = cpunum s"
    "kernel_lock s1 = kernel_lock s" "env_free_list s1 = env_free_list s"
    and v1: "vm_inv base D fl s1 = vm_inv base D fl s" for base D fl
    by (auto simp: s1_def demoted_def split: option.splits)
  define s2 where "s2 = upd_env e (\<lambda>v. v\<lparr>env_status := ENV_RUNNING, env_runs := env_runs v + 1\<rparr>)
      (set_curenv (Some e) s1)"
  have s2: "envs s2 = (envs s1)(e := (envs s1 e)\<lparr>env_status := ENV_RUNNING, env_runs := env_runs (envs s1 e) + 1\<rparr>)"
    "cpunum s2 = cpunum s" "curenv s2 = Some e" "kernel_lock s2 = kernel_lock s"
    "env_free_list s2 = env_free_list s" "\<And>c. c \<noteq> cpunum s \<Longrightarrow> cpus s2 c = cpus s c"
    using s1 by (simp_all add: s2_def set_curenv_def curenv_def)
  have v2: "vm_inv base D fl s2 = vm_inv base D fl s" for base D fl
    by (simp add: s2_def v1)
  define s3 where "s3 = s2\<lparr>kernel_lock := spin_initlock\<rparr>\<lparr>cr3 := env_pgdir (envs s e) - KERNBASE\<rparr>"
  have s3: "envs s3 = envs s2" "cpunum s3 = cpunum s" "curenv s3 = Some e" "cpus s3 = cpus s2"
    "kernel_lock s3 = spin_initlock" "cr3 s3 = env_pgdir (envs s e) - KERNBASE" "env_free_list s3 = env_free_list s"
    using s2 by (simp_all add: s3_def curenv_def)
  have v3: "vm_inv base D fl s3 = vm_inv base D fl s" for base D fl
    by (simp add: s3_def v2)
  have runs: "env_runs (demoted (envs s) (curenv s) e) = env_runs (envs s e)"
    by (auto simp: demoted_def split: option.splits)
  have "unlock_kernel s2 = Some (s2\<lparr>kernel_lock := spin_initlock\<rparr>)"
    using lock s2 by (simp add: unlock_kernel_def spin_unlock_def xchg_def spin_initlock_def)
  moreover have "PADDR (env_pgdir (envs s2 e)) = Some (env_pgdir (envs s e) - KERNBASE)"
    using leD [OF pg] s1(1) s2(1) by (simp add: PADDR_def)
  ultimately have "env_run s e = env_pop_tf s3"
    by (simp add: env_run_def s1_def [symmetric] s2_def [symmetric] s3_def)
  also have "\<dots> = Some (upd_env e (\<lambda>v. v\<lparr>env_cpunum := word_of_nat (cpunum s)\<rparr>) s3)"
    using s3 by (simp add: env_pop_tf_def)
  finally show ?thesis
    using s1(1) s2 s3 v3 runs by simp
qed

subsection \<open>What the scheduler guarantees\<close>

lemma sched_start_sel:
  assumes "sched_start s = (i, s1)"
  shows "envs s1 = demoted (envs s) (curenv s)" "cpunum s1 = cpunum s" "curenv s1 = curenv s"
    "kernel_lock s1 = kernel_lock s" "cpus s1 = cpus s" "env_free_list s1 = env_free_list s"
    "vm_inv base D fl s1 = vm_inv base D fl s"
    "i = (case curenv s of None \<Rightarrow> 0 | Some c \<Rightarrow> if env_status (envs s c) = ENV_RUNNING then c + 1 else c)"
  using assms by (auto simp: sched_start_def demoted_def split: option.splits if_splits)

text \<open>\<open>live_ok s\<close>: every environment that is not free has a page directory, and the caller holds the
  kernel lock.\<close>

definition live_ok :: "kstate \<Rightarrow> bool" where
  "live_ok s \<longleftrightarrow> holding (cpunum s) (kernel_lock s) \<and> cpunum s < NENV \<and>
     (\<forall>e<NENV. env_status (envs s e) \<noteq> ENV_FREE \<longrightarrow> KERNBASE \<le> env_pgdir (envs s e))"

lemma demoted_free: "env_status (demoted es c e) = ENV_FREE \<longleftrightarrow> env_status (es e) = ENV_FREE"
  by (auto simp: demoted_def layout split: option.splits)

lemma sched_run:
  assumes "live_ok s" "sched_start s = (i, s1)" "e < NENV" "env_status (envs s1 e) \<noteq> ENV_FREE"
  shows "\<exists>s'. env_run s1 e = Some s' \<and> curenv s' = Some e \<and> cpunum s' = cpunum s \<and>
    envs s' = (demoted (envs s) (curenv s))(e := (demoted (envs s) (curenv s) e)
      \<lparr>env_status := ENV_RUNNING, env_runs := env_runs (envs s1 e) + 1, env_cpunum := word_of_nat (cpunum s)\<rparr>) \<and>
    (\<forall>c. c \<noteq> cpunum s \<longrightarrow> cpus s' c = cpus s c) \<and> cr3 s' = env_pgdir (envs s e) - KERNBASE \<and>
    kernel_lock s' = spin_initlock \<and> (\<forall>base D fl. vm_inv base D fl s' = vm_inv base D fl s)"
proof -
  note S = sched_start_sel [OF assms(2)]
  have "holding (cpunum s1) (kernel_lock s1)" "KERNBASE \<le> env_pgdir (envs s1 e)"
    using assms S by (auto simp: live_ok_def demoted_free)
  from env_run_eq [OF this] show ?thesis
    using S by auto
qed

text \<open>The slot the circular search should start with: the one after the environment that was running
  here, that environment's own slot when it no longer runs, slot 0 when there was none.\<close>

definition start_slot :: "kstate \<Rightarrow> nat" where
  "start_slot s = (case curenv s of None \<Rightarrow> 0 | Some c \<Rightarrow> if env_status (envs s c) = ENV_RUNNING then c + 1 else c)"

lemma sched_picks:
  assumes "live_ok s" "e < NENV" "schedulable (demoted (envs s) (curenv s) e)"
  shows "\<exists>x s'. sched_scan (demoted (envs s) (curenv s)) (start_slot s) NENV = Some x \<and> x < NENV \<and>
    sched_yield s = Some (Run, s') \<and> curenv s' = Some x \<and> env_status (envs s' x) = ENV_RUNNING \<and>
    env_runs (envs s' x) = env_runs (envs s x) + 1 \<and> (\<forall>y. env_pgdir (envs s' y) = env_pgdir (envs s y)) \<and>
    (\<forall>y. y \<noteq> x \<longrightarrow> envs s' y = demoted (envs s) (curenv s) y) \<and>
    cpunum s' = cpunum s \<and> cr3 s' = env_pgdir (envs s x) - KERNBASE \<and> kernel_lock s' = spin_initlock"
proof -
  obtain i s1 where st: "sched_start s = (i, s1)"
    by fastforce
  note S = sched_start_sel [OF st, folded start_slot_def]
  obtain x where x: "sched_scan (envs s1) i NENV = Some x"
    using sched_scan_None [of "envs s1" i] assms(2,3) S(1) by (cases "sched_scan (envs s1) i NENV") auto
  then have "x < NENV" "schedulable (envs s1 x)"
    unfolding sched_scan_Some by (auto simp: layout)
  then have X: "x < NENV" "env_status (envs s1 x) \<noteq> ENV_FREE"
    by (auto simp: schedulable_def layout)
  have runs: "env_runs (envs s1 x) = env_runs (envs s x)"
    by (auto simp: S(1) demoted_def split: option.splits)
  from sched_run [OF assms(1) st X] obtain s' where "env_run s1 x = Some s'" "curenv s' = Some x" "cpunum s' = cpunum s"
    "envs s' = (demoted (envs s) (curenv s))(x := (demoted (envs s) (curenv s) x)
      \<lparr>env_status := ENV_RUNNING, env_runs := env_runs (envs s1 x) + 1, env_cpunum := word_of_nat (cpunum s)\<rparr>)"
    "cr3 s' = env_pgdir (envs s x) - KERNBASE" "kernel_lock s' = spin_initlock"
    by blast
  then show ?thesis
    using x X(1) st S(1,8) runs by (intro exI [of _ x] exI [of _ s']) (simp add: sched_yield_def)
qed

text \<open>C21. Round robin: with the kernel lock held, every live environment having a directory, and some
  environment \<open>e\<close> runnable (the one that was running counts as runnable) and not of the idle type,
  \<^verbatim>\<open>sched_yield\<close> runs the first such environment in circular order from the slot after the
  environment that was running here (from that environment itself when it was not running, from slot 0
  when there was none): that environment becomes current and running, its address space is
  installed, every other environment is as before, except that the one that was running is now runnable,
  and the lock is released.\<close>

theorem sched_yield_round_robin:
  assumes "live_ok s" "e < NENV" "schedulable (demoted (envs s) (curenv s) e)"
  shows "\<exists>k s'. let i = (case curenv s of None \<Rightarrow> 0 | Some c \<Rightarrow> if env_status (envs s c) = ENV_RUNNING then c + 1 else c);
      es = demoted (envs s) (curenv s); x = (i + k) mod NENV in
    k < NENV \<and> sched_yield s = Some (Run, s') \<and> schedulable (es x) \<and> (\<forall>j<k. \<not> schedulable (es ((i + j) mod NENV))) \<and>
    curenv s' = Some x \<and> env_status (envs s' x) = ENV_RUNNING \<and> env_runs (envs s' x) = env_runs (envs s x) + 1 \<and>
    (\<forall>y. y \<noteq> x \<longrightarrow> envs s' y = es y) \<and>
    cr3 s' = env_pgdir (envs s x) - KERNBASE \<and> kernel_lock s' = spin_initlock"
proof -
  obtain x s' where x: "sched_scan (demoted (envs s) (curenv s)) (start_slot s) NENV = Some x"
    "sched_yield s = Some (Run, s')" "curenv s' = Some x" "env_status (envs s' x) = ENV_RUNNING"
    "env_runs (envs s' x) = env_runs (envs s x) + 1" "\<forall>y. y \<noteq> x \<longrightarrow> envs s' y = demoted (envs s) (curenv s) y"
    "cr3 s' = env_pgdir (envs s x) - KERNBASE" "kernel_lock s' = spin_initlock"
    using sched_picks [OF assms] by blast
  from x(1) obtain k where "k < NENV" "x = (start_slot s + k) mod NENV" "schedulable (demoted (envs s) (curenv s) x)"
    "\<forall>j<k. \<not> schedulable (demoted (envs s) (curenv s) ((start_slot s + j) mod NENV))"
    unfolding sched_scan_Some by blast
  with x(2-) show ?thesis
    unfolding Let_def start_slot_def [symmetric] by (intro exI [of _ k] exI [of _ s']) simp
qed

definition ring_dist :: "nat \<Rightarrow> nat \<Rightarrow> nat" where
  "ring_dist i e = (e + NENV - i mod NENV) mod NENV"

lemma ring_dist_hit: "e < NENV \<Longrightarrow> (i + ring_dist i e) mod NENV = e"
proof -
  assume e: "e < NENV"
  have "(i + (e + NENV - i mod NENV) mod NENV) mod NENV = (i mod NENV + (e + NENV - i mod NENV)) mod NENV"
    by (metis mod_add_left_eq mod_add_right_eq)
  also have "i mod NENV + (e + NENV - i mod NENV) = e + NENV"
    by (simp add: layout trans_le_add2 less_imp_le)
  finally show ?thesis
    using e by (simp add: ring_dist_def)
qed

lemma ring_dist_less: "ring_dist i e < NENV"
  by (simp add: ring_dist_def layout)

lemma ring_dist_unique:
  assumes "(i + k) mod NENV = e" "k < NENV"
  shows "ring_dist i e = k"
proof -
  define r where "r = i mod 1024"
  have r: "r < 1024" and e: "e = (r + k) mod 1024" and k: "k < 1024"
    using assms by (simp_all add: r_def layout mod_add_left_eq)
  have "(e + 1024 - r) mod 1024 = k"
  proof (cases "r + k < 1024")
    case True
    with e k show ?thesis by simp
  next
    case False
    then have "e = r + k - 1024"
      using e r k by (simp add: mod_if)
    with False r k show ?thesis by simp
  qed
  then show ?thesis
    by (simp add: ring_dist_def layout r_def)
qed

lemma scan_advance:
  assumes "sched_scan es i NENV = Some x" "e < NENV" "schedulable (es e)" "e \<noteq> x"
  shows "\<exists>k. x = (i + k) mod NENV \<and> ring_dist (x + 1) e + Suc k = ring_dist i e"
proof -
  obtain k where k: "k < NENV" "x = (i + k) mod NENV" "\<forall>j<k. \<not> schedulable (es ((i + j) mod NENV))"
    using assms(1) unfolding sched_scan_Some by blast
  let ?d = "ring_dist i e"
  have hit: "(i + ?d) mod NENV = e"
    using assms(2) by (rule ring_dist_hit)
  have "k < ?d"
    using k hit assms(3,4) by (metis linorder_neqE_nat)
  moreover have "(x + 1 + (?d - k - 1)) mod NENV = e"
  proof -
    have "(x + 1 + (?d - k - 1)) mod NENV = (i + k + (1 + (?d - k - 1))) mod NENV"
      unfolding k(2) by (metis add.assoc mod_add_left_eq)
    also have "i + k + (1 + (?d - k - 1)) = i + ?d"
      using \<open>k < ?d\<close> by simp
    finally show ?thesis using hit by simp
  qed
  then have "ring_dist (x + 1) e = ?d - k - 1"
    using ring_dist_unique [of "x + 1" "?d - k - 1" e] ring_dist_less [of i e] by simp
  ultimately show ?thesis
    using k(2) by auto
qed

lemma scan_advance_self:
  assumes scan: "sched_scan es c NENV = Some x" and e: "e < NENV" "schedulable (es e)" "e \<noteq> x"
    and c: "c < NENV" "\<not> schedulable (es c)"
  shows "ring_dist (x + 1) e < ring_dist (c + 1) e"
proof -
  obtain k where k: "x = (c + k) mod NENV" "ring_dist (x + 1) e + Suc k = ring_dist c e"
    using scan_advance [OF scan e] by blast
  have "schedulable (es x)"
    using scan unfolding sched_scan_Some by blast
  then have "k \<noteq> 0"
    using k(1) c by (metis add.right_neutral mod_less)
  have "(c + 1 + (ring_dist c e - 1)) mod NENV = e"
    using ring_dist_hit [OF e(1), of c] k(2) by simp
  then have "ring_dist (c + 1) e = ring_dist c e - 1"
    using ring_dist_unique [of "c + 1" "ring_dist c e - 1" e] ring_dist_less [of c e] by simp
  with k(2) \<open>k \<noteq> 0\<close> show ?thesis by simp
qed

lemma demoted_schedulable: "schedulable (envs s e) \<Longrightarrow> schedulable (demoted (envs s) (curenv s) e)"
  by (auto simp: demoted_def schedulable_def layout split: option.splits)

text \<open>\<open>passed_over e n s u\<close>: from \<open>s\<close> to \<open>u\<close> this processor entered the scheduler \<open>n\<close> times while \<open>e\<close> was
  waiting to run, and each time another environment was chosen. Between two entries anything may happen,
  on this and on other processors, except that \<open>e\<close> keeps waiting and that the chosen environment is
  still this processor's current one when it comes back and has not been made runnable (it runs, or it
  has blocked).\<close>

inductive passed_over :: "nat \<Rightarrow> nat \<Rightarrow> kstate \<Rightarrow> kstate \<Rightarrow> bool" for e where
  none: "passed_over e 0 s s"
| pass: "passed_over e n s t \<Longrightarrow> live_ok t \<Longrightarrow> schedulable (envs t e) \<Longrightarrow> sched_yield t = Some (Run, t') \<Longrightarrow>
    curenv t' = Some x \<Longrightarrow> x \<noteq> e \<Longrightarrow> curenv u = Some x \<Longrightarrow> env_status (envs u x) \<noteq> ENV_RUNNABLE \<Longrightarrow>
    passed_over e (Suc n) s u"

text \<open>\<open>near e n u\<close>: after \<open>n\<close> passes, \<open>e\<close> is less than \<open>NENV - n\<close> slots behind the current environment.\<close>

definition near :: "nat \<Rightarrow> nat \<Rightarrow> kstate \<Rightarrow> bool" where
  "near e n u \<longleftrightarrow> n = 0 \<or> (\<exists>x<NENV. curenv u = Some x \<and> env_status (envs u x) \<noteq> ENV_RUNNABLE \<and>
     ring_dist (x + 1) e + n < NENV)"

lemma near_pass:
  assumes "near e n t" "live_ok t" "e < NENV" "schedulable (envs t e)" "sched_yield t = Some (Run, t')"
    "curenv t' = Some x" "x \<noteq> e"
  shows "x < NENV" "ring_dist (x + 1) e + Suc n < NENV"
proof -
  let ?es = "demoted (envs t) (curenv t)"
  have e: "schedulable (?es e)"
    by (rule demoted_schedulable [OF assms(4)])
  obtain y s' where y: "sched_scan ?es (start_slot t) NENV = Some y" "y < NENV" "sched_yield t = Some (Run, s')"
    "curenv s' = Some y"
    using sched_picks [OF assms(2,3) e] by blast
  with assms(5,6) have x: "sched_scan ?es (start_slot t) NENV = Some x" "x < NENV"
    by simp_all
  then show "x < NENV" by simp
  obtain k where k: "ring_dist (x + 1) e + Suc k = ring_dist (start_slot t) e"
    using scan_advance [OF x(1) assms(3) e] assms(7) by auto
  show "ring_dist (x + 1) e + Suc n < NENV"
  proof (cases "n = 0")
    case True
    then show ?thesis
      using k ring_dist_less [of "start_slot t" e] by simp
  next
    case False
    then obtain c where c: "c < NENV" "curenv t = Some c" "env_status (envs t c) \<noteq> ENV_RUNNABLE"
      "ring_dist (c + 1) e + n < NENV"
      using assms(1) by (auto simp: near_def)
    have "ring_dist (x + 1) e < ring_dist (c + 1) e"
    proof (cases "env_status (envs t c) = ENV_RUNNING")
      case True
      then show ?thesis
        using k c(2) by (simp add: start_slot_def)
    next
      case False
      then have "start_slot t = c" "\<not> schedulable (?es c)"
        using c(2,3) by (simp_all add: start_slot_def demoted_def schedulable_def)
      then show ?thesis
        using scan_advance_self [of ?es c x e] x(1) assms(3,7) e c(1) by auto
    qed
    with c(4) show ?thesis by simp
  qed
qed

lemma passed_over_near: "passed_over e n s u \<Longrightarrow> e < NENV \<Longrightarrow> near e n u"
proof (induction rule: passed_over.induct)
  case (pass n s t t' x u)
  from near_pass [OF pass.IH [OF pass.prems] pass.hyps(2) pass.prems pass.hyps(3-6)] pass.hyps(7,8)
  show ?case by (auto simp: near_def)
qed (simp add: near_def)

text \<open>C22. Progress of the scheduler: an environment that waits to run is passed over by a processor fewer
  than \<^verbatim>\<open>NENV\<close> times in a row, whatever the other environments and processors do in between, as long as
  the environments chosen instead of it remain the current ones of that processor and are not set
  runnable by someone else. Every further call of \<^verbatim>\<open>sched_yield\<close> again runs an environment, and the
  one after \<^verbatim>\<open>NENV - 1\<close> passes runs the waiting one.\<close>

theorem sched_progress:
  assumes "passed_over e n s u" "e < NENV" "live_ok u" "schedulable (envs u e)"
  shows "n < NENV \<and> (\<exists>x s'. sched_yield u = Some (Run, s') \<and> curenv s' = Some x \<and>
    env_status (envs s' x) = ENV_RUNNING \<and> (n = NENV - 1 \<longrightarrow> x = e))"
proof -
  note near = passed_over_near [OF assms(1,2)]
  then have n: "n < NENV"
    by (auto simp: near_def NENV_def)
  obtain x s' where x: "sched_yield u = Some (Run, s')" "curenv s' = Some x" "env_status (envs s' x) = ENV_RUNNING"
    using sched_picks [OF assms(3,2) demoted_schedulable [OF assms(4)]] by blast
  have "x = e" if "n = NENV - 1"
    using near_pass(2) [OF near assms(3,2,4) x(1,2)] that by (auto simp: NENV_def)
  with n x show ?thesis by blast
qed

definition demo_two :: kstate where
  "demo_two = upd_env 5 (\<lambda>v. v\<lparr>env_id := 0x1005, env_status := ENV_RUNNABLE, env_pgdir := 0xF0004000\<rparr>) demo_run"

lemma demo_two_sel:
  "live_ok demo_two" "sched_start demo_two = (1, upd_env 0 (\<lambda>v. v\<lparr>env_status := ENV_RUNNABLE\<rparr>) demo_two)"
  by (auto simp: live_ok_def sched_start_def demo_two_def holding_def layout demo_env_def kpage_def page2pa_def)

theorem sched_yield_round_robin_witness:
  "\<exists>s'. sched_yield demo_two = Some (Run, s') \<and> curenv s' = Some 5 \<and> env_status (envs s' 0) = ENV_RUNNABLE \<and>
     kernel_lock s' = spin_initlock"
proof -
  let ?es = "demoted (envs demo_two) (curenv demo_two)"
  have c: "curenv demo_two = Some 0" "env_status (envs demo_two 0) = ENV_RUNNING"
    by (simp_all add: demo_two_def)
  have sch: "schedulable (?es y) \<longleftrightarrow> y = 0 \<or> y = 5" for y
    by (auto simp: demoted_def schedulable_def demo_two_def demo_env_def layout)
  have st: "(case curenv demo_two of None \<Rightarrow> 0 | Some c \<Rightarrow> if env_status (envs demo_two c) = ENV_RUNNING then c + 1 else c) = 1"
    using c by simp
  obtain k s' where k: "sched_yield demo_two = Some (Run, s')" "schedulable (?es ((1 + k) mod NENV))"
    "\<forall>j<k. \<not> schedulable (?es ((1 + j) mod NENV))" "curenv s' = Some ((1 + k) mod NENV)"
    "\<forall>y. y \<noteq> (1 + k) mod NENV \<longrightarrow> envs s' y = ?es y" "kernel_lock s' = spin_initlock"
    using sched_yield_round_robin [OF demo_two_sel(1), of 5] sch [of 5] unfolding Let_def st by (auto simp: NENV_def)
  have "\<not> 4 < k"
  proof
    assume "4 < k"
    with k(3) have "\<not> schedulable (?es ((1 + 4) mod NENV))" by blast
    then show False
      using sch by (simp add: NENV_def)
  qed
  then have "k = 4"
    using k(2) sch by (auto simp: NENV_def)
  then have "(1 + k) mod NENV = 5"
    by (simp add: layout)
  then show ?thesis
    using k c by (auto simp: demoted_def layout)
qed

definition demo_three :: kstate where
  "demo_three = upd_env 7 (\<lambda>v. v\<lparr>env_id := 0x1007, env_status := ENV_RUNNABLE, env_pgdir := 0xF0003000\<rparr>) demo_two"

theorem sched_progress_witness:
  "\<exists>u x s'. passed_over 7 1 demo_three u \<and> sched_yield u = Some (Run, s') \<and> curenv s' = Some x \<and>
     env_status (envs s' x) = ENV_RUNNING"
proof -
  have ok: "live_ok demo_three"
    using demo_two_sel(1) by (auto simp: live_ok_def demo_three_def layout)
  have c: "curenv demo_three = Some 0" "env_status (envs demo_three 0) = ENV_RUNNING" "cpunum demo_three = 0"
    by (simp_all add: demo_three_def demo_two_def)
  have sch: "schedulable (envs demo_three 7)" "7 < NENV"
    by (simp_all add: schedulable_def demo_three_def demo_two_def demo_env_def layout)
  obtain x t' where t': "sched_scan (demoted (envs demo_three) (curenv demo_three)) (start_slot demo_three) NENV = Some x"
    "sched_yield demo_three = Some (Run, t')" "curenv t' = Some x" "env_status (envs t' x) = ENV_RUNNING"
    "\<forall>y. env_pgdir (envs t' y) = env_pgdir (envs demo_three y)"
    "\<forall>y. y \<noteq> x \<longrightarrow> envs t' y = demoted (envs demo_three) (curenv demo_three) y" "cpunum t' = cpunum demo_three"
    using sched_picks [OF ok sch(2) demoted_schedulable [OF sch(1)]] by blast
  have "sched_scan (demoted (envs demo_three) (curenv demo_three)) (start_slot demo_three) NENV = Some 5"
    unfolding sched_scan_Some c(1)
    by (rule exI [of _ 4]) (auto simp: start_slot_def demoted_def schedulable_def demo_three_def demo_two_def demo_env_def layout)
  with t'(1) have x: "x = 5" by simp
  define u where "u = t'\<lparr>kernel_lock := \<lparr>locked = 1, lk_cpu = Some 0\<rparr>\<rparr>"
  have u: "envs u = envs t'" "curenv u = Some 5" "cpunum u = 0" "kernel_lock u = \<lparr>locked = 1, lk_cpu = Some 0\<rparr>"
    using t'(3,7) c(3) x by (simp_all add: u_def curenv_def)
  have free: "env_status (envs t' y) = ENV_FREE \<longleftrightarrow> env_status (envs demo_three y) = ENV_FREE" for y
    using t'(4,6) x demoted_free [of "envs demo_three"]
    by (cases "y = 5") (auto simp: demo_three_def demo_two_def layout)
  have ok': "live_ok u"
    using ok t'(5) free by (simp add: live_ok_def u holding_def NENV_def)
  have "schedulable (envs u 7)"
    using t'(6) x demoted_schedulable [OF sch(1)] by (simp add: u)
  moreover have "passed_over 7 1 demo_three u"
    using passed_over.pass [OF passed_over.none ok sch(1) t'(2,3), of u] t'(4) x u by (simp add: layout)
  ultimately show ?thesis
    using sched_progress [of 7 1 demo_three u] ok' sch(2) by blast
qed

text \<open>\<open>cpu_inv s\<close>: the processors other than the executing one run an environment that is marked running
  (or dying), no environment is current on two processors, an idle environment is current only on
  its own processor, and the executing processor's idle slot has the idle type.\<close>

definition cpu_inv :: "kstate \<Rightarrow> bool" where
  "cpu_inv s \<longleftrightarrow>
     (\<forall>c e. c \<noteq> cpunum s \<longrightarrow> cpu_env (cpus s c) = Some e \<longrightarrow>
        env_status (envs s e) = ENV_RUNNING \<or> env_status (envs s e) = ENV_DYING) \<and>
     (\<forall>c c' e. cpu_env (cpus s c) = Some e \<longrightarrow> cpu_env (cpus s c') = Some e \<longrightarrow> c = c') \<and>
     (\<forall>c e. cpu_env (cpus s c) = Some e \<longrightarrow> env_type (envs s e) = ENV_TYPE_IDLE \<longrightarrow> e = c) \<and>
     env_type (envs s (cpunum s)) = ENV_TYPE_IDLE"

lemma sched_choice:
  assumes "sched_yield s = Some (Run, s')" "live_ok s" "cpu_inv s"
  shows "\<exists>e s1 i. sched_start s = (i, s1) \<and> env_run s1 e = Some s' \<and> e < NENV \<and> env_status (envs s1 e) \<noteq> ENV_FREE \<and>
    (\<forall>c. c \<noteq> cpunum s \<longrightarrow> cpu_env (cpus s c) \<noteq> Some e) \<and>
    (env_type (envs s e) = ENV_TYPE_IDLE \<longrightarrow> e = cpunum s)"
proof -
  obtain i s1 where st: "sched_start s = (i, s1)"
    by fastforce
  note S = sched_start_sel [OF st]
  have d: "env_status (envs s e) = env_status (envs s1 e)" if "c \<noteq> cpunum s" "cpu_env (cpus s c) = Some e" for c e
  proof -
    have "curenv s \<noteq> Some e"
      using assms(3) that by (auto simp: cpu_inv_def curenv_def)
    then show ?thesis
      by (auto simp: S(1) demoted_def split: option.splits)
  qed
  show ?thesis
  proof (cases "sched_scan (envs s1) i NENV")
    case (Some e)
    then have "env_run s1 e = Some s'"
      using assms(1) st by (auto simp: sched_yield_def split: bind_splits)
    moreover have "schedulable (envs s1 e)" "e < NENV"
      using Some unfolding sched_scan_Some by (auto simp: layout)
    ultimately have e: "env_run s1 e = Some s'" "schedulable (envs s1 e)" "e < NENV" .
    have "cpu_env (cpus s c) \<noteq> Some e" if "c \<noteq> cpunum s" for c
      using assms(3) d [OF that] e(2) that by (auto simp: cpu_inv_def schedulable_def layout)
    with st e show ?thesis
      by (auto simp: schedulable_def layout S(1))
  next
    case None
    then have e: "env_run s1 (cpunum s) = Some s'" "env_status (envs s1 (cpunum s)) \<noteq> ENV_FREE"
      using assms(1) st S(2) by (auto simp: sched_yield_def Let_def layout split: bind_splits if_splits)
    have "cpu_env (cpus s c) \<noteq> Some (cpunum s)" if "c \<noteq> cpunum s" for c
      using assms(3) that by (auto simp: cpu_inv_def)
    with st e assms(2) show ?thesis
      by (auto simp: live_ok_def)
  qed
qed

text \<open>C23. No environment runs on two processors: from a state in which that holds, \<^verbatim>\<open>sched_yield\<close> leads to user
  mode only in a state in which every processor's current environment is marked running or dying
  and is current on that processor alone, and the chosen one was current nowhere else.\<close>

theorem sched_yield_exclusive:
  assumes "sched_yield s = Some (Run, s')" "live_ok s" "cpu_inv s"
  shows "cpu_inv s' \<and> (\<exists>e. curenv s' = Some e \<and> env_status (envs s' e) = ENV_RUNNING \<and>
    (\<forall>c. c \<noteq> cpunum s' \<longrightarrow> cpu_env (cpus s' c) \<noteq> Some e))"
proof -
  obtain e s1 i where e: "sched_start s = (i, s1)" "env_run s1 e = Some s'" "e < NENV" "env_status (envs s1 e) \<noteq> ENV_FREE"
    "\<And>c. c \<noteq> cpunum s \<Longrightarrow> cpu_env (cpus s c) \<noteq> Some e" "env_type (envs s e) = ENV_TYPE_IDLE \<Longrightarrow> e = cpunum s"
    using sched_choice [OF assms] by blast
  from sched_run [OF assms(2) e(1,3,4)] e(2) have s': "curenv s' = Some e" "cpunum s' = cpunum s"
    "\<And>c. c \<noteq> cpunum s \<Longrightarrow> cpus s' c = cpus s c" "env_status (envs s' e) = ENV_RUNNING"
    "\<And>x. x \<noteq> e \<Longrightarrow> envs s' x = demoted (envs s) (curenv s) x" "\<And>x. env_type (envs s' x) = env_type (envs s x)"
    by auto
  have cur: "cpu_env (cpus s' (cpunum s)) = Some e"
    using s'(1,2) by (simp add: curenv_def)
  have "cpu_inv s'"
    unfolding cpu_inv_def s'(2)
  proof (intro conjI allI impI)
    fix c x assume c: "c \<noteq> cpunum s" "cpu_env (cpus s' c) = Some x"
    then have "x \<noteq> e" "curenv s \<noteq> Some x" and x: "cpu_env (cpus s c) = Some x"
      using s'(3) e(5) assms(3) by (auto simp: cpu_inv_def curenv_def)
    then have "envs s' x = envs s x"
      using s'(5) by (auto simp: demoted_def split: option.splits)
    then show "env_status (envs s' x) = ENV_RUNNING \<or> env_status (envs s' x) = ENV_DYING"
      using assms(3) c(1) x by (simp add: cpu_inv_def)
  next
    fix c c' x assume "cpu_env (cpus s' c) = Some x" "cpu_env (cpus s' c') = Some x"
    then show "c = c'"
      using s'(3) e(5) cur assms(3) unfolding cpu_inv_def by (metis option.inject)
  next
    fix c x assume "cpu_env (cpus s' c) = Some x" "env_type (envs s' x) = ENV_TYPE_IDLE"
    then show "x = c"
      using s'(3,6) e(6) cur assms(3) unfolding cpu_inv_def by (metis option.inject)
  next
    show "env_type (envs s' (cpunum s)) = ENV_TYPE_IDLE"
      using s'(6) assms(3) by (simp add: cpu_inv_def)
  qed
  then show ?thesis
    using s' e(5) by auto
qed

theorem sched_yield_exclusive_witness:
  "\<exists>s'. sched_yield (upd_env 0 (\<lambda>v. v\<lparr>env_type := ENV_TYPE_IDLE\<rparr>) demo_two) = Some (Run, s') \<and> cpu_inv s'"
proof -
  let ?s = "upd_env 0 (\<lambda>v. v\<lparr>env_type := ENV_TYPE_IDLE\<rparr>) demo_two"
  have cpus: "cpu_env (cpus demo_run c) = (if c = 0 then Some 0 else None)" for c
    by (simp add: demo_run_def set_curenv_def demo_def)
  have inv: "cpu_inv ?s" and ok: "live_ok ?s"
    by (auto simp: cpu_inv_def cpus live_ok_def demo_two_def holding_def layout demo_env_def kpage_def page2pa_def
        split: if_splits)
  obtain i s1 where st: "sched_start ?s = (i, s1)"
    by fastforce
  have sc: "sched_scan (envs s1) i NENV = Some 5"
    using st unfolding sched_scan_Some
    by (auto simp: sched_start_def schedulable_def demo_two_def demo_env_def layout intro!: exI [of _ 4])
  have "env_status (envs s1 5) \<noteq> ENV_FREE"
    using st by (auto simp: sched_start_def demo_two_def layout)
  from sched_run [OF ok st _ this] obtain s' where "env_run s1 5 = Some s'"
    by (auto simp: layout)
  then have "sched_yield ?s = Some (Run, s')"
    using sc st by (simp add: sched_yield_def)
  then show ?thesis
    using sched_yield_exclusive [OF _ ok inv] by blast
qed

end
