(* ===== verification/Usermem.thy ===== *)
theory Usermem
  imports Sched
begin

section \<open>Checking user pointers\<close>

text \<open>
  \<^verbatim>\<open>user_mem_check\<close> and \<^verbatim>\<open>user_mem_assert\<close> of \<^verbatim>\<open>kern/pmap.c\<close>, with the loop as it is written: the position
  \<^verbatim>\<open>va_cnt\<close> and the remaining length \<^verbatim>\<open>iterate_len\<close> advance together, and the test at the end of
  each round compares with \<^verbatim>\<open>va + len\<close> in 32-bit arithmetic.
\<close>

subsection \<open>Operations\<close>

partial_function (option) user_mem_loop ::
    "kstate \<Rightarrow> u32 \<Rightarrow> u32 \<Rightarrow> u32 \<Rightarrow> u32 \<Rightarrow> u32 \<Rightarrow> u32 \<Rightarrow> (int \<times> kstate) option" where
  "user_mem_loop s pgdir va len check_perm va_cnt iterate_len =
     (let err = (- E_FAULT, s\<lparr>user_mem_check_addr :=
            (if iterate_len = len then va else ROUNDDOWN va_cnt PGSIZE)\<rparr>)
      in if ULIM \<le> va_cnt then Some err
         else do {
           (pte_p, s1) \<leftarrow> pgdir_walk s pgdir va_cnt False;
           (if pte_p = 0 \<or> check_perm \<noteq> check_perm AND kld s1 pte_p then Some err
            else let il' = (if iterate_len < PGSIZE then iterate_len else iterate_len - PGSIZE);
                     va' = (if iterate_len < PGSIZE then va_cnt + iterate_len else va_cnt + PGSIZE)
                 in if va' < va + len then user_mem_loop s pgdir va len check_perm va' il'
                    else Some (0, s))
         })"

definition user_mem_check :: "kstate \<Rightarrow> nat \<Rightarrow> u32 \<Rightarrow> u32 \<Rightarrow> u32 \<Rightarrow> (int \<times> kstate) option" where
  "user_mem_check s e va len perm =
     user_mem_loop s (env_pgdir (envs s e)) va len (perm OR PTE_P) va len"

definition user_mem_assert :: "kstate \<Rightarrow> nat \<Rightarrow> u32 \<Rightarrow> u32 \<Rightarrow> u32 \<Rightarrow> (unit flow \<times> kstate) option" where
  "user_mem_assert s e va len perm =
     do {
       (r, s1) \<leftarrow> user_mem_check s e va len (perm OR PTE_U);
       (if r < 0 then env_destroy s1 e else Some (Ret (), s1))
     }"

subsection \<open>What one round looks at\<close>

text \<open>\<open>dir_ok s d\<close>: frame \<open>d\<close> holds a directory all of whose tables exist. \<open>allows s d perm x\<close>: address \<open>x\<close>
  is below \<open>ULIM\<close> and its page table entry has all bits of \<open>perm\<close>.\<close>

definition dir_ok :: "kstate \<Rightarrow> nat \<Rightarrow> bool" where
  "dir_ok s d \<longleftrightarrow> d < unat (npages s) \<and> unat (npages s) \<le> 65536 \<and>
     (\<forall>i. unat i < 1024 \<longrightarrow> present (entry s d i) \<longrightarrow> frame (entry s d i) < unat (npages s))"

definition allows :: "kstate \<Rightarrow> nat \<Rightarrow> u32 \<Rightarrow> u32 \<Rightarrow> bool" where
  "allows s d perm x \<longleftrightarrow> x < ULIM \<and> present (entry s d (PDX x)) \<and>
     perm = perm AND entry s (frame (entry s d (PDX x))) (PTX x)"

lemma walk_dir_ok:
  assumes "dir_ok s d"
  shows "pgdir_walk s (kpage d) va False =
    Some (if present (entry s d (PDX va)) then slot (kpage (frame (entry s d (PDX va)))) (PTX va) else 0, s)"
  using assms PDX_less [of va]
  by (auto simp: dir_ok_def pgdir_walk_def kld_kpage Let_def PTE_P_test pa2page_frame page2kva_kpage)

lemma allows_page: "PGNUM x = PGNUM y \<Longrightarrow> x < ULIM \<longleftrightarrow> y < ULIM \<Longrightarrow> allows s d perm x \<longleftrightarrow> allows s d perm y"
  unfolding PGNUM_eq_iff by (simp add: allows_def)

lemma user_mem_round:
  assumes "dir_ok s d"
  shows "user_mem_loop s (kpage d) va len perm x il =
    (if allows s d perm x
     then let il' = (if il < PGSIZE then il else il - PGSIZE);
              x' = (if il < PGSIZE then x + il else x + PGSIZE)
          in if x' < va + len then user_mem_loop s (kpage d) va len perm x' il' else Some (0, s)
     else Some (- E_FAULT, s\<lparr>user_mem_check_addr := (if il = len then va else ROUNDDOWN x PGSIZE)\<rparr>))"
proof (cases "present (entry s d (PDX x))")
  case True
  then have "frame (entry s d (PDX x)) < 65536"
    using assms PDX_less [of x] unfolding dir_ok_def by (meson less_le_trans)
  then have "slot (kpage (frame (entry s d (PDX x)))) (PTX x) \<noteq> 0"
    using slot_kpage_nonzero PTX_less by blast
  then show ?thesis
    using True
    by (subst user_mem_loop.simps) (auto simp: walk_dir_ok [OF assms] allows_def kld_kpage Let_def not_le)
next
  case False
  then show ?thesis
    by (subst user_mem_loop.simps) (simp add: walk_dir_ok [OF assms] allows_def Let_def)
qed

subsection \<open>The whole loop\<close>

text \<open>The loop keeps \<open>x + il = va + len\<close>, so a round with less than a page left is the last one.\<close>

lemma user_mem_total:
  assumes "dir_ok s d" "x + il = va + len"
  shows "\<exists>r s'. user_mem_loop s (kpage d) va len perm x il = Some (r, s') \<and> (r = 0 \<and> s' = s \<or>
    r = - E_FAULT \<and> (\<exists>a. s' = s\<lparr>user_mem_check_addr := a\<rparr>))"
  using assms(2)
proof (induction "unat il" arbitrary: x il rule: less_induct)
  case less
  show ?case
  proof (cases "il < PGSIZE")
    case True
    then show ?thesis
      using less.prems by (subst user_mem_round [OF assms(1)]) (auto simp: Let_def)
  next
    case False
    have lt: "unat (il - PGSIZE) < unat il" and eq: "x + PGSIZE + (il - PGSIZE) = va + len"
      using False less.prems by (auto simp: layout unat_sub word_le_nat_alt not_less)
    show ?thesis
      using less.hyps [OF lt eq] False by (subst user_mem_round [OF assms(1)]) (auto simp: Let_def)
  qed
qed

text \<open>What success says: every address at a multiple of the page size from the start allows the access.\<close>

lemma user_mem_samples:
  assumes d: "dir_ok s d" and w: "unat x + unat il < 4294967296" "x + il = va + len"
    and r: "user_mem_loop s (kpage d) va len perm x il = Some (0, s')"
    and k: "k = 0 \<or> k * 4096 < unat il"
  shows "allows s d perm (x + word_of_nat (k * 4096))"
  using w r k
proof (induction k arbitrary: x il)
  case 0
  then show ?case
    using user_mem_round [OF d, of va len perm x il] by (auto simp: layout split: if_splits)
next
  case (Suc k)
  have il: "\<not> il < PGSIZE" "4096 \<le> unat il"
    using Suc.prems(4) by (auto simp: layout word_less_nat_alt)
  have un: "unat (il - PGSIZE) = unat il - 4096" "unat (x + PGSIZE) = unat x + 4096"
    using il Suc.prems(1) unat_add_no_wrap [of x 4096] by (auto simp: layout unat_sub word_le_nat_alt)
  have more: "x + PGSIZE < va + len"
  proof -
    have "unat (va + len) = unat x + unat il"
      using Suc.prems(1,2) unat_add_no_wrap [of x il] by simp
    then show ?thesis
      using un Suc.prems(4) by (simp add: word_less_nat_alt)
  qed
  have "user_mem_loop s (kpage d) va len perm (x + PGSIZE) (il - PGSIZE) = Some (0, s')"
    using Suc.prems(3) il more user_mem_round [OF d, of va len perm x il]
    by (auto simp: layout split: if_splits)
  then have "allows s d perm (x + PGSIZE + word_of_nat (k * 4096))"
    by (rule Suc.IH [rotated 2]) (use Suc.prems un il in auto)
  then show ?case
    by (simp add: layout algebra_simps)
qed

subsection \<open>What the check guarantees\<close>

text \<open>C27. \<^verbatim>\<open>user_mem_check\<close> always returns, with 0 or \<^verbatim>\<open>-E_FAULT\<close>, never panics on a directory whose tables
  exist, and changes nothing but \<^verbatim>\<open>user_mem_check_addr\<close>.\<close>

theorem user_mem_check_total:
  assumes "dir_ok s d" "env_pgdir (envs s e) = kpage d"
  shows "\<exists>r s'. user_mem_check s e va len perm = Some (r, s') \<and> (r = 0 \<and> s' = s \<or>
    r = - E_FAULT \<and> (\<exists>a. s' = s\<lparr>user_mem_check_addr := a\<rparr>))"
  unfolding user_mem_check_def assms(2) by (rule user_mem_total [OF assms(1) refl])

text \<open>C26. Soundness for page-aligned buffers: when \<^verbatim>\<open>user_mem_check\<close> accepts an aligned range that does not
  wrap around, every byte of it is below \<^verbatim>\<open>ULIM\<close> and lies in a page whose entry has all the
  permissions asked for and is present.\<close>

theorem user_mem_check_sound:
  assumes "dir_ok s d" "env_pgdir (envs s e) = kpage d" "page_aligned va" "unat va + unat len < 4294967296"
    "user_mem_check s e va len perm = Some (0, s')" "va \<le> x" "x < va + len"
  shows "allows s d (perm OR PTE_P) x"
proof -
  define k where "k = unat (x - va) div 4096"
  have xv: "unat (x - va) = unat x - unat va" "unat va \<le> unat x"
    using assms(6) by (simp_all add: unat_sub word_le_nat_alt)
  have "unat x < unat va + unat len"
    using assms(4,7) unat_add_no_wrap [of va len] by (simp add: word_less_nat_alt)
  then have "k * 4096 < unat len"
    using xv by (simp add: k_def)
  then have "allows s d (perm OR PTE_P) (va + word_of_nat (k * 4096))"
    using user_mem_samples [OF assms(1,4) refl, of "perm OR PTE_P" s' k] assms(2,5) by (simp add: user_mem_check_def)
  moreover obtain m where m: "unat va = 4096 * m" "m < 1048576"
    using assms(3) by (rule page_aligned_obtain)
  have y: "unat (va + word_of_nat (k * 4096)) = 4096 * (m + k)"
  proof -
    have "k * 4096 < 4294967296"
      using \<open>k * 4096 < unat len\<close> unat_u32_bound [of len] by linarith
    then have "unat (word_of_nat (k * 4096) :: u32) = k * 4096"
      by (subst unat_of_nat) simp
    then show ?thesis
      using unat_add_no_wrap [of va "word_of_nat (k * 4096)"] \<open>k * 4096 < unat len\<close> assms(4) m by simp
  qed
  have "unat x = 4096 * (m + k) + (unat x - unat va) mod 4096"
    using xv m by (simp add: k_def)
  then obtain r where r: "unat x = 4096 * (m + k) + r" "r < 4096"
    by (metis mod_less_divisor zero_less_numeral)
  then have "PGNUM x = PGNUM (va + word_of_nat (k * 4096))"
    using y by (simp add: word_unat_eq_iff unat_PGNUM)
  moreover have "x < ULIM \<longleftrightarrow> va + word_of_nat (k * 4096) < ULIM"
  proof -
    have "4096 * q + r < 4018143232 \<longleftrightarrow> 4096 * q < 4018143232" for q
    proof -
      have "4096 * q + r < 4018143232 \<longleftrightarrow> q < 980992" "4096 * q < 4018143232 \<longleftrightarrow> q < 980992"
        using r(2) by linarith+
      then show ?thesis by simp
    qed
    from this [of "m + k"] have "unat x < 4018143232 \<longleftrightarrow> unat (va + word_of_nat (k * 4096)) < 4018143232"
      unfolding y r(1) .
    then show ?thesis
      by (simp add: word_less_nat_alt layout)
  qed
  ultimately show ?thesis
    using allows_page by blast
qed

text \<open>C28. For an unaligned buffer shorter than a page the check looks only at the page of its first byte:
  a range that continues into the next page is accepted whatever that page is.\<close>

theorem user_mem_check_first_page_only:
  assumes "dir_ok s d" "env_pgdir (envs s e) = kpage d" "allows s d (perm OR PTE_P) va" "unat len < 4096"
  shows "user_mem_check s e va len perm = Some (0, s)"
  using assms user_mem_round [OF assms(1), of va len "perm OR PTE_P" va len]
  by (simp add: user_mem_check_def Let_def layout word_less_nat_alt)

text \<open>A range that wraps around the top of the address space is accepted after its first page, as
  soon as \<^verbatim>\<open>va + len\<close> in 32 bits is not above the start of the second page.\<close>

theorem user_mem_check_wraps:
  assumes "dir_ok s d" "env_pgdir (envs s e) = kpage d" "allows s d (perm OR PTE_P) va" "PGSIZE \<le> len"
    "va + len \<le> va + PGSIZE"
  shows "user_mem_check s e va len perm = Some (0, s)"
  using assms user_mem_round [OF assms(1), of va len "perm OR PTE_P" va len]
  by (simp add: user_mem_check_def Let_def leD)

subsection \<open>A concrete directory\<close>

text \<open>\<open>demo_mem\<close>: the directory in frame 1 maps exactly the page at \<^verbatim>\<open>0x800000\<close>, user writable, to frame 4;
  its table is in frame 2.\<close>

definition demo_mem :: kstate where
  "demo_mem = kst (slot (kpage 2) 0) 0x4007 (kst (slot (kpage 1) 2) 0x2007 demo_run)"

lemma demo_mem_entry:
  assumes "f < 65536" "unat i < 1024"
  shows "entry demo_mem f i = (if f = 2 \<and> i = 0 then 0x4007 else if f = 1 \<and> i = 2 then 0x2007 else 0)"
proof -
  have "entry demo_run = entry demo"
    by (rule entry_pmem_cong) (simp add: demo_run_def)
  then show ?thesis
    using assms by (simp add: demo_mem_def entry_kst)
qed

lemma demo_mem_dir: "dir_ok demo_mem 1" "env_pgdir (envs demo_mem 0) = kpage 1"
proof -
  have "frame 0x2007 = 2"
    by (simp add: frame_def PGNUM_def layout)
  moreover have "npages demo_mem = 8"
    by (simp add: demo_mem_def)
  ultimately show "dir_ok demo_mem 1"
    by (auto simp: dir_ok_def demo_mem_entry)
  show "env_pgdir (envs demo_mem 0) = kpage 1"
    by (simp add: demo_mem_def)
qed

lemma demo_mem_allows: "allows demo_mem 1 (PTE_U OR PTE_P) x \<longleftrightarrow> PDX x = 2 \<and> PTX x = 0"
proof -
  have fr: "frame 0x2007 = 2" "present 0x2007" "present 0x4007"
    by (simp_all add: frame_def PGNUM_def layout present_def)
  have "x < ULIM" if "PDX x = 2"
  proof -
    have "unat (PDX x) = 2" using that by simp
    then have "unat x < 4018143232"
      unfolding unat_PDX
      using div_mult_mod_eq [of "unat x" 4194304] mod_less_divisor [of 4194304 "unat x"] by linarith
    then show ?thesis
      by (simp add: word_less_nat_alt layout)
  qed
  then show ?thesis
    using fr by (auto simp: allows_def demo_mem_entry layout present_def split: if_splits)
qed

lemma demo_addr: "PDX 0x800000 = 2" "PTX 0x800000 = 0" "PDX 0x800FFF = 2" "PTX 0x800FFF = 0" "PTX 0x801000 = 1"
    "PDX 0x800800 = 2" "PTX 0x800800 = 0"
  by (simp_all add: PDX_def PTX_def layout)

lemma demo_mem_pages:
  "allows demo_mem 1 (PTE_U OR PTE_P) 0x800000" "allows demo_mem 1 (PTE_U OR PTE_P) 0x800FFF"
  "\<not> allows demo_mem 1 (PTE_U OR PTE_P) 0x801000"
  unfolding demo_mem_allows by (simp_all add: demo_addr)

theorem user_mem_check_total_witness:
  "\<exists>r s'. user_mem_check demo_mem 0 0x800000 100 PTE_U = Some (r, s')"
  using user_mem_check_total [OF demo_mem_dir, of "0x800000" 100 PTE_U] by blast

theorem user_mem_check_sound_witness:
  "allows demo_mem 1 (PTE_U OR PTE_P) 0x800800"
proof -
  have "user_mem_check demo_mem 0 0x800000 4096 PTE_U = Some (0, demo_mem)"
    using demo_mem_pages(1) user_mem_round [OF demo_mem_dir(1), of "0x800000" 4096 "PTE_U OR PTE_P" "0x800000" 4096]
    by (simp add: user_mem_check_def demo_mem_dir(2) layout Let_def)
  from user_mem_check_sound [OF demo_mem_dir _ _ this, of "0x800800"] show ?thesis
    by (simp add: page_aligned_def PGOFF_def)
qed

theorem user_mem_check_first_page_only_witness:
  "user_mem_check demo_mem 0 0x800FFF 2 PTE_U = Some (0, demo_mem) \<and> \<not> allows demo_mem 1 (PTE_U OR PTE_P) 0x801000"
  using user_mem_check_first_page_only [OF demo_mem_dir demo_mem_pages(2), of 2] demo_mem_pages(3) by simp

theorem user_mem_check_wraps_witness:
  "user_mem_check demo_mem 0 0x800000 0xFF800000 PTE_U = Some (0, demo_mem)"
  using user_mem_check_wraps [OF demo_mem_dir demo_mem_pages(1), of "0xFF800000"] by (simp add: layout)

end
