(* ===== verification/Kern_Inv.thy ===== *)
theory Kern_Inv
  imports Usermem
begin

section \<open>The invariant of the kernel\<close>

text \<open>
  One invariant for the state between system calls, that joins the page-table invariant with the
  environment table: the live address spaces are exactly the directories of the environments
  that are not free, no two environments share a directory, the free list holds exactly the free
  environments, page 0 is the kernel's, and no page the kernel holds is mapped in user space. This theory states it and shows how the operations of
  memory management and of the environment table keep it.
\<close>

definition live :: "kstate \<Rightarrow> nat \<Rightarrow> bool" where
  "live s e \<longleftrightarrow> e < NENV \<and> env_status (envs s e) \<noteq> ENV_FREE"

definition live_dirs :: "kstate \<Rightarrow> nat set" where
  "live_dirs s = {d. d < 65536 \<and> (\<exists>e. live s e \<and> env_pgdir (envs s e) = kpage d)}"

definition envs_ok :: "kstate \<Rightarrow> bool" where
  "envs_ok s \<longleftrightarrow> (\<forall>e. live s e \<longrightarrow> (\<exists>d<65536. env_pgdir (envs s e) = kpage d)) \<and>
     (\<forall>e e'. live s e \<longrightarrow> live s e' \<longrightarrow> env_pgdir (envs s e) = env_pgdir (envs s e') \<longrightarrow> e = e') \<and>
     (\<exists>l. linked (env_links s) (env_free_list s) l \<and> set l = {e. e < NENV \<and> env_status (envs s e) = ENV_FREE})"

definition mem_ok :: "(nat \<Rightarrow> nat) \<Rightarrow> nat \<Rightarrow> nat set \<Rightarrow> kstate \<Rightarrow> bool" where
  "mem_ok base k D s \<longleftrightarrow> (\<exists>fl. vm_inv base D fl s) \<and> kern_template base k s \<and> base 0 \<noteq> 0 \<and>
     (\<forall>q. base q \<noteq> 0 \<longrightarrow> mapset s D q = {})"

definition kern_inv :: "(nat \<Rightarrow> nat) \<Rightarrow> nat \<Rightarrow> kstate \<Rightarrow> bool" where
  "kern_inv base k s \<longleftrightarrow> mem_ok base k (live_dirs s) s \<and> envs_ok s"

lemma kpage_inject: "d < 65536 \<Longrightarrow> d' < 65536 \<Longrightarrow> kpage d = kpage d' \<longleftrightarrow> d = d'"
  by (simp add: kpage_def page2pa_inject)

lemma KERNBASE_kpage: "d < 65536 \<Longrightarrow> KERNBASE \<le> kpage d"
  using PADDR_kpage [of d] by (simp add: PADDR_def split: if_splits)

lemma live_dir:
  assumes "kern_inv base k s" "live s e"
  obtains d where "d \<in> live_dirs s" "d < 65536" "env_pgdir (envs s e) = kpage d"
  using assms unfolding kern_inv_def envs_ok_def live_dirs_def by blast

subsection \<open>Updates of the environment table that keep it\<close>

text \<open>\<open>env_same v w\<close>: the two environments agree on what the invariant looks at.\<close>

definition env_same :: "Env \<Rightarrow> Env \<Rightarrow> bool" where
  "env_same v w \<longleftrightarrow> (env_status w = ENV_FREE \<longleftrightarrow> env_status v = ENV_FREE) \<and> env_pgdir w = env_pgdir v \<and>
     env_link w = env_link v"

lemma envs_same:
  assumes "\<And>e. env_same (envs s e) (envs s' e)" "env_free_list s' = env_free_list s"
  shows "live s' = live s" "live_dirs s' = live_dirs s" "envs_ok s' = envs_ok s"
proof -
  have a: "env_status (envs s' e) = ENV_FREE \<longleftrightarrow> env_status (envs s e) = ENV_FREE"
    "env_pgdir (envs s' e) = env_pgdir (envs s e)" "env_link (envs s' e) = env_link (envs s e)" for e
    using assms(1) [of e] by (simp_all add: env_same_def)
  show l: "live s' = live s"
    by (simp add: live_def fun_eq_iff a)
  show "live_dirs s' = live_dirs s"
    by (simp add: live_dirs_def l a)
  have "env_links s' = env_links s"
    by (simp add: env_links_def fun_eq_iff a)
  then show "envs_ok s' = envs_ok s"
    by (simp add: envs_ok_def l a assms(2))
qed

lemma mapset_vm_cong: "pmem s' = pmem s \<Longrightarrow> mapset s' = mapset s"
  by (rule pte_cong(3), rule entry_pmem_cong)

lemma mem_ok_cong:
  assumes "npages s' = npages s" "pages s' = pages s" "page_free_list s' = page_free_list s" "pmem s' = pmem s"
    "kern_pgdir s' = kern_pgdir s"
  shows "mem_ok base k D s' = mem_ok base k D s"
  by (simp add: mem_ok_def vm_cong(3,6) [OF assms(1-4)] kern_template_def assms mapset_vm_cong [OF assms(4)])

lemma kern_inv_env:
  assumes "kern_inv base k s" "\<And>e. env_same (envs s e) (envs s' e)" "env_free_list s' = env_free_list s"
    "npages s' = npages s" "pages s' = pages s" "page_free_list s' = page_free_list s" "pmem s' = pmem s"
    "kern_pgdir s' = kern_pgdir s"
  shows "kern_inv base k s'"
  using assms(1) mem_ok_cong [OF assms(4-8)] envs_same [OF assms(2,3)] by (simp add: kern_inv_def)

lemma kern_inv_upd_env:
  assumes "kern_inv base k s" "env_same (envs s e) (f (envs s e))"
  shows "kern_inv base k (upd_env e f s)"
  by (rule kern_inv_env [OF assms(1)]) (use assms(2) in \<open>auto simp: env_same_def\<close>)

text \<open>An operation of memory management keeps the table, so it keeps the invariant when it keeps the
  memory part.\<close>

lemma kern_inv_mm:
  assumes "kern_inv base k s" "mm_frame s s'" "mem_ok base k (live_dirs s) s'"
  shows "kern_inv base k s'"
proof -
  have "env_same (envs s e) (envs s' e)" for e
    using mm_frame_sel(3) [OF assms(2)] by (simp add: env_same_def)
  from envs_same [OF this mm_frame_sel(4) [OF assms(2)]] show ?thesis
    using assms(1,3) by (simp add: kern_inv_def)
qed

subsection \<open>Memory operations\<close>

lemma mapset_empty_iff:
  "mapset s D q = {} \<longleftrightarrow> (\<forall>d \<in> D. \<forall>va e. user_pdx (PDX va) \<longrightarrow> vmap s d va = Some e \<longrightarrow> frame e \<noteq> q)"
proof (intro iffI ballI allI impI)
  fix d va e assume *: "mapset s D q = {}" "d \<in> D" "user_pdx (PDX va)" "vmap s d va = Some e"
  show "frame e \<noteq> q"
  proof
    assume "frame e = q"
    then have "(d, PDX va, PTX va) \<in> mapset s D q"
      using * PTX_less [of va] by (simp add: mapset_def vmap_eq_Some)
    with *(1) show False by simp
  qed
next
  assume *: "\<forall>d \<in> D. \<forall>va e. user_pdx (PDX va) \<longrightarrow> vmap s d va = Some e \<longrightarrow> frame e \<noteq> q"
  have False if x: "d \<in> D" "user_pdx i" "unat j < 1024" "present (pte s d i j)" "frame (pte s d i j) = q" for d i j
  proof -
    have "PDX (PGADDR i j 0) = i" "PTX (PGADDR i j 0) = j"
      using PDX_PGADDR [OF user_pdx_less [OF x(2)] x(3), of 0] by simp_all
    with * x show False
      by (auto simp: vmap_eq_Some dest!: bspec [of _ _ d] spec [of _ "PGADDR i j 0"])
  qed
  then show "mapset s D q = {}"
    by (auto simp: mapset_def)
qed

text \<open>How the memory part is kept by an operation that keeps the page invariant and what the kernel's own
  pages hold, and maps no page of the kernel anew.\<close>

lemma mem_okI:
  assumes ok: "mem_ok base k D s" and inv: "vm_inv base D' fl' s'" "kern_same base s s'"
    "npages s' = npages s" "kern_pgdir s' = kern_pgdir s"
    and new: "\<And>d va e. d \<in> D' \<Longrightarrow> user_pdx (PDX va) \<Longrightarrow> vmap s' d va = Some e \<Longrightarrow>
      base (frame e) = 0 \<or> d \<in> D \<and> vmap s d va = Some e"
  shows "mem_ok base k D' s'"
proof -
  have "unat (npages s) \<le> 65536"
    using vm_invD(9) [OF inv(1)] inv(3) by simp
  then have "kern_template base k s'"
    using ok kern_template_kept [OF _ inv(2-4)] by (simp add: mem_ok_def)
  moreover have "mapset s' D' q = {}" if q: "base q \<noteq> 0" for q
    unfolding mapset_empty_iff
  proof (intro ballI allI impI notI)
    fix d va e assume *: "d \<in> D'" "user_pdx (PDX va)" "vmap s' d va = Some e" "frame e = q"
    then have "d \<in> D" "vmap s d va = Some e"
      using new [OF *(1-3)] q by simp_all
    with ok q *(2,4) show False
      unfolding mem_ok_def mapset_empty_iff by blast
  qed
  ultimately show ?thesis
    using ok inv(1) by (auto simp: mem_ok_def)
qed

lemma frame_new_pte:
  assumes "p < 65536" "unat perm < 4096"
  shows "frame (page2pa p OR perm OR PTE_P) = p"
proof -
  have "unat (perm OR PTE_P) < 4096"
    using assms(2) by (auto intro: flags_or simp: layout)
  then show ?thesis
    using assms(1) frame_or_flags by simp
qed

lemma mem_ok_insert:
  assumes ok: "mem_ok base k D s" and d: "d \<in> D" "user_pdx (PDX va)" and p: "mappable D s p" "unat perm < 4096"
    and b: "base p = 0" and run: "page_insert s (kpage d) (Some p) va perm = Some (r, s')"
  shows "mem_ok base k D s'"
proof -
  obtain fl where inv: "vm_inv base D fl s"
    using ok by (auto simp: mem_ok_def)
  show ?thesis
  proof (cases "r = 0")
    case False
    then have "s' = s"
      using page_insert_run [OF inv d mappable_run [OF inv p(1)] p(2)] run by (auto simp: layout)
    with ok show ?thesis by simp
  next
    case True
    note O = page_insert_ok [OF inv d p run [unfolded True]]
    obtain fl' where inv': "vm_inv base D fl' s'"
      using O(1) by blast
    have "p < 65536"
      using p(1) vm_invD(9) [OF inv] by (auto simp: mappable_def)
    then show ?thesis
      by (intro mem_okI [OF ok inv' O(4) mm_frame_sel(1,2) [OF O(2)]])
        (auto simp: O(3) frame_new_pte p(2) b split: if_splits)
  qed
qed

lemma mem_ok_remove:
  assumes ok: "mem_ok base k D s" and d: "d \<in> D" "user_pdx (PDX va)"
    and run: "page_remove s (kpage d) va = Some s'"
  shows "mem_ok base k D s'"
proof -
  obtain fl where inv: "vm_inv base D fl s"
    using ok by (auto simp: mem_ok_def)
  note O = page_remove_ok [OF inv d run]
  obtain fl' where "vm_inv base D fl' s'"
    using O(1) by blast
  then show ?thesis
    by (rule mem_okI [OF ok _ O(4) mm_frame_sel(1,2) [OF O(2)]]) (simp add: O(3) split: if_splits)
qed

text \<open>A page just allocated is in nobody's address space and may be mapped.\<close>

lemma page_alloc_vm:
  assumes inv: "vm_inv base D (p # ys) s" and b: "base 0 \<noteq> 0"
  shows "\<exists>s1. page_alloc s ALLOC_ZERO = Some (Some p, s1) \<and> vm_inv base D ys s1 \<and> same_ptes s s1 D \<and> kern_same base s s1 \<and>
    mm_frame s s1 \<and> mappable D s1 p \<and> pp_ref (pages s1 p) = 0 \<and> (\<forall>i. unat i < 1024 \<longrightarrow> entry s1 p i = 0) \<and>
    (\<forall>d \<in> D. \<forall>i. user_pdx i \<longrightarrow> entry s1 d i = entry s d i) \<and> (\<forall>q. pp_ref (pages s1 q) = pp_ref (pages s q))"
proof -
  note P = vm_free_page [OF inv, of p, simplified] and I = vm_invD [OF inv]
  obtain s1 where al: "page_alloc s ALLOC_ZERO = Some (Some p, s1)" "pages_wf s1" "free_list s1 ys" "p \<notin> set ys"
    and pm: "pmem s1 = fill_bytes (pmem s) (page2pa p) 0 4096"
    using page_alloc_run [of s p ys ALLOC_ZERO] I(1,2) by (auto simp: layout)
  note A = page_alloc_Some [OF al(1)]
  have np: "npages s1 = npages s"
    using mm_frame_sel [OF A(5)] by simp
  have ref: "pp_ref (pages s1 q) = pp_ref (pages s q)" for q
    using A(3) P(7) by simp
  have e: "entry s1 f i = (if f = p then 0 else entry s f i)" if "f < 65536" "unat i < 1024" for f i
    using entry_fill [OF P(1) that pm] by simp
  have dir: "entry s1 d i = entry s d i" if "d \<in> D" "user_pdx i" for d i
    using e [of d i] that vm_dir(1) [OF inv that(1)] user_pdx_less P(3) by auto
  have pte: "pte s1 d i j = pte s d i j" if "d \<in> D" "user_pdx i" "unat j < 1024" for d i j
  proof (cases "present (entry s d i)")
    case True
    then have "frame (entry s d i) \<noteq> p"
      using that P(4) by (auto simp: tabset_def)
    then show ?thesis
      using e [OF vm_table(1) [OF inv that(1,2) True] that(3)] dir [OF that(1,2)] by (simp add: pte_def)
  qed (simp add: pte_def dir that)
  then have sp: "same_ptes s s1 D"
    by (simp add: same_ptes_def)
  have tab: "tabset s1 D = tabset s D"
    using dir by (auto simp: tabset_def fun_eq_iff)
  have "vm_inv base D ys s1"
    unfolding vm_inv_def np tab mapset_same_ptes [OF sp] ref using al(2,3) I(3-8) dir pte by auto
  moreover have "kern_same base s s1"
    unfolding kern_same_def using e P(6) by auto
  moreover have "p \<notin> set fl'" if "free_list s1 fl'" for fl'
    using free_list_unique [OF al(3) that] al(4) by simp
  then have "mappable D s1 p"
    unfolding mappable_def np tab ref using P(2-4,6,7) b by (metis unat_0 zero_less_numeral)
  ultimately show ?thesis
    using al(1) sp A(5) ref P(7) e [OF P(1)] dir by simp
qed

lemma vm_inv_page_free:
  assumes inv: "vm_inv base D fl s" and p: "p < unat (npages s)" "pp_ref (pages s p) = 0" "p \<notin> set fl"
  shows "vm_inv base D (p # fl) (page_free s (Some p))"
proof -
  note I = vm_invD [OF inv] and S = page_free_sel [OF vm_invD(1) [OF inv] p(1)]
  show ?thesis
  proof (rule vm_inv_recount [OF inv])
    show "entry (page_free s (Some p)) = entry s"
      by (rule entry_pmem_cong) (rule S(4))
    show "npages (page_free s (Some p)) = npages s"
      by (rule mm_frame_sel(1) [OF page_free_mm_frame])
    show "free_list (page_free s (Some p)) (p # fl)"
      by (rule page_free_free_list [OF I(1) p(1,2) I(2) p(3)])
  qed (use page_free_pages_wf [OF I(1)] in \<open>auto simp: S(2)\<close>)
qed

subsection \<open>The environment table\<close>

lemma env_free_list_live:
  assumes "envs_ok s" "env_free_list s = Some e"
  shows "e < NENV" "env_status (envs s e) = ENV_FREE"
proof -
  obtain l where "linked (env_links s) (Some e) l" "set l = {e. e < NENV \<and> env_status (envs s e) = ENV_FREE}"
    using assms by (auto simp: envs_ok_def)
  then show "e < NENV" "env_status (envs s e) = ENV_FREE"
    by (cases l; auto)+
qed

lemma kern_inv_env_alloc:
  assumes inv: "kern_inv base k s" and run: "env_alloc s par = Some (r, x, s')"
  shows "kern_inv base k s' \<and> (r = 0 \<and> (\<exists>e. x = Some e \<and> e < NENV \<and> live s' e \<and> \<not> live s e) \<or> r < 0 \<and> s' = s)"
proof -
  have m: "mem_ok base k (live_dirs s) s" and eo: "envs_ok s"
    using inv by (auto simp: kern_inv_def)
  obtain fl where v: "vm_inv base (live_dirs s) fl s" and k: "kern_template base k s"
    using m by (auto simp: mem_ok_def)
  show ?thesis
  proof (cases "env_free_list s = None \<or> fl = []")
    case True
    then have "r < 0 \<and> s' = s"
    proof (cases "env_free_list s")
      case None
      with run show ?thesis by (simp add: env_alloc_def layout)
    next
      case (Some e)
      with True have "env_setup_vm s e = Some (- E_NO_MEM, s)"
        using env_setup_vm_run [OF v k, of e] by simp
      with Some run show ?thesis by (simp add: env_alloc_def layout)
    qed
    with inv show ?thesis by simp
  next
    case False
    then obtain e p ys where ok1: "env_free_list s = Some e" "fl = p # ys"
      by (auto simp: neq_Nil_conv)
    note v' = v [unfolded ok1(2)]
    have ok: "env_free_list s = Some e" "fl = p # ys" "r = 0" "x = Some e"
      using env_alloc_run [OF v' k ok1(1), of par] run ok1 by auto
    note S = env_alloc_sel [OF run [unfolded ok(3,4)]]
    obtain A: "vm_inv base (insert p (live_dirs s)) ys s'" "p \<notin> live_dirs s" "env_pgdir (envs s' e) = kpage p"
      "\<And>va. user_pdx (PDX va) \<Longrightarrow> vmap s' p va = None"
      "\<And>d va. d \<in> live_dirs s \<Longrightarrow> user_pdx (PDX va) \<Longrightarrow> vmap s' d va = vmap s d va" "kern_template base k s'"
      using env_alloc_run [OF v' k ok(1), of par] run ok(3,4) by auto
    note E = env_free_list_live [OF eo ok(1)]
    have p: "p < 65536"
      using vm_free_page(1) [OF v'] by simp
    have live: "live s' y \<longleftrightarrow> live s y \<or> y = e" for y
      using S(3) [of y] S(6) E by (cases "y = e") (auto simp: live_def layout)
    have nl: "\<not> live s e"
      using E by (simp add: live_def)
    have dirs: "live_dirs s' = insert p (live_dirs s)"
    proof (rule set_eqI)
      fix d
      have "(\<exists>y. live s' y \<and> env_pgdir (envs s' y) = kpage d) \<longleftrightarrow>
          (\<exists>y. live s y \<and> env_pgdir (envs s y) = kpage d) \<or> kpage p = kpage d"
        using live nl S(3) A(3) by metis
      then show "d \<in> live_dirs s' \<longleftrightarrow> d \<in> insert p (live_dirs s)"
        using kpage_inject [OF p, of d] p by (auto simp: live_dirs_def)
    qed
    have "mem_ok base k (live_dirs s') s'"
    proof -
      have "mapset s' (live_dirs s') q = {}" if "base q \<noteq> 0" for q
        unfolding mapset_empty_iff dirs using A(4,5) m that unfolding mem_ok_def mapset_empty_iff by auto
      with A(1,6) m show ?thesis by (auto simp: mem_ok_def dirs)
    qed
    moreover have "envs_ok s'"
    proof -
      have own: "env_pgdir (envs s y) \<noteq> kpage p" if "live s y" for y
        using A(2) that p by (auto simp: live_dirs_def)
      obtain l where l: "linked (env_links s) (Some e) l" "set l = {e. e < NENV \<and> env_status (envs s e) = ENV_FREE}"
        using eo ok(1) by (auto simp: envs_ok_def)
      obtain ys where ys: "l = e # ys" "linked (env_links s') (env_free_list s') ys" "e \<notin> set ys"
        using env_stack.pop_cells [of s e s' l] l(1) run ok by auto
      have "set ys = {y. y < NENV \<and> env_status (envs s' y) = ENV_FREE}"
      proof -
        have "set ys = set l - {e}"
          using ys by auto
        also have "\<dots> = {y. y < NENV \<and> env_status (envs s' y) = ENV_FREE}"
          using l(2) live by (auto simp: live_def)
        finally show ?thesis .
      qed
      with ys(2) have "\<exists>l. linked (env_links s') (env_free_list s') l \<and> set l = {e. e < NENV \<and> env_status (envs s' e) = ENV_FREE}"
        by blast
      moreover have "\<exists>d<65536. env_pgdir (envs s' y) = kpage d" if "live s' y" for y
        using that live [of y] eo S(3) A(3) p by (cases "y = e") (auto simp: envs_ok_def)
      moreover have "y = y'" if "live s' y" "live s' y'" "env_pgdir (envs s' y) = env_pgdir (envs s' y')" for y y'
        using that live eo S(3) A(3) own by (cases "y = e"; cases "y' = e") (auto simp: envs_ok_def)
      ultimately show ?thesis
        unfolding envs_ok_def by blast
    qed
    ultimately show ?thesis
      using ok(3,4) E(1) live nl by (simp add: kern_inv_def)
  qed
qed

lemma kern_inv_env_free:
  assumes inv: "kern_inv base k s" and e: "live s e"
  shows "\<exists>s'. env_free s e = Some s' \<and> kern_inv base k s' \<and> cpus s' = cpus s \<and> cpunum s' = cpunum s \<and>
    kernel_lock s' = kernel_lock s \<and> (\<forall>y. y \<noteq> e \<longrightarrow> envs s' y = envs s y) \<and> env_status (envs s' e) = ENV_FREE"
proof -
  have m: "mem_ok base k (live_dirs s) s" and eo: "envs_ok s"
    using inv by (auto simp: kern_inv_def)
  obtain d where d: "d \<in> live_dirs s" "d < 65536" "env_pgdir (envs s e) = kpage d"
    using live_dir [OF inv e] .
  obtain fl where v: "vm_inv base (live_dirs s) fl s" and k: "kern_template base k s"
    using m by (auto simp: mem_ok_def)
  have "KERNBASE \<le> kern_pgdir s"
    using k vm_invD(9) [OF v] KERNBASE_kpage by (simp add: kern_template_def)
  from env_free_run [OF v d(1,3) this] obtain s' fl' where
    run: "env_free s e = Some s'" and v': "vm_inv base (live_dirs s - {d}) (d # fl') s'" and
    es: "envs s' = (envs s)(e := (envs s e)\<lparr>env_pgdir := 0, env_status := ENV_FREE, env_link := env_free_list s\<rparr>)" and
    fr: "env_free_list s' = Some e" "cpus s' = cpus s" "cpunum s' = cpunum s" "kern_pgdir s' = kern_pgdir s"
    "kernel_lock s' = kernel_lock s" "npages s' = npages s" "kern_same base s s'" and
    vm: "\<And>d' va. d' \<in> live_dirs s - {d} \<Longrightarrow> user_pdx (PDX va) \<Longrightarrow> vmap s' d' va = vmap s d' va" by blast
  have live: "live s' y \<longleftrightarrow> live s y \<and> y \<noteq> e" for y
    by (simp add: live_def es)
  have uniq: "env_pgdir (envs s y) = kpage d \<longleftrightarrow> y = e" if "live s y" for y
    using eo that e d(3) unfolding envs_ok_def by metis
  have dirs: "live_dirs s' = live_dirs s - {d}"
  proof (rule set_eqI)
    fix d'
    have "env_pgdir (envs s' y) = env_pgdir (envs s y)" if "live s' y" for y
      using that live es by simp
    then show "d' \<in> live_dirs s' \<longleftrightarrow> d' \<in> live_dirs s - {d}"
      using live uniq kpage_inject [of d' d] d(2,3) e unfolding live_dirs_def by (auto; metis)
  qed
  have "mem_ok base k (live_dirs s') s'"
    unfolding dirs by (rule mem_okI [OF m v' fr(7,6,4)]) (use vm in auto)
  moreover have "envs_ok s'"
  proof -
    obtain l where l: "linked (env_links s) (env_free_list s) l" "set l = {e. e < NENV \<and> env_status (envs s e) = ENV_FREE}"
      using eo by (auto simp: envs_ok_def)
    have "e \<notin> set l"
      using l(2) e by (simp add: live_def)
    then have "linked (env_links s') (env_free_list s') (e # l)"
      using env_stack.push_cells [of s e s' l] l(1) run by simp
    moreover have "set (e # l) = {y. y < NENV \<and> env_status (envs s' y) = ENV_FREE}"
      using l(2) e by (auto simp: es live_def)
    moreover have "\<exists>d<65536. env_pgdir (envs s' y) = kpage d" if "live s' y" for y
      using that live [of y] eo es by (auto simp: envs_ok_def)
    moreover have "y = y'" if "live s' y" "live s' y'" "env_pgdir (envs s' y) = env_pgdir (envs s' y')" for y y'
      using that live eo es by (auto simp: envs_ok_def)
    ultimately show ?thesis
      unfolding envs_ok_def by blast
  qed
  ultimately have "kern_inv base k s'"
    by (simp add: kern_inv_def)
  with run fr es show ?thesis by simp
qed

subsection \<open>Scheduling and destruction\<close>

text \<open>\<open>same_but_status s s'\<close>: the two states agree on everything the invariant looks at.\<close>

definition same_but_status :: "kstate \<Rightarrow> kstate \<Rightarrow> bool" where
  "same_but_status s s' \<longleftrightarrow> (\<forall>y. env_same (envs s y) (envs s' y)) \<and> env_free_list s' = env_free_list s \<and> npages s' = npages s \<and>
     pages s' = pages s \<and> page_free_list s' = page_free_list s \<and> pmem s' = pmem s \<and> kern_pgdir s' = kern_pgdir s"

lemma kern_inv_same: "same_but_status s s' \<Longrightarrow> kern_inv base k s \<Longrightarrow> kern_inv base k s'"
  unfolding same_but_status_def by (rule kern_inv_env) auto

lemma same_but_status_trans: "same_but_status s t \<Longrightarrow> same_but_status t u \<Longrightarrow> same_but_status s u"
  by (simp add: same_but_status_def env_same_def)

lemma same_but_status_upd_env:
  "env_same (envs s e) (f (envs s e)) \<Longrightarrow> same_but_status s (upd_env e f s)"
  by (simp add: same_but_status_def env_same_def)

lemma env_run_same:
  assumes "env_run s e = Some s'" "env_status (envs s e) \<noteq> ENV_FREE"
  shows "same_but_status s s'"
proof -
  define s1 where "s1 = (case curenv s of None \<Rightarrow> s
      | Some c \<Rightarrow> if env_status (envs s c) = ENV_RUNNING then upd_env c (\<lambda>v. v\<lparr>env_status := ENV_RUNNABLE\<rparr>) s else s)"
  define s2 where "s2 = upd_env e (\<lambda>v. v\<lparr>env_status := ENV_RUNNING, env_runs := env_runs v + 1\<rparr>) (set_curenv (Some e) s1)"
  have 1: "same_but_status s s1" and e1: "env_status (envs s1 e) \<noteq> ENV_FREE"
    using assms(2) by (auto simp: s1_def same_but_status_def env_same_def layout split: option.splits)
  have 2: "same_but_status s1 s2"
    using e1 by (auto simp: s2_def same_but_status_def env_same_def layout)
  obtain s3 pa where "unlock_kernel s2 = Some s3" "env_pop_tf (s3\<lparr>cr3 := pa\<rparr>) = Some s'"
    using assms(1) by (auto simp: env_run_def s1_def [symmetric] s2_def [symmetric] Let_def split: bind_splits)
  then have 3: "same_but_status s2 s'"
    by (auto simp: unlock_kernel_def env_pop_tf_def same_but_status_def env_same_def curenv_def upd_env_def split: bind_splits if_splits)
  show ?thesis
    using 1 2 3 same_but_status_trans by blast
qed

lemma sched_yield_same:
  assumes "sched_yield s = Some (x, s')"
  shows "same_but_status s s'"
proof -
  obtain i s1 where s1: "sched_start s = (i, s1)"
    by fastforce
  have 1: "same_but_status s s1"
    using s1 by (auto simp: sched_start_def same_but_status_def env_same_def layout split: option.splits if_splits)
  from assms s1 consider "s' = s1" | e where "env_run s1 e = Some s'" "env_status (envs s1 e) \<noteq> ENV_FREE"
  proof (cases "sched_scan (envs s1) i NENV")
    case (Some e)
    then have "schedulable (envs s1 e)"
      using sched_scan_Some by auto
    with assms s1 Some that show thesis
      by (auto simp: sched_yield_def Let_def schedulable_def layout split: bind_splits)
  next
    case None
    with assms s1 that show thesis
      by (auto simp: sched_yield_def Let_def layout split: bind_splits if_splits)
  qed
  then show ?thesis
  proof cases
    case 2
    with env_run_same 1 same_but_status_trans show ?thesis by blast
  qed (simp add: 1)
qed

lemma kern_inv_env_destroy:
  assumes "kern_inv base k s" "live s e" "env_destroy s e = Some (f, s')"
  shows "kern_inv base k s'"
proof (cases "env_status (envs s e) = ENV_RUNNING \<and> curenv s \<noteq> Some e")
  case True
  then have "s' = upd_env e (\<lambda>v. v\<lparr>env_status := ENV_DYING\<rparr>) s"
    using assms(3) by (simp add: env_destroy_def)
  moreover have "env_same (envs s e) ((envs s e)\<lparr>env_status := ENV_DYING\<rparr>)"
    using assms(2) by (simp add: env_same_def live_def layout)
  ultimately show ?thesis
    using kern_inv_upd_env [OF assms(1), of e] by simp
next
  case False
  obtain s1 where s1: "env_free s e = Some s1" "kern_inv base k s1"
    using kern_inv_env_free [OF assms(1,2)] by blast
  have "same_but_status s1 (set_curenv None s1)"
    by (simp add: same_but_status_def env_same_def)
  then have "kern_inv base k t" if "sched_yield (set_curenv None s1) = Some (x, t)" for x t
    using s1(2) kern_inv_same sched_yield_same [OF that] by blast
  with assms(3) s1 False show ?thesis
    by (auto simp: env_destroy_def split: bind_splits if_splits)
qed

end
