(* ===== verification/Strings.thy ===== *)
theory Strings
  imports Jos_Prelude
begin

section \<open>The string library\<close>

text \<open>
  \<^verbatim>\<open>lib/string.c\<close>, which the kernel and user programs share, compiled with \<^verbatim>\<open>ASM\<close>: \<^verbatim>\<open>memset\<close> and
  \<^verbatim>\<open>memmove\<close> use the string instructions of the processor, whose effect is spelt out. Memory is the
  byte array \<open>bytemem\<close> with 32-bit addresses that wrap. A loop that runs until it finds a null character
  is a \<open>partial_function\<close>: not returning is the value \<open>None\<close>. A \<^verbatim>\<open>size_t\<close> that only counts down is a
  natural number. The functions that may read user memory (\<^verbatim>\<open>strlen\<close>, \<^verbatim>\<open>strnlen\<close>) take a load function that
  answers \<open>None\<close> on a fault.
\<close>

subsection \<open>Strings\<close>

partial_function (option) strlen_loop :: "(u32 \<Rightarrow> u8 option) \<Rightarrow> u32 \<Rightarrow> u32 \<Rightarrow> u32 option" where
  "strlen_loop rd s n = do { b \<leftarrow> rd s; (if b \<noteq> 0 then strlen_loop rd (s + 1) (n + 1) else Some n) }"

definition strlen :: "(u32 \<Rightarrow> u8 option) \<Rightarrow> u32 \<Rightarrow> u32 option" where
  "strlen rd s = strlen_loop rd s 0"

fun strnlen_loop :: "(u32 \<Rightarrow> u8 option) \<Rightarrow> u32 \<Rightarrow> nat \<Rightarrow> u32 \<Rightarrow> u32 option" where
  "strnlen_loop rd s 0 n = Some n"
| "strnlen_loop rd s (Suc sz) n =
     do { b \<leftarrow> rd s; (if b \<noteq> 0 then strnlen_loop rd (s + 1) sz (n + 1) else Some n) }"

definition strnlen :: "(u32 \<Rightarrow> u8 option) \<Rightarrow> u32 \<Rightarrow> u32 \<Rightarrow> u32 option" where
  "strnlen rd s sz = strnlen_loop rd s (unat sz) 0"

partial_function (option) strcpy :: "bytemem \<Rightarrow> u32 \<Rightarrow> u32 \<Rightarrow> bytemem option" where
  "strcpy m dst src =
     (let m1 = m(dst := m src) in if m src \<noteq> 0 then strcpy m1 (dst + 1) (src + 1) else Some m1)"

definition strcat :: "bytemem \<Rightarrow> u32 \<Rightarrow> u32 \<Rightarrow> bytemem option" where
  "strcat m dst src = do { len \<leftarrow> strlen (Some \<circ> m) dst; strcpy m (dst + len) src }"

fun strncpy_loop :: "bytemem \<Rightarrow> u32 \<Rightarrow> u32 \<Rightarrow> nat \<Rightarrow> bytemem" where
  "strncpy_loop m dst src 0 = m"
| "strncpy_loop m dst src (Suc n) =
     (let m1 = m(dst := m src) in strncpy_loop m1 (dst + 1) (if m1 src \<noteq> 0 then src + 1 else src) n)"

definition strncpy :: "bytemem \<Rightarrow> u32 \<Rightarrow> u32 \<Rightarrow> u32 \<Rightarrow> bytemem" where
  "strncpy m dst src sz = strncpy_loop m dst src (unat sz)"

fun strlcpy_loop :: "bytemem \<Rightarrow> u32 \<Rightarrow> u32 \<Rightarrow> nat \<Rightarrow> u32 \<times> bytemem" where
  "strlcpy_loop m dst src 0 = (dst, m(dst := 0))"
| "strlcpy_loop m dst src (Suc n) =
     (if m src \<noteq> 0 then strlcpy_loop (m(dst := m src)) (dst + 1) (src + 1) n else (dst, m(dst := 0)))"

definition strlcpy :: "bytemem \<Rightarrow> u32 \<Rightarrow> u32 \<Rightarrow> u32 \<Rightarrow> u32 \<times> bytemem" where
  "strlcpy m dst src sz =
     (if 0 < sz then let (d, m1) = strlcpy_loop m dst src (unat sz - 1) in (d - dst, m1) else (0, m))"

partial_function (option) strcmp :: "bytemem \<Rightarrow> u32 \<Rightarrow> u32 \<Rightarrow> int option" where
  "strcmp m p q = (if m p \<noteq> 0 \<and> m p = m q then strcmp m (p + 1) (q + 1) else Some (uint (m p) - uint (m q)))"

fun strncmp :: "bytemem \<Rightarrow> u32 \<Rightarrow> u32 \<Rightarrow> nat \<Rightarrow> int" where
  "strncmp m p q 0 = 0"
| "strncmp m p q (Suc n) =
     (if m p \<noteq> 0 \<and> m p = m q then strncmp m (p + 1) (q + 1) n else uint (m p) - uint (m q))"

text \<open>\<open>strchr\<close> returns the null pointer when the character does not occur, \<open>strfind\<close> the end of the string.\<close>

partial_function (option) strchr :: "bytemem \<Rightarrow> u32 \<Rightarrow> u8 \<Rightarrow> u32 option" where
  "strchr m s c = (if m s \<noteq> 0 then if m s = c then Some s else strchr m (s + 1) c else Some 0)"

partial_function (option) strfind :: "bytemem \<Rightarrow> u32 \<Rightarrow> u8 \<Rightarrow> u32 option" where
  "strfind m s c = (if m s \<noteq> 0 then if m s = c then Some s else strfind m (s + 1) c else Some s)"

subsection \<open>Memory\<close>

text \<open>The string instructions with a repeat prefix: the count register is the last argument, and the
  index registers advance, or with the direction flag set go back, by the size of the unit.\<close>

fun rep_stosl :: "bytemem \<Rightarrow> u32 \<Rightarrow> u32 \<Rightarrow> nat \<Rightarrow> bytemem" where
  "rep_stosl m d v 0 = m"
| "rep_stosl m d v (Suc n) = rep_stosl (wr32 m d v) (d + 4) v n"

fun rep_stosb :: "bytemem \<Rightarrow> u32 \<Rightarrow> u8 \<Rightarrow> nat \<Rightarrow> bytemem" where
  "rep_stosb m d v 0 = m"
| "rep_stosb m d v (Suc n) = rep_stosb (m(d := v)) (d + 1) v n"

fun rep_movsl :: "u32 \<Rightarrow> bytemem \<Rightarrow> u32 \<Rightarrow> u32 \<Rightarrow> nat \<Rightarrow> bytemem" where
  "rep_movsl step m d s 0 = m"
| "rep_movsl step m d s (Suc n) = rep_movsl step (wr32 m d (rd32 m s)) (d + step) (s + step) n"

fun rep_movsb :: "u32 \<Rightarrow> bytemem \<Rightarrow> u32 \<Rightarrow> u32 \<Rightarrow> nat \<Rightarrow> bytemem" where
  "rep_movsb step m d s 0 = m"
| "rep_movsb step m d s (Suc n) = rep_movsb step (m(d := m s)) (d + step) (s + step) n"

definition memset :: "bytemem \<Rightarrow> u32 \<Rightarrow> u32 \<Rightarrow> u32 \<Rightarrow> bytemem" where
  "memset m v c n =
     (if n = 0 then m
      else if v mod 4 = 0 \<and> n mod 4 = 0
      then let c1 = c AND 0xFF;
               c2 = push_bit 24 c1 OR push_bit 16 c1 OR push_bit 8 c1 OR c1
           in rep_stosl m v c2 (unat (n div 4))
      else rep_stosb m v (ucast c) (unat n))"

definition memmove :: "bytemem \<Rightarrow> u32 \<Rightarrow> u32 \<Rightarrow> u32 \<Rightarrow> bytemem" where
  "memmove m dst src n =
     (if src < dst \<and> dst < src + n
      then let s = src + n; d = dst + n
           in if s mod 4 = 0 \<and> d mod 4 = 0 \<and> n mod 4 = 0
              then rep_movsl (- 4) m (d - 4) (s - 4) (unat (n div 4))
              else rep_movsb (- 1) m (d - 1) (s - 1) (unat n)
      else if src mod 4 = 0 \<and> dst mod 4 = 0 \<and> n mod 4 = 0
      then rep_movsl 4 m dst src (unat (n div 4))
      else rep_movsb 1 m dst src (unat n))"

definition memcpy :: "bytemem \<Rightarrow> u32 \<Rightarrow> u32 \<Rightarrow> u32 \<Rightarrow> bytemem" where
  "memcpy m dst src n = memmove m dst src n"

fun memcmp :: "bytemem \<Rightarrow> u32 \<Rightarrow> u32 \<Rightarrow> nat \<Rightarrow> int" where
  "memcmp m s1 s2 0 = 0"
| "memcmp m s1 s2 (Suc n) =
     (if m s1 \<noteq> m s2 then uint (m s1) - uint (m s2) else memcmp m (s1 + 1) (s2 + 1) n)"

partial_function (option) memfind_loop :: "bytemem \<Rightarrow> u32 \<Rightarrow> u8 \<Rightarrow> u32 \<Rightarrow> u32 option" where
  "memfind_loop m s c ends = (if s < ends then if m s = c then Some s else memfind_loop m (s + 1) c ends else Some s)"

definition memfind :: "bytemem \<Rightarrow> u32 \<Rightarrow> u32 \<Rightarrow> u32 \<Rightarrow> u32 option" where
  "memfind m s c n = memfind_loop m s (ucast c) (s + n)"

subsection \<open>Numbers\<close>

text \<open>The digit a character stands for, if it is one; \<^verbatim>\<open>long\<close> and \<^verbatim>\<open>int\<close> have 32 bits.\<close>

definition strtol_digit :: "u8 \<Rightarrow> u32 option" where
  "strtol_digit c =
     (if 0x30 \<le> c \<and> c \<le> 0x39 then Some (ucast (c - 0x30))
      else if 0x61 \<le> c \<and> c \<le> 0x7A then Some (ucast (c - 0x61) + 10)
      else if 0x41 \<le> c \<and> c \<le> 0x5A then Some (ucast (c - 0x41) + 10)
      else None)"

partial_function (option) strtol_digits :: "bytemem \<Rightarrow> u32 \<Rightarrow> u32 \<Rightarrow> u32 \<Rightarrow> (u32 \<times> u32) option" where
  "strtol_digits m s b val =
     (case strtol_digit (m s) of
        None \<Rightarrow> Some (val, s)
      | Some dig \<Rightarrow> if b \<le>s dig then Some (val, s) else strtol_digits m (s + 1) b (val * b + dig))"

partial_function (option) skip_blanks :: "bytemem \<Rightarrow> u32 \<Rightarrow> u32 option" where
  "skip_blanks m s = (if m s = 0x20 \<or> m s = 9 then skip_blanks m (s + 1) else Some s)"

text \<open>The value and the end pointer.\<close>

definition strtol :: "bytemem \<Rightarrow> u32 \<Rightarrow> u32 \<Rightarrow> (u32 \<times> u32) option" where
  "strtol m s b =
     do {
       s1 \<leftarrow> skip_blanks m s;
       let (s2, neg) = (if m s1 = 0x2B then (s1 + 1, False) else if m s1 = 0x2D then (s1 + 1, True) else (s1, False));
       let (s3, b1) =
         (if (b = 0 \<or> b = 16) \<and> m s2 = 0x30 \<and> m (s2 + 1) = 0x78 then (s2 + 2, 16)
          else if b = 0 \<and> m s2 = 0x30 then (s2 + 1, 8)
          else if b = 0 then (s2, 10) else (s2, b));
       (val, s4) \<leftarrow> strtol_digits m s3 b1 0;
       Some (if neg then - val else val, s4)
     }"

subsection \<open>Ranges that do not wrap\<close>

lemma in_range_unat:
  assumes "unat a + n \<le> 4294967296"
  shows "in_range a n x \<longleftrightarrow> unat a \<le> unat x \<and> unat x < unat a + n"
proof (cases "unat a \<le> unat x")
  case True
  then have "unat (x - a) = unat x - unat a"
    by (simp add: unat_sub word_le_nat_alt)
  with True show ?thesis
    by (auto simp: in_range_def)
next
  case False
  then have "unat (x - a) = unat x + 4294967296 - unat a"
    using unat_sub_if_size [of x a] unat_u32_bound [of a] by (simp add: word_size)
  with False assms show ?thesis
    by (simp add: in_range_def)
qed

lemma unat_offset:
  fixes a b x :: u32
  assumes "unat a \<le> unat x" "unat b + (unat x - unat a) < 4294967296"
  shows "unat (b + (x - a)) = unat b + (unat x - unat a)"
proof -
  have "unat (x - a) = unat x - unat a"
    using assms(1) by (simp add: unat_sub word_le_nat_alt)
  then show ?thesis
    using assms(2) unat_add_no_wrap [of b "x - a"] by simp
qed

lemma unat_plus_nat: "unat (a :: u32) + n < 4294967296 \<Longrightarrow> unat (a + word_of_nat n) = unat a + n"
  by (simp add: unat_word_ariths unat_of_nat)

lemma copy_bytes_0 [simp]: "copy_bytes m d s 0 = m" "fill_bytes m a c 0 = m"
  by (auto simp: copy_bytes_def fill_bytes_def in_range_def)

text \<open>A block may be copied in two parts: from the low end when the source does not lie just below
  the destination, from the high end when it does.\<close>

lemma copy_split_up:
  assumes "unat s + k + n \<le> 4294967296" "unat d + k + n \<le> 4294967296" "unat d \<le> unat s \<or> unat s + k + n \<le> unat d"
    "0 < n"
  shows "copy_bytes (copy_bytes m d s k) (d + word_of_nat k) (s + word_of_nat k) n = copy_bytes m d s (k + n)"
proof
  fix x
  have dk: "unat (d + word_of_nat k) = unat d + k" and sk: "unat (s + word_of_nat k) = unat s + k"
    using assms by (simp_all add: unat_plus_nat)
  have r: "in_range (d + word_of_nat k) n x \<longleftrightarrow> unat d + k \<le> unat x \<and> unat x < unat d + k + n"
    "in_range d k y \<longleftrightarrow> unat d \<le> unat y \<and> unat y < unat d + k"
    "in_range d (k + n) x \<longleftrightarrow> unat d \<le> unat x \<and> unat x < unat d + k + n" for y
    using in_range_unat [of "d + word_of_nat k" n x] in_range_unat [of d k y] in_range_unat [of d "k + n" x] dk assms by auto
  show "copy_bytes (copy_bytes m d s k) (d + word_of_nat k) (s + word_of_nat k) n x = copy_bytes m d s (k + n) x"
  proof (cases "unat d + k \<le> unat x \<and> unat x < unat d + k + n")
    case True
    have eq: "s + word_of_nat k + (x - (d + word_of_nat k)) = s + (x - d)"
      by simp
    have "unat (s + (x - d)) = unat s + (unat x - unat d)"
      using True assms by (intro unat_offset) auto
    then have "\<not> in_range d k (s + (x - d))"
      using True assms by (auto simp: r)
    with True show ?thesis
      by (simp only: copy_bytes_def r eq) auto
  qed (auto simp: copy_bytes_def r)
qed

lemma copy_split_down:
  assumes "unat s < unat d" "unat d + n + k \<le> 4294967296" "0 < k"
  shows "copy_bytes (copy_bytes m (d + word_of_nat n) (s + word_of_nat n) k) d s n = copy_bytes m d s (n + k)"
proof
  fix x
  have dn: "unat (d + word_of_nat n) = unat d + n"
    using assms by (simp add: unat_plus_nat)
  have r: "in_range (d + word_of_nat n) k y \<longleftrightarrow> unat d + n \<le> unat y \<and> unat y < unat d + n + k"
    "in_range d n x \<longleftrightarrow> unat d \<le> unat x \<and> unat x < unat d + n"
    "in_range d (n + k) x \<longleftrightarrow> unat d \<le> unat x \<and> unat x < unat d + n + k" for y
    using in_range_unat [of "d + word_of_nat n" k y] in_range_unat [of d n x] in_range_unat [of d "n + k" x] dn assms by auto
  show "copy_bytes (copy_bytes m (d + word_of_nat n) (s + word_of_nat n) k) d s n x = copy_bytes m d s (n + k) x"
  proof (cases "unat d \<le> unat x \<and> unat x < unat d + n")
    case True
    have "unat (s + (x - d)) = unat s + (unat x - unat d)"
      using True assms by (intro unat_offset) auto
    then have "\<not> in_range (d + word_of_nat n) k (s + (x - d))"
      using True assms by (auto simp: r)
    with True show ?thesis
      by (simp only: copy_bytes_def r) auto
  next
    case False
    have "s + word_of_nat n + (x - (d + word_of_nat n)) = s + (x - d)"
      by simp
    with False show ?thesis
      by (simp only: copy_bytes_def r) auto
  qed
qed

lemma in_range_4: "in_range a 4 x \<longleftrightarrow> x = a \<or> x = a + 1 \<or> x = a + 2 \<or> x = a + 3"
proof -
  have "unat (x - a) < 4 \<longleftrightarrow> unat (x - a) = 0 \<or> unat (x - a) = 1 \<or> unat (x - a) = 2 \<or> unat (x - a) = 3"
    by linarith
  also have "\<dots> \<longleftrightarrow> x - a = 0 \<or> x - a = 1 \<or> x - a = 2 \<or> x - a = 3"
    by (simp add: word_unat_eq_iff)
  also have "\<dots> \<longleftrightarrow> x = a \<or> x = a + 1 \<or> x = a + 2 \<or> x = a + 3"
    by (metis add.commute add.right_neutral diff_add_cancel add_diff_cancel_left')
  finally show ?thesis
    by (simp add: in_range_def)
qed

lemma rd32_bytes:
  "(ucast (rd32 m s) :: u8) = m s" "(ucast (drop_bit 8 (rd32 m s)) :: u8) = m (s + 1)"
  "(ucast (drop_bit 16 (rd32 m s)) :: u8) = m (s + 2)" "(ucast (drop_bit 24 (rd32 m s)) :: u8) = m (s + 3)"
  by (rule bit_word_eqI; auto simp: rd32_def bit_simps dest: bit_imp_le_length)+

lemma copy_word: "wr32 m d (rd32 m s) = copy_bytes m d s 4"
proof
  fix x
  show "wr32 m d (rd32 m s) x = copy_bytes m d s 4 x"
    by (cases "in_range d 4 x") (auto simp: wr32_def rd32_bytes copy_bytes_def in_range_4)
qed

lemma copy_byte: "m(d := m s) = copy_bytes m d s (Suc 0)"
proof
  fix x
  have "in_range d (Suc 0) x \<longleftrightarrow> x = d"
    by (simp add: in_range_def unat_eq_0)
  then show "(m(d := m s)) x = copy_bytes m d s (Suc 0) x"
    by (simp add: copy_bytes_def)
qed

subsection \<open>The string instructions\<close>

lemma rep_movsb_up:
  assumes "unat s + n \<le> 4294967296" "unat d + n \<le> 4294967296" "unat d \<le> unat s \<or> unat s + n \<le> unat d"
  shows "rep_movsb 1 m d s n = copy_bytes m d s n"
  using assms
proof (induction n arbitrary: m d s)
  case (Suc n)
  show ?case
  proof (cases "n = 0")
    case False
    have "unat (s + 1) = unat s + 1" "unat (d + 1) = unat d + 1"
      using Suc.prems False unat_plus_nat [of s 1] unat_plus_nat [of d 1] by simp_all
    then have "rep_movsb 1 m d s (Suc n) = copy_bytes (copy_bytes m d s 1) (d + 1) (s + 1) n"
      using Suc.IH [of "s + 1" "d + 1" "copy_bytes m d s 1"] Suc.prems by (auto simp: copy_byte)
    then show ?thesis
      using copy_split_up [of s 1 n d m] Suc.prems False by simp
  qed (simp add: copy_byte)
qed simp

lemma rep_movsl_up:
  assumes "unat s + 4 * n \<le> 4294967296" "unat d + 4 * n \<le> 4294967296" "unat d \<le> unat s \<or> unat s + 4 * n \<le> unat d"
  shows "rep_movsl 4 m d s n = copy_bytes m d s (4 * n)"
  using assms
proof (induction n arbitrary: m d s)
  case (Suc n)
  show ?case
  proof (cases "n = 0")
    case False
    have "unat (s + 4) = unat s + 4" "unat (d + 4) = unat d + 4"
      using Suc.prems False unat_plus_nat [of s 4] unat_plus_nat [of d 4] by simp_all
    then have "rep_movsl 4 m d s (Suc n) = copy_bytes (copy_bytes m d s 4) (d + 4) (s + 4) (4 * n)"
      using Suc.IH [of "s + 4" "d + 4" "copy_bytes m d s 4"] Suc.prems by (auto simp: copy_word)
    then show ?thesis
      using copy_split_up [of s 4 "4 * n" d m] Suc.prems False by (auto simp: add.assoc)
  qed (simp add: copy_word)
qed simp

lemma rep_movsb_down:
  assumes "unat s < unat d" "unat d + n \<le> 4294967296"
  shows "rep_movsb (- 1) m (d + word_of_nat n - 1) (s + word_of_nat n - 1) n = copy_bytes m d s n"
  using assms
proof (induction n arbitrary: m)
  case (Suc n)
  have "rep_movsb (- 1) m (d + word_of_nat (Suc n) - 1) (s + word_of_nat (Suc n) - 1) (Suc n) =
      copy_bytes (copy_bytes m (d + word_of_nat n) (s + word_of_nat n) 1) d s n"
    using Suc.IH [of "copy_bytes m (d + word_of_nat n) (s + word_of_nat n) 1"] Suc.prems
    by (simp add: copy_byte algebra_simps)
  then show ?case
    using copy_split_down [of s d n 1 m] Suc.prems by simp
qed simp

lemma rep_movsl_down:
  assumes "unat s < unat d" "unat d + 4 * n \<le> 4294967296"
  shows "rep_movsl (- 4) m (d + word_of_nat (4 * n) - 4) (s + word_of_nat (4 * n) - 4) n = copy_bytes m d s (4 * n)"
  using assms
proof (induction n arbitrary: m)
  case (Suc n)
  have "rep_movsl (- 4) m (d + word_of_nat (4 * Suc n) - 4) (s + word_of_nat (4 * Suc n) - 4) (Suc n) =
      copy_bytes (copy_bytes m (d + word_of_nat (4 * n)) (s + word_of_nat (4 * n)) 4) d s (4 * n)"
    using Suc.IH [of "copy_bytes m (d + word_of_nat (4 * n)) (s + word_of_nat (4 * n)) 4"] Suc.prems
    by (simp add: copy_word algebra_simps)
  then show ?case
    using copy_split_down [of s d "4 * n" 4 m] Suc.prems by (simp add: add.commute)
qed simp

lemma mod4_unat: "(a :: u32) mod 4 = 0 \<longleftrightarrow> unat a mod 4 = 0"
  by (simp add: word_unat_eq_iff unat_mod)

lemma div4_unat: "n mod 4 = 0 \<Longrightarrow> 4 * unat ((n :: u32) div 4) = unat n"
  by (simp add: mod4_unat unat_div mult_div_mod_eq minus_mod_eq_mult_div [symmetric])

subsection \<open>What the library guarantees\<close>

text \<open>C38. \<^verbatim>\<open>memmove\<close> copies correctly whatever way the two blocks overlap: the destination ends up with what the
  source held before the call and no other byte changes, in all four variants (by words or by bytes,
  upwards or downwards), for blocks that do not wrap around the address space.\<close>

theorem memmove_correct:
  assumes "unat src + unat n < 4294967296" "unat dst + unat n \<le> 4294967296"
  shows "memmove m dst src n = copy_bytes m dst src (unat n)"
proof -
  have sn: "unat (src + n) = unat src + unat n"
    using assms(1) by (simp add: unat_add_no_wrap)
  show ?thesis
  proof (cases "src < dst \<and> dst < src + n")
    case True
    then have lt: "unat src < unat dst"
      by (simp add: word_less_nat_alt)
    show ?thesis
    proof (cases "(src + n) mod 4 = 0 \<and> (dst + n) mod 4 = 0 \<and> n mod 4 = 0")
      case w: True
      have "rep_movsl (- 4) m (dst + n - 4) (src + n - 4) (unat (n div 4)) = copy_bytes m dst src (unat n)"
        using rep_movsl_down [OF lt, of "unat (n div 4)" m] w div4_unat [of n] assms(2) by simp
      with True w show ?thesis
        by (simp add: memmove_def Let_def)
    next
      case False
      have "rep_movsb (- 1) m (dst + n - 1) (src + n - 1) (unat n) = copy_bytes m dst src (unat n)"
        using rep_movsb_down [OF lt, of "unat n" m] assms(2) by simp
      then show ?thesis
        by (simp only: memmove_def Let_def True False if_True if_False simp_thms)
    qed
  next
    case False
    then have le: "unat dst \<le> unat src \<or> unat src + unat n \<le> unat dst"
      using sn by (auto simp: word_less_nat_alt not_less)
    show ?thesis
      using False rep_movsl_up [of src "unat (n div 4)" dst m] rep_movsb_up [of src "unat n" dst m] le assms div4_unat [of n]
      by (auto simp: memmove_def)
  qed
qed

theorem memmove_correct_witness:
  "memmove (\<lambda>a. ucast a) 0x1004 0x1000 8 = copy_bytes (\<lambda>a. ucast a) 0x1004 0x1000 8"
  using memmove_correct [of "0x1000" 8 "0x1004" "\<lambda>a. ucast a"] by simp

lemma fill_split:
  assumes "unat a + k + n \<le> 4294967296" "0 < n"
  shows "fill_bytes (fill_bytes m a c k) (a + word_of_nat k) c n = fill_bytes m a c (k + n)"
proof
  fix x
  have "unat (a + word_of_nat k) = unat a + k"
    using assms by (simp add: unat_plus_nat)
  then show "fill_bytes (fill_bytes m a c k) (a + word_of_nat k) c n x = fill_bytes m a c (k + n) x"
    using in_range_unat [of "a + word_of_nat k" n x] in_range_unat [of a k x] in_range_unat [of a "k + n" x] assms
    by (auto simp: fill_bytes_def)
qed

lemma rep_stosb_fill:
  "unat a + n \<le> 4294967296 \<Longrightarrow> rep_stosb m a c n = fill_bytes m a c n"
proof (induction n arbitrary: m a)
  case (Suc n)
  have 1: "m(a := c) = fill_bytes m a c (Suc 0)"
    by (auto simp: fill_bytes_def in_range_def unat_eq_0)
  show ?case
  proof (cases "n = 0")
    case False
    then have "unat (a + 1) = unat a + 1"
      using Suc.prems unat_plus_nat [of a 1] by simp
    then show ?thesis
      using Suc.IH [of "a + 1" "m(a := c)"] Suc.prems fill_split [of a 1 n m c] False by (simp add: 1)
  qed (simp add: 1)
qed simp

definition quad :: "u32 \<Rightarrow> u32" where
  "quad c = push_bit 24 (c AND 0xFF) OR push_bit 16 (c AND 0xFF) OR push_bit 8 (c AND 0xFF) OR c AND 0xFF"

lemma wr32_quad: "wr32 m a (quad c) = fill_bytes m a (ucast c) 4"
proof
  fix x
  have low: "c AND 0xFF = take_bit 8 c"
    by (simp add: take_bit_eq_mask mask_eq_exp_minus_1)
  have "(ucast (quad c) :: u8) = ucast c" "(ucast (drop_bit 8 (quad c)) :: u8) = ucast c"
    "(ucast (drop_bit 16 (quad c)) :: u8) = ucast c" "(ucast (drop_bit 24 (quad c)) :: u8) = ucast c"
    unfolding quad_def low by (rule bit_word_eqI; auto simp: bit_simps)+
  then show "wr32 m a (quad c) x = fill_bytes m a (ucast c) 4 x"
    by (cases "in_range a 4 x") (auto simp: wr32_def fill_bytes_def in_range_4)
qed

lemma rep_stosl_fill:
  "unat a + 4 * n \<le> 4294967296 \<Longrightarrow> rep_stosl m a (quad c) n = fill_bytes m a (ucast c) (4 * n)"
proof (induction n arbitrary: m a)
  case (Suc n)
  show ?case
  proof (cases "n = 0")
    case False
    then have "unat (a + 4) = unat a + 4"
      using Suc.prems unat_plus_nat [of a 4] by simp
    then show ?thesis
      using Suc.IH [of "a + 4" "wr32 m a (quad c)"] Suc.prems fill_split [of a 4 "4 * n" m "ucast c"] False
      by (simp add: wr32_quad)
  qed (simp add: wr32_quad)
qed simp

text \<open>\<^verbatim>\<open>memset\<close>, by words when address and length are multiples of four and by bytes otherwise, sets exactly the
  \<open>n\<close> bytes of the block to the low byte of \<open>c\<close>.\<close>

theorem memset_correct:
  assumes "unat v + unat n \<le> 4294967296"
  shows "memset m v c n = fill_bytes m v (ucast c) (unat n)"
  using assms rep_stosl_fill [of v "unat (n div 4)" m c] rep_stosb_fill [of v "unat n" m "ucast c"] div4_unat [of n]
  by (auto simp: memset_def Let_def quad_def)

theorem memset_correct_witness:
  "memset (\<lambda>a. 7) 0x1000 0 4096 = fill_bytes (\<lambda>a. 7) 0x1000 0 4096"
  using memset_correct [of "0x1000" 4096 "\<lambda>a. 7" 0] by simp

subsection \<open>Null-terminated strings\<close>

fun str_at :: "bytemem \<Rightarrow> u32 \<Rightarrow> u8 list \<Rightarrow> bool" where
  "str_at m a [] \<longleftrightarrow> m a = 0"
| "str_at m a (c # cs) \<longleftrightarrow> c \<noteq> 0 \<and> m a = c \<and> str_at m (a + 1) cs"

fun write_list :: "bytemem \<Rightarrow> u32 \<Rightarrow> u8 list \<Rightarrow> bytemem" where
  "write_list m a [] = m"
| "write_list m a (b # bs) = write_list (m(a := b)) (a + 1) bs"

lemma str_at_cong:
  "(\<And>k. k \<le> length cs \<Longrightarrow> m' (a + word_of_nat k) = m (a + word_of_nat k)) \<Longrightarrow> str_at m' a cs = str_at m a cs"
proof (induction cs arbitrary: a)
  case (Cons c cs)
  have "m' (a + 1 + word_of_nat k) = m (a + 1 + word_of_nat k)" if "k \<le> length cs" for k
    using Cons.prems [of "Suc k"] that by (simp add: add.assoc)
  with Cons.IH [of "a + 1"] Cons.prems [of 0] show ?case by simp
qed (use spec [of _ 0] in \<open>simp\<close>)

lemma strlen_correct:
  "str_at m a cs \<Longrightarrow> strlen_loop (Some \<circ> m) a n = Some (n + word_of_nat (length cs))"
  by (induction cs arbitrary: a n) (simp_all add: strlen_loop.simps add.assoc add.commute)

lemma write_list_outside: "(\<And>k. k < length bs \<Longrightarrow> x \<noteq> a + word_of_nat k) \<Longrightarrow> write_list m a bs x = m x"
proof (induction bs arbitrary: m a)
  case (Cons b bs)
  have "x \<noteq> a + 1 + word_of_nat k" if "k < length bs" for k
    using Cons.prems [of "Suc k"] that by (simp add: add.assoc)
  then have "write_list (m(a := b)) (a + 1) bs x = (m(a := b)) x"
    by (rule Cons.IH)
  with Cons.prems [of 0] show ?case by simp
qed simp

lemma word_of_nat_distinct:
  assumes "0 < k" "k < 4294967296"
  shows "a + word_of_nat k \<noteq> (a :: u32)"
proof
  assume "a + word_of_nat k = a"
  then have "unat (word_of_nat k :: u32) = 0" by simp
  with assms show False by (simp add: unat_of_nat)
qed

lemma str_at_write:
  "0 \<notin> set cs \<Longrightarrow> length cs < 4294967296 \<Longrightarrow> str_at (write_list m a (cs @ [0])) a cs"
proof (induction cs arbitrary: m a)
  case (Cons c cs)
  have "a \<noteq> a + 1 + word_of_nat k" if "k < length (cs @ [0])" for k
    using word_of_nat_distinct [of "Suc k" a] that Cons.prems(2) by (auto simp: add.assoc)
  then have "write_list (m(a := c)) (a + 1) (cs @ [0]) a = c"
    by (subst write_list_outside) auto
  with Cons show ?case by auto
qed simp

lemma strlcpy_loop_correct:
  assumes "str_at m src cs" "\<And>j k. j \<le> n \<Longrightarrow> k \<le> length cs \<Longrightarrow> dst + word_of_nat j \<noteq> src + word_of_nat k"
  shows "strlcpy_loop m dst src n = (dst + word_of_nat (min n (length cs)), write_list m dst (take n cs @ [0]))"
  using assms
proof (induction n arbitrary: m dst src cs)
  case (Suc n)
  show ?case
  proof (cases cs)
    case (Cons c cs')
    have d: "dst \<noteq> src + word_of_nat k" if "k \<le> length cs" for k
      using Suc.prems(2) [of 0 k] that by simp
    have "str_at (m(dst := c)) (src + 1) cs' = str_at m (src + 1) cs'"
    proof (rule str_at_cong)
      fix k assume "k \<le> length cs'"
      then show "(m(dst := c)) (src + 1 + word_of_nat k) = m (src + 1 + word_of_nat k)"
        using d [of "Suc k"] Cons by (auto simp: add.assoc)
    qed
    moreover have "dst + 1 + word_of_nat j \<noteq> src + 1 + word_of_nat k" if "j \<le> n" "k \<le> length cs'" for j k
      using Suc.prems(2) [of "Suc j" "Suc k"] that Cons by (simp add: add.assoc)
    moreover have "str_at m (src + 1) cs'"
      using Suc.prems(1) Cons by simp
    ultimately have "strlcpy_loop (m(dst := c)) (dst + 1) (src + 1) n =
        (dst + 1 + word_of_nat (min n (length cs')), write_list (m(dst := c)) (dst + 1) (take n cs' @ [0]))"
      by (intro Suc.IH) blast+
    then show ?thesis
      using Suc.prems(1) Cons by (simp add: add.assoc)
  qed (use Suc.prems(1) in \<open>simp add: fun_upd_def\<close>)
qed (simp add: fun_upd_def)

text \<open>\<^verbatim>\<open>strlcpy\<close> never writes beyond its buffer and always terminates the copy: for a source string \<open>cs\<close> that does not
  share memory with the buffer of \<open>sz > 0\<close> bytes, the buffer holds the first \<open>sz - 1\<close> characters of \<open>cs\<close> as a
  string, nothing outside the buffer changes, and the result is the number of characters copied.\<close>

theorem strlcpy_correct:
  assumes "str_at m src cs" "0 < sz"
    "\<And>j k. j < unat sz \<Longrightarrow> k \<le> length cs \<Longrightarrow> dst + word_of_nat j \<noteq> src + word_of_nat k"
  shows "\<exists>m'. strlcpy m dst src sz = (word_of_nat (min (unat sz - 1) (length cs)), m') \<and>
    str_at m' dst (take (unat sz - 1) cs) \<and> (\<forall>x. \<not> in_range dst (unat sz) x \<longrightarrow> m' x = m x)"
proof -
  have sz: "0 < unat sz" "unat sz < 4294967296"
    using assms(2) unat_u32_bound [of sz] by (simp_all add: word_less_nat_alt)
  let ?bs = "take (unat sz - 1) cs"
  have nz: "str_at m a xs \<Longrightarrow> 0 \<notin> set xs" for a xs
    by (induction xs arbitrary: a) auto
  have run: "strlcpy m dst src sz = (word_of_nat (min (unat sz - 1) (length cs)), write_list m dst (?bs @ [0]))"
    using strlcpy_loop_correct [OF assms(1), of "unat sz - 1" dst] assms(2,3) sz by (simp add: strlcpy_def)
  moreover have "str_at (write_list m dst (?bs @ [0])) dst ?bs"
  proof (rule str_at_write)
    show "0 \<notin> set ?bs"
      using nz [OF assms(1)] by (auto dest: in_set_takeD)
    show "length ?bs < 4294967296"
      using sz(2) by (simp add: min_less_iff_disj less_imp_diff_less)
  qed
  moreover have "write_list m dst (?bs @ [0]) x = m x" if "\<not> in_range dst (unat sz) x" for x
  proof (rule write_list_outside)
    fix k assume "k < length (?bs @ [0])"
    then have "k < unat sz"
      using sz by auto
    then have "in_range dst (unat sz) (dst + word_of_nat k)"
      using sz by (simp add: in_range_def unat_of_nat)
    with that show "x \<noteq> dst + word_of_nat k" by auto
  qed
  ultimately show ?thesis by blast
qed

theorem strlcpy_correct_witness:
  "\<exists>m'. strlcpy (\<lambda>a. if a < 0x105 then 0x61 else 0) 0x200 0x100 4 = (3, m') \<and> str_at m' 0x200 [0x61, 0x61, 0x61]"
proof -
  let ?m = "\<lambda>a. if a < (0x105 :: u32) then 0x61 else (0 :: u8)"
  have "str_at ?m 0x100 [0x61, 0x61, 0x61, 0x61, 0x61]" by simp
  moreover have "(0x200 :: u32) + word_of_nat j \<noteq> 0x100 + word_of_nat k" if "j < 4" "k \<le> 5" for j k
  proof -
    have "unat ((0x200 :: u32) + word_of_nat j) = 0x200 + j" "unat ((0x100 :: u32) + word_of_nat k) = 0x100 + k"
      using that unat_plus_nat [of "0x200" j] unat_plus_nat [of "0x100" k] by simp_all
    then have "unat ((0x100 :: u32) + word_of_nat k) < unat ((0x200 :: u32) + word_of_nat j)"
      using that by linarith
    then show ?thesis by (metis less_irrefl)
  qed
  ultimately show ?thesis
    using strlcpy_correct [of ?m "0x100" "[0x61, 0x61, 0x61, 0x61, 0x61]" 4 "0x200"] by auto
qed

lemma uint_pos: "b \<noteq> 0 \<Longrightarrow> 0 < uint (b :: u8)"
  using unsigned_eq_0_iff [of b, where 'a = int] uint_ge_0 [of b] by linarith

text \<open>\<^verbatim>\<open>strcmp\<close> returns on any two strings, with 0 exactly for equal ones and a negative value exactly when the first
  comes before the second in the lexicographic order of unsigned characters.\<close>

theorem strcmp_correct:
  assumes "str_at m p xs" "str_at m q ys"
  shows "\<exists>r. strcmp m p q = Some r \<and> (r = 0 \<longleftrightarrow> xs = ys) \<and> (r < 0 \<longleftrightarrow> ord_class.lexordp xs ys)"
  using assms
proof (induction xs arbitrary: p q ys)
  case Nil
  have "strcmp m p q = Some (- uint (m q))"
    using Nil by (subst strcmp.simps) simp
  with Nil show ?case
    by (cases ys) (auto simp: unsigned_eq_0_iff uint_pos)
next
  case (Cons x xs)
  show ?case
  proof (cases "m q = x")
    case True
    then obtain ys' where "ys = x # ys'"
      using Cons.prems by (cases ys) auto
    with Cons True show ?thesis
      by (subst strcmp.simps) auto
  next
    case False
    then have "strcmp m p q = Some (uint x - uint (m q))"
      using Cons.prems by (subst strcmp.simps) auto
    moreover have "uint x \<noteq> uint (m q)"
      using False by (metis word_uint_eq_iff)
    ultimately show ?thesis
      using False Cons.prems by (cases ys) (auto simp: word_less_def)
  qed
qed

theorem strcmp_correct_witness:
  "\<exists>r. strcmp (\<lambda>a. if a = 0x100 then 0x61 else if a = 0x200 then 0x62 else 0) 0x100 0x200 = Some r \<and> r < 0"
  using strcmp_correct [of "\<lambda>a. if a = 0x100 then 0x61 else if a = 0x200 then 0x62 else 0" "0x100" "[0x61]" "0x200" "[0x62]"]
  by auto

end
