(* ===== verification/Printfmt.thy ===== *)
theory Printfmt
  imports Strings Kstate
begin

section \<open>Formatted output\<close>

text \<open>
  \<^verbatim>\<open>lib/printfmt.c\<close>, \<^verbatim>\<open>kern/printf.c\<close> and \<^verbatim>\<open>lib/printf.c\<close>. The formatter calls \<^verbatim>\<open>putch\<close> for one character after the
  other; the model returns the list of the arguments of these calls, and the three users of the formatter (the
  console, a bounded buffer, the 256-byte buffer of user programs) consume that list. The format is given
  without its terminating null character, the variable arguments as the words on the stack, and memory
  as a load function that answers \<open>None\<close> on a fault; the result is \<open>None\<close> when a string argument faults
  or never ends, or when the arguments run out. Field widths are unbounded integers.
\<close>

definition chr :: "char \<Rightarrow> u8" where
  "chr c = of_char c"

definition str :: "string \<Rightarrow> u8 list" where
  "str s = map chr s"

subsection \<open>Numbers\<close>

definition digit_char :: "nat \<Rightarrow> u8" where
  "digit_char d = str ''0123456789abcdef'' ! d"

text \<open>The bases are 8, 10 and 16; the test \<open>b < 2\<close> is there for termination only.\<close>

function printnum :: "nat \<Rightarrow> nat \<Rightarrow> int \<Rightarrow> u32 \<Rightarrow> u32 list" where
  "printnum num b width padc =
     (if b \<le> num \<and> 2 \<le> b then printnum (num div b) b (width - 1) padc
      else replicate (nat (width - 1)) padc) @ [ucast (digit_char (num mod b))]"
  by pat_completeness auto
termination
  by (relation "measure fst") (auto intro: div_less_dividend)

declare printnum.simps [simp del]

fun getuint :: "u32 list \<Rightarrow> nat \<Rightarrow> (nat \<times> u32 list) option" where
  "getuint (a # b # as) lflag = (if 2 \<le> lflag then Some (unat a + 4294967296 * unat b, as) else Some (unat a, b # as))"
| "getuint [a] lflag = (if 2 \<le> lflag then None else Some (unat a, []))"
| "getuint [] lflag = None"

fun getint :: "u32 list \<Rightarrow> nat \<Rightarrow> (int \<times> u32 list) option" where
  "getint (a # b # as) lflag = (if 2 \<le> lflag then Some (uint a + 4294967296 * sint b, as) else Some (sint a, b # as))"
| "getint [a] lflag = (if 2 \<le> lflag then None else Some (sint a, []))"
| "getint [] lflag = None"

subsection \<open>Strings\<close>

text \<open>The loop of the \<^verbatim>\<open>%s\<close> case: the characters are those of a signed \<^verbatim>\<open>char *\<close>.\<close>

partial_function (option) str_loop :: "(u32 \<Rightarrow> u8 option) \<Rightarrow> u32 \<Rightarrow> int \<Rightarrow> bool \<Rightarrow> u32 list option" where
  "str_loop rd p prec alt =
     do {
       b \<leftarrow> rd p;
       (if b \<noteq> 0 \<and> (prec < 0 \<or> 0 \<le> prec - 1)
        then do {
          xs \<leftarrow> str_loop rd (p + 1) (if prec < 0 then prec else prec - 1) alt;
          Some ((if alt \<and> (b <s 0x20 \<or> 0x7E <s b) then 0x3F else scast b) # xs)
        }
        else Some [])
     }"

definition print_str :: "(u32 \<Rightarrow> u8 option) \<Rightarrow> u32 \<Rightarrow> int \<Rightarrow> int \<Rightarrow> u32 \<Rightarrow> bool \<Rightarrow> u32 list option" where
  "print_str rd p width prec padc alt =
     do {
       w \<leftarrow> (if 0 < width \<and> padc \<noteq> 0x2D
            then do { n \<leftarrow> strnlen rd p (word_of_int prec); Some (width - sint n) } else Some width);
       let pads = (if 0 < width \<and> padc \<noteq> 0x2D then replicate (nat w) padc else []);
       let w1 = (if 0 < width \<and> padc \<noteq> 0x2D \<and> 0 < w then 0 else w);
       xs \<leftarrow> str_loop rd p prec alt;
       Some (pads @ xs @ replicate (nat (w1 - int (length xs))) 0x20)
     }"

text \<open>A string literal of the program, as a memory that holds it at address 0.\<close>

definition lit_rd :: "u8 list \<Rightarrow> u32 \<Rightarrow> u8 option" where
  "lit_rd l a = Some (if unat a < length l then l ! unat a else 0)"

definition MAXERROR :: int where [layout]: "MAXERROR = 9"

definition error_string :: "int \<Rightarrow> string option" where
  "error_string e =
     (if e = E_UNSPECIFIED then Some ''unspecified error'' else if e = E_BAD_ENV then Some ''bad environment''
      else if e = E_INVAL then Some ''invalid parameter'' else if e = E_NO_MEM then Some ''out of memory''
      else if e = E_NO_FREE_ENV then Some ''out of environments'' else if e = E_FAULT then Some ''segmentation fault''
      else if e = E_IPC_NOT_RECV then Some ''env is not recving'' else if e = E_EOF then Some ''unexpected end of file''
      else None)"

text \<open>The \<^verbatim>\<open>%e\<close> case, with the inner calls of \<^verbatim>\<open>printfmt\<close> expanded. The most negative integer is its own negation
  and indexes the table out of bounds.\<close>

definition print_error :: "u32 \<Rightarrow> u32 list option" where
  "print_error a =
     (let err = (if sint a < 0 then sint (- a) else sint a)
      in if err < 0 then None
         else case (if MAXERROR \<le> err then None else error_string err) of
                None \<Rightarrow> Some (map ucast (str ''error '') @ printnum (nat err) 10 (- 1) 0x20)
              | Some s \<Rightarrow> print_str (lit_rd (str s)) 0 (- 1) (- 1) 0x20 False)"

subsection \<open>The format\<close>

record fmt_flags =
  f_padc :: u32
  f_width :: int
  f_precision :: int
  f_lflag :: nat
  f_alt :: bool

definition flags0 :: fmt_flags where
  "flags0 = \<lparr>f_padc = 0x20, f_width = - 1, f_precision = - 1, f_lflag = 0, f_alt = False\<rparr>"

definition process_precision :: "int \<Rightarrow> fmt_flags \<Rightarrow> fmt_flags" where
  "process_precision p fl =
     (if f_width fl < 0 then fl\<lparr>f_width := p, f_precision := - 1\<rparr> else fl\<lparr>f_precision := p\<rparr>)"

fun take_digits :: "int \<Rightarrow> u8 list \<Rightarrow> int \<times> u8 list" where
  "take_digits p [] = (p, [])"
| "take_digits p (c # cs) =
     (if 0x30 \<le> c \<and> c \<le> 0x39 then take_digits (p * 10 + uint c - 48) cs else (p, c # cs))"

lemma take_digits_length: "length (snd (take_digits p cs)) \<le> length cs"
  by (induction cs arbitrary: p) (auto intro: le_SucI)

text \<open>A conversion that prints: the characters it prints and the remaining arguments.\<close>

definition print_conv :: "(u32 \<Rightarrow> u8 option) \<Rightarrow> u8 \<Rightarrow> fmt_flags \<Rightarrow> u32 list \<Rightarrow> (u32 list \<times> u32 list) option" where
  "print_conv rd c fl args =
     (if c = chr CHR ''c'' then (case args of [] \<Rightarrow> None | a # as \<Rightarrow> Some ([a], as))
      else if c = chr CHR ''e'' then (case args of [] \<Rightarrow> None | a # as \<Rightarrow> do { xs \<leftarrow> print_error a; Some (xs, as) })
      else if c = chr CHR ''s'' then (case args of [] \<Rightarrow> None
        | p # as \<Rightarrow> do {
            xs \<leftarrow> (if p = 0 then print_str (lit_rd (str ''(null)'')) 0 (f_width fl) (f_precision fl) (f_padc fl) (f_alt fl)
                  else print_str rd p (f_width fl) (f_precision fl) (f_padc fl) (f_alt fl));
            Some (xs, as)
          })
      else if c = chr CHR ''d'' then do {
        (n, as) \<leftarrow> getint args (f_lflag fl);
        Some ((if n < 0 then [0x2D] else []) @ printnum (nat \<bar>n\<bar>) 10 (f_width fl) (f_padc fl), as)
      }
      else if c = chr CHR ''u'' then do {
        (n, as) \<leftarrow> getuint args (f_lflag fl); Some (printnum n 10 (f_width fl) (f_padc fl), as) }
      else if c = chr CHR ''o'' then do {
        (n, as) \<leftarrow> getuint args (f_lflag fl); Some (printnum n 8 (f_width fl) (f_padc fl), as) }
      else if c = chr CHR ''p'' then (case args of [] \<Rightarrow> None
        | a # as \<Rightarrow> Some (0x30 # 0x78 # printnum (unat a) 16 (f_width fl) (f_padc fl), as))
      else if c = chr CHR ''x'' then do {
        (n, as) \<leftarrow> getuint args (f_lflag fl); Some (printnum n 16 (f_width fl) (f_padc fl), as) }
      else Some ([ucast c], args))"

definition printing :: "u8 \<Rightarrow> bool" where
  "printing c \<longleftrightarrow> c \<in> set (str ''cesduopx%'')"

text \<open>\<open>vprintfmt\<close> is at the outer loop, \<open>vprintfmt_conv\<close> at \<^verbatim>\<open>reswitch\<close>; its first format argument is the text after the
  percent sign, to which an unrecognised sequence goes back.\<close>

function vprintfmt :: "(u32 \<Rightarrow> u8 option) \<Rightarrow> u8 list \<Rightarrow> u32 list \<Rightarrow> u32 list option"
  and vprintfmt_conv :: "(u32 \<Rightarrow> u8 option) \<Rightarrow> u8 list \<Rightarrow> u8 list \<Rightarrow> fmt_flags \<Rightarrow> u32 list \<Rightarrow> u32 list option" where
  "vprintfmt rd [] args = Some []"
| "vprintfmt rd (ch # fmt) args =
     (if ch \<noteq> chr CHR ''%'' then do { xs \<leftarrow> vprintfmt rd fmt args; Some (ucast ch # xs) }
      else vprintfmt_conv rd fmt fmt flags0 args)"
| "vprintfmt_conv rd start [] fl args = do { xs \<leftarrow> vprintfmt rd start args; Some (0x25 # xs) }"
| "vprintfmt_conv rd start (ch # fmt) fl args =
     (if ch = chr CHR ''-'' then vprintfmt_conv rd start fmt (fl\<lparr>f_padc := 0x2D\<rparr>) args
      else if ch = chr CHR ''0'' then vprintfmt_conv rd start fmt (fl\<lparr>f_padc := 0x30\<rparr>) args
      else if 0x31 \<le> ch \<and> ch \<le> 0x39
      then let (p, fmt') = take_digits (uint ch - 48) fmt in vprintfmt_conv rd start fmt' (process_precision p fl) args
      else if ch = chr CHR ''*''
      then (case args of [] \<Rightarrow> None | a # as \<Rightarrow> vprintfmt_conv rd start fmt (process_precision (sint a) fl) as)
      else if ch = chr CHR ''.'' then vprintfmt_conv rd start fmt (if f_width fl < 0 then fl\<lparr>f_width := 0\<rparr> else fl) args
      else if ch = chr CHR ''#'' then vprintfmt_conv rd start fmt (fl\<lparr>f_alt := True\<rparr>) args
      else if ch = chr CHR ''l'' then vprintfmt_conv rd start fmt (fl\<lparr>f_lflag := f_lflag fl + 1\<rparr>) args
      else if printing ch
      then do { (xs, as) \<leftarrow> print_conv rd ch fl args; ys \<leftarrow> vprintfmt rd fmt as; Some (xs @ ys) }
      else do { xs \<leftarrow> vprintfmt rd start args; Some (0x25 # xs) })"
  by pat_completeness auto
termination
proof (relation "measures [case_sum (\<lambda>(rd, fmt, args). length fmt) (\<lambda>(rd, start, fmt, fl, args). max (length start) (length fmt)),
     case_sum (\<lambda>_. 0) (\<lambda>(rd, start, fmt, fl, args). 1 + length fmt)]", goal_cases)
  case (7 rd start ch fmt fl args x p fmt')
  have "length fmt' \<le> length fmt"
    using take_digits_length [of "uint ch - 48" fmt] 7 by (metis snd_conv)
  then show ?case
    by (auto simp: max_def)
qed (auto simp: max_def)

declare vprintfmt.simps [simp del] vprintfmt_conv.simps [simp del]

subsection \<open>The users of the formatter\<close>

text \<open>The kernel's \<^verbatim>\<open>putch\<close> passes each character to the console; its \<^verbatim>\<open>*cnt++\<close> advances the pointer instead of the
  counter, so that \<^verbatim>\<open>cprintf\<close> always returns 0.\<close>

definition vcprintf :: "(u32 \<Rightarrow> u8 option) \<Rightarrow> u8 list \<Rightarrow> u32 list \<Rightarrow> console \<Rightarrow> (u32 \<times> console) option" where
  "vcprintf rd fmt args s = do { xs \<leftarrow> vprintfmt rd fmt args; Some (0, fold cputchar xs s) }"

record sprintbuf =
  sb_buf :: u32
  sb_ebuf :: u32
  sb_cnt :: u32

definition sprintputch :: "u32 \<Rightarrow> sprintbuf \<times> bytemem \<Rightarrow> sprintbuf \<times> bytemem" where
  "sprintputch ch = (\<lambda>(b, m).
     let b1 = b\<lparr>sb_cnt := sb_cnt b + 1\<rparr>
     in if sb_buf b1 < sb_ebuf b1 then (b1\<lparr>sb_buf := sb_buf b1 + 1\<rparr>, m(sb_buf b1 := ucast ch)) else (b1, m))"

text \<open>The formatter reads its string arguments through \<open>rd\<close>, taken before the buffer is written.\<close>

definition vsnprintf :: "(u32 \<Rightarrow> u8 option) \<Rightarrow> bytemem \<Rightarrow> u32 \<Rightarrow> u32 \<Rightarrow> u8 list \<Rightarrow> u32 list \<Rightarrow> (int \<times> bytemem) option" where
  "vsnprintf rd m buf n fmt args =
     (if buf = 0 \<or> sint n < 1 then Some (- E_INVAL, m)
      else do {
        xs \<leftarrow> vprintfmt rd fmt args;
        let (b, m1) = fold sprintputch xs (\<lparr>sb_buf = buf, sb_ebuf = buf + n - 1, sb_cnt = 0\<rparr>, m);
        Some (sint (sb_cnt b), m1(sb_buf b := 0))
      })"

text \<open>The user library collects up to 255 characters and passes them to \<^verbatim>\<open>sys_cputs\<close> in one call; \<open>pb_sent\<close> is the list of
  these calls, oldest first.\<close>

record printbuf =
  pb_buf :: "u8 list"
  pb_cnt :: u32
  pb_sent :: "u8 list list"

definition user_putch :: "u32 \<Rightarrow> printbuf \<Rightarrow> printbuf" where
  "user_putch ch b =
     (let b1 = b\<lparr>pb_buf := pb_buf b @ [ucast ch]\<rparr>;
          b2 = (if length (pb_buf b1) = 256 - 1 then b1\<lparr>pb_sent := pb_sent b1 @ [pb_buf b1], pb_buf := []\<rparr> else b1)
      in b2\<lparr>pb_cnt := pb_cnt b2 + 1\<rparr>)"

definition user_vcprintf :: "(u32 \<Rightarrow> u8 option) \<Rightarrow> u8 list \<Rightarrow> u32 list \<Rightarrow> (u32 \<times> u8 list list) option" where
  "user_vcprintf rd fmt args =
     do {
       xs \<leftarrow> vprintfmt rd fmt args;
       let b = fold user_putch xs \<lparr>pb_buf = [], pb_cnt = 0, pb_sent = []\<rparr>;
       Some (pb_cnt b, pb_sent b @ [pb_buf b])
     }"

subsection \<open>Printed numbers are read back\<close>

definition value_of :: "nat \<Rightarrow> nat list \<Rightarrow> nat" where
  "value_of b ds = foldl (\<lambda>v d. v * b + d) 0 ds"

lemma digit_char_table:
  "digit_char 0 = 0x30" "digit_char 1 = 0x31" "digit_char 2 = 0x32" "digit_char 3 = 0x33" "digit_char 4 = 0x34"
  "digit_char 5 = 0x35" "digit_char 6 = 0x36" "digit_char 7 = 0x37" "digit_char 8 = 0x38" "digit_char 9 = 0x39"
  "digit_char 10 = 0x61" "digit_char 11 = 0x62" "digit_char 12 = 0x63" "digit_char 13 = 0x64" "digit_char 14 = 0x65"
  "digit_char 15 = 0x66"
  by (simp_all add: digit_char_def str_def chr_def)

lemma digit_char_simps:
  assumes "d < 16"
  shows "digit_char d \<noteq> 0 \<and> digit_char d \<noteq> 0x20 \<and> digit_char d \<noteq> 9 \<and> digit_char d \<noteq> 0x2B \<and> digit_char d \<noteq> 0x2D \<and>
     digit_char d \<noteq> 0x78 \<and> strtol_digit (digit_char d) = Some (word_of_nat d)"
proof -
  have "d = 0 \<or> d = 1 \<or> d = 2 \<or> d = 3 \<or> d = 4 \<or> d = 5 \<or> d = 6 \<or> d = 7 \<or> d = 8 \<or> d = 9 \<or> d = 10 \<or> d = 11 \<or> d = 12 \<or>
      d = 13 \<or> d = 14 \<or> d = 15"
    using assms by presburger
  then show ?thesis
    by (elim disjE) (simp_all only: digit_char_table, simp_all add: strtol_digit_def)
qed

lemma printnum_digits:
  assumes "2 \<le> b"
  shows "\<exists>ds. printnum num b w 0x30 = map (\<lambda>d. ucast (digit_char d)) ds \<and> (\<forall>d \<in> set ds. d < b) \<and> value_of b ds = num \<and> ds \<noteq> []"
proof (induction num arbitrary: w rule: less_induct)
  case (less num)
  show ?case
  proof (cases "b \<le> num")
    case True
    then have "num div b < num"
      using assms by (simp add: div_less_dividend)
    from less [OF this, of "w - 1"] obtain ds where
      ds: "printnum (num div b) b (w - 1) 0x30 = map (\<lambda>d. ucast (digit_char d)) ds" "\<forall>d \<in> set ds. d < b" "value_of b ds = num div b" "ds \<noteq> []"
      by blast
    then have "printnum num b w 0x30 = map (\<lambda>d. ucast (digit_char d)) (ds @ [num mod b])"
      using True assms by (subst printnum.simps) simp
    moreover have "value_of b (ds @ [num mod b]) = num"
      using ds(3) by (simp add: value_of_def)
    ultimately show ?thesis
      using ds(2) assms by (intro exI [of _ "ds @ [num mod b]"]) auto
  next
    case False
    let ?ds = "replicate (nat (w - 1)) 0 @ [num]"
    have z: "foldl (\<lambda>v d. v * b + d) 0 (replicate n 0) = (0 :: nat)" for n
      by (induction n) simp_all
    have "printnum num b w 0x30 = map (\<lambda>d. ucast (digit_char d)) ?ds"
      using False by (subst printnum.simps) (simp add: digit_char_def str_def chr_def)
    moreover have "value_of b ?ds = num"
      by (simp add: value_of_def z)
    ultimately show ?thesis
      using False assms by (intro exI [of _ ?ds]) auto
  qed
qed

lemma strtol_digits_run:
  assumes "str_at m a (map digit_char ds)" "\<forall>d \<in> set ds. d < b" "2 \<le> b" "b \<le> 16"
  shows "strtol_digits m a (word_of_nat b) v =
    Some (foldl (\<lambda>v d. v * word_of_nat b + word_of_nat d) v ds, a + word_of_nat (length ds))"
  using assms
proof (induction ds arbitrary: a v)
  case Nil
  then show ?case
    by (subst strtol_digits.simps) (simp add: strtol_digit_def)
next
  case (Cons d ds)
  have "unat (word_of_nat d :: u32) = d" "unat (word_of_nat b :: u32) = b"
    using Cons.prems by (auto simp: unat_of_nat)
  then have "sint (word_of_nat d :: u32) = int d" "sint (word_of_nat b :: u32) = int b"
    using Cons.prems by (auto simp: sint_u32)
  then have "sint (word_of_nat d :: u32) < sint (word_of_nat b :: u32)"
    using Cons.prems by simp
  then have "\<not> (word_of_nat b :: u32) \<le>s word_of_nat d"
    by (simp add: word_sle_eq)
  with Cons show ?case
    using digit_char_simps [of d] by (subst strtol_digits.simps) (simp add: add.assoc)
qed

lemma foldl_word_of_nat:
  "foldl (\<lambda>v d. v * word_of_nat b + word_of_nat d) (word_of_nat v) ds = (word_of_nat (foldl (\<lambda>v d. v * b + d) v ds) :: u32)"
proof (induction ds arbitrary: v)
  case (Cons d ds)
  have "(word_of_nat v * word_of_nat b + word_of_nat d :: u32) = word_of_nat (v * b + d)"
    by simp
  then show ?case using Cons by (simp only: foldl_Cons)
qed simp

text \<open>C39. Numbers printed by the formatter are read back by \<^verbatim>\<open>strtol\<close>: for the bases the formatter uses, any field width
  and zero padding, parsing the printed digits gives the number (modulo the 32 bits of a \<^verbatim>\<open>long\<close>) and stops at the
  end of the string.\<close>

theorem printnum_strtol:
  assumes "b \<in> {8, 10, 16}" "str_at m a (map ucast (printnum num b w 0x30))"
  shows "strtol m a (word_of_nat b) = Some (word_of_nat num, a + word_of_nat (length (printnum num b w 0x30)))"
proof -
  have b: "2 \<le> b" "b \<le> 16" "(word_of_nat b :: u32) \<noteq> 0"
    using assms(1) by auto
  obtain ds where ds: "printnum num b w 0x30 = map (\<lambda>d. ucast (digit_char d)) ds" "\<forall>d \<in> set ds. d < b" "value_of b ds = num" "ds \<noteq> []"
    using printnum_digits [OF b(1), of num w] by blast
  have "(ucast (ucast c :: u32) :: u8) = c" for c :: u8
    by (rule bit_word_eqI) (simp add: bit_simps)
  then have "map ucast (printnum num b w 0x30) = map digit_char ds"
    by (simp add: ds(1))
  with assms(2) have st: "str_at m a (map digit_char ds)" by simp
  obtain d ds' where d: "ds = d # ds'" "d < 16"
    using ds(2,4) b(2) by (cases ds) auto
  note D = digit_char_simps [OF d(2)]
  have ma: "m a = digit_char d"
    using st d(1) by simp
  have nx: "m (a + 1) \<noteq> 0x78"
  proof (cases ds')
    case (Cons e es)
    then have "e < 16" using ds(2) d(1) b(2) by auto
    with Cons st d(1) digit_char_simps [of e] show ?thesis by simp
  qed (use st d(1) in simp)
  have "skip_blanks m a = Some a"
    using D ma by (subst skip_blanks.simps) simp
  then have "strtol m a (word_of_nat b) =
      do { (val, s4) \<leftarrow> strtol_digits m a (word_of_nat b) 0; Some (val, s4) }"
    using D nx b(3) by (simp add: strtol_def Let_def ma)
  also have "\<dots> = Some (foldl (\<lambda>v d. v * word_of_nat b + word_of_nat d) 0 ds, a + word_of_nat (length ds))"
    using strtol_digits_run [OF st ds(2) b(1,2), of 0] by simp
  also have "foldl (\<lambda>v d. v * word_of_nat b + word_of_nat d) 0 ds = (word_of_nat num :: u32)"
    using foldl_word_of_nat [of b 0 ds] ds(3) by (simp add: value_of_def)
  finally show ?thesis by (simp add: ds(1))
qed

theorem printnum_strtol_witness:
  "strtol (write_list (\<lambda>_. 0) 0x100 [0x30, 0x34, 0x32]) 0x100 10 = Some (42, 0x103)"
proof -
  have p: "printnum 42 10 3 0x30 = [0x30, 0x34, 0x32]"
    by (subst printnum.simps, subst printnum.simps) (simp add: digit_char_table)
  have "str_at (write_list (\<lambda>_. 0) 0x100 [0x30, 0x34, 0x32]) 0x100 (map ucast (printnum 42 10 3 0x30))"
    unfolding p by simp
  from printnum_strtol [OF _ this] show ?thesis
    by (simp add: p)
qed

subsection \<open>Bounded and batched output\<close>

lemma write_list_append: "write_list m a (xs @ ys) = write_list (write_list m a xs) (a + word_of_nat (length xs)) ys"
  by (induction xs arbitrary: m a) (simp_all add: add.assoc)

lemma sprintputch_fold:
  assumes "unat buf + n < 4294967296"
  shows "fold sprintputch xs (\<lparr>sb_buf = buf, sb_ebuf = buf + word_of_nat n, sb_cnt = c\<rparr>, m) =
    (\<lparr>sb_buf = buf + word_of_nat (min (length xs) n), sb_ebuf = buf + word_of_nat n, sb_cnt = c + word_of_nat (length xs)\<rparr>,
     write_list m buf (map ucast (take n xs)))"
  using assms
proof (induction xs arbitrary: buf n c m)
  case (Cons x xs)
  show ?case
  proof (cases n)
    case 0
    have "fold sprintputch xs (\<lparr>sb_buf = buf, sb_ebuf = buf, sb_cnt = c + 1\<rparr>, m) =
        (\<lparr>sb_buf = buf, sb_ebuf = buf, sb_cnt = c + 1 + word_of_nat (length xs)\<rparr>, m)"
      using Cons.IH [of buf 0 "c + 1" m] Cons.prems by simp
    moreover have "sprintputch x (\<lparr>sb_buf = buf, sb_ebuf = buf, sb_cnt = c\<rparr>, m) = (\<lparr>sb_buf = buf, sb_ebuf = buf, sb_cnt = c + 1\<rparr>, m)"
      by (simp add: sprintputch_def)
    ultimately show ?thesis
      using 0 by (simp add: add.assoc)
  next
    case (Suc k)
    have u: "unat (buf + 1) = unat buf + 1" "unat (buf + word_of_nat n) = unat buf + n"
      using Cons.prems Suc unat_plus_nat [of buf 1] unat_plus_nat [of buf n] by simp_all
    then have lt: "buf < buf + word_of_nat n"
      using Suc by (simp add: word_less_nat_alt)
    have e: "buf + word_of_nat n = buf + 1 + word_of_nat k"
      by (simp add: Suc add.assoc)
    have "fold sprintputch xs (\<lparr>sb_buf = buf + 1, sb_ebuf = buf + 1 + word_of_nat k, sb_cnt = c + 1\<rparr>, m(buf := ucast x)) =
      (\<lparr>sb_buf = buf + 1 + word_of_nat (min (length xs) k), sb_ebuf = buf + 1 + word_of_nat k, sb_cnt = c + 1 + word_of_nat (length xs)\<rparr>,
       write_list (m(buf := ucast x)) (buf + 1) (map ucast (take k xs)))"
      using Cons.prems Suc u by (intro Cons.IH) simp
    moreover have "sprintputch x (\<lparr>sb_buf = buf, sb_ebuf = buf + word_of_nat n, sb_cnt = c\<rparr>, m) =
        (\<lparr>sb_buf = buf + 1, sb_ebuf = buf + 1 + word_of_nat k, sb_cnt = c + 1\<rparr>, m(buf := ucast x))"
      using lt unfolding e by (simp only: sprintputch_def case_prod_conv Let_def sprintbuf.simps if_True)
    ultimately show ?thesis
      by (simp add: Suc add.assoc)
  qed
qed simp

text \<open>C40. \<^verbatim>\<open>vsnprintf\<close> never writes outside its buffer: it stores the first \<open>n - 1\<close> characters of the output followed by a null
  character and returns the length of the whole output, whether or not it fitted.\<close>

theorem vsnprintf_bounded:
  assumes "buf \<noteq> 0" "0 < sint n" "unat buf + unat n \<le> 4294967296" "vprintfmt rd fmt args = Some xs" "length xs < 2147483648"
  shows "\<exists>m'. vsnprintf rd m buf n fmt args = Some (int (length xs), m') \<and>
    m' = write_list m buf (map ucast (take (unat n - 1) xs) @ [0]) \<and> (\<forall>x. \<not> in_range buf (unat n) x \<longrightarrow> m' x = m x)"
proof -
  have n: "0 < unat n" "unat n < 2147483648"
    using assms(2) by (simp_all add: sint_pos_iff)
  have e: "buf + n - 1 = buf + word_of_nat (unat n - 1)"
    using n by (simp add: of_nat_diff)
  let ?m = "write_list m buf (map ucast (take (unat n - 1) xs) @ [0])"
  have "sint (word_of_nat (length xs) :: u32) = int (length xs)"
    using assms(5) by (simp add: sint_u32 unat_of_nat)
  moreover have l: "length (map ucast (take (unat n - 1) xs)) = min (length xs) (unat n - 1)"
    by simp
  ultimately have run: "vsnprintf rd m buf n fmt args = Some (int (length xs), ?m)"
    using assms sprintputch_fold [of buf "unat n - 1" xs 0 m] n
    by (simp add: vsnprintf_def e write_list_append del: of_nat_diff) 
  moreover have "?m x = m x" if "\<not> in_range buf (unat n) x" for x
  proof (rule write_list_outside)
    fix k assume "k < length (map ucast (take (unat n - 1) xs) @ [0 :: u8])"
    then have "k < unat n"
      using n by auto
    then have "in_range buf (unat n) (buf + word_of_nat k)"
      using n by (simp add: in_range_def unat_of_nat)
    with that show "x \<noteq> buf + word_of_nat k" by auto
  qed
  ultimately show ?thesis by blast
qed

theorem vsnprintf_bounded_witness:
  "\<exists>m'. vsnprintf (\<lambda>_. None) (\<lambda>_. 7) 0x1000 3 (str ''abcd'') [] = Some (4, m') \<and> m' 0x1002 = 0 \<and> m' 0x1003 = 7"
proof -
  have v: "vprintfmt (\<lambda>_. None) (str ''abcd'') [] = Some (map ucast (str ''abcd''))"
    by (simp add: str_def chr_def vprintfmt.simps)
  have "\<not> in_range 0x1000 3 0x1003"
    by (simp add: in_range_def)
  moreover obtain m' where m': "vsnprintf (\<lambda>_. None) (\<lambda>_. 7) 0x1000 3 (str ''abcd'') [] = Some (4, m')"
    "m' = write_list (\<lambda>_. 7) 0x1000 (map ucast (take 2 (map ucast (str ''abcd'') :: u32 list)) @ [0])"
    "\<And>x. \<not> in_range 0x1000 3 x \<Longrightarrow> m' x = 7"
    using vsnprintf_bounded [of "0x1000" 3, OF _ _ _ v, of "\<lambda>_. 7"] by (auto simp: str_def sint_u32)
  moreover have "m' 0x1002 = 0"
    by (simp add: m'(2) str_def)
  ultimately show ?thesis by blast
qed

text \<open>The user library's \<^verbatim>\<open>cprintf\<close> sends its output completely and in order: the arguments of its \<^verbatim>\<open>sys_cputs\<close> calls,
  put together, are the formatted output; every call but the last passes exactly 255 characters and the
  last at most 254, so that the buffer of 256 bytes never overflows; the result is the length of the output.\<close>

theorem user_vcprintf_batches:
  assumes "vprintfmt rd fmt args = Some xs"
  shows "\<exists>chunks final. user_vcprintf rd fmt args = Some (word_of_nat (length xs), chunks @ [final]) \<and>
    concat (chunks @ [final]) = map ucast xs \<and> (\<forall>c \<in> set chunks. length c = 255) \<and> length final < 255"
proof -
  let ?b0 = "\<lparr>pb_buf = [], pb_cnt = 0, pb_sent = []\<rparr>"
  have "pb_cnt (fold user_putch ys b) = pb_cnt b + word_of_nat (length ys) \<and>
      concat (pb_sent (fold user_putch ys b)) @ pb_buf (fold user_putch ys b) = concat (pb_sent b) @ pb_buf b @ map ucast ys \<and>
      length (pb_buf (fold user_putch ys b)) < 255 \<and> (\<forall>c \<in> set (pb_sent (fold user_putch ys b)). length c = 255)"
    if "length (pb_buf b) < 255" "\<forall>c \<in> set (pb_sent b). length c = 255" for ys b
    using that
  proof (induction ys arbitrary: b)
    case (Cons y ys)
    have 1: "length (pb_buf (user_putch y b)) < 255" "\<forall>c \<in> set (pb_sent (user_putch y b)). length c = 255"
      using Cons.prems by (auto simp: user_putch_def Let_def)
    have 2: "concat (pb_sent (user_putch y b)) @ pb_buf (user_putch y b) = concat (pb_sent b) @ pb_buf b @ [ucast y]"
      "pb_cnt (user_putch y b) = pb_cnt b + 1"
      by (simp_all add: user_putch_def Let_def)
    show ?case
      using Cons.IH [OF 1] 2 by (simp add: add.assoc)
  qed simp
  from this [of ?b0 xs] assms show ?thesis
    by (simp add: user_vcprintf_def Let_def)
qed

theorem user_vcprintf_batches_witness:
  "\<exists>chunks final. user_vcprintf (\<lambda>_. None) (str ''hello'') [] = Some (5, chunks @ [final]) \<and>
     concat (chunks @ [final]) = str ''hello''"
proof -
  have v: "vprintfmt (\<lambda>_. None) (str ''hello'') [] = Some (map ucast (str ''hello''))"
    by (simp add: str_def chr_def vprintfmt.simps)
  then show ?thesis
    using user_vcprintf_batches [OF v] by (auto simp: str_def chr_def)
qed

subsection \<open>The format of \<^verbatim>\<open>sys_cputs\<close>\<close>

lemma vprintfmt_prec_str:
  assumes "p \<noteq> 0"
  shows "vprintfmt rd (str ''%.*s'') [len, p] = str_loop rd p (sint len) False"
proof -
  have "print_str rd p 0 prec pad alt = str_loop rd p prec alt" for prec pad alt
    by (simp add: print_str_def)
  with assms show ?thesis
    by (simp add: str_def chr_def vprintfmt.simps vprintfmt_conv.simps flags0_def process_precision_def printing_def print_conv_def)
qed

text \<open>With a precision \<open>n\<close> the loop prints the characters before the first null character among the first \<open>n\<close>; it loads
  one character more than it prints.\<close>

lemma str_loop_prec:
  assumes "\<And>k. k \<le> n \<Longrightarrow> rd (p + word_of_nat k) = Some (f k)"
  shows "str_loop rd p (int n) False = Some (map scast (takeWhile (\<lambda>b. b \<noteq> 0) (map f [0..<n])))"
  using assms
proof (induction n arbitrary: p f)
  case 0
  then have "rd p = Some (f 0)" using 0 [of 0] by simp
  then show ?case by (subst str_loop.simps) simp
next
  case (Suc n)
  have r: "rd p = Some (f 0)" using Suc.prems [of 0] by simp
  have "rd (p + 1 + word_of_nat k) = Some (f (Suc k))" if "k \<le> n" for k
    using Suc.prems [of "Suc k"] that by (simp add: add.assoc)
  then have "str_loop rd (p + 1) (int n) False = Some (map scast (takeWhile (\<lambda>b. b \<noteq> 0) (map (\<lambda>k. f (Suc k)) [0..<n])))"
    by (rule Suc.IH)
  moreover have "map f [0..<Suc n] = f 0 # map (\<lambda>k. f (Suc k)) [0..<n]"
    by (simp add: map_upt_Suc del: upt_Suc)
  ultimately show ?case
    using r by (subst str_loop.simps) (simp del: upt_Suc)
qed

end
