(* ===== verification/Syscall.thy ===== *)
theory Syscall
  imports Kern_Inv Printfmt
begin

section \<open>System calls\<close>

text \<open>
  \<^verbatim>\<open>kern/syscall.c\<close>: every system call as a function from the kernel state and its argument registers to the
  way it ends (\<open>Ret\<close> with the value for the caller, or \<open>Leave\<close> when the processor runs something else) and
  the new state; \<open>None\<close> is a kernel panic or a fault in the kernel. User pointers are read through the
  current page directory.
\<close>

subsection \<open>Operations\<close>

definition SYS_cputs :: u32 where [layout]: "SYS_cputs = 0"
definition SYS_cgetc :: u32 where [layout]: "SYS_cgetc = 1"
definition SYS_getenvid :: u32 where [layout]: "SYS_getenvid = 2"
definition SYS_env_destroy :: u32 where [layout]: "SYS_env_destroy = 3"
definition SYS_page_alloc :: u32 where [layout]: "SYS_page_alloc = 4"
definition SYS_page_map :: u32 where [layout]: "SYS_page_map = 5"
definition SYS_page_unmap :: u32 where [layout]: "SYS_page_unmap = 6"
definition SYS_exofork :: u32 where [layout]: "SYS_exofork = 7"
definition SYS_env_set_status :: u32 where [layout]: "SYS_env_set_status = 8"
definition SYS_env_set_pgfault_upcall :: u32 where [layout]: "SYS_env_set_pgfault_upcall = 9"
definition SYS_yield :: u32 where [layout]: "SYS_yield = 10"
definition SYS_ipc_try_send :: u32 where [layout]: "SYS_ipc_try_send = 11"
definition SYS_ipc_recv :: u32 where [layout]: "SYS_ipc_recv = 12"

text \<open>The environment pointer that a successful \<^verbatim>\<open>envid2env\<close> has stored.\<close>

definition stored :: "nat option option \<Rightarrow> nat option" where
  "stored x = (case x of Some (Some e) \<Rightarrow> Some e | _ \<Rightarrow> None)"

definition sys_cputs :: "kstate \<Rightarrow> u32 \<Rightarrow> u32 \<Rightarrow> (unit flow \<times> kstate) option" where
  "sys_cputs s va len =
     do {
       c \<leftarrow> curenv s;
       (f, s1) \<leftarrow> user_mem_assert s c va len (PTE_U OR PTE_P);
       (case f of
          Leave x \<Rightarrow> Some (Leave x, s1)
        | Ret _ \<Rightarrow> do {
            (_, con') \<leftarrow> vcprintf (va_read s1) (str ''%.*s'') [len, va] (con s1);
            Some (Ret (), s1\<lparr>con := con'\<rparr>)
          })
     }"

definition sys_cgetc :: "kstate \<Rightarrow> (int flow \<times> kstate) option" where
  "sys_cgetc s = do { (c, con') \<leftarrow> cons_getc (con s); Some (Ret c, s\<lparr>con := con'\<rparr>) }"

definition sys_getenvid :: "kstate \<Rightarrow> (int flow \<times> kstate) option" where
  "sys_getenvid s = do { c \<leftarrow> curenv s; Some (Ret (sint (env_id (envs s c))), s) }"

definition sys_env_destroy :: "kstate \<Rightarrow> u32 \<Rightarrow> (int flow \<times> kstate) option" where
  "sys_env_destroy s envid =
     do {
       (r, st) \<leftarrow> envid2env s envid True;
       (if r < 0 then Some (Ret r, s)
        else do {
          e \<leftarrow> stored st;
          (f, s1) \<leftarrow> env_destroy s e;
          Some (case f of Ret _ \<Rightarrow> Ret 0 | Leave x \<Rightarrow> Leave x, s1)
        })
     }"

definition sys_yield :: "kstate \<Rightarrow> (int flow \<times> kstate) option" where
  "sys_yield s = do { (x, s1) \<leftarrow> sched_yield s; Some (Leave x, s1) }"

definition check_addr_scale :: "u32 \<Rightarrow> u32 \<Rightarrow> u32 \<Rightarrow> int" where
  "check_addr_scale val mn mx = (if mn \<le> val \<and> val < mx \<and> PGOFF val = 0 then 0 else - E_INVAL)"

definition sys_exofork :: "kstate \<Rightarrow> (int flow \<times> kstate) option" where
  "sys_exofork s =
     do {
       c \<leftarrow> curenv s;
       (r, child, s1) \<leftarrow> env_alloc s (env_id (envs s c));
       (if r \<noteq> 0 then Some (Ret r, s1)
        else do {
          e \<leftarrow> child;
          let s2 = upd_env e (\<lambda>v. v\<lparr>env_tf := env_tf (envs s1 c)\<rparr>) s1;
          let s3 = upd_env e (\<lambda>v. v\<lparr>env_status := ENV_NOT_RUNNABLE\<rparr>) s2;
          let s4 = upd_env e (\<lambda>v. v\<lparr>env_tf := (env_tf v)\<lparr>tf_regs := (tf_regs (env_tf v))\<lparr>reg_eax := 0\<rparr>\<rparr>\<rparr>) s3;
          (if env_id (envs s4 e) = env_id (envs s4 c) then Some (Ret 0, s4)
           else Some (Ret (sint (env_id (envs s4 e))), s4))
        })
     }"

definition sys_env_set_status :: "kstate \<Rightarrow> u32 \<Rightarrow> u32 \<Rightarrow> (int flow \<times> kstate) option" where
  "sys_env_set_status s envid status =
     do {
       (r, st) \<leftarrow> envid2env s envid True;
       (if r \<noteq> 0 then Some (Ret (- E_BAD_ENV), s)
        else do {
          e \<leftarrow> stored st;
          (if ENV_RUNNABLE \<noteq> env_status (envs s e) \<and> ENV_NOT_RUNNABLE \<noteq> env_status (envs s e)
           then Some (Ret (- E_INVAL), s)
           else Some (Ret 0, upd_env e (\<lambda>v. v\<lparr>env_status := status\<rparr>) s))
        })
     }"

definition sys_env_set_pgfault_upcall :: "kstate \<Rightarrow> u32 \<Rightarrow> u32 \<Rightarrow> (int flow \<times> kstate) option" where
  "sys_env_set_pgfault_upcall s envid func =
     do {
       (r, st) \<leftarrow> envid2env s envid True;
       (if r \<noteq> 0 then Some (Ret (- E_BAD_ENV), s)
        else do { e \<leftarrow> stored st; Some (Ret 0, upd_env e (\<lambda>v. v\<lparr>env_pgfault_upcall := func\<rparr>) s) })
     }"

definition sys_page_alloc :: "kstate \<Rightarrow> u32 \<Rightarrow> u32 \<Rightarrow> u32 \<Rightarrow> (int flow \<times> kstate) option" where
  "sys_page_alloc s envid va perm =
     do {
       (r, st) \<leftarrow> envid2env s envid True;
       (if r \<noteq> 0 then Some (Ret (- E_BAD_ENV), s)
        else do {
          e \<leftarrow> stored st;
          (if UTOP \<le> va \<or> perm AND NOT PTE_SYSCALL \<noteq> 0 then Some (Ret (- E_INVAL), s)
           else do {
             (p, s1) \<leftarrow> page_alloc s ALLOC_ZERO;
             (case p of
                None \<Rightarrow> Some (Ret (- E_NO_MEM), s1)
              | Some q \<Rightarrow> do {
                  (r', s2) \<leftarrow> page_insert s1 (env_pgdir (envs s1 e)) (Some q) va perm;
                  (if r' \<noteq> 0 then Some (Ret (- E_NO_MEM), page_free s2 (Some q)) else Some (Ret 0, s2))
                })
           })
        })
     }"

definition sys_page_map :: "kstate \<Rightarrow> u32 \<Rightarrow> u32 \<Rightarrow> u32 \<Rightarrow> u32 \<Rightarrow> u32 \<Rightarrow> (int flow \<times> kstate) option" where
  "sys_page_map s srcenvid srcva dstenvid dstva perm =
     do {
       (r1, st1) \<leftarrow> envid2env s srcenvid True;
       (r2, st2) \<leftarrow> (if r1 \<noteq> 0 then Some (r1, None) else envid2env s dstenvid False);
       (if r1 \<noteq> 0 \<or> r2 \<noteq> 0 then Some (Ret (- E_BAD_ENV), s)
        else do {
          src_e \<leftarrow> stored st1;
          dst_e \<leftarrow> stored st2;
          (if check_addr_scale srcva 0 UTOP \<noteq> 0 \<or> check_addr_scale dstva 0 UTOP \<noteq> 0 \<or> PGOFF srcva \<noteq> 0 \<or> PGOFF dstva \<noteq> 0
           then Some (Ret (- E_INVAL), s)
           else do {
             l \<leftarrow> page_lookup s (env_pgdir (envs s src_e)) srcva;
             (case l of
                None \<Rightarrow> Some (Ret (- E_INVAL), s)
              | Some (src_page, src_pte) \<Rightarrow>
                  if kld s src_pte AND PTE_W = 0 \<and> perm AND PTE_W \<noteq> 0 then Some (Ret (- E_INVAL), s)
                  else do {
                    (r, s1) \<leftarrow> page_insert s (env_pgdir (envs s dst_e)) (Some src_page) dstva perm;
                    Some (Ret r, s1)
                  })
           })
        })
     }"

definition sys_page_unmap :: "kstate \<Rightarrow> u32 \<Rightarrow> u32 \<Rightarrow> (int flow \<times> kstate) option" where
  "sys_page_unmap s envid va =
     do {
       (r, st) \<leftarrow> envid2env s envid True;
       (if r \<noteq> 0 then Some (Ret (- E_BAD_ENV), s)
        else do {
          e \<leftarrow> stored st;
          (if check_addr_scale va 0 UTOP \<noteq> 0 then Some (Ret (- E_INVAL), s)
           else do { s1 \<leftarrow> page_remove s (env_pgdir (envs s e)) va; Some (Ret 0, s1) })
        })
     }"

text \<open>The checks on the page the sender offers; \<open>0\<close> lets the call go on.\<close>

definition ipc_check_src :: "kstate \<Rightarrow> nat \<Rightarrow> u32 \<Rightarrow> u32 \<Rightarrow> int option" where
  "ipc_check_src s c srcva perm =
     (if srcva = IPC_NO_PAGE then Some 0
      else if UTOP \<le> srcva \<or> srcva mod PGSIZE \<noteq> 0 then Some (- E_INVAL)
      else if perm AND NOT PTE_SYSCALL \<noteq> 0 then Some (- E_INVAL)
      else do {
        l \<leftarrow> page_lookup s (env_pgdir (envs s c)) srcva;
        (case l of
           None \<Rightarrow> Some (- E_INVAL)
         | Some (_, src_pte) \<Rightarrow> Some (if kld s src_pte AND PTE_W = 0 \<and> perm AND PTE_W \<noteq> 0 then - E_INVAL else 0))
      })"

definition ipc_deliver :: "kstate \<Rightarrow> nat \<Rightarrow> nat \<Rightarrow> u32 \<Rightarrow> kstate" where
  "ipc_deliver s c u value =
     upd_env u (\<lambda>v. v\<lparr>env_ipc_from := env_id (envs s c), env_ipc_value := value,
       env_tf := (env_tf v)\<lparr>tf_regs := (tf_regs (env_tf v))\<lparr>reg_eax := 0\<rparr>\<rparr>, env_ipc_recving := False,
       env_status := ENV_RUNNABLE\<rparr>) s"

definition sys_ipc_try_send :: "kstate \<Rightarrow> u32 \<Rightarrow> u32 \<Rightarrow> u32 \<Rightarrow> u32 \<Rightarrow> (int flow \<times> kstate) option" where
  "sys_ipc_try_send s envid value srcva perm =
     do {
       (r, st) \<leftarrow> envid2env s envid False;
       (if r < 0 then Some (Ret (- E_BAD_ENV), s)
        else do {
          u \<leftarrow> stored st;
          (if \<not> env_ipc_recving (envs s u) then Some (Ret (- E_IPC_NOT_RECV), s)
           else do {
             c \<leftarrow> curenv s;
             bad \<leftarrow> ipc_check_src s c srcva perm;
             (if bad \<noteq> 0 then Some (Ret bad, s)
              else let s1 = upd_env u (\<lambda>v. v\<lparr>env_ipc_perm := 0\<rparr>) s;
                       dstva = env_ipc_dstva (envs s1 u)
                   in if srcva \<noteq> IPC_NO_PAGE \<and> dstva \<noteq> IPC_NO_PAGE
                      then do {
                        l \<leftarrow> page_lookup s1 (env_pgdir (envs s1 u)) dstva;
                        (if l \<noteq> None then Some (Ret (- E_NO_MEM), s1)
                         else do {
                           (_, s2) \<leftarrow> sys_page_map s1 (env_id (envs s1 c)) srcva envid dstva perm;
                           l' \<leftarrow> page_lookup s2 (env_pgdir (envs s2 u)) dstva;
                           (if l' = None then None
                            else Some (Ret 0, ipc_deliver (upd_env u (\<lambda>v. v\<lparr>env_ipc_perm := perm\<rparr>) s2) c u value))
                         })
                      }
                      else Some (Ret 0, ipc_deliver s1 c u value))
           })
        })
     }"

text \<open>The loop of \<^verbatim>\<open>sys_ipc_recv\<close> calls the scheduler, which never returns to it.\<close>

definition sys_ipc_recv :: "kstate \<Rightarrow> u32 \<Rightarrow> (int flow \<times> kstate) option" where
  "sys_ipc_recv s dstva =
     (if dstva \<noteq> IPC_NO_PAGE \<and> (UTOP \<le> dstva \<or> dstva mod PGSIZE \<noteq> 0) then Some (Ret (- E_INVAL), s)
      else do {
        c \<leftarrow> curenv s;
        sys_yield (upd_env c (\<lambda>v. v\<lparr>env_ipc_recving := True, env_ipc_dstva := dstva, env_status := ENV_NOT_RUNNABLE\<rparr>) s)
      })"

definition syscall :: "kstate \<Rightarrow> u32 \<Rightarrow> u32 \<Rightarrow> u32 \<Rightarrow> u32 \<Rightarrow> u32 \<Rightarrow> u32 \<Rightarrow> (int flow \<times> kstate) option" where
  "syscall s syscallno a1 a2 a3 a4 a5 =
     (if syscallno = SYS_cputs then do {
        (f, s1) \<leftarrow> sys_cputs s a1 a2; Some (case f of Ret _ \<Rightarrow> Ret 0 | Leave x \<Rightarrow> Leave x, s1) }
      else if syscallno = SYS_cgetc then sys_cgetc s
      else if syscallno = SYS_getenvid then sys_getenvid s
      else if syscallno = SYS_env_destroy then sys_env_destroy s a1
      else if syscallno = SYS_yield then sys_yield s
      else if syscallno = SYS_exofork then sys_exofork s
      else if syscallno = SYS_page_alloc then sys_page_alloc s a1 a2 a3
      else if syscallno = SYS_page_map then sys_page_map s a1 a2 a3 a4 a5
      else if syscallno = SYS_page_unmap then sys_page_unmap s a1 a2
      else if syscallno = SYS_env_set_status then sys_env_set_status s a1 a2
      else if syscallno = SYS_env_set_pgfault_upcall then sys_env_set_pgfault_upcall s a1 a2
      else if syscallno = SYS_ipc_try_send then sys_ipc_try_send s a1 a2 a3 a4
      else if syscallno = SYS_ipc_recv then sys_ipc_recv s a1
      else Some (Ret (- E_INVAL), s))"

subsection \<open>Calls that leave memory management alone\<close>

lemma envid2env_live:
  assumes "curenv s = Some c" "live s c" "envid2env s envid b = Some (r, st)"
  shows "r = 0 \<and> (\<exists>e. stored st = Some e \<and> live s e) \<or> r = - E_BAD_ENV \<and> r < 0"
  using assms ENVX_NENV [of envid]
  by (auto simp: envid2env_def stored_def live_def layout Let_def split: if_splits bind_splits)

lemma if_if_Some: "(if A then Some a else if B then x else Some c) = Some y \<Longrightarrow> y = a \<or> y = c \<or> x = Some y"
  by (auto split: if_splits)

lemma user_mem_loop_state:
  assumes "user_mem_loop s g va len cp vc il = Some y"
  shows "\<exists>a. snd y = s \<or> snd y = s\<lparr>user_mem_check_addr := a\<rparr>"
proof (rule user_mem_loop.raw_induct [OF _ assms], goal_cases)
  case (1 f s g va len cp vc il y)
  let ?il = "if il < PGSIZE then il else il - PGSIZE" and ?v = "if il < PGSIZE then vc + il else vc + PGSIZE"
  let ?E = "(- E_FAULT, s\<lparr>user_mem_check_addr := (if il = len then va else ROUNDDOWN vc PGSIZE)\<rparr>)"
  have "y = ?E \<or> y = (0, s) \<or> f s g va len cp ?v ?il = Some y"
  proof (cases "ULIM \<le> vc")
    case False
    then obtain q s1 where w: "pgdir_walk s g vc False = Some (q, s1)"
      using 1(2) by (auto simp: Let_def split: bind_splits)
    have "(if q = 0 \<or> cp \<noteq> cp AND kld s1 q then Some ?E else if ?v < va + len then f s g va len cp ?v ?il else Some (0, s)) = Some y"
      using 1(2) by (simp only: Let_def False if_False w bind.bind_lunit case_prod_conv)
    then show ?thesis by (rule if_if_Some)
  qed (use 1(2) in \<open>simp add: Let_def\<close>)
  then show ?case
  proof (elim disjE)
    assume "y = ?E"
    then show ?case by (intro exI disjI2) (simp only: snd_conv)
  next
    assume "y = (0, s)"
    then show ?case by simp
  next
    assume "f s g va len cp ?v ?il = Some y"
    then show ?case by (rule 1(1))
  qed
qed

lemma user_mem_check_same: "user_mem_check s e va len p = Some (r, s1) \<Longrightarrow> same_but_status s s1 \<and> curenv s1 = curenv s"
  unfolding user_mem_check_def
  by (drule user_mem_loop_state) (auto simp: same_but_status_def env_same_def curenv_def)

lemma same_live: "same_but_status s s' \<Longrightarrow> live s' e = live s e"
  by (simp add: same_but_status_def env_same_def live_def)

lemma kern_inv_cputs:
  assumes "kern_inv base k s" "curenv s = Some c" "live s c" "sys_cputs s va len = Some (f, s')"
  shows "kern_inv base k s'"
proof -
  obtain r s1 where c: "user_mem_check s c va len ((PTE_U OR PTE_P) OR PTE_U) = Some (r, s1)"
    using assms by (auto simp: sys_cputs_def user_mem_assert_def split: bind_splits)
  note C = user_mem_check_same [OF c]
  have k1: "kern_inv base k s1" and l1: "live s1 c"
    using C assms(1,3) kern_inv_same same_live by blast+
  have "kern_inv base k (t\<lparr>con := x\<rparr>)" if "kern_inv base k t" for t x
    by (rule kern_inv_same [OF _ that]) (simp add: same_but_status_def env_same_def)
  then show ?thesis
    using assms(2,4) c k1 kern_inv_env_destroy [OF k1 l1]
    by (auto simp: sys_cputs_def user_mem_assert_def split: bind_splits flow.splits if_splits)
qed

lemma kern_inv_ipc_deliver:
  assumes "kern_inv base k s" "live s u"
  shows "kern_inv base k (ipc_deliver s c u value)"
  unfolding ipc_deliver_def using assms by (intro kern_inv_upd_env) (auto simp: env_same_def live_def layout)

lemma kern_inv_exofork:
  assumes "kern_inv base k s" "sys_exofork s = Some (f, s')"
  shows "kern_inv base k s'"
proof -
  obtain c r child s1 where c: "curenv s = Some c" and a: "env_alloc s (env_id (envs s c)) = Some (r, child, s1)"
    using assms(2) by (auto simp: sys_exofork_def split: bind_splits)
  note A = kern_inv_env_alloc [OF assms(1) a]
  show ?thesis
  proof (cases "r = 0")
    case False
    with A c a assms show ?thesis by (auto simp: sys_exofork_def)
  next
    case True
    with A obtain e where e: "child = Some e" "live s1 e" "kern_inv base k s1" by auto
    let ?s2 = "upd_env e (\<lambda>v. v\<lparr>env_tf := env_tf (envs s1 c)\<rparr>) s1"
    have "kern_inv base k (upd_env e (\<lambda>v. v\<lparr>env_status := ENV_NOT_RUNNABLE\<rparr>) ?s2)"
      using e by (intro kern_inv_upd_env) (auto simp: env_same_def live_def layout)
    then have "kern_inv base k (upd_env e (\<lambda>v. v\<lparr>env_tf := f v\<rparr>) (upd_env e (\<lambda>v. v\<lparr>env_status := ENV_NOT_RUNNABLE\<rparr>) ?s2))" for f
      by (rule kern_inv_upd_env) (simp add: env_same_def)
    with c a True e(1) assms(2) show ?thesis
      by (auto simp: sys_exofork_def Let_def split: if_splits)
  qed
qed

end
