(* ===== verification/Syscall_Mem.thy ===== *)
theory Syscall_Mem
  imports Syscall
begin

section \<open>System calls on address spaces\<close>

text \<open>
  \<^verbatim>\<open>sys_page_alloc\<close>, \<^verbatim>\<open>sys_page_map\<close> and \<^verbatim>\<open>sys_page_unmap\<close> against an abstract view of user memory, a map from
  environments and page numbers to page table entries: each is a point update of that map or changes
  nothing of it, and each keeps the invariant of the kernel.
\<close>

subsection \<open>Arguments\<close>

lemma below_UTOP:
  assumes "va < UTOP"
  shows "user_pdx (PDX va)"
proof -
  have "unat va < unat UTOP"
    using assms by (simp add: word_less_nat_alt)
  then have "unat va div 4194304 < unat UTOP div 4194304"
    by (simp add: layout less_mult_imp_div_less)
  then show ?thesis
    unfolding user_pdx_def word_less_nat_alt unat_PDX by (simp add: layout)
qed

lemma perm_syscall:
  assumes "perm AND NOT PTE_SYSCALL = 0"
  shows "unat perm < 4096"
proof -
  have "perm = (perm AND PTE_SYSCALL) OR (perm AND NOT PTE_SYSCALL)"
    by (simp add: bit.conj_disj_distrib [symmetric])
  then have "perm = perm AND PTE_SYSCALL"
    using assms by simp
  then have "perm \<le> PTE_SYSCALL"
    by (metis word_and_le1)
  then show ?thesis
    by (simp add: word_le_nat_alt layout)
qed

lemma mem_ok_same_ptes:
  assumes ok: "mem_ok base k D s" and inv: "vm_inv base D fl s'" and sp: "same_ptes s s' D" and k: "kern_same base s s'"
    and mm: "mm_frame s s'"
  shows "mem_ok base k D s'"
proof (rule mem_okI [OF ok inv k mm_frame_sel(1,2) [OF mm]])
  fix d va e assume "d \<in> D" "user_pdx (PDX va)" "vmap s' d va = Some e"
  then show "base (frame e) = 0 \<or> d \<in> D \<and> vmap s d va = Some e"
    using sp by (simp add: same_ptes_def vmap_eq_Some)
qed

lemma same_ptes_vmap: "same_ptes s s' D \<Longrightarrow> d \<in> D \<Longrightarrow> user_pdx (PDX va) \<Longrightarrow> vmap s' d va = vmap s d va"
  by (simp add: same_ptes_def vmap_def)

lemma check_addr_scale_UTOP: "check_addr_scale va 0 UTOP = 0 \<longleftrightarrow> va < UTOP \<and> PGOFF va = 0"
  by (simp add: check_addr_scale_def layout)

lemma envid2env_total: "curenv s = Some c \<Longrightarrow> \<exists>r st. envid2env s envid b = Some (r, st)"
  by (simp add: envid2env_def Let_def)

lemma envid2env_Some:
  assumes "curenv s = Some c" "live s c"
  obtains (bad) st where "envid2env s envid b = Some (- E_BAD_ENV, st)"
    | (ok) e where "envid2env s envid b = Some (0, Some (Some e))" "live s e"
proof -
  obtain r st where id: "envid2env s envid b = Some (r, st)"
    using envid2env_total [OF assms(1)] by blast
  from envid2env_live [OF assms id] show ?thesis
  proof (elim disjE conjE exE)
    fix e assume "r = 0" "stored st = Some e" "live s e"
    then show ?thesis using id ok by (auto simp: stored_def split: option.splits)
  qed (use id bad in blast)
qed

text \<open>The environment a call names, when \<^verbatim>\<open>envid2env\<close> finds it.\<close>

definition found :: "kstate \<Rightarrow> u32 \<Rightarrow> bool \<Rightarrow> nat option" where
  "found s envid b = (case envid2env s envid b of Some (r, st) \<Rightarrow> if r = 0 then stored st else None | None \<Rightarrow> None)"

lemma found_Some:
  assumes "curenv s = Some c" "live s c" "found s envid b = Some e"
  shows "envid2env s envid b = Some (0, Some (Some e))" "live s e"
  using assms envid2env_live [OF assms(1,2)]
  by (force simp: found_def stored_def split: option.splits prod.splits if_splits)+

lemma found_None:
  assumes "curenv s = Some c" "live s c" "found s envid b = None"
  obtains st where "envid2env s envid b = Some (- E_BAD_ENV, st)"
  using assms by (rule_tac envid2env_Some [OF assms(1,2), of envid b]) (auto simp: found_def stored_def)

subsection \<open>Address spaces as maps\<close>

text \<open>The abstract view of user memory: for every live environment a map from page numbers below \<^verbatim>\<open>UTOP\<close> to page
  table entries. The calls on address spaces are point updates of it.\<close>

definition dir_frame :: "kstate \<Rightarrow> nat \<Rightarrow> nat" where
  "dir_frame s e = unat (PGNUM (env_pgdir (envs s e) - KERNBASE))"

definition aspace :: "kstate \<Rightarrow> nat \<Rightarrow> u32 \<Rightarrow> u32 option" where
  "aspace s e pn = (if live s e \<and> pn < PGNUM UTOP then vmap s (dir_frame s e) (PGNUM2LA pn) else None)"

lemma dir_frame_kpage: "env_pgdir (envs s e) = kpage d \<Longrightarrow> d < 65536 \<Longrightarrow> dir_frame s e = d"
  by (simp add: dir_frame_def kpage_def unat_PGNUM unat_page2pa)

lemma dir_frame_live:
  assumes "kern_inv base k s" "live s e"
  shows "dir_frame s e \<in> live_dirs s" "env_pgdir (envs s e) = kpage (dir_frame s e)"
    "live s e' \<Longrightarrow> dir_frame s e' = dir_frame s e \<longleftrightarrow> e' = e"
proof -
  have *: "dir_frame s x \<in> live_dirs s \<and> env_pgdir (envs s x) = kpage (dir_frame s x)" if "live s x" for x
    using live_dir [OF assms(1) that] dir_frame_kpage by metis
  with assms(2) show "dir_frame s e \<in> live_dirs s" "env_pgdir (envs s e) = kpage (dir_frame s e)"
    by blast+
  show "dir_frame s e' = dir_frame s e \<longleftrightarrow> e' = e" if "live s e'"
    using * [OF that] * [OF assms(2)] that assms unfolding kern_inv_def envs_ok_def by metis
qed

lemma PGNUM2LA_user:
  assumes "pn < PGNUM UTOP"
  shows "PGNUM (PGNUM2LA pn) = pn" "user_pdx (PDX (PGNUM2LA pn))"
proof -
  have l: "unat pn < 977920"
    using assms by (simp add: word_less_nat_alt unat_PGNUM layout)
  then have u: "unat (PGNUM2LA pn) = unat pn * 4096"
    by (simp add: PGNUM2LA_def layout push_bit_eq_mult unat_word_ariths)
  then show "PGNUM (PGNUM2LA pn) = pn"
    by (simp add: word_unat_eq_iff unat_PGNUM)
  show "user_pdx (PDX (PGNUM2LA pn))"
    using l by (intro below_UTOP) (simp add: word_less_nat_alt u layout)
qed

lemma aspace_upd:
  assumes inv: "kern_inv base k s" and e: "live s e" "va < UTOP" and envs: "envs s' = envs s"
    and upd: "\<forall>d \<in> live_dirs s. \<forall>va'. user_pdx (PDX va') \<longrightarrow> vmap s' d va' =
      (if d = dir_frame s e \<and> PGNUM va' = PGNUM va then m else vmap s d va')"
  shows "aspace s' = (aspace s)(e := (aspace s e)(PGNUM va := m))"
proof (intro ext)
  fix e' pn
  have l: "live s' = live s" "dir_frame s' = dir_frame s"
    using envs by (simp_all add: live_def dir_frame_def fun_eq_iff)
  have "PGNUM va < PGNUM UTOP"
    using e(2) by (simp add: word_less_nat_alt unat_PGNUM layout)
  then show "aspace s' e' pn = ((aspace s)(e := (aspace s e)(PGNUM va := m))) e' pn"
    using upd dir_frame_live(1,3) [OF inv] PGNUM2LA_user e(1) by (auto simp: aspace_def l)
qed

lemma aspace_same:
  assumes inv: "kern_inv base k s" and envs: "envs s' = envs s"
    and same: "\<forall>d \<in> live_dirs s. \<forall>va'. user_pdx (PDX va') \<longrightarrow> vmap s' d va' = vmap s d va'"
  shows "aspace s' = aspace s"
proof (intro ext)
  fix e pn
  have l: "live s' = live s" "dir_frame s' = dir_frame s"
    using envs by (simp_all add: live_def dir_frame_def fun_eq_iff)
  show "aspace s' e pn = aspace s e pn"
    using same dir_frame_live(1) [OF inv] PGNUM2LA_user by (auto simp: aspace_def l)
qed

lemma aspace_eq:
  assumes "kern_inv base k s" "live s e" "va < UTOP" "env_pgdir (envs s e) = kpage d" "d \<in> live_dirs s"
  shows "aspace s e (PGNUM va) = vmap s d va"
proof -
  have "PGNUM va < PGNUM UTOP"
    using assms(3) by (simp add: word_less_nat_alt unat_PGNUM layout)
  moreover from PGNUM2LA_user(1) [OF this] have "vmap s d (PGNUM2LA (PGNUM va)) = vmap s d va"
    by (simp add: vmap_def PGNUM_eq_iff)
  moreover have "dir_frame s e = d"
    using assms(4,5) by (intro dir_frame_kpage) (auto simp: live_dirs_def)
  ultimately show ?thesis
    using assms(2) by (simp add: aspace_def)
qed

text \<open>No reference count is at its maximum.\<close>

definition refs_low :: "kstate \<Rightarrow> bool" where
  "refs_low s \<longleftrightarrow> (\<forall>p < unat (npages s). unat (pp_ref (pages s p)) < 65535)"

subsection \<open>Concrete states\<close>

text \<open>Environment 0 is the only live one in \<open>demo_run\<close> and in \<open>demo_share\<close>.\<close>

lemma env_chain_linked:
  "(\<And>i. n \<le> i \<Longrightarrow> i < m \<Longrightarrow> f i = (if i + 1 < m then Some (i + 1) else None)) \<Longrightarrow>
    linked f (if n < m then Some n else None) [n..<m]"
proof (induction "m - n" arbitrary: n)
  case (Suc k)
  have "linked f (if Suc n < m then Some (Suc n) else None) [Suc n..<m]"
    using Suc by (intro Suc(1)) auto
  moreover have "n < m" "f n = (if Suc n < m then Some (Suc n) else None)"
    using Suc(2) Suc(3) [of n] by auto
  ultimately show ?case
    by (simp add: upt_conv_Cons)
qed simp

lemma demo_run_live: "live demo_run e \<longleftrightarrow> e = 0" "live_dirs demo_run = {1}" "envs_ok demo_run"
proof -
  show live: "live demo_run e \<longleftrightarrow> e = 0" for e
    by (auto simp: live_def demo_env_def layout)
  have "kpage d = kpage 1 \<longleftrightarrow> d = 1" if "d < 65536" for d
    using kpage_inject [OF that, of 1] by simp
  moreover have "(\<exists>e. live demo_run e \<and> env_pgdir (envs demo_run e) = kpage d) \<longleftrightarrow> kpage d = kpage 1" for d
    by (auto simp: live)
  ultimately show "live_dirs demo_run = {1}"
    unfolding live_dirs_def by auto
  have "linked (env_links demo_run) (if 1 < NENV then Some 1 else None) [1..<NENV]"
    by (rule env_chain_linked) (simp add: env_links_def demo_env_def NENV_def)
  moreover have "env_free_list demo_run = (if 1 < NENV then Some 1 else None)"
    by (simp add: NENV_def)
  moreover have free: "env_status (envs demo_run e) = ENV_FREE \<longleftrightarrow> 1 \<le> e" for e
    by (simp add: demo_env_def layout)
  have "set [1..<NENV] = {e. e < NENV \<and> env_status (envs demo_run e) = ENV_FREE}"
    unfolding free by (intro set_eqI) (simp only: set_upt atLeastLessThan_iff mem_Collect_eq conj_commute)
  ultimately have "\<exists>l. linked (env_links demo_run) (env_free_list demo_run) l \<and> set l = {e. e < NENV \<and> env_status (envs demo_run e) = ENV_FREE}"
    by (intro exI [of _ "[1..<NENV]"]) (simp only: simp_thms)
  moreover have "\<exists>d<65536. env_pgdir (envs demo_run 0) = kpage d"
    by (intro exI [of _ "1::nat"]) simp
  ultimately show "envs_ok demo_run"
    unfolding envs_ok_def live by blast
qed

lemma demo_run_kern_inv: "kern_inv demo_base 0 demo_run"
proof -
  have "entry demo_run = entry demo"
    by (rule entry_pmem_cong) (simp add: demo_run_def)
  then have "mapset demo_run {1} q = {}" for q
    by (auto simp: mapset_def pte_def)
  then show ?thesis
    using demo_run_vm_inv demo_run_template demo_run_live(2,3)
    by (auto simp: kern_inv_def mem_ok_def demo_base_def)
qed

lemma demo_share_kern_inv: "kern_inv demo_base 0 demo_share" "refs_low demo_share" "live demo_share 0" "live_dirs demo_share = {1}"
proof -
  have pg: "pages demo_share q = (if q = 2 then (demo_pages 2)\<lparr>pp_link := None, pp_ref := 1\<rparr>
      else if q = 5 then (demo_pages 5)\<lparr>pp_ref := 1\<rparr> else demo_pages q)" for q
    by (simp add: demo_share_def)
  have env: "env_same (envs demo_run e) (envs demo_share e)" for e
    by (simp add: env_same_def)
  note E = envs_same [of demo_run demo_share, OF env demo_share_sel(4)]
  show live: "live demo_share 0" "live_dirs demo_share = {1}"
    using E demo_run_live by simp_all
  show "refs_low demo_share"
    by (auto simp: refs_low_def pg demo_pages_def)
  note demo_share_vm_inv
  moreover have "kern_template demo_base 0 demo_share"
    using user_pdx_less by (auto simp: kern_template_def demo_share_entry demo_frames(5) demo_base_def kpage_def page2pa_def layout)
  ultimately have "mem_ok demo_base 0 {1} demo_share"
    unfolding mem_ok_def demo_share_sets by (auto simp: demo_base_def)
  then show "kern_inv demo_base 0 demo_share"
    unfolding kern_inv_def live(2) E(3) using demo_run_live(3) by blast
qed

subsection \<open>Allocating a page\<close>

text \<open>The part of \<^verbatim>\<open>sys_page_alloc\<close> after its checks.\<close>

lemma page_insert_no_memory:
  "free_list s [] \<Longrightarrow> \<not> present (entry s d (PDX va)) \<Longrightarrow> page_insert s (kpage d) pp va perm = Some (- E_NO_MEM, s)"
  by (simp add: page_insert_def walk_no_memory)

lemma alloc_insert_run:
  assumes ok: "mem_ok base k D s" and inv: "vm_inv base D fl s" and d: "d \<in> D" "user_pdx (PDX va)" and perm: "unat perm < 4096"
    and al: "page_alloc s ALLOC_ZERO = Some (x, s1)"
  shows "case fl of
      [] \<Rightarrow> x = None \<and> s1 = s
    | q # ys \<Rightarrow> x = Some q \<and> mm_frame s s1 \<and> (\<exists>r s2. page_insert s1 (kpage d) (Some q) va perm = Some (r, s2) \<and>
        (if ys = [] \<and> \<not> present (entry s d (PDX va))
         then r \<noteq> 0 \<and> mm_frame s (page_free s2 (Some q)) \<and> mem_ok base k D (page_free s2 (Some q)) \<and>
           (\<forall>d' \<in> D. \<forall>va'. user_pdx (PDX va') \<longrightarrow> vmap (page_free s2 (Some q)) d' va' = vmap s d' va') \<and>
           free_list (page_free s2 (Some q)) [q] \<and> (\<forall>p. pp_ref (pages (page_free s2 (Some q)) p) = pp_ref (pages s p))
         else r = 0 \<and> mm_frame s s2 \<and> mem_ok base k D s2 \<and> (\<forall>i. unat i < 1024 \<longrightarrow> entry s2 q i = 0) \<and>
           (\<forall>d' \<in> D. \<forall>va'. user_pdx (PDX va') \<longrightarrow> vmap s2 d' va' =
             (if d' = d \<and> PGNUM va' = PGNUM va then Some (page2pa q OR perm OR PTE_P) else vmap s d' va'))))"
proof -
  have b: "base 0 \<noteq> 0"
    using ok by (auto simp: mem_ok_def)
  show ?thesis
  proof (cases fl)
    case Nil
    then have "page_free_list s = None"
      using vm_invD(2) [OF inv] by (simp add: free_list_def)
    with al Nil show ?thesis by (simp add: page_alloc_def)
  next
    case (Cons p ys)
    obtain A: "x = Some p" "vm_inv base D ys s1" "same_ptes s s1 D" "kern_same base s s1" "mm_frame s s1" "mappable D s1 p"
      "pp_ref (pages s1 p) = 0" "\<And>i. unat i < 1024 \<Longrightarrow> entry s1 p i = 0" "entry s1 d (PDX va) = entry s d (PDX va)"
      "\<And>q. pp_ref (pages s1 q) = pp_ref (pages s q)"
      using page_alloc_vm [OF inv [unfolded Cons] b] al d by auto
    note P = vm_free_page [OF inv, of p, unfolded Cons, simplified]
    have ok1: "mem_ok base k D s1"
      by (rule mem_ok_same_ptes [OF ok A(2-5)])
    note R = page_insert_run [OF A(2) d mappable_run [OF A(2,6)] perm]
    have no: "page_insert s1 (kpage d) (Some p) va perm = Some (- E_NO_MEM, s1)" if "ys = []" "\<not> present (entry s d (PDX va))"
      using page_insert_no_memory [of s1 d va "Some p" perm] vm_invD(2) [OF A(2)] that A(9) by simp
    consider (fail) "page_insert s1 (kpage d) (Some p) va perm = Some (- E_NO_MEM, s1)" "ys = []" "\<not> present (entry s d (PDX va))"
      | (ok) s2 where "page_insert s1 (kpage d) (Some p) va perm = Some (0, s2)" "\<not> (ys = [] \<and> \<not> present (entry s d (PDX va)))"
      using R no unfolding A(9) by (fastforce simp: layout)
    then show ?thesis
    proof cases
      case fail
      have np: "p < unat (npages s1)"
        using mappable_run(1) [OF A(2,6)] .
      have v: "vm_inv base D [p] (page_free s1 (Some p))"
        using vm_inv_page_free [OF A(2) np A(7)] fail(2) by simp
      have e: "entry (page_free s1 (Some p)) = entry s1"
        by (rule entry_pmem_cong) (rule page_free_sel(4) [OF vm_invD(1) [OF A(2)] np])
      have sp: "same_ptes s1 (page_free s1 (Some p)) D"
        by (simp add: same_ptes_def pte_cong(1) [OF e])
      have "mem_ok base k D (page_free s1 (Some p))"
        by (rule mem_ok_same_ptes [OF ok1 v sp kern_same_entry [OF e] page_free_mm_frame])
      moreover have "vmap (page_free s1 (Some p)) d' va' = vmap s d' va'" if "d' \<in> D" "user_pdx (PDX va')" for d' va'
        using same_ptes_vmap [OF sp that] same_ptes_vmap [OF A(3) that] by simp
      moreover have "mm_frame s (page_free s1 (Some p))"
        by (rule mm_frame_trans [OF A(5) page_free_mm_frame])
      moreover have "pp_ref (pages (page_free s1 (Some p)) q) = pp_ref (pages s q)" for q
        using page_free_sel(2) [OF vm_invD(1) [OF A(2)] np] A(10) by simp
      ultimately show ?thesis
        using fail A(1,5) vm_invD(2) [OF v] Cons by (simp add: layout)
    next
      case (ok s2)
      note O = page_insert_ok [OF A(2) d A(6) perm ok(1)]
      have "entry s2 p i = 0" if "unat i < 1024" for i
        using O(5) that A(8) P(1) by (simp add: kern_same_def)
      moreover have "mem_ok base k D s2"
        by (rule mem_ok_insert [OF ok1 d A(6) perm P(6) ok(1)])
      moreover have "vmap s2 d' va' = (if d' = d \<and> PGNUM va' = PGNUM va then Some (page2pa p OR perm OR PTE_P) else vmap s d' va')"
        if "d' \<in> D" "user_pdx (PDX va')" for d' va'
        using O(3) [OF that] same_ptes_vmap [OF A(3) that] by simp
      moreover have "mm_frame s s2"
        by (rule mm_frame_trans [OF A(5) O(2)])
      ultimately show ?thesis
        using ok(1) A(1,5) unfolding Cons list.case if_not_P [OF ok(2)] by simp
    qed
  qed
qed

lemma page_alloc_returns:
  assumes "mem_ok base k D s"
  shows "\<exists>x s1. page_alloc s ALLOC_ZERO = Some (x, s1)"
proof -
  obtain fl where inv: "vm_inv base D fl s" and b: "base 0 \<noteq> 0"
    using assms by (auto simp: mem_ok_def)
  show ?thesis
  proof (cases fl)
    case Nil
    then have "page_free_list s = None"
      using vm_invD(2) [OF inv] by (simp add: free_list_def)
    then show ?thesis by (simp add: page_alloc_def)
  next
    case (Cons p ys)
    with page_alloc_vm [OF inv [unfolded Cons] b] show ?thesis by blast
  qed
qed

text \<open>\<open>no_room fl s d va n\<close>: the \<open>n\<close> pages that are to be mapped, and a page table if the directory \<open>d\<close> has none for
  \<open>va\<close>, are more than the free list \<open>fl\<close> holds.\<close>

definition no_room :: "nat list \<Rightarrow> kstate \<Rightarrow> nat \<Rightarrow> u32 \<Rightarrow> nat \<Rightarrow> bool" where
  "no_room fl s d va n \<longleftrightarrow> length fl < n + (if present (entry s d (PDX va)) then 0 else 1)"

lemma no_room_simps:
  "no_room [] s d va (Suc 0)" "no_room (q # ys) s d va (Suc 0) \<longleftrightarrow> ys = [] \<and> \<not> present (entry s d (PDX va))"
  "no_room fl s d va 0 \<longleftrightarrow> fl = [] \<and> \<not> present (entry s d (PDX va))"
  by (auto simp: no_room_def)

lemma sys_page_alloc_exact:
  assumes "kern_inv base k s" "curenv s = Some c" "live s c" "free_list s fl"
  shows "\<exists>r s'. sys_page_alloc s envid va perm = Some (Ret r, s') \<and> kern_inv base k s' \<and> envs s' = envs s \<and>
    (case found s envid True of
       None \<Rightarrow> r = - E_BAD_ENV \<and> s' = s
     | Some e \<Rightarrow>
         if UTOP \<le> va \<or> perm AND NOT PTE_SYSCALL \<noteq> 0 then r = - E_INVAL \<and> s' = s
         else if no_room fl s (dir_frame s e) va 1
         then r = - E_NO_MEM \<and> aspace s' = aspace s \<and> free_list s' fl \<and> (\<forall>p. pp_ref (pages s' p) = pp_ref (pages s p))
         else r = 0 \<and> (\<forall>i. unat i < 1024 \<longrightarrow> entry s' (hd fl) i = 0) \<and>
           aspace s' = (aspace s)(e := (aspace s e)(PGNUM va \<mapsto> page2pa (hd fl) OR perm OR PTE_P)))"
proof (cases "found s envid True")
  case None
  from found_None [OF assms(2,3) this] obtain st where "envid2env s envid True = Some (- E_BAD_ENV, st)" .
  with assms(1) None show ?thesis by (simp add: sys_page_alloc_def layout)
next
  case fnd: (Some e)
  note e = found_Some [OF assms(2,3) fnd]
  show ?thesis
  proof (cases "UTOP \<le> va \<or> perm AND NOT PTE_SYSCALL \<noteq> 0")
    case True
    with assms(1) e(1) fnd show ?thesis by (simp add: sys_page_alloc_def stored_def)
  next
    case False
    have ok: "mem_ok base k (live_dirs s) s"
      using assms(1) by (simp add: kern_inv_def)
    have inv: "vm_inv base (live_dirs s) fl s"
      using ok free_list_unique [OF assms(4) vm_invD(2)] by (auto simp: mem_ok_def)
    obtain x s1 where al: "page_alloc s ALLOC_ZERO = Some (x, s1)"
      using page_alloc_returns [OF ok] by blast
    have va: "va < UTOP" and "unat perm < 4096"
      using False perm_syscall by (auto simp: not_le)
    note D = dir_frame_live [OF assms(1) e(2)]
    note R = alloc_insert_run [OF ok inv D(1) below_UTOP [OF va] \<open>unat perm < 4096\<close> al]
    have u: "sys_page_alloc s envid va perm = (case x of
                None \<Rightarrow> Some (Ret (- E_NO_MEM), s1)
              | Some q \<Rightarrow> do {
                  (r', s2) \<leftarrow> page_insert s1 (env_pgdir (envs s1 e)) (Some q) va perm;
                  (if r' \<noteq> 0 then Some (Ret (- E_NO_MEM), page_free s2 (Some q)) else Some (Ret 0, s2))
                })"
      using False e(1) al by (simp add: sys_page_alloc_def stored_def)
    show ?thesis
    proof (cases fl)
      case Nil
      with R u assms(1,4) fnd False show ?thesis by (simp add: no_room_simps)
    next
      case (Cons q ys)
      note R = R [unfolded Cons list.case]
      have dir: "env_pgdir (envs s1 e) = kpage (dir_frame s e)"
        using R D(2) mm_frame_sel(3) [of s s1] by simp
      from R obtain r' s2 where ins: "page_insert s1 (kpage (dir_frame s e)) (Some q) va perm = Some (r', s2)" and x: "x = Some q" and
        C: "if ys = [] \<and> \<not> present (entry s (dir_frame s e) (PDX va))
         then r' \<noteq> 0 \<and> mm_frame s (page_free s2 (Some q)) \<and> mem_ok base k (live_dirs s) (page_free s2 (Some q)) \<and>
           (\<forall>d' \<in> live_dirs s. \<forall>va'. user_pdx (PDX va') \<longrightarrow> vmap (page_free s2 (Some q)) d' va' = vmap s d' va') \<and>
           free_list (page_free s2 (Some q)) [q] \<and> (\<forall>p. pp_ref (pages (page_free s2 (Some q)) p) = pp_ref (pages s p))
         else r' = 0 \<and> mm_frame s s2 \<and> mem_ok base k (live_dirs s) s2 \<and> (\<forall>i. unat i < 1024 \<longrightarrow> entry s2 q i = 0) \<and>
           (\<forall>d' \<in> live_dirs s. \<forall>va'. user_pdx (PDX va') \<longrightarrow> vmap s2 d' va' =
             (if d' = dir_frame s e \<and> PGNUM va' = PGNUM va then Some (page2pa q OR perm OR PTE_P) else vmap s d' va'))"
        by blast
      show ?thesis
      proof (cases "no_room fl s (dir_frame s e) va 1")
        case full: True
        then have ys: "ys = [] \<and> \<not> present (entry s (dir_frame s e) (PDX va))"
          by (simp add: Cons no_room_simps)
        from C [unfolded if_P [OF ys]] have *: "r' \<noteq> 0" "mm_frame s (page_free s2 (Some q))"
          "mem_ok base k (live_dirs s) (page_free s2 (Some q))"
          "\<forall>d' \<in> live_dirs s. \<forall>va'. user_pdx (PDX va') \<longrightarrow> vmap (page_free s2 (Some q)) d' va' = vmap s d' va'"
          "free_list (page_free s2 (Some q)) fl" "\<forall>p. pp_ref (pages (page_free s2 (Some q)) p) = pp_ref (pages s p)"
          using ys Cons by blast+
        have f: "envs (page_free s2 (Some q)) = envs s"
          by (rule mm_frame_sel(3) [OF *(2)])
        have "sys_page_alloc s envid va perm = Some (Ret (- E_NO_MEM), page_free s2 (Some q))"
          using u ins dir x *(1) by simp
        then show ?thesis
          using kern_inv_mm [OF assms(1) *(2,3)] f aspace_same [OF assms(1) f *(4)] *(5,6)
          unfolding fnd option.case if_not_P [OF False] if_P [OF full] by blast
      next
        case room: False
        then have ys: "\<not> (ys = [] \<and> \<not> present (entry s (dir_frame s e) (PDX va)))"
          by (simp add: Cons no_room_simps)
        from C [unfolded if_not_P [OF ys]] have *: "r' = 0" "mm_frame s s2" "mem_ok base k (live_dirs s) s2"
          "\<forall>i. unat i < 1024 \<longrightarrow> entry s2 (hd fl) i = 0" "\<forall>d' \<in> live_dirs s. \<forall>va'. user_pdx (PDX va') \<longrightarrow> vmap s2 d' va' =
             (if d' = dir_frame s e \<and> PGNUM va' = PGNUM va then Some (page2pa (hd fl) OR perm OR PTE_P) else vmap s d' va')"
          unfolding Cons list.sel by blast+
        have f: "envs s2 = envs s"
          by (rule mm_frame_sel(3) [OF *(2)])
        have "sys_page_alloc s envid va perm = Some (Ret 0, s2)"
          using u ins dir x *(1) by simp
        then show ?thesis
          using kern_inv_mm [OF assms(1) *(2,3)] f aspace_upd [OF assms(1) e(2) va f *(5)] *(4)
          unfolding fnd option.case if_not_P [OF False] if_not_P [OF room] by blast
      qed
    qed
  qed
qed

lemma sys_page_alloc_run:
  assumes "kern_inv base k s" "curenv s = Some c" "live s c"
  shows "\<exists>r s'. sys_page_alloc s envid va perm = Some (Ret r, s') \<and> kern_inv base k s' \<and> envs s' = envs s \<and>
    (case found s envid True of
       None \<Rightarrow> r = - E_BAD_ENV \<and> s' = s
     | Some e \<Rightarrow>
         if UTOP \<le> va \<or> perm AND NOT PTE_SYSCALL \<noteq> 0 then r = - E_INVAL \<and> s' = s
         else r = - E_NO_MEM \<and> aspace s' = aspace s \<or>
           r = 0 \<and> (\<exists>q. q < unat (npages s) \<and> pp_ref (pages s q) = 0 \<and> (\<forall>i. unat i < 1024 \<longrightarrow> entry s' q i = 0) \<and>
             aspace s' = (aspace s)(e := (aspace s e)(PGNUM va \<mapsto> page2pa q OR perm OR PTE_P))))"
proof -
  obtain fl where inv: "vm_inv base (live_dirs s) fl s"
    using assms(1) by (auto simp: kern_inv_def mem_ok_def)
  have q: "\<not> no_room fl s d va 1 \<Longrightarrow> hd fl < unat (npages s) \<and> pp_ref (pages s (hd fl)) = 0" for d
    using vm_free_page(2,7) [OF inv, of "hd fl"] by (cases fl) (simp_all add: no_room_simps)
  show ?thesis
    using sys_page_alloc_exact [OF assms vm_invD(2) [OF inv], of envid va perm] q
    by (cases "found s envid True") (auto split: if_splits)
qed

subsection \<open>Sharing a page\<close>

lemma kern_inv_vm:
  assumes "kern_inv base k s"
  obtains fl where "vm_inv base (live_dirs s) fl s"
  using assms by (auto simp: kern_inv_def mem_ok_def)

lemma lookup_live:
  assumes "kern_inv base k s" "d \<in> live_dirs s" "user_pdx (PDX va)"
  shows "\<exists>a. page_lookup s (kpage d) va = Some (map_option (\<lambda>e. (frame e, a)) (vmap s d va)) \<and>
    (\<forall>e. vmap s d va = Some e \<longrightarrow> kld s a = e)"
proof -
  obtain fl where inv: "vm_inv base (live_dirs s) fl s"
    using kern_inv_vm [OF assms(1)] .
  have "kld s (slot (kpage (frame (entry s d (PDX va)))) (PTX va)) = e" if "vmap s d va = Some e" for e
    using that by (auto simp: vmap_eq_Some kld_kpage pte_def split: if_splits)
  then show ?thesis
    using page_lookup_vmap [OF inv assms(2,3)] by (cases "vmap s d va") auto
qed

lemma mapped_mappable:
  assumes "kern_inv base k s" "d \<in> live_dirs s" "user_pdx (PDX va)" "vmap s d va = Some e" "refs_low s"
  shows "mappable (live_dirs s) s (frame e)" "base (frame e) = 0"
proof -
  let ?D = "live_dirs s"
  obtain fl where inv: "vm_inv base ?D fl s"
    using kern_inv_vm [OF assms(1)] .
  have e: "e = pte s d (PDX va) (PTX va)" "present e"
    using assms(4) by (simp_all add: vmap_eq_Some)
  note M = vm_mapped [OF inv assms(2,3) PTX_less e(2) [unfolded e(1)], folded e(1)]
  have own: "base 0 \<noteq> 0" "base q \<noteq> 0 \<longrightarrow> mapset s ?D q = {}" for q
    using assms(1) by (auto simp: kern_inv_def mem_ok_def)
  then show b: "base (frame e) = 0"
    using assms(2-4) by (auto simp: mapset_empty_iff)
  then have "frame e \<noteq> 0"
    using own(1) by metis
  moreover have "frame e \<notin> set fl'" if "free_list s fl'" for fl'
    using free_list_unique [OF vm_invD(2) [OF inv] that] M(5) by simp
  ultimately show "mappable (live_dirs s) s (frame e)"
    using M assms(5) by (auto simp: mappable_def refs_low_def)
qed

lemma map_run:
  assumes inv: "kern_inv base k s" and p: "mappable (live_dirs s) s p" "base p = 0" and d: "d \<in> live_dirs s" "user_pdx (PDX va)"
    and perm: "unat perm < 4096" and fl: "free_list s fl"
  shows "if no_room fl s d va 0 then page_insert s (kpage d) (Some p) va perm = Some (- E_NO_MEM, s)
    else \<exists>s'. page_insert s (kpage d) (Some p) va perm = Some (0, s') \<and> mm_frame s s' \<and> kern_inv base k s' \<and>
      (\<forall>d' \<in> live_dirs s. \<forall>va'. user_pdx (PDX va') \<longrightarrow> vmap s' d' va' =
        (if d' = d \<and> PGNUM va' = PGNUM va then Some (page2pa p OR perm OR PTE_P) else vmap s d' va'))"
proof (cases "no_room fl s d va 0")
  case True
  then show ?thesis
    using page_insert_no_memory [of s d va "Some p" perm] fl by (simp add: no_room_simps)
next
  case False
  have ok: "mem_ok base k (live_dirs s) s"
    using inv by (simp add: kern_inv_def)
  have vm: "vm_inv base (live_dirs s) fl s"
    using ok free_list_unique [OF fl vm_invD(2)] by (auto simp: mem_ok_def)
  obtain s' where s': "page_insert s (kpage d) (Some p) va perm = Some (0, s')"
    using page_insert_run [OF vm d mappable_run [OF vm p(1)] perm] False by (auto simp: no_room_simps)
  note O = page_insert_ok [OF vm d p(1) perm s']
  have "kern_inv base k s'"
    by (rule kern_inv_mm [OF inv O(2) mem_ok_insert [OF ok d p(1) perm p(2) s']])
  then show ?thesis
    unfolding if_not_P [OF False] using s' O(2,3) by blast
qed

lemma sys_page_map_exact:
  assumes "kern_inv base k s" "curenv s = Some c" "live s c" "unat perm < 4096" "refs_low s" "free_list s fl"
  shows "\<exists>r s'. sys_page_map s srcenvid srcva dstenvid dstva perm = Some (Ret r, s') \<and> kern_inv base k s' \<and>
    (case (found s srcenvid True, found s dstenvid False) of
       (Some e1, Some e2) \<Rightarrow>
         if UTOP \<le> srcva \<or> UTOP \<le> dstva \<or> PGOFF srcva \<noteq> 0 \<or> PGOFF dstva \<noteq> 0 then r = - E_INVAL \<and> s' = s
         else (case aspace s e1 (PGNUM srcva) of
             None \<Rightarrow> r = - E_INVAL \<and> s' = s
           | Some p \<Rightarrow>
               if p AND PTE_W = 0 \<and> perm AND PTE_W \<noteq> 0 then r = - E_INVAL \<and> s' = s
               else if no_room fl s (dir_frame s e2) dstva 0 then r = - E_NO_MEM \<and> s' = s
               else r = 0 \<and> mm_frame s s' \<and>
                 aspace s' = (aspace s)(e2 := (aspace s e2)(PGNUM dstva \<mapsto> page2pa (frame p) OR perm OR PTE_P)))
     | _ \<Rightarrow> r = - E_BAD_ENV \<and> s' = s)"
proof (cases "found s srcenvid True")
  case None
  from found_None [OF assms(2,3) this] obtain st where "envid2env s srcenvid True = Some (- E_BAD_ENV, st)" .
  with assms(1) None show ?thesis by (simp add: sys_page_map_def layout)
next
  case f1: (Some e1)
  note e1 = found_Some [OF assms(2,3) f1]
  show ?thesis
  proof (cases "found s dstenvid False")
    case None
    from found_None [OF assms(2,3) this] obtain st where "envid2env s dstenvid False = Some (- E_BAD_ENV, st)" .
    with assms(1) e1 f1 None show ?thesis by (simp add: sys_page_map_def layout)
  next
    case f2: (Some e2)
    note e2 = found_Some [OF assms(2,3) f2]
    note D1 = dir_frame_live [OF assms(1) e1(2)] and D2 = dir_frame_live [OF assms(1) e2(2)]
    note U = sys_page_map_def check_addr_scale_UTOP e1(1) e2(1) stored_def f1 f2
    show ?thesis
    proof (cases "UTOP \<le> srcva \<or> UTOP \<le> dstva \<or> PGOFF srcva \<noteq> 0 \<or> PGOFF dstva \<noteq> 0")
      case True
      with assms(1) show ?thesis by (auto simp: U not_le)
    next
      case False
      then have va: "srcva < UTOP" "dstva < UTOP" "PGOFF srcva = 0" "PGOFF dstva = 0"
        by auto
      have user: "user_pdx (PDX srcva)" "user_pdx (PDX dstva)"
        using va below_UTOP by auto
      obtain a where l: "page_lookup s (kpage (dir_frame s e1)) srcva =
          Some (map_option (\<lambda>e. (frame e, a)) (vmap s (dir_frame s e1) srcva))"
        and ld: "\<And>e. vmap s (dir_frame s e1) srcva = Some e \<Longrightarrow> kld s a = e"
        using lookup_live [OF assms(1) D1(1) user(1)] by blast
      have as: "aspace s e1 (PGNUM srcva) = vmap s (dir_frame s e1) srcva"
        by (rule aspace_eq [OF assms(1) e1(2) va(1) D1(2,1)])
      note V = U D1(2) D2(2) l va as leD
      show ?thesis
      proof (cases "vmap s (dir_frame s e1) srcva")
        case None
        with assms(1) show ?thesis by (simp add: V)
      next
        case (Some p)
        show ?thesis
        proof (cases "p AND PTE_W = 0 \<and> perm AND PTE_W \<noteq> 0")
          case True
          with assms(1) Some ld [OF Some] show ?thesis by (simp add: V)
        next
          case ok: False
          have run: "sys_page_map s srcenvid srcva dstenvid dstva perm =
              do { (r, s1) \<leftarrow> page_insert s (kpage (dir_frame s e2)) (Some (frame p)) dstva perm; Some (Ret r, s1) }"
            using ok Some ld [OF Some] by (auto simp: V)
          note C = f1 f2 prod.case option.case if_not_P [OF False] as Some if_not_P [OF ok]
          note M = map_run [OF assms(1) mapped_mappable [OF assms(1) D1(1) user(1) Some assms(5)] D2(1) user(2) assms(4,6)]
          show ?thesis
          proof (cases "no_room fl s (dir_frame s e2) dstva 0")
            case full: True
            from M [unfolded if_P [OF full]] show ?thesis
              unfolding C if_P [OF full] using run assms(1) by auto
          next
            case room: False
            from M [unfolded if_not_P [OF room]] obtain s' where
              *: "page_insert s (kpage (dir_frame s e2)) (Some (frame p)) dstva perm = Some (0, s')" "mm_frame s s'"
              "kern_inv base k s'" "\<forall>d' \<in> live_dirs s. \<forall>va'. user_pdx (PDX va') \<longrightarrow> vmap s' d' va' =
                (if d' = dir_frame s e2 \<and> PGNUM va' = PGNUM dstva then Some (page2pa (frame p) OR perm OR PTE_P) else vmap s d' va')"
              by blast
            have "sys_page_map s srcenvid srcva dstenvid dstva perm = Some (Ret 0, s')"
              using run *(1) by simp
            then show ?thesis
              unfolding C if_not_P [OF room]
              using *(2,3) aspace_upd [OF assms(1) e2(2) va(2) mm_frame_sel(3) [OF *(2)] *(4)] by blast
          qed
        qed
      qed
    qed
  qed
qed

lemma sys_page_map_run:
  assumes "kern_inv base k s" "curenv s = Some c" "live s c" "unat perm < 4096" "refs_low s"
  shows "\<exists>r s'. sys_page_map s srcenvid srcva dstenvid dstva perm = Some (Ret r, s') \<and> kern_inv base k s' \<and>
    (case (found s srcenvid True, found s dstenvid False) of
       (Some e1, Some e2) \<Rightarrow>
         if UTOP \<le> srcva \<or> UTOP \<le> dstva \<or> PGOFF srcva \<noteq> 0 \<or> PGOFF dstva \<noteq> 0 then r = - E_INVAL \<and> s' = s
         else (case aspace s e1 (PGNUM srcva) of
             None \<Rightarrow> r = - E_INVAL \<and> s' = s
           | Some p \<Rightarrow>
               if p AND PTE_W = 0 \<and> perm AND PTE_W \<noteq> 0 then r = - E_INVAL \<and> s' = s
               else r = - E_NO_MEM \<and> s' = s \<and> \<not> present (entry s (dir_frame s e2) (PDX dstva)) \<or>
                 r = 0 \<and> mm_frame s s' \<and>
                 aspace s' = (aspace s)(e2 := (aspace s e2)(PGNUM dstva \<mapsto> page2pa (frame p) OR perm OR PTE_P)))
     | _ \<Rightarrow> r = - E_BAD_ENV \<and> s' = s)"
proof -
  obtain fl where vm: "vm_inv base (live_dirs s) fl s"
    using kern_inv_vm [OF assms(1)] .
  show ?thesis
    using sys_page_map_exact [OF assms vm_invD(2) [OF vm], of srcenvid srcva dstenvid dstva]
    by (fastforce simp: no_room_simps split: option.splits if_splits)
qed

lemma sys_page_map_cases:
  assumes "kern_inv base k s" "curenv s = Some c" "live s c" "unat perm < 4096" "refs_low s"
  obtains (err) r where "sys_page_map s srcenvid srcva dstenvid dstva perm = Some (Ret r, s)"
    | (ok) s' e1 e2 p where "sys_page_map s srcenvid srcva dstenvid dstva perm = Some (Ret 0, s')" "kern_inv base k s'" "mm_frame s s'"
      "found s srcenvid True = Some e1" "found s dstenvid False = Some e2" "aspace s e1 (PGNUM srcva) = Some p"
      "perm AND PTE_W \<noteq> 0 \<Longrightarrow> p AND PTE_W \<noteq> 0"
      "aspace s' = (aspace s)(e2 := (aspace s e2)(PGNUM dstva \<mapsto> page2pa (frame p) OR perm OR PTE_P))"
proof -
  obtain r s' where R: "sys_page_map s srcenvid srcva dstenvid dstva perm = Some (Ret r, s')" "kern_inv base k s'" and
    C: "case (found s srcenvid True, found s dstenvid False) of
       (Some e1, Some e2) \<Rightarrow>
         if UTOP \<le> srcva \<or> UTOP \<le> dstva \<or> PGOFF srcva \<noteq> 0 \<or> PGOFF dstva \<noteq> 0 then r = - E_INVAL \<and> s' = s
         else (case aspace s e1 (PGNUM srcva) of
             None \<Rightarrow> r = - E_INVAL \<and> s' = s
           | Some p \<Rightarrow>
               if p AND PTE_W = 0 \<and> perm AND PTE_W \<noteq> 0 then r = - E_INVAL \<and> s' = s
               else r = - E_NO_MEM \<and> s' = s \<and> \<not> present (entry s (dir_frame s e2) (PDX dstva)) \<or>
                 r = 0 \<and> mm_frame s s' \<and>
                 aspace s' = (aspace s)(e2 := (aspace s e2)(PGNUM dstva \<mapsto> page2pa (frame p) OR perm OR PTE_P)))
     | _ \<Rightarrow> r = - E_BAD_ENV \<and> s' = s"
    using sys_page_map_run [OF assms, of srcenvid srcva dstenvid dstva] by blast
  show thesis
  proof (cases "s' = s")
    case True
    with R(1) err show thesis by blast
  next
    case False
    then obtain e1 e2 p where f: "found s srcenvid True = Some e1" "found s dstenvid False = Some e2" "aspace s e1 (PGNUM srcva) = Some p"
      using C by (cases "found s srcenvid True"; cases "found s dstenvid False"; cases "aspace s (the (found s srcenvid True)) (PGNUM srcva)")
        (simp_all split: if_splits)
    with C False have "r = 0 \<and> mm_frame s s' \<and> (perm AND PTE_W \<noteq> 0 \<longrightarrow> p AND PTE_W \<noteq> 0) \<and>
        aspace s' = (aspace s)(e2 := (aspace s e2)(PGNUM dstva \<mapsto> page2pa (frame p) OR perm OR PTE_P))"
      by (fastforce split: if_splits)
    with R f show thesis by (intro ok [of s' e1 e2 p]) simp_all
  qed
qed

lemma sys_page_unmap_run:
  assumes "kern_inv base k s" "curenv s = Some c" "live s c"
  shows "\<exists>r s'. sys_page_unmap s envid va = Some (Ret r, s') \<and> kern_inv base k s' \<and>
    (case found s envid True of
       None \<Rightarrow> r = - E_BAD_ENV \<and> s' = s
     | Some e \<Rightarrow>
         if UTOP \<le> va \<or> PGOFF va \<noteq> 0 then r = - E_INVAL \<and> s' = s
         else r = 0 \<and> mm_frame s s' \<and> aspace s' = (aspace s)(e := (aspace s e)(PGNUM va := None)))"
proof (cases "found s envid True")
  case None
  from found_None [OF assms(2,3) this] obtain st where "envid2env s envid True = Some (- E_BAD_ENV, st)" .
  with assms(1) None show ?thesis by (simp add: sys_page_unmap_def layout)
next
  case fnd: (Some e)
  note e = found_Some [OF assms(2,3) fnd]
  note D = dir_frame_live [OF assms(1) e(2)]
  show ?thesis
  proof (cases "UTOP \<le> va \<or> PGOFF va \<noteq> 0")
    case True
    with assms(1) e(1) fnd show ?thesis by (auto simp: sys_page_unmap_def check_addr_scale_UTOP stored_def)
  next
    case False
    then have True: "va < UTOP \<and> PGOFF va = 0"
      by auto
    have user: "user_pdx (PDX va)"
      using True below_UTOP by auto
    obtain fl where vm: "vm_inv base (live_dirs s) fl s"
      using kern_inv_vm [OF assms(1)] .
    obtain s' where s': "page_remove s (kpage (dir_frame s e)) va = Some s'"
      using page_remove_unmapped [OF vm D(1) user] page_remove_mapped [OF vm D(1) user]
      by (cases "vmap s (dir_frame s e) va") blast+
    note O = page_remove_ok [OF vm D(1) user s']
    have "mem_ok base k (live_dirs s) s"
      using assms(1) by (simp add: kern_inv_def)
    then have "kern_inv base k s'"
      by (rule kern_inv_mm [OF assms(1) O(2) mem_ok_remove [OF _ D(1) user s']])
    moreover have "sys_page_unmap s envid va = Some (Ret 0, s')"
      using True e(1) D(2) s' by (simp add: sys_page_unmap_def check_addr_scale_UTOP stored_def)
    moreover have "aspace s' = (aspace s)(e := (aspace s e)(PGNUM va := None))"
      by (rule aspace_upd [OF assms(1) e(2) _ mm_frame_sel(3) [OF O(2)]]) (use True O(3) in auto)
    ultimately show ?thesis
      unfolding fnd option.case if_not_P [OF False] using O(2) by blast
  qed
qed

subsection \<open>What the calls on address spaces guarantee\<close>

text \<open>C8. \<^verbatim>\<open>sys_page_alloc\<close> never panics, keeps the invariant of the kernel, and every result has exactly its cause. With
  \<open>fl\<close> the list of free pages: it returns \<^verbatim>\<open>-E_BAD_ENV\<close> when the environment cannot be named by the caller and
  \<^verbatim>\<open>-E_INVAL\<close> for a bad address or bad flags, without a change to the state; \<^verbatim>\<open>-E_NO_MEM\<close> exactly when there is
  no free page, or a single one and the address space has no page table for \<^verbatim>\<open>va\<close>, and then every address
  space, every reference count and the free list are as they were (a page taken is given back); and \<^verbatim>\<open>0\<close>
  otherwise: then the first free page, filled with zeros, is mapped at the page of \<^verbatim>\<open>va\<close> in the address space of
  the environment with the given flags, and nothing else of any address space has changed.\<close>

theorem sys_page_alloc_correct:
  assumes "kern_inv base k s" "curenv s = Some c" "live s c" "free_list s fl"
  shows "\<exists>r s'. sys_page_alloc s envid va perm = Some (Ret r, s') \<and> kern_inv base k s' \<and> envs s' = envs s \<and>
    (case found s envid True of
       None \<Rightarrow> r = - E_BAD_ENV \<and> s' = s
     | Some e \<Rightarrow>
         if UTOP \<le> va \<or> perm AND NOT PTE_SYSCALL \<noteq> 0 then r = - E_INVAL \<and> s' = s
         else if length fl < (if present (entry s (dir_frame s e) (PDX va)) then 1 else 2)
         then r = - E_NO_MEM \<and> aspace s' = aspace s \<and> free_list s' fl \<and> (\<forall>p. pp_ref (pages s' p) = pp_ref (pages s p))
         else r = 0 \<and> (\<forall>i. unat i < 1024 \<longrightarrow> entry s' (hd fl) i = 0) \<and>
           aspace s' = (aspace s)(e := (aspace s e)(PGNUM va \<mapsto> page2pa (hd fl) OR perm OR PTE_P)))"
proof -
  have "no_room fl s d va 1 \<longleftrightarrow> length fl < (if present (entry s d (PDX va)) then 1 else 2)" for d
    by (simp add: no_room_def numeral_2_eq_2)
  then show ?thesis
    using sys_page_alloc_exact [OF assms, of envid va perm] by (simp only:)
qed

theorem sys_page_alloc_correct_witness:
  "\<exists>s'. sys_page_alloc demo_run 0 0x800000 7 = Some (Ret 0, s') \<and> kern_inv demo_base 0 s' \<and>
     aspace s' 0 (PGNUM 0x800000) = Some 0x2007"
proof -
  have f: "live demo_run 0" "found demo_run 0 True = Some 0"
    by (simp_all add: demo_run_live found_def envid2env_def stored_def)
  have "page2pa 2 OR 7 OR PTE_P = 0x2007"
    by (simp add: page2pa_def layout)
  then show ?thesis
    using sys_page_alloc_correct [OF demo_run_kern_inv demo_run_sel(6) f(1) vm_invD(2) [OF demo_run_vm_inv], of 0 "0x800000" 7] f(2)
    by (auto simp: layout)
qed

text \<open>C9. \<^verbatim>\<open>sys_page_map\<close>, with a permission argument that holds flags only and no reference count at its
  maximum, never panics and keeps the invariant of the kernel, and every result has exactly its cause: \<^verbatim>\<open>-E_BAD_ENV\<close>
  when one of the environments cannot be named by the caller; \<^verbatim>\<open>-E_INVAL\<close> for an address that is not page
  aligned or not below \<^verbatim>\<open>UTOP\<close>, when nothing is mapped at the source address, or when write permission is asked for and
  the source mapping has none; \<^verbatim>\<open>-E_NO_MEM\<close> exactly when the destination has no page table for the address and no
  page is free. All of these leave the state as it is. Otherwise the result is \<^verbatim>\<open>0\<close>, the page
  mapped at the source address is mapped at the destination address with the given permission, and nothing
  else of any address space has changed.\<close>

theorem sys_page_map_correct:
  assumes "kern_inv base k s" "curenv s = Some c" "live s c" "unat perm < 4096" "refs_low s"
  shows "\<exists>r s'. sys_page_map s srcenvid srcva dstenvid dstva perm = Some (Ret r, s') \<and> kern_inv base k s' \<and>
    (case (found s srcenvid True, found s dstenvid False) of
       (Some e1, Some e2) \<Rightarrow>
         if UTOP \<le> srcva \<or> UTOP \<le> dstva \<or> PGOFF srcva \<noteq> 0 \<or> PGOFF dstva \<noteq> 0 then r = - E_INVAL \<and> s' = s
         else (case aspace s e1 (PGNUM srcva) of
             None \<Rightarrow> r = - E_INVAL \<and> s' = s
           | Some p \<Rightarrow>
               if p AND PTE_W = 0 \<and> perm AND PTE_W \<noteq> 0 then r = - E_INVAL \<and> s' = s
               else if page_free_list s = None \<and> \<not> present (entry s (dir_frame s e2) (PDX dstva)) then r = - E_NO_MEM \<and> s' = s
               else r = 0 \<and> mm_frame s s' \<and>
                 aspace s' = (aspace s)(e2 := (aspace s e2)(PGNUM dstva \<mapsto> page2pa (frame p) OR perm OR PTE_P)))
     | _ \<Rightarrow> r = - E_BAD_ENV \<and> s' = s)"
proof -
  obtain fl where vm: "vm_inv base (live_dirs s) fl s"
    using kern_inv_vm [OF assms(1)] .
  then have "fl = [] \<longleftrightarrow> page_free_list s = None"
    using vm_invD(2) [OF vm] by (cases fl) (auto simp: free_list_def)
  then have "no_room fl s d va 0 \<longleftrightarrow> page_free_list s = None \<and> \<not> present (entry s d (PDX va))" for d va
    by (simp add: no_room_simps)
  then show ?thesis
    using sys_page_map_exact [OF assms vm_invD(2) [OF vm], of srcenvid srcva dstenvid dstva] by (simp only:)
qed

lemma demo_share_space: "found demo_share 0 b = Some 0" "aspace demo_share 0 (PGNUM 0x800000) = Some 0x5007" "dir_frame demo_share 0 = 1"
  "present (entry demo_share 1 (PDX 0x801000))" "page2pa (frame 0x5007) OR 7 OR PTE_P = 0x5007" "PGNUM 0x800000 \<noteq> PGNUM 0x801000"
proof -
  have a: "PDX 0x801000 = 2" "PDX 0x800000 = 2" "PTX 0x800000 = 0"
    by (simp_all add: PDX_def PTX_def layout)
  have d: "env_pgdir (envs demo_share 0) = kpage 1"
    by simp
  show "found demo_share 0 b = Some 0"
    by (simp add: found_def envid2env_def stored_def)
  show "dir_frame demo_share 0 = 1"
    by (rule dir_frame_kpage [OF d]) simp
  have "vmap demo_share (Suc 0) 0x800000 = Some 0x5007"
    unfolding vmap_def a by (simp add: demo_share_pte demo_frames)
  then show "aspace demo_share 0 (PGNUM 0x800000) = Some 0x5007"
    using aspace_eq [OF demo_share_kern_inv(1,3) _ d] by (simp add: demo_share_kern_inv(4) layout)
  show "present (entry demo_share 1 (PDX 0x801000))"
    by (simp add: a demo_share_entry demo_frames)
  show "page2pa (frame 0x5007) OR 7 OR PTE_P = 0x5007" "PGNUM 0x800000 \<noteq> PGNUM 0x801000"
    by (simp_all add: page2pa_def demo_frames layout PGNUM_def)
qed

theorem sys_page_map_correct_witness:
  "\<exists>s'. sys_page_map demo_share 0 0x800000 0 0x801000 7 = Some (Ret 0, s') \<and> kern_inv demo_base 0 s' \<and>
     aspace s' 0 (PGNUM 0x801000) = Some 0x5007 \<and> aspace s' 0 (PGNUM 0x800000) = Some 0x5007"
  using sys_page_map_correct [OF demo_share_kern_inv(1) demo_share_sel(5) demo_share_kern_inv(3) _ demo_share_kern_inv(2), of 7 0 "0x800000" 0 "0x801000"]
    demo_share_space by (auto simp: PGOFF_def layout)

text \<open>C10. \<^verbatim>\<open>sys_page_unmap\<close> never panics, keeps the invariant of the kernel and either fails without a change to the state
  or removes exactly the mapping of the given page from the address space of the environment.\<close>

theorem sys_page_unmap_correct:
  assumes "kern_inv base k s" "curenv s = Some c" "live s c"
  shows "\<exists>r s'. sys_page_unmap s envid va = Some (Ret r, s') \<and> kern_inv base k s' \<and>
    (case found s envid True of
       None \<Rightarrow> r = - E_BAD_ENV \<and> s' = s
     | Some e \<Rightarrow>
         if UTOP \<le> va \<or> PGOFF va \<noteq> 0 then r = - E_INVAL \<and> s' = s
         else r = 0 \<and> mm_frame s s' \<and> aspace s' = (aspace s)(e := (aspace s e)(PGNUM va := None)))"
  by (rule sys_page_unmap_run [OF assms])

theorem sys_page_unmap_correct_witness:
  "\<exists>s'. sys_page_unmap demo_share 0 0x800000 = Some (Ret 0, s') \<and> kern_inv demo_base 0 s' \<and> aspace s' 0 (PGNUM 0x800000) = None"
  using sys_page_unmap_correct [OF demo_share_kern_inv(1) demo_share_sel(5) demo_share_kern_inv(3), of 0 "0x800000"]
    demo_share_space(1) by (auto simp: PGOFF_def layout)

end
