(* ===== verification/Syscall_Inv.thy ===== *)
theory Syscall_Inv
  imports Syscall_Mem
begin

section \<open>What the system calls guarantee\<close>

text \<open>
  Messages between environments, creation of environments, and the statement over the whole dispatcher: a
  system call keeps the invariant of the kernel, apart from the two places where the code leaves an
  argument of the caller unchecked, for which the damage is shown.
\<close>

subsection \<open>Messages\<close>

lemma upd_env_keeps:
  assumes "kern_inv base k s" "env_same (envs s u) (f (envs s u))"
  shows "kern_inv base k (upd_env u f s)" "live (upd_env u f s) = live s" "refs_low (upd_env u f s) = refs_low s"
    "aspace (upd_env u f s) = aspace s"
proof -
  show "kern_inv base k (upd_env u f s)"
    using assms by (rule kern_inv_upd_env)
  show l: "live (upd_env u f s) = live s"
    using assms(2) by (auto simp: live_def env_same_def fun_eq_iff)
  show "refs_low (upd_env u f s) = refs_low s"
    by (simp add: refs_low_def)
  have "pte (upd_env u f s) = pte s"
    by (intro pte_cong(1) entry_pmem_cong) simp
  then have "vmap (upd_env u f s) = vmap s"
    by (simp add: vmap_def fun_eq_iff)
  moreover have "dir_frame (upd_env u f s) = dir_frame s"
    using assms(2) by (simp add: dir_frame_def env_same_def fun_eq_iff)
  ultimately show "aspace (upd_env u f s) = aspace s"
    by (simp add: aspace_def l fun_eq_iff)
qed

lemma ipc_check_src_perm:
  assumes "ipc_check_src s c srcva perm = Some 0" "srcva \<noteq> IPC_NO_PAGE"
  shows "unat perm < 4096"
proof -
  have "perm AND NOT PTE_SYSCALL = 0"
    using assms by (auto simp: ipc_check_src_def layout split: if_splits)
  then show ?thesis
    by (rule perm_syscall)
qed

lemma lookup_aspace:
  assumes "kern_inv base k s" "live s e" "va < UTOP"
  obtains a where "page_lookup s (env_pgdir (envs s e)) va = Some (map_option (\<lambda>p. (frame p, a)) (aspace s e (PGNUM va)))"
    "\<And>p. aspace s e (PGNUM va) = Some p \<Longrightarrow> kld s a = p"
  using lookup_live [OF assms(1) dir_frame_live(1) [OF assms(1,2)] below_UTOP [OF assms(3)]]
    aspace_eq [OF assms dir_frame_live(2,1) [OF assms(1,2)]] dir_frame_live(2) [OF assms(1,2)] by auto

text \<open>The part of \<^verbatim>\<open>sys_ipc_try_send\<close> that moves a page: what a run that returns 0 with a page did.\<close>

lemma ipc_send_page_run:
  assumes inv: "kern_inv base k s" and c: "curenv s = Some c" "live s c" and low: "refs_low s"
    and id: "envid2env s envid False = Some (0, Some (Some u))" and rcv: "env_ipc_recving (envs s u)"
    and src: "ipc_check_src s c srcva perm = Some 0"
    and pg: "srcva \<noteq> IPC_NO_PAGE" "env_ipc_dstva (envs s u) \<noteq> IPC_NO_PAGE"
    and run: "sys_ipc_try_send s envid value srcva perm = Some (f, s')"
  shows "f = Ret (- E_NO_MEM) \<and> s' = upd_env u (\<lambda>v. v\<lparr>env_ipc_perm := 0\<rparr>) s \<or>
    (\<exists>r s2. sys_page_map (upd_env u (\<lambda>v. v\<lparr>env_ipc_perm := 0\<rparr>) s) (env_id (envs s c)) srcva envid (env_ipc_dstva (envs s u)) perm =
        Some (Ret r, s2) \<and> kern_inv base k s2 \<and> mm_frame (upd_env u (\<lambda>v. v\<lparr>env_ipc_perm := 0\<rparr>) s) s2 \<and>
      s2 \<noteq> upd_env u (\<lambda>v. v\<lparr>env_ipc_perm := 0\<rparr>) s \<and> f = Ret 0 \<and> s' = ipc_deliver (upd_env u (\<lambda>v. v\<lparr>env_ipc_perm := perm\<rparr>) s2) c u value)"
proof -
  let ?s1 = "upd_env u (\<lambda>v. v\<lparr>env_ipc_perm := 0\<rparr>) s" and ?va = "env_ipc_dstva (envs s u)"
  have same: "env_same (envs s u) ((envs s u)\<lparr>env_ipc_perm := 0\<rparr>)"
    by (simp add: env_same_def)
  note K = upd_env_keeps [where f = "\<lambda>v. v\<lparr>env_ipc_perm := 0\<rparr>", OF inv same]
  have idc: "env_id (envs ?s1 c) = env_id (envs s c)"
    by simp
  have c1: "curenv ?s1 = Some c" "live ?s1 c" "refs_low ?s1"
    using c low K by simp_all
  obtain r s2 where M: "sys_page_map ?s1 (env_id (envs s c)) srcva envid ?va perm = Some (Ret r, s2)" "kern_inv base k s2" "mm_frame ?s1 s2"
    by (rule sys_page_map_cases [OF K(1) c1(1,2) ipc_check_src_perm [OF src pg(1)] c1(3), of "env_id (envs s c)" srcva envid ?va])
      (use K(1) in blast)+
  with M run id rcv c(1) src pg idc show ?thesis
    by (auto simp: sys_ipc_try_send_def stored_def Let_def split: bind_splits if_splits)
qed

lemma kern_inv_try_send:
  assumes inv: "kern_inv base k s" and c: "curenv s = Some c" "live s c" and low: "refs_low s"
    and run: "sys_ipc_try_send s envid value srcva perm = Some (f, s')"
  shows "kern_inv base k s'"
proof (rule envid2env_Some [OF c, of envid False])
  fix st assume "envid2env s envid False = Some (- E_BAD_ENV, st)"
  with run inv show ?thesis by (simp add: sys_ipc_try_send_def layout)
next
  fix u assume u: "envid2env s envid False = Some (0, Some (Some u))" "live s u"
  show ?thesis
  proof (cases "env_ipc_recving (envs s u) \<and> ipc_check_src s c srcva perm = Some 0")
    case False
    then have "s' = s"
      using run u c(1) by (auto simp: sys_ipc_try_send_def stored_def split: bind_splits if_splits)
    with inv show ?thesis by simp
  next
    case True
    have k: "kern_inv base k (upd_env u (\<lambda>v. v\<lparr>env_ipc_perm := p\<rparr>) t)" "live (upd_env u (\<lambda>v. v\<lparr>env_ipc_perm := p\<rparr>) t) = live t"
      if "kern_inv base k t" for p t
      by (rule upd_env_keeps(1,2) [OF that]; simp add: env_same_def)+
    note K = k [OF inv, of 0]
    show ?thesis
    proof (cases "srcva \<noteq> IPC_NO_PAGE \<and> env_ipc_dstva (envs s u) \<noteq> IPC_NO_PAGE")
      case page: True
      note R = ipc_send_page_run [OF inv c low u(1) conjunct1 [OF True] conjunct2 [OF True] conjunct1 [OF page] conjunct2 [OF page] run]
      then show ?thesis
      proof (elim disjE exE conjE)
        fix r s2 assume *: "kern_inv base k s2" "mm_frame (upd_env u (\<lambda>v. v\<lparr>env_ipc_perm := 0\<rparr>) s) s2"
          "s' = ipc_deliver (upd_env u (\<lambda>v. v\<lparr>env_ipc_perm := perm\<rparr>) s2) c u value"
        have "live s2 u"
          using mm_frame_sel(3) [OF *(2)] u(2) K(2) by (simp add: live_def)
        then show ?thesis
          unfolding *(3) using k [OF *(1)] by (intro kern_inv_ipc_deliver) simp_all
      qed (use K in simp)
    next
      case False
      have "s' = ipc_deliver (upd_env u (\<lambda>v. v\<lparr>env_ipc_perm := 0\<rparr>) s) c u value"
        using False True run u c(1) by (auto simp: sys_ipc_try_send_def stored_def Let_def split: bind_splits if_splits)
      then show ?thesis
        using K u(2) kern_inv_ipc_deliver by simp
    qed
  qed
qed

lemma if_SomeE: "(if P then x else y) = Some z \<Longrightarrow> (P \<Longrightarrow> x = Some z \<Longrightarrow> Q) \<Longrightarrow> (\<not> P \<Longrightarrow> y = Some z \<Longrightarrow> Q) \<Longrightarrow> Q"
  by (simp split: if_splits)

subsection \<open>What the calls guarantee\<close>

lemma syscall_keeps:
  assumes inv: "kern_inv base k s" and c: "curenv s = Some c" "live s c" and low: "refs_low s"
    and perm: "no = SYS_page_map \<Longrightarrow> unat a5 < 4096" and status: "no = SYS_env_set_status \<Longrightarrow> a2 \<noteq> ENV_FREE"
    and run: "syscall s no a1 a2 a3 a4 a5 = Some (f, s')"
  shows "kern_inv base k s'"
proof -
  have con: "kern_inv base k (s\<lparr>con := x\<rparr>)" for x
    by (rule kern_inv_same [OF _ inv]) (simp add: same_but_status_def env_same_def)
  have cputs: "sys_cputs s a1 a2 = Some (g, s') \<Longrightarrow> kern_inv base k s'" for g
    by (rule kern_inv_cputs [OF inv c])
  have cgetc: "sys_cgetc s = Some (f, s') \<Longrightarrow> kern_inv base k s'"
    using con by (auto simp: sys_cgetc_def split: bind_splits)
  have getenvid: "sys_getenvid s = Some (f, s') \<Longrightarrow> kern_inv base k s'"
    using inv by (auto simp: sys_getenvid_def split: bind_splits)
  have destroy: "sys_env_destroy s a1 = Some (f, s') \<Longrightarrow> kern_inv base k s'"
    by (rule envid2env_Some [OF c, of a1 True])
      (use inv kern_inv_env_destroy [OF inv] in \<open>auto simp: sys_env_destroy_def stored_def layout split: bind_splits\<close>)
  have yield: "kern_inv base k s'" if "sys_yield t = Some (f, s')" "kern_inv base k t" for t
    using that kern_inv_same sched_yield_same by (fastforce simp: sys_yield_def split: bind_splits)
  have alloc: "sys_page_alloc s a1 a2 a3 = Some (f, s') \<Longrightarrow> kern_inv base k s'"
    using sys_page_alloc_run [OF inv c, of a1 a2 a3] by auto
  have map: "sys_page_map s a1 a2 a3 a4 a5 = Some (f, s') \<Longrightarrow> no = SYS_page_map \<Longrightarrow> kern_inv base k s'"
    by (rule sys_page_map_cases [OF inv c perm low, of a1 a2 a3 a4]) (use inv in auto)
  have unmap: "sys_page_unmap s a1 a2 = Some (f, s') \<Longrightarrow> kern_inv base k s'"
    using sys_page_unmap_run [OF inv c, of a1 a2] by auto
  have upcall: "sys_env_set_pgfault_upcall s a1 a2 = Some (f, s') \<Longrightarrow> kern_inv base k s'"
    by (rule envid2env_Some [OF c, of a1 True])
      (use inv in \<open>auto simp: sys_env_set_pgfault_upcall_def stored_def layout env_same_def intro!: kern_inv_upd_env\<close>)
  have set_status: "kern_inv base k s'" if r: "sys_env_set_status s a1 a2 = Some (f, s')" and "a2 \<noteq> ENV_FREE"
  proof (rule envid2env_Some [OF c, of a1 True])
    fix e assume e: "envid2env s a1 True = Some (0, Some (Some e))" "live s e"
    have "env_same (envs s e) ((envs s e)\<lparr>env_status := a2\<rparr>)"
      using e(2) \<open>a2 \<noteq> ENV_FREE\<close> by (simp add: env_same_def live_def)
    from kern_inv_upd_env [where f = "\<lambda>v. v\<lparr>env_status := a2\<rparr>", OF inv this] show ?thesis
      using r e(1) inv by (simp add: sys_env_set_status_def stored_def split: if_splits)
  qed (use r inv in \<open>simp add: sys_env_set_status_def layout\<close>)
  have "env_same (envs s c) ((envs s c)\<lparr>env_ipc_recving := True, env_ipc_dstva := a1, env_status := ENV_NOT_RUNNABLE\<rparr>)"
    using c(2) by (simp add: env_same_def live_def layout)
  from kern_inv_upd_env [where f = "\<lambda>v. v\<lparr>env_ipc_recving := True, env_ipc_dstva := a1, env_status := ENV_NOT_RUNNABLE\<rparr>", OF inv this]
  have recv: "sys_ipc_recv s a1 = Some (f, s') \<Longrightarrow> kern_inv base k s'"
    using inv yield c(1) by (auto simp: sys_ipc_recv_def split: if_splits)
  have cputs': "kern_inv base k s'"
    if "do { (g, s1) \<leftarrow> sys_cputs s a1 a2; Some (case g of Ret _ \<Rightarrow> Ret 0 | Leave x \<Rightarrow> Leave x, s1) } = Some (f, s')"
    using that cputs by (auto split: bind_splits)
  note calls = cputs' cgetc getenvid destroy yield [OF _ inv] kern_inv_exofork [OF inv] alloc map unmap set_status [OF _ status] upcall
    kern_inv_try_send [OF inv c low] recv
  from run [unfolded syscall_def] show ?thesis
    by (elim if_SomeE) (erule calls; assumption | insert inv, auto)+
qed

text \<open>C2. A system call that returns, or leaves for another environment, without a panic of the kernel keeps the
  invariant of the kernel: page reference counts equal their uses, no environment sees the page tables of another, the
  live address spaces are those of the environments in use and the free list holds exactly the free ones. There are
  three conditions that the code does not enforce: the permission of \<^verbatim>\<open>sys_page_map\<close> has no frame bits, the status
  given to \<^verbatim>\<open>sys_env_set_status\<close> is not \<^verbatim>\<open>ENV_FREE\<close>, and no page already has 65535 references (one more wraps
  the 16-bit \<^verbatim>\<open>pp_ref\<close>: \<open>page_insert_ref_wraps\<close>).\<close>

theorem syscall_kern_inv:
  assumes "kern_inv base k s" and "curenv s = Some c" "live s c" and "refs_low s"
    and "no = SYS_page_map \<Longrightarrow> unat a5 < 4096" and "no = SYS_env_set_status \<Longrightarrow> a2 \<noteq> ENV_FREE"
    and "syscall s no a1 a2 a3 a4 a5 = Some (f, s')"
  shows "kern_inv base k s'"
  by (rule syscall_keeps [OF assms])

theorem syscall_kern_inv_witness:
  "\<exists>r s'. syscall demo_share SYS_page_map 0 0x800000 0 0x801000 7 = Some (Ret r, s') \<and> kern_inv demo_base 0 s'"
proof -
  obtain r s' where r: "sys_page_map demo_share 0 0x800000 0 0x801000 7 = Some (Ret r, s')"
    using sys_page_map_run [OF demo_share_kern_inv(1) demo_share_sel(5) demo_share_kern_inv(3) _ demo_share_kern_inv(2), of 7] by fastforce
  then have "syscall demo_share SYS_page_map 0 0x800000 0 0x801000 7 = Some (Ret r, s')"
    by (simp add: syscall_def layout)
  then show ?thesis
    using syscall_kern_inv [OF demo_share_kern_inv(1) demo_share_sel(5) demo_share_kern_inv(3,2), of SYS_page_map 7 "0x800000" 0 0 "0x801000"]
    by (auto simp: layout)
qed

text \<open>C25. \<^verbatim>\<open>sys_env_set_status\<close> checks the status the environment has and not the status it is given: a caller may set
  \<^verbatim>\<open>ENV_FREE\<close> on itself or a child, which then is marked free, is not on the free list and still owns its address space.
  This breaks the invariant of the kernel.\<close>

theorem sys_env_set_status_unchecked:
  assumes "kern_inv base k s" "envid2env s envid True = Some (0, Some (Some e))" "e < NENV"
    "env_status (envs s e) = ENV_RUNNABLE \<or> env_status (envs s e) = ENV_NOT_RUNNABLE"
  shows "\<exists>s'. sys_env_set_status s envid ENV_FREE = Some (Ret 0, s') \<and> env_status (envs s' e) = ENV_FREE \<and> \<not> kern_inv base' k' s'"
proof -
  let ?s = "upd_env e (\<lambda>v. v\<lparr>env_status := ENV_FREE\<rparr>) s"
  have "sys_env_set_status s envid ENV_FREE = Some (Ret 0, ?s)"
    using assms(2,4) by (auto simp: sys_env_set_status_def stored_def layout)
  moreover have False if inv': "kern_inv base' k' ?s"
  proof -
    have links: "env_links ?s = env_links s" "env_free_list ?s = env_free_list s"
      by (simp_all add: env_links_def fun_eq_iff)
    obtain l where l: "linked (env_links s) (env_free_list s) l" "set l = {e. e < NENV \<and> env_status (envs s e) = ENV_FREE}"
      using assms(1) by (auto simp: kern_inv_def envs_ok_def)
    obtain l' where l': "linked (env_links s) (env_free_list s) l'" "set l' = {e. e < NENV \<and> env_status (envs ?s e) = ENV_FREE}"
      using inv' unfolding kern_inv_def envs_ok_def links by blast
    have "l' = l"
      using l(1) l'(1) linked_unique by blast
    moreover have "e \<in> set l'"
      using l'(2) assms(3) by simp
    ultimately show False
      using l(2) assms(4) by (auto simp: layout)
  qed
  ultimately show ?thesis
    by (intro exI [of _ ?s]) auto
qed

theorem sys_env_set_status_unchecked_witness:
  "\<exists>s'. sys_env_set_status (upd_env 0 (\<lambda>v. v\<lparr>env_status := ENV_RUNNABLE\<rparr>) demo_run) 0 ENV_FREE = Some (Ret 0, s') \<and>
     \<not> kern_inv demo_base 0 s'"
proof -
  let ?s = "upd_env 0 (\<lambda>v. v\<lparr>env_status := ENV_RUNNABLE\<rparr>) demo_run"
  have "kern_inv demo_base 0 ?s"
    by (rule kern_inv_upd_env [OF demo_run_kern_inv]) (simp add: env_same_def layout)
  moreover have "envid2env ?s 0 True = Some (0, Some (Some 0))"
    by (simp add: envid2env_def)
  ultimately show ?thesis
    using sys_env_set_status_unchecked [of demo_base 0 ?s 0 0] by (auto simp: layout)
qed

text \<open>A message without a page to an environment that waits: the call returns 0, exactly the receiver's record changes
  (sender, value, no permission, runnable, and 0 as the result of its own call), and the next message to it, from whoever
  and whatever it carries, is refused with \<^verbatim>\<open>-E_IPC_NOT_RECV\<close> and changes nothing, until it waits again.\<close>

theorem sys_ipc_value_delivered:
  assumes "curenv s = Some c" "live s c" "envid2env s envid False = Some (0, Some (Some u))" "env_ipc_recving (envs s u)"
  shows "\<exists>s'. sys_ipc_try_send s envid value IPC_NO_PAGE perm = Some (Ret 0, s') \<and>
    s' = s\<lparr>envs := (envs s)(u := (envs s u)\<lparr>env_ipc_perm := 0, env_ipc_from := env_id (envs s c), env_ipc_value := value,
       env_tf := (env_tf (envs s u))\<lparr>tf_regs := (tf_regs (env_tf (envs s u)))\<lparr>reg_eax := 0\<rparr>\<rparr>,
       env_ipc_recving := False, env_status := ENV_RUNNABLE\<rparr>)\<rparr> \<and>
    sys_ipc_try_send s' envid value' srcva' perm' = Some (Ret (- E_IPC_NOT_RECV), s')"
proof -
  let ?s1 = "upd_env u (\<lambda>v. v\<lparr>env_ipc_perm := 0\<rparr>) s"
  let ?s = "ipc_deliver ?s1 c u value"
  have run: "sys_ipc_try_send s envid value IPC_NO_PAGE perm = Some (Ret 0, ?s)"
    using assms by (simp add: sys_ipc_try_send_def ipc_check_src_def stored_def)
  have eq: "?s = s\<lparr>envs := (envs s)(u := (envs s u)\<lparr>env_ipc_perm := 0, env_ipc_from := env_id (envs s c), env_ipc_value := value,
       env_tf := (env_tf (envs s u))\<lparr>tf_regs := (tf_regs (env_tf (envs s u)))\<lparr>reg_eax := 0\<rparr>\<rparr>,
       env_ipc_recving := False, env_status := ENV_RUNNABLE\<rparr>)\<rparr>"
    by (simp add: ipc_deliver_def upd_env_def)
  have "env_id (envs ?s x) = env_id (envs s x)" "env_status (envs ?s x) = (if x = u then ENV_RUNNABLE else env_status (envs s x))"
    "curenv ?s = curenv s" for x
    by (simp_all add: ipc_deliver_def)
  then have "envid2env ?s envid False = Some (0, Some (Some u))"
    using assms(3) by (auto simp: envid2env_def Let_def layout split: if_splits)
  moreover have "\<not> env_ipc_recving (envs ?s u)"
    by (simp add: ipc_deliver_def)
  ultimately have "sys_ipc_try_send ?s envid value' srcva' perm' = Some (Ret (- E_IPC_NOT_RECV), ?s)"
    by (simp add: sys_ipc_try_send_def stored_def)
  with run eq show ?thesis by blast
qed

theorem sys_ipc_value_delivered_witness:
  "\<exists>s'. sys_ipc_try_send (upd_env 0 (\<lambda>v. v\<lparr>env_ipc_recving := True\<rparr>) demo_run) 0 42 IPC_NO_PAGE 0 = Some (Ret 0, s') \<and>
     env_ipc_value (envs s' 0) = 42 \<and> sys_ipc_try_send s' 0 43 IPC_NO_PAGE 0 = Some (Ret (- E_IPC_NOT_RECV), s')"
  using sys_ipc_value_delivered [of "upd_env 0 (\<lambda>v. v\<lparr>env_ipc_recving := True\<rparr>) demo_run" 0 0 0 42 0 43 IPC_NO_PAGE 0]
  by (auto simp: live_def envid2env_def layout)

text \<open>C20. A message with a page, when both sides name one: if the call returns 0 and the sender's page could be mapped, then
  the page mapped at \<^verbatim>\<open>srcva\<close> in the sender's address space is mapped at the receiver's \<^verbatim>\<open>env_ipc_dstva\<close> with the given
  permission, no other entry of any address space has changed, and the receiver is told the permission.\<close>

theorem sys_ipc_page_delivered:
  assumes "kern_inv base k s" "curenv s = Some c" "live s c" "refs_low s"
    "envid2env s envid False = Some (0, Some (Some u))" "envid2env s (env_id (envs s c)) True = Some (0, Some (Some c))"
    "srcva \<noteq> IPC_NO_PAGE" "env_ipc_dstva (envs s u) \<noteq> IPC_NO_PAGE" "env_ipc_recving (envs s u)"
    and run: "sys_ipc_try_send s envid value srcva perm = Some (Ret 0, s')"
  shows "kern_inv base k s' \<and> env_ipc_value (envs s' u) = value \<and> env_ipc_from (envs s' u) = env_id (envs s c) \<and>
    env_ipc_perm (envs s' u) = perm \<and> env_status (envs s' u) = ENV_RUNNABLE \<and> \<not> env_ipc_recving (envs s' u) \<and>
    (\<exists>p. aspace s c (PGNUM srcva) = Some p \<and> (perm AND PTE_W \<noteq> 0 \<longrightarrow> p AND PTE_W \<noteq> 0) \<and>
      aspace s' = (aspace s)(u := (aspace s u)(PGNUM (env_ipc_dstva (envs s u)) \<mapsto> page2pa (frame p) OR perm OR PTE_P)))"
proof -
  let ?f = "\<lambda>v. v\<lparr>env_ipc_perm := 0\<rparr>" and ?va = "env_ipc_dstva (envs s u)"
  let ?s1 = "upd_env u ?f s"
  note inv = assms(1)
  have same: "env_same (envs s u) (?f (envs s u))"
    by (simp add: env_same_def)
  note K = upd_env_keeps [where f = ?f, OF inv same]
  have src: "ipc_check_src s c srcva perm = Some 0"
    using run assms(2,5,9) by (auto simp: sys_ipc_try_send_def stored_def split: bind_splits if_splits)
  obtain r s2 where M: "sys_page_map ?s1 (env_id (envs s c)) srcva envid ?va perm = Some (Ret r, s2)" "mm_frame ?s1 s2"
    "s2 \<noteq> ?s1" "s' = ipc_deliver (upd_env u (\<lambda>v. v\<lparr>env_ipc_perm := perm\<rparr>) s2) c u value"
    using ipc_send_page_run [OF assms(1-5,9) src assms(7,8) run] by (auto simp: layout)
  have id: "found ?s1 x b = found s x b" for x b
    by (simp add: found_def envid2env_def Let_def assms(2))
  have f: "found s envid False = Some u" "found s (env_id (envs s c)) True = Some c"
    using assms(5,6) by (simp_all add: found_def stored_def)
  have c1: "curenv ?s1 = Some c" "live ?s1 c" "refs_low ?s1"
    using assms(2-4) K by simp_all
  obtain p where P: "kern_inv base k s2" "aspace s c (PGNUM srcva) = Some p" "perm AND PTE_W \<noteq> 0 \<longrightarrow> p AND PTE_W \<noteq> 0"
    "aspace s2 = (aspace s)(u := (aspace s u)(PGNUM ?va \<mapsto> page2pa (frame p) OR perm OR PTE_P))"
    by (rule sys_page_map_cases [OF K(1) c1(1,2) ipc_check_src_perm [OF src assms(7)] c1(3), of "env_id (envs s c)" srcva envid ?va])
      (use M(1,3) f in \<open>auto simp: id K(4)\<close>)
  have live: "live s u"
    using envid2env_live [OF assms(2,3,5)] by (auto simp: stored_def layout)
  have e2: "envs s2 = envs ?s1"
    by (rule mm_frame_sel(3) [OF M(2)])
  then have "live s2 u"
    using live K(2) by (simp add: live_def)
  have s2: "env_same (envs s2 u) ((envs s2 u)\<lparr>env_ipc_perm := perm\<rparr>)"
    by (simp add: env_same_def)
  note K2 = upd_env_keeps [where f = "\<lambda>v. v\<lparr>env_ipc_perm := perm\<rparr>", OF P(1) s2]
  let ?s3 = "upd_env u (\<lambda>v. v\<lparr>env_ipc_perm := perm\<rparr>) s2"
  let ?g = "\<lambda>v. v\<lparr>env_ipc_from := env_id (envs ?s3 c), env_ipc_value := value,
       env_tf := (env_tf v)\<lparr>tf_regs := (tf_regs (env_tf v))\<lparr>reg_eax := 0\<rparr>\<rparr>, env_ipc_recving := False, env_status := ENV_RUNNABLE\<rparr>"
  have s': "s' = upd_env u ?g ?s3"
    unfolding M(4) ipc_deliver_def by simp
  have "env_same (envs ?s3 u) (?g (envs ?s3 u))"
    using \<open>live s2 u\<close> by (simp add: env_same_def live_def layout)
  note K3 = upd_env_keeps [where f = ?g, OF K2(1) this, folded s']
  show ?thesis
    using K3(1,4) K2(4) P(2-4) by (simp add: s' e2)
qed

lemma ipc_page_succeeds:
  assumes inv: "kern_inv base k s" and c: "curenv s = Some c" "live s c" and low: "refs_low s"
    and f: "found s envid False = Some u" "found s (env_id (envs s c)) True = Some c" and rcv: "env_ipc_recving (envs s u)"
    and va: "srcva < UTOP" "PGOFF srcva = 0" "env_ipc_dstva (envs s u) < UTOP" "PGOFF (env_ipc_dstva (envs s u)) = 0"
    and perm: "perm AND NOT PTE_SYSCALL = 0" and src: "aspace s c (PGNUM srcva) = Some p" "p AND PTE_W \<noteq> 0"
    and dst: "aspace s u (PGNUM (env_ipc_dstva (envs s u))) = None" "present (entry s (dir_frame s u) (PDX (env_ipc_dstva (envs s u))))"
    and np: "srcva \<noteq> IPC_NO_PAGE" "env_ipc_dstva (envs s u) \<noteq> IPC_NO_PAGE"
  shows "\<exists>s'. sys_ipc_try_send s envid value srcva perm = Some (Ret 0, s')"
proof -
  let ?f = "\<lambda>v. v\<lparr>env_ipc_perm := 0\<rparr>" and ?va = "env_ipc_dstva (envs s u)"
  let ?s1 = "upd_env u ?f s"
  have same: "env_same (envs s u) (?f (envs s u))"
    by (simp add: env_same_def)
  note K = upd_env_keeps [where f = ?f, OF inv same]
  note u = found_Some [OF c f(1)]
  have e1: "entry ?s1 = entry s" "dir_frame ?s1 = dir_frame s"
    by (rule entry_pmem_cong) (simp_all add: dir_frame_def fun_eq_iff)
  have id: "found ?s1 x b = found s x b" for x b
    by (simp add: found_def envid2env_def Let_def c(1))
  have m: "x mod PGSIZE = 0" if "PGOFF x = 0" for x :: u32
    using that by (simp add: word_unat_eq_iff unat_PGOFF unat_mod layout)
  obtain a where "page_lookup s (env_pgdir (envs s c)) srcva = Some (Some (frame p, a))" "kld s a = p"
    using lookup_aspace [OF inv c(2) va(1)] src(1) by (metis option.map(2))
  moreover have nle: "\<not> UTOP \<le> srcva" "\<not> UTOP \<le> ?va"
    using va(1,3) by simp_all
  ultimately have chk: "ipc_check_src s c srcva perm = Some 0"
    using va(2) perm src(2) np(1) m by (simp add: ipc_check_src_def)
  have l1: "page_lookup ?s1 (env_pgdir (envs ?s1 u)) ?va = Some None"
    using lookup_aspace [OF K(1) _ va(3), of u] u(2) K(2,4) dst(1) by (metis option.map(1))
  obtain s2 where s2: "sys_page_map ?s1 (env_id (envs s c)) srcva envid ?va perm = Some (Ret 0, s2)" "kern_inv base k s2" "mm_frame ?s1 s2"
    "aspace s2 = (aspace s)(u := (aspace s u)(PGNUM ?va \<mapsto> page2pa (frame p) OR perm OR PTE_P))"
    using sys_page_map_run [OF K(1) _ _ perm_syscall [OF perm], of c "env_id (envs s c)" srcva envid ?va] c low K(2,3) f va(2,4) nle src dst(2)
    by (auto simp: id e1 K(4))
  have l2: "live s2 u"
    using mm_frame_sel(3) [OF s2(3)] u(2) K(2) by (simp add: live_def)
  obtain x where "page_lookup s2 (env_pgdir (envs s2 u)) ?va = Some (Some x)"
    using lookup_aspace [OF s2(2) l2 va(3)] s2(4) by (metis fun_upd_same option.map(2))
  with s2(1) l1 chk u(1) rcv c(1) np show ?thesis
    by (auto simp: sys_ipc_try_send_def stored_def Let_def)
qed

theorem sys_ipc_page_delivered_witness:
  "\<exists>s'. sys_ipc_try_send (upd_env 0 (\<lambda>v. v\<lparr>env_ipc_recving := True, env_ipc_dstva := 0x801000\<rparr>) demo_share) 0 42 0x800000 7 = Some (Ret 0, s') \<and>
     env_ipc_value (envs s' 0) = 42 \<and> aspace s' 0 (PGNUM 0x801000) = Some 0x5007"
proof -
  let ?f = "\<lambda>v. v\<lparr>env_ipc_recving := True, env_ipc_dstva := 0x801000\<rparr>"
  let ?s = "upd_env 0 ?f demo_share"
  have same: "env_same (envs demo_share 0) (?f (envs demo_share 0))"
    by (simp add: env_same_def)
  note K = upd_env_keeps [where f = ?f, OF demo_share_kern_inv(1) same]
  have d: "dir_frame ?s 0 = dir_frame demo_share 0" and e: "entry ?s = entry demo_share"
    by (simp add: dir_frame_def) (rule entry_pmem_cong, simp)
  have fnd: "found ?s 0 False = Some 0" "found ?s (env_id (envs ?s 0)) True = Some 0"
    "envid2env ?s 0 False = Some (0, Some (Some 0))" "envid2env ?s (env_id (envs ?s 0)) True = Some (0, Some (Some 0))"
    by (simp_all add: found_def envid2env_def stored_def ENVX_def layout sint_u32)
  have none: "aspace demo_share 0 (PGNUM 0x801000) = None"
  proof -
    have a: "PDX 0x801000 = 2" "PTX 0x801000 = 1"
      by (simp_all add: PDX_def PTX_def layout)
    have "vmap demo_share 1 0x801000 = None"
      unfolding vmap_def a by (simp add: demo_share_pte demo_frames)
    then show ?thesis
      using aspace_eq [OF demo_share_kern_inv(1,3), of "0x801000" 1] by (simp add: demo_share_kern_inv(4) layout)
  qed
  obtain s' where s': "sys_ipc_try_send ?s 0 42 0x800000 7 = Some (Ret 0, s')"
    using ipc_page_succeeds [OF K(1) _ _ _ fnd(1,2), of "0x800000" 7 "0x5007" 42] K(2-4) demo_share_kern_inv(2,3) demo_share_space none
    by (auto simp: d e PGOFF_def layout)
  then show ?thesis
    using sys_ipc_page_delivered [OF K(1) _ _ _ fnd(3,4) _ _ _ s'] K(2-4) demo_share_kern_inv(2,3) demo_share_space
    by (auto simp: layout)
qed

text \<open>C24. \<^verbatim>\<open>sys_page_map\<close> does not check its permission argument (\<^verbatim>\<open>sys_page_alloc\<close> and \<^verbatim>\<open>sys_ipc_try_send\<close> refuse bits outside
  \<^verbatim>\<open>PTE_SYSCALL\<close>): every bit of it, frame bits included, is ORed into the page directory entry of the destination, so a
  caller that may write a page of its own can point its page directory at a frame it has no right to.\<close>

theorem sys_page_map_perm_unchecked:
  assumes "kern_inv base k s" "curenv s = Some c" "live s c"
    "srcva < UTOP" "PGOFF srcva = 0" "dstva < UTOP" "PGOFF dstva = 0"
    "aspace s c (PGNUM srcva) = Some p" "p AND PTE_W \<noteq> 0" "aspace s c (PGNUM dstva) = None"
    "present (entry s (dir_frame s c) (PDX dstva))"
  shows "\<exists>s'. sys_page_map s 0 srcva 0 dstva perm = Some (Ret 0, s') \<and>
    entry s' (dir_frame s c) (PDX dstva) = entry s (dir_frame s c) (PDX dstva) OR (perm OR PTE_P)"
proof -
  let ?d = "dir_frame s c" and ?i = "PDX dstva" and ?j = "PTX dstva"
  let ?t = "frame (entry s ?d ?i)"
  note inv = assms(1) and D = dir_frame_live [OF assms(1,3)]
  obtain fl where vm: "vm_inv base (live_dirs s) fl s"
    using kern_inv_vm [OF inv] .
  note T = vm_table [OF vm D(1) below_UTOP [OF assms(6)] assms(11)]
  have dt: "?d < 65536" "?d \<noteq> ?t" and lt: "unat ?i < 1024" "unat ?j < 1024"
    using vm_dir(1) [OF vm D(1)] T(3) D(1) user_pdx_less [OF below_UTOP [OF assms(6)]] PTX_less by auto
  let ?s2 = "kst (slot (kpage ?d) ?i) (entry s ?d ?i OR (perm OR PTE_P)) s"
  have w: "pgdir_walk s (kpage ?d) dstva True = Some (slot (kpage ?t) ?j, s)"
    by (rule walk_present [OF vm D(1) below_UTOP [OF assms(6)] assms(11)])
  have "vmap s ?d dstva = None"
    using aspace_eq [OF inv assms(3,6) D(2,1)] assms(10) by simp
  then have "\<not> present (entry s ?t ?j)"
    using assms(11) by (simp add: vmap_def pte_def Let_def split: if_splits)
  then have np: "\<not> present (kld (upd_page q g ?s2) (slot (kpage ?t) ?j))" for q g
    using dt T(1) lt by (simp add: kld_kpage entry_kst entry_pmem_cong [of "upd_page q g ?s2" ?s2])
  have nz: "slot (kpage ?t) ?j \<noteq> 0"
    using slot_kpage_nonzero [OF T(1) lt(2)] .
  obtain q g where ins: "page_insert s (kpage ?d) (Some (frame p)) dstva perm =
      Some (0, kst (slot (kpage ?t) ?j) (page2pa (frame p) OR perm OR PTE_P) (upd_page q g ?s2))"
  proof (cases "paddr (pages ?s2 (frame p)) = PTE_ADDR (kld ?s2 (slot (kpage ?t) ?j))")
    case True
    have "upd_page 0 (\<lambda>x. x) ?s2 = ?s2"
      by (simp add: upd_page_def)
    with that [of 0 "\<lambda>x. x"] True w nz show thesis
      by (simp add: page_insert_def kld_kpage)
  next
    case False
    with that [of "frame p" "\<lambda>pg. pg\<lparr>pp_ref := pp_ref pg + 1\<rparr>"] w nz np show thesis
      by (simp add: page_insert_def kld_kpage PTE_P_test)
  qed
  let ?s' = "kst (slot (kpage ?t) ?j) (page2pa (frame p) OR perm OR PTE_P) (upd_page q g ?s2)"
  have "entry ?s' ?d ?i = entry s ?d ?i OR (perm OR PTE_P)"
    using dt T(1) lt by (simp add: entry_kst entry_pmem_cong [of "upd_page q g ?s2" ?s2])
  moreover obtain a where "page_lookup s (kpage ?d) srcva = Some (Some (frame p, a))" "kld s a = p"
    using lookup_aspace [OF inv assms(3,4)] assms(8) D(2) by (metis option.map(2))
  then have "sys_page_map s 0 srcva 0 dstva perm = Some (Ret 0, ?s')"
    using assms(2,4-7,9) ins D(2) by (simp add: sys_page_map_def envid2env_def stored_def check_addr_scale_UTOP)
  ultimately show ?thesis by blast
qed

theorem sys_page_map_perm_unchecked_witness:
  "\<exists>s'. sys_page_map demo_share 0 0x800000 0 0x801000 0x5007 = Some (Ret 0, s') \<and> entry s' 1 (PDX 0x801000) = 0x7007 \<and>
     frame (entry demo_share 1 (PDX 0x801000)) = 2 \<and> frame 0x7007 = 7"
proof -
  have a: "PDX 0x801000 = 2" "PTX 0x801000 = 1" "frame 0x7007 = 7" "entry demo_share (Suc 0) 2 = 0x2007"
    by (simp_all add: PDX_def PTX_def layout frame_def PGNUM_def demo_share_entry)
  have "vmap demo_share 1 0x801000 = None"
    unfolding vmap_def a by (simp add: demo_share_pte demo_frames)
  then have "aspace demo_share 0 (PGNUM 0x801000) = None"
    using aspace_eq [OF demo_share_kern_inv(1,3), of "0x801000" 1] by (simp add: demo_share_kern_inv(4) layout)
  then show ?thesis
    using sys_page_map_perm_unchecked [OF demo_share_kern_inv(1) demo_share_sel(5) demo_share_kern_inv(3), of "0x800000" "0x801000" "0x5007" "0x5007"]
      demo_share_space by (auto simp: a demo_frames PGOFF_def layout)
qed

lemma env_alloc_total:
  assumes "kern_inv base k s"
  shows "\<exists>r x s'. env_alloc s par = Some (r, x, s')"
proof -
  obtain fl where v: "vm_inv base (live_dirs s) fl s" and k: "kern_template base k s"
    using assms by (auto simp: kern_inv_def mem_ok_def)
  show ?thesis
  proof (cases "env_free_list s")
    case None
    then show ?thesis by (simp add: env_alloc_def)
  next
    case (Some e)
    show ?thesis
    proof (cases fl)
      case Nil
      then have "env_setup_vm s e = Some (- E_NO_MEM, s)"
        using env_setup_vm_run [OF v k, of e] by simp
      with Some show ?thesis by (simp add: env_alloc_def layout)
    next
      case (Cons p ys)
      from env_alloc_run [OF v [unfolded Cons] k Some] show ?thesis by blast
    qed
  qed
qed

lemma env_alloc_space:
  assumes inv: "kern_inv base k s" and run: "env_alloc s par = Some (0, Some e, s')"
  shows "aspace s' = (aspace s)(e := \<lambda>_. None)"
proof -
  obtain fl where v: "vm_inv base (live_dirs s) fl s" and k: "kern_template base k s"
    using inv by (auto simp: kern_inv_def mem_ok_def)
  note S = env_alloc_sel [OF run]
  obtain p ys where fl: "fl = p # ys"
  proof (cases fl)
    case Nil
    then have "env_setup_vm s e = Some (- E_NO_MEM, s)"
      using env_setup_vm_run [OF v k, of e] by simp
    with S(15) show ?thesis by (simp add: layout)
  qed auto
  note v' = v [unfolded fl]
  obtain A: "env_pgdir (envs s' e) = kpage p" "\<And>va. user_pdx (PDX va) \<Longrightarrow> vmap s' p va = None"
    "\<And>d va. d \<in> live_dirs s \<Longrightarrow> user_pdx (PDX va) \<Longrightarrow> vmap s' d va = vmap s d va"
    using env_alloc_run [OF v' k S(1), of par] run by auto
  have p: "dir_frame s' e = p"
    using dir_frame_kpage [OF A(1)] vm_free_page(1) [OF v'] by simp
  have "aspace s' y pn = ((aspace s)(e := \<lambda>_. None)) y pn" for y pn
  proof (cases "y = e")
    case True
    then show ?thesis
      using p A(2) PGNUM2LA_user(2) by (simp add: aspace_def)
  next
    case False
    then have "live s' y = live s y" "dir_frame s' y = dir_frame s y"
      using S(3) by (simp_all add: live_def dir_frame_def)
    then show ?thesis
      using False A(3) dir_frame_live(1) [OF inv, of y] PGNUM2LA_user(2) by (simp add: aspace_def)
  qed
  then show ?thesis by (intro ext)
qed

lemma env_alloc_exact:
  assumes "kern_inv base k s"
  shows "case env_free_list s of
      None \<Rightarrow> env_alloc s par = Some (- E_NO_FREE_ENV, None, s)
    | Some e \<Rightarrow> if page_free_list s = None then env_alloc s par = Some (- E_NO_MEM, None, s)
                else \<exists>s'. env_alloc s par = Some (0, Some e, s')"
proof (cases "env_free_list s")
  case None
  then show ?thesis by (simp add: env_alloc_def)
next
  case (Some e)
  obtain fl where vm: "vm_inv base (live_dirs s) fl s" and k: "kern_template base k s"
    using assms by (auto simp: kern_inv_def mem_ok_def)
  show ?thesis
  proof (cases fl)
    case Nil
    then have "page_free_list s = None"
      using vm_invD(2) [OF vm] by (simp add: free_list_def)
    with Some show ?thesis
      by (simp add: env_alloc_def env_setup_vm_def page_alloc_def layout)
  next
    case (Cons p ys)
    then have "page_free_list s \<noteq> None"
      using vm_invD(2) [OF vm] by (simp add: free_list_def)
    moreover have "\<exists>s'. env_alloc s par = Some (0, Some e, s')"
      using env_alloc_run [OF vm [unfolded Cons] k Some, of par] by blast
    ultimately show ?thesis
      using Some by auto
  qed
qed

text \<open>C19. \<^verbatim>\<open>sys_exofork\<close>, called by an environment whose identifier names its own slot, never panics. It fails with
  \<^verbatim>\<open>-E_NO_FREE_ENV\<close> exactly when the table is full and with \<^verbatim>\<open>-E_NO_MEM\<close> exactly when it is not and no page is free, without a
  change to the state. Otherwise it takes the first free environment and returns its identifier, which is positive: the child
  has the registers of the caller with 0 as the result of its own call, is not runnable, has the caller as parent, and its
  address space is empty below \<^verbatim>\<open>UTOP\<close>; no other environment and no other address space has changed.\<close>

theorem sys_exofork_correct:
  assumes "kern_inv base k s" "curenv s = Some c" "live s c" "unat (ENVX (env_id (envs s c))) = c"
  shows "\<exists>r s'. sys_exofork s = Some (Ret r, s') \<and> kern_inv base k s' \<and>
    (case env_free_list s of
       None \<Rightarrow> r = - E_NO_FREE_ENV \<and> s' = s
     | Some e \<Rightarrow>
         if page_free_list s = None then r = - E_NO_MEM \<and> s' = s
         else 0 < r \<and> \<not> live s e \<and> live s' e \<and> r = sint (env_id (envs s' e)) \<and> env_status (envs s' e) = ENV_NOT_RUNNABLE \<and>
           env_parent_id (envs s' e) = env_id (envs s c) \<and>
           env_tf (envs s' e) = (env_tf (envs s c))\<lparr>tf_regs := (tf_regs (env_tf (envs s c)))\<lparr>reg_eax := 0\<rparr>\<rparr> \<and>
           (\<forall>y. y \<noteq> e \<longrightarrow> envs s' y = envs s y) \<and> aspace s' = (aspace s)(e := \<lambda>_. None))"
proof (cases "env_free_list s")
  case None
  then show ?thesis
    using env_alloc_exact [OF assms(1), of "env_id (envs s c)"] assms(1,2) by (simp add: sys_exofork_def layout)
next
  case h: (Some e)
  note inv = assms(1) and c = assms(2)
  show ?thesis
  proof (cases "page_free_list s = None")
    case True
    then show ?thesis
      using env_alloc_exact [OF inv, of "env_id (envs s c)"] inv c h by (simp add: sys_exofork_def layout)
  next
    case mem: False
    then obtain s1 where a: "env_alloc s (env_id (envs s c)) = Some (0, Some e, s1)"
      using env_alloc_exact [OF inv, of "env_id (envs s c)"] h by auto
    have e: "live s1 e" "\<not> live s e" "kern_inv base k s1" "e < NENV"
      using kern_inv_env_alloc [OF inv a] by auto
    note S = env_alloc_sel [OF a] and N = new_env_id_facts [OF e(4) [unfolded NENV_def], of "env_id (envs s e)"]
    have ce: "c \<noteq> e"
      using assms(3) e(2) by auto
    have "unat (ENVX (env_id (envs s1 e))) = e"
      using S(4) N(1) e(4) by (simp add: unat_of_nat layout)
    then have nid: "env_id (envs s1 e) \<noteq> env_id (envs s c)"
      using assms(4) ce by auto
    let ?f = "\<lambda>v. v\<lparr>env_status := ENV_NOT_RUNNABLE, env_tf := (env_tf (envs s c))\<lparr>tf_regs := (tf_regs (env_tf (envs s c)))\<lparr>reg_eax := 0\<rparr>\<rparr>\<rparr>"
    let ?s' = "upd_env e ?f s1"
    have run: "sys_exofork s = Some (Ret (sint (env_id (envs s1 e))), ?s')"
      using a c nid ce S(3) [of c] by (simp add: sys_exofork_def upd_env_def)
    have "env_same (envs s1 e) (?f (envs s1 e))"
      using e(1) by (simp add: env_same_def live_def layout)
    note K = upd_env_keeps [where f = ?f, OF e(3) this]
    have "aspace ?s' = (aspace s)(e := \<lambda>_. None)"
      using K(4) env_alloc_space [OF inv a] by simp
    moreover have "0 < sint (env_id (envs s1 e))"
      using S(4) N(2) by simp
    ultimately show ?thesis
      unfolding h option.case if_not_P [OF mem]
      using run K(1,2) e(1,2) S(3,5) by (intro exI [of _ "sint (env_id (envs s1 e))"] exI [of _ ?s']) auto
  qed
qed

theorem sys_exofork_correct_witness:
  "\<exists>r s'. sys_exofork demo_run = Some (Ret r, s') \<and> kern_inv demo_base 0 s' \<and> 0 < r \<and> live s' 1 \<and>
     env_parent_id (envs s' 1) = 0x1000"
proof -
  have "page_free_list demo_run \<noteq> None"
    using vm_invD(2) [OF demo_run_vm_inv] by (simp add: free_list_def)
  then show ?thesis
    using sys_exofork_correct [OF demo_run_kern_inv demo_run_sel(6)] demo_run_live(1) by (fastforce simp: ENVX_def layout)
qed

end
