(* ===== verification/Trap.thy ===== *)
theory Trap
  imports Syscall_Inv
begin

section \<open>Traps\<close>

text \<open>
  \<^verbatim>\<open>kern/trap.c\<close>: the interrupt descriptor table, the task state of each processor, the dispatch of a trap and the
  delivery of a page fault to the user's handler. The table of entry points (\<^verbatim>\<open>vects\<close>, written in assembler),
  the address of the processor's task state and the value of \<^verbatim>\<open>cr2\<close> are arguments. The kernel monitor never
  returns (no command of it asks for that), so entering it is the end \<open>Monitor\<close> of the run. Diagnostic
  messages are left out.
\<close>

subsection \<open>Set-up\<close>

definition T_BRKPT :: u32 where [layout]: "T_BRKPT = 3"
definition T_PGFLT :: u32 where [layout]: "T_PGFLT = 14"
definition T_SYSCALL :: u32 where [layout]: "T_SYSCALL = 48"
definition IDT_ENTRIES :: nat where [layout]: "IDT_ENTRIES = 256"

record desctabs =
  idt :: "nat \<Rightarrow> Gatedesc"
  gdt :: "nat \<Rightarrow> Segdesc"
  task_reg :: u16
  idt_loaded :: bool

definition trap_init_percpu :: "u32 \<Rightarrow> kstate \<Rightarrow> desctabs \<Rightarrow> (kstate \<times> desctabs) option" where
  "trap_init_percpu ts_addr s t =
     (let c = cpunum s; id = cpu_id (cpus s c)
      in if unat id \<noteq> c then None
         else if ts_ss0 (cpu_ts (cpus s c)) \<noteq> 0 then Some (s, t)
         else let i = unat (drop_bit 3 GD_TSS0) + unat id;
                  ts = \<lparr>ts_esp0 = KSTACKTOP - (KSTKSIZE + KSTKGAP) * ucast id, ts_ss0 = GD_KD\<rparr>
              in Some (s\<lparr>cpus := (cpus s)(c := (cpus s c)\<lparr>cpu_ts := ts\<rparr>)\<rparr>,
                       t\<lparr>gdt := (gdt t)(i := (SEG16 STS_T32A ts_addr 104 0)\<lparr>sd_s := 0\<rparr>),
                         task_reg := push_bit 3 (drop_bit 3 GD_TSS0 + ucast id), idt_loaded := True\<rparr>))"

definition trap_init :: "(nat \<Rightarrow> u32) \<Rightarrow> u32 \<Rightarrow> kstate \<Rightarrow> desctabs \<Rightarrow> (kstate \<times> desctabs) option" where
  "trap_init vects ts_addr s t =
     (let idt1 = fold (\<lambda>i d. d(i := SETGATE False GD_KT (vects i) DPL_KERN)) [0..<IDT_ENTRIES] (idt t);
          idt2 = idt1(unat T_SYSCALL := SETGATE False GD_KT (vects (unat T_SYSCALL)) DPL_USER);
          idt3 = idt2(unat T_BRKPT := SETGATE False GD_KT (vects (unat T_BRKPT)) DPL_USER)
      in trap_init_percpu ts_addr s (t\<lparr>idt := idt3\<rparr>))"

subsection \<open>Page faults\<close>

definition bytes32 :: "u32 \<Rightarrow> u8 list" where
  "bytes32 v = [ucast v, ucast (drop_bit 8 v), ucast (drop_bit 16 v), ucast (drop_bit 24 v)]"

text \<open>The stack grows down: \<open>push\<close> lowers the stack pointer and stores through the current page directory.\<close>

definition push :: "u32 \<Rightarrow> u32 \<Rightarrow> kstate \<Rightarrow> (u32 \<times> kstate) option" where
  "push esp element s =
     do { s1 \<leftarrow> va_write_list (esp - 4) (bytes32 element) s; Some (esp - 4, s1) }"

definition regs_words :: "PushRegs \<Rightarrow> u32 list" where
  "regs_words r = [reg_edi r, reg_esi r, reg_ebp r, reg_oesp r, reg_ebx r, reg_edx r, reg_ecx r, reg_eax r]"

definition UTRAP_SIZE :: u32 where [layout]: "UTRAP_SIZE = 52"
definition RCSV_UTRAP_SIZE :: u32 where [layout]: "RCSV_UTRAP_SIZE = UTRAP_SIZE + 4"

text \<open>The stores that build the user trap frame, from its last field to its first.\<close>

definition push_utf :: "Trapframe \<Rightarrow> u32 \<Rightarrow> u32 \<Rightarrow> kstate \<Rightarrow> (u32 \<times> kstate) option" where
  "push_utf tf fault_va esp s =
     do {
       (esp1, s1) \<leftarrow> push esp (tf_esp tf) s;
       (esp2, s2) \<leftarrow> push esp1 (tf_eflags tf) s1;
       (esp3, s3) \<leftarrow> push esp2 (tf_eip tf) s2;
       s4 \<leftarrow> va_write_list (esp3 - 32) (concat (map bytes32 (regs_words (tf_regs tf)))) s3;
       (esp5, s5) \<leftarrow> push (esp3 - 32) (tf_err tf) s4;
       push esp5 fault_va s5
     }"

definition on_uxstack :: "u32 \<Rightarrow> bool" where
  "on_uxstack esp \<longleftrightarrow> esp < UXSTACKTOP \<and> UXSTACKBASE \<le> esp"

definition deliver_fault :: "Trapframe \<Rightarrow> u32 \<Rightarrow> nat \<Rightarrow> kstate \<Rightarrow> (unit flow \<times> kstate) option" where
  "deliver_fault tf fault_va c s =
     (if on_uxstack (tf_esp tf) \<and> tf_esp tf - RCSV_UTRAP_SIZE < UXSTACKBASE then None
      else do {
        (esp, s1) \<leftarrow> (if on_uxstack (tf_esp tf) then push (tf_esp tf) 0 s else Some (UXSTACKTOP, s));
        (esp', s2) \<leftarrow> push_utf tf fault_va esp s1;
        let s3 = upd_env c (\<lambda>v. v\<lparr>env_tf := (env_tf v)\<lparr>tf_esp := esp', tf_eip := env_pgfault_upcall v\<rparr>\<rparr>) s2;
        s4 \<leftarrow> env_run s3 c;
        Some (Leave Run, s4)
      })"

definition page_fault_handler :: "Trapframe \<Rightarrow> u32 \<Rightarrow> kstate \<Rightarrow> (unit flow \<times> kstate) option" where
  "page_fault_handler tf fault_va s =
     (if tf_cs tf AND 3 = 0 then None
      else do {
        c \<leftarrow> curenv s;
        _ \<leftarrow> pgdir_walk s (env_pgdir (envs s c)) fault_va False;
        (if env_pgfault_upcall (envs s c) = 0 then env_destroy s c
         else do {
           (f1, s1) \<leftarrow> user_mem_assert s c (env_pgfault_upcall (envs s c)) PGSIZE (PTE_U OR PTE_P);
           (case f1 of
              Leave x \<Rightarrow> Some (Leave x, s1)
            | Ret _ \<Rightarrow> do {
                (f2, s2) \<leftarrow> user_mem_assert s1 c (UXSTACKTOP - UTRAP_SIZE) UTRAP_SIZE (PTE_U OR PTE_P OR PTE_W);
                (case f2 of Leave x \<Rightarrow> Some (Leave x, s2) | Ret _ \<Rightarrow> deliver_fault tf fault_va c s2)
              })
         })
      })"

subsection \<open>Dispatch\<close>

definition IRQ_OFFSET_HANDLE_MAX :: u32 where [layout]: "IRQ_OFFSET_HANDLE_MAX = 47"
definition IRQ_TIMER :: u32 where [layout]: "IRQ_TIMER = 0"
definition IRQ_KBD :: u32 where [layout]: "IRQ_KBD = 1"
definition IRQ_SERIAL :: u32 where [layout]: "IRQ_SERIAL = 4"
definition IRQ_SPURIOUS :: u32 where [layout]: "IRQ_SPURIOUS = 7"
definition IRQ_IDE :: u32 where [layout]: "IRQ_IDE = 14"
definition IRQ_ERROR :: u32 where [layout]: "IRQ_ERROR = 19"

definition breakpoint_handler :: "kstate \<Rightarrow> (unit flow \<times> kstate) option" where
  "breakpoint_handler s = Some (Leave Monitor, s)"

text \<open>\<open>home\<close> is the environment whose record holds the frame, \<open>None\<close> for a frame on the kernel's stack.\<close>

definition set_eax :: "nat option \<Rightarrow> int \<Rightarrow> kstate \<Rightarrow> kstate" where
  "set_eax home r s =
     (case home of
        None \<Rightarrow> s
      | Some e \<Rightarrow> upd_env e (\<lambda>v. v\<lparr>env_tf := (env_tf v)\<lparr>tf_regs := (tf_regs (env_tf v))\<lparr>reg_eax := word_of_int r\<rparr>\<rparr>\<rparr>) s)"

text \<open>On a timer interrupt the code calls \<^verbatim>\<open>lapic_eoi\<close> before the scheduler: one store to a register of the processor's own
  interrupt controller (a list of writes in the theory \<open>Mpconfig\<close>), which is not part of the kernel's state, so it is not a
  part of this step.\<close>

definition trap_dispatch :: "nat option \<Rightarrow> Trapframe \<Rightarrow> u32 \<Rightarrow> kstate \<Rightarrow> (unit flow \<times> kstate) option" where
  "trap_dispatch home tf cr2 s =
     (let n = tf_trapno tf; r = tf_regs tf
      in if IRQ_OFFSET + IRQ_TIMER \<le> n \<and> n \<le> IRQ_OFFSET_HANDLE_MAX
         then (if n - IRQ_OFFSET = IRQ_TIMER then do { (x, s1) \<leftarrow> sched_yield s; Some (Leave x, s1) }
               else if n - IRQ_OFFSET \<in> {IRQ_KBD, IRQ_SERIAL, IRQ_SPURIOUS, IRQ_IDE, IRQ_ERROR} then Some (Ret (), s)
               else None)
         else if n = T_PGFLT then page_fault_handler tf cr2 s
         else if n = T_BRKPT then breakpoint_handler s
         else if n = T_SYSCALL then do {
           (f, s1) \<leftarrow> syscall s (reg_eax r) (reg_edx r) (reg_ecx r) (reg_ebx r) (reg_edi r) (reg_esi r);
           Some (case f of Ret v \<Rightarrow> (Ret (), set_eax home v s1) | Leave x \<Rightarrow> (Leave x, s1))
         }
         else if tf_cs tf = GD_KT then None
         else do { c \<leftarrow> curenv s; env_destroy s c })"

text \<open>The end of \<^verbatim>\<open>trap\<close>: back to the current environment when it is still running, to the scheduler otherwise.\<close>

definition trap_return :: "unit flow \<times> kstate \<Rightarrow> (exit \<times> kstate) option" where
  "trap_return = (\<lambda>(f, s).
     case f of
       Leave x \<Rightarrow> Some (x, s)
     | Ret _ \<Rightarrow> (case curenv s of
           None \<Rightarrow> sched_yield s
         | Some c \<Rightarrow> if env_status (envs s c) = ENV_RUNNING then do { s1 \<leftarrow> env_run s c; Some (Run, s1) }
                     else sched_yield s))"

text \<open>\<open>irq_on\<close> is the interrupt flag of the processor, which the kernel asserts to be clear in kernel mode. The test
  \<^verbatim>\<open>if (panicstr) hlt\<close> at the start of \<^verbatim>\<open>trap\<close> is not there: a panic is the end of the run in the model, so no state has
  \<^verbatim>\<open>panicstr\<close> set.\<close>

definition trap :: "Trapframe \<Rightarrow> u32 \<Rightarrow> bool \<Rightarrow> kstate \<Rightarrow> (exit \<times> kstate) option" where
  "trap tf cr2 irq_on s =
     (if tf_cs tf AND 3 = 3
      then do {
        s1 \<leftarrow> lock_kernel s;
        c \<leftarrow> curenv s1;
        (if env_status (envs s1 c) = ENV_DYING
         then do { s2 \<leftarrow> env_free s1 c; sched_yield (set_curenv None s2) }
         else do {
           r \<leftarrow> trap_dispatch (Some c) tf cr2 (upd_env c (\<lambda>v. v\<lparr>env_tf := tf\<rparr>) s1);
           trap_return r
         })
      }
      else if irq_on then None
      else do { r \<leftarrow> trap_dispatch None tf cr2 s; trap_return r })"

subsection \<open>The tables\<close>

lemma and_0xFFFF: "a AND 0xFFFF = take_bit 16 a" for a :: u32
proof -
  have "(0xFFFF :: u32) = mask 16"
    by (simp add: mask_eq_exp_minus_1)
  then show ?thesis
    by (simp add: take_bit_eq_mask)
qed

lemma gate_offset_SETGATE [simp]: "gate_offset (SETGATE tr sel off dpl) = off"
  by (rule bit_word_eqI) (auto simp: gate_offset_def SETGATE_def and_0xFFFF bit_simps)

lemma seg_base_SEG16: "seg_base ((SEG16 type b lim dpl)\<lparr>sd_s := x\<rparr>) = b"
proof -
  have "a AND 0xFF = take_bit 8 a" for a :: u32
    by (simp add: take_bit_eq_mask mask_eq_exp_minus_1)
  moreover have "n - 16 < 8" if "bit b n" "\<not> bit b (24 + (n - 24))" for n
  proof (rule ccontr)
    assume "\<not> n - 16 < 8"
    then have "24 + (n - 24) = n" by arith
    with that show False by simp
  qed
  ultimately show ?thesis
    by (intro bit_word_eqI) (auto simp: seg_base_def SEG16_def and_0xFFFF bit_simps)
qed

lemma SETGATE_sel [simp]:
  "gd_sel (SETGATE tr sel off dpl) = sel" "gd_p (SETGATE tr sel off dpl) = 1" "gd_dpl (SETGATE tr sel off dpl) = ucast dpl"
  "gd_type (SETGATE tr sel off dpl) = (if tr then STS_TG32 else STS_IG32)"
  by (simp_all add: SETGATE_def)

lemma fold_upd: "fold (\<lambda>i d. d(i := f i)) xs d j = (if j \<in> set xs then f j else d j)"
  by (induction xs arbitrary: d) auto

lemma trap_init_percpu_run:
  assumes "unat (cpu_id (cpus s (cpunum s))) = cpunum s"
  shows "\<exists>s' t'. trap_init_percpu a s t = Some (s', t') \<and> idt t' = idt t"
  using assms by (simp add: trap_init_percpu_def Let_def)

text \<open>C35. After \<^verbatim>\<open>trap_init\<close> every one of the 256 vectors has a present interrupt gate (which disables interrupts)
  into the kernel's code segment with the entry point of its own vector, and only the breakpoint and the system
  call may be raised by an instruction of user code.\<close>

theorem trap_init_gates:
  assumes "unat (cpu_id (cpus s (cpunum s))) = cpunum s" "i < IDT_ENTRIES"
  shows "\<exists>s' t'. trap_init vects a s t = Some (s', t') \<and> gate_offset (idt t' i) = vects i \<and> gd_sel (idt t' i) = GD_KT \<and>
    gd_p (idt t' i) = 1 \<and> gd_type (idt t' i) = STS_IG32 \<and>
    gd_dpl (idt t' i) = (if i = unat T_SYSCALL \<or> i = unat T_BRKPT then ucast DPL_USER else ucast DPL_KERN)"
proof -
  let ?d = "(fold (\<lambda>i d. d(i := SETGATE False GD_KT (vects i) DPL_KERN)) [0..<IDT_ENTRIES] (idt t))
      (unat T_SYSCALL := SETGATE False GD_KT (vects (unat T_SYSCALL)) DPL_USER,
       unat T_BRKPT := SETGATE False GD_KT (vects (unat T_BRKPT)) DPL_USER)"
  obtain s' t' where run: "trap_init_percpu a s (t\<lparr>idt := ?d\<rparr>) = Some (s', t')" "idt t' = ?d"
    using trap_init_percpu_run [OF assms(1), of a "t\<lparr>idt := ?d\<rparr>"] by auto
  have "trap_init vects a s t = Some (s', t')"
    using run(1) by (simp add: trap_init_def Let_def)
  moreover have "i \<in> set [0..<IDT_ENTRIES]"
    using assms(2) by simp
  ultimately show ?thesis
    unfolding run(2) by (intro exI [of _ s'] exI [of _ t']) (simp add: run(2) fold_upd)
qed

definition demo_tabs :: desctabs where
  "demo_tabs = \<lparr>idt = (\<lambda>_. SETGATE False 0 0 0), gdt = (\<lambda>_. SEG16 0 0 0 0), task_reg = 0, idt_loaded = False\<rparr>"

theorem trap_init_gates_witness:
  "\<exists>s' t'. trap_init (\<lambda>i. 0xF0100000 + word_of_nat i) 0xF0200000 demo demo_tabs = Some (s', t') \<and>
     gate_offset (idt t' 14) = 0xF010000E \<and> gd_dpl (idt t' 14) = 1"
proof -
  have "unat (cpu_id (cpus demo (cpunum demo))) = cpunum demo"
    by (simp add: demo_def)
  from trap_init_gates [OF this, of 14 "\<lambda>i. 0xF0100000 + word_of_nat i" "0xF0200000" demo_tabs] show ?thesis
    by (auto simp: layout)
qed

text \<open>The kernel stack that \<^verbatim>\<open>trap_init_percpu\<close> gives a processor starts where the layout has it, its task state
  segment is the one its task register selects, and the stacks of two processors, with the guard gap below each, do not
  overlap and lie in the 4 megabytes below \<^verbatim>\<open>KSTACKTOP\<close>.\<close>

theorem trap_init_percpu_stack:
  assumes "cpunum s < NCPU" "unat (cpu_id (cpus s (cpunum s))) = cpunum s" "ts_ss0 (cpu_ts (cpus s (cpunum s))) = 0"
  shows "\<exists>s' t'. trap_init_percpu a s t = Some (s', t') \<and>
    unat (ts_esp0 (cpu_ts (cpus s' (cpunum s)))) = unat KSTACKTOP - cpunum s * unat (KSTKSIZE + KSTKGAP) \<and>
    ts_ss0 (cpu_ts (cpus s' (cpunum s))) = GD_KD \<and> unat (drop_bit 3 (task_reg t')) = 5 + cpunum s \<and>
    sd_type (gdt t' (unat (drop_bit 3 (task_reg t')))) = ucast STS_T32A \<and> seg_base (gdt t' (unat (drop_bit 3 (task_reg t')))) = a \<and>
    (\<forall>c < cpunum s. unat (ts_esp0 (cpu_ts (cpus s' (cpunum s)))) + unat KSTKGAP \<le>
       unat KSTACKTOP - c * unat (KSTKSIZE + KSTKGAP) - unat KSTKSIZE) \<and>
    unat ULIM \<le> unat (ts_esp0 (cpu_ts (cpus s' (cpunum s)))) - unat (KSTKSIZE + KSTKGAP)"
proof -
  define c where "c = cpunum s"
  have "word_of_nat (unat (cpu_id (cpus s c))) = cpu_id (cpus s c)"
    by simp
  then have id: "cpu_id (cpus s c) = word_of_nat c"
    using assms(2) by (simp add: c_def)
  have "c = 0 \<or> c = 1 \<or> c = 2 \<or> c = 3 \<or> c = 4 \<or> c = 5 \<or> c = 6 \<or> c = 7"
    using assms(1) by (auto simp: c_def layout)
  then have w: "unat (KSTACKTOP - (KSTKSIZE + KSTKGAP) * ucast (word_of_nat c :: u8)) = unat KSTACKTOP - c * unat (KSTKSIZE + KSTKGAP)"
    "unat (drop_bit 3 (push_bit 3 (drop_bit 3 GD_TSS0 + ucast (word_of_nat c :: u8)) :: u16)) = 5 + c"
    "unat (drop_bit 3 GD_TSS0) + unat (word_of_nat c :: u8) = 5 + c"
    by (elim disjE; simp add: layout)+
  have "unat KSTACKTOP - c * unat (KSTKSIZE + KSTKGAP) + unat KSTKGAP \<le> unat KSTACKTOP - d * unat (KSTKSIZE + KSTKGAP) - unat KSTKSIZE"
    if "d < c" for d
    using that assms(1) by (simp add: layout c_def)
  moreover have "unat ULIM \<le> unat KSTACKTOP - c * unat (KSTKSIZE + KSTKGAP) - unat (KSTKSIZE + KSTKGAP)"
    using assms(1) by (simp add: layout c_def)
  ultimately show ?thesis
    using assms w id by (simp add: trap_init_percpu_def Let_def c_def seg_base_SEG16) (simp add: SEG16_def)
qed

theorem trap_init_percpu_stack_witness:
  "\<exists>s' t'. trap_init_percpu 0xF0200000 demo demo_tabs = Some (s', t') \<and> unat (ts_esp0 (cpu_ts (cpus s' 0))) = unat KSTACKTOP"
proof -
  have "unat (cpu_id (cpus demo (cpunum demo))) = cpunum demo" "ts_ss0 (cpu_ts (cpus demo (cpunum demo))) = 0"
    by (simp_all add: demo_def)
  from trap_init_percpu_stack [OF _ this, of "0xF0200000" demo_tabs] show ?thesis
    by (auto simp: layout)
qed

end
