(* ===== verification/Trap_Inv.thy ===== *)
theory Trap_Inv
  imports Trap
begin

section \<open>What the trap path guarantees\<close>

text \<open>
  The stores of the page fault handler go through the page tables of the faulting environment. This theory
  shows that such a store touches only a page of the user, so that every trap keeps the invariant of the
  kernel, and that the frame the handler builds is the one the user's handler expects.
\<close>

subsection \<open>Stores through user page tables\<close>

lemma entry_outside:
  assumes "f < 65536" "q < 65536" "f \<noteq> q" "unat i < 1024" "\<And>x. PTE_ADDR x \<noteq> page2pa q \<Longrightarrow> pmem s' x = pmem s x"
  shows "entry s' f i = entry s f i"
proof -
  have "PTE_ADDR (slot (page2pa f) i + word_of_nat j) = page2pa f" if "j < 4" for j
    using slot_page [of "page2pa f" i j] assms(1,4) that by simp
  moreover have "page2pa f \<noteq> page2pa q"
    using page2pa_inject assms(1-3) by simp
  ultimately have b: "pmem s' (slot (page2pa f) i + word_of_nat j) = pmem s (slot (page2pa f) i + word_of_nat j)" if "j < 4" for j
    using assms(5) that by simp
  show ?thesis
    using b [of 0] b [of 1] b [of 2] b [of 3] by (simp add: entry_def rd32_def)
qed

text \<open>A store into a page that is neither a directory nor a table.\<close>

lemma vm_inv_page_write:
  assumes inv: "vm_inv base D fl s" and q: "q \<notin> D" "tabset s D q = {}"
    and s': "s' = s\<lparr>pmem := m\<rparr>" and other: "\<And>f i. f < 65536 \<Longrightarrow> f \<noteq> q \<Longrightarrow> unat i < 1024 \<Longrightarrow> entry s' f i = entry s f i"
  shows "vm_inv base D fl s'" "same_ptes s s' D" "base q = 0 \<Longrightarrow> kern_same base s s'"
proof -
  have dir: "entry s' d i = entry s d i" if "d \<in> D" "user_pdx i" for d i
    using other [of d i] vm_dir(1) [OF inv that(1)] q(1) that user_pdx_less by auto
  have pte: "pte s' d i j = pte s d i j" if "d \<in> D" "user_pdx i" "unat j < 1024" for d i j
  proof (cases "present (entry s d i)")
    case True
    with that q(2) have "frame (entry s d i) \<noteq> q" by (auto simp: tabset_def)
    then show ?thesis
      using other [OF vm_table(1) [OF inv that(1,2) True] _ that(3)] dir that by (simp add: pte_def)
  qed (use dir that in \<open>simp add: pte_def\<close>)
  then show sp: "same_ptes s s' D"
    by (simp add: same_ptes_def)
  have tab: "tabset s' D = tabset s D"
    using dir by (auto simp: tabset_def fun_eq_iff)
  have "pages_wf s' = pages_wf s" "free_list s' = free_list s" "npages s' = npages s" "pages s' = pages s"
    by (simp_all add: s' pages_wf_def free_list_def page_links_def fun_eq_iff)
  then show "vm_inv base D fl s'"
    unfolding vm_inv_def tab mapset_same_ptes [OF sp] using vm_invD [OF inv] dir pte by auto
  show "kern_same base s s'" if "base q = 0"
    unfolding kern_same_def using other that by metis
qed

lemma vm_inv_user_write:
  assumes inv: "vm_inv base D fl s" and q: "q < 65536" "q \<notin> D" "tabset s D q = {}"
    and s': "s' = s\<lparr>pmem := m\<rparr>" and out: "\<And>x. PTE_ADDR x \<noteq> page2pa q \<Longrightarrow> m x = pmem s x"
  shows "vm_inv base D fl s'" "same_ptes s s' D" "base q = 0 \<Longrightarrow> kern_same base s s'"
proof -
  have other: "entry s' f i = entry s f i" if "f < 65536" "f \<noteq> q" "unat i < 1024" for f i
    by (rule entry_outside [OF that(1) q(1) that(2,3)]) (simp add: s' out)
  show "vm_inv base D fl s'" "same_ptes s s' D" "base q = 0 \<Longrightarrow> kern_same base s s'"
    using vm_inv_page_write [OF inv q(2,3) s' other] by blast+
qed

lemma hw_translate_vmap:
  assumes "cr3 s = page2pa d" "d < 65536" "hw_translate s va w = Some pa"
  shows "\<exists>e. vmap s d va = Some e \<and> pa = PTE_ADDR e OR PGOFF va \<and> PTE_ADDR pa = page2pa (frame e)"
proof -
  have c: "PTE_ADDR (cr3 s) = page2pa d"
    using assms(1,2) by (simp add: word_unat_eq_iff unat_PTE_ADDR unat_page2pa)
  have f: "PTE_ADDR x = page2pa (frame x)" for x
    by (simp add: frame_def page2pa_PGNUM)
  have *: "present (entry s d (PDX va))" "present (entry s (frame (entry s d (PDX va))) (PTX va))"
    "pa = PTE_ADDR (entry s (frame (entry s d (PDX va))) (PTX va)) OR PGOFF va"
    using assms(3) unfolding hw_translate_def c
    by (auto simp: Let_def entry_def f present_def and.commute split: if_splits)
  have "PTE_ADDR (PTE_ADDR x OR PGOFF va) = PTE_ADDR x" for x
    by (rule bit_word_eqI) (auto simp: PTE_ADDR_shift PGOFF_def and_0xFFF bit_simps)
  with * show ?thesis
    by (simp add: vmap_def pte_def f)
qed

text \<open>What stays when the kernel stores into a user page with the directory of \<open>c\<close> loaded.\<close>

definition on_dir :: "kstate \<Rightarrow> nat \<Rightarrow> bool" where
  "on_dir s c \<longleftrightarrow> live s c \<and> cr3 s = page2pa (dir_frame s c)"

lemma kern_inv_user_write:
  assumes inv: "kern_inv base k s" and c: "on_dir s c" and va: "va < UTOP" and run: "va_write va b s = Some s'"
  shows "kern_inv base k s'" "mm_frame s s'" "on_dir s' c"
proof -
  obtain pa where pa: "hw_translate s va True = Some pa" "s' = s\<lparr>pmem := (pmem s)(pa := b)\<rparr>"
    using run by (auto simp: va_write_def split: bind_splits)
  have live: "live s c" "cr3 s = page2pa (dir_frame s c)"
    using c by (auto simp: on_dir_def)
  note D = dir_frame_live [OF inv live(1)]
  obtain fl where vm: "vm_inv base (live_dirs s) fl s"
    using kern_inv_vm [OF inv] .
  have "dir_frame s c < 65536"
    using vm_dir(1) [OF vm D(1)] .
  from hw_translate_vmap [OF live(2) this pa(1)] obtain e where
    e: "vmap s (dir_frame s c) va = Some e" "PTE_ADDR pa = page2pa (frame e)" by blast
  have ok: "mem_ok base k (live_dirs s) s"
    using inv by (simp add: kern_inv_def)
  have p: "present e" "e = pte s (dir_frame s c) (PDX va) (PTX va)"
    using e(1) by (simp_all add: vmap_eq_Some)
  note M = vm_mapped [OF vm D(1) below_UTOP [OF va] PTX_less p(1) [unfolded p(2)], folded p(2)]
  have b: "base (frame e) = 0"
    using ok D(1) below_UTOP [OF va] e(1) unfolding mem_ok_def mapset_empty_iff by blast
  have "frame e < 65536"
    using M(1) vm_invD(9) [OF vm] by simp
  moreover have "((pmem s)(pa := b)) x = pmem s x" if "PTE_ADDR x \<noteq> page2pa (frame e)" for x
    using that e(2) by auto
  ultimately have V: "vm_inv base (live_dirs s) fl s'" "same_ptes s s' (live_dirs s)" "kern_same base s s'"
    using vm_inv_user_write [OF vm _ M(2,3) pa(2)] b by blast+
  show mm: "mm_frame s s'"
    by (simp add: pa(2) mm_frame_def)
  show "kern_inv base k s'"
    by (rule kern_inv_mm [OF inv mm mem_ok_same_ptes [OF ok V mm]])
  show "on_dir s' c"
    using c by (simp add: on_dir_def pa(2) live_def dir_frame_def)
qed

lemma kern_inv_write_list:
  assumes "kern_inv base k s" "on_dir s c" "unat va + length bs \<le> unat UTOP" "va_write_list va bs s = Some s'"
  shows "kern_inv base k s' \<and> mm_frame s s' \<and> on_dir s' c"
  using assms
proof (induction bs arbitrary: va s)
  case (Cons b bs)
  obtain s1 where s1: "va_write va b s = Some s1" "va_write_list (va + 1) bs s1 = Some s'"
    using Cons.prems(4) by (auto split: bind_splits)
  have va: "va < UTOP"
    using Cons.prems(3) by (simp add: word_less_nat_alt)
  note W = kern_inv_user_write [OF Cons.prems(1,2) va s1(1)]
  have "unat (va + 1) \<le> unat va + 1"
    by (metis add.commute le_add2 plus_1_eq_Suc unat_1 unat_plus_simple unat_word_ariths(1) mod_less_eq_dividend)
  then have "unat (va + 1) + length bs \<le> unat UTOP"
    using Cons.prems(3) by simp
  from Cons.IH [OF W(1,3) this s1(2)] W(2) show ?case
    using mm_frame_trans by blast
qed auto

lemma length_bytes32 [simp]: "length (bytes32 v) = 4"
  by (simp add: bytes32_def)

lemma length_regs_bytes [simp]: "length (concat (map bytes32 (regs_words r))) = 32"
  by (simp add: regs_words_def)

lemma kern_inv_push:
  assumes "kern_inv base k s" "on_dir s c" "4 \<le> unat esp" "unat esp \<le> unat UTOP" "push esp v s = Some (esp', s')"
  shows "kern_inv base k s' \<and> mm_frame s s' \<and> on_dir s' c \<and> unat esp' = unat esp - 4"
proof -
  have u: "unat (esp - 4) = unat esp - 4"
    using assms(3) by (simp add: unat_sub word_le_nat_alt)
  have w: "va_write_list (esp - 4) (bytes32 v) s = Some s'" "esp' = esp - 4"
    using assms(5) by (auto simp: push_def split: bind_splits)
  show ?thesis
    using kern_inv_write_list [OF assms(1,2) _ w(1)] u w(2) assms(3,4) by simp
qed

lemma kern_inv_push_utf:
  assumes "kern_inv base k s" "on_dir s c" "52 \<le> unat esp" "unat esp \<le> unat UTOP" "push_utf tf va esp s = Some (esp', s')"
  shows "kern_inv base k s' \<and> mm_frame s s' \<and> on_dir s' c"
proof -
  obtain e1 s1 e2 s2 e3 s3 s4 e5 s5 where
    p: "push esp (tf_esp tf) s = Some (e1, s1)" "push e1 (tf_eflags tf) s1 = Some (e2, s2)" "push e2 (tf_eip tf) s2 = Some (e3, s3)"
      "va_write_list (e3 - 32) (concat (map bytes32 (regs_words (tf_regs tf)))) s3 = Some s4"
      "push (e3 - 32) (tf_err tf) s4 = Some (e5, s5)" "push e5 va s5 = Some (esp', s')"
    using assms(5) by (auto simp: push_utf_def split: bind_splits)
  have 1: "kern_inv base k s1" "mm_frame s s1" "on_dir s1 c" "unat e1 = unat esp - 4"
    using kern_inv_push [OF assms(1,2) _ assms(4) p(1)] assms(3) by simp_all
  have 2: "kern_inv base k s2" "mm_frame s1 s2" "on_dir s2 c" "unat e2 = unat esp - 8"
    using kern_inv_push [OF 1(1,3) _ _ p(2)] 1(4) assms(3,4) by simp_all
  have 3: "kern_inv base k s3" "mm_frame s2 s3" "on_dir s3 c" "unat e3 = unat esp - 12"
    using kern_inv_push [OF 2(1,3) _ _ p(3)] 2(4) assms(3,4) by simp_all
  then have u4: "unat (e3 - 32) = unat esp - 44"
    using assms(3) by (simp add: unat_sub word_le_nat_alt)
  have 4: "kern_inv base k s4" "mm_frame s3 s4" "on_dir s4 c"
    using kern_inv_write_list [OF 3(1,3) _ p(4)] u4 assms(3,4) by simp_all
  have 5: "kern_inv base k s5" "mm_frame s4 s5" "on_dir s5 c" "unat e5 = unat esp - 48"
    using kern_inv_push [OF 4(1,3) _ _ p(5)] u4 assms(3,4) by simp_all
  have 6: "kern_inv base k s'" "mm_frame s5 s'" "on_dir s' c"
    using kern_inv_push [OF 5(1,3) _ _ p(6)] 5(4) assms(3,4) by simp_all
  have "mm_frame s s'"
    by (intro mm_frame_trans [OF 1(2)] mm_frame_trans [OF 2(2)] mm_frame_trans [OF 3(2)] mm_frame_trans [OF 4(2)] mm_frame_trans [OF 5(2)] 6(2))
  with 6 show ?thesis by simp
qed

lemma kern_inv_deliver_fault:
  assumes inv: "kern_inv base k s" and c: "on_dir s c" and run: "deliver_fault tf va c s = Some (f, s')"
  shows "kern_inv base k s'"
proof -
  obtain esp s1 esp' s2 s4 where
    p: "(if on_uxstack (tf_esp tf) then push (tf_esp tf) 0 s else Some (UXSTACKTOP, s)) = Some (esp, s1)"
      "push_utf tf va esp s1 = Some (esp', s2)"
      "env_run (upd_env c (\<lambda>v. v\<lparr>env_tf := (env_tf v)\<lparr>tf_esp := esp', tf_eip := env_pgfault_upcall v\<rparr>\<rparr>) s2) c = Some s4" "s' = s4"
      and nu: "\<not> (on_uxstack (tf_esp tf) \<and> tf_esp tf - RCSV_UTRAP_SIZE < UXSTACKBASE)"
    using run by (auto simp: deliver_fault_def Let_def split: bind_splits if_splits)
  have e: "kern_inv base k s1 \<and> mm_frame s s1 \<and> on_dir s1 c \<and> 52 \<le> unat esp \<and> unat esp \<le> unat UTOP"
  proof (cases "on_uxstack (tf_esp tf)")
    case True
    then have u: "unat (tf_esp tf) \<le> unat UTOP" "unat UXSTACKBASE \<le> unat (tf_esp tf)"
      by (auto simp: on_uxstack_def word_le_nat_alt word_less_nat_alt layout)
    then have "4 \<le> unat (tf_esp tf)"
      by (simp add: layout)
    from kern_inv_push [OF inv c this u(1), of 0 esp s1] True p(1) u show ?thesis
      by (auto simp: layout)
  next
    case False
    with p(1) inv c show ?thesis by (auto simp: layout)
  qed
  with kern_inv_push_utf [OF _ _ _ _ p(2), of base k c] have 2: "kern_inv base k s2" "on_dir s2 c"
    by auto
  let ?f = "\<lambda>v. v\<lparr>env_tf := (env_tf v)\<lparr>tf_esp := esp', tf_eip := env_pgfault_upcall v\<rparr>\<rparr>"
  have 3: "kern_inv base k (upd_env c ?f s2)"
    by (rule kern_inv_upd_env [OF 2(1)]) (simp add: env_same_def)
  have "env_status (envs (upd_env c ?f s2) c) \<noteq> ENV_FREE"
    using 2(2) by (simp add: on_dir_def live_def)
  from env_run_same [OF p(3) this] 3 show ?thesis
    unfolding p(4) by (rule kern_inv_same)
qed

text \<open>\<^verbatim>\<open>user_mem_assert\<close> on the current environment either returns with memory as it was or does not return.\<close>

lemma user_mem_assert_curenv:
  assumes inv: "kern_inv base k s" and c: "curenv s = Some c" "live s c" and run: "user_mem_assert s c va len perm = Some (f, s')"
  shows "kern_inv base k s' \<and> (\<forall>u. f = Ret u \<longrightarrow> same_but_status s s' \<and> curenv s' = Some c \<and> cr3 s' = cr3 s \<and> envs s' = envs s)"
proof -
  obtain r s1 where ch: "user_mem_check s c va len (perm OR PTE_U) = Some (r, s1)"
    and rest: "(if r < 0 then env_destroy s1 c else Some (Ret (), s1)) = Some (f, s')"
    using run by (auto simp: user_mem_assert_def split: bind_splits)
  have "\<exists>a. s1 = s \<or> s1 = s\<lparr>user_mem_check_addr := a\<rparr>"
    using ch user_mem_loop_state unfolding user_mem_check_def by fastforce
  then have s1: "same_but_status s s1" "curenv s1 = Some c" "cr3 s1 = cr3 s" "envs s1 = envs s"
    using c(1) by (auto simp: same_but_status_def env_same_def curenv_def)
  have k1: "kern_inv base k s1" and l1: "live s1 c"
    using kern_inv_same [OF s1(1) inv] c(2) s1(4) by (simp_all add: live_def)
  show ?thesis
  proof (cases "r < 0")
    case True
    then have d: "env_destroy s1 c = Some (f, s')"
      using rest by simp
    obtain s2 where "env_free s1 c = Some s2" "cpus s2 = cpus s1" "cpunum s2 = cpunum s1"
      using kern_inv_env_free [OF k1 l1] by blast
    then have "f \<noteq> Ret u" for u
      using d s1(2) by (auto simp: env_destroy_def curenv_def split: bind_splits)
    then show ?thesis
      using kern_inv_env_destroy [OF k1 l1 d] by simp
  next
    case False
    with rest k1 s1 show ?thesis by simp
  qed
qed

subsection \<open>The invariant\<close>

lemma kern_inv_page_fault:
  assumes inv: "kern_inv base k s" and c: "curenv s = Some c" "on_dir s c" and run: "page_fault_handler tf va s = Some (f, s')"
  shows "kern_inv base k s'"
proof -
  have l: "live s c"
    using c(2) by (simp add: on_dir_def)
  show ?thesis
  proof (cases "env_pgfault_upcall (envs s c) = 0")
    case True
    then have "env_destroy s c = Some (f, s')"
      using run c(1) by (auto simp: page_fault_handler_def split: bind_splits if_splits)
    then show ?thesis
      by (rule kern_inv_env_destroy [OF inv l])
  next
    case False
    obtain f1 s1 where a1: "user_mem_assert s c (env_pgfault_upcall (envs s c)) PGSIZE (PTE_U OR PTE_P) = Some (f1, s1)"
      using run c(1) False by (auto simp: page_fault_handler_def split: bind_splits if_splits)
    note A1 = user_mem_assert_curenv [OF inv c(1) l a1]
    show ?thesis
    proof (cases f1)
      case (Leave x)
      with A1 a1 run c(1) False show ?thesis
        by (auto simp: page_fault_handler_def split: bind_splits if_splits)
    next
      case Ret1: (Ret u)
      with A1 have 1: "kern_inv base k s1" "curenv s1 = Some c" "cr3 s1 = cr3 s" "envs s1 = envs s" by auto
      have l1: "live s1 c"
        using l 1(4) by (simp add: live_def)
      obtain f2 s2 where a2: "user_mem_assert s1 c (UXSTACKTOP - UTRAP_SIZE) UTRAP_SIZE (PTE_U OR PTE_P OR PTE_W) = Some (f2, s2)"
        using run c(1) False a1 Ret1 by (auto simp: page_fault_handler_def split: bind_splits if_splits)
      note A2 = user_mem_assert_curenv [OF 1(1,2) l1 a2]
      show ?thesis
      proof (cases f2)
        case (Leave x)
        with A2 a1 a2 run c(1) False Ret1 show ?thesis
          by (auto simp: page_fault_handler_def split: if_splits bind_splits)
      next
        case (Ret u')
        with A2 have 2: "kern_inv base k s2" "cr3 s2 = cr3 s" "envs s2 = envs s"
          using 1 by auto
        have "on_dir s2 c"
          using c(2) 2(2,3) by (simp add: on_dir_def live_def dir_frame_def)
        moreover have "deliver_fault tf va c s2 = Some (f, s')"
          using a1 a2 run c(1) False Ret1 Ret by (auto simp: page_fault_handler_def split: if_splits bind_splits)
        ultimately show ?thesis
          using kern_inv_deliver_fault [OF 2(1)] by blast
      qed
    qed
  qed
qed

text \<open>The arguments that a system call takes from the frame of the trap: the two that the kernel leaves unchecked.\<close>

definition args_ok :: "Trapframe \<Rightarrow> bool" where
  "args_ok tf \<longleftrightarrow> (reg_eax (tf_regs tf) = SYS_page_map \<longrightarrow> unat (reg_esi (tf_regs tf)) < 4096) \<and>
     (reg_eax (tf_regs tf) = SYS_env_set_status \<longrightarrow> reg_ecx (tf_regs tf) \<noteq> ENV_FREE)"

lemma kern_inv_set_eax: "kern_inv base k s \<Longrightarrow> kern_inv base k (set_eax home r s)"
  by (cases home) (auto simp: set_eax_def env_same_def intro: kern_inv_upd_env)

lemma kern_inv_dispatch:
  assumes inv: "kern_inv base k s" and c: "curenv s = Some c" "on_dir s c" and low: "refs_low s"
    and args: "tf_trapno tf = T_SYSCALL \<Longrightarrow> args_ok tf" and run: "trap_dispatch home tf cr2 s = Some (f, s')"
  shows "kern_inv base k s'"
proof -
  have l: "live s c"
    using c(2) by (simp add: on_dir_def)
  have yield: "do { (x, s1) \<leftarrow> sched_yield s; Some (Leave x, s1) } = Some (f, s') \<Longrightarrow> kern_inv base k s'"
    using kern_inv_same [OF sched_yield_same inv] by (auto split: bind_splits)
  have same: "Some (g, s) = Some (f, s') \<Longrightarrow> kern_inv base k s'" for g
    using inv by simp
  have destroy: "do { c \<leftarrow> curenv s; env_destroy s c } = Some (f, s') \<Longrightarrow> kern_inv base k s'"
    using c(1) kern_inv_env_destroy [OF inv l] by simp
  have call: "kern_inv base k s'" if n: "tf_trapno tf = T_SYSCALL" and
    r: "do { (g, s1) \<leftarrow> syscall s (reg_eax (tf_regs tf)) (reg_edx (tf_regs tf)) (reg_ecx (tf_regs tf)) (reg_ebx (tf_regs tf))
           (reg_edi (tf_regs tf)) (reg_esi (tf_regs tf));
         Some (case g of Ret v \<Rightarrow> (Ret (), set_eax home v s1) | Leave x \<Rightarrow> (Leave x, s1)) } = Some (f, s')"
  proof -
    obtain g s1 where g: "syscall s (reg_eax (tf_regs tf)) (reg_edx (tf_regs tf)) (reg_ecx (tf_regs tf)) (reg_ebx (tf_regs tf))
        (reg_edi (tf_regs tf)) (reg_esi (tf_regs tf)) = Some (g, s1)"
      using r by (auto split: bind_splits)
    have "kern_inv base k s1"
      by (rule syscall_keeps [OF inv c(1) l low _ _ g]) (use args [OF n] in \<open>auto simp: args_ok_def\<close>)
    then show ?thesis
      using r g kern_inv_set_eax by (auto split: flow.splits)
  qed
  show ?thesis
    using run unfolding trap_dispatch_def Let_def breakpoint_handler_def
    by (elim if_SomeE) (erule yield same destroy call kern_inv_page_fault [OF inv c]; assumption | simp)+
qed

lemma kern_inv_trap_return:
  assumes "kern_inv base k s" "trap_return (f, s) = Some (x, s')"
  shows "kern_inv base k s'"
proof (cases f)
  case (Leave y)
  with assms show ?thesis by (simp add: trap_return_def)
next
  case (Ret u)
  then consider "sched_yield s = Some (x, s')" | c where "env_run s c = Some s'" "env_status (envs s c) = ENV_RUNNING"
    using assms(2) by (auto simp: trap_return_def split: option.splits if_splits bind_splits)
  then show ?thesis
  proof cases
    case 1
    then show ?thesis using kern_inv_same [OF sched_yield_same assms(1)] by blast
  next
    case (2 c)
    with env_run_same [OF 2(1)] kern_inv_same assms(1) show ?thesis by (simp add: layout)
  qed
qed

text \<open>C1. A trap from user mode that the kernel handles without panicking, whatever its cause (a system call, an
  interrupt, a page fault handed to the user's handler, an exception that kills the environment, a zombie that is
  reaped), keeps the invariant of the kernel, under two conditions that the code does not enforce. For a system call,
  \<open>args_ok\<close>: the permission of \<^verbatim>\<open>sys_page_map\<close> holds flags only and the status of \<^verbatim>\<open>sys_env_set_status\<close> is not
  \<^verbatim>\<open>ENV_FREE\<close>; without them the invariant can break. And \<open>refs_low\<close>: no page already has 65535 references, since
  one more wraps the 16-bit \<^verbatim>\<open>pp_ref\<close>.\<close>

theorem trap_kern_inv:
  assumes "kern_inv base k s" "tf_cs tf AND 3 = 3" "curenv s = Some c" "live s c" "cr3 s = page2pa (dir_frame s c)" "refs_low s"
    "tf_trapno tf = T_SYSCALL \<Longrightarrow> args_ok tf" "trap tf cr2 irq_on s = Some (x, s')"
  shows "kern_inv base k s'"
proof -
  obtain lk where lk: "lock_kernel s = Some (s\<lparr>kernel_lock := lk\<rparr>)"
    using assms(2,8) by (auto simp: trap_def lock_kernel_def split: bind_splits)
  let ?s = "s\<lparr>kernel_lock := lk\<rparr>"
  have inv: "kern_inv base k ?s"
    by (rule kern_inv_same [OF _ assms(1)]) (simp add: same_but_status_def env_same_def)
  have s: "curenv ?s = Some c" "live ?s c"
    using assms(3,4) by (simp_all add: curenv_def live_def)
  show ?thesis
  proof (cases "env_status (envs s c) = ENV_DYING")
    case True
    obtain s2 where s2: "env_free ?s c = Some s2" "kern_inv base k s2"
      using kern_inv_env_free [OF inv s(2)] by blast
    have "sched_yield (set_curenv None s2) = Some (x, s')"
      using assms(2,8) lk s s2(1) True by (simp add: trap_def)
    moreover have "same_but_status s2 (set_curenv None s2)"
      by (simp add: same_but_status_def env_same_def)
    ultimately show ?thesis
      using s2(2) kern_inv_same sched_yield_same by blast
  next
    case False
    let ?t = "upd_env c (\<lambda>v. v\<lparr>env_tf := tf\<rparr>) ?s"
    obtain f s1 where d: "trap_dispatch (Some c) tf cr2 ?t = Some (f, s1)" "trap_return (f, s1) = Some (x, s')"
      using assms(2,8) lk s False by (auto simp: trap_def split: bind_splits)
    have t: "kern_inv base k ?t" "curenv ?t = Some c" "refs_low ?t"
      using s(1) assms(6) by (auto intro!: kern_inv_upd_env [OF inv] simp: env_same_def refs_low_def)
    have "on_dir ?t c"
      using assms(4,5) by (simp add: on_dir_def live_def dir_frame_def)
    then show ?thesis
      using kern_inv_trap_return [OF kern_inv_dispatch [OF t(1,2) _ t(3) assms(7) d(1)] d(2)] by blast
  qed
qed

theorem trap_kern_inv_witness:
  "\<exists>s'. trap (demo_tf\<lparr>tf_cs := 0x1B, tf_trapno := T_SYSCALL, tf_regs := (tf_regs demo_tf)\<lparr>reg_eax := SYS_getenvid\<rparr>\<rparr>) 0 False
       (demo_run\<lparr>kernel_lock := spin_initlock, cr3 := 0x1000\<rparr>) = Some (Run, s') \<and> kern_inv demo_base 0 s'"
proof -
  let ?tf = "demo_tf\<lparr>tf_cs := 0x1B, tf_trapno := T_SYSCALL, tf_regs := (tf_regs demo_tf)\<lparr>reg_eax := SYS_getenvid\<rparr>\<rparr>"
  let ?s = "demo_run\<lparr>kernel_lock := spin_initlock, cr3 := 0x1000\<rparr>"
  have inv: "kern_inv demo_base 0 ?s"
    by (rule kern_inv_same [OF _ demo_run_kern_inv]) (simp add: same_but_status_def env_same_def)
  have cu: "curenv ?s = Some 0"
    using demo_run_sel(6) by (simp add: curenv_def)
  have "env_pgdir (envs ?s 0) = kpage 1"
    by simp
  then have "dir_frame ?s 0 = 1"
    by (rule dir_frame_kpage) simp
  then have d: "cr3 ?s = page2pa (dir_frame ?s 0)"
    by (simp add: page2pa_def layout)
  have "live ?s 0 = live demo_run 0"
    by (simp add: live_def)
  then have l: "live ?s 0"
    using demo_run_live(1) by blast
  have low: "refs_low ?s"
    by (auto simp: refs_low_def demo_pages_def)
  have tf: "tf_cs ?tf AND 3 = 3" "args_ok ?tf"
    by (simp_all add: args_ok_def layout)
  have "\<exists>s'. trap ?tf 0 False ?s = Some (Run, s')"
    using cu PADDR_kpage [of 1]
    by (simp add: trap_def lock_kernel_def spin_lock_def holding_def spin_initlock_def xchg_def trap_dispatch_def syscall_def
        sys_getenvid_def trap_return_def env_run_def unlock_kernel_def spin_unlock_def env_pop_tf_def set_eax_def
        curenv_def set_curenv_def upd_env_def layout)
  then show ?thesis
    using trap_kern_inv [OF inv tf(1) cu l d low tf(2)] by blast
qed

end
