(* ===== verification/Trap_Fault.thy ===== *)
theory Trap_Fault
  imports Trap_Inv
begin

section \<open>Delivery of a page fault\<close>

text \<open>
  The words that \<^verbatim>\<open>page_fault_handler\<close> leaves on the user's exception stack, which is the page from
  \<^verbatim>\<open>UXSTACKBASE\<close> to \<^verbatim>\<open>UXSTACKTOP\<close>: a \<^verbatim>\<open>struct UTrapframe\<close> below the top of that page or, when the fault happened in the
  handler itself, below the stack pointer with one word between.
\<close>

subsection \<open>Stores into the exception stack\<close>

text \<open>\<open>ux_ok s d t q\<close>: with the directory in frame \<open>d\<close>, through the table in frame \<open>t\<close>, the exception stack is
  writable and is frame \<open>q\<close>.\<close>

definition ux_ok :: "kstate \<Rightarrow> nat \<Rightarrow> nat \<Rightarrow> nat \<Rightarrow> bool" where
  "ux_ok s d t q \<longleftrightarrow> d < 65536 \<and> t < 65536 \<and> q < 65536 \<and> d \<noteq> q \<and> t \<noteq> q \<and> cr3 s = page2pa d \<and>
     present (entry s d (PDX UXSTACKBASE)) \<and> entry s d (PDX UXSTACKBASE) AND PTE_W \<noteq> 0 \<and> frame (entry s d (PDX UXSTACKBASE)) = t \<and>
     present (entry s t (PTX UXSTACKBASE)) \<and> entry s t (PTX UXSTACKBASE) AND PTE_W \<noteq> 0 \<and> frame (entry s t (PTX UXSTACKBASE)) = q"

lemma ux_addr:
  assumes "unat i < 1024" "j < 4" "q < 65536"
  defines "x \<equiv> slot UXSTACKBASE i + word_of_nat j"
  shows "PDX x = PDX UXSTACKBASE" "PTX x = PTX UXSTACKBASE" "page2pa q OR PGOFF x = slot (page2pa q) i + word_of_nat j"
proof -
  have al: "page_aligned UXSTACKBASE" "page_aligned (page2pa q)"
    using assms(3) by (simp_all add: page_aligned_def PGOFF_def layout page2pa_def and_0xFFF) (simp add: take_bit_push_bit)
  have r: "4 * unat i + j < 4096"
    using assms(1,2) by simp
  have ux: "unat x = 4096 * (unat UXSTACKBASE div 4096) + (4 * unat i + j)"
    using unat_aligned4_add [OF slot_aligned4 [OF al(1) assms(1)] assms(2)] unat_slot [OF al(1) assms(1)]
    by (simp add: x_def layout)
  then have "PGNUM x = PGNUM UXSTACKBASE"
    using r by (simp add: word_unat_eq_iff unat_PGNUM layout)
  then show "PDX x = PDX UXSTACKBASE" "PTX x = PTX UXSTACKBASE"
    by (simp_all add: PGNUM_eq_iff)
  have off: "unat (PGOFF x) = 4 * unat i + j"
    using r by (simp add: unat_PGOFF ux)
  have "unat (page2pa q OR PGOFF x) = 4096 * q + (4 * unat i + j)"
    using unat_push_or [of "PGOFF x" 12 "word_of_nat q"] off r assms(3) by (simp add: page2pa_def unat_of_nat layout)
  moreover have "unat (slot (page2pa q) i + word_of_nat j) = 4096 * q + (4 * unat i + j)"
    using unat_aligned4_add [OF slot_aligned4 [OF al(2) assms(1)] assms(2)] unat_slot [OF al(2) assms(1)] assms(3)
    by (simp add: unat_page2pa)
  ultimately show "page2pa q OR PGOFF x = slot (page2pa q) i + word_of_nat j"
    by (simp add: word_unat_eq_iff)
qed

lemma va_write_ux:
  assumes ok: "ux_ok s d t q" and i: "unat i < 1024" "j < 4"
  shows "va_write (slot UXSTACKBASE i + word_of_nat j) b s = Some (s\<lparr>pmem := (pmem s)(slot (page2pa q) i + word_of_nat j := b)\<rparr>)"
    "ux_ok (s\<lparr>pmem := (pmem s)(slot (page2pa q) i + word_of_nat j := b)\<rparr>) d t q"
proof -
  let ?x = "slot UXSTACKBASE i + word_of_nat j" and ?s = "s\<lparr>pmem := (pmem s)(slot (page2pa q) i + word_of_nat j := b)\<rparr>"
  have q: "q < 65536" "d < 65536" "t < 65536" "d \<noteq> q" "t \<noteq> q"
    using ok by (simp_all add: ux_ok_def)
  note A = ux_addr [OF i q(1)]
  have c: "PTE_ADDR (cr3 s) = page2pa d"
    using ok q(2) by (simp add: ux_ok_def word_unat_eq_iff unat_PTE_ADDR unat_page2pa)
  have f: "PTE_ADDR y = page2pa (frame y)" for y
    by (simp add: frame_def page2pa_PGNUM)
  have fd: "frame (page2pa d) = d"
    using q(2) by (simp add: frame_def unat_PGNUM unat_page2pa)
  have "hw_translate s ?x True = Some (slot (page2pa q) i + word_of_nat j)"
    using ok unfolding hw_translate_def c A f
    by (simp add: Let_def entry_def [symmetric] ux_ok_def f fd PTE_P_test A(3))
  then show "va_write ?x b s = Some ?s"
    by (simp add: va_write_def)
  have pg: "PTE_ADDR (slot (page2pa q) i + word_of_nat j) = page2pa q"
    using slot_page [of "page2pa q" i j] i q(1) by simp
  have "entry ?s g k = entry s g k" if "g < 65536" "g \<noteq> q" "unat k < 1024" for g k
    by (rule entry_outside [OF that(1) q(1) that(2,3)]) (use pg in auto)
  then show "ux_ok ?s d t q"
    using ok PTX_less PDX_less q by (simp add: ux_ok_def)
qed

lemma va_write_list_append:
  "va_write_list va (xs @ ys) s = do { s1 \<leftarrow> va_write_list va xs s; va_write_list (va + word_of_nat (length xs)) ys s1 }"
proof (induction xs arbitrary: va s)
  case (Cons x xs)
  show ?case
    by (cases "va_write va x s") (simp_all add: Cons algebra_simps)
qed simp

text \<open>A word stored at its place in the exception stack.\<close>

lemma write_word_ux:
  assumes ok: "ux_ok s d t q" and i: "unat i < 1024"
  shows "va_write_list (slot UXSTACKBASE i) (bytes32 v) s = Some (kst (slot (kpage q) i) v s)"
    "ux_ok (kst (slot (kpage q) i) v s) d t q"
proof -
  define w where "w j b s = s\<lparr>pmem := (pmem s)(slot (page2pa q) i + word_of_nat j := b)\<rparr>" for j :: nat and b and s :: kstate
  have W: "va_write (slot UXSTACKBASE i + word_of_nat j) b x = Some (w j b x)" "ux_ok (w j b x) d t q" if "ux_ok x d t q" "j < 4" for j b x
    using va_write_ux [OF that(1) i that(2)] by (simp_all add: w_def)
  have 0: "ux_ok (w 0 b0 s) d t q" for b0
    using W(2) [OF ok] by simp
  have 1: "ux_ok (w 1 b1 (w 0 b0 s)) d t q" for b0 b1
    using W(2) [OF 0, of 1] by simp
  have 2: "ux_ok (w 2 b2 (w 1 b1 (w 0 b0 s))) d t q" for b0 b1 b2
    using W(2) [OF 1, of 2] by simp
  have 3: "ux_ok (w 3 b3 (w 2 b2 (w 1 b1 (w 0 b0 s)))) d t q" for b0 b1 b2 b3
    using W(2) [OF 2, of 3] by simp
  have k: "kst (slot (kpage q) i) v s = w 3 (ucast (drop_bit 24 v)) (w 2 (ucast (drop_bit 16 v)) (w 1 (ucast (drop_bit 8 v)) (w 0 (ucast v) s)))"
    by (simp add: kst_def slot_kpage wr32_def w_def)
  show "ux_ok (kst (slot (kpage q) i) v s) d t q"
    unfolding k by (rule 3)
  show "va_write_list (slot UXSTACKBASE i) (bytes32 v) s = Some (kst (slot (kpage q) i) v s)"
    unfolding k using W(1) [OF ok, of 0] W(1) [OF 0, of 1] W(1) [OF 1, of 2] W(1) [OF 2, of 3]
    by (simp add: bytes32_def add.assoc)
qed

fun write_words :: "nat \<Rightarrow> nat \<Rightarrow> u32 list \<Rightarrow> kstate \<Rightarrow> kstate" where
  "write_words q i [] s = s"
| "write_words q i (w # ws) s = write_words q (i + 1) ws (kst (slot (kpage q) (word_of_nat i)) w s)"

lemma write_words_ux:
  assumes "ux_ok s d t q" "i + length ws \<le> 1024"
  shows "va_write_list (slot UXSTACKBASE (word_of_nat i)) (concat (map bytes32 ws)) s = Some (write_words q i ws s)"
    "ux_ok (write_words q i ws s) d t q"
  using assms
proof (induction ws arbitrary: i s)
  case (Cons w ws)
  case 1
  have i: "unat (word_of_nat i :: u32) < 1024"
    using 1 by (simp add: unat_of_nat)
  note W = write_word_ux [OF 1(1) i, of w]
  have "slot UXSTACKBASE (word_of_nat i) + 4 = slot UXSTACKBASE (word_of_nat (i + 1))"
    by (simp add: slot_def)
  then show ?case
    using W Cons(1) [OF W(2), of "i + 1"] 1 by (simp add: va_write_list_append)
next
  case (Cons w ws)
  case 2
  have i: "unat (word_of_nat i :: u32) < 1024"
    using 2 by (simp add: unat_of_nat)
  show ?case
    using Cons(2) [OF write_word_ux(2) [OF 2(1) i], of "i + 1"] 2 by simp
qed auto

lemma write_words_entry:
  assumes "q < 65536" "i + length ws \<le> 1024" "j < 1024"
  shows "entry (write_words q i ws s) q (word_of_nat j) =
    (if i \<le> j \<and> j < i + length ws then ws ! (j - i) else entry s q (word_of_nat j))"
  using assms
proof (induction ws arbitrary: i s)
  case (Cons w ws)
  have u: "unat (word_of_nat i :: u32) = i" "unat (word_of_nat j :: u32) = j"
    using Cons.prems by (simp_all add: unat_of_nat)
  then have "word_of_nat j = (word_of_nat i :: u32) \<longleftrightarrow> j = i"
    by (metis)
  then show ?case
    using Cons.prems Cons.IH [of "i + 1"] u by (auto simp: entry_kst nth_Cons' Suc_diff_Suc)
qed auto

lemma push_ux:
  assumes "ux_ok s d t q" "i < 1024"
  shows "push (slot UXSTACKBASE (word_of_nat (i + 1))) v s = Some (slot UXSTACKBASE (word_of_nat i), write_words q i [v] s)"
proof -
  have "slot UXSTACKBASE (word_of_nat (i + 1)) - 4 = slot UXSTACKBASE (word_of_nat i)"
    by (simp add: slot_def)
  then show ?thesis
    using write_words_ux(1) [OF assms(1), of i "[v]"] assms(2) by (simp add: push_def)
qed

text \<open>The frame, in words from its lowest address.\<close>

definition utf_words :: "Trapframe \<Rightarrow> u32 \<Rightarrow> u32 list" where
  "utf_words tf fault_va = [fault_va, tf_err tf] @ regs_words (tf_regs tf) @ [tf_eip tf, tf_eflags tf, tf_esp tf]"

lemma utf_words_nth:
  assumes "j < 13"
  shows "utf_words tf va ! j = (if j = 0 then va else if j = 1 then tf_err tf else if j < 10 then regs_words (tf_regs tf) ! (j - 2)
    else if j = 10 then tf_eip tf else if j = 11 then tf_eflags tf else tf_esp tf)"
proof -
  have "length (regs_words r) = 8" for r
    by (simp add: regs_words_def)
  then show ?thesis
    using assms by (auto simp: utf_words_def nth_append nth_Cons' numeral_2_eq_2)
qed

lemma write_words_pmem: "\<exists>m. write_words q i ws s = s\<lparr>pmem := m\<rparr>"
proof (induction ws arbitrary: i s)
  case Nil
  have "write_words q i [] s = s\<lparr>pmem := pmem s\<rparr>"
    by simp
  then show ?case
    by (rule exI [of _ "pmem s"])
next
  case (Cons w ws)
  obtain m where "write_words q (i + 1) ws (kst (slot (kpage q) (word_of_nat i)) w s) = (kst (slot (kpage q) (word_of_nat i)) w s)\<lparr>pmem := m\<rparr>"
    using Cons by blast
  then show ?case
    by (auto simp: kst_def)
qed

lemma push_utf_ux:
  assumes ok: "ux_ok s d t q" and n: "k + 13 \<le> 1024"
  shows "\<exists>s'. push_utf tf va (slot UXSTACKBASE (word_of_nat (k + 13))) s = Some (slot UXSTACKBASE (word_of_nat k), s') \<and>
    (\<forall>j<13. entry s' q (word_of_nat (k + j)) = utf_words tf va ! j) \<and> (\<exists>m. s' = s\<lparr>pmem := m\<rparr>)"
proof -
  have q: "q < 65536"
    using ok by (simp add: ux_ok_def)
  define s1 where "s1 = write_words q (k + 12) [tf_esp tf] s"
  define s2 where "s2 = write_words q (k + 11) [tf_eflags tf] s1"
  define s3 where "s3 = write_words q (k + 10) [tf_eip tf] s2"
  define s4 where "s4 = write_words q (k + 2) (regs_words (tf_regs tf)) s3"
  define s5 where "s5 = write_words q (k + 1) [tf_err tf] s4"
  define s6 where "s6 = write_words q k [va] s5"
  have len: "length (regs_words r) = 8" for r
    by (simp add: regs_words_def)
  have o1: "ux_ok s1 d t q"
    unfolding s1_def by (rule write_words_ux(2) [OF ok]) (use n in simp)
  have o2: "ux_ok s2 d t q"
    unfolding s2_def by (rule write_words_ux(2) [OF o1]) (use n in simp)
  have o3: "ux_ok s3 d t q"
    unfolding s3_def by (rule write_words_ux(2) [OF o2]) (use n in simp)
  have o4: "ux_ok s4 d t q"
    unfolding s4_def by (rule write_words_ux(2) [OF o3]) (use n len in simp)
  have o5: "ux_ok s5 d t q"
    unfolding s5_def by (rule write_words_ux(2) [OF o4]) (use n in simp)
  define X where "X m = slot UXSTACKBASE (word_of_nat m)" for m :: nat
  have sub: "X (k + 10) - 32 = X (k + 2)"
    by (simp add: X_def slot_def)
  have p: "push (X m') v x = Some (X m, write_words q m [v] x)" if "ux_ok x d t q" "m' = m + 1" "m' \<le> 1024" for m m' v x
    unfolding X_def that(2) by (rule push_ux [OF that(1)]) (use that in simp)
  have r: "va_write_list (X (k + 2)) (concat (map bytes32 (regs_words (tf_regs tf)))) s3 = Some s4"
    unfolding X_def s4_def by (rule write_words_ux(1) [OF o3]) (use n len in simp)
  have P1: "push (X (k + 13)) (tf_esp tf) s = Some (X (k + 12), s1)"
    unfolding s1_def by (rule p [OF ok]) (use n in simp_all)
  have P2: "push (X (k + 12)) (tf_eflags tf) s1 = Some (X (k + 11), s2)"
    unfolding s2_def by (rule p [OF o1]) (use n in simp_all)
  have P3: "push (X (k + 11)) (tf_eip tf) s2 = Some (X (k + 10), s3)"
    unfolding s3_def by (rule p [OF o2]) (use n in simp_all)
  have P5: "push (X (k + 2)) (tf_err tf) s4 = Some (X (k + 1), s5)"
    unfolding s5_def by (rule p [OF o4]) (use n in simp_all)
  have P6: "push (X (k + 1)) va s5 = Some (X k, s6)"
    unfolding s6_def by (rule p [OF o5]) (use n in simp_all)
  note P = P1 P2 P3 P5 P6
  have "push_utf tf va (X (k + 13)) s = Some (X k, s6)"
    unfolding push_utf_def by (simp only: P r sub bind.bind_lunit case_prod_conv)
  moreover have "entry s6 q (word_of_nat (k + j)) = utf_words tf va ! j" if j: "j < 13" for j
  proof -
    define m where "m = k + j"
    have lt: "m < 1024"
      using j n by (simp add: m_def)
    define M where "M = (word_of_nat m :: u32)"
    have w: "entry (write_words q i ws x) q M = (if i \<le> m \<and> m < i + length ws then ws ! (m - i) else entry x q M)"
      if "i + length ws \<le> 1024" for i ws x
      unfolding M_def by (rule write_words_entry [OF q that lt])
    have km: "k \<le> m"
      by (simp add: m_def)
    have "entry s6 q M = (if m = k then va else if m = k + 1 then tf_err tf
        else if m < k + 10 then regs_words (tf_regs tf) ! (m - k - 2) else if m = k + 10 then tf_eip tf
        else if m = k + 11 then tf_eflags tf else if m = k + 12 then tf_esp tf else entry s q M)"
      using n km unfolding s6_def s5_def s4_def s3_def s2_def s1_def by (auto simp: w len simp del: write_words.simps)
    then have e: "entry s6 q (word_of_nat (k + j)) = (if j = 0 then va else if j = 1 then tf_err tf
        else if j < 10 then regs_words (tf_regs tf) ! (j - 2) else if j = 10 then tf_eip tf
        else if j = 11 then tf_eflags tf else tf_esp tf)"
      using j unfolding M_def m_def by (simp split: if_splits)
    show ?thesis
      unfolding e using utf_words_nth [OF j, of tf va] by simp
  qed
  moreover have "\<exists>m. s6 = s\<lparr>pmem := m\<rparr>"
  proof -
    have "\<exists>m. write_words q i ws x = s\<lparr>pmem := m\<rparr>" if "\<exists>m. x = s\<lparr>pmem := m\<rparr>" for i ws x
      using that write_words_pmem [of q i ws x] by auto
    then show ?thesis
      unfolding s6_def s5_def s4_def s3_def s2_def s1_def using write_words_pmem [of q _ _ s] by (metis (no_types))
  qed
  ultimately show ?thesis
    unfolding X_def by blast
qed

subsection \<open>What the handler leaves\<close>

text \<open>Where the frame goes, as the index of its first word in the page: the top of the page or, for a fault on the
  exception stack, one word further than a frame below the stack pointer.\<close>

definition utf_index :: "u32 \<Rightarrow> nat" where
  "utf_index esp = (if on_uxstack esp then unat (esp - UXSTACKBASE) div 4 - 14 else 1011)"

lemma env_run_self:
  assumes "curenv s = Some c" "env_status (envs s c) = ENV_RUNNING" "holding (cpunum s) (kernel_lock s)" "env_pgdir (envs s c) = kpage d" "d < 65536"
  shows "\<exists>s'. env_run s c = Some s' \<and> env_tf (envs s' c) = env_tf (envs s c) \<and> pmem s' = pmem s \<and> curenv s' = Some c \<and>
    env_status (envs s' c) = ENV_RUNNING \<and> cr3 s' = page2pa d"
proof -
  have "PADDR (kpage d) = Some (page2pa d)"
    using PADDR_kpage [OF assms(5)] .
  then show ?thesis
    using assms by (simp add: env_run_def unlock_kernel_def spin_unlock_def env_pop_tf_def set_curenv_def upd_env_def curenv_def)
qed

lemma deliver_fault_run:
  assumes ok: "ux_ok s d t q" and esp: "on_uxstack (tf_esp tf) \<Longrightarrow> 14 \<le> unat (tf_esp tf - UXSTACKBASE) div 4 \<and> unat (tf_esp tf - UXSTACKBASE) mod 4 = 0"
    and c: "curenv s = Some c" "env_status (envs s c) = ENV_RUNNING" "holding (cpunum s) (kernel_lock s)" "env_pgdir (envs s c) = kpage d"
  shows "\<exists>s'. deliver_fault tf va c s = Some (Leave Run, s') \<and> curenv s' = Some c \<and>
    env_tf (envs s' c) = (env_tf (envs s c))\<lparr>tf_esp := slot UXSTACKBASE (word_of_nat (utf_index (tf_esp tf))), tf_eip := env_pgfault_upcall (envs s c)\<rparr> \<and>
    (\<forall>j<13. entry s' q (word_of_nat (utf_index (tf_esp tf) + j)) = utf_words tf va ! j)"
proof -
  let ?k = "utf_index (tf_esp tf)"
  have base: "unat UXSTACKBASE = 4005556224"
    by (simp add: layout)
  obtain s1 where s1: "(if on_uxstack (tf_esp tf) then push (tf_esp tf) 0 s else Some (UXSTACKTOP, s)) =
      Some (slot UXSTACKBASE (word_of_nat (?k + 13)), s1)" "ux_ok s1 d t q" "\<exists>m. s1 = s\<lparr>pmem := m\<rparr>"
    and k: "?k + 13 \<le> 1024" and room: "\<not> (on_uxstack (tf_esp tf) \<and> tf_esp tf - RCSV_UTRAP_SIZE < UXSTACKBASE)"
  proof (cases "on_uxstack (tf_esp tf)")
    case False
    have "s = s\<lparr>pmem := pmem s\<rparr>"
      by simp
    then have "\<exists>m. s = s\<lparr>pmem := m\<rparr>"
      by (rule exI [of _ "pmem s"])
    with False ok that [of s] show thesis
      by (simp add: utf_index_def slot_def layout)
  next
    case True
    define n where "n = unat (tf_esp tf - UXSTACKBASE) div 4"
    have b: "unat (tf_esp tf - UXSTACKBASE) = 4 * n" "14 \<le> n"
      using esp [OF True] by (auto simp: n_def)
    have u: "unat (tf_esp tf) = 4005556224 + 4 * n" "n < 1024"
    proof -
      have "UXSTACKBASE \<le> tf_esp tf" "tf_esp tf < UXSTACKTOP"
        using True by (auto simp: on_uxstack_def)
      then show "unat (tf_esp tf) = 4005556224 + 4 * n" "n < 1024"
        using b(1) base unat_sub [of UXSTACKBASE "tf_esp tf"] by (auto simp: word_le_nat_alt word_less_nat_alt layout)
    qed
    have "unat (slot UXSTACKBASE (word_of_nat n)) = 4005556224 + 4 * n"
      using unat_slot [of UXSTACKBASE "word_of_nat n"] u(2) base by (simp add: page_aligned_unat unat_of_nat)
    then have e: "tf_esp tf = slot UXSTACKBASE (word_of_nat ((n - 1) + 1))"
      using u(1) b(2) by (simp add: word_unat_eq_iff)
    have k: "?k = n - 14"
      using True by (simp add: utf_index_def n_def)
    have "unat (tf_esp tf - RCSV_UTRAP_SIZE) = 4005556224 + 4 * n - 56"
      using u(1) unat_sub [of RCSV_UTRAP_SIZE "tf_esp tf"] by (simp add: word_le_nat_alt layout)
    then have room: "\<not> tf_esp tf - RCSV_UTRAP_SIZE < UXSTACKBASE"
      using b(2) base by (simp add: word_less_nat_alt)
    have N: "n - 1 = ?k + 13" "?k + 13 < 1024"
      using k b(2) u(2) by simp_all
    have p: "push (tf_esp tf) 0 s = Some (slot UXSTACKBASE (word_of_nat (?k + 13)), write_words q (?k + 13) [0] s)"
      using push_ux [OF ok N(2), of 0] unfolding N(1) [symmetric] e [symmetric] .
    have o: "ux_ok (write_words q (?k + 13) [0] s) d t q"
      by (rule write_words_ux(2) [OF ok]) (use N(2) in simp)
    show thesis
      by (rule that [OF _ o write_words_pmem]) (use True p room N(2) in simp_all)
  qed
  obtain s2 where s2: "push_utf tf va (slot UXSTACKBASE (word_of_nat (?k + 13))) s1 = Some (slot UXSTACKBASE (word_of_nat ?k), s2)"
    "\<forall>j<13. entry s2 q (word_of_nat (?k + j)) = utf_words tf va ! j" "\<exists>m. s2 = s1\<lparr>pmem := m\<rparr>"
    using push_utf_ux [OF s1(2) k] by blast
  let ?s3 = "upd_env c (\<lambda>v. v\<lparr>env_tf := (env_tf v)\<lparr>tf_esp := slot UXSTACKBASE (word_of_nat ?k), tf_eip := env_pgfault_upcall v\<rparr>\<rparr>) s2"
  obtain m where m: "s2 = s\<lparr>pmem := m\<rparr>"
    using s1(3) s2(3) by auto
  have "d < 65536"
    using ok by (simp add: ux_ok_def)
  moreover have "curenv ?s3 = Some c" "env_status (envs ?s3 c) = ENV_RUNNING" "holding (cpunum ?s3) (kernel_lock ?s3)" "env_pgdir (envs ?s3 c) = kpage d"
    using c by (simp_all add: m curenv_def)
  ultimately obtain s4 where s4: "env_run ?s3 c = Some s4" "env_tf (envs s4 c) = env_tf (envs ?s3 c)" "pmem s4 = pmem ?s3" "curenv s4 = Some c"
    using env_run_self [of ?s3 c d] by blast
  have "entry s4 = entry s2"
    by (rule entry_pmem_cong) (simp add: s4(3))
  moreover have "deliver_fault tf va c s = Some (Leave Run, s4)"
    unfolding deliver_fault_def if_not_P [OF room] s1(1) bind.bind_lunit case_prod_conv s2(1) Let_def s4(1) ..
  ultimately show ?thesis
    using s4(2,4) s2(2) by (simp add: m)
qed

text \<open>C13. A page fault of an environment that has a handler, whose handler page and exception stack pass the kernel's
  checks and are mapped writable, is delivered: the environment goes on running at its handler, with the stack pointer at
  a trap frame on the exception stack that holds, in the order of \<^verbatim>\<open>struct UTrapframe\<close>, the faulting address, the error code,
  the eight registers, the program counter, the flags and the stack pointer of the fault. A fault on the exception stack
  itself gets its frame below the one being handled, with one word between.\<close>

theorem page_fault_delivered:
  assumes "ux_ok s d t q" "tf_cs tf AND 3 = 3" "env_pgfault_upcall (envs s c) \<noteq> 0"
    "curenv s = Some c" "env_status (envs s c) = ENV_RUNNING" "holding (cpunum s) (kernel_lock s)" "env_pgdir (envs s c) = kpage d"
    "pgdir_walk s (kpage d) fault_va False = Some w"
    "user_mem_check s c (env_pgfault_upcall (envs s c)) PGSIZE (PTE_U OR PTE_P OR PTE_U) = Some (0, s)"
    "user_mem_check s c (UXSTACKTOP - UTRAP_SIZE) UTRAP_SIZE (PTE_U OR PTE_P OR PTE_W OR PTE_U) = Some (0, s)"
    "on_uxstack (tf_esp tf) \<Longrightarrow> 14 \<le> unat (tf_esp tf - UXSTACKBASE) div 4 \<and> unat (tf_esp tf - UXSTACKBASE) mod 4 = 0"
  shows "\<exists>s'. page_fault_handler tf fault_va s = Some (Leave Run, s') \<and> curenv s' = Some c \<and>
    env_tf (envs s' c) = (env_tf (envs s c))\<lparr>tf_esp := slot UXSTACKBASE (word_of_nat (utf_index (tf_esp tf))), tf_eip := env_pgfault_upcall (envs s c)\<rparr> \<and>
    (\<forall>j<13. entry s' q (word_of_nat (utf_index (tf_esp tf) + j)) = utf_words tf fault_va ! j)"
proof -
  have "page_fault_handler tf fault_va s = deliver_fault tf fault_va c s"
    using assms(2-4,7-10) by (simp add: page_fault_handler_def user_mem_assert_def or.assoc)
  then show ?thesis
    using deliver_fault_run [OF assms(1,11,4,5,6,7), of fault_va] by simp
qed

subsection \<open>A concrete fault\<close>

text \<open>\<open>demo_ux\<close>: environment 0 runs with its exception stack in frame 5, mapped through the table in frame 2, and
  its handler at the bottom of that page.\<close>

definition demo_ux :: kstate where
  "demo_ux = kst (slot (kpage 2) 1023) 0x5007 (kst (slot (kpage 1) 954) 0x2007
     (upd_env 0 (\<lambda>v. v\<lparr>env_pgfault_upcall := 0xEEBFF000\<rparr>) (demo_run\<lparr>cr3 := 0x1000\<rparr>)))"

definition demo_fault :: Trapframe where
  "demo_fault = demo_tf\<lparr>tf_cs := 0x1B, tf_trapno := 14, tf_err := 6, tf_eip := 0x800020, tf_esp := 0xEEBFDF00\<rparr>"

lemma demo_ux_entry:
  assumes "f < 65536" "unat i < 1024"
  shows "entry demo_ux f i = (if f = 2 \<and> i = 1023 then 0x5007 else if f = 1 \<and> i = 954 then 0x2007 else 0)"
proof -
  have "entry (upd_env 0 g (demo_run\<lparr>cr3 := x\<rparr>)) = entry demo" for g x
    by (rule entry_pmem_cong) (simp add: demo_run_def)
  then show ?thesis
    using assms by (simp add: demo_ux_def entry_kst)
qed

lemma demo_ux_sel:
  "curenv demo_ux = Some 0" "env_status (envs demo_ux 0) = ENV_RUNNING" "holding (cpunum demo_ux) (kernel_lock demo_ux)"
  "env_pgdir (envs demo_ux 0) = kpage 1" "env_pgfault_upcall (envs demo_ux 0) = 0xEEBFF000" "cr3 demo_ux = page2pa 1" "npages demo_ux = 8"
proof -
  have "cpus demo_ux = cpus demo_run" "cpunum demo_ux = cpunum demo_run"
    by (simp_all add: demo_ux_def)
  then show "curenv demo_ux = Some 0"
    using demo_run_sel(6) by (simp add: curenv_def)
qed (simp_all add: demo_ux_def holding_def page2pa_def layout)

lemma demo_ux_ok: "ux_ok demo_ux 1 2 5" "dir_ok demo_ux 1"
proof -
  have a: "PDX UXSTACKBASE = 954" "PTX UXSTACKBASE = 1023"
    by (simp_all add: PDX_def PTX_def layout)
  show "ux_ok demo_ux 1 2 5"
    by (simp add: ux_ok_def a demo_ux_entry demo_ux_sel(6) demo_frames PTE_W_def)
  show "dir_ok demo_ux 1"
    using demo_ux_sel(7) by (auto simp: dir_ok_def demo_ux_entry demo_frames)
qed

lemma demo_ux_check:
  assumes "PDX va = 954" "PTX va = 1023" "va < ULIM" "len \<le> PGSIZE" "perm OR PTE_P \<in> {5, 7}"
  shows "user_mem_check demo_ux 0 va len perm = Some (0, demo_ux)"
proof -
  have "allows demo_ux 1 (perm OR PTE_P) va"
    using assms by (auto simp: allows_def demo_ux_entry demo_frames layout)
  then show ?thesis
    using assms user_mem_round [OF demo_ux_ok(2), of va len "perm OR PTE_P" va len]
    by (simp add: user_mem_check_def demo_ux_sel(4) layout Let_def)
qed

theorem page_fault_delivered_witness:
  "\<exists>s'. page_fault_handler demo_fault 0x1000 demo_ux = Some (Leave Run, s') \<and> tf_esp (env_tf (envs s' 0)) = 0xEEBFFFCC \<and>
     tf_eip (env_tf (envs s' 0)) = 0xEEBFF000 \<and> entry s' 5 1011 = 0x1000 \<and> entry s' 5 1021 = 0x800020"
proof -
  have a: "PDX 0xEEBFF000 = 954" "PTX 0xEEBFF000 = 1023" "PDX (UXSTACKTOP - UTRAP_SIZE) = 954" "PTX (UXSTACKTOP - UTRAP_SIZE) = 1023"
    "\<not> on_uxstack (tf_esp demo_fault)" "tf_cs demo_fault AND 3 = 3"
    by (simp_all add: PDX_def PTX_def layout on_uxstack_def demo_fault_def)
  have c1: "user_mem_check demo_ux 0 (env_pgfault_upcall (envs demo_ux 0)) PGSIZE (PTE_U OR PTE_P OR PTE_U) = Some (0, demo_ux)"
    unfolding demo_ux_sel(5) by (rule demo_ux_check) (simp_all add: a(1,2), simp_all add: layout)
  have c2: "user_mem_check demo_ux 0 (UXSTACKTOP - UTRAP_SIZE) UTRAP_SIZE (PTE_U OR PTE_P OR PTE_W OR PTE_U) = Some (0, demo_ux)"
    by (rule demo_ux_check) (simp_all add: a(3,4), simp_all add: layout)
  have "env_pgfault_upcall (envs demo_ux 0) \<noteq> 0"
    by (simp add: demo_ux_sel(5))
  from page_fault_delivered [OF demo_ux_ok(1) a(6) this demo_ux_sel(1-4) walk_dir_ok [OF demo_ux_ok(2)] c1 c2] a(5)
  obtain s' where s': "page_fault_handler demo_fault 0x1000 demo_ux = Some (Leave Run, s')"
    "env_tf (envs s' 0) = (env_tf (envs demo_ux 0))\<lparr>tf_esp := slot UXSTACKBASE (word_of_nat (utf_index (tf_esp demo_fault))), tf_eip := env_pgfault_upcall (envs demo_ux 0)\<rparr>"
    "\<And>j. j < 13 \<Longrightarrow> entry s' 5 (word_of_nat (utf_index (tf_esp demo_fault) + j)) = utf_words demo_fault 0x1000 ! j"
    by blast
  have k: "utf_index (tf_esp demo_fault) = 1011"
    using a(5) by (simp add: utf_index_def)
  show ?thesis
    using s'(1,2) s'(3) [of 0] s'(3) [of 10] unfolding k
    by (simp add: demo_ux_sel(5) utf_words_def regs_words_def demo_fault_def slot_def layout)
qed

end
