(* ===== verification/User_Lib.thy ===== *)
theory User_Lib
  imports Trap_Fault
begin

section \<open>The user library\<close>

text \<open>
  \<^verbatim>\<open>lib/syscall.c\<close>, \<^verbatim>\<open>lib/pgfault.c\<close>, \<^verbatim>\<open>lib/fork.c\<close> and \<^verbatim>\<open>lib/ipc.c\<close>: the code an environment is linked with. A system call is
  the instruction \<^verbatim>\<open>int\<close>, that is one run of the kernel's \<open>trap\<close>, after which the environment finds the result in
  \<^verbatim>\<open>eax\<close> of its saved frame. Memory is read and written through the environment's page tables with the rights of user mode.
  \<open>None\<close> is a panic of the program or of the kernel, a page fault of the code itself, or a call after which the
  environment does not get the processor back. The variables of the library (\<^verbatim>\<open>_pgfault_handler\<close>, \<^verbatim>\<open>thisenv\<close>) are a record; the
  addresses of \<^verbatim>\<open>_pgfault_upcall\<close> and of the C handler are arguments. What the compiled code stores on its own stack is not
  modelled, but that these stores fault once the stack is shared by the loop of \<^verbatim>\<open>fork\<close> is.
\<close>

subsection \<open>System calls\<close>

text \<open>The frame of a system call: number and arguments in the registers, the other registers as last saved.\<close>

definition call_frame :: "kstate \<Rightarrow> nat \<Rightarrow> u32 \<Rightarrow> u32 \<Rightarrow> u32 \<Rightarrow> u32 \<Rightarrow> u32 \<Rightarrow> u32 \<Rightarrow> Trapframe" where
  "call_frame s c num a1 a2 a3 a4 a5 =
     (env_tf (envs s c))\<lparr>tf_trapno := T_SYSCALL, tf_cs := GD_UT OR 3, tf_regs := (tf_regs (env_tf (envs s c)))
       \<lparr>reg_eax := num, reg_edx := a1, reg_ecx := a2, reg_ebx := a3, reg_edi := a4, reg_esi := a5\<rparr>\<rparr>"

definition lib_syscall :: "u32 \<Rightarrow> bool \<Rightarrow> u32 \<Rightarrow> u32 \<Rightarrow> u32 \<Rightarrow> u32 \<Rightarrow> u32 \<Rightarrow> kstate \<Rightarrow> (int \<times> kstate) option" where
  "lib_syscall num check a1 a2 a3 a4 a5 s =
     do {
       c \<leftarrow> curenv s;
       (x, s1) \<leftarrow> trap (call_frame s c num a1 a2 a3 a4 a5) 0 False s;
       (if x = Run \<and> curenv s1 = Some c
        then let ret = sint (reg_eax (tf_regs (env_tf (envs s1 c)))) in if check \<and> 0 < ret then None else Some (ret, s1)
        else None)
     }"

definition lib_sys_env_destroy :: "u32 \<Rightarrow> kstate \<Rightarrow> (int \<times> kstate) option" where
  "lib_sys_env_destroy envid = lib_syscall SYS_env_destroy True envid 0 0 0 0"

definition lib_sys_cputs :: "u32 \<Rightarrow> u32 \<Rightarrow> kstate \<Rightarrow> kstate option" where
  "lib_sys_cputs va len s = do { (_, s1) \<leftarrow> lib_syscall SYS_cputs False va len 0 0 0 s; Some s1 }"

definition lib_sys_cgetc :: "kstate \<Rightarrow> (int \<times> kstate) option" where
  "lib_sys_cgetc = lib_syscall SYS_cgetc False 0 0 0 0 0"

definition lib_sys_getenvid :: "kstate \<Rightarrow> (int \<times> kstate) option" where
  "lib_sys_getenvid = lib_syscall SYS_getenvid False 0 0 0 0 0"

definition lib_sys_page_alloc :: "u32 \<Rightarrow> u32 \<Rightarrow> u32 \<Rightarrow> kstate \<Rightarrow> (int \<times> kstate) option" where
  "lib_sys_page_alloc envid va perm = lib_syscall SYS_page_alloc True envid va perm 0 0"

definition lib_sys_page_map :: "u32 \<Rightarrow> u32 \<Rightarrow> u32 \<Rightarrow> u32 \<Rightarrow> u32 \<Rightarrow> kstate \<Rightarrow> (int \<times> kstate) option" where
  "lib_sys_page_map srcenv srcva dstenv dstva perm = lib_syscall SYS_page_map True srcenv srcva dstenv dstva perm"

definition lib_sys_page_unmap :: "u32 \<Rightarrow> u32 \<Rightarrow> kstate \<Rightarrow> (int \<times> kstate) option" where
  "lib_sys_page_unmap envid va = lib_syscall SYS_page_unmap True envid va 0 0 0"

definition lib_sys_exofork :: "kstate \<Rightarrow> (int \<times> kstate) option" where
  "lib_sys_exofork = lib_syscall SYS_exofork False 0 0 0 0 0"

definition lib_sys_env_set_status :: "u32 \<Rightarrow> u32 \<Rightarrow> kstate \<Rightarrow> (int \<times> kstate) option" where
  "lib_sys_env_set_status envid status = lib_syscall SYS_env_set_status True envid status 0 0 0"

definition lib_sys_env_set_pgfault_upcall :: "u32 \<Rightarrow> u32 \<Rightarrow> kstate \<Rightarrow> (int \<times> kstate) option" where
  "lib_sys_env_set_pgfault_upcall envid upcall = lib_syscall SYS_env_set_pgfault_upcall True envid upcall 0 0 0"

definition lib_sys_ipc_try_send :: "u32 \<Rightarrow> u32 \<Rightarrow> u32 \<Rightarrow> u32 \<Rightarrow> kstate \<Rightarrow> (int \<times> kstate) option" where
  "lib_sys_ipc_try_send envid value srcva perm = lib_syscall SYS_ipc_try_send False envid value srcva perm 0"

text \<open>A call that gives the processor away: \<open>resume\<close> stands for what the other environments do, from the state in which
  the environment leaves the processor to the one in which it runs again.\<close>

definition lib_blocking :: "(nat \<Rightarrow> kstate \<Rightarrow> kstate option) \<Rightarrow> u32 \<Rightarrow> bool \<Rightarrow> u32 \<Rightarrow> kstate \<Rightarrow> (int \<times> kstate) option" where
  "lib_blocking resume num check a1 s =
     do {
       c \<leftarrow> curenv s;
       (x, s1) \<leftarrow> trap (call_frame s c num a1 0 0 0 0) 0 False s;
       s2 \<leftarrow> (if x = Run \<and> curenv s1 = Some c then Some s1 else resume c s1);
       let ret = sint (reg_eax (tf_regs (env_tf (envs s2 c))));
       (if check \<and> 0 < ret then None else Some (ret, s2))
     }"

definition lib_sys_yield :: "(nat \<Rightarrow> kstate \<Rightarrow> kstate option) \<Rightarrow> kstate \<Rightarrow> kstate option" where
  "lib_sys_yield resume s = do { (_, s1) \<leftarrow> lib_blocking resume SYS_yield False 0 s; Some s1 }"

definition lib_sys_ipc_recv :: "(nat \<Rightarrow> kstate \<Rightarrow> kstate option) \<Rightarrow> u32 \<Rightarrow> kstate \<Rightarrow> (int \<times> kstate) option" where
  "lib_sys_ipc_recv resume dstva s = lib_blocking resume SYS_ipc_recv True dstva s"

subsection \<open>User memory\<close>

definition user_translate :: "kstate \<Rightarrow> u32 \<Rightarrow> bool \<Rightarrow> u32 option" where
  "user_translate s va write =
     (let pde = rd32 (pmem s) (slot (PTE_ADDR (cr3 s)) (PDX va));
          e = rd32 (pmem s) (slot (PTE_ADDR pde) (PTX va))
      in if pde AND PTE_U = 0 \<or> e AND PTE_U = 0 then None else hw_translate s va write)"

definition uload :: "kstate \<Rightarrow> u32 \<Rightarrow> u32 option" where
  "uload s va = do { pa \<leftarrow> user_translate s va False; Some (rd32 (pmem s) pa) }"

definition ustore :: "u32 \<Rightarrow> u32 \<Rightarrow> kstate \<Rightarrow> kstate option" where
  "ustore va v s = do { pa \<leftarrow> user_translate s va True; Some (s\<lparr>pmem := wr32 (pmem s) pa v\<rparr>) }"

text \<open>\<^verbatim>\<open>vpt\<close> and \<^verbatim>\<open>vpd\<close> (\<^verbatim>\<open>lib/entry.S\<close>): the window at \<^verbatim>\<open>UVPT\<close> on the environment's own page tables and directory.\<close>

definition vpt :: "kstate \<Rightarrow> u32 \<Rightarrow> u32 option" where
  "vpt s pn = uload s (UVPT + 4 * pn)"

definition vpd :: "kstate \<Rightarrow> u32 \<Rightarrow> u32 option" where
  "vpd s i = uload s (UVPT + drop_bit 12 UVPT * 4 + 4 * i)"

text \<open>\<^verbatim>\<open>memmove\<close> between two whole pages: both addresses and the length are multiples of four and the pages do not
  overlap, so it is the ascending \<^verbatim>\<open>rep movsl\<close> (\<open>memmove_page\<close> and \<open>rep_movsl_words\<close> of the theory \<open>User_Cow\<close>), each
  load and store of which goes through the page tables.\<close>

definition copy_page_word :: "u32 \<Rightarrow> u32 \<Rightarrow> nat \<Rightarrow> kstate \<Rightarrow> kstate option" where
  "copy_page_word dst src i s = do { v \<leftarrow> uload s (src + 4 * word_of_nat i); ustore (dst + 4 * word_of_nat i) v s }"

definition copy_page :: "u32 \<Rightarrow> u32 \<Rightarrow> kstate \<Rightarrow> kstate option" where
  "copy_page dst src = for_each (copy_page_word dst src) [0..<1024]"

subsection \<open>Page fault handlers\<close>

record ulib =
  pgfault_handler :: u32
  thisenv :: nat

definition set_pgfault_handler :: "u32 \<Rightarrow> u32 \<Rightarrow> ulib \<times> kstate \<Rightarrow> (ulib \<times> kstate) option" where
  "set_pgfault_handler upcall handler = (\<lambda>(u, s).
     do {
       s1 \<leftarrow> (if pgfault_handler u = 0
             then do {
               (r, s1) \<leftarrow> lib_sys_page_alloc 0 UXSTACKBASE (PTE_U OR PTE_W OR PTE_P) s;
               (if r \<noteq> 0 then None
                else do { (_, s2) \<leftarrow> lib_sys_env_set_pgfault_upcall 0 upcall s1; Some s2 })
             }
             else Some s);
       Some (u\<lparr>pgfault_handler := handler\<rparr>, s1)
     })"

subsection \<open>Copy-on-write fork\<close>

definition pgfault :: "u32 \<Rightarrow> u32 \<Rightarrow> kstate \<Rightarrow> kstate option" where
  "pgfault addr err s =
     do {
       _ \<leftarrow> vpt s (PGNUM addr);
       pd \<leftarrow> vpd s (PDX addr);
       (if PTE_P OR PTE_U \<noteq> pd AND (PTE_P OR PTE_U) then None
        else do {
          pt \<leftarrow> vpt s (PGNUM addr);
          (if \<not> (PTE_P AND pt \<noteq> 0 \<and> FEC_WR AND err \<noteq> 0 \<and> pt AND PTE_COW \<noteq> 0) then None
           else do {
             (r1, s1) \<leftarrow> lib_sys_page_alloc 0 PFTEMP (PTE_P OR PTE_U OR PTE_W) s;
             (if r1 < 0 then None
              else do {
                s2 \<leftarrow> copy_page PFTEMP (ROUNDDOWN addr PGSIZE) s1;
                (r3, s3) \<leftarrow> lib_sys_page_map 0 PFTEMP 0 (ROUNDDOWN addr PGSIZE) (PTE_P OR PTE_U OR PTE_W) s2;
                (if r3 < 0 then None
                 else do {
                   (r4, s4) \<leftarrow> lib_sys_page_unmap 0 PFTEMP s3;
                   (if r4 < 0 then None else Some s4)
                 })
              })
           })
        })
     }"

definition duppage :: "u32 \<Rightarrow> u32 \<Rightarrow> kstate \<Rightarrow> (int \<times> kstate) option" where
  "duppage envid pn s =
     do {
       pd \<leftarrow> vpd s (drop_bit PT_DIGITS pn);
       (if PTE_P OR PTE_U \<noteq> pd AND (PTE_P OR PTE_U) then Some (- E_INVAL, s)
        else do {
          pt \<leftarrow> vpt s pn;
          (if PTE_U OR PTE_P \<noteq> pt AND (PTE_U OR PTE_P) then Some (- E_INVAL, s)
           else if pt AND (PTE_W OR PTE_COW) = 0
           then do { (_, s1) \<leftarrow> lib_sys_page_map 0 (PGNUM2LA pn) envid (PGNUM2LA pn) (PGOFF pt) s; Some (0, s1) }
           else do {
             (_, s1) \<leftarrow> lib_sys_page_map 0 (PGNUM2LA pn) envid (PGNUM2LA pn) ((PGOFF pt OR PTE_COW) AND NOT PTE_W) s;
             pt1 \<leftarrow> vpt s1 pn;
             (_, s2) \<leftarrow> lib_sys_page_map 0 (PGNUM2LA pn) 0 (PGNUM2LA pn) ((PGOFF pt1 OR PTE_COW) AND NOT PTE_W) s1;
             Some (0, s2)
           })
        })
     }"

text \<open>A call pushes its arguments and its return address below the stack pointer \<open>esp\<close> of the caller. When the page there is not
  writable the store faults, the kernel enters the handler on the exception stack, and, with the handler \<^verbatim>\<open>fork\<close> has
  installed, \<^verbatim>\<open>pgfault\<close> runs before the store is repeated. The words stored are not modelled.\<close>

definition stack_push :: "u32 \<Rightarrow> kstate \<Rightarrow> kstate option" where
  "stack_push esp s =
     (case user_translate s (esp - 4) True of
        Some _ \<Rightarrow> Some s
      | None \<Rightarrow> pgfault (esp - 4) (FEC_PR OR FEC_WR OR FEC_U) s)"

text \<open>One round of the loop of \<^verbatim>\<open>fork\<close>, whose results the code ignores; \<open>esp\<close> is its stack pointer. A round that calls anything
  pushes first. One push for a round is enough: the calls inside \<^verbatim>\<open>duppage\<close> take the right to write to the stack page away with the
  last call at the earliest.\<close>

definition fork_page :: "u32 \<Rightarrow> u32 \<Rightarrow> u32 \<Rightarrow> kstate \<Rightarrow> kstate option" where
  "fork_page esp child pgn s =
     (if pgn = PGNUM UXSTACKBASE
      then do {
        s0 \<leftarrow> stack_push esp s;
        (_, s1) \<leftarrow> lib_sys_page_alloc child UXSTACKBASE (PTE_U OR PTE_W OR PTE_P) s0;
        Some s1
      }
      else if PGNUM UXSTACKBASE \<le> pgn then Some s
      else do {
        pd \<leftarrow> vpd s (drop_bit 10 pgn);
        (if PTE_P OR PTE_U \<noteq> pd AND (PTE_P OR PTE_U) then Some s
         else do {
           pt \<leftarrow> vpt s pgn;
           (if PTE_P OR PTE_U \<noteq> pt AND (PTE_P OR PTE_U) then Some s
            else do { s0 \<leftarrow> stack_push esp s; (_, s1) \<leftarrow> duppage child pgn s0; Some s1 })
         })
      })"

text \<open>\<open>fork_child\<close> is what the child runs from its return from \<^verbatim>\<open>sys_exofork\<close> with 0.\<close>

definition fork_child :: "u32 \<Rightarrow> u32 \<Rightarrow> ulib \<times> kstate \<Rightarrow> (int \<times> ulib \<times> kstate) option" where
  "fork_child upcall handler = (\<lambda>(u, s).
     do {
       (id, s1) \<leftarrow> lib_sys_getenvid s;
       (u2, s2) \<leftarrow> set_pgfault_handler upcall handler (u\<lparr>thisenv := unat (ENVX (word_of_int id))\<rparr>, s1);
       Some (0, u2, s2)
     })"

definition fork :: "u32 \<Rightarrow> u32 \<Rightarrow> u32 \<Rightarrow> ulib \<times> kstate \<Rightarrow> (int \<times> ulib \<times> kstate) option" where
  "fork esp upcall handler us =
     do {
       (u, s) \<leftarrow> set_pgfault_handler upcall handler us;
       (r, s1) \<leftarrow> lib_sys_exofork s;
       (if r < 0 then None
        else if r = 0 then fork_child upcall handler (u, s1)
        else do {
          let child = word_of_int r;
          (_, s2) \<leftarrow> lib_sys_env_set_pgfault_upcall child upcall s1;
          s3 \<leftarrow> for_each (fork_page esp child) (map word_of_nat [0..<unat (PGNUM UTOP)]) s2;
          s4 \<leftarrow> stack_push esp s3;
          (r', s5) \<leftarrow> lib_sys_env_set_status child ENV_RUNNABLE s4;
          (if r' < 0 then None else Some (r, u, s5))
        })
     }"

subsection \<open>Messages\<close>

definition ipc_recv :: "(nat \<Rightarrow> kstate \<Rightarrow> kstate option) \<Rightarrow> u32 \<Rightarrow> ulib \<Rightarrow> kstate \<Rightarrow> (int \<times> u32 \<times> u32 \<times> kstate) option" where
  "ipc_recv resume pg u s =
     do {
       (ret, s1) \<leftarrow> lib_sys_ipc_recv resume (if pg = 0 then IPC_NO_PAGE else pg) s;
       let e = envs s1 (thisenv u);
       Some (if ret = 0 then (sint (env_ipc_value e), env_ipc_from e, env_ipc_perm e, s1) else (ret, 0, 0, s1))
     }"

text \<open>The loop of \<^verbatim>\<open>ipc_send\<close> ends only when the receiver waits or the call fails otherwise; not ending is \<open>None\<close>.\<close>

partial_function (option) ipc_send :: "(nat \<Rightarrow> kstate \<Rightarrow> kstate option) \<Rightarrow> u32 \<Rightarrow> u32 \<Rightarrow> u32 \<Rightarrow> u32 \<Rightarrow> kstate \<Rightarrow> kstate option" where
  "ipc_send resume to_env val pg perm s =
     do {
       s1 \<leftarrow> lib_sys_yield resume s;
       (ret, s2) \<leftarrow> lib_sys_ipc_try_send to_env val (if pg = 0 then IPC_NO_PAGE else pg) (if pg = 0 then 0 else perm) s1;
       (if ret = - E_IPC_NOT_RECV then ipc_send resume to_env val pg perm s2
        else if ret \<noteq> 0 then None else Some s2)
     }"

definition ipc_find_env :: "EnvType \<Rightarrow> kstate \<Rightarrow> u32" where
  "ipc_find_env ty s =
     (case List.find (\<lambda>i. env_type (envs s i) = ty) [0..<NENV] of Some i \<Rightarrow> env_id (envs s i) | None \<Rightarrow> 0)"

subsection \<open>Start and end of a program\<close>

definition exit :: "kstate \<Rightarrow> (int \<times> kstate) option" where
  "exit = lib_sys_env_destroy 0"

definition libmain :: "(ulib \<times> kstate \<Rightarrow> (ulib \<times> kstate) option) \<Rightarrow> kstate \<Rightarrow> (int \<times> kstate) option" where
  "libmain umain s =
     do {
       (id, s1) \<leftarrow> lib_sys_getenvid s;
       (_, s2) \<leftarrow> umain (\<lparr>pgfault_handler = 0, thisenv = unat (ENVX (word_of_int id))\<rparr>, s1);
       exit s2
     }"

subsection \<open>Console input\<close>

partial_function (option) lib_getchar :: "(nat \<Rightarrow> kstate \<Rightarrow> kstate option) \<Rightarrow> kstate \<Rightarrow> (int \<times> kstate) option" where
  "lib_getchar resume s =
     do {
       (r, s1) \<leftarrow> lib_sys_cgetc s;
       (if r \<noteq> 0 then Some (r, s1) else do { s2 \<leftarrow> lib_sys_yield resume s1; lib_getchar resume s2 })
     }"

subsection \<open>A system call is one run of the kernel\<close>

text \<open>\<open>at_user base k s c\<close>: environment \<open>c\<close> runs in user mode on this processor. \<open>entered tf s\<close>: the state in which the kernel
  starts to serve the system call of the frame \<open>tf\<close>.\<close>

definition at_user :: "(nat \<Rightarrow> nat) \<Rightarrow> nat \<Rightarrow> kstate \<Rightarrow> nat \<Rightarrow> bool" where
  "at_user base k s c \<longleftrightarrow> kern_inv base k s \<and> curenv s = Some c \<and> on_dir s c \<and> env_status (envs s c) = ENV_RUNNING \<and>
     \<not> holding (cpunum s) (kernel_lock s)"

definition entered :: "nat \<Rightarrow> Trapframe \<Rightarrow> kstate \<Rightarrow> kstate" where
  "entered c tf s = upd_env c (\<lambda>v. v\<lparr>env_tf := tf\<rparr>) (s\<lparr>kernel_lock := \<lparr>locked = 1, lk_cpu = Some (cpunum s)\<rparr>\<rparr>)"

lemma entered_same: "same_but_status s (entered c tf s)"
  by (simp add: entered_def same_but_status_def env_same_def upd_env_def)

lemma entered_sel [simp]:
  "curenv (entered c tf s) = curenv s" "pmem (entered c tf s) = pmem s" "pages (entered c tf s) = pages s"
  "npages (entered c tf s) = npages s" "cr3 (entered c tf s) = cr3 s" "cpunum (entered c tf s) = cpunum s"
  "kernel_lock (entered c tf s) = \<lparr>locked = 1, lk_cpu = Some (cpunum s)\<rparr>" "cpus (entered c tf s) = cpus s"
  "env_free_list (entered c tf s) = env_free_list s" "page_free_list (entered c tf s) = page_free_list s"
  "envs (entered c tf s) = (envs s)(c := (envs s c)\<lparr>env_tf := tf\<rparr>)"
  by (simp_all add: entered_def curenv_def upd_env_def)

lemma env_run_back:
  assumes "curenv s = Some c" "env_status (envs s c) = ENV_RUNNING" "holding (cpunum s) (kernel_lock s)"
    "env_pgdir (envs s c) = kpage d" "d < 65536"
  shows "\<exists>s'. env_run s c = Some s' \<and> same_but_status s s' \<and> curenv s' = Some c \<and> env_status (envs s' c) = ENV_RUNNING \<and>
    \<not> holding (cpunum s') (kernel_lock s') \<and> cr3 s' = page2pa d \<and> env_tf (envs s' c) = env_tf (envs s c) \<and>
    envs s' = (envs s)(c := (envs s c)\<lparr>env_status := ENV_RUNNING, env_runs := env_runs (envs s c) + 1, env_cpunum := word_of_nat (cpunum s)\<rparr>) \<and>
    cpunum s' = cpunum s"
proof -
  have "PADDR (env_pgdir (envs s c)) = Some (page2pa d)"
    using PADDR_kpage [OF assms(5)] assms(4) by simp
  with assms(1-3) have "\<exists>s'. env_run s c = Some s' \<and> curenv s' = Some c \<and> env_status (envs s' c) = ENV_RUNNING \<and>
      \<not> holding (cpunum s') (kernel_lock s') \<and> cr3 s' = page2pa d \<and> env_tf (envs s' c) = env_tf (envs s c) \<and>
      envs s' = (envs s)(c := (envs s c)\<lparr>env_status := ENV_RUNNING, env_runs := env_runs (envs s c) + 1, env_cpunum := word_of_nat (cpunum s)\<rparr>) \<and>
      cpunum s' = cpunum s"
    by (simp add: env_run_def Let_def unlock_kernel_def spin_unlock_def env_pop_tf_def xchg_def holding_def
        curenv_def set_curenv_def upd_env_def)
  moreover have "env_status (envs s c) \<noteq> ENV_FREE"
    using assms(2) by (simp add: layout)
  ultimately show ?thesis
    using env_run_same by blast
qed

lemma call_frame_sel [simp]:
  "tf_trapno (call_frame s c num a1 a2 a3 a4 a5) = T_SYSCALL" "tf_cs (call_frame s c num a1 a2 a3 a4 a5) AND 3 = 3"
  "reg_eax (tf_regs (call_frame s c num a1 a2 a3 a4 a5)) = num" "reg_edx (tf_regs (call_frame s c num a1 a2 a3 a4 a5)) = a1"
  "reg_ecx (tf_regs (call_frame s c num a1 a2 a3 a4 a5)) = a2" "reg_ebx (tf_regs (call_frame s c num a1 a2 a3 a4 a5)) = a3"
  "reg_edi (tf_regs (call_frame s c num a1 a2 a3 a4 a5)) = a4" "reg_esi (tf_regs (call_frame s c num a1 a2 a3 a4 a5)) = a5"
  by (simp_all add: call_frame_def layout)

lemma trap_enters:
  assumes "curenv s = Some c" "env_status (envs s c) = ENV_RUNNING" "\<not> holding (cpunum s) (kernel_lock s)" "tf_cs tf AND 3 = 3"
  shows "trap tf cr2 b s = do { r \<leftarrow> trap_dispatch (Some c) tf cr2 (entered c tf s); trap_return r }"
proof -
  have "spin_lock (cpunum s) (kernel_lock s) = Some \<lparr>locked = 1, lk_cpu = Some (cpunum s)\<rparr>"
    using assms(3) by (cases "kernel_lock s") (simp add: spin_lock_def xchg_def)
  then show ?thesis
    using assms by (simp add: trap_def lock_kernel_def entered_def curenv_def layout)
qed

lemma dispatch_syscall:
  assumes "tf_trapno tf = T_SYSCALL" "syscall s (reg_eax (tf_regs tf)) (reg_edx (tf_regs tf)) (reg_ecx (tf_regs tf)) (reg_ebx (tf_regs tf))
      (reg_edi (tf_regs tf)) (reg_esi (tf_regs tf)) = Some (Ret v, s1)"
  shows "trap_dispatch home tf cr2 s = Some (Ret (), set_eax home v s1)"
  using assms by (simp add: trap_dispatch_def Let_def layout)

text \<open>A call that the kernel serves without giving the processor away comes back with its result, in the state the call has
  left, up to the registers, the run counter and the lock.\<close>

lemma lib_syscall_run:
  assumes u: "at_user base k s c"
    and run: "syscall (entered c (call_frame s c num a1 a2 a3 a4 a5) s) num a1 a2 a3 a4 a5 = Some (Ret v, s1)"
    and s1: "kern_inv base k s1" "curenv s1 = Some c" "env_status (envs s1 c) = ENV_RUNNING" "live s1 c"
      "kernel_lock s1 = \<lparr>locked = 1, lk_cpu = Some (cpunum s)\<rparr>" "cpunum s1 = cpunum s"
    and v: "- (2 ^ 31) \<le> v" "v < 2 ^ 31"
  shows "\<exists>s'. lib_syscall num check a1 a2 a3 a4 a5 s = (if check \<and> 0 < v then None else Some (v, s')) \<and> at_user base k s' c \<and>
    same_but_status s1 s' \<and> (\<forall>e. e \<noteq> c \<longrightarrow> envs s' e = envs s1 e) \<and> env_id (envs s' c) = env_id (envs s1 c) \<and> cpunum s' = cpunum s"
proof -
  let ?tf = "call_frame s c num a1 a2 a3 a4 a5"
  have U: "curenv s = Some c" "env_status (envs s c) = ENV_RUNNING" "\<not> holding (cpunum s) (kernel_lock s)"
    using u by (simp_all add: at_user_def)
  define s2 where "s2 = set_eax (Some c) v s1"
  have S2: "curenv s2 = Some c" "env_status (envs s2 c) = ENV_RUNNING" "holding (cpunum s2) (kernel_lock s2)"
    "env_pgdir (envs s2 c) = env_pgdir (envs s1 c)" "reg_eax (tf_regs (env_tf (envs s2 c))) = word_of_int v"
    "env_id (envs s2 c) = env_id (envs s1 c)" "\<And>e. e \<noteq> c \<Longrightarrow> envs s2 e = envs s1 e" "cpunum s2 = cpunum s1"
    using s1(2,3,5,6) by (simp_all add: s2_def set_eax_def curenv_def upd_env_def holding_def)
  have same: "same_but_status s1 s2"
    unfolding s2_def set_eax_def option.case by (rule same_but_status_upd_env) (simp add: env_same_def)
  obtain d where d: "d < 65536" "env_pgdir (envs s1 c) = kpage d"
    using live_dir [OF s1(1,4)] by metis
  obtain s' where s': "env_run s2 c = Some s'" "same_but_status s2 s'" "curenv s' = Some c" "env_status (envs s' c) = ENV_RUNNING"
    "\<not> holding (cpunum s') (kernel_lock s')" "cr3 s' = page2pa d" "env_tf (envs s' c) = env_tf (envs s2 c)"
    "envs s' = (envs s2)(c := (envs s2 c)\<lparr>env_status := ENV_RUNNING, env_runs := env_runs (envs s2 c) + 1, env_cpunum := word_of_nat (cpunum s2)\<rparr>)"
    "cpunum s' = cpunum s2"
    using env_run_back [OF S2(1-3) S2(4) [unfolded d(2)] d(1)] by blast
  have "trap_dispatch (Some c) ?tf 0 (entered c ?tf s) = Some (Ret (), s2)"
    unfolding s2_def by (rule dispatch_syscall) (simp_all add: run)
  moreover have "trap_return (Ret (), s2) = Some (Run, s')"
    using S2(1,2) s'(1) by (simp add: trap_return_def)
  ultimately have "trap ?tf 0 False s = Some (Run, s')"
    using trap_enters [OF U, of ?tf 0 False] by simp
  moreover have "sint (reg_eax (tf_regs (env_tf (envs s' c)))) = v"
    unfolding s'(7) S2(5) using v by (simp add: signed_of_int signed_take_bit_int_eq_self)
  ultimately have "lib_syscall num check a1 a2 a3 a4 a5 s = (if check \<and> 0 < v then None else Some (v, s'))"
    using U(1) s'(3) by (simp add: lib_syscall_def Let_def)
  moreover have ss: "same_but_status s1 s'"
    using same_but_status_trans [OF same s'(2)] .
  moreover have "at_user base k s' c"
  proof -
    have "live s' c"
      using s1(4) s'(4) by (simp add: live_def layout)
    moreover have "dir_frame s' c = d"
      by (rule dir_frame_kpage [OF _ d(1)]) (simp add: s'(8) S2(4) d(2))
    ultimately show ?thesis
      using kern_inv_same [OF ss s1(1)] s'(3-6) by (simp add: at_user_def on_dir_def)
  qed
  ultimately show ?thesis
    using S2(6-8) s'(8,9) s1(6) by (intro exI [of _ s']) simp
qed

end
