(* ===== verification/Pmap_Frame.thy ===== *)
theory Pmap_Frame
  imports Syscall_Mem
begin

section \<open>What the operations on page tables leave alone\<close>

text \<open>
  The words of memory that mapping and unmapping a page may change: the directory entry and the page table of the address, and pages
  taken from the free list. Everything else keeps its content, in particular the upper part of every directory, with the
  entry through which an environment sees its own page tables, and every page that is mapped in user space.
\<close>

subsection \<open>Single operations\<close>

lemma pa2page_Some: "pa2page s e = Some p \<Longrightarrow> p = frame e \<and> frame e < unat (npages s)"
  by (auto simp: pa2page_def frame_def word_le_nat_alt split: if_splits)

lemma walk_found:
  assumes "d < 65536" "unat (npages s) \<le> 65536" "present (entry s d (PDX va))" "pgdir_walk s (kpage d) va c = Some (p, s')"
  shows "s' = s" "p = slot (kpage (frame (entry s d (PDX va)))) (PTX va)" "frame (entry s d (PDX va)) < 65536"
proof -
  let ?e = "entry s d (PDX va)"
  have f: "frame ?e < unat (npages s)"
    using assms by (auto simp: pgdir_walk_def kld_kpage Let_def PTE_P_test dest: pa2page_Some split: bind_splits)
  show "frame (entry s d (PDX va)) < 65536"
    using f assms(2) by simp
  show "s' = s" "p = slot (kpage (frame (entry s d (PDX va)))) (PTX va)"
    using assms f by (auto simp: pgdir_walk_def kld_kpage Let_def PTE_P_test pa2page_frame page2kva_kpage split: bind_splits)
qed

lemma page_decref_pmem [simp]: "pmem (page_decref s p) = pmem s"
  by (simp add: page_decref_def page_free_def Let_def upd_page_def split: option.splits)

lemma page_free_pmem [simp]: "pmem (page_free s p) = pmem s"
  by (simp add: page_free_def Let_def upd_page_def split: option.splits)

lemma tlb_invalidate_pmem [simp]: "pmem (tlb_invalidate d va s) = pmem s"
  by (simp add: tlb_invalidate_def split: option.splits)

text \<open>A frame that is neither a free page nor the table or the directory slot of the address.\<close>

lemma page_remove_frame:
  assumes d: "d < 65536" "unat (npages s) \<le> 65536" and run: "page_remove s (kpage d) va = Some s'"
    and f: "f < 65536" "unat i < 1024" "present (entry s d (PDX va)) \<Longrightarrow> f \<noteq> frame (entry s d (PDX va))"
  shows "entry s' f i = entry s f i"
proof (cases "present (entry s d (PDX va))")
  case False
  then have "s' = s"
    using run by (simp add: page_remove_def page_lookup_def walk_absent)
  then show ?thesis by simp
next
  case True
  let ?t = "frame (entry s d (PDX va))"
  obtain p s1 where w: "pgdir_walk s (kpage d) va False = Some (p, s1)"
    using run by (auto simp: page_remove_def page_lookup_def split: bind_splits)
  note W = walk_found [OF d True w]
  consider "s' = s" | x where "entry s' = entry (kst (slot (kpage ?t) (PTX va)) 0 x)" "pmem x = pmem s"
  proof -
    obtain r where r: "page_lookup s (kpage d) va = Some r"
      using run by (auto simp: page_remove_def split: bind_splits)
    show thesis
    proof (cases r)
      case None
      with r run that(1) show thesis by (simp add: page_remove_def)
    next
      case (Some q)
      have "snd q = slot (kpage ?t) (PTX va)"
        using r Some w W by (auto simp: page_lookup_def split: if_splits bind_splits)
      with r run that(2) Some show thesis
        by (cases q) (auto simp: page_remove_def Let_def)
    qed
  qed
  then show ?thesis
  proof cases
    case (2 x)
    have "entry x = entry s"
      by (rule entry_pmem_cong [OF 2(2)])
    then show ?thesis
      using 2(1) entry_kst [OF W(3) f(1) PTX_less f(2)] f(3) True by simp
  qed simp
qed

lemma page_alloc_frame:
  assumes inv: "vm_inv base D fl s" and run: "page_alloc s fg = Some (r, s')" and f: "f < 65536" "unat i < 1024" "f \<notin> set fl"
  shows "entry s' f i = entry s f i"
proof (cases r)
  case None
  with run have "s' = s"
    by (auto simp: page_alloc_def Let_def split: option.splits if_splits bind_splits)
  then show ?thesis by simp
next
  case (Some p)
  have p: "p \<in> set fl"
    using page_alloc_Some(1) [OF run [unfolded Some]] vm_invD(2) [OF inv] by (cases fl) (auto simp: free_list_def)
  note P = vm_free_page [OF inv p]
  have "pmem s' = (if ALLOC_ZERO AND fg \<noteq> 0 then fill_bytes (pmem s) (page2pa p) 0 4096 else pmem s)"
    by (rule page_alloc_pmem [OF run [unfolded Some] vm_invD(1) [OF inv] P(2)])
  then show ?thesis
    using entry_fill [OF P(1) f(1,2), of s' s] entry_pmem_cong [of s' s] p f(3) by (auto split: if_splits)
qed

lemma walk_frame:
  assumes inv: "vm_inv base D fl s" and d: "d \<in> D" "user_pdx (PDX va)" and run: "pgdir_walk s (kpage d) va c = Some (p, s')"
    and f: "f < 65536" "unat i < 1024" "f \<notin> set fl" "\<not> (f = d \<and> i = PDX va)"
  shows "entry s' f i = entry s f i"
proof (cases "present (entry s d (PDX va))")
  case True
  with walk_present [OF inv d True, of c] run show ?thesis by simp
next
  case False
  note d' = vm_dir(1) [OF inv d(1)]
  have "s' = s \<or> (\<exists>r s1. page_alloc s ALLOC_ZERO = Some (r, s1) \<and>
      (pmem s' = pmem s1 \<or> (\<exists>v. pmem s' = pmem (kst (slot (kpage d) (PDX va)) v s1))))"
    using run False
    by (auto simp: pgdir_walk_def kld_kpage Let_def PTE_P_test upd_page_def kst_def split: if_splits bind_splits option.splits) blast
  then consider "s' = s" | (2) r s1 where "page_alloc s ALLOC_ZERO = Some (r, s1)"
    "pmem s' = pmem s1 \<or> (\<exists>v. pmem s' = pmem (kst (slot (kpage d) (PDX va)) v s1))"
    by blast
  then show ?thesis
  proof cases
    case (2 r s1)
    have a: "entry s1 f i = entry s f i"
      by (rule page_alloc_frame [OF inv 2(1) f(1-3)])
    from 2(2) show ?thesis
    proof (elim disjE exE conjE)
      assume "pmem s' = pmem s1"
      then show ?thesis
        using a entry_pmem_cong [of s' s1] by simp
    next
      fix v assume "pmem s' = pmem (kst (slot (kpage d) (PDX va)) v s1)"
      then have "entry s' = entry (kst (slot (kpage d) (PDX va)) v s1)"
        by (rule entry_pmem_cong)
      then show ?thesis
        using a entry_kst [OF d' f(1) PDX_less f(2), of va v s1] f(4) by auto
    qed
  qed simp
qed

lemma store_pte_end:
  assumes "store_pte s d t q va perm = Some (r, s')"
  obtains s3 where "s' = kst (slot (kpage t) (PTX va)) (page2pa q OR perm OR PTE_P) s3"
    "s3 = s \<or> (\<exists>x. entry x = entry s \<and> npages x = npages s \<and> (s3 = x \<or> page_remove x (kpage d) va = Some s3))"
proof -
  let ?x = "upd_page q (\<lambda>pg. pg\<lparr>pp_ref := pp_ref pg + 1\<rparr>) s"
  have ex: "entry ?x = entry s" "npages ?x = npages s"
    by (rule entry_pmem_cong) simp_all
  obtain s3 where "s' = kst (slot (kpage t) (PTX va)) (page2pa q OR perm OR PTE_P) s3"
    "s3 = s \<or> s3 = ?x \<or> page_remove ?x (kpage d) va = Some s3"
    using assms by (auto simp: store_pte_def Let_def split: bind_splits if_splits)
  with that ex show thesis by blast
qed

lemma page_insert_frame:
  assumes inv: "vm_inv base D fl s" and d: "d \<in> D" "user_pdx (PDX va)" and run: "page_insert s (kpage d) (Some q) va perm = Some (r, s')"
    and perm: "unat perm < 4096"
    and f: "f < 65536" "unat i < 1024" "f \<notin> set fl" "tabset s D f = {}" "\<not> (f = d \<and> i = PDX va)"
  shows "entry s' f i = entry s f i"
proof -
  note d' = vm_dir(1) [OF inv d(1)]
  from walk_create [OF inv d] show ?thesis
  proof (elim disjE exE conjE)
    assume "pgdir_walk s (kpage d) va True = Some (0, s)"
    with run have "s' = s" by (simp add: page_insert_def)
    then show ?thesis by simp
  next
    fix s1 fl' assume w: "pgdir_walk s (kpage d) va True = Some (slot (kpage (frame (entry s1 d (PDX va)))) (PTX va), s1)"
      and inv1: "vm_inv base D fl' s1" and p1: "present (entry s1 d (PDX va))"
      and tab: "\<forall>q. q \<notin> set fl \<longrightarrow> pages s1 q = pages s q \<and> tabset s1 D q = tabset s D q"
    define t where "t = frame (entry s1 d (PDX va))"
    define s2 where "s2 = kst (slot (kpage d) (PDX va)) (entry s1 d (PDX va) OR (perm OR PTE_P)) s1"
    have t: "t < 65536" "f \<noteq> t"
    proof -
      show "t < 65536"
        unfolding t_def by (rule vm_table(1) [OF inv1 d p1])
      have "(d, PDX va) \<in> tabset s1 D t"
        using d p1 by (simp add: tabset_def t_def)
      with tab f(3,4) show "f \<noteq> t" by auto
    qed
    have e2: "entry s2 d (PDX va) = entry s1 d (PDX va) OR (perm OR PTE_P)"
      unfolding s2_def using entry_kst [OF d' d' PDX_less [of va] PDX_less [of va]] by simp
    have "unat (perm OR PTE_P) < 4096"
      using perm by (auto intro: flags_or simp: layout)
    then have e2': "present (entry s2 d (PDX va))" "frame (entry s2 d (PDX va)) = t"
      using p1 frame_keep_or unfolding e2 t_def by (simp_all add: present_or)
    have a: "entry s2 f i = entry s f i"
      unfolding s2_def using entry_kst [OF d' f(1) PDX_less [of va] f(2)] f(5) walk_frame [OF inv d w f(1-3) f(5)] by auto
    have n2: "unat (npages s2) \<le> 65536"
      using vm_invD(9) [OF inv1] by (simp add: s2_def)
    have "store_pte s2 d t q va perm = Some (r, s')"
      using page_insert_store [OF w [folded t_def] t(1) s2_def e2', of q] run by simp
    from store_pte_end [OF this] obtain s3 where s3: "s' = kst (slot (kpage t) (PTX va)) (page2pa q OR perm OR PTE_P) s3" and
      x: "s3 = s2 \<or> (\<exists>x. entry x = entry s2 \<and> npages x = npages s2 \<and> (s3 = x \<or> page_remove x (kpage d) va = Some s3))" .
    have "entry s3 f i = entry s2 f i"
      using x
    proof (elim disjE exE conjE)
      fix x assume "entry x = entry s2" "npages x = npages s2" "page_remove x (kpage d) va = Some s3"
      then show ?thesis
        using page_remove_frame [OF d' _ _ f(1,2), of x va s3] n2 e2'(2) t(2) by simp
    qed simp_all
    then show ?thesis
      unfolding s3 using a entry_kst [OF t(1) f(1) PTX_less f(2)] t(2) by simp
  qed
qed

text \<open>The entry of the directory gets the permissions of the page.\<close>

lemma page_insert_walk_pde:
  assumes inv: "vm_inv base D fl s" and d: "d \<in> D" "user_pdx (PDX va)" and run: "page_insert s (kpage d) (Some q) va perm = Some (0, s')"
    and perm: "unat perm < 4096"
  obtains t s1 where "pgdir_walk s (kpage d) va True = Some (t, s1)" "entry s' d (PDX va) = entry s1 d (PDX va) OR (perm OR PTE_P)"
proof -
  note d' = vm_dir(1) [OF inv d(1)]
  have "pgdir_walk s (kpage d) va True \<noteq> Some (0, s)"
    using run by (auto simp: page_insert_def layout)
  with walk_create [OF inv d] obtain s1 fl' where
    w: "pgdir_walk s (kpage d) va True = Some (slot (kpage (frame (entry s1 d (PDX va)))) (PTX va), s1)"
    and inv1: "vm_inv base D fl' s1" and p: "present (entry s1 d (PDX va))"
    by blast
  define t where "t = frame (entry s1 d (PDX va))"
  define s2 where "s2 = kst (slot (kpage d) (PDX va)) (entry s1 d (PDX va) OR (perm OR PTE_P)) s1"
  have t: "t < 65536" "d \<noteq> t"
    using vm_table(1,3) [OF inv1 d p] d(1) by (auto simp: t_def)
  have e2: "entry s2 d (PDX va) = entry s1 d (PDX va) OR (perm OR PTE_P)"
    unfolding s2_def using entry_kst [OF d' d' PDX_less [of va] PDX_less [of va]] by simp
  have "unat (perm OR PTE_P) < 4096"
    using perm by (auto intro: flags_or simp: layout)
  then have e2': "present (entry s2 d (PDX va))" "frame (entry s2 d (PDX va)) = t"
    using p frame_keep_or unfolding e2 t_def by (simp_all add: present_or)
  have n2: "unat (npages s2) \<le> 65536"
    using vm_invD(9) [OF inv1] by (simp add: s2_def)
  have "store_pte s2 d t q va perm = Some (0, s')"
    using page_insert_store [OF w [folded t_def] t(1) s2_def e2', of q] run by simp
  from store_pte_end [OF this] obtain s3 where s3: "s' = kst (slot (kpage t) (PTX va)) (page2pa q OR perm OR PTE_P) s3" and
    x: "s3 = s2 \<or> (\<exists>x. entry x = entry s2 \<and> npages x = npages s2 \<and> (s3 = x \<or> page_remove x (kpage d) va = Some s3))" .
  have "entry s3 d (PDX va) = entry s2 d (PDX va)"
    using x
  proof (elim disjE exE conjE)
    fix x assume "entry x = entry s2" "npages x = npages s2" "page_remove x (kpage d) va = Some s3"
    then show ?thesis
      using page_remove_frame [OF d' _ _ d' PDX_less [of va], of x va s3] n2 e2'(2) t(2) by simp
  qed simp_all
  then have "entry s' d (PDX va) = entry s1 d (PDX va) OR (perm OR PTE_P)"
    unfolding s3 using e2 entry_kst [OF t(1) d' PTX_less [of va] PDX_less [of va]] t(2) by simp
  with w that show thesis by blast
qed

lemma page_insert_result:
  assumes "page_insert s pgdir (Some q) va perm = Some (r, s')"
  shows "r = 0 \<or> r = - E_NO_MEM \<and> (\<exists>s1. pgdir_walk s pgdir va True = Some (0, s1))"
  using assms by (auto simp: page_insert_def Let_def split: bind_splits if_splits)

lemma page_insert_pde:
  assumes inv: "vm_inv base D fl s" and d: "d \<in> D" "user_pdx (PDX va)" and run: "page_insert s (kpage d) (Some q) va perm = Some (r, s')"
    and perm: "unat perm < 4096" and p: "present (entry s d (PDX va))"
  shows "entry s' d (PDX va) = entry s d (PDX va) OR (perm OR PTE_P)"
proof -
  note w = walk_present [OF inv d p, of True]
  have "slot (kpage (frame (entry s d (PDX va)))) (PTX va) \<noteq> 0"
    using slot_kpage_nonzero [OF vm_table(1) [OF inv d p] PTX_less] .
  with page_insert_result [OF run] w have r: "r = 0"
    by simp
  from page_insert_walk_pde [OF inv d run [unfolded r] perm] w show ?thesis
    by auto
qed

subsection \<open>System calls\<close>

text \<open>\<open>kept s s'\<close>: the upper parts of the directories in use and the pages mapped in user space have the same content in both
  states, and an entry of a directory only gets more flags.\<close>

definition kept :: "kstate \<Rightarrow> kstate \<Rightarrow> bool" where
  "kept s s' \<longleftrightarrow> (\<forall>f i. f < 65536 \<longrightarrow> unat i < 1024 \<longrightarrow>
     f \<in> live_dirs s \<and> \<not> user_pdx i \<or> mapset s (live_dirs s) f \<noteq> {} \<longrightarrow> entry s' f i = entry s f i) \<and>
   (\<forall>d \<in> live_dirs s. \<forall>i. user_pdx i \<longrightarrow> present (entry s d i) \<longrightarrow> (\<exists>g. unat g < 4096 \<and> entry s' d i = entry s d i OR g))"

lemma kept_refl [simp]: "kept s s"
  unfolding kept_def by (auto intro: exI [of _ 0])

lemma keptD:
  assumes "kept s s'"
  shows "f < 65536 \<Longrightarrow> unat i < 1024 \<Longrightarrow> f \<in> live_dirs s \<Longrightarrow> \<not> user_pdx i \<Longrightarrow> entry s' f i = entry s f i"
    "f < 65536 \<Longrightarrow> unat i < 1024 \<Longrightarrow> mapset s (live_dirs s) f \<noteq> {} \<Longrightarrow> entry s' f i = entry s f i"
    "d \<in> live_dirs s \<Longrightarrow> user_pdx i \<Longrightarrow> present (entry s d i) \<Longrightarrow> \<exists>g. unat g < 4096 \<and> entry s' d i = entry s d i OR g"
  using assms unfolding kept_def by blast+

lemma keptI:
  assumes inv: "vm_inv base (live_dirs s) fl s"
    and e: "\<And>f i. f < 65536 \<Longrightarrow> unat i < 1024 \<Longrightarrow> f \<notin> set fl \<Longrightarrow> tabset s (live_dirs s) f = {} \<Longrightarrow>
      \<not> (f \<in> live_dirs s \<and> user_pdx i) \<Longrightarrow> entry s' f i = entry s f i"
    and up: "\<And>d i. d \<in> live_dirs s \<Longrightarrow> user_pdx i \<Longrightarrow> present (entry s d i) \<Longrightarrow>
      \<exists>g. unat g < 4096 \<and> entry s' d i = entry s d i OR g"
  shows "kept s s'"
  unfolding kept_def
proof (intro conjI ballI allI impI; (rule up; assumption)?)
  fix f and i :: u32
  assume f: "f < 65536" "unat i < 1024" and x: "f \<in> live_dirs s \<and> \<not> user_pdx i \<or> mapset s (live_dirs s) f \<noteq> {}"
  have "f \<notin> set fl"
    using x vm_free_page(3,5) [OF inv] by blast
  moreover have "tabset s (live_dirs s) f = {}"
  proof (rule ccontr)
    assume "tabset s (live_dirs s) f \<noteq> {}"
    then obtain d j where "d \<in> live_dirs s" "user_pdx j" "present (entry s d j)" "frame (entry s d j) = f"
      by (auto simp: tabset_def)
    with vm_table(3,4) [OF inv this(1-3)] x show False by auto
  qed
  moreover have "\<not> (f \<in> live_dirs s \<and> user_pdx i)"
    using x vm_dir(4) [OF inv] by blast
  ultimately show "entry s' f i = entry s f i"
    using e f by blast
qed

lemma dir_words:
  assumes "vm_inv base D fl s" "d \<in> D"
  shows "d < 65536" "d \<notin> set fl" "tabset s D d = {}"
  using vm_dir(1,3) [OF assms] vm_free_page(3) [OF assms(1)] assms(2) by blast+

lemma page_insert_kept:
  assumes inv: "vm_inv base (live_dirs s) fl s" and d: "d \<in> live_dirs s" "user_pdx (PDX va)" and perm: "unat perm < 4096"
    and run: "page_insert s (kpage d) (Some q) va perm = Some (r, s')"
  shows "kept s s'"
proof (rule keptI [OF inv])
  fix x i assume x: "x \<in> live_dirs s" "user_pdx i" "present (entry s x i)"
  show "\<exists>g. unat g < 4096 \<and> entry s' x i = entry s x i OR g"
  proof (cases "x = d \<and> i = PDX va")
    case True
    moreover have "unat (perm OR PTE_P) < 4096"
      using perm by (auto intro: flags_or simp: layout)
    ultimately show ?thesis
      using page_insert_pde [OF inv d run perm] x(3) by blast
  next
    case False
    with page_insert_frame [OF inv d run perm dir_words(1) [OF inv x(1)] user_pdx_less [OF x(2)] dir_words(2,3) [OF inv x(1)]]
    show ?thesis by (intro exI [of _ 0]) simp
  qed
qed (use page_insert_frame [OF inv d run perm] d in blast)

lemma sys_page_map_kept:
  assumes "kern_inv base k s" "curenv s = Some c" "live s c" "unat perm < 4096"
    and run: "sys_page_map s srcenvid srcva dstenvid dstva perm = Some (f, s')"
  shows "kept s s'"
proof -
  obtain fl where inv: "vm_inv base (live_dirs s) fl s"
    using kern_inv_vm [OF assms(1)] .
  have "s' = s \<or> (\<exists>e q r. live s e \<and> dstva < UTOP \<and> page_insert s (env_pgdir (envs s e)) (Some q) dstva perm = Some (r, s'))"
  proof (rule envid2env_Some [OF assms(2,3), of dstenvid False])
    fix st assume "envid2env s dstenvid False = Some (- E_BAD_ENV, st)"
    with run show ?thesis by (auto simp: sys_page_map_def layout split: bind_splits if_splits)
  next
    fix e assume "envid2env s dstenvid False = Some (0, Some (Some e))" "live s e"
    with run show ?thesis
      by (auto simp: sys_page_map_def stored_def check_addr_scale_def E_INVAL_def split: bind_splits if_splits option.splits)
  qed
  then show ?thesis
  proof (elim disjE exE conjE)
    fix e q r assume *: "live s e" "dstva < UTOP" "page_insert s (env_pgdir (envs s e)) (Some q) dstva perm = Some (r, s')"
    note D = dir_frame_live [OF assms(1) *(1)]
    show ?thesis
      by (rule page_insert_kept [OF inv D(1) below_UTOP [OF *(2)] assms(4)]) (use *(3) D(2) in simp)
  qed simp
qed

lemma sys_page_unmap_kept:
  assumes "kern_inv base k s" "curenv s = Some c" "live s c" and run: "sys_page_unmap s envid va = Some (f, s')"
  shows "kept s s'"
proof -
  obtain fl where inv: "vm_inv base (live_dirs s) fl s"
    using kern_inv_vm [OF assms(1)] .
  have "s' = s \<or> (\<exists>e. live s e \<and> va < UTOP \<and> page_remove s (env_pgdir (envs s e)) va = Some s')"
  proof (rule envid2env_Some [OF assms(2,3), of envid True])
    fix st assume "envid2env s envid True = Some (- E_BAD_ENV, st)"
    with run show ?thesis by (auto simp: sys_page_unmap_def layout)
  next
    fix e assume "envid2env s envid True = Some (0, Some (Some e))" "live s e"
    with run show ?thesis
      by (auto simp: sys_page_unmap_def stored_def check_addr_scale_def E_INVAL_def split: bind_splits if_splits)
  qed
  then show ?thesis
  proof (elim disjE exE conjE)
    fix e assume *: "live s e" "va < UTOP" "page_remove s (env_pgdir (envs s e)) va = Some s'"
    note D = dir_frame_live [OF assms(1) *(1)]
    note run = *(3) [unfolded D(2)] and d = vm_dir(1) [OF inv D(1)] and u = below_UTOP [OF *(2)]
    show ?thesis
    proof (rule keptI [OF inv])
      fix f and i :: u32 assume f: "f < 65536" "unat i < 1024" "tabset s (live_dirs s) f = {}"
      have "f \<noteq> frame (entry s (dir_frame s e) (PDX va))" if "present (entry s (dir_frame s e) (PDX va))"
        using f(3) that D(1) u by (auto simp: tabset_def)
      then show "entry s' f i = entry s f i"
        by (rule page_remove_frame [OF d vm_invD(9) [OF inv] run f(1,2)])
    next
      fix x i assume x: "x \<in> live_dirs s" "user_pdx i" "present (entry s x i)"
      have "x \<noteq> frame (entry s (dir_frame s e) (PDX va))" if "present (entry s (dir_frame s e) (PDX va))"
        using vm_table(3) [OF inv D(1) u that] x(1) by blast
      then have "entry s' x i = entry s x i"
        by (rule page_remove_frame [OF d vm_invD(9) [OF inv] run dir_words(1) [OF inv x(1)] user_pdx_less [OF x(2)]])
      then show "\<exists>g. unat g < 4096 \<and> entry s' x i = entry s x i OR g"
        by (intro exI [of _ 0]) simp
    qed
  qed simp
qed

lemma sys_page_alloc_kept:
  assumes "kern_inv base k s" "curenv s = Some c" "live s c" and run: "sys_page_alloc s envid va perm = Some (f, s')"
  shows "kept s s'"
proof -
  obtain fl where inv: "vm_inv base (live_dirs s) fl s"
    using kern_inv_vm [OF assms(1)] .
  have b: "base 0 \<noteq> 0"
    using assms(1) by (simp add: kern_inv_def mem_ok_def)
  have "s' = s \<or> (\<exists>e p s1. live s e \<and> va < UTOP \<and> perm AND NOT PTE_SYSCALL = 0 \<and> page_alloc s ALLOC_ZERO = Some (p, s1) \<and>
      (s' = s1 \<or> (\<exists>q r s2. p = Some q \<and> page_insert s1 (env_pgdir (envs s1 e)) (Some q) va perm = Some (r, s2) \<and> pmem s' = pmem s2)))"
  proof (rule envid2env_Some [OF assms(2,3), of envid True])
    fix st assume "envid2env s envid True = Some (- E_BAD_ENV, st)"
    with run show ?thesis by (auto simp: sys_page_alloc_def layout)
  next
    fix e assume "envid2env s envid True = Some (0, Some (Some e))" "live s e"
    with run show ?thesis
      by (auto simp: sys_page_alloc_def stored_def not_le split: bind_splits if_splits option.splits) (blast | metis page_free_pmem)+
  qed
  then show ?thesis
  proof (elim disjE exE conjE)
    fix e p s1 assume *: "page_alloc s ALLOC_ZERO = Some (p, s1)" "s' = s1"
    show ?thesis
    proof (rule keptI [OF inv])
      fix x i assume x: "x \<in> live_dirs s" "user_pdx i"
      then have "entry s' x i = entry s x i"
        unfolding *(2) by (intro page_alloc_frame [OF inv *(1)] user_pdx_less dir_words [OF inv])
      then show "\<exists>g. unat g < 4096 \<and> entry s' x i = entry s x i OR g"
        by (intro exI [of _ 0]) simp
    qed (simp add: *(2) page_alloc_frame [OF inv *(1)])
  next
    fix e p s1 q r s2
    assume *: "live s e" "va < UTOP" "perm AND NOT PTE_SYSCALL = 0" "page_alloc s ALLOC_ZERO = Some (p, s1)" "p = Some q"
      "page_insert s1 (env_pgdir (envs s1 e)) (Some q) va perm = Some (r, s2)" "pmem s' = pmem s2"
    obtain ys where fl: "fl = q # ys"
      using page_alloc_Some(1) [OF *(4) [unfolded *(5)]] vm_invD(2) [OF inv] by (cases fl) (auto simp: free_list_def)
    from page_alloc_vm [OF inv [unfolded fl] b] have inv1: "vm_inv base (live_dirs s) ys s1" and fr: "mm_frame s s1"
      using *(4) by auto
    note D = dir_frame_live [OF assms(1) *(1)]
    have d: "env_pgdir (envs s1 e) = kpage (dir_frame s e)"
      using D(2) mm_frame_sel(3) [OF fr] by simp
    note u = below_UTOP [OF *(2)] and P = perm_syscall [OF *(3)]
    show ?thesis
    proof (rule keptI [OF inv])
      fix f and i :: u32
      assume f: "f < 65536" "unat i < 1024" "f \<notin> set fl" "tabset s (live_dirs s) f = {}" "\<not> (f \<in> live_dirs s \<and> user_pdx i)"
      have same: "entry s1 x j = entry s x j" if "x < 65536" "unat j < 1024" "x \<notin> set fl" for x j
        by (rule page_alloc_frame [OF inv *(4) that])
      have "tabset s1 (live_dirs s) f = {}"
      proof -
        have "entry s1 x j = entry s x j" if "x \<in> live_dirs s" "user_pdx j" for x j
          using same vm_dir(1) [OF inv that(1)] user_pdx_less [OF that(2)] vm_free_page(3) [OF inv, of x] that(1) by blast
        then have "tabset s1 (live_dirs s) f = tabset s (live_dirs s) f"
          by (auto simp: tabset_def)
        with f(4) show ?thesis by simp
      qed
      then have "entry s2 f i = entry s1 f i"
        by (intro page_insert_frame [OF inv1 D(1) u *(6) [unfolded d] P f(1,2)]) (use f(3,5) fl D(1) u in auto)
      then show "entry s' f i = entry s f i"
        using same [OF f(1-3)] entry_pmem_cong [OF *(7)] by simp
    next
      fix x i assume x: "x \<in> live_dirs s" "user_pdx i" "present (entry s x i)"
      have ld: "live_dirs s1 = live_dirs s"
        using mm_frame_sel(3) [OF fr] by (simp add: live_dirs_def live_def)
      have "entry s1 x i = entry s x i"
        by (rule page_alloc_frame [OF inv *(4) dir_words(1) [OF inv x(1)] user_pdx_less [OF x(2)] dir_words(2) [OF inv x(1)]])
      then show "\<exists>g. unat g < 4096 \<and> entry s' x i = entry s x i OR g"
        using keptD(3) [OF page_insert_kept [OF inv1 [folded ld] D(1) [folded ld] u P *(6) [unfolded d]], of x i] x
          entry_pmem_cong [OF *(7)] by (simp add: ld)
    qed
  qed simp
qed

text \<open>Out of memory means that no page is free.\<close>

lemma sys_page_map_no_mem:
  assumes "kern_inv base k s" "curenv s = Some c" "live s c"
    and run: "sys_page_map s srcenvid srcva dstenvid dstva perm = Some (Ret (- E_NO_MEM), s')"
  shows "page_free_list s = None"
proof -
  obtain fl where inv: "vm_inv base (live_dirs s) fl s"
    using kern_inv_vm [OF assms(1)] .
  have "\<exists>e q. live s e \<and> dstva < UTOP \<and> page_insert s (env_pgdir (envs s e)) (Some q) dstva perm = Some (- E_NO_MEM, s')"
  proof (rule envid2env_Some [OF assms(2,3), of dstenvid False])
    fix st assume "envid2env s dstenvid False = Some (- E_BAD_ENV, st)"
    with run show ?thesis by (auto simp: sys_page_map_def layout split: bind_splits if_splits)
  next
    fix e assume "envid2env s dstenvid False = Some (0, Some (Some e))" "live s e"
    with run show ?thesis
      by (auto simp: sys_page_map_def stored_def check_addr_scale_def E_INVAL_def E_NO_MEM_def E_BAD_ENV_def
          split: bind_splits if_splits option.splits) blast+
  qed
  then obtain e q where e: "live s e" "dstva < UTOP" "page_insert s (env_pgdir (envs s e)) (Some q) dstva perm = Some (- E_NO_MEM, s')"
    by blast
  note D = dir_frame_live [OF assms(1) e(1)]
  from walk_create [OF inv D(1) below_UTOP [OF e(2)]] show ?thesis
  proof (elim disjE exE conjE)
    assume "fl = []"
    then show ?thesis
      using vm_invD(2) [OF inv] by (simp add: free_list_def)
  next
    fix s1 fl' assume w: "pgdir_walk s (kpage (dir_frame s e)) dstva True =
        Some (slot (kpage (frame (entry s1 (dir_frame s e) (PDX dstva)))) (PTX dstva), s1)"
      and inv1: "vm_inv base (live_dirs s) fl' s1" "present (entry s1 (dir_frame s e) (PDX dstva))"
    have "slot (kpage (frame (entry s1 (dir_frame s e) (PDX dstva)))) (PTX dstva) \<noteq> 0"
      by (rule slot_kpage_nonzero [OF vm_table(1) [OF inv1(1) D(1) below_UTOP [OF e(2)] inv1(2)] PTX_less])
    with e(3) w D(2) show ?thesis
      by (auto simp: page_insert_def Let_def E_NO_MEM_def split: bind_splits if_splits)
  qed
qed

text \<open>A successful call leaves the page table of the address open for the permissions it gave.\<close>

lemma sys_page_alloc_pde:
  assumes "kern_inv base k s" "curenv s = Some c" "live s c" "found s envid True = Some e"
    and run: "sys_page_alloc s envid va perm = Some (Ret 0, s')"
  shows "\<exists>x. entry s' (dir_frame s e) (PDX va) = x OR (perm OR PTE_P)"
proof -
  obtain fl where inv: "vm_inv base (live_dirs s) fl s"
    using kern_inv_vm [OF assms(1)] .
  have b: "base 0 \<noteq> 0"
    using assms(1) by (simp add: kern_inv_def mem_ok_def)
  note e = found_Some [OF assms(2-4)]
  obtain q s1 where *: "va < UTOP" "perm AND NOT PTE_SYSCALL = 0" "page_alloc s ALLOC_ZERO = Some (Some q, s1)"
      "page_insert s1 (env_pgdir (envs s1 e)) (Some q) va perm = Some (0, s')"
    using run e by (auto simp: sys_page_alloc_def stored_def not_le layout split: bind_splits if_splits option.splits)
  obtain ys where fl: "fl = q # ys"
    using page_alloc_Some(1) [OF *(3)] vm_invD(2) [OF inv] by (cases fl) (auto simp: free_list_def)
  from page_alloc_vm [OF inv [unfolded fl] b] have inv1: "vm_inv base (live_dirs s) ys s1" and fr: "mm_frame s s1"
    using *(3) by auto
  note D = dir_frame_live [OF assms(1) e(2)]
  have "env_pgdir (envs s1 e) = kpage (dir_frame s e)"
    using D(2) mm_frame_sel(3) [OF fr] by simp
  from page_insert_walk_pde [OF inv1 D(1) below_UTOP [OF *(1)] *(4) [unfolded this] perm_syscall [OF *(2)]] show ?thesis
    by metis
qed

end
