(* ===== verification/User_Fork.thy ===== *)
theory User_Fork
  imports User_Lib Pmap_Frame
begin

section \<open>Copy-on-write fork\<close>

text \<open>
  The user library on top of the kernel: the window at \<^verbatim>\<open>UVPT\<close> shows an environment its own page tables, \<^verbatim>\<open>duppage\<close>
  shares a page copy-on-write, and the invariant of the loop of \<^verbatim>\<open>fork\<close>, which gives the child an address space in which
  no page is writable by both. The handler \<^verbatim>\<open>pgfault\<close>, and the loop with the fault it takes on its own stack, follow in
  the theory \<open>User_Cow\<close>.
\<close>

subsection \<open>The window on the page tables\<close>

text \<open>\<open>self_map s\<close>: the entry for \<^verbatim>\<open>UVPT\<close> of every directory in use is the directory itself, readable by the user, as
  \<^verbatim>\<open>env_setup_vm\<close> stores it.\<close>

definition self_map :: "kstate \<Rightarrow> bool" where
  "self_map s \<longleftrightarrow> (\<forall>d \<in> live_dirs s. entry s d (PDX UVPT) = page2pa d OR PTE_P OR PTE_U)"

lemma self_map_kept:
  assumes "self_map s" "kept s s'" "live_dirs s' = live_dirs s"
  shows "self_map s'"
  unfolding self_map_def assms(3)
proof
  fix d assume d: "d \<in> live_dirs s"
  then have "d < 65536"
    by (simp add: live_dirs_def)
  from keptD(1) [OF assms(2) this user_pdx_UVPT(2) d user_pdx_UVPT(1)] show "entry s' d (PDX UVPT) = page2pa d OR PTE_P OR PTE_U"
    using assms(1) d by (simp add: self_map_def)
qed

lemma window_addr:
  assumes "unat pn < 2 ^ 20"
  shows "PDX (UVPT + 4 * pn) = PDX UVPT" "PTX (UVPT + 4 * pn) = PDX (PGNUM2LA pn)" "PGOFF (UVPT + 4 * pn) = 4 * PTX (PGNUM2LA pn)"
proof -
  have 4: "unat (4 * pn) = 4 * unat pn"
    using assms by (simp add: unat_word_ariths)
  then have a: "unat (UVPT + 4 * pn) = unat UVPT + 4 * unat pn"
    using assms by (simp add: unat_word_ariths layout)
  have la: "unat (PGNUM2LA pn) = unat pn * 4096"
    using assms by (simp add: PGNUM2LA_def layout push_bit_eq_mult unat_word_ariths)
  show "PDX (UVPT + 4 * pn) = PDX UVPT"
    using assms by (simp add: word_unat_eq_iff unat_PDX a) (simp add: layout)
  have "(unat UVPT + 4 * unat pn) div 4096 mod 1024 = unat pn div 1024"
  proof -
    have "(unat UVPT + 4 * unat pn) div 4096 = 957 * 1024 + unat pn div 1024"
      by (simp add: layout)
    moreover have "unat pn div 1024 < 1024"
      using assms by (simp add: less_mult_imp_div_less)
    ultimately show ?thesis
      using mod_mult_self3 [of 957 1024 "unat pn div 1024"] by simp
  qed
  then show "PTX (UVPT + 4 * pn) = PDX (PGNUM2LA pn)"
    by (simp add: word_unat_eq_iff unat_PDX unat_PTX a la)
  have "4 * unat (PTX (PGNUM2LA pn)) < 4294967296"
    using PTX_less [of "PGNUM2LA pn"] by linarith
  then have "unat (4 * PTX (PGNUM2LA pn)) = 4 * unat (PTX (PGNUM2LA pn))"
    by (simp add: unat_word_ariths)
  moreover have "(unat UVPT + 4 * unat pn) mod 4096 = 4 * (unat pn mod 1024)"
    using mod_mult_self3 [of 979968 4096 "4 * unat pn"] mult_mod_right [of 4 "unat pn" 1024] by (simp add: layout)
  ultimately show "PGOFF (UVPT + 4 * pn) = 4 * PTX (PGNUM2LA pn)"
    by (simp add: word_unat_eq_iff unat_PGOFF unat_PTX a la)
qed

lemma page2pa_or:
  assumes "unat off < 4096"
  shows "page2pa f OR off = page2pa f + off"
proof -
  have "take_bit 12 off = off"
    using assms by (simp add: take_bit_small)
  then have "\<not> bit off n" if "12 \<le> n" for n
    using that by (metis bit_take_bit_iff not_le)
  then have "page2pa f + off = page2pa f OR off"
    by (intro disjunctive_add) (auto simp: page2pa_def bit_simps layout)
  then show ?thesis ..
qed

text \<open>The translation in user mode, in terms of the directory and its tables.\<close>

definition user_entry :: "u32 \<Rightarrow> bool \<Rightarrow> bool" where
  "user_entry e write \<longleftrightarrow> present e \<and> e AND PTE_U \<noteq> 0 \<and> (write \<longrightarrow> e AND PTE_W \<noteq> 0)"

lemma user_translate_eq:
  assumes "cr3 s = page2pa d" "d < 65536"
  shows "user_translate s va w =
    (let pd = entry s d (PDX va); e = entry s (frame pd) (PTX va)
     in if user_entry pd w \<and> user_entry e w then Some (page2pa (frame e) + PGOFF va) else None)"
proof -
  have c: "PTE_ADDR (cr3 s) = page2pa d"
    using assms by (simp add: word_unat_eq_iff unat_PTE_ADDR unat_page2pa)
  have f: "PTE_ADDR x = page2pa (frame x)" for x
    by (simp add: frame_def page2pa_PGNUM)
  have "page2pa (frame x) OR PGOFF va = page2pa (frame x) + PGOFF va" for x
    by (rule page2pa_or) (simp add: unat_PGOFF)
  then show ?thesis
    unfolding user_translate_def hw_translate_def c
    by (auto simp: Let_def entry_def f PTE_P_test user_entry_def)
qed

lemma uload_eq:
  assumes "cr3 s = page2pa d" "d < 65536" "PGOFF va = 4 * i"
  shows "uload s va =
    (let pd = entry s d (PDX va); e = entry s (frame pd) (PTX va)
     in if user_entry pd False \<and> user_entry e False then Some (entry s (frame e) i) else None)"
  by (simp add: uload_def user_translate_eq [OF assms(1,2)] Let_def assms(3) entry_def slot_def)

lemma self_entry:
  assumes "d < 65536" "e = page2pa d OR PTE_P OR PTE_U"
  shows "frame e = d" "user_entry e False"
proof -
  have "unat (PTE_P OR PTE_U) < 4096"
    by (simp add: layout)
  from frame_or_flags [OF assms(1) this] show "frame e = d"
    by (simp add: assms(2))
  have "(page2pa d OR PTE_P OR PTE_U) AND PTE_U \<noteq> 0"
  proof -
    have "bit ((page2pa d OR PTE_P OR PTE_U) AND PTE_U) 2"
      by (simp add: bit_simps layout)
    then show ?thesis by auto
  qed
  then show "user_entry e False"
    by (simp add: user_entry_def assms(2))
qed

lemma vpt_eq:
  assumes "cr3 s = page2pa d" "d < 65536" "entry s d (PDX UVPT) = page2pa d OR PTE_P OR PTE_U" "unat pn < 2 ^ 20"
  shows "vpt s pn = (let e = entry s d (PDX (PGNUM2LA pn))
    in if user_entry e False then Some (entry s (frame e) (PTX (PGNUM2LA pn))) else None)"
  unfolding vpt_def using self_entry [OF assms(2,3)]
  by (simp add: uload_eq [OF assms(1,2) window_addr(3) [OF assms(4)]] window_addr(1,2) [OF assms(4)] Let_def)

lemma vpd_eq:
  assumes "cr3 s = page2pa d" "d < 65536" "entry s d (PDX UVPT) = page2pa d OR PTE_P OR PTE_U" "unat i < 1024"
  shows "vpd s i = Some (entry s d i)"
proof -
  let ?pn = "drop_bit 12 UVPT + i"
  have u: "unat ?pn = 979968 + unat i"
    using assms(4) by (simp add: unat_word_ariths layout)
  then have pn: "unat ?pn < 2 ^ 20"
    using assms(4) by simp
  have la: "unat (PGNUM2LA ?pn) = (979968 + unat i) * 4096"
    using pn u by (simp add: PGNUM2LA_def layout push_bit_eq_mult unat_word_ariths)
  have "PDX (PGNUM2LA ?pn) = PDX UVPT" "PTX (PGNUM2LA ?pn) = i"
  proof -
    show "PDX (PGNUM2LA ?pn) = PDX UVPT"
      using assms(4) by (simp add: word_unat_eq_iff unat_PDX la) (simp add: layout)
    have "(979968 + unat i) * 4096 div 4096 mod 1024 = unat i"
      using assms(4) mod_mult_self3 [of 957 1024 "unat i"] by simp
    then show "PTX (PGNUM2LA ?pn) = i"
      by (simp only: word_unat_eq_iff unat_PTX la)
  qed
  moreover have "vpd s i = vpt s ?pn"
    by (simp add: vpd_def vpt_def algebra_simps)
  ultimately show ?thesis
    using vpt_eq [OF assms(1-3) pn] self_entry [OF assms(2,3)] by (simp add: Let_def)
qed

text \<open>An environment in user mode reads through \<^verbatim>\<open>vpt\<close> what the kernel has in its page tables.\<close>

lemma window_at_user:
  assumes u: "at_user base k s c" "self_map s"
  shows "unat i < 1024 \<Longrightarrow> vpd s i = Some (entry s (dir_frame s c) i)"
    "unat pn < 2 ^ 20 \<Longrightarrow> vpt s pn = (let e = entry s (dir_frame s c) (PDX (PGNUM2LA pn))
       in if user_entry e False then Some (entry s (frame e) (PTX (PGNUM2LA pn))) else None)"
proof -
  have d: "dir_frame s c \<in> live_dirs s"
    using dir_frame_live(1) u(1) by (auto simp: at_user_def on_dir_def)
  then have m: "cr3 s = page2pa (dir_frame s c)" "dir_frame s c < 65536"
    "entry s (dir_frame s c) (PDX UVPT) = page2pa (dir_frame s c) OR PTE_P OR PTE_U"
    using u by (auto simp: at_user_def on_dir_def self_map_def live_dirs_def)
  show "unat i < 1024 \<Longrightarrow> vpd s i = Some (entry s (dir_frame s c) i)"
    by (rule vpd_eq [OF m])
  show "unat pn < 2 ^ 20 \<Longrightarrow> vpt s pn = (let e = entry s (dir_frame s c) (PDX (PGNUM2LA pn))
       in if user_entry e False then Some (entry s (frame e) (PTX (PGNUM2LA pn))) else None)"
    by (rule vpt_eq [OF m])
qed

subsection \<open>Calls on address spaces, seen from the user\<close>

text \<open>\<open>ids_kept s s'\<close>: the environments are the same ones, with the same address space each.\<close>

definition ids_kept :: "kstate \<Rightarrow> kstate \<Rightarrow> bool" where
  "ids_kept s s' \<longleftrightarrow> curenv s' = curenv s \<and> npages s' = npages s \<and>
     (\<forall>e. env_id (envs s' e) = env_id (envs s e) \<and> (env_status (envs s' e) = ENV_FREE \<longleftrightarrow> env_status (envs s e) = ENV_FREE) \<and>
        env_pgdir (envs s' e) = env_pgdir (envs s e) \<and>
        (Some e \<noteq> curenv s \<longrightarrow> env_parent_id (envs s' e) = env_parent_id (envs s e)))"

lemma ids_kept_refl [simp]: "ids_kept s s"
  by (simp add: ids_kept_def)

lemma ids_kept_trans: "ids_kept s t \<Longrightarrow> ids_kept t u \<Longrightarrow> ids_kept s u"
  by (simp add: ids_kept_def)

lemma ids_keptD:
  assumes "ids_kept s s'"
  shows "live s' = live s" "dir_frame s' = dir_frame s" "live_dirs s' = live_dirs s" "found s' = found s" "npages s' = npages s"
    "curenv s' = curenv s"
proof -
  have a: "env_id (envs s' e) = env_id (envs s e)" "env_status (envs s' e) = ENV_FREE \<longleftrightarrow> env_status (envs s e) = ENV_FREE"
    "env_pgdir (envs s' e) = env_pgdir (envs s e)" for e
    using assms by (auto simp: ids_kept_def)
  have p: "env_parent_id (envs s' e) = env_parent_id (envs s e)" if "Some e \<noteq> curenv s" for e
    using assms that by (auto simp: ids_kept_def)
  show n: "npages s' = npages s" and c: "curenv s' = curenv s"
    using assms by (auto simp: ids_kept_def)
  show l: "live s' = live s"
    by (simp add: live_def fun_eq_iff a)
  show "dir_frame s' = dir_frame s"
    by (simp add: dir_frame_def fun_eq_iff a)
  show "live_dirs s' = live_dirs s"
    by (simp add: live_dirs_def l a)
  have "envid2env s' x b = envid2env s x b" for x b
  proof (cases "b \<and> Some (unat (ENVX x)) \<noteq> curenv s")
    case True
    then show ?thesis
      using p [of "unat (ENVX x)"] by (simp add: envid2env_def Let_def a c)
  next
    case False
    then have "b = False \<or> Some (unat (ENVX x)) = curenv s"
      by blast
    then show ?thesis
      by (elim disjE) (simp_all add: envid2env_def Let_def a c)
  qed
  then show "found s' = found s"
    by (simp add: found_def fun_eq_iff)
qed

lemma aspace_cong: "live s' = live s \<Longrightarrow> dir_frame s' = dir_frame s \<Longrightarrow> pmem s' = pmem s \<Longrightarrow> aspace s' = aspace s"
  using pte_cong(1) [OF entry_pmem_cong, of s' s] by (intro ext) (simp add: aspace_def vmap_def)

lemma ids_kept_entered: "ids_kept s (entered c tf s)"
  by (simp add: ids_kept_def)

lemma lib_call_run:
  assumes u: "at_user base k s c"
    and run: "syscall (entered c (call_frame s c num a1 a2 a3 a4 a5) s) num a1 a2 a3 a4 a5 = Some (Ret v, s1)"
    and s1: "kern_inv base k s1" "mm_frame (entered c (call_frame s c num a1 a2 a3 a4 a5) s) s1" and v: "- 8 \<le> v" "v \<le> 0"
  shows "\<exists>s'. lib_syscall num check a1 a2 a3 a4 a5 s = Some (v, s') \<and> at_user base k s' c \<and> ids_kept s s' \<and>
    pmem s' = pmem s1 \<and> pages s' = pages s1 \<and> aspace s' = aspace s1"
proof -
  note M = mm_frame_sel [OF s1(2)]
  have U: "curenv s = Some c" "env_status (envs s c) = ENV_RUNNING" "live s c"
    using u by (simp_all add: at_user_def on_dir_def)
  have k: "curenv s1 = Some c" "env_status (envs s1 c) = ENV_RUNNING" "live s1 c"
    "kernel_lock s1 = \<lparr>locked = 1, lk_cpu = Some (cpunum s)\<rparr>" "cpunum s1 = cpunum s"
    using U M mm_frame_curenv [OF s1(2)] s1(2) by (simp_all add: live_def mm_frame_def)
  from lib_syscall_run [OF u run s1(1) k, of check] v obtain s' where
    s': "lib_syscall num check a1 a2 a3 a4 a5 s = Some (v, s')" "at_user base k s' c" "same_but_status s1 s'"
      "\<And>e. e \<noteq> c \<Longrightarrow> envs s' e = envs s1 e" "env_id (envs s' c) = env_id (envs s1 c)"
    by auto
  have c': "curenv s' = Some c"
    using s'(2) by (simp add: at_user_def)
  have S: "pmem s' = pmem s1" "pages s' = pages s1" "npages s' = npages s1" "\<And>e. env_pgdir (envs s' e) = env_pgdir (envs s1 e)"
    "\<And>e. env_status (envs s' e) = ENV_FREE \<longleftrightarrow> env_status (envs s1 e) = ENV_FREE"
    using s'(3) by (simp_all add: same_but_status_def env_same_def)
  have "ids_kept s1 s'"
    unfolding ids_kept_def using S s'(4,5) c' k(1) by (metis option.inject)
  moreover have "ids_kept s s1"
    using M U(1) k(1) by (simp add: ids_kept_def)
  ultimately show ?thesis
    using s'(1,2) S(1,2) aspace_cong [of s' s1] ids_keptD(1,2) [of s1 s'] ids_kept_trans by blast
qed

text \<open>What a call that changes page tables guarantees its caller in addition to its effect on the address spaces.\<close>

definition page_call :: "(nat \<Rightarrow> nat) \<Rightarrow> nat \<Rightarrow> nat \<Rightarrow> kstate \<Rightarrow> kstate \<Rightarrow> bool" where
  "page_call base k c s s' \<longleftrightarrow> at_user base k s' c \<and> ids_kept s s' \<and> kept s s' \<and> (self_map s \<longrightarrow> self_map s')"

lemma page_callI:
  assumes u: "at_user base k s c"
    and run: "syscall (entered c (call_frame s c num a1 a2 a3 a4 a5) s) num a1 a2 a3 a4 a5 = Some (Ret v, s1)"
    and s1: "kern_inv base k s1" "mm_frame (entered c (call_frame s c num a1 a2 a3 a4 a5) s) s1" and v: "- 8 \<le> v" "v \<le> 0"
    and kp: "kept (entered c (call_frame s c num a1 a2 a3 a4 a5) s) s1"
  shows "\<exists>s'. lib_syscall num check a1 a2 a3 a4 a5 s = Some (v, s') \<and> page_call base k c s s' \<and> pages s' = pages s1 \<and>
    entry s' = entry s1 \<and> aspace s' = aspace s1"
proof -
  obtain s' where s': "lib_syscall num check a1 a2 a3 a4 a5 s = Some (v, s')" "at_user base k s' c" "ids_kept s s'"
    "pmem s' = pmem s1" "pages s' = pages s1" "aspace s' = aspace s1"
    using lib_call_run [OF u run s1 v, of check] by blast
  have e: "entry s' = entry s1" "entry (entered c (call_frame s c num a1 a2 a3 a4 a5) s) = entry s"
    by (rule entry_pmem_cong, simp add: s'(4))+
  have "kept s s'"
    using kp unfolding kept_def e pte_cong(3) [OF e(2)] ids_keptD(3) [OF ids_kept_entered] .
  then show ?thesis
    using s' e(1) self_map_kept ids_keptD(3) [OF s'(3)] unfolding page_call_def by blast
qed

lemma entered_inv:
  assumes "at_user base k s c"
  shows "kern_inv base k (entered c tf s)" "curenv (entered c tf s) = Some c" "live (entered c tf s) c"
    "refs_low (entered c tf s) = refs_low s" "found (entered c tf s) = found s" "aspace (entered c tf s) = aspace s"
    "dir_frame (entered c tf s) = dir_frame s" "entry (entered c tf s) = entry s"
proof -
  note I = ids_keptD [OF ids_kept_entered [of s c tf]]
  show "kern_inv base k (entered c tf s)"
    using kern_inv_same [OF entered_same] assms by (simp add: at_user_def)
  show "curenv (entered c tf s) = Some c" "live (entered c tf s) c" "refs_low (entered c tf s) = refs_low s"
    using assms I(1) by (simp_all add: at_user_def on_dir_def refs_low_def)
  show "found (entered c tf s) = found s" "dir_frame (entered c tf s) = dir_frame s"
    using I by simp_all
  show "entry (entered c tf s) = entry s"
    by (rule entry_pmem_cong) simp
  show "aspace (entered c tf s) = aspace s"
    by (rule aspace_cong [OF I(1,2)]) simp
qed

lemma lib_sys_page_map_run:
  assumes u: "at_user base k s c" and p: "unat perm < 4096" "refs_low s"
    and e: "found s srcenvid True = Some e1" "found s dstenvid False = Some e2"
    and va: "srcva < UTOP" "dstva < UTOP" "PGOFF srcva = 0" "PGOFF dstva = 0"
    and src: "aspace s e1 (PGNUM srcva) = Some pt" "perm AND PTE_W \<noteq> 0 \<Longrightarrow> pt AND PTE_W \<noteq> 0"
  shows "\<exists>r s'. lib_sys_page_map srcenvid srcva dstenvid dstva perm s = Some (r, s') \<and> page_call base k c s s' \<and>
    (r = - E_NO_MEM \<and> aspace s' = aspace s \<and> \<not> present (entry s (dir_frame s e2) (PDX dstva)) \<and> page_free_list s = None \<or>
     r = 0 \<and> aspace s' = (aspace s)(e2 := (aspace s e2)(PGNUM dstva \<mapsto> page2pa (frame pt) OR perm OR PTE_P)))"
proof -
  let ?tf = "call_frame s c SYS_page_map srcenvid srcva dstenvid dstva perm"
  note E = entered_inv [OF u, of ?tf]
  have w: "\<not> (pt AND PTE_W = 0 \<and> perm AND PTE_W \<noteq> 0)"
    using src(2) by blast
  obtain r s1 where run: "sys_page_map (entered c ?tf s) srcenvid srcva dstenvid dstva perm = Some (Ret r, s1)" "kern_inv base k s1"
    and C: "r = - E_NO_MEM \<and> s1 = entered c ?tf s \<and> \<not> present (entry s (dir_frame s e2) (PDX dstva)) \<or>
      r = 0 \<and> mm_frame (entered c ?tf s) s1 \<and>
      aspace s1 = (aspace s)(e2 := (aspace s e2)(PGNUM dstva \<mapsto> page2pa (frame pt) OR perm OR PTE_P))"
    using sys_page_map_run [OF E(1-3) p(1), of srcenvid srcva dstenvid dstva] p(2) w
    unfolding E(4-8) e src(1) prod.case option.case va by (auto simp: va not_le)
  have r: "- 8 \<le> r" "r \<le> 0" "mm_frame (entered c ?tf s) s1"
    using C by (auto simp: layout)
  have sc: "syscall (entered c ?tf s) SYS_page_map srcenvid srcva dstenvid dstva perm = Some (Ret r, s1)"
    using run(1) by (simp add: syscall_def layout)
  obtain s' where "lib_syscall SYS_page_map True srcenvid srcva dstenvid dstva perm s = Some (r, s')" "page_call base k c s s'"
    and as: "aspace s' = aspace s1"
    using page_callI [OF u sc run(2) r(3,1,2) sys_page_map_kept [OF E(1-3) p(1) run(1)], of True] by blast
  moreover have "page_free_list s = None" if "r = - E_NO_MEM"
    using sys_page_map_no_mem [OF E(1-3)] run(1) that by simp
  ultimately show ?thesis
    using C E(6) unfolding lib_sys_page_map_def by auto
qed

lemma sys_page_alloc_mm_frame: "sys_page_alloc s envid va perm = Some (f, s') \<Longrightarrow> mm_frame s s'"
  by (auto simp: sys_page_alloc_def split: bind_splits if_splits option.splits
      intro: mm_frame_trans dest!: page_alloc_mm_frame page_insert_mm_frame)
    (meson mm_frame_trans page_free_mm_frame)+

lemma lib_sys_page_alloc_run:
  assumes u: "at_user base k s c" and e: "found s envid True = Some e" and va: "va < UTOP" "perm AND NOT PTE_SYSCALL = 0"
  shows "\<exists>r s'. lib_sys_page_alloc envid va perm s = Some (r, s') \<and> page_call base k c s s' \<and>
    (r = - E_NO_MEM \<and> aspace s' = aspace s \<and> (\<forall>fl. free_list s fl \<longrightarrow> no_room fl s (dir_frame s e) va 1) \<or>
     r = 0 \<and> (\<exists>x. entry s' (dir_frame s e) (PDX va) = x OR (perm OR PTE_P)) \<and>
     (\<exists>q. q < unat (npages s) \<and> pp_ref (pages s q) = 0 \<and> (\<forall>i. unat i < 1024 \<longrightarrow> entry s' q i = 0) \<and>
       aspace s' = (aspace s)(e := (aspace s e)(PGNUM va \<mapsto> page2pa q OR perm OR PTE_P))))"
proof -
  let ?tf = "call_frame s c SYS_page_alloc envid va perm 0 0"
  note E = entered_inv [OF u, of ?tf]
  obtain r s1 where run: "sys_page_alloc (entered c ?tf s) envid va perm = Some (Ret r, s1)" "kern_inv base k s1"
    and C: "r = - E_NO_MEM \<and> aspace s1 = aspace s \<or>
     r = 0 \<and> (\<exists>q. q < unat (npages s) \<and> pp_ref (pages s q) = 0 \<and> (\<forall>i. unat i < 1024 \<longrightarrow> entry s1 q i = 0) \<and>
       aspace s1 = (aspace s)(e := (aspace s e)(PGNUM va \<mapsto> page2pa q OR perm OR PTE_P)))"
    using sys_page_alloc_run [OF E(1-3), of envid va perm] va unfolding E(4-8) e option.case entered_sel(3,4)
    by (auto simp: not_le)
  have r: "- 8 \<le> r" "r \<le> 0"
    using C by (auto simp: layout)
  have sc: "syscall (entered c ?tf s) SYS_page_alloc envid va perm 0 0 = Some (Ret r, s1)"
    using run(1) by (simp add: syscall_def layout)
  obtain s' where "lib_syscall SYS_page_alloc True envid va perm 0 0 s = Some (r, s')" "page_call base k c s s'"
    "entry s' = entry s1" "aspace s' = aspace s1"
    using page_callI [OF u sc run(2) sys_page_alloc_mm_frame [OF run(1)] r sys_page_alloc_kept [OF E(1-3) run(1)], of True] by blast
  moreover have "\<exists>x. entry s1 (dir_frame s e) (PDX va) = x OR (perm OR PTE_P)" if "r = 0"
    using sys_page_alloc_pde [OF E(1-3), unfolded E(5,7), OF e] run(1) that by blast
  moreover have "no_room fl s (dir_frame s e) va 1" if "r = - E_NO_MEM" "free_list s fl" for fl
  proof -
    have "page_links (entered c ?tf s) = page_links s"
      by (simp add: page_links_def fun_eq_iff)
    then have fl: "free_list (entered c ?tf s) fl"
      using that(2) by (simp add: free_list_def)
    have nr: "no_room fl (entered c ?tf s) (dir_frame s e) va 1 \<longleftrightarrow> no_room fl s (dir_frame s e) va 1"
      by (simp add: no_room_def E(8))
    have ok: "\<not> (UTOP \<le> va \<or> perm AND NOT PTE_SYSCALL \<noteq> 0)"
      using va by auto
    show ?thesis
    proof (rule ccontr)
      assume "\<not> ?thesis"
      from sys_page_alloc_exact [OF E(1-3) fl, of envid va perm, unfolded E(5,7) e option.case if_not_P [OF ok] nr if_not_P [OF this]]
      obtain s2 where "sys_page_alloc (entered c ?tf s) envid va perm = Some (Ret 0, s2)"
        by blast
      then show False
        using run(1) that(1) by (simp add: layout)
    qed
  qed
  ultimately show ?thesis
    using C unfolding lib_sys_page_alloc_def by auto
qed

lemma lib_sys_page_unmap_run:
  assumes u: "at_user base k s c" and e: "found s envid True = Some e" and va: "va < UTOP" "PGOFF va = 0"
  shows "\<exists>s'. lib_sys_page_unmap envid va s = Some (0, s') \<and> page_call base k c s s' \<and>
    aspace s' = (aspace s)(e := (aspace s e)(PGNUM va := None))"
proof -
  let ?tf = "call_frame s c SYS_page_unmap envid va 0 0 0"
  note E = entered_inv [OF u, of ?tf]
  obtain s1 where run: "sys_page_unmap (entered c ?tf s) envid va = Some (Ret 0, s1)" "kern_inv base k s1"
    and C: "mm_frame (entered c ?tf s) s1" "aspace s1 = (aspace s)(e := (aspace s e)(PGNUM va := None))"
    using sys_page_unmap_run [OF E(1-3), of envid va] va unfolding E(4-8) e option.case by (auto simp: not_le)
  have sc: "syscall (entered c ?tf s) SYS_page_unmap envid va 0 0 0 = Some (Ret 0, s1)"
    using run(1) by (simp add: syscall_def layout)
  obtain s' where "lib_syscall SYS_page_unmap True envid va 0 0 0 s = Some (0, s')" "page_call base k c s s'" "aspace s' = aspace s1"
    using page_callI [OF u sc run(2) C(1) _ _ sys_page_unmap_kept [OF E(1-3) run(1)], of True] by auto
  with C(2) show ?thesis
    unfolding lib_sys_page_unmap_def by auto
qed

subsection \<open>Counting mappings\<close>

text \<open>The places at which a frame is mapped, over all address spaces.\<close>

definition amaps :: "kstate \<Rightarrow> nat \<Rightarrow> (nat \<times> u32) set" where
  "amaps s p = {(e, pn). \<exists>x. aspace s e pn = Some x \<and> frame x = p}"

lemma card_amaps:
  assumes inv: "kern_inv base k s"
  shows "card (amaps s p) = card (mapset s (live_dirs s) p)" "finite (amaps s p)"
proof -
  let ?g = "\<lambda>(e, pn). (dir_frame s e, PDX (PGNUM2LA pn), PTX (PGNUM2LA pn))"
  have ap: "live s e" "pn < PGNUM UTOP" "vmap s (dir_frame s e) (PGNUM2LA pn) = Some x" if "aspace s e pn = Some x" for e pn x
    using that by (auto simp: aspace_def split: if_splits)
  have inj: "inj_on ?g (amaps s p)"
  proof (rule inj_onI, clarify)
    fix e pn e' pn' assume "(e, pn) \<in> amaps s p" "(e', pn') \<in> amaps s p" and eq: "dir_frame s e = dir_frame s e'"
      "PDX (PGNUM2LA pn) = PDX (PGNUM2LA pn')" "PTX (PGNUM2LA pn) = PTX (PGNUM2LA pn')"
    then have l: "live s e" "live s e'" "pn < PGNUM UTOP" "pn' < PGNUM UTOP"
      using ap by (auto simp: amaps_def)
    have "PGNUM (PGNUM2LA pn) = PGNUM (PGNUM2LA pn')"
      using eq(2,3) by (simp add: PGNUM_eq_iff)
    then show "e = e' \<and> pn = pn'"
      using dir_frame_live(3) [OF inv l(2,1)] eq(1) PGNUM2LA_user(1) l by simp
  qed
  have "?g ` amaps s p = mapset s (live_dirs s) p"
  proof (intro set_eqI iffI)
    fix y assume "y \<in> ?g ` amaps s p"
    then obtain e pn x where y: "y = ?g (e, pn)" and a: "aspace s e pn = Some x" "frame x = p"
      by (auto simp: amaps_def)
    note l = ap [OF a(1)]
    show "y \<in> mapset s (live_dirs s) p"
      using l(3) a(2) dir_frame_live(1) [OF inv l(1)] PGNUM2LA_user(2) [OF l(2)] PTX_less
      by (auto simp: y mapset_def vmap_eq_Some)
  next
    fix y assume "y \<in> mapset s (live_dirs s) p"
    then obtain d i j where y: "y = (d, i, j)" and m: "d \<in> live_dirs s" "user_pdx i" "unat j < 1024" "present (pte s d i j)"
      "frame (pte s d i j) = p"
      by (auto simp: mapset_def)
    obtain e where e: "live s e" "env_pgdir (envs s e) = kpage d" "d < 65536"
      using m(1) by (auto simp: live_dirs_def)
    then have de: "dir_frame s e = d"
      by (intro dir_frame_kpage)
    let ?va = "PGADDR i j 0"
    have pd: "PDX ?va = i" "PTX ?va = j" "unat ?va = unat i * 4194304 + unat j * 4096"
      using PDX_PGADDR [OF user_pdx_less [OF m(2)] m(3), of 0] unat_PGADDR [OF user_pdx_less [OF m(2)] m(3), of 0] by simp_all
    have "unat i < 955"
      using m(2) by (simp add: user_pdx_def word_less_nat_alt unat_PDX layout)
    then have lt: "PGNUM ?va < PGNUM UTOP"
      using m(3) by (simp add: word_less_nat_alt unat_PGNUM pd(3) layout)
    have g: "PDX (PGNUM2LA (PGNUM ?va)) = i" "PTX (PGNUM2LA (PGNUM ?va)) = j"
      using PGNUM2LA_user(1) [OF lt] pd(1,2) unfolding PGNUM_eq_iff by simp_all
    have "aspace s e (PGNUM ?va) = Some (pte s d i j)"
      using e(1) lt de m(4) g by (simp add: aspace_def vmap_def)
    then have "(e, PGNUM ?va) \<in> amaps s p"
      using m(5) by (simp add: amaps_def)
    then show "y \<in> ?g ` amaps s p"
      using g de y by (intro image_eqI [of _ _ "(e, PGNUM ?va)"]) simp_all
  qed
  then have b: "bij_betw ?g (amaps s p) (mapset s (live_dirs s) p)"
    using inj by (simp add: bij_betw_def)
  obtain fl where "vm_inv base (live_dirs s) fl s"
    using kern_inv_vm [OF inv] .
  then have "finite (mapset s (live_dirs s) p)"
    using vm_invD(10) finite_mapset by blast
  then show "card (amaps s p) = card (mapset s (live_dirs s) p)" "finite (amaps s p)"
    using bij_betw_same_card [OF b] bij_betw_finite [OF b] by simp_all
qed

text \<open>A page has one reference, as a directory or a table, or one for each place it is mapped at and those of the kernel.\<close>

lemma refs_amaps:
  assumes inv: "kern_inv base k s" and p: "p < unat (npages s)"
  shows "card (amaps s p) + base p \<le> unat (pp_ref (pages s p))"
    "unat (pp_ref (pages s p)) \<le> max 1 (card (amaps s p) + base p)"
proof -
  obtain fl where v: "vm_inv base (live_dirs s) fl s"
    using kern_inv_vm [OF inv] .
  note R = vm_invD(7) [OF v p]
  show "card (amaps s p) + base p \<le> unat (pp_ref (pages s p))"
    unfolding R card_amaps(1) [OF inv] by simp
  show "unat (pp_ref (pages s p)) \<le> max 1 (card (amaps s p) + base p)"
  proof (cases "p \<in> live_dirs s \<or> tabset s (live_dirs s) p \<noteq> {}")
    case True
    then show ?thesis
      using vm_invD(8) [OF v p] by simp
  next
    case False
    then show ?thesis
      unfolding R card_amaps(1) [OF inv] by simp
  qed
qed

subsection \<open>Sharing a page\<close>

text \<open>The entry under which both environments have the page afterwards: a page that was writable or copy-on-write is copy-on-write
  and not writable, another one is as it was.\<close>

definition shared :: "u32 \<Rightarrow> u32" where
  "shared pt = (if pt AND (PTE_W OR PTE_COW) = 0 then pt else page2pa (frame pt) OR ((PGOFF pt OR PTE_COW) AND NOT PTE_W) OR PTE_P)"

lemma u32_eq_iff: "a = b \<longleftrightarrow> (\<forall>n. bit a n \<longleftrightarrow> bit b n)" for a b :: u32
  by (auto intro: bit_word_eqI)

lemma flag_bits: "bit PTE_U n \<longleftrightarrow> n = 2" "bit PTE_W n \<longleftrightarrow> n = 1" "bit PTE_COW n \<longleftrightarrow> n = 11" "bit PTE_P n \<longleftrightarrow> n = 0"
proof -
  have b: "bit (push_bit m (1 :: u32)) n \<longleftrightarrow> n = m" if "m < 32" for m
    using that by (auto simp: bit_simps)
  have F: "PTE_U = push_bit 2 1" "PTE_W = push_bit 1 1" "PTE_COW = push_bit 11 1" "PTE_P = push_bit 0 1"
    by (simp_all add: layout)
  show "bit PTE_U n \<longleftrightarrow> n = 2" "bit PTE_W n \<longleftrightarrow> n = 1" "bit PTE_COW n \<longleftrightarrow> n = 11" "bit PTE_P n \<longleftrightarrow> n = 0"
    unfolding F by (rule b, simp)+
qed

lemma flag_tests:
  "x AND PTE_U = 0 \<longleftrightarrow> \<not> bit x 2" "x AND PTE_W = 0 \<longleftrightarrow> \<not> bit x 1" "x AND PTE_COW = 0 \<longleftrightarrow> \<not> bit x 11"
  by (auto simp: u32_eq_iff bit_and_iff flag_bits)

lemma user_entry_test: "PTE_P OR PTE_U = x AND (PTE_P OR PTE_U) \<longleftrightarrow> user_entry x False"
  "PTE_U OR PTE_P = x AND (PTE_U OR PTE_P) \<longleftrightarrow> user_entry x False"
proof -
  have "user_entry x False \<longleftrightarrow> bit x 0 \<and> bit x 2"
    by (auto simp: user_entry_def present_bit flag_tests)
  moreover have "PTE_P OR PTE_U = x AND (PTE_P OR PTE_U) \<longleftrightarrow> bit x 0 \<and> bit x 2"
    unfolding u32_eq_iff bit_and_iff bit_or_iff flag_bits by metis
  ultimately show "PTE_P OR PTE_U = x AND (PTE_P OR PTE_U) \<longleftrightarrow> user_entry x False"
    "PTE_U OR PTE_P = x AND (PTE_U OR PTE_P) \<longleftrightarrow> user_entry x False"
    by (simp_all add: or.commute)
qed

lemma flags_small: "unat (PGOFF x) < 4096" "unat ((PGOFF x OR PTE_COW) AND NOT PTE_W) < 4096"
proof -
  show 1: "unat (PGOFF x) < 4096"
    by (simp add: unat_PGOFF)
  have "unat (PGOFF x OR PTE_COW) < 4096"
    using 1 by (intro flags_or) (simp_all add: layout)
  moreover have "(PGOFF x OR PTE_COW) AND NOT PTE_W \<le> PGOFF x OR PTE_COW"
    by (rule word_and_le2)
  ultimately show "unat ((PGOFF x OR PTE_COW) AND NOT PTE_W) < 4096"
    by (simp add: word_le_nat_alt)
qed

lemma frame_PGOFF: "page2pa (frame x) OR PGOFF x = x"
  unfolding frame_def page2pa_PGNUM
  by (rule bit_word_eqI) (auto simp: PTE_ADDR_shift PGOFF_def and_0xFFF bit_simps)

lemma shared_facts:
  assumes "frame pt < 65536"
  shows "frame (shared pt) = frame pt" "shared pt AND PTE_W = 0" "pt AND PTE_W \<noteq> 0 \<Longrightarrow> shared pt AND PTE_COW \<noteq> 0"
    "present pt \<Longrightarrow> present (shared pt)" "present pt \<Longrightarrow> page2pa (frame pt) OR PGOFF pt OR PTE_P = pt"
proof -
  let ?g = "(PGOFF pt OR PTE_COW) AND NOT PTE_W"
  have low: "\<not> bit (page2pa (frame pt)) n" if "n < 12" for n
    using that by (auto simp: page2pa_def bit_simps layout)
  have g: "unat (?g OR PTE_P) < 4096"
    using flags_small(2) by (intro flags_or) (simp_all add: layout)
  show f: "frame (shared pt) = frame pt"
    using frame_or_flags [OF assms g] by (simp add: shared_def)
  have w: "pt AND (PTE_W OR PTE_COW) = 0 \<longleftrightarrow> \<not> bit pt 1 \<and> \<not> bit pt 11"
    by (auto simp: u32_eq_iff bit_and_iff bit_or_iff flag_bits)
  have b: "bit (page2pa (frame pt) OR ?g OR PTE_P) n \<longleftrightarrow> n = 0 \<or> n = 11 \<or> bit pt n \<and> n \<noteq> 1" if "n < 12" for n
    using low [OF that] that by (auto simp: bit_or_iff bit_and_iff bit_not_iff flag_bits PGOFF_def and_0xFFF bit_take_bit_iff)
  show "shared pt AND PTE_W = 0" "pt AND PTE_W \<noteq> 0 \<Longrightarrow> shared pt AND PTE_COW \<noteq> 0" "present pt \<Longrightarrow> present (shared pt)"
    using b by (auto simp: shared_def w flag_tests present_bit)
  show "page2pa (frame pt) OR PGOFF pt OR PTE_P = pt" if "present pt"
  proof -
    have "pt OR PTE_P = pt"
      using that by (auto simp: u32_eq_iff bit_or_iff flag_bits present_bit)
    then show ?thesis
      using frame_PGOFF [of pt] by (simp flip: or.assoc)
  qed
qed

text \<open>\<open>shareable s c pn pt\<close>: environment \<open>c\<close> itself can read page \<open>pn\<close>, whose entry is \<open>pt\<close>.\<close>

definition shareable :: "kstate \<Rightarrow> nat \<Rightarrow> u32 \<Rightarrow> u32 \<Rightarrow> bool" where
  "shareable s c pn pt \<longleftrightarrow> aspace s c pn = Some pt \<and> user_entry pt False \<and>
     user_entry (entry s (dir_frame s c) (PDX (PGNUM2LA pn))) False"

lemma window_page:
  assumes u: "at_user base k s c" "self_map s" and pn: "pn < PGNUM UTOP"
  shows "vpd s (drop_bit 10 pn) = Some (entry s (dir_frame s c) (PDX (PGNUM2LA pn)))"
    "user_entry (entry s (dir_frame s c) (PDX (PGNUM2LA pn))) False \<Longrightarrow>
      \<exists>x. vpt s pn = Some x \<and> aspace s c pn = (if present x then Some x else None)"
proof -
  have l: "unat pn < 977920"
    using pn by (simp add: word_less_nat_alt unat_PGNUM layout)
  then have "unat (PGNUM2LA pn) = unat pn * 4096"
    by (simp add: PGNUM2LA_def layout push_bit_eq_mult unat_word_ariths)
  then have "drop_bit 10 pn = PDX (PGNUM2LA pn)"
    by (simp add: word_unat_eq_iff unat_PDX unat_drop_bit_div)
  then show "vpd s (drop_bit 10 pn) = Some (entry s (dir_frame s c) (PDX (PGNUM2LA pn)))"
    using window_at_user(1) [OF u PDX_less] by simp
  assume v: "user_entry (entry s (dir_frame s c) (PDX (PGNUM2LA pn))) False"
  have "live s c"
    using u(1) by (simp add: at_user_def on_dir_def)
  then show "\<exists>x. vpt s pn = Some x \<and> aspace s c pn = (if present x then Some x else None)"
    using window_at_user(2) [OF u, of pn] l v pn by (simp add: Let_def aspace_def vmap_def pte_def user_entry_def)
qed

lemma shareable_vpt:
  assumes u: "at_user base k s c" "self_map s" and pn: "pn < PGNUM UTOP" and sh: "shareable s c pn pt"
  shows "vpt s pn = Some pt" "present (entry s (dir_frame s c) (PDX (PGNUM2LA pn)))"
  using window_page(2) [OF u pn] sh by (auto simp: shareable_def user_entry_def split: if_splits)

text \<open>A directory entry that the user may pass stays one.\<close>

lemma user_entry_kept:
  assumes "kept s s'" "d \<in> live_dirs s" "user_pdx i" "user_entry (entry s d i) w"
  shows "user_entry (entry s' d i) w"
proof -
  obtain g where "entry s' d i = entry s d i OR g"
    using keptD(3) [OF assms(1-3)] assms(4) by (auto simp: user_entry_def)
  with assms(4) show ?thesis
    by (auto simp: user_entry_def flag_tests bit_or_iff)
qed

lemma shareable_kept:
  assumes u: "at_user base k s c" and pn: "pn < PGNUM UTOP" and sh: "shareable s c pn pt"
    and s': "page_call base k c s s'" "aspace s' c pn = Some pt'" "user_entry pt' False"
  shows "shareable s' c pn pt'"
proof -
  have k: "kept s s'" "ids_kept s s'"
    using s'(1) by (simp_all add: page_call_def)
  have "dir_frame s c \<in> live_dirs s"
    using dir_frame_live(1) u by (auto simp: at_user_def on_dir_def)
  from user_entry_kept [OF k(1) this PGNUM2LA_user(2) [OF pn]] show ?thesis
    using sh s'(2,3) ids_keptD(2) [OF k(2)] by (simp add: shareable_def)
qed

definition refs_below :: "nat \<Rightarrow> kstate \<Rightarrow> bool" where
  "refs_below n s \<longleftrightarrow> (\<forall>p < unat (npages s). unat (pp_ref (pages s p)) < n)"

lemma refs_below_low: "refs_below n s \<Longrightarrow> n \<le> 65535 \<Longrightarrow> refs_low s"
  unfolding refs_below_def refs_low_def by (meson less_le_trans)

lemma refs_step:
  assumes "kern_inv base k s" "kern_inv base k s'" "npages s' = npages s" "\<And>p. amaps s' p \<subseteq> insert x (amaps s p)"
    "refs_below n s" "0 < n"
  shows "refs_below (Suc n) s'"
  unfolding refs_below_def
proof (intro allI impI)
  fix p assume p: "p < unat (npages s')"
  have "card (amaps s' p) \<le> card (insert x (amaps s p))"
    using card_amaps(2) [OF assms(1)] assms(4) by (intro card_mono) auto
  also have "\<dots> \<le> Suc (card (amaps s p))"
    by (simp add: card_insert_le_m1 card_amaps(2) [OF assms(1)] card_insert_if)
  finally have "card (amaps s' p) + base p \<le> Suc (unat (pp_ref (pages s p)))"
    using refs_amaps(1) [OF assms(1), of p] p assms(3) by simp
  moreover have "unat (pp_ref (pages s p)) < n"
    using assms(3,5) p by (simp add: refs_below_def)
  ultimately show "unat (pp_ref (pages s' p)) < Suc n"
    using refs_amaps(2) [OF assms(2) p] assms(6) by linarith
qed

lemma page_number:
  assumes "pn < PGNUM UTOP"
  shows "PGNUM2LA pn < UTOP" "PGOFF (PGNUM2LA pn) = 0" "PGNUM (PGNUM2LA pn) = pn"
proof -
  have l: "unat pn < 977920"
    using assms by (simp add: word_less_nat_alt unat_PGNUM layout)
  then have "unat (PGNUM2LA pn) = unat pn * 4096"
    by (simp add: PGNUM2LA_def layout push_bit_eq_mult unat_word_ariths)
  with l show "PGNUM2LA pn < UTOP" "PGOFF (PGNUM2LA pn) = 0"
    by (simp_all add: word_less_nat_alt word_unat_eq_iff unat_PGOFF layout)
  show "PGNUM (PGNUM2LA pn) = pn"
    by (rule PGNUM2LA_user(1) [OF assms])
qed

text \<open>\<open>forking base k s c child ch\<close>: environment \<open>c\<close> runs and \<open>child\<close> is the identifier of its child \<open>ch\<close>.\<close>

definition forking :: "(nat \<Rightarrow> nat) \<Rightarrow> nat \<Rightarrow> kstate \<Rightarrow> nat \<Rightarrow> u32 \<Rightarrow> nat \<Rightarrow> bool" where
  "forking base k s c child ch \<longleftrightarrow> at_user base k s c \<and> self_map s \<and> found s child True = Some ch \<and> found s child False = Some ch \<and> ch \<noteq> c"

lemma forking_step: "forking base k s c child ch \<Longrightarrow> page_call base k c s s' \<Longrightarrow> forking base k s' c child ch"
  using ids_keptD(4) [of s s'] by (simp add: forking_def page_call_def)

lemma found_self: "at_user base k s c \<Longrightarrow> found s 0 b = Some c"
  by (simp add: at_user_def found_def envid2env_def stored_def)

text \<open>\<open>opens s s' c\<close>: what the directory of \<open>c\<close> lets the user pass, it still does.\<close>

definition opens :: "kstate \<Rightarrow> kstate \<Rightarrow> nat \<Rightarrow> bool" where
  "opens s s' c \<longleftrightarrow> (\<forall>i w. user_pdx i \<longrightarrow> user_entry (entry s (dir_frame s c) i) w \<longrightarrow> user_entry (entry s' (dir_frame s c) i) w)"

lemma page_call_opens:
  assumes "at_user base k s c" "page_call base k c s s'"
  shows "opens s s' c"
proof -
  have "dir_frame s c \<in> live_dirs s"
    using dir_frame_live(1) assms(1) by (auto simp: at_user_def on_dir_def)
  then show ?thesis
    using user_entry_kept assms(2) unfolding opens_def page_call_def by blast
qed

lemma amaps_upd:
  assumes "aspace s' = (aspace s)(e := (aspace s e)(pn \<mapsto> x))"
  shows "amaps s' p \<subseteq> insert (e, pn) (amaps s p)"
  by (auto simp: amaps_def assms split: if_splits)

lemma aspace_frame:
  assumes inv: "kern_inv base k s" and as: "aspace s e pn = Some x"
  shows "frame x < 65536" "frame x < unat (npages s)" "present x" "mapset s (live_dirs s) (frame x) \<noteq> {}" "pp_ref (pages s (frame x)) \<noteq> 0"
proof -
  have a: "live s e" "pn < PGNUM UTOP" "vmap s (dir_frame s e) (PGNUM2LA pn) = Some x"
    using as by (auto simp: aspace_def split: if_splits)
  then have x: "x = pte s (dir_frame s e) (PDX (PGNUM2LA pn)) (PTX (PGNUM2LA pn))" "present x"
    by (simp_all add: vmap_eq_Some)
  obtain fl where v: "vm_inv base (live_dirs s) fl s"
    using kern_inv_vm [OF inv] .
  note d = dir_frame_live(1) [OF inv a(1)] and p = PGNUM2LA_user(2) [OF a(2)]
  note M = vm_mapped [OF v d p PTX_less x(2) [unfolded x(1)], folded x(1)]
  show "frame x < unat (npages s)" "pp_ref (pages s (frame x)) \<noteq> 0" "present x"
    using M(1,4) x(2) by simp_all
  then show "frame x < 65536"
    using vm_invD(9) [OF v] by simp
  have "(dir_frame s e, PDX (PGNUM2LA pn), PTX (PGNUM2LA pn)) \<in> mapset s (live_dirs s) (frame x)"
    using d p PTX_less x by (simp add: mapset_def)
  then show "mapset s (live_dirs s) (frame x) \<noteq> {}"
    by blast
qed

lemma duppage_run:
  assumes f: "forking base k s c child ch" and pn: "pn < PGNUM UTOP" and sh: "shareable s c pn pt" and low: "refs_below 65534 s"
  shows "\<exists>s'. duppage child pn s = Some (0, s') \<and> forking base k s' c child ch \<and> ids_kept s s' \<and> opens s s' c \<and>
    (aspace s' = (aspace s)(c := (aspace s c)(pn \<mapsto> shared pt)) \<and> page_free_list s = None \<or>
     aspace s' = (aspace s)(c := (aspace s c)(pn \<mapsto> shared pt), ch := (aspace s ch)(pn \<mapsto> shared pt)))"
proof -
  have u: "at_user base k s c" "self_map s" and id: "found s child False = Some ch" and ne: "ch \<noteq> c"
    using f by (simp_all add: forking_def)
  note pd = window_page(1) [OF u pn] and V = shareable_vpt [OF u pn sh] and P = page_number [OF pn] and S = found_self [OF u(1)]
  have ue: "user_entry pt False" "user_entry (entry s (dir_frame s c) (PDX (PGNUM2LA pn))) False" and as: "aspace s c pn = Some pt"
    using sh by (simp_all add: shareable_def)
  have pt: "present pt" "frame pt < 65536"
  proof -
    show "present pt"
      using ue(1) by (simp add: user_entry_def)
    show "frame pt < 65536"
      using aspace_frame(1) [OF _ as] u(1) unfolding at_user_def by blast
  qed
  note D = duppage_def PT_DIGITS_def pd V(1) user_entry_test ue
  have as': "aspace s c (PGNUM (PGNUM2LA pn)) = Some pt"
    by (simp add: P(3) as)
  show ?thesis
  proof (cases "pt AND (PTE_W OR PTE_COW) = 0")
    case True
    have w: "PGOFF pt AND PTE_W = 0"
    proof -
      have "\<not> bit pt 1"
        using True by (auto simp: u32_eq_iff bit_and_iff bit_or_iff flag_bits)
      then show ?thesis
        by (simp add: flag_tests PGOFF_def and_0xFFF bit_take_bit_iff)
    qed
    have sp: "shared pt = pt" "page2pa (frame pt) OR PGOFF pt OR PTE_P = pt"
      using True shared_facts(5) [OF pt(2,1)] by (simp_all add: shared_def)
    obtain r s' where run: "lib_sys_page_map 0 (PGNUM2LA pn) child (PGNUM2LA pn) (PGOFF pt) s = Some (r, s')" "page_call base k c s s'"
      "aspace s' = aspace s \<and> page_free_list s = None \<or> aspace s' = (aspace s)(ch := (aspace s ch)(pn \<mapsto> pt))"
      using lib_sys_page_map_run [OF u(1) flags_small(1) [of pt] refs_below_low [OF low] S id P(1,1,2,2) as'] w sp(2) P(3) by auto
    have "duppage child pn s = Some (0, s')"
      using True run(1) by (simp add: D)
    moreover have "(aspace s)(c := (aspace s c)(pn \<mapsto> pt)) = aspace s"
      using as by (auto simp: fun_eq_iff)
    ultimately show ?thesis
      using run(2,3) forking_step [OF f run(2)] page_call_opens [OF u(1) run(2)] ne
      unfolding sp(1) page_call_def by (auto simp: fun_upd_twist)
  next
    case False
    let ?g = "(PGOFF pt OR PTE_COW) AND NOT PTE_W"
    have w: "?g AND PTE_W = 0"
      by (simp add: flag_tests bit_and_iff bit_not_iff flag_bits)
    have sp: "shared pt = page2pa (frame pt) OR ?g OR PTE_P"
      using False by (simp add: shared_def)
    obtain r s1 where run1: "lib_sys_page_map 0 (PGNUM2LA pn) child (PGNUM2LA pn) ?g s = Some (r, s1)" "page_call base k c s s1"
      "aspace s1 = aspace s \<and> page_free_list s = None \<or> aspace s1 = (aspace s)(ch := (aspace s ch)(pn \<mapsto> shared pt))"
      using lib_sys_page_map_run [OF u(1) flags_small(2) [of pt] refs_below_low [OF low] S id P(1,1,2,2) as'] w sp P(3) by auto
    have as1: "aspace s1 c pn = Some pt"
      using run1(3) as ne by auto
    have f1: "forking base k s1 c child ch"
      by (rule forking_step [OF f run1(2)])
    then have u1: "at_user base k s1 c" "self_map s1"
      by (simp_all add: forking_def)
    note sh1 = shareable_kept [OF u(1) pn sh run1(2) as1 ue(1)]
    note V1 = shareable_vpt [OF u1 pn sh1] and S1 = found_self [OF u1(1)]
    have "refs_below (Suc 65534) s1"
    proof (rule refs_step [of base k s s1 "(ch, pn)"])
      show "kern_inv base k s" "kern_inv base k s1"
        using u(1) u1(1) by (simp_all add: at_user_def)
      show "npages s1 = npages s"
        using run1(2) ids_keptD(5) by (auto simp: page_call_def)
      show "amaps s1 p \<subseteq> insert (ch, pn) (amaps s p)" for p
        using run1(3)
      proof (elim disjE conjE)
        assume "aspace s1 = aspace s"
        then show ?thesis by (auto simp: amaps_def)
      qed (rule amaps_upd)
    qed (use low in auto)
    then have low1: "refs_low s1"
      by (rule refs_below_low) simp
    have as1': "aspace s1 c (PGNUM (PGNUM2LA pn)) = Some pt"
      by (simp add: P(3) as1)
    obtain r' s' where run2: "lib_sys_page_map 0 (PGNUM2LA pn) 0 (PGNUM2LA pn) ?g s1 = Some (r', s')" "page_call base k c s1 s'"
      "aspace s' = (aspace s1)(c := (aspace s1 c)(pn \<mapsto> shared pt))"
      using lib_sys_page_map_run [OF u1(1) flags_small(2) [of pt] low1 S1 S1 P(1,1,2,2) as1'] w sp P(3) V1(2) by auto
    have "duppage child pn s = Some (0, s')"
      using False run1(1) run2(1) V1(1) by (simp add: D)
    moreover have "ids_kept s s'"
      using run1(2) run2(2) ids_kept_trans by (auto simp: page_call_def)
    moreover have "opens s s' c"
      using page_call_opens [OF u(1) run1(2)] page_call_opens [OF u1(1) run2(2)] ids_keptD(2) [of s s1] run1(2)
      by (simp add: opens_def page_call_def)
    ultimately show ?thesis
      using run1(3) run2(3) forking_step [OF f1 run2(2)] ne by (auto simp: fun_upd_twist)
  qed
qed

subsection \<open>The loop of \<^verbatim>\<open>fork\<close>\<close>

lemma fork_page_run:
  assumes f: "forking base k s c child ch" and pn: "pn < PGNUM UXSTACKBASE" and low: "refs_below 65534 s"
    and push: "aspace s c pn \<noteq> None \<Longrightarrow> stack_push esp s = Some s"
  shows "\<exists>s'. fork_page esp child pn s = Some s' \<and> forking base k s' c child ch \<and> ids_kept s s' \<and> opens s s' c \<and>
    (aspace s' = aspace s \<and> (\<forall>pt. \<not> shareable s c pn pt) \<or>
     (\<exists>pt. shareable s c pn pt \<and>
       (aspace s' = (aspace s)(c := (aspace s c)(pn \<mapsto> shared pt)) \<and> page_free_list s = None \<or>
        aspace s' = (aspace s)(c := (aspace s c)(pn \<mapsto> shared pt), ch := (aspace s ch)(pn \<mapsto> shared pt)))))"
proof -
  have u: "at_user base k s c" "self_map s"
    using f by (simp_all add: forking_def)
  have pn': "pn < PGNUM UTOP" "pn \<noteq> PGNUM UXSTACKBASE" "\<not> PGNUM UXSTACKBASE \<le> pn"
    using pn by (auto simp: word_less_nat_alt word_le_nat_alt unat_PGNUM layout)
  let ?pd = "entry s (dir_frame s c) (PDX (PGNUM2LA pn))"
  note pd = window_page(1) [OF u pn'(1)]
  note F = fork_page_def pn'(2,3) pd user_entry_test
  have stop: ?thesis if "fork_page esp child pn s = Some s" "\<And>pt. \<not> shareable s c pn pt"
    using that f by (intro exI [of _ s]) (simp add: opens_def)
  show ?thesis
  proof (cases "user_entry ?pd False")
    case False
    then show ?thesis
      by (intro stop) (simp_all add: F shareable_def)
  next
    case pdu: True
    then obtain x where x: "vpt s pn = Some x" "aspace s c pn = (if present x then Some x else None)"
      using window_page(2) [OF u pn'(1)] by blast
    show ?thesis
    proof (cases "user_entry x False")
      case False
      then show ?thesis
        using pdu x by (intro stop) (auto simp: F shareable_def split: if_splits)
    next
      case True
      then have sh: "shareable s c pn x"
        using pdu x(2) by (simp add: shareable_def user_entry_def)
      obtain s' where s': "duppage child pn s = Some (0, s')" "forking base k s' c child ch" "ids_kept s s'" "opens s s' c"
        "aspace s' = (aspace s)(c := (aspace s c)(pn \<mapsto> shared x)) \<and> page_free_list s = None \<or>
         aspace s' = (aspace s)(c := (aspace s c)(pn \<mapsto> shared x), ch := (aspace s ch)(pn \<mapsto> shared x))"
        using duppage_run [OF f pn'(1) sh low] by blast
      have "fork_page esp child pn s = Some s'"
        using pdu True x(1) s'(1) push sh by (simp add: F shareable_def)
      with s'(2-5) sh show ?thesis by blast
    qed
  qed
qed

text \<open>\<open>stack_ok s c esp st\<close>: the page below the stack pointer \<open>esp\<close> of \<open>c\<close> is writable, with the entry \<open>st\<close>, and the last page mapped
  below the exception stack; the page the handler uses is free.\<close>

definition stack_ok :: "kstate \<Rightarrow> nat \<Rightarrow> u32 \<Rightarrow> u32 \<Rightarrow> bool" where
  "stack_ok s c esp st \<longleftrightarrow> aspace s c (PGNUM (esp - 4)) = Some st \<and> user_entry st True \<and>
     user_entry (entry s (dir_frame s c) (PDX (esp - 4))) True \<and> PGNUM (esp - 4) < PGNUM UXSTACKBASE \<and>
     (\<forall>pn. PGNUM (esp - 4) < pn \<longrightarrow> pn < PGNUM UXSTACKBASE \<longrightarrow> aspace s c pn = None) \<and> aspace s c (PGNUM PFTEMP) = None"

lemma user_translate_aspace:
  assumes u: "at_user base k s c" and as: "aspace s c (PGNUM va) = Some x" and w: "user_entry x w"
    "user_entry (entry s (dir_frame s c) (PDX va)) w"
  shows "user_translate s va w \<noteq> None"
proof -
  have inv: "kern_inv base k s" "cr3 s = page2pa (dir_frame s c)" "live s c"
    using u by (simp_all add: at_user_def on_dir_def)
  have d: "dir_frame s c < 65536"
    using dir_frame_live(1) [OF inv(1,3)] by (simp add: live_dirs_def)
  have lt: "PGNUM va < PGNUM UTOP" and v: "vmap s (dir_frame s c) (PGNUM2LA (PGNUM va)) = Some x"
    using as by (auto simp: aspace_def split: if_splits)
  have "PDX (PGNUM2LA (PGNUM va)) = PDX va" "PTX (PGNUM2LA (PGNUM va)) = PTX va"
    using PGNUM2LA_user(1) [OF lt] by (simp_all add: PGNUM_eq_iff)
  with v have "entry s (frame (entry s (dir_frame s c) (PDX va))) (PTX va) = x"
    using w by (auto simp: vmap_eq_Some pte_def user_entry_def split: if_splits)
  then show ?thesis
    using w by (simp add: user_translate_eq [OF inv(2) d] Let_def)
qed

lemma stack_push_writable:
  assumes ok: "stack_ok s c esp st" and t: "at_user base k t c" "ids_kept s t" "opens s t c" "aspace t c (PGNUM (esp - 4)) = Some st"
  shows "stack_push esp t = Some t"
proof -
  have w: "user_entry st True" "user_entry (entry s (dir_frame s c) (PDX (esp - 4))) True" "PGNUM (esp - 4) < PGNUM UXSTACKBASE"
    using ok by (simp_all add: stack_ok_def)
  have "esp - 4 < UTOP"
    using w(3) by (simp add: word_less_nat_alt unat_PGNUM layout)
  then have "user_entry (entry t (dir_frame t c) (PDX (esp - 4))) True"
    using t(3) w(2) below_UTOP ids_keptD(2) [OF t(2)] by (simp add: opens_def)
  then have "user_translate t (esp - 4) True \<noteq> None"
    by (rule user_translate_aspace [OF t(1,4) w(1)])
  then show ?thesis
    by (auto simp: stack_push_def)
qed

text \<open>The state of the two address spaces at a page the loop has passed, \<open>None\<close> in the child only when no page was free.\<close>

definition passed :: "kstate \<Rightarrow> u32 \<Rightarrow> u32 \<Rightarrow> nat \<Rightarrow> nat \<Rightarrow> kstate \<Rightarrow> u32 \<Rightarrow> bool" where
  "passed s esp child c ch s' pn \<longleftrightarrow>
     (case aspace s c pn of
        None \<Rightarrow> aspace s' c pn = None \<and> aspace s' ch pn = None
      | Some pt \<Rightarrow>
          aspace s' c pn = Some (shared pt) \<and>
            (aspace s' ch pn = Some (shared pt) \<or>
             aspace s' ch pn = None \<and>
               (\<exists>t. for_each (fork_page esp child) (map word_of_nat [0..<unat pn]) s = Some t \<and> page_free_list t = None)) \<or>
          \<not> shareable s c pn pt \<and> aspace s' c pn = Some pt \<and> aspace s' ch pn = None)"

definition fork_inv :: "(nat \<Rightarrow> nat) \<Rightarrow> nat \<Rightarrow> kstate \<Rightarrow> u32 \<Rightarrow> u32 \<Rightarrow> nat \<Rightarrow> nat \<Rightarrow> nat \<Rightarrow> kstate \<Rightarrow> bool" where
  "fork_inv base k s esp child c ch m s' \<longleftrightarrow> forking base k s' c child ch \<and> ids_kept s s' \<and> opens s s' c \<and>
     (\<forall>e. e \<noteq> c \<longrightarrow> e \<noteq> ch \<longrightarrow> aspace s' e = aspace s e) \<and>
     (\<forall>pn. m \<le> unat pn \<longrightarrow> aspace s' c pn = aspace s c pn \<and> aspace s' ch pn = None) \<and>
     (\<forall>pn. unat pn < m \<longrightarrow> passed s esp child c ch s' pn)"

lemma passed_cong:
  assumes "passed s esp child c ch t pn" "aspace t' c pn = aspace t c pn" "aspace t' ch pn = aspace t ch pn"
  shows "passed s esp child c ch t' pn"
  using assms unfolding passed_def by (cases "aspace s c pn") simp_all

lemma passed_frames:
  assumes inv: "kern_inv base k s" and p: "passed s esp child c ch s' pn"
  shows "aspace s' c pn = Some x \<Longrightarrow> \<exists>y. aspace s c pn = Some y \<and> frame y = frame x"
    "aspace s' ch pn = Some x \<Longrightarrow> \<exists>y. aspace s c pn = Some y \<and> frame y = frame x"
  using p shared_facts(1) aspace_frame(1) [OF inv] unfolding passed_def by (auto split: option.splits)

lemma fork_inv_amaps:
  assumes inv: "kern_inv base k s" and f: "fork_inv base k s esp child c ch m s'"
  shows "amaps s' p \<subseteq> amaps s p \<union> (\<lambda>(e, pn). (ch, pn)) ` amaps s p"
proof (clarsimp simp: amaps_def)
  fix e pn x assume x: "aspace s' e pn = Some x" and no: "(e, pn) \<notin> (\<lambda>(e, pn). (ch, pn)) ` {(e, pn). \<exists>y. aspace s e pn = Some y \<and> frame y = frame x}"
  show "\<exists>y. aspace s e pn = Some y \<and> frame y = frame x"
  proof (cases "e = c \<or> e = ch")
    case False
    with f x show ?thesis by (auto simp: fork_inv_def)
  next
    case True
    have *: "\<exists>y. aspace s c pn = Some y \<and> frame y = frame x"
    proof (cases "unat pn < m")
      case l: True
      then have "passed s esp child c ch s' pn"
        using f by (simp add: fork_inv_def)
      from passed_frames [OF inv this, of x] True x show ?thesis by auto
    next
      case False
      then show ?thesis
        using f x True by (auto simp: fork_inv_def)
    qed
    then have "e \<noteq> ch"
      using no by force
    with * True show ?thesis by simp
  qed
qed

lemma fork_inv_refs:
  assumes inv: "kern_inv base k s" and f: "fork_inv base k s esp child c ch m s'" and low: "refs_below 32767 s"
  shows "refs_below 65534 s'"
  unfolding refs_below_def
proof (intro allI impI)
  fix p assume p: "p < unat (npages s')"
  have n: "npages s' = npages s" "kern_inv base k s'"
    using f ids_keptD(5) by (auto simp: fork_inv_def forking_def at_user_def)
  note fin = card_amaps(2) [OF inv, of p]
  have "card (amaps s' p) \<le> card (amaps s p \<union> (\<lambda>(e, pn). (ch, pn)) ` amaps s p)"
    using fork_inv_amaps [OF inv f] fin by (intro card_mono) auto
  also have "\<dots> \<le> card (amaps s p) + card (amaps s p)"
    using card_Un_le card_image_le [OF fin] by (meson add_left_mono le_trans)
  finally have "card (amaps s' p) + base p \<le> 2 * unat (pp_ref (pages s p))"
    using refs_amaps(1) [OF inv, of p] p n(1) by simp
  moreover have "unat (pp_ref (pages s p)) < 32767"
    using low p n(1) by (simp add: refs_below_def)
  ultimately show "unat (pp_ref (pages s' p)) < 65534"
    using refs_amaps(2) [OF n(2) p] by linarith
qed

lemma fork_inv_step:
  assumes inv: "kern_inv base k s" and low: "refs_below 32767 s" and f: "fork_inv base k s esp child c ch m t" and m: "m < unat (PGNUM UXSTACKBASE)"
    and t: "for_each (fork_page esp child) (map word_of_nat [0..<m]) s = Some t" and st: "stack_ok s c esp st"
  shows "\<exists>t'. fork_page esp child (word_of_nat m) t = Some t' \<and> fork_inv base k s esp child c ch (Suc m) t'"
proof -
  let ?pn = "word_of_nat m :: u32"
  have um: "unat ?pn = m"
  proof -
    have "m < 4294967296"
      using m unat_u32_bound [of "PGNUM UXSTACKBASE"] by linarith
    then show ?thesis by (simp add: unat_of_nat)
  qed
  then have pn: "?pn < PGNUM UXSTACKBASE"
    using m by (simp add: word_less_nat_alt)
  have F: "forking base k t c child ch" "ids_kept s t" "opens s t c" "\<And>e. e \<noteq> c \<Longrightarrow> e \<noteq> ch \<Longrightarrow> aspace t e = aspace s e"
    "\<And>pn. m \<le> unat pn \<Longrightarrow> aspace t c pn = aspace s c pn \<and> aspace t ch pn = None"
    "\<And>pn. unat pn < m \<Longrightarrow> passed s esp child c ch t pn"
    using f by (simp_all add: fork_inv_def)
  have ne: "ch \<noteq> c" and ut: "at_user base k t c"
    using F(1) by (simp_all add: forking_def)
  have here: "aspace t c ?pn = aspace s c ?pn" "aspace t ch ?pn = None"
    using F(5) [of ?pn] um by simp_all
  have push: "stack_push esp t = Some t" if "aspace t c ?pn \<noteq> None"
  proof -
    have "\<not> PGNUM (esp - 4) < ?pn"
      using st that here(1) pn by (auto simp: stack_ok_def)
    then have "aspace t c (PGNUM (esp - 4)) = aspace s c (PGNUM (esp - 4))"
      using F(5) [of "PGNUM (esp - 4)"] um by (simp add: word_less_nat_alt)
    then show ?thesis
      using stack_push_writable [OF st ut F(2,3)] st by (simp add: stack_ok_def)
  qed
  obtain t' where t': "fork_page esp child ?pn t = Some t'" "forking base k t' c child ch" "ids_kept t t'" "opens t t' c" and
    C: "aspace t' = aspace t \<and> (\<forall>pt. \<not> shareable t c ?pn pt) \<or>
     (\<exists>pt. shareable t c ?pn pt \<and>
       (aspace t' = (aspace t)(c := (aspace t c)(?pn \<mapsto> shared pt)) \<and> page_free_list t = None \<or>
        aspace t' = (aspace t)(c := (aspace t c)(?pn \<mapsto> shared pt), ch := (aspace t ch)(?pn \<mapsto> shared pt))))"
    using fork_page_run [OF F(1) pn fork_inv_refs [OF inv f low] push] by blast
  have other: "aspace t' c q = aspace t c q \<and> aspace t' ch q = aspace t ch q" if "q \<noteq> ?pn" for q
    using C that ne by auto
  have "user_pdx (PDX (PGNUM2LA ?pn))"
    using pn by (intro PGNUM2LA_user(2)) (simp add: word_less_nat_alt unat_PGNUM layout)
  then have sh: "shareable t c ?pn pt" if "shareable s c ?pn pt" for pt
    using that here(1) F(3) ids_keptD(2) [OF F(2)] by (simp add: shareable_def opens_def)
  have "passed s esp child c ch t' ?pn"
    using C
  proof (elim disjE exE conjE)
    assume "aspace t' = aspace t" "\<forall>pt. \<not> shareable t c ?pn pt"
    then show ?thesis
      using here sh by (auto simp: passed_def split: option.splits)
  next
    fix pt assume "shareable t c ?pn pt" "aspace t' = (aspace t)(c := (aspace t c)(?pn \<mapsto> shared pt))" "page_free_list t = None"
    then show ?thesis
      using here ne t by (auto simp: passed_def shareable_def um)
  next
    fix pt assume "shareable t c ?pn pt" "aspace t' = (aspace t)(c := (aspace t c)(?pn \<mapsto> shared pt), ch := (aspace t ch)(?pn \<mapsto> shared pt))"
    then show ?thesis
      using here ne by (auto simp: passed_def shareable_def)
  qed
  moreover have "passed s esp child c ch t' q" if "unat q < m" for q
  proof -
    have "q \<noteq> ?pn"
      using that um by auto
    then have "aspace t' c q = aspace t c q" "aspace t' ch q = aspace t ch q"
      using other by blast+
    then show ?thesis
      by (rule passed_cong [OF F(6) [OF that]])
  qed
  ultimately have "passed s esp child c ch t' q" if "unat q < Suc m" for q
    using that um by (cases "unat q = m") (auto simp: word_unat_eq_iff less_Suc_eq)
  moreover have "aspace t' c q = aspace s c q \<and> aspace t' ch q = None" if "Suc m \<le> unat q" for q
  proof -
    have "q \<noteq> ?pn" "m \<le> unat q"
      using that um by auto
    then show ?thesis
      using F(5) other by simp
  qed
  moreover have "aspace t' e = aspace s e" if "e \<noteq> c" "e \<noteq> ch" for e
    using C F(4) [OF that] that by auto
  moreover have "opens s t' c"
    using F(3) t'(4) ids_keptD(2) [OF F(2)] by (simp add: opens_def)
  moreover have "ids_kept s t'"
    by (rule ids_kept_trans [OF F(2) t'(3)])
  ultimately show ?thesis
    using t'(1,2) unfolding fork_inv_def by blast
qed

lemma fork_loop_run:
  assumes f: "forking base k s c child ch" and low: "refs_below 32767 s" and new: "\<And>pn. aspace s ch pn = None"
    and st: "stack_ok s c esp st" and m: "m \<le> unat (PGNUM UXSTACKBASE)"
  shows "\<exists>t. for_each (fork_page esp child) (map word_of_nat [0..<m]) s = Some t \<and> fork_inv base k s esp child c ch m t"
  using m
proof (induction m)
  case 0
  then show ?case
    using f new by (simp add: fork_inv_def opens_def)
next
  case (Suc m)
  have inv: "kern_inv base k s"
    using f by (simp add: forking_def at_user_def)
  obtain t where t: "for_each (fork_page esp child) (map word_of_nat [0..<m]) s = Some t" "fork_inv base k s esp child c ch m t"
    using Suc by auto
  from fork_inv_step [OF inv low t(2) _ t(1) st] Suc.prems obtain t' where
    "fork_page esp child (word_of_nat m) t = Some t'" "fork_inv base k s esp child c ch (Suc m) t'"
    by auto
  then show ?case
    using t(1) by (simp add: for_each_append)
qed

subsection \<open>A concrete parent and child\<close>

text \<open>\<open>demo_pair pt\<close>: the running environment 0 maps the page at \<^verbatim>\<open>0x800000\<close> to frame 5 as in \<open>demo_share\<close>, with the entry \<open>pt\<close>; its child,
  environment 1, has an empty address space in frame 3, both directories have the window at \<^verbatim>\<open>UVPT\<close>, and two pages are free. In
  \<open>demo_fork\<close> the page is writable.\<close>

definition demo_pair :: "u32 \<Rightarrow> kstate" where
  "demo_pair pt = (kst (slot (kpage 2) 0) pt (kst (slot (kpage 3) 0x3BD) 0x3005 (kst (slot (kpage 1) 0x3BD) 0x1005 demo_share)))
     \<lparr>pages := (pages demo_share)(3 := (demo_pages 3)\<lparr>pp_ref := 1\<rparr>, 6 := (demo_pages 6)\<lparr>pp_link := Some 7\<rparr>),
      page_free_list := Some 6, env_free_list := Some 2,
      envs := (envs demo_run)(1 := (demo_env 1)\<lparr>env_id := 0x1001, env_parent_id := 0x1000, env_status := ENV_NOT_RUNNABLE, env_pgdir := kpage 3\<rparr>),
      kernel_lock := \<lparr>locked = 0, lk_cpu = None\<rparr>, cr3 := 0x1000\<rparr>"

abbreviation demo_fork :: kstate where
  "demo_fork \<equiv> demo_pair 0x5007"

lemma demo_pair_sel [simp]:
  "npages (demo_pair pt) = 8" "kern_pgdir (demo_pair pt) = 0xF0000000" "env_free_list (demo_pair pt) = Some 2" "curenv (demo_pair pt) = Some 0"
  "cr3 (demo_pair pt) = 0x1000" "kernel_lock (demo_pair pt) = \<lparr>locked = 0, lk_cpu = None\<rparr>" "page_free_list (demo_pair pt) = Some 6"
  "envs (demo_pair pt) = (envs demo_run)(1 := (demo_env 1)\<lparr>env_id := 0x1001, env_parent_id := 0x1000, env_status := ENV_NOT_RUNNABLE, env_pgdir := kpage 3\<rparr>)"
proof -
  have "cpus (demo_pair pt) = cpus demo_share" "cpunum (demo_pair pt) = cpunum demo_share"
    by (simp_all add: demo_pair_def)
  then show "curenv (demo_pair pt) = Some 0"
    using demo_share_sel(5) by (simp add: curenv_def)
qed (simp_all add: demo_pair_def)

lemma demo_pair_entry:
  assumes "f < 65536" "unat i < 1024"
  shows "entry (demo_pair pt) f i = (if f = 3 \<and> i = 0x3BD then 0x3005 else if f = 1 \<and> i = 0x3BD then 0x1005
     else if f = 2 \<and> i = 0 then pt else if f = 1 \<and> i = 2 then 0x2007 else 0)"
proof -
  have "entry (demo_pair pt) = entry (kst (slot (kpage 2) 0) pt (kst (slot (kpage 3) 0x3BD) 0x3005 (kst (slot (kpage 1) 0x3BD) 0x1005 demo_share)))"
    by (rule entry_pmem_cong) (simp add: demo_pair_def)
  then show ?thesis
    using assms by (simp add: entry_kst demo_share_entry)
qed

lemma demo_pair_user_entry:
  assumes "f < 65536" "user_pdx i"
  shows "entry (demo_pair pt) f i = (if f = 2 \<and> i = 0 then pt else if f = 1 \<and> i = 2 then 0x2007 else 0)"
proof -
  have "\<not> user_pdx 0x3BD"
    by (simp add: user_pdx_def PDX_def layout)
  then show ?thesis
    using assms user_pdx_less demo_pair_entry by auto
qed

lemma demo_pair_pte:
  assumes "user_pdx i" "unat j < 1024"
  shows "pte (demo_pair pt) (Suc 0) i j = (if i = 2 \<and> j = 0 then pt else 0)" "pte (demo_pair pt) 3 i j = 0"
  using assms by (auto simp: pte_def demo_pair_user_entry demo_pair_entry demo_frames)

lemma demo_pair_sets:
  assumes "frame pt = 5" "present pt"
  shows "tabset (demo_pair pt) {1, 3} p = (if p = 2 then {(1, 2)} else {})"
  "mapset (demo_pair pt) {1, 3} p = (if p = 5 then {(1, 2, 0)} else {})"
  using assms by (auto simp: tabset_def mapset_def demo_pair_user_entry demo_pair_pte demo_frames split: if_splits)

lemma demo_pair_envs: "live (demo_pair pt) e \<longleftrightarrow> e < 2" "live_dirs (demo_pair pt) = {1, 3}" "envs_ok (demo_pair pt)"
proof -
  show live: "live (demo_pair pt) e \<longleftrightarrow> e < 2" for e
    by (auto simp: live_def demo_env_def layout)
  have inj: "kpage d = kpage 1 \<longleftrightarrow> d = 1" "kpage d = kpage 3 \<longleftrightarrow> d = 3" if "d < 65536" for d
    using kpage_inject [OF that, of 1] kpage_inject [OF that, of 3] by simp_all
  have two: "e < 2 \<longleftrightarrow> e = 0 \<or> e = Suc 0" for e :: nat
    by auto
  have dir: "env_pgdir (envs (demo_pair pt) 0) = kpage 1" "env_pgdir (envs (demo_pair pt) (Suc 0)) = kpage 3"
    by simp_all
  have "(\<exists>e. live (demo_pair pt) e \<and> env_pgdir (envs (demo_pair pt) e) = kpage d) \<longleftrightarrow> kpage d = kpage 1 \<or> kpage d = kpage 3" for d
    unfolding live two using dir by metis
  then show "live_dirs (demo_pair pt) = {1, 3}"
    unfolding live_dirs_def using inj by auto
  have "linked (env_links (demo_pair pt)) (if 2 < NENV then Some 2 else None) [2..<NENV]"
    by (rule env_chain_linked) (simp add: env_links_def demo_env_def NENV_def)
  moreover have "env_free_list (demo_pair pt) = (if 2 < NENV then Some 2 else None)"
    by (simp add: NENV_def)
  moreover have free: "env_status (envs (demo_pair pt) e) = ENV_FREE \<longleftrightarrow> 2 \<le> e" for e
    by (auto simp: demo_env_def layout)
  have "set [2..<NENV] = {e. e < NENV \<and> env_status (envs (demo_pair pt) e) = ENV_FREE}"
    unfolding free by (intro set_eqI) (simp only: set_upt atLeastLessThan_iff mem_Collect_eq conj_commute)
  ultimately have "\<exists>l. linked (env_links (demo_pair pt)) (env_free_list (demo_pair pt)) l \<and> set l = {e. e < NENV \<and> env_status (envs (demo_pair pt) e) = ENV_FREE}"
    by (intro exI [of _ "[2..<NENV]"]) (simp only: simp_thms)
  moreover have "\<exists>d<65536. env_pgdir (envs (demo_pair pt) e) = kpage d" if "e < 2" for e
  proof -
    have "env_pgdir (envs (demo_pair pt) e) = kpage (if e = 0 then 1 else 3)"
      using that dir unfolding two by auto
    then show ?thesis
      by (intro exI [of _ "if e = 0 then 1 else 3"]) simp
  qed
  moreover have "e = e'" if "e < 2" "e' < 2" "env_pgdir (envs (demo_pair pt) e) = env_pgdir (envs (demo_pair pt) e')" for e e'
    using that dir inj(1) [of 3] unfolding two by auto
  ultimately show "envs_ok (demo_pair pt)"
    unfolding envs_ok_def live by blast
qed

lemma demo_pair_forking:
  assumes pt: "frame pt = 5" "present pt"
  shows "forking demo_base 0 (demo_pair pt) 0 0x1001 1" "refs_below 32767 (demo_pair pt)" "aspace (demo_pair pt) 1 pn = None" "free_list (demo_pair pt) [6, 7]"
    "aspace (demo_pair pt) 0 pn = (if pn = 0x800 then Some pt else None)"
proof -
  have pg: "pages (demo_pair pt) q = (if q = 3 then (demo_pages 3)\<lparr>pp_ref := 1\<rparr> else if q = 2 then (demo_pages 2)\<lparr>pp_link := None, pp_ref := 1\<rparr>
      else if q = 6 then (demo_pages 6)\<lparr>pp_link := Some 7\<rparr> else if q = 5 then (demo_pages 5)\<lparr>pp_ref := 1\<rparr> else demo_pages q)" for q
    by (simp add: demo_pair_def demo_share_def)
  show "refs_below 32767 (demo_pair pt)"
    by (auto simp: refs_below_def pg demo_pages_def)
  have wf: "pages_wf (demo_pair pt)" "free_list (demo_pair pt) [6, 7]"
    by (simp_all add: pages_wf_def free_list_def page_links_def pg demo_pages_def)
  show "free_list (demo_pair pt) [6, 7]"
    by (rule wf(2))
  have "vm_inv demo_base {1, 3} [6, 7] (demo_pair pt)"
    unfolding vm_inv_def demo_pair_sets [OF pt] using pt wf user_pdx_less
    by (auto simp: demo_pair_user_entry demo_pair_pte demo_frames pg demo_pages_def demo_base_def)
  moreover have "kern_template demo_base 0 (demo_pair pt)"
    by (auto simp: kern_template_def demo_pair_user_entry demo_frames(5) demo_base_def kpage_def page2pa_def layout)
  ultimately have "mem_ok demo_base 0 {1, 3} (demo_pair pt)"
    unfolding mem_ok_def demo_pair_sets [OF pt] by (auto simp: demo_base_def)
  then have "kern_inv demo_base 0 (demo_pair pt)"
    unfolding kern_inv_def demo_pair_envs(2) using demo_pair_envs(3) by blast
  moreover have dir: "dir_frame (demo_pair pt) 0 = 1" "dir_frame (demo_pair pt) 1 = 3"
    by (rule dir_frame_kpage; simp)+
  have "on_dir (demo_pair pt) 0"
    unfolding on_dir_def dir demo_pair_envs by (simp add: page2pa_def layout)
  ultimately have "at_user demo_base 0 (demo_pair pt) 0"
    by (simp add: at_user_def holding_def)
  moreover have "self_map (demo_pair pt)"
    unfolding self_map_def demo_pair_envs(2) by (simp add: demo_pair_entry PDX_def page2pa_def layout)
  moreover have "found (demo_pair pt) 0x1001 b = Some 1" for b
    by (simp add: found_def envid2env_def stored_def ENVX_def layout)
  ultimately show "forking demo_base 0 (demo_pair pt) 0 0x1001 1"
    by (simp add: forking_def)
  show "aspace (demo_pair pt) 1 pn = None"
  proof (cases "pn < PGNUM UTOP")
    case True
    then show ?thesis
      unfolding aspace_def vmap_def dir using PGNUM2LA_user(2) [OF True] by (simp add: demo_pair_pte demo_frames)
  qed (simp add: aspace_def)
  show "aspace (demo_pair pt) 0 pn = (if pn = 0x800 then Some pt else None)"
  proof (cases "pn < PGNUM UTOP")
    case True
    note U = PGNUM2LA_user [OF True]
    have "PGNUM 0x800000 = 0x800" "PDX 0x800000 = 2" "PTX 0x800000 = 0"
      by (simp_all add: PGNUM_def PDX_def PTX_def layout)
    then have "PDX (PGNUM2LA pn) = 2 \<and> PTX (PGNUM2LA pn) = 0 \<longleftrightarrow> pn = 0x800"
      using PGNUM_eq_iff [of "PGNUM2LA pn" "0x800000"] U(1) by simp
    then show ?thesis
      unfolding aspace_def vmap_def dir using demo_pair_envs(1) demo_pair_pte(1) [OF U(2) PTX_less] True pt(2) by (simp add: demo_frames)
  next
    case False
    then have "pn \<noteq> 0x800"
      by (auto simp: PGNUM_def layout)
    with False show ?thesis by (simp add: aspace_def)
  qed
qed

lemma demo_fork_stack: "stack_ok demo_fork 0 0x801000 0x5007"
proof -
  have d: "dir_frame demo_fork 0 = 1"
    by (rule dir_frame_kpage) simp_all
  have "PGNUM 0x800FFC = 0x800" "PDX 0x800FFC = 2" "0x800 < PGNUM UXSTACKBASE" "PGNUM PFTEMP \<noteq> 0x800"
    by (simp_all add: PGNUM_def PDX_def layout)
  moreover have "user_entry 0x5007 True" "user_entry 0x2007 True"
    by (simp_all add: user_entry_def present_def layout)
  ultimately show ?thesis
    unfolding stack_ok_def d using demo_pair_forking(5) [OF demo_frames(3,4)] by (auto simp: demo_pair_entry)
qed

end
