(* ===== verification/User_Cow.thy ===== *)
theory User_Cow
  imports User_Fork
begin

section \<open>The copy-on-write handler\<close>

text \<open>
  \<^verbatim>\<open>pgfault\<close> of \<^verbatim>\<open>lib/fork.c\<close>: after a write to a copy-on-write page, the environment has a private writable copy of it;
  and with it the whole loop of \<^verbatim>\<open>fork\<close>, whose own calls fault on the stack once the page that holds it is shared.
\<close>

subsection \<open>Copying a page\<close>

text \<open>Between two different pages \<^verbatim>\<open>memmove\<close> takes its ascending loop over words: the loads and stores of \<^verbatim>\<open>copy_page\<close>,
  which sends each of them through the page tables.\<close>

lemma memmove_page:
  assumes "PGOFF dst = 0" "PGOFF src = 0" "dst \<noteq> src"
  shows "memmove m dst src PGSIZE = rep_movsl 4 m dst src 1024"
proof -
  have m: "unat dst mod 4096 = 0" "unat src mod 4096 = 0"
    using assms(1,2) by (simp_all add: word_unat_eq_iff unat_PGOFF)
  then obtain a b where ab: "unat dst = 4096 * a" "unat src = 4096 * b"
    by (auto simp: mod_eq_0_iff_dvd elim!: dvdE)
  then have "dst mod 4 = 0" "src mod 4 = 0"
    by (simp_all add: mod4_unat)
  moreover have "\<not> (src < dst \<and> dst < src + PGSIZE)"
  proof
    assume lt: "src < dst \<and> dst < src + PGSIZE"
    have "unat (src + PGSIZE) \<le> 4096 * b + 4096"
      by (simp add: unat_word_ariths ab layout)
    with lt show False
      by (simp add: word_less_nat_alt ab)
  qed
  ultimately show ?thesis
    by (auto simp: memmove_def layout)
qed

lemma rep_movsl_words:
  "rep_movsl 4 m d s n = fold (\<lambda>i m. wr32 m (d + 4 * word_of_nat i) (rd32 m (s + 4 * word_of_nat i))) [0..<n] m"
proof (induction n arbitrary: m d s)
  case (Suc n)
  have "[0..<Suc n] = 0 # map Suc [0..<n]"
    by (simp add: upt_conv_Cons map_Suc_upt del: upt_Suc)
  then show ?case
    by (simp add: Suc fold_map comp_def algebra_simps del: upt_Suc)
qed simp

lemma page_word:
  assumes "PGOFF va = 0" "i < 1024"
  shows "PDX (va + 4 * word_of_nat i) = PDX va" "PTX (va + 4 * word_of_nat i) = PTX va" "PGOFF (va + 4 * word_of_nat i) = 4 * word_of_nat i"
proof -
  have m: "unat va mod 4096 = 0"
    using assms(1) by (simp add: word_unat_eq_iff unat_PGOFF)
  then obtain k where k: "unat va = 4096 * k" "k < 1048576"
    using unat_u32_bound [of va] by (auto simp: mod_eq_0_iff_dvd elim!: dvdE)
  have i: "unat (4 * word_of_nat i :: u32) = 4 * i"
    using assms(2) by (simp add: unat_word_ariths unat_of_nat)
  then have a: "unat (va + 4 * word_of_nat i) = 4096 * k + 4 * i"
    using k assms(2) by (simp add: unat_word_ariths)
  have d: "(4096 * k + 4 * i) div 4096 = k"
    using assms(2) by simp
  then have "(4096 * k + 4 * i) div 4194304 = k div 1024"
    using div_mult2_eq [of "4096 * k + 4 * i" 4096 1024] by simp
  then show "PDX (va + 4 * word_of_nat i) = PDX va"
    using div_mult2_eq [of "4096 * k" 4096 1024] by (simp add: word_unat_eq_iff unat_PDX a k(1))
  show "PTX (va + 4 * word_of_nat i) = PTX va"
    using d by (simp add: word_unat_eq_iff unat_PTX a k(1))
  have "(4096 * k + 4 * i) mod 4096 = 4 * i"
    using assms(2) by simp
  then show "PGOFF (va + 4 * word_of_nat i) = 4 * word_of_nat i"
    by (simp add: word_unat_eq_iff unat_PGOFF a i)
qed

lemma ustore_kst: "user_translate s va True = Some (slot (page2pa q) i) \<Longrightarrow> q < 65536 \<Longrightarrow> ustore va v s = Some (kst (slot (kpage q) i) v s)"
  by (simp add: ustore_def kst_def slot_kpage)

text \<open>Both pages are translated by the directory \<open>d\<close>; the target frame \<open>q\<close> is neither a directory nor one of the two tables.\<close>

lemma copy_page_run:
  assumes d: "cr3 s = page2pa d" "d < 65536"
    and src: "PGOFF src = 0" "user_entry (entry s d (PDX src)) False" "user_entry (pte s d (PDX src) (PTX src)) False"
      "frame (entry s d (PDX src)) < 65536" "frame (pte s d (PDX src) (PTX src)) < 65536"
    and dst: "PGOFF dst = 0" "user_entry (entry s d (PDX dst)) True" "user_entry (pte s d (PDX dst) (PTX dst)) True"
      "frame (entry s d (PDX dst)) < 65536" "frame (pte s d (PDX dst) (PTX dst)) = q"
    and q: "q < 65536" "q \<noteq> d" "q \<noteq> frame (entry s d (PDX src))" "q \<noteq> frame (entry s d (PDX dst))" "q \<noteq> frame (pte s d (PDX src) (PTX src))"
  shows "\<exists>s' m. copy_page dst src s = Some s' \<and> s' = s\<lparr>pmem := m\<rparr> \<and>
    (\<forall>f i. f < 65536 \<longrightarrow> unat i < 1024 \<longrightarrow> entry s' f i = (if f = q then entry s (frame (pte s d (PDX src) (PTX src))) i else entry s f i))"
proof -
  let ?p = "frame (pte s d (PDX src) (PTX src))"
  define P where "P k s' \<longleftrightarrow> (\<exists>m. s' = s\<lparr>pmem := m\<rparr>) \<and>
    (\<forall>f i. f < 65536 \<longrightarrow> unat i < 1024 \<longrightarrow> entry s' f i = (if f = q \<and> unat i < k then entry s ?p i else entry s f i))" for k s'
  have pe: "present (entry s d (PDX src))" "present (entry s d (PDX dst))"
    using src(2) dst(2) by (simp_all add: user_entry_def)
  then have pt: "pte s d (PDX src) (PTX src) = entry s (frame (entry s d (PDX src))) (PTX src)"
    "pte s d (PDX dst) (PTX dst) = entry s (frame (entry s d (PDX dst))) (PTX dst)"
    by (simp_all add: pte_def)
  have "\<exists>s'. copy_page_word dst src k t = Some s' \<and> P (Suc k) s'" if k: "k < 1024" and t: "P k t" for k t
  proof -
    have e: "entry t f i = (if f = q \<and> unat i < k then entry s ?p i else entry s f i)" if "f < 65536" "unat i < 1024" for f i
      using t that by (simp add: P_def)
    have c: "cr3 t = page2pa d"
      using t d(1) by (auto simp: P_def)
    have dir: "entry t d (PDX va) = entry s d (PDX va)" for va
      using e [OF d(2) PDX_less [of va]] q(2) by simp
    have u: "unat (word_of_nat k :: u32) = k"
      using k by (simp add: unat_of_nat)
    note T = user_translate_eq [OF c d(2)] dir Let_def
    note S = page_word [OF src(1) k] and D = page_word [OF dst(1) k]
    have "entry t (frame (entry s d (PDX src))) (PTX src) = pte s d (PDX src) (PTX src)"
      using e [OF src(4) PTX_less [of src]] q(3) pt(1) by simp
    then have "uload t (src + 4 * word_of_nat k) = Some (entry s ?p (word_of_nat k))"
      unfolding uload_def using src(2,3) S e [OF src(5), of "word_of_nat k"] u k q(5)
      by (simp add: T) (simp add: entry_def slot_def)
    moreover have "entry t (frame (entry s d (PDX dst))) (PTX dst) = pte s d (PDX dst) (PTX dst)"
      using e [OF dst(4) PTX_less [of dst]] q(4) pt(2) by simp
    then have "user_translate t (dst + 4 * word_of_nat k) True = Some (slot (page2pa q) (word_of_nat k))"
      using dst(2,3,5) D by (simp add: T slot_def)
    ultimately have run: "copy_page_word dst src k t = Some (kst (slot (kpage q) (word_of_nat k)) (entry s ?p (word_of_nat k)) t)"
      by (simp add: copy_page_word_def ustore_kst [OF _ q(1)])
    have "entry (kst (slot (kpage q) (word_of_nat k)) (entry s ?p (word_of_nat k)) t) f i =
        (if f = q \<and> unat i < Suc k then entry s ?p i else entry s f i)" if f: "f < 65536" "unat i < 1024" for f i
    proof -
      have "i = word_of_nat k \<longleftrightarrow> unat i = k"
        using u by (auto simp: word_unat_eq_iff)
      then show ?thesis
        using entry_kst [OF q(1) f(1) _ f(2), of "word_of_nat k" "entry s ?p (word_of_nat k)" t] u k e [OF f] by (auto simp: less_Suc_eq)
    qed
    moreover have "\<exists>m. kst (slot (kpage q) (word_of_nat k)) v t = s\<lparr>pmem := m\<rparr>" for v
      using t by (auto simp: P_def kst_def)
    ultimately show ?thesis
      using run unfolding P_def by blast
  qed
  moreover have "P 0 s"
    unfolding P_def by (auto intro: exI [of _ "pmem s"])
  ultimately obtain s' where "copy_page dst src s = Some s'" "P 1024 s'"
    using for_each_upt [of P s 1024 "copy_page_word dst src"] unfolding copy_page_def by blast
  then show ?thesis
    unfolding P_def by auto
qed

subsection \<open>Pages of an environment\<close>

lemma aspace_table:
  assumes inv: "kern_inv base k s" and as: "aspace s e pn = Some x"
  shows "pte s (dir_frame s e) (PDX (PGNUM2LA pn)) (PTX (PGNUM2LA pn)) = x" "present (entry s (dir_frame s e) (PDX (PGNUM2LA pn)))"
    "frame (entry s (dir_frame s e) (PDX (PGNUM2LA pn))) < 65536" "dir_frame s e \<in> live_dirs s" "dir_frame s e < 65536"
    "frame x \<notin> live_dirs s" "tabset s (live_dirs s) (frame x) = {}" "base (frame x) = 0" "frame x < 65536" "pn < PGNUM UTOP"
    "frame (entry s (dir_frame s e) (PDX (PGNUM2LA pn))) \<noteq> frame x"
proof -
  have a: "live s e" "pn < PGNUM UTOP" "vmap s (dir_frame s e) (PGNUM2LA pn) = Some x"
    using as by (auto simp: aspace_def split: if_splits)
  then have x: "x = pte s (dir_frame s e) (PDX (PGNUM2LA pn)) (PTX (PGNUM2LA pn))" "present x"
    by (simp_all add: vmap_eq_Some)
  obtain fl where v: "vm_inv base (live_dirs s) fl s"
    using kern_inv_vm [OF inv] .
  note p = PGNUM2LA_user(2) [OF a(2)]
  show d: "dir_frame s e \<in> live_dirs s"
    by (rule dir_frame_live(1) [OF inv a(1)])
  note M = vm_mapped [OF v d p PTX_less x(2) [unfolded x(1)], folded x(1)]
  show "pte s (dir_frame s e) (PDX (PGNUM2LA pn)) (PTX (PGNUM2LA pn)) = x" "present (entry s (dir_frame s e) (PDX (PGNUM2LA pn)))"
    "frame x \<notin> live_dirs s" "pn < PGNUM UTOP" and t: "tabset s (live_dirs s) (frame x) = {}"
    using x(1) M a(2) by simp_all
  show "dir_frame s e < 65536"
    by (rule vm_dir(1) [OF v d])
  show "frame (entry s (dir_frame s e) (PDX (PGNUM2LA pn))) < 65536"
    by (rule vm_table(1) [OF v d p M(6)])
  show "frame x < 65536"
    by (rule aspace_frame(1) [OF inv as])
  have "mem_ok base k (live_dirs s) s"
    using inv by (simp add: kern_inv_def)
  then show "base (frame x) = 0"
    using aspace_frame(4) [OF inv as] unfolding mem_ok_def by blast
  have "(dir_frame s e, PDX (PGNUM2LA pn)) \<in> tabset s (live_dirs s) (frame (entry s (dir_frame s e) (PDX (PGNUM2LA pn))))"
    using d p M(6) by (simp add: tabset_def)
  with t show "frame (entry s (dir_frame s e) (PDX (PGNUM2LA pn))) \<noteq> frame x"
    by auto
qed

lemma amaps_mapset: "kern_inv base k s \<Longrightarrow> mapset s (live_dirs s) p \<noteq> {} \<longleftrightarrow> amaps s p \<noteq> {}"
  using card_amaps [of base k s p] kern_inv_vm [of base k s] vm_invD(10) finite_mapset
  by (metis card_0_eq card.empty)

lemma page_write_run:
  assumes u: "at_user base k s c" and as: "aspace s e pn = Some x" and s': "s' = s\<lparr>pmem := m\<rparr>"
    and other: "\<And>f i. f < 65536 \<Longrightarrow> f \<noteq> frame x \<Longrightarrow> unat i < 1024 \<Longrightarrow> entry s' f i = entry s f i"
  shows "at_user base k s' c" "ids_kept s s'" "self_map s \<Longrightarrow> self_map s'" "aspace s' = aspace s" "pages s' = pages s"
proof -
  have inv: "kern_inv base k s"
    using u by (simp add: at_user_def)
  note A = aspace_table [OF inv as]
  obtain fl where v: "vm_inv base (live_dirs s) fl s"
    using kern_inv_vm [OF inv] .
  have ok: "mem_ok base k (live_dirs s) s"
    using inv by (simp add: kern_inv_def)
  have V: "vm_inv base (live_dirs s) fl s'" "same_ptes s s' (live_dirs s)" "kern_same base s s'"
    using vm_inv_page_write [OF v A(6,7) s'] other A(8) by blast+
  have mm: "mm_frame s s'"
    by (simp add: s' mm_frame_def)
  have cur: "curenv s' = curenv s"
    by (simp add: s' curenv_def)
  then show ids: "ids_kept s s'"
    by (simp add: ids_kept_def s')
  show "at_user base k s' c"
    using kern_inv_mm [OF inv mm mem_ok_same_ptes [OF ok V mm]] u cur
    by (auto simp: at_user_def on_dir_def live_def dir_frame_def s')
  show "self_map s'" if "self_map s"
    unfolding self_map_def ids_keptD(3) [OF ids]
  proof
    fix d assume d: "d \<in> live_dirs s"
    then have "d < 65536" "d \<noteq> frame x"
      using A(6) by (auto simp: live_dirs_def)
    from other [OF this user_pdx_UVPT(2)] show "entry s' d (PDX UVPT) = page2pa d OR PTE_P OR PTE_U"
      using that d by (simp add: self_map_def)
  qed
  show "pages s' = pages s"
    by (simp add: s')
  have vm: "vmap s' d va = vmap s d va" if "d \<in> live_dirs s" "user_pdx (PDX va)" for d va
    using V(2) that PTX_less by (simp add: same_ptes_def vmap_def)
  have live: "live s' e = live s e" "dir_frame s' e = dir_frame s e" for e
    using ids_keptD(1,2) [OF ids] by simp_all
  have "aspace s' e pn = aspace s e pn" for e pn
  proof (cases "live s e \<and> pn < PGNUM UTOP")
    case True
    with vm [OF dir_frame_live(1) [OF inv] PGNUM2LA_user(2)] live show ?thesis by (simp add: aspace_def)
  next
    case False
    with live show ?thesis by (auto simp: aspace_def)
  qed
  then show "aspace s' = aspace s"
    by (intro ext)
qed

lemma ROUNDDOWN_page: "ROUNDDOWN a PGSIZE = PGNUM2LA (PGNUM a)"
proof -
  have "unat (a mod PGSIZE) = unat a mod 4096"
    by (simp add: unat_mod layout)
  moreover have "a mod PGSIZE \<le> a"
    by (simp add: word_le_nat_alt unat_mod)
  ultimately have "unat (ROUNDDOWN a PGSIZE) = unat a - unat a mod 4096"
    by (simp add: ROUNDDOWN_def unat_sub)
  moreover have "unat (PGNUM2LA (PGNUM a)) = unat a div 4096 * 4096"
  proof -
    have "unat a div 4096 * 4096 < 4294967296"
      using unat_u32_bound [of a] div_times_less_eq_dividend [of "unat a" 4096] by linarith
    then show ?thesis
      by (simp add: PGNUM2LA_def layout push_bit_eq_mult unat_word_ariths unat_PGNUM)
  qed
  ultimately show ?thesis
    by (simp add: word_unat_eq_iff minus_mod_eq_div_mult)
qed

subsection \<open>The handler\<close>

lemma rw_entry:
  assumes "q < 65536"
  shows "user_entry (x OR ((PTE_P OR PTE_U OR PTE_W) OR PTE_P)) True" "user_entry (page2pa q OR (PTE_P OR PTE_U OR PTE_W) OR PTE_P) True"
    "frame (page2pa q OR (PTE_P OR PTE_U OR PTE_W) OR PTE_P) = q"
proof -
  show "user_entry (x OR ((PTE_P OR PTE_U OR PTE_W) OR PTE_P)) True" "user_entry (page2pa q OR (PTE_P OR PTE_U OR PTE_W) OR PTE_P) True"
    by (simp_all add: user_entry_def present_bit flag_tests bit_or_iff flag_bits)
  show "frame (page2pa q OR (PTE_P OR PTE_U OR PTE_W) OR PTE_P) = q"
    by (rule frame_new_pte [OF assms]) (simp add: layout)
qed

lemma kept_page:
  assumes "kern_inv base k s" "page_call base k c s s'" "amaps s p \<noteq> {}" "unat i < 1024"
  shows "entry s' p i = entry s p i"
proof -
  obtain e pn x where x: "aspace s e pn = Some x" "frame x = p"
    using assms(3) by (auto simp: amaps_def)
  have "p < 65536"
    using aspace_frame(1) [OF assms(1) x(1)] x(2) by simp
  then show ?thesis
    using keptD(2) [of s s' p i] assms amaps_mapset [OF assms(1)] by (simp add: page_call_def)
qed

text \<open>The temporary page is allocated, filled and moved: the three states after the allocation.\<close>

lemma pgfault_fill:
  assumes u: "at_user base k s c" "self_map s" and pn: "pn \<noteq> PGNUM PFTEMP" and sh: "shareable s c pn pt"
    and q: "q < 65536" "q \<noteq> frame pt" and as: "aspace s c (PGNUM PFTEMP) = Some (page2pa q OR (PTE_P OR PTE_U OR PTE_W) OR PTE_P)"
    and pd: "entry s (dir_frame s c) (PDX PFTEMP) = x OR ((PTE_P OR PTE_U OR PTE_W) OR PTE_P)"
  shows "\<exists>s'. copy_page PFTEMP (PGNUM2LA pn) s = Some s' \<and> at_user base k s' c \<and> ids_kept s s' \<and> self_map s' \<and> aspace s' = aspace s \<and>
    pages s' = pages s \<and> shareable s' c pn pt \<and>
    (\<forall>f i. f < 65536 \<longrightarrow> unat i < 1024 \<longrightarrow> entry s' f i = (if f = q then entry s (frame pt) i else entry s f i))"
proof -
  let ?d = "dir_frame s c" and ?src = "PGNUM2LA pn"
  have inv: "kern_inv base k s" and cr: "cr3 s = page2pa ?d"
    using u(1) by (simp_all add: at_user_def on_dir_def)
  have S: "aspace s c pn = Some pt" "user_entry pt False" "user_entry (entry s ?d (PDX ?src)) False"
    using sh by (simp_all add: shareable_def)
  have tmp: "PGNUM2LA (PGNUM PFTEMP) = PFTEMP"
    by (simp add: PGNUM2LA_def PGNUM_def layout)
  note A = aspace_table [OF inv S(1)] and B = aspace_table [OF inv as, unfolded tmp rw_entry(3) [OF q(1)]]
  have qd: "q \<noteq> ?d" "q \<noteq> frame (entry s ?d (PDX ?src))"
  proof -
    show "q \<noteq> ?d"
      using A(4) B(6) by auto
    have "(?d, PDX ?src) \<in> tabset s (live_dirs s) (frame (entry s ?d (PDX ?src)))"
      using A(2,4) PGNUM2LA_user(2) [OF A(10)] by (simp add: tabset_def)
    with B(7) show "q \<noteq> frame (entry s ?d (PDX ?src))"
      by auto
  qed
  have off: "PGOFF ?src = 0" "PGOFF PFTEMP = 0"
    using page_number(2) [OF A(10)] by (simp_all add: PGOFF_def layout)
  obtain s' m where s': "copy_page PFTEMP ?src s = Some s'" "s' = s\<lparr>pmem := m\<rparr>" and
    e: "\<And>f i. f < 65536 \<Longrightarrow> unat i < 1024 \<Longrightarrow> entry s' f i = (if f = q then entry s (frame pt) i else entry s f i)"
    using copy_page_run [OF cr A(5) off(1) S(3) _ A(3) _ off(2) _ _ B(3) _ q(1) qd, unfolded A(1) B(1) pd] S(2) A(9) B(11) rw_entry [OF q(1)] q(2)
    by (metis pd)
  have o: "entry s' f i = entry s f i" if "f < 65536" "f \<noteq> frame (page2pa q OR (PTE_P OR PTE_U OR PTE_W) OR PTE_P)" "unat i < 1024" for f i
    using e [OF that(1,3)] that(2) by (simp add: rw_entry(3) [OF q(1)])
  note W = page_write_run [OF u(1) as s'(2) o]
  have "shareable s' c pn pt"
    using sh W(4) e [OF A(5) PDX_less [of ?src]] qd(1) ids_keptD(2) [OF W(2)] by (simp add: shareable_def)
  then show ?thesis
    using s'(1) W u(2) e by blast
qed

text \<open>The guards of \<^verbatim>\<open>pgfault\<close>, passed.\<close>

lemma pgfault_eq:
  assumes u: "at_user base k s c" "self_map s" and addr: "addr < UTOP"
    and sh: "shareable s c (PGNUM addr) pt" "pt AND PTE_COW \<noteq> 0" and w: "err AND FEC_WR \<noteq> 0"
  shows "pgfault addr err s =
    do {
      (r1, s1) \<leftarrow> lib_sys_page_alloc 0 PFTEMP (PTE_P OR PTE_U OR PTE_W) s;
      (if r1 < 0 then None
       else do {
         s2 \<leftarrow> copy_page PFTEMP (PGNUM2LA (PGNUM addr)) s1;
         (r3, s3) \<leftarrow> lib_sys_page_map 0 PFTEMP 0 (PGNUM2LA (PGNUM addr)) (PTE_P OR PTE_U OR PTE_W) s2;
         (if r3 < 0 then None
          else do {
            (r4, s4) \<leftarrow> lib_sys_page_unmap 0 PFTEMP s3;
            (if r4 < 0 then None else Some s4)
          })
       })
    }"
proof -
  have pn: "PGNUM addr < PGNUM UTOP"
    using sh(1) by (auto simp: shareable_def aspace_def split: if_splits)
  have S: "user_entry pt False" "user_entry (entry s (dir_frame s c) (PDX addr)) False"
  proof -
    have "PDX (PGNUM2LA (PGNUM addr)) = PDX addr"
      using PGNUM2LA_user(1) [OF pn] unfolding PGNUM_eq_iff by simp
    then show "user_entry pt False" "user_entry (entry s (dir_frame s c) (PDX addr)) False"
      using sh(1) by (simp_all add: shareable_def)
  qed
  have "PTE_P AND pt \<noteq> 0"
    using S(1) by (simp add: user_entry_def PTE_P_test)
  then show ?thesis
    unfolding pgfault_def shareable_vpt(1) [OF u pn sh(1)] window_at_user(1) [OF u PDX_less] ROUNDDOWN_page
    using S sh(2) w by (simp add: user_entry_test and.commute [of FEC_WR])
qed

text \<open>From the allocation of the temporary page on.\<close>

lemma pgfault_moves:
  assumes u: "at_user base k s c" "self_map s" and low: "refs_low s" and pn: "pn \<noteq> PGNUM PFTEMP" and sh: "shareable s c pn pt"
    and q: "q < 65536" "amaps s q = {(c, PGNUM PFTEMP)}"
    and as: "aspace s c (PGNUM PFTEMP) = Some (page2pa q OR (PTE_P OR PTE_U OR PTE_W) OR PTE_P)"
    and pd: "entry s (dir_frame s c) (PDX PFTEMP) = x OR ((PTE_P OR PTE_U OR PTE_W) OR PTE_P)"
  shows "\<exists>s2 s3 s4. copy_page PFTEMP (PGNUM2LA pn) s = Some s2 \<and>
    lib_sys_page_map 0 PFTEMP 0 (PGNUM2LA pn) (PTE_P OR PTE_U OR PTE_W) s2 = Some (0, s3) \<and> lib_sys_page_unmap 0 PFTEMP s3 = Some (0, s4) \<and>
    at_user base k s4 c \<and> self_map s4 \<and> ids_kept s s4 \<and>
    aspace s4 = (aspace s)(c := (aspace s c)(PGNUM PFTEMP := None, pn \<mapsto> page2pa q OR (PTE_P OR PTE_U OR PTE_W) OR PTE_P)) \<and>
    amaps s4 q = {(c, pn)} \<and> (\<forall>i. unat i < 1024 \<longrightarrow> entry s4 q i = entry s (frame pt) i) \<and>
    (\<forall>p i. p \<noteq> q \<longrightarrow> amaps s4 p \<noteq> {} \<longrightarrow> unat i < 1024 \<longrightarrow> entry s4 p i = entry s p i)"
proof -
  let ?perm = "PTE_P OR PTE_U OR PTE_W" and ?t = "PGNUM PFTEMP"
  let ?new = "page2pa q OR ?perm OR PTE_P"
  have va: "PFTEMP < UTOP" "PGOFF PFTEMP = 0" "unat ?perm < 4096"
    by (simp_all add: PGOFF_def layout)
  have inv: "kern_inv base k s" and apn: "aspace s c pn = Some pt"
    using u(1) sh by (simp_all add: at_user_def shareable_def)
  note P = page_number [OF aspace_table(10) [OF inv apn]] and F = rw_entry(3) [OF q(1)]
  have ne: "q \<noteq> frame pt"
    using q(2) apn pn by (auto simp: amaps_def)
  obtain s2 where s2: "copy_page PFTEMP (PGNUM2LA pn) s = Some s2" "at_user base k s2 c" "ids_kept s s2" "self_map s2" "aspace s2 = aspace s"
    "pages s2 = pages s" "shareable s2 c pn pt"
    and e2: "\<And>f i. f < 65536 \<Longrightarrow> unat i < 1024 \<Longrightarrow> entry s2 f i = (if f = q then entry s (frame pt) i else entry s f i)"
    using pgfault_fill [OF u pn sh q(1) ne as pd] by blast
  have low2: "refs_low s2"
    using low s2(6) ids_keptD(5) [OF s2(3)] by (simp add: refs_low_def)
  have as2: "aspace s2 c ?t = Some ?new" and W: "?new AND PTE_W \<noteq> 0" and pr: "present (entry s2 (dir_frame s2 c) (PDX (PGNUM2LA pn)))"
    using s2(5,7) as rw_entry(2) [OF q(1)] by (simp_all add: user_entry_def shareable_def)
  note S2 = found_self [OF s2(2)]
  obtain s3 where s3: "lib_sys_page_map 0 PFTEMP 0 (PGNUM2LA pn) ?perm s2 = Some (0, s3)" "page_call base k c s2 s3"
    "aspace s3 = (aspace s)(c := (aspace s c)(pn \<mapsto> ?new))"
    using lib_sys_page_map_run [OF s2(2) va(3) low2 S2 S2 va(1) P(1) va(2) P(2) as2] W pr P(3) F s2(5) by (auto simp: layout)
  have u3: "at_user base k s3 c"
    using s3(2) by (simp add: page_call_def)
  obtain s4 where s4: "lib_sys_page_unmap 0 PFTEMP s3 = Some (0, s4)" "page_call base k c s3 s4"
    "aspace s4 = (aspace s)(c := (aspace s c)(?t := None, pn \<mapsto> ?new))"
    using lib_sys_page_unmap_run [OF u3 found_self [OF u3] va(1,2)] s3(3) pn by (auto simp: fun_upd_twist)
  have inv3: "kern_inv base k s2" "kern_inv base k s3"
    using s2(2) u3 by (simp_all add: at_user_def)
  have q': "frame y = q \<longleftrightarrow> e = c \<and> v = ?t" if "aspace s e v = Some y" for e v y
  proof -
    have "frame y = q \<longleftrightarrow> (e, v) \<in> amaps s q"
      using that by (simp add: amaps_def)
    then show ?thesis by (simp add: q(2))
  qed
  have m4: "amaps s4 q = {(c, pn)}"
    unfolding amaps_def s4(3) using F q' pn by (auto split: if_splits) blast+
  have sub: "amaps s2 p \<noteq> {}" "amaps s3 p \<noteq> {}" if "amaps s4 p \<noteq> {}" for p
    using that pn as F unfolding amaps_def s2(5) s3(3) s4(3) by (auto split: if_splits)
  have step: "entry s4 p i = entry s2 p i" if "amaps s4 p \<noteq> {}" "unat i < 1024" for p i
    using kept_page [OF inv3(1) s3(2) sub(1) [OF that(1)] that(2)] kept_page [OF inv3(2) s4(2) sub(2) [OF that(1)] that(2)] by simp
  have "entry s4 q i = entry s (frame pt) i" if "unat i < 1024" for i
    using step [of q i] m4 e2 [OF q(1) that] that by simp
  moreover have "entry s4 p i = entry s p i" if "p \<noteq> q" "amaps s4 p \<noteq> {}" "unat i < 1024" for p i
  proof -
    have "p < 65536"
      using sub(1) [OF that(2)] aspace_frame(1) [OF inv3(1)] by (auto simp: amaps_def)
    then show ?thesis
      using step [OF that(2,3)] e2 [of p i] that by simp
  qed
  moreover have "at_user base k s4 c" "self_map s4"
    using s4(2) s3(2) s2(4) by (simp_all add: page_call_def)
  moreover have "ids_kept s s4"
    using ids_kept_trans [OF ids_kept_trans [OF s2(3)]] s3(2) s4(2) unfolding page_call_def by blast
  ultimately show ?thesis
    using s2(1) s3(1) s4(1,3) m4 by blast
qed

lemma pgfault_run:
  assumes u: "at_user base k s c" "self_map s" and low: "refs_below 65534 s" and addr: "addr < UTOP" "PGNUM addr \<noteq> PGNUM PFTEMP"
    and sh: "shareable s c (PGNUM addr) pt" "pt AND PTE_COW \<noteq> 0" and w: "err AND FEC_WR \<noteq> 0"
  shows "(pgfault addr err s = None \<and> (\<exists>s1. lib_sys_page_alloc 0 PFTEMP (PTE_P OR PTE_U OR PTE_W) s = Some (- E_NO_MEM, s1))) \<or>
    (\<exists>q s'. pgfault addr err s = Some s' \<and> at_user base k s' c \<and> self_map s' \<and> ids_kept s s' \<and>
      aspace s' = (aspace s)(c := (aspace s c)(PGNUM PFTEMP := None, PGNUM addr \<mapsto> page2pa q OR (PTE_P OR PTE_U OR PTE_W) OR PTE_P)) \<and>
      amaps s' q = {(c, PGNUM addr)} \<and>
      (\<forall>i. unat i < 1024 \<longrightarrow> entry s' q i = entry s (frame pt) i) \<and>
      (\<forall>p i. p \<noteq> q \<longrightarrow> amaps s' p \<noteq> {} \<longrightarrow> unat i < 1024 \<longrightarrow> entry s' p i = entry s p i))"
proof -
  let ?perm = "PTE_P OR PTE_U OR PTE_W" and ?pn = "PGNUM addr" and ?t = "PGNUM PFTEMP"
  note eq = pgfault_eq [OF u addr(1) sh w]
  have va: "PFTEMP < UTOP" "?perm AND NOT PTE_SYSCALL = 0" "PGOFF PFTEMP = 0" "unat ?perm < 4096"
    by (simp_all add: PGOFF_def layout)
  have inv: "kern_inv base k s" and as: "aspace s c ?pn = Some pt" and ue: "user_entry pt False"
    using u(1) sh(1) by (simp_all add: at_user_def shareable_def)
  have pn: "?pn < PGNUM UTOP"
    using as by (auto simp: aspace_def split: if_splits)
  note P = page_number [OF pn]
  obtain r s1 where run1: "lib_sys_page_alloc 0 PFTEMP ?perm s = Some (r, s1)" "page_call base k c s s1"
    and C: "r = - E_NO_MEM \<or> r = 0 \<and> (\<exists>x. entry s1 (dir_frame s c) (PDX PFTEMP) = x OR (?perm OR PTE_P)) \<and>
      (\<exists>q. q < unat (npages s) \<and> pp_ref (pages s q) = 0 \<and> aspace s1 = (aspace s)(c := (aspace s c)(?t \<mapsto> page2pa q OR ?perm OR PTE_P)))"
    using lib_sys_page_alloc_run [OF u(1) found_self [OF u(1)] va(1,2)] by blast
  show ?thesis
  proof (cases "r = 0")
    case False
    with C have "r = - E_NO_MEM"
      by blast
    with run1(1) eq show ?thesis
      by (simp add: layout)
  next
    case True
    with C obtain x q where x: "entry s1 (dir_frame s c) (PDX PFTEMP) = x OR (?perm OR PTE_P)" and q: "q < unat (npages s)" "pp_ref (pages s q) = 0"
      and as1: "aspace s1 = (aspace s)(c := (aspace s c)(?t \<mapsto> page2pa q OR ?perm OR PTE_P))"
      by (auto simp: layout)
    have u1: "at_user base k s1 c" "self_map s1" "kern_inv base k s1" and id: "npages s1 = npages s" "dir_frame s1 = dir_frame s"
      using run1(2) u(2) ids_keptD(2,5) [of s s1] by (auto simp: page_call_def at_user_def)
    obtain fl where "vm_inv base (live_dirs s) fl s"
      using kern_inv_vm [OF inv] .
    from vm_invD(9) [OF this] have q6: "q < 65536"
      using q(1) by simp
    note F = rw_entry(3) [OF q6]
    have fresh: "frame y \<noteq> q" if "aspace s e v = Some y" for e v y
      using aspace_frame(5) [OF inv that] q(2) by auto
    have m1: "amaps s1 q = {(c, ?t)}"
      unfolding amaps_def as1 using F fresh by (auto split: if_splits) blast+
    have apn1: "aspace s1 c ?pn = Some pt"
      using as addr(2) as1 by auto
    have low1: "refs_low s1"
    proof (rule refs_below_low)
      show "refs_below (Suc 65534) s1"
        by (rule refs_step [OF inv u1(3) id(1) amaps_upd [OF as1] low]) simp
    qed simp
    obtain s2 s3 s4 where R: "copy_page PFTEMP (PGNUM2LA ?pn) s1 = Some s2"
      "lib_sys_page_map 0 PFTEMP 0 (PGNUM2LA ?pn) ?perm s2 = Some (0, s3)" "lib_sys_page_unmap 0 PFTEMP s3 = Some (0, s4)"
      "at_user base k s4 c" "self_map s4" "ids_kept s1 s4"
      and as4: "aspace s4 = (aspace s1)(c := (aspace s1 c)(?t := None, ?pn \<mapsto> page2pa q OR ?perm OR PTE_P))"
      and m4: "amaps s4 q = {(c, ?pn)}" and cq: "\<And>i. unat i < 1024 \<Longrightarrow> entry s4 q i = entry s1 (frame pt) i"
      and cp: "\<And>p i. p \<noteq> q \<Longrightarrow> amaps s4 p \<noteq> {} \<Longrightarrow> unat i < 1024 \<Longrightarrow> entry s4 p i = entry s1 p i"
      using pgfault_moves [OF u1(1,2) low1 addr(2) shareable_kept [OF u(1) pn sh(1) run1(2) apn1 ue] q6 m1 _ x [folded id(2)]] as1 by auto
    have "pgfault addr err s = Some s4"
      using eq run1(1) R(1-3) True by simp
    moreover have "aspace s4 = (aspace s)(c := (aspace s c)(?t := None, ?pn \<mapsto> page2pa q OR ?perm OR PTE_P))"
      unfolding as4 as1 by auto
    moreover have "entry s4 q i = entry s (frame pt) i" if "unat i < 1024" for i
      using cq [OF that] kept_page [OF inv run1(2) _ that, of "frame pt"] as by (auto simp: amaps_def)
    moreover have "entry s4 p i = entry s p i" if p: "p \<noteq> q" "amaps s4 p \<noteq> {}" "unat i < 1024" for p i
    proof -
      have "amaps s p \<noteq> {}"
        using p(1,2) F unfolding amaps_def as4 as1 by (auto split: if_splits)
      from kept_page [OF inv run1(2) this p(3)] cp [OF p] show ?thesis by simp
    qed
    moreover have "ids_kept s s4"
      using run1(2) R(6) ids_kept_trans by (auto simp: page_call_def)
    ultimately show ?thesis
      using R(4,5) m4 by blast
  qed
qed

text \<open>C12. \<^verbatim>\<open>pgfault\<close>, called after a write to a copy-on-write page below \<^verbatim>\<open>UTOP\<close> other than the temporary one while no page has 65534
  references, panics only when the kernel has no page for it. Otherwise the page is replaced in the environment's address
  space by a writable page with the same content that is mapped nowhere else, the temporary mapping is gone, no other
  mapping of any environment has changed, and no other mapped page has a different content.\<close>

theorem pgfault_copies:
  assumes u: "at_user base k s c" "self_map s" and low: "refs_below 65534 s" and addr: "addr < UTOP" "PGNUM addr \<noteq> PGNUM PFTEMP"
    and sh: "shareable s c (PGNUM addr) pt" "pt AND PTE_COW \<noteq> 0" and w: "err AND FEC_WR \<noteq> 0"
  shows "(pgfault addr err s = None \<and> (\<exists>s1. lib_sys_page_alloc 0 PFTEMP (PTE_P OR PTE_U OR PTE_W) s = Some (- E_NO_MEM, s1))) \<or>
    (\<exists>q s'. pgfault addr err s = Some s' \<and> at_user base k s' c \<and> self_map s' \<and>
      aspace s' = (aspace s)(c := (aspace s c)(PGNUM PFTEMP := None, PGNUM addr \<mapsto> page2pa q OR (PTE_P OR PTE_U OR PTE_W) OR PTE_P)) \<and>
      amaps s' q = {(c, PGNUM addr)} \<and>
      (\<forall>i. unat i < 1024 \<longrightarrow> entry s' q i = entry s (frame pt) i) \<and>
      (\<forall>p i. p \<noteq> q \<longrightarrow> amaps s' p \<noteq> {} \<longrightarrow> unat i < 1024 \<longrightarrow> entry s' p i = entry s p i))"
  using pgfault_run [OF assms] by blast

text \<open>The parent of \<open>demo_pair 0x5805\<close> writes to its copy-on-write page at \<^verbatim>\<open>0x800000\<close>.\<close>

theorem pgfault_copies_witness:
  "\<exists>q s'. pgfault 0x800123 2 (demo_pair 0x5805) = Some s' \<and> aspace s' 0 0x800 = Some (page2pa q OR 7) \<and> amaps s' q = {(0, 0x800)} \<and>
     entry s' q 0 = entry (demo_pair 0x5805) 5 0"
proof -
  let ?s = "demo_pair 0x5805"
  have p: "(0x800123::u32) < UTOP" "PGNUM 0x800123 = 0x800" "0x800 \<noteq> PGNUM PFTEMP" "(0x5805::u32) AND PTE_COW \<noteq> 0"
    "(2::u32) AND FEC_WR \<noteq> 0" "frame 0x5805 = 5" "present 0x5805" "(PTE_P OR PTE_U OR PTE_W) OR PTE_P = 7" "PFTEMP < UTOP"
    "(PTE_P OR PTE_U OR PTE_W) AND NOT PTE_SYSCALL = 0"
    by (simp_all add: PGNUM_def frame_def present_def layout)
  note F = demo_pair_forking [OF p(6,7)]
  have u: "at_user demo_base 0 ?s 0" "self_map ?s"
    using F(1) by (simp_all add: forking_def)
  have low: "refs_below 65534 ?s"
    using F(2) unfolding refs_below_def by fastforce
  have d0: "dir_frame ?s 0 = 1"
    by (rule dir_frame_kpage) simp_all
  have "shareable ?s 0 0x800 0x5805"
    unfolding shareable_def d0 using F(5) by (simp add: demo_pair_entry user_entry_def present_def PGNUM2LA_def PDX_def layout)
  then have sh: "shareable ?s 0 (PGNUM 0x800123) 0x5805" "PGNUM 0x800123 \<noteq> PGNUM PFTEMP"
    using p(2,3) by simp_all
  have "\<not> no_room [6, 7] ?s (dir_frame ?s 0) PFTEMP 1"
    by (simp add: no_room_def)
  then have "\<nexists>s1. lib_sys_page_alloc 0 PFTEMP (PTE_P OR PTE_U OR PTE_W) ?s = Some (- E_NO_MEM, s1)"
    using lib_sys_page_alloc_run [OF u(1) found_self [OF u(1)] p(9,10)] F(4) by (auto simp: layout)
  with pgfault_copies [OF u low p(1) sh(2,1) p(4,5), unfolded p(2,6,8)]
  obtain q s' where c: "pgfault 0x800123 2 ?s = Some s'" "amaps s' q = {(0, 0x800)}"
      "aspace s' = (aspace ?s)(0 := (aspace ?s 0)(PGNUM PFTEMP := None, 0x800 \<mapsto> page2pa q OR 7))"
      "\<forall>i. unat i < 1024 \<longrightarrow> entry s' q i = entry ?s 5 i"
    by (elim disjE exE conjE) simp_all
  then have "aspace s' 0 0x800 = Some (page2pa q OR 7)" "entry s' q 0 = entry ?s 5 0"
    by simp_all
  with c(1,2) show ?thesis by blast
qed

subsection \<open>The whole loop of \<^verbatim>\<open>fork\<close>\<close>

text \<open>After the loop has shared the stack page, the next call faults on it.\<close>

lemma shared_writable:
  assumes "user_entry st True" "frame st < 65536"
  shows "user_entry (shared st) False" "\<not> user_entry (shared st) True" "shared st AND PTE_COW \<noteq> 0"
proof -
  have st: "present st" "st AND PTE_W \<noteq> 0" "st AND PTE_U \<noteq> 0"
    using assms(1) by (simp_all add: user_entry_def)
  note S = shared_facts [OF assms(2)]
  show "\<not> user_entry (shared st) True" "shared st AND PTE_COW \<noteq> 0"
    using S(2) S(3) [OF st(2)] by (simp_all add: user_entry_def)
  have "bit st 2" "bit st 1"
    using st(2,3) by (simp_all add: flag_tests)
  then have "bit (shared st) 2"
    by (auto simp: shared_def u32_eq_iff bit_or_iff bit_and_iff bit_not_iff flag_bits PGOFF_def and_0xFFF bit_take_bit_iff)
  then show "user_entry (shared st) False"
    using S(4) [OF st(1)] by (simp add: user_entry_def flag_tests)
qed

lemma stack_push_shared:
  assumes t: "at_user base k t c" and as: "aspace t c (PGNUM (esp - 4)) = Some x" and x: "\<not> user_entry x True"
  shows "stack_push esp t = pgfault (esp - 4) (FEC_PR OR FEC_WR OR FEC_U) t"
proof -
  have inv: "kern_inv base k t" "cr3 t = page2pa (dir_frame t c)" "live t c"
    using t by (simp_all add: at_user_def on_dir_def)
  note A = aspace_table [OF inv(1) as]
  have "PDX (PGNUM2LA (PGNUM (esp - 4))) = PDX (esp - 4)" "PTX (PGNUM2LA (PGNUM (esp - 4))) = PTX (esp - 4)"
    using PGNUM2LA_user(1) [OF A(10)] by (simp_all add: PGNUM_eq_iff)
  then have "entry t (frame (entry t (dir_frame t c) (PDX (esp - 4)))) (PTX (esp - 4)) = x"
    using A(1,2) by (simp add: pte_def)
  then have "user_translate t (esp - 4) True = None"
    using x by (simp add: user_translate_eq [OF inv(2) A(5)] Let_def)
  then show ?thesis
    by (simp add: stack_push_def)
qed

lemma fork_stack_fault:
  assumes inv: "kern_inv base k s" and low: "refs_below 32767 s" and st: "stack_ok s c esp st"
    and t: "fork_inv base k s esp child c ch (unat (PGNUM UXSTACKBASE)) t"
  shows "(stack_push esp t = None \<and> (\<exists>s1. lib_sys_page_alloc 0 PFTEMP (PTE_P OR PTE_U OR PTE_W) t = Some (- E_NO_MEM, s1))) \<or>
    (\<exists>q s'. stack_push esp t = Some s' \<and> forking base k s' c child ch \<and>
      aspace s' = (aspace t)(c := (aspace t c)(PGNUM (esp - 4) \<mapsto> page2pa q OR (PTE_P OR PTE_U OR PTE_W) OR PTE_P)) \<and>
      amaps s' q = {(c, PGNUM (esp - 4))})"
proof -
  let ?va = "esp - 4"
  have S: "aspace s c (PGNUM ?va) = Some st" "user_entry st True" "user_entry (entry s (dir_frame s c) (PDX ?va)) True"
    "PGNUM ?va < PGNUM UXSTACKBASE" "aspace s c (PGNUM PFTEMP) = None"
    using st by (simp_all add: stack_ok_def)
  have T: "forking base k t c child ch" "ids_kept s t" "opens s t c" "\<And>pn. pn < PGNUM UXSTACKBASE \<Longrightarrow> passed s esp child c ch t pn"
    using t by (auto simp: fork_inv_def word_less_nat_alt)
  then have u: "at_user base k t c" "self_map t"
    by (simp_all add: forking_def)
  note W = shared_writable [OF S(2) aspace_frame(1) [OF inv S(1)]]
  have va: "?va < UTOP"
    using S(4) by (simp add: word_less_nat_alt unat_PGNUM layout)
  have lt: "PGNUM ?va < PGNUM UTOP"
    using S(4) by (simp add: word_less_nat_alt unat_PGNUM layout)
  have pd: "PDX (PGNUM2LA (PGNUM ?va)) = PDX ?va"
    using PGNUM2LA_user(1) [OF lt] by (simp add: PGNUM_eq_iff)
  have pde: "user_entry (entry s (dir_frame s c) (PDX ?va)) False"
    using S(3) by (simp add: user_entry_def)
  have "shareable s c (PGNUM ?va) st"
    unfolding shareable_def pd using S(1,2) pde by (simp add: user_entry_def)
  then have as: "aspace t c (PGNUM ?va) = Some (shared st)"
    using T(4) [OF S(4)] S(1) by (simp add: passed_def)
  have "user_entry (entry t (dir_frame t c) (PDX ?va)) False"
    using T(3) pde below_UTOP [OF va] ids_keptD(2) [OF T(2)] by (simp add: opens_def)
  then have sh: "shareable t c (PGNUM ?va) (shared st)"
    unfolding shareable_def pd using as W(1) by simp
  have "PGNUM PFTEMP < PGNUM UXSTACKBASE"
    by (simp add: PGNUM_def layout)
  then have none: "aspace t c (PGNUM PFTEMP) = None"
    using T(4) [of "PGNUM PFTEMP"] S(5) by (simp add: passed_def)
  then have ne: "PGNUM ?va \<noteq> PGNUM PFTEMP"
    using as by auto
  have w: "(FEC_PR OR FEC_WR OR FEC_U) AND FEC_WR \<noteq> 0"
    by (simp add: layout)
  note push = stack_push_shared [OF u(1) as W(2)]
  from pgfault_run [OF u fork_inv_refs [OF inv t low] va ne sh W(3) w] show ?thesis
  proof (elim disjE exE conjE)
    fix q s' assume *: "pgfault ?va (FEC_PR OR FEC_WR OR FEC_U) t = Some s'" "at_user base k s' c" "self_map s'" "ids_kept t s'"
      "aspace s' = (aspace t)(c := (aspace t c)(PGNUM PFTEMP := None, PGNUM ?va \<mapsto> page2pa q OR (PTE_P OR PTE_U OR PTE_W) OR PTE_P))"
      "amaps s' q = {(c, PGNUM ?va)}"
    have "(aspace t c)(PGNUM PFTEMP := None) = aspace t c"
      using none by (auto simp: fun_eq_iff)
    then show ?thesis
      using * T(1) push ids_keptD(4) [OF *(4)] by (auto simp: forking_def)
  qed (use push in auto)
qed

lemma fork_uxstack:
  assumes u: "at_user base k s c" "found s child True = Some ch"
  shows "\<exists>r s'. lib_sys_page_alloc child UXSTACKBASE (PTE_U OR PTE_W OR PTE_P) s = Some (r, s') \<and> at_user base k s' c \<and>
    (r = - E_NO_MEM \<and> aspace s' = aspace s \<or>
     (\<exists>p. (\<forall>e pn x. aspace s e pn = Some x \<longrightarrow> frame x \<noteq> p) \<and>
        (\<exists>y. frame y = p \<and> aspace s' = (aspace s)(ch := (aspace s ch)(PGNUM UXSTACKBASE \<mapsto> y)))))"
proof -
  let ?p = "PTE_U OR PTE_W OR PTE_P"
  have va: "UXSTACKBASE < UTOP" "?p AND NOT PTE_SYSCALL = 0"
    by (simp_all add: layout)
  have inv: "kern_inv base k s"
    using u(1) by (simp add: at_user_def)
  obtain fl where "vm_inv base (live_dirs s) fl s"
    using kern_inv_vm [OF inv] .
  then have np: "unat (npages s) \<le> 65536"
    by (rule vm_invD(9))
  obtain r s' where run: "lib_sys_page_alloc child UXSTACKBASE ?p s = Some (r, s')" "page_call base k c s s'" and
    C: "r = - E_NO_MEM \<and> aspace s' = aspace s \<or> (\<exists>q. q < unat (npages s) \<and> pp_ref (pages s q) = 0 \<and>
       aspace s' = (aspace s)(ch := (aspace s ch)(PGNUM UXSTACKBASE \<mapsto> page2pa q OR ?p OR PTE_P)))"
    using lib_sys_page_alloc_run [OF u va] by blast
  have "(\<forall>e pn x. aspace s e pn = Some x \<longrightarrow> frame x \<noteq> q) \<and> frame (page2pa q OR ?p OR PTE_P) = q"
    if "q < unat (npages s)" "pp_ref (pages s q) = 0" for q
  proof (intro conjI allI impI)
    show "frame (page2pa q OR ?p OR PTE_P) = q"
      using that(1) np by (intro frame_new_pte) (simp_all add: layout)
    show "frame x \<noteq> q" if "aspace s e pn = Some x" for e pn x
      using aspace_frame(5) [OF inv that] \<open>pp_ref (pages s q) = 0\<close> by auto
  qed
  moreover have "at_user base k s' c"
    using run(2) by (simp add: page_call_def)
  ultimately show ?thesis
    using run(1) C by blast
qed

text \<open>C11. The loop of \<^verbatim>\<open>fork\<close>, run by environment \<open>c\<close> with a writable stack page for its fresh child \<open>ch\<close> while no page has 32767
  references. The rounds below the exception stack never panic, and after them a page the parent can read is in
  the parent read-only and, when it was writable or copy-on-write, marked copy-on-write; the child has the same page under the same
  entry, unless no page was free for its page table when its turn came; a page the parent cannot read is not touched and not
  in the child. The next call then faults on the parent's own stack page, which has just been shared. If the kernel
  has no page for the handler, the program panics there; otherwise the loop ends with the parent having, at its stack
  page, a writable page mapped nowhere else, and the child still the shared one; all other pages are as the rounds have left
  them and all other environments as they were. The parent keeps its exception stack, and the child gets for its own a page that is
  mapped nowhere else, unless the kernel has no page for it.\<close>

theorem fork_shares:
  assumes "forking base k s c child ch" "refs_below 32767 s" "\<And>pn. aspace s ch pn = None" "stack_ok s c esp st"
  shows "\<exists>t. for_each (fork_page esp child) (map word_of_nat [0..<unat (PGNUM UXSTACKBASE)]) s = Some t \<and>
    (\<forall>pn < PGNUM UXSTACKBASE. passed s esp child c ch t pn) \<and>
    (case for_each (fork_page esp child) (map word_of_nat [0..<unat (PGNUM UTOP)]) s of
       None \<Rightarrow> \<exists>s1. lib_sys_page_alloc 0 PFTEMP (PTE_P OR PTE_U OR PTE_W) t = Some (- E_NO_MEM, s1)
     | Some s' \<Rightarrow> at_user base k s' c \<and> (\<forall>e. e \<noteq> c \<longrightarrow> e \<noteq> ch \<longrightarrow> aspace s' e = aspace s e) \<and>
         (\<forall>pn < PGNUM UXSTACKBASE. aspace s' ch pn = aspace t ch pn \<and> (pn \<noteq> PGNUM (esp - 4) \<longrightarrow> aspace s' c pn = aspace t c pn)) \<and>
         (\<exists>q. aspace s' c (PGNUM (esp - 4)) = Some (page2pa q OR (PTE_P OR PTE_U OR PTE_W) OR PTE_P) \<and>
            amaps s' q = {(c, PGNUM (esp - 4))}) \<and>
         aspace s' c (PGNUM UXSTACKBASE) = aspace s c (PGNUM UXSTACKBASE) \<and>
         (case aspace s' ch (PGNUM UXSTACKBASE) of
            None \<Rightarrow> \<exists>t'. stack_push esp t = Some t' \<and>
              lib_sys_page_alloc child UXSTACKBASE (PTE_U OR PTE_W OR PTE_P) t' = Some (- E_NO_MEM, s')
          | Some x \<Rightarrow> amaps s' (frame x) = {(ch, PGNUM UXSTACKBASE)}))"
proof -
  define N where "N = unat (PGNUM UXSTACKBASE)"
  let ?ux = "PGNUM UXSTACKBASE" and ?sp = "PGNUM (esp - 4)" and ?rw = "PTE_P OR PTE_U OR PTE_W"
  have N: "unat (PGNUM UTOP) = Suc N" "word_of_nat N = ?ux"
    by (simp_all add: N_def unat_PGNUM layout) (simp add: PGNUM_def layout)
  have inv: "kern_inv base k s"
    using assms(1) by (simp add: forking_def at_user_def)
  obtain t where t: "for_each (fork_page esp child) (map word_of_nat [0..<N]) s = Some t" "fork_inv base k s esp child c ch N t"
    using fork_loop_run [OF assms, of N] N_def by auto
  have T: "\<And>e. e \<noteq> c \<Longrightarrow> e \<noteq> ch \<Longrightarrow> aspace t e = aspace s e" "aspace t c ?ux = aspace s c ?ux" "aspace t ch ?ux = None"
    "\<And>pn. pn < ?ux \<Longrightarrow> passed s esp child c ch t pn"
    using t(2) by (auto simp: fork_inv_def N_def word_less_nat_alt)
  have sp: "?sp < ?ux"
    using assms(4) by (simp add: stack_ok_def)
  have all: "for_each (fork_page esp child) (map word_of_nat [0..<unat (PGNUM UTOP)]) s = fork_page esp child ?ux t"
    unfolding N(1) using t(1) N(2) by (simp add: for_each_append split: bind_splits)
  have last: "fork_page esp child ?ux t =
      do { s0 \<leftarrow> stack_push esp t; (_, s1) \<leftarrow> lib_sys_page_alloc child UXSTACKBASE (PTE_U OR PTE_W OR PTE_P) s0; Some s1 }"
    by (simp add: fork_page_def)
  from fork_stack_fault [OF inv assms(2,4) t(2) [unfolded N_def]]
  show ?thesis
  proof (elim disjE exE conjE)
    fix s1 assume "stack_push esp t = None" "lib_sys_page_alloc 0 PFTEMP ?rw t = Some (- E_NO_MEM, s1)"
    then show ?thesis
      using t(1) T(4) unfolding all last N_def by auto
  next
    fix q t' assume push: "stack_push esp t = Some t'" and f: "forking base k t' c child ch" and
      as: "aspace t' = (aspace t)(c := (aspace t c)(?sp \<mapsto> page2pa q OR ?rw OR PTE_P))" and aq: "amaps t' q = {(c, ?sp)}"
    have u: "at_user base k t' c" "found t' child True = Some ch" and ne: "ch \<noteq> c"
      using f by (simp_all add: forking_def)
    obtain r s' where run: "lib_sys_page_alloc child UXSTACKBASE (PTE_U OR PTE_W OR PTE_P) t' = Some (r, s')" "at_user base k s' c"
      and C: "r = - E_NO_MEM \<and> aspace s' = aspace t' \<or>
        (\<exists>p. (\<forall>e pn x. aspace t' e pn = Some x \<longrightarrow> frame x \<noteq> p) \<and> (\<exists>y. frame y = p \<and> aspace s' = (aspace t')(ch := (aspace t' ch)(?ux \<mapsto> y))))"
      using fork_uxstack [OF u] by blast
    have "(c, ?sp) \<in> amaps t' q"
      by (simp add: aq)
    then have q: "frame (page2pa q OR ?rw OR PTE_P) = q"
      by (simp add: amaps_def as)
    have full: "for_each (fork_page esp child) (map word_of_nat [0..<unat (PGNUM UTOP)]) s = Some s'"
      unfolding all last using push run(1) by simp
    have A: "aspace s' e = aspace t e" if "e \<noteq> c" "e \<noteq> ch" for e
      using C as that by auto
    have B: "aspace s' c = (aspace t c)(?sp \<mapsto> page2pa q OR ?rw OR PTE_P)"
      using C as ne by auto
    have D: "aspace s' ch pn = aspace t ch pn" if "pn \<noteq> ?ux" for pn
      using C as ne that by auto
    have E: "amaps s' q = {(c, ?sp)}"
      using C
    proof (elim disjE exE conjE)
      assume "aspace s' = aspace t'"
      then show ?thesis
        using aq by (simp add: amaps_def)
    next
      fix p y assume p: "\<forall>e pn x. aspace t' e pn = Some x \<longrightarrow> frame x \<noteq> p" "frame y = p"
        and s': "aspace s' = (aspace t')(ch := (aspace t' ch)(?ux \<mapsto> y))"
      have "aspace t' c ?sp = Some (page2pa q OR ?rw OR PTE_P)" "aspace t' ch ?ux = None"
        using as T(3) ne by auto
      then have y: "frame y \<noteq> q" "aspace t' ch ?ux = None"
        using p q by auto
      have "amaps s' q = amaps t' q"
        unfolding amaps_def s' using y by (auto split: if_splits)
      with aq show ?thesis by simp
    qed
    have F: "case aspace s' ch ?ux of
        None \<Rightarrow> \<exists>t'. stack_push esp t = Some t' \<and> lib_sys_page_alloc child UXSTACKBASE (PTE_U OR PTE_W OR PTE_P) t' = Some (- E_NO_MEM, s')
      | Some x \<Rightarrow> amaps s' (frame x) = {(ch, ?ux)}"
      using C
    proof (elim disjE exE conjE)
      assume "r = - E_NO_MEM" "aspace s' = aspace t'"
      then show ?thesis
        using push run(1) as T(3) ne by simp
    next
      fix p y assume "\<forall>e pn x. aspace t' e pn = Some x \<longrightarrow> frame x \<noteq> p" "frame y = p"
        and s': "aspace s' = (aspace t')(ch := (aspace t' ch)(?ux \<mapsto> y))"
      then show ?thesis
        by (auto simp: amaps_def split: if_splits)
    qed
    show ?thesis
      unfolding full option.case using t(1) T(1,2,4) run(2) A B D E F sp by (intro exI [of _ t]) (auto simp: N_def)
  qed
qed

theorem fork_shares_witness:
  "\<exists>t. for_each (fork_page 0x801000 0x1001) (map word_of_nat [0..<unat (PGNUM UXSTACKBASE)]) demo_fork = Some t \<and>
    aspace t 0 0x800 = Some 0x5805 \<and>
    (\<forall>s'. for_each (fork_page 0x801000 0x1001) (map word_of_nat [0..<unat (PGNUM UTOP)]) demo_fork = Some s' \<longrightarrow>
      (\<exists>q. aspace s' 0 0x800 = Some (page2pa q OR 7) \<and> amaps s' q = {(0, 0x800)}))"
proof -
  note F = demo_pair_forking [OF demo_frames(3,4)]
  have p: "PGNUM (0x801000 - 4) = 0x800" "0x800 < PGNUM UXSTACKBASE" "(PTE_P OR PTE_U OR PTE_W) OR PTE_P = 7"
    "shared 0x5007 = 0x5805"
    by (simp_all add: PGNUM_def layout) (simp add: shared_def demo_frames page2pa_def PGOFF_def layout)
  have "dir_frame demo_fork 0 = 1"
    by (rule dir_frame_kpage) simp_all
  then have sh: "shareable demo_fork 0 0x800 0x5007"
    unfolding shareable_def using F(5) by (simp add: demo_pair_entry user_entry_def present_def PGNUM2LA_def PDX_def layout)
  have a: "aspace t 0 0x800 = Some 0x5805" if "\<forall>pn < PGNUM UXSTACKBASE. passed demo_fork 0x801000 0x1001 0 1 t pn" for t
    using that p(2,4) F(5) sh by (auto simp: passed_def dest!: spec [of _ "0x800 :: u32"])
  note R = fork_shares [OF F(1-3) demo_fork_stack, unfolded p(1,3)]
  show ?thesis
  proof (cases "for_each (fork_page 0x801000 0x1001) (map word_of_nat [0..<unat (PGNUM UTOP)]) demo_fork")
    case None
    with R a show ?thesis by auto
  next
    case (Some s')
    from R [unfolded Some option.case] obtain t where
      "for_each (fork_page 0x801000 0x1001) (map word_of_nat [0..<unat (PGNUM UXSTACKBASE)]) demo_fork = Some t"
      "\<forall>pn < PGNUM UXSTACKBASE. passed demo_fork 0x801000 0x1001 0 1 t pn"
      "\<exists>q. aspace s' 0 0x800 = Some (page2pa q OR 7) \<and> amaps s' q = {(0, 0x800)}"
      by blast
    with Some a show ?thesis by auto
  qed
qed

end
