(* ===== verification/Meminit.thy ===== *)
theory Meminit
  imports Kern_Inv
begin

section \<open>The kernel's address space\<close>

text \<open>
  \<^verbatim>\<open>mem_init\<close> and \<^verbatim>\<open>mem_init_mp\<close> of \<^verbatim>\<open>kern/pmap.c\<close>: the boot allocations, the mappings of the kernel
  part of the address space, and the theorem that booting establishes the invariant of the kernel. Addresses that the linker knows (\<^verbatim>\<open>end\<close>,
  \<^verbatim>\<open>bootstack\<close>, \<^verbatim>\<open>percpu_kstacks\<close>) are arguments.
\<close>

subsection \<open>Operations\<close>

definition sizeof_Page :: u32 where [layout]: "sizeof_Page = 12"
definition sizeof_Env :: u32 where [layout]: "sizeof_Env = 124"

text \<open>The first part of \<^verbatim>\<open>mem_init\<close>, up to \<^verbatim>\<open>page_init\<close>; the results are the pointers \<^verbatim>\<open>pages\<close> and \<^verbatim>\<open>envs\<close>.\<close>

definition mem_init_alloc :: "(nat \<Rightarrow> u8) \<Rightarrow> u32 \<Rightarrow> kstate \<Rightarrow> (u32 \<times> u32 \<times> kstate) option" where
  "mem_init_alloc nv kend s =
     do {
       (pgdir, s1) \<leftarrow> boot_alloc kend PGSIZE (i386_detect_memory nv s);
       let s2 = s1\<lparr>kern_pgdir := pgdir, pmem := fill_bytes (pmem s1) (pgdir - KERNBASE) 0 4096\<rparr>;
       pa \<leftarrow> PADDR pgdir;
       let s3 = kst (slot pgdir (PDX UVPT)) (pa OR PTE_U OR PTE_P) s2;
       (pages_va, s4) \<leftarrow> boot_alloc kend (sizeof_Page * npages s3) s3;
       (envs_va, s5) \<leftarrow> boot_alloc kend (sizeof_Env * word_of_nat NENV) s4;
       s6 \<leftarrow> page_init kend s5;
       Some (pages_va, envs_va, s6)
     }"

definition map_kstack :: "(nat \<Rightarrow> u32) \<Rightarrow> nat \<Rightarrow> kstate \<Rightarrow> kstate option" where
  "map_kstack kstacks i s =
     do {
       pa \<leftarrow> PADDR (kstacks i);
       boot_map_region (kern_pgdir s) (KSTACKTOP - KSTKSIZE * word_of_nat (i + 1) - KSTKGAP * word_of_nat i) KSTKSIZE pa PTE_W s
     }"

definition mem_init_mp :: "(nat \<Rightarrow> u32) \<Rightarrow> kstate \<Rightarrow> kstate option" where
  "mem_init_mp kstacks s =
     do {
       s1 \<leftarrow> boot_map_region (kern_pgdir s) IOMEMBASE (- IOMEMBASE) IOMEM_PADDR PTE_W s;
       for_each (map_kstack kstacks) [0..<NCPU] s1
     }"

text \<open>The second part of \<^verbatim>\<open>mem_init\<close>, from the mapping of \<^verbatim>\<open>pages\<close> to \<^verbatim>\<open>mem_init_mp\<close>.\<close>

definition mem_init_map :: "u32 \<Rightarrow> u32 \<Rightarrow> u32 \<Rightarrow> (nat \<Rightarrow> u32) \<Rightarrow> kstate \<Rightarrow> kstate option" where
  "mem_init_map pages_va envs_va bootstack kstacks s =
     do {
       pages_pa \<leftarrow> PADDR pages_va;
       s1 \<leftarrow> boot_map_region (kern_pgdir s) UPAGES (npages s * sizeof_Page) pages_pa PTE_U s;
       stack_pa \<leftarrow> PADDR bootstack;
       s2 \<leftarrow> boot_map_region (kern_pgdir s1) (KSTACKTOP - KSTKSIZE) KSTKSIZE stack_pa PTE_W s1;
       s3 \<leftarrow> boot_map_region (kern_pgdir s2) KERNBASE (0xFFFFFFFF - KERNBASE) 0 PTE_W s2;
       envs_pa \<leftarrow> PADDR envs_va;
       s4 \<leftarrow> boot_map_region (kern_pgdir s3) UENVS (word_of_nat NENV * sizeof_Env) envs_pa PTE_U s3;
       mem_init_mp kstacks s4
     }"

subsection \<open>The directory while it is built\<close>

text \<open>\<open>kern_pdes\<close>: the entries of the directory that the kernel uses, \<^verbatim>\<open>UVPT\<close> apart. \<open>kdir k N fl s\<close>: frame \<open>k\<close> holds the kernel's
  directory, its tables are distinct frames outside the free list \<open>fl\<close>, and tables and free pages together are \<open>N\<close>.\<close>

definition kern_pdes :: "u32 set" where
  "kern_pdes = {PDX UENVS, PDX UPAGES, PDX (KSTACKTOP - 1)} \<union> {i. PDX KERNBASE \<le> i \<and> unat i < 1024}"

definition ktab :: "kstate \<Rightarrow> nat \<Rightarrow> u32 set" where
  "ktab s k = {i. unat i < 1024 \<and> i \<noteq> PDX UVPT \<and> present (entry s k i)}"

definition kdir :: "nat \<Rightarrow> nat \<Rightarrow> nat list \<Rightarrow> kstate \<Rightarrow> bool" where
  "kdir k N fl s \<longleftrightarrow> pages_wf s \<and> free_list s fl \<and> kern_pgdir s = kpage k \<and> k < unat (npages s) \<and> k \<notin> set fl \<and>
     entry s k (PDX UVPT) = page2pa k OR PTE_U OR PTE_P \<and>
     ktab s k \<subseteq> kern_pdes \<and> card (ktab s k) + length fl = N \<and> inj_on (\<lambda>i. frame (entry s k i)) (ktab s k) \<and>
     (\<forall>i. unat i < 1024 \<longrightarrow> i \<noteq> PDX UVPT \<longrightarrow>
        (if present (entry s k i)
         then frame (entry s k i) < unat (npages s) \<and> frame (entry s k i) \<notin> set fl \<and> frame (entry s k i) \<noteq> k \<and> entry s k i AND PTE_W \<noteq> 0
         else entry s k i = 0))"

lemma kdirD:
  assumes "kdir k N fl s"
  shows "pages_wf s" "free_list s fl" "kern_pgdir s = kpage k" "k < unat (npages s)" "k \<notin> set fl" "unat (npages s) \<le> 65536" "k < 65536"
    "entry s k (PDX UVPT) = page2pa k OR PTE_U OR PTE_P" "ktab s k \<subseteq> kern_pdes" "card (ktab s k) + length fl = N"
    "inj_on (\<lambda>i. frame (entry s k i)) (ktab s k)"
    "i \<in> ktab s k \<Longrightarrow> frame (entry s k i) < unat (npages s)" "i \<in> ktab s k \<Longrightarrow> frame (entry s k i) < 65536"
    "i \<in> ktab s k \<Longrightarrow> frame (entry s k i) \<notin> set fl" "i \<in> ktab s k \<Longrightarrow> frame (entry s k i) \<noteq> k"
    "i \<in> ktab s k \<Longrightarrow> entry s k i AND PTE_W \<noteq> 0"
    "unat i < 1024 \<Longrightarrow> i \<noteq> PDX UVPT \<Longrightarrow> i \<notin> ktab s k \<Longrightarrow> entry s k i = 0"
  using assms by (auto simp: kdir_def pages_wf_def ktab_def split: if_splits)

lemma kern_pdes_iff: "i \<in> kern_pdes \<longleftrightarrow> unat i \<in> {955, 956, 958} \<union> {960..<1024}"
proof -
  have "PDX UENVS = 955" "PDX UPAGES = 956" "PDX (KSTACKTOP - 1) = 958" "PDX KERNBASE = 960"
    by (simp_all add: PDX_def layout)
  then show ?thesis
    by (auto simp: kern_pdes_def word_le_nat_alt word_unat_eq_iff)
qed

lemma kern_pdes_UVPT: "i \<in> kern_pdes \<Longrightarrow> i \<noteq> PDX UVPT" "i \<in> kern_pdes \<Longrightarrow> unat i < 1024"
  by (auto simp: kern_pdes_iff PDX_def layout)

lemma card_kern_pdes: "card kern_pdes \<le> 67"
proof -
  have "kern_pdes \<subseteq> word_of_nat ` ({955, 956, 958} \<union> {960..<1024})"
  proof
    fix i assume "i \<in> kern_pdes"
    then have "unat i \<in> {955, 956, 958} \<union> {960..<1024}"
      by (simp only: kern_pdes_iff)
    then show "i \<in> word_of_nat ` ({955, 956, 958} \<union> {960..<1024})"
      by (intro image_eqI [of _ _ "unat i"]) simp_all
  qed
  then have "card kern_pdes \<le> card (word_of_nat ` ({955, 956, 958} \<union> {960..<1024}) :: u32 set)"
    by (intro card_mono) simp_all
  also have "\<dots> \<le> card ({955, 956, 958} \<union> {960..<1024} :: nat set)"
    by (rule card_image_le) simp
  also have "\<dots> \<le> 67"
    by (rule order_trans [OF card_Un_le]) simp
  finally show ?thesis .
qed

lemma kdir_free_page:
  assumes "kdir k N fl s" "67 \<le> N" "i \<in> kern_pdes" "\<not> present (entry s k i)"
  obtains p ys where "fl = p # ys"
proof (cases fl)
  case Nil
  have "ktab s k \<subset> kern_pdes"
    using kdirD(9) [OF assms(1)] assms(3,4) by (auto simp: ktab_def)
  then have "card (ktab s k) < card kern_pdes"
    by (intro psubset_card_mono) simp_all
  with Nil kdirD(10) [OF assms(1)] assms(2) card_kern_pdes show ?thesis
    by simp
qed (rule that)

text \<open>\<open>within X k s s'\<close>: if the directory and its tables are among the frames \<open>X\<close> in \<open>s\<close>, they are so in \<open>s'\<close>, and the other frames have not changed.
  \<open>kstep k fl s s'\<close>: what a step of the construction keeps.\<close>

definition within :: "nat set \<Rightarrow> nat \<Rightarrow> kstate \<Rightarrow> kstate \<Rightarrow> bool" where
  "within X k s s' \<longleftrightarrow> ((\<lambda>i. frame (entry s k i)) ` ktab s k \<subseteq> X \<longrightarrow>
     (\<lambda>i. frame (entry s' k i)) ` ktab s' k \<subseteq> X \<and> (\<forall>f i. f < 65536 \<longrightarrow> unat i < 1024 \<longrightarrow> f \<notin> X \<longrightarrow> entry s' f i = entry s f i))"

definition kstep :: "nat \<Rightarrow> nat list \<Rightarrow> kstate \<Rightarrow> kstate \<Rightarrow> bool" where
  "kstep k fl s s' \<longleftrightarrow> mm_frame s s' \<and> (\<forall>q. q \<notin> set fl \<longrightarrow> pages s' q = pages s q) \<and>
     (\<forall>i. unat i < 1024 \<longrightarrow> entry s k i AND PTE_U \<noteq> 0 \<longrightarrow> entry s' k i AND PTE_U \<noteq> 0) \<and>
     (\<forall>X. insert k (set fl) \<subseteq> X \<longrightarrow> within X k s s')"

lemma within_refl [simp]: "within X k s s"
  by (simp add: within_def)

lemma within_trans: "within X k s t \<Longrightarrow> within X k t u \<Longrightarrow> within X k s u"
  by (auto simp: within_def)

lemma kstep_refl [simp]: "kstep k fl s s"
  by (simp add: kstep_def)

lemma kstep_trans:
  assumes "kstep k fl s t" "kstep k fl' t u" "set fl' \<subseteq> set fl"
  shows "kstep k fl s u"
proof -
  have "within X k s u" if "insert k (set fl) \<subseteq> X" for X
    using assms that within_trans [of X k s t u] unfolding kstep_def by auto
  then show ?thesis
    using assms mm_frame_trans [of s t u] by (auto simp: kstep_def)
qed

text \<open>A store into a page table changes one mapping.\<close>

lemma kdir_store:
  fixes v :: u32
  assumes kd: "kdir k N fl s" and i: "PDX va \<in> ktab s k"
  defines "s' \<equiv> kst (slot (kpage (frame (entry s k (PDX va)))) (PTX va)) v s"
  shows "kdir k N fl s'" "kstep k fl s s'" "entry s' k j = entry s k j \<or> 1024 \<le> unat j" "ktab s' k = ktab s k"
    "PDX a \<noteq> PDX UVPT \<Longrightarrow> vmap s' k a =
       (if PGNUM a = PGNUM va then if present v then Some v else None else vmap s k a)"
proof -
  note K = kdirD [OF kd]
  let ?f = "frame (entry s k (PDX va))"
  have f: "?f < 65536" "?f \<noteq> k"
    using K(13,15) [OF i] .
  have ent: "entry s' g j = (if g = ?f \<and> j = PTX va then v else entry s g j)" if "g < 65536" "unat j < 1024" for g j
    unfolding s'_def by (rule entry_kst [OF f(1) that(1) PTX_less that(2)])
  have dir: "entry s' k j = entry s k j" if "unat j < 1024" for j
    using ent [OF K(7) that] f(2) by simp
  then show "entry s' k j = entry s k j \<or> 1024 \<le> unat j"
    by (cases "unat j < 1024") auto
  show tab: "ktab s' k = ktab s k"
    by (auto simp: ktab_def dir)
  have "inj_on (\<lambda>i. frame (entry s' k i)) (ktab s k) = inj_on (\<lambda>i. frame (entry s k i)) (ktab s k)"
    by (rule inj_on_cong) (simp add: dir ktab_def)
  then show "kdir k N fl s'"
    using kd dir by (auto simp: kdir_def tab user_pdx_UVPT) (simp_all add: s'_def)
  have "within X k s s'" for X
    unfolding within_def tab using ent dir i by (auto simp: ktab_def image_subset_iff)
  then show "kstep k fl s s'"
    using dir by (simp add: kstep_def) (simp add: s'_def)
  assume a: "PDX a \<noteq> PDX UVPT"
  show "vmap s' k a = (if PGNUM a = PGNUM va then if present v then Some v else None else vmap s k a)"
  proof (cases "PDX a \<in> ktab s k")
    case True
    have "frame (entry s k (PDX a)) = ?f \<longleftrightarrow> PDX a = PDX va"
      using inj_on_eq_iff [OF K(11) True i] .
    moreover have "present (entry s k (PDX a))"
      using True by (simp add: ktab_def)
    ultimately show ?thesis
      using ent [OF K(13) [OF True] PTX_less [of a]] by (auto simp: vmap_def pte_def dir PGNUM_eq_iff Let_def)
  next
    case False
    then have "\<not> present (entry s k (PDX a))" "PDX a \<noteq> PDX va"
      using a i by (auto simp: ktab_def)
    then show ?thesis
      by (simp add: vmap_def pte_def dir PGNUM_eq_iff Let_def)
  qed
qed

text \<open>So does giving user code access to a table.\<close>

lemma kdir_user:
  assumes kd: "kdir k N fl s" and i: "i \<in> ktab s k"
  defines "s' \<equiv> kst (slot (kpage k) i) (entry s k i OR PTE_U) s"
  shows "kdir k N fl s'" "kstep k fl s s'" "entry s' k i AND PTE_U \<noteq> 0" "ktab s' k = ktab s k"
    "PDX a \<noteq> PDX UVPT \<Longrightarrow> vmap s' k a = vmap s k a"
proof -
  note K = kdirD [OF kd]
  have i': "unat i < 1024" "i \<noteq> PDX UVPT" "present (entry s k i)"
    using i by (auto simp: ktab_def)
  have U: "(PTE_U :: u32) = 4" "(PTE_W :: u32) = 2"
    by (simp_all add: layout)
  have ent: "entry s' g j = (if g = k \<and> j = i then entry s k i OR PTE_U else entry s g j)" if "g < 65536" "unat j < 1024" for g j
    unfolding s'_def by (rule entry_kst [OF K(7) that(1) i'(1) that(2)])
  have pres: "present (entry s' k j) = present (entry s k j)" "frame (entry s' k j) = frame (entry s k j)" if "unat j < 1024" for j
    using ent [OF K(7) that] i' frame_keep_or [of PTE_U "entry s k i"] by (auto simp: U)
  have keep: "entry s' k j AND m \<noteq> 0" if "unat j < 1024" "entry s k j AND m \<noteq> 0" for j m
  proof (cases "j = i")
    case True
    have "(x OR y) AND m \<noteq> 0" if "x AND m \<noteq> 0" for x y :: u32
      using that by (auto simp: bit_eq_iff bit_and_iff bit_or_iff)
    then show ?thesis
      using True ent [OF K(7) that(1)] that(2) by simp
  qed (use ent [OF K(7) that(1)] that(2) in simp)
  show uu: "entry s' k i AND PTE_U \<noteq> 0"
    using ent [OF K(7) i'(1)] by (simp add: U bit_eq_iff bit_and_iff bit_or_iff) (rule exI [of _ 2], simp)
  show tab: "ktab s' k = ktab s k"
    using pres by (auto simp: ktab_def)
  have "inj_on (\<lambda>i. frame (entry s' k i)) (ktab s k) = inj_on (\<lambda>i. frame (entry s k i)) (ktab s k)"
    by (rule inj_on_cong) (simp add: pres ktab_def)
  moreover have "entry s' k j = 0" if "unat j < 1024" "j \<noteq> PDX UVPT" "\<not> present (entry s k j)" for j
    using ent [OF K(7) that(1)] K(17) [OF that(1,2)] that(3) i'(3) by (auto simp: ktab_def)
  moreover have "entry s' k (PDX UVPT) = entry s k (PDX UVPT)"
    using ent [OF K(7) user_pdx_UVPT(2)] i'(2) by auto
  ultimately show "kdir k N fl s'"
    using kd pres keep by (auto simp: kdir_def tab) (simp_all add: s'_def)
  have "within X k s s'" if "insert k (set fl) \<subseteq> X" for X
    unfolding within_def tab using ent pres that by (auto simp: ktab_def image_subset_iff)
  then show "kstep k fl s s'"
    using keep by (simp add: kstep_def) (simp add: s'_def)
  assume a: "PDX a \<noteq> PDX UVPT"
  have "entry s' (frame (entry s k (PDX a))) (PTX a) = entry s (frame (entry s k (PDX a))) (PTX a)" if "PDX a \<in> ktab s k"
    using ent [OF K(13) [OF that] PTX_less [of a]] K(15) [OF that] by simp
  then show "vmap s' k a = vmap s k a"
    using a pres [of "PDX a"] by (cases "PDX a \<in> ktab s k") (auto simp: vmap_def pte_def ktab_def)
qed

text \<open>A table that is missing is taken from the free list, empty.\<close>

lemma kdir_new_table:
  assumes kd: "kdir k N (p # ys) s" and i: "PDX va \<in> kern_pdes" "\<not> present (entry s k (PDX va))"
  shows "\<exists>s'. pgdir_walk s (kpage k) va True = Some (slot (kpage p) (PTX va), s') \<and> kdir k N ys s' \<and> kstep k (p # ys) s s' \<and>
    PDX va \<in> ktab s' k \<and> frame (entry s' k (PDX va)) = p \<and> (\<forall>a. PDX a \<noteq> PDX UVPT \<longrightarrow> vmap s' k a = vmap s k a)"
proof -
  note K = kdirD [OF kd]
  obtain s1 where al: "page_alloc s ALLOC_ZERO = Some (Some p, s1)" "pages_wf s1" "free_list s1 ys" "p \<notin> set ys"
    and pm: "pmem s1 = fill_bytes (pmem s) (page2pa p) 0 4096"
    using page_alloc_run [OF K(1,2), of ALLOC_ZERO] by (auto simp: layout)
  note A = page_alloc_Some [OF al(1)]
  have p: "p < unat (npages s)" "p < 65536" "p \<noteq> k"
    using K(2,5,6) by (auto simp: free_list_def)
  let ?v = "page2pa p OR PTE_P OR PTE_W"
  define s2 where "s2 = upd_page p (\<lambda>pg. pg\<lparr>pp_ref := pp_ref pg + 1\<rparr>) s1"
  define s3 where "s3 = kst (slot (kpage k) (PDX va)) ?v s2"
  have np: "npages s3 = npages s" "npages s2 = npages s"
    using mm_frame_sel(1) [OF A(5)] by (simp_all add: s3_def s2_def)
  have v: "present ?v" "frame ?v = p" "?v AND PTE_W \<noteq> 0"
  proof -
    show "frame ?v = p"
      using frame_or_flags [OF p(2), of "PTE_P OR PTE_W"] by (simp add: layout or.assoc)
    show "?v AND PTE_W \<noteq> 0"
      by (simp add: layout bit_eq_iff bit_and_iff bit_or_iff) (rule exI [of _ 1], simp)
  qed simp
  have run: "pgdir_walk s (kpage k) va True = Some (slot (kpage p) (PTX va), s3)"
    using i(2) al(1) page2kva_kpage [of p s3] p K(6)
    by (simp add: pgdir_walk_def kld_kpage Let_def PTE_P_test np flip: s2_def s3_def)
  have ent: "entry s3 g j = (if g = k \<and> j = PDX va then ?v else if g = p then 0 else entry s g j)" if "g < 65536" "unat j < 1024" for g j
  proof -
    have "entry s2 g j = (if g = p then 0 else entry s g j)"
      using entry_fill [OF p(2) that pm] by (simp add: s2_def entry_def)
    then show ?thesis
      unfolding s3_def entry_kst [OF K(7) that(1) PDX_less that(2)] by auto
  qed
  have dir: "entry s3 k j = (if j = PDX va then ?v else entry s k j)" if "unat j < 1024" for j
    using ent [OF K(7) that] p(3) by simp
  have new: "PDX va \<noteq> PDX UVPT" "PDX va \<notin> ktab s k"
    using kern_pdes_UVPT(1) [OF i(1)] i(2) by (auto simp: ktab_def)
  have tab: "ktab s3 k = insert (PDX va) (ktab s k)"
    using new v(1) by (auto simp: ktab_def dir)
  have old: "frame (entry s3 k j) = frame (entry s k j)" "frame (entry s k j) \<noteq> p" if "j \<in> ktab s k" for j
    using that new K(14) [OF that] by (auto simp: ktab_def dir)
  have "inj_on (\<lambda>i. frame (entry s3 k i)) (ktab s k)"
    using K(11) old(1) by (simp cong: inj_on_cong)
  then have inj: "inj_on (\<lambda>i. frame (entry s3 k i)) (ktab s3 k)"
    using old v(2) new(2) by (auto simp: tab dir)
  have "finite (ktab s k)"
    by simp
  then have card: "card (ktab s3 k) = Suc (card (ktab s k))"
    by (simp add: tab new(2))
  have ref: "pages s3 q = pages s q" if "q \<noteq> p" for q
    using that by (simp add: s3_def s2_def A(3))
  have fl: "free_list s3 ys" "pages_wf s3"
    using al(2-4) by (auto simp: s3_def s2_def free_list_def)
  have "if present (entry s3 k j)
      then frame (entry s3 k j) < unat (npages s3) \<and> frame (entry s3 k j) \<notin> set ys \<and> frame (entry s3 k j) \<noteq> k \<and> entry s3 k j AND PTE_W \<noteq> 0
      else entry s3 k j = 0" if j: "unat j < 1024" "j \<noteq> PDX UVPT" for j
  proof (cases "j = PDX va")
    case True
    then show ?thesis
      using v p al(4) by (simp add: dir np)
  next
    case False
    then show ?thesis
      using K(12,14-16) [of j] K(17) [OF j] j by (auto simp: dir np ktab_def)
  qed
  moreover have "entry s3 k (PDX UVPT) = page2pa k OR PTE_U OR PTE_P"
    using K(8) dir [OF user_pdx_UVPT(2)] new(1) by simp
  moreover have "kern_pgdir s3 = kpage k"
    using K(3) mm_frame_sel(2) [OF A(5)] by (simp add: s3_def s2_def)
  ultimately have "kdir k N ys s3"
    using K(4,5,9,10) fl inj card i(1) unfolding kdir_def np(1) tab by auto
  moreover have "within X k s s3" if "insert k (set (p # ys)) \<subseteq> X" for X
    unfolding within_def tab using ent that v(2) old(1) by (auto simp: dir image_subset_iff)
  then have "kstep k (p # ys) s s3"
    unfolding kstep_def using A(5) ref K(17) [of "PDX va"] new i(2)
    by (auto simp: s3_def [symmetric] dir) (auto simp: s3_def s2_def)
  moreover have "vmap s3 k a = vmap s k a" if a: "PDX a \<noteq> PDX UVPT" for a
  proof (cases "PDX a \<in> ktab s k")
    case True
    then have "entry s3 k (PDX a) = entry s k (PDX a)"
      using new(2) by (auto simp: dir)
    moreover have "entry s3 (frame (entry s k (PDX a))) (PTX a) = entry s (frame (entry s k (PDX a))) (PTX a)"
      using ent [OF K(13) [OF True] PTX_less [of a]] K(15) [OF True] old(2) [OF True] by simp
    ultimately show ?thesis
      by (simp add: vmap_def pte_def)
  next
    case False
    then have "\<not> present (entry s k (PDX a))"
      using a by (simp add: ktab_def)
    moreover have "entry s3 p (PTX a) = 0"
      using ent [OF p(2) PTX_less] p(3) by simp
    ultimately show ?thesis
      using v(2) by (auto simp: vmap_def pte_def dir)
  qed
  ultimately show ?thesis
    using run v tab by (auto simp: dir)
qed

lemma kdir_walk:
  assumes kd: "kdir k N fl s" and N: "67 \<le> N" and i: "PDX va \<in> kern_pdes"
  shows "\<exists>fl' s'. pgdir_walk s (kpage k) va True = Some (slot (kpage (frame (entry s' k (PDX va)))) (PTX va), s') \<and>
    kdir k N fl' s' \<and> set fl' \<subseteq> set fl \<and> kstep k fl s s' \<and> PDX va \<in> ktab s' k \<and>
    (\<forall>a. PDX a \<noteq> PDX UVPT \<longrightarrow> vmap s' k a = vmap s k a)"
proof (cases "present (entry s k (PDX va))")
  case True
  then have t: "PDX va \<in> ktab s k"
    using kern_pdes_UVPT(1) [OF i] by (simp add: ktab_def)
  have "pgdir_walk s (kpage k) va True = Some (slot (kpage (frame (entry s k (PDX va)))) (PTX va), s)"
    using True kdirD(12) [OF kd t] kdirD(6) [OF kd]
    by (simp add: pgdir_walk_def kld_kpage Let_def PTE_P_test pa2page_frame page2kva_kpage)
  then show ?thesis
    using kd t by (intro exI [of _ fl] exI [of _ s]) simp
next
  case False
  obtain p ys where fl: "fl = p # ys"
    using kdir_free_page [OF kd N i False] .
  obtain s' where "pgdir_walk s (kpage k) va True = Some (slot (kpage p) (PTX va), s')" "kdir k N ys s'" "kstep k (p # ys) s s'"
    "PDX va \<in> ktab s' k" "frame (entry s' k (PDX va)) = p" "\<forall>a. PDX a \<noteq> PDX UVPT \<longrightarrow> vmap s' k a = vmap s k a"
    using kdir_new_table [OF kd [unfolded fl] i False] by blast
  then show ?thesis
    by (intro exI [of _ ys] exI [of _ s']) (auto simp: fl)
qed

subsection \<open>Mapping a region\<close>

lemma page_aligned_add: "page_aligned a \<Longrightarrow> page_aligned b \<Longrightarrow> page_aligned (a + b)"
proof -
  assume *: "page_aligned a" "page_aligned b"
  obtain i where i: "unat a = 4096 * i"
    using *(1) by (rule page_aligned_obtain)
  obtain j where j: "unat b = 4096 * j"
    using *(2) by (rule page_aligned_obtain)
  have "unat (a + b) = (4096 * (i + j)) mod (4096 * 1048576)"
    by (simp add: unat_word_ariths i j)
  also have "\<dots> mod 4096 = 0"
    by (simp only: mod_mult_mult1) simp
  finally show ?thesis
    by (simp add: page_aligned_unat)
qed

lemma page_aligned_diff: "page_aligned a \<Longrightarrow> page_aligned b \<Longrightarrow> page_aligned (a - b)"
proof -
  assume *: "page_aligned a" "page_aligned b"
  obtain i where i: "unat a = 4096 * i"
    using *(1) by (rule page_aligned_obtain)
  obtain j where j: "unat b = 4096 * j"
    using *(2) by (rule page_aligned_obtain)
  have "unat (a - b) = (if unat b \<le> unat a then unat a - unat b else unat a + 4294967296 - unat b)"
    by (simp add: unat_sub_if_size word_size)
  also have "\<dots> mod 4096 = 0"
    unfolding i j by (cases "j \<le> i") (simp_all add: mod_eq_0_iff_dvd dvd_diff_nat)
  finally show ?thesis
    by (simp add: page_aligned_unat)
qed

lemma PTE_ADDR_offset:
  obtains r where "a = PTE_ADDR a + r" "unat r < 4096" "unat a = unat (PTE_ADDR a) + unat r"
proof (rule that [of "a - PTE_ADDR a"])
  have "unat (PTE_ADDR a) \<le> unat a"
    by (simp add: unat_PTE_ADDR)
  then have "unat (a - PTE_ADDR a) = unat a mod 4096"
    by (simp add: unat_sub word_le_nat_alt unat_PTE_ADDR)
  then show "unat (a - PTE_ADDR a) < 4096" "unat a = unat (PTE_ADDR a) + unat (a - PTE_ADDR a)"
    by (simp_all add: unat_PTE_ADDR)
qed simp

lemma PTE_ADDR_diff: "page_aligned va \<Longrightarrow> PTE_ADDR (a - va) = PTE_ADDR a - va"
proof -
  assume va: "page_aligned va"
  obtain r where r: "a = PTE_ADDR a + r" "unat r < 4096"
    by (rule PTE_ADDR_offset)
  have al: "page_aligned (PTE_ADDR a - va)"
    using va by (simp add: page_aligned_diff)
  then obtain m where m: "unat (PTE_ADDR a - va) = 4096 * m" "m < 1048576"
    by (rule page_aligned_obtain)
  have "a - va = (PTE_ADDR a - va) + r"
    using r(1) by (simp add: algebra_simps)
  moreover have "unat ((PTE_ADDR a - va) + r) = 4096 * m + unat r"
    using m r(2) by (subst unat_add_no_wrap) simp_all
  ultimately have "unat (a - va) = 4096 * m + unat r"
    by presburger
  then have "unat (PTE_ADDR (a - va)) = 4096 * m"
    using r(2) by (simp add: unat_PTE_ADDR)
  then show ?thesis
    using m(1) by (simp add: word_unat_eq_iff)
qed

lemma PTE_ADDR_less: "page_aligned r \<Longrightarrow> PTE_ADDR a < r \<longleftrightarrow> a < r"
proof -
  assume "page_aligned r"
  then obtain m where "unat r = 4096 * m"
    by (rule page_aligned_obtain)
  then show ?thesis
    by (simp add: word_less_nat_alt unat_PTE_ADDR minus_mod_eq_mult_div) linarith
qed

lemma PGNUM_eq_PTE_ADDR: "PGNUM a = PGNUM b \<longleftrightarrow> PTE_ADDR a = PTE_ADDR b"
  by (metis PGNUM_PTE_ADDR page2pa_PGNUM)

lemma boot_map_page_run:
  assumes kd: "kdir k N fl s" and N: "67 \<le> N" and i: "PDX (va + i) \<in> kern_pdes"
  shows "\<exists>fl' s'. boot_map_page (kpage k) va pa perm i s = Some s' \<and> kdir k N fl' s' \<and> set fl' \<subseteq> set fl \<and> kstep k fl s s' \<and>
    (PTE_U AND perm \<noteq> 0 \<longrightarrow> entry s' k (PDX (va + i)) AND PTE_U \<noteq> 0) \<and>
    (\<forall>a. PDX a \<noteq> PDX UVPT \<longrightarrow> vmap s' k a =
       (if PTE_ADDR a = PTE_ADDR (va + i) then Some (PTE_ADDR (pa + i) OR perm OR PTE_P) else vmap s k a))"
proof -
  let ?v = "PTE_ADDR (pa + i) OR perm OR PTE_P"
  obtain fl' s1 where w: "pgdir_walk s (kpage k) (va + i) True = Some (slot (kpage (frame (entry s1 k (PDX (va + i))))) (PTX (va + i)), s1)"
    "kdir k N fl' s1" "set fl' \<subseteq> set fl" "kstep k fl s s1" "PDX (va + i) \<in> ktab s1 k"
    "\<And>a. PDX a \<noteq> PDX UVPT \<Longrightarrow> vmap s1 k a = vmap s k a"
    using kdir_walk [OF kd N i] by blast
  define s2 where "s2 = kst (slot (kpage (frame (entry s1 k (PDX (va + i))))) (PTX (va + i))) ?v s1"
  note S = kdir_store [OF w(2,5), where v = ?v, folded s2_def]
  have t2: "PDX (va + i) \<in> ktab s2 k"
    using w(5) S(4) by simp
  define s3 where "s3 = kst (slot (kpage k) (PDX (va + i))) (entry s2 k (PDX (va + i)) OR PTE_U) s2"
  note U = kdir_user [OF S(1) t2, folded s3_def]
  have "slot (kpage (frame (entry s1 k (PDX (va + i))))) (PTX (va + i)) \<noteq> 0"
    using kdirD(13) [OF w(2,5)] by (simp add: slot_kpage_nonzero)
  then have run: "boot_map_page (kpage k) va pa perm i s =
      Some (if PTE_U AND perm \<noteq> 0 \<and> PTE_U AND entry s2 k (PDX (va + i)) = 0 then s3 else s2)"
    by (simp add: boot_map_page_def w(1) Let_def kld_kpage flip: s2_def s3_def)
  define s' where "s' = (if PTE_U AND perm \<noteq> 0 \<and> PTE_U AND entry s2 k (PDX (va + i)) = 0 then s3 else s2)"
  have s': "kdir k N fl' s'" "kstep k fl' s2 s'" "\<And>a. PDX a \<noteq> PDX UVPT \<Longrightarrow> vmap s' k a = vmap s2 k a"
    "PTE_U AND perm \<noteq> 0 \<longrightarrow> entry s' k (PDX (va + i)) AND PTE_U \<noteq> 0"
    using U S(1) by (auto simp: s'_def and.commute)
  have "vmap s' k a = (if PTE_ADDR a = PTE_ADDR (va + i) then Some ?v else vmap s k a)" if "PDX a \<noteq> PDX UVPT" for a
    using s'(3) [OF that] S(5) [OF that] w(6) [OF that] by (simp add: PGNUM_eq_PTE_ADDR)
  moreover have "kstep k fl s s'"
    using kstep_trans [OF w(4) kstep_trans [OF S(2) s'(2) subset_refl] w(3)] .
  ultimately show ?thesis
    using run [folded s'_def] s'(1,4) w(3) by blast
qed

lemma compare_MAX_from_0: "(\<And>j. i \<le> j \<Longrightarrow> j < i + n \<Longrightarrow> v + word_of_nat j \<noteq> mx) \<Longrightarrow> compare_MAX_from v mx i n = 0"
  by (induction v mx i n rule: compare_MAX_from.induct) auto

lemma compare_MAX_aligned:
  assumes "page_aligned a"
  shows "compare_MAX a 0xFFFFFFFF 4 = 0"
proof -
  obtain m where m: "unat a = 4096 * m" "m < 1048576"
    using assms by (rule page_aligned_obtain)
  have "a + word_of_nat j \<noteq> 0xFFFFFFFF" if "j < 4" for j
  proof
    assume "a + word_of_nat j = 0xFFFFFFFF"
    moreover have "unat (a + word_of_nat j) = 4096 * m + j"
      using m that by (subst unat_add_no_wrap) (simp_all add: unat_of_nat)
    ultimately have "4096 * m + j = 4294967295"
      by simp
    from arg_cong [OF this, of "\<lambda>x. x mod 4096"] show False
      using that by simp
  qed
  then show ?thesis
    unfolding compare_MAX_def by (intro compare_MAX_from_0) simp
qed

lemma boot_map_loop_run:
  assumes "kdir k N fl s" "67 \<le> N" "page_aligned va" "page_aligned pa"
    "\<And>i. i \<in> set is \<Longrightarrow> page_aligned i \<and> PDX (va + i) \<in> kern_pdes"
  shows "\<exists>fl' s'. boot_map_loop (kpage k) va pa perm is s = Some s' \<and> kdir k N fl' s' \<and> set fl' \<subseteq> set fl \<and> kstep k fl s s' \<and>
    (PTE_U AND perm \<noteq> 0 \<longrightarrow> (\<forall>i \<in> set is. entry s' k (PDX (va + i)) AND PTE_U \<noteq> 0)) \<and>
    (\<forall>a. PDX a \<noteq> PDX UVPT \<longrightarrow> vmap s' k a =
       (if PTE_ADDR a - va \<in> set is then Some (pa + (PTE_ADDR a - va) OR perm OR PTE_P) else vmap s k a))"
  using assms
proof (induction "is" arbitrary: fl s)
  case Nil
  then show ?case
    by (intro exI [of _ fl] exI [of _ s]) simp
next
  case (Cons i "is")
  have i: "page_aligned i" "PDX (va + i) \<in> kern_pdes" "PTE_ADDR (va + i) = va + i" "PTE_ADDR (pa + i) = pa + i"
    using Cons.prems(3-5) by (auto intro!: PTE_ADDR_aligned page_aligned_add)
  obtain fl1 s1 where s1: "boot_map_page (kpage k) va pa perm i s = Some s1" "kdir k N fl1 s1" "set fl1 \<subseteq> set fl" "kstep k fl s s1"
    "PTE_U AND perm \<noteq> 0 \<longrightarrow> entry s1 k (PDX (va + i)) AND PTE_U \<noteq> 0"
    "\<And>a. PDX a \<noteq> PDX UVPT \<Longrightarrow> vmap s1 k a = (if PTE_ADDR a = va + i then Some (pa + i OR perm OR PTE_P) else vmap s k a)"
    using boot_map_page_run [OF Cons.prems(1,2) i(2), of pa perm] unfolding i(3,4) by blast
  obtain fl' s' where s': "boot_map_loop (kpage k) va pa perm is s1 = Some s'" "kdir k N fl' s'" "set fl' \<subseteq> set fl1" "kstep k fl1 s1 s'"
    "PTE_U AND perm \<noteq> 0 \<longrightarrow> (\<forall>i \<in> set is. entry s' k (PDX (va + i)) AND PTE_U \<noteq> 0)"
    "\<And>a. PDX a \<noteq> PDX UVPT \<Longrightarrow> vmap s' k a =
       (if PTE_ADDR a - va \<in> set is then Some (pa + (PTE_ADDR a - va) OR perm OR PTE_P) else vmap s1 k a)"
    using Cons.IH [OF s1(2) Cons.prems(2-4)] Cons.prems(5) by auto
  have run: "boot_map_loop (kpage k) va pa perm (i # is) s = Some s'"
    using s1(1) s'(1) compare_MAX_aligned [OF Cons.prems(3)] compare_MAX_aligned [OF Cons.prems(4)] by simp
  have "vmap s' k a = (if PTE_ADDR a - va \<in> set (i # is) then Some (pa + (PTE_ADDR a - va) OR perm OR PTE_P) else vmap s k a)"
    if "PDX a \<noteq> PDX UVPT" for a
    using s'(6) [OF that] s1(6) [OF that] by (auto simp: algebra_simps)
  moreover have "PTE_U AND perm \<noteq> 0 \<longrightarrow> (\<forall>i \<in> set (i # is). entry s' k (PDX (va + i)) AND PTE_U \<noteq> 0)"
    using s1(5) s'(4,5) PDX_less by (auto simp: kstep_def)
  ultimately show ?case
    using run s'(2,3) s1(3) kstep_trans [OF s1(4) s'(4) s1(3)] by (intro exI [of _ fl'] exI [of _ s']) blast
qed

lemma region_offsets:
  assumes "page_aligned r"
  shows "i \<in> set (map (\<lambda>k. word_of_nat k * PGSIZE) [0..<unat (r div PGSIZE)]) \<longleftrightarrow> page_aligned i \<and> i < r"
proof -
  obtain m where m: "unat r = 4096 * m" "m < 1048576"
    using assms by (rule page_aligned_obtain)
  have n: "unat (r div PGSIZE) = m"
    using m by (simp add: unat_div layout)
  have u: "unat (word_of_nat k * PGSIZE) = 4096 * k" if "k < m" for k
    using that m by (subst unat_mult_no_wrap) (simp_all add: unat_of_nat layout)
  show ?thesis
  proof
    assume "i \<in> set (map (\<lambda>k. word_of_nat k * PGSIZE) [0..<unat (r div PGSIZE)])"
    then obtain k where "k < m" "i = word_of_nat k * PGSIZE"
      unfolding n by auto
    then show "page_aligned i \<and> i < r"
      using m u [of k] by (simp add: page_aligned_unat word_less_nat_alt)
  next
    assume i: "page_aligned i \<and> i < r"
    then obtain k where k: "unat i = 4096 * k" "k < 1048576"
      using page_aligned_obtain by blast
    then have "k < m"
      using i m by (simp add: word_less_nat_alt)
    then have "i = word_of_nat k * PGSIZE"
      using u k by (simp add: word_unat_eq_iff)
    with \<open>k < m\<close> show "i \<in> set (map (\<lambda>k. word_of_nat k * PGSIZE) [0..<unat (r div PGSIZE)])"
      unfolding n by auto
  qed
qed

text \<open>\<open>r\<close> is the size of the region, rounded up to whole pages.\<close>

lemma boot_map_region_run:
  assumes kd: "kdir k N fl s" "67 \<le> N" and al: "page_aligned va" "page_aligned pa" "page_aligned r" and r: "ROUNDUP sz PGSIZE = r"
    and i: "\<And>a. a - va < r \<Longrightarrow> PDX a \<in> kern_pdes"
  shows "\<exists>fl' s'. boot_map_region (kern_pgdir s) va sz pa perm s = Some s' \<and> kdir k N fl' s' \<and> set fl' \<subseteq> set fl \<and> kstep k fl s s' \<and>
    (PTE_U AND perm \<noteq> 0 \<longrightarrow> (\<forall>a. a - va < r \<longrightarrow> entry s' k (PDX a) AND PTE_U \<noteq> 0)) \<and>
    (\<forall>a. PDX a \<noteq> PDX UVPT \<longrightarrow> vmap s' k a =
       (if a - va < r then Some (pa + (PTE_ADDR a - va) OR perm OR PTE_P) else vmap s k a))"
proof -
  let ?is = "map (\<lambda>k. word_of_nat k * PGSIZE) [0..<unat (r div PGSIZE)]"
  have offs: "page_aligned i \<and> PDX (va + i) \<in> kern_pdes" if "i \<in> set ?is" for i
    using that i [of "va + i"] region_offsets [OF al(3), of i] by simp
  have mem: "PTE_ADDR a - va \<in> set ?is \<longleftrightarrow> a - va < r" for a
    using region_offsets [OF al(3), of "PTE_ADDR a - va"] PTE_ADDR_less [OF al(3), of "a - va"] al(1)
    by (simp add: PTE_ADDR_diff page_aligned_diff)
  have pdx: "PDX (va + (PTE_ADDR a - va)) = PDX a" for a
    using PGNUM_eq_iff [of "PTE_ADDR a" a] by simp
  obtain fl' s' where s': "boot_map_loop (kpage k) va pa perm ?is s = Some s'" "kdir k N fl' s'" "set fl' \<subseteq> set fl" "kstep k fl s s'"
    "PTE_U AND perm \<noteq> 0 \<longrightarrow> (\<forall>i \<in> set ?is. entry s' k (PDX (va + i)) AND PTE_U \<noteq> 0)"
    "\<And>a. PDX a \<noteq> PDX UVPT \<Longrightarrow> vmap s' k a =
       (if PTE_ADDR a - va \<in> set ?is then Some (pa + (PTE_ADDR a - va) OR perm OR PTE_P) else vmap s k a)"
    using boot_map_loop_run [OF kd al(1,2) offs] by blast
  have "entry s' k (PDX a) AND PTE_U \<noteq> 0" if "PTE_U AND perm \<noteq> 0" "a - va < r" for a
    using s'(5) that mem [of a] pdx [of a] by metis
  then show ?thesis
    using s'(1-4) s'(6) [unfolded mem] kdirD(3) [OF kd(1)] by (intro exI [of _ fl'] exI [of _ s']) (simp add: boot_map_region_def r)
qed

subsection \<open>The kernel part of the address space\<close>

text \<open>Where the stack of processor \<open>i\<close> is mapped, and what the kernel part of every address space is: a function of the virtual address.\<close>

definition kstack_va :: "nat \<Rightarrow> u32" where
  "kstack_va i = KSTACKTOP - KSTKSIZE * word_of_nat (i + 1) - KSTKGAP * word_of_nat i"

definition kernel_space :: "u32 \<Rightarrow> u32 \<Rightarrow> u32 \<Rightarrow> (nat \<Rightarrow> u32) \<Rightarrow> u32 \<Rightarrow> u32 option" where
  "kernel_space np pages_pa envs_pa stack_pa a =
     (if IOMEMBASE \<le> a then Some (PTE_ADDR a OR PTE_W OR PTE_P)
      else if KERNBASE \<le> a then Some (PTE_ADDR a - KERNBASE OR PTE_W OR PTE_P)
      else case find (\<lambda>i. a - kstack_va i < KSTKSIZE) [0..<NCPU] of
          Some i \<Rightarrow> Some (stack_pa i + (PTE_ADDR a - kstack_va i) OR PTE_W OR PTE_P)
        | None \<Rightarrow>
            if a - UPAGES < ROUNDUP (np * sizeof_Page) PGSIZE then Some (pages_pa + (PTE_ADDR a - UPAGES) OR PTE_U OR PTE_P)
            else if a - UENVS < 126976 then Some (envs_pa + (PTE_ADDR a - UENVS) OR PTE_U OR PTE_P)
            else None)"

lemma region_iff:
  assumes "unat va + unat r \<le> 4294967296"
  shows "(a :: u32) - va < r \<longleftrightarrow> unat va \<le> unat a \<and> unat a < unat va + unat r"
proof -
  have "unat (a - va) = (if unat va \<le> unat a then unat a - unat va else unat a + 4294967296 - unat va)"
    by (simp add: unat_sub_if_size word_size)
  then show ?thesis
    using assms by (auto simp: word_less_nat_alt)
qed

lemma unat_ROUNDUP:
  assumes "unat x + 4095 < 4294967296"
  shows "unat (ROUNDUP x PGSIZE) = (unat x + 4095) div 4096 * 4096" "page_aligned (ROUNDUP x PGSIZE)"
proof -
  have "x + PGSIZE - 1 = x + 4095"
    by (simp add: layout)
  moreover have "unat (x + 4095) = unat x + 4095"
    using assms by (subst unat_add_no_wrap) simp_all
  moreover have "unat (y - y mod 4096) = unat y div 4096 * 4096" for y :: u32
  proof -
    have "y mod 4096 \<le> y"
      by (simp add: word_le_nat_alt unat_mod)
    then have "unat (y - y mod 4096) = unat y - unat y mod 4096"
      by (simp only: unat_sub unat_mod) simp
    then show ?thesis
      by (simp only: minus_mod_eq_div_mult)
  qed
  ultimately show *: "unat (ROUNDUP x PGSIZE) = (unat x + 4095) div 4096 * 4096"
    by (simp only: ROUNDUP_def ROUNDDOWN_def) (simp add: layout)
  show "page_aligned (ROUNDUP x PGSIZE)"
    by (simp add: page_aligned_unat *)
qed

lemma unat_kstack_va:
  assumes "i < 8"
  shows "unat (kstack_va i) = 4022304768 - 65536 * i" "page_aligned (kstack_va i)"
proof -
  have "i \<in> {0, 1, 2, 3, 4, 5, 6, 7}"
    using assms by auto
  then show "unat (kstack_va i) = 4022304768 - 65536 * i" "page_aligned (kstack_va i)"
    by (auto simp: kstack_va_def layout page_aligned_unat)
qed

lemma kstack_region:
  assumes "i < 8"
  shows "a - kstack_va i < KSTKSIZE \<longleftrightarrow> 4022304768 - 65536 * i \<le> unat a \<and> unat a < 4022337536 - 65536 * i"
  using assms unat_kstack_va(1) [OF assms] by (subst region_iff) (auto simp: layout)

lemma KSTKSIZE_pages: "page_aligned KSTKSIZE" "ROUNDUP KSTKSIZE PGSIZE = KSTKSIZE"
  by (simp_all add: layout page_aligned_unat ROUNDUP_def ROUNDDOWN_def)

lemma find_append: "find P (xs @ ys) = (case find P xs of Some x \<Rightarrow> Some x | None \<Rightarrow> find P ys)"
  by (induction xs) auto

lemma PADDR_Some: "PADDR va = Some pa \<Longrightarrow> page_aligned va \<Longrightarrow> page_aligned pa"
proof -
  assume *: "PADDR va = Some pa" "page_aligned va"
  have "page_aligned (va - KERNBASE)"
    by (rule page_aligned_diff [OF *(2)]) (simp add: page_aligned_unat layout)
  with *(1) show ?thesis
    by (simp add: PADDR_def split: if_splits)
qed

text \<open>The stacks, one after the other.\<close>

lemma map_kstacks_run:
  assumes kd: "kdir k N fl s" "67 \<le> N"
    and st: "\<And>i. i < NCPU \<Longrightarrow> page_aligned (ks i) \<and> PADDR (ks i) = Some (ks_pa i)"
  shows "\<exists>s' fl'. for_each (map_kstack ks) [0..<NCPU] s = Some s' \<and> kdir k N fl' s' \<and> set fl' \<subseteq> set fl \<and> kstep k fl s s' \<and>
    (\<forall>a. PDX a \<noteq> PDX UVPT \<longrightarrow> vmap s' k a =
       (case find (\<lambda>i. a - kstack_va i < KSTKSIZE) [0..<NCPU] of
          Some i \<Rightarrow> Some (ks_pa i + (PTE_ADDR a - kstack_va i) OR PTE_W OR PTE_P) | None \<Rightarrow> vmap s k a))"
proof -
  define P where "P n s' = (\<exists>fl'. kdir k N fl' s' \<and> set fl' \<subseteq> set fl \<and> kstep k fl s s' \<and>
    (\<forall>a. PDX a \<noteq> PDX UVPT \<longrightarrow> vmap s' k a =
       (case find (\<lambda>i. a - kstack_va i < KSTKSIZE) [0..<n] of
          Some i \<Rightarrow> Some (ks_pa i + (PTE_ADDR a - kstack_va i) OR PTE_W OR PTE_P) | None \<Rightarrow> vmap s k a)))" for n s'
  have "\<exists>s2. map_kstack ks n s1 = Some s2 \<and> P (Suc n) s2" if n: "n < NCPU" and P: "P n s1" for n s1
  proof -
    obtain fl1 where f: "kdir k N fl1 s1" "set fl1 \<subseteq> set fl" "kstep k fl s s1"
      "\<And>a. PDX a \<noteq> PDX UVPT \<Longrightarrow> vmap s1 k a =
       (case find (\<lambda>i. a - kstack_va i < KSTKSIZE) [0..<n] of
          Some i \<Rightarrow> Some (ks_pa i + (PTE_ADDR a - kstack_va i) OR PTE_W OR PTE_P) | None \<Rightarrow> vmap s k a)"
      using P unfolding P_def by blast
    have n8: "n < 8"
      using n by (simp add: layout)
    have pa: "page_aligned (ks_pa n)"
      using st [OF n] PADDR_Some by blast
    have pdx: "PDX a \<in> kern_pdes" if "a - kstack_va n < KSTKSIZE" for a
    proof -
      have "unat a div 4194304 = 958"
        using that n8 unfolding kstack_region [OF n8] by auto
      then show ?thesis
        by (simp add: kern_pdes_iff unat_PDX)
    qed
    obtain fl2 s2 where g: "boot_map_region (kern_pgdir s1) (kstack_va n) KSTKSIZE (ks_pa n) PTE_W s1 = Some s2" "kdir k N fl2 s2"
      "set fl2 \<subseteq> set fl1" "kstep k fl1 s1 s2"
      "\<And>a. PDX a \<noteq> PDX UVPT \<Longrightarrow> vmap s2 k a =
       (if a - kstack_va n < KSTKSIZE then Some (ks_pa n + (PTE_ADDR a - kstack_va n) OR PTE_W OR PTE_P) else vmap s1 k a)"
      using boot_map_region_run [OF f(1) kd(2) unat_kstack_va(2) [OF n8] pa KSTKSIZE_pages pdx, of PTE_W] by blast
    have "map_kstack ks n s1 = Some s2"
      using g(1) st [OF n] by (simp add: map_kstack_def kstack_va_def)
    moreover have "vmap s2 k a = (case find (\<lambda>i. a - kstack_va i < KSTKSIZE) [0..<Suc n] of
          Some i \<Rightarrow> Some (ks_pa i + (PTE_ADDR a - kstack_va i) OR PTE_W OR PTE_P) | None \<Rightarrow> vmap s k a)" if a: "PDX a \<noteq> PDX UVPT" for a
    proof (cases "find (\<lambda>i. a - kstack_va i < KSTKSIZE) [0..<n]")
      case None
      then show ?thesis
        using g(5) [OF a] f(4) [OF a] by (simp add: find_append)
    next
      case (Some j)
      then have "j < n" "a - kstack_va j < KSTKSIZE"
        by (auto simp: find_Some_iff)
      then have "\<not> a - kstack_va n < KSTKSIZE"
        using kstack_region [of j a] kstack_region [OF n8, of a] n8 by auto
      then show ?thesis
        using g(5) [OF a] f(4) [OF a] Some by (simp add: find_append)
    qed
    ultimately show ?thesis
      using g(2,3) f(2) kstep_trans [OF f(3) g(4) f(2)] unfolding P_def by (intro exI [of _ s2] conjI exI [of _ fl2]) auto
  qed
  moreover have "P 0 s"
    using kd unfolding P_def by (intro exI [of _ fl]) simp
  ultimately obtain s' where "for_each (map_kstack ks) [0..<NCPU] s = Some s'" "P NCPU s'"
    using for_each_upt [of P s NCPU "map_kstack ks"] by blast
  then show ?thesis
    unfolding P_def by blast
qed

subsection \<open>The mappings of \<^verbatim>\<open>mem_init\<close>\<close>

lemma region_pages:
  "page_aligned (0x10000000 :: u32)" "ROUNDUP (0xFFFFFFFF - KERNBASE) PGSIZE = 0x10000000"
  "page_aligned (0x2000000 :: u32)" "ROUNDUP (- IOMEMBASE) PGSIZE = 0x2000000"
  "page_aligned (126976 :: u32)" "ROUNDUP (word_of_nat NENV * sizeof_Env) PGSIZE = 126976"
  "page_aligned UPAGES" "page_aligned UENVS" "page_aligned KERNBASE" "page_aligned IOMEMBASE" "page_aligned IOMEM_PADDR" "page_aligned (0 :: u32)"
  by (simp_all add: layout page_aligned_unat ROUNDUP_def ROUNDDOWN_def)

lemma region_bounds:
  "(a :: u32) - KERNBASE < 0x10000000 \<longleftrightarrow> 4026531840 \<le> unat a"
  "a - IOMEMBASE < 0x2000000 \<longleftrightarrow> 4261412864 \<le> unat a"
  "a - UENVS < 126976 \<longleftrightarrow> 4005560320 \<le> unat a \<and> unat a < 4005687296"
  "a - (KSTACKTOP - KSTKSIZE) < KSTKSIZE \<longleftrightarrow> 4022304768 \<le> unat a \<and> unat a < 4022337536"
  "KERNBASE \<le> a \<longleftrightarrow> 4026531840 \<le> unat a" "IOMEMBASE \<le> a \<longleftrightarrow> 4261412864 \<le> unat a"
  using unat_u32_bound [of a] by (subst region_iff; simp add: layout)+ (simp_all add: layout word_le_nat_alt)

lemma region_pdx:
  "a - KERNBASE < 0x10000000 \<Longrightarrow> PDX a \<in> kern_pdes" "a - IOMEMBASE < 0x2000000 \<Longrightarrow> PDX a \<in> kern_pdes"
  "a - UENVS < 126976 \<Longrightarrow> PDX a \<in> kern_pdes" "a - (KSTACKTOP - KSTKSIZE) < KSTKSIZE \<Longrightarrow> PDX a \<in> kern_pdes"
  using PDX_less [of a] unfolding region_bounds kern_pdes_iff unat_PDX by auto

lemma pages_region:
  assumes "unat np \<le> 65536"
  shows "page_aligned (ROUNDUP (np * sizeof_Page) PGSIZE)" "unat (ROUNDUP (np * sizeof_Page) PGSIZE) \<le> 786432"
    "a - UPAGES < ROUNDUP (np * sizeof_Page) PGSIZE \<longleftrightarrow>
      4009754624 \<le> unat a \<and> unat a < 4009754624 + unat (ROUNDUP (np * sizeof_Page) PGSIZE)"
    "a - UPAGES < ROUNDUP (np * sizeof_Page) PGSIZE \<Longrightarrow> PDX a \<in> kern_pdes"
proof -
  have "unat (np * sizeof_Page) = unat np * 12"
    using assms by (simp add: layout unat_mult_no_wrap)
  then show *: "page_aligned (ROUNDUP (np * sizeof_Page) PGSIZE)" "unat (ROUNDUP (np * sizeof_Page) PGSIZE) \<le> 786432"
    using unat_ROUNDUP [of "np * sizeof_Page"] assms by simp_all
  then show reg: "a - UPAGES < ROUNDUP (np * sizeof_Page) PGSIZE \<longleftrightarrow>
      4009754624 \<le> unat a \<and> unat a < 4009754624 + unat (ROUNDUP (np * sizeof_Page) PGSIZE)"
    by (subst region_iff) (simp_all add: layout)
  assume "a - UPAGES < ROUNDUP (np * sizeof_Page) PGSIZE"
  then have "unat a div 4194304 = 956"
    using *(2) unfolding reg by linarith
  then show "PDX a \<in> kern_pdes"
    by (simp add: kern_pdes_iff unat_PDX)
qed

text \<open>\<open>boot_maps s k m\<close>: outside the window of \<^verbatim>\<open>UVPT\<close> the directory in frame \<open>k\<close> maps what \<open>m\<close> says.\<close>

definition boot_maps :: "kstate \<Rightarrow> nat \<Rightarrow> (u32 \<Rightarrow> u32 option) \<Rightarrow> bool" where
  "boot_maps s k m \<longleftrightarrow> (\<forall>a. PDX a \<noteq> PDX UVPT \<longrightarrow> vmap s k a = m a)"

lemma map_region:
  assumes "kdir k N fl s" "67 \<le> N" "boot_maps s k m" "page_aligned va" "page_aligned pa" "page_aligned r" "ROUNDUP sz PGSIZE = r"
    "\<And>a. a - va < r \<Longrightarrow> PDX a \<in> kern_pdes"
  obtains fl' s' where "boot_map_region (kern_pgdir s) va sz pa perm s = Some s'" "kdir k N fl' s'" "set fl' \<subseteq> set fl" "kstep k fl s s'"
    "PTE_U AND perm = 0 \<or> (\<forall>a. a - va < r \<longrightarrow> entry s' k (PDX a) AND PTE_U \<noteq> 0)"
    "boot_maps s' k (\<lambda>a. if a - va < r then Some (pa + (PTE_ADDR a - va) OR perm OR PTE_P) else m a)"
proof -
  obtain fl' s' where "boot_map_region (kern_pgdir s) va sz pa perm s = Some s'" "kdir k N fl' s'" "set fl' \<subseteq> set fl" "kstep k fl s s'"
    "PTE_U AND perm \<noteq> 0 \<longrightarrow> (\<forall>a. a - va < r \<longrightarrow> entry s' k (PDX a) AND PTE_U \<noteq> 0)"
    "\<forall>a. PDX a \<noteq> PDX UVPT \<longrightarrow> vmap s' k a = (if a - va < r then Some (pa + (PTE_ADDR a - va) OR perm OR PTE_P) else vmap s k a)"
    using boot_map_region_run [OF assms(1,2,4-8), of perm] by blast
  then show thesis
    using assms(3) by (intro that [of s' fl']) (auto simp: boot_maps_def)
qed

lemma kernel_space_layers:
  assumes "unat np \<le> 65536"
  shows "(case find (\<lambda>i. a - kstack_va i < KSTKSIZE) [0..<NCPU] of
      Some i \<Rightarrow> Some (ks i + (PTE_ADDR a - kstack_va i) OR PTE_W OR PTE_P)
    | None \<Rightarrow> if a - IOMEMBASE < 0x2000000 then Some (IOMEM_PADDR + (PTE_ADDR a - IOMEMBASE) OR PTE_W OR PTE_P)
        else if a - UENVS < 126976 then Some (ep + (PTE_ADDR a - UENVS) OR PTE_U OR PTE_P)
        else if a - KERNBASE < 0x10000000 then Some (0 + (PTE_ADDR a - KERNBASE) OR PTE_W OR PTE_P)
        else if a - (KSTACKTOP - KSTKSIZE) < KSTKSIZE then Some (x a)
        else if a - UPAGES < ROUNDUP (np * sizeof_Page) PGSIZE then Some (pp + (PTE_ADDR a - UPAGES) OR PTE_U OR PTE_P)
        else None) = kernel_space np pp ep ks a"
proof (cases "find (\<lambda>i. a - kstack_va i < KSTKSIZE) [0..<NCPU]")
  case (Some i)
  then have "i < 8" "a - kstack_va i < KSTKSIZE"
    by (auto simp: find_Some_iff layout)
  then have "unat a < 4022337536"
    using kstack_region by auto
  then show ?thesis
    using Some by (simp add: kernel_space_def region_bounds)
next
  case None
  then have no: "\<not> a - kstack_va i < KSTKSIZE" if "i < 8" for i
    using that by (auto simp: find_None_iff layout)
  have "\<not> a - (KSTACKTOP - KSTKSIZE) < KSTKSIZE"
    using no [of 0] kstack_region [of 0 a] by (simp add: region_bounds)
  moreover have "IOMEM_PADDR + (PTE_ADDR a - IOMEMBASE) = PTE_ADDR a"
    by (simp add: layout)
  moreover note P = pages_region(2,3) [OF assms]
  ultimately show ?thesis
    using None by (auto simp: kernel_space_def region_bounds(1-3,5-6) P(2))
qed

lemma kstep_npages: "kstep k fl s s' \<Longrightarrow> npages s' = npages s"
  by (simp add: kstep_def mm_frame_sel(1))

lemma kstep_user: "kstep k fl s s' \<Longrightarrow> entry s k (PDX a) AND PTE_U \<noteq> 0 \<Longrightarrow> entry s' k (PDX a) AND PTE_U \<noteq> 0"
  by (simp add: kstep_def)

lemma mem_init_map_run:
  assumes kd: "kdir k N fl s" "67 \<le> N" "boot_maps s k (\<lambda>_. None)"
    and va: "PADDR pages_va = Some pp" "page_aligned pp" "PADDR envs_va = Some ep" "page_aligned ep" "PADDR bootstack = Some bp" "page_aligned bp"
    and st: "\<And>i. i < NCPU \<Longrightarrow> page_aligned (ks i) \<and> PADDR (ks i) = Some (ks_pa i)"
  shows "\<exists>fl' s'. mem_init_map pages_va envs_va bootstack ks s = Some s' \<and> kdir k N fl' s' \<and> set fl' \<subseteq> set fl \<and> kstep k fl s s' \<and>
    boot_maps s' k (kernel_space (npages s) pp ep ks_pa) \<and>
    (\<forall>a. a - UPAGES < ROUNDUP (npages s * sizeof_Page) PGSIZE \<or> a - UENVS < 126976 \<longrightarrow> entry s' k (PDX a) AND PTE_U \<noteq> 0)"
proof -
  note np = kdirD(6) [OF kd(1)]
  have U: "PTE_U AND PTE_U \<noteq> 0"
    by (simp add: layout)
  have al: "page_aligned (KSTACKTOP - KSTKSIZE)"
    by (simp add: layout page_aligned_unat)
  obtain fl1 s1 where 1: "boot_map_region (kern_pgdir s) UPAGES (npages s * sizeof_Page) pp PTE_U s = Some s1" "kdir k N fl1 s1"
    "set fl1 \<subseteq> set fl" "kstep k fl s s1"
    "PTE_U AND PTE_U = 0 \<or> (\<forall>a. a - UPAGES < ROUNDUP (npages s * sizeof_Page) PGSIZE \<longrightarrow> entry s1 k (PDX a) AND PTE_U \<noteq> 0)"
    "boot_maps s1 k (\<lambda>a. if a - UPAGES < ROUNDUP (npages s * sizeof_Page) PGSIZE then Some (pp + (PTE_ADDR a - UPAGES) OR PTE_U OR PTE_P) else None)"
    by (rule map_region [OF kd region_pages(7) va(2) pages_region(1) [OF np] refl pages_region(4) [OF np], where perm = PTE_U])
  obtain fl2 s2 where 2: "boot_map_region (kern_pgdir s1) (KSTACKTOP - KSTKSIZE) KSTKSIZE bp PTE_W s1 = Some s2" "kdir k N fl2 s2"
    "set fl2 \<subseteq> set fl1" "kstep k fl1 s1 s2" "boot_maps s2 k (\<lambda>a. if a - (KSTACKTOP - KSTKSIZE) < KSTKSIZE
      then Some (bp + (PTE_ADDR a - (KSTACKTOP - KSTKSIZE)) OR PTE_W OR PTE_P)
      else if a - UPAGES < ROUNDUP (npages s * sizeof_Page) PGSIZE then Some (pp + (PTE_ADDR a - UPAGES) OR PTE_U OR PTE_P) else None)"
    by (rule map_region [OF 1(2) kd(2) 1(6) al va(6) KSTKSIZE_pages region_pdx(4), where perm = PTE_W])
  obtain fl3 s3 where 3: "boot_map_region (kern_pgdir s2) KERNBASE (0xFFFFFFFF - KERNBASE) 0 PTE_W s2 = Some s3" "kdir k N fl3 s3"
    "set fl3 \<subseteq> set fl2" "kstep k fl2 s2 s3" "boot_maps s3 k (\<lambda>a. if a - KERNBASE < 0x10000000 then Some (0 + (PTE_ADDR a - KERNBASE) OR PTE_W OR PTE_P)
      else if a - (KSTACKTOP - KSTKSIZE) < KSTKSIZE then Some (bp + (PTE_ADDR a - (KSTACKTOP - KSTKSIZE)) OR PTE_W OR PTE_P)
      else if a - UPAGES < ROUNDUP (npages s * sizeof_Page) PGSIZE then Some (pp + (PTE_ADDR a - UPAGES) OR PTE_U OR PTE_P) else None)"
    by (rule map_region [OF 2(2) kd(2) 2(5) region_pages(9,12,1,2) region_pdx(1), where perm = PTE_W])
  obtain fl4 s4 where 4: "boot_map_region (kern_pgdir s3) UENVS (word_of_nat NENV * sizeof_Env) ep PTE_U s3 = Some s4" "kdir k N fl4 s4"
    "set fl4 \<subseteq> set fl3" "kstep k fl3 s3 s4" "PTE_U AND PTE_U = 0 \<or> (\<forall>a. a - UENVS < 126976 \<longrightarrow> entry s4 k (PDX a) AND PTE_U \<noteq> 0)"
    "boot_maps s4 k (\<lambda>a. if a - UENVS < 126976 then Some (ep + (PTE_ADDR a - UENVS) OR PTE_U OR PTE_P)
      else if a - KERNBASE < 0x10000000 then Some (0 + (PTE_ADDR a - KERNBASE) OR PTE_W OR PTE_P)
      else if a - (KSTACKTOP - KSTKSIZE) < KSTKSIZE then Some (bp + (PTE_ADDR a - (KSTACKTOP - KSTKSIZE)) OR PTE_W OR PTE_P)
      else if a - UPAGES < ROUNDUP (npages s * sizeof_Page) PGSIZE then Some (pp + (PTE_ADDR a - UPAGES) OR PTE_U OR PTE_P) else None)"
    by (rule map_region [OF 3(2) kd(2) 3(5) region_pages(8) va(4) region_pages(5,6) region_pdx(3), where perm = PTE_U])
  obtain fl5 s5 where 5: "boot_map_region (kern_pgdir s4) IOMEMBASE (- IOMEMBASE) IOMEM_PADDR PTE_W s4 = Some s5" "kdir k N fl5 s5"
    "set fl5 \<subseteq> set fl4" "kstep k fl4 s4 s5"
    "boot_maps s5 k (\<lambda>a. if a - IOMEMBASE < 0x2000000 then Some (IOMEM_PADDR + (PTE_ADDR a - IOMEMBASE) OR PTE_W OR PTE_P)
      else if a - UENVS < 126976 then Some (ep + (PTE_ADDR a - UENVS) OR PTE_U OR PTE_P)
      else if a - KERNBASE < 0x10000000 then Some (0 + (PTE_ADDR a - KERNBASE) OR PTE_W OR PTE_P)
      else if a - (KSTACKTOP - KSTKSIZE) < KSTKSIZE then Some (bp + (PTE_ADDR a - (KSTACKTOP - KSTKSIZE)) OR PTE_W OR PTE_P)
      else if a - UPAGES < ROUNDUP (npages s * sizeof_Page) PGSIZE then Some (pp + (PTE_ADDR a - UPAGES) OR PTE_U OR PTE_P) else None)"
    by (rule map_region [OF 4(2) kd(2) 4(6) region_pages(10,11,3,4) region_pdx(2), where perm = PTE_W])
  obtain fl6 s6 where 6: "for_each (map_kstack ks) [0..<NCPU] s5 = Some s6" "kdir k N fl6 s6" "set fl6 \<subseteq> set fl5" "kstep k fl5 s5 s6"
    "\<And>a. PDX a \<noteq> PDX UVPT \<Longrightarrow> vmap s6 k a =
       (case find (\<lambda>i. a - kstack_va i < KSTKSIZE) [0..<NCPU] of
          Some i \<Rightarrow> Some (ks_pa i + (PTE_ADDR a - kstack_va i) OR PTE_W OR PTE_P) | None \<Rightarrow> vmap s5 k a)"
    using map_kstacks_run [OF 5(2) kd(2), of ks ks_pa] st by blast
  have "boot_maps s6 k (kernel_space (npages s) pp ep ks_pa)"
    unfolding boot_maps_def kernel_space_layers [OF np, symmetric, where x = "\<lambda>a. bp + (PTE_ADDR a - (KSTACKTOP - KSTKSIZE)) OR PTE_W OR PTE_P"]
    using 5(5) 6(5) unfolding boot_maps_def by (auto split: option.splits)
  moreover have "mem_init_map pages_va envs_va bootstack ks s = Some s6"
    by (simp add: mem_init_map_def mem_init_mp_def va 1(1) 2(1) 3(1) 4(1) 5(1) 6(1))
  moreover have sub: "set fl2 \<subseteq> set fl" "set fl3 \<subseteq> set fl" "set fl4 \<subseteq> set fl" "set fl5 \<subseteq> set fl" "set fl6 \<subseteq> set fl"
    using 1(3) 2(3) 3(3) 4(3) 5(3) 6(3) by auto
  moreover note u4 = kstep_trans [OF 5(4) 6(4) 5(3)]
  note u1 = kstep_trans [OF 2(4) kstep_trans [OF 3(4) kstep_trans [OF 4(4) u4 4(3)] 3(3)] 2(3)]
  moreover have "kstep k fl s s6"
    using kstep_trans [OF 1(4) u1 1(3)] .
  ultimately show ?thesis
    using U 6(2) 1(5) 4(5) kstep_user [OF u1] kstep_user [OF u4] by (intro exI [of _ fl6] exI [of _ s6]) blast
qed

subsection \<open>The boot allocations\<close>

lemma unat_kpage: "f < 65536 \<Longrightarrow> unat (kpage f) = f * 4096 + 4026531840"
  using unat_add_no_wrap [of "page2pa f" KERNBASE] by (simp add: kpage_def unat_page2pa layout)

lemma kpage_add: "kpage (f + n) = kpage f + word_of_nat n * PGSIZE"
  by (simp add: kpage_def page2pa_def layout push_bit_eq_mult algebra_simps)

lemma ROUNDUP_kpage: "f < 65536 \<Longrightarrow> ROUNDUP (kpage f) PGSIZE = kpage f"
  using unat_ROUNDUP(1) [of "kpage f"] by (simp add: word_unat_eq_iff unat_kpage)

lemma page_aligned_kpage: "f < 65536 \<Longrightarrow> page_aligned (kpage f)"
  by (simp add: page_aligned_unat unat_kpage)

lemma whole_pages:
  "(x :: u32) div PGSIZE + (if x mod PGSIZE \<noteq> 0 then 1 else 0) = word_of_nat ((unat x + 4095) div 4096)"
proof -
  have "(n :: nat) div 4096 + (if n mod 4096 \<noteq> 0 then 1 else 0) = (n + 4095) div 4096" for n
  proof -
    define q m where "q = n div 4096" and "m = n mod 4096"
    have n: "n = 4096 * q + m" "m < 4096"
      by (simp_all add: q_def m_def)
    have "(n + 4095) div 4096 = q + (if m \<noteq> 0 then 1 else 0)"
      unfolding n(1) using n(2) by (intro div_nat_eqI) (auto split: if_splits)
    then show ?thesis
      by (simp add: q_def m_def)
  qed
  from arg_cong [OF this [of "unat x"], of "word_of_nat :: nat \<Rightarrow> u32"] show ?thesis
    by (simp add: layout word_unat_eq_iff unat_mod word_arith_nat_div split: if_splits)
qed

lemma boot_alloc_run:
  assumes "nextfree s = kpage f" "f + (unat n + 4095) div 4096 < 65536" "n \<noteq> 0" "(unat n + 4095) div 4096 \<le> unat (nAvailPages s)"
  shows "boot_alloc kend n s = Some (kpage f, s\<lparr>nAvailPages := nAvailPages s - word_of_nat ((unat n + 4095) div 4096),
    nextfree := kpage (f + (unat n + 4095) div 4096)\<rparr>)"
proof -
  have "kpage f \<noteq> 0"
    using unat_kpage [of f] assms(2) by auto
  moreover have "\<not> nAvailPages s < word_of_nat ((unat n + 4095) div 4096)"
    using assms(2,4) by (simp add: word_less_nat_alt unat_of_nat)
  ultimately show ?thesis
    using assms ROUNDUP_kpage [OF assms(2)] unfolding boot_alloc_def Let_def whole_pages by (simp add: kpage_add)
qed

lemma boot_alloc_first:
  assumes "nextfree s = 0" "f = (unat kend - 4026531840 + 4095) div 4096" "4026531840 \<le> unat kend" "f < 65536"
  shows "boot_alloc kend n s = boot_alloc kend n (s\<lparr>nAvailPages := npages s, nextfree := kpage f\<rparr>)"
proof -
  have "unat kend + 4095 < 4294967296"
    using assms(2-4) by simp
  then have "unat (ROUNDUP kend PGSIZE) = (4026531840 + (unat kend - 4026531840 + 4095)) div 4096 * 4096"
    using unat_ROUNDUP(1) [of kend] assms(3) by (simp add: ac_simps)
  also have "\<dots> = unat (kpage f)"
  proof -
    have "(4026531840 + x) div 4096 * 4096 = x div 4096 * 4096 + 4026531840" for x :: nat
      using div_mult_self2 [of 4096 x 983040] by (simp add: algebra_simps)
    from this [of "unat kend - 4026531840 + 4095"] show ?thesis
      using unat_kpage [OF assms(4)] assms(2) by linarith
  qed
  finally have "ROUNDUP kend PGSIZE = kpage f"
    by (simp add: word_unat_eq_iff)
  moreover have "kpage f \<noteq> 0"
    using unat_kpage [OF assms(4)] by auto
  ultimately show ?thesis
    using assms(1) by (simp add: boot_alloc_def Let_def)
qed

text \<open>\<open>same_cpus s s'\<close>: what memory management leaves of the state of the processors.\<close>

definition same_cpus :: "kstate \<Rightarrow> kstate \<Rightarrow> bool" where
  "same_cpus s s' \<longleftrightarrow> cpus s' = cpus s \<and> cpunum s' = cpunum s \<and> kernel_lock s' = kernel_lock s \<and> con s' = con s"

lemma same_cpus_mm_frame: "mm_frame s s' \<Longrightarrow> same_cpus s s'"
  by (simp add: mm_frame_def same_cpus_def)

lemma same_cpus_trans: "same_cpus s t \<Longrightarrow> same_cpus t u \<Longrightarrow> same_cpus s u"
  by (simp add: same_cpus_def)

lemma fold_upd_page_sel:
  "pmem (fold (\<lambda>i. upd_page (h i) (f i)) xs s) = pmem s" "kern_pgdir (fold (\<lambda>i. upd_page (h i) (f i)) xs s) = kern_pgdir s"
  "same_cpus r (fold (\<lambda>i. upd_page (h i) (f i)) xs s) = same_cpus r s"
  by (induction xs arbitrary: s) (auto simp: upd_page_def same_cpus_def)

lemma page_init_sel:
  "pmem (page_init_reserve k (page_init_chain s)) = pmem s" "kern_pgdir (page_init_reserve k (page_init_chain s)) = kern_pgdir s"
  "same_cpus r (page_init_reserve k (page_init_chain s)) = same_cpus r s"
proof -
  have "same_cpus r (upd_page p g t) = same_cpus r t" "same_cpus r (t\<lparr>page_free_list := l\<rparr>) = same_cpus r t"
    "same_cpus r (t\<lparr>nAvailPages := n\<rparr>) = same_cpus r t" for p g t l n
    by (simp_all add: same_cpus_def upd_page_def)
  then show "pmem (page_init_reserve k (page_init_chain s)) = pmem s" "kern_pgdir (page_init_reserve k (page_init_chain s)) = kern_pgdir s"
    "same_cpus r (page_init_reserve k (page_init_chain s)) = same_cpus r s"
    by (simp_all add: page_init_reserve_def page_init_chain_def Let_def fold_upd_page_sel)
qed

text \<open>The page of the directory, the pages of the arrays \<^verbatim>\<open>pages\<close> and \<^verbatim>\<open>envs\<close>, and the first page after them.\<close>

definition boot_frame :: "u32 \<Rightarrow> nat" where
  "boot_frame kend = (unat kend - 4026531840 + 4095) div 4096"

definition boot_next :: "u32 \<Rightarrow> u32 \<Rightarrow> nat" where
  "boot_next kend np = boot_frame kend + 32 + (12 * unat np + 4095) div 4096"

lemma mem_init_alloc_run:
  assumes nf: "nextfree s = 0" and np: "np = npages (i386_detect_memory nv s)" and kend: "KERNBASE + EXTPHYSMEM \<le> kend"
    and room: "boot_next kend np < unat np" "unat np \<le> 65536"
  defines "k \<equiv> boot_frame kend"
  shows "\<exists>s'. mem_init_alloc nv kend s = Some (kpage (k + 1), kpage (boot_next kend np - 31), s') \<and> npages s' = np \<and>
    kdir k (length ([1..<7] @ [8..<160] @ [boot_next kend np..<unat np])) ([1..<7] @ [8..<160] @ [boot_next kend np..<unat np]) s' \<and>
    boot_maps s' k (\<lambda>_. None) \<and> nextfree s' = kpage (boot_next kend np) \<and>
    (\<forall>p < unat np. pp_ref (pages s' p) = (if p = 0 \<or> p = 7 \<or> 256 \<le> p \<and> p < boot_next kend np then 1 else 0)) \<and>
    same_cpus s s' \<and> (\<forall>f i. f < 65536 \<longrightarrow> unat i < 1024 \<longrightarrow> f \<noteq> k \<longrightarrow> entry s' f i = entry s f i)"
proof -
  let ?P = "(12 * unat np + 4095) div 4096" and ?fl = "[1..<7] @ [8..<160] @ [boot_next kend np..<unat np]"
  have kend': "4027580416 \<le> unat kend"
    using kend by (simp add: layout word_le_nat_alt)
  then have k: "256 \<le> k" "k < 65536" "k + 32 + ?P < unat np" "k < 65535"
    using room by (auto simp: k_def boot_frame_def boot_next_def)
  define s0 where "s0 = (i386_detect_memory nv s)\<lparr>nAvailPages := np, nextfree := kpage k\<rparr>"
  have s0: "npages s0 = np" "nextfree s0 = kpage k" "nAvailPages s0 = np"
    by (simp_all add: s0_def np)
  define s1 where "s1 = s0\<lparr>nAvailPages := np - 1, nextfree := kpage (k + 1)\<rparr>"
  have "nextfree (i386_detect_memory nv s) = 0"
    by (simp add: i386_detect_memory_def Let_def nf)
  then have 1: "boot_alloc kend PGSIZE (i386_detect_memory nv s) = Some (kpage k, s1)"
    using boot_alloc_first [of "i386_detect_memory nv s" k kend PGSIZE] boot_alloc_run [OF s0(2), of PGSIZE kend] kend' k s0(3)
    by (simp add: k_def boot_frame_def np s0_def s1_def layout)
  define s3 where "s3 = kst (slot (kpage k) (PDX UVPT)) (page2pa k OR PTE_U OR PTE_P)
    (s1\<lparr>kern_pgdir := kpage k, pmem := fill_bytes (pmem s1) (kpage k - KERNBASE) 0 4096\<rparr>)"
  have s3: "npages s3 = np" "nextfree s3 = kpage (k + 1)" "nAvailPages s3 = np - 1" "kern_pgdir s3 = kpage k"
    by (simp_all add: s3_def s1_def s0(1) kst_def)
  have np12: "unat (sizeof_Page * np) = 12 * unat np" "sizeof_Page * np \<noteq> 0"
    using room by (auto simp: layout unat_mult_no_wrap word_unat_eq_iff)
  have av: "unat (np - 1) = unat np - 1"
    using room by (simp add: unat_sub word_le_nat_alt)
  define s4 where "s4 = s3\<lparr>nAvailPages := np - 1 - word_of_nat ?P, nextfree := kpage (k + 1 + ?P)\<rparr>"
  have 2: "boot_alloc kend (sizeof_Page * npages s3) s3 = Some (kpage (k + 1), s4)"
    using boot_alloc_run [OF s3(2), of "sizeof_Page * np" kend] k np12 room av by (simp add: s3 s4_def)
  have s4: "nextfree s4 = kpage (k + 1 + ?P)"
    by (simp add: s4_def)
  have av4: "unat (nAvailPages s4) = unat np - 1 - ?P"
    using av k room by (simp add: s4_def unat_sub word_le_nat_alt unat_of_nat)
  have env: "unat (sizeof_Env * word_of_nat NENV) = 126976" "sizeof_Env * word_of_nat NENV \<noteq> 0"
    by (simp_all add: layout)
  define s5 where "s5 = s4\<lparr>nAvailPages := nAvailPages s4 - 31, nextfree := kpage (k + 1 + ?P + 31)\<rparr>"
  have 3: "boot_alloc kend (sizeof_Env * word_of_nat NENV) s4 = Some (kpage (k + 1 + ?P), s5)"
    using boot_alloc_run [OF s4, of "sizeof_Env * word_of_nat NENV" kend] k room env av4 by (simp add: s5_def)
  have nx: "boot_next kend np = k + 1 + ?P + 31"
    by (simp add: boot_next_def k_def)
  have s5: "npages s5 = np" "nextfree s5 = kpage (boot_next kend np)" "kern_pgdir s5 = kpage k" "pmem s5 = pmem s3"
    by (simp_all add: s5_def s4_def s3 nx)
  have big: "boot_next kend np < 65536"
    using room by simp
  have pg: "unat (PGNUM (nextfree s5 - KERNBASE)) = boot_next kend np"
    using big by (simp add: s5 kpage_def PGNUM_page2pa unat_of_nat)
  have hi: "nextfree s5 \<noteq> 0" "KERNBASE \<le> nextfree s5"
    using unat_kpage [OF big] by (auto simp: s5 layout word_le_nat_alt)
  define s6 where "s6 = page_init_reserve (boot_next kend np) (page_init_chain s5)"
  have 4: "page_init kend s5 = Some s6"
    using page_init_run [OF hi, of kend] pg by (simp add: s6_def)
  have bn: "256 < boot_next kend np" "boot_next kend np < unat (npages s5)"
    using k nx room s5(1) by simp_all
  have fl: "free_list s6 ?fl" "pages_wf s6"
    using page_init_free_list [OF hi pg [symmetric] bn _ 4] room s5(1) by simp_all
  have s6: "npages s6 = np" "pmem s6 = pmem s3" "kern_pgdir s6 = kpage k" "nextfree s6 = kpage (boot_next kend np)"
    by (simp_all add: s6_def page_init_sel page_init_reserve_sel page_init_chain_sel s5)
      (simp add: page_init_reserve_def Let_def fold_upd_page_frame page_init_chain_sel s5 upd_page_def)
  have ent: "entry s6 k i = (if i = PDX UVPT then page2pa k OR PTE_U OR PTE_P else 0)" if "unat i < 1024" for i
  proof -
    have "entry s6 k i = entry s3 k i"
      by (simp add: entry_def s6(2))
    also have "\<dots> = (if i = PDX UVPT then page2pa k OR PTE_U OR PTE_P else 0)"
      unfolding s3_def entry_kst [OF k(2,2) user_pdx_UVPT(2) that] using entry_fill [OF k(2,2) that, of _ s1] by (simp add: kpage_def)
    finally show ?thesis .
  qed
  have "ktab s6 k = {}"
    using ent by (auto simp: ktab_def)
  then have "kdir k (length ?fl) ?fl s6"
    unfolding kdir_def using fl s6(1,3) k nx room ent user_pdx_UVPT(2) by auto
  moreover have "boot_maps s6 k (\<lambda>_. None)"
    using ent by (simp add: boot_maps_def vmap_def pte_def)
  moreover have "pp_ref (pages s6 p) = (if p = 0 \<or> p = 7 \<or> 256 \<le> p \<and> p < boot_next kend np then 1 else 0)" if "p < unat np" for p
    using that bn s5(1) by (auto simp: s6_def page_init_reserve_pages page_init_chain_pages)
  moreover have "mem_init_alloc nv kend s = Some (kpage (k + 1), kpage (boot_next kend np - 31), s6)"
  proof -
    have "npages s1 = np"
      by (simp add: s1_def s0(1))
    then show ?thesis
      using 1 2 [unfolded s3(1)] 3 4 PADDR_kpage [OF k(2)] nx by (simp add: mem_init_alloc_def s3_def [symmetric])
  qed
  moreover have pm: "pmem s1 = pmem s"
    by (simp add: s1_def s0_def i386_detect_memory_def Let_def)
  have "entry s6 f i = entry s f i" if "f < 65536" "unat i < 1024" "f \<noteq> k" for f i
  proof -
    have "entry s6 f i = entry s3 f i"
      by (simp add: entry_def s6(2))
    also have "\<dots> = entry s1 f i"
      unfolding s3_def entry_kst [OF k(2) that(1) user_pdx_UVPT(2) that(2)] using entry_fill [OF k(2) that(1,2), of _ s1] that(3) by (simp add: kpage_def)
    also have "\<dots> = entry s f i"
      by (simp add: entry_def pm)
    finally show ?thesis .
  qed
  moreover have "same_cpus s s6"
    unfolding s6_def page_init_sel(3) by (simp add: s5_def s4_def s3_def s1_def s0_def same_cpus_def i386_detect_memory_def Let_def)
  ultimately show ?thesis
    using s6 by blast
qed

subsection \<open>Booting establishes the invariant\<close>

lemma user_not_kern: "user_pdx i \<Longrightarrow> i \<notin> kern_pdes \<and> i \<noteq> PDX UVPT"
  by (auto simp: user_pdx_def kern_pdes_iff word_less_nat_alt PDX_def layout)

lemma kdir_kern_inv:
  assumes kd: "kdir k N fl s" and refs: "pp_ref (pages s k) \<noteq> 0" "pp_ref (pages s 0) \<noteq> 0"
  shows "kern_inv (\<lambda>p. unat (pp_ref (pages s p))) k (env_init s)"
proof -
  note K = kdirD [OF kd]
  let ?s = "env_init s" and ?base = "\<lambda>p. unat (pp_ref (pages s p))"
  have ent: "entry ?s = entry s"
    by (rule entry_pmem_cong) (rule env_init_sel(4))
  have no: "live ?s e = False" for e
    by (simp add: live_def env_init_free(1))
  have dirs: "live_dirs ?s = {}"
    by (simp add: live_dirs_def no)
  have "page_links ?s = page_links s"
    by (simp add: page_links_def fun_eq_iff env_init_sel)
  then have "pages_wf ?s" "free_list ?s fl"
    using K(1,2) by (simp_all add: pages_wf_def free_list_def env_init_sel)
  moreover have "tabset ?s {} p = {}" "mapset ?s {} p = {}" for p
    by (auto simp: tabset_def mapset_def)
  ultimately have "vm_inv ?base {} fl ?s"
    by (simp add: vm_inv_def env_init_sel)
  moreover have "\<not> present (entry s k i)" if "user_pdx i" for i
    using user_not_kern [OF that] user_pdx_less [OF that] K(9) by (auto simp: ktab_def)
  then have "kern_template ?base k ?s"
    using K(3,4) refs(1) by (simp add: kern_template_def env_init_sel ent unat_eq_0)
  moreover have "envs_ok ?s"
    using env_init_free(1) [of _ s] env_init_free(2) [of s] unfolding envs_ok_def by (auto simp: no intro!: exI [of _ "[0..<NENV]"])
  ultimately show ?thesis
    using refs(2) by (auto simp: kern_inv_def mem_ok_def dirs mapset_def unat_eq_0)
qed

lemma detected_pages: "unat (npages (i386_detect_memory nv s)) \<le> 16639"
proof -
  have nv: "unat (nvram_read nv r) \<le> 65535" for r
  proof -
    have "nvram_read nv r = take_bit 16 (nvram_read nv r)"
      by (rule bit_word_eqI) (auto simp: nvram_read_def bit_simps dest: bit_imp_le_length)
    then have "unat (nvram_read nv r) = unat (nvram_read nv r) mod 2 ^ 16"
      using unat_take_bit [of 16 "nvram_read nv r"] by simp
    then show ?thesis
      using mod_less_divisor [of "2 ^ 16" "unat (nvram_read nv r)"] by simp
  qed
  have mem: "unat (nvram_read nv r * 1024 div PGSIZE) \<le> 16383" for r
    using nv [of r] by (simp add: unat_div layout unat_mult_no_wrap)
  have "unat (EXTPHYSMEM div PGSIZE + nvram_read nv r * 1024 div PGSIZE) \<le> 16639" for r
    using mem [of r] by (subst unat_add_no_wrap) (simp_all add: layout)
  moreover have "unat (nvram_read nv r * 1024 div PGSIZE) \<le> 16639" for r
    using mem [of r] by linarith
  ultimately show ?thesis
    by (simp add: i386_detect_memory_def Let_def)
qed

text \<open>The memory management of \<^verbatim>\<open>mem_init\<close> and \<^verbatim>\<open>env_init\<close> establish the invariant of the kernel, whatever memory held before: when
  the kernel image ends at \<^verbatim>\<open>kend\<close>, above 1 MB, and the memory that the CMOS reports has room for the boot allocations, nothing panics, the kernel
  part of the address space is exactly \<open>kernel_space\<close> (the arrays \<^verbatim>\<open>pages\<close> and \<^verbatim>\<open>envs\<close> readable by user code, all physical memory at
  \<^verbatim>\<open>KERNBASE\<close>, the I/O memory at its own address, a stack for each processor with an unmapped gap below it, and nothing else), and
  the state satisfies \<open>kern_inv\<close>, which traps and system calls keep.\<close>

lemma mem_init_kern_inv:
  assumes "nextfree s = 0" "np = npages (i386_detect_memory nv s)" "KERNBASE + EXTPHYSMEM \<le> kend" "boot_next kend np < unat np"
    and st: "page_aligned bootstack" "KERNBASE \<le> bootstack" "\<And>i. i < NCPU \<Longrightarrow> page_aligned (kstacks i) \<and> KERNBASE \<le> kstacks i"
  shows "\<exists>pages_va envs_va s1 s2. mem_init_alloc nv kend s = Some (pages_va, envs_va, s1) \<and>
    mem_init_map pages_va envs_va bootstack kstacks s1 = Some s2 \<and>
    (\<forall>a. PDX a \<noteq> PDX UVPT \<longrightarrow> vmap s2 (boot_frame kend) a =
       kernel_space np (pages_va - KERNBASE) (envs_va - KERNBASE) (\<lambda>i. kstacks i - KERNBASE) a) \<and>
    kern_inv (\<lambda>p. unat (pp_ref (pages s2 p))) (boot_frame kend) (env_init s2)"
proof -
  let ?k = "boot_frame kend" and ?fl = "[1..<7] @ [8..<160] @ [boot_next kend np..<unat np]"
  let ?pv = "kpage (?k + 1)" and ?ev = "kpage (boot_next kend np - 31)"
  have np: "unat np \<le> 65536"
    using detected_pages [of nv s] assms(2) by simp
  obtain s1 where a: "mem_init_alloc nv kend s = Some (?pv, ?ev, s1)" "npages s1 = np" "kdir ?k (length ?fl) ?fl s1"
    "boot_maps s1 ?k (\<lambda>_. None)"
    "\<And>p. p < unat np \<Longrightarrow> pp_ref (pages s1 p) = (if p = 0 \<or> p = 7 \<or> 256 \<le> p \<and> p < boot_next kend np then 1 else 0)"
    using mem_init_alloc_run [OF assms(1-4) np] by blast
  have bn: "?k + 1 < 65536" "boot_next kend np - 31 < 65536" "256 \<le> ?k" "?k < boot_next kend np"
    using assms(3,4) np by (auto simp: boot_next_def boot_frame_def layout word_le_nat_alt)
  have pd: "PADDR x = Some (x - KERNBASE)" "page_aligned (x - KERNBASE)" if "page_aligned x" "KERNBASE \<le> x" for x
    using that by (auto simp: PADDR_def region_pages(9) intro: page_aligned_diff)
  have kp: "KERNBASE \<le> kpage f" if "f < 65536" for f
    using unat_kpage [OF that] by (simp add: word_le_nat_alt layout)
  note P = pd [OF page_aligned_kpage [OF bn(1)] kp [OF bn(1)]] and E = pd [OF page_aligned_kpage [OF bn(2)] kp [OF bn(2)]]
  have "67 \<le> length ?fl"
    by simp
  from mem_init_map_run [OF a(3) this a(4) P E pd [OF st(1,2)], of kstacks "\<lambda>i. kstacks i - KERNBASE"]
  obtain fl' s2 where m: "mem_init_map ?pv ?ev bootstack kstacks s1 = Some s2" "kdir ?k (length ?fl) fl' s2" "kstep ?k ?fl s1 s2"
    "boot_maps s2 ?k (kernel_space np (?pv - KERNBASE) (?ev - KERNBASE) (\<lambda>i. kstacks i - KERNBASE))"
    using st(3) pd(1) unfolding a(2) by blast
  have "pp_ref (pages s2 p) = pp_ref (pages s1 p)" if "p \<notin> set ?fl" for p
    using m(3) that unfolding kstep_def by simp
  then have "pp_ref (pages s2 ?k) \<noteq> 0" "pp_ref (pages s2 0) \<noteq> 0"
    using a(5) [of ?k] a(5) [of 0] bn assms(4) by auto
  from kdir_kern_inv [OF m(2) this] show ?thesis
    using a(1) m(1,4) unfolding boot_maps_def by blast
qed

text \<open>A machine with 640 KB of base memory and 15 MB of extended memory.\<close>

definition demo_nv :: "nat \<Rightarrow> u8" where
  "demo_nv r = (if r = 21 then 0x80 else if r = 22 then 0x02 else if r = 24 then 0x3C else 0)"

lemma demo_detect: "npages (i386_detect_memory demo_nv demo) = 4096"
  by (simp add: i386_detect_memory_def nvram_read_def demo_nv_def layout)

end
