(* ===== verification/Env_Load.thy ===== *)
theory Env_Load
  imports User_Cow Meminit
begin

section \<open>Loading a program into a new environment\<close>

text \<open>
  \<^verbatim>\<open>region_alloc\<close>, \<^verbatim>\<open>load_icode\<close> and \<^verbatim>\<open>env_create\<close> of \<^verbatim>\<open>kern/env.c\<close>: the segments of an ELF image end up at
  their addresses in an address space of their own.
\<close>

subsection \<open>Bytes of a page\<close>

lemma page_byte:
  fixes a :: u32
  assumes "PTE_ADDR a = page2pa f"
  obtains i j where "unat i < 1024" "j < 4" "a = slot (page2pa f) i + word_of_nat j"
proof -
  define r where "r = unat a mod 4096"
  have n: "unat a = unat (page2pa f) + r"
    using arg_cong [OF assms, of unat] by (simp add: unat_PTE_ADDR r_def)
  have "a = word_of_nat (unat a)"
    by simp
  also have "\<dots> = page2pa f + word_of_nat r"
    unfolding n of_nat_add by simp
  also have "(word_of_nat r :: u32) = word_of_nat (4 * (r div 4) + r mod 4)"
    by simp
  finally have "a = slot (page2pa f) (word_of_nat (r div 4)) + word_of_nat (r mod 4)"
    unfolding slot_def of_nat_add by (simp add: ac_simps)
  moreover have "unat (word_of_nat (r div 4) :: u32) < 1024"
    by (simp add: unat_of_nat r_def)
  ultimately show thesis
    by (intro that [of "word_of_nat (r div 4)" "r mod 4"]) auto
qed

lemma page_byte_same:
  assumes "\<And>i. unat i < 1024 \<Longrightarrow> entry s' f i = entry s f i" "PTE_ADDR a = page2pa f"
  shows "pmem s' a = pmem s a"
proof -
  obtain i j where a: "unat i < 1024" "j < 4" "a = slot (page2pa f) i + word_of_nat j"
    using page_byte [OF assms(2)] .
  have "rd32 (pmem s') (slot (page2pa f) i) = rd32 (pmem s) (slot (page2pa f) i)"
    using assms(1) [OF a(1)] by (simp add: entry_def)
  then have "pmem s' (slot (page2pa f) i + word_of_nat j) = pmem s (slot (page2pa f) i + word_of_nat j)" if "j < 4"
    using rd32_bytes [of "pmem s'" "slot (page2pa f) i"] rd32_bytes [of "pmem s" "slot (page2pa f) i"] that
    by (auto simp: less_Suc_eq numeral_nat)
  with a show ?thesis by simp
qed

lemma PTE_ADDR_or_off: "PTE_ADDR (PTE_ADDR x OR PGOFF va) = page2pa (frame x)"
proof -
  have "PTE_ADDR (PTE_ADDR x OR PGOFF va) = PTE_ADDR x"
    by (rule bit_word_eqI) (auto simp: PTE_ADDR_shift PGOFF_def and_0xFFF bit_simps)
  then show ?thesis
    by (simp add: frame_def page2pa_PGNUM)
qed

subsection \<open>A page that is not cleared\<close>

lemma page_alloc_raw_vm:
  assumes inv: "vm_inv base D (p # ys) s" and b: "base 0 \<noteq> 0"
  shows "\<exists>s1. page_alloc s 0 = Some (Some p, s1) \<and> vm_inv base D ys s1 \<and> entry s1 = entry s \<and> mm_frame s s1 \<and> mappable D s1 p"
proof -
  note P = vm_free_page [OF inv, of p, simplified] and I = vm_invD [OF inv]
  obtain s1 where al: "page_alloc s 0 = Some (Some p, s1)" "pages_wf s1" "free_list s1 ys" "p \<notin> set ys" and pm: "pmem s1 = pmem s"
    using page_alloc_run [of s p ys 0] I(1,2) by auto
  note A = page_alloc_Some [OF al(1)] and e = entry_pmem_cong [OF pm]
  have np: "npages s1 = npages s"
    using mm_frame_sel [OF A(5)] by simp
  have ref: "pp_ref (pages s1 q) = pp_ref (pages s q)" for q
    using A(3) P(7) by simp
  have v: "vm_inv base D ys s1"
    by (rule vm_inv_recount [OF inv e np al(2,3)]) (simp_all add: ref)
  have "p \<notin> set fl'" if "free_list s1 fl'" for fl'
    using free_list_unique [OF al(3) that] al(4) by simp
  then have "mappable D s1 p"
    unfolding mappable_def np pte_cong [OF e] ref using P(2-4,6,7) b by (metis unat_0 zero_less_numeral)
  then show ?thesis
    using al(1) v e A(5) by blast
qed

text \<open>Mapping a page where nothing is mapped takes at most one page from the free list, for the page table.\<close>

lemma walk_create_free:
  assumes inv: "vm_inv base D fl s" and d: "d \<in> D" "user_pdx (PDX va)" and run: "pgdir_walk s (kpage d) va True = Some (t, s')" "t \<noteq> 0"
    and inv': "vm_inv base D fl' s'"
  shows "\<exists>n\<le>1. fl' = drop n fl"
proof (cases "present (entry s d (PDX va))")
  case True
  with walk_present [OF inv d True, of True] run have "s' = s" by simp
  then have "fl' = fl"
    using free_list_unique [OF vm_invD(2) [OF inv]] vm_invD(2) [OF inv'] by simp
  then show ?thesis
    by (intro exI [of _ 0]) simp
next
  case False
  then obtain p ys where fl: "fl = p # ys"
    using walk_no_memory [OF False] run vm_invD(2) [OF inv] by (cases fl) auto
  obtain s1 where al: "page_alloc s ALLOC_ZERO = Some (Some p, s1)"
    using page_alloc_run [of s p ys ALLOC_ZERO] vm_invD(1,2) [OF inv] fl by auto
  define s3 where "s3 = kst (slot (kpage d) (PDX va)) (page2pa p OR PTE_P OR PTE_W) (upd_page p (\<lambda>pg. pg\<lparr>pp_ref := pp_ref pg + 1\<rparr>) s1)"
  have "s' = s3"
    using run False al by (auto simp: pgdir_walk_def kld_kpage Let_def PTE_P_test s3_def split: bind_splits)
  then have "fl' = ys"
    using free_list_unique [OF vm_invD(2) [OF new_table(1) [OF inv [unfolded fl] d False al s3_def]] vm_invD(2)] inv' by blast
  then show ?thesis
    using fl by (intro exI [of _ 1]) simp
qed

lemma page_insert_free:
  assumes inv: "vm_inv base D fl s" and d: "d \<in> D" "user_pdx (PDX va)" and p: "mappable D s p" and perm: "unat perm < 4096"
    and none: "vmap s d va = None" and run: "page_insert s (kpage d) (Some p) va perm = Some (0, s')"
  shows "\<exists>n\<le>1. vm_inv base D (drop n fl) s'"
proof -
  note d' = vm_dir(1) [OF inv d(1)]
  have "pgdir_walk s (kpage d) va True \<noteq> Some (0, s)"
    using run by (auto simp: page_insert_def layout)
  with walk_create [OF inv d] obtain s1 fl1 where
    w: "pgdir_walk s (kpage d) va True = Some (slot (kpage (frame (entry s1 d (PDX va)))) (PTX va), s1)"
    and inv1: "vm_inv base D fl1 s1" and sp: "same_ptes s s1 D" and p1: "present (entry s1 d (PDX va))"
    by blast
  define t where "t = frame (entry s1 d (PDX va))"
  define s2 where "s2 = kst (slot (kpage d) (PDX va)) (entry s1 d (PDX va) OR (perm OR PTE_P)) s1"
  have t: "t < 65536" "d \<noteq> t"
    using vm_table(1,3) [OF inv1 d p1] d(1) by (auto simp: t_def)
  have e2: "entry s2 d (PDX va) = entry s1 d (PDX va) OR (perm OR PTE_P)" "entry s2 t (PTX va) = entry s1 t (PTX va)"
    unfolding s2_def using entry_kst [OF d' d' PDX_less [of va] PDX_less [of va]] entry_kst [OF d' t(1) PDX_less [of va] PTX_less [of va]] t(2) by simp_all
  have "unat (perm OR PTE_P) < 4096"
    using perm by (auto intro: flags_or simp: layout)
  then have e2': "present (entry s2 d (PDX va))" "frame (entry s2 d (PDX va)) = t"
    using p1 frame_keep_or unfolding e2 t_def by (simp_all add: present_or)
  have "\<not> present (pte s1 d (PDX va) (PTX va))"
    using none sp d PTX_less [of va] by (auto simp: vmap_def Let_def same_ptes_def split: if_splits)
  then have np: "\<not> present (pte s2 d (PDX va) (PTX va))"
    using e2(2) e2' p1 by (simp add: pte_def t_def)
  obtain n where n: "n \<le> 1" "fl1 = drop n fl"
    using walk_create_free [OF inv d w _ inv1] slot_kpage_nonzero [OF t(1) PTX_less [of va]] t_def by blast
  have "store_pte s2 d t p va perm = Some (0, s')"
    using page_insert_store [OF w [folded t_def] t(1) s2_def e2', of p] run by simp
  then have "page_free_list s' = page_free_list s1 \<and> page_links s' = page_links s1 \<and> npages s' = npages s1 \<and>
      (\<exists>r. pages s' = (pages s1)(p := (pages s1 p)\<lparr>pp_ref := r\<rparr>))"
    using np by (auto simp: store_pte_def Let_def s2_def page_links_def fun_eq_iff upd_page_def kst_def split: if_splits intro: exI [of _ "pp_ref (pages s1 p)"])
  moreover have "p \<notin> set fl1"
    using mappable_run(4) [OF inv p] n(2) by (auto dest: in_set_dropD)
  moreover obtain fl' where v: "vm_inv base D fl' s'"
    using page_insert_ok(1) [OF inv d p perm run] by blast
  ultimately have "free_list s' fl1"
    using vm_invD(2) [OF inv1] by (auto simp: free_list_def)
  with v n show ?thesis
    using free_list_unique [OF vm_invD(2) [OF v]] by blast
qed

subsection \<open>The address space under construction\<close>

text \<open>The byte that an environment finds at an address below \<^verbatim>\<open>UTOP\<close>.\<close>

definition user_byte :: "kstate \<Rightarrow> nat \<Rightarrow> u32 \<Rightarrow> u8 option" where
  "user_byte s e va = map_option (\<lambda>x. pmem s (PTE_ADDR x OR PGOFF va)) (aspace s e (PGNUM va))"

text \<open>While a program is loaded, its directory is in \<^verbatim>\<open>cr3\<close>, its pages are its own and writable.\<close>

definition own_page :: "kstate \<Rightarrow> nat \<Rightarrow> u32 \<Rightarrow> u32 \<Rightarrow> bool" where
  "own_page s e pn x \<longleftrightarrow> user_entry x True \<and> user_entry (entry s (dir_frame s e) (PDX (PGNUM2LA pn))) True \<and> amaps s (frame x) = {(e, pn)}"

definition loading :: "(nat \<Rightarrow> nat) \<Rightarrow> nat \<Rightarrow> nat \<Rightarrow> kstate \<Rightarrow> bool" where
  "loading base k e s \<longleftrightarrow> kern_inv base k s \<and> on_dir s e \<and> (\<forall>pn x. aspace s e pn = Some x \<longrightarrow> own_page s e pn x)"

text \<open>\<open>grows s s'\<close>: memory management only, the kernel's pages and what environments had mapped are as before.\<close>

definition grows :: "(nat \<Rightarrow> nat) \<Rightarrow> kstate \<Rightarrow> kstate \<Rightarrow> bool" where
  "grows base s s' \<longleftrightarrow> mm_frame s s' \<and> kern_same base s s' \<and> (\<forall>e va. aspace s e (PGNUM va) \<noteq> None \<longrightarrow> user_byte s' e va = user_byte s e va)"

lemma grows_refl [simp]: "grows base s s"
  by (simp add: grows_def)

lemma grows_trans:
  assumes "grows base s t" "grows base t u"
  shows "grows base s u"
  unfolding grows_def
proof (intro conjI allI impI)
  show "mm_frame s u" "kern_same base s u"
    using assms mm_frame_trans kern_same_trans unfolding grows_def by blast+
  fix e va assume a: "aspace s e (PGNUM va) \<noteq> None"
  then have "user_byte t e va = user_byte s e va" "user_byte s e va \<noteq> None"
    using assms(1) by (simp_all add: grows_def user_byte_def)
  moreover from this have "aspace t e (PGNUM va) \<noteq> None"
    by (auto simp: user_byte_def)
  ultimately show "user_byte u e va = user_byte s e va"
    using assms(2) by (simp add: grows_def)
qed

lemma mm_frame_live: "mm_frame s s' \<Longrightarrow> live s' = live s \<and> dir_frame s' = dir_frame s \<and> live_dirs s' = live_dirs s \<and> on_dir s' = on_dir s"
  by (auto simp: mm_frame_def live_def dir_frame_def live_dirs_def on_dir_def fun_eq_iff)

lemma user_page_pdx: "pn < PGNUM UTOP \<Longrightarrow> PGNUM va = pn \<Longrightarrow> PDX (PGNUM2LA pn) = PDX va \<and> PTX (PGNUM2LA pn) = PTX va"
  using PGNUM2LA_user(1) [of pn] PGNUM_eq_iff [of "PGNUM2LA pn" va] by simp

lemma amaps_add:
  assumes "aspace s' = (aspace s)(e := (aspace s e)(pn \<mapsto> x))" "aspace s e pn = None"
  shows "amaps s' q = (if q = frame x then insert (e, pn) (amaps s q) else amaps s q)"
  using assms(2) by (auto simp: amaps_def assms(1) split: if_splits)

lemma region_page_run:
  assumes ld: "loading base k e s" and v: "vm_inv base (live_dirs s) (p # p' # ys) s" and pn: "pn < PGNUM UTOP" "aspace s e pn = None"
  shows "\<exists>s' n. region_page (env_pgdir (envs s e)) (PGNUM2LA pn) s = Some s' \<and> loading base k e s' \<and> grows base s s' \<and>
    n \<le> 2 \<and> vm_inv base (live_dirs s') (drop n (p # p' # ys)) s' \<and> (\<exists>x. aspace s' = (aspace s)(e := (aspace s e)(pn \<mapsto> x)))"
proof -
  let ?D = "live_dirs s" and ?d = "dir_frame s e" and ?va = "PGNUM2LA pn" and ?perm = "PTE_P OR PTE_U OR PTE_W"
  have inv: "kern_inv base k s" and live: "live s e" and own: "\<And>pn x. aspace s e pn = Some x \<Longrightarrow> own_page s e pn x"
    using ld by (auto simp: loading_def on_dir_def)
  have ok: "mem_ok base k ?D s" and b: "base 0 \<noteq> 0"
    using inv by (auto simp: kern_inv_def mem_ok_def)
  note D = dir_frame_live [OF inv live] and u = PGNUM2LA_user [OF pn(1)] and N = page_number [OF pn(1)]
  have perm: "unat ?perm < 4096" "PTE_U OR PTE_P OR PTE_W = ?perm"
    by (simp_all add: layout)
  note P = vm_free_page [OF v, of p, simplified]
  obtain s1 where s1: "page_alloc s 0 = Some (Some p, s1)" "vm_inv base ?D (p' # ys) s1" "entry s1 = entry s" "mm_frame s s1" "mappable ?D s1 p"
    using page_alloc_raw_vm [OF v b] by blast
  have ok1: "mem_ok base k ?D s1"
    by (rule mem_ok_same_ptes [OF ok s1(2) _ kern_same_entry [OF s1(3)] s1(4)]) (simp add: same_ptes_def pte_cong(1) [OF s1(3)])
  have vm1: "vmap s1 = vmap s"
    by (simp add: fun_eq_iff vmap_def pte_cong(1) [OF s1(3)])
  obtain s2 where s2: "page_insert s1 (kpage ?d) (Some p) ?va ?perm = Some (0, s2)"
    using page_insert_run [OF s1(2) D(1) u(2) mappable_run [OF s1(2,5)] perm(1)] by auto
  note O = page_insert_ok [OF s1(2) D(1) u(2) s1(5) perm(1) s2]
  have mm: "mm_frame s s2"
    by (rule mm_frame_trans [OF s1(4) O(2)])
  have run: "region_page (env_pgdir (envs s e)) ?va s = Some s2"
    using s1(1) s2 D(2) by (simp add: region_page_def perm(2))
  let ?x = "page2pa p OR ?perm OR PTE_P"
  have fx: "frame ?x = p" "user_entry ?x True"
    using rw_entry [OF P(1)] by simp_all
  have as: "aspace s2 = (aspace s)(e := (aspace s e)(pn \<mapsto> ?x))"
    using aspace_upd [OF inv live N(1) mm_frame_sel(3) [OF mm], of "Some ?x"] O(3) vm1 N(3) by simp
  have inv2: "kern_inv base k s2"
    by (rule kern_inv_mm [OF inv mm mem_ok_insert [OF ok1 D(1) u(2) s1(5) perm(1) P(6) s2]])
  note L = mm_frame_live [OF mm]
  have none: "vmap s1 ?d ?va = None"
    using pn live by (simp add: aspace_def vm1)
  obtain n where n: "n \<le> 1" "vm_inv base ?D (drop n (p' # ys)) s2"
    using page_insert_free [OF s1(2) D(1) u(2) s1(5) perm(1) none s2] by blast
  obtain t s1' where pd: "entry s2 ?d (PDX ?va) = entry s1' ?d (PDX ?va) OR (?perm OR PTE_P)"
    using page_insert_walk_pde [OF s1(2) D(1) u(2) s2 perm(1)] by blast
  have fresh: "amaps s p = {}"
    using P(5) amaps_mapset [OF inv, of p] by simp
  have am: "amaps s2 q = (if q = p then insert (e, pn) (amaps s q) else amaps s q)" for q
    using amaps_add [OF as pn(2), of q] fx(1) by simp
  have keep: "entry s2 f i = entry s f i" if "f < 65536" "unat i < 1024" "f \<notin> set (p' # ys)" "tabset s ?D f = {}" "\<not> (f = ?d \<and> i = PDX ?va)" for f i
    using page_insert_frame [OF s1(2) D(1) u(2) s2 perm(1) that(1-3) _ that(5)] that(4) s1(3) pte_cong(2) [OF s1(3)] by simp
  have "own_page s2 e pn' x" if x: "aspace s2 e pn' = Some x" for pn' x
  proof (cases "pn' = pn")
    case True
    then show ?thesis
      using x fx am fresh pd rw_entry(1) [OF P(1)] by (simp add: own_page_def as L)
  next
    case False
    then have x': "aspace s e pn' = Some x"
      using x by (simp add: as)
    note o = own [OF x', unfolded own_page_def]
    have "user_entry (entry s2 ?d (PDX (PGNUM2LA pn'))) True"
    proof (cases "PDX (PGNUM2LA pn') = PDX ?va")
      case True
      with pd rw_entry(1) [OF P(1)] show ?thesis by simp
    next
      case False
      then show ?thesis
        using keep [OF dir_words(1) [OF v D(1)] PDX_less _ dir_words(3) [OF v D(1)]] dir_words(2) [OF v D(1)] o by simp
    qed
    with o am fresh show ?thesis
      by (auto simp: own_page_def L)
  qed
  then have "loading base k e s2"
    using inv2 ld L by (simp add: loading_def)
  moreover have "grows base s s2"
    unfolding grows_def
  proof (intro conjI allI impI mm)
    show "kern_same base s s2"
      by (rule kern_same_trans [OF kern_same_entry [OF s1(3)] O(4)])
    fix e' va assume "aspace s e' (PGNUM va) \<noteq> None"
    then obtain y where y: "aspace s e' (PGNUM va) = Some y" by auto
    note A = aspace_table [OF inv y]
    have f: "frame y \<notin> set (p # p' # ys)"
      using vm_free_page(5) [OF v] aspace_frame(4) [OF inv y] by blast
    have "pmem s2 (PTE_ADDR y OR PGOFF va) = pmem s (PTE_ADDR y OR PGOFF va)"
      by (rule page_byte_same [OF keep PTE_ADDR_or_off]) (use A(6,7,9) f D(1) in auto)
    moreover have "aspace s2 e' (PGNUM va) = Some y"
      using y pn(2) by (auto simp: as)
    ultimately show "user_byte s2 e' va = user_byte s e' va"
      using y by (simp add: user_byte_def)
  qed
  ultimately show ?thesis
    using run as n L by (intro exI [of _ s2] exI [of _ "Suc n"]) auto
qed

subsection \<open>Stores into it\<close>

lemma page_offset_inject: "PGNUM a = PGNUM b \<Longrightarrow> PGOFF a = PGOFF b \<Longrightarrow> a = b"
  unfolding word_unat_eq_iff unat_PGNUM unat_PGOFF by (metis div_mult_mod_eq)

lemma unat_PGOFF_less: "unat (PGOFF va) < 4096"
  by (simp add: unat_PGOFF)

lemma user_store_run:
  assumes ld: "loading base k e s" and v: "vm_inv base (live_dirs s) fl s" and x: "aspace s e (PGNUM va) = Some x"
  shows "\<exists>s'. va_write va b s = Some s' \<and> loading base k e s' \<and> mm_frame s s' \<and> kern_same base s s' \<and> aspace s' = aspace s \<and>
    vm_inv base (live_dirs s') fl s' \<and> (\<forall>e' va'. user_byte s' e' va' = (if e' = e \<and> va' = va then Some b else user_byte s e' va'))"
proof -
  let ?D = "live_dirs s" and ?d = "dir_frame s e" and ?pa = "PTE_ADDR x OR PGOFF va"
  have inv: "kern_inv base k s" and live: "live s e" and cr: "cr3 s = page2pa ?d"
    and own: "\<And>pn x. aspace s e pn = Some x \<Longrightarrow> own_page s e pn x"
    using ld by (auto simp: loading_def on_dir_def)
  note A = aspace_table [OF inv x] and o = own [OF x, unfolded own_page_def]
  have pd: "PDX (PGNUM2LA (PGNUM va)) = PDX va" "PTX (PGNUM2LA (PGNUM va)) = PTX va"
    using user_page_pdx [OF A(10) refl] by simp_all
  have c: "PTE_ADDR (cr3 s) = page2pa ?d"
    using cr A(5) by (simp add: word_unat_eq_iff unat_PTE_ADDR unat_page2pa)
  have f: "PTE_ADDR y = page2pa (frame y)" for y
    by (simp add: frame_def page2pa_PGNUM)
  have "entry s (frame (entry s ?d (PDX va))) (PTX va) = x"
    using A(1,2) pd by (simp add: pte_def)
  then have "rd32 (pmem s) (slot (page2pa ?d) (PDX va)) = entry s ?d (PDX va)"
    "rd32 (pmem s) (slot (PTE_ADDR (entry s ?d (PDX va))) (PTX va)) = x"
    by (simp_all add: entry_def f)
  then have tr: "hw_translate s va True = Some ?pa"
    using o pd unfolding hw_translate_def c by (simp add: Let_def user_entry_def present_def and.commute)
  define s' where "s' = s\<lparr>pmem := (pmem s)(?pa := b)\<rparr>"
  have run: "va_write va b s = Some s'"
    by (simp add: va_write_def tr s'_def)
  have ok: "mem_ok base k ?D s"
    using inv by (simp add: kern_inv_def)
  have out: "((pmem s)(?pa := b)) y = pmem s y" if "PTE_ADDR y \<noteq> page2pa (frame x)" for y
    using that PTE_ADDR_or_off [of x va] by auto
  have V: "vm_inv base ?D fl s'" "same_ptes s s' ?D" "kern_same base s s'"
    using vm_inv_user_write [OF v A(9,6,7) s'_def out] A(8) by blast+
  have mm: "mm_frame s s'"
    by (simp add: s'_def mm_frame_def)
  note L = mm_frame_live [OF mm]
  have inv': "kern_inv base k s'"
    by (rule kern_inv_mm [OF inv mm mem_ok_same_ptes [OF ok V mm]])
  have as: "aspace s' = aspace s"
    by (rule aspace_same [OF inv mm_frame_sel(3) [OF mm]]) (use same_ptes_vmap [OF V(2)] in blast)
  then have am: "amaps s' = amaps s"
    by (simp add: amaps_def fun_eq_iff)
  have de: "entry s' ?d i = entry s ?d i" if "unat i < 1024" for i
    by (rule entry_outside [OF A(5,9) _ that, of s']) (use A(4,6) out in \<open>auto simp: s'_def\<close>)
  have "loading base k e s'"
    using ld inv' L as am de PDX_less by (simp add: loading_def own_page_def)
  moreover have "user_byte s' e' va' = (if e' = e \<and> va' = va then Some b else user_byte s e' va')" for e' va'
  proof (cases "aspace s e' (PGNUM va')")
    case None
    with x show ?thesis by (auto simp: user_byte_def as)
  next
    case (Some y)
    have "e' = e \<and> va' = va" if eq: "PTE_ADDR y OR PGOFF va' = ?pa"
    proof -
      have "page2pa (frame y) = page2pa (frame x)"
        using arg_cong [OF eq, of PTE_ADDR] by (simp add: PTE_ADDR_or_off)
      then have fr: "frame y = frame x"
        using page2pa_inject aspace_frame(1) [OF inv Some] A(9) by simp
      then have "(e', PGNUM va') \<in> amaps s (frame x)"
        using Some by (auto simp: amaps_def)
      with o have "e' = e" "PGNUM va' = PGNUM va" by auto
      moreover have "PGOFF va' = PGOFF va"
        using eq page2pa_or [OF unat_PGOFF_less] by (simp add: f fr)
      ultimately show ?thesis
        using page_offset_inject by blast
    qed
    moreover have "pmem s' = (pmem s)(?pa := b)"
      by (simp add: s'_def)
    ultimately show ?thesis
      using Some x by (auto simp: user_byte_def as)
  qed
  ultimately show ?thesis
    using run mm V(1,3) as L by auto
qed

lemma va_write_list_run:
  assumes "loading base k e s" "vm_inv base (live_dirs s) fl s" "unat va + length bs \<le> unat UTOP"
    and "\<And>j. j < length bs \<Longrightarrow> aspace s e (PGNUM (va + word_of_nat j)) \<noteq> None"
  shows "\<exists>s'. va_write_list va bs s = Some s' \<and> loading base k e s' \<and> mm_frame s s' \<and> kern_same base s s' \<and> aspace s' = aspace s \<and>
    vm_inv base (live_dirs s') fl s' \<and> (\<forall>e' va'. user_byte s' e' va' =
      (if e' = e \<and> unat va \<le> unat va' \<and> unat va' < unat va + length bs then Some (bs ! (unat va' - unat va)) else user_byte s e' va'))"
  using assms
proof (induction bs arbitrary: va s)
  case (Cons b bs)
  obtain x where x: "aspace s e (PGNUM va) = Some x"
    using Cons.prems(4) [of 0] by auto
  obtain s1 where s1: "va_write va b s = Some s1" "loading base k e s1" "mm_frame s s1" "kern_same base s s1" "aspace s1 = aspace s"
    "vm_inv base (live_dirs s1) fl s1" and ub: "\<And>e' va'. user_byte s1 e' va' = (if e' = e \<and> va' = va then Some b else user_byte s e' va')"
    using user_store_run [OF Cons.prems(1,2) x, of b] by blast
  have u: "unat (va + 1) = unat va + 1"
    using Cons.prems(3) by (simp add: unat_word_ariths layout)
  have m: "aspace s1 e (PGNUM (va + 1 + word_of_nat j)) \<noteq> None" if "j < length bs" for j
    using Cons.prems(4) [of "Suc j"] that s1(5) by (simp add: ac_simps)
  have l: "unat (va + 1) + length bs \<le> unat UTOP"
    using Cons.prems(3) u by simp
  obtain s' where s': "va_write_list (va + 1) bs s1 = Some s'" "loading base k e s'" "mm_frame s1 s'" "kern_same base s1 s'" "aspace s' = aspace s1"
    "vm_inv base (live_dirs s') fl s'" and ub': "\<And>e' va'. user_byte s' e' va' =
      (if e' = e \<and> unat (va + 1) \<le> unat va' \<and> unat va' < unat (va + 1) + length bs then Some (bs ! (unat va' - unat (va + 1))) else user_byte s1 e' va')"
    using Cons.IH [OF s1(2,6) l m] by blast
  have "user_byte s' e' va' = (if e' = e \<and> unat va \<le> unat va' \<and> unat va' < unat va + length (b # bs) then Some ((b # bs) ! (unat va' - unat va))
      else user_byte s e' va')" for e' va'
  proof (cases "unat va' = unat va")
    case True
    then have "va' = va" by (simp add: word_unat_eq_iff)
    then show ?thesis
      using ub' [of e' va'] ub [of e' va'] u by simp
  next
    case False
    then have "va' \<noteq> va" by auto
    then show ?thesis
      using ub' [of e' va'] ub [of e' va'] u False by (auto simp: nth_Cons')
  qed
  then show ?case
    using s1(1,5) s' mm_frame_trans [OF s1(3) s'(3)] kern_same_trans [OF s1(4) s'(4)] by auto
qed auto

subsection \<open>Regions\<close>

text \<open>\<open>mapped_more s s' e P\<close>: the pages \<open>P\<close> of \<open>e\<close> have come to be mapped, all other mappings are as before.\<close>

definition mapped_more :: "kstate \<Rightarrow> kstate \<Rightarrow> nat \<Rightarrow> u32 set \<Rightarrow> bool" where
  "mapped_more s s' e P \<longleftrightarrow> (\<forall>e' pn. (aspace s' e' pn \<noteq> None \<longleftrightarrow> aspace s e' pn \<noteq> None \<or> e' = e \<and> pn \<in> P) \<and>
     (\<not> (e' = e \<and> pn \<in> P) \<longrightarrow> aspace s' e' pn = aspace s e' pn))"

lemma mapped_more_trans: "mapped_more s t e P \<Longrightarrow> mapped_more t u e Q \<Longrightarrow> mapped_more s u e (P \<union> Q)"
  unfolding mapped_more_def by (metis Un_iff)

lemma mapped_moreD:
  assumes "mapped_more s s' e P"
  shows "pn \<in> P \<Longrightarrow> aspace s' e pn \<noteq> None" "e' \<noteq> e \<Longrightarrow> aspace s' e' = aspace s e'" "pn \<notin> P \<Longrightarrow> aspace s' e pn = aspace s e pn"
  using assms unfolding mapped_more_def by (blast, blast intro: ext, blast)

lemma region_loop_run:
  assumes "loading base k e s" "vm_inv base (live_dirs s) fl s" "distinct pns" "2 * length pns \<le> length fl"
    and "\<And>pn. pn \<in> set pns \<Longrightarrow> pn < PGNUM UTOP \<and> aspace s e pn = None" and pg: "pgdir = env_pgdir (envs s e)"
  shows "\<exists>s' fl'. for_each (region_page pgdir) (map PGNUM2LA pns) s = Some s' \<and> loading base k e s' \<and> grows base s s' \<and>
    vm_inv base (live_dirs s') fl' s' \<and> length fl \<le> length fl' + 2 * length pns \<and>
    mapped_more s s' e (set pns)"
  using assms
proof (induction pns arbitrary: s fl)
  case Nil
  then show ?case
    by (intro exI [of _ s] exI [of _ fl]) (simp add: mapped_more_def)
next
  case (Cons pn pns)
  obtain p p' ys where fl: "fl = p # p' # ys"
    using Cons.prems(4) by (cases fl; cases "tl fl") auto
  have pn: "pn < PGNUM UTOP" "aspace s e pn = None"
    using Cons.prems(5) [of pn] by auto
  obtain s1 n x where s1: "region_page pgdir (PGNUM2LA pn) s = Some s1" "loading base k e s1" "grows base s s1" "n \<le> 2"
    "vm_inv base (live_dirs s1) (drop n fl) s1" and as: "aspace s1 = (aspace s)(e := (aspace s e)(pn \<mapsto> x))"
    using region_page_run [OF Cons.prems(1,2) [unfolded fl] pn] Cons.prems(6) fl by blast
  have pns: "distinct pns" "pn \<notin> set pns" "2 * length pns \<le> length (drop n fl)"
    using Cons.prems(3,4) s1(4) by auto
  have free: "pn' < PGNUM UTOP \<and> aspace s1 e pn' = None" if "pn' \<in> set pns" for pn'
    using Cons.prems(5) [of pn'] that pns(2) by (auto simp: as)
  have "pgdir = env_pgdir (envs s1 e)"
    using Cons.prems(6) s1(3) by (simp add: grows_def mm_frame_def)
  from Cons.IH [OF s1(2,5) pns(1,3) free this] obtain s' fl' where
    s': "for_each (region_page pgdir) (map PGNUM2LA pns) s1 = Some s'" "loading base k e s'" "grows base s1 s'"
    "vm_inv base (live_dirs s') fl' s'" "length (drop n fl) \<le> length fl' + 2 * length pns"
    and as': "mapped_more s1 s' e (set pns)"
    by blast
  have "mapped_more s s1 e {pn}"
    by (auto simp: mapped_more_def as)
  from mapped_more_trans [OF this as'] have "mapped_more s s' e (set (pn # pns))"
    by simp
  moreover have "length fl \<le> length fl' + 2 * length (pn # pns)"
    using s'(5) s1(4) by simp
  ultimately show ?case
    using s1(1) s' grows_trans [OF s1(3) s'(3)] by (intro exI [of _ s'] exI [of _ fl']) simp
qed

text \<open>The numbers of the pages that a region touches.\<close>

definition region_pns :: "u32 \<Rightarrow> u32 \<Rightarrow> u32 list" where
  "region_pns va len = map word_of_nat [unat va div 4096..<(unat va + unat len + 4095) div 4096]"

lemma region_pns_bound:
  assumes "unat va + unat len \<le> 0xEEBFE000" "pn \<in> set (region_pns va len)"
  shows "pn < PGNUM UTOP" "unat va div 4096 \<le> unat pn" "unat pn < (unat va + unat len + 4095) div 4096"
proof -
  obtain n where n: "pn = word_of_nat n" "unat va div 4096 \<le> n" "n < (unat va + unat len + 4095) div 4096"
    using assms(2) by (auto simp: region_pns_def)
  moreover have "(unat va + unat len + 4095) div 4096 \<le> 0xEEBFE"
    using assms(1) by linarith
  ultimately have "unat pn = n" "n < 0xEEBFE"
    by (auto simp: unat_of_nat)
  with n show "pn < PGNUM UTOP" "unat va div 4096 \<le> unat pn" "unat pn < (unat va + unat len + 4095) div 4096"
    by (simp_all add: word_less_nat_alt unat_PGNUM layout)
qed

lemma distinct_region_pns: "unat va + unat len \<le> 0xEEBFE000 \<Longrightarrow> distinct (region_pns va len)"
  unfolding region_pns_def distinct_map
  by (auto simp: inj_on_def intro!: inj_onI dest!: arg_cong [of "word_of_nat _" _ "unat :: u32 \<Rightarrow> nat"] simp: unat_of_nat)

lemma region_pns_byte:
  assumes "unat va + unat len \<le> 0xEEBFE000" "j < unat len"
  shows "PGNUM (va + word_of_nat j) \<in> set (region_pns va len)"
proof -
  have u: "unat (va + word_of_nat j) = unat va + j"
    using assms by (simp add: unat_word_ariths unat_of_nat)
  have "PGNUM (va + word_of_nat j) = word_of_nat (unat (PGNUM (va + word_of_nat j)))"
    by simp
  also have "\<dots> = word_of_nat ((unat va + j) div 4096)"
    by (simp only: unat_PGNUM u)
  finally show ?thesis
    using assms by (auto simp: region_pns_def div_le_mono intro!: image_eqI)
qed

lemma region_pns_addr:
  assumes "unat va + unat len \<le> 0xEEBFE000" "unat va \<le> unat a" "unat a < unat va + unat len"
  shows "PGNUM a \<in> set (region_pns va len)"
proof -
  define j where "j = unat a - unat va"
  have "va + word_of_nat j = a"
    using assms(2) by (simp add: j_def of_nat_diff)
  moreover have "j < unat len"
    using assms(2,3) by (simp add: j_def)
  ultimately show ?thesis
    using region_pns_byte [OF assms(1)] by metis
qed

lemma region_pages_pns:
  assumes "unat va + unat len \<le> 0xEEBFE000"
  shows "region_pages (ROUNDDOWN va PGSIZE) (ROUNDUP (va + len) PGSIZE) = map PGNUM2LA (region_pns va len)"
proof -
  define lo where "lo = unat va div 4096"
  define hi where "hi = (unat va + unat len + 4095) div 4096"
  have hi: "hi \<le> 0xEEBFE" "lo \<le> hi"
    using assms by (simp_all add: hi_def lo_def div_le_mono)
  have a: "unat (ROUNDDOWN va PGSIZE) = 4096 * lo"
  proof -
    have "unat va div 4096 * 4096 < 4294967296"
      using unat_u32_bound [of va] div_times_less_eq_dividend [of "unat va" 4096] by linarith
    then show ?thesis
      unfolding ROUNDDOWN_page by (simp add: PGNUM2LA_def layout push_bit_eq_mult unat_word_ariths unat_PGNUM lo_def)
  qed
  have b: "unat (ROUNDUP (va + len) PGSIZE) = 4096 * hi"
    using assms unat_ROUNDUP [of "va + len"] by (simp add: unat_word_ariths hi_def)
  have d: "unat ((ROUNDUP (va + len) PGSIZE - ROUNDDOWN va PGSIZE) div PGSIZE) = hi - lo"
    using a b hi by (simp add: unat_div unat_sub word_le_nat_alt layout flip: diff_mult_distrib2)
  have p: "ROUNDDOWN va PGSIZE + word_of_nat j * PGSIZE = PGNUM2LA (word_of_nat (lo + j))" if "j < hi - lo" for j
    using that hi a [unfolded PGSIZE_def] by (simp add: word_unat_eq_iff unat_word_ariths PGNUM2LA_def layout push_bit_eq_mult unat_of_nat)
  show ?thesis
  proof (cases "lo < hi")
    case True
    then have "ROUNDDOWN va PGSIZE < ROUNDUP (va + len) PGSIZE"
      using a b by (simp add: word_less_nat_alt)
    then have "region_pages (ROUNDDOWN va PGSIZE) (ROUNDUP (va + len) PGSIZE) = map (\<lambda>j. PGNUM2LA (word_of_nat (lo + j))) [0..<hi - lo]"
      using p by (simp add: region_pages_def d)
    also have "\<dots> = map PGNUM2LA (region_pns va len)"
      unfolding region_pns_def lo_def [symmetric] hi_def [symmetric] by (rule nth_equalityI) simp_all
    finally show ?thesis .
  next
    case False
    then show ?thesis
      using a b by (simp add: region_pages_def word_less_nat_alt region_pns_def lo_def hi_def)
  qed
qed

lemma region_alloc_run:
  assumes ld: "loading base k e s" and v: "vm_inv base (live_dirs s) fl s" and len: "unat va + unat len \<le> 0xEEBFE000"
    and fl: "2 * length (region_pns va len) \<le> length fl" and free: "\<And>pn. pn \<in> set (region_pns va len) \<Longrightarrow> aspace s e pn = None"
  shows "\<exists>t s' fl'. region_alloc s e va len = Some (t, s') \<and> (len \<noteq> 0 \<longrightarrow> t \<noteq> 0) \<and> loading base k e s' \<and> grows base s s' \<and>
    vm_inv base (live_dirs s') fl' s' \<and> length fl \<le> length fl' + 2 * length (region_pns va len) \<and> mapped_more s s' e (set (region_pns va len))"
proof -
  obtain s' fl' where s': "for_each (region_page (env_pgdir (envs s e))) (map PGNUM2LA (region_pns va len)) s = Some s'" "loading base k e s'"
    "grows base s s'" "vm_inv base (live_dirs s') fl' s'" "length fl \<le> length fl' + 2 * length (region_pns va len)"
    "mapped_more s s' e (set (region_pns va len))"
    using region_loop_run [OF ld v distinct_region_pns [OF len] fl _ refl] region_pns_bound(1) [OF len] free by blast
  have inv: "kern_inv base k s'" and live: "live s' e"
    using s'(2) by (simp_all add: loading_def on_dir_def)
  note D = dir_frame_live [OF inv live]
  let ?d = "dir_frame s' e"
  have va: "va < UTOP"
    using len by (simp add: word_less_nat_alt layout)
  have r: "\<not> UTOP \<le> ROUNDUP (va + len) PGSIZE"
  proof -
    have "unat (va + len) = unat va + unat len"
      using len by (simp add: unat_word_ariths)
    then have "unat (ROUNDUP (va + len) PGSIZE) = (unat va + unat len + 4095) div 4096 * 4096"
      using unat_ROUNDUP(1) [of "va + len"] len by simp
    then show ?thesis
      using len by (simp add: not_le word_less_nat_alt layout)
  qed
  obtain t where t: "pgdir_walk s' (kpage ?d) va False = Some (t, s')" "present (entry s' ?d (PDX va)) \<Longrightarrow> t \<noteq> 0"
  proof (cases "present (entry s' ?d (PDX va))")
    case True
    then show thesis
      using that walk_present [OF s'(4) D(1) below_UTOP [OF va] True] slot_kpage_nonzero [OF vm_table(1) [OF s'(4) D(1) below_UTOP [OF va] True] PTX_less]
      by blast
  next
    case False
    then show thesis
      using that walk_absent [OF False] by blast
  qed
  have "t \<noteq> 0" if "len \<noteq> 0"
  proof -
    have "PGNUM (va + word_of_nat 0) \<in> set (region_pns va len)"
      by (rule region_pns_byte [OF len]) (use that in \<open>simp add: word_neq_0_conv unat_gt_0\<close>)
    then obtain x where x: "aspace s' e (PGNUM va) = Some x"
      using mapped_moreD(1) [OF s'(6)] by fastforce
    note A = aspace_table [OF inv x]
    from t(2) A(2) user_page_pdx [OF A(10) refl] show ?thesis by simp
  qed
  moreover have "region_alloc s e va len = Some (t, s')"
    using s'(1) t(1) r D(2) by (simp add: region_alloc_def region_pages_pns [OF len])
  ultimately show ?thesis
    using s' by blast
qed

subsection \<open>The image\<close>

text \<open>A run of bytes in pages that belong to the kernel, so that loading does not change it.\<close>

definition held :: "(nat \<Rightarrow> nat) \<Rightarrow> u32 \<Rightarrow> nat \<Rightarrow> bool" where
  "held base a n \<longleftrightarrow> (\<forall>j<n. let p = unat (PGNUM (a - KERNBASE + word_of_nat j)) in p < 65536 \<and> base p \<noteq> 0)"

lemma held_byte:
  assumes "kern_same base s s'" "held base a n" "j < n"
  shows "pmem s' (a - KERNBASE + word_of_nat j) = pmem s (a - KERNBASE + word_of_nat j)"
proof -
  define b where "b = a - KERNBASE + word_of_nat j"
  have p: "unat (PGNUM b) < 65536" "base (unat (PGNUM b)) \<noteq> 0"
    using assms(2,3) by (auto simp: held_def Let_def b_def)
  have "pmem s' b = pmem s b"
  proof (rule page_byte_same)
    show "PTE_ADDR b = page2pa (unat (PGNUM b))"
      by (simp add: page2pa_PGNUM)
    show "entry s' (unat (PGNUM b)) i = entry s (unat (PGNUM b)) i" if "unat i < 1024" for i
      using assms(1) p that unfolding kern_same_def by blast
  qed
  then show ?thesis
    by (simp only: b_def)
qed

lemma held_kld:
  assumes "kern_same base s s'" "held base a n" "c + 4 \<le> n"
  shows "kld s' (a + word_of_nat c) = kld s (a + word_of_nat c)"
proof -
  define b where "b = a + word_of_nat c - KERNBASE"
  have "pmem s' (b + word_of_nat j) = pmem s (b + word_of_nat j)" if "j < 4" for j
    using held_byte [OF assms(1,2), of "c + j"] that assms(3) by (simp add: b_def algebra_simps)
  from this [of 0] this [of 1] this [of 2] this [of 3] have "rd32 (pmem s') b = rd32 (pmem s) b"
    by (intro rd32_cong) simp_all
  then show ?thesis
    by (simp only: kld_def b_def)
qed

text \<open>The fields of \<^verbatim>\<open>struct Proghdr\<close>, and what the loader does with a segment.\<close>

abbreviation p_offset :: "kstate \<Rightarrow> u32 \<Rightarrow> u32" where "p_offset s ph \<equiv> kld s (ph + 4)"
abbreviation p_va :: "kstate \<Rightarrow> u32 \<Rightarrow> u32" where "p_va s ph \<equiv> kld s (ph + 8)"
abbreviation p_filesz :: "kstate \<Rightarrow> u32 \<Rightarrow> u32" where "p_filesz s ph \<equiv> kld s (ph + 16)"
abbreviation p_memsz :: "kstate \<Rightarrow> u32 \<Rightarrow> u32" where "p_memsz s ph \<equiv> kld s (ph + 20)"

definition seg_pages :: "kstate \<Rightarrow> u32 \<Rightarrow> u32 list" where
  "seg_pages s ph = (if kld s ph = ELF_PROG_LOAD then region_pns (p_va s ph) (p_memsz s ph) else [])"

definition seg_ok :: "(nat \<Rightarrow> nat) \<Rightarrow> kstate \<Rightarrow> u32 \<Rightarrow> u32 \<Rightarrow> bool" where
  "seg_ok base s binary ph \<longleftrightarrow> held base ph 32 \<and> (kld s ph = ELF_PROG_LOAD \<longrightarrow>
     p_filesz s ph \<le> p_memsz s ph \<and> unat (p_va s ph) + unat (p_memsz s ph) \<le> 0xEEBFD000 \<and> held base (binary + p_offset s ph) (unat (p_filesz s ph)))"

definition seg_loaded :: "kstate \<Rightarrow> kstate \<Rightarrow> nat \<Rightarrow> u32 \<Rightarrow> u32 \<Rightarrow> bool" where
  "seg_loaded s s' e binary ph \<longleftrightarrow> (kld s ph = ELF_PROG_LOAD \<longrightarrow> (\<forall>j < unat (p_memsz s ph). user_byte s' e (p_va s ph + word_of_nat j) =
     Some (if j < unat (p_filesz s ph) then pmem s (binary + p_offset s ph - KERNBASE + word_of_nat j) else 0)))"

lemma user_byte_mapped: "user_byte s e va = Some b \<Longrightarrow> aspace s e (PGNUM va) \<noteq> None"
  by (auto simp: user_byte_def)

lemma seg_loaded_grows: "seg_loaded s s1 e binary ph \<Longrightarrow> grows base s1 s' \<Longrightarrow> seg_loaded s s' e binary ph"
  unfolding seg_loaded_def grows_def using user_byte_mapped by metis

lemma load_segment_run:
  assumes ld: "loading base k e s" and v: "vm_inv base (live_dirs s) fl s" and same: "kern_same base s0 s" and ok: "seg_ok base s0 binary ph"
    and fl: "2 * length (seg_pages s0 ph) \<le> length fl" and free: "\<And>pn. pn \<in> set (seg_pages s0 ph) \<Longrightarrow> aspace s e pn = None"
  shows "\<exists>s' fl'. load_segment e binary ph s = Some s' \<and> loading base k e s' \<and> grows base s s' \<and> vm_inv base (live_dirs s') fl' s' \<and>
    length fl \<le> length fl' + 2 * length (seg_pages s0 ph) \<and> mapped_more s s' e (set (seg_pages s0 ph)) \<and> seg_loaded s0 s' e binary ph"
proof -
  have "held base ph 32"
    using ok by (simp add: seg_ok_def)
  note K = held_kld [OF same this]
  have h: "kld s ph = kld s0 ph" "p_offset s ph = p_offset s0 ph" "p_va s ph = p_va s0 ph" "p_filesz s ph = p_filesz s0 ph" "p_memsz s ph = p_memsz s0 ph"
    using K [of 0] K [of 4] K [of 8] K [of 16] K [of 20] by simp_all
  show ?thesis
  proof (cases "kld s0 ph = ELF_PROG_LOAD")
    case False
    then show ?thesis
      using ld v h(1) by (intro exI [of _ s] exI [of _ fl]) (simp add: load_segment_def seg_loaded_def mapped_more_def seg_pages_def)
  next
    case True
    let ?va = "p_va s0 ph" and ?len = "p_memsz s0 ph" and ?n = "p_filesz s0 ph" and ?a = "binary + p_offset s0 ph"
    have b: "?n \<le> ?len" "unat ?va + unat ?len \<le> 0xEEBFD000" "held base ?a (unat ?n)"
      using ok True by (simp_all add: seg_ok_def)
    have pg: "seg_pages s0 ph = region_pns ?va ?len"
      using True by (simp add: seg_pages_def)
    have len: "unat ?va + unat ?len \<le> 0xEEBFE000" and nl: "unat ?n \<le> unat ?len"
      using b(1,2) by (simp_all add: word_le_nat_alt)
    obtain t s1 fl1 where s1: "region_alloc s e ?va ?len = Some (t, s1)" "loading base k e s1" "grows base s s1" "vm_inv base (live_dirs s1) fl1 s1"
      "length fl \<le> length fl1 + 2 * length (region_pns ?va ?len)" "mapped_more s s1 e (set (region_pns ?va ?len))"
      using region_alloc_run [OF ld v len] fl free unfolding pg by blast
    have m1: "aspace s1 e (PGNUM (?va + word_of_nat j)) \<noteq> None" if "j < unat ?len" for j
      by (rule mapped_moreD(1) [OF s1(6) region_pns_byte [OF len that]])
    let ?bs = "kbytes s1 ?a ?n" and ?zs = "replicate (unat (?len - ?n)) (0 :: u8)"
    have lb: "length ?bs = unat ?n" "length ?zs = unat ?len - unat ?n"
      using b(1) by (simp_all add: kbytes_def unat_sub)
    have bnd: "unat ?va + length ?bs \<le> unat UTOP"
      using lb(1) nl b(2) by (simp add: layout)
    have m1': "aspace s1 e (PGNUM (?va + word_of_nat j)) \<noteq> None" if "j < length ?bs" for j
      using m1 [of j] that lb(1) nl by simp
    obtain s2 where s2: "va_write_list ?va ?bs s1 = Some s2" "loading base k e s2" "mm_frame s1 s2" "kern_same base s1 s2" "aspace s2 = aspace s1"
      "vm_inv base (live_dirs s2) fl1 s2" and u2: "\<And>e' va'. user_byte s2 e' va' =
        (if e' = e \<and> unat ?va \<le> unat va' \<and> unat va' < unat ?va + length ?bs then Some (?bs ! (unat va' - unat ?va)) else user_byte s1 e' va')"
      using va_write_list_run [OF s1(2,4) bnd m1'] by blast
    have un: "unat (?va + ?n) = unat ?va + unat ?n"
      using len nl by (simp add: unat_word_ariths)
    have bnd3: "unat (?va + ?n) + length ?zs \<le> unat UTOP"
      unfolding un lb(2) using nl b(2) by (simp add: layout)
    have m2: "aspace s2 e (PGNUM (?va + ?n + word_of_nat j)) \<noteq> None" if "j < length ?zs" for j
      using m1 [of "unat ?n + j"] that lb(2) by (simp add: s2(5) add.assoc)
    obtain s3 where s3: "va_write_list (?va + ?n) ?zs s2 = Some s3" "loading base k e s3" "mm_frame s2 s3" "kern_same base s2 s3" "aspace s3 = aspace s2"
      "vm_inv base (live_dirs s3) fl1 s3" and u3: "\<And>e' va'. user_byte s3 e' va' =
        (if e' = e \<and> unat (?va + ?n) \<le> unat va' \<and> unat va' < unat (?va + ?n) + length ?zs then Some (?zs ! (unat va' - unat (?va + ?n))) else user_byte s2 e' va')"
      using va_write_list_run [OF s2(2,6) bnd3 m2] by blast
    have run: "load_segment e binary ph s = Some s3"
      using s1(1) s2(1) s3(1) True b(1) by (simp add: load_segment_def h not_less Let_def)
    have ub: "user_byte s3 e' va' = (if e' = e \<and> unat ?va \<le> unat va' \<and> unat va' < unat ?va + unat ?len then
        Some (if unat va' - unat ?va < unat ?n then ?bs ! (unat va' - unat ?va) else 0) else user_byte s1 e' va')" for e' va'
    proof -
      have "?zs ! m = 0" if "m < unat ?len - unat ?n" for m
        using that lb(2) by simp
      moreover have "unat va' - (unat ?va + unat ?n) < unat ?len - unat ?n" if "unat va' < unat ?va + unat ?len" "unat ?va + unat ?n \<le> unat va'"
        using that by linarith
      ultimately have "?zs ! (unat va' - (unat ?va + unat ?n)) = 0" if "unat va' < unat ?va + unat ?len" "unat ?va + unat ?n \<le> unat va'"
        using that by blast
      then show ?thesis
        unfolding u3 u2 un lb using nl by (simp add: less_diff_conv2 not_less) blast
    qed
    have mm: "mapped_more s s3 e (set (seg_pages s0 ph))"
      using s1(6) by (simp add: mapped_more_def s2(5) s3(5) pg)
    have g: "grows base s s3"
      unfolding grows_def
    proof (intro conjI allI impI)
      have "mm_frame s s1" "kern_same base s s1"
        using s1(3) by (simp_all add: grows_def)
      then show "mm_frame s s3" "kern_same base s s3"
        using mm_frame_trans [OF mm_frame_trans [OF _ s2(3)] s3(3)] kern_same_trans [OF kern_same_trans [OF _ s2(4)] s3(4)] by simp_all
      fix e' va' assume a: "aspace s e' (PGNUM va') \<noteq> None"
      have "\<not> (e' = e \<and> unat ?va \<le> unat va' \<and> unat va' < unat ?va + unat ?len)"
      proof
        assume r: "e' = e \<and> unat ?va \<le> unat va' \<and> unat va' < unat ?va + unat ?len"
        then have "PGNUM va' \<in> set (region_pns ?va ?len)"
          using region_pns_addr [OF len] by blast
        then show False
          using free a r by (auto simp: pg)
      qed
      then show "user_byte s3 e' va' = user_byte s e' va'"
        using ub s1(3) a by (auto simp: grows_def)
    qed
    have "seg_loaded s0 s3 e binary ph"
      unfolding seg_loaded_def
    proof (intro impI allI)
      fix j assume j: "j < unat ?len"
      then have uj: "unat (?va + word_of_nat j) = unat ?va + j"
        using len by (simp add: unat_word_ariths unat_of_nat)
      have "kern_same base s0 s1"
        using same s1(3) kern_same_trans unfolding grows_def by blast
      then have "?bs ! j = pmem s0 (?a - KERNBASE + word_of_nat j)" if "j < unat ?n"
        using held_byte [OF _ b(3) that] that by (simp add: kbytes_def)
      then show "user_byte s3 e (?va + word_of_nat j) = Some (if j < unat ?n then pmem s0 (?a - KERNBASE + word_of_nat j) else 0)"
        unfolding ub uj using j by simp
    qed
    then show ?thesis
      using run s3(2,6) g mm s1(5) pg by (intro exI [of _ s3] exI [of _ fl1]) simp
  qed
qed

lemma load_segments_run:
  assumes "loading base k e s" "vm_inv base (live_dirs s) fl s" "kern_same base s0 s" "\<forall>ph \<in> set phs. seg_ok base s0 binary ph"
    "sorted_wrt (\<lambda>p q. set (seg_pages s0 p) \<inter> set (seg_pages s0 q) = {}) phs"
    "2 * (\<Sum>ph\<leftarrow>phs. length (seg_pages s0 ph)) \<le> length fl"
    "\<forall>ph \<in> set phs. \<forall>pn \<in> set (seg_pages s0 ph). aspace s e pn = None"
  shows "\<exists>s' fl'. for_each (load_segment e binary) phs s = Some s' \<and> loading base k e s' \<and> grows base s s' \<and> vm_inv base (live_dirs s') fl' s' \<and>
    length fl \<le> length fl' + 2 * (\<Sum>ph\<leftarrow>phs. length (seg_pages s0 ph)) \<and> mapped_more s s' e (\<Union>ph \<in> set phs. set (seg_pages s0 ph)) \<and>
    (\<forall>ph \<in> set phs. seg_loaded s0 s' e binary ph)"
  using assms
proof (induction phs arbitrary: s fl)
  case Nil
  then show ?case
    by (intro exI [of _ s] exI [of _ fl]) (simp add: mapped_more_def)
next
  case (Cons ph phs)
  have n: "2 * length (seg_pages s0 ph) \<le> length fl"
    using Cons.prems(6) by simp
  obtain s1 fl1 where s1: "load_segment e binary ph s = Some s1" "loading base k e s1" "grows base s s1" "vm_inv base (live_dirs s1) fl1 s1"
    "length fl \<le> length fl1 + 2 * length (seg_pages s0 ph)" "mapped_more s s1 e (set (seg_pages s0 ph))" "seg_loaded s0 s1 e binary ph"
    using load_segment_run [OF Cons.prems(1-3) _ n] Cons.prems(4,7) by simp blast
  have k1: "kern_same base s0 s1"
    using Cons.prems(3) s1(3) kern_same_trans unfolding grows_def by blast
  have n1: "2 * (\<Sum>ph\<leftarrow>phs. length (seg_pages s0 ph)) \<le> length fl1"
    using Cons.prems(6) s1(5) by simp
  have srt: "sorted_wrt (\<lambda>p q. set (seg_pages s0 p) \<inter> set (seg_pages s0 q) = {}) phs"
    using Cons.prems(5) by simp
  have segs: "\<forall>q \<in> set phs. seg_ok base s0 binary q"
    using Cons.prems(4) by simp
  have free: "\<forall>q \<in> set phs. \<forall>pn \<in> set (seg_pages s0 q). aspace s1 e pn = None"
  proof (intro ballI)
    fix q pn assume q: "q \<in> set phs" "pn \<in> set (seg_pages s0 q)"
    then have "pn \<notin> set (seg_pages s0 ph)"
      using Cons.prems(5) by auto
    then show "aspace s1 e pn = None"
      using mapped_moreD(3) [OF s1(6)] Cons.prems(7) q by simp
  qed
  obtain s' fl' where s': "for_each (load_segment e binary) phs s1 = Some s'" "loading base k e s'" "grows base s1 s'" "vm_inv base (live_dirs s') fl' s'"
    "length fl1 \<le> length fl' + 2 * (\<Sum>ph\<leftarrow>phs. length (seg_pages s0 ph))" "mapped_more s1 s' e (\<Union>ph \<in> set phs. set (seg_pages s0 ph))"
    "\<forall>ph \<in> set phs. seg_loaded s0 s' e binary ph"
    using Cons.IH [OF s1(2,4) k1 segs srt n1 free] by blast
  have "mapped_more s s' e (\<Union>ph \<in> set (ph # phs). set (seg_pages s0 ph))"
    using mapped_more_trans [OF s1(6) s'(6)] by simp
  moreover have "length fl \<le> length fl' + 2 * (\<Sum>ph\<leftarrow>ph # phs. length (seg_pages s0 ph))"
    using s1(5) s'(5) by simp
  moreover have "\<forall>q \<in> set (ph # phs). seg_loaded s0 s' e binary q"
    using s'(7) seg_loaded_grows [OF s1(7) s'(3)] by simp
  ultimately show ?case
    using s1(1) s'(1,2,4) grows_trans [OF s1(3) s'(3)] by (intro exI [of _ s'] exI [of _ fl']) simp
qed

subsection \<open>The whole image\<close>

definition elf_phs :: "kstate \<Rightarrow> u32 \<Rightarrow> u32 list" where
  "elf_phs s binary = map (\<lambda>i. binary + kld s (binary + 28) + 32 * word_of_nat i) [0..<unat (kld16 s (binary + 44))]"

text \<open>An image that the kernel holds, whose segments lie below the stack and on pages of their own.\<close>

definition elf_ok :: "(nat \<Rightarrow> nat) \<Rightarrow> kstate \<Rightarrow> u32 \<Rightarrow> bool" where
  "elf_ok base s binary \<longleftrightarrow> kld s binary = ELF_MAGIC \<and> held base binary 52 \<and> (\<forall>ph \<in> set (elf_phs s binary). seg_ok base s binary ph) \<and>
     sorted_wrt (\<lambda>p q. set (seg_pages s p) \<inter> set (seg_pages s q) = {}) (elf_phs s binary)"

definition elf_pages :: "kstate \<Rightarrow> u32 \<Rightarrow> nat" where
  "elf_pages s binary = (\<Sum>ph\<leftarrow>elf_phs s binary. length (seg_pages s ph))"

definition stack_page :: u32 where "stack_page = PGNUM (USTACKTOP - PGSIZE)"

definition elf_pns :: "kstate \<Rightarrow> u32 \<Rightarrow> u32 set" where
  "elf_pns s binary = insert stack_page (\<Union>ph \<in> set (elf_phs s binary). set (seg_pages s ph))"

definition elf_loaded :: "kstate \<Rightarrow> kstate \<Rightarrow> nat \<Rightarrow> u32 \<Rightarrow> bool" where
  "elf_loaded s s' e binary \<longleftrightarrow> (\<forall>ph \<in> set (elf_phs s binary). seg_loaded s s' e binary ph) \<and>
     (\<forall>j<4096. user_byte s' e (USTACKTOP - PGSIZE + word_of_nat j) = Some 0)"

lemma space_cr3 [simp]:
  "aspace (s\<lparr>cr3 := c\<rparr>) = aspace s" "live (s\<lparr>cr3 := c\<rparr>) = live s" "dir_frame (s\<lparr>cr3 := c\<rparr>) = dir_frame s" "live_dirs (s\<lparr>cr3 := c\<rparr>) = live_dirs s"
  "amaps (s\<lparr>cr3 := c\<rparr>) = amaps s" "user_byte (s\<lparr>cr3 := c\<rparr>) = user_byte s" "vm_inv base D fl (s\<lparr>cr3 := c\<rparr>) = vm_inv base D fl s"
  "kern_inv base k (s\<lparr>cr3 := c\<rparr>) = kern_inv base k s" "entry (s\<lparr>cr3 := c\<rparr>) = entry s"
proof -
  show a: "aspace (s\<lparr>cr3 := c\<rparr>) = aspace s"
    by (simp add: fun_eq_iff aspace_def live_def dir_frame_def vmap_def pte_def entry_def)
  show "live (s\<lparr>cr3 := c\<rparr>) = live s" "dir_frame (s\<lparr>cr3 := c\<rparr>) = dir_frame s" "entry (s\<lparr>cr3 := c\<rparr>) = entry s"
    by (simp_all add: fun_eq_iff live_def dir_frame_def entry_def)
  show "live_dirs (s\<lparr>cr3 := c\<rparr>) = live_dirs s"
    by (simp add: live_dirs_def live_def)
  show "amaps (s\<lparr>cr3 := c\<rparr>) = amaps s" "user_byte (s\<lparr>cr3 := c\<rparr>) = user_byte s"
    by (simp_all add: amaps_def user_byte_def a fun_eq_iff)
  show "vm_inv base D fl (s\<lparr>cr3 := c\<rparr>) = vm_inv base D fl s"
    by (rule vm_cong(6)) simp_all
  show "kern_inv base k (s\<lparr>cr3 := c\<rparr>) = kern_inv base k s"
    by (auto intro: kern_inv_env simp: env_same_def)
qed

lemma seg_pages_bound:
  assumes "seg_ok base s binary ph" "pn \<in> set (seg_pages s ph)"
  shows "unat pn < 0xEEBFD"
proof -
  have "kld s ph = ELF_PROG_LOAD" "pn \<in> set (region_pns (p_va s ph) (p_memsz s ph))"
    using assms(2) by (simp_all add: seg_pages_def split: if_splits)
  moreover from this have "unat (p_va s ph) + unat (p_memsz s ph) \<le> 0xEEBFD000"
    using assms(1) by (simp add: seg_ok_def)
  ultimately show ?thesis
    using region_pns_bound(3) [of "p_va s ph" "p_memsz s ph" pn] by simp
qed

lemma stack_pns: "region_pns (USTACKTOP - PGSIZE) PGSIZE = [stack_page]" "unat stack_page = 0xEEBFD"
  by (simp_all add: region_pns_def stack_page_def layout PGNUM_def)

lemma load_stack_run:
  assumes ld: "loading base k e s" and v: "vm_inv base (live_dirs s) fl s" "2 \<le> length fl" and free: "aspace s e stack_page = None"
  shows "\<exists>t s1 s' fl'. region_alloc s e (USTACKTOP - PGSIZE) PGSIZE = Some (t, s1) \<and> t \<noteq> 0 \<and> envs s1 = envs s \<and>
    va_write_list (USTACKTOP - PGSIZE) (replicate 4096 0) s1 = Some s' \<and> loading base k e s' \<and> grows base s s' \<and>
    vm_inv base (live_dirs s') fl' s' \<and> length fl \<le> length fl' + 2 \<and> mapped_more s s' e {stack_page} \<and>
    (\<forall>j<4096. user_byte s' e (USTACKTOP - PGSIZE + word_of_nat j) = Some 0)"
proof -
  let ?stk = "USTACKTOP - PGSIZE" and ?zs = "replicate 4096 (0 :: u8)"
  have stk: "unat ?stk + unat PGSIZE \<le> 0xEEBFE000" "PGSIZE \<noteq> 0" "unat PGSIZE = 4096" "unat ?stk + length ?zs \<le> unat UTOP"
    by (simp_all add: layout)
  have n: "2 * length (region_pns ?stk PGSIZE) \<le> length fl"
    using v(2) by (simp add: stack_pns)
  obtain t s1 fl1 where s1: "region_alloc s e ?stk PGSIZE = Some (t, s1)" "t \<noteq> 0" "loading base k e s1" "grows base s s1"
    "vm_inv base (live_dirs s1) fl1 s1" "length fl \<le> length fl1 + 2" "mapped_more s s1 e {stack_page}"
    using region_alloc_run [OF ld v(1) stk(1) n] stk(2) free by (auto simp: stack_pns)
  have pg: "PGNUM a = stack_page" if "unat ?stk \<le> unat a" "unat a < unat ?stk + length ?zs" for a
    using region_pns_addr [OF stk(1), of a] that stk(3) by (simp add: stack_pns)
  have us: "unat (?stk + word_of_nat j) = unat ?stk + j" if "j < 4096" for j
    using that by (simp add: unat_word_ariths unat_of_nat layout)
  have m: "aspace s1 e (PGNUM (?stk + word_of_nat j)) \<noteq> None" if "j < length ?zs" for j
    using mapped_moreD(1) [OF s1(7), of stack_page] pg [of "?stk + word_of_nat j"] us [of j] that by simp
  obtain s2 where s2: "va_write_list ?stk ?zs s1 = Some s2" "loading base k e s2" "mm_frame s1 s2" "kern_same base s1 s2" "aspace s2 = aspace s1"
    "vm_inv base (live_dirs s2) fl1 s2" and u2: "\<And>e' va'. user_byte s2 e' va' =
      (if e' = e \<and> unat ?stk \<le> unat va' \<and> unat va' < unat ?stk + length ?zs then Some (?zs ! (unat va' - unat ?stk)) else user_byte s1 e' va')"
    using va_write_list_run [OF s1(3,5) stk(4) m] by blast
  have g: "grows base s s2"
    unfolding grows_def
  proof (intro conjI allI impI)
    show "mm_frame s s2" "kern_same base s s2"
      using s1(4) mm_frame_trans [OF _ s2(3)] kern_same_trans [OF _ s2(4)] by (simp_all add: grows_def)
    fix e' va assume a: "aspace s e' (PGNUM va) \<noteq> None"
    then have "\<not> (e' = e \<and> unat ?stk \<le> unat va \<and> unat va < unat ?stk + length ?zs)"
      using pg free by auto
    then show "user_byte s2 e' va = user_byte s e' va"
      using u2 [of e' va] s1(4) a by (auto simp: grows_def)
  qed
  have "mapped_more s s2 e {stack_page}"
    using s1(7) by (simp add: mapped_more_def s2(5))
  moreover have "user_byte s2 e (?stk + word_of_nat j) = Some 0" if "j < 4096" for j
    using u2 [of e "?stk + word_of_nat j"] us [OF that] that by simp
  moreover have "envs s1 = envs s"
    using s1(4) by (simp add: grows_def mm_frame_def)
  ultimately show ?thesis
    using s1(1,2,6) s2(1,2,6) g by blast
qed

lemma load_icode_run:
  assumes inv: "kern_inv base k s" and e: "live s e" "aspace s e = (\<lambda>_. None)" "tf_esp (env_tf (envs s e)) = USTACKTOP"
    and v: "vm_inv base (live_dirs s) fl s" and same: "kern_same base s0 s" and ok: "elf_ok base s0 binary"
    and fl: "2 * elf_pages s0 binary + 2 \<le> length fl"
  shows "\<exists>s' fl'. load_icode s e binary = Some s' \<and> kern_inv base k s' \<and> kern_same base s s' \<and>
    mm_frame (upd_env e (\<lambda>v. v\<lparr>env_tf := (env_tf v)\<lparr>tf_eip := kld s0 (binary + 24)\<rparr>\<rparr>) s\<lparr>cr3 := page2pa k\<rparr>) s' \<and>
    mapped_more s s' e (elf_pns s0 binary) \<and> (\<forall>pn x. aspace s' e pn = Some x \<longrightarrow> own_page s' e pn x) \<and> elf_loaded s0 s' e binary \<and>
    (\<forall>e' va. e' \<noteq> e \<longrightarrow> user_byte s' e' va = user_byte s e' va) \<and>
    vm_inv base (live_dirs s') fl' s' \<and> length fl \<le> length fl' + 2 * elf_pages s0 binary + 2"
proof -
  let ?d = "dir_frame s e" and ?phs = "elf_phs s0 binary" and ?stk = "USTACKTOP - PGSIZE"
  note D = dir_frame_live [OF inv e(1)]
  have d: "?d < 65536"
    using vm_dir(1) [OF v D(1)] .
  have hb: "held base binary 52" and segs: "\<forall>ph \<in> set ?phs. seg_ok base s0 binary ph"
    and dis: "sorted_wrt (\<lambda>p q. set (seg_pages s0 p) \<inter> set (seg_pages s0 q) = {}) ?phs"
    using ok by (simp_all add: elf_ok_def)
  have hd: "kld s binary = ELF_MAGIC" "kld s (binary + 28) = kld s0 (binary + 28)" "kld16 s (binary + 44) = kld16 s0 (binary + 44)"
    using held_kld [OF same hb, of 0] held_kld [OF same hb, of 28] held_kld [OF same hb, of 44] ok by (simp_all add: elf_ok_def kld16_def)
  define s1 where "s1 = s\<lparr>cr3 := page2pa ?d\<rparr>"
  have ld1: "loading base k e s1" and v1: "vm_inv base (live_dirs s1) fl s1" and as1: "aspace s1 = aspace s" and k1: "kern_same base s0 s1"
    and ub1: "user_byte s1 = user_byte s"
    using inv e v same by (simp_all add: s1_def loading_def on_dir_def kern_same_def)
  have n1: "2 * (\<Sum>ph\<leftarrow>?phs. length (seg_pages s0 ph)) \<le> length fl"
    using fl by (simp add: elf_pages_def)
  obtain s2 fl2 where s2: "for_each (load_segment e binary) ?phs s1 = Some s2" "loading base k e s2" "grows base s1 s2" "vm_inv base (live_dirs s2) fl2 s2"
    "length fl \<le> length fl2 + 2 * (\<Sum>ph\<leftarrow>?phs. length (seg_pages s0 ph))" "mapped_more s1 s2 e (\<Union>ph \<in> set ?phs. set (seg_pages s0 ph))"
    "\<forall>ph \<in> set ?phs. seg_loaded s0 s2 e binary ph"
    using load_segments_run [OF ld1 v1 k1 segs dis n1] e(2) as1 by auto
  have "stack_page \<notin> (\<Union>ph \<in> set ?phs. set (seg_pages s0 ph))"
    using seg_pages_bound segs stack_pns(2) by fastforce
  then have free: "aspace s2 e stack_page = None"
    using mapped_moreD(3) [OF s2(6)] e(2) as1 by simp
  have fl2: "2 \<le> length fl2"
    using s2(5) fl by (simp add: elf_pages_def)
  obtain t s3 s4 fl4 where s4: "region_alloc s2 e ?stk PGSIZE = Some (t, s3)" "t \<noteq> 0" "envs s3 = envs s2" "va_write_list ?stk (replicate 4096 0) s3 = Some s4"
    "loading base k e s4" "grows base s2 s4" "vm_inv base (live_dirs s4) fl4 s4" "length fl2 \<le> length fl4 + 2" "mapped_more s2 s4 e {stack_page}"
    "\<forall>j<4096. user_byte s4 e (?stk + word_of_nat j) = Some 0"
    using load_stack_run [OF s2(2,4) fl2 free] by blast
  have g: "grows base s1 s4"
    by (rule grows_trans [OF s2(3) s4(6)])
  have inv4: "kern_inv base k s4"
    using s4(5) by (simp add: loading_def)
  let ?f = "\<lambda>v. v\<lparr>env_tf := (env_tf v)\<lparr>tf_eip := kld s0 (binary + 24)\<rparr>\<rparr>"
  define s' where "s' = upd_env e ?f s4\<lparr>cr3 := page2pa k\<rparr>"
  have es: "envs s4 = envs s" "envs s2 = envs s"
    using g s2(3) by (simp_all add: grows_def mm_frame_def s1_def)
  have k4: "kern_same base s s4" "kern_same base s0 s4"
    using g k1 kern_same_trans by (auto simp: grows_def s1_def kern_same_def)
  have kp: "kern_pgdir s4 = kpage k" "k < 65536"
    using inv4 vm_invD(9) [OF s4(7)] by (auto simp: kern_inv_def mem_ok_def kern_template_def)
  have run: "load_icode s e binary = Some s'"
    using hd D(2) d s2(1) s4(1-4) es e(3) held_kld [OF k4(2) hb, of 24] kp
    by (simp add: load_icode_def PADDR_kpage elf_phs_def s1_def s'_def)
  have "env_same (envs s4 e) (?f (envs s4 e))"
    by (simp add: env_same_def)
  note U = upd_env_keeps [where f = ?f, OF inv4 this]
  have as': "aspace s' = aspace s4" "dir_frame s' = dir_frame s4" "entry s' = entry s4" "pmem s' = pmem s4" "live_dirs s' = live_dirs s4"
    using U(2,4) by (auto simp: s'_def dir_frame_def entry_def fun_eq_iff live_dirs_def)
  then have ub: "user_byte s' = user_byte s4" "amaps s' = amaps s4"
    by (simp_all add: user_byte_def amaps_def fun_eq_iff)
  have mp: "mapped_more s s' e (elf_pns s0 binary)"
    using mapped_more_trans [OF s2(6) s4(9)] as1 as'(1) by (simp add: mapped_more_def elf_pns_def)
  have "user_byte s' e' va = user_byte s e' va" if "e' \<noteq> e" for e' va
  proof (cases "aspace s e' (PGNUM va)")
    case None
    with mapped_moreD(2) [OF mp that] show ?thesis by (simp add: user_byte_def)
  next
    case (Some x)
    with g as1 ub ub1 show ?thesis by (simp add: grows_def)
  qed
  moreover have "elf_loaded s0 s' e binary"
    using s2(7) seg_loaded_grows [OF _ s4(6)] s4(10) by (simp add: elf_loaded_def seg_loaded_def ub)
  moreover have "own_page s' e pn x" if "aspace s' e pn = Some x" for pn x
    using s4(5) that by (simp add: loading_def own_page_def as' ub)
  moreover have "mm_frame (upd_env e ?f s\<lparr>cr3 := page2pa k\<rparr>) s'"
    using g by (simp add: grows_def mm_frame_def s'_def s1_def upd_env_def)
  moreover have "vm_inv base (live_dirs s') fl4 s'"
    using s4(7) unfolding as' by (simp add: s'_def vm_cong(6) [of "upd_env e ?f s4" s4])
  moreover have "kern_inv base k s'" "kern_same base s s'"
    using U(1) k4(1) as'(3) by (simp_all add: s'_def kern_same_def)
  ultimately show ?thesis
    using run mp s2(5) s4(8) by (intro exI [of _ s'] exI [of _ fl4]) (simp add: elf_pages_def)
qed

subsection \<open>Creating an environment\<close>

lemma env_alloc_ready:
  assumes inv: "kern_inv base k s" and e: "env_free_list s = Some e" and v: "vm_inv base (live_dirs s) (p # ys) s"
  shows "\<exists>s1. env_alloc s par = Some (0, Some e, s1) \<and> kern_inv base k s1 \<and> live s1 e \<and> \<not> live s e \<and> aspace s1 = (aspace s)(e := \<lambda>_. None) \<and>
    vm_inv base (live_dirs s1) ys s1 \<and> kern_same base s s1 \<and> (\<forall>e' va. e' \<noteq> e \<longrightarrow> user_byte s1 e' va = user_byte s e' va) \<and>
    cpus s1 = cpus s \<and> cpunum s1 = cpunum s \<and> kernel_lock s1 = kernel_lock s"
proof -
  have k: "kern_template base k s"
    using inv by (simp add: kern_inv_def mem_ok_def)
  obtain s1 where s1: "env_alloc s par = Some (0, Some e, s1)" "vm_inv base (insert p (live_dirs s)) ys s1"
    "cpus s1 = cpus s" "cpunum s1 = cpunum s" "kernel_lock s1 = kernel_lock s"
    using env_alloc_run [OF v k e, of par] by blast
  have K: "kern_inv base k s1" "live s1 e" "\<not> live s e"
    using kern_inv_env_alloc [OF inv s1(1)] by auto
  note as = env_alloc_space [OF inv s1(1)] and o = env_alloc_other(1) [OF v k s1(1)] and P = vm_free_page [OF v, of p, simplified]
  obtain fl1 where v1: "vm_inv base (live_dirs s1) fl1 s1"
    using kern_inv_vm [OF K(1)] .
  have "fl1 = ys"
    by (rule free_list_unique [OF vm_invD(2) [OF s1(2)] vm_invD(2) [OF v1]])
  moreover have "kern_same base s s1"
    unfolding kern_same_def using o P(6) by (metis not_gr_zero)
  moreover have "user_byte s1 e' va = user_byte s e' va" if "e' \<noteq> e" for e' va
  proof (cases "aspace s e' (PGNUM va)")
    case None
    with that show ?thesis by (simp add: user_byte_def as)
  next
    case (Some x)
    have "frame x \<noteq> p"
      using P(5) aspace_frame(4) [OF inv Some] by auto
    then have "pmem s1 (PTE_ADDR x OR PGOFF va) = pmem s (PTE_ADDR x OR PGOFF va)"
      using page_byte_same [OF o PTE_ADDR_or_off] aspace_frame(1) [OF inv Some] by blast
    with Some that show ?thesis by (simp add: user_byte_def as)
  qed
  ultimately show ?thesis
    using s1 K as v1 by blast
qed

lemma env_create_run:
  assumes "kern_inv base k s" "env_free_list s = Some e" "elf_ok base s binary" "vm_inv base (live_dirs s) fl s" "2 * elf_pages s binary + 3 \<le> length fl"
  shows "\<exists>s' fl'. env_create s binary type = Some s' \<and> kern_inv base k s' \<and> \<not> live s e \<and> live s' e \<and>
    env_status (envs s' e) = ENV_RUNNABLE \<and> env_type (envs s' e) = type \<and> env_parent_id (envs s' e) = 0 \<and>
    tf_eip (env_tf (envs s' e)) = kld s (binary + 24) \<and> tf_esp (env_tf (envs s' e)) = USTACKTOP \<and> tf_cs (env_tf (envs s' e)) = GD_UT OR 3 \<and>
    elf_loaded s s' e binary \<and> (\<forall>pn. aspace s' e pn \<noteq> None \<longleftrightarrow> pn \<in> elf_pns s binary) \<and> (\<forall>pn x. aspace s' e pn = Some x \<longrightarrow> own_page s' e pn x) \<and>
    (\<forall>e'. e' \<noteq> e \<longrightarrow> envs s' e' = envs s e' \<and> aspace s' e' = aspace s e' \<and> (\<forall>va. user_byte s' e' va = user_byte s e' va)) \<and>
    env_free_list s' = env_links s e \<and> kern_same base s s' \<and> vm_inv base (live_dirs s') fl' s' \<and> length fl \<le> length fl' + 2 * elf_pages s binary + 3 \<and>
    cpus s' = cpus s \<and> cpunum s' = cpunum s \<and> kernel_lock s' = kernel_lock s"
proof -
  obtain p ys where fl: "fl = p # ys"
    using assms(5) by (cases fl) auto
  obtain s1 where s1: "env_alloc s 0 = Some (0, Some e, s1)" "kern_inv base k s1" "live s1 e" "\<not> live s e" "aspace s1 = (aspace s)(e := \<lambda>_. None)"
    "vm_inv base (live_dirs s1) ys s1" "kern_same base s s1" "\<And>e' va. e' \<noteq> e \<Longrightarrow> user_byte s1 e' va = user_byte s e' va"
    "cpus s1 = cpus s" "cpunum s1 = cpunum s" "kernel_lock s1 = kernel_lock s"
    using env_alloc_ready [OF assms(1,2) assms(4) [unfolded fl]] by blast
  note S = env_alloc_sel [OF s1(1)]
  have k: "kern_template base k s"
    using assms(1) by (simp add: kern_inv_def mem_ok_def)
  note esp = env_alloc_other(2) [OF assms(4) [unfolded fl] k s1(1)]
  have n: "2 * elf_pages s binary + 2 \<le> length ys"
    using assms(5) fl by simp
  let ?f = "\<lambda>v. v\<lparr>env_tf := (env_tf v)\<lparr>tf_eip := kld s (binary + 24)\<rparr>\<rparr>" and ?g = "\<lambda>v. v\<lparr>env_type := type, env_parent_id := 0\<rparr>"
  obtain s2 fl2 where s2: "load_icode s1 e binary = Some s2" "kern_inv base k s2" "kern_same base s1 s2"
    "mm_frame (upd_env e ?f s1\<lparr>cr3 := page2pa k\<rparr>) s2" "mapped_more s1 s2 e (elf_pns s binary)"
    "\<forall>pn x. aspace s2 e pn = Some x \<longrightarrow> own_page s2 e pn x" "elf_loaded s s2 e binary" "\<And>e' va. e' \<noteq> e \<Longrightarrow> user_byte s2 e' va = user_byte s1 e' va"
    "vm_inv base (live_dirs s2) fl2 s2" "length ys \<le> length fl2 + 2 * elf_pages s binary + 2"
    using load_icode_run [OF s1(2,3) _ esp s1(6,7) assms(3) n] s1(5) by auto
  define s' where "s' = upd_env e ?g s2"
  have run: "env_create s binary type = Some s'"
    using s1(1) s2(1) by (simp add: env_create_def s'_def)
  have "env_same (envs s2 e) (?g (envs s2 e))"
    by (simp add: env_same_def)
  note U = upd_env_keeps [where f = ?g, OF s2(2) this]
  have as: "aspace s' = aspace s2" "live s' = live s2" "dir_frame s' = dir_frame s2" "entry s' = entry s2" "pmem s' = pmem s2" "live_dirs s' = live_dirs s2"
    using U(2,4) by (auto simp: s'_def dir_frame_def entry_def fun_eq_iff live_dirs_def)
  then have ub: "user_byte s' = user_byte s2" "amaps s' = amaps s2"
    by (simp_all add: user_byte_def amaps_def fun_eq_iff)
  have E: "envs s' = (envs s1)(e := ?g (?f (envs s1 e)))" "env_free_list s' = env_links s e" "cpus s' = cpus s" "cpunum s' = cpunum s" "kernel_lock s' = kernel_lock s"
    using s2(4) S(2) s1(9-11) by (simp_all add: mm_frame_def s'_def upd_env_def)
  have "live s' e"
    using s1(3) by (simp add: live_def E(1))
  moreover have "aspace s' e pn \<noteq> None \<longleftrightarrow> pn \<in> elf_pns s binary" for pn
    using s2(5) s1(5) by (simp add: mapped_more_def as)
  moreover have "aspace s' e' = aspace s e'" if "e' \<noteq> e" for e'
    using mapped_moreD(2) [OF s2(5) that] s1(5) that by (simp add: as)
  moreover have "vm_inv base (live_dirs s') fl2 s'"
    unfolding as(6) using s2(9) by (simp add: s'_def vm_cong(6) [of "upd_env e ?g s2" s2])
  moreover have "kern_same base s s'"
    using kern_same_trans [OF s1(7) s2(3)] by (simp add: kern_same_def as)
  moreover have "elf_loaded s s' e binary" "\<forall>pn x. aspace s' e pn = Some x \<longrightarrow> own_page s' e pn x"
    using s2(6,7) by (simp_all add: elf_loaded_def seg_loaded_def own_page_def as ub)
  moreover have "user_byte s' e' va = user_byte s e' va" if "e' \<noteq> e" for e' va
    using s2(8) [OF that] s1(8) [OF that] by (simp add: ub)
  ultimately show ?thesis
    using run U(1) s1(4) s2(10) S(3,6,11) esp E fl unfolding s'_def [symmetric]
    by (intro exI [of _ s'] exI [of _ fl2]) simp
qed

text \<open>C15. \<^verbatim>\<open>env_create\<close>, with a free environment, an image that the kernel holds and enough memory, does not panic. The new environment is
  runnable with the given type and no parent, will start at the entry point in user mode with an empty stack, and finds every loadable segment
  at its address, with the bytes of the file followed by zeros. It has exactly the pages of its segments and its stack, all of them writable
  and its own. The invariant of the kernel holds; other environments, their mappings and their memory are as before.\<close>

theorem env_create_loads:
  assumes "kern_inv base k s" "env_free_list s = Some e" "elf_ok base s binary" "vm_inv base (live_dirs s) fl s" "2 * elf_pages s binary + 3 \<le> length fl"
  shows "\<exists>s' fl'. env_create s binary type = Some s' \<and> kern_inv base k s' \<and> \<not> live s e \<and> live s' e \<and>
    env_status (envs s' e) = ENV_RUNNABLE \<and> env_type (envs s' e) = type \<and> env_parent_id (envs s' e) = 0 \<and>
    tf_eip (env_tf (envs s' e)) = kld s (binary + 24) \<and> tf_esp (env_tf (envs s' e)) = USTACKTOP \<and> tf_cs (env_tf (envs s' e)) = GD_UT OR 3 \<and>
    elf_loaded s s' e binary \<and> (\<forall>pn. aspace s' e pn \<noteq> None \<longleftrightarrow> pn \<in> elf_pns s binary) \<and> (\<forall>pn x. aspace s' e pn = Some x \<longrightarrow> own_page s' e pn x) \<and>
    (\<forall>e'. e' \<noteq> e \<longrightarrow> envs s' e' = envs s e' \<and> aspace s' e' = aspace s e' \<and> (\<forall>va. user_byte s' e' va = user_byte s e' va)) \<and>
    env_free_list s' = env_links s e \<and> kern_same base s s' \<and> vm_inv base (live_dirs s') fl' s' \<and> length fl \<le> length fl' + 2 * elf_pages s binary + 3 \<and>
    cpus s' = cpus s \<and> cpunum s' = cpunum s \<and> kernel_lock s' = kernel_lock s"
  by (rule env_create_run [OF assms])

subsection \<open>A program of one segment\<close>

text \<open>Stores of the kernel into a page it holds.\<close>

lemma kern_inv_kernel_write:
  assumes inv: "kern_inv base k s" and v: "vm_inv base (live_dirs s) fl s" and q: "q \<noteq> k" "q \<notin> live_dirs s" "tabset s (live_dirs s) q = {}"
    and s': "s' = s\<lparr>pmem := m\<rparr>" and other: "\<And>f i. f < 65536 \<Longrightarrow> f \<noteq> q \<Longrightarrow> unat i < 1024 \<Longrightarrow> entry s' f i = entry s f i"
  shows "kern_inv base k s'" "vm_inv base (live_dirs s') fl s'"
proof -
  have V: "vm_inv base (live_dirs s) fl s'" "same_ptes s s' (live_dirs s)"
    using vm_inv_page_write [OF v q(2,3) s' other] by blast+
  have d: "live_dirs s' = live_dirs s" "envs_ok s' = envs_ok s"
    using envs_same [of s s'] by (simp_all add: s' env_same_def)
  have "kern_template base k s"
    using inv by (simp add: kern_inv_def mem_ok_def)
  then have "kern_template base k s'"
    using other [of k] q(1) vm_invD(9) [OF v] user_pdx_less by (auto simp: kern_template_def s')
  moreover have "mapset s' (live_dirs s) = mapset s (live_dirs s)"
    using mapset_same_ptes [OF V(2)] by blast
  ultimately show "kern_inv base k s'" "vm_inv base (live_dirs s') fl s'"
    using inv V(1) d by (auto simp: kern_inv_def mem_ok_def)
qed

definition demo_free :: kstate where
  "demo_free = page_free (page_free (page_free demo_run (Some 5)) (Some 6)) (Some 7)"

definition demo_words :: "u32 list" where
  "demo_words = [ELF_MAGIC, 0, 0, 0, 0, 0, 0x800002, 52, 0, 0, 0, 1, 0, 1, 80, 0x800000, 0, 4, 8, 0, 0xDEADBEEF]"

definition demo_elf :: kstate where
  "demo_elf = write_words 4 0 demo_words demo_free"

lemma kern_inv_page_free:
  assumes inv: "kern_inv base k s" and v: "vm_inv base (live_dirs s) fl s" and p: "p < unat (npages s)" "pp_ref (pages s p) = 0" "p \<notin> set fl"
  shows "kern_inv base k (page_free s (Some p))" "vm_inv base (live_dirs (page_free s (Some p))) (p # fl) (page_free s (Some p))"
    "live_dirs (page_free s (Some p)) = live_dirs s"
proof -
  note mm = page_free_mm_frame [of s "Some p"]
  have V: "vm_inv base (live_dirs s) (p # fl) (page_free s (Some p))"
    by (rule vm_inv_page_free [OF v p])
  have e: "entry (page_free s (Some p)) = entry s"
    by (rule entry_pmem_cong) simp
  have ok: "mem_ok base k (live_dirs s) s"
    using inv by (simp add: kern_inv_def)
  have "mem_ok base k (live_dirs s) (page_free s (Some p))"
    by (rule mem_ok_same_ptes [OF ok V _ kern_same_entry [OF e] mm]) (simp add: same_ptes_def pte_cong(1) [OF e])
  then show "kern_inv base k (page_free s (Some p))"
    by (rule kern_inv_mm [OF inv mm])
  show l: "live_dirs (page_free s (Some p)) = live_dirs s"
    using mm_frame_live [OF mm] by simp
  show "vm_inv base (live_dirs (page_free s (Some p))) (p # fl) (page_free s (Some p))"
    using V by (simp only: l)
qed

lemma demo_free_ok: "kern_inv demo_base 0 demo_free" "vm_inv demo_base {1} [7, 6, 5, 2, 3] demo_free" "live_dirs demo_free = {1}"
  "env_free_list demo_free = Some 1" "npages demo_free = 8" "entry demo_free f i = 0"
proof -
  have v0: "vm_inv demo_base (live_dirs demo_run) [2, 3] demo_run"
    using demo_run_vm_inv demo_run_live(2) by simp
  define s1 where "s1 = page_free demo_run (Some 5)"
  define s2 where "s2 = page_free s1 (Some 6)"
  have r: "unat (8 :: u32) = 8"
    by simp
  note F1 = kern_inv_page_free [OF demo_run_kern_inv v0, of 5, folded s1_def]
  have 1: "kern_inv demo_base 0 s1" "vm_inv demo_base (live_dirs s1) [5, 2, 3] s1" "live_dirs s1 = {1}" "npages s1 = 8"
    "pages s1 = (pages demo_run)(5 := (pages demo_run 5)\<lparr>pp_link := page_free_list demo_run\<rparr>)" "env_free_list s1 = Some 1"
    using F1 demo_run_live(2) page_free_sel(2) [OF vm_invD(1) [OF v0], of 5] mm_frame_sel(1,4) [OF page_free_mm_frame [of demo_run "Some 5"]]
    by (simp_all add: demo_pages_def s1_def)
  note F2 = kern_inv_page_free [OF 1(1,2), of 6, folded s2_def]
  have 2: "kern_inv demo_base 0 s2" "vm_inv demo_base (live_dirs s2) [6, 5, 2, 3] s2" "live_dirs s2 = {1}" "npages s2 = 8"
    "pages s2 = (pages s1)(6 := (pages s1 6)\<lparr>pp_link := page_free_list s1\<rparr>)" "env_free_list s2 = Some 1"
    using F2 1 page_free_sel(2) [OF vm_invD(1) [OF 1(2)], of 6] mm_frame_sel(1,4) [OF page_free_mm_frame [of s1 "Some 6"]]
    by (simp_all add: demo_pages_def s2_def)
  note F3 = kern_inv_page_free [OF 2(1,2), of 7]
  have d: "demo_free = page_free s2 (Some 7)"
    by (simp add: demo_free_def s1_def s2_def)
  show "kern_inv demo_base 0 demo_free" "vm_inv demo_base {1} [7, 6, 5, 2, 3] demo_free" "live_dirs demo_free = {1}"
    "env_free_list demo_free = Some 1" "npages demo_free = 8"
    using F3 1 2 mm_frame_sel(1,4) [OF page_free_mm_frame [of s2 "Some 7"]] by (simp_all add: demo_pages_def d)
  have "pmem demo_free = pmem demo"
    by (simp add: demo_free_def demo_run_def)
  then show "entry demo_free f i = 0"
    using entry_pmem_cong by (metis demo_entry)
qed

lemma write_words_other:
  assumes "q < 65536" "i + length ws \<le> 1024" "f < 65536" "f \<noteq> q" "unat j < 1024"
  shows "entry (write_words q i ws s) f j = entry s f j"
  using assms
proof (induction ws arbitrary: i s)
  case (Cons w ws)
  have "unat (word_of_nat i :: u32) < 1024"
    using Cons.prems(2) by (simp add: unat_of_nat)
  then show ?case
    using Cons.IH [of "i + 1"] Cons.prems entry_kst [OF Cons.prems(1,3) _ Cons.prems(5)] by simp
qed simp

lemma demo_elf_ok: "kern_inv demo_base 0 demo_elf" "vm_inv demo_base (live_dirs demo_elf) [7, 6, 5, 2, 3] demo_elf" "env_free_list demo_elf = Some 1"
proof -
  obtain m where m: "demo_elf = demo_free\<lparr>pmem := m\<rparr>"
    unfolding demo_elf_def using write_words_pmem by blast
  have o: "entry demo_elf f i = entry demo_free f i" if "f < 65536" "f \<noteq> 4" "unat i < 1024" for f i
    unfolding demo_elf_def by (rule write_words_other) (use that in \<open>simp_all add: demo_words_def\<close>)
  have v: "vm_inv demo_base (live_dirs demo_free) [7, 6, 5, 2, 3] demo_free"
    using demo_free_ok(2,3) by simp
  have q: "4 \<notin> live_dirs demo_free" "tabset demo_free (live_dirs demo_free) 4 = {}" "4 \<noteq> (0 :: nat)"
    using demo_free_ok(3,6) by (auto simp: tabset_def present_def)
  show "kern_inv demo_base 0 demo_elf" "vm_inv demo_base (live_dirs demo_elf) [7, 6, 5, 2, 3] demo_elf"
    using kern_inv_kernel_write [OF demo_free_ok(1) v q(3,1,2) m o] by blast+
  show "env_free_list demo_elf = Some 1"
    using demo_free_ok(4) by (simp add: m)
qed

lemma demo_elf_word: "n < 21 \<Longrightarrow> kld demo_elf (0xF0004000 + 4 * word_of_nat n) = demo_words ! n"
  using kld_kpage [of demo_elf 4 "word_of_nat n"] write_words_entry [of 4 0 demo_words n demo_free]
  by (simp add: demo_elf_def demo_words_def slot_def kpage_def page2pa_def layout)

lemma demo_elf_words:
  "kld demo_elf 0xF0004000 = ELF_MAGIC" "kld demo_elf 0xF0004018 = 0x800002" "kld demo_elf 0xF000401C = 52" "kld demo_elf 0xF000402C = 1"
  "kld demo_elf 0xF0004034 = 1" "kld demo_elf 0xF0004038 = 80" "kld demo_elf 0xF000403C = 0x800000" "kld demo_elf 0xF0004044 = 4"
  "kld demo_elf 0xF0004048 = 8" "kld demo_elf 0xF0004050 = 0xDEADBEEF"
  using demo_elf_word [of 0] demo_elf_word [of 6] demo_elf_word [of 7] demo_elf_word [of 11] demo_elf_word [of 13] demo_elf_word [of 14]
    demo_elf_word [of 15] demo_elf_word [of 17] demo_elf_word [of 18] demo_elf_word [of 20]
  by (simp_all add: demo_words_def)

lemma demo_held:
  assumes "0x4000 \<le> unat (a - KERNBASE)" "unat (a - KERNBASE) + n \<le> 0x5000"
  shows "held demo_base a n"
  unfolding held_def
proof (intro allI impI)
  fix j assume "j < n"
  then have u: "unat (a - KERNBASE + word_of_nat j) = unat (a - KERNBASE) + j"
    using assms by (simp add: unat_word_ariths unat_of_nat)
  have "(unat (a - KERNBASE) + j) div 4096 = 4"
    using assms \<open>j < n\<close> by (intro div_nat_eqI) auto
  then show "let p = unat (PGNUM (a - KERNBASE + word_of_nat j)) in p < 65536 \<and> demo_base p \<noteq> 0"
    by (simp add: unat_PGNUM u demo_base_def)
qed

lemma demo_elf_image: "elf_ok demo_base demo_elf 0xF0004000" "elf_phs demo_elf 0xF0004000 = [0xF0004034]" "seg_pages demo_elf 0xF0004034 = [0x800]"
  "elf_pages demo_elf 0xF0004000 = 1"
proof -
  note W = demo_elf_words
  show p: "elf_phs demo_elf 0xF0004000 = [0xF0004034]"
    by (simp add: elf_phs_def kld16_def W)
  show s: "seg_pages demo_elf 0xF0004034 = [0x800]"
    by (simp add: seg_pages_def W region_pns_def layout)
  show "elf_pages demo_elf 0xF0004000 = 1"
    by (simp add: elf_pages_def p s)
  have "seg_ok demo_base demo_elf 0xF0004000 0xF0004034"
    using demo_held [of "0xF0004034" 32] demo_held [of "0xF0004050" 4] by (simp add: seg_ok_def W layout)
  then show "elf_ok demo_base demo_elf 0xF0004000"
    using demo_held [of "0xF0004000" 52] by (simp add: elf_ok_def p W layout)
qed

theorem env_create_loads_witness:
  "\<exists>s'. env_create demo_elf 0xF0004000 ENV_TYPE_USER = Some s' \<and> kern_inv demo_base 0 s' \<and> tf_eip (env_tf (envs s' 1)) = 0x800002 \<and>
    user_byte s' 1 0x800003 = Some 0xDE \<and> user_byte s' 1 0x800007 = Some 0"
proof -
  note W = demo_elf_words
  obtain s' where s': "env_create demo_elf 0xF0004000 ENV_TYPE_USER = Some s'" "kern_inv demo_base 0 s'" "tf_eip (env_tf (envs s' 1)) = 0x800002"
    "elf_loaded demo_elf s' 1 0xF0004000"
    using env_create_loads [OF demo_elf_ok(1,3) demo_elf_image(1) demo_elf_ok(2), of ENV_TYPE_USER] demo_elf_image(4) W by auto
  then have "seg_loaded demo_elf s' 1 0xF0004000 0xF0004034"
    by (simp add: elf_loaded_def demo_elf_image(2))
  then have b: "user_byte s' 1 (0x800000 + word_of_nat j) = Some (if j < 4 then pmem demo_elf (0x4050 + word_of_nat j) else 0)" if "j < 8" for j
    using that by (simp add: seg_loaded_def W layout)
  have "rd32 (pmem demo_elf) 0x4050 = 0xDEADBEEF"
    using W(10) by (simp add: kld_def layout)
  then have "pmem demo_elf 0x4053 = 0xDE"
    using rd32_bytes(4) [of "pmem demo_elf" "0x4050"] by simp
  with b [of 3] b [of 7] s' show ?thesis
    by auto
qed

end
