(* ===== verification/Selftest.thy ===== *)
theory Selftest
  imports Env_Load
begin

section \<open>The self-tests of memory management\<close>

text \<open>
  The checking functions at the end of \<^verbatim>\<open>kern/pmap.c\<close>, which \<^verbatim>\<open>mem_init\<close> runs while it builds the kernel's address space, and
  \<^verbatim>\<open>mem_init\<close> with all of its steps. A failed assertion is \<^term>\<open>None\<close>.
\<close>

definition check :: "bool \<Rightarrow> unit option" where
  "check b = (if b then Some () else None)"

lemma check_simps [simp]: "check True = Some ()" "check False = None" "check b = Some u \<longleftrightarrow> b"
  by (simp_all add: check_def)

subsection \<open>\<^verbatim>\<open>check_page_free_list\<close>\<close>

text \<open>The places that the pointers \<^verbatim>\<open>tp[0]\<close> and \<^verbatim>\<open>tp[1]\<close> point to, and the variables \<^verbatim>\<open>pp1\<close> and \<^verbatim>\<open>pp2\<close> together with the state.\<close>

datatype cell = Pp1 | Pp2 | Link nat

type_synonym split_state = "nat option \<times> nat option \<times> kstate"

fun put_cell :: "cell \<Rightarrow> nat option \<Rightarrow> split_state \<Rightarrow> split_state" where
  "put_cell Pp1 v (pp1, pp2, s) = (v, pp2, s)"
| "put_cell Pp2 v (pp1, pp2, s) = (pp1, v, s)"
| "put_cell (Link p) v (pp1, pp2, s) = (pp1, pp2, upd_page p (\<lambda>pg. pg\<lparr>pp_link := v\<rparr>) s)"

partial_function (option) split_loop :: "u32 \<Rightarrow> nat option \<Rightarrow> cell \<Rightarrow> cell \<Rightarrow> split_state \<Rightarrow> (cell \<times> cell \<times> split_state) option" where
  "split_loop pdx_limit pp tp0 tp1 x =
     (case pp of
        None \<Rightarrow> Some (tp0, tp1, x)
      | Some p \<Rightarrow>
          if pdx_limit \<le> PDX (page2pa p)
          then (case put_cell tp1 (Some p) x of (pp1, pp2, s) \<Rightarrow> split_loop pdx_limit (pp_link (pages s p)) tp0 (Link p) (pp1, pp2, s))
          else (case put_cell tp0 (Some p) x of (pp1, pp2, s) \<Rightarrow> split_loop pdx_limit (pp_link (pages s p)) (Link p) tp1 (pp1, pp2, s)))"

text \<open>\<open>u1\<close> and \<open>u2\<close> are what the two variables hold before they are assigned.\<close>

definition low_first :: "u32 \<Rightarrow> nat option \<Rightarrow> nat option \<Rightarrow> kstate \<Rightarrow> kstate option" where
  "low_first pdx_limit u1 u2 s =
     do {
       (tp0, tp1, x) \<leftarrow> split_loop pdx_limit (page_free_list s) Pp1 Pp2 (u1, u2, s);
       let (pp1, pp2, s1) = put_cell tp1 None x;
       let (pp1', _, s2) = put_cell tp0 pp2 (pp1, pp2, s1);
       Some (s2\<lparr>page_free_list := pp1'\<rparr>)
     }"

partial_function (option) poison_loop :: "u32 \<Rightarrow> nat option \<Rightarrow> kstate \<Rightarrow> kstate option" where
  "poison_loop pdx_limit pp s =
     (case pp of
        None \<Rightarrow> Some s
      | Some p \<Rightarrow> do {
          s1 \<leftarrow> (if PDX (page2pa p) < pdx_limit
                then do { kva \<leftarrow> page2kva s p; Some (s\<lparr>pmem := fill_bytes (pmem s) (kva - KERNBASE) 0x97 128\<rparr>) }
                else Some s);
          poison_loop pdx_limit (pp_link (pages s1 p)) s1
        })"

definition check_free_page :: "u32 \<Rightarrow> nat \<Rightarrow> kstate \<Rightarrow> unit option" where
  "check_free_page first_free_page p s =
     do {
       _ \<leftarrow> check (p < unat (npages s));
       _ \<leftarrow> check (page2pa p \<noteq> 0);
       _ \<leftarrow> check (page2pa p \<noteq> IOPHYSMEM);
       _ \<leftarrow> check (page2pa p \<noteq> EXTPHYSMEM - PGSIZE);
       _ \<leftarrow> check (page2pa p \<noteq> EXTPHYSMEM);
       _ \<leftarrow> (if page2pa p < EXTPHYSMEM then Some () else do { kva \<leftarrow> page2kva s p; check (first_free_page \<le> kva) });
       check (page2pa p \<noteq> MPENTRY_PADDR)
     }"

partial_function (option) count_loop :: "u32 \<Rightarrow> nat option \<Rightarrow> nat \<Rightarrow> nat \<Rightarrow> kstate \<Rightarrow> (nat \<times> nat) option" where
  "count_loop first_free_page pp nfree_basemem nfree_extmem s =
     (case pp of
        None \<Rightarrow> Some (nfree_basemem, nfree_extmem)
      | Some p \<Rightarrow> do {
          _ \<leftarrow> check_free_page first_free_page p s;
          (if page2pa p < EXTPHYSMEM then count_loop first_free_page (pp_link (pages s p)) (nfree_basemem + 1) nfree_extmem s
           else count_loop first_free_page (pp_link (pages s p)) nfree_basemem (nfree_extmem + 1) s)
        })"

definition check_page_free_list :: "u32 \<Rightarrow> nat option \<Rightarrow> nat option \<Rightarrow> bool \<Rightarrow> kstate \<Rightarrow> kstate option" where
  "check_page_free_list kend u1 u2 only_low_memory s =
     do {
       let pdx_limit = (if only_low_memory then 1 else 1024);
       _ \<leftarrow> check (page_free_list s \<noteq> None);
       s1 \<leftarrow> (if only_low_memory then low_first pdx_limit u1 u2 s else Some s);
       s2 \<leftarrow> poison_loop pdx_limit (page_free_list s1) s1;
       (first_free_page, s3) \<leftarrow> boot_alloc kend 0 s2;
       (nfree_basemem, nfree_extmem) \<leftarrow> count_loop first_free_page (page_free_list s3) 0 0 s3;
       _ \<leftarrow> check (0 < nfree_basemem);
       _ \<leftarrow> check (0 < nfree_extmem);
       Some s3
     }"

text \<open>The loop that moves the low pages to the front is a stable partition of the list, done in place: \<open>path f xs\<close> says that each cell of \<open>xs\<close>
  but the last is linked to the next one.\<close>

fun path :: "(nat \<Rightarrow> nat option) \<Rightarrow> nat list \<Rightarrow> bool" where
  "path f (x # y # xs) \<longleftrightarrow> f x = Some y \<and> path f (y # xs)"
| "path f _ \<longleftrightarrow> True"

lemma path_snoc: "path f (xs @ [y]) \<longleftrightarrow> path f xs \<and> (xs \<noteq> [] \<longrightarrow> f (last xs) = Some y)"
  by (induction f xs rule: path.induct) auto

lemma path_cong: "(\<And>x. x \<in> set (butlast xs) \<Longrightarrow> f x = g x) \<Longrightarrow> path f xs = path g xs"
  by (induction f xs rule: path.induct) auto

lemma path_upd: "x \<notin> set (butlast xs) \<Longrightarrow> path (f(x := v)) xs = path f xs"
  by (rule path_cong) auto

lemma path_linked: "path f xs \<Longrightarrow> xs \<noteq> [] \<Longrightarrow> linked f (f (last xs)) ys \<Longrightarrow> linked f (Some (hd xs)) (xs @ ys)"
  by (induction f xs rule: path.induct) auto

text \<open>\<open>tail_at f h c d xs\<close>: the variable at cell \<open>d\<close>, of value \<open>h\<close>, and the links lead through \<open>xs\<close> up to the cell \<open>c\<close>, which is still to be set.\<close>

definition tail_at :: "(nat \<Rightarrow> nat option) \<Rightarrow> nat option \<Rightarrow> cell \<Rightarrow> cell \<Rightarrow> nat list \<Rightarrow> bool" where
  "tail_at f h c d xs \<longleftrightarrow> path f xs \<and> (if xs = [] then c = d else h = Some (hd xs) \<and> c = Link (last xs))"

text \<open>\<open>relinked X s s'\<close>: only links of pages in \<open>X\<close> differ.\<close>

definition relinked :: "nat set \<Rightarrow> kstate \<Rightarrow> kstate \<Rightarrow> bool" where
  "relinked X s s' \<longleftrightarrow> (\<exists>g. s' = s\<lparr>pages := g\<rparr> \<and> (\<forall>q. paddr (g q) = paddr (pages s q) \<and> pp_ref (g q) = pp_ref (pages s q)) \<and>
     (\<forall>q. q \<notin> X \<longrightarrow> g q = pages s q))"

lemma relinked_refl [simp]: "relinked X s s"
  unfolding relinked_def by (intro exI [of _ "pages s"]) simp

lemma relinked_trans:
  assumes "relinked X s t" "relinked X t u"
  shows "relinked X s u"
proof -
  obtain g h where "t = s\<lparr>pages := g\<rparr>" "u = t\<lparr>pages := h\<rparr>"
    "\<And>q. paddr (g q) = paddr (pages s q) \<and> pp_ref (g q) = pp_ref (pages s q)" "\<And>q. q \<notin> X \<Longrightarrow> g q = pages s q"
    "\<And>q. paddr (h q) = paddr (pages t q) \<and> pp_ref (h q) = pp_ref (pages t q)" "\<And>q. q \<notin> X \<Longrightarrow> h q = pages t q"
    using assms unfolding relinked_def by blast
  then show ?thesis
    unfolding relinked_def by (intro exI [of _ h]) simp
qed

lemma relinked_upd: "p \<in> X \<Longrightarrow> relinked X s (upd_page p (\<lambda>pg. pg\<lparr>pp_link := v\<rparr>) s)"
  unfolding relinked_def by (intro exI [of _ "(pages s)(p := (pages s p)\<lparr>pp_link := v\<rparr>)"]) (auto simp: upd_page_def)

lemma page_links_upd: "page_links (upd_page p (\<lambda>pg. pg\<lparr>pp_link := v\<rparr>) s) = (page_links s)(p := v)"
  by (auto simp: page_links_def upd_page_def)

lemma tail_at_other: "p \<notin> set xs \<Longrightarrow> tail_at f h c d xs \<Longrightarrow> tail_at (f(p := v)) h c d xs"
  unfolding tail_at_def using path_upd [of p xs f v] by (auto dest: in_set_butlastD)

lemma tail_at_snoc:
  assumes "tail_at f h c d xs" "distinct xs" "p \<notin> set xs"
  shows "xs = [] \<Longrightarrow> tail_at f (Some p) (Link p) d (xs @ [p])" "xs \<noteq> [] \<Longrightarrow> tail_at (f(last xs := Some p)) h (Link p) d (xs @ [p])"
proof -
  show "xs = [] \<Longrightarrow> tail_at f (Some p) (Link p) d (xs @ [p])"
    by (simp add: tail_at_def)
  assume ne: "xs \<noteq> []"
  have "last xs \<notin> set (butlast xs)"
    using assms(2) ne by (metis distinct_butlast append_butlast_last_id distinct_append disjoint_iff list.set_intros(1))
  then have "path (f(last xs := Some p)) xs"
    using assms(1) by (simp add: tail_at_def path_upd)
  then show "tail_at (f(last xs := Some p)) h (Link p) d (xs @ [p])"
    using ne assms(1) by (simp add: tail_at_def path_snoc)
qed

lemma put_cell_run:
  assumes L: "tail_at (page_links s) pp1 tp0 Pp1 L" and H: "tail_at (page_links s) pp2 tp1 Pp2 H" and d: "distinct (L @ H @ p # rest)"
    and l: "linked (page_links s) (page_links s p) rest"
  shows "\<exists>pp1' s'. put_cell tp0 (Some p) (pp1, pp2, s) = (pp1', pp2, s') \<and> relinked (set L) s s' \<and> tail_at (page_links s') pp1' (Link p) Pp1 (L @ [p]) \<and>
      tail_at (page_links s') pp2 tp1 Pp2 H \<and> linked (page_links s') (page_links s' p) rest"
    "\<exists>pp2' s'. put_cell tp1 (Some p) (pp1, pp2, s) = (pp1, pp2', s') \<and> relinked (set H) s s' \<and> tail_at (page_links s') pp2' (Link p) Pp2 (H @ [p]) \<and>
      tail_at (page_links s') pp1 tp0 Pp1 L \<and> linked (page_links s') (page_links s' p) rest"
proof -
  have n: "p \<notin> set L" "p \<notin> set H" "distinct L" "distinct H" "L \<noteq> [] \<Longrightarrow> last L \<notin> set H" "H \<noteq> [] \<Longrightarrow> last H \<notin> set L"
    "L \<noteq> [] \<Longrightarrow> last L \<notin> set (p # rest)" "H \<noteq> [] \<Longrightarrow> last H \<notin> set (p # rest)"
    using d by (auto dest: last_in_set)
  show "\<exists>pp1' s'. put_cell tp0 (Some p) (pp1, pp2, s) = (pp1', pp2, s') \<and> relinked (set L) s s' \<and> tail_at (page_links s') pp1' (Link p) Pp1 (L @ [p]) \<and>
      tail_at (page_links s') pp2 tp1 Pp2 H \<and> linked (page_links s') (page_links s' p) rest"
  proof (cases "L = []")
    case True
    with L H l tail_at_snoc(1) [OF L n(3,1)] show ?thesis by (simp add: tail_at_def)
  next
    case False
    then have "tp0 = Link (last L)"
      using L by (simp add: tail_at_def)
    then show ?thesis
      using tail_at_snoc(2) [OF L n(3,1) False] tail_at_other [OF n(5) [OF False] H] relinked_upd [of "last L" "set L"] False n(7) l
      by (auto simp: page_links_upd)
  qed
  show "\<exists>pp2' s'. put_cell tp1 (Some p) (pp1, pp2, s) = (pp1, pp2', s') \<and> relinked (set H) s s' \<and> tail_at (page_links s') pp2' (Link p) Pp2 (H @ [p]) \<and>
      tail_at (page_links s') pp1 tp0 Pp1 L \<and> linked (page_links s') (page_links s' p) rest"
  proof (cases "H = []")
    case True
    with L H l tail_at_snoc(1) [OF H n(4,2)] show ?thesis by (simp add: tail_at_def)
  next
    case False
    then have "tp1 = Link (last H)"
      using H by (simp add: tail_at_def)
    then show ?thesis
      using tail_at_snoc(2) [OF H n(4,2) False] tail_at_other [OF n(6) [OF False] L] relinked_upd [of "last H" "set H"] False n(8) l
      by (auto simp: page_links_upd)
  qed
qed

lemma relinked_mono: "relinked X s s' \<Longrightarrow> X \<subseteq> Y \<Longrightarrow> relinked Y s s'"
  unfolding relinked_def by blast

lemma split_loop_run:
  assumes "linked (page_links s) pp rest" "distinct (L @ H @ rest)" "tail_at (page_links s) pp1 tp0 Pp1 L" "tail_at (page_links s) pp2 tp1 Pp2 H"
  shows "\<exists>tp0' tp1' pp1' pp2' s'. split_loop lim pp tp0 tp1 (pp1, pp2, s) = Some (tp0', tp1', pp1', pp2', s') \<and> relinked (set (L @ H @ rest)) s s' \<and>
    tail_at (page_links s') pp1' tp0' Pp1 (L @ filter (\<lambda>p. \<not> lim \<le> PDX (page2pa p)) rest) \<and>
    tail_at (page_links s') pp2' tp1' Pp2 (H @ filter (\<lambda>p. lim \<le> PDX (page2pa p)) rest)"
  using assms
proof (induction rest arbitrary: s pp pp1 pp2 tp0 tp1 L H)
  case Nil
  then show ?case
    by (subst split_loop.simps) simp
next
  case (Cons p rest)
  have pp: "pp = Some p" and l: "linked (page_links s) (page_links s p) rest"
    using Cons.prems(1) by simp_all
  note R = put_cell_run [OF Cons.prems(3,4,2) l]
  show ?case
  proof (cases "lim \<le> PDX (page2pa p)")
    case True
    obtain pp2' s1 where s1: "put_cell tp1 (Some p) (pp1, pp2, s) = (pp1, pp2', s1)" "relinked (set H) s s1" "tail_at (page_links s1) pp2' (Link p) Pp2 (H @ [p])"
      "tail_at (page_links s1) pp1 tp0 Pp1 L" "linked (page_links s1) (page_links s1 p) rest"
      using R(2) by blast
    have d: "distinct (L @ (H @ [p]) @ rest)"
      using Cons.prems(2) by auto
    from Cons.IH [OF s1(5) d s1(4,3)] obtain t0 t1 q1 q2 s' where
      s': "split_loop lim (page_links s1 p) tp0 (Link p) (pp1, pp2', s1) = Some (t0, t1, q1, q2, s')" "relinked (set (L @ (H @ [p]) @ rest)) s1 s'"
      "tail_at (page_links s') q1 t0 Pp1 (L @ filter (\<lambda>p. \<not> lim \<le> PDX (page2pa p)) rest)"
      "tail_at (page_links s') q2 t1 Pp2 ((H @ [p]) @ filter (\<lambda>p. lim \<le> PDX (page2pa p)) rest)"
      by blast
    have "relinked (set (L @ H @ p # rest)) s s'"
      by (rule relinked_trans [OF relinked_mono [OF s1(2)] relinked_mono [OF s'(2)]]) auto
    then show ?thesis
      using s' s1(1) True by (subst split_loop.simps) (simp add: pp page_links_def)
  next
    case False
    obtain pp1' s1 where s1: "put_cell tp0 (Some p) (pp1, pp2, s) = (pp1', pp2, s1)" "relinked (set L) s s1" "tail_at (page_links s1) pp1' (Link p) Pp1 (L @ [p])"
      "tail_at (page_links s1) pp2 tp1 Pp2 H" "linked (page_links s1) (page_links s1 p) rest"
      using R(1) by blast
    have d: "distinct ((L @ [p]) @ H @ rest)"
      using Cons.prems(2) by auto
    from Cons.IH [OF s1(5) d s1(3,4)] obtain t0 t1 q1 q2 s' where
      s': "split_loop lim (page_links s1 p) (Link p) tp1 (pp1', pp2, s1) = Some (t0, t1, q1, q2, s')" "relinked (set ((L @ [p]) @ H @ rest)) s1 s'"
      "tail_at (page_links s') q1 t0 Pp1 ((L @ [p]) @ filter (\<lambda>p. \<not> lim \<le> PDX (page2pa p)) rest)"
      "tail_at (page_links s') q2 t1 Pp2 (H @ filter (\<lambda>p. lim \<le> PDX (page2pa p)) rest)"
      by blast
    have "relinked (set (L @ H @ p # rest)) s s'"
      by (rule relinked_trans [OF relinked_mono [OF s1(2)] relinked_mono [OF s'(2)]]) auto
    then show ?thesis
      using s' s1(1) False by (subst split_loop.simps) (simp add: pp page_links_def)
  qed
qed

lemma low_first_run:
  assumes fl: "linked (page_links s) (page_free_list s) fl"
  shows "\<exists>s1 h. low_first lim u1 u2 s = Some (s1\<lparr>page_free_list := h\<rparr>) \<and> relinked (set fl) s s1 \<and>
    linked (page_links s1) h (filter (\<lambda>p. \<not> lim \<le> PDX (page2pa p)) fl @ filter (\<lambda>p. lim \<le> PDX (page2pa p)) fl)"
proof -
  define L where "L = filter (\<lambda>p. \<not> lim \<le> PDX (page2pa p)) fl"
  define H where "H = filter (\<lambda>p. lim \<le> PDX (page2pa p)) fl"
  obtain tp0 tp1 pp1 pp2 s1 where s1: "split_loop lim (page_free_list s) Pp1 Pp2 (u1, u2, s) = Some (tp0, tp1, pp1, pp2, s1)"
    "relinked (set fl) s s1" "tail_at (page_links s1) pp1 tp0 Pp1 L" "tail_at (page_links s1) pp2 tp1 Pp2 H"
    using split_loop_run [of s "page_free_list s" fl "[]" "[]" u1 Pp1 u2 Pp2 lim] fl linked_distinct [OF fl] by (auto simp: tail_at_def L_def H_def)
  have d: "distinct L" "distinct H" "set L \<inter> set H = {}" "set L \<subseteq> set fl" "set H \<subseteq> set fl"
    using linked_distinct [OF fl] by (auto simp: L_def H_def)
  have nb: "last xs \<notin> set (butlast xs)" if "distinct xs" "xs \<noteq> []" for xs :: "nat list"
    using that by (metis append_butlast_last_id disjoint_iff distinct_append list.set_intros(1))
  obtain pp2' s2 where s2: "put_cell tp1 None (pp1, pp2, s1) = (pp1, pp2', s2)" "relinked (set fl) s1 s2" "linked (page_links s2) pp2' H"
    "tail_at (page_links s2) pp1 tp0 Pp1 L"
  proof (cases "H = []")
    case True
    with s1(3,4) that [of None s1] show thesis by (simp add: tail_at_def)
  next
    case False
    let ?s2 = "upd_page (last H) (\<lambda>pg. pg\<lparr>pp_link := None\<rparr>) s1"
    have H: "tp1 = Link (last H)" "pp2 = Some (hd H)" "path (page_links s1) H"
      using s1(4) False by (simp_all add: tail_at_def)
    have "linked (page_links ?s2) (Some (hd H)) (H @ [])"
      by (rule path_linked) (use False H(3) nb [OF d(2)] in \<open>simp_all add: page_links_upd path_upd\<close>)
    moreover have "last H \<notin> set L" "last H \<in> set fl"
      using d(3,5) False last_in_set by blast+
    ultimately show thesis
      using that [of pp2 ?s2] H s1(3) relinked_upd [of "last H" "set fl"] tail_at_other by (simp add: page_links_upd)
  qed
  obtain pp1' s3 where s3: "put_cell tp0 pp2' (pp1, pp2', s2) = (pp1', pp2', s3)" "relinked (set fl) s2 s3" "linked (page_links s3) pp1' (L @ H)"
  proof (cases "L = []")
    case True
    with s2(3,4) that [of pp2' s2] show thesis by (simp add: tail_at_def)
  next
    case False
    let ?s3 = "upd_page (last L) (\<lambda>pg. pg\<lparr>pp_link := pp2'\<rparr>) s2"
    have L: "tp0 = Link (last L)" "pp1 = Some (hd L)" "path (page_links s2) L"
      using s2(4) False by (simp_all add: tail_at_def)
    have n: "last L \<notin> set H" "last L \<in> set fl"
      using d(3,4) False last_in_set by blast+
    have "linked (page_links ?s3) (Some (hd L)) (L @ H)"
      by (rule path_linked) (use False L(3) nb [OF d(1)] n(1) s2(3) in \<open>simp_all add: page_links_upd path_upd\<close>)
    then show thesis
      using that [of pp1 ?s3] L relinked_upd [of "last L" "set fl"] n(2) by simp
  qed
  have "low_first lim u1 u2 s = Some (s3\<lparr>page_free_list := pp1'\<rparr>)"
    using s1(1) s2(1) s3(1) by (simp add: low_first_def)
  moreover have "relinked (set fl) s s3"
    by (rule relinked_trans [OF relinked_trans [OF s1(2) s2(2)] s3(2)])
  ultimately show ?thesis
    using s3(3) unfolding L_def H_def by blast
qed

lemma in_range_small: "p < 65536 \<Longrightarrow> in_range (page2pa p) 128 x \<Longrightarrow> PTE_ADDR x = page2pa p"
  using in_range_page [of p "PTE_ADDR x" x] PTE_ADDR_aligned [of x] by (simp add: in_range_def)

lemma poison_loop_run:
  assumes "linked (page_links s) pp fl" "pages_wf s" "\<And>p. p \<in> set fl \<Longrightarrow> p < unat (npages s)"
  shows "\<exists>m. poison_loop lim pp s = Some (s\<lparr>pmem := m\<rparr>) \<and>
    (\<forall>f i. f < 65536 \<longrightarrow> f \<notin> set fl \<longrightarrow> unat i < 1024 \<longrightarrow> entry (s\<lparr>pmem := m\<rparr>) f i = entry s f i)"
  using assms
proof (induction fl arbitrary: s pp)
  case Nil
  then show ?case
    by (subst poison_loop.simps) (auto intro!: exI [of _ "pmem s"])
next
  case (Cons p fl)
  have pp: "pp = Some p" "linked (page_links s) (page_links s p) fl"
    using Cons.prems(1) by simp_all
  have p: "p < unat (npages s)" "p < 65536" "page2kva s p = Some (kpage p)"
    using Cons.prems(2) Cons.prems(3) [of p] by (auto simp: pages_wf_def page2kva_kpage)
  define s1 where "s1 = (if PDX (page2pa p) < lim then s\<lparr>pmem := fill_bytes (pmem s) (page2pa p) 0x97 128\<rparr> else s)"
  have sel: "pages s1 = pages s" "npages s1 = npages s" "page_links s1 = page_links s" "pages_wf s1 = pages_wf s"
    by (simp_all add: s1_def page_links_def fun_eq_iff pages_wf_def)
  have e1: "entry s1 f i = entry s f i" if f: "f < 65536" "f \<noteq> p" "unat i < 1024" for f i
  proof (rule entry_outside [OF f(1) p(2) f(2,3)])
    fix x assume "PTE_ADDR x \<noteq> page2pa p"
    then have "\<not> in_range (page2pa p) 128 x"
      using in_range_small [OF p(2)] by blast
    then show "pmem s1 x = pmem s x"
      by (simp add: s1_def fill_bytes_def)
  qed
  obtain m where m: "poison_loop lim (page_links s p) s1 = Some (s1\<lparr>pmem := m\<rparr>)"
    "\<And>f i. f < 65536 \<Longrightarrow> f \<notin> set fl \<Longrightarrow> unat i < 1024 \<Longrightarrow> entry (s1\<lparr>pmem := m\<rparr>) f i = entry s1 f i"
    using Cons.IH [of s1 "page_links s p"] Cons.prems(2,3) pp(2) by (auto simp: sel)
  have "poison_loop lim pp s = Some (s\<lparr>pmem := m\<rparr>)"
    using m(1) p(3) by (subst poison_loop.simps) (auto simp: pp(1) s1_def page_links_def kpage_def)
  moreover have "s1\<lparr>pmem := m\<rparr> = s\<lparr>pmem := m\<rparr>"
    by (simp add: s1_def)
  ultimately show ?case
    using m(2) e1 by (intro exI [of _ m]) simp
qed

text \<open>The pages that may be free: not one of those the test names, and above 1 MB not below the position of the boot allocator.\<close>

definition may_be_free :: "kstate \<Rightarrow> nat \<Rightarrow> bool" where
  "may_be_free s p \<longleftrightarrow> p < unat (npages s) \<and> p \<notin> {0, 7, 160, 255, 256} \<and> (p < 256 \<or> nextfree s \<le> kpage p)"

lemma check_free_page_ok:
  assumes "may_be_free s p" "pages_wf s"
  shows "check_free_page (nextfree s) p s = Some ()" "page2pa p < EXTPHYSMEM \<longleftrightarrow> p < 256"
proof -
  have p: "p < 65536" "p < unat (npages s)"
    using assms by (auto simp: may_be_free_def pages_wf_def)
  have u: "unat (page2pa p) = p * 4096"
    using p(1) by (simp add: unat_page2pa)
  show e: "page2pa p < EXTPHYSMEM \<longleftrightarrow> p < 256"
    using u by (simp add: word_less_nat_alt layout)
  have "page2kva s p = Some (kpage p)"
    using p assms(2) by (simp add: page2kva_kpage pages_wf_def)
  then show "check_free_page (nextfree s) p s = Some ()"
    using assms(1) u unfolding check_free_page_def e
    by (auto simp: may_be_free_def word_unat_eq_iff layout)
qed

lemma count_loop_run:
  assumes "linked (page_links s) pp fl" "pages_wf s" "\<And>p. p \<in> set fl \<Longrightarrow> may_be_free s p"
  shows "count_loop (nextfree s) pp a b s = Some (a + length (filter (\<lambda>p. p < 256) fl), b + length (filter (\<lambda>p. \<not> p < 256) fl))"
  using assms
proof (induction fl arbitrary: pp a b)
  case Nil
  then show ?case by (subst count_loop.simps) simp
next
  case (Cons p fl)
  have pp: "pp = Some p" "linked (page_links s) (page_links s p) fl" and lk: "pp_link (pages s p) = page_links s p"
    using Cons.prems(1) by simp_all (simp add: page_links_def)
  note C = check_free_page_ok [OF Cons.prems(3) [of p] Cons.prems(2), simplified]
  note IH = Cons.IH [OF pp(2) Cons.prems(2) Cons.prems(3)]
  show ?case
    using C IH [of "Suc a" b] IH [of a "Suc b"] by (subst count_loop.simps) (simp add: pp(1) lk)
qed

text \<open>\<open>untouched fl s s'\<close>: the two states differ in the content of the pages \<open>fl\<close> and in the links only.\<close>

definition untouched :: "nat list \<Rightarrow> kstate \<Rightarrow> kstate \<Rightarrow> bool" where
  "untouched fl s s' \<longleftrightarrow> mm_frame s s' \<and> (\<forall>q. paddr (pages s' q) = paddr (pages s q) \<and> pp_ref (pages s' q) = pp_ref (pages s q)) \<and>
     (\<forall>q. q \<notin> set fl \<longrightarrow> pages s' q = pages s q) \<and> (\<forall>f i. f < 65536 \<longrightarrow> f \<notin> set fl \<longrightarrow> unat i < 1024 \<longrightarrow> entry s' f i = entry s f i)"

lemma boot_alloc_zero: "nextfree s \<noteq> 0 \<Longrightarrow> boot_alloc kend 0 s = Some (nextfree s, s)"
  by (simp add: boot_alloc_def)

lemma check_page_free_list_run:
  assumes fl: "free_list s fl" "pages_wf s" and nf: "nextfree s \<noteq> 0" and ok: "\<And>p. p \<in> set fl \<Longrightarrow> may_be_free s p"
    and some: "\<exists>p \<in> set fl. p < 256" "\<exists>p \<in> set fl. 256 \<le> p"
  shows "\<exists>s' fl'. check_page_free_list kend u1 u2 low s = Some s' \<and> free_list s' fl' \<and> set fl' = set fl \<and> length fl' = length fl \<and> untouched fl s s' \<and>
    fl' = (if low then filter (\<lambda>p. \<not> 1 \<le> PDX (page2pa p)) fl @ filter (\<lambda>p. 1 \<le> PDX (page2pa p)) fl else fl)"
proof -
  let ?lim = "if low then 1 else 1024 :: u32"
  define fl' where "fl' = (if low then filter (\<lambda>p. \<not> 1 \<le> PDX (page2pa p)) fl @ filter (\<lambda>p. 1 \<le> PDX (page2pa p)) fl else fl)"
  have set: "set fl' = set fl" "length fl' = length fl"
    using sum_length_filter_compl [of "\<lambda>p. 1 \<le> PDX (page2pa p)" fl] by (auto simp: fl'_def)
  have li: "linked (page_links s) (page_free_list s) fl"
    using fl(1) by (simp add: free_list_def)
  obtain s0 h where s1: "(if low then low_first ?lim u1 u2 s else Some s) = Some (s0\<lparr>page_free_list := h\<rparr>)" "relinked (set fl) s s0" "linked (page_links s0) h fl'"
  proof (cases low)
    case True
    then show thesis
      using low_first_run [OF li, of 1 u1 u2] that by (auto simp: fl'_def)
  next
    case False
    then show thesis
      using that [of "page_free_list s" s] li by (simp add: fl'_def)
  qed
  define s1 where "s1 = s0\<lparr>page_free_list := h\<rparr>"
  obtain g where g: "s0 = s\<lparr>pages := g\<rparr>" "\<And>q. paddr (g q) = paddr (pages s q) \<and> pp_ref (g q) = pp_ref (pages s q)" "\<And>q. q \<notin> set fl \<Longrightarrow> g q = pages s q"
    using s1(2) unfolding relinked_def by blast
  have sel: "pages s1 = g" "npages s1 = npages s" "nextfree s1 = nextfree s" "page_links s1 = page_links s0" "page_free_list s1 = h" "pages_wf s1"
    using fl(2) g(2) by (simp_all add: s1_def g(1) page_links_def fun_eq_iff pages_wf_def)
  have li1: "linked (page_links s1) (page_free_list s1) fl'"
    using s1(3) sel by simp
  have b: "p < unat (npages s1)" if "p \<in> set fl'" for p
    using ok [of p] that set(1) by (simp add: may_be_free_def sel)
  obtain m where m: "poison_loop ?lim (page_free_list s1) s1 = Some (s1\<lparr>pmem := m\<rparr>)"
    "\<And>f i. f < 65536 \<Longrightarrow> f \<notin> set fl' \<Longrightarrow> unat i < 1024 \<Longrightarrow> entry (s1\<lparr>pmem := m\<rparr>) f i = entry s1 f i"
    using poison_loop_run [OF li1 sel(6) b, of ?lim] by blast
  define s2 where "s2 = s1\<lparr>pmem := m\<rparr>"
  have sel2: "pages s2 = g" "npages s2 = npages s" "nextfree s2 = nextfree s" "page_links s2 = page_links s1" "page_free_list s2 = page_free_list s1" "pages_wf s2"
    using sel by (simp_all add: s2_def page_links_def fun_eq_iff pages_wf_def)
  have li2: "linked (page_links s2) (page_free_list s2) fl'"
    using li1 sel2 by simp
  have ok2: "may_be_free s2 p" if "p \<in> set fl'" for p
    using ok [of p] that set(1) by (simp add: may_be_free_def sel2)
  have cnt: "count_loop (nextfree s2) (page_free_list s2) 0 0 s2 = Some (length (filter (\<lambda>p. p < 256) fl'), length (filter (\<lambda>p. \<not> p < 256) fl'))"
    using count_loop_run [OF li2 sel2(6) ok2, of 0 0] by simp
  have pos: "0 < length (filter (\<lambda>p. p < 256) fl')" "0 < length (filter (\<lambda>p. \<not> p < 256) fl')"
  proof -
    obtain p q where "p \<in> set fl'" "p < 256" "q \<in> set fl'" "\<not> q < 256"
      using some set(1) by (metis not_less)
    then have "p \<in> set (filter (\<lambda>p. p < 256) fl')" "q \<in> set (filter (\<lambda>p. \<not> p < 256) fl')"
      by simp_all
    then show "0 < length (filter (\<lambda>p. p < 256) fl')" "0 < length (filter (\<lambda>p. \<not> p < 256) fl')"
      by (metis length_pos_if_in_set)+
  qed
  have "page_free_list s \<noteq> None"
    using li some by (cases fl) auto
  then have run: "check_page_free_list kend u1 u2 low s = Some s2"
    using s1(1) m(1) cnt pos boot_alloc_zero [of s2 kend] nf sel2(3) unfolding s1_def [symmetric] s2_def [symmetric]
    by (simp add: check_page_free_list_def)
  have "free_list s2 fl'"
    using li2 fl(1) g(2) set(1) by (auto simp: free_list_def sel2)
  moreover have "entry s1 = entry s"
    by (rule entry_pmem_cong) (simp add: s1_def g(1))
  then have "untouched fl s s2"
    using g(2,3) m(2) set(1) unfolding s2_def [symmetric] untouched_def sel2(1) by (simp add: mm_frame_def) (simp add: s2_def s1_def g(1))
  ultimately show ?thesis
    using run set unfolding fl'_def by blast
qed

subsection \<open>\<^verbatim>\<open>check_page_alloc\<close>\<close>

partial_function (option) free_length :: "nat option \<Rightarrow> kstate \<Rightarrow> nat option" where
  "free_length pp s = (case pp of None \<Rightarrow> Some 0 | Some p \<Rightarrow> do { n \<leftarrow> free_length (pp_link (pages s p)) s; Some (n + 1) })"

text \<open>The three allocations with which the tests start, the assertions about them, and an allocation that must fail.\<close>

definition take_three :: "kstate \<Rightarrow> (nat \<times> nat \<times> nat \<times> kstate) option" where
  "take_three s =
     do {
       (a, s1) \<leftarrow> page_alloc s 0;
       pp0 \<leftarrow> a;
       (b, s2) \<leftarrow> page_alloc s1 0;
       pp1 \<leftarrow> b;
       (c, s3) \<leftarrow> page_alloc s2 0;
       pp2 \<leftarrow> c;
       Some (pp0, pp1, pp2, s3)
     }"

definition alloc_three :: "kstate \<Rightarrow> (nat \<times> nat \<times> nat \<times> kstate) option" where
  "alloc_three s =
     do {
       (pp0, pp1, pp2, s1) \<leftarrow> take_three s;
       _ \<leftarrow> check (pp1 \<noteq> pp0);
       _ \<leftarrow> check (pp2 \<noteq> pp1 \<and> pp2 \<noteq> pp0);
       Some (pp0, pp1, pp2, s1)
     }"

definition no_page :: "kstate \<Rightarrow> kstate option" where
  "no_page s = do { (p, s1) \<leftarrow> page_alloc s 0; _ \<leftarrow> check (p = None); Some s1 }"

definition page_free3 :: "kstate \<Rightarrow> nat \<Rightarrow> nat \<Rightarrow> nat \<Rightarrow> kstate" where
  "page_free3 s pp0 pp1 pp2 = page_free (page_free (page_free s (Some pp0)) (Some pp1)) (Some pp2)"

definition check_page_alloc :: "kstate \<Rightarrow> kstate option" where
  "check_page_alloc s =
     do {
       nfree \<leftarrow> free_length (page_free_list s) s;
       (pp0, pp1, pp2, s1) \<leftarrow> alloc_three s;
       _ \<leftarrow> check (page2pa pp0 < npages s1 * PGSIZE);
       _ \<leftarrow> check (page2pa pp1 < npages s1 * PGSIZE);
       _ \<leftarrow> check (page2pa pp2 < npages s1 * PGSIZE);
       let fl = page_free_list s1;
       s2 \<leftarrow> no_page (s1\<lparr>page_free_list := None\<rparr>);
       (pp0, pp1, pp2, s3) \<leftarrow> alloc_three (page_free3 s2 pp0 pp1 pp2);
       s4 \<leftarrow> no_page s3;
       kva \<leftarrow> page2kva s4 pp0;
       let s5 = s4\<lparr>pmem := fill_bytes (pmem s4) (kva - KERNBASE) 1 4096\<rparr>;
       (pp, s6) \<leftarrow> page_alloc (page_free s5 (Some pp0)) ALLOC_ZERO;
       _ \<leftarrow> check (pp = Some pp0);
       c \<leftarrow> page2kva s6 pp0;
       _ \<leftarrow> check (list_all (\<lambda>i. pmem s6 (c - KERNBASE + word_of_nat i) = 0) [0..<4096]);
       let s7 = page_free3 (s6\<lparr>page_free_list := fl\<rparr>) pp0 pp1 pp2;
       n \<leftarrow> free_length (page_free_list s7) s7;
       _ \<leftarrow> check (nfree = n);
       Some s7
     }"

lemma untouched_refl [simp]: "untouched xs s s"
  by (simp add: untouched_def)

lemma untouched_trans:
  assumes "untouched xs s t" "untouched ys t u" "set xs \<union> set ys \<subseteq> set zs"
  shows "untouched zs s u"
proof -
  have "q \<notin> set xs \<and> q \<notin> set ys" if "q \<notin> set zs" for q
    using assms(3) that by blast
  then show ?thesis
    using assms(1,2) mm_frame_trans [of s t u] unfolding untouched_def by simp
qed

lemma untouched_mono: "untouched xs s t \<Longrightarrow> set xs \<subseteq> set ys \<Longrightarrow> untouched ys s t"
  unfolding untouched_def by blast

lemma untouched_wf: "untouched xs s t \<Longrightarrow> pages_wf t = pages_wf s"
  by (auto simp: untouched_def pages_wf_def mm_frame_def)

lemma untouched_linked: "untouched xs s t \<Longrightarrow> set xs \<inter> set fl = {} \<Longrightarrow> linked (page_links t) h fl = linked (page_links s) h fl"
  by (rule linked_cong) (auto simp: untouched_def page_links_def)

lemma untouched_pmem:
  assumes "p < 65536" "\<And>x. PTE_ADDR x \<noteq> page2pa p \<Longrightarrow> m x = pmem s x"
  shows "untouched [p] s (s\<lparr>pmem := m\<rparr>)"
  unfolding untouched_def using entry_outside [of _ p _ "s\<lparr>pmem := m\<rparr>" s] assms by (auto simp: mm_frame_def)

lemma free_list_empty [simp]: "free_list (s\<lparr>page_free_list := None\<rparr>) []"
  by (simp add: free_list_def)

lemma untouched_list [simp]: "untouched xs s (s\<lparr>page_free_list := h\<rparr>)"
  by (simp add: untouched_def mm_frame_def entry_def)

lemma page_alloc_step:
  assumes "free_list s (p # ys)" "pages_wf s"
  shows "\<exists>s'. page_alloc s fg = Some (Some p, s') \<and> free_list s' ys \<and> untouched [p] s s' \<and> p \<notin> set ys \<and>
    pmem s' = (if ALLOC_ZERO AND fg \<noteq> 0 then fill_bytes (pmem s) (page2pa p) 0 4096 else pmem s)"
proof -
  obtain s' where s': "page_alloc s fg = Some (Some p, s')" "free_list s' ys" "p \<notin> set ys"
    "pmem s' = (if ALLOC_ZERO AND fg \<noteq> 0 then fill_bytes (pmem s) (page2pa p) 0 4096 else pmem s)"
    using page_alloc_run [OF assms(2,1)] by blast
  note A = page_alloc_Some [OF s'(1)]
  have p: "p < 65536" "pp_ref (pages s p) = 0"
    using assms by (auto simp: free_list_def pages_wf_def)
  have out: "pmem s' x = pmem s x" if "PTE_ADDR x \<noteq> page2pa p" for x
    using that in_range_page [OF p(1), of "PTE_ADDR x" x] by (auto simp: s'(4) fill_bytes_def)
  have "entry s' f i = entry s f i" if "f < 65536" "f \<noteq> p" "unat i < 1024" for f i
    by (rule entry_outside [OF that(1) p(1) that(2,3) out])
  then have "untouched [p] s s'"
    using A(3,5) p(2) by (auto simp: untouched_def)
  then show ?thesis
    using s' by blast
qed

lemma page_free_step:
  assumes "free_list s fl" "pages_wf s" "p < unat (npages s)" "pp_ref (pages s p) = 0" "p \<notin> set fl"
  shows "free_list (page_free s (Some p)) (p # fl)" "untouched [p] s (page_free s (Some p))"
proof -
  show "free_list (page_free s (Some p)) (p # fl)"
    by (rule page_free_free_list [OF assms(2-4,1,5)])
  have "entry (page_free s (Some p)) = entry s"
    by (rule entry_pmem_cong) simp
  then show "untouched [p] s (page_free s (Some p))"
    using page_free_sel(2) [OF assms(2,3)] page_free_mm_frame [of s "Some p"] by (auto simp: untouched_def)
qed

lemma free_length_run: "linked (page_links s) pp fl \<Longrightarrow> free_length pp s = Some (length fl)"
proof (induction fl arbitrary: pp)
  case Nil
  then show ?case by (subst free_length.simps) simp
next
  case (Cons p fl)
  moreover have "pp_link (pages s p) = page_links s p"
    by (simp add: page_links_def)
  ultimately show ?case
    by (subst free_length.simps) simp
qed

lemma take_three_run:
  assumes "free_list s (p # q # r # ys)" "pages_wf s"
  shows "\<exists>s'. take_three s = Some (p, q, r, s') \<and> free_list s' ys \<and> untouched [p, q, r] s s' \<and> pmem s' = pmem s"
proof -
  obtain s1 where s1: "page_alloc s 0 = Some (Some p, s1)" "free_list s1 (q # r # ys)" "untouched [p] s s1" "pmem s1 = pmem s"
    using page_alloc_step [OF assms, of 0] by auto
  obtain s2 where s2: "page_alloc s1 0 = Some (Some q, s2)" "free_list s2 (r # ys)" "untouched [q] s1 s2" "pmem s2 = pmem s1"
    using page_alloc_step [OF s1(2), of 0] assms(2) untouched_wf [OF s1(3)] by auto
  have u2: "untouched [p, q] s s2"
    by (rule untouched_trans [OF s1(3) s2(3)]) simp
  obtain s3 where s3: "page_alloc s2 0 = Some (Some r, s3)" "free_list s3 ys" "untouched [r] s2 s3" "pmem s3 = pmem s2"
    using page_alloc_step [OF s2(2), of 0] assms(2) untouched_wf [OF u2] by auto
  have "untouched [p, q, r] s s3"
    by (rule untouched_trans [OF u2 s3(3)]) auto
  moreover have "take_three s = Some (p, q, r, s3)"
    using s1(1) s2(1) s3(1) by (simp add: take_three_def)
  ultimately show ?thesis
    using s1(4) s2(4) s3(2,4) by simp
qed

lemma free_list_distinct: "free_list s fl \<Longrightarrow> distinct fl"
  unfolding free_list_def using linked_distinct by blast

lemma alloc_three_run:
  assumes "free_list s (p # q # r # ys)" "pages_wf s"
  shows "\<exists>s'. alloc_three s = Some (p, q, r, s') \<and> free_list s' ys \<and> untouched [p, q, r] s s' \<and> pmem s' = pmem s"
  using take_three_run [OF assms] free_list_distinct [OF assms(1)] by (auto simp: alloc_three_def)

lemma page_free3_run:
  assumes "free_list s fl" "pages_wf s" "distinct (p # q # r # fl)" "\<And>x. x \<in> {p, q, r} \<Longrightarrow> x < unat (npages s) \<and> pp_ref (pages s x) = 0"
  shows "free_list (page_free3 s p q r) (r # q # p # fl)" "untouched [p, q, r] s (page_free3 s p q r)" "pmem (page_free3 s p q r) = pmem s"
proof -
  define s1 where "s1 = page_free s (Some p)"
  define s2 where "s2 = page_free s1 (Some q)"
  have 1: "free_list s1 (p # fl)" "untouched [p] s s1"
    unfolding s1_def by (rule page_free_step [OF assms(1,2)]; use assms(3,4) in auto)+
  have b: "x < unat (npages t) \<and> pp_ref (pages t x) = 0" if "x \<in> {p, q, r}" "untouched xs s t" for x xs t
    using assms(4) [OF that(1)] that(2) by (auto simp: untouched_def mm_frame_def)
  have 2: "free_list s2 (q # p # fl)" "untouched [q] s1 s2"
    unfolding s2_def by (rule page_free_step [OF 1(1)]; use assms(2,3) b [OF _ 1(2)] untouched_wf [OF 1(2)] in auto)+
  have u2: "untouched [p, q] s s2"
    by (rule untouched_trans [OF 1(2) 2(2)]) simp
  have e: "page_free3 s p q r = page_free s2 (Some r)"
    by (simp add: page_free3_def s1_def s2_def)
  have 3: "free_list (page_free3 s p q r) (r # q # p # fl)" "untouched [r] s2 (page_free3 s p q r)"
    unfolding e by (rule page_free_step [OF 2(1)]; use assms(2,3) b [OF _ u2] untouched_wf [OF u2] in auto)+
  show "free_list (page_free3 s p q r) (r # q # p # fl)"
    by (rule 3(1))
  show "untouched [p, q, r] s (page_free3 s p q r)"
    by (rule untouched_trans [OF u2 3(2)]) auto
  show "pmem (page_free3 s p q r) = pmem s"
    by (simp add: page_free3_def)
qed

lemma no_page_run: "free_list s [] \<Longrightarrow> no_page s = Some s"
  by (simp add: no_page_def page_alloc_def free_list_def)

lemma free_list_wf: "free_list s fl \<Longrightarrow> untouched xs s t \<Longrightarrow> x \<in> set fl \<Longrightarrow> x < unat (npages t) \<and> pp_ref (pages t x) = 0"
  by (auto simp: free_list_def untouched_def mm_frame_def)

text \<open>An allocation that asks for a zeroed page, of a page that was filled with ones just before.\<close>

lemma zeroed_again:
  assumes "free_list s []" "pages_wf s" "p < unat (npages s)" "pp_ref (pages s p) = 0"
  defines "s5 \<equiv> s\<lparr>pmem := fill_bytes (pmem s) (page2pa p) 1 4096\<rparr>"
  shows "\<exists>s'. page_alloc (page_free s5 (Some p)) ALLOC_ZERO = Some (Some p, s') \<and> free_list s' [] \<and> untouched [p] s s' \<and>
    (\<forall>i < 4096. pmem s' (page2pa p + word_of_nat i) = 0)"
proof -
  have p: "p < 65536"
    using assms(2,3) by (simp add: pages_wf_def)
  have "fill_bytes (pmem s) (page2pa p) 1 4096 x = pmem s x" if "PTE_ADDR x \<noteq> page2pa p" for x
    using that in_range_page [OF p, of "PTE_ADDR x" x] by (auto simp: fill_bytes_def)
  then have u5: "untouched [p] s s5"
    unfolding s5_def by (rule untouched_pmem [OF p])
  have "free_list s5 []"
    using assms(1) by (simp add: free_list_def s5_def)
  then have f: "free_list (page_free s5 (Some p)) [p]" "untouched [p] s5 (page_free s5 (Some p))"
    by (rule page_free_step; use assms(2-4) untouched_wf [OF u5] in \<open>simp add: s5_def\<close>)+
  have u6: "untouched [p] s (page_free s5 (Some p))"
    by (rule untouched_trans [OF u5 f(2)]) simp
  obtain s' where s': "page_alloc (page_free s5 (Some p)) ALLOC_ZERO = Some (Some p, s')" "free_list s' []" "untouched [p] (page_free s5 (Some p)) s'"
    "pmem s' = fill_bytes (pmem (page_free s5 (Some p))) (page2pa p) 0 4096"
    using page_alloc_step [OF f(1), of ALLOC_ZERO] assms(2) untouched_wf [OF u6] by (auto simp: ALLOC_ZERO_def)
  have "pmem s' (page2pa p + word_of_nat i) = 0" if "i < 4096" for i
    using that by (simp add: s'(4) fill_bytes_def in_range_def unat_of_nat)
  then show ?thesis
    using s'(1,2) untouched_trans [OF u6 s'(3), of "[p]"] by auto
qed

lemma page2pa_less:
  assumes "pages_wf s" "p < unat (npages s)"
  shows "page2pa p < npages s * PGSIZE"
proof -
  have "unat (npages s * PGSIZE) = unat (npages s) * 4096" "unat (page2pa p) = p * 4096"
    using assms by (simp_all add: pages_wf_def unat_word_ariths PGSIZE_def unat_page2pa)
  then show ?thesis
    using assms(2) by (simp add: word_less_nat_alt)
qed

text \<open>A free list that was set aside is a free list again when the pages taken from it, \<open>xs\<close>, are all that has changed since.\<close>

lemma give_back:
  assumes "free_list s1 ys" "untouched xs s s1" "untouched xs s t" "set xs \<inter> set ys = {}"
  shows "free_list (t\<lparr>page_free_list := page_free_list s1\<rparr>) ys"
proof -
  have "pages t q = pages s1 q" if "q \<in> set ys" for q
  proof -
    have "q \<notin> set xs"
      using assms(4) that by blast
    then show ?thesis
      using assms(2,3) by (simp add: untouched_def)
  qed
  moreover have "npages t = npages s1"
    using assms(2,3) by (simp add: untouched_def mm_frame_def)
  moreover from calculation have "linked (page_links t) (page_free_list s1) ys"
    using assms(1) linked_cong [of ys "page_links t" "page_links s1"] by (simp add: free_list_def page_links_def)
  moreover have "page_links (t\<lparr>page_free_list := page_free_list s1\<rparr>) = page_links t"
    by (simp add: page_links_def fun_eq_iff)
  ultimately show ?thesis
    using assms(1) by (simp add: free_list_def)
qed

lemma check_page_alloc_run:
  assumes fl: "free_list s (p # q # r # ys)" and wf: "pages_wf s"
  shows "\<exists>s'. check_page_alloc s = Some s' \<and> free_list s' (p # q # r # ys) \<and> untouched [p, q, r] s s'"
proof -
  have d: "distinct (p # q # r # ys)"
    by (rule free_list_distinct [OF fl])
  note W = free_list_wf [OF fl]
  obtain s1 where s1: "alloc_three s = Some (p, q, r, s1)" "free_list s1 ys" "untouched [p, q, r] s s1"
    using alloc_three_run [OF fl wf] by blast
  define s2 where "s2 = s1\<lparr>page_free_list := None\<rparr>"
  have s2: "free_list s2 []" "untouched [p, q, r] s s2"
    using untouched_trans [OF s1(3) untouched_list [of "[]"], of "[p, q, r]"] by (simp_all add: s2_def)
  define t where "t = page_free3 s2 p q r"
  have t: "free_list t [r, q, p]" "untouched [p, q, r] s2 t"
    unfolding t_def by (rule page_free3_run [OF s2(1)]; use d wf untouched_wf [OF s2(2)] W [OF s2(2)] in auto)+
  have ut: "untouched [p, q, r] s t"
    by (rule untouched_trans [OF s2(2) t(2)]) simp
  obtain s3 where s3: "alloc_three t = Some (r, q, p, s3)" "free_list s3 []" "untouched [r, q, p] t s3"
    using alloc_three_run [OF t(1)] wf untouched_wf [OF ut] by blast
  have u3: "untouched [p, q, r] s s3"
    by (rule untouched_trans [OF ut s3(3)]) auto
  have r: "r < unat (npages s3)" "pp_ref (pages s3 r) = 0" "pages_wf s3" "page2kva s3 r = Some (kpage r)"
    using W [OF u3, of r] wf untouched_wf [OF u3] by (simp_all add: page2kva_kpage pages_wf_def)
  obtain s6 where s6: "page_alloc (page_free (s3\<lparr>pmem := fill_bytes (pmem s3) (page2pa r) 1 4096\<rparr>) (Some r)) ALLOC_ZERO = Some (Some r, s6)"
    "free_list s6 []" "untouched [r] s3 s6" "\<And>i. i < 4096 \<Longrightarrow> pmem s6 (page2pa r + word_of_nat i) = 0"
    using zeroed_again [OF s3(2) r(3,1,2)] by blast
  have u6: "untouched [p, q, r] s s6"
    by (rule untouched_trans [OF u3 s6(3)]) auto
  define s6' where "s6' = s6\<lparr>page_free_list := page_free_list s1\<rparr>"
  have u6': "untouched [p, q, r] s s6'"
    using untouched_trans [OF u6 untouched_list [of "[]"], of "[p, q, r]"] by (simp add: s6'_def)
  have f6: "free_list s6' ys"
    unfolding s6'_def by (rule give_back [OF s1(2,3) u6]) (use d in auto)
  define s7 where "s7 = page_free3 s6' r q p"
  have s7: "free_list s7 (p # q # r # ys)" "untouched [r, q, p] s6' s7"
    unfolding s7_def by (rule page_free3_run [OF f6]; use d wf untouched_wf [OF u6'] W [OF u6'] in auto)+
  have u7: "untouched [p, q, r] s s7"
    by (rule untouched_trans [OF u6' s7(2)]) auto
  have "page2kva s6 r = Some (kpage r)"
    using W [OF u6, of r] wf untouched_wf [OF u6] by (simp add: page2kva_kpage pages_wf_def)
  moreover have "free_length (page_free_list s) s = Some (length (p # q # r # ys))" "free_length (page_free_list s7) s7 = Some (length (p # q # r # ys))"
    using free_length_run fl s7(1) unfolding free_list_def by blast+
  moreover have "page2pa x < npages s1 * PGSIZE" if "x \<in> {p, q, r}" for x
    using page2pa_less [of s1 x] W [OF s1(3), of x] that wf untouched_wf [OF s1(3)] by auto
  ultimately have "check_page_alloc s = Some s7"
    using s1(1) no_page_run [OF s2(1)] s3(1) no_page_run [OF s3(2)] r(4) s6(1,4) unfolding s2_def t_def s7_def s6'_def
    by (simp add: check_page_alloc_def kpage_def list_all_iff)
  then show ?thesis
    using s7(1) u7 by blast
qed

end
