(* ===== verification/Selftest_Page.thy ===== *)
theory Selftest_Page
  imports Selftest
begin

section \<open>The self-tests of the page tables\<close>

text \<open>
  \<^verbatim>\<open>check_page\<close> and \<^verbatim>\<open>check_page_installed_pgdir\<close> of \<^verbatim>\<open>kern/pmap.c\<close>, with \<^verbatim>\<open>__ALL_COUNT__\<close> undefined, as the file has it. Both play through a
  scenario of three pages, which \<open>trial\<close> describes from the outside: the free list, the directory, the one page table and the reference counts.
\<close>

subsection \<open>\<^verbatim>\<open>check_page\<close>\<close>

text \<open>The assertions the test repeats: a page is inserted, an address is translated, a page has so many references.\<close>

definition inserts :: "nat \<Rightarrow> u32 \<Rightarrow> u32 \<Rightarrow> kstate \<Rightarrow> kstate option" where
  "inserts pp va perm s = do { (r, s1) \<leftarrow> page_insert s (kern_pgdir s) (Some pp) va perm; _ \<leftarrow> check (r = 0); Some s1 }"

definition no_insert :: "nat \<Rightarrow> u32 \<Rightarrow> u32 \<Rightarrow> kstate \<Rightarrow> kstate option" where
  "no_insert pp va perm s = do { (r, s1) \<leftarrow> page_insert s (kern_pgdir s) (Some pp) va perm; _ \<leftarrow> check (r < 0); Some s1 }"

definition at_va :: "u32 \<Rightarrow> u32 \<Rightarrow> kstate \<Rightarrow> unit option" where
  "at_va va pa s = do { a \<leftarrow> check_va2pa s (kern_pgdir s) va; check (a = pa) }"

definition refs :: "nat \<Rightarrow> u16 \<Rightarrow> kstate \<Rightarrow> unit option" where
  "refs pp n s = check (pp_ref (pages s pp) = n)"

definition allocs :: "nat \<Rightarrow> kstate \<Rightarrow> kstate option" where
  "allocs pp s = do { (p, s1) \<leftarrow> page_alloc s 0; _ \<leftarrow> check (p = Some pp); Some s1 }"

text \<open>The first part: up to the point where \<^verbatim>\<open>pp1\<close> is mapped twice and \<^verbatim>\<open>pp2\<close> is free again.\<close>

definition check_page_map :: "nat \<Rightarrow> nat \<Rightarrow> nat \<Rightarrow> kstate \<Rightarrow> kstate option" where
  "check_page_map pp0 pp1 pp2 s =
     do {
       s \<leftarrow> no_page s;
       r \<leftarrow> page_lookup s (kern_pgdir s) 0;
       _ \<leftarrow> check (r = None);
       s \<leftarrow> no_insert pp1 0 PTE_W s;
       s \<leftarrow> inserts pp1 0 PTE_W (page_free s (Some pp0));
       _ \<leftarrow> check (PTE_ADDR (kld s (slot (kern_pgdir s) 0)) = page2pa pp0);
       _ \<leftarrow> at_va 0 (page2pa pp1) s;
       _ \<leftarrow> refs pp1 1 s;
       _ \<leftarrow> refs pp0 1 s;
       s \<leftarrow> inserts pp2 PGSIZE PTE_W s;
       _ \<leftarrow> at_va PGSIZE (page2pa pp2) s;
       _ \<leftarrow> refs pp2 1 s;
       s \<leftarrow> no_page s;
       s \<leftarrow> inserts pp2 PGSIZE PTE_W s;
       _ \<leftarrow> at_va PGSIZE (page2pa pp2) s;
       _ \<leftarrow> refs pp2 1 s;
       s \<leftarrow> no_page s;
       ptep \<leftarrow> KADDR s (PTE_ADDR (kld s (slot (kern_pgdir s) (PDX PGSIZE))));
       (w, s) \<leftarrow> pgdir_walk s (kern_pgdir s) PGSIZE False;
       _ \<leftarrow> check (w = slot ptep (PTX PGSIZE));
       s \<leftarrow> inserts pp2 PGSIZE (PTE_W OR PTE_U) s;
       _ \<leftarrow> at_va PGSIZE (page2pa pp2) s;
       _ \<leftarrow> refs pp2 1 s;
       (w, s) \<leftarrow> pgdir_walk s (kern_pgdir s) PGSIZE False;
       _ \<leftarrow> check (kld s w AND PTE_U \<noteq> 0);
       _ \<leftarrow> check (kld s (slot (kern_pgdir s) 0) AND PTE_U \<noteq> 0);
       s \<leftarrow> no_insert pp0 PTSIZE PTE_W s;
       s \<leftarrow> inserts pp1 PGSIZE PTE_W s;
       (w, s) \<leftarrow> pgdir_walk s (kern_pgdir s) PGSIZE False;
       _ \<leftarrow> check (kld s w AND PTE_U = 0);
       _ \<leftarrow> at_va 0 (page2pa pp1) s;
       _ \<leftarrow> at_va PGSIZE (page2pa pp1) s;
       _ \<leftarrow> refs pp1 2 s;
       _ \<leftarrow> refs pp2 0 s;
       allocs pp2 s
     }"

text \<open>The second part: both mappings are removed, and the page table is taken back.\<close>

definition check_page_unmap :: "nat \<Rightarrow> nat \<Rightarrow> nat \<Rightarrow> kstate \<Rightarrow> kstate option" where
  "check_page_unmap pp0 pp1 pp2 s =
     do {
       s \<leftarrow> page_remove s (kern_pgdir s) 0;
       _ \<leftarrow> at_va 0 0xFFFFFFFF s;
       _ \<leftarrow> at_va PGSIZE (page2pa pp1) s;
       _ \<leftarrow> refs pp1 1 s;
       _ \<leftarrow> refs pp2 0 s;
       s \<leftarrow> page_remove s (kern_pgdir s) PGSIZE;
       _ \<leftarrow> at_va 0 0xFFFFFFFF s;
       _ \<leftarrow> at_va PGSIZE 0xFFFFFFFF s;
       _ \<leftarrow> refs pp1 0 s;
       _ \<leftarrow> refs pp2 0 s;
       s \<leftarrow> allocs pp1 s;
       s \<leftarrow> no_page s;
       _ \<leftarrow> check (PTE_ADDR (kld s (slot (kern_pgdir s) 0)) = page2pa pp0);
       let s = kst (slot (kern_pgdir s) 0) 0 s;
       _ \<leftarrow> refs pp0 1 s;
       Some (upd_page pp0 (\<lambda>pg. pg\<lparr>pp_ref := 0\<rparr>) s)
     }"

text \<open>The third part: a page table at another place of the directory, and one that was full of ones.\<close>

definition check_page_tables :: "nat \<Rightarrow> kstate \<Rightarrow> kstate option" where
  "check_page_tables pp0 s =
     do {
       let va = PGSIZE * word_of_nat NPDENTRIES + PGSIZE;
       (ptep, s) \<leftarrow> pgdir_walk (page_free s (Some pp0)) (kern_pgdir s) va True;
       ptep1 \<leftarrow> KADDR s (PTE_ADDR (kld s (slot (kern_pgdir s) (PDX va))));
       _ \<leftarrow> check (ptep = slot ptep1 (PTX va));
       let s = upd_page pp0 (\<lambda>pg. pg\<lparr>pp_ref := 0\<rparr>) (kst (slot (kern_pgdir s) (PDX va)) 0 s);
       kva \<leftarrow> page2kva s pp0;
       let s = s\<lparr>pmem := fill_bytes (pmem s) (kva - KERNBASE) 0xFF 4096\<rparr>;
       (_, s) \<leftarrow> pgdir_walk (page_free s (Some pp0)) (kern_pgdir s) 0 True;
       ptep \<leftarrow> page2kva s pp0;
       _ \<leftarrow> check (list_all (\<lambda>i. kld s (slot ptep (word_of_nat i)) AND PTE_P = 0) [0..<NPTENTRIES]);
       Some (upd_page pp0 (\<lambda>pg. pg\<lparr>pp_ref := 0\<rparr>) (kst (slot (kern_pgdir s) 0) 0 s))
     }"

definition check_page :: "kstate \<Rightarrow> kstate option" where
  "check_page s =
     do {
       (pp0, pp1, pp2, s) \<leftarrow> alloc_three s;
       let fl = page_free_list s;
       s \<leftarrow> check_page_map pp0 pp1 pp2 (s\<lparr>page_free_list := None\<rparr>);
       s \<leftarrow> check_page_unmap pp0 pp1 pp2 s;
       s \<leftarrow> check_page_tables pp0 s;
       Some (page_free3 (s\<lparr>page_free_list := fl\<rparr>) pp0 pp1 pp2)
     }"

subsection \<open>The scenario\<close>

lemma PTE_ADDR_frame: "PTE_ADDR x = page2pa (frame x)"
  by (simp add: frame_def page2pa_PGNUM)

text \<open>\<open>trial k a b c s0 s fl e t r\<close>: since \<open>s0\<close>, only the pages \<open>a\<close>, \<open>b\<close>, \<open>c\<close> and the directory in frame \<open>k\<close> have changed, in memory only page \<open>a\<close> and the directory; the free list
  is \<open>fl\<close>, the directory has the entries \<open>e\<close>, the words of page \<open>a\<close> are \<open>t\<close>, and the reference counts of the three pages are \<open>r\<close>.\<close>

definition trial :: "nat \<Rightarrow> nat \<Rightarrow> nat \<Rightarrow> nat \<Rightarrow> kstate \<Rightarrow> kstate \<Rightarrow> nat list \<Rightarrow> (u32 \<Rightarrow> u32) \<Rightarrow> (u32 \<Rightarrow> u32) \<Rightarrow> (nat \<Rightarrow> u16) \<Rightarrow> bool" where
  "trial k a b c s0 s fl e t r \<longleftrightarrow> distinct [k, a, b, c] \<and> 0 \<notin> {a, b, c} \<and> (\<forall>q \<in> {k, a, b, c}. q < unat (npages s)) \<and> pages_wf s \<and>
     kern_pgdir s = kpage k \<and> mm_frame s0 s \<and> free_list s fl \<and> (\<forall>q. q \<notin> {a, b, c} \<longrightarrow> pages s q = pages s0 q) \<and>
     (\<forall>f i. f < 65536 \<longrightarrow> unat i < 1024 \<longrightarrow> f \<notin> {k, a} \<longrightarrow> entry s f i = entry s0 f i) \<and>
     (\<forall>i. unat i < 1024 \<longrightarrow> entry s k i = e i) \<and> (\<forall>i. unat i < 1024 \<longrightarrow> entry s a i = t i) \<and> (\<forall>q \<in> {a, b, c}. pp_ref (pages s q) = r q)"

lemma trialD:
  assumes "trial k a b c s0 s fl e t r"
  shows "distinct [k, a, b, c]" "a \<noteq> 0" "b \<noteq> 0" "c \<noteq> 0" "q \<in> {k, a, b, c} \<Longrightarrow> q < unat (npages s)" "q \<in> {k, a, b, c} \<Longrightarrow> q < 65536"
    "pages_wf s" "unat (npages s) \<le> 65536" "kern_pgdir s = kpage k" "mm_frame s0 s" "free_list s fl" "q \<notin> {a, b, c} \<Longrightarrow> pages s q = pages s0 q"
    "f < 65536 \<Longrightarrow> unat i < 1024 \<Longrightarrow> f \<notin> {k, a} \<Longrightarrow> entry s f i = entry s0 f i" "unat i < 1024 \<Longrightarrow> entry s k i = e i"
    "unat i < 1024 \<Longrightarrow> entry s a i = t i" "q \<in> {a, b, c} \<Longrightarrow> pp_ref (pages s q) = r q"
proof -
  show wf: "pages_wf s" and np: "\<And>q. q \<in> {k, a, b, c} \<Longrightarrow> q < unat (npages s)"
    using assms unfolding trial_def by blast+
  then show "unat (npages s) \<le> 65536"
    by (simp add: pages_wf_def)
  then show "q \<in> {k, a, b, c} \<Longrightarrow> q < 65536"
    using np [of q] by simp
  show "q \<in> {a, b, c} \<Longrightarrow> pp_ref (pages s q) = r q"
    using assms unfolding trial_def by blast
qed (use assms in \<open>simp_all add: trial_def\<close>)

text \<open>An update of the pages and of the memory that stays within the scenario.\<close>

lemma trialI:
  assumes tr: "trial k a b c s0 s fl e t r" and mm: "mm_frame s s'" and fl: "free_list s' fl'" and wf: "pages_wf s'"
    and pg: "\<And>q. q \<notin> {a, b, c} \<Longrightarrow> pages s' q = pages s q" and rf: "\<And>q. q \<in> {a, b, c} \<Longrightarrow> pp_ref (pages s' q) = r' q"
    and ent: "\<And>f i. f < 65536 \<Longrightarrow> unat i < 1024 \<Longrightarrow> entry s' f i = (if f = k then e' i else if f = a then t' i else entry s f i)"
  shows "trial k a b c s0 s' fl' e' t' r'"
proof -
  note T = trialD [OF tr]
  have np: "npages s' = npages s" "kern_pgdir s' = kern_pgdir s"
    using mm by (simp_all add: mm_frame_def)
  have "entry s' f i = entry s0 f i" if "f < 65536" "unat i < 1024" "f \<notin> {k, a}" for f i
    using ent [OF that(1,2)] that(3) T(13) [OF that] by auto
  moreover have "entry s' k i = e' i" "entry s' a i = t' i" if "unat i < 1024" for i
    using ent [OF T(6) that, of k] ent [OF T(6) that, of a] T(1) by auto
  moreover have "pages s' q = pages s0 q" if "q \<notin> {a, b, c}" for q
    using pg [OF that] T(12) [OF that] by simp
  ultimately show ?thesis
    unfolding trial_def np using T(1-5,9) mm_frame_trans [OF T(10) mm] fl wf rf by simp
qed

lemma trial_alloc:
  assumes tr: "trial k a b c s0 s (x # ys) e t r" and x: "x \<in> {a, b, c}"
  shows "\<exists>s'. page_alloc s 0 = Some (Some x, s') \<and> trial k a b c s0 s' ys e t r"
proof -
  note T = trialD [OF tr]
  obtain s' where s': "page_alloc s 0 = Some (Some x, s')" "free_list s' ys" "untouched [x] s s'" "pmem s' = pmem s"
    using page_alloc_step [OF T(11,7), of 0] by auto
  have "entry s' = entry s"
    by (rule entry_pmem_cong [OF s'(4)])
  then have "trial k a b c s0 s' ys e t r"
    by (intro trialI [OF tr _ s'(2)]) (use T(7,14-16) s'(3) untouched_wf [OF s'(3)] x in \<open>auto simp: untouched_def\<close>)
  then show ?thesis
    using s'(1) by blast
qed

lemma trial_free:
  assumes tr: "trial k a b c s0 s fl e t r" and x: "x \<in> {a, b, c}" "r x = 0" "x \<notin> set fl"
  shows "trial k a b c s0 (page_free s (Some x)) (x # fl) e t r"
proof -
  note T = trialD [OF tr]
  have "x < unat (npages s)" "pp_ref (pages s x) = 0"
    using T(5) [of x] T(16) [OF x(1)] x by auto
  note F = page_free_step [OF T(11,7) this x(3)]
  have "entry (page_free s (Some x)) = entry s"
    by (rule entry_pmem_cong) simp
  then show ?thesis
    by (intro trialI [OF tr _ F(1)]) (use T(7,14-16) F(2) untouched_wf [OF F(2)] x in \<open>auto simp: untouched_def\<close>)
qed

lemma trial_dir:
  assumes tr: "trial k a b c s0 s fl e t r" and i: "unat i < 1024"
  shows "trial k a b c s0 (kst (slot (kpage k) i) v s) fl (e(i := v)) t r"
proof -
  note T = trialD [OF tr]
  show ?thesis
    by (rule trialI [OF tr]) (use T(1,7,11,14-16) entry_kst [OF T(6) _ i, of k] in auto)
qed

lemma trial_ref:
  assumes tr: "trial k a b c s0 s fl e t r" and x: "x \<in> {a, b, c}" "x \<notin> set fl"
  shows "trial k a b c s0 (upd_page x (\<lambda>pg. pg\<lparr>pp_ref := n (pp_ref pg)\<rparr>) s) fl e t (r(x := n (r x)))"
proof -
  note T = trialD [OF tr]
  let ?s' = "upd_page x (\<lambda>pg. pg\<lparr>pp_ref := n (pp_ref pg)\<rparr>) s"
  have "entry ?s' = entry s"
    by (rule entry_pmem_cong) simp
  moreover have "free_list ?s' fl"
    using T(11) x(2) by (auto simp: free_list_def page_links_def upd_page_def fun_eq_iff elim: linked_cong [THEN iffD1, rotated])
  moreover have "pages_wf ?s'"
    using T(7) by (simp add: pages_wf_def)
  ultimately show ?thesis
    by (intro trialI [OF tr]) (use T(14-16) x(1) in auto)
qed

lemma trial_table:
  assumes tr: "trial k a b c s0 s fl e t r" and i: "unat i < 1024"
  shows "trial k a b c s0 (kst (slot (kpage a) i) v s) fl e (t(i := v)) r"
proof -
  note T = trialD [OF tr]
  show ?thesis
    by (rule trialI [OF tr]) (use T(1,7,11,14-16) entry_kst [OF T(6) _ i, of a] in auto)
qed

lemma trial_tlb:
  assumes tr: "trial k a b c s0 s fl e t r"
  shows "trial k a b c s0 (tlb_invalidate d va s) fl e t r"
proof -
  note T = trialD [OF tr]
  have "entry (tlb_invalidate d va s) = entry s"
    by (rule entry_pmem_cong) simp
  then show ?thesis
    by (intro trialI [OF tr]) (use T(7,11,14-16) in auto)
qed

lemma trial_alloc_zero:
  assumes tr: "trial k a b c s0 s (a # ys) e t r"
  shows "\<exists>s'. page_alloc s ALLOC_ZERO = Some (Some a, s') \<and> trial k a b c s0 s' ys e (\<lambda>_. 0) r \<and> a \<notin> set ys"
proof -
  note T = trialD [OF tr]
  obtain s' where s': "page_alloc s ALLOC_ZERO = Some (Some a, s')" "free_list s' ys" "untouched [a] s s'" "a \<notin> set ys"
    "pmem s' = fill_bytes (pmem s) (page2pa a) 0 4096"
    using page_alloc_step [OF T(11,7), of ALLOC_ZERO] by (auto simp: ALLOC_ZERO_def)
  have "entry s' f i = (if f = a then 0 else entry s f i)" if "f < 65536" "unat i < 1024" for f i
    using entry_fill [OF T(6) that s'(5)] by auto
  then have "trial k a b c s0 s' ys e (\<lambda>_. 0) r"
    by (intro trialI [OF tr _ s'(2)]) (use T(1,7,14-16) s'(3) untouched_wf [OF s'(3)] in \<open>auto simp: untouched_def\<close>)
  then show ?thesis
    using s'(1,4) by blast
qed

text \<open>The directory entry of \<open>va\<close> holds the page table in frame \<open>a\<close>.\<close>

lemma trial_walk:
  assumes tr: "trial k a b c s0 s fl e t r" and e: "present (e (PDX va))" "frame (e (PDX va)) = a"
  shows "pgdir_walk s (kpage k) va cr = Some (slot (kpage a) (PTX va), s)" "kld s (slot (kpage a) (PTX va)) = t (PTX va)"
    "kld s (slot (kpage k) (PDX va)) = e (PDX va)" "pte s k (PDX va) (PTX va) = t (PTX va)"
    "check_va2pa s (kpage k) va = Some (if present (t (PTX va)) then PTE_ADDR (t (PTX va)) else 0xFFFFFFFF)"
    "KADDR s (PTE_ADDR (e (PDX va))) = Some (kpage a)"
proof -
  note T = trialD [OF tr]
  show k: "kld s (slot (kpage k) (PDX va)) = e (PDX va)" "kld s (slot (kpage a) (PTX va)) = t (PTX va)"
    using T(14,15) by (simp_all add: kld_kpage)
  then show "pgdir_walk s (kpage k) va cr = Some (slot (kpage a) (PTX va), s)"
    using e T(5) [of a] T(8) by (simp add: pgdir_walk_def Let_def PTE_P_test pa2page_frame page2kva_kpage)
  show "pte s k (PDX va) (PTX va) = t (PTX va)"
    using T(14,15) e by (simp add: pte_def)
  have "PTE_ADDR (e (PDX va)) = page2pa a"
    using e(2) by (simp add: PTE_ADDR_frame)
  then show ka: "KADDR s (PTE_ADDR (e (PDX va))) = Some (kpage a)"
    using page2kva_kpage [OF T(5,8), of a] by (simp add: page2kva_def)
  show "check_va2pa s (kpage k) va = Some (if present (t (PTX va)) then PTE_ADDR (t (PTX va)) else 0xFFFFFFFF)"
    using e(1) by (simp add: check_va2pa_def Let_def k ka PTE_P_test)
qed

lemma trial_absent:
  assumes tr: "trial k a b c s0 s fl e t r" and e: "\<not> present (e (PDX va))"
  shows "page_lookup s (kpage k) va = Some None" "fl = [] \<Longrightarrow> page_insert s (kpage k) (Some p) va perm = Some (- E_NO_MEM, s)"
proof -
  note T = trialD [OF tr]
  have n: "\<not> present (entry s k (PDX va))"
    using T(14) e by simp
  then show "page_lookup s (kpage k) va = Some None"
    by (simp add: page_lookup_def walk_absent)
  show "page_insert s (kpage k) (Some p) va perm = Some (- E_NO_MEM, s)" if "fl = []"
    using walk_no_memory [OF n] T(11) that by (simp add: page_insert_def)
qed

lemma trial_new_table:
  assumes tr: "trial k a b c s0 s (a # ys) e t r" and e: "\<not> present (e (PDX va))"
  shows "\<exists>s'. pgdir_walk s (kpage k) va True = Some (slot (kpage a) (PTX va), s') \<and>
    trial k a b c s0 s' ys (e(PDX va := page2pa a OR PTE_P OR PTE_W)) (\<lambda>_. 0) (r(a := r a + 1))"
proof -
  note T = trialD [OF tr]
  obtain s1 where s1: "page_alloc s ALLOC_ZERO = Some (Some a, s1)" "trial k a b c s0 s1 ys e (\<lambda>_. 0) r" "a \<notin> set ys"
    using trial_alloc_zero [OF tr] by blast
  define s3 where "s3 = kst (slot (kpage k) (PDX va)) (page2pa a OR PTE_P OR PTE_W) (upd_page a (\<lambda>pg. pg\<lparr>pp_ref := pp_ref pg + 1\<rparr>) s1)"
  have t3: "trial k a b c s0 s3 ys (e(PDX va := page2pa a OR PTE_P OR PTE_W)) (\<lambda>_. 0) (r(a := r a + 1))"
    unfolding s3_def by (intro trial_dir trial_ref [OF s1(2), where n = "\<lambda>n. n + 1"] s1(3)) simp_all
  have "page2kva s3 a = Some (kpage a)"
    using page2kva_kpage [OF trialD(5,8) [OF t3]] by simp
  then have "pgdir_walk s (kpage k) va True = Some (slot (kpage a) (PTX va), s3)"
    using e T(14) s1(1) by (simp add: pgdir_walk_def kld_kpage Let_def PTE_P_test s3_def)
  then show ?thesis
    using t3 by blast
qed

lemma trial_decref:
  assumes tr: "trial k a b c s0 s fl e t r" and q: "q \<in> {a, b, c}" "r q \<noteq> 0"
  shows "trial k a b c s0 (page_decref s q) (if r q = 1 then q # fl else fl) e t (r(q := r q - 1))"
proof -
  note T = trialD [OF tr]
  have n: "q \<notin> set fl"
    using T(11) T(16) [OF q(1)] q(2) by (auto simp: free_list_def)
  let ?s1 = "upd_page q (\<lambda>pg. pg\<lparr>pp_ref := pp_ref pg - 1\<rparr>) s"
  have t1: "trial k a b c s0 ?s1 fl e t (r(q := r q - 1))"
    by (rule trial_ref [OF tr q(1) n])
  have "pp_ref (pages ?s1 q) = 0 \<longleftrightarrow> r q = 1"
    using trialD(16) [OF t1 q(1)] by simp
  then show ?thesis
    using t1 trial_free [OF t1 q(1) _ n] by (simp add: page_decref_def Let_def)
qed

lemma trial_remove:
  assumes tr: "trial k a b c s0 s fl e t r" and e: "present (e (PDX va))" "frame (e (PDX va)) = a"
    and q: "present (t (PTX va))" "frame (t (PTX va)) = q" "q \<in> {a, b, c}" "r q \<noteq> 0"
  shows "\<exists>s'. page_remove s (kpage k) va = Some s' \<and>
    trial k a b c s0 s' (if r q = 1 then q # fl else fl) e (t(PTX va := 0)) (r(q := r q - 1))"
proof -
  note T = trialD [OF tr] and W = trial_walk [OF tr e]
  have nz: "slot (kpage a) (PTX va) \<noteq> 0"
    using slot_kpage_nonzero [OF T(6) PTX_less] by blast
  have "q < unat (npages s)"
    using T(5) [of q] q(3) by blast
  then have "pa2page s (PTE_ADDR (t (PTX va))) = Some q"
    using pa2page_frame [of "PTE_ADDR (t (PTX va))" s] q(2) by (simp add: frame_def)
  then have look: "page_lookup s (kpage k) va = Some (Some (q, slot (kpage a) (PTX va)))"
    using W(1,2) nz q(1) by (simp add: page_lookup_def PTE_P_test)
  define s1 where "s1 = page_decref s q"
  define s2 where "s2 = (if pp_ref (pages s1 q) = 0 then tlb_invalidate (kpage k) va s1 else s1)"
  have "trial k a b c s0 s1 (if r q = 1 then q # fl else fl) e t (r(q := r q - 1))"
    unfolding s1_def by (rule trial_decref [OF tr q(3,4)])
  then have "trial k a b c s0 s2 (if r q = 1 then q # fl else fl) e t (r(q := r q - 1))"
    by (cases "pp_ref (pages s1 q) = 0") (simp_all only: s2_def trial_tlb if_True if_False refl)
  then have "trial k a b c s0 (kst (slot (kpage a) (PTX va)) 0 s2) (if r q = 1 then q # fl else fl) e (t(PTX va := 0)) (r(q := r q - 1))"
    by (rule trial_table) simp
  moreover have "page_remove s (kpage k) va = Some (kst (slot (kpage a) (PTX va)) 0 s2)"
    using look by (simp add: page_remove_def s1_def s2_def Let_def)
  ultimately show ?thesis
    by blast
qed

text \<open>The page \<open>p\<close> replaces what the entry of \<open>va\<close> held: the same page, nothing, or another page.\<close>

lemma trial_insert:
  assumes walk: "pgdir_walk s (kpage k) va True = Some (slot (kpage a) (PTX va), s1)" and tr: "trial k a b c s0 s1 fl e t r"
    and e: "present (e (PDX va))" "frame (e (PDX va)) = a" and p: "p \<in> {b, c}" "p \<notin> set fl" and perm: "unat perm < 4096"
    and old: "present (t (PTX va)) \<and> frame (t (PTX va)) = p \<and> fl' = fl \<and> r' = r \<or> t (PTX va) = 0 \<and> fl' = fl \<and> r' = r(p := r p + 1) \<or>
      (\<exists>q. present (t (PTX va)) \<and> frame (t (PTX va)) = q \<and> q \<noteq> p \<and> q \<in> {b, c} \<and> r q \<noteq> 0 \<and> fl' = (if r q = 1 then q # fl else fl) \<and>
         r' = r(p := r p + 1, q := r q - 1))"
  shows "\<exists>s'. page_insert s (kpage k) (Some p) va perm = Some (0, s') \<and>
    trial k a b c s0 s' fl' (e(PDX va := e (PDX va) OR (perm OR PTE_P))) (t(PTX va := page2pa p OR perm OR PTE_P)) r'"
proof -
  let ?e = "e(PDX va := e (PDX va) OR (perm OR PTE_P))" and ?v = "page2pa p OR perm OR PTE_P"
  define s2 where "s2 = kst (slot (kpage k) (PDX va)) (entry s1 k (PDX va) OR (perm OR PTE_P)) s1"
  have t2: "trial k a b c s0 s2 fl ?e t r"
    unfolding s2_def using trial_dir [OF tr PDX_less] trialD(14) [OF tr PDX_less] by simp
  have "unat (perm OR PTE_P) < 4096"
    using perm by (auto intro: flags_or simp: layout)
  then have e2: "present (?e (PDX va))" "frame (?e (PDX va)) = a"
    using e frame_keep_or by simp_all
  note T = trialD [OF t2] and W = trial_walk [OF t2 e2]
  have e3: "present (entry s2 k (PDX va))" "frame (entry s2 k (PDX va)) = a"
    using e2 T(14) by (simp_all del: fun_upd_apply)
  have run: "page_insert s (kpage k) (Some p) va perm = store_pte s2 k a p va perm"
    by (rule page_insert_store [OF walk T(6) s2_def e3]) simp
  have lt: "p < 65536" "p \<noteq> 0" "paddr (pages s2 p) = page2pa p"
    using T(3,4,7) T(5) [of p] T(6) [of p] p(1) by (auto simp: pages_wf_def)
  let ?s3 = "upd_page p (\<lambda>pg. pg\<lparr>pp_ref := pp_ref pg + 1\<rparr>) s2"
  have t3: "trial k a b c s0 ?s3 fl ?e t (r(p := r p + 1))"
    by (rule trial_ref [OF t2]) (use p in auto)
  from old consider (same) "present (t (PTX va))" "frame (t (PTX va)) = p" "fl' = fl" "r' = r"
    | (empty) "t (PTX va) = 0" "fl' = fl" "r' = r(p := r p + 1)"
    | (other) q where "present (t (PTX va))" "frame (t (PTX va)) = q" "q \<noteq> p" "q \<in> {b, c}" "r q \<noteq> 0" "fl' = (if r q = 1 then q # fl else fl)"
      "r' = r(p := r p + 1, q := r q - 1)"
    by blast
  then show ?thesis
  proof cases
    case same
    then have "store_pte s2 k a p va perm = Some (0, kst (slot (kpage a) (PTX va)) ?v s2)"
      using lt(3) by (simp add: store_pte_def W(4) PTE_ADDR_frame)
    then show ?thesis
      using run trial_table [OF t2 PTX_less, of va ?v] same by simp
  next
    case empty
    moreover have "page2pa p \<noteq> page2pa 0"
      using lt page2pa_inject [of p 0] by simp
    ultimately have "store_pte s2 k a p va perm = Some (0, kst (slot (kpage a) (PTX va)) ?v ?s3)"
      using lt(3) by (simp add: store_pte_def W(4) PTE_ADDR_frame frame_def PGNUM_def)
    then show ?thesis
      using run trial_table [OF t3 PTX_less, of va ?v] empty by simp
  next
    case (other q)
    have q: "q < 65536" "q \<in> {a, b, c}" "(r(p := r p + 1)) q = r q"
      using T(6) [of q] other(3,4) by auto
    obtain s4 where s4: "page_remove ?s3 (kpage k) va = Some s4"
      "trial k a b c s0 s4 fl' ?e (t(PTX va := 0)) r'"
      using trial_remove [OF t3 e2 other(1,2) q(2)] other(5) unfolding q(3) other(6,7) by blast
    have "page2pa p \<noteq> page2pa q"
      using lt q(1) other(3) page2pa_inject [of p q] by simp
    then have "store_pte s2 k a p va perm = Some (0, kst (slot (kpage a) (PTX va)) ?v s4)"
      using lt(3) s4(1) other(1,2) by (simp add: store_pte_def W(4) PTE_ADDR_frame)
    then show ?thesis
      using run trial_table [OF s4(2) PTX_less, of va ?v] by simp
  qed
qed

text \<open>The repeated assertions, in the scenario.\<close>

lemma trial_no_page: "trial k a b c s0 s [] e t r \<Longrightarrow> no_page s = Some s"
  using no_page_run trialD(11) by blast

lemma trial_allocs:
  assumes "trial k a b c s0 s (x # ys) e t r" "x \<in> {a, b, c}"
  shows "\<exists>s'. allocs x s = Some s' \<and> trial k a b c s0 s' ys e t r"
  using trial_alloc [OF assms] by (auto simp: allocs_def)

lemma trial_refs: "trial k a b c s0 s fl e t r \<Longrightarrow> q \<in> {a, b, c} \<Longrightarrow> refs q (r q) s = Some ()"
  using trialD(16) by (simp add: refs_def)

lemma trial_at:
  assumes "trial k a b c s0 s fl e t r" "present (e (PDX va))" "frame (e (PDX va)) = a"
  shows "present (t (PTX va)) \<Longrightarrow> frame (t (PTX va)) = p \<Longrightarrow> at_va va (page2pa p) s = Some ()" "\<not> present (t (PTX va)) \<Longrightarrow> at_va va 0xFFFFFFFF s = Some ()"
  using trial_walk(5) [OF assms] trialD(9) [OF assms(1)] by (auto simp: at_va_def PTE_ADDR_frame)

lemma trial_no_insert:
  assumes "trial k a b c s0 s [] e t r" "\<not> present (e (PDX va))"
  shows "no_insert p va perm s = Some s"
  using trial_absent(2) [OF assms] trialD(9) [OF assms(1)] by (simp add: no_insert_def layout)

lemma trial_inserts:
  assumes "trial k a b c s0 s fl e t r" "present (e (PDX va))" "frame (e (PDX va)) = a" "p \<in> {b, c}" "p \<notin> set fl" "unat perm < 4096"
    "present (t (PTX va)) \<and> frame (t (PTX va)) = p \<and> fl' = fl \<and> r' = r \<or> t (PTX va) = 0 \<and> fl' = fl \<and> r' = r(p := r p + 1) \<or>
      (\<exists>q. present (t (PTX va)) \<and> frame (t (PTX va)) = q \<and> q \<noteq> p \<and> q \<in> {b, c} \<and> r q \<noteq> 0 \<and> fl' = (if r q = 1 then q # fl else fl) \<and>
         r' = r(p := r p + 1, q := r q - 1))"
  shows "\<exists>s'. inserts p va perm s = Some s' \<and>
    trial k a b c s0 s' fl' (e(PDX va := e (PDX va) OR (perm OR PTE_P))) (t(PTX va := page2pa p OR perm OR PTE_P)) r'"
  using trial_insert [OF trial_walk(1) [OF assms(1-3)] assms] trialD(9) [OF assms(1)] by (auto simp: inserts_def)

lemma table_value:
  assumes "a < 65536"
  shows "present (page2pa a OR PTE_P OR PTE_W)" "frame (page2pa a OR PTE_P OR PTE_W) = a"
  by (simp, rule frame_or_flags [OF assms]) (simp add: layout)

lemma trial_inserts_new:
  assumes tr: "trial k a b c s0 s (a # ys) e t r" and e: "\<not> present (e (PDX va))" and p: "p \<in> {b, c}" "p \<notin> set ys" "unat perm < 4096"
  shows "\<exists>s'. inserts p va perm s = Some s' \<and> trial k a b c s0 s' ys (e(PDX va := (page2pa a OR PTE_P OR PTE_W) OR (perm OR PTE_P)))
    ((\<lambda>_. 0)(PTX va := page2pa p OR perm OR PTE_P)) (r(a := r a + 1, p := r p + 1))"
proof -
  obtain s1 where s1: "pgdir_walk s (kpage k) va True = Some (slot (kpage a) (PTX va), s1)"
    "trial k a b c s0 s1 ys (e(PDX va := page2pa a OR PTE_P OR PTE_W)) (\<lambda>_. 0) (r(a := r a + 1))"
    using trial_new_table [OF tr e] by blast
  have "p \<noteq> a"
    using trialD(1) [OF tr] p(1) by auto
  then show ?thesis
    using trial_insert [OF s1 _ _ p, where fl' = ys and r' = "r(a := r a + 1, p := r p + 1)"] table_value [OF trialD(6) [OF tr], of a] trialD(9) [OF tr]
    by (auto simp: inserts_def)
qed

lemma flag_U: "((x :: u32) OR ((PTE_W OR PTE_U) OR PTE_P)) AND PTE_U \<noteq> 0" "(page2pa p OR PTE_W OR PTE_P) AND PTE_U = 0"
proof -
  have "bit ((x OR ((PTE_W OR PTE_U) OR PTE_P)) AND PTE_U) 2"
    by (simp add: layout bit_simps)
  then show "(x OR ((PTE_W OR PTE_U) OR PTE_P)) AND PTE_U \<noteq> 0"
    by auto
  have U: "PTE_U = push_bit 2 (1 :: u32)" and F: "PTE_W OR PTE_P = (3 :: u32)"
    by (simp_all add: layout)
  have b: "bit (PTE_U :: u32) n \<longleftrightarrow> n = 2" for n
    unfolding U bit_push_bit_iff bit_1_iff by auto
  have "\<not> bit (3 :: u32) 2"
    by simp
  then show "(page2pa p OR PTE_W OR PTE_P) AND PTE_U = 0"
    unfolding F by (intro bit_word_eqI) (auto simp: b page2pa_def PGSHIFT_def bit_and_iff bit_or_iff bit_push_bit_iff)
qed

lemma trial_va: "PDX 0 = 0" "PTX 0 = 0" "PDX PGSIZE = 0" "PTX PGSIZE = 1" "PDX PTSIZE = 1"
  by (simp_all add: PDX_def PTX_def layout)

lemma check_page_map_run:
  assumes tr: "trial k a b c s0 s [] e t (\<lambda>_. 0)" and e: "\<not> present (e 0)" "\<not> present (e 1)"
  shows "\<exists>s' v. check_page_map a b c s = Some s' \<and> present v \<and> frame v = a \<and>
    trial k a b c s0 s' [] (e(0 := v)) ((\<lambda>_. 0)(0 := page2pa b OR PTE_W OR PTE_P, 1 := page2pa b OR PTE_W OR PTE_P)) ((\<lambda>_. 0)(a := 1, b := 2, c := 0))"
proof -
  note T = trialD [OF tr]
  have lt: "a < 65536" "b < 65536" "c < 65536" and d: "a \<noteq> b" "a \<noteq> c" "b \<noteq> c"
    using T(1) T(6) [of a] T(6) [of b] T(6) [of c] by auto
  have W: "unat PTE_W < 4096" "unat (PTE_W OR PTE_U) < 4096" "unat (PTE_W OR PTE_P) < 4096" "unat ((PTE_W OR PTE_U) OR PTE_P) < 4096"
    by (simp_all add: layout)
  have or: "present (x OR g) \<and> frame (x OR g) = a" if "present x \<and> frame x = a" "unat g < 4096" for x g
    using that frame_keep_or by simp
  have pg: "present (page2pa q OR g OR PTE_P)" "frame (page2pa q OR PTE_W OR PTE_P) = q" "frame (page2pa q OR (PTE_W OR PTE_U) OR PTE_P) = q"
    if "q < 65536" for q g
    using that W(3,4) frame_or_flags [of q] by (simp_all add: or.assoc)
  define v1 where "v1 = (page2pa a OR PTE_P OR PTE_W) OR (PTE_W OR PTE_P)"
  define v2 where "v2 = v1 OR (PTE_W OR PTE_P)"
  define v3 where "v3 = v2 OR (PTE_W OR PTE_P)"
  define v4 where "v4 = v3 OR ((PTE_W OR PTE_U) OR PTE_P)"
  define v5 where "v5 = v4 OR (PTE_W OR PTE_P)"
  have "present v1 \<and> frame v1 = a"
    unfolding v1_def by (rule or [OF _ W(3)]) (simp only: table_value [OF lt(1)] simp_thms)
  moreover from this have "present v2 \<and> frame v2 = a"
    unfolding v2_def by (rule or [OF _ W(3)])
  moreover from this have "present v3 \<and> frame v3 = a"
    unfolding v3_def by (rule or [OF _ W(3)])
  moreover from this have "present v4 \<and> frame v4 = a"
    unfolding v4_def by (rule or [OF _ W(4)])
  moreover from this have "present v5 \<and> frame v5 = a"
    unfolding v5_def by (rule or [OF _ W(3)])
  ultimately have v: "present v1" "frame v1 = a" "present v2" "frame v2 = a" "present v3" "frame v3 = a" "present v4" "frame v4 = a" "present v5" "frame v5 = a"
    by blast+
  let ?b = "page2pa b OR PTE_W OR PTE_P" and ?c = "page2pa c OR PTE_W OR PTE_P" and ?c' = "page2pa c OR (PTE_W OR PTE_U) OR PTE_P"
  have f: "trial k a b c s0 (page_free s (Some a)) [a] e t (\<lambda>_. 0)"
    by (rule trial_free [OF tr]) simp_all
  obtain s1 where s1: "inserts b 0 PTE_W (page_free s (Some a)) = Some s1" "trial k a b c s0 s1 [] (e(0 := v1)) ((\<lambda>_. 0)(0 := ?b)) ((\<lambda>_. 0)(a := 1, b := 1))"
    using trial_inserts_new [OF f, of 0 b PTE_W] e(1) W(1) d unfolding v1_def by (auto simp: trial_va)
  obtain s2 where s2: "inserts c PGSIZE PTE_W s1 = Some s2"
    "trial k a b c s0 s2 [] (e(0 := v2)) ((\<lambda>_. 0)(0 := ?b, 1 := ?c)) ((\<lambda>_. 0)(a := 1, b := 1, c := 1))"
    using trial_inserts [OF s1(2), of PGSIZE c PTE_W "[]" "(\<lambda>_. 0)(a := 1, b := 1, c := 1)"] v(1,2) W(1) d unfolding v2_def by (auto simp: trial_va)
  obtain s3 where s3: "inserts c PGSIZE PTE_W s2 = Some s3"
    "trial k a b c s0 s3 [] (e(0 := v3)) ((\<lambda>_. 0)(0 := ?b, 1 := ?c)) ((\<lambda>_. 0)(a := 1, b := 1, c := 1))"
    using trial_inserts [OF s2(2), of PGSIZE c PTE_W "[]" "(\<lambda>_. 0)(a := 1, b := 1, c := 1)"] v(3,4) W(1) d pg [OF lt(3)] unfolding v3_def by (auto simp: trial_va)
  obtain s4 where s4: "inserts c PGSIZE (PTE_W OR PTE_U) s3 = Some s4"
    "trial k a b c s0 s4 [] (e(0 := v4)) ((\<lambda>_. 0)(0 := ?b, 1 := ?c')) ((\<lambda>_. 0)(a := 1, b := 1, c := 1))"
    using trial_inserts [OF s3(2), of PGSIZE c "PTE_W OR PTE_U" "[]" "(\<lambda>_. 0)(a := 1, b := 1, c := 1)"] v(5,6) W(2) d pg [OF lt(3)] unfolding v4_def
    by (auto simp: trial_va or.assoc)
  obtain s5 where s5: "inserts b PGSIZE PTE_W s4 = Some s5"
    "trial k a b c s0 s5 [c] (e(0 := v5)) ((\<lambda>_. 0)(0 := ?b, 1 := ?b)) ((\<lambda>_. 0)(a := 1, b := 2, c := 0))"
    using trial_inserts [OF s4(2), of PGSIZE b PTE_W "[c]" "(\<lambda>_. 0)(a := 1, b := 2, c := 0)"] v(7,8) W(1) d pg [OF lt(3)] unfolding v5_def
    by (auto simp: trial_va or.assoc)
  obtain s6 where s6: "allocs c s5 = Some s6" "trial k a b c s0 s6 [] (e(0 := v5)) ((\<lambda>_. 0)(0 := ?b, 1 := ?b)) ((\<lambda>_. 0)(a := 1, b := 2, c := 0))"
    using trial_allocs [OF s5(2)] by auto
  note K = trialD(9) [OF tr] trialD(9) [OF s1(2)] trialD(9) [OF s2(2)] trialD(9) [OF s3(2)] trialD(9) [OF s4(2)] trialD(9) [OF s5(2)]
  have a1: "PTE_ADDR (kld s1 (slot (kern_pgdir s1) 0)) = page2pa a" "at_va 0 (page2pa b) s1 = Some ()" "refs b 1 s1 = Some ()" "refs a 1 s1 = Some ()"
    using trial_walk(3) [OF s1(2), of 0] trial_at(1) [OF s1(2), of 0 b] trial_refs [OF s1(2), of b] trial_refs [OF s1(2), of a] v pg [OF lt(2)] d K
    by (simp_all add: trial_va PTE_ADDR_frame)
  have a2: "at_va PGSIZE (page2pa c) s2 = Some ()" "refs c 1 s2 = Some ()"
    using trial_at(1) [OF s2(2), of PGSIZE c] trial_refs [OF s2(2), of c] v pg [OF lt(3)] by (simp_all add: trial_va)
  have a3: "at_va PGSIZE (page2pa c) s3 = Some ()" "refs c 1 s3 = Some ()" "pgdir_walk s3 (kern_pgdir s3) PGSIZE False = Some (slot (kpage a) (PTX PGSIZE), s3)"
    "KADDR s3 (PTE_ADDR (kld s3 (slot (kern_pgdir s3) (PDX PGSIZE)))) = Some (kpage a)"
    using trial_at(1) [OF s3(2), of PGSIZE c] trial_refs [OF s3(2), of c] trial_walk(1,3,6) [OF s3(2), of PGSIZE] v pg [OF lt(3)] K
    by (simp_all add: trial_va)
  have a4: "at_va PGSIZE (page2pa c) s4 = Some ()" "refs c 1 s4 = Some ()" "pgdir_walk s4 (kern_pgdir s4) PGSIZE False = Some (slot (kpage a) (PTX PGSIZE), s4)"
    "kld s4 (slot (kpage a) (PTX PGSIZE)) = ?c'" "kld s4 (slot (kern_pgdir s4) 0) = v4"
    using trial_at(1) [OF s4(2), of PGSIZE c] trial_refs [OF s4(2), of c] trial_walk(1-3) [OF s4(2), of PGSIZE] v pg [OF lt(3)] K
    by (simp_all add: trial_va)
  have a5: "pgdir_walk s5 (kern_pgdir s5) PGSIZE False = Some (slot (kpage a) (PTX PGSIZE), s5)" "kld s5 (slot (kpage a) (PTX PGSIZE)) = ?b"
     "at_va 0 (page2pa b) s5 = Some ()" "at_va PGSIZE (page2pa b) s5 = Some ()" "refs b 2 s5 = Some ()" "refs c 0 s5 = Some ()"
    using trial_at(1) [OF s5(2), of PGSIZE b] trial_at(1) [OF s5(2), of 0 b] trial_refs [OF s5(2), of b] trial_refs [OF s5(2), of c]
      trial_walk(1-3) [OF s5(2), of PGSIZE] v pg [OF lt(2)] K d by (simp_all add: trial_va)
  have n: "no_page s = Some s" "page_lookup s (kern_pgdir s) 0 = Some None" "no_insert b 0 PTE_W s = Some s" "no_page s2 = Some s2" "no_page s3 = Some s3"
    "no_insert a PTSIZE PTE_W s4 = Some s4"
    using trial_no_page tr s2(2) s3(2) trial_absent(1) [OF tr, of 0] trial_no_insert [OF tr, of 0] trial_no_insert [OF s4(2), of PTSIZE] e K
    by (auto simp: trial_va)
  have "check_page_map a b c s = Some s6"
    unfolding check_page_map_def using n a1 a2 a3 a4 a5 s1(1) s2(1) s3(1) s4(1) s5(1) s6(1) flag_U
    by (simp add: v4_def)
  then show ?thesis
    using s6(2) v(9,10) by blast
qed

lemma check_page_unmap_run:
  assumes tr: "trial k a b c s0 s [] (e(0 := v)) t ((\<lambda>_. 0)(a := 1, b := 2, c := 0))" and v: "present v" "frame v = a"
    and t: "present (t 0)" "frame (t 0) = b" "present (t 1)" "frame (t 1) = b"
  shows "\<exists>s' t'. check_page_unmap a b c s = Some s' \<and> trial k a b c s0 s' [] (e(0 := 0)) t' (\<lambda>_. 0)"
proof -
  have d: "a \<noteq> b" "a \<noteq> c" "b \<noteq> c"
    using trialD(1) [OF tr] by auto
  obtain s1 where s1: "page_remove s (kpage k) 0 = Some s1" "trial k a b c s0 s1 [] (e(0 := v)) (t(0 := 0)) ((\<lambda>_. 0)(a := 1, b := 1, c := 0))"
    using trial_remove [OF tr, of 0 b] v t d by (auto simp: trial_va fun_upd_twist)
  obtain s2 where s2: "page_remove s1 (kpage k) PGSIZE = Some s2" "trial k a b c s0 s2 [b] (e(0 := v)) (t(0 := 0, 1 := 0)) ((\<lambda>_. 0)(a := 1, b := 0, c := 0))"
    using trial_remove [OF s1(2), of PGSIZE b] v t d by (auto simp: trial_va fun_upd_twist)
  obtain s3 where s3: "allocs b s2 = Some s3" "trial k a b c s0 s3 [] (e(0 := v)) (t(0 := 0, 1 := 0)) ((\<lambda>_. 0)(a := 1, b := 0, c := 0))"
    using trial_allocs [OF s2(2)] by auto
  define s4 where "s4 = kst (slot (kpage k) 0) 0 s3"
  have s4: "trial k a b c s0 s4 [] (e(0 := 0)) (t(0 := 0, 1 := 0)) ((\<lambda>_. 0)(a := 1, b := 0, c := 0))"
    unfolding s4_def using trial_dir [OF s3(2), of 0 0] by simp
  have z: "((\<lambda>_. 0)(a := 1, b := 0, c := 0))(a := 0) = (\<lambda>_. 0 :: u16)"
    by auto
  have s5: "trial k a b c s0 (upd_page a (\<lambda>pg. pg\<lparr>pp_ref := 0\<rparr>) s4) [] (e(0 := 0)) (t(0 := 0, 1 := 0)) (\<lambda>_. 0)"
    using trial_ref [OF s4, of a "\<lambda>_. 0"] unfolding z by simp
  note K = trialD(9) [OF tr] trialD(9) [OF s1(2)] trialD(9) [OF s2(2)] trialD(9) [OF s3(2)]
  have a1: "at_va 0 0xFFFFFFFF s1 = Some ()" "at_va PGSIZE (page2pa b) s1 = Some ()" "refs b 1 s1 = Some ()" "refs c 0 s1 = Some ()"
    using trial_at(2) [OF s1(2), of 0] trial_at(1) [OF s1(2), of PGSIZE b] trial_refs [OF s1(2), of b] trial_refs [OF s1(2), of c] v t d
    by (simp_all add: trial_va)
  have a2: "at_va 0 0xFFFFFFFF s2 = Some ()" "at_va PGSIZE 0xFFFFFFFF s2 = Some ()" "refs b 0 s2 = Some ()" "refs c 0 s2 = Some ()"
    using trial_at(2) [OF s2(2), of 0] trial_at(2) [OF s2(2), of PGSIZE] trial_refs [OF s2(2), of b] trial_refs [OF s2(2), of c] v d
    by (simp_all add: trial_va)
  have "PTE_ADDR v = page2pa a"
    using v(2) by (simp add: PTE_ADDR_frame)
  then have a3: "no_page s3 = Some s3" "PTE_ADDR (kld s3 (slot (kpage k) 0)) = page2pa a" "refs a 1 s4 = Some ()"
    using trial_no_page [OF s3(2)] trial_walk(3) [OF s3(2), of 0] trial_refs [OF s4, of a] v d by (simp_all add: trial_va)
  have "check_page_unmap a b c s = Some (upd_page a (\<lambda>pg. pg\<lparr>pp_ref := 0\<rparr>) s4)"
    unfolding check_page_unmap_def using a1 a2 a3 s1(1) s2(1) s3(1) K by (simp add: s4_def)
  then show ?thesis
    using s5 by blast
qed

lemma trial_fill:
  assumes tr: "trial k a b c s0 s fl e t r"
  shows "\<exists>t'. trial k a b c s0 (s\<lparr>pmem := fill_bytes (pmem s) (page2pa a) v 4096\<rparr>) fl e t' r"
proof -
  note T = trialD [OF tr]
  let ?s' = "s\<lparr>pmem := fill_bytes (pmem s) (page2pa a) v 4096\<rparr>"
  have "pmem ?s' x = pmem s x" if "PTE_ADDR x \<noteq> page2pa a" for x
    using that in_range_page [OF T(6), of a "PTE_ADDR x" x] by (auto simp: fill_bytes_def)
  then have "entry ?s' f i = entry s f i" if "f < 65536" "f \<noteq> a" "unat i < 1024" for f i
    by (intro entry_outside [OF that(1) T(6) that(2,3)]) auto
  then have "trial k a b c s0 ?s' fl e (entry ?s' a) r"
    by (intro trialI [OF tr]) (use T(1,7,11,14,16) in \<open>auto simp: mm_frame_def free_list_def\<close>)
  then show ?thesis
    by blast
qed

lemma trial_page2kva: "trial k a b c s0 s fl e t r \<Longrightarrow> page2kva s a = Some (kpage a)"
  using page2kva_kpage [OF trialD(5,8)] by simp

lemma check_page_tables_run:
  assumes tr: "trial k a b c s0 s [] e t (\<lambda>_. 0)" and e: "\<not> present (e 0)" "\<not> present (e 1)"
  shows "\<exists>s' t'. check_page_tables a s = Some s' \<and> trial k a b c s0 s' [] (e(1 := 0, 0 := 0)) t' (\<lambda>_. 0)"
proof -
  let ?va = "PGSIZE * word_of_nat NPDENTRIES + PGSIZE" and ?v = "page2pa a OR PTE_P OR PTE_W"
  have va: "PDX ?va = 1" "PTX ?va = 1"
    by (simp_all add: PDX_def PTX_def layout)
  note v = table_value [OF trialD(6) [OF tr], of a, simplified]
  have z: "(\<lambda>_. 0 :: u16)(a := 0) = (\<lambda>_. 0)"
    by auto
  have f1: "trial k a b c s0 (page_free s (Some a)) [a] e t (\<lambda>_. 0)"
    by (rule trial_free [OF tr]) simp_all
  obtain s1 where s1: "pgdir_walk (page_free s (Some a)) (kpage k) ?va True = Some (slot (kpage a) (PTX ?va), s1)"
    "trial k a b c s0 s1 [] (e(1 := ?v)) (\<lambda>_. 0) ((\<lambda>_. 0)(a := 1))"
    using trial_new_table [OF f1, of ?va] e(2) unfolding va by auto
  define s2 where "s2 = upd_page a (\<lambda>pg. pg\<lparr>pp_ref := 0\<rparr>) (kst (slot (kpage k) 1) 0 s1)"
  have s2: "trial k a b c s0 s2 [] (e(1 := 0)) (\<lambda>_. 0) (\<lambda>_. 0)"
    unfolding s2_def using trial_ref [OF trial_dir [OF s1(2), of 1 0], of a "\<lambda>_. 0"] by (simp add: z)
  define s3 where "s3 = s2\<lparr>pmem := fill_bytes (pmem s2) (page2pa a) 0xFF 4096\<rparr>"
  obtain t3 where s3: "trial k a b c s0 s3 [] (e(1 := 0)) t3 (\<lambda>_. 0)"
    unfolding s3_def using trial_fill [OF s2] by blast
  have f3: "trial k a b c s0 (page_free s3 (Some a)) [a] (e(1 := 0)) t3 (\<lambda>_. 0)"
    by (rule trial_free [OF s3]) simp_all
  obtain s4 where s4: "pgdir_walk (page_free s3 (Some a)) (kpage k) 0 True = Some (slot (kpage a) 0, s4)"
    "trial k a b c s0 s4 [] (e(1 := 0, 0 := ?v)) (\<lambda>_. 0) ((\<lambda>_. 0)(a := 1))"
    using trial_new_table [OF f3, of 0] e(1) by (auto simp: trial_va)
  define s5 where "s5 = upd_page a (\<lambda>pg. pg\<lparr>pp_ref := 0\<rparr>) (kst (slot (kpage k) 0) 0 s4)"
  have s5: "trial k a b c s0 s5 [] (e(1 := 0, 0 := 0)) (\<lambda>_. 0) (\<lambda>_. 0)"
    unfolding s5_def using trial_ref [OF trial_dir [OF s4(2), of 0 0], of a "\<lambda>_. 0"] by (simp add: z)
  have "kld s4 (slot (kpage a) (word_of_nat i)) = 0" if "i < 1024" for i
    using trialD(15) [OF s4(2), of "word_of_nat i"] that by (simp add: kld_kpage unat_of_nat)
  then have c4: "list_all (\<lambda>i. kld s4 (slot (kpage a) (word_of_nat i)) AND PTE_P = 0) [0..<NPTENTRIES]"
    by (simp add: list_all_iff layout)
  have ka: "KADDR s1 (PTE_ADDR (kld s1 (slot (kpage k) 1))) = Some (kpage a)"
    using trial_walk(3,6) [OF s1(2), of ?va] v unfolding va by simp
  note K = trialD(9) [OF tr] trialD(9) [OF s1(2)] trialD(9) [OF s2] trialD(9) [OF s3] trialD(9) [OF s4(2)]
  have pm: "pmem s2 = pmem (kst (slot (kpage k) 1) 0 s1)"
    by (simp add: s2_def)
  have "kpage a - KERNBASE = page2pa a"
    by (simp add: kpage_def)
  then have "check_page_tables a s = Some s5"
    unfolding check_page_tables_def va(1) using s1(1) s4(1) ka c4 K trial_page2kva [OF s2] trial_page2kva [OF s4(2)]
    by (simp add: va s2_def [symmetric] pm [symmetric] s3_def [symmetric] s5_def [symmetric])
  then show ?thesis
    using s5 by blast
qed

text \<open>When the directory has its entries back and no page has a reference left, the scenario has only touched its three pages.\<close>

lemma trial_untouched:
  assumes tr: "trial k a b c s0 s fl e t (\<lambda>_. 0)" and s0: "pages_wf s0" "\<And>q. q \<in> {a, b, c} \<Longrightarrow> pp_ref (pages s0 q) = 0"
    and e: "\<And>i. unat i < 1024 \<Longrightarrow> e i = entry s0 k i"
  shows "untouched [a, b, c] s0 s"
  unfolding untouched_def
proof (intro conjI allI impI)
  note T = trialD [OF tr]
  show mm: "mm_frame s0 s"
    by (rule T(10))
  fix q
  have "q < unat (npages s0)" if "q \<in> {a, b, c}"
    using T(5) [of q] that mm by (auto simp: mm_frame_def)
  then show "paddr (pages s q) = paddr (pages s0 q)"
    using T(7) T(12) [of q] mm s0(1) by (cases "q \<in> {a, b, c}") (auto simp: pages_wf_def mm_frame_def)
  show "pp_ref (pages s q) = pp_ref (pages s0 q)"
    using s0(2) T(12,16) [of q] by (cases "q \<in> {a, b, c}") auto
  show "pages s q = pages s0 q" if "q \<notin> set [a, b, c]"
    using T(12) [of q] that by simp
next
  note T = trialD [OF tr]
  fix f i assume f: "f < 65536" "f \<notin> set [a, b, c]" "unat (i :: u32) < 1024"
  then show "entry s f i = entry s0 f i"
    using T(13) [OF f(1,3)] T(14) [OF f(3)] e [OF f(3)] by (cases "f = k") auto
qed

text \<open>The whole test, from a state in which the first two entries of the directory are empty: it succeeds, the directory is as before, and the
  three pages are again at the front of the free list, in the opposite order.\<close>

lemma check_page_run:
  assumes fl: "free_list s (a # b # c # ys)" "pages_wf s" and k: "kern_pgdir s = kpage k" "k < unat (npages s)" "k \<notin> set (a # b # c # ys)"
    and nz: "0 \<notin> {a, b, c}" and e: "entry s k 0 = 0" "entry s k 1 = 0"
  shows "\<exists>s'. check_page s = Some s' \<and> free_list s' (c # b # a # ys) \<and> untouched [a, b, c] s s'"
proof -
  have d: "distinct (a # b # c # ys)"
    by (rule free_list_distinct [OF fl(1)])
  obtain s1 where s1: "alloc_three s = Some (a, b, c, s1)" "free_list s1 ys" "untouched [a, b, c] s s1" "pmem s1 = pmem s"
    using alloc_three_run [OF fl] by blast
  define s2 where "s2 = s1\<lparr>page_free_list := None\<rparr>"
  have u2: "untouched [a, b, c] s s2"
    using untouched_trans [OF s1(3) untouched_list [of "[]"], of "[a, b, c]"] by (simp add: s2_def)
  have "entry s2 = entry s"
    by (rule entry_pmem_cong) (simp add: s2_def s1(4))
  then have t2: "trial k a b c s s2 [] (entry s k) (entry s a) (\<lambda>_. 0)"
    unfolding trial_def using d k nz fl u2 untouched_wf [OF u2] by (auto simp: s2_def untouched_def mm_frame_def free_list_def)
  have ab: "b < 65536"
    using trialD(6) [OF t2] by simp
  obtain s3 v where s3: "check_page_map a b c s2 = Some s3" "present v" "frame v = a"
    "trial k a b c s s3 [] ((entry s k)(0 := v)) ((\<lambda>_. 0)(0 := page2pa b OR PTE_W OR PTE_P, 1 := page2pa b OR PTE_W OR PTE_P)) ((\<lambda>_. 0)(a := 1, b := 2, c := 0))"
    using check_page_map_run [OF t2] e by auto
  have pb: "present (page2pa b OR PTE_W OR PTE_P)" "frame (page2pa b OR PTE_W OR PTE_P) = b"
    using frame_or_flags [OF ab, of "PTE_W OR PTE_P"] by (simp_all add: layout) (simp add: present_bit bit_or_iff)
  obtain s4 t4 where s4: "check_page_unmap a b c s3 = Some s4" "trial k a b c s s4 [] ((entry s k)(0 := 0)) t4 (\<lambda>_. 0)"
    using check_page_unmap_run [OF s3(4,2,3)] pb by auto
  obtain s5 t5 where s5: "check_page_tables a s4 = Some s5" "trial k a b c s s5 [] ((entry s k)(0 := 0, 1 := 0, 0 := 0)) t5 (\<lambda>_. 0)"
    using check_page_tables_run [OF s4(2)] e by auto
  have ek: "(entry s k)(0 := 0, 1 := 0, 0 := 0) = entry s k"
    using e by auto
  have z: "\<And>q. q \<in> {a, b, c} \<Longrightarrow> pp_ref (pages s q) = 0"
    using fl(1) by (auto simp: free_list_def)
  note u5 = trial_untouched [OF s5(2) [unfolded ek] fl(2) z refl]
  define s6 where "s6 = s5\<lparr>page_free_list := page_free_list s1\<rparr>"
  have u6: "untouched [a, b, c] s s6"
    using untouched_trans [OF u5 untouched_list [of "[]"], of "[a, b, c]"] by (simp add: s6_def)
  have f6: "free_list s6 ys"
    unfolding s6_def by (rule give_back [OF s1(2,3) u5]) (use d in auto)
  define s7 where "s7 = page_free3 s6 a b c"
  have s7: "free_list s7 (c # b # a # ys)" "untouched [a, b, c] s6 s7"
    unfolding s7_def by (rule page_free3_run [OF f6]; use d fl(2) untouched_wf [OF u6] free_list_wf [OF fl(1) u6] in auto)+
  have "check_page s = Some s7"
    using s1(1) s3(1) s4(1) s5(1) by (simp add: check_page_def s2_def [symmetric] s6_def [symmetric] s7_def [symmetric])
  then show ?thesis
    using s7(1) untouched_trans [OF u6 s7(2), of "[a, b, c]"] by auto
qed

subsection \<open>\<^verbatim>\<open>check_page_installed_pgdir\<close>\<close>

text \<open>Words read and written through the directory that is loaded.\<close>

definition va_load32 :: "u32 \<Rightarrow> kstate \<Rightarrow> u32 option" where
  "va_load32 va s = do { pa \<leftarrow> hw_translate s va False; Some (rd32 (pmem s) pa) }"

definition va_store32 :: "u32 \<Rightarrow> u32 \<Rightarrow> kstate \<Rightarrow> kstate option" where
  "va_store32 va v s = do { pa \<leftarrow> hw_translate s va True; Some (s\<lparr>pmem := wr32 (pmem s) pa v\<rparr>) }"

definition memset_page :: "nat \<Rightarrow> u8 \<Rightarrow> kstate \<Rightarrow> kstate option" where
  "memset_page pp v s = do { kva \<leftarrow> page2kva s pp; Some (s\<lparr>pmem := fill_bytes (pmem s) (kva - KERNBASE) v 4096\<rparr>) }"

text \<open>The test from the point where its pages are prepared, then as a whole.\<close>

definition check_installed :: "nat \<Rightarrow> nat \<Rightarrow> nat \<Rightarrow> kstate \<Rightarrow> kstate option" where
  "check_installed pp0 pp1 pp2 s =
     do {
       (_, s) \<leftarrow> page_insert s (kern_pgdir s) (Some pp1) PGSIZE PTE_W;
       _ \<leftarrow> refs pp1 1 s;
       w \<leftarrow> va_load32 PGSIZE s;
       _ \<leftarrow> check (w = 0x01010101);
       (_, s) \<leftarrow> page_insert s (kern_pgdir s) (Some pp2) PGSIZE PTE_W;
       w \<leftarrow> va_load32 PGSIZE s;
       _ \<leftarrow> check (w = 0x02020202);
       _ \<leftarrow> refs pp2 1 s;
       _ \<leftarrow> refs pp1 0 s;
       s \<leftarrow> va_store32 PGSIZE 0x03030303 s;
       kva \<leftarrow> page2kva s pp2;
       _ \<leftarrow> check (kld s kva = 0x03030303);
       s \<leftarrow> page_remove s (kern_pgdir s) PGSIZE;
       _ \<leftarrow> refs pp2 0 s;
       _ \<leftarrow> check (PTE_ADDR (kld s (slot (kern_pgdir s) 0)) = page2pa pp0);
       let s = kst (slot (kern_pgdir s) 0) 0 s;
       _ \<leftarrow> refs pp0 1 s;
       Some (page_free (upd_page pp0 (\<lambda>pg. pg\<lparr>pp_ref := 0\<rparr>) s) (Some pp0))
     }"

definition check_page_installed_pgdir :: "kstate \<Rightarrow> kstate option" where
  "check_page_installed_pgdir s =
     do {
       (pp0, pp1, pp2, s) \<leftarrow> take_three s;
       s \<leftarrow> memset_page pp1 1 (page_free s (Some pp0));
       s \<leftarrow> memset_page pp2 2 s;
       check_installed pp0 pp1 pp2 s
     }"

lemma entry_filled:
  assumes "f < 65536" "f' < 65536" "unat i < 1024" "pmem s' = fill_bytes (pmem s) (page2pa f) v 4096"
  shows "entry s' f' i = (if f' = f then rd32 (\<lambda>_. v) 0 else entry s f' i)"
proof -
  have "in_range (page2pa f) 4096 (slot (page2pa f') i + word_of_nat j) \<longleftrightarrow> f = f'" if "j < 4" for j
    using assms that in_range_page [OF assms(1) _ slot_page [of "page2pa f'" i j]]
    by (simp add: page2pa_inject)
  from this [of 0] this [of 1] this [of 2] this [of 3] show ?thesis
    by (auto simp: entry_def assms(4) fill_bytes_def rd32_def)
qed

lemma memset_page_run:
  assumes "pages_wf s" "p < unat (npages s)"
  shows "\<exists>s'. memset_page p v s = Some s' \<and> free_list s' = free_list s \<and> untouched [p] s s' \<and> pages s' = pages s \<and>
    (\<forall>i. unat i < 1024 \<longrightarrow> entry s' p i = rd32 (\<lambda>_. v) 0)"
proof -
  define s' where "s' = s\<lparr>pmem := fill_bytes (pmem s) (page2pa p) v 4096\<rparr>"
  have p: "p < 65536"
    using assms by (simp add: pages_wf_def)
  have ent: "entry s' f i = (if f = p then rd32 (\<lambda>_. v) 0 else entry s f i)" if "f < 65536" "unat i < 1024" for f i
    by (rule entry_filled [OF p that]) (simp add: s'_def)
  have "memset_page p v s = Some s'"
    using page2kva_kpage [OF assms(2)] assms(1) by (simp add: memset_page_def s'_def kpage_def pages_wf_def)
  moreover have "untouched [p] s s'"
    using ent by (simp add: untouched_def) (simp add: s'_def mm_frame_def)
  moreover have "free_list s' = free_list s" "pages s' = pages s"
    by (simp_all add: s'_def free_list_def fun_eq_iff)
  ultimately show ?thesis
    using ent [OF p] by (intro exI [of _ s'] conjI allI impI) simp_all
qed

lemma trial_start:
  assumes "free_list s fl" "pages_wf s" "kern_pgdir s = kpage k" "distinct [k, a, b, c]" "0 \<notin> {a, b, c}" "\<And>q. q \<in> {k, a, b, c} \<Longrightarrow> q < unat (npages s)"
    "\<And>q. q \<in> {a, b, c} \<Longrightarrow> pp_ref (pages s q) = 0"
  shows "trial k a b c s s fl (entry s k) (entry s a) (\<lambda>_. 0)"
  using assms by (simp add: trial_def)

lemma trial_load:
  assumes tr: "trial k a b c s0 s fl e t r" and e: "present (e 0)" "frame (e 0) = a" and q: "present (t 1)" "frame (t 1) = q" "q < 65536"
    and cr3: "cr3 s = page2pa k"
  shows "va_load32 PGSIZE s = Some (entry s q 0)" "e 0 AND PTE_W \<noteq> 0 \<Longrightarrow> t 1 AND PTE_W \<noteq> 0 \<Longrightarrow> va_store32 PGSIZE v s = Some (kst (slot (kpage q) 0) v s)"
proof -
  note T = trialD [OF tr]
  have c: "PTE_ADDR (cr3 s) = page2pa k"
    using cr3 T(6) [of k] by (simp add: word_unat_eq_iff unat_PTE_ADDR unat_page2pa)
  have E: "rd32 (pmem s) (slot (page2pa k) 0) = e 0" "rd32 (pmem s) (slot (page2pa a) 1) = t 1"
    using T(14) [of 0] T(15) [of 1] by (simp_all add: entry_def)
  have off: "PGOFF PGSIZE = 0" and s0: "slot x 0 = x" for x
    by (simp_all add: PGOFF_def layout slot_def)
  have h: "hw_translate s PGSIZE w = (if w \<and> (e 0 AND PTE_W = 0 \<or> t 1 AND PTE_W = 0) then None else Some (page2pa q))" for w
    using e q PTE_ADDR_frame [of "e 0"] PTE_ADDR_frame [of "t 1"] unfolding hw_translate_def c trial_va off by (simp add: E Let_def PTE_P_test)
  show "va_load32 PGSIZE s = Some (entry s q 0)"
    by (simp add: va_load32_def h entry_def s0)
  show "va_store32 PGSIZE v s = Some (kst (slot (kpage q) 0) v s)" if "e 0 AND PTE_W \<noteq> 0" "t 1 AND PTE_W \<noteq> 0"
    using that by (simp add: va_store32_def h kst_def kpage_def s0)
qed

lemma trial_write:
  assumes tr: "trial k a b c s0 s fl e t r" and q: "q \<in> {b, c}"
  shows "trial k a b c (kst (slot (kpage q) 0) v s0) (kst (slot (kpage q) 0) v s) fl e t r"
proof -
  note T = trialD [OF tr]
  have q': "q < 65536" "q \<noteq> k" "q \<noteq> a"
    using T(1) T(6) [of q] q by auto
  note E = entry_kst [OF q'(1), of _ 0]
  have mm: "mm_frame (kst (slot (kpage q) 0) v s0) (kst (slot (kpage q) 0) v s)"
    using T(10) by (simp add: mm_frame_def kst_def)
  show ?thesis
    unfolding trial_def using T(1-5,7,9-12,16) T(13-15) T(6) [of k] T(6) [of a] q' mm by (auto simp: E)
qed

lemma inserts_run: "inserts p va perm s = Some s' \<longleftrightarrow> page_insert s (kern_pgdir s) (Some p) va perm = Some (0, s')"
  by (auto simp: inserts_def split: bind_splits)

lemma flag_W: "((page2pa a OR PTE_P OR PTE_W) OR x) AND PTE_W \<noteq> 0" "(page2pa a OR PTE_W OR PTE_P) AND PTE_W \<noteq> 0"
proof -
  have "bit (((page2pa a OR PTE_P OR PTE_W) OR x) AND PTE_W) 1" "bit ((page2pa a OR PTE_W OR PTE_P) AND PTE_W) 1"
    by (simp_all add: layout bit_simps)
  then show "((page2pa a OR PTE_P OR PTE_W) OR x) AND PTE_W \<noteq> 0" "(page2pa a OR PTE_W OR PTE_P) AND PTE_W \<noteq> 0"
    by auto
qed

text \<open>The first part: the three pages are taken, the first is given back, the other two are filled.\<close>

lemma filled_pages:
  assumes fl: "free_list s (a # b # c # ys)" "pages_wf s"
  shows "\<exists>s1 s2 s3. take_three s = Some (a, b, c, s1) \<and> memset_page b 1 (page_free s1 (Some a)) = Some s2 \<and> memset_page c 2 s2 = Some s3 \<and>
    free_list s3 (a # ys) \<and> untouched [a, b, c] s s3 \<and> entry s3 b 0 = 0x01010101 \<and> entry s3 c 0 = 0x02020202"
proof -
  have d: "distinct (a # b # c # ys)"
    by (rule free_list_distinct [OF fl(1)])
  note Z = free_list_wf [OF fl(1)]
  obtain s1 where s1: "take_three s = Some (a, b, c, s1)" "free_list s1 ys" "untouched [a, b, c] s s1"
    using take_three_run [OF fl] by blast
  have f: "free_list (page_free s1 (Some a)) (a # ys)" "untouched [a] s1 (page_free s1 (Some a))"
    by (rule page_free_step [OF s1(2)]; use Z [OF s1(3), of a] d fl(2) untouched_wf [OF s1(3)] in simp)+
  have u1: "untouched [a, b, c] s (page_free s1 (Some a))"
    by (rule untouched_trans [OF s1(3) f(2)]) simp
  obtain s2 where s2: "memset_page b 1 (page_free s1 (Some a)) = Some s2" "free_list s2 = free_list (page_free s1 (Some a))" "untouched [b] (page_free s1 (Some a)) s2"
    "\<And>i. unat i < 1024 \<Longrightarrow> entry s2 b i = rd32 (\<lambda>_. 1) 0"
    using memset_page_run [of "page_free s1 (Some a)" b 1] Z [OF u1, of b] fl(2) untouched_wf [OF u1] by auto
  have u2: "untouched [a, b, c] s s2"
    by (rule untouched_trans [OF u1 s2(3)]) simp
  obtain s3 where s3: "memset_page c 2 s2 = Some s3" "free_list s3 = free_list s2" "untouched [c] s2 s3" "\<And>i. unat i < 1024 \<Longrightarrow> entry s3 c i = rd32 (\<lambda>_. 2) 0"
    using memset_page_run [of s2 c 2] Z [OF u2, of c] fl(2) untouched_wf [OF u2] by auto
  have "b < 65536"
    using Z [OF u2, of b] fl(2) untouched_wf [OF u2] by (auto simp: pages_wf_def)
  then have "entry s3 b 0 = rd32 (\<lambda>_. 1) 0"
    using s3(3) s2(4) [of 0] d by (simp add: untouched_def)
  moreover have "untouched [a, b, c] s s3"
    by (rule untouched_trans [OF u2 s3(3)]) simp
  ultimately show ?thesis
    using s1(1) s2(1,2) s3(1,2) s3(4) [of 0] f(1) by (intro exI [of _ s1] exI [of _ s2] exI [of _ s3]) (simp add: rd32_def)
qed

lemma check_installed_run:
  assumes tr: "trial k a b c s s (a # ys) (entry s k) t (\<lambda>_. 0)" and bc: "b \<notin> set ys" "c \<notin> set ys" and e: "entry s k 0 = 0" and cr3: "cr3 s = page2pa k"
    and w: "entry s b 0 = 0x01010101" "entry s c 0 = 0x02020202"
  shows "\<exists>s' t'. check_installed a b c s = Some s' \<and>
    trial k a b c (kst (slot (kpage c) 0) 0x03030303 s) s' (a # c # b # ys) ((entry s k)(0 := 0)) t' (\<lambda>_. 0)"
proof -
  have lt: "a < 65536" "b < 65536" "c < 65536" and d: "a \<noteq> b" "a \<noteq> c" "b \<noteq> c" "a \<notin> set ys" "k \<noteq> b" "k \<noteq> c"
    using trialD(1) [OF tr] trialD(6) [OF tr] free_list_distinct [OF trialD(11) [OF tr]] by simp_all
  have W: "unat PTE_W < 4096" "unat (PTE_W OR PTE_P) < 4096"
    by (simp_all add: layout)
  have pg: "present (page2pa q OR PTE_W OR PTE_P)" "frame (page2pa q OR PTE_W OR PTE_P) = q" if "q < 65536" for q
    using that W(2) frame_or_flags [of q] by simp_all
  let ?b = "page2pa b OR PTE_W OR PTE_P" and ?c = "page2pa c OR PTE_W OR PTE_P" and ?e = "entry s k"
  define v1 where "v1 = (page2pa a OR PTE_P OR PTE_W) OR (PTE_W OR PTE_P)"
  define v2 where "v2 = v1 OR (PTE_W OR PTE_P)"
  have v: "frame v1 = a" "frame v2 = a" "present v1" "present v2" "v2 AND PTE_W \<noteq> 0"
    unfolding v2_def v1_def using flag_W(1) [of a "(PTE_W OR PTE_P) OR (PTE_W OR PTE_P)"]
    by (simp_all only: table_value [OF lt(1)] frame_keep_or [OF W(2)]) (simp_all add: or.assoc)
  obtain s1 where s1: "inserts b PGSIZE PTE_W s = Some s1" "trial k a b c s s1 ys (?e(0 := v1)) ((\<lambda>_. 0)(1 := ?b)) ((\<lambda>_. 0)(a := 1, b := 1))"
    using trial_inserts_new [OF tr, of PGSIZE b PTE_W] e W(1) d bc unfolding v1_def by (auto simp: trial_va)
  obtain s2 where s2: "inserts c PGSIZE PTE_W s1 = Some s2"
    "trial k a b c s s2 (b # ys) (?e(0 := v2)) ((\<lambda>_. 0)(1 := ?c)) ((\<lambda>_. 0)(a := 1, b := 1, c := 1, b := 0))"
    using trial_inserts [OF s1(2), of PGSIZE c PTE_W "b # ys" "(\<lambda>_. 0)(a := 1, b := 1, c := 1, b := 0)"] v W(1) d bc pg [OF lt(2)] unfolding v2_def
    by (auto simp: trial_va)
  define s3 where "s3 = kst (slot (kpage c) 0) 0x03030303 s2"
  define s' where "s' = kst (slot (kpage c) 0) 0x03030303 s"
  have s3: "trial k a b c s' s3 (b # ys) (?e(0 := v2)) ((\<lambda>_. 0)(1 := ?c)) ((\<lambda>_. 0)(a := 1, b := 1, c := 1, b := 0))"
    unfolding s3_def s'_def by (rule trial_write [OF s2(2)]) simp
  obtain s4 where s4: "page_remove s3 (kpage k) PGSIZE = Some s4"
    "trial k a b c s' s4 (c # b # ys) (?e(0 := v2)) ((\<lambda>_. 0)(1 := 0)) ((\<lambda>_. 0)(a := 1, b := 1, c := 1, b := 0, c := 0))"
    using trial_remove [OF s3, of PGSIZE c] v pg [OF lt(3)] d by (auto simp: trial_va)
  define s5 where "s5 = kst (slot (kpage k) 0) 0 s4"
  have s5: "trial k a b c s' s5 (c # b # ys) (?e(0 := 0)) ((\<lambda>_. 0)(1 := 0)) ((\<lambda>_. 0)(a := 1, b := 1, c := 1, b := 0, c := 0))"
    unfolding s5_def using trial_dir [OF s4(2), of 0 0] by simp
  define s6 where "s6 = upd_page a (\<lambda>pg. pg\<lparr>pp_ref := 0\<rparr>) s5"
  have z: "((\<lambda>_. 0)(a := 1, b := 1, c := 1, b := 0, c := 0))(a := 0) = (\<lambda>_. 0 :: u16)"
    by auto
  have s6: "trial k a b c s' s6 (c # b # ys) (?e(0 := 0)) ((\<lambda>_. 0)(1 := 0)) (\<lambda>_. 0)"
    unfolding s6_def using trial_ref [OF s5, of a "\<lambda>_. 0"] d unfolding z by auto
  have s7: "trial k a b c s' (page_free s6 (Some a)) (a # c # b # ys) (?e(0 := 0)) ((\<lambda>_. 0)(1 := 0)) (\<lambda>_. 0)"
    by (rule trial_free [OF s6]) (use d in auto)
  have cr: "cr3 s1 = page2pa k" "cr3 s2 = page2pa k"
    using trialD(10) [OF s1(2)] trialD(10) [OF s2(2)] cr3 by (simp_all add: mm_frame_def)
  have eb: "entry s1 b 0 = 0x01010101" "entry s2 c 0 = 0x02020202"
    using trialD(13) [OF s1(2) lt(2), of 0] trialD(13) [OF s2(2) lt(3), of 0] d w by simp_all
  have a1: "refs b 1 s1 = Some ()" "va_load32 PGSIZE s1 = Some 0x01010101"
    using trial_refs [OF s1(2), of b] trial_load(1) [OF s1(2), of b] v pg [OF lt(2)] lt(2) cr(1) eb(1) by simp_all
  have a2: "refs c 1 s2 = Some ()" "refs b 0 s2 = Some ()" "va_load32 PGSIZE s2 = Some 0x02020202" "va_store32 PGSIZE 0x03030303 s2 = Some s3"
    using trial_refs [OF s2(2), of b] trial_refs [OF s2(2), of c] trial_load [OF s2(2), of c] v pg [OF lt(3)] lt(3) cr(2) eb(2) d flag_W(2) [of c]
    by (simp_all add: s3_def)
  have "page2kva s3 c = Some (kpage c)" "slot (kpage c) 0 = kpage c"
    using page2kva_kpage [OF trialD(5,8) [OF s3], of c] by (simp_all add: slot_def)
  moreover from this(2) have "kld s3 (kpage c) = 0x03030303"
    using kld_kpage [of s3 c 0] entry_kst [OF lt(3,3), of 0 0] by (simp add: s3_def)
  moreover have "refs c 0 s4 = Some ()" "PTE_ADDR (kld s4 (slot (kpage k) 0)) = page2pa a" "refs a 1 s5 = Some ()"
    using trial_refs [OF s4(2), of c] trial_walk(3) [OF s4(2), of 0] trial_refs [OF s5, of a] v d
    by (simp_all add: trial_va PTE_ADDR_frame)
  ultimately have "check_installed a b c s = Some (page_free s6 (Some a))"
    unfolding check_installed_def using s1(1) s2(1) s4(1) a1 a2 trialD(9) [OF tr] trialD(9) [OF s1(2)] trialD(9) [OF s3] trialD(9) [OF s4(2)]
    by (simp add: inserts_run s5_def [symmetric] s6_def [symmetric])
  then show ?thesis
    using s7 unfolding s'_def by blast
qed

lemma check_page_installed_pgdir_run:
  assumes fl: "free_list s (a # b # c # ys)" "pages_wf s" and k: "kern_pgdir s = kpage k" "k < unat (npages s)" "k \<notin> set (a # b # c # ys)"
    and nz: "0 \<notin> {a, b, c}" and e: "entry s k 0 = 0" and cr3: "cr3 s = page2pa k"
  shows "\<exists>s'. check_page_installed_pgdir s = Some s' \<and> free_list s' (a # c # b # ys) \<and> untouched [a, b, c] s s'"
proof -
  have d: "distinct (a # b # c # ys)"
    by (rule free_list_distinct [OF fl(1)])
  obtain s1 s2 s3 where s3: "take_three s = Some (a, b, c, s1)" "memset_page b 1 (page_free s1 (Some a)) = Some s2" "memset_page c 2 s2 = Some s3"
    "free_list s3 (a # ys)" "untouched [a, b, c] s s3" "entry s3 b 0 = 0x01010101" "entry s3 c 0 = 0x02020202"
    using filled_pages [OF fl] by blast
  note Z = free_list_wf [OF fl(1) s3(5)]
  have sel: "kern_pgdir s3 = kpage k" "npages s3 = npages s" "cr3 s3 = page2pa k" "pages_wf s3"
    using s3(5) k(1) cr3 fl(2) untouched_wf [OF s3(5)] by (simp_all add: untouched_def mm_frame_def)
  have k0: "entry s3 k i = entry s k i" if "unat i < 1024" for i
    using s3(5) k fl(2) that by (simp add: untouched_def pages_wf_def)
  have t3: "trial k a b c s3 s3 (a # ys) (entry s3 k) (entry s3 a) (\<lambda>_. 0)"
    by (rule trial_start [OF s3(4) sel(4,1)]) (use d k nz Z in \<open>auto simp: sel\<close>)
  define s4 where "s4 = kst (slot (kpage c) 0) 0x03030303 s3"
  obtain s' t' where s': "check_installed a b c s3 = Some s'" "trial k a b c s4 s' (a # c # b # ys) ((entry s3 k)(0 := 0)) t' (\<lambda>_. 0)"
    using check_installed_run [OF t3 _ _ _ sel(3) s3(6,7)] d k0 [of 0] e unfolding s4_def by auto
  have "c < 65536"
    using trialD(6) [OF t3] by simp
  note E = entry_kst [OF this, of _ 0]
  have k3: "entry s4 k i = ((entry s3 k)(0 := 0)) i" if "unat i < 1024" for i
    unfolding s4_def using E [of k i] that k(2,3) fl(2) k0 [of 0] e by (auto simp: pages_wf_def)
  have u4: "untouched [a, b, c] s3 s4"
    using E by (auto simp: untouched_def s4_def)
  have "untouched [a, b, c] s4 s'"
    by (rule trial_untouched [OF s'(2)]) (use sel(4) Z k3 in \<open>auto simp: s4_def\<close>)
  then have "untouched [a, b, c] s s'"
    by (rule untouched_trans [OF untouched_trans [OF s3(5) u4 Un_least [OF subset_refl subset_refl]]]) simp
  then show ?thesis
    using s3(1-3) s'(1) trialD(11) [OF s'(2)] by (simp add: check_page_installed_pgdir_def)
qed

end
