(* ===== verification/Selftest_Boot.thy ===== *)
theory Selftest_Boot
  imports Selftest_Page
begin

section \<open>The whole of \<^verbatim>\<open>mem_init\<close>\<close>

text \<open>
  \<^verbatim>\<open>check_kern_pgdir\<close> of \<^verbatim>\<open>kern/pmap.c\<close>, and \<^verbatim>\<open>mem_init\<close> with every test it runs: no assertion fails, and what the tests leave behind still is the
  state from which the invariant of the kernel follows.
\<close>

subsection \<open>\<^verbatim>\<open>check_kern_pgdir\<close>\<close>

text \<open>A loop over the addresses from \<open>i\<close> up to \<open>n\<close>, a page at a time, and one over a list.\<close>

partial_function (option) check_steps :: "(u32 \<Rightarrow> unit option) \<Rightarrow> u32 \<Rightarrow> u32 \<Rightarrow> unit option" where
  "check_steps f i n = (if i < n then do { _ \<leftarrow> f i; check_steps f (i + PGSIZE) n } else Some ())"

fun check_each :: "(nat \<Rightarrow> unit option) \<Rightarrow> nat list \<Rightarrow> unit option" where
  "check_each f [] = Some ()"
| "check_each f (i # is) = do { _ \<leftarrow> f i; check_each f is }"

definition check_kstack :: "(nat \<Rightarrow> u32) \<Rightarrow> kstate \<Rightarrow> nat \<Rightarrow> unit option" where
  "check_kstack kstacks s n =
     do {
       let base = KSTACKTOP - (KSTKSIZE + KSTKGAP) * word_of_nat (n + 1);
       _ \<leftarrow> check_steps (\<lambda>i. do { pa \<leftarrow> PADDR (kstacks n); at_va (base + KSTKGAP + i) (pa + i) s }) 0 KSTKSIZE;
       check_steps (\<lambda>i. at_va (base + i) 0xFFFFFFFF s) 0 KSTKGAP
     }"

definition check_pde :: "kstate \<Rightarrow> nat \<Rightarrow> unit option" where
  "check_pde s n =
     (let i = word_of_nat n; e = kld s (slot (kern_pgdir s) i)
      in if i \<in> {PDX UVPT, PDX (KSTACKTOP - 1), PDX UPAGES, PDX UENVS} then check (e AND PTE_P \<noteq> 0)
         else if PDX KERNBASE \<le> i then do { _ \<leftarrow> check (e AND PTE_P \<noteq> 0); check (e AND PTE_W \<noteq> 0) }
         else check (e = 0))"

definition check_kern_pgdir :: "u32 \<Rightarrow> u32 \<Rightarrow> (nat \<Rightarrow> u32) \<Rightarrow> kstate \<Rightarrow> unit option" where
  "check_kern_pgdir pages_va envs_va kstacks s =
     do {
       _ \<leftarrow> check_steps (\<lambda>i. do { pa \<leftarrow> PADDR pages_va; at_va (UPAGES + i) (pa + i) s }) 0 (ROUNDUP (npages s * sizeof_Page) PGSIZE);
       _ \<leftarrow> check_steps (\<lambda>i. do { pa \<leftarrow> PADDR envs_va; at_va (UENVS + i) (pa + i) s }) 0 (ROUNDUP (word_of_nat NENV * sizeof_Env) PGSIZE);
       _ \<leftarrow> check_steps (\<lambda>i. at_va (KERNBASE + i) i s) 0 (npages s * PGSIZE);
       _ \<leftarrow> check_steps (\<lambda>i. at_va i i s) IOMEMBASE (- PGSIZE);
       _ \<leftarrow> check_each (check_kstack kstacks s) [0..<NCPU];
       check_each (check_pde s) [0..<NPDENTRIES]
     }"

lemma check_each_run: "(\<And>i. i \<in> set is \<Longrightarrow> f i = Some ()) \<Longrightarrow> check_each f is = Some ()"
  by (induction "is") auto

text \<open>The loop passes when its body does, at every page: its end is a whole number of pages, and not the last one.\<close>

lemma check_steps_run:
  assumes "page_aligned i" "page_aligned n" "\<And>j. page_aligned j \<Longrightarrow> i \<le> j \<Longrightarrow> j < n \<Longrightarrow> f j = Some ()"
  shows "check_steps f i n = Some ()"
  using assms(1,3)
proof (induction "unat n - unat i" arbitrary: i rule: less_induct)
  case less
  show ?case
  proof (cases "i < n")
    case True
    obtain a b where a: "unat i = 4096 * a" "unat n = 4096 * b" "b < 1048576"
      using page_aligned_obtain [OF less.prems(1)] page_aligned_obtain [OF assms(2)] by metis
    then have "a < b"
      using True by (simp add: word_less_nat_alt)
    then have u: "unat (i + PGSIZE) = unat i + 4096"
      using a by (subst unat_add_no_wrap) (simp_all add: layout)
    have "f i = Some ()"
      using less.prems True by simp
    moreover have "check_steps f (i + PGSIZE) n = Some ()"
    proof (rule less.hyps)
      show "unat n - unat (i + PGSIZE) < unat n - unat i"
        using True u by (simp add: word_less_nat_alt)
      show "page_aligned (i + PGSIZE)"
        using a(1) by (simp add: page_aligned_unat u)
      show "f j = Some ()" if "page_aligned j" "i + PGSIZE \<le> j" "j < n" for j
        using less.prems(2) [OF that(1) _ that(3)] that(2) u by (simp add: word_le_nat_alt)
    qed
    ultimately show ?thesis
      using True by (subst check_steps.simps) simp
  next
    case False
    then show ?thesis
      by (subst check_steps.simps) simp
  qed
qed

text \<open>What \<^verbatim>\<open>check_va2pa\<close> finds in the kernel's directory.\<close>

lemma kdir_at_va:
  assumes kd: "kdir k N fl s" and m: "boot_maps s k m" and va: "PDX va \<noteq> PDX UVPT"
  shows "m va = None \<Longrightarrow> at_va va 0xFFFFFFFF s = Some ()" "m va = Some (pa OR g) \<Longrightarrow> page_aligned pa \<Longrightarrow> unat g < 4096 \<Longrightarrow> at_va va pa s = Some ()"
proof -
  note K = kdirD [OF kd]
  have mv: "m va = vmap s k va"
    using m va by (simp add: boot_maps_def)
  have "check_va2pa s (kpage k) va = Some (case m va of None \<Rightarrow> 0xFFFFFFFF | Some e \<Rightarrow> PTE_ADDR e)"
  proof (cases "present (entry s k (PDX va))")
    case True
    then have "PDX va \<in> ktab s k"
      using va by (simp add: ktab_def)
    then have "KADDR s (PTE_ADDR (entry s k (PDX va))) = Some (kpage (frame (entry s k (PDX va))))"
      using page2kva_kpage [OF K(12) K(6)] by (simp add: page2kva_def PTE_ADDR_frame)
    then show ?thesis
      using True by (simp add: mv check_va2pa_def vmap_def pte_def Let_def kld_kpage PTE_P_test)
  next
    case False
    then show ?thesis
      by (simp add: mv check_va2pa_def vmap_def pte_def Let_def kld_kpage PTE_P_test)
  qed
  then show "m va = None \<Longrightarrow> at_va va 0xFFFFFFFF s = Some ()" "m va = Some (pa OR g) \<Longrightarrow> page_aligned pa \<Longrightarrow> unat g < 4096 \<Longrightarrow> at_va va pa s = Some ()"
    by (simp_all add: at_va_def K(3) PTE_ADDR_or_flags)
qed

text \<open>The regions of the kernel part, each seen at a page boundary.\<close>

lemma no_kstack:
  assumes "unat a < 4021846016 \<or> 4022337536 \<le> unat a"
  shows "find (\<lambda>i. a - kstack_va i < KSTKSIZE) [0..<NCPU] = None"
proof -
  have "\<not> a - kstack_va i < KSTKSIZE" if "i < 8" for i
    using that assms unfolding kstack_region [OF that] by linarith
  then show ?thesis
    by (simp add: find_None_iff layout)
qed

lemma region_step:
  assumes "page_aligned va" "page_aligned j" "unat va + unat j < 4294967296"
  shows "unat (va + j) = unat va + unat j" "PTE_ADDR (va + j) - va = j" "PTE_ADDR (va + j) = va + j"
proof -
  show "unat (va + j) = unat va + unat j"
    using assms(3) by (subst unat_add_no_wrap) simp_all
  show "PTE_ADDR (va + j) = va + j"
    using assms(1,2) by (intro PTE_ADDR_aligned page_aligned_add)
  then show "PTE_ADDR (va + j) - va = j"
    by simp
qed

lemma kernel_space_arrays:
  assumes np: "unat np \<le> 65536" and j: "page_aligned j"
  shows "j < ROUNDUP (np * sizeof_Page) PGSIZE \<Longrightarrow> kernel_space np pp ep ks (UPAGES + j) = Some (pp + j OR PTE_U OR PTE_P) \<and> PDX (UPAGES + j) \<noteq> PDX UVPT"
    "j < 126976 \<Longrightarrow> kernel_space np pp ep ks (UENVS + j) = Some (ep + j OR PTE_U OR PTE_P) \<and> PDX (UENVS + j) \<noteq> PDX UVPT"
proof -
  have uv: "unat (PDX UVPT) = 957" "unat UPAGES = 4009754624" "unat UENVS = 4005560320"
    by (simp_all add: unat_PDX layout)
  note P = pages_region [OF np]
  show "kernel_space np pp ep ks (UPAGES + j) = Some (pp + j OR PTE_U OR PTE_P) \<and> PDX (UPAGES + j) \<noteq> PDX UVPT"
    if "j < ROUNDUP (np * sizeof_Page) PGSIZE"
  proof -
    have lt: "unat j < unat (ROUNDUP (np * sizeof_Page) PGSIZE)" "unat j < 786432"
      using that P(2) by (simp_all add: word_less_nat_alt)
    note R = region_step [OF region_pages(7) j]
    have u: "unat (UPAGES + j) = 4009754624 + unat j"
      using R(1) lt uv by simp
    have "unat (PDX (UPAGES + j)) = 956"
      using lt by (simp add: unat_PDX u)
    then have "PDX (UPAGES + j) \<noteq> PDX UVPT"
      using uv(1) by auto
    then show ?thesis
      using no_kstack [of "UPAGES + j"] u lt R(2) uv that by (simp add: kernel_space_def region_bounds)
  qed
  show "kernel_space np pp ep ks (UENVS + j) = Some (ep + j OR PTE_U OR PTE_P) \<and> PDX (UENVS + j) \<noteq> PDX UVPT" if "j < 126976"
  proof -
    have lt: "unat j < 126976"
      using that by (simp add: word_less_nat_alt)
    note R = region_step [OF region_pages(8) j]
    have u: "unat (UENVS + j) = 4005560320 + unat j"
      using R(1) lt uv by simp
    have "unat (PDX (UENVS + j)) = 955"
      using lt by (simp add: unat_PDX u)
    then have "PDX (UENVS + j) \<noteq> PDX UVPT"
      using uv(1) by auto
    then show ?thesis
      using no_kstack [of "UENVS + j"] u lt R(2) uv that P(3) [of "UENVS + j"] by (simp add: kernel_space_def region_bounds)
  qed
qed

lemma kernel_space_high:
  assumes j: "page_aligned j"
  shows "unat j < 234881024 \<Longrightarrow> kernel_space np pp ep ks (KERNBASE + j) = Some (j OR PTE_W OR PTE_P) \<and> PDX (KERNBASE + j) \<noteq> PDX UVPT"
    "IOMEMBASE \<le> j \<Longrightarrow> kernel_space np pp ep ks j = Some (j OR PTE_W OR PTE_P) \<and> PDX j \<noteq> PDX UVPT"
proof -
  have uv: "unat (PDX UVPT) = 957" "unat KERNBASE = 4026531840"
    by (simp_all add: unat_PDX layout)
  have pdx: "PDX a \<noteq> PDX UVPT" if "4026531840 \<le> unat a" for a
  proof -
    have "958 < unat a div 4194304"
      using that by linarith
    then show ?thesis
      using unat_PDX [of a] uv(1) by auto
  qed
  show "kernel_space np pp ep ks (KERNBASE + j) = Some (j OR PTE_W OR PTE_P) \<and> PDX (KERNBASE + j) \<noteq> PDX UVPT" if lt: "unat j < 234881024"
  proof -
    note R = region_step [OF region_pages(9) j]
    have u: "unat (KERNBASE + j) = 4026531840 + unat j"
      using R(1) lt uv by simp
    then show ?thesis
      using R(2) lt uv pdx [of "KERNBASE + j"] by (simp add: kernel_space_def region_bounds)
  qed
  show "kernel_space np pp ep ks j = Some (j OR PTE_W OR PTE_P) \<and> PDX j \<noteq> PDX UVPT" if "IOMEMBASE \<le> j"
    using that pdx [of j] PTE_ADDR_aligned [OF j] by (simp add: kernel_space_def region_bounds)
qed

lemma kernel_space_kstack:
  assumes np: "unat np \<le> 65536" and n: "n < 8" and j: "page_aligned j" "unat j < 32768"
  defines "base \<equiv> KSTACKTOP - (KSTKSIZE + KSTKGAP) * word_of_nat (n + 1)"
  shows "kernel_space np pp ep ks (base + KSTKGAP + j) = Some (ks n + j OR PTE_W OR PTE_P) \<and> PDX (base + KSTKGAP + j) \<noteq> PDX UVPT"
    "kernel_space np pp ep ks (base + j) = None \<and> PDX (base + j) \<noteq> PDX UVPT"
proof -
  have uv: "unat (PDX UVPT) = 957"
    by (simp add: unat_PDX layout)
  have "n \<in> {0, 1, 2, 3, 4, 5, 6, 7}"
    using n by auto
  then have b: "unat base = 4022272000 - 65536 * n" "page_aligned base" "base + KSTKGAP = kstack_va n"
    by (auto simp: base_def kstack_va_def layout page_aligned_unat)
  have pdx: "PDX a \<noteq> PDX UVPT" if "4021813248 \<le> unat a" "unat a < 4022337536" for a
  proof -
    have "unat (PDX a) = 958"
      using that unfolding unat_PDX by linarith
    then show ?thesis
      using uv by auto
  qed
  note R = region_step [OF unat_kstack_va(2) [OF n] j(1)] and G = region_step [OF b(2) j(1)]
  have u: "unat (kstack_va n + j) = 4022304768 - 65536 * n + unat j" "unat (base + j) = 4022272000 - 65536 * n + unat j"
    using R(1) G(1) unat_kstack_va(1) [OF n] b(1) j(2) by simp_all
  have w: "4021813248 \<le> unat (kstack_va n + j)" "unat (kstack_va n + j) < 4022337536" "4021813248 \<le> unat (base + j)" "unat (base + j) < 4022337536"
    unfolding u using n j(2) by linarith+
  have R2: "PTE_ADDR (kstack_va n + j) - kstack_va n = j"
    using R(2) unat_kstack_va(1) [OF n] j(2) by simp
  have "\<not> kstack_va n + j - kstack_va i < KSTKSIZE" if "i < n" for i
    using that n j(2) unfolding kstack_region [OF less_trans [OF that n]] u by linarith
  then have "find (\<lambda>i. kstack_va n + j - kstack_va i < KSTKSIZE) [0..<NCPU] = Some n"
    using n j(2) by (auto simp: find_Some_iff layout word_less_nat_alt intro!: exI [of _ n])
  then have "kernel_space np pp ep ks (kstack_va n + j) = Some (ks n + j OR PTE_W OR PTE_P)"
    using w(1,2) R2 by (simp add: kernel_space_def region_bounds)
  then show "kernel_space np pp ep ks (base + KSTKGAP + j) = Some (ks n + j OR PTE_W OR PTE_P) \<and> PDX (base + KSTKGAP + j) \<noteq> PDX UVPT"
    unfolding b(3) using pdx [OF w(1,2)] by simp
  have "\<not> base + j - kstack_va i < KSTKSIZE" if "i < 8" for i
    using that n j(2) unfolding kstack_region [OF that] u by (cases "i \<le> n") linarith+
  then have "find (\<lambda>i. base + j - kstack_va i < KSTKSIZE) [0..<NCPU] = None"
    by (simp add: find_None_iff layout)
  then show "kernel_space np pp ep ks (base + j) = None \<and> PDX (base + j) \<noteq> PDX UVPT"
    using w(3,4) pages_region(2) [OF np] pages_region(3) [OF np, of "base + j"] pdx [OF w(3,4)] by (simp add: kernel_space_def region_bounds)
qed

text \<open>Every entry of the directory that the kernel uses holds a page table.\<close>

lemma kern_pde_present:
  assumes m: "boot_maps s k (kernel_space np pp ep ks)" and np: "0 < unat np" "unat np \<le> 65536" and n: "n \<in> {955, 956, 958} \<union> {960..<1024}"
  shows "present (entry s k (word_of_nat n))"
proof -
  let ?i = "word_of_nat n :: u32"
  have u: "unat ?i = n"
    using n by (auto simp: unat_of_nat)
  have uv: "unat (PDX UVPT) = 957"
    by (simp add: unat_PDX layout)
  then have uvpt: "?i \<noteq> PDX UVPT"
    using u n by auto
  have pres: ?thesis if "PDX a = ?i" "kernel_space np pp ep ks a \<noteq> None" for a
  proof -
    have "vmap s k a \<noteq> None"
      using m that uvpt by (simp add: boot_maps_def)
    then show ?thesis
      using that(1) by (auto simp: vmap_def pte_def Let_def split: if_splits)
  qed
  have z: "page_aligned 0" "(0 :: u32) < 126976" "0 < ROUNDUP (np * sizeof_Page) PGSIZE"
  proof -
    have "unat (np * sizeof_Page) = unat np * 12"
      using np by (simp add: layout unat_mult_no_wrap)
    then show "0 < ROUNDUP (np * sizeof_Page) PGSIZE"
      using unat_ROUNDUP(1) [of "np * sizeof_Page"] np by (simp add: word_less_nat_alt)
  qed (simp_all add: region_pages)
  from n consider "n = 955" | "n = 956" | "n = 958" | "960 \<le> n" "n < 1024"
    by auto
  then show ?thesis
  proof cases
    case 1
    then have "PDX UENVS = ?i"
      using u by (simp add: word_unat_eq_iff unat_PDX layout)
    then show ?thesis
      using kernel_space_arrays(2) [OF np(2) z(1,2), of pp ep ks] pres [of UENVS] by simp
  next
    case 2
    then have "PDX UPAGES = ?i"
      using u by (simp add: word_unat_eq_iff unat_PDX layout)
    then show ?thesis
      using kernel_space_arrays(1) [OF np(2) z(1,3), of pp ep ks] pres [of UPAGES] by simp
  next
    case 3
    then have "PDX (kstack_va 0) = ?i"
      using u by (simp add: word_unat_eq_iff unat_PDX unat_kstack_va)
    moreover have "KSTACKTOP - (KSTKSIZE + KSTKGAP) * word_of_nat (0 + 1) + KSTKGAP + 0 = kstack_va 0"
      by (simp add: kstack_va_def layout)
    ultimately show ?thesis
      using kernel_space_kstack(1) [OF np(2), of 0 0 pp ep ks] z(1) pres [of "kstack_va 0"] by simp
  next
    case 4
    define x where "x = n * 4194304"
    let ?a = "word_of_nat x :: u32"
    have "x < 4294967296"
      using 4 by (simp add: x_def)
    then have "unat ?a = n * 4194304"
      unfolding x_def [symmetric] by (simp add: unat_of_nat)
    then have "PDX ?a = ?i" "4026531840 \<le> unat ?a"
      using 4 u by (simp_all add: word_unat_eq_iff unat_PDX)
    then show ?thesis
      using pres [of ?a] by (simp add: kernel_space_def region_bounds)
  qed
qed

lemma check_pde_run:
  assumes kd: "kdir k N fl s" and m: "boot_maps s k (kernel_space np pp ep ks)" and np: "0 < unat np" "unat np \<le> 65536" and n: "n < 1024"
  shows "check_pde s n = Some ()"
proof -
  note K = kdirD [OF kd]
  let ?i = "word_of_nat n :: u32"
  have u: "unat ?i = n" "unat ?i < 1024"
    using n by (simp_all add: unat_of_nat)
  have pdx: "unat (PDX UVPT) = 957" "unat (PDX UPAGES) = 956" "unat (PDX UENVS) = 955" "unat (PDX (KSTACKTOP - 1)) = 958" "unat (PDX KERNBASE) = 960"
    by (simp_all add: unat_PDX layout)
  have "present (entry s k (PDX UVPT))"
    using K(8) by simp
  then have uv: "?i = PDX UVPT \<Longrightarrow> present (entry s k ?i)"
    by simp
  have iu: "?i = PDX UVPT \<longleftrightarrow> n = 957"
    using u pdx by (simp add: word_unat_eq_iff)
  note kp = kern_pde_present [OF m np, of n]
  have w: "entry s k ?i AND PTE_W \<noteq> 0" if "960 \<le> n"
    using that n kp K(16) [of ?i] u iu by (auto simp: ktab_def)
  have o: "entry s k ?i = 0" if "n \<notin> {955, 956, 957, 958} \<union> {960..<1024}"
  proof -
    have "?i \<notin> ktab s k"
      using that K(9) u(1) kern_pdes_iff [of ?i] by auto
    then show ?thesis
      using K(17) [OF u(2)] iu that by simp
  qed
  have "?i \<in> {PDX UVPT, PDX (KSTACKTOP - 1), PDX UPAGES, PDX UENVS} \<longleftrightarrow> n \<in> {955, 956, 957, 958}" "PDX KERNBASE \<le> ?i \<longleftrightarrow> 960 \<le> n"
    using u pdx by (auto simp: word_unat_eq_iff word_le_nat_alt)
  moreover have "kld s (slot (kern_pgdir s) ?i) = entry s k ?i"
    by (simp add: K(3) kld_kpage)
  ultimately show ?thesis
    unfolding check_pde_def Let_def using uv kp w o n iu by (auto simp: PTE_P_test)
qed

lemma check_kstack_run:
  assumes kd: "kdir k N fl s" and m: "boot_maps s k (kernel_space np pp ep ksp)" and np: "unat np \<le> 65536" and n: "n < 8"
    and va: "PADDR (kstacks n) = Some (ksp n)" "page_aligned (ksp n)"
  shows "check_kstack kstacks s n = Some ()"
proof -
  let ?base = "KSTACKTOP - (KSTKSIZE + KSTKGAP) * word_of_nat (n + 1)"
  have al: "page_aligned 0" "page_aligned KSTKSIZE" "page_aligned KSTKGAP" and sz: "j < KSTKSIZE \<longleftrightarrow> unat j < 32768" "j < KSTKGAP \<longleftrightarrow> unat j < 32768" for j
    by (simp_all add: layout page_aligned_unat word_less_nat_alt)
  have fl: "unat (PTE_W OR PTE_P) < 4096"
    by (simp add: layout)
  note S = kernel_space_kstack [OF np n, of _ pp ep ksp]
  have 1: "check_steps (\<lambda>i. do { pa \<leftarrow> PADDR (kstacks n); at_va (?base + KSTKGAP + i) (pa + i) s }) 0 KSTKSIZE = Some ()"
  proof (rule check_steps_run [OF al(1,2)])
    fix j assume j: "page_aligned j" "j < KSTKSIZE"
    have "at_va (?base + KSTKGAP + j) (ksp n + j) s = Some ()"
      by (rule kdir_at_va(2) [OF kd m _ _ page_aligned_add [OF va(2) j(1)] fl]; use S(1) [OF j(1)] j(2) sz in blast)
    then show "do { pa \<leftarrow> PADDR (kstacks n); at_va (?base + KSTKGAP + j) (pa + j) s } = Some ()"
      by (simp add: va(1))
  qed
  have 2: "check_steps (\<lambda>i. at_va (?base + i) 0xFFFFFFFF s) 0 KSTKGAP = Some ()"
  proof (rule check_steps_run [OF al(1,3)])
    fix j assume j: "page_aligned j" "j < KSTKGAP"
    show "at_va (?base + j) 0xFFFFFFFF s = Some ()"
      by (rule kdir_at_va(1) [OF kd m]; use S(2) [OF j(1)] j(2) sz in blast)
  qed
  show ?thesis
    unfolding check_kstack_def Let_def using 1 2 by (simp del: of_nat_Suc of_nat_add)
qed

lemma check_kern_pgdir_run:
  assumes kd: "kdir k N fl s" and m: "boot_maps s k (kernel_space (npages s) pp ep ksp)" and np: "unat (npages s) \<le> 57344"
    and va: "PADDR pages_va = Some pp" "page_aligned pp" "PADDR envs_va = Some ep" "page_aligned ep"
    and st: "\<And>i. i < NCPU \<Longrightarrow> PADDR (kstacks i) = Some (ksp i) \<and> page_aligned (ksp i)"
  shows "check_kern_pgdir pages_va envs_va kstacks s = Some ()"
proof -
  have np': "0 < unat (npages s)" "unat (npages s) \<le> 65536"
    using kdirD(1) [OF kd] by (simp_all add: pages_wf_def)
  have fl: "unat (PTE_U OR PTE_P) < 4096" "unat (PTE_W OR PTE_P) < 4096"
    by (simp_all add: layout)
  have "unat (npages s * PGSIZE) = unat (npages s) * 4096"
    using np by (simp add: unat_word_ariths layout)
  then have n4: "page_aligned (npages s * PGSIZE)" "j < npages s * PGSIZE \<Longrightarrow> unat j < 234881024" for j
    using np by (simp_all add: page_aligned_unat word_less_nat_alt)
  note A = kernel_space_arrays [OF np'(2), of _ pp ep ksp] and H = kernel_space_high [of _ "npages s" pp ep ksp]
  have 1: "check_steps (\<lambda>i. do { pa \<leftarrow> PADDR pages_va; at_va (UPAGES + i) (pa + i) s }) 0 (ROUNDUP (npages s * sizeof_Page) PGSIZE) = Some ()"
  proof (rule check_steps_run [OF region_pages(12) pages_region(1) [OF np'(2)]])
    fix j assume j: "page_aligned j" "j < ROUNDUP (npages s * sizeof_Page) PGSIZE"
    have "at_va (UPAGES + j) (pp + j) s = Some ()"
      by (rule kdir_at_va(2) [OF kd m _ _ page_aligned_add [OF va(2) j(1)] fl(1)]; use A(1) [OF j] in blast)
    then show "do { pa \<leftarrow> PADDR pages_va; at_va (UPAGES + j) (pa + j) s } = Some ()"
      by (simp add: va(1))
  qed
  have 2: "check_steps (\<lambda>i. do { pa \<leftarrow> PADDR envs_va; at_va (UENVS + i) (pa + i) s }) 0 (ROUNDUP (word_of_nat NENV * sizeof_Env) PGSIZE) = Some ()"
    unfolding region_pages(6)
  proof (rule check_steps_run [OF region_pages(12,5)])
    fix j :: u32 assume j: "page_aligned j" "j < 126976"
    have "at_va (UENVS + j) (ep + j) s = Some ()"
      by (rule kdir_at_va(2) [OF kd m _ _ page_aligned_add [OF va(4) j(1)] fl(1)]; use A(2) [OF j] in blast)
    then show "do { pa \<leftarrow> PADDR envs_va; at_va (UENVS + j) (pa + j) s } = Some ()"
      by (simp add: va(3))
  qed
  have 3: "check_steps (\<lambda>i. at_va (KERNBASE + i) i s) 0 (npages s * PGSIZE) = Some ()"
  proof (rule check_steps_run [OF region_pages(12) n4(1)])
    fix j assume j: "page_aligned j" "j < npages s * PGSIZE"
    show "at_va (KERNBASE + j) j s = Some ()"
      by (rule kdir_at_va(2) [OF kd m _ _ j(1) fl(2)]; use H(1) [OF j(1) n4(2) [OF j(2)]] in blast)
  qed
  have 4: "check_steps (\<lambda>i. at_va i i s) IOMEMBASE (- PGSIZE) = Some ()"
  proof (rule check_steps_run [OF region_pages(10)])
    show "page_aligned (- PGSIZE)"
      by (simp add: layout page_aligned_unat)
    fix j assume j: "page_aligned j" "IOMEMBASE \<le> j"
    show "at_va j j s = Some ()"
      by (rule kdir_at_va(2) [OF kd m _ _ j(1) fl(2)]; use H(2) [OF j] in blast)
  qed
  have 5: "check_each (check_kstack kstacks s) [0..<NCPU] = Some ()"
    by (rule check_each_run) (use st in \<open>auto simp: layout intro!: check_kstack_run [OF kd m np'(2)]\<close>)
  have 6: "check_each (check_pde s) [0..<NPDENTRIES] = Some ()"
    by (rule check_each_run) (use check_pde_run [OF kd m np'] in \<open>simp add: layout\<close>)
  show ?thesis
    by (simp add: check_kern_pgdir_def 1 2 3 4 5 6)
qed

subsection \<open>\<^verbatim>\<open>mem_init\<close>\<close>

text \<open>The results are the pointers \<^verbatim>\<open>pages\<close> and \<^verbatim>\<open>envs\<close>. \<open>u1\<close> and \<open>u2\<close> are what the uninitialised variables of \<^verbatim>\<open>check_page_free_list\<close> hold. The last
  write to \<^verbatim>\<open>CR0\<close> has no counterpart in the state: paging is on since \<^verbatim>\<open>entry.S\<close>, and write protection is part of the translation.\<close>

definition mem_init :: "(nat \<Rightarrow> u8) \<Rightarrow> u32 \<Rightarrow> u32 \<Rightarrow> (nat \<Rightarrow> u32) \<Rightarrow> nat option \<Rightarrow> nat option \<Rightarrow> kstate \<Rightarrow> (u32 \<times> u32 \<times> kstate) option" where
  "mem_init nv kend bootstack kstacks u1 u2 s =
     do {
       (pages_va, envs_va, s) \<leftarrow> mem_init_alloc nv kend s;
       s \<leftarrow> check_page_free_list kend u1 u2 True s;
       s \<leftarrow> check_page_alloc s;
       s \<leftarrow> check_page s;
       s \<leftarrow> mem_init_map pages_va envs_va bootstack kstacks s;
       _ \<leftarrow> check_kern_pgdir pages_va envs_va kstacks s;
       pa \<leftarrow> PADDR (kern_pgdir s);
       s \<leftarrow> check_page_free_list kend u1 u2 False (s\<lparr>cr3 := pa\<rparr>);
       s \<leftarrow> check_page_installed_pgdir s;
       Some (pages_va, envs_va, s)
     }"

text \<open>The tests leave the directory alone, and permute the free list.\<close>

lemma kdir_untouched:
  assumes kd: "kdir k N fl s" and u: "untouched fl s s'" and fl: "free_list s' fl'" "set fl' = set fl" "length fl' = length fl"
  shows "kdir k N fl' s'" "boot_maps s k m \<Longrightarrow> boot_maps s' k m"
proof -
  note K = kdirD [OF kd]
  have mm: "npages s' = npages s" "kern_pgdir s' = kern_pgdir s"
    using u by (simp_all add: untouched_def mm_frame_def)
  have ent: "entry s' f i = entry s f i" if "f < 65536" "f \<notin> set fl" "unat i < 1024" for f i
    using u that by (simp add: untouched_def)
  have k: "entry s' k i = entry s k i" if "unat i < 1024" for i
    by (rule ent [OF K(7,5) that])
  have tab: "ktab s' k = ktab s k"
    by (auto simp: ktab_def k)
  have "inj_on (\<lambda>i. frame (entry s' k i)) (ktab s k)"
    using K(11) by (rule inj_on_cong [THEN iffD1, rotated]) (simp add: k ktab_def)
  then show "kdir k N fl' s'"
    using kd k user_pdx_UVPT(2) unfolding kdir_def untouched_wf [OF u] mm tab fl(2,3) by (simp add: fl(1))
  have "pte s' k (PDX a) (PTX a) = pte s k (PDX a) (PTX a)" if "PDX a \<noteq> PDX UVPT" for a
  proof (cases "PDX a \<in> ktab s k")
    case True
    then show ?thesis
      using ent [OF K(13) [OF True] K(14) [OF True] PTX_less [of a]] by (simp add: pte_def k)
  next
    case False
    then have "\<not> present (entry s k (PDX a))"
      using that by (simp add: ktab_def)
    then show ?thesis
      by (simp add: pte_def k)
  qed
  then show "boot_maps s k m \<Longrightarrow> boot_maps s' k m"
    by (simp add: boot_maps_def vmap_def)
qed

lemma kdir_low:
  assumes "kdir k N fl s"
  shows "entry s k 0 = 0" "entry s k 1 = 0"
proof -
  have "0 \<notin> kern_pdes" "1 \<notin> kern_pdes" "0 \<noteq> PDX UVPT" "1 \<noteq> PDX UVPT"
    by (simp_all add: kern_pdes_iff PDX_def layout)
  then show "entry s k 0 = 0" "entry s k 1 = 0"
    using kdirD(9) [OF assms] kdirD(17) [OF assms, of 0] kdirD(17) [OF assms, of 1] by auto
qed

lemma untouched_refs: "untouched xs s s' \<Longrightarrow> pp_ref (pages s' q) = pp_ref (pages s q)" "untouched xs s s' \<Longrightarrow> nextfree s' = nextfree s"
  "untouched xs s s' \<Longrightarrow> npages s' = npages s" "untouched xs s s' \<Longrightarrow> cr3 s' = cr3 s"
  by (simp_all add: untouched_def mm_frame_def)

text \<open>The tests before the mappings.\<close>

lemma first_tests:
  assumes kd: "kdir k N fl s" and nf: "nextfree s \<noteq> 0" and ok: "\<And>p. p \<in> set fl \<Longrightarrow> may_be_free s p"
    and some: "\<exists>p \<in> set fl. p < 256" "\<exists>p \<in> set fl. 256 \<le> p" and len: "3 \<le> length fl"
  shows "\<exists>s1 s2 s3 fl'. check_page_free_list kend u1 u2 True s = Some s1 \<and> check_page_alloc s1 = Some s2 \<and> check_page s2 = Some s3 \<and>
    free_list s3 fl' \<and> set fl' = set fl \<and> length fl' = length fl \<and> untouched fl s s3"
proof -
  note K = kdirD [OF kd]
  obtain s1 fl1 where s1: "check_page_free_list kend u1 u2 True s = Some s1" "free_list s1 fl1" "set fl1 = set fl" "length fl1 = length fl" "untouched fl s s1"
    using check_page_free_list_run [OF K(2,1) nf ok some, of kend u1 u2 True] by blast
  obtain a b c ys where fl1: "fl1 = a # b # c # ys"
    using s1(4) len by (metis Suc_le_length_iff numeral_3_eq_3)
  have in_fl: "set [a, b, c] \<subseteq> set fl" "0 \<notin> {a, b, c}" "k \<notin> set fl1"
    using s1(3) fl1 ok K(5) by (auto simp: may_be_free_def)
  obtain s2 where s2: "check_page_alloc s1 = Some s2" "free_list s2 (a # b # c # ys)" "untouched [a, b, c] s1 s2"
    using check_page_alloc_run [OF s1(2) [unfolded fl1]] K(1) untouched_wf [OF s1(5)] by blast
  have u2: "untouched fl s s2"
    by (rule untouched_trans [OF s1(5) s2(3)]) (use in_fl in auto)
  have k2: "kern_pgdir s2 = kpage k" "k < unat (npages s2)"
    using u2 K(3,4) by (simp_all add: untouched_def mm_frame_def)
  have e2: "entry s2 k 0 = 0" "entry s2 k 1 = 0"
    using u2 K(5,7) kdir_low [OF kd] by (simp_all add: untouched_def)
  obtain s3 where s3: "check_page s2 = Some s3" "free_list s3 (c # b # a # ys)" "untouched [a, b, c] s2 s3"
    using check_page_run [OF s2(2) _ k2 _ in_fl(2) e2] K(1) untouched_wf [OF u2] in_fl(3) unfolding fl1 by blast
  have "untouched fl s s3"
    by (rule untouched_trans [OF u2 s3(3)]) (use in_fl in auto)
  then show ?thesis
    using s1(1) s2(1) s3(1,2) s1(3,4) unfolding fl1
    by (intro exI [of _ s1] exI [of _ s2] exI [of _ s3] exI [of _ "c # b # a # ys"]) auto
qed

text \<open>The tests after the mappings, for which \<open>fl\<close> is what the page tables have left of the free list.\<close>

lemma last_tests:
  assumes kd: "kdir k N fl s" and nf: "nextfree s \<noteq> 0" and ok: "\<And>p. p \<in> set fl \<Longrightarrow> may_be_free s p"
    and some: "\<exists>p \<in> set fl. p < 256" "\<exists>p \<in> set fl. 256 \<le> p" and len: "3 \<le> length fl" and cr3: "cr3 s = page2pa k"
  shows "\<exists>s1 s2 fl'. check_page_free_list kend u1 u2 False s = Some s1 \<and> check_page_installed_pgdir s1 = Some s2 \<and>
    free_list s2 fl' \<and> set fl' = set fl \<and> length fl' = length fl \<and> untouched fl s s2"
proof -
  note K = kdirD [OF kd]
  obtain s1 fl1 where s1: "check_page_free_list kend u1 u2 False s = Some s1" "free_list s1 fl1" "set fl1 = set fl" "length fl1 = length fl" "untouched fl s s1"
    using check_page_free_list_run [OF K(2,1) nf ok some, of kend u1 u2 False] by blast
  obtain a b c ys where fl1: "fl1 = a # b # c # ys"
    using s1(4) len by (metis Suc_le_length_iff numeral_3_eq_3)
  have in_fl: "set [a, b, c] \<subseteq> set fl" "0 \<notin> {a, b, c}" "k \<notin> set fl1"
    using s1(3) fl1 ok K(5) by (auto simp: may_be_free_def)
  have k1: "kern_pgdir s1 = kpage k" "k < unat (npages s1)" "entry s1 k 0 = 0" "cr3 s1 = page2pa k"
    using s1(5) K(3-5,7) cr3 kdir_low(1) [OF kd] by (simp_all add: untouched_def mm_frame_def)
  obtain s2 where s2: "check_page_installed_pgdir s1 = Some s2" "free_list s2 (a # c # b # ys)" "untouched [a, b, c] s1 s2"
    using check_page_installed_pgdir_run [OF s1(2) [unfolded fl1] _ k1(1,2) _ in_fl(2) k1(3,4)] K(1) untouched_wf [OF s1(5)] in_fl(3) unfolding fl1 by blast
  have "untouched fl s s2"
    by (rule untouched_trans [OF s1(5) s2(3)]) (use in_fl in auto)
  then show ?thesis
    using s1(1,3,4) s2(1,2) unfolding fl1 by (intro exI [of _ s1] exI [of _ s2] exI [of _ "a # c # b # ys"]) auto
qed

text \<open>What the page tables of the kernel leave of the free list: pages below and above 1 MB.\<close>

lemma pages_left:
  assumes sub: "set fl' \<subseteq> {1..<7} \<union> {8..<160} \<union> {b..<n}" and d: "distinct fl'" and len: "158 + (n - b) \<le> 67 + length fl'" and bn: "b + 68 \<le> n" "256 < b"
  shows "\<exists>p \<in> set fl'. p < 256" "\<exists>p \<in> set fl'. 256 \<le> p" "3 \<le> length fl'"
proof -
  have card: "card (set fl') = length fl'"
    using d by (rule distinct_card)
  show "\<exists>p \<in> set fl'. p < 256"
  proof (rule ccontr)
    assume "\<not> (\<exists>p \<in> set fl'. p < 256)"
    then have "set fl' \<subseteq> {b..<n}"
      using sub by force
    from card_mono [OF _ this] show False
      using card len by simp
  qed
  show "\<exists>p \<in> set fl'. 256 \<le> p"
  proof (rule ccontr)
    assume "\<not> (\<exists>p \<in> set fl'. 256 \<le> p)"
    then have "set fl' \<subseteq> {1..<7} \<union> {8..<160}"
      using sub bn by force
    from card_mono [OF _ this] show False
      using card len bn card_Un_le [of "{1..<7 :: nat}" "{8..<160}"] by simp
  qed
  show "3 \<le> length fl'"
    using len bn by simp
qed

lemma boot_list:
  assumes "p \<in> set ([1..<7] @ [8..<160] @ [b..<n])" "nextfree s = kpage b" "npages s = np" "n = unat np" "256 < b" "b < n" "n \<le> 65536"
  shows "may_be_free s p"
proof -
  have p: "p \<in> {1..<7} \<union> {8..<160} \<union> {b..<n}"
    using assms(1) by (simp only: set_append set_upt Un_assoc)
  then have "p < n" "p \<notin> {0, 7, 160, 255, 256}" "p < 256 \<or> b \<le> p"
    using assms(5,6) by auto
  moreover from this have "p < 256 \<or> nextfree s \<le> kpage p"
    using unat_kpage [of p] unat_kpage [of b] assms(2,6,7) by (auto simp: word_le_nat_alt)
  ultimately show ?thesis
    using assms(3,4) by (simp add: may_be_free_def)
qed

text \<open>The first half of \<^verbatim>\<open>mem_init\<close>: up to the mappings.\<close>

lemma mem_init_before:
  assumes nf: "nextfree s = 0" and np: "np = npages (i386_detect_memory nv s)" and kend: "KERNBASE + EXTPHYSMEM \<le> kend"
    and room: "boot_next kend np < unat np" "unat np \<le> 65536"
  defines "k \<equiv> boot_frame kend" and "b \<equiv> boot_next kend np"
  defines "fl \<equiv> [1..<7] @ [8..<160] @ [b..<unat np]"
  shows "\<exists>s0 s1 s2 s3 fl'. mem_init_alloc nv kend s = Some (kpage (k + 1), kpage (b - 31), s0) \<and> check_page_free_list kend u1 u2 True s0 = Some s1 \<and>
    check_page_alloc s1 = Some s2 \<and> check_page s2 = Some s3 \<and> kdir k (length fl) fl' s3 \<and> set fl' = set fl \<and> boot_maps s3 k (\<lambda>_. None) \<and>
    npages s3 = np \<and> nextfree s3 = kpage b \<and> (\<forall>p < unat np. pp_ref (pages s3 p) = (if p = 0 \<or> p = 7 \<or> 256 \<le> p \<and> p < b then 1 else 0)) \<and>
    same_cpus s s3 \<and> (\<forall>f i. f < 65536 \<longrightarrow> unat i < 1024 \<longrightarrow> f \<notin> insert k (set fl) \<longrightarrow> entry s3 f i = entry s f i)"
proof -
  obtain s0 where a: "mem_init_alloc nv kend s = Some (kpage (k + 1), kpage (b - 31), s0)" "npages s0 = np" "kdir k (length fl) fl s0"
    "boot_maps s0 k (\<lambda>_. None)" "nextfree s0 = kpage b"
    "\<And>p. p < unat np \<Longrightarrow> pp_ref (pages s0 p) = (if p = 0 \<or> p = 7 \<or> 256 \<le> p \<and> p < b then 1 else 0)"
    "same_cpus s s0" "\<And>f i. f < 65536 \<Longrightarrow> unat i < 1024 \<Longrightarrow> f \<noteq> k \<Longrightarrow> entry s0 f i = entry s f i"
    using mem_init_alloc_run [OF nf np kend room] unfolding fl_def k_def b_def by blast
  have bn: "256 \<le> k" "k < b" "256 < b" "b < unat np" "b < 65536"
    using kend room by (auto simp: k_def b_def boot_next_def boot_frame_def layout word_le_nat_alt)
  have ok: "may_be_free s0 p" if "p \<in> set fl" for p
    by (rule boot_list [OF that [unfolded fl_def] a(5,2) refl bn(3,4) room(2)])
  have "1 \<in> set fl" "b \<in> set fl"
    using bn(4) unfolding fl_def set_append set_upt by simp_all
  then have some: "\<exists>p \<in> set fl. p < 256" "\<exists>p \<in> set fl. 256 \<le> p"
    using bn(3) by (intro bexI [of _ 1] bexI [of _ b]; simp)+
  have nz: "nextfree s0 \<noteq> 0" "3 \<le> length fl"
    using unat_kpage [OF bn(5)] by (auto simp: a(5) fl_def)
  obtain s1 s2 s3 fl' where t: "check_page_free_list kend u1 u2 True s0 = Some s1" "check_page_alloc s1 = Some s2" "check_page s2 = Some s3"
    "free_list s3 fl'" "set fl' = set fl" "length fl' = length fl" "untouched fl s0 s3"
    using first_tests [OF a(3) nz(1) ok some nz(2), of kend u1 u2] by blast
  note U = kdir_untouched [OF a(3) t(7,4-6)]
  have "pp_ref (pages s3 p) = (if p = 0 \<or> p = 7 \<or> 256 \<le> p \<and> p < b then 1 else 0)" if "p < unat np" for p
    using a(6) [OF that] by (simp add: untouched_refs(1) [OF t(7)])
  moreover have "same_cpus s s3"
    using t(7) same_cpus_trans [OF a(7) same_cpus_mm_frame] by (simp add: untouched_def)
  moreover have "entry s3 f i = entry s f i" if "f < 65536" "unat i < 1024" "f \<notin> insert k (set fl)" for f i
    using t(7) a(8) [OF that(1,2)] that by (simp add: untouched_def)
  ultimately show ?thesis
    using a(1,2,5) t(1-3,5) U(1) U(2) [OF a(4)] untouched_refs(2,3) [OF t(7)]
    by (intro exI [of _ s0] exI [of _ s1] exI [of _ s2] exI [of _ s3] exI [of _ fl']) simp
qed

lemma cr3_frame:
  "kdir k N fl (s\<lparr>cr3 := r\<rparr>) = kdir k N fl s" "boot_maps (s\<lparr>cr3 := r\<rparr>) k m = boot_maps s k m" "may_be_free (s\<lparr>cr3 := r\<rparr>) p = may_be_free s p"
proof -
  have "pages_wf (s\<lparr>cr3 := r\<rparr>) = pages_wf s" "free_list (s\<lparr>cr3 := r\<rparr>) = free_list s"
    by (rule vm_cong; simp)+
  then show "kdir k N fl (s\<lparr>cr3 := r\<rparr>) = kdir k N fl s"
    by (simp add: kdir_def ktab_def)
qed (simp_all add: boot_maps_def may_be_free_def)

text \<open>The second half: the directory is checked and loaded, and the tests are run with it.\<close>

lemma mem_init_after:
  assumes kd: "kdir k N fl s" and m: "boot_maps s k (kernel_space np pp ep ksp)" and np: "npages s = np" "unat np \<le> 16639"
    and sub: "set fl \<subseteq> set ([1..<7] @ [8..<160] @ [b..<unat np])" and N: "N = 158 + (unat np - b)" and b: "256 < b" "b + 68 \<le> unat np" "nextfree s = kpage b"
    and va: "PADDR pages_va = Some pp" "page_aligned pp" "PADDR envs_va = Some ep" "page_aligned ep"
    and st: "\<And>i. i < NCPU \<Longrightarrow> PADDR (kstacks i) = Some (ksp i) \<and> page_aligned (ksp i)"
  shows "check_kern_pgdir pages_va envs_va kstacks s = Some ()"
    "\<exists>s1 s2 fl'. check_page_free_list kend u1 u2 False (s\<lparr>cr3 := page2pa k\<rparr>) = Some s1 \<and> check_page_installed_pgdir s1 = Some s2 \<and>
       kdir k N fl' s2 \<and> boot_maps s2 k (kernel_space np pp ep ksp) \<and> cr3 s2 = page2pa k \<and> (\<forall>q. pp_ref (pages s2 q) = pp_ref (pages s q)) \<and>
       npages s2 = np \<and> same_cpus s s2 \<and> (\<forall>f i. f < 65536 \<longrightarrow> unat i < 1024 \<longrightarrow> f \<notin> set fl \<longrightarrow> entry s2 f i = entry s f i)"
proof -
  show "check_kern_pgdir pages_va envs_va kstacks s = Some ()"
    using check_kern_pgdir_run [OF kd _ _ va st] m np by simp
  let ?s = "s\<lparr>cr3 := page2pa k\<rparr>"
  have kd': "kdir k N fl ?s" and m': "boot_maps ?s k (kernel_space np pp ep ksp)"
    using kd m by (simp_all add: cr3_frame)
  have "card (ktab s k) \<le> 67"
    using card_mono [OF _ kdirD(9) [OF kd]] card_kern_pdes by simp
  then have len: "158 + (unat np - b) \<le> 67 + length fl"
    using kdirD(10) [OF kd] N by simp
  have sub': "set fl \<subseteq> {1..<7} \<union> {8..<160} \<union> {b..<unat np}"
    using sub by (simp only: set_append set_upt Un_assoc)
  note L = pages_left [OF sub' free_list_distinct [OF kdirD(2) [OF kd]] len b(2,1)]
  have ok: "may_be_free ?s p" if "p \<in> set fl" for p
    unfolding cr3_frame by (rule boot_list [OF subsetD [OF sub that] b(3) np(1) refl b(1)]) (use b(2) np(2) in simp_all)
  have "nextfree ?s \<noteq> 0"
    using unat_kpage [of b] b np(2) by (auto simp: unat_eq_zero)
  then obtain s1 s2 fl' where t: "check_page_free_list kend u1 u2 False ?s = Some s1" "check_page_installed_pgdir s1 = Some s2"
    "free_list s2 fl'" "set fl' = set fl" "length fl' = length fl" "untouched fl ?s s2"
    using last_tests [OF kd' _ ok L, of kend u1 u2] by auto
  note U = kdir_untouched [OF kd' t(6,3-5)]
  show "\<exists>s1 s2 fl'. check_page_free_list kend u1 u2 False ?s = Some s1 \<and> check_page_installed_pgdir s1 = Some s2 \<and>
       kdir k N fl' s2 \<and> boot_maps s2 k (kernel_space np pp ep ksp) \<and> cr3 s2 = page2pa k \<and> (\<forall>q. pp_ref (pages s2 q) = pp_ref (pages s q)) \<and>
       npages s2 = np \<and> same_cpus s s2 \<and> (\<forall>f i. f < 65536 \<longrightarrow> unat i < 1024 \<longrightarrow> f \<notin> set fl \<longrightarrow> entry s2 f i = entry s f i)"
    using t(1,2) U(1) U(2) [OF m'] untouched_refs(1,3,4) [OF t(6)] t(6) np(1) same_cpus_trans [of s ?s s2] same_cpus_mm_frame [of ?s s2]
    by (intro exI [of _ s1] exI [of _ s2] exI [of _ fl']) (simp add: untouched_def same_cpus_def)
qed

text \<open>All of \<^verbatim>\<open>mem_init\<close>, with what is needed to go on from there: what is left of the free list, which pages the kernel holds, and that
  memory outside the free pages and the directory, the image of the kernel above all, is as before.\<close>

lemma mem_init_run:
  assumes "nextfree s = 0" "np = npages (i386_detect_memory nv s)" "KERNBASE + EXTPHYSMEM \<le> kend" "boot_next kend np + 68 \<le> unat np"
    and st: "page_aligned bootstack" "KERNBASE \<le> bootstack" "\<forall>i<NCPU. page_aligned (kstacks i) \<and> KERNBASE \<le> kstacks i"
  defines "k \<equiv> boot_frame kend" and "b \<equiv> boot_next kend np"
  shows "\<exists>pages_va envs_va s' fl. mem_init nv kend bootstack kstacks u1 u2 s = Some (pages_va, envs_va, s') \<and> cr3 s' = page2pa k \<and>
    boot_maps s' k (kernel_space np (pages_va - KERNBASE) (envs_va - KERNBASE) (\<lambda>i. kstacks i - KERNBASE)) \<and>
    kdir k (158 + (unat np - b)) fl s' \<and> npages s' = np \<and> same_cpus s s' \<and> (\<forall>p. p = 0 \<or> p = 7 \<or> 256 \<le> p \<and> p < b \<longrightarrow> pp_ref (pages s' p) = 1) \<and>
    (\<forall>f i. f < 65536 \<longrightarrow> unat i < 1024 \<longrightarrow> f = 0 \<or> 160 \<le> f \<and> f < b \<and> f \<noteq> k \<longrightarrow> entry s' f i = entry s f i)"
proof -
  let ?fl = "[1..<7] @ [8..<160] @ [b..<unat np]"
  let ?pv = "kpage (k + 1)" and ?ev = "kpage (b - 31)" and ?ks = "\<lambda>i. kstacks i - KERNBASE"
  have np: "unat np \<le> 16639" "unat np \<le> 65536" and room: "b < unat np"
    using detected_pages [of nv s] assms(2,4) unfolding b_def by simp_all
  have bn: "k + 1 < 65536" "b - 31 < 65536" "k < b" "256 < b" "k < 65536" "256 \<le> k"
    using assms(3) room np(2) by (auto simp: k_def b_def boot_next_def boot_frame_def layout word_le_nat_alt)
  obtain s0 s1 s2 s3 fl1 where a: "mem_init_alloc nv kend s = Some (?pv, ?ev, s0)" "check_page_free_list kend u1 u2 True s0 = Some s1"
    "check_page_alloc s1 = Some s2" "check_page s2 = Some s3" "kdir k (length ?fl) fl1 s3" "set fl1 = set ?fl" "boot_maps s3 k (\<lambda>_. None)"
    "npages s3 = np" "nextfree s3 = kpage b" "\<And>p. p < unat np \<Longrightarrow> pp_ref (pages s3 p) = (if p = 0 \<or> p = 7 \<or> 256 \<le> p \<and> p < b then 1 else 0)"
    "same_cpus s s3" "\<And>f i. f < 65536 \<Longrightarrow> unat i < 1024 \<Longrightarrow> f \<notin> insert k (set ?fl) \<Longrightarrow> entry s3 f i = entry s f i"
    using mem_init_before [OF assms(1-3) room [unfolded b_def] np(2), of u1 u2] unfolding k_def b_def by blast
  have pd: "PADDR x = Some (x - KERNBASE)" "page_aligned (x - KERNBASE)" if "page_aligned x" "KERNBASE \<le> x" for x
    using that by (auto simp: PADDR_def region_pages(9) intro: page_aligned_diff)
  have kp: "KERNBASE \<le> kpage f" if "f < 65536" for f
    using unat_kpage [OF that] by (simp add: word_le_nat_alt layout)
  note P = pd [OF page_aligned_kpage [OF bn(1)] kp [OF bn(1)]] and E = pd [OF page_aligned_kpage [OF bn(2)] kp [OF bn(2)]]
  have len: "67 \<le> length ?fl" "length ?fl = 158 + (unat np - b)"
    by simp_all
  have st': "PADDR (kstacks i) = Some (?ks i) \<and> page_aligned (?ks i)" if "i < NCPU" for i
    using pd st(3) that by blast
  obtain fl2 s4 where m: "mem_init_map ?pv ?ev bootstack kstacks s3 = Some s4" "kdir k (length ?fl) fl2 s4" "set fl2 \<subseteq> set fl1" "kstep k fl1 s3 s4"
    "boot_maps s4 k (kernel_space np (?pv - KERNBASE) (?ev - KERNBASE) ?ks)"
    using mem_init_map_run [OF a(5) len(1) a(7) P E pd [OF st(1,2)], of kstacks ?ks] st(3) st' unfolding a(8) by blast
  have s4: "npages s4 = np" "nextfree s4 = kpage b"
    using m(4) a(8,9) by (simp_all add: kstep_def mm_frame_def)
  note R = mem_init_after [OF m(2,5) s4(1) np(1) m(3) [unfolded a(6)] len(2) bn(4) assms(4) [folded b_def] s4(2) P E st']
  obtain s5 s6 fl3 where t: "check_page_free_list kend u1 u2 False (s4\<lparr>cr3 := page2pa k\<rparr>) = Some s5" "check_page_installed_pgdir s5 = Some s6"
    "kdir k (length ?fl) fl3 s6" "boot_maps s6 k (kernel_space np (?pv - KERNBASE) (?ev - KERNBASE) ?ks)" "cr3 s6 = page2pa k"
    "\<And>q. pp_ref (pages s6 q) = pp_ref (pages s4 q)" "npages s6 = np" "same_cpus s4 s6"
    "\<And>f i. f < 65536 \<Longrightarrow> unat i < 1024 \<Longrightarrow> f \<notin> set fl2 \<Longrightarrow> entry s6 f i = entry s4 f i"
    using R(2) [of kend u1 u2] by blast
  have "PADDR (kern_pgdir s4) = Some (page2pa k)"
    using kdirD(3) [OF m(2)] PADDR_kpage [OF bn(5)] by simp
  then have run: "mem_init nv kend bootstack kstacks u1 u2 s = Some (?pv, ?ev, s6)"
    using a(1-4) m(1) R(1) t(1,2) by (simp add: mem_init_def)
  have out: "p \<notin> set fl1" if "p = 0 \<or> p = 7 \<or> 160 \<le> p \<and> p < b" for p
    using that bn(4) unfolding a(6) set_append set_upt by auto
  have refs: "pp_ref (pages s6 p) = 1" if "p = 0 \<or> p = 7 \<or> 256 \<le> p \<and> p < b" for p
    using that out [of p] a(10) [of p] m(4) room bn(4) by (auto simp: t(6) kstep_def)
  have tab: "ktab s3 k = {}"
  proof -
    have "length fl1 = length ?fl"
      using distinct_card [of fl1] distinct_card [of ?fl] free_list_distinct [OF kdirD(2) [OF a(5)]] bn(4) unfolding a(6) by auto
    then have "card (ktab s3 k) = 0"
      using kdirD(10) [OF a(5)] by simp
    then show ?thesis
      by simp
  qed
  have "within (insert k (set fl1)) k s3 s4"
    using m(4) unfolding kstep_def by blast
  then have mid: "entry s4 f i = entry s3 f i" if "f < 65536" "unat i < 1024" "f \<notin> insert k (set fl1)" for f i
    using that by (simp add: within_def tab)
  have "entry s6 f i = entry s f i" if "f < 65536" "unat i < 1024" "f = 0 \<or> 160 \<le> f \<and> f < b \<and> f \<noteq> k" for f i
  proof -
    have o: "f \<notin> set fl1"
      using out [of f] that(3) by blast
    have "f \<noteq> k"
      using that(3) bn(6) by auto
    then have "f \<notin> insert k (set ?fl)" "f \<notin> insert k (set fl1)"
      using o unfolding a(6) [symmetric] by blast+
    moreover have "f \<notin> set fl2"
      using o m(3) by blast
    ultimately show ?thesis
      using t(9) [OF that(1,2)] mid [OF that(1,2)] a(12) [OF that(1,2)] by metis
  qed
  moreover have "same_cpus s s6"
    using same_cpus_trans [OF a(11) same_cpus_trans [OF same_cpus_mm_frame t(8)]] m(4) by (simp add: kstep_def)
  ultimately show ?thesis
    using run t(3-5,7) refs unfolding len(2) by blast
qed

text \<open>C3. \<^verbatim>\<open>mem_init\<close>, with all of its steps, runs through: on a machine whose memory has room for the boot allocations and 68 pages more, no
  assertion of \<^verbatim>\<open>check_page_free_list\<close>, \<^verbatim>\<open>check_page_alloc\<close>, \<^verbatim>\<open>check_page\<close>, \<^verbatim>\<open>check_kern_pgdir\<close> and \<^verbatim>\<open>check_page_installed_pgdir\<close> fails and nothing
  panics, whatever memory and the variables of the tests held before; the directory of the kernel is loaded and maps exactly \<open>kernel_space\<close>, and
  with the environment table initialised the state satisfies the invariant of the kernel: the tests leave nothing behind.\<close>

theorem mem_init_passes:
  assumes "nextfree s = 0" "np = npages (i386_detect_memory nv s)" "KERNBASE + EXTPHYSMEM \<le> kend" "boot_next kend np + 68 \<le> unat np"
    and st: "page_aligned bootstack" "KERNBASE \<le> bootstack" "\<And>i. i < NCPU \<Longrightarrow> page_aligned (kstacks i) \<and> KERNBASE \<le> kstacks i"
  shows "\<exists>pages_va envs_va s'. mem_init nv kend bootstack kstacks u1 u2 s = Some (pages_va, envs_va, s') \<and> cr3 s' = page2pa (boot_frame kend) \<and>
    (\<forall>a. PDX a \<noteq> PDX UVPT \<longrightarrow> vmap s' (boot_frame kend) a =
       kernel_space np (pages_va - KERNBASE) (envs_va - KERNBASE) (\<lambda>i. kstacks i - KERNBASE) a) \<and>
    kern_inv (\<lambda>p. unat (pp_ref (pages s' p))) (boot_frame kend) (env_init s')"
proof -
  let ?k = "boot_frame kend" and ?b = "boot_next kend np"
  have al: "\<forall>i<NCPU. page_aligned (kstacks i) \<and> KERNBASE \<le> kstacks i"
    using st(3) by blast
  obtain pages_va envs_va s' fl where r: "mem_init nv kend bootstack kstacks u1 u2 s = Some (pages_va, envs_va, s')" "cr3 s' = page2pa ?k"
    "boot_maps s' ?k (kernel_space np (pages_va - KERNBASE) (envs_va - KERNBASE) (\<lambda>i. kstacks i - KERNBASE))"
    "kdir ?k (158 + (unat np - ?b)) fl s'" "\<forall>p. p = 0 \<or> p = 7 \<or> 256 \<le> p \<and> p < ?b \<longrightarrow> pp_ref (pages s' p) = 1"
    using mem_init_run [OF assms(1-6) al, where ?u1.0 = u1 and ?u2.0 = u2] by (elim exE conjE that)
  have "256 \<le> ?k" "?k < ?b"
    using assms(3) by (auto simp: boot_next_def boot_frame_def layout word_le_nat_alt)
  then have "pp_ref (pages s' ?k) \<noteq> 0" "pp_ref (pages s' 0) \<noteq> 0"
    using r(5) by simp_all
  from kdir_kern_inv [OF r(4) this] show ?thesis
    using r(1-3) unfolding boot_maps_def by blast
qed

theorem mem_init_passes_witness:
  "\<exists>pages_va envs_va s'. mem_init demo_nv 0xF0120000 0xF0110000 (\<lambda>i. 0xF0114000 + word_of_nat i * KSTKSIZE) None (Some 5) demo = Some (pages_va, envs_va, s') \<and>
    cr3 s' = 0x120000 \<and> vmap s' 288 0xF0001234 = Some 0x1003 \<and> kern_inv (\<lambda>p. unat (pp_ref (pages s' p))) 288 (env_init s')"
proof -
  have f: "boot_frame 0xF0120000 = 288" "boot_next 0xF0120000 4096 + 68 \<le> 4096" "page2pa 288 = 0x120000"
    by (simp_all add: boot_frame_def boot_next_def page2pa_def layout)
  have al: "page_aligned (0xF0114000 + word_of_nat i * KSTKSIZE) \<and> KERNBASE \<le> 0xF0114000 + word_of_nat i * KSTKSIZE" if "i < NCPU" for i
  proof -
    have "i \<in> {0, 1, 2, 3, 4, 5, 6, 7}"
      using that by (auto simp: layout)
    then show ?thesis
      by (auto simp: layout page_aligned_unat)
  qed
  have pre: "nextfree demo = 0" "page_aligned 0xF0110000" "KERNBASE \<le> 0xF0110000" "KERNBASE + EXTPHYSMEM \<le> 0xF0120000"
    by (simp_all add: demo_def page_aligned_unat layout)
  have uv: "PDX 0xF0001234 \<noteq> PDX UVPT"
    by (simp add: PDX_def layout)
  have "kernel_space 4096 p e st 0xF0001234 = Some 0x1003" for p e st
    by (simp add: kernel_space_def layout PTE_ADDR_def)
  then show ?thesis
    using mem_init_passes [OF pre(1) demo_detect [symmetric] pre(4) _ pre(2,3), of "\<lambda>i. 0xF0114000 + word_of_nat i * KSTKSIZE" None "Some 5"] al f uv
    by (auto simp: f)
qed

end
