(* ===== verification/Mpconfig.thy ===== *)
theory Mpconfig
  imports Trap
begin

section \<open>Processors: the configuration table and the local APIC\<close>

text \<open>
  \<^verbatim>\<open>kern/mpconfig.c\<close> finds the processors in the table that the firmware left in memory, \<^verbatim>\<open>kern/lapic.c\<close> drives the local
  APIC. Physical memory is read through the mapping at \<^verbatim>\<open>KERNBASE\<close>; the registers of the APIC are a list of writes, in order, and
  what is read from them is an argument. Messages on the console are not modelled, and neither are the delays, which are empty in the source,
  nor the loops that wait until the APIC has sent an interrupt.
\<close>

subsection \<open>The tables\<close>

definition rd16 :: "bytemem \<Rightarrow> u32 \<Rightarrow> u16" where
  "rd16 m a = ucast (m a) OR push_bit 8 (ucast (m (a + 1)))"

text \<open>Fields of \<^verbatim>\<open>struct mp\<close>, \<^verbatim>\<open>struct mpconf\<close> and \<^verbatim>\<open>struct mpproc\<close> at a physical address.\<close>

definition mp_physaddr :: "bytemem \<Rightarrow> u32 \<Rightarrow> u32" where "mp_physaddr m p = rd32 m (p + 4)"
definition mp_type :: "bytemem \<Rightarrow> u32 \<Rightarrow> u8" where "mp_type m p = m (p + 11)"
definition mp_imcrp :: "bytemem \<Rightarrow> u32 \<Rightarrow> u8" where "mp_imcrp m p = m (p + 12)"

definition conf_length :: "bytemem \<Rightarrow> u32 \<Rightarrow> u16" where "conf_length m p = rd16 m (p + 4)"
definition conf_version :: "bytemem \<Rightarrow> u32 \<Rightarrow> u8" where "conf_version m p = m (p + 6)"
definition conf_entry :: "bytemem \<Rightarrow> u32 \<Rightarrow> u16" where "conf_entry m p = rd16 m (p + 34)"
definition conf_lapicaddr :: "bytemem \<Rightarrow> u32 \<Rightarrow> u32" where "conf_lapicaddr m p = rd32 m (p + 36)"
definition conf_xlength :: "bytemem \<Rightarrow> u32 \<Rightarrow> u16" where "conf_xlength m p = rd16 m (p + 40)"
definition conf_xchecksum :: "bytemem \<Rightarrow> u32 \<Rightarrow> u8" where "conf_xchecksum m p = m (p + 42)"
definition conf_entries :: "u32 \<Rightarrow> u32" where "conf_entries p = p + 44"

definition proc_flags :: "bytemem \<Rightarrow> u32 \<Rightarrow> u8" where "proc_flags m p = m (p + 3)"

definition MPPROC_BOOT :: u8 where "MPPROC_BOOT = 0x02"
definition MPPROC :: u8 where "MPPROC = 0"
definition MPBUS :: u8 where "MPBUS = 1"
definition MPIOAPIC :: u8 where "MPIOAPIC = 2"
definition MPIOINTR :: u8 where "MPIOINTR = 3"
definition MPLINTR :: u8 where "MPLINTR = 4"

lemmas mp_consts = MPPROC_BOOT_def MPPROC_def MPBUS_def MPIOAPIC_def MPIOINTR_def MPLINTR_def

subsection \<open>Finding the table\<close>

text \<open>The sum is an \<^verbatim>\<open>int\<close>, and only its low byte is returned.\<close>

fun sum_from :: "bytemem \<Rightarrow> u32 \<Rightarrow> nat \<Rightarrow> int \<Rightarrow> int" where
  "sum_from m a 0 acc = acc"
| "sum_from m a (Suc n) acc = sum_from m (a + 1) n (acc + uint (m a))"

definition mp_sum :: "bytemem \<Rightarrow> u32 \<Rightarrow> nat \<Rightarrow> u8" where
  "mp_sum m a len = word_of_int (sum_from m a len 0)"

definition signature :: "bytemem \<Rightarrow> u32 \<Rightarrow> u8 list \<Rightarrow> bool" where
  "signature m a cs \<longleftrightarrow> map (\<lambda>i. m (a + word_of_nat i)) [0..<length cs] = cs"

definition MP_SIG :: "u8 list" where "MP_SIG = [0x5F, 0x4D, 0x50, 0x5F]"
definition PCMP_SIG :: "u8 list" where "PCMP_SIG = [0x50, 0x43, 0x4D, 0x50]"

text \<open>The loop over \<^verbatim>\<open>struct mp\<close> of sixteen bytes each; the result is a pointer, 0 when there is none.\<close>

partial_function (option) mpsearch_from :: "bytemem \<Rightarrow> u32 \<Rightarrow> u32 \<Rightarrow> u32 option" where
  "mpsearch_from m mp e =
     (if mp < e
      then if signature m (mp - KERNBASE) MP_SIG \<and> mp_sum m (mp - KERNBASE) 16 = 0 then Some mp else mpsearch_from m (mp + 16) e
      else Some 0)"

definition mpsearch1 :: "kstate \<Rightarrow> u32 \<Rightarrow> u32 \<Rightarrow> u32 option" where
  "mpsearch1 s a len = do { mp \<leftarrow> KADDR s a; e \<leftarrow> KADDR s (a + len); mpsearch_from (pmem s) mp e }"

definition mpsearch :: "kstate \<Rightarrow> u32 option" where
  "mpsearch s =
     do {
       bda \<leftarrow> KADDR s 0x400;
       let p = (ucast (rd16 (pmem s) (bda + 0x0E - KERNBASE)) :: u32);
       mp \<leftarrow> (if p \<noteq> 0 then mpsearch1 s (push_bit 4 p) 1024
             else mpsearch1 s (ucast (rd16 (pmem s) (bda + 0x13 - KERNBASE)) * 1024 - 1024) 1024);
       (if mp \<noteq> 0 then Some mp else mpsearch1 s 0xF0000 0x10000)
     }"

text \<open>The results are kernel addresses, \<open>None\<close> inside when the code returns the null pointer.\<close>

definition mpconfig :: "kstate \<Rightarrow> (u32 \<times> u32) option option" where
  "mpconfig s =
     do {
       mp \<leftarrow> mpsearch s;
       (if mp = 0 \<or> mp_physaddr (pmem s) (mp - KERNBASE) = 0 \<or> mp_type (pmem s) (mp - KERNBASE) \<noteq> 0 then Some None
        else do {
          conf \<leftarrow> KADDR s (mp_physaddr (pmem s) (mp - KERNBASE));
          let p = conf - KERNBASE;
          Some (if \<not> signature (pmem s) p PCMP_SIG \<or> mp_sum (pmem s) p (unat (conf_length (pmem s) p)) \<noteq> 0 \<or>
                   conf_version (pmem s) p \<noteq> 1 \<and> conf_version (pmem s) p \<noteq> 4 \<or>
                   mp_sum (pmem s) (p + ucast (conf_length (pmem s) p)) (unat (conf_xlength (pmem s) p)) \<noteq> conf_xchecksum (pmem s) p
                then None else Some (mp, conf))
        })
     }"

subsection \<open>The processors\<close>

text \<open>The global variables; \<^verbatim>\<open>bootcpu\<close> is the index its pointer into \<^verbatim>\<open>cpus\<close> has.\<close>

record mpglobals =
  mp_cpus :: "nat \<Rightarrow> Cpu"
  bootcpu :: nat
  ismp :: bool
  ncpu :: nat
  lapic :: u32
  mp_outs :: "(u32 \<times> u8) list"

definition CPU_STARTED :: u32 where [layout]: "CPU_STARTED = 1"

definition mp_proc :: "bytemem \<Rightarrow> u32 \<Rightarrow> mpglobals \<Rightarrow> mpglobals" where
  "mp_proc m p g =
     (let g1 = (if proc_flags m p AND MPPROC_BOOT \<noteq> 0 then g\<lparr>bootcpu := ncpu g\<rparr> else g)
      in if ncpu g1 < NCPU
         then g1\<lparr>mp_cpus := (mp_cpus g1)(ncpu g1 := (mp_cpus g1 (ncpu g1))\<lparr>cpu_id := word_of_nat (ncpu g1)\<rparr>), ncpu := ncpu g1 + 1\<rparr>
         else g1)"

text \<open>The loop over the entries, of which \<open>n\<close> remain; \<open>p\<close> is a physical address.\<close>

fun mp_entries :: "bytemem \<Rightarrow> u32 \<Rightarrow> nat \<Rightarrow> mpglobals \<Rightarrow> mpglobals" where
  "mp_entries m p 0 g = g"
| "mp_entries m p (Suc n) g =
     (if m p = MPPROC then mp_entries m (p + 20) n (mp_proc m p g)
      else if m p = MPBUS \<or> m p = MPIOAPIC \<or> m p = MPIOINTR \<or> m p = MPLINTR then mp_entries m (p + 8) n g
      else g\<lparr>ismp := False\<rparr>)"

text \<open>\<open>imcr\<close> is what port \<^verbatim>\<open>0x23\<close> reads.\<close>

definition mp_init :: "kstate \<Rightarrow> u8 \<Rightarrow> mpglobals \<Rightarrow> mpglobals option" where
  "mp_init s imcr g =
     do {
       r \<leftarrow> mpconfig s;
       let g0 = g\<lparr>bootcpu := 0\<rparr>;
       (case r of
          None \<Rightarrow> Some g0
        | Some (mp, conf) \<Rightarrow>
            let p = conf - KERNBASE;
                g1 = g0\<lparr>ismp := True, lapic := conf_lapicaddr (pmem s) p\<rparr>;
                g2 = mp_entries (pmem s) (conf_entries p) (unat (conf_entry (pmem s) p)) g1;
                g3 = g2\<lparr>mp_cpus := (mp_cpus g2)(bootcpu g2 := (mp_cpus g2 (bootcpu g2))\<lparr>cpu_status := CPU_STARTED\<rparr>)\<rparr>
            in Some (if \<not> ismp g3 then g3\<lparr>ncpu := 1, lapic := 0\<rparr>
                     else if mp_imcrp (pmem s) (mp - KERNBASE) \<noteq> 0 then g3\<lparr>mp_outs := mp_outs g3 @ [(0x22, 0x70), (0x23, imcr OR 1)]\<rparr>
                     else g3))
     }"

subsection \<open>The local APIC\<close>

text \<open>Registers are indices into an array of words.\<close>

definition LAPIC_ID :: nat where "LAPIC_ID = 0x20 div 4"
definition LAPIC_TPR :: nat where "LAPIC_TPR = 0x80 div 4"
definition LAPIC_EOI :: nat where "LAPIC_EOI = 0xB0 div 4"
definition LAPIC_SVR :: nat where "LAPIC_SVR = 0xF0 div 4"
definition LAPIC_ESR :: nat where "LAPIC_ESR = 0x280 div 4"
definition LAPIC_ICRLO :: nat where "LAPIC_ICRLO = 0x300 div 4"
definition LAPIC_ICRHI :: nat where "LAPIC_ICRHI = 0x310 div 4"
definition LAPIC_TIMER :: nat where "LAPIC_TIMER = 0x320 div 4"
definition LAPIC_PCINT :: nat where "LAPIC_PCINT = 0x340 div 4"
definition LAPIC_LINT0 :: nat where "LAPIC_LINT0 = 0x350 div 4"
definition LAPIC_LINT1 :: nat where "LAPIC_LINT1 = 0x360 div 4"
definition LAPIC_ERROR :: nat where "LAPIC_ERROR = 0x370 div 4"
definition LAPIC_TICR :: nat where "LAPIC_TICR = 0x380 div 4"
definition LAPIC_TDCR :: nat where "LAPIC_TDCR = 0x3E0 div 4"

lemmas lapic_regs = LAPIC_ID_def LAPIC_TPR_def LAPIC_EOI_def LAPIC_SVR_def LAPIC_ESR_def LAPIC_ICRLO_def LAPIC_ICRHI_def LAPIC_TIMER_def
  LAPIC_PCINT_def LAPIC_LINT0_def LAPIC_LINT1_def LAPIC_ERROR_def LAPIC_TICR_def LAPIC_TDCR_def

definition APIC_INIT :: u32 where "APIC_INIT = 0x500"
definition APIC_STARTUP :: u32 where "APIC_STARTUP = 0x600"
definition APIC_ASSERT :: u32 where "APIC_ASSERT = 0x4000"
definition APIC_LEVEL :: u32 where "APIC_LEVEL = 0x8000"
definition APIC_BCAST :: u32 where "APIC_BCAST = 0x80000"
definition APIC_OTHERS :: u32 where "APIC_OTHERS = 0xC0000"
definition APIC_FIXED :: u32 where "APIC_FIXED = 0"
definition APIC_MASKED :: u32 where "APIC_MASKED = 0x10000"

type_synonym apicw = "(nat \<times> u32) list"

text \<open>\<open>ver\<close> is what the version register reads, \<open>boot\<close> whether this processor is \<^verbatim>\<open>bootcpu\<close>.\<close>

definition lapic_init :: "u32 \<Rightarrow> u32 \<Rightarrow> bool \<Rightarrow> apicw" where
  "lapic_init la ver boot =
     (if la = 0 then []
      else [(LAPIC_SVR, 0x100 OR (IRQ_OFFSET + IRQ_SPURIOUS)), (LAPIC_TDCR, 0xB), (LAPIC_TIMER, 0x20000 OR (IRQ_OFFSET + IRQ_TIMER)), (LAPIC_TICR, 10000000)] @
           (if boot then [] else [(LAPIC_LINT0, APIC_MASKED)]) @
           [(LAPIC_LINT1, APIC_MASKED)] @
           (if 4 \<le> drop_bit 16 ver AND 0xFF then [(LAPIC_PCINT, APIC_MASKED)] else []) @
           [(LAPIC_ERROR, IRQ_OFFSET + IRQ_ERROR), (LAPIC_ESR, 0), (LAPIC_ESR, 0), (LAPIC_EOI, 0), (LAPIC_ICRHI, 0),
            (LAPIC_ICRLO, APIC_BCAST OR APIC_INIT OR APIC_LEVEL), (LAPIC_TPR, 0)])"

text \<open>\<open>ident\<close> is what the identification register reads.\<close>

definition lapic_cpunum :: "u32 \<Rightarrow> u32 \<Rightarrow> u32" where
  "lapic_cpunum la ident = (if la \<noteq> 0 then drop_bit 24 ident else 0)"

definition lapic_eoi :: "u32 \<Rightarrow> apicw" where
  "lapic_eoi la = (if la \<noteq> 0 then [(LAPIC_EOI, 0)] else [])"

definition lapic_ipi :: "u32 \<Rightarrow> apicw" where
  "lapic_ipi vector = [(LAPIC_ICRLO, APIC_OTHERS OR APIC_FIXED OR vector)]"

text \<open>The writes to ports, to the warm reset vector in memory and to the APIC.\<close>

definition lapic_startap :: "kstate \<Rightarrow> u8 \<Rightarrow> u32 \<Rightarrow> ((u32 \<times> u8) list \<times> bytemem \<times> apicw) option" where
  "lapic_startap s apicid addr =
     do {
       wrv \<leftarrow> KADDR s (0x400 OR 0x67);
       let a = wrv - KERNBASE; let seg = drop_bit 4 addr; let hi = push_bit 24 (ucast apicid);
       Some ([(0x70, 0xF), (0x71, 0x0A)],
             (pmem s)(a := 0, a + 1 := 0, a + 2 := ucast seg, a + 3 := ucast (drop_bit 8 seg)),
             [(LAPIC_ICRHI, hi), (LAPIC_ICRLO, APIC_INIT OR APIC_LEVEL OR APIC_ASSERT), (LAPIC_ICRLO, APIC_INIT OR APIC_LEVEL),
              (LAPIC_ICRHI, hi), (LAPIC_ICRLO, APIC_STARTUP OR drop_bit 12 addr), (LAPIC_ICRHI, hi), (LAPIC_ICRLO, APIC_STARTUP OR drop_bit 12 addr)])
     }"

subsection \<open>The search\<close>

text \<open>\<open>mp_at s a\<close>: there is a floating pointer structure at physical address \<open>a\<close>.\<close>

definition mp_at :: "kstate \<Rightarrow> u32 \<Rightarrow> bool" where
  "mp_at s a \<longleftrightarrow> signature (pmem s) a MP_SIG \<and> mp_sum (pmem s) a 16 = 0"

lemma mpsearch_from_run:
  assumes "unat mp + 16 * n < 4294967296"
  shows "\<exists>r. mpsearch_from (pmem s) mp (mp + 16 * word_of_nat n) = Some r \<and>
    (r = 0 \<and> (\<forall>k<n. \<not> mp_at s (mp + 16 * word_of_nat k - KERNBASE)) \<or>
     (\<exists>k<n. r = mp + 16 * word_of_nat k \<and> mp_at s (r - KERNBASE) \<and> (\<forall>j<k. \<not> mp_at s (mp + 16 * word_of_nat j - KERNBASE))))"
  using assms
proof (induction n arbitrary: mp)
  case 0
  then show ?case
    by (simp add: mpsearch_from.simps)
next
  case (Suc n)
  have u: "unat (16 * word_of_nat (Suc n) :: u32) = 16 * Suc n"
  proof -
    have "unat (word_of_nat (Suc n) :: u32) = Suc n"
      using Suc.prems by (simp only: unat_of_nat) (simp add: take_bit_nat_eq_self)
    then show ?thesis
      using Suc.prems by (subst unat_mult_no_wrap) simp_all
  qed
  then have "unat (mp + 16 * word_of_nat (Suc n)) = unat mp + 16 * Suc n"
    using Suc.prems by (subst unat_add_no_wrap) simp_all
  then have lt: "mp < mp + 16 * word_of_nat (Suc n)"
    by (simp add: word_less_nat_alt)
  note step = mpsearch_from.simps [of "pmem s" mp "mp + 16 * word_of_nat (Suc n)"]
  show ?case
  proof (cases "mp_at s (mp - KERNBASE)")
    case True
    then have "mpsearch_from (pmem s) mp (mp + 16 * word_of_nat (Suc n)) = Some mp"
      using lt by (subst step) (simp add: mp_at_def)
    then show ?thesis
      using True by (intro exI [of _ mp]) (auto intro: exI [of _ 0])
  next
    case False
    have eq: "mpsearch_from (pmem s) mp (mp + 16 * word_of_nat (Suc n)) = mpsearch_from (pmem s) (mp + 16) (mp + 16 + 16 * word_of_nat n)"
      using lt False by (subst step) (auto simp: mp_at_def algebra_simps)
    have "unat (mp + 16) = unat mp + 16"
      using Suc.prems by (subst unat_add_no_wrap) simp_all
    then obtain r where r: "mpsearch_from (pmem s) (mp + 16) (mp + 16 + 16 * word_of_nat n) = Some r"
      "r = 0 \<and> (\<forall>k<n. \<not> mp_at s (mp + 16 + 16 * word_of_nat k - KERNBASE)) \<or>
       (\<exists>k<n. r = mp + 16 + 16 * word_of_nat k \<and> mp_at s (r - KERNBASE) \<and> (\<forall>j<k. \<not> mp_at s (mp + 16 + 16 * word_of_nat j - KERNBASE)))"
      using Suc.IH [of "mp + 16"] Suc.prems by auto
    have sh: "mp + 16 + 16 * word_of_nat k = mp + 16 * word_of_nat (Suc k)" for k
      by (simp add: algebra_simps)
    have none: "\<not> mp_at s (mp + 16 * word_of_nat j - KERNBASE)"
      if "j < Suc k" "\<forall>j<k. \<not> mp_at s (mp + 16 * word_of_nat (Suc j) - KERNBASE)" for j k
      using that False by (cases j) auto
    have run: "mpsearch_from (pmem s) mp (mp + 16 * word_of_nat (Suc n)) = Some r"
      using eq r(1) by simp
    have "r = 0 \<and> (\<forall>k<Suc n. \<not> mp_at s (mp + 16 * word_of_nat k - KERNBASE)) \<or>
      (\<exists>k<Suc n. r = mp + 16 * word_of_nat k \<and> mp_at s (r - KERNBASE) \<and> (\<forall>j<k. \<not> mp_at s (mp + 16 * word_of_nat j - KERNBASE)))"
      using r(2) unfolding sh
    proof (elim disjE exE conjE)
      fix k assume k: "k < n" "r = mp + 16 * word_of_nat (Suc k)" "mp_at s (r - KERNBASE)" "\<forall>j<k. \<not> mp_at s (mp + 16 * word_of_nat (Suc j) - KERNBASE)"
      then have "\<forall>j<Suc k. \<not> mp_at s (mp + 16 * word_of_nat j - KERNBASE)"
        using none by simp
      with k show ?thesis
        by (intro disjI2 exI [of _ "Suc k"]) simp
    next
      assume "r = 0" and all: "\<forall>k<n. \<not> mp_at s (mp + 16 * word_of_nat (Suc k) - KERNBASE)"
      have "\<not> mp_at s (mp + 16 * word_of_nat j - KERNBASE)" if "j < Suc n" for j
        by (rule none [OF that all])
      with \<open>r = 0\<close> show ?thesis
        by simp
    qed
    with run show ?thesis
      by blast
  qed
qed

text \<open>\<^verbatim>\<open>mpsearch1\<close> on a range of whole structures inside physical memory always ends, and returns the first structure of the range
  with the right signature and checksum, or the null pointer when there is none.\<close>

theorem mpsearch1_correct:
  assumes "unat a + 16 * n < 4096 * unat (npages s)" "unat (npages s) \<le> 65536"
  shows "\<exists>r. mpsearch1 s a (16 * word_of_nat n) = Some r \<and>
    (r = 0 \<and> (\<forall>k<n. \<not> mp_at s (a + 16 * word_of_nat k)) \<or>
     (\<exists>k<n. r = KERNBASE + a + 16 * word_of_nat k \<and> mp_at s (a + 16 * word_of_nat k) \<and> (\<forall>j<k. \<not> mp_at s (a + 16 * word_of_nat j))))"
proof -
  have small: "unat a + 16 * n < 268435456"
    using assms by linarith
  then have u: "unat (16 * word_of_nat n :: u32) = 16 * n"
    by (simp add: unat_word_ariths unat_of_nat)
  then have ae: "unat (a + 16 * word_of_nat n) = unat a + 16 * n"
    using small by (subst unat_add_no_wrap) simp_all
  have k: "KADDR s a = Some (a + KERNBASE)" "KADDR s (a + 16 * word_of_nat n) = Some (a + KERNBASE + 16 * word_of_nat n)"
    using assms(1) ae by (simp_all add: KADDR_def word_le_nat_alt unat_PGNUM less_mult_imp_div_less ac_simps)
  have "unat (a + KERNBASE) = unat a + 4026531840"
    using small by (subst unat_add_no_wrap) (simp_all add: layout)
  then have "unat (a + KERNBASE) + 16 * n < 4294967296"
    using small by simp
  then obtain r where r: "mpsearch_from (pmem s) (a + KERNBASE) (a + KERNBASE + 16 * word_of_nat n) = Some r"
    "r = 0 \<and> (\<forall>k<n. \<not> mp_at s (a + KERNBASE + 16 * word_of_nat k - KERNBASE)) \<or>
     (\<exists>k<n. r = a + KERNBASE + 16 * word_of_nat k \<and> mp_at s (r - KERNBASE) \<and> (\<forall>j<k. \<not> mp_at s (a + KERNBASE + 16 * word_of_nat j - KERNBASE)))"
    using mpsearch_from_run [of "a + KERNBASE" n s] by blast
  have sh: "a + KERNBASE + x - KERNBASE = a + x" "a + KERNBASE + x = KERNBASE + a + x" for x :: u32
    by simp_all
  have "mpsearch1 s a (16 * word_of_nat n) = Some r"
    using r(1) by (simp only: mpsearch1_def k bind.bind_lunit)
  with r(2) show ?thesis
    unfolding sh(1) by (auto simp: sh)
qed

text \<open>A structure at physical address \<^verbatim>\<open>0x410\<close>.\<close>

definition demo_mp_bytes :: bytemem where
  "demo_mp_bytes a = (if a = 0x410 \<or> a = 0x413 then 0x5F else if a = 0x411 then 0x4D else if a = 0x412 then 0x50 else if a = 0x41A then 0xA5 else 0)"

definition demo_mp :: kstate where
  "demo_mp = demo\<lparr>pmem := demo_mp_bytes\<rparr>"

lemma demo_mp_at: "mp_at demo_mp 0x410" "\<not> mp_at demo_mp 0x400"
proof -
  have "signature demo_mp_bytes 0x410 MP_SIG" "mp_sum demo_mp_bytes 0x410 16 = 0" "\<not> signature demo_mp_bytes 0x400 MP_SIG"
    by code_simp+
  then show "mp_at demo_mp 0x410" "\<not> mp_at demo_mp 0x400"
    by (simp_all add: mp_at_def demo_mp_def)
qed

theorem mpsearch1_correct_witness:
  "mpsearch1 demo_mp 0x400 (16 * word_of_nat 2) = Some 0xF0000410"
proof -
  have "unat (npages demo_mp) = 8"
    by (simp add: demo_mp_def)
  then obtain r where r: "mpsearch1 demo_mp 0x400 (16 * word_of_nat 2) = Some r"
    "r = 0 \<and> (\<forall>k<2. \<not> mp_at demo_mp (0x400 + 16 * word_of_nat k)) \<or>
     (\<exists>k<2. r = KERNBASE + 0x400 + 16 * word_of_nat k \<and> mp_at demo_mp (0x400 + 16 * word_of_nat k) \<and>
       (\<forall>j<k. \<not> mp_at demo_mp (0x400 + 16 * word_of_nat j)))"
    using mpsearch1_correct [of "0x400" 2 demo_mp] by auto
  have two: "k < 2 \<longleftrightarrow> k = 0 \<or> k = (1::nat)" for k
    by auto
  have "r = 0xF0000410"
    using r(2) demo_mp_at unfolding two by (auto simp: layout)
  with r(1) show ?thesis by simp
qed

subsection \<open>The table of processors\<close>

text \<open>The processors found so far are numbered in order, and \<^verbatim>\<open>bootcpu\<close> is one of them or the one after them.\<close>

definition cpus_ok :: "mpglobals \<Rightarrow> bool" where
  "cpus_ok g \<longleftrightarrow> ncpu g \<le> NCPU \<and> bootcpu g \<le> ncpu g \<and> (\<forall>i<ncpu g. cpu_id (mp_cpus g i) = word_of_nat i)"

lemma mp_proc_ok: "cpus_ok g \<Longrightarrow> cpus_ok (mp_proc m p g)"
  by (auto simp: cpus_ok_def mp_proc_def Let_def less_Suc_eq)

lemma mp_proc_rest: "mp_cpus (mp_proc m p g) i = mp_cpus g i" if "NCPU \<le> i"
  using that by (auto simp: mp_proc_def Let_def)

lemma mp_entries_ok:
  assumes "cpus_ok g"
  shows "cpus_ok (mp_entries m p n g)" "NCPU \<le> i \<Longrightarrow> mp_cpus (mp_entries m p n g) i = mp_cpus g i"
  using assms
proof (induction m p n g rule: mp_entries.induct)
  case (2 m p n g)
  {
    case 1
    with "2.IH" mp_proc_ok show ?case by (auto simp: cpus_ok_def)
  next
    case 2
    with "2.IH" mp_proc_ok mp_proc_rest show ?case by auto
  }
qed simp_all

text \<open>\<^verbatim>\<open>mp_init\<close>, called with no processor registered yet, on a table that \<^verbatim>\<open>mpconfig\<close> accepts, whatever its entries are: it ends with at most
  \<^verbatim>\<open>NCPU\<close> processors, entry \<open>i\<close> of \<^verbatim>\<open>cpus\<close> has the number \<open>i\<close>, \<^verbatim>\<open>bootcpu\<close> is marked as started, and nothing beyond the array is written
  unless \<^verbatim>\<open>bootcpu\<close> is the element just after it; an entry of unknown type disables all processors but one and the APIC.\<close>

theorem mp_init_cpus:
  assumes "mpconfig s = Some (Some (mp, conf))" "ncpu g = 0"
  shows "\<exists>g'. mp_init s imcr g = Some g' \<and>
    ncpu g' \<le> NCPU \<and> (ismp g' \<longrightarrow> (\<forall>i<ncpu g'. cpu_id (mp_cpus g' i) = word_of_nat i)) \<and> bootcpu g' \<le> NCPU \<and>
    cpu_status (mp_cpus g' (bootcpu g')) = CPU_STARTED \<and> (\<forall>i. NCPU \<le> i \<longrightarrow> i \<noteq> bootcpu g' \<longrightarrow> mp_cpus g' i = mp_cpus g i) \<and>
    (\<not> ismp g' \<longrightarrow> ncpu g' = 1 \<and> lapic g' = 0)"
proof -
  define g1 where "g1 = g\<lparr>bootcpu := 0, ismp := True, lapic := conf_lapicaddr (pmem s) (conf - KERNBASE)\<rparr>"
  define g2 where "g2 = mp_entries (pmem s) (conf_entries (conf - KERNBASE)) (unat (conf_entry (pmem s) (conf - KERNBASE))) g1"
  have "cpus_ok g1"
    using assms(2) by (simp add: g1_def cpus_ok_def)
  from mp_entries_ok [OF this] have ok: "cpus_ok g2" and far: "\<And>i. NCPU \<le> i \<Longrightarrow> mp_cpus g2 i = mp_cpus g i"
    unfolding g2_def by (auto simp: g1_def)
  let ?g3 = "g2\<lparr>mp_cpus := (mp_cpus g2)(bootcpu g2 := (mp_cpus g2 (bootcpu g2))\<lparr>cpu_status := CPU_STARTED\<rparr>)\<rparr>"
  define g' where "g' = (if \<not> ismp g2 then ?g3\<lparr>ncpu := 1, lapic := 0\<rparr>
      else if mp_imcrp (pmem s) (mp - KERNBASE) \<noteq> 0 then ?g3\<lparr>mp_outs := mp_outs ?g3 @ [(0x22, 0x70), (0x23, imcr OR 1)]\<rparr> else ?g3)"
  have g1': "g\<lparr>bootcpu := 0\<rparr>\<lparr>ismp := True, lapic := conf_lapicaddr (pmem s) (conf - KERNBASE)\<rparr> = g1"
    by (simp add: g1_def)
  have i3: "ismp ?g3 = ismp g2"
    by simp
  have "mp_init s imcr g = Some g'"
    unfolding mp_init_def assms(1) bind.bind_lunit Let_def option.case prod.case g1' g2_def [symmetric] i3 g'_def ..
  moreover have "ncpu g' \<le> NCPU" "bootcpu g' = bootcpu g2"
    "mp_cpus g' = (mp_cpus g2)(bootcpu g2 := (mp_cpus g2 (bootcpu g2))\<lparr>cpu_status := CPU_STARTED\<rparr>)" "ismp g' = ismp g2"
    "ismp g2 \<Longrightarrow> ncpu g' = ncpu g2" "\<not> ismp g2 \<Longrightarrow> ncpu g' = 1 \<and> lapic g' = 0"
    using ok by (simp_all add: g'_def cpus_ok_def layout)
  ultimately show ?thesis
    using ok far by (intro exI [of _ g']) (auto simp: cpus_ok_def)
qed

text \<open>A boot processor that comes after \<^verbatim>\<open>NCPU\<close> others: \<^verbatim>\<open>bootcpu\<close> points after the end of \<^verbatim>\<open>cpus\<close>, where \<^verbatim>\<open>mp_init\<close> then stores.\<close>

theorem mp_proc_boot_overflow:
  assumes "ncpu g = NCPU" "proc_flags m p AND MPPROC_BOOT \<noteq> 0"
  shows "bootcpu (mp_proc m p g) = NCPU"
  using assms by (simp add: mp_proc_def)

text \<open>\<^verbatim>\<open>lapic_startap\<close>: for an entry address on a page boundary in the first megabyte, the vector of both startup interrupts is its page
  number, the warm reset vector \<^verbatim>\<open>segment:offset\<close> in memory is the same address, both interrupts go to the given processor, and
  no other memory is written.\<close>

theorem lapic_startap_entry:
  assumes "addr < 0x100000" "addr AND 0xFFF = 0" "0 < npages s"
  shows "\<exists>m. lapic_startap s apicid addr = Some ([(0x70, 0xF), (0x71, 0x0A)], m,
       [(LAPIC_ICRHI, push_bit 24 (ucast apicid)), (LAPIC_ICRLO, 0xC500), (LAPIC_ICRLO, 0x8500),
        (LAPIC_ICRHI, push_bit 24 (ucast apicid)), (LAPIC_ICRLO, 0x600 OR drop_bit 12 addr),
        (LAPIC_ICRHI, push_bit 24 (ucast apicid)), (LAPIC_ICRLO, 0x600 OR drop_bit 12 addr)]) \<and>
     push_bit 12 ((0x600 OR drop_bit 12 addr) AND 0xFF) = addr \<and>
     ucast (rd16 m 0x469) * 16 + ucast (rd16 m 0x467) = addr \<and>
     (\<forall>a. a \<notin> {0x467, 0x468, 0x469, 0x46A} \<longrightarrow> m a = pmem s a)"
proof -
  define m where "m = (pmem s)(0x467 := 0, 0x468 := 0, 0x469 := ucast (drop_bit 4 addr), 0x46A := ucast (drop_bit 8 (drop_bit 4 addr)))"
  have "KADDR s 0x467 = Some (0x467 + KERNBASE)"
    using assms(3) by (simp add: KADDR_def PGNUM_def layout not_le)
  then have run: "lapic_startap s apicid addr = Some ([(0x70, 0xF), (0x71, 0x0A)], m,
       [(LAPIC_ICRHI, push_bit 24 (ucast apicid)), (LAPIC_ICRLO, 0xC500), (LAPIC_ICRLO, 0x8500),
        (LAPIC_ICRHI, push_bit 24 (ucast apicid)), (LAPIC_ICRLO, 0x600 OR drop_bit 12 addr),
        (LAPIC_ICRHI, push_bit 24 (ucast apicid)), (LAPIC_ICRLO, 0x600 OR drop_bit 12 addr)])"
    by (simp add: lapic_startap_def m_def Let_def APIC_INIT_def APIC_LEVEL_def APIC_ASSERT_def APIC_STARTUP_def)
  have hi: "take_bit 20 addr = addr"
    using assms(1) by (simp add: take_bit_eq_mod word_unat_eq_iff unat_mod word_less_nat_alt)
  have lo: "take_bit 12 addr = 0"
    using assms(2) by (simp add: and_0xFFF)
  have b: "12 \<le> n" "n < 20" if "bit addr n" for n
    using that hi lo by (metis bit_take_bit_iff not_less bit_0_eq bot_apply bot_bool_def)+
  have v: "push_bit 12 ((0x600 OR drop_bit 12 addr) AND 0xFF) = addr"
  proof -
    have m8: "(0xFF :: u32) = mask 8"
      by (simp add: mask_eq_exp_minus_1)
    have "take_bit 8 (0x600 OR drop_bit 12 addr) = drop_bit 12 addr"
      by (auto simp: bit_eq_iff bit_simps take_bit_or dest: b(2))
    then show ?thesis
      unfolding m8 take_bit_eq_mask [symmetric] using lo by (simp add: bit_eq_iff bit_simps) (use b in force)
  qed
  have w: "ucast (rd16 m 0x469) * 16 + ucast (rd16 m 0x467) = addr"
  proof -
    have z: "rd16 m 0x467 = 0"
      by (simp add: rd16_def m_def)
    have r: "rd16 m 0x469 = ucast (ucast (drop_bit 4 addr) :: u8) OR push_bit 8 (ucast (ucast (drop_bit 12 addr) :: u8))"
      by (simp add: rd16_def m_def)
    have "(ucast (rd16 m 0x469) :: u32) = drop_bit 4 addr"
      unfolding r by (rule bit_word_eqI) (auto simp: bit_simps dest: b(2))
    moreover have "push_bit 4 (drop_bit 4 addr) = addr"
    proof (rule bit_word_eqI)
      fix n :: nat assume "n < LENGTH(32)"
      then show "bit (push_bit 4 (drop_bit 4 addr)) n = bit addr n"
        using b(1) [of n] by (cases "4 \<le> n") (auto simp: bit_simps)
    qed
    ultimately show ?thesis
      using z by (simp add: push_bit_eq_mult)
  qed
  have "\<forall>a. a \<notin> {0x467, 0x468, 0x469, 0x46A} \<longrightarrow> m a = pmem s a"
    by (simp add: m_def)
  with run v w show ?thesis by blast
qed

subsection \<open>A concrete table\<close>

text \<open>One processor, the boot processor, in a table at physical address \<^verbatim>\<open>0x500\<close>.\<close>

definition demo_smp_bytes :: bytemem where
  "demo_smp_bytes a = (case map_of [(0x40E, 0x41), (0x410, 0x5F), (0x411, 0x4D), (0x412, 0x50), (0x413, 0x5F), (0x415, 5), (0x41A, 0xA0),
     (0x500, 0x50), (0x501, 0x43), (0x502, 0x4D), (0x503, 0x50), (0x504, 0x40), (0x506, 1), (0x507, 0xAD), (0x522, 1), (0x526, 0xE0), (0x527, 0xFE),
     (0x52F, 3)] a of Some b \<Rightarrow> b | None \<Rightarrow> 0)"

definition demo_smp :: kstate where
  "demo_smp = demo\<lparr>pmem := demo_smp_bytes\<rparr>"

lemma demo_smp_config: "mpconfig demo_smp = Some (Some (0xF0000410, 0xF0000500))"
proof -
  have S: "npages demo_smp = 8" "pmem demo_smp = demo_smp_bytes"
    by (simp_all add: demo_smp_def)
  have k: "KADDR demo_smp 0x400 = Some 0xF0000400" "KADDR demo_smp 0x410 = Some 0xF0000410" "KADDR demo_smp 0x810 = Some 0xF0000810"
    "KADDR demo_smp 0x500 = Some 0xF0000500"
    by (simp_all add: KADDR_def S PGNUM_def layout)
  have "signature demo_smp_bytes 0x410 MP_SIG \<and> mp_sum demo_smp_bytes 0x410 16 = 0"
    by code_simp
  then have f: "mpsearch_from demo_smp_bytes 0xF0000410 0xF0000810 = Some 0xF0000410"
    by (subst mpsearch_from.simps) (simp add: layout)
  have e: "rd16 demo_smp_bytes 0x40E = 0x41"
    "mp_physaddr demo_smp_bytes 0x410 = 0x500" "mp_type demo_smp_bytes 0x410 = 0" "signature demo_smp_bytes 0x500 PCMP_SIG"
    "mp_sum demo_smp_bytes 0x500 (unat (conf_length demo_smp_bytes 0x500)) = 0" "conf_version demo_smp_bytes 0x500 = 1"
    "mp_sum demo_smp_bytes (0x500 + ucast (conf_length demo_smp_bytes 0x500)) (unat (conf_xlength demo_smp_bytes 0x500)) = conf_xchecksum demo_smp_bytes 0x500"
    by code_simp+
  have "mpsearch demo_smp = Some 0xF0000410"
    using k e(1) f by (simp add: mpsearch_def mpsearch1_def S layout)
  then show ?thesis
    using k e(2-7) by (simp add: mpconfig_def S layout)
qed

theorem mp_init_cpus_witness:
  "\<exists>g'. mp_init demo_smp 0 \<lparr>mp_cpus = cpus demo, bootcpu = 0, ismp = False, ncpu = 0, lapic = 0, mp_outs = []\<rparr> = Some g' \<and>
    ncpu g' \<le> NCPU \<and> cpu_status (mp_cpus g' (bootcpu g')) = CPU_STARTED"
  using mp_init_cpus [OF demo_smp_config, of "\<lparr>mp_cpus = cpus demo, bootcpu = 0, ismp = False, ncpu = 0, lapic = 0, mp_outs = []\<rparr>" 0] by auto

theorem lapic_startap_entry_witness:
  "\<exists>m. lapic_startap demo 1 0x7000 = Some ([(0x70, 0xF), (0x71, 0x0A)], m,
       [(LAPIC_ICRHI, 0x1000000), (LAPIC_ICRLO, 0xC500), (LAPIC_ICRLO, 0x8500), (LAPIC_ICRHI, 0x1000000), (LAPIC_ICRLO, 0x607),
        (LAPIC_ICRHI, 0x1000000), (LAPIC_ICRLO, 0x607)]) \<and> ucast (rd16 m 0x469) * 16 + ucast (rd16 m 0x467) = (0x7000 :: u32)"
  using lapic_startap_entry [of "0x7000" demo 1] by (auto simp: push_bit_eq_mult)

end
