(* ===== verification/Init.thy ===== *)
theory Init
  imports Selftest_Boot Mpconfig
begin

section \<open>From the entry of the kernel to the first user program\<close>

text \<open>
  \<^verbatim>\<open>kern/init.c\<close>: \<^verbatim>\<open>i386_init\<close>, which calls the initialisation of every other part of the kernel in order, wakes the other processors, creates an
  idle environment for each processor and the first program, and enters the scheduler; \<^verbatim>\<open>boot_aps\<close> and \<^verbatim>\<open>mp_main\<close>, the two sides of the start
  of another processor.

  Addresses that the linker chooses are the record \<open>kimage\<close>, what the devices answer is the record \<open>hardware\<close>. The state \<open>system\<close> is the state of
  the kernel with its descriptor tables, the variables of \<^verbatim>\<open>kern/mpconfig.c\<close>, the log of writes to the local APICs (with the processor that
  wrote), the variable \<^verbatim>\<open>mpentry_kstack\<close>, and for each processor that has been started the registers its initialisation loaded. The configuration compiled
  is the one without \<^verbatim>\<open>TEST\<close>. The assembler between the startup interrupt and \<^verbatim>\<open>mp_main\<close> (\<^verbatim>\<open>kern/mpentry.S\<close>), the segment registers that
  \<^verbatim>\<open>env_init_percpu\<close> loads, and the diagnostic messages are left out.

  The theory closes with the theorem that the whole sequence runs through and that the first program starts, and that a processor that was
  started runs its own idle environment once it gets the kernel lock.
\<close>

subsection \<open>The machine and the image of the kernel\<close>

record kimage =
  edata :: u32
  kend :: u32
  bootstack :: u32
  kstacks :: "nat \<Rightarrow> u32"
  vects :: "nat \<Rightarrow> u32"
  ts_addr :: "nat \<Rightarrow> u32"
  mpentry_start :: u32
  mpentry_end :: u32
  user_idle :: u32
  user_primes :: u32

text \<open>\<open>apic_ident\<close> and \<open>apic_ver\<close> are what the registers of the processor with the given APIC identifier read, \<open>boot_apic\<close> is the
  identifier of the processor that boots.\<close>

record hardware =
  nvram :: "nat \<Rightarrow> u8"
  cga_present :: bool
  cursor_hi :: u8
  cursor_lo :: u8
  com_lsr :: u8
  imcr :: u8
  apic_ident :: "u8 \<Rightarrow> u32"
  apic_ver :: "u8 \<Rightarrow> u32"
  boot_apic :: u8

record ap =
  ap_cr3 :: u32
  ap_esp :: u32
  ap_tr :: u16
  ap_idt :: bool

record system =
  ker :: kstate
  tabs :: desctabs
  mpg :: mpglobals
  apicws :: "(nat \<times> nat \<times> u32) list"
  mpentry_kstack :: u32
  aps :: "nat \<Rightarrow> ap option"

subsection \<open>Uninitialised data\<close>

text \<open>The \<^verbatim>\<open>memset\<close> at the start of \<^verbatim>\<open>i386_init\<close>: the variables without an initial value become zero, and so do the bytes they occupy. The arrays
  \<^verbatim>\<open>pages\<close> and \<^verbatim>\<open>envs\<close> are allocated later; the lock and the mask of the interrupt controllers have initial values. With \<^verbatim>\<open>lapic\<close> zero, \<^verbatim>\<open>cpunum\<close>
  returns zero.\<close>

definition zero_cpu :: Cpu where
  "zero_cpu = \<lparr>cpu_id = 0, cpu_status = 0, cpu_env = None, cpu_ts = \<lparr>ts_esp0 = 0, ts_ss0 = 0\<rparr>\<rparr>"

definition clear_con :: "console \<Rightarrow> console" where
  "clear_con c = c\<lparr>cbuf := \<lambda>_. 0, rpos := 0, wpos := 0, serial_exists := False, shift := 0, addr_6845 := 0, crt_pos := 0, didinit := False\<rparr>"

definition clear_bss :: "kimage \<Rightarrow> kstate \<Rightarrow> kstate" where
  "clear_bss ki s = s\<lparr>npages := 0, npages_basemem := 0, nAvailPages := 0, nextfree := 0, kern_pgdir := 0, page_free_list := None,
     pmem := fill_bytes (pmem s) (edata ki - KERNBASE) 0 (unat (kend ki - edata ki)), env_free_list := None,
     cpus := (\<lambda>i. if i < NCPU then zero_cpu else cpus s i), cpunum := 0, user_mem_check_addr := 0, con := clear_con (con s)\<rparr>"

definition clear_mp :: "(nat \<Rightarrow> Cpu) \<Rightarrow> mpglobals" where
  "clear_mp cs = \<lparr>mp_cpus = cs, bootcpu = 0, ismp = False, ncpu = 0, lapic = 0, mp_outs = []\<rparr>"

subsection \<open>Starting the other processors\<close>

text \<open>\<open>mp_main_setup ki hw a y\<close>: what \<^verbatim>\<open>mp_main\<close> does on the processor with APIC identifier \<open>a\<close> before it asks for the lock. Its number, page directory
  register and task register are its own; those of the processor in \<open>ker y\<close> stay as they are.\<close>

definition mp_main_setup :: "kimage \<Rightarrow> hardware \<Rightarrow> u8 \<Rightarrow> system \<Rightarrow> system option" where
  "mp_main_setup ki hw a y =
     do {
       pa \<leftarrow> PADDR (kern_pgdir (ker y));
       let c = unat (lapic_cpunum (lapic (mpg y)) (apic_ident hw a));
       let ws = lapic_init (lapic (mpg y)) (apic_ver hw a) (c = bootcpu (mpg y));
       (s1, t1) \<leftarrow> trap_init_percpu (ts_addr ki c) ((ker y)\<lparr>cpunum := c, cr3 := pa\<rparr>) ((tabs y)\<lparr>task_reg := 0, idt_loaded := False\<rparr>);
       let s2 = s1\<lparr>cpus := (cpus s1)(c := (cpus s1 c)\<lparr>cpu_status := CPU_STARTED\<rparr>)\<rparr>;
       Some (y\<lparr>ker := s2\<lparr>cpunum := cpunum (ker y), cr3 := cr3 (ker y)\<rparr>, tabs := (tabs y)\<lparr>gdt := gdt t1\<rparr>, apicws := apicws y @ map (Pair c) ws,
              aps := (aps y)(c \<mapsto> \<lparr>ap_cr3 = pa, ap_esp = mpentry_kstack y, ap_tr = task_reg t1, ap_idt = idt_loaded t1\<rparr>)\<rparr>)
     }"

text \<open>The rest of \<^verbatim>\<open>mp_main\<close> on processor \<open>c\<close>, from the moment it has the lock.\<close>

definition mp_main_sched :: "nat \<Rightarrow> u32 \<Rightarrow> kstate \<Rightarrow> (exit \<times> kstate) option" where
  "mp_main_sched c pa s = do { s1 \<leftarrow> lock_kernel (s\<lparr>cpunum := c, cr3 := pa\<rparr>); sched_yield s1 }"

definition MPENTRY_PADDR :: u32 where [layout]: "MPENTRY_PADDR = 0x7000"

text \<open>The body of the loop. The boot processor waits for the status of the other one, which only that processor's \<^verbatim>\<open>mp_main\<close> sets, so the set-up there
  runs during the wait; it is not waited for when the status says already that the processor is started. A set-up that does
  not set the status leaves the loop waiting for ever, \<open>None\<close>.\<close>

definition start_ap :: "kimage \<Rightarrow> hardware \<Rightarrow> u32 \<Rightarrow> nat \<Rightarrow> system \<Rightarrow> system option" where
  "start_ap ki hw code c y =
     (if c = cpunum (ker y) then Some y
      else do {
        let id = cpu_id (cpus (ker y) c);
        pa \<leftarrow> PADDR code;
        (os, m, ws) \<leftarrow> lapic_startap (ker y) id pa;
        let y1 = y\<lparr>mpentry_kstack := kstacks ki c + KSTKSIZE,
             ker := (ker y)\<lparr>pmem := m, con := fold (\<lambda>(p, v). outb p v) os (con (ker y))\<rparr>, apicws := apicws y @ map (Pair (cpunum (ker y))) ws\<rparr>;
        (if cpu_status (cpus (ker y1) c) = CPU_STARTED then Some y1
         else do {
           y2 \<leftarrow> mp_main_setup ki hw id y1;
           (if cpu_status (cpus (ker y2) c) = CPU_STARTED then Some y2 else None)
         })
      })"

definition boot_aps :: "kimage \<Rightarrow> hardware \<Rightarrow> system \<Rightarrow> system option" where
  "boot_aps ki hw y =
     do {
       code \<leftarrow> KADDR (ker y) MPENTRY_PADDR;
       let m = copy_bytes (pmem (ker y)) (code - KERNBASE) (mpentry_start ki - KERNBASE) (unat (mpentry_end ki - mpentry_start ki));
       for_each (start_ap ki hw code) [0..<ncpu (mpg y)] (y\<lparr>ker := (ker y)\<lparr>pmem := m\<rparr>\<rparr>)
     }"

subsection \<open>The main function\<close>

text \<open>\<^verbatim>\<open>u1\<close> and \<^verbatim>\<open>u2\<close> are the variables of the memory tests that have no initial value.\<close>

definition init_memory :: "kimage \<Rightarrow> hardware \<Rightarrow> nat option \<Rightarrow> nat option \<Rightarrow> kstate \<Rightarrow> kstate option" where
  "init_memory ki hw u1 u2 s =
     do {
       let s0 = clear_bss ki s;
       c \<leftarrow> cons_init (cga_present hw) (cursor_hi hw) (cursor_lo hw) (com_lsr hw) (con s0);
       (_, _, s1) \<leftarrow> mem_init (nvram hw) (kend ki) (bootstack ki) (kstacks ki) u1 u2 (s0\<lparr>con := c\<rparr>);
       Some (env_init s1)
     }"

definition init_cpus :: "kimage \<Rightarrow> hardware \<Rightarrow> kstate \<Rightarrow> system \<Rightarrow> system option" where
  "init_cpus ki hw s y =
     do {
       (s1, t1) \<leftarrow> trap_init (vects ki) (ts_addr ki 0) s (tabs y);
       g \<leftarrow> mp_init s1 (imcr hw) (clear_mp (cpus s1));
       let c = unat (lapic_cpunum (lapic g) (apic_ident hw (boot_apic hw)));
       let ws = lapic_init (lapic g) (apic_ver hw (boot_apic hw)) (c = bootcpu g);
       let con1 = pic_init (fold (\<lambda>(p, v). outb p v) (mp_outs g) (con s1));
       s2 \<leftarrow> lock_kernel (s1\<lparr>cpus := mp_cpus g, cpunum := c, con := con1\<rparr>);
       boot_aps ki hw (y\<lparr>ker := s2, tabs := t1, mpg := g, apicws := map (Pair c) ws, mpentry_kstack := 0\<rparr>)
     }"

definition init_envs :: "kimage \<Rightarrow> kstate \<Rightarrow> kstate option" where
  "init_envs ki s =
     do {
       s1 \<leftarrow> for_each (\<lambda>i s. env_create s (user_idle ki) ENV_TYPE_IDLE) [0..<NCPU] s;
       env_create s1 (user_primes ki) ENV_TYPE_USER
     }"

definition i386_init :: "kimage \<Rightarrow> hardware \<Rightarrow> nat option \<Rightarrow> nat option \<Rightarrow> system \<Rightarrow> (exit \<times> system) option" where
  "i386_init ki hw u1 u2 y =
     do {
       s1 \<leftarrow> init_memory ki hw u1 u2 (ker y);
       y1 \<leftarrow> init_cpus ki hw s1 y;
       s2 \<leftarrow> init_envs ki (ker y1);
       (x, s3) \<leftarrow> sched_yield s2;
       Some (x, y1\<lparr>ker := s3\<rparr>)
     }"

subsection \<open>The processors found\<close>

text \<open>\<open>mp_init\<close> writes nothing of a processor but its number, and the status of the boot processor.\<close>

definition renumbered :: "mpglobals \<Rightarrow> mpglobals \<Rightarrow> bool" where
  "renumbered g g' \<longleftrightarrow> (\<forall>i. cpu_env (mp_cpus g' i) = cpu_env (mp_cpus g i) \<and> cpu_ts (mp_cpus g' i) = cpu_ts (mp_cpus g i) \<and>
     cpu_status (mp_cpus g' i) = cpu_status (mp_cpus g i))"

lemma renumbered_trans: "renumbered g g' \<Longrightarrow> renumbered g' g'' \<Longrightarrow> renumbered g g''"
  by (simp add: renumbered_def)

lemma mp_proc_renumbered: "renumbered g (mp_proc m p g)"
  by (simp add: renumbered_def mp_proc_def Let_def)

lemma mp_entries_renumbered: "renumbered g (mp_entries m p n g)"
proof (induction m p n g rule: mp_entries.induct)
  case (2 m p n g)
  have "renumbered g (g\<lparr>ismp := False\<rparr>)"
    by (simp add: renumbered_def)
  with 2 show ?case
    using renumbered_trans [OF mp_proc_renumbered [of g m p]] by (simp add: mp_consts)
qed (simp add: renumbered_def)

lemma mp_proc_id0: "cpu_id (mp_cpus g 0) = 0 \<Longrightarrow> cpu_id (mp_cpus (mp_proc m p g) 0) = 0"
  by (auto simp: mp_proc_def Let_def)

lemma mp_entries_id0: "cpu_id (mp_cpus g 0) = 0 \<Longrightarrow> cpu_id (mp_cpus (mp_entries m p n g) 0) = 0"
  by (induction m p n g rule: mp_entries.induct) (auto simp: mp_proc_id0)

lemma mp_init_found:
  assumes "mp_init s im (clear_mp cs) = Some g" "\<forall>i<NCPU. cpu_id (cs i) = 0 \<and> cpu_status (cs i) = 0"
  shows "ncpu g \<le> NCPU" "i < ncpu g \<Longrightarrow> cpu_id (mp_cpus g i) = word_of_nat i" "cpu_env (mp_cpus g i) = cpu_env (cs i)" "cpu_ts (mp_cpus g i) = cpu_ts (cs i)"
    "i < NCPU \<Longrightarrow> i \<noteq> bootcpu g \<Longrightarrow> cpu_status (mp_cpus g i) = 0" "cpu_id (mp_cpus g 0) = 0"
proof -
  obtain r where r: "mpconfig s = Some r"
    using assms(1) by (auto simp: mp_init_def split: bind_splits)
  have i0: "cpu_id (cs 0) = 0"
    using assms(2) by (simp add: layout)
  have goal: "ncpu g \<le> NCPU \<and> (i < ncpu g \<longrightarrow> cpu_id (mp_cpus g i) = word_of_nat i) \<and> cpu_env (mp_cpus g i) = cpu_env (cs i) \<and>
    cpu_ts (mp_cpus g i) = cpu_ts (cs i) \<and> (i < NCPU \<longrightarrow> i \<noteq> bootcpu g \<longrightarrow> cpu_status (mp_cpus g i) = 0) \<and> cpu_id (mp_cpus g 0) = 0" for i
  proof (cases r)
    case None
    then have "g = clear_mp cs\<lparr>bootcpu := 0\<rparr>"
      using assms(1) r by (simp add: mp_init_def)
    then show ?thesis
      using assms(2) i0 by (simp add: clear_mp_def)
  next
    case (Some mc)
    obtain mp conf where mc: "mc = (mp, conf)"
      by fastforce
    define g1 where "g1 = clear_mp cs\<lparr>bootcpu := 0, ismp := True, lapic := conf_lapicaddr (pmem s) (conf - KERNBASE)\<rparr>"
    define g2 where "g2 = mp_entries (pmem s) (conf_entries (conf - KERNBASE)) (unat (conf_entry (pmem s) (conf - KERNBASE))) g1"
    have g1: "cpus_ok g1" "mp_cpus g1 = cs"
      by (simp_all add: g1_def cpus_ok_def clear_mp_def)
    have ok: "cpus_ok g2"
      using mp_entries_ok(1) [OF g1(1)] unfolding g2_def by blast
    have same: "cpu_env (mp_cpus g2 i) = cpu_env (cs i)" "cpu_ts (mp_cpus g2 i) = cpu_ts (cs i)" "cpu_status (mp_cpus g2 i) = cpu_status (cs i)"
      using mp_entries_renumbered [of g1] g1(2) unfolding g2_def renumbered_def by metis+
    have id0: "cpu_id (mp_cpus g2 0) = 0"
      unfolding g2_def by (rule mp_entries_id0) (simp add: g1(2) i0)
    have "mp_cpus g = (mp_cpus g2)(bootcpu g2 := (mp_cpus g2 (bootcpu g2))\<lparr>cpu_status := CPU_STARTED\<rparr>)" "bootcpu g = bootcpu g2"
      "ncpu g = (if ismp g2 then ncpu g2 else 1)"
      using assms(1) r unfolding Some mc mp_init_def by (auto simp: g2_def g1_def Let_def split: if_splits)
    then show ?thesis
      using ok same id0 assms(2) by (auto simp: cpus_ok_def layout)
  qed
  then show "ncpu g \<le> NCPU" "i < ncpu g \<Longrightarrow> cpu_id (mp_cpus g i) = word_of_nat i" "cpu_env (mp_cpus g i) = cpu_env (cs i)" "cpu_ts (mp_cpus g i) = cpu_ts (cs i)"
    "i < NCPU \<Longrightarrow> i \<noteq> bootcpu g \<Longrightarrow> cpu_status (mp_cpus g i) = 0" "cpu_id (mp_cpus g 0) = 0"
    by blast+
qed

subsection \<open>What starting the processors changes\<close>

text \<open>\<open>set_up s s'\<close>: the tables are the same, and so is memory outside of pages 0 and 7.\<close>

definition set_up :: "kstate \<Rightarrow> kstate \<Rightarrow> bool" where
  "set_up s s' \<longleftrightarrow> npages s' = npages s \<and> pages s' = pages s \<and> page_free_list s' = page_free_list s \<and> kern_pgdir s' = kern_pgdir s \<and>
     envs s' = envs s \<and> env_free_list s' = env_free_list s \<and> (\<forall>a. PTE_ADDR a \<noteq> 0 \<longrightarrow> PTE_ADDR a \<noteq> 0x7000 \<longrightarrow> pmem s' a = pmem s a)"

lemma set_up_refl [simp]: "set_up s s"
  by (simp add: set_up_def)

lemma set_up_trans: "set_up s t \<Longrightarrow> set_up t u \<Longrightarrow> set_up s u"
  by (simp add: set_up_def)

lemma set_up_entry:
  assumes "set_up s s'" "f < 65536" "f \<noteq> 0" "f \<noteq> 7" "unat i < 1024"
  shows "entry s' f i = entry s f i"
proof -
  have "page2pa 0 = 0" "page2pa 7 = 0x7000"
    by (simp_all add: page2pa_def layout)
  then have "page2pa f \<noteq> 0" "page2pa f \<noteq> 0x7000"
    using page2pa_inject [of f 0] page2pa_inject [of f 7] assms(2-4) by simp_all
  then have "pmem s' (slot (page2pa f) i + word_of_nat j) = pmem s (slot (page2pa f) i + word_of_nat j)" if "j < 4" for j
    using assms(1,2,5) slot_page [of "page2pa f" i j] that by (simp add: set_up_def)
  from this [of 0] this [of 1] this [of 2] this [of 3] show ?thesis
    unfolding entry_def by (intro rd32_cong) simp_all
qed

lemma set_up_keeps:
  assumes "set_up s s'" "kern_inv base k s" "vm_inv base (live_dirs s) fl s" "live_dirs s = {}" "7 < k"
  shows "kern_inv base k s'" "vm_inv base (live_dirs s') fl s'" "live_dirs s' = {}"
proof -
  have f: "npages s' = npages s" "pages s' = pages s" "page_free_list s' = page_free_list s" "kern_pgdir s' = kern_pgdir s"
    "envs s' = envs s" "env_free_list s' = env_free_list s"
    using assms(1) by (simp_all add: set_up_def)
  have d: "live_dirs s' = live_dirs s" "envs_ok s' = envs_ok s"
    using envs_same [of s s'] by (simp_all add: env_same_def f)
  have "page_links s' = page_links s"
    by (simp add: page_links_def fun_eq_iff f)
  then have wf: "pages_wf s' = pages_wf s" "free_list s' fl = free_list s fl"
    by (simp_all add: pages_wf_def free_list_def f)
  have e: "tabset t {} p = {}" "mapset t {} p = {}" for t p
    by (auto simp: tabset_def mapset_def)
  show v: "vm_inv base (live_dirs s') fl s'"
    using assms(3) by (simp add: d(1) assms(4) vm_inv_def wf f e)
  have t: "kern_template base k s" "base 0 \<noteq> 0"
    using assms(2) by (simp_all add: kern_inv_def mem_ok_def)
  have "k < 65536"
    using t(1) vm_invD(9) [OF assms(3)] by (simp add: kern_template_def)
  then have "kern_template base k s'"
    using t(1) set_up_entry [OF assms(1)] assms(5) user_pdx_less by (simp add: kern_template_def f)
  then show "kern_inv base k s'"
    using v t(2) assms(2) unfolding kern_inv_def mem_ok_def by (auto simp: d assms(4) e)
  show "live_dirs s' = {}"
    using assms(4) by (simp only: d(1))
qed

subsection \<open>Every processor starts\<close>

text \<open>Processor \<open>i\<close> of the table once its set-up is done, and the registers that the set-up loads.\<close>

definition started :: "nat \<Rightarrow> Cpu \<Rightarrow> Cpu" where
  "started i c = c\<lparr>cpu_ts := \<lparr>ts_esp0 = KSTACKTOP - (KSTKSIZE + KSTKGAP) * word_of_nat i, ts_ss0 = GD_KD\<rparr>, cpu_status := CPU_STARTED\<rparr>"

definition ap_regs :: "kimage \<Rightarrow> nat \<Rightarrow> nat \<Rightarrow> ap" where
  "ap_regs ki k i = \<lparr>ap_cr3 = page2pa k, ap_esp = kstacks ki i + KSTKSIZE, ap_tr = push_bit 3 (5 + word_of_nat i), ap_idt = True\<rparr>"

text \<open>The identification register of a processor holds its identifier, and the processor that boots has the identifier 0.\<close>

definition apics_ok :: "hardware \<Rightarrow> bool" where
  "apics_ok hw \<longleftrightarrow> (\<forall>a. drop_bit 24 (apic_ident hw a) = ucast a) \<and> boot_apic hw = 0"

lemma mp_main_setup_run:
  assumes hw: "apics_ok hw" and la: "lapic (mpg y) \<noteq> 0" and c: "c < NCPU" "cpu_id (cpus (ker y) c) = word_of_nat c" "ts_ss0 (cpu_ts (cpus (ker y) c)) = 0"
    and k: "kern_pgdir (ker y) = kpage k" "k < 65536"
  shows "\<exists>y'. mp_main_setup ki hw (word_of_nat c) y = Some y' \<and> ker y' = (ker y)\<lparr>cpus := (cpus (ker y))(c := started c (cpus (ker y) c))\<rparr> \<and>
    mpg y' = mpg y \<and> aps y' = (aps y)(c \<mapsto> (ap_regs ki k c)\<lparr>ap_esp := mpentry_kstack y\<rparr>)"
proof -
  have w: "unat (word_of_nat c :: u8) = c"
    using c(1) by (simp add: layout unat_of_nat)
  have uc: "(ucast (word_of_nat c :: u8) :: u32) = word_of_nat c"
    using c(1) by (simp add: word_unat_eq_iff layout unsigned_ucast_eq take_bit_eq_mod unat_of_nat)
  have cn: "unat (lapic_cpunum (lapic (mpg y)) (apic_ident hw (word_of_nat c))) = c"
    using hw la w by (simp add: lapic_cpunum_def apics_ok_def unsigned_ucast_eq take_bit_eq_mod uc unat_of_nat layout)
  have uc16: "(ucast (word_of_nat c :: u8) :: u16) = word_of_nat c"
    using c(1) by (simp add: word_unat_eq_iff layout unsigned_ucast_eq take_bit_eq_mod unat_of_nat)
  have gd: "drop_bit 3 GD_TSS0 = 5"
    by (simp add: layout)
  show ?thesis
    using c w by (simp add: mp_main_setup_def k PADDR_kpage cn trap_init_percpu_def Let_def started_def ap_regs_def uc uc16 gd)
qed

text \<open>\<open>woken ki k n y y'\<close>: \<open>y'\<close> is \<open>y\<close> after the processors below \<open>n\<close> other than 0 have been started.\<close>

definition woken :: "kimage \<Rightarrow> nat \<Rightarrow> nat \<Rightarrow> system \<Rightarrow> system \<Rightarrow> bool" where
  "woken ki k n y y' \<longleftrightarrow> set_up (ker y) (ker y') \<and> cpunum (ker y') = cpunum (ker y) \<and> kernel_lock (ker y') = kernel_lock (ker y) \<and> mpg y' = mpg y \<and>
     (\<forall>i. cpus (ker y') i = (if 0 < i \<and> i < n then started i (cpus (ker y) i) else cpus (ker y) i)) \<and>
     (\<forall>i. aps y' i = (if 0 < i \<and> i < n then Some (ap_regs ki k i) else aps y i))"

lemma start_ap_run:
  assumes w: "woken ki k c y0 y" and hw: "apics_ok hw" and la: "c \<noteq> 0 \<Longrightarrow> lapic (mpg y0) \<noteq> 0" and c: "c < NCPU" "cpu_id (cpus (ker y0) c) = word_of_nat c"
    "ts_ss0 (cpu_ts (cpus (ker y0) c)) = 0 \<or> c = 0" "cpu_status (cpus (ker y0) c) \<noteq> CPU_STARTED \<or> c = 0"
    and k: "kern_pgdir (ker y0) = kpage k" "k < 65536" and s: "cpunum (ker y0) = 0" "0 < npages (ker y0)"
  shows "\<exists>y'. start_ap ki hw (kpage 7) c y = Some y' \<and> woken ki k (Suc c) y0 y'"
proof (cases "c = 0")
  case True
  then show ?thesis
    using w s(1) by (intro exI [of _ y]) (auto simp: start_ap_def woken_def)
next
  case False
  have y: "cpus (ker y) c = cpus (ker y0) c" "cpunum (ker y) = 0" "kern_pgdir (ker y) = kpage k" "0 < npages (ker y)" "mpg y = mpg y0"
    using w k s by (simp_all add: woken_def set_up_def)
  have pa: "PADDR (kpage 7) = Some 0x7000"
    using PADDR_kpage [of 7] by (simp add: page2pa_def layout)
  obtain os m ws where ap: "lapic_startap (ker y) (word_of_nat c) 0x7000 = Some (os, m, ws)" "\<And>a. a \<notin> {0x467, 0x468, 0x469, 0x46A} \<Longrightarrow> m a = pmem (ker y) a"
    using lapic_startap_entry [of "0x7000" "ker y" "word_of_nat c"] y(4) by auto
  define y1 where "y1 = y\<lparr>mpentry_kstack := kstacks ki c + KSTKSIZE, ker := (ker y)\<lparr>pmem := m, con := fold (\<lambda>(p, v). outb p v) os (con (ker y))\<rparr>,
    apicws := apicws y @ map (Pair 0) ws\<rparr>"
  have y1: "cpus (ker y1) = cpus (ker y)" "mpg y1 = mpg y0" "kern_pgdir (ker y1) = kpage k" "mpentry_kstack y1 = kstacks ki c + KSTKSIZE"
    "aps y1 = aps y" "cpunum (ker y1) = cpunum (ker y)" "kernel_lock (ker y1) = kernel_lock (ker y)"
    by (simp_all add: y1_def y)
  obtain y2 where y2: "mp_main_setup ki hw (word_of_nat c) y1 = Some y2" "ker y2 = (ker y1)\<lparr>cpus := (cpus (ker y1))(c := started c (cpus (ker y1) c))\<rparr>"
    "mpg y2 = mpg y0" "aps y2 = (aps y1)(c \<mapsto> (ap_regs ki k c)\<lparr>ap_esp := kstacks ki c + KSTKSIZE\<rparr>)"
    using mp_main_setup_run [OF hw, of y1 c k ki] la c False k(2) y y1 by auto
  have run: "start_ap ki hw (kpage 7) c y = Some y2"
    using False y c ap(1) y2(1,2) y1(1) by (simp add: start_ap_def pa y1_def [symmetric] started_def)
  have "m a = pmem (ker y) a" if "PTE_ADDR a \<noteq> 0" for a
  proof -
    have "a \<notin> {0x467, 0x468, 0x469, 0x46A}"
      using that by (auto simp: PTE_ADDR_def)
    then show ?thesis
      by (rule ap(2))
  qed
  then have "set_up (ker y) (ker y2)"
    by (simp add: set_up_def y2(2) y1_def)
  then have "set_up (ker y0) (ker y2)"
    using w set_up_trans by (auto simp: woken_def)
  then have "woken ki k (Suc c) y0 y2"
    using w y2(2-4) y1 False y(1) by (auto simp: woken_def ap_regs_def less_Suc_eq)
  with run show ?thesis by blast
qed

lemma boot_aps_run:
  assumes hw: "apics_ok hw" and la: "1 < ncpu (mpg y) \<Longrightarrow> lapic (mpg y) \<noteq> 0" and n: "ncpu (mpg y) \<le> NCPU"
    and c: "\<And>c. c < ncpu (mpg y) \<Longrightarrow> cpu_id (cpus (ker y) c) = word_of_nat c \<and> (c = 0 \<or> ts_ss0 (cpu_ts (cpus (ker y) c)) = 0 \<and> cpu_status (cpus (ker y) c) \<noteq> CPU_STARTED)"
    and k: "kern_pgdir (ker y) = kpage k" "k < 65536" and s: "cpunum (ker y) = 0" "7 < unat (npages (ker y))" and code: "mpentry_end ki - mpentry_start ki \<le> 4096"
  shows "\<exists>y'. boot_aps ki hw y = Some y' \<and> woken ki k (ncpu (mpg y)) y y'"
proof -
  let ?m = "copy_bytes (pmem (ker y)) 0x7000 (mpentry_start ki - KERNBASE) (unat (mpentry_end ki - mpentry_start ki))"
  let ?y = "y\<lparr>ker := (ker y)\<lparr>pmem := ?m\<rparr>\<rparr>"
  have p7: "page2pa 7 = 0x7000" "kpage 7 = 0xF0007000"
    by (simp_all add: page2pa_def kpage_def layout)
  have ka: "KADDR (ker y) MPENTRY_PADDR = Some (kpage 7)"
    using s(2) by (simp add: KADDR_def PGNUM_def word_le_nat_alt p7 layout)
  have "?m a = pmem (ker y) a" if "PTE_ADDR a \<noteq> 0x7000" for a
  proof -
    have "\<not> in_range 0x7000 4096 a"
      using in_range_page [of 7 "PTE_ADDR a" a] that p7(1) by simp
    then have "\<not> in_range 0x7000 (unat (mpentry_end ki - mpentry_start ki)) a"
      using code by (auto simp: in_range_def word_le_nat_alt)
    then show ?thesis
      by (simp add: copy_bytes_def)
  qed
  then have s0: "woken ki k 0 y ?y"
    by (simp add: woken_def set_up_def)
  have "\<exists>y'. for_each (start_ap ki hw (kpage 7)) [0..<ncpu (mpg y)] ?y = Some y' \<and> woken ki k (ncpu (mpg y)) y y'"
  proof (rule for_each_upt [where P = "\<lambda>n. woken ki k n y", OF s0])
    fix n y' assume "n < ncpu (mpg y)" "woken ki k n y y'"
    then show "\<exists>y''. start_ap ki hw (kpage 7) n y' = Some y'' \<and> woken ki k (Suc n) y y''"
      using start_ap_run [OF _ hw, of ki k n y y'] c [of n] la n k s by (auto simp: word_less_nat_alt)
  qed
  moreover have "kpage 7 - KERNBASE = 0x7000"
    by (simp add: p7 layout)
  ultimately show ?thesis
    by (simp add: boot_aps_def ka)
qed

text \<open>\<open>boot_cpus cs\<close>: the table \<open>cs\<close> after \<^verbatim>\<open>trap_init\<close> on processor 0.\<close>

definition boot_cpus :: "(nat \<Rightarrow> Cpu) \<Rightarrow> nat \<Rightarrow> Cpu" where
  "boot_cpus cs = cs(0 := (cs 0)\<lparr>cpu_ts := \<lparr>ts_esp0 = KSTACKTOP, ts_ss0 = GD_KD\<rparr>\<rparr>)"

lemma init_cpus_run:
  assumes hw: "apics_ok hw" and s: "cpunum s = 0" "\<forall>i<NCPU. cpus s i = zero_cpu" "kernel_lock s = spin_initlock" "7 < unat (npages s)"
    and k: "kern_pgdir s = kpage k" "k < 65536" and code: "mpentry_end ki - mpentry_start ki \<le> 4096"
    and mp: "\<forall>t. npages t = npages s \<longrightarrow> pmem t = pmem s \<longrightarrow> mp_init t (imcr hw) (clear_mp (boot_cpus (cpus s))) = Some g"
      "bootcpu g = 0" "1 < ncpu g \<longrightarrow> lapic g \<noteq> 0"
  shows "\<exists>y'. init_cpus ki hw s y = Some y' \<and> set_up s (ker y') \<and> cpunum (ker y') = 0 \<and> holding 0 (kernel_lock (ker y')) \<and> mpg y' = g \<and> ncpu g \<le> NCPU \<and>
    (\<forall>i. cpus (ker y') i = (if 0 < i \<and> i < ncpu g then started i (mp_cpus g i) else mp_cpus g i)) \<and> (\<forall>i. cpu_env (mp_cpus g i) = cpu_env (cpus s i)) \<and>
    (\<forall>i. aps y' i = (if 0 < i \<and> i < ncpu g then Some (ap_regs ki k i) else aps y i))"
proof -
  have z: "cpus s 0 = zero_cpu"
    using s(2) by (simp add: layout)
  obtain s1 t1 where tr: "trap_init (vects ki) (ts_addr ki 0) s (tabs y) = Some (s1, t1)" "s1 = s\<lparr>cpus := boot_cpus (cpus s)\<rparr>"
    by (simp add: trap_init_def trap_init_percpu_def Let_def s(1) z boot_cpus_def zero_cpu_def)
  have g: "mp_init s1 (imcr hw) (clear_mp (cpus s1)) = Some g" "mp_init s (imcr hw) (clear_mp (boot_cpus (cpus s))) = Some g"
    using mp(1) by (simp_all add: tr(2))
  have cs: "\<forall>i<NCPU. cpu_id (boot_cpus (cpus s) i) = 0 \<and> cpu_status (boot_cpus (cpus s) i) = 0"
    using s(2) z by (simp add: boot_cpus_def zero_cpu_def)
  note F = mp_init_found [OF g(2) cs]
  have c0: "unat (lapic_cpunum (lapic g) (apic_ident hw (boot_apic hw))) = 0"
    using hw by (simp add: lapic_cpunum_def apics_ok_def)
  define con2 where "con2 = pic_init (fold (\<lambda>(p, v). outb p v) (mp_outs g) (con s1))"
  define s2 where "s2 = s1\<lparr>cpus := mp_cpus g, cpunum := 0, con := con2, kernel_lock := \<lparr>locked = 1, lk_cpu = Some 0\<rparr>\<rparr>"
  have lk: "lock_kernel (s1\<lparr>cpus := mp_cpus g, cpunum := 0, con := con2\<rparr>) = Some s2"
    using s(3) by (simp add: lock_kernel_def spin_lock_def holding_def xchg_def spin_initlock_def tr(2) s2_def)
  define y1 where "y1 = y\<lparr>ker := s2, tabs := t1, mpg := g, apicws := map (Pair 0) (lapic_init (lapic g) (apic_ver hw (boot_apic hw)) (0 = bootcpu g)), mpentry_kstack := 0\<rparr>"
  have run: "init_cpus ki hw s y = boot_aps ki hw y1"
    using tr(1) g(1) lk by (simp add: init_cpus_def c0 con2_def y1_def)
  have y1: "ker y1 = s2" "mpg y1 = g" "aps y1 = aps y" "set_up s s2"
    by (simp_all add: y1_def s2_def tr(2) set_up_def)
  have c: "cpu_id (cpus s2 c) = word_of_nat c \<and> (c = 0 \<or> ts_ss0 (cpu_ts (cpus s2 c)) = 0 \<and> cpu_status (cpus s2 c) \<noteq> CPU_STARTED)" if "c < ncpu g" for c
    using F(2) [OF that] F(4,5) [of c] F(1) that s(2) mp(2) by (auto simp: s2_def boot_cpus_def zero_cpu_def CPU_STARTED_def)
  obtain y' where y': "boot_aps ki hw y1 = Some y'" "woken ki k (ncpu g) y1 y'"
    using boot_aps_run [OF hw, of y1 k ki] mp(3) F(1) c k s(1,4) code unfolding y1 by (auto simp: s2_def tr(2))
  have "cpu_env (mp_cpus g i) = cpu_env (cpus s i)" for i
    using F(3) [of i] by (simp add: boot_cpus_def)
  then show ?thesis
    using y' F(1) set_up_trans [OF y1(4)] unfolding run woken_def y1 by (intro exI [of _ y']) (simp add: s2_def holding_def)
qed

subsection \<open>The images stay\<close>

text \<open>An image in pages that the kernel holds is the same image in a state in which those pages have the same content.\<close>

lemma elf_fields:
  assumes "kern_same base s0 s" "elf_ok base s0 b"
  shows "elf_phs s b = elf_phs s0 b" "kld s (b + 24) = kld s0 (b + 24)" "kld s b = kld s0 b"
    "ph \<in> set (elf_phs s0 b) \<Longrightarrow> kld s ph = kld s0 ph \<and> p_offset s ph = p_offset s0 ph \<and> p_va s ph = p_va s0 ph \<and> p_filesz s ph = p_filesz s0 ph \<and> p_memsz s ph = p_memsz s0 ph"
proof -
  have h: "held base b 52"
    using assms(2) by (simp add: elf_ok_def)
  note K = held_kld [OF assms(1) h]
  show "elf_phs s b = elf_phs s0 b" "kld s (b + 24) = kld s0 (b + 24)" "kld s b = kld s0 b"
    using K [of 28] K [of 44] K [of 24] K [of 0] by (simp_all add: elf_phs_def kld16_def)
  assume "ph \<in> set (elf_phs s0 b)"
  then have "held base ph 32"
    using assms(2) by (simp add: elf_ok_def seg_ok_def)
  note K = held_kld [OF assms(1) this]
  show "kld s ph = kld s0 ph \<and> p_offset s ph = p_offset s0 ph \<and> p_va s ph = p_va s0 ph \<and> p_filesz s ph = p_filesz s0 ph \<and> p_memsz s ph = p_memsz s0 ph"
    using K [of 0] K [of 4] K [of 8] K [of 16] K [of 20] by simp
qed

lemma held_mono: "held base a n \<Longrightarrow> (\<And>f. base f \<noteq> 0 \<Longrightarrow> base' f \<noteq> 0) \<Longrightarrow> held base' a n"
  by (auto simp: held_def Let_def)

lemma elf_kept:
  assumes "kern_same base s0 s" "elf_ok base s0 b" "\<And>f. base f \<noteq> 0 \<Longrightarrow> base' f \<noteq> 0"
  shows "elf_ok base' s b" "elf_pages s b = elf_pages s0 b" "elf_loaded s s' e b \<Longrightarrow> elf_loaded s0 s' e b"
proof -
  note F = elf_fields [OF assms(1,2)]
  have sp: "seg_pages s ph = seg_pages s0 ph" if "ph \<in> set (elf_phs s0 b)" for ph
    using F(4) [OF that] by (simp add: seg_pages_def)
  have sg: "seg_ok base' s b ph" if "ph \<in> set (elf_phs s0 b)" for ph
    using F(4) [OF that] assms(2) that held_mono [OF _ assms(3)] by (auto simp: elf_ok_def seg_ok_def)
  have "sorted_wrt (\<lambda>p q. set (seg_pages s p) \<inter> set (seg_pages s q) = {}) (elf_phs s0 b)"
    by (rule sorted_wrt_mono_rel [of _ "\<lambda>p q. set (seg_pages s0 p) \<inter> set (seg_pages s0 q) = {}"]) (use assms(2) sp in \<open>auto simp: elf_ok_def\<close>)
  then show "elf_ok base' s b"
    using assms(2) sg held_mono [OF _ assms(3)] by (auto simp: elf_ok_def F)
  show "elf_pages s b = elf_pages s0 b"
    unfolding elf_pages_def F(1) by (rule arg_cong [of _ _ sum_list]) (simp add: sp)
  assume l: "elf_loaded s s' e b"
  have "seg_loaded s0 s' e b ph" if ph: "ph \<in> set (elf_phs s0 b)" for ph
    unfolding seg_loaded_def
  proof (intro impI allI)
    fix j assume j: "kld s0 ph = ELF_PROG_LOAD" "j < unat (p_memsz s0 ph)"
    have "held base (b + p_offset s0 ph) (unat (p_filesz s0 ph))"
      using assms(2) ph j(1) by (auto simp: elf_ok_def seg_ok_def)
    note B = held_byte [OF assms(1) this, of j]
    have "seg_loaded s s' e b ph"
      using l ph by (simp add: elf_loaded_def F(1))
    then show "user_byte s' e (p_va s0 ph + word_of_nat j) =
        Some (if j < unat (p_filesz s0 ph) then pmem s0 (b + p_offset s0 ph - KERNBASE + word_of_nat j) else 0)"
      using F(4) [OF ph] j B by (simp add: seg_loaded_def)
  qed
  then show "elf_loaded s0 s' e b"
    using l by (simp add: elf_loaded_def)
qed

subsection \<open>The first environments\<close>

text \<open>\<open>ready s0 s e b ty\<close>: environment \<open>e\<close> is ready to run the image \<open>b\<close> of the state \<open>s0\<close>.\<close>

definition ready :: "kstate \<Rightarrow> kstate \<Rightarrow> nat \<Rightarrow> u32 \<Rightarrow> EnvType \<Rightarrow> bool" where
  "ready s0 s e b ty \<longleftrightarrow> live s e \<and> env_status (envs s e) = ENV_RUNNABLE \<and> env_type (envs s e) = ty \<and> tf_eip (env_tf (envs s e)) = kld s0 (b + 24) \<and>
     tf_esp (env_tf (envs s e)) = USTACKTOP \<and> tf_cs (env_tf (envs s e)) = GD_UT OR 3 \<and> elf_loaded s0 s e b"

lemma ready_other:
  assumes "ready s0 s e b ty" "envs s' e = envs s e" "\<And>va. user_byte s' e va = user_byte s e va"
  shows "ready s0 s' e b ty"
  using assms by (simp add: ready_def live_def elf_loaded_def seg_loaded_def layout)

text \<open>\<open>created base k s0 bs N s\<close>: the environments from 0 on run the images \<open>bs\<close>, the others are as in \<open>s0\<close>, and of \<open>N\<close> free pages at most
  those for the images have been used.\<close>

definition created :: "(nat \<Rightarrow> nat) \<Rightarrow> nat \<Rightarrow> kstate \<Rightarrow> (u32 \<times> EnvType) list \<Rightarrow> nat \<Rightarrow> kstate \<Rightarrow> bool" where
  "created base k s0 bs N s \<longleftrightarrow> kern_inv base k s \<and> kern_same base s0 s \<and> env_free_list s = Some (length bs) \<and>
     (\<forall>e. length bs \<le> e \<longrightarrow> envs s e = envs s0 e) \<and> (\<forall>e<length bs. ready s0 s e (fst (bs ! e)) (snd (bs ! e))) \<and>
     (\<exists>fl. vm_inv base (live_dirs s) fl s \<and> N \<le> length fl + (\<Sum>(b, ty)\<leftarrow>bs. 2 * elf_pages s0 b + 3)) \<and>
     cpus s = cpus s0 \<and> cpunum s = cpunum s0 \<and> kernel_lock s = kernel_lock s0"

lemma created_step:
  assumes c: "created base k s0 bs N s" and ok: "elf_ok base s0 b" and n: "(\<Sum>(b, ty)\<leftarrow>bs @ [(b, ty)]. 2 * elf_pages s0 b + 3) \<le> N"
    and l: "env_links s0 (length bs) = Some (Suc (length bs))"
  shows "\<exists>s'. env_create s b ty = Some s' \<and> created base k s0 (bs @ [(b, ty)]) N s'"
proof -
  let ?e = "length bs"
  have C: "kern_inv base k s" "kern_same base s0 s" "env_free_list s = Some ?e" "\<And>e. ?e \<le> e \<Longrightarrow> envs s e = envs s0 e"
    "\<And>e. e < ?e \<Longrightarrow> ready s0 s e (fst (bs ! e)) (snd (bs ! e))" "cpus s = cpus s0" "cpunum s = cpunum s0" "kernel_lock s = kernel_lock s0"
    using c by (simp_all add: created_def)
  obtain fl where fl: "vm_inv base (live_dirs s) fl s" "N \<le> length fl + (\<Sum>(b, ty)\<leftarrow>bs. 2 * elf_pages s0 b + 3)"
    using c by (auto simp: created_def)
  note E = elf_kept [OF C(2) ok, of base]
  have ok': "elf_ok base s b" "elf_pages s b = elf_pages s0 b" and ld: "\<And>s' e. elf_loaded s s' e b \<Longrightarrow> elf_loaded s0 s' e b"
    using E by blast+
  have m: "2 * elf_pages s b + 3 \<le> length fl"
    using n fl(2) ok'(2) by simp
  obtain s' fl' where s': "env_create s b ty = Some s'" "kern_inv base k s'" "live s' ?e" "env_status (envs s' ?e) = ENV_RUNNABLE" "env_type (envs s' ?e) = ty"
    "tf_eip (env_tf (envs s' ?e)) = kld s (b + 24)" "tf_esp (env_tf (envs s' ?e)) = USTACKTOP" "tf_cs (env_tf (envs s' ?e)) = GD_UT OR 3" "elf_loaded s s' ?e b"
    "\<forall>e'. e' \<noteq> ?e \<longrightarrow> envs s' e' = envs s e' \<and> aspace s' e' = aspace s e' \<and> (\<forall>va. user_byte s' e' va = user_byte s e' va)"
    "env_free_list s' = env_links s ?e" "kern_same base s s'" "vm_inv base (live_dirs s') fl' s'" "length fl \<le> length fl' + 2 * elf_pages s b + 3"
    "cpus s' = cpus s" "cpunum s' = cpunum s" "kernel_lock s' = kernel_lock s"
    using env_create_run [OF C(1,3) ok'(1) fl(1) m, of ty] by (elim exE conjE that)
  have new: "ready s0 s' ?e b ty"
    using s'(3-9) ld elf_fields(2) [OF C(2) ok] by (simp add: ready_def)
  have "ready s0 s' e (fst ((bs @ [(b, ty)]) ! e)) (snd ((bs @ [(b, ty)]) ! e))" if "e < Suc ?e" for e
  proof (cases "e = ?e")
    case False
    with that ready_other [OF C(5), of e s'] s'(10) show ?thesis
      by (simp add: nth_append)
  qed (simp add: new)
  moreover have "env_links s ?e = Some (Suc ?e)"
    using l C(4) by (simp add: env_links_def)
  moreover have "envs s' e = envs s0 e" if "Suc ?e \<le> e" for e
    using that s'(10) C(4) by simp
  moreover have "N \<le> length fl' + (\<Sum>(b, ty)\<leftarrow>bs @ [(b, ty)]. 2 * elf_pages s0 b + 3)"
    using s'(14) fl(2) ok'(2) by simp
  ultimately have "created base k s0 (bs @ [(b, ty)]) N s'"
    using s' C kern_same_trans [OF C(2)] unfolding created_def by auto
  with s'(1) show ?thesis by blast
qed

lemma init_envs_run:
  assumes inv: "kern_inv base k s" "vm_inv base (live_dirs s) fl s" and free: "env_free_list s = Some 0"
    and link: "\<And>e. e < 9 \<Longrightarrow> env_links s e = Some (Suc e)" and ok: "elf_ok base s (user_idle ki)" "elf_ok base s (user_primes ki)"
    and room: "8 * (2 * elf_pages s (user_idle ki) + 3) + (2 * elf_pages s (user_primes ki) + 3) \<le> length fl"
  shows "\<exists>s'. init_envs ki s = Some s' \<and> created base k s (replicate 8 (user_idle ki, ENV_TYPE_IDLE) @ [(user_primes ki, ENV_TYPE_USER)]) (length fl) s'"
proof -
  let ?r = "\<lambda>n. replicate n (user_idle ki, ENV_TYPE_IDLE)"
  have "\<exists>s'. for_each (\<lambda>i s. env_create s (user_idle ki) ENV_TYPE_IDLE) [0..<NCPU] s = Some s' \<and> created base k s (?r NCPU) (length fl) s'"
  proof (rule for_each_upt [where P = "\<lambda>n. created base k s (?r n) (length fl)"])
    show "created base k s (?r 0) (length fl) s"
      using inv free by (auto simp: created_def)
    fix n s' assume n: "n < NCPU" "created base k s (?r n) (length fl) s'"
    then have "Suc n * (2 * elf_pages s (user_idle ki) + 3) \<le> length fl"
      using room mult_le_mono1 [of "Suc n" 8 "2 * elf_pages s (user_idle ki) + 3"] by (simp add: layout)
    then show "\<exists>s''. env_create s' (user_idle ki) ENV_TYPE_IDLE = Some s'' \<and> created base k s (?r (Suc n)) (length fl) s''"
      using created_step [OF n(2) ok(1), of ENV_TYPE_IDLE] link n(1) by (simp add: sum_list_replicate layout replicate_append_same)
  qed
  then obtain s1 where s1: "for_each (\<lambda>i s. env_create s (user_idle ki) ENV_TYPE_IDLE) [0..<NCPU] s = Some s1" "created base k s (?r 8) (length fl) s1"
    by (auto simp: layout)
  then show ?thesis
    using created_step [OF s1(2) ok(2), of ENV_TYPE_USER] link room by (simp add: init_envs_def sum_list_replicate)
qed

subsection \<open>Memory\<close>

lemma cons_init_run: "\<exists>c'. cons_init cga hi lo lsr c = Some c'"
proof -
  obtain c1 where "cons_intr kbd_proc_data (cga_init cga hi lo c) = Some c1"
    using cons_intr_kbd by blast
  then show ?thesis
    by (simp add: cons_init_def kbd_init_def kbd_intr_def)
qed

lemma env_init_cpus: "cpus (env_init s) = cpus s" "cpunum (env_init s) = cpunum s" "kernel_lock (env_init s) = kernel_lock s"
proof -
  have "cpus (fold (\<lambda>i. upd_env (i - 1) (f i)) xs t) = cpus t" "cpunum (fold (\<lambda>i. upd_env (i - 1) (f i)) xs t) = cpunum t"
    "kernel_lock (fold (\<lambda>i. upd_env (i - 1) (f i)) xs t) = kernel_lock t" for f xs t
    by (induction xs arbitrary: t) auto
  then show "cpus (env_init s) = cpus s" "cpunum (env_init s) = cpunum s" "kernel_lock (env_init s) = kernel_lock s"
    by (simp_all add: env_init_def Let_def)
qed

lemma linked_upt_next: "linked f p [a..<b] \<Longrightarrow> a \<le> e \<Longrightarrow> Suc e < b \<Longrightarrow> f e = Some (Suc e)"
proof -
  assume l: "linked f p [a..<b]" "a \<le> e" "Suc e < b"
  then have "[a..<b] = [a..<e] @ e # Suc e # [Suc (Suc e)..<b]"
    using upt_add_eq_append [of a e "b - e"] by (simp add: upt_conv_Cons)
  with l(1) linked_suffix [of f p "[a..<e]" e "Suc e # [Suc (Suc e)..<b]"] show ?thesis
    by simp
qed

lemma env_init_links: "env_free_list (env_init s) = Some 0" "Suc e < NENV \<Longrightarrow> env_links (env_init s) e = Some (Suc e)"
proof -
  have l: "linked (env_links (env_init s)) (env_free_list (env_init s)) [0..<NENV]"
    by (rule env_init_free(2))
  have "[0..<NENV] = 0 # [1..<NENV]"
    using upt_conv_Cons [of 0 NENV] by (simp add: NENV_def del: upt_rec_numeral)
  with l show "env_free_list (env_init s) = Some 0"
    by (metis linked.simps(2))
  show "Suc e < NENV \<Longrightarrow> env_links (env_init s) e = Some (Suc e)"
    using linked_upt_next [OF l] by simp
qed

text \<open>The pages between the start of extended memory and the end of the kernel: its code and its data, with the images of the programs.\<close>

definition image_pages :: "u32 \<Rightarrow> nat \<Rightarrow> nat" where
  "image_pages ke f = of_bool (256 \<le> f \<and> f < boot_frame ke)"

definition boot_layout :: "kimage \<Rightarrow> u32 \<Rightarrow> bool" where
  "boot_layout ki np \<longleftrightarrow> KERNBASE + EXTPHYSMEM \<le> edata ki \<and> edata ki \<le> kend ki \<and> boot_next (kend ki) np + 68 \<le> unat np \<and>
     page_aligned (bootstack ki) \<and> KERNBASE \<le> bootstack ki \<and> (\<forall>i<NCPU. page_aligned (kstacks ki i) \<and> KERNBASE \<le> kstacks ki i) \<and>
     mpentry_end ki - mpentry_start ki \<le> 4096"

lemma init_memory_run:
  assumes np: "np = npages (i386_detect_memory (nvram hw) s)" and lay: "boot_layout ki np"
  defines "k \<equiv> boot_frame (kend ki)" and "b \<equiv> boot_next (kend ki) np"
  shows "\<exists>s' base fl. init_memory ki hw u1 u2 s = Some s' \<and> kern_inv base k s' \<and> vm_inv base (live_dirs s') fl s' \<and> live_dirs s' = {} \<and>
    91 + (unat np - b) \<le> length fl \<and> npages s' = np \<and> same_cpus (clear_bss ki s) (s'\<lparr>con := con (clear_bss ki s)\<rparr>) \<and>
    (\<forall>f. f = 0 \<or> f = 7 \<or> 256 \<le> f \<and> f < b \<longrightarrow> base f \<noteq> 0) \<and> env_free_list s' = Some 0 \<and> (\<forall>e. Suc e < NENV \<longrightarrow> env_links s' e = Some (Suc e)) \<and>
    (\<forall>e<NENV. env_status (envs s' e) = ENV_FREE) \<and>
    (\<forall>f i. f < 65536 \<longrightarrow> unat i < 1024 \<longrightarrow> f = 0 \<or> 160 \<le> f \<and> f < k \<longrightarrow> entry s' f i = entry (clear_bss ki s) f i)"
proof -
  obtain c where c: "cons_init (cga_present hw) (cursor_hi hw) (cursor_lo hw) (com_lsr hw) (con (clear_bss ki s)) = Some c"
    using cons_init_run by blast
  define s0 where "s0 = (clear_bss ki s)\<lparr>con := c\<rparr>"
  have pre: "nextfree s0 = 0" "np = npages (i386_detect_memory (nvram hw) s0)"
    by (simp_all add: s0_def clear_bss_def np i386_detect_memory_def Let_def)
  have l: "KERNBASE + EXTPHYSMEM \<le> kend ki" "boot_next (kend ki) np + 68 \<le> unat np" "page_aligned (bootstack ki)" "KERNBASE \<le> bootstack ki"
    "\<forall>i<NCPU. page_aligned (kstacks ki i) \<and> KERNBASE \<le> kstacks ki i"
    using lay by (auto simp: boot_layout_def)
  obtain pv ev s1 fl where m: "mem_init (nvram hw) (kend ki) (bootstack ki) (kstacks ki) u1 u2 s0 = Some (pv, ev, s1)" "cr3 s1 = page2pa k"
    "boot_maps s1 k (kernel_space np (pv - KERNBASE) (ev - KERNBASE) (\<lambda>i. kstacks ki i - KERNBASE))"
    "kdir k (158 + (unat np - b)) fl s1" "npages s1 = np" "same_cpus s0 s1" "\<forall>p. p = 0 \<or> p = 7 \<or> 256 \<le> p \<and> p < b \<longrightarrow> pp_ref (pages s1 p) = 1"
    "\<forall>f i. f < 65536 \<longrightarrow> unat i < 1024 \<longrightarrow> f = 0 \<or> 160 \<le> f \<and> f < b \<and> f \<noteq> k \<longrightarrow> entry s1 f i = entry s0 f i"
    using mem_init_run [OF pre l, where ?u1.0 = u1 and ?u2.0 = u2, folded k_def b_def] by (elim exE conjE that)
  let ?s = "env_init s1" and ?base = "\<lambda>p. unat (pp_ref (pages s1 p))"
  have kb: "256 \<le> k" "k < b"
    using l(1) by (auto simp: k_def b_def boot_next_def boot_frame_def layout word_le_nat_alt)
  then have "pp_ref (pages s1 k) \<noteq> 0" "pp_ref (pages s1 0) \<noteq> 0"
    using m(7) by simp_all
  note inv = kdir_kern_inv [OF m(4) this]
  have st: "env_status (envs ?s e) = ENV_FREE" if "e < NENV" for e
    using env_init_free(1) that by blast
  then have dirs: "live_dirs ?s = {}"
    by (auto simp: live_dirs_def live_def)
  obtain fl' where v: "vm_inv ?base (live_dirs ?s) fl' ?s"
    using inv by (auto simp: kern_inv_def mem_ok_def)
  have "page_links ?s = page_links s1"
    by (simp add: page_links_def fun_eq_iff env_init_sel)
  then have "fl' = fl"
    using vm_invD(2) [OF v] kdirD(2) [OF m(4)] linked_unique [of "page_links s1" "page_free_list s1"] by (simp add: free_list_def env_init_sel)
  moreover have "card (ktab s1 k) \<le> 67"
    using card_mono [OF _ kdirD(9) [OF m(4)]] card_kern_pdes by (metis finite le_trans)
  ultimately have n: "91 + (unat np - b) \<le> length fl'"
    using kdirD(10) [OF m(4)] by simp
  have run: "init_memory ki hw u1 u2 s = Some ?s"
    using c m(1) by (simp add: init_memory_def s0_def)
  have "same_cpus (clear_bss ki s) (?s\<lparr>con := con (clear_bss ki s)\<rparr>)"
    using m(6) by (simp add: same_cpus_def s0_def env_init_cpus)
  moreover have "entry ?s f i = entry (clear_bss ki s) f i" if "f < 65536" "unat i < 1024" "f = 0 \<or> 160 \<le> f \<and> f < k" for f i
    using m(8) that kb by (auto simp: s0_def entry_def env_init_sel(4))
  ultimately show ?thesis
    using run inv v dirs n m(5,7) st env_init_links(1) [of s1] env_init_links(2) [of _ s1] by (intro exI [of _ ?s] exI [of _ ?base] exI [of _ fl']) (simp add: env_init_sel)
qed

subsection \<open>The first run of a processor\<close>

lemma same_but_status_space:
  assumes "same_but_status s s'"
  shows "live s' = live s" "aspace s' = aspace s" "user_byte s' = user_byte s"
proof -
  have s: "env_same (envs s e) (envs s' e)" "env_free_list s' = env_free_list s" "pmem s' = pmem s" for e
    using assms by (simp_all add: same_but_status_def)
  show l: "live s' = live s"
    by (rule envs_same(1) [OF s(1,2)])
  have d: "dir_frame s' = dir_frame s"
    using s(1) by (simp add: dir_frame_def env_same_def fun_eq_iff)
  have v: "vmap s' = vmap s"
    using assms by (intro vm_cong(5)) (simp_all add: same_but_status_def)
  show a: "aspace s' = aspace s"
    by (simp add: aspace_def l d v fun_eq_iff)
  show "user_byte s' = user_byte s"
    by (simp add: user_byte_def a s(3) fun_eq_iff)
qed

text \<open>A processor that has no current environment, with the lock, when the scheduler chooses \<open>e\<close>.\<close>

lemma first_run:
  assumes inv: "kern_inv base k s" and e: "live s e" and lock: "holding (cpunum s) (kernel_lock s)" and cur: "curenv s = None"
    and run: "sched_yield s = do { s2 \<leftarrow> env_run s e; Some (Run, s2) }"
  shows "\<exists>s'. sched_yield s = Some (Run, s') \<and> cpunum s' = cpunum s \<and> kern_inv base k s' \<and> live s' = live s \<and> user_byte s' = user_byte s \<and> kernel_lock s' = spin_initlock \<and>
    envs s' = (envs s)(e := (envs s e)\<lparr>env_status := ENV_RUNNING, env_runs := env_runs (envs s e) + 1, env_cpunum := word_of_nat (cpunum s)\<rparr>) \<and>
    (\<forall>c. cpu_env (cpus s' c) = (if c = cpunum s then Some e else cpu_env (cpus s c))) \<and> (\<forall>c. c \<noteq> cpunum s \<longrightarrow> cpus s' c = cpus s c) \<and>
    cr3 s' = page2pa (dir_frame s e)"
proof -
  note D = dir_frame_live [OF inv e]
  have dl: "dir_frame s e < 65536"
    using D(1) by (simp add: live_dirs_def)
  then have pg: "KERNBASE \<le> env_pgdir (envs s e)" "env_pgdir (envs s e) - KERNBASE = page2pa (dir_frame s e)"
    using D(2) KERNBASE_kpage by (simp_all add: kpage_def)
  obtain s' where s': "env_run s e = Some s'" "curenv s' = Some e" "cpunum s' = cpunum s"
    "envs s' = (envs s)(e := (envs s e)\<lparr>env_status := ENV_RUNNING, env_runs := env_runs (envs s e) + 1, env_cpunum := word_of_nat (cpunum s)\<rparr>)"
    "\<And>c. c \<noteq> cpunum s \<Longrightarrow> cpus s' c = cpus s c" "cr3 s' = page2pa (dir_frame s e)" "kernel_lock s' = spin_initlock"
    using env_run_eq [OF lock pg(1)] cur pg(2) by (auto simp: demoted_def)
  have y: "sched_yield s = Some (Run, s')"
    using run s'(1) by simp
  note same = sched_yield_same [OF y]
  have "cpu_env (cpus s' c) = (if c = cpunum s then Some e else cpu_env (cpus s c))" for c
    using s'(2,3,5) by (simp add: curenv_def)
  then show ?thesis
    using y kern_inv_same [OF same inv] same_but_status_space [OF same] s'(3-7) by blast
qed

text \<open>\<open>booted base k ki s0 R s\<close>: the first eight environments are idle environments and the ninth is the program, each with its image as in \<open>s0\<close>, the
  others are free; processor 0 runs the program, and the processors in \<open>R\<close> run the idle environment of their own number; the lock is free.\<close>

definition booted :: "(nat \<Rightarrow> nat) \<Rightarrow> nat \<Rightarrow> kimage \<Rightarrow> kstate \<Rightarrow> nat set \<Rightarrow> kstate \<Rightarrow> bool" where
  "booted base k ki s0 R s \<longleftrightarrow> kern_inv base k s \<and> kernel_lock s = spin_initlock \<and>
     (\<forall>e<9. let b = (if e = 8 then user_primes ki else user_idle ki); v = envs s e
       in elf_loaded s0 s e b \<and> tf_eip (env_tf v) = kld s0 (b + 24) \<and> tf_esp (env_tf v) = USTACKTOP \<and> tf_cs (env_tf v) = GD_UT OR 3 \<and>
          env_type v = (if e = 8 then ENV_TYPE_USER else ENV_TYPE_IDLE) \<and> env_status v = (if e = 8 \<or> e \<in> R then ENV_RUNNING else ENV_RUNNABLE)) \<and>
     (\<forall>e. 9 \<le> e \<longrightarrow> e < NENV \<longrightarrow> env_status (envs s e) = ENV_FREE) \<and>
     (\<forall>c<NCPU. cpu_env (cpus s c) = (if c = 0 then Some 8 else if c \<in> R then Some c else None))"

lemma elf_loaded_user: "user_byte s' = user_byte s \<Longrightarrow> elf_loaded s0 s' e b = elf_loaded s0 s e b"
  by (simp add: elf_loaded_def seg_loaded_def)

lemma boot_first_run:
  assumes c: "created base k s0 (replicate 8 (user_idle ki, ENV_TYPE_IDLE) @ [(user_primes ki, ENV_TYPE_USER)]) N s"
    and s0: "\<And>e. e < NENV \<Longrightarrow> env_status (envs s0 e) = ENV_FREE" "cpunum s0 = 0" "holding 0 (kernel_lock s0)" "\<And>c. c < NCPU \<Longrightarrow> cpu_env (cpus s0 c) = None"
  shows "\<exists>s'. sched_yield s = Some (Run, s') \<and> booted base k ki s0 {} s' \<and> cpunum s' = 0 \<and> cr3 s' = page2pa (dir_frame s' 8) \<and> (\<forall>c. c \<noteq> 0 \<longrightarrow> cpus s' c = cpus s0 c)"
proof -
  let ?bs = "replicate 8 (user_idle ki, ENV_TYPE_IDLE) @ [(user_primes ki, ENV_TYPE_USER)]"
  have C: "kern_inv base k s" "\<And>e. 9 \<le> e \<Longrightarrow> envs s e = envs s0 e" "\<And>e. e < 9 \<Longrightarrow> ready s0 s e (fst (?bs ! e)) (snd (?bs ! e))"
    "cpus s = cpus s0" "cpunum s = 0" "holding (cpunum s) (kernel_lock s)" "curenv s = None"
    using c s0(2-4) by (simp_all add: created_def curenv_def layout)
  have nth: "?bs ! e = (if e = 8 then (user_primes ki, ENV_TYPE_USER) else (user_idle ki, ENV_TYPE_IDLE))" if "e < 9" for e
    using that by (auto simp: nth_append)
  have R: "ready s0 s e (if e = 8 then user_primes ki else user_idle ki) (if e = 8 then ENV_TYPE_USER else ENV_TYPE_IDLE)" if "e < 9" for e
    using C(3) [OF that] that by (auto simp: nth)
  have "sched_scan (envs s) 0 NENV = Some 8"
    unfolding sched_scan_Some using R [of 8] R by (intro exI [of _ 8]) (auto simp: schedulable_def ready_def layout)
  then have run: "sched_yield s = do { s2 \<leftarrow> env_run s 8; Some (Run, s2) }"
    by (simp add: sched_yield_def sched_start_def C(7))
  have l: "live s 8"
    using R [of 8] by (simp add: ready_def)
  obtain s' where s': "sched_yield s = Some (Run, s')" "kern_inv base k s'" "user_byte s' = user_byte s" "kernel_lock s' = spin_initlock"
    "envs s' = (envs s)(8 := (envs s 8)\<lparr>env_status := ENV_RUNNING, env_runs := env_runs (envs s 8) + 1, env_cpunum := word_of_nat (cpunum s)\<rparr>)"
    "\<And>c. cpu_env (cpus s' c) = (if c = cpunum s then Some 8 else cpu_env (cpus s c))" "cr3 s' = page2pa (dir_frame s 8)"
    "\<And>c. c \<noteq> cpunum s \<Longrightarrow> cpus s' c = cpus s c" "cpunum s' = cpunum s"
    using first_run [OF C(1) l C(6,7) run] by blast
  have "dir_frame s' 8 = dir_frame s 8"
    by (simp add: dir_frame_def s'(5))
  moreover have "booted base k ki s0 {} s'"
    unfolding booted_def Let_def
  proof (intro conjI allI impI)
    fix e :: nat assume "e < 9"
    note R = R [OF this]
    show "elf_loaded s0 s' e (if e = 8 then user_primes ki else user_idle ki)"
      using R elf_loaded_user [OF s'(3)] by (simp add: ready_def)
  qed (use R s' C(2,4,5) s0(1,4) in \<open>auto simp: ready_def split: if_splits\<close>)
  ultimately show ?thesis
    using s'(1,7-9) C(4,5) by simp
qed

text \<open>A processor that was started, and has the lock for the first time: nothing but the program is ready and that is running, so it takes its idle environment.
  \<open>ap_enter\<close> is the end of \<^verbatim>\<open>mp_main\<close> when it leads to user mode.\<close>

definition ap_enter :: "nat \<Rightarrow> nat \<Rightarrow> kstate \<Rightarrow> kstate option" where
  "ap_enter k c s = do { (x, s') \<leftarrow> mp_main_sched c (page2pa k) s; (if x = Run then Some s' else None) }"

lemma ap_first_run:
  assumes b: "booted base k ki s0 R s" and c: "0 < c" "c < NCPU" "c \<notin> R"
  shows "\<exists>s'. ap_enter k c s = Some s' \<and> booted base k ki s0 (insert c R) s'"
proof -
  define s1 where "s1 = s\<lparr>cpunum := c, cr3 := page2pa k, kernel_lock := \<lparr>locked = 1, lk_cpu = Some c\<rparr>\<rparr>"
  have B: "kern_inv base k s" "kernel_lock s = spin_initlock" "\<And>e. 9 \<le> e \<Longrightarrow> e < NENV \<Longrightarrow> env_status (envs s e) = ENV_FREE"
    "\<And>c. c < NCPU \<Longrightarrow> cpu_env (cpus s c) = (if c = 0 then Some 8 else if c \<in> R then Some c else None)"
    using b by (simp_all add: booted_def)
  have E: "env_status (envs s e) = (if e = 8 \<or> e \<in> R then ENV_RUNNING else ENV_RUNNABLE)" "env_type (envs s e) = (if e = 8 then ENV_TYPE_USER else ENV_TYPE_IDLE)" if "e < 9" for e
    using b that by (simp_all add: booted_def Let_def)
  have lk: "lock_kernel (s\<lparr>cpunum := c, cr3 := page2pa k\<rparr>) = Some s1"
    using B(2) by (simp add: lock_kernel_def spin_lock_def holding_def xchg_def spin_initlock_def s1_def)
  have s1: "envs s1 = envs s" "cpunum s1 = c" "holding (cpunum s1) (kernel_lock s1)" "curenv s1 = None" "cpus s1 = cpus s"
    using B(4) [OF c(2)] c by (simp_all add: s1_def holding_def curenv_def)
  have same: "same_but_status s s1"
    by (simp add: same_but_status_def env_same_def s1_def)
  have c9: "c < 9" "c \<noteq> 8"
    using c(2) by (simp_all add: layout)
  have live: "live s1 c"
    using E(1) [OF c9(1)] c(3) c9 by (simp add: live_def s1(1) layout)
  have "\<not> schedulable (envs s e)" if "e < NENV" for e
    using E [of e] B(3) [of e] that by (cases "e < 9") (auto simp: schedulable_def layout)
  then have none: "sched_scan (envs s1) 0 NENV = None"
    unfolding sched_scan_None s1(1) by blast
  have "list_ex (\<lambda>i. env_type (envs s i) \<noteq> ENV_TYPE_IDLE \<and> (env_status (envs s i) = ENV_RUNNABLE \<or> env_status (envs s i) = ENV_RUNNING)) [0..<NENV]"
    unfolding list_ex_iff by (rule bexI [of _ 8]) (use E [of 8] in \<open>simp_all add: NENV_def\<close>)
  then have run: "sched_yield s1 = do { s2 \<leftarrow> env_run s1 c; Some (Run, s2) }"
    using none E(1) [OF c9(1)] c(3) c9 by (simp add: sched_yield_def sched_start_def s1 Let_def)
  obtain s' where s': "sched_yield s1 = Some (Run, s')" "kern_inv base k s'" "user_byte s' = user_byte s1" "kernel_lock s' = spin_initlock"
    "envs s' = (envs s1)(c := (envs s1 c)\<lparr>env_status := ENV_RUNNING, env_runs := env_runs (envs s1 c) + 1, env_cpunum := word_of_nat (cpunum s1)\<rparr>)"
    "\<And>i. cpu_env (cpus s' i) = (if i = cpunum s1 then Some c else cpu_env (cpus s1 i))"
    using first_run [OF kern_inv_same [OF same B(1)] live s1(3,4) run] by blast
  have "booted base k ki s0 (insert c R) s'"
    unfolding booted_def Let_def
  proof (intro conjI allI impI)
    fix e :: nat assume e: "e < 9"
    have "elf_loaded s0 s e (if e = 8 then user_primes ki else user_idle ki)"
      using b e by (simp add: booted_def Let_def)
    then show "elf_loaded s0 s' e (if e = 8 then user_primes ki else user_idle ki)"
      using elf_loaded_user [of s' s] s'(3) same_but_status_space(3) [OF same] by simp
  qed (use b s' s1 c c9 in \<open>auto simp: booted_def Let_def\<close>)
  then show ?thesis
    using lk s'(1) by (simp add: ap_enter_def mp_main_sched_def)
qed

lemma aps_first_run:
  assumes "booted base k ki s0 R s" "distinct cs" "set cs \<subseteq> {1..<NCPU} - R"
  shows "\<exists>s'. for_each (ap_enter k) cs s = Some s' \<and> booted base k ki s0 (R \<union> set cs) s'"
  using assms
proof (induction cs arbitrary: R s)
  case (Cons c cs)
  obtain s1 where s1: "ap_enter k c s = Some s1" "booted base k ki s0 (insert c R) s1"
    using ap_first_run [OF Cons.prems(1), of c] Cons.prems(3) by auto
  with Cons.IH [OF s1(2)] Cons.prems(2,3) show ?case
    by (auto simp: insert_commute)
qed simp

subsection \<open>The whole sequence\<close>

text \<open>\<open>firmware hw np m cs g\<close>: the tables of the firmware and what points to them are in page 0 and in the memory between 640 KB and 1 MB, as \<open>m\<close> has it, so that \<^verbatim>\<open>mp_init\<close>
  finds \<open>g\<close> whatever the rest of memory holds; the processor that boots is the first one, and with several there is an APIC.\<close>

definition firmware :: "hardware \<Rightarrow> u32 \<Rightarrow> bytemem \<Rightarrow> (nat \<Rightarrow> Cpu) \<Rightarrow> mpglobals \<Rightarrow> bool" where
  "firmware hw np m cs g \<longleftrightarrow> bootcpu g = 0 \<and> (1 < ncpu g \<longrightarrow> lapic g \<noteq> 0) \<and>
     (\<forall>t. npages t = np \<longrightarrow> (\<forall>a. unat a < 0x1000 \<or> 0xA0000 \<le> unat a \<and> unat a < 0x100000 \<longrightarrow> pmem t a = m a) \<longrightarrow>
        mp_init t (imcr hw) (clear_mp (boot_cpus cs)) = Some g)"

lemma clear_bss_low:
  assumes "boot_layout ki np" "unat a + 0xF0000000 < unat (edata ki)"
  shows "pmem (clear_bss ki s) a = pmem s a"
proof -
  have l: "0xF0100000 \<le> unat (edata ki)" "unat (edata ki) \<le> unat (kend ki)"
    using assms(1) by (auto simp: boot_layout_def word_le_nat_alt layout)
  then have n: "unat (kend ki - edata ki) = unat (kend ki) - unat (edata ki)" "unat (edata ki - KERNBASE) = unat (edata ki) - 0xF0000000"
    by (simp_all add: unat_sub word_le_nat_alt layout)
  have k: "unat (kend ki) < 2 ^ 32" "unat (edata ki) < 2 ^ 32"
    using unsigned_less [of "kend ki"] unsigned_less [of "edata ki"] by simp_all
  then have "unat (a - (edata ki - KERNBASE)) = 2 ^ 32 + unat a - (unat (edata ki) - 0xF0000000)"
    using assms(2) l n(2) by (subst unat_sub_if_size) (auto simp: word_size)
  then have "\<not> in_range (edata ki - KERNBASE) (unat (kend ki - edata ki)) a"
    unfolding in_range_def using l n k by linarith
  then show ?thesis
    by (simp add: clear_bss_def fill_bytes_def)
qed

lemma reserved_kept:
  assumes lay: "boot_layout ki np" and keep: "\<forall>f i. f < 65536 \<longrightarrow> unat i < 1024 \<longrightarrow> f = 0 \<or> 160 \<le> f \<and> f < boot_frame (kend ki) \<longrightarrow> entry s1 f i = entry (clear_bss ki s) f i"
    and a: "unat a < 0x1000 \<or> 0xA0000 \<le> unat a \<and> unat a < 0x100000"
  shows "pmem s1 a = pmem s a"
proof -
  have lo: "0xF0100000 \<le> unat (edata ki)" "256 \<le> boot_frame (kend ki)"
    using lay by (auto simp: boot_layout_def boot_frame_def word_le_nat_alt layout)
  then have f: "unat a div 4096 < 65536" "unat a div 4096 = 0 \<or> 160 \<le> unat a div 4096 \<and> unat a div 4096 < boot_frame (kend ki)"
    using a by auto
  have "pmem s1 a = pmem (clear_bss ki s) a"
  proof (rule page_byte_same [where f = "unat a div 4096"])
    show "PTE_ADDR a = page2pa (unat a div 4096)"
      using page2pa_PGNUM [of a] by (simp add: unat_PGNUM)
    show "entry s1 (unat a div 4096) i = entry (clear_bss ki s) (unat a div 4096) i" if "unat i < 1024" for i
      using keep that f by blast
  qed
  then show ?thesis
    using clear_bss_low [OF lay, of a s] a lo(1) by auto
qed

lemma booted_image:
  assumes "booted base k ki s R t" "kern_same base' s0 s" "elf_ok base' s0 (user_idle ki)" "elf_ok base' s0 (user_primes ki)"
  shows "booted base k ki s0 R t"
proof -
  have "elf_loaded s t e b \<Longrightarrow> elf_loaded s0 t e b" "kld s (b + 24) = kld s0 (b + 24)" if "b = user_idle ki \<or> b = user_primes ki" for e b
    using that elf_kept(3) [OF assms(2,3), of base'] elf_kept(3) [OF assms(2,4), of base'] elf_fields(2) [OF assms(2,3)] elf_fields(2) [OF assms(2,4)] by blast+
  then show ?thesis
    using assms(1) by (simp add: booted_def Let_def)
qed

text \<open>From the start of the processors to the first program, with the images as in \<open>s0\<close>.\<close>

lemma programs_run:
  assumes inv: "kern_inv base k s" "vm_inv base (live_dirs s) fl s" and free: "env_free_list s = Some 0" "\<forall>e<9. env_links s e = Some (Suc e)"
    "\<forall>e<NENV. env_status (envs s e) = ENV_FREE" "\<forall>c<NCPU. cpu_env (cpus s c) = None" "cpunum s = 0" "holding 0 (kernel_lock s)"
    and same: "kern_same base' s0 s" and img: "elf_ok base' s0 (user_idle ki)" "elf_ok base' s0 (user_primes ki)" and mono: "\<forall>f. base' f \<noteq> 0 \<longrightarrow> base f \<noteq> 0"
    and room: "8 * (2 * elf_pages s0 (user_idle ki) + 3) + (2 * elf_pages s0 (user_primes ki) + 3) \<le> length fl"
  shows "\<exists>s1 s'. init_envs ki s = Some s1 \<and> sched_yield s1 = Some (Run, s') \<and> booted base k ki s0 {} s' \<and> cpunum s' = 0 \<and>
    cr3 s' = page2pa (dir_frame s' 8) \<and> (\<forall>c. c \<noteq> 0 \<longrightarrow> cpus s' c = cpus s c)"
proof -
  have I: "elf_ok base s (user_idle ki)" "elf_ok base s (user_primes ki)" "elf_pages s (user_idle ki) = elf_pages s0 (user_idle ki)"
    "elf_pages s (user_primes ki) = elf_pages s0 (user_primes ki)"
    using elf_kept(1,2) [OF same img(1), of base] elf_kept(1,2) [OF same img(2), of base] mono by blast+
  obtain s1 where s1: "init_envs ki s = Some s1"
    "created base k s (replicate 8 (user_idle ki, ENV_TYPE_IDLE) @ [(user_primes ki, ENV_TYPE_USER)]) (length fl) s1"
    using init_envs_run [OF inv free(1) _ I(1,2)] free(2) room unfolding I(3,4) by blast
  obtain s' where s': "sched_yield s1 = Some (Run, s')" "booted base k ki s {} s'" "cpunum s' = 0" "cr3 s' = page2pa (dir_frame s' 8)" "\<forall>c. c \<noteq> 0 \<longrightarrow> cpus s' c = cpus s c"
    using boot_first_run [OF s1(2) _ free(5,6)] free(3,4) by blast
  then show ?thesis
    using s1(1) booted_image [OF s'(2) same img] by blast
qed

text \<open>C4. \<^verbatim>\<open>i386_init\<close> runs through to the first user program, on every machine on which memory has room for the kernel and for the programs, the processors
  have their identifiers and the firmware its tables where the kernel looks for them: no step of it panics, loops for ever or fails a test. It ends in user mode
  on processor 0 with the invariant of the kernel, in a state where the program is the current environment, with its image at its addresses and its own
  directory loaded, an idle environment is ready for every processor, every other environment is free, the lock is free, and every other processor
  the firmware lists has been started on a stack of its own, with the directory of the kernel and its own task state; in whatever order these get the
  lock, each of them then runs the idle environment of its own number.\<close>

theorem i386_init_starts:
  assumes np: "np = npages (i386_detect_memory (nvram hw) (ker y))" and lay: "boot_layout ki np" and hw: "apics_ok hw" and lock: "kernel_lock (ker y) = spin_initlock"
    and fw: "firmware hw np (pmem (ker y)) (cpus (clear_bss ki (ker y))) g"
    and img: "elf_ok (image_pages (kend ki)) (clear_bss ki (ker y)) (user_idle ki)" "elf_ok (image_pages (kend ki)) (clear_bss ki (ker y)) (user_primes ki)"
    and room: "16 * elf_pages (clear_bss ki (ker y)) (user_idle ki) + 2 * elf_pages (clear_bss ki (ker y)) (user_primes ki) + boot_next (kend ki) np \<le> 64 + unat np"
  shows "\<exists>y' base. i386_init ki hw u1 u2 y = Some (Run, y') \<and> booted base (boot_frame (kend ki)) ki (clear_bss ki (ker y)) {} (ker y') \<and>
    cpunum (ker y') = 0 \<and> cr3 (ker y') = page2pa (dir_frame (ker y') 8) \<and> mpg y' = g \<and>
    (\<forall>c. 0 < c \<longrightarrow> c < ncpu g \<longrightarrow> cpu_status (cpus (ker y') c) = CPU_STARTED \<and> aps y' c = Some (ap_regs ki (boot_frame (kend ki)) c)) \<and>
    (\<forall>cs. distinct cs \<longrightarrow> set cs \<subseteq> {1..<ncpu g} \<longrightarrow>
       (\<exists>s'. for_each (ap_enter (boot_frame (kend ki))) cs (ker y') = Some s' \<and> booted base (boot_frame (kend ki)) ki (clear_bss ki (ker y)) (set cs) s'))"
proof -
  let ?s = "clear_bss ki (ker y)" and ?k = "boot_frame (kend ki)" and ?b = "boot_next (kend ki) np"
  obtain s1 base fl where m: "init_memory ki hw u1 u2 (ker y) = Some s1" "kern_inv base ?k s1" "vm_inv base (live_dirs s1) fl s1" "live_dirs s1 = {}"
    "91 + (unat np - ?b) \<le> length fl" "npages s1 = np" "same_cpus ?s (s1\<lparr>con := con ?s\<rparr>)" "\<forall>f. f = 0 \<or> f = 7 \<or> 256 \<le> f \<and> f < ?b \<longrightarrow> base f \<noteq> 0"
    "env_free_list s1 = Some 0" "\<forall>e. Suc e < NENV \<longrightarrow> env_links s1 e = Some (Suc e)" "\<forall>e<NENV. env_status (envs s1 e) = ENV_FREE"
    "\<forall>f i. f < 65536 \<longrightarrow> unat i < 1024 \<longrightarrow> f = 0 \<or> 160 \<le> f \<and> f < ?k \<longrightarrow> entry s1 f i = entry ?s f i"
    using init_memory_run [OF np lay, of u1 u2] by (elim exE conjE that)
  have kb: "256 \<le> ?k" "?k < ?b" "?b + 68 \<le> unat np"
    using lay by (auto simp: boot_layout_def boot_next_def boot_frame_def layout word_le_nat_alt)
  have kt: "kern_pgdir s1 = kpage ?k" "?k < 65536"
    using m(2) vm_invD(9) [OF m(3)] by (auto simp: kern_inv_def mem_ok_def kern_template_def)
  have c1: "cpus s1 = cpus ?s" "cpunum s1 = 0" "kernel_lock s1 = spin_initlock" "\<forall>i<NCPU. cpus s1 i = zero_cpu"
    using m(7) lock by (simp_all add: same_cpus_def clear_bss_def)
  note low = reserved_kept [OF lay m(12)]
  have mp: "\<forall>t. npages t = npages s1 \<longrightarrow> pmem t = pmem s1 \<longrightarrow> mp_init t (imcr hw) (clear_mp (boot_cpus (cpus s1))) = Some g"
    using fw low unfolding firmware_def c1(1) m(6) by metis
  have g: "bootcpu g = 0" "1 < ncpu g \<longrightarrow> lapic g \<noteq> 0" and code: "mpentry_end ki - mpentry_start ki \<le> 4096" and n7: "7 < unat (npages s1)"
    using fw lay kb m(6) by (auto simp: firmware_def boot_layout_def)
  obtain y1 where y1: "init_cpus ki hw s1 y = Some y1" "set_up s1 (ker y1)" "cpunum (ker y1) = 0" "holding 0 (kernel_lock (ker y1))" "mpg y1 = g" "ncpu g \<le> NCPU"
    "\<forall>i. cpus (ker y1) i = (if 0 < i \<and> i < ncpu g then started i (mp_cpus g i) else mp_cpus g i)" "\<forall>i. cpu_env (mp_cpus g i) = cpu_env (cpus s1 i)"
    "\<forall>i. aps y1 i = (if 0 < i \<and> i < ncpu g then Some (ap_regs ki ?k i) else aps y i)"
    using init_cpus_run [OF hw c1(2,4,3) n7 kt code mp g, of y] by (elim exE conjE that)
  have "7 < ?k"
    using kb(1) by simp
  note U = set_up_keeps [OF y1(2) m(2-4) this]
  have e1: "envs (ker y1) = envs s1" "env_free_list (ker y1) = Some 0"
    using y1(2) m(9) by (simp_all add: set_up_def)
  have same: "kern_same (image_pages (kend ki)) ?s (ker y1)"
    using set_up_entry [OF y1(2)] m(12) by (simp add: kern_same_def image_pages_def)
  have mono: "\<forall>f. image_pages (kend ki) f \<noteq> 0 \<longrightarrow> base f \<noteq> 0" and n: "8 * (2 * elf_pages ?s (user_idle ki) + 3) + (2 * elf_pages ?s (user_primes ki) + 3) \<le> length fl"
    using m(8) kb(2) room m(5) le_add_diff_inverse [of ?b "unat np"] kb(3) by (auto simp: image_pages_def)
  have e9: "\<forall>e<9. env_links (ker y1) e = Some (Suc e)" "\<forall>e<NENV. env_status (envs (ker y1) e) = ENV_FREE" "\<forall>c<NCPU. cpu_env (cpus (ker y1) c) = None"
    using m(10,11) y1(7,8) c1(4) by (simp_all add: env_links_def e1(1) started_def zero_cpu_def layout)
  obtain s2 s3 where s3: "init_envs ki (ker y1) = Some s2" "sched_yield s2 = Some (Run, s3)" "booted base ?k ki ?s {} s3" "cpunum s3 = 0"
    "cr3 s3 = page2pa (dir_frame s3 8)" "\<forall>c. c \<noteq> 0 \<longrightarrow> cpus s3 c = cpus (ker y1) c"
    using programs_run [OF U(1,2) e1(2) e9 y1(3,4) same img mono n] by blast
  have run: "i386_init ki hw u1 u2 y = Some (Run, y1\<lparr>ker := s3\<rparr>)"
    using m(1) y1(1) s3(1,2) by (simp add: i386_init_def)
  have "\<exists>s'. for_each (ap_enter ?k) cs s3 = Some s' \<and> booted base ?k ki ?s (set cs) s'" if "distinct cs" "set cs \<subseteq> {1..<ncpu g}" for cs
  proof -
    have "set cs \<subseteq> {1..<NCPU} - {}"
      using that(2) y1(6) by fastforce
    from aps_first_run [OF s3(3) that(1) this] show ?thesis
      by simp
  qed
  then show ?thesis
    using run s3(3-6) y1(5,7,9) by (intro exI [of _ "y1\<lparr>ker := s3\<rparr>"] exI [of _ base]) (simp add: started_def)
qed

subsection \<open>A machine with two processors\<close>

text \<open>Tables of the firmware with two processors in page 0, and one program, which is also the idle program, at the start of the kernel.\<close>

definition demo_fw :: bytemem where
  "demo_fw a = (case map_of [(0x40E, 0x41), (0x410, 0x5F), (0x411, 0x4D), (0x412, 0x50), (0x413, 0x5F), (0x415, 5), (0x41A, 0xA0),
     (0x500, 0x50), (0x501, 0x43), (0x502, 0x4D), (0x503, 0x50), (0x504, 0x54), (0x506, 1), (0x507, 0x97), (0x522, 2), (0x526, 0xE0), (0x527, 0xFE),
     (0x52F, 3), (0x543, 1)] a of Some b \<Rightarrow> b | None \<Rightarrow> 0)"

definition demo_boot :: kstate where
  "demo_boot = write_words 256 0 demo_words (demo\<lparr>pmem := demo_fw, kernel_lock := spin_initlock\<rparr>)"

definition demo_image :: kimage where
  "demo_image = \<lparr>edata = 0xF0112000, kend = 0xF0160000, bootstack = 0xF0108000, kstacks = (\<lambda>i. 0xF0112000 + word_of_nat i * KSTKSIZE),
     vects = (\<lambda>i. 0xF0104000 + word_of_nat i * 8), ts_addr = (\<lambda>i. 0xF0158000 + word_of_nat i * 116), mpentry_start = 0xF0105000, mpentry_end = 0xF0105080,
     user_idle = 0xF0100000, user_primes = 0xF0100000\<rparr>"

definition demo_hw :: hardware where
  "demo_hw = \<lparr>nvram = demo_nv, cga_present = True, cursor_hi = 0, cursor_lo = 0, com_lsr = 0x60, imcr = 0, apic_ident = (\<lambda>a. push_bit 24 (ucast a)), apic_ver = (\<lambda>_. 0x50014), boot_apic = 0\<rparr>"

definition demo_system :: system where
  "demo_system = \<lparr>ker = demo_boot, tabs = demo_tabs, mpg = clear_mp (cpus demo), apicws = [], mpentry_kstack = 0, aps = (\<lambda>_. None)\<rparr>"

definition demo_g :: "(nat \<Rightarrow> Cpu) \<Rightarrow> mpglobals" where
  "demo_g cs = (let g = mp_proc demo_fw 0x540 (mp_proc demo_fw 0x52C ((clear_mp cs)\<lparr>bootcpu := 0, ismp := True, lapic := 0xFEE00000\<rparr>))
     in g\<lparr>mp_cpus := (mp_cpus g)(bootcpu g := (mp_cpus g (bootcpu g))\<lparr>cpu_status := CPU_STARTED\<rparr>)\<rparr>)"

lemma demo_g_sel: "bootcpu (demo_g cs) = 0" "ncpu (demo_g cs) = 2" "lapic (demo_g cs) = 0xFEE00000"
  by (simp_all add: demo_g_def mp_proc_def Let_def clear_mp_def proc_flags_def demo_fw_def MPPROC_BOOT_def layout)

lemma sum_from_cong: "(\<And>i. i < n \<Longrightarrow> m (a + word_of_nat i) = m' (a + word_of_nat i)) \<Longrightarrow> sum_from m a n acc = sum_from m' a n acc"
proof (induction n arbitrary: a acc)
  case (Suc n)
  from Suc.prems [of 0] have "m a = m' a"
    by simp
  moreover have "m (a + 1 + word_of_nat i) = m' (a + 1 + word_of_nat i)" if "i < n" for i
    using Suc.prems [of "Suc i"] that by (simp add: add.assoc)
  ultimately show ?case
    using Suc.IH [of "a + 1"] by simp
qed simp

lemma demo_firmware:
  assumes "npages t = 4096" and low: "\<And>a. unat a < 0x1000 \<Longrightarrow> pmem t a = demo_fw a"
  shows "mp_init t 0 (clear_mp cs) = Some (demo_g cs)"
proof -
  have k: "KADDR t 0x400 = Some 0xF0000400" "KADDR t 0x410 = Some 0xF0000410" "KADDR t 0x810 = Some 0xF0000810" "KADDR t 0x500 = Some 0xF0000500"
    by (simp_all add: KADDR_def assms(1) PGNUM_def layout)
  have sum: "mp_sum (pmem t) a n = mp_sum demo_fw a n" if "unat a + n \<le> 0x1000" for a n
  proof -
    have "pmem t (a + word_of_nat i) = demo_fw (a + word_of_nat i)" if "i < n" for i
      using low [of "a + word_of_nat i"] that \<open>unat a + n \<le> 0x1000\<close> by (simp add: unat_word_ariths unat_of_nat)
    then show ?thesis
      unfolding mp_sum_def by (intro arg_cong [of _ _ word_of_int] sum_from_cong)
  qed
  have sums: "mp_sum demo_fw 0x410 16 = 0" "mp_sum demo_fw 0x500 84 = 0" "mp_sum demo_fw 0x554 0 = 0"
    by code_simp+
  have b: "rd16 (pmem t) 0x40E = 0x41" "mp_physaddr (pmem t) 0x410 = 0x500" "mp_type (pmem t) 0x410 = 0" "conf_version (pmem t) 0x500 = 1"
    "conf_length (pmem t) 0x500 = 84" "conf_xlength (pmem t) 0x500 = 0" "conf_xchecksum (pmem t) 0x500 = 0" "conf_entry (pmem t) 0x500 = 2"
    "conf_lapicaddr (pmem t) 0x500 = 0xFEE00000" "mp_imcrp (pmem t) 0x410 = 0" "pmem t 0x52C = MPPROC" "pmem t 0x540 = MPPROC"
    "proc_flags (pmem t) 0x52C = 3" "proc_flags (pmem t) 0x540 = 1"
    by (simp_all add: low demo_fw_def rd16_def rd32_def mp_physaddr_def mp_type_def conf_version_def conf_length_def conf_xlength_def conf_xchecksum_def
        conf_entry_def conf_lapicaddr_def mp_imcrp_def proc_flags_def MPPROC_def)
  have sg: "signature (pmem t) 0x410 MP_SIG" "signature (pmem t) 0x500 PCMP_SIG"
    by (simp_all add: signature_def MP_SIG_def PCMP_SIG_def low demo_fw_def upt_rec)
  have "mpsearch_from (pmem t) 0xF0000410 0xF0000810 = Some 0xF0000410"
    using sg(1) sum [of "0x410" 16] sums(1) by (subst mpsearch_from.simps) (simp add: layout)
  then have "mpsearch t = Some 0xF0000410"
    using k b(1) by (simp add: mpsearch_def mpsearch1_def layout)
  then have c: "mpconfig t = Some (Some (0xF0000410, 0xF0000500))"
    using k b(2-7) sg(2) sum [of "0x500" 84] sum [of "0x554" 0] sums by (simp add: mpconfig_def layout)
  have pr: "mp_proc (pmem t) 0x52C g = mp_proc demo_fw 0x52C g" "mp_proc (pmem t) 0x540 g = mp_proc demo_fw 0x540 g" for g
    using b(13,14) by (simp_all add: mp_proc_def proc_flags_def demo_fw_def)
  have en: "mp_entries (pmem t) 0x52C 2 g = mp_proc demo_fw 0x540 (mp_proc demo_fw 0x52C g)" for g
    using b(11,12) by (simp add: numeral_2_eq_2 pr)
  have i: "ismp (mp_proc m p g) = ismp g" for m p g
    by (simp add: mp_proc_def Let_def)
  show ?thesis
    by (simp add: mp_init_def c demo_g_def Let_def b(8-10) conf_entries_def layout en i)
qed

lemma demo_boot_sel: "kernel_lock demo_boot = spin_initlock" "npages (i386_detect_memory demo_nv demo_boot) = 4096"
  "unat a < 0x1000 \<Longrightarrow> pmem demo_boot a = demo_fw a"
proof -
  let ?d = "demo\<lparr>pmem := demo_fw, kernel_lock := spin_initlock\<rparr>"
  obtain m where d: "demo_boot = ?d\<lparr>pmem := m\<rparr>"
    unfolding demo_boot_def using write_words_pmem by blast
  show "kernel_lock demo_boot = spin_initlock"
    unfolding d by simp
  show "npages (i386_detect_memory demo_nv demo_boot) = 4096"
    using demo_detect by (simp add: i386_detect_memory_def Let_def)
  assume a: "unat a < 0x1000"
  have "entry demo_boot 0 i = entry ?d 0 i" if "unat i < 1024" for i
    unfolding demo_boot_def by (rule write_words_other) (use that in \<open>simp_all add: demo_words_def\<close>)
  moreover have "PTE_ADDR a = page2pa 0"
    using a page2pa_PGNUM [of a] by (simp add: unat_PGNUM)
  ultimately have "pmem demo_boot a = pmem ?d a"
    by (rule page_byte_same)
  then show "pmem demo_boot a = demo_fw a"
    by simp
qed

lemma demo_layout: "boot_layout demo_image 4096"
proof -
  have "page_aligned (0xF0112000 + word_of_nat i * KSTKSIZE) \<and> KERNBASE \<le> 0xF0112000 + word_of_nat i * KSTKSIZE" if "i < NCPU" for i
  proof -
    have "i \<in> {0, 1, 2, 3, 4, 5, 6, 7}"
      using that by (auto simp: layout)
    then show ?thesis
      by (auto simp: layout page_aligned_unat)
  qed
  then show ?thesis
    by (simp add: boot_layout_def demo_image_def boot_next_def boot_frame_def page_aligned_unat layout)
qed

lemma demo_image_words: "n < 21 \<Longrightarrow> kld (clear_bss demo_image demo_boot) (0xF0100000 + 4 * word_of_nat n) = demo_words ! n"
proof -
  assume n: "n < 21"
  have "pmem (clear_bss demo_image demo_boot) (0x100000 + 4 * word_of_nat n + word_of_nat j) = pmem demo_boot (0x100000 + 4 * word_of_nat n + word_of_nat j)" if "j < 4" for j
    by (rule clear_bss_low [OF demo_layout]) (use n that in \<open>simp add: demo_image_def unat_word_ariths unat_of_nat\<close>)
  from this [of 0] this [of 1] this [of 2] this [of 3]
  have "kld (clear_bss demo_image demo_boot) (0xF0100000 + 4 * word_of_nat n) = kld demo_boot (0xF0100000 + 4 * word_of_nat n)"
    unfolding kld_def by (intro rd32_cong) (simp_all add: layout)
  also have "\<dots> = demo_words ! n"
    using n kld_kpage [of demo_boot 256 "word_of_nat n"] write_words_entry [of 256 0 demo_words n "demo\<lparr>pmem := demo_fw, kernel_lock := spin_initlock\<rparr>"]
    by (simp add: demo_boot_def demo_words_def slot_def kpage_def page2pa_def layout)
  finally show ?thesis .
qed

lemma demo_image_held:
  assumes "0x100000 \<le> unat (a - KERNBASE)" "unat (a - KERNBASE) + n \<le> 0x101000"
  shows "held (image_pages 0xF0160000) a n"
  unfolding held_def
proof (intro allI impI)
  fix j assume "j < n"
  then have u: "unat (a - KERNBASE + word_of_nat j) = unat (a - KERNBASE) + j"
    using assms by (simp add: unat_word_ariths unat_of_nat)
  have "(unat (a - KERNBASE) + j) div 4096 = 256"
    using assms \<open>j < n\<close> by (intro div_nat_eqI) auto
  then show "let p = unat (PGNUM (a - KERNBASE + word_of_nat j)) in p < 65536 \<and> image_pages 0xF0160000 p \<noteq> 0"
    by (simp add: unat_PGNUM u image_pages_def boot_frame_def)
qed

lemma demo_image_ok:
  defines "s \<equiv> clear_bss demo_image demo_boot"
  shows "elf_ok (image_pages 0xF0160000) s 0xF0100000" "elf_pages s 0xF0100000 = 1" "kld s 0xF0100018 = 0x800002"
proof -
  have W: "kld s 0xF0100000 = ELF_MAGIC" "kld s 0xF0100018 = 0x800002" "kld s 0xF010001C = 52" "kld s 0xF010002C = 1"
    "kld s 0xF0100034 = 1" "kld s 0xF0100038 = 80" "kld s 0xF010003C = 0x800000" "kld s 0xF0100044 = 4" "kld s 0xF0100048 = 8"
    unfolding s_def
    using demo_image_words [of 0] demo_image_words [of 6] demo_image_words [of 7] demo_image_words [of 11] demo_image_words [of 13] demo_image_words [of 14]
      demo_image_words [of 15] demo_image_words [of 17] demo_image_words [of 18]
    by (simp_all add: demo_words_def)
  have p: "elf_phs s 0xF0100000 = [0xF0100034]"
    by (simp add: elf_phs_def kld16_def W)
  have sp: "seg_pages s 0xF0100034 = [0x800]"
    by (simp add: seg_pages_def W region_pns_def layout)
  show "elf_pages s 0xF0100000 = 1" "kld s 0xF0100018 = 0x800002"
    by (simp_all add: elf_pages_def p sp W)
  have "seg_ok (image_pages 0xF0160000) s 0xF0100000 0xF0100034"
    using demo_image_held [of "0xF0100034" 32] demo_image_held [of "0xF0100050" 4] by (simp add: seg_ok_def W layout)
  then show "elf_ok (image_pages 0xF0160000) s 0xF0100000"
    using demo_image_held [of "0xF0100000" 52] by (simp add: elf_ok_def p W layout)
qed

theorem i386_init_starts_witness:
  "\<exists>y' base. i386_init demo_image demo_hw None (Some 5) demo_system = Some (Run, y') \<and> kern_inv base 352 (ker y') \<and> curenv (ker y') = Some 8 \<and>
    tf_eip (env_tf (envs (ker y') 8)) = 0x800002 \<and> cpu_status (cpus (ker y') 1) = CPU_STARTED \<and>
    (\<exists>s'. ap_enter 352 1 (ker y') = Some s' \<and> cpu_env (cpus s' 1) = Some 1)"
proof -
  have img: "kend demo_image = 0xF0160000" "user_idle demo_image = 0xF0100000" "user_primes demo_image = 0xF0100000" "ker demo_system = demo_boot"
    "nvram demo_hw = demo_nv" "imcr demo_hw = 0"
    by (simp_all add: demo_image_def demo_system_def demo_hw_def)
  have f: "boot_frame 0xF0160000 = 352" "boot_next 0xF0160000 4096 = 396"
    by (simp_all add: boot_frame_def boot_next_def)
  let ?g = "demo_g (boot_cpus (cpus (clear_bss demo_image demo_boot)))"
  have fw: "firmware demo_hw 4096 (pmem demo_boot) (cpus (clear_bss demo_image demo_boot)) ?g"
    unfolding firmware_def img using demo_firmware demo_g_sel demo_boot_sel(3) by simp
  have ap: "apics_ok demo_hw"
  proof -
    have "drop_bit 24 (push_bit 24 (ucast a :: u32)) = ucast a" for a :: u8
      by (rule bit_word_eqI) (auto simp: bit_simps dest: bit_imp_le_length)
    then show ?thesis
      by (simp add: apics_ok_def demo_hw_def)
  qed
  obtain y' base where y: "i386_init demo_image demo_hw None (Some 5) demo_system = Some (Run, y')" "booted base 352 demo_image (clear_bss demo_image demo_boot) {} (ker y')" "cpunum (ker y') = 0"
    "\<forall>c. 0 < c \<longrightarrow> c < 2 \<longrightarrow> cpu_status (cpus (ker y') c) = CPU_STARTED"
    "\<forall>cs. distinct cs \<longrightarrow> set cs \<subseteq> {1..<2} \<longrightarrow> (\<exists>s'. for_each (ap_enter 352) cs (ker y') = Some s' \<and> booted base 352 demo_image (clear_bss demo_image demo_boot) (set cs) s')"
    using i386_init_starts [of 4096 demo_hw demo_system demo_image ?g None "Some 5"] demo_layout ap fw demo_boot_sel(1,2) demo_image_ok f
    by (auto simp: img demo_g_sel)
  obtain s' where s': "ap_enter 352 1 (ker y') = Some s'" "booted base 352 demo_image (clear_bss demo_image demo_boot) {1} s'"
    using y(5) [rule_format, of "[1]"] by (auto split: bind_splits)
  have "curenv (ker y') = Some 8" "cpu_env (cpus s' 1) = Some 1"
    using y(2,3) s'(2) by (simp_all add: booted_def curenv_def layout)
  moreover have "kern_inv base 352 (ker y')" "tf_eip (env_tf (envs (ker y') 8)) = 0x800002"
    using y(2) demo_image_ok(3) by (simp_all add: booted_def Let_def img)
  ultimately show ?thesis
    using y(1,4) s'(1) by auto
qed

end
