(* ===== verification/Kdebug.thy ===== *)
theory Kdebug
  imports Usermem
begin

section \<open>Debugging information\<close>

text \<open>
  \<^verbatim>\<open>kern/kdebug.c\<close>: the search in the table of stabs and \<^verbatim>\<open>debuginfo_eip\<close>, which finds file, line and function of an
  instruction. The tables are read byte by byte at their virtual addresses, so that an access outside what is mapped is \<open>None\<close>; the
  bounds that the linker defines (\<^verbatim>\<open>__STAB_BEGIN__\<close> and the others) are arguments. Messages on the console are not modelled.
\<close>

subsection \<open>Reading the tables\<close>

type_synonym vmem = "u32 \<Rightarrow> u8 option"

definition ld16 :: "vmem \<Rightarrow> u32 \<Rightarrow> u16 option" where
  "ld16 rd a = do { x \<leftarrow> rd a; y \<leftarrow> rd (a + 1); Some (ucast x OR push_bit 8 (ucast y)) }"

definition ld32 :: "vmem \<Rightarrow> u32 \<Rightarrow> u32 option" where
  "ld32 rd a =
     do {
       x \<leftarrow> rd a; y \<leftarrow> rd (a + 1); z \<leftarrow> rd (a + 2); w \<leftarrow> rd (a + 3);
       Some (ucast x OR push_bit 8 (ucast y) OR push_bit 16 (ucast z) OR push_bit 24 (ucast w))
     }"

text \<open>The fields of entry \<open>i\<close> of the table at \<open>stabs\<close>; an entry has twelve bytes.\<close>

definition stab_addr :: "u32 \<Rightarrow> int \<Rightarrow> u32" where
  "stab_addr stabs i = stabs + 12 * word_of_int i"

definition n_strx :: "vmem \<Rightarrow> u32 \<Rightarrow> int \<Rightarrow> u32 option" where
  "n_strx rd stabs i = ld32 rd (stab_addr stabs i)"

definition n_type :: "vmem \<Rightarrow> u32 \<Rightarrow> int \<Rightarrow> u8 option" where
  "n_type rd stabs i = rd (stab_addr stabs i + 4)"

definition n_desc :: "vmem \<Rightarrow> u32 \<Rightarrow> int \<Rightarrow> u16 option" where
  "n_desc rd stabs i = ld16 rd (stab_addr stabs i + 6)"

definition n_value :: "vmem \<Rightarrow> u32 \<Rightarrow> int \<Rightarrow> u32 option" where
  "n_value rd stabs i = ld32 rd (stab_addr stabs i + 8)"

definition N_FUN :: u8 where "N_FUN = 0x24"
definition N_SLINE :: u8 where "N_SLINE = 0x44"
definition N_SO :: u8 where "N_SO = 0x64"
definition N_SOL :: u8 where "N_SOL = 0x84"
definition N_PSYM :: u8 where "N_PSYM = 0xa0"

lemmas stab_types = N_FUN_def N_SLINE_def N_SO_def N_SOL_def N_PSYM_def

subsection \<open>The search\<close>

text \<open>The division of C by two, which rounds towards zero.\<close>

definition half :: "int \<Rightarrow> int" where
  "half x = (if x < 0 then - (- x div 2) else x div 2)"

lemma half_bounds: "l \<le> r \<Longrightarrow> l \<le> half (l + r)" "l \<le> r \<Longrightarrow> half (l + r) \<le> r"
  by (auto simp: half_def)

function stab_back :: "vmem \<Rightarrow> u32 \<Rightarrow> u8 \<Rightarrow> int \<Rightarrow> int \<Rightarrow> int option" where
  "stab_back rd stabs ty l m =
     (if l \<le> m then do { t \<leftarrow> n_type rd stabs m; (if t \<noteq> ty then stab_back rd stabs ty l (m - 1) else Some m) } else Some m)"
  by auto
termination by (relation "measure (\<lambda>(rd, stabs, ty, l, m). nat (m - l + 1))") auto

declare stab_back.simps [simp del]

lemma stab_back_spec:
  assumes "\<And>i. l \<le> i \<Longrightarrow> i \<le> m \<Longrightarrow> n_type rd stabs i = Some (T i)" "l - 1 \<le> m"
  shows "\<exists>k. stab_back rd stabs ty l m = Some k \<and> l - 1 \<le> k \<and> k \<le> m \<and> (l \<le> k \<longrightarrow> T k = ty) \<and> (\<forall>i. k < i \<longrightarrow> i \<le> m \<longrightarrow> T i \<noteq> ty)"
  using assms
proof (induction rd stabs ty l m rule: stab_back.induct)
  case (1 rd stabs ty l m)
  show ?case
  proof (cases "l \<le> m \<and> T m \<noteq> ty")
    case True
    have "\<exists>k. stab_back rd stabs ty l (m - 1) = Some k \<and> l - 1 \<le> k \<and> k \<le> m - 1 \<and> (l \<le> k \<longrightarrow> T k = ty) \<and>
        (\<forall>i. k < i \<longrightarrow> i \<le> m - 1 \<longrightarrow> T i \<noteq> ty)"
      using "1.prems" True by (intro "1.IH" [of "T m"]) auto
    then obtain k where k: "stab_back rd stabs ty l (m - 1) = Some k" "l - 1 \<le> k" "k \<le> m - 1" "l \<le> k \<longrightarrow> T k = ty"
      "\<forall>i. k < i \<longrightarrow> i \<le> m - 1 \<longrightarrow> T i \<noteq> ty"
      by blast
    moreover have "T i \<noteq> ty" if "k < i" "i \<le> m" for i
      using k(5) that True by (cases "i = m") auto
    ultimately show ?thesis
      using True "1.prems"(1) [of m] by (intro exI [of _ k]) (simp add: stab_back.simps [of rd stabs ty l m])
  next
    case False
    then show ?thesis
      using "1.prems" by (intro exI [of _ m]) (auto simp: stab_back.simps [of rd stabs ty l m])
  qed
qed

lemma stab_back_le: "stab_back rd stabs ty l m = Some k \<Longrightarrow> k \<le> m"
proof (induction rd stabs ty l m rule: stab_back.induct)
  case (1 rd stabs ty l m)
  from "1.prems" show ?case
    by (subst (asm) stab_back.simps) (auto split: if_splits bind_splits dest!: "1.IH")
qed

text \<open>The main loop of \<^verbatim>\<open>stab_binsearch\<close>: \<open>left\<close> and \<open>right\<close> are \<^verbatim>\<open>*region_left\<close> and \<^verbatim>\<open>*region_right\<close>.\<close>

definition hit :: "vmem \<Rightarrow> u32 \<Rightarrow> u8 \<Rightarrow> int \<Rightarrow> int \<Rightarrow> u32 \<Rightarrow> bool" where
  "hit rd stabs ty l r addr = (case stab_back rd stabs ty l (half (l + r)) of Some m \<Rightarrow> n_value rd stabs m = Some addr | None \<Rightarrow> False)"

function stab_loop :: "vmem \<Rightarrow> u32 \<Rightarrow> u8 \<Rightarrow> int \<Rightarrow> int \<Rightarrow> u32 \<Rightarrow> int \<Rightarrow> int \<Rightarrow> bool \<Rightarrow> (int \<times> int \<times> bool) option" where
  "stab_loop rd stabs ty l r addr left right any =
     (if l \<le> r
      then do {
        m \<leftarrow> stab_back rd stabs ty l (half (l + r));
        (if m < l then stab_loop rd stabs ty (half (l + r) + 1) r addr left right any
         else do {
           v \<leftarrow> n_value rd stabs m;
           (if v < addr then stab_loop rd stabs ty (half (l + r) + 1) r addr m right True
            else if addr < v then stab_loop rd stabs ty l (m - 1) addr left (m - 1) True
            else stab_loop rd stabs ty m r (addr + 1) m right True)
         })
      }
      else Some (left, right, any))"
  by auto

termination
proof (relation "measures [\<lambda>(rd, stabs, ty, l, r, addr, left, right, any). nat (r - l + 1),
      \<lambda>(rd, stabs, ty, l, r, addr, left, right, any). of_bool (hit rd stabs ty l r addr)]", goal_cases)
  case (2 rd stabs ty l r addr left right any m)
  then show ?case using half_bounds [of l r] by simp
next
  case (3 rd stabs ty l r addr left right any m v)
  then show ?case using half_bounds [of l r] by simp
next
  case (4 rd stabs ty l r addr left right any m v)
  then show ?case using half_bounds [of l r] stab_back_le [OF 4(2)] by simp
next
  case (5 rd stabs ty l r addr left right any m v)
  then have "m \<le> half (l + r)" "v = addr"
    by (auto dest: stab_back_le)
  with 5 half_bounds [of l r] show ?case
    by (cases "m = l") (auto simp: hit_def)
qed simp

declare stab_loop.simps [simp del]

text \<open>The loop that moves the left end to the last entry of the type.\<close>

function stab_last :: "vmem \<Rightarrow> u32 \<Rightarrow> u8 \<Rightarrow> int \<Rightarrow> int \<Rightarrow> int option" where
  "stab_last rd stabs ty left l =
     (if left < l then do { t \<leftarrow> n_type rd stabs l; (if t \<noteq> ty then stab_last rd stabs ty left (l - 1) else Some l) } else Some l)"
  by auto
termination by (relation "measure (\<lambda>(rd, stabs, ty, left, l). nat (l - left))") auto

declare stab_last.simps [simp del]

definition stab_binsearch :: "vmem \<Rightarrow> u32 \<Rightarrow> int \<Rightarrow> int \<Rightarrow> u8 \<Rightarrow> u32 \<Rightarrow> (int \<times> int) option" where
  "stab_binsearch rd stabs region_left region_right ty addr =
     do {
       (left, right, any) \<leftarrow> stab_loop rd stabs ty region_left region_right addr region_left region_right False;
       (if \<not> any then Some (left, left - 1) else do { l \<leftarrow> stab_last rd stabs ty left right; Some (l, right) })
     }"

subsection \<open>\<^verbatim>\<open>debuginfo_eip\<close>\<close>

text \<open>A string is the literal \<^verbatim>\<open>"<unknown>"\<close>, or a place in the table of strings.\<close>

datatype eip_str = Unknown | At u32

record Eipdebuginfo =
  eip_file :: eip_str
  eip_line :: int
  eip_fn_name :: eip_str
  eip_fn_namelen :: u32
  eip_fn_addr :: u32
  eip_fn_narg :: int

record UserStabData =
  usd_stabs :: u32
  usd_stab_end :: u32
  usd_stabstr :: u32
  usd_stabstr_end :: u32

definition eip_init :: "u32 \<Rightarrow> Eipdebuginfo" where
  "eip_init addr = \<lparr>eip_file = Unknown, eip_line = 0, eip_fn_name = Unknown, eip_fn_namelen = 9, eip_fn_addr = addr, eip_fn_narg = 0\<rparr>"

text \<open>The tables of the kernel, whose bounds \<open>ksd\<close> the linker knows, or those of the program, after the checks; \<open>None\<close> when a
  check fails.\<close>

definition eip_tables :: "UserStabData \<Rightarrow> u32 \<Rightarrow> kstate \<Rightarrow> (UserStabData option \<times> kstate) option" where
  "eip_tables ksd addr s =
     (if ULIM \<le> addr then Some (Some ksd, s)
      else do {
        c \<leftarrow> curenv s;
        (r1, s1) \<leftarrow> user_mem_check s c USTABDATA 16 (PTE_P OR PTE_U);
        (if r1 \<noteq> 0 then Some (None, s1)
         else do {
           stabs \<leftarrow> ld32 (va_read s1) USTABDATA;
           stab_end \<leftarrow> ld32 (va_read s1) (USTABDATA + 4);
           stabstr \<leftarrow> ld32 (va_read s1) (USTABDATA + 8);
           stabstr_end \<leftarrow> ld32 (va_read s1) (USTABDATA + 12);
           (r2, s2) \<leftarrow> user_mem_check s1 c stabstr (stabstr_end - stabstr) (PTE_P OR PTE_U);
           (if r2 \<noteq> 0 then Some (None, s2)
            else do {
              (r3, s3) \<leftarrow> user_mem_check s2 c stabs (stab_end - stabs) (PTE_P OR PTE_U);
              Some (if r3 \<noteq> 0 then None
                    else Some \<lparr>usd_stabs = stabs, usd_stab_end = stab_end, usd_stabstr = stabstr, usd_stabstr_end = stabstr_end\<rparr>, s3)
            })
         })
      })"

partial_function (option) strfind_va :: "vmem \<Rightarrow> u32 \<Rightarrow> u8 \<Rightarrow> u32 option" where
  "strfind_va rd a c = do { b \<leftarrow> rd a; (if b \<noteq> 0 then if b = c then Some a else strfind_va rd (a + 1) c else Some a) }"

definition fn_namelen :: "vmem \<Rightarrow> eip_str \<Rightarrow> u32 option" where
  "fn_namelen rd name = (case name of Unknown \<Rightarrow> Some 9 | At a \<Rightarrow> do { p \<leftarrow> strfind_va rd a 0x3A; Some (p - a) })"

function file_back :: "vmem \<Rightarrow> u32 \<Rightarrow> int \<Rightarrow> int \<Rightarrow> int option" where
  "file_back rd stabs lfile lline =
     (if lfile \<le> lline
      then do {
        t \<leftarrow> n_type rd stabs lline;
        (if t = N_SOL then Some lline
         else if t \<noteq> N_SO then file_back rd stabs lfile (lline - 1)
         else do { v \<leftarrow> n_value rd stabs lline; (if v = 0 then file_back rd stabs lfile (lline - 1) else Some lline) })
      }
      else Some lline)"
  by auto
termination by (relation "measure (\<lambda>(rd, stabs, lfile, lline). nat (lline - lfile + 1))") auto

function count_args :: "vmem \<Rightarrow> u32 \<Rightarrow> int \<Rightarrow> int \<Rightarrow> int \<Rightarrow> int option" where
  "count_args rd stabs rfun lline n =
     (if lline < rfun
      then do { t \<leftarrow> n_type rd stabs lline; (if t = N_PSYM then count_args rd stabs rfun (lline + 1) (n + 1) else Some n) }
      else Some n)"
  by auto
termination by (relation "measure (\<lambda>(rd, stabs, rfun, lline, n). nat (rfun - lline))") auto

declare file_back.simps [simp del] count_args.simps [simp del]

text \<open>A name, if its index is inside the table of strings.\<close>

definition str_at :: "UserStabData \<Rightarrow> u32 \<Rightarrow> eip_str" where
  "str_at sd x = (if x < usd_stabstr_end sd - usd_stabstr sd then At (usd_stabstr sd + x) else Unknown)"

text \<open>The number of entries: a difference of pointers, exact when the table is a whole number of entries long.\<close>

definition stab_count :: "UserStabData \<Rightarrow> int" where
  "stab_count sd = sint (usd_stab_end sd - usd_stabs sd) div 12"

text \<open>The part after the search for the file.\<close>

definition eip_in_file :: "vmem \<Rightarrow> UserStabData \<Rightarrow> u32 \<Rightarrow> int \<Rightarrow> int \<Rightarrow> (int \<times> Eipdebuginfo) option" where
  "eip_in_file rd sd addr lfile rfile =
     do {
       (lfun, rfun) \<leftarrow> stab_binsearch rd (usd_stabs sd) lfile rfile N_FUN addr;
       (name, fn_addr, addr', lline, rline) \<leftarrow>
         (if lfun \<le> rfun
          then do {
            x \<leftarrow> n_strx rd (usd_stabs sd) lfun;
            v \<leftarrow> n_value rd (usd_stabs sd) lfun;
            Some (str_at sd x, v, addr - v, lfun, rfun)
          }
          else Some (Unknown, addr, addr, lfile, rfile));
       namelen \<leftarrow> fn_namelen rd name;
       (lline1, _) \<leftarrow> stab_binsearch rd (usd_stabs sd) lline rline N_SLINE addr';
       d \<leftarrow> n_desc rd (usd_stabs sd) lline1;
       lline2 \<leftarrow> file_back rd (usd_stabs sd) lfile lline1;
       file \<leftarrow> (if lfile \<le> lline2 then do { x \<leftarrow> n_strx rd (usd_stabs sd) lline2; Some (str_at sd x) } else Some Unknown);
       narg \<leftarrow> (if lfun < rfun then count_args rd (usd_stabs sd) rfun (lfun + 1) 0 else Some 0);
       Some (0, \<lparr>eip_file = file, eip_line = int (unat d), eip_fn_name = name, eip_fn_namelen = namelen, eip_fn_addr = fn_addr, eip_fn_narg = narg\<rparr>)
     }"

definition debuginfo_eip :: "UserStabData \<Rightarrow> u32 \<Rightarrow> kstate \<Rightarrow> (int \<times> Eipdebuginfo \<times> kstate) option" where
  "debuginfo_eip ksd addr s =
     do {
       (tabs, s1) \<leftarrow> eip_tables ksd addr s;
       (case tabs of
          None \<Rightarrow> Some (- 1, eip_init addr, s1)
        | Some sd \<Rightarrow>
            if usd_stabstr_end sd \<le> usd_stabstr sd then Some (- 1, eip_init addr, s1)
            else do {
              z \<leftarrow> va_read s1 (usd_stabstr_end sd - 1);
              (if z \<noteq> 0 then Some (- 1, eip_init addr, s1)
               else do {
                 (lfile, rfile) \<leftarrow> stab_binsearch (va_read s1) (usd_stabs sd) 0 (stab_count sd - 1) N_SO addr;
                 (if lfile = 0 then Some (- 1, eip_init addr, s1)
                  else do { (r, info) \<leftarrow> eip_in_file (va_read s1) sd addr lfile rfile; Some (r, info, s1) })
               })
            })
     }"

subsection \<open>What the search finds\<close>

text \<open>\<open>stab_table rd stabs L R T V\<close>: the entries from \<open>L\<close> to \<open>R\<close> can be read, and have types \<open>T\<close> and values \<open>V\<close>.\<close>

definition stab_table :: "vmem \<Rightarrow> u32 \<Rightarrow> int \<Rightarrow> int \<Rightarrow> (int \<Rightarrow> u8) \<Rightarrow> (int \<Rightarrow> u32) \<Rightarrow> bool" where
  "stab_table rd stabs L R T V \<longleftrightarrow> (\<forall>i. L \<le> i \<longrightarrow> i \<le> R \<longrightarrow> n_type rd stabs i = Some (T i) \<and> n_value rd stabs i = Some (V i))"

lemma stab_tableD:
  "stab_table rd stabs L R T V \<Longrightarrow> L \<le> i \<Longrightarrow> i \<le> R \<Longrightarrow> n_type rd stabs i = Some (T i)"
  "stab_table rd stabs L R T V \<Longrightarrow> L \<le> i \<Longrightarrow> i \<le> R \<Longrightarrow> n_value rd stabs i = Some (V i)"
  by (simp_all add: stab_table_def)

lemma stab_table_sub: "stab_table rd stabs L R T V \<Longrightarrow> L \<le> L' \<Longrightarrow> R' \<le> R \<Longrightarrow> stab_table rd stabs L' R' T V"
  by (simp add: stab_table_def)

lemma stab_last_spec:
  assumes "\<And>i. left < i \<Longrightarrow> i \<le> l \<Longrightarrow> n_type rd stabs i = Some (T i)"
  shows "\<exists>k. stab_last rd stabs ty left l = Some k \<and> k \<le> l \<and>
    (if left \<le> l then left \<le> k \<and> (k = left \<or> T k = ty) \<and> (\<forall>i. k < i \<longrightarrow> i \<le> l \<longrightarrow> T i \<noteq> ty) else k = l)"
  using assms
proof (induction rd stabs ty left l rule: stab_last.induct)
  case (1 rd stabs ty left l)
  show ?case
  proof (cases "left < l \<and> T l \<noteq> ty")
    case True
    have "\<exists>k. stab_last rd stabs ty left (l - 1) = Some k \<and> k \<le> l - 1 \<and>
      (if left \<le> l - 1 then left \<le> k \<and> (k = left \<or> T k = ty) \<and> (\<forall>i. k < i \<longrightarrow> i \<le> l - 1 \<longrightarrow> T i \<noteq> ty) else k = l - 1)"
      using "1.prems" True by (intro "1.IH" [of "T l"]) auto
    then obtain k where k: "stab_last rd stabs ty left (l - 1) = Some k" "k \<le> l - 1" "left \<le> k" "k = left \<or> T k = ty"
      "\<forall>i. k < i \<longrightarrow> i \<le> l - 1 \<longrightarrow> T i \<noteq> ty"
      using True by auto
    moreover have "T i \<noteq> ty" if "k < i" "i \<le> l" for i
      using k(5) that True by (cases "i = l") auto
    ultimately show ?thesis
      using True "1.prems" [of l] by (intro exI [of _ k]) (simp add: stab_last.simps [of rd stabs ty left l])
  next
    case False
    then show ?thesis
      using "1.prems" by (intro exI [of _ l]) (auto simp: stab_last.simps [of rd stabs ty left l])
  qed
qed

text \<open>\<open>a\<close> is the address searched for, or the next one after an exact match.\<close>

lemma next_addr:
  fixes v a addr :: u32
  assumes "a = addr \<or> a = addr + 1" "addr \<noteq> 0xFFFFFFFF"
  shows "v < a \<Longrightarrow> v \<le> addr" "a < v \<Longrightarrow> addr < v" "addr < addr + 1"
proof -
  have "unat addr \<noteq> unat (0xFFFFFFFF :: u32)"
    using assms(2) unfolding word_unat_eq_iff [symmetric] by simp
  then have "unat addr \<noteq> 4294967295"
    by simp
  then have "unat addr + 1 < 4294967296"
    using unat_u32_bound [of addr] by linarith
  then have "unat (addr + 1) = unat addr + 1"
    by (simp add: unat_word_ariths)
  then show "v < a \<Longrightarrow> v \<le> addr" "a < v \<Longrightarrow> addr < v" "addr < addr + 1"
    using assms(1) by (auto simp: word_less_nat_alt word_le_nat_alt)
qed

text \<open>An invariant of the loop: \<open>k\<close> is the last entry of the type in the lower half.\<close>

lemma stab_loop_invariant:
  assumes "stab_table rd stabs L R T V"
    and "\<And>l r a left right any. P l r a left right any \<Longrightarrow> L \<le> l \<and> r \<le> R"
    and "\<And>l r a left right any h. P l r a left right any \<Longrightarrow> l \<le> h \<Longrightarrow> h \<le> r \<Longrightarrow> (\<And>i. l \<le> i \<Longrightarrow> i \<le> h \<Longrightarrow> T i \<noteq> ty) \<Longrightarrow>
      P (h + 1) r a left right any"
    and "\<And>l r a left right any h k. P l r a left right any \<Longrightarrow> l \<le> k \<Longrightarrow> k \<le> h \<Longrightarrow> h \<le> r \<Longrightarrow> T k = ty \<Longrightarrow>
      (\<And>i. k < i \<Longrightarrow> i \<le> h \<Longrightarrow> T i \<noteq> ty) \<Longrightarrow> V k < a \<Longrightarrow> P (h + 1) r a k right True"
    and "\<And>l r a left right any k. P l r a left right any \<Longrightarrow> l \<le> k \<Longrightarrow> k \<le> r \<Longrightarrow> T k = ty \<Longrightarrow> a < V k \<Longrightarrow>
      P l (k - 1) a left (k - 1) True"
    and "\<And>l r a left right any k. P l r a left right any \<Longrightarrow> l \<le> k \<Longrightarrow> k \<le> r \<Longrightarrow> T k = ty \<Longrightarrow> V k = a \<Longrightarrow>
      P k r (a + 1) k right True"
    and "P l r a left right any"
  shows "\<exists>l' r' a' left' right' any'. stab_loop rd stabs ty l r a left right any = Some (left', right', any') \<and> r' < l' \<and>
    P l' r' a' left' right' any'"
  using assms
proof (induction rd stabs ty l r a left right any rule: stab_loop.induct)
  case (1 rd stabs ty l r a left right any)
  note tab = "1.prems"(1) and b = "1.prems"(2) and steps = "1.prems"(3-6) and P = "1.prems"(7)
  note run = stab_loop.simps [of rd stabs ty l r a left right any]
  show ?case
  proof (cases "l \<le> r")
    case False
    then have "stab_loop rd stabs ty l r a left right any = Some (left, right, any)" "r < l"
      by (simp_all add: run)
    with P show ?thesis by blast
  next
    case True
    note h = half_bounds [OF True]
    let ?h = "half (l + r)"
    obtain k where k: "stab_back rd stabs ty l ?h = Some k" "l - 1 \<le> k" "k \<le> ?h" "l \<le> k \<Longrightarrow> T k = ty"
      "\<And>i. k < i \<Longrightarrow> i \<le> ?h \<Longrightarrow> T i \<noteq> ty"
      using stab_back_spec [of l ?h rd stabs T ty] stab_tableD(1) [OF tab] b [OF P] h by force
    show ?thesis
    proof (cases "k < l")
      case no: True
      have eq: "stab_loop rd stabs ty l r a left right any = stab_loop rd stabs ty (?h + 1) r a left right any"
        by (subst run) (simp add: True k(1) no)
      have none: "T i \<noteq> ty" if "l \<le> i" "i \<le> ?h" for i
        using k(5) [of i] no that by simp
      show ?thesis
        unfolding eq by (rule "1.IH"(1) [OF True k(1) no tab b steps steps(1) [OF P h none]])
    next
      case yes: False
      have kl: "l \<le> k" "k \<le> r" and ty: "T k = ty"
        using yes k(3,4) h by auto
      have v: "n_value rd stabs k = Some (V k)"
        using stab_tableD(2) [OF tab] b [OF P] kl by simp
      consider "V k < a" | "a < V k" | "V k = a"
        by force
      then show ?thesis
      proof cases
        case lt: 1
        have eq: "stab_loop rd stabs ty l r a left right any = stab_loop rd stabs ty (?h + 1) r a k right True"
          by (subst run) (simp add: True k(1) yes v lt)
        show ?thesis
          unfolding eq by (rule "1.IH"(2) [OF True k(1) yes v lt tab b steps steps(2) [OF P kl(1) k(3) h(2) ty k(5) lt]])
      next
        case gt: 2
        then have n: "\<not> V k < a"
          by (simp add: not_less)
        have eq: "stab_loop rd stabs ty l r a left right any = stab_loop rd stabs ty l (k - 1) a left (k - 1) True"
          by (subst run) (simp add: True k(1) yes v n gt)
        show ?thesis
          unfolding eq by (rule "1.IH"(3) [OF True k(1) yes v n gt tab b steps steps(3) [OF P kl ty gt]])
      next
        case eqv: 3
        then have n: "\<not> V k < a" "\<not> a < V k"
          by simp_all
        have eq: "stab_loop rd stabs ty l r a left right any = stab_loop rd stabs ty k r (a + 1) k right True"
          by (subst run) (simp add: True k(1) yes v n)
        show ?thesis
          unfolding eq by (rule "1.IH"(4) [OF True k(1) yes v n tab b steps steps(4) [OF P kl ty eqv]])
      qed
    qed
  qed
qed

lemma stab_loop_find:
  assumes tab: "stab_table rd stabs L R T V" and m: "L \<le> m" "m \<le> R" "T m = ty"
    and low: "\<And>i. L \<le> i \<Longrightarrow> i \<le> m \<Longrightarrow> T i = ty \<Longrightarrow> V i \<le> addr"
    and high: "\<And>i. m < i \<Longrightarrow> i \<le> R \<Longrightarrow> T i = ty \<Longrightarrow> addr < V i \<and> V i \<noteq> addr + 1" and top: "addr \<noteq> 0xFFFFFFFF"
  shows "\<exists>left' right'. stab_loop rd stabs ty L R addr L R False = Some (left', right', True) \<and> L \<le> left' \<and> left' \<le> m \<and>
    m \<le> right' \<and> right' \<le> R \<and> (right' = R \<or> T (right' + 1) = ty) \<and> (\<forall>i. m < i \<longrightarrow> i \<le> right' \<longrightarrow> T i \<noteq> ty)"
proof -
  define P where "P l r a left right any \<longleftrightarrow> r = right \<and> L \<le> l \<and> right \<le> R \<and> m \<le> right \<and> (right = R \<or> T (right + 1) = ty) \<and>
    L \<le> left \<and> left \<le> m \<and> (any \<or> l \<le> m) \<and> (a = addr \<or> a = addr + 1) \<and> (\<forall>i. L \<le> i \<longrightarrow> i < l \<longrightarrow> T i = ty \<longrightarrow> i \<le> m)"
    for l r a left right any
  have below: "V k < a \<Longrightarrow> k \<le> m" "a < V k \<Longrightarrow> m < k" "V k = a \<Longrightarrow> k \<le> m \<and> a = addr"
    if "a = addr \<or> a = addr + 1" "L \<le> k" "k \<le> R" "T k = ty" for a k
    using next_addr(1,2) [OF that(1) top, of "V k"] next_addr(3) [OF that(1) top] low [OF that(2) _ that(4)] high [OF _ that(3,4)] that(1)
    by (cases "k \<le> m"; auto simp: not_le [symmetric])+
  have "\<exists>l' r' a' left' right' any'. stab_loop rd stabs ty L R addr L R False = Some (left', right', any') \<and> r' < l' \<and> P l' r' a' left' right' any'"
  proof (rule stab_loop_invariant [OF tab])
    show "P L R addr L R False"
      using m by (simp add: P_def)
    fix l r a left right any assume P: "P l r a left right any"
    show "L \<le> l \<and> r \<le> R"
      using P by (simp add: P_def)
    show "P (h + 1) r a left right any" if "l \<le> h" "h \<le> r" and none: "\<And>i. l \<le> i \<Longrightarrow> i \<le> h \<Longrightarrow> T i \<noteq> ty" for h
    proof -
      have "i \<le> m" if "L \<le> i" "i < h + 1" "T i = ty" for i
        using P none [of i] that by (cases "i < l") (auto simp: P_def)
      then show ?thesis
        using P that(1) none [of m] m(3) by (auto simp: P_def)
    qed
    show "P (h + 1) r a k right True"
      if "l \<le> k" "k \<le> h" "h \<le> r" "T k = ty" and none: "\<And>i. k < i \<Longrightarrow> i \<le> h \<Longrightarrow> T i \<noteq> ty" and lt: "V k < a" for h k
    proof -
      have km: "k \<le> m"
        using below(1) [OF _ _ _ that(4) lt] P that by (auto simp: P_def)
      have "i \<le> m" if "L \<le> i" "i < h + 1" "T i = ty" for i
        using none [of i] km that by (cases "i \<le> k") auto
      then show ?thesis
        using P km that by (auto simp: P_def)
    qed
    show "P l (k - 1) a left (k - 1) True" if "l \<le> k" "k \<le> r" "T k = ty" "a < V k" for k
      using below(2) [OF _ _ _ that(3,4)] P that by (auto simp: P_def)
    show "P k r (a + 1) k right True" if "l \<le> k" "k \<le> r" "T k = ty" "V k = a" for k
      using below(3) [OF _ _ _ that(3,4)] P that by (auto simp: P_def)
  qed
  then obtain l' r' a' left' right' any' where
    run: "stab_loop rd stabs ty L R addr L R False = Some (left', right', any')" and lt: "r' < l'" and P: "P l' r' a' left' right' any'"
    by blast
  have "any'"
    using lt P by (auto simp: P_def)
  moreover have "T i \<noteq> ty" if "m < i" "i \<le> right'" for i
  proof
    assume ty: "T i = ty"
    have sweep: "\<forall>i. L \<le> i \<longrightarrow> i < l' \<longrightarrow> T i = ty \<longrightarrow> i \<le> m" and rr: "r' = right'"
      using P by (simp_all add: P_def)
    from spec [OF sweep, of i] ty rr show False
      using lt m(1) that by simp
  qed
  ultimately show ?thesis
    using run P by (auto simp: P_def)
qed

text \<open>C31. \<^verbatim>\<open>stab_binsearch\<close> on a region whose entries of the type are in increasing order of address finds the one that contains the
  address, provided no later one starts at the very next byte: the left end becomes the last entry of the type that starts at or before the
  address, and the right end is just before the next entry of the type, or the end of the region.\<close>

theorem stab_binsearch_correct:
  assumes "stab_table rd stabs L R T V" "L \<le> m" "m \<le> R" "T m = ty" "addr \<noteq> 0xFFFFFFFF"
    "\<And>i. L \<le> i \<Longrightarrow> i \<le> m \<Longrightarrow> T i = ty \<Longrightarrow> V i \<le> addr"
    "\<And>i. m < i \<Longrightarrow> i \<le> R \<Longrightarrow> T i = ty \<Longrightarrow> addr < V i \<and> V i \<noteq> addr + 1"
  shows "\<exists>right. stab_binsearch rd stabs L R ty addr = Some (m, right) \<and> m \<le> right \<and> right \<le> R \<and>
    (right = R \<or> T (right + 1) = ty) \<and> (\<forall>i. m < i \<longrightarrow> i \<le> right \<longrightarrow> T i \<noteq> ty)"
proof -
  have "\<exists>left' right'. stab_loop rd stabs ty L R addr L R False = Some (left', right', True) \<and> L \<le> left' \<and> left' \<le> m \<and>
    m \<le> right' \<and> right' \<le> R \<and> (right' = R \<or> T (right' + 1) = ty) \<and> (\<forall>i. m < i \<longrightarrow> i \<le> right' \<longrightarrow> T i \<noteq> ty)"
    by (rule stab_loop_find [OF assms(1-4) assms(6,7,5)])
  then obtain left right where lr: "stab_loop rd stabs ty L R addr L R False = Some (left, right, True)" "L \<le> left" "left \<le> m"
    "m \<le> right" "right \<le> R" "right = R \<or> T (right + 1) = ty" "\<forall>i. m < i \<longrightarrow> i \<le> right \<longrightarrow> T i \<noteq> ty"
    by blast
  have "n_type rd stabs i = Some (T i)" if "left < i" "i \<le> right" for i
    using stab_tableD(1) [OF assms(1)] that lr(2,5) by simp
  from stab_last_spec [of left right rd stabs T ty, OF this] obtain k where
    k: "stab_last rd stabs ty left right = Some k" "left \<le> k" "k \<le> right" "k = left \<or> T k = ty" "\<forall>i. k < i \<longrightarrow> i \<le> right \<longrightarrow> T i \<noteq> ty"
    using lr(3,4) by auto
  have "k = m"
    using k(3-5) lr(3,4,7) assms(4) by (metis linorder_cases order.strict_trans1 order.order_iff_strict)
  with lr k(1) show ?thesis
    by (simp add: stab_binsearch_def)
qed

text \<open>The same search when the next entry does start at the next byte: the address is taken to be in that one, because the
  search goes on with the address increased by one after an exact match.\<close>

theorem stab_binsearch_next_byte:
  assumes "stab_table rd stabs L (L + 1) T V" "T L = ty" "T (L + 1) = ty" "V L = addr" "V (L + 1) = addr + 1" "addr < 0xFFFFFFFE" "0 \<le> L"
  shows "stab_binsearch rd stabs L (L + 1) ty addr = Some (L + 1, L + 1)"
proof -
  define w where "w = addr + 1"
  have ne: "addr < w" "w < w + 1" "\<not> w < addr"
    using assms(6) by (auto simp: w_def word_less_nat_alt unat_word_ariths)
  have h: "half (L + L) = L" "half (L + (L + 1)) = L" "half (L + 1 + (L + 1)) = L + 1"
    using assms(7) by (auto simp: half_def)
  note D = stab_tableD [OF assms(1)]
  have b: "stab_back rd stabs ty L L = Some L" "stab_back rd stabs ty (L + 1) (L + 1) = Some (L + 1)"
    using D(1) assms(2,3) by (simp_all add: stab_back.simps)
  have v: "n_value rd stabs L = Some addr" "n_value rd stabs (L + 1) = Some w"
    using D(2) assms(4,5) by (simp_all add: w_def)
  have "stab_loop rd stabs ty L (L + 1) addr L (L + 1) False = stab_loop rd stabs ty L (L + 1) w L (L + 1) True"
    by (subst stab_loop.simps, unfold h) (simp add: b v w_def)
  also have "\<dots> = stab_loop rd stabs ty (L + 1) (L + 1) w L (L + 1) True"
    by (subst stab_loop.simps, unfold h) (simp add: b v ne)
  also have "\<dots> = stab_loop rd stabs ty (L + 1) (L + 1) (w + 1) (L + 1) (L + 1) True"
    by (subst stab_loop.simps, unfold h) (simp add: b v)
  also have "\<dots> = stab_loop rd stabs ty (L + 1 + 1) (L + 1) (w + 1) (L + 1) (L + 1) True"
    by (subst stab_loop.simps, unfold h) (simp only: b v ne simp_thms if_True if_False Option.bind_lunit order_refl less_irrefl)
  also have "\<dots> = Some (L + 1, L + 1, True)"
    by (subst stab_loop.simps) simp
  finally show ?thesis
    by (simp add: stab_binsearch_def stab_last.simps)
qed

text \<open>An address before every entry of the type, when the region starts with one: both ends of the region become the entry before
  it.\<close>

theorem stab_binsearch_before_first:
  assumes tab: "stab_table rd stabs L R T V" and L: "L \<le> R" "T L = ty"
    and above: "\<And>i. L \<le> i \<Longrightarrow> i \<le> R \<Longrightarrow> T i = ty \<Longrightarrow> addr < V i"
  shows "stab_binsearch rd stabs L R ty addr = Some (L - 1, L - 1)"
proof -
  define P where "P l r a left right any \<longleftrightarrow> r = right \<and> l = L \<and> L - 1 \<le> right \<and> right \<le> R \<and> a = addr \<and> left = L \<and> (any \<or> right = R)"
    for l r a left right any
  have "\<exists>l' r' a' left' right' any'. stab_loop rd stabs ty L R addr L R False = Some (left', right', any') \<and> r' < l' \<and> P l' r' a' left' right' any'"
  proof (rule stab_loop_invariant [OF tab])
    show "P L R addr L R False"
      using L by (simp add: P_def)
    fix l r a left right any assume P: "P l r a left right any"
    show "L \<le> l \<and> r \<le> R"
      using P by (simp add: P_def)
    show "P (h + 1) r a left right any" if "l \<le> h" "h \<le> r" and none: "\<And>i. l \<le> i \<Longrightarrow> i \<le> h \<Longrightarrow> T i \<noteq> ty" for h
      using P none [of L] L(2) that(1) by (auto simp: P_def)
    show "P (h + 1) r a k right True" if "l \<le> k" "k \<le> h" "h \<le> r" "T k = ty" "V k < a" for h k
      using above [of k] P that by (auto simp: P_def)
    show "P l (k - 1) a left (k - 1) True" if "l \<le> k" "k \<le> r" for k
      using P that by (auto simp: P_def)
    show "P k r (a + 1) k right True" if "l \<le> k" "k \<le> r" "T k = ty" "V k = a" for k
      using above [of k] P that by (auto simp: P_def)
  qed
  then have "stab_loop rd stabs ty L R addr L R False = Some (L, L - 1, True)"
    using L(1) by (auto simp: P_def)
  then show ?thesis
    by (simp add: stab_binsearch_def stab_last.simps)
qed

text \<open>In general the result is in the region, of the type or its left end, unless the region starts with the type.\<close>

lemma stab_binsearch_bounds:
  assumes tab: "stab_table rd stabs L R T V" and top: "\<And>i. L \<le> i \<Longrightarrow> i \<le> R \<Longrightarrow> V i \<noteq> 0xFFFFFFFF" and L: "L - 1 \<le> R"
  shows "\<exists>l r. stab_binsearch rd stabs L R ty addr = Some (l, r) \<and> L - 1 \<le> l \<and> l \<le> r + 1 \<and> r \<le> R \<and>
    (l = L - 1 \<longrightarrow> L \<le> R \<and> T L = ty) \<and> (L < l \<longrightarrow> l \<le> r \<and> T l = ty)"
proof -
  define P where "P l r a left right any \<longleftrightarrow> r = right \<and> L \<le> l \<and> right \<le> R \<and> L \<le> left \<and> left \<le> l \<and>
      (left = L \<or> T left = ty \<and> V left < a) \<and> (if any then left \<le> right \<or> left = L \<and> right = L - 1 \<and> L \<le> R \<and> T L = ty else left = L \<and> right = R)"
    for l r a left right any
  have "\<exists>l' r' a' left' right' any'. stab_loop rd stabs ty L R addr L R False = Some (left', right', any') \<and> r' < l' \<and> P l' r' a' left' right' any'"
  proof (rule stab_loop_invariant [OF tab])
    show "P L R addr L R False"
      using L by (simp add: P_def)
    fix l r a left right any assume P: "P l r a left right any"
    show "L \<le> l \<and> r \<le> R"
      using P by (simp add: P_def)
    show "P (h + 1) r a left right any" if "l \<le> h" for h
      using P that by (auto simp: P_def)
    show "P (h + 1) r a k right True" if "l \<le> k" "k \<le> h" "h \<le> r" "T k = ty" "V k < a" for h k
      using P that by (auto simp: P_def)
    show "P l (k - 1) a left (k - 1) True" if k: "l \<le> k" "k \<le> r" "T k = ty" "a < V k" for k
    proof -
      have "left = L" if "k = left"
        using P k(4) that by (auto simp: P_def)
      then show ?thesis
        using P k by (cases "k = left") (auto simp: P_def)
    qed
    show "P k r (a + 1) k right True" if "l \<le> k" "k \<le> r" "T k = ty" "V k = a" for k
    proof -
      have "a \<noteq> 0xFFFFFFFF"
        using top [of k] that P by (auto simp: P_def)
      from next_addr(3) [OF disjI1 [OF refl] this] show ?thesis
        using P that by (auto simp: P_def)
    qed
  qed
  then obtain l' r' a' left right any where
    run: "stab_loop rd stabs ty L R addr L R False = Some (left, right, any)" and P: "P l' r' a' left right any"
    by blast
  show ?thesis
  proof (cases any)
    case False
    with run P L show ?thesis
      by (simp add: stab_binsearch_def P_def)
  next
    case True
    have "n_type rd stabs i = Some (T i)" if "left < i" "i \<le> right" for i
      using stab_tableD(1) [OF tab] that P by (simp add: P_def)
    from stab_last_spec [of left right rd stabs T ty, OF this] obtain k where
      k: "stab_last rd stabs ty left right = Some k" "k \<le> right" "if left \<le> right then left \<le> k \<and> (k = left \<or> T k = ty) else k = right"
      by (metis (full_types))
    then show ?thesis
      using run P True by (auto simp: stab_binsearch_def P_def split: if_splits)
  qed
qed

subsection \<open>Every access is inside the tables\<close>

lemma strfind_va_total:
  assumes "\<And>x. a \<le> x \<Longrightarrow> x < e \<Longrightarrow> rd x \<noteq> None" "rd (e - 1) = Some 0" "a < e"
  shows "\<exists>p. strfind_va rd a c = Some p \<and> a \<le> p \<and> p < e"
  using assms
proof (induction "unat e - unat a" arbitrary: a)
  case 0
  then show ?case by (simp add: word_less_nat_alt)
next
  case (Suc n)
  obtain b where b: "rd a = Some b"
    using Suc.prems(1) [of a] Suc.prems(3) by auto
  show ?case
  proof (cases "b = 0 \<or> b = c")
    case True
    then show ?thesis
      using b Suc.prems(3) by (subst strfind_va.simps) auto
  next
    case False
    have u: "unat (a + 1) = unat a + 1"
    proof -
      have "unat a + 1 < 4294967296"
        using Suc.prems(3) unat_u32_bound [of e] unfolding word_less_nat_alt by linarith
      then show ?thesis
        using unat_add_no_wrap [of a 1] by simp
    qed
    have ne: "a + 1 \<noteq> e"
      using Suc.prems(2) b False by auto
    then have lt: "a + 1 < e"
      using Suc.prems(3) u by (simp add: word_less_nat_alt word_unat_eq_iff)
    have "\<exists>p. strfind_va rd (a + 1) c = Some p \<and> a + 1 \<le> p \<and> p < e"
    proof (rule Suc.hyps(1) [OF _ _ Suc.prems(2) lt])
      show "n = unat e - unat (a + 1)"
        using Suc.hyps(2) u by simp
      show "rd x \<noteq> None" if "a + 1 \<le> x" "x < e" for x
        using Suc.prems(1) [of x] that u by (simp add: word_le_nat_alt)
    qed
    moreover have "strfind_va rd a c = strfind_va rd (a + 1) c"
      using b False by (subst strfind_va.simps) simp
    ultimately show ?thesis
      using u by (auto simp: word_le_nat_alt)
  qed
qed

text \<open>\<open>stab_data rd sd\<close>: the entries and the strings can be read, and no entry has the highest address as its value.\<close>

definition stab_data :: "vmem \<Rightarrow> UserStabData \<Rightarrow> bool" where
  "stab_data rd sd \<longleftrightarrow> (\<forall>i. 0 \<le> i \<longrightarrow> i < stab_count sd \<longrightarrow> n_type rd (usd_stabs sd) i \<noteq> None \<and> n_value rd (usd_stabs sd) i \<noteq> None \<and>
       n_strx rd (usd_stabs sd) i \<noteq> None \<and> n_desc rd (usd_stabs sd) i \<noteq> None \<and> n_value rd (usd_stabs sd) i \<noteq> Some 0xFFFFFFFF) \<and>
     (\<forall>a. usd_stabstr sd \<le> a \<longrightarrow> a < usd_stabstr_end sd \<longrightarrow> rd a \<noteq> None)"

definition in_strings :: "UserStabData \<Rightarrow> eip_str \<Rightarrow> bool" where
  "in_strings sd x \<longleftrightarrow> (case x of Unknown \<Rightarrow> True | At a \<Rightarrow> usd_stabstr sd \<le> a \<and> a < usd_stabstr_end sd)"

lemma str_at_in:
  assumes "usd_stabstr sd < usd_stabstr_end sd"
  shows "in_strings sd (str_at sd x)"
proof -
  let ?b = "usd_stabstr sd" and ?e = "usd_stabstr_end sd"
  have d: "unat (?e - ?b) = unat ?e - unat ?b" "unat ?b < unat ?e"
    using assms by (simp_all add: unat_sub word_le_nat_alt word_less_nat_alt)
  have "unat (?b + x) = unat ?b + unat x" if "unat x < unat ?e - unat ?b"
  proof -
    have "unat ?b + unat x < 4294967296"
      using that d(2) unat_u32_bound [of ?e] by linarith
    then show ?thesis
      by (intro unat_add_no_wrap) simp
  qed
  then show ?thesis
    using d by (auto simp: str_at_def in_strings_def word_le_nat_alt word_less_nat_alt)
qed

lemma file_back_total:
  assumes "\<And>i. lfile \<le> i \<Longrightarrow> i \<le> l \<Longrightarrow> n_type rd stabs i \<noteq> None \<and> n_value rd stabs i \<noteq> None"
  shows "\<exists>k. file_back rd stabs lfile l = Some k \<and> k \<le> l"
  using assms
proof (induction rd stabs lfile l rule: file_back.induct)
  case (1 rd stabs lfile lline)
  show ?case
  proof (cases "lfile \<le> lline")
    case True
    then obtain t v where "n_type rd stabs lline = Some t" "n_value rd stabs lline = Some v"
      using "1.prems" by fastforce
    with True "1.IH" [OF True] "1.prems" show ?thesis
      by (subst file_back.simps) (auto; force)
  qed (simp add: file_back.simps)
qed

lemma count_args_total:
  assumes "\<And>i. l \<le> i \<Longrightarrow> i < r \<Longrightarrow> n_type rd stabs i \<noteq> None"
  shows "\<exists>n'. count_args rd stabs r l n = Some n'"
  using assms
proof (induction rd stabs r l n rule: count_args.induct)
  case (1 rd stabs rfun lline n)
  show ?case
  proof (cases "lline < rfun")
    case True
    then obtain t where t: "n_type rd stabs lline = Some t"
      using "1.prems" by fastforce
    with True "1.IH" [OF True t] "1.prems" show ?thesis
      by (cases "t = N_PSYM") (auto simp: count_args.simps [of rd stabs rfun lline n])
  qed (simp add: count_args.simps)
qed

lemma stab_data_table:
  assumes "stab_data rd sd"
  obtains T V where "stab_table rd (usd_stabs sd) 0 (stab_count sd - 1) T V" "\<forall>i. 0 \<le> i \<longrightarrow> i < stab_count sd \<longrightarrow> V i \<noteq> 0xFFFFFFFF"
proof
  let ?T = "\<lambda>i. the (n_type rd (usd_stabs sd) i)" and ?V = "\<lambda>i. the (n_value rd (usd_stabs sd) i)"
  show "stab_table rd (usd_stabs sd) 0 (stab_count sd - 1) ?T ?V"
    using assms by (auto simp: stab_data_def stab_table_def)
  show "\<forall>i. 0 \<le> i \<longrightarrow> i < stab_count sd \<longrightarrow> ?V i \<noteq> 0xFFFFFFFF"
    using assms by (auto simp: stab_data_def)
qed

lemma eip_in_file_total:
  assumes sd: "stab_data rd sd" and str: "usd_stabstr sd < usd_stabstr_end sd" "rd (usd_stabstr_end sd - 1) = Some 0"
    and f: "1 \<le> lfile" "lfile \<le> rfile" "rfile < stab_count sd" "n_type rd (usd_stabs sd) lfile = Some N_SO"
  shows "\<exists>info. eip_in_file rd sd addr lfile rfile = Some (0, info) \<and> in_strings sd (eip_file info) \<and> in_strings sd (eip_fn_name info)"
proof -
  let ?st = "usd_stabs sd"
  obtain T V where tab: "stab_table rd ?st 0 (stab_count sd - 1) T V" and top: "\<forall>i. 0 \<le> i \<longrightarrow> i < stab_count sd \<longrightarrow> V i \<noteq> 0xFFFFFFFF"
    by (rule stab_data_table [OF sd])
  have rd: "n_type rd ?st i \<noteq> None" "n_value rd ?st i \<noteq> None" "n_strx rd ?st i \<noteq> None" "n_desc rd ?st i \<noteq> None" if "0 \<le> i" "i < stab_count sd" for i
    using sd that by (auto simp: stab_data_def)
  have so: "T lfile = N_SO"
    using stab_tableD(1) [OF tab, of lfile] f by simp
  have search: "\<exists>l r. stab_binsearch rd ?st L R ty a = Some (l, r) \<and> L - 1 \<le> l \<and> l \<le> r + 1 \<and> r \<le> R \<and>
      (l = L - 1 \<longrightarrow> L \<le> R \<and> T L = ty) \<and> (L < l \<longrightarrow> l \<le> r \<and> T l = ty)" if "1 \<le> L" "L \<le> R" "R < stab_count sd" for L R ty a
    using stab_binsearch_bounds [OF stab_table_sub [OF tab, of L R], of ty a] top that by auto
  obtain lfun rfun where fn: "stab_binsearch rd ?st lfile rfile N_FUN addr = Some (lfun, rfun)" "lfile \<le> lfun" "rfun \<le> rfile"
    using search [OF f(1-3), of N_FUN addr] so by (force simp: stab_types)
  define name where "name = (if lfun \<le> rfun then str_at sd (the (n_strx rd ?st lfun)) else Unknown)"
  define fa where "fa = (if lfun \<le> rfun then the (n_value rd ?st lfun) else addr)"
  define a' where "a' = (if lfun \<le> rfun then addr - fa else addr)"
  define L R where "L = (if lfun \<le> rfun then lfun else lfile)" and "R = (if lfun \<le> rfun then rfun else rfile)"
  have LR: "1 \<le> L" "L \<le> R" "R < stab_count sd"
    using fn f by (auto simp: L_def R_def)
  have pick: "(if lfun \<le> rfun then do { x \<leftarrow> n_strx rd ?st lfun; v \<leftarrow> n_value rd ?st lfun; Some (str_at sd x, v, addr - v, lfun, rfun) }
      else Some (Unknown, addr, addr, lfile, rfile)) = Some (name, fa, a', L, R)"
    using rd(2,3) [of lfun] fn(2,3) f by (auto simp: name_def fa_def a'_def L_def R_def)
  have nm: "in_strings sd name"
    using str_at_in [OF str(1)] by (simp add: name_def in_strings_def)
  obtain len where len: "fn_namelen rd name = Some len"
  proof (cases name)
    case (At a)
    then have "usd_stabstr sd \<le> a" "a < usd_stabstr_end sd"
      using nm by (simp_all add: in_strings_def)
    then obtain p where "strfind_va rd a 0x3A = Some p"
      using strfind_va_total [of a "usd_stabstr_end sd" rd "0x3A"] sd str(2) by (fastforce simp: stab_data_def)
    with that At show ?thesis by (simp add: fn_namelen_def)
  qed (use that in \<open>simp add: fn_namelen_def\<close>)
  obtain l1 r1 where ln: "stab_binsearch rd ?st L R N_SLINE a' = Some (l1, r1)" "0 \<le> l1" "l1 < stab_count sd"
  proof -
    obtain l r where "stab_binsearch rd ?st L R N_SLINE a' = Some (l, r)" "L - 1 \<le> l" "r \<le> R" "L < l \<longrightarrow> l \<le> r"
      using search [OF LR, of N_SLINE a'] by blast
    with that LR show thesis
      by (cases "L < l") auto
  qed
  obtain d where d: "n_desc rd ?st l1 = Some d"
    using rd(4) [OF ln(2,3)] by auto
  obtain l2 where l2: "file_back rd ?st lfile l1 = Some l2" "l2 \<le> l1"
    using file_back_total [of lfile l1 rd ?st] rd(1,2) f(1) ln(3) by force
  obtain fname where fname: "(if lfile \<le> l2 then do { x \<leftarrow> n_strx rd ?st l2; Some (str_at sd x) } else Some Unknown) = Some fname" "in_strings sd fname"
  proof (cases "lfile \<le> l2")
    case True
    then obtain x where "n_strx rd ?st l2 = Some x"
      using rd(3) [of l2] f(1) l2(2) ln(3) by auto
    with that True str_at_in [OF str(1)] show ?thesis by simp
  qed (use that in \<open>simp add: in_strings_def\<close>)
  obtain n where "(if lfun < rfun then count_args rd ?st rfun (lfun + 1) 0 else Some 0) = Some n"
    using count_args_total [of "lfun + 1" rfun rd ?st 0] rd(1) f fn(2,3) by force
  then show ?thesis
    using fn(1) pick len ln(1) d l2(1) fname nm by (simp add: eip_in_file_def)
qed

text \<open>C32. \<^verbatim>\<open>debuginfo_eip\<close> of a kernel address always ends, with 0 or -1, and never reads an entry outside the table of stabs or a
  character outside the table of strings; the strings it returns are in the table. The tables are readable (\<open>stab_data\<close>) and their
  entries arbitrary, out of order or with any string offset, but for two values the linker does not produce: no entry has the
  address \<^verbatim>\<open>0xFFFFFFFF\<close>, and entry 0 is not of type \<^verbatim>\<open>N_SO\<close>.\<close>

theorem debuginfo_eip_safe:
  assumes "ULIM \<le> addr" "stab_data (va_read s) ksd" "0 \<le> stab_count ksd" "n_type (va_read s) (usd_stabs ksd) 0 \<noteq> Some N_SO"
  shows "\<exists>r info. debuginfo_eip ksd addr s = Some (r, info, s) \<and> (r = 0 \<or> r = - 1) \<and>
    in_strings ksd (eip_file info) \<and> in_strings ksd (eip_fn_name info)"
proof -
  let ?rd = "va_read s"
  have tabs: "eip_tables ksd addr s = Some (Some ksd, s)"
    using assms(1) by (simp add: eip_tables_def)
  have init: "in_strings ksd (eip_file (eip_init addr))" "in_strings ksd (eip_fn_name (eip_init addr))"
    by (simp_all add: eip_init_def in_strings_def)
  show ?thesis
  proof (cases "usd_stabstr ksd < usd_stabstr_end ksd \<and> ?rd (usd_stabstr_end ksd - 1) = Some 0")
    case False
    have "?rd (usd_stabstr_end ksd - 1) \<noteq> None" if "usd_stabstr ksd < usd_stabstr_end ksd"
    proof -
      have "unat (usd_stabstr_end ksd - 1) = unat (usd_stabstr_end ksd) - 1" "unat (usd_stabstr ksd) < unat (usd_stabstr_end ksd)"
        using that by (auto simp: word_less_nat_alt unat_sub word_le_nat_alt)
      then show ?thesis
        using assms(2) by (simp add: stab_data_def word_le_nat_alt word_less_nat_alt)
    qed
    with False tabs init show ?thesis
      by (auto simp: debuginfo_eip_def not_le)
  next
    case True
    obtain T V where tab: "stab_table ?rd (usd_stabs ksd) 0 (stab_count ksd - 1) T V"
      and top: "\<forall>i. 0 \<le> i \<longrightarrow> i < stab_count ksd \<longrightarrow> V i \<noteq> 0xFFFFFFFF"
      by (rule stab_data_table [OF assms(2)])
    have t0: "T 0 \<noteq> N_SO" if "0 < stab_count ksd"
      using stab_tableD(1) [OF tab, of 0] assms(4) that by auto
    obtain lfile rfile where f: "stab_binsearch ?rd (usd_stabs ksd) 0 (stab_count ksd - 1) N_SO addr = Some (lfile, rfile)"
      "- 1 \<le> lfile" "lfile \<noteq> - 1" "rfile \<le> stab_count ksd - 1" "0 < lfile \<longrightarrow> lfile \<le> rfile \<and> T lfile = N_SO"
      using stab_binsearch_bounds [OF tab, of N_SO addr] top assms(3) t0 by fastforce
    show ?thesis
    proof (cases "lfile = 0")
      case z: True
      with True tabs f(1) init show ?thesis
        by (auto simp: debuginfo_eip_def)
    next
      case nz: False
      then have p: "1 \<le> lfile" "lfile \<le> rfile" "rfile < stab_count ksd" "n_type ?rd (usd_stabs ksd) lfile = Some N_SO"
        using f stab_tableD(1) [OF tab, of lfile] by auto
      obtain info where "eip_in_file ?rd ksd addr lfile rfile = Some (0, info)" "in_strings ksd (eip_file info)" "in_strings ksd (eip_fn_name info)"
        using eip_in_file_total [OF assms(2) _ _ p] True by blast
      with True tabs f(1) nz show ?thesis
        by (auto simp: debuginfo_eip_def)
    qed
  qed
qed

subsection \<open>Concrete tables\<close>

text \<open>\<open>stab_mem xs\<close>: the table with the given types and values is at address 0, nothing else is mapped.\<close>

definition stab_mem :: "(u8 \<times> u32) list \<Rightarrow> vmem" where
  "stab_mem xs a = (let i = unat a div 12; k = unat a mod 12
     in if i < length xs then Some (if k = 4 then fst (xs ! i) else if 8 \<le> k then ucast (drop_bit (8 * (k - 8)) (snd (xs ! i))) else 0) else None)"

theorem stab_binsearch_correct_witness:
  "stab_binsearch (stab_mem [(0, 0), (0x64, 0xF0100000), (0x44, 0), (0x64, 0xF0100040)]) 0 0 3 0x64 0xF0100010 = Some (1, 2)"
proof -
  let ?xs = "[(0, 0), (0x64, 0xF0100000), (0x44, 0), (0x64, 0xF0100040)] :: (u8 \<times> u32) list"
  have four: "i = 0 \<or> i = 1 \<or> i = 2 \<or> i = 3" if "0 \<le> i" "i \<le> 3" for i :: int
    using that by arith
  have n: "n_type (stab_mem ?xs) 0 i = Some (fst (?xs ! nat i)) \<and> n_value (stab_mem ?xs) 0 i = Some (snd (?xs ! nat i))"
    if "i = 0 \<or> i = 1 \<or> i = 2 \<or> i = 3" for i
    using that by (elim disjE) (simp_all, code_simp+)
  have tab: "stab_table (stab_mem ?xs) 0 0 3 (\<lambda>i. fst (?xs ! nat i)) (\<lambda>i. snd (?xs ! nat i))"
    using n four unfolding stab_table_def by blast
  have "\<exists>right. stab_binsearch (stab_mem ?xs) 0 0 3 0x64 0xF0100010 = Some (1, right) \<and> 1 \<le> right \<and> right \<le> 3 \<and>
      (right = 3 \<or> fst (?xs ! nat (right + 1)) = 0x64) \<and> (\<forall>i. 1 < i \<longrightarrow> i \<le> right \<longrightarrow> fst (?xs ! nat i) \<noteq> 0x64)"
  proof (rule stab_binsearch_correct [OF tab])
    fix i :: int assume "1 < i" "i \<le> 3" "fst (?xs ! nat i) = 0x64"
    then have "i = 3"
      using four [of i] by auto
    then show "0xF0100010 < snd (?xs ! nat i) \<and> snd (?xs ! nat i) \<noteq> 0xF0100010 + 1"
      by simp
  qed (auto dest!: four)
  then obtain right where r: "stab_binsearch (stab_mem ?xs) 0 0 3 0x64 0xF0100010 = Some (1, right)" "1 \<le> right" "right \<le> 3"
    "right = 3 \<or> fst (?xs ! nat (right + 1)) = 0x64" "\<forall>i. 1 < i \<longrightarrow> i \<le> right \<longrightarrow> fst (?xs ! nat i) \<noteq> 0x64"
    by blast
  have "right \<noteq> 3"
    using r(5) [rule_format, of 3] by auto
  moreover have "right \<noteq> 1"
    using r(4) by auto
  ultimately have "right = 2"
    using r(2,3) by arith
  with r(1) show ?thesis by simp
qed

theorem stab_binsearch_before_first_witness:
  "stab_binsearch (stab_mem [(0x64, 0xF0100000)]) 0 0 0 0x64 0xF0000000 = Some (- 1, - 1)"
proof -
  have "stab_table (stab_mem [(0x64, 0xF0100000)]) 0 0 0 (\<lambda>_. 0x64) (\<lambda>_. 0xF0100000)"
  proof -
    have "n_type (stab_mem [(0x64, 0xF0100000)]) 0 0 = Some 0x64" "n_value (stab_mem [(0x64, 0xF0100000)]) 0 0 = Some 0xF0100000"
      by code_simp+
    then show ?thesis
      by (auto simp: stab_table_def dest: order.antisym)
  qed
  from stab_binsearch_before_first [OF this, of "0x64" "0xF0000000"] show ?thesis
    by simp
qed

text \<open>One empty entry and an empty string in the page at \<^verbatim>\<open>0x800000\<close> of \<open>demo_mem\<close>.\<close>

definition demo_eip :: kstate where
  "demo_eip = demo_mem\<lparr>cr3 := 0x1000\<rparr>"

theorem debuginfo_eip_safe_witness:
  "\<exists>r info. debuginfo_eip \<lparr>usd_stabs = 0x800000, usd_stab_end = 0x80000C, usd_stabstr = 0x80000C, usd_stabstr_end = 0x80000E\<rparr> 0xF0100000 demo_eip =
     Some (r, info, demo_eip) \<and> (r = 0 \<or> r = - 1)"
proof -
  let ?sd = "\<lparr>usd_stabs = 0x800000, usd_stab_end = 0x80000C, usd_stabstr = 0x80000C, usd_stabstr_end = 0x80000E\<rparr>"
  have e: "entry demo_eip = entry demo_mem"
    by (rule entry_pmem_cong) (simp add: demo_eip_def)
  have zero: "va_read demo_eip a = Some 0" if a: "0x800000 \<le> a" "a < 0x80000E" for a
  proof -
    have "unat a div 4194304 = 2" "unat a div 4096 = 2048"
      using a by (auto simp: word_le_nat_alt word_less_nat_alt)
    then have x: "PDX a = 2" "PTX a = 0"
      by (simp_all add: word_unat_eq_iff unat_PDX unat_PTX)
    have f: "PTE_ADDR 0x1000 = page2pa 1" "PTE_ADDR 0x2007 = page2pa 2" "PTE_ADDR 0x4007 = 0x4000"
      by (simp_all add: PTE_ADDR_def page2pa_def layout)
    have r: "rd32 (pmem demo_eip) (slot (page2pa 1) 2) = 0x2007" "rd32 (pmem demo_eip) (slot (page2pa 2) 0) = 0x4007"
      using demo_mem_entry [of 1 2] demo_mem_entry [of 2 0] by (simp_all add: demo_eip_def entry_def)
    have "hw_translate demo_eip a False = Some (0x4000 OR PGOFF a)"
      unfolding hw_translate_def using r f x by (simp add: demo_eip_def Let_def layout)
    moreover have "pmem demo_eip (0x4000 OR PGOFF a) = 0"
    proof -
      have "0x4000 \<le> 0x4000 OR PGOFF a"
        by (rule le_word_or2)
      then show ?thesis
        by (auto simp: demo_eip_def demo_mem_def kst_def demo_run_def wr32_def slot_def kpage_def page2pa_def layout)
    qed
    ultimately show ?thesis
      by (simp add: va_read_def)
  qed
  have one: "stab_count ?sd = 1"
    by (simp add: stab_count_def)
  have "stab_data (va_read demo_eip) ?sd"
  proof -
    have "n_type (va_read demo_eip) 0x800000 0 = Some 0" "n_value (va_read demo_eip) 0x800000 0 = Some 0"
      "n_strx (va_read demo_eip) 0x800000 0 = Some 0" "n_desc (va_read demo_eip) 0x800000 0 = Some 0"
      by (simp_all add: n_type_def n_value_def n_strx_def n_desc_def ld16_def ld32_def stab_addr_def zero)
    moreover have "0 \<le> i \<longrightarrow> i < 1 \<longrightarrow> P i \<longleftrightarrow> 0 \<le> i \<longrightarrow> i < 1 \<longrightarrow> P 0" for i :: int and P
      by (cases "i = 0") auto
    then have "(\<forall>i :: int. 0 \<le> i \<longrightarrow> i < 1 \<longrightarrow> P i) \<longleftrightarrow> P 0" for P
      by (auto intro: spec [of _ 0] elim: allE [of _ 0])
    ultimately show ?thesis
      unfolding stab_data_def one using zero by (auto simp: word_le_nat_alt)
  qed
  moreover have "n_type (va_read demo_eip) 0x800000 0 = Some 0"
    by (simp add: n_type_def stab_addr_def zero)
  ultimately show ?thesis
    using debuginfo_eip_safe [of "0xF0100000" demo_eip ?sd] one by (auto simp: stab_types layout)
qed

end
