(* ===== verification/Monitor.thy ===== *)
theory Monitor
  imports Kdebug
begin

section \<open>The kernel monitor\<close>

text \<open>
  \<^verbatim>\<open>lib/readline.c\<close> and \<^verbatim>\<open>kern/monitor.c\<close>: line input, splitting a line into arguments, the lookup of the command, and the walk along
  the stack frames of \<^verbatim>\<open>mon_backtrace\<close>. The input is the sequence of results of \<^verbatim>\<open>getchar\<close>; a line that is not complete yet is \<open>None\<close>. A C string
  is the list of its bytes before the terminating zero. What the commands print is not modelled.
\<close>

subsection \<open>Line input\<close>

definition BUFLEN :: nat where "BUFLEN = 1024"

text \<open>\<open>b\<close> is the buffer up to \<^verbatim>\<open>i\<close>, \<open>out\<close> what has been echoed. The result is the line, or \<open>None\<close> after a read error, the echo and the input that is left.\<close>

fun readline_loop :: "bool \<Rightarrow> int list \<Rightarrow> u8 list \<Rightarrow> int list \<Rightarrow> (u8 list option \<times> int list \<times> int list) option" where
  "readline_loop echoing [] b out = None"
| "readline_loop echoing (c # cs) b out =
     (if c < 0 then Some (None, out, cs)
      else if (c = 8 \<or> c = 0x7F) \<and> 0 < length b
      then readline_loop echoing cs (take (length b - 1) b) (if echoing then out @ [8] else out)
      else if 0x20 \<le> c \<and> length b < BUFLEN - 1
      then readline_loop echoing cs (b @ [word_of_int c]) (if echoing then out @ [c] else out)
      else if c = 10 \<or> c = 13
      then Some (Some b, if echoing then out @ [10] else out, cs)
      else readline_loop echoing cs b out)"

definition readline :: "bool \<Rightarrow> int list \<Rightarrow> (u8 list option \<times> int list \<times> int list) option" where
  "readline echoing cs = readline_loop echoing cs [] []"

subsection \<open>Splitting a line\<close>

definition WHITESPACE :: "u8 list" where "WHITESPACE = [0x09, 0x0D, 0x0A, 0x20]"
definition MAXARGS :: nat where "MAXARGS = 16"

text \<open>The two inner loops of \<^verbatim>\<open>runcmd\<close>. The first overwrites what it skips with zero, which ends the argument before it.\<close>

fun gobble :: "u8 list \<Rightarrow> u8 list" where
  "gobble [] = []"
| "gobble (b # bs) = (if b \<in> set WHITESPACE then gobble bs else b # bs)"

fun scan_arg :: "u8 list \<Rightarrow> u8 list \<times> u8 list" where
  "scan_arg [] = ([], [])"
| "scan_arg (b # bs) = (if b \<in> set WHITESPACE then ([], b # bs) else case scan_arg bs of (w, rest) \<Rightarrow> (b # w, rest))"

lemma gobble_length: "length (gobble bs) \<le> length bs"
  by (induction bs) auto

lemma scan_arg_append: "fst (scan_arg bs) @ snd (scan_arg bs) = bs"
  by (induction bs) (auto split: prod.splits)

lemma gobble_head: "gobble bs = b # rest \<Longrightarrow> b \<notin> set WHITESPACE"
  by (induction bs) (auto split: if_splits)

text \<open>The arguments, or \<open>None\<close> for too many of them.\<close>

function parse_args :: "u8 list list \<Rightarrow> u8 list \<Rightarrow> u8 list list option" where
  "parse_args argv buf =
     (case gobble buf of
        [] \<Rightarrow> Some argv
      | b # bs \<Rightarrow> if length argv = MAXARGS - 1 then None
                 else case scan_arg (b # bs) of (w, rest) \<Rightarrow> parse_args (argv @ [w]) rest)"
  by auto
termination
proof (relation "measure (\<lambda>(argv, buf). length buf)", goal_cases)
  case (2 argv buf b bs w rest)
  have "b \<notin> set WHITESPACE"
    using gobble_head [OF 2(1)] .
  moreover have "scan_arg (b # bs) = (w, rest)"
    using 2 by simp
  ultimately have "rest = snd (scan_arg bs)"
    by (auto split: prod.splits)
  then have "length rest \<le> length bs"
    using arg_cong [OF scan_arg_append [of bs], of length] by simp
  then show ?case
    using gobble_length [of buf] 2(1) by simp
qed simp

declare parse_args.simps [simp del]

datatype command = Mon_help | Mon_kerninfo | Mon_backtrace

definition commands :: "(u8 list \<times> command) list" where
  "commands = [([0x68, 0x65, 0x6C, 0x70], Mon_help),
     ([0x6B, 0x65, 0x72, 0x6E, 0x69, 0x6E, 0x66, 0x6F], Mon_kerninfo),
     ([0x62, 0x61, 0x63, 0x6B, 0x74, 0x72, 0x61, 0x63, 0x65], Mon_backtrace)]"

datatype cmd_result = Too_many | Empty | Unknown_command | Call command "u8 list list"

text \<open>Which command is called with which arguments; every command returns 0, as does \<^verbatim>\<open>runcmd\<close> without a call.\<close>

definition runcmd :: "u8 list \<Rightarrow> cmd_result" where
  "runcmd buf =
     (case parse_args [] buf of
        None \<Rightarrow> Too_many
      | Some [] \<Rightarrow> Empty
      | Some (a # args) \<Rightarrow> (case map_of commands a of Some f \<Rightarrow> Call f (a # args) | None \<Rightarrow> Unknown_command))"

text \<open>The loop of \<^verbatim>\<open>monitor\<close>: the commands of the lines, in order. No command returns a negative number, so it ends only in the sense that it
  waits for more input.\<close>

lemma readline_loop_rest: "readline_loop e cs b out = Some (l, out', cs') \<Longrightarrow> length cs' < length cs"
  by (induction e cs b out rule: readline_loop.induct) (auto split: if_splits)

function monitor :: "bool \<Rightarrow> int list \<Rightarrow> cmd_result list" where
  "monitor echoing cs =
     (case readline echoing cs of
        None \<Rightarrow> []
      | Some (None, _, rest) \<Rightarrow> monitor echoing rest
      | Some (Some l, _, rest) \<Rightarrow> runcmd (takeWhile (\<lambda>b. b \<noteq> 0) l) # monitor echoing rest)"
  by auto
termination
  by (relation "measure (\<lambda>(e, cs). length cs)") (auto simp: readline_def dest: readline_loop_rest)

declare monitor.simps [simp del]

subsection \<open>Stack frames\<close>

record stack_frame =
  fr_ebp :: u32
  fr_eip :: u32
  fr_args :: "u32 list"
  fr_info :: Eipdebuginfo

text \<open>One turn of the loop of \<^verbatim>\<open>mon_backtrace\<close>: what is printed of the frame at \<open>addr\<close>, and the frame pointer it saves.\<close>

definition backtrace_frame :: "UserStabData \<Rightarrow> u32 \<Rightarrow> kstate \<Rightarrow> (stack_frame \<times> u32 \<times> kstate) option" where
  "backtrace_frame ksd addr s =
     do {
       eip \<leftarrow> ld32 (va_read s) (addr + 4);
       a0 \<leftarrow> ld32 (va_read s) (addr + 8);
       a1 \<leftarrow> ld32 (va_read s) (addr + 12);
       a2 \<leftarrow> ld32 (va_read s) (addr + 16);
       a3 \<leftarrow> ld32 (va_read s) (addr + 20);
       a4 \<leftarrow> ld32 (va_read s) (addr + 24);
       (_, info, s1) \<leftarrow> debuginfo_eip ksd eip s;
       nxt \<leftarrow> ld32 (va_read s1) addr;
       Some (\<lparr>fr_ebp = addr, fr_eip = eip, fr_args = [a0, a1, a2, a3, a4], fr_info = info\<rparr>, nxt, s1)
     }"

text \<open>The saved frame pointers are a linked list; \<open>None\<close> when it does not end or leaves the memory that is mapped.\<close>

partial_function (option) mon_backtrace :: "UserStabData \<Rightarrow> u32 \<Rightarrow> kstate \<Rightarrow> (stack_frame list \<times> kstate) option" where
  "mon_backtrace ksd addr s =
     (if addr = 0 then Some ([], s)
      else do {
        (fr, nxt, s1) \<leftarrow> backtrace_frame ksd addr s;
        (rest, s2) \<leftarrow> mon_backtrace ksd nxt s1;
        Some (fr # rest, s2)
      })"

subsection \<open>A line fits its buffer\<close>

lemma readline_loop_bound:
  assumes "length b < BUFLEN" "readline_loop e cs b out = Some (Some l, out', cs')"
  shows "length l < BUFLEN"
  using assms by (induction e cs b out rule: readline_loop.induct) (auto simp: BUFLEN_def split: if_splits)

text \<open>The line editor on whole lines: a character goes to the end, erasing takes the last one away, and what does not fit is dropped.\<close>

fun edit :: "u8 list \<Rightarrow> int \<Rightarrow> u8 list" where
  "edit b c = (if (c = 8 \<or> c = 0x7F) \<and> b \<noteq> [] then butlast b else if 0x20 \<le> c \<and> length b < BUFLEN - 1 then b @ [word_of_int c] else b)"

declare edit.simps [simp del]

lemma readline_loop_edit:
  assumes "\<And>c. c \<in> set cs \<Longrightarrow> 0 \<le> c \<and> c \<noteq> 10 \<and> c \<noteq> 13"
  shows "\<exists>out'. readline_loop e (cs @ rest) b out = readline_loop e rest (foldl edit b cs) out'"
  using assms
proof (induction cs arbitrary: b out)
  case (Cons c cs)
  have "\<exists>out1. readline_loop e ((c # cs) @ rest) b out = readline_loop e (cs @ rest) (edit b c) out1"
    using Cons.prems [of c] by (auto simp: butlast_conv_take edit.simps)
  then show ?case
    using Cons.IH Cons.prems by (metis foldl_Cons list.set_intros(2))
qed auto

text \<open>\<^verbatim>\<open>readline\<close> of some characters other than newline and carriage return, followed by a newline, always returns: the line is the one the editor
  makes of the characters, and it fits the buffer of \<^verbatim>\<open>BUFLEN\<close> bytes with its terminating zero; the input after the newline is left.\<close>

lemma readline_line:
  assumes "\<And>c. c \<in> set cs \<Longrightarrow> 0 \<le> c \<and> c \<noteq> 10 \<and> c \<noteq> 13"
  shows "\<exists>out. readline e (cs @ 10 # rest) = Some (Some (foldl edit [] cs), out, rest) \<and> length (foldl edit [] cs) < BUFLEN"
proof -
  obtain out where o: "readline e (cs @ 10 # rest) = readline_loop e (10 # rest) (foldl edit [] cs) out"
    unfolding readline_def using readline_loop_edit [OF assms] by blast
  then have "readline e (cs @ 10 # rest) = Some (Some (foldl edit [] cs), if e then out @ [10] else out, rest)"
    by simp
  moreover from this have "length (foldl edit [] cs) < BUFLEN"
    unfolding readline_def by (rule readline_loop_bound [rotated]) (simp add: BUFLEN_def)
  ultimately show ?thesis by blast
qed

text \<open>On an empty line the delete key is stored as a character, while the backspace key is ignored.\<close>

theorem readline_delete_empty: "readline e [0x7F, 13] = Some (Some [0x7F], if e then [0x7F, 10] else [], [])"
  "readline e [8, 13] = Some (Some [], if e then [10] else [], [])"
  by (simp_all add: readline_def BUFLEN_def)

lemma edit_no_zero:
  assumes "0 \<notin> set b" "0 \<le> c \<and> c < 256"
  shows "0 \<notin> set (edit b c)"
proof (cases "0x20 \<le> c")
  case True
  have "(word_of_int c :: u8) \<noteq> 0"
  proof
    assume "(word_of_int c :: u8) = 0"
    then have "c mod 256 = 0"
      using word_of_int_eq_0_iff [of c, where 'a = 8] by (simp add: dvd_imp_mod_0)
    with True assms(2) show False by simp
  qed
  with assms(1) show ?thesis
    by (auto simp: edit.simps dest: in_set_butlastD)
qed (use assms(1) in \<open>auto simp: edit.simps dest: in_set_butlastD\<close>)

lemma edits_no_zero: "0 \<notin> set b \<Longrightarrow> (\<And>c. c \<in> set cs \<Longrightarrow> 0 \<le> c \<and> c < 256) \<Longrightarrow> 0 \<notin> set (foldl edit b cs)"
  by (induction cs arbitrary: b) (auto simp: edit_no_zero)

text \<open>C33. Whatever lines are typed, \<^verbatim>\<open>monitor\<close> runs a command for each of them, in order and on exactly the text that the line editor of
  \<^verbatim>\<open>readline\<close> makes of the keys, which fits the buffer of \<^verbatim>\<open>BUFLEN\<close> bytes with its terminating zero, and then waits for more input. Keys are the codes
  of one byte that the console delivers.\<close>

theorem monitor_runs_lines:
  assumes "\<And>l c. l \<in> set ls \<Longrightarrow> c \<in> set l \<Longrightarrow> 0 \<le> c \<and> c < 256 \<and> c \<noteq> 10 \<and> c \<noteq> 13"
  shows "monitor e (concat (map (\<lambda>l. l @ [10]) ls)) = map (\<lambda>l. runcmd (foldl edit [] l)) ls \<and>
    (\<forall>l \<in> set ls. length (foldl edit [] l) < BUFLEN)"
  using assms
proof (induction ls)
  case Nil
  show ?case by (simp add: monitor.simps readline_def)
next
  case (Cons l ls)
  have keys: "0 \<le> c \<and> c < 256 \<and> c \<noteq> 10 \<and> c \<noteq> 13" if "c \<in> set l" for c
    using Cons.prems [of l c] that by simp
  obtain out where r: "readline e (l @ 10 # concat (map (\<lambda>l. l @ [10]) ls)) = Some (Some (foldl edit [] l), out, concat (map (\<lambda>l. l @ [10]) ls))"
    and len: "length (foldl edit [] l) < BUFLEN"
    using readline_line [of l e "concat (map (\<lambda>l. l @ [10]) ls)"] keys by blast
  have "takeWhile (\<lambda>b. b \<noteq> 0) (foldl edit [] l) = foldl edit [] l"
    using edits_no_zero [of "[]" l] keys by (simp add: takeWhile_eq_all_conv) metis
  then have "monitor e (concat (map (\<lambda>l. l @ [10]) (l # ls))) = runcmd (foldl edit [] l) # monitor e (concat (map (\<lambda>l. l @ [10]) ls))"
    using r by (subst monitor.simps) (simp del: takeWhile_eq_all_conv)
  moreover have "monitor e (concat (map (\<lambda>l. l @ [10]) ls)) = map (\<lambda>l. runcmd (foldl edit [] l)) ls \<and>
      (\<forall>l \<in> set ls. length (foldl edit [] l) < BUFLEN)"
    by (rule Cons.IH) (use Cons.prems in auto)
  ultimately show ?case
    using len by simp
qed

subsection \<open>The arguments are the words of the line\<close>

fun words_from :: "u8 list \<Rightarrow> u8 list \<Rightarrow> u8 list list" where
  "words_from w [] = (if w = [] then [] else [w])"
| "words_from w (b # bs) = (if b \<in> set WHITESPACE then (if w = [] then [] else [w]) @ words_from [] bs else words_from (w @ [b]) bs)"

definition words :: "u8 list \<Rightarrow> u8 list list" where
  "words bs = words_from [] bs"

lemma words_gobble: "words (gobble bs) = words bs"
  by (induction bs) (auto simp: words_def)

lemma words_scan: "scan_arg bs = (w, rest) \<Longrightarrow> v @ w \<noteq> [] \<Longrightarrow> words_from v bs = (v @ w) # words rest"
proof (induction bs arbitrary: v w)
  case (Cons b bs)
  show ?case
  proof (cases "b \<in> set WHITESPACE")
    case True
    with Cons.prems show ?thesis by (auto simp: words_def)
  next
    case False
    obtain w' where "scan_arg bs = (w', rest)" "w = b # w'"
      using Cons.prems(1) False by (auto split: prod.splits)
    with Cons.IH [of w' "v @ [b]"] False show ?thesis by simp
  qed
qed (simp add: words_def)

lemma parse_args_words:
  assumes "length argv < MAXARGS"
  shows "parse_args argv buf = (if length argv + length (words buf) < MAXARGS then Some (argv @ words buf) else None)"
  using assms
proof (induction argv buf rule: parse_args.induct)
  case (1 argv buf)
  show ?case
  proof (cases "gobble buf")
    case Nil
    then have "words buf = []"
      using words_gobble [of buf] by (simp add: words_def)
    with Nil 1(2) show ?thesis
      by (simp add: parse_args.simps [of argv])
  next
    case (Cons b bs)
    obtain w rest where wr: "scan_arg (b # bs) = (w, rest)"
      by (cases "scan_arg (b # bs)")
    have b: "b \<notin> set WHITESPACE"
      by (rule gobble_head [OF Cons])
    then have "w \<noteq> []"
      using wr by (auto split: prod.splits)
    then have ws: "words buf = w # words rest"
      using words_scan [OF wr, of "[]"] words_gobble [of buf] Cons by (simp add: words_def)
    show ?thesis
    proof (cases "length argv = MAXARGS - 1")
      case True
      then show ?thesis
        using Cons ws by (simp add: parse_args.simps [of argv] MAXARGS_def)
    next
      case False
      then have "length (argv @ [w]) < MAXARGS"
        using 1(2) by simp
      from 1(1) [OF Cons False wr [symmetric] this] show ?thesis
        using Cons False wr ws by (simp add: parse_args.simps [of argv])
    qed
  qed
qed

lemma words_from_spec:
  "(\<forall>x \<in> set (words_from w bs). x \<noteq> [] \<and> (set w \<inter> set WHITESPACE = {} \<longrightarrow> set x \<inter> set WHITESPACE = {})) \<and>
   concat (words_from w bs) = w @ filter (\<lambda>b. b \<notin> set WHITESPACE) bs"
  by (induction w bs rule: words_from.induct) auto

text \<open>\<^verbatim>\<open>runcmd\<close> splits the line into its words: they are not empty, have no blank in them and make up all that is not blank, in order. With sixteen words
  or more nothing is called, so \<^verbatim>\<open>argv\<close> never overflows; otherwise the command called is the one with the name of the first word.\<close>

theorem runcmd_correct:
  "runcmd buf = (if MAXARGS \<le> length (words buf) then Too_many
     else case words buf of [] \<Rightarrow> Empty | a # args \<Rightarrow> (case map_of commands a of Some f \<Rightarrow> Call f (a # args) | None \<Rightarrow> Unknown_command)) \<and>
   [] \<notin> set (words buf) \<and> (\<Union>x \<in> set (words buf). set x) \<inter> set WHITESPACE = {} \<and>
   concat (words buf) = filter (\<lambda>b. b \<notin> set WHITESPACE) buf"
proof (intro conjI)
  show "runcmd buf = (if MAXARGS \<le> length (words buf) then Too_many
     else case words buf of [] \<Rightarrow> Empty | a # args \<Rightarrow> (case map_of commands a of Some f \<Rightarrow> Call f (a # args) | None \<Rightarrow> Unknown_command))"
    using parse_args_words [of "[]" buf] by (auto simp: runcmd_def MAXARGS_def split: list.splits)
qed (use words_from_spec [of "[]" buf] in \<open>auto simp: words_def\<close>)

text \<open>A mistyped command, erased and typed again.\<close>

theorem monitor_runs_lines_witness:
  "monitor True (concat (map (\<lambda>l. l @ [10]) [[0x68, 0x65, 0x6D, 8, 0x6C, 0x70], [0x20]])) = [Call Mon_help [[0x68, 0x65, 0x6C, 0x70]], Empty]"
proof -
  have "foldl edit [] [0x68, 0x65, 0x6D, 8, 0x6C, 0x70] = [0x68, 0x65, 0x6C, 0x70]" "foldl edit [] [0x20] = [0x20]"
    by (simp_all add: edit.simps BUFLEN_def)
  moreover have "runcmd [0x68, 0x65, 0x6C, 0x70] = Call Mon_help [[0x68, 0x65, 0x6C, 0x70]]" "runcmd [0x20] = Empty"
    by (simp_all add: runcmd_def parse_args.simps WHITESPACE_def MAXARGS_def commands_def)
  moreover have "monitor True (concat (map (\<lambda>l. l @ [10]) [[0x68, 0x65, 0x6D, 8, 0x6C, 0x70], [0x20]])) =
      map (\<lambda>l. runcmd (foldl edit [] l)) [[0x68, 0x65, 0x6D, 8, 0x6C, 0x70], [0x20]]"
    by (rule monitor_runs_lines [THEN conjunct1]) auto
  ultimately show ?thesis by simp
qed

subsection \<open>The backtrace is the list of frames\<close>

fun frame_chain :: "UserStabData \<Rightarrow> u32 \<Rightarrow> kstate \<Rightarrow> stack_frame list \<Rightarrow> kstate \<Rightarrow> bool" where
  "frame_chain ksd addr s [] s' = (addr = 0 \<and> s' = s)"
| "frame_chain ksd addr s (f # fs) s' =
     (addr \<noteq> 0 \<and> fr_ebp f = addr \<and> ld32 (va_read s) (addr + 4) = Some (fr_eip f) \<and>
      map (\<lambda>k. ld32 (va_read s) (addr + 8 + 4 * word_of_nat k)) [0..<5] = map Some (fr_args f) \<and>
      (case debuginfo_eip ksd (fr_eip f) s of
         None \<Rightarrow> False
       | Some (r, info, s1) \<Rightarrow> fr_info f = info \<and> (case ld32 (va_read s1) addr of Some n \<Rightarrow> frame_chain ksd n s1 fs s' | None \<Rightarrow> False)))"

lemma backtrace_frame_iff:
  "backtrace_frame ksd addr s = Some (f, n, s1) \<longleftrightarrow>
     fr_ebp f = addr \<and> ld32 (va_read s) (addr + 4) = Some (fr_eip f) \<and>
     map (\<lambda>k. ld32 (va_read s) (addr + 8 + 4 * word_of_nat k)) [0..<5] = map Some (fr_args f) \<and>
     (\<exists>r. debuginfo_eip ksd (fr_eip f) s = Some (r, fr_info f, s1)) \<and> ld32 (va_read s1) addr = Some n"
proof -
  have "[0..<5] = [0, 1, 2, 3, 4 :: nat]"
    by (simp add: upt_rec)
  then have args: "map (\<lambda>k. ld32 (va_read s) (addr + 8 + 4 * word_of_nat k)) [0..<5] =
      [ld32 (va_read s) (addr + 8), ld32 (va_read s) (addr + 12), ld32 (va_read s) (addr + 16), ld32 (va_read s) (addr + 20),
       ld32 (va_read s) (addr + 24)]"
    by (simp add: add.commute)
  show ?thesis
    unfolding args backtrace_frame_def by (cases f) (auto simp: Option.bind_eq_Some_conv)
qed

lemma frame_chain_Cons:
  "frame_chain ksd addr s (f # fs) s' \<longleftrightarrow>
     addr \<noteq> 0 \<and> (\<exists>n s1. backtrace_frame ksd addr s = Some (f, n, s1) \<and> frame_chain ksd n s1 fs s')"
  by (auto simp: backtrace_frame_iff split: option.splits)

text \<open>\<^verbatim>\<open>mon_backtrace\<close> ends exactly when the saved frame pointers lead to a null pointer through frames that can be read, and then shows each of the
  frames once, in order from the innermost, with its return address, five words of arguments and the debugging information of the
  return address.\<close>

theorem mon_backtrace_correct: "mon_backtrace ksd addr s = Some (fs, s') \<longleftrightarrow> frame_chain ksd addr s fs s'"
proof (induction fs arbitrary: addr s)
  case Nil
  show ?case
    by (subst mon_backtrace.simps) (auto simp: Option.bind_eq_Some_conv)
next
  case (Cons f fs)
  have "mon_backtrace ksd addr s = Some (f # fs, s') \<longleftrightarrow>
      addr \<noteq> 0 \<and> (\<exists>n s1. backtrace_frame ksd addr s = Some (f, n, s1) \<and> mon_backtrace ksd n s1 = Some (fs, s'))"
    by (subst mon_backtrace.simps) (auto simp: Option.bind_eq_Some_conv)
  then show ?case
    unfolding frame_chain_Cons Cons.IH .
qed

end
