(* ===== verification/Boot.thy ===== *)
theory Boot
  imports Meminit
begin

section \<open>Before the kernel runs\<close>

text \<open>
  \<^verbatim>\<open>boot/main.c\<close> loads the kernel from the disk, \<^verbatim>\<open>kern/entrypgdir.c\<close> is the page table that the first
  instructions of the kernel run with, and \<^verbatim>\<open>kern/kclock.c\<close> reads the CMOS. The disk is an argument \<open>ata\<close>: the bytes that the data port
  delivers after the given bytes have been written to the ports \<^verbatim>\<open>0x1F2\<close> to \<^verbatim>\<open>0x1F7\<close>. The loops that wait for the disk are not modelled.
\<close>

subsection \<open>The boot loader\<close>

definition SECTSIZE :: u32 where [layout]: "SECTSIZE = 512"
definition ELFHDR :: u32 where [layout]: "ELFHDR = 0x10000"

definition ata_cmd :: "u32 \<Rightarrow> u8 list" where
  "ata_cmd off = [1, ucast off, ucast (drop_bit 8 off), ucast (drop_bit 16 off), ucast (drop_bit 24 off OR 0xE0), 0x20]"

definition readsect :: "(u8 list \<Rightarrow> nat \<Rightarrow> u8) \<Rightarrow> u32 \<Rightarrow> u32 \<Rightarrow> bytemem \<Rightarrow> bytemem" where
  "readsect ata dst off m = (\<lambda>a. if a - dst < SECTSIZE then ata (ata_cmd off) (unat (a - dst)) else m a)"

partial_function (option) readseg_loop :: "(u8 list \<Rightarrow> nat \<Rightarrow> u8) \<Rightarrow> u32 \<Rightarrow> u32 \<Rightarrow> u32 \<Rightarrow> bytemem \<Rightarrow> bytemem option" where
  "readseg_loop ata pa end_pa off m =
     (if pa < end_pa then readseg_loop ata (pa + SECTSIZE) end_pa (off + 1) (readsect ata pa off m) else Some m)"

definition readseg :: "(u8 list \<Rightarrow> nat \<Rightarrow> u8) \<Rightarrow> u32 \<Rightarrow> u32 \<Rightarrow> u32 \<Rightarrow> bytemem \<Rightarrow> bytemem option" where
  "readseg ata pa count off m = readseg_loop ata (pa AND NOT (SECTSIZE - 1)) (pa + count) (off div SECTSIZE + 1) m"

partial_function (option) load_segs :: "(u8 list \<Rightarrow> nat \<Rightarrow> u8) \<Rightarrow> u32 \<Rightarrow> u32 \<Rightarrow> bytemem \<Rightarrow> bytemem option" where
  "load_segs ata ph eph m =
     (if ph < eph
      then do { m1 \<leftarrow> readseg ata (rd32 m (ph + 12)) (rd32 m (ph + 20)) (rd32 m (ph + 4)) m; load_segs ata (ph + 32) eph m1 }
      else Some m)"

text \<open>The loader jumps to the entry point, or stops.\<close>

datatype boot_exit = Jump u32 | Bad

definition bootmain :: "(u8 list \<Rightarrow> nat \<Rightarrow> u8) \<Rightarrow> bytemem \<Rightarrow> (boot_exit \<times> bytemem) option" where
  "bootmain ata m =
     do {
       m1 \<leftarrow> readseg ata ELFHDR (SECTSIZE * 8) 0 m;
       (if rd32 m1 ELFHDR \<noteq> ELF_MAGIC then Some (Bad, m1)
        else do {
          let ph = ELFHDR + rd32 m1 (ELFHDR + 28);
          let eph = ph + 32 * (rd32 m1 (ELFHDR + 44) AND 0xFFFF);
          m2 \<leftarrow> load_segs ata ph eph m1;
          Some (Jump (rd32 m2 (ELFHDR + 24)), m2)
        })
     }"

subsection \<open>The first page table\<close>

definition entry_pgtable :: "u32 list" where
  "entry_pgtable = map (\<lambda>i. word_of_nat i * 0x1000 OR PTE_P OR PTE_W) [0..<1024]"

text \<open>\<open>tab\<close> is the address of \<^verbatim>\<open>entry_pgtable\<close>.\<close>

definition entry_pgdir :: "u32 \<Rightarrow> u32 list" where
  "entry_pgdir tab = map (\<lambda>i. if i = 0 then (tab - KERNBASE) + PTE_P
     else if i = unat (drop_bit PDXSHIFT KERNBASE) then (tab - KERNBASE) + PTE_P + PTE_W else 0) [0..<1024]"

subsection \<open>The CMOS\<close>

text \<open>The writes to the ports, and what is read.\<close>

definition IO_RTC :: u32 where [layout]: "IO_RTC = 0x70"

definition mc146818_read :: "(nat \<Rightarrow> u8) \<Rightarrow> u32 \<Rightarrow> (u32 \<times> u8) list \<times> u32" where
  "mc146818_read nv reg = ([(IO_RTC, ucast reg)], ucast (nv (unat (ucast reg :: u8))))"

definition mc146818_write :: "u32 \<Rightarrow> u32 \<Rightarrow> (u32 \<times> u8) list" where
  "mc146818_write reg datum = [(IO_RTC, ucast reg), (IO_RTC + 1, ucast datum)]"

lemma nvram_read_cmos:
  "r + 1 < 256 \<Longrightarrow> nvram_read nv r = snd (mc146818_read nv (word_of_nat r)) OR push_bit 8 (snd (mc146818_read nv (word_of_nat (r + 1))))"
proof -
  assume "r + 1 < 256"
  then have "unat (ucast (word_of_nat r :: u32) :: u8) = r" "unat (ucast (word_of_nat (r + 1) :: u32) :: u8) = r + 1"
    by (simp_all only: unsigned_ucast_eq unat_of_nat) (simp_all add: take_bit_nat_eq_self)
  then show ?thesis
    by (simp add: nvram_read_def mc146818_read_def)
qed

subsection \<open>Translation by the first page table\<close>

definition holds_words :: "kstate \<Rightarrow> u32 \<Rightarrow> u32 list \<Rightarrow> bool" where
  "holds_words s pa ws \<longleftrightarrow> (\<forall>i < length ws. rd32 (pmem s) (slot pa (word_of_nat i)) = ws ! i)"

lemma holds_wordsD:
  assumes "holds_words s pa ws" "unat i < length ws"
  shows "rd32 (pmem s) (slot pa i) = ws ! unat i"
  using assms(1) [unfolded holds_words_def, rule_format, OF assms(2)] by simp

lemma aligned_plus_flags:
  assumes "page_aligned x" "f < 4096"
  shows "PTE_ADDR (x + word_of_nat f) = x" "(x + word_of_nat f) AND PTE_P = word_of_nat f AND PTE_P"
    "(x + word_of_nat f) AND PTE_W = word_of_nat f AND PTE_W"
proof -
  have x: "x = push_bit 12 (drop_bit 12 x)"
    using PTE_ADDR_aligned [OF assms(1)] by (simp add: PTE_ADDR_shift)
  have f: "(word_of_nat f :: u32) = take_bit 12 (word_of_nat f)"
    using assms(2) by (simp add: take_bit_small unat_of_nat)
  have or: "x + word_of_nat f = x OR word_of_nat f"
    by (subst x, subst (2) x, subst f, subst (2) f) (rule disjunctive_add_eq_or, rule bit_eqI, auto simp: bit_simps)
  have "unat (word_of_nat f :: u32) < 4096"
    using assms(2) by (simp add: unat_of_nat)
  then show "PTE_ADDR (x + word_of_nat f) = x"
    unfolding or by (rule PTE_ADDR_or_flags [OF assms(1)])
  have "x AND PTE_P = 0" "x AND PTE_W = 0"
    by (subst x, rule bit_word_eqI, auto simp: bit_simps layout)+
  then show "(x + word_of_nat f) AND PTE_P = word_of_nat f AND PTE_P" "(x + word_of_nat f) AND PTE_W = word_of_nat f AND PTE_W"
    unfolding or by (simp_all add: bit.conj_disj_distrib2)
qed

lemma map_upt_nth: "length (map f [0..<n]) = n" "i < n \<Longrightarrow> map f [0..<n] ! i = f i"
  by simp_all

lemma entry_pgdir_nth:
  "length (entry_pgdir tab) = 1024"
  "i < 1024 \<Longrightarrow> entry_pgdir tab ! i = (if i = 0 then (tab - KERNBASE) + PTE_P else if i = 960 then (tab - KERNBASE) + PTE_P + PTE_W else 0)"
proof -
  have k: "unat (drop_bit PDXSHIFT KERNBASE) = 960"
    by (simp add: layout)
  show "length (entry_pgdir tab) = 1024"
    unfolding entry_pgdir_def by (rule map_upt_nth(1))
  assume "i < 1024"
  then show "entry_pgdir tab ! i = (if i = 0 then (tab - KERNBASE) + PTE_P else if i = 960 then (tab - KERNBASE) + PTE_P + PTE_W else 0)"
    unfolding entry_pgdir_def k by (rule map_upt_nth(2))
qed

lemma entry_pgtable_nth: "length entry_pgtable = 1024" "i < 1024 \<Longrightarrow> entry_pgtable ! i = word_of_nat i * 0x1000 OR PTE_P OR PTE_W"
  unfolding entry_pgtable_def by (rule map_upt_nth(1), rule map_upt_nth(2))

text \<open>C30. With \<^verbatim>\<open>entry_pgdir\<close> and \<^verbatim>\<open>entry_pgtable\<close> in memory, the processor translates exactly two windows of 4 MB to the first 4 MB of physical
  memory: the addresses from \<^verbatim>\<open>KERNBASE\<close> on, for reading and writing, and the addresses from 0 on, for reading only, as the entry of the
  directory is not writable.\<close>

theorem entry_pgdir_maps:
  assumes "page_aligned tab" "holds_words s (PTE_ADDR (cr3 s)) (entry_pgdir tab)" "holds_words s (tab - KERNBASE) entry_pgtable"
  shows "hw_translate s va write =
    (if va < 0x400000 \<and> \<not> write then Some va
     else if KERNBASE \<le> va \<and> va < KERNBASE + 0x400000 then Some (va - KERNBASE) else None)"
proof -
  let ?pa = "tab - KERNBASE"
  have al: "page_aligned ?pa"
    by (rule page_aligned_diff [OF assms(1) region_pages(9)])
  have pdx: "PDX va = 0 \<longleftrightarrow> va < 0x400000" "unat (PDX va) = 960 \<longleftrightarrow> KERNBASE \<le> va \<and> va < KERNBASE + 0x400000"
  proof -
    have div: "n div 4194304 = q \<longleftrightarrow> 4194304 * q \<le> n \<and> n < 4194304 * Suc q" for n q :: nat
      using div_mult_mod_eq [of n 4194304] mod_less_divisor [of 4194304 n] by (auto intro!: div_nat_eqI)
    show "PDX va = 0 \<longleftrightarrow> va < 0x400000" "unat (PDX va) = 960 \<longleftrightarrow> KERNBASE \<le> va \<and> va < KERNBASE + 0x400000"
      by (simp_all add: word_unat_eq_iff unat_PDX div word_less_nat_alt word_le_nat_alt layout)
  qed
  have dir: "rd32 (pmem s) (slot (PTE_ADDR (cr3 s)) (PDX va)) =
      (if PDX va = 0 then ?pa + PTE_P else if unat (PDX va) = 960 then ?pa + PTE_P + PTE_W else 0)"
    using holds_wordsD [OF assms(2), of "PDX va"] by (simp add: entry_pgdir_nth word_unat_eq_iff)
  have "unat (PTX va) < 1024"
    by simp
  then have tab: "rd32 (pmem s) (slot ?pa (PTX va)) = word_of_nat (unat (PTX va)) * 0x1000 OR PTE_P OR PTE_W"
    using holds_wordsD [OF assms(3), of "PTX va"] by (simp add: entry_pgtable_nth del: PTX_less)
  let ?e = "PTX va * 0x1000 OR PTE_P OR PTE_W"
  have p12: "page_aligned (PTX va * 0x1000)" "unat (PTX va * 0x1000) = unat (PTX va) * 4096"
  proof -
    show "unat (PTX va * 0x1000) = unat (PTX va) * 4096"
      using PTX_less [of va] by (subst unat_mult_no_wrap) (simp_all del: PTX_less)
    then show "page_aligned (PTX va * 0x1000)"
      by (simp add: page_aligned_unat)
  qed
  have e: "PTE_ADDR ?e = PTX va * 0x1000" "?e AND PTE_P \<noteq> 0" "?e AND PTE_W \<noteq> 0"
  proof -
    show "PTE_ADDR ?e = PTX va * 0x1000"
      using PTE_ADDR_or_flags [OF p12(1), of "PTE_P OR PTE_W"] by (simp add: layout or.assoc)
    show "?e AND PTE_P \<noteq> 0"
      by (simp add: layout bit_eq_iff bit_and_iff bit_or_iff) (rule exI [of _ 0], simp)
    show "?e AND PTE_W \<noteq> 0"
      by (simp add: layout bit_eq_iff bit_and_iff bit_or_iff) (rule exI [of _ 1], simp)
  qed
  have d: "PTE_ADDR (?pa + PTE_P) = ?pa" "PTE_ADDR (?pa + PTE_P + PTE_W) = ?pa" "(?pa + PTE_P) AND PTE_P \<noteq> 0"
    "(?pa + PTE_P + PTE_W) AND PTE_P \<noteq> 0" "(?pa + PTE_P) AND PTE_W = 0" "(?pa + PTE_P + PTE_W) AND PTE_W \<noteq> 0"
    using aligned_plus_flags [OF al, of 1] aligned_plus_flags [OF al, of 3] by (simp_all add: layout add.assoc)
  have off: "PTX va * 0x1000 OR PGOFF va = word_of_nat (unat va mod 4194304)"
  proof -
    have "unat (PTX va * 0x1000 OR PGOFF va) = unat (PTX va) * 4096 + unat (PGOFF va)"
      using unat_push_or [of "PGOFF va" 12 "PTX va"] PTX_less [of va] by (simp add: push_bit_eq_mult unat_PGOFF del: PTX_less)
    also have "\<dots> = unat va mod 4194304"
      unfolding unat_PTX unat_PGOFF using mod_mult2_eq [of "unat va" 4096 1024] by simp
    finally show ?thesis
      by (simp add: word_unat_eq_iff unat_of_nat)
  qed
  have low: "word_of_nat (unat va mod 4194304) = va" if "PDX va = 0"
    using that by (simp add: pdx word_less_nat_alt)
  have high: "word_of_nat (unat va mod 4194304) = va - KERNBASE" if "unat (PDX va) = 960"
  proof -
    have *: "4026531840 \<le> unat va" "unat va < 4030726144"
      using that unfolding pdx by (simp_all add: word_less_nat_alt word_le_nat_alt layout)
    then have "unat va = (unat va - 4026531840) + 4194304 * 960" "unat va - 4026531840 < 4194304"
      by simp_all
    then have "unat va mod 4194304 = unat va - 4026531840"
      by (metis mod_less mod_mult_self2)
    also have "\<dots> = unat (va - KERNBASE)"
      using *(1) by (simp add: unat_sub word_le_nat_alt layout)
    finally show ?thesis by simp
  qed
  have t: "rd32 (pmem s) (slot ?pa (PTX va)) = ?e"
    using tab by simp
  consider (low) "PDX va = 0" "unat (PDX va) \<noteq> 960" | (high) "PDX va \<noteq> 0" "unat (PDX va) = 960"
    | (none) "PDX va \<noteq> 0" "unat (PDX va) \<noteq> 960"
    by fastforce
  then show ?thesis
  proof cases
    case low
    have "rd32 (pmem s) (slot (PTE_ADDR (cr3 s)) (PDX va)) = ?pa + PTE_P"
      using dir unfolding if_P [OF low(1)] .
    then show ?thesis
      unfolding hw_translate_def Let_def using low t e d off \<open>PDX va = 0 \<Longrightarrow> word_of_nat (unat va mod 4194304) = va\<close>
      by (simp flip: pdx)
  next
    case high
    have "rd32 (pmem s) (slot (PTE_ADDR (cr3 s)) (PDX va)) = ?pa + PTE_P + PTE_W"
      using dir unfolding if_not_P [OF high(1)] if_P [OF high(2)] .
    then show ?thesis
      unfolding hw_translate_def Let_def using high t e d off \<open>unat (PDX va) = 960 \<Longrightarrow> word_of_nat (unat va mod 4194304) = va - KERNBASE\<close>
      by (simp flip: pdx)
  next
    case none
    have "rd32 (pmem s) (slot (PTE_ADDR (cr3 s)) (PDX va)) = 0"
      using dir unfolding if_not_P [OF none(1)] if_not_P [OF none(2)] .
    then show ?thesis
      unfolding hw_translate_def Let_def using none by (simp flip: pdx)
  qed
qed

subsection \<open>Reading a segment\<close>

text \<open>\<open>kernel_disk ata img\<close>: sector 0 holds the boot loader, and the sectors from 1 on hold the file \<open>img\<close>.\<close>

definition kernel_disk :: "(u8 list \<Rightarrow> nat \<Rightarrow> u8) \<Rightarrow> (nat \<Rightarrow> u8) \<Rightarrow> bool" where
  "kernel_disk ata img \<longleftrightarrow> (\<forall>n < 268435455. \<forall>j < 512. ata (ata_cmd (word_of_nat (Suc n))) j = img (n * 512 + j))"

lemma readseg_loop_run:
  assumes "unat pa + 512 * n < 4294967296" "unat end_pa \<le> unat pa + 512 * n" "n = 0 \<or> unat pa + 512 * (n - 1) < unat end_pa"
  shows "readseg_loop ata pa end_pa off m = Some (\<lambda>a. if unat pa \<le> unat a \<and> unat a < unat pa + 512 * n
    then ata (ata_cmd (off + word_of_nat ((unat a - unat pa) div 512))) ((unat a - unat pa) mod 512) else m a)"
  using assms
proof (induction n arbitrary: pa off m)
  case 0
  then have "\<not> pa < end_pa"
    by (simp add: word_less_nat_alt)
  then show ?case
    by (subst readseg_loop.simps) (auto simp: fun_eq_iff)
next
  case (Suc n)
  have pa: "unat (pa + SECTSIZE) = unat pa + 512"
    using Suc.prems(1) by (subst unat_add_no_wrap) (simp_all add: layout)
  have "pa < end_pa"
    using Suc.prems(3) by (simp add: word_less_nat_alt)
  then have "readseg_loop ata pa end_pa off m = readseg_loop ata (pa + SECTSIZE) end_pa (off + 1) (readsect ata pa off m)"
    by (subst readseg_loop.simps) simp
  also have "\<dots> = Some (\<lambda>a. if unat (pa + SECTSIZE) \<le> unat a \<and> unat a < unat (pa + SECTSIZE) + 512 * n
    then ata (ata_cmd (off + 1 + word_of_nat ((unat a - unat (pa + SECTSIZE)) div 512))) ((unat a - unat (pa + SECTSIZE)) mod 512)
    else readsect ata pa off m a)"
    using Suc.prems by (intro Suc.IH) (auto simp: pa)
  also have "\<dots> = Some (\<lambda>a. if unat pa \<le> unat a \<and> unat a < unat pa + 512 * Suc n
    then ata (ata_cmd (off + word_of_nat ((unat a - unat pa) div 512))) ((unat a - unat pa) mod 512) else m a)"
  proof (intro arg_cong [where f = Some] ext)
    fix a :: u32
    have sect: "a - pa < SECTSIZE \<longleftrightarrow> unat pa \<le> unat a \<and> unat a < unat pa + 512"
      using Suc.prems(1) by (subst region_iff) (simp_all add: layout)
    show "(if unat (pa + SECTSIZE) \<le> unat a \<and> unat a < unat (pa + SECTSIZE) + 512 * n
      then ata (ata_cmd (off + 1 + word_of_nat ((unat a - unat (pa + SECTSIZE)) div 512))) ((unat a - unat (pa + SECTSIZE)) mod 512)
      else readsect ata pa off m a) =
      (if unat pa \<le> unat a \<and> unat a < unat pa + 512 * Suc n
      then ata (ata_cmd (off + word_of_nat ((unat a - unat pa) div 512))) ((unat a - unat pa) mod 512) else m a)"
    proof (cases "unat pa + 512 \<le> unat a")
      case True
      define x where "x = unat a - (unat pa + 512)"
      then have x: "unat a - unat pa = x + 512" "unat a - (unat pa + 512) = x"
        using True by simp_all
      have "(x + 512) div 512 = Suc (x div 512)"
        by simp
      with True x show ?thesis
        by (simp add: pa readsect_def sect add.assoc)
    next
      case False
      have "unat (a - pa) = unat a - unat pa" if "unat pa \<le> unat a"
        using that by (simp add: unat_sub word_le_nat_alt)
      with False show ?thesis
        by (auto simp: pa readsect_def sect)
    qed
  qed
  finally show ?case .
qed

text \<open>The first byte and the byte after the last one that \<^verbatim>\<open>readseg\<close> writes.\<close>

definition seg_lo :: "u32 \<Rightarrow> nat" where
  "seg_lo pa = unat pa - unat pa mod 512"

definition seg_hi :: "u32 \<Rightarrow> u32 \<Rightarrow> nat" where
  "seg_hi pa count = seg_lo pa + 512 * ((unat pa mod 512 + unat count + 511) div 512)"

lemma seg_bounds: "seg_lo pa \<le> unat pa" "unat pa + unat count \<le> seg_hi pa count" "unat pa < seg_lo pa + 512"
proof -
  show "seg_lo pa \<le> unat pa"
    by (simp add: seg_lo_def)
  have pa: "unat pa = seg_lo pa + unat pa mod 512"
    by (simp add: seg_lo_def)
  then show "unat pa < seg_lo pa + 512"
    using mod_less_divisor [of 512 "unat pa"] by linarith
  have "x \<le> 512 * ((x + 511) div 512)" for x :: nat
    using div_mult_mod_eq [of "x + 511" 512] mod_less_divisor [of 512 "x + 511"] by linarith
  from this [of "unat pa mod 512 + unat count"] show "unat pa + unat count \<le> seg_hi pa count"
    using pa by (simp add: seg_hi_def)
qed

lemma readseg_run:
  assumes disk: "kernel_disk ata img" and fits: "unat pa + unat count + 512 \<le> 4294967296"
    and cong: "unat pa mod 512 = unat off mod 512"
  shows "\<exists>m'. readseg ata pa count off m = Some m' \<and>
    (\<forall>a. m' a = (if seg_lo pa \<le> unat a \<and> unat a < seg_hi pa count then img (unat off + unat a - unat pa) else m a))"
proof -
  let ?n = "(unat pa mod 512 + unat count + 511) div 512" and ?p = "pa AND NOT (SECTSIZE - 1)"
  have p: "unat ?p = seg_lo pa"
  proof -
    have "pa AND NOT (mask 9) = push_bit 9 (drop_bit 9 pa)"
      by (rule bit_word_eqI) (auto simp: bit_simps)
    then have "pa AND NOT (SECTSIZE - 1) = push_bit 9 (drop_bit 9 pa)"
      by (simp add: layout mask_eq_exp_minus_1)
    moreover have "unat (push_bit 9 (drop_bit 9 pa)) = unat pa div 512 * 512"
    proof -
      have "unat pa div 512 < 8388608"
        using unat_u32_bound [of pa] by (simp add: less_mult_imp_div_less)
      then show ?thesis
        using unat_push_or [of 0 9 "drop_bit 9 pa"] by (simp add: unat_drop_bit_div)
    qed
    ultimately show ?thesis
      by (simp add: seg_lo_def minus_mod_eq_div_mult)
  qed
  have e: "unat (pa + count) = unat pa + unat count"
    using fits by (subst unat_add_no_wrap) simp_all
  have pa: "unat pa = seg_lo pa + unat pa mod 512"
    by (simp add: seg_lo_def)
  have hi: "seg_hi pa count = seg_lo pa + 512 * ?n"
    by (simp add: seg_hi_def)
  have n: "512 * ?n \<le> unat pa mod 512 + unat count + 511" "unat pa mod 512 + unat count \<le> 512 * ?n"
    "?n = 0 \<or> 512 * (?n - 1) < unat pa mod 512 + unat count"
    using div_mult_mod_eq [of "unat pa mod 512 + unat count + 511" 512] mod_less_divisor [of 512 "unat pa mod 512 + unat count + 511"]
    by (auto simp: algebra_simps) 
  have run: "readseg ata pa count off m = Some (\<lambda>a. if seg_lo pa \<le> unat a \<and> unat a < seg_hi pa count
    then ata (ata_cmd (off div SECTSIZE + 1 + word_of_nat ((unat a - seg_lo pa) div 512))) ((unat a - seg_lo pa) mod 512) else m a)"
    unfolding readseg_def hi p [symmetric]
    by (rule readseg_loop_run) (use n pa fits in \<open>auto simp: p e\<close>)
  have "ata (ata_cmd (off div SECTSIZE + 1 + word_of_nat ((unat a - seg_lo pa) div 512))) ((unat a - seg_lo pa) mod 512) =
    img (unat off + unat a - unat pa)" if a: "seg_lo pa \<le> unat a" "unat a < seg_hi pa count" for a :: u32
  proof -
    let ?q = "(unat a - seg_lo pa) div 512"
    have q: "?q < 8388608"
      by (intro less_mult_imp_div_less) (use unat_u32_bound [of a] in linarith)
    have o: "unat off div 512 < 8388608"
      using unat_u32_bound [of off] by (simp add: less_mult_imp_div_less)
    have "off div SECTSIZE + 1 + word_of_nat ?q = word_of_nat (Suc (unat off div 512 + ?q))"
      by (simp add: layout word_arith_nat_div)
    moreover have "ata (ata_cmd (word_of_nat (Suc (unat off div 512 + ?q)))) ((unat a - seg_lo pa) mod 512) =
        img ((unat off div 512 + ?q) * 512 + (unat a - seg_lo pa) mod 512)"
      using disk [unfolded kernel_disk_def, rule_format, of "unat off div 512 + ?q" "(unat a - seg_lo pa) mod 512"] q o
      by (simp del: of_nat_Suc of_nat_add)
    moreover have "(unat off div 512 + ?q) * 512 + (unat a - seg_lo pa) mod 512 = unat off + unat a - unat pa"
    proof -
      have "(d + q) * 512 + r = off + a - pa" if "d * 512 + m = off" "q * 512 + r = x" "pa = lo + m" "a = lo + x" for d q r off a pa m x lo :: nat
        using that by simp
      from this [OF div_mult_mod_eq div_mult_mod_eq] show ?thesis
        using pa cong a(1) by simp
    qed
    ultimately show ?thesis by (simp only:)
  qed
  then show ?thesis
    unfolding run by (intro exI conjI) auto
qed

subsection \<open>Loading the kernel\<close>

text \<open>Words of the file, the segments its program header describes, and when it can be loaded: the program header is in the first page, every segment fits
  in memory and has the same offset in its sector as in the file, and the sectors of the segments are apart from each
  other and from the copy of the first page.\<close>

definition img32 :: "(nat \<Rightarrow> u8) \<Rightarrow> nat \<Rightarrow> u32" where
  "img32 img j = rd32 (\<lambda>a. img (unat a)) (word_of_nat j)"

definition phoff :: "(nat \<Rightarrow> u8) \<Rightarrow> nat" where "phoff img = unat (img32 img 28)"
definition phnum :: "(nat \<Rightarrow> u8) \<Rightarrow> nat" where "phnum img = unat (img32 img 44 AND 0xFFFF)"
definition seg_pa :: "(nat \<Rightarrow> u8) \<Rightarrow> nat \<Rightarrow> u32" where "seg_pa img i = img32 img (phoff img + 32 * i + 12)"
definition seg_memsz :: "(nat \<Rightarrow> u8) \<Rightarrow> nat \<Rightarrow> u32" where "seg_memsz img i = img32 img (phoff img + 32 * i + 20)"
definition seg_off :: "(nat \<Rightarrow> u8) \<Rightarrow> nat \<Rightarrow> u32" where "seg_off img i = img32 img (phoff img + 32 * i + 4)"

definition loadable :: "(nat \<Rightarrow> u8) \<Rightarrow> bool" where
  "loadable img \<longleftrightarrow> img32 img 0 = ELF_MAGIC \<and> phoff img + 32 * phnum img \<le> 4096 \<and>
     (\<forall>i < phnum img. unat (seg_pa img i) + unat (seg_memsz img i) + 512 \<le> 4294967296 \<and>
        unat (seg_pa img i) mod 512 = unat (seg_off img i) mod 512 \<and>
        (seg_hi (seg_pa img i) (seg_memsz img i) \<le> 65536 \<or> 69632 \<le> seg_lo (seg_pa img i)) \<and>
        (\<forall>j < i. seg_hi (seg_pa img i) (seg_memsz img i) \<le> seg_lo (seg_pa img j) \<or>
           seg_hi (seg_pa img j) (seg_memsz img j) \<le> seg_lo (seg_pa img i)))"

definition hdr_copy :: "(nat \<Rightarrow> u8) \<Rightarrow> bytemem \<Rightarrow> bool" where
  "hdr_copy img m \<longleftrightarrow> (\<forall>b < 4096. m (ELFHDR + word_of_nat b) = img b)"

definition seg_loaded :: "(nat \<Rightarrow> u8) \<Rightarrow> nat \<Rightarrow> bytemem \<Rightarrow> bool" where
  "seg_loaded img i m \<longleftrightarrow> (\<forall>b < unat (seg_memsz img i). m (seg_pa img i + word_of_nat b) = img (unat (seg_off img i) + b))"

lemma hdr_word: "hdr_copy img m \<Longrightarrow> j + 3 < 4096 \<Longrightarrow> rd32 m (ELFHDR + word_of_nat j) = img32 img j"
proof -
  assume *: "hdr_copy img m" "j + 3 < 4096"
  have u: "unat (word_of_nat j + word_of_nat k :: u32) = j + k" if "k < 4" for k
    using *(2) that by (subst unat_add_no_wrap) (simp_all add: unat_of_nat)
  have "m (ELFHDR + word_of_nat (j + k)) = img (j + k)" if "k < 4" for k
    using * that by (simp add: hdr_copy_def del: of_nat_add)
  from this [of 0] this [of 1] this [of 2] this [of 3] u [of 0] u [of 1] u [of 2] u [of 3] show ?thesis
    by (simp add: img32_def rd32_def add.assoc) (simp add: add.commute)
qed

lemma load_one:
  assumes disk: "kernel_disk ata img" and ok: "loadable img" and i: "i < phnum img" and hdr: "hdr_copy img m"
    and old: "\<And>j. j < i \<Longrightarrow> seg_loaded img j m"
  shows "\<exists>m'. readseg ata (seg_pa img i) (seg_memsz img i) (seg_off img i) m = Some m' \<and> hdr_copy img m' \<and>
    (\<forall>j < Suc i. seg_loaded img j m')"
proof -
  have L: "unat (seg_pa img k) + unat (seg_memsz img k) + 512 \<le> 4294967296"
    "unat (seg_pa img k) mod 512 = unat (seg_off img k) mod 512"
    "seg_hi (seg_pa img k) (seg_memsz img k) \<le> 65536 \<or> 69632 \<le> seg_lo (seg_pa img k)"
    "j < k \<Longrightarrow> seg_hi (seg_pa img k) (seg_memsz img k) \<le> seg_lo (seg_pa img j) \<or>
           seg_hi (seg_pa img j) (seg_memsz img j) \<le> seg_lo (seg_pa img k)" if "k < phnum img" for j k
    using ok that unfolding loadable_def by blast+
  obtain m' where m': "readseg ata (seg_pa img i) (seg_memsz img i) (seg_off img i) m = Some m'"
    "\<And>a. m' a = (if seg_lo (seg_pa img i) \<le> unat a \<and> unat a < seg_hi (seg_pa img i) (seg_memsz img i)
       then img (unat (seg_off img i) + unat a - unat (seg_pa img i)) else m a)"
    using readseg_run [OF disk L(1,2) [OF i], of m] by blast
  have byte: "unat (seg_pa img k + word_of_nat b) = unat (seg_pa img k) + b" if "k < phnum img" "b < unat (seg_memsz img k)" for k b
    using L(1) [OF that(1)] that(2) by (subst unat_add_no_wrap) (simp_all add: unat_of_nat)
  have "hdr_copy img m'"
    unfolding hdr_copy_def
  proof (intro allI impI)
    fix b :: nat assume b: "b < 4096"
    have "unat (ELFHDR + word_of_nat b) = 65536 + b"
      using b by (subst unat_add_no_wrap) (simp_all add: layout unat_of_nat)
    then show "m' (ELFHDR + word_of_nat b) = img b"
      using m'(2) [of "ELFHDR + word_of_nat b"] L(3) [OF i] b hdr by (auto simp: hdr_copy_def)
  qed
  moreover have "seg_loaded img i m'"
    unfolding seg_loaded_def
    using m'(2) byte [OF i] seg_bounds(1) [of "seg_pa img i"] seg_bounds(2) [of "seg_pa img i" "seg_memsz img i"] by auto
  moreover have "seg_loaded img j m'" if j: "j < i" for j
    unfolding seg_loaded_def
  proof (intro allI impI)
    fix b assume b: "b < unat (seg_memsz img j)"
    have jn: "j < phnum img"
      using i j by simp
    have "\<not> (seg_lo (seg_pa img i) \<le> unat (seg_pa img j) + b \<and> unat (seg_pa img j) + b < seg_hi (seg_pa img i) (seg_memsz img i))"
      using L(4) [OF i j] b seg_bounds(1) [of "seg_pa img j"] seg_bounds(2) [of "seg_pa img j" "seg_memsz img j"] by auto
    then show "m' (seg_pa img j + word_of_nat b) = img (unat (seg_off img j) + b)"
      using m'(2) [of "seg_pa img j + word_of_nat b"] byte [OF jn b] old [OF j] b by (auto simp: seg_loaded_def)
  qed
  ultimately show ?thesis
    using m'(1) by (auto simp: less_Suc_eq)
qed

lemma load_segs_run:
  assumes disk: "kernel_disk ata img" and ok: "loadable img" and i: "i \<le> phnum img" and hdr: "hdr_copy img m"
    and old: "\<And>j. j < i \<Longrightarrow> seg_loaded img j m"
  shows "\<exists>m'. load_segs ata (ELFHDR + word_of_nat (phoff img + 32 * i)) (ELFHDR + word_of_nat (phoff img + 32 * phnum img)) m = Some m' \<and>
    hdr_copy img m' \<and> (\<forall>j < phnum img. seg_loaded img j m')"
  using i hdr old
proof (induction "phnum img - i" arbitrary: i m)
  case 0
  then show ?case
    by (subst load_segs.simps) simp
next
  case (Suc n)
  have i: "i < phnum img"
    using Suc.hyps(2) by simp
  have bound: "phoff img + 32 * phnum img \<le> 4096"
    using ok by (simp add: loadable_def)
  have u: "unat (ELFHDR + word_of_nat x) = 65536 + x" if "x \<le> 4096" for x
    using that by (subst unat_add_no_wrap) (simp_all add: layout unat_of_nat)
  let ?ph = "ELFHDR + word_of_nat (phoff img + 32 * i)"
  have less: "?ph < ELFHDR + word_of_nat (phoff img + 32 * phnum img)"
    using i bound by (simp add: word_less_nat_alt u del: of_nat_add of_nat_mult)
  have fld: "rd32 m (?ph + word_of_nat k) = img32 img (phoff img + 32 * i + k)" if "k \<le> 28" for k
    using hdr_word [OF Suc.prems(2), of "phoff img + 32 * i + k"] bound i that by (simp add: add.assoc)
  have F: "rd32 m (?ph + 12) = seg_pa img i" "rd32 m (?ph + 20) = seg_memsz img i" "rd32 m (?ph + 4) = seg_off img i"
    using fld [of 12] fld [of 20] fld [of 4] by (simp_all add: seg_pa_def seg_memsz_def seg_off_def del: of_nat_add of_nat_mult)
  obtain m1 where m1: "readseg ata (seg_pa img i) (seg_memsz img i) (seg_off img i) m = Some m1" "hdr_copy img m1"
    "\<And>j. j < Suc i \<Longrightarrow> seg_loaded img j m1"
    using load_one [OF disk ok i Suc.prems(2,3)] by blast
  have next_ph: "?ph + 32 = ELFHDR + word_of_nat (phoff img + 32 * Suc i)"
    by (simp add: algebra_simps)
  have "n = phnum img - Suc i" "Suc i \<le> phnum img"
    using Suc.hyps(2) by simp_all
  from Suc.hyps(1) [OF this m1(2,3)] show ?case
    using less F m1(1) by (subst load_segs.simps) (simp add: next_ph del: of_nat_add of_nat_mult)
qed

text \<open>C29. The boot loader loads the kernel: from a disk that holds a loadable ELF file from its second sector on, \<^verbatim>\<open>bootmain\<close> copies every segment of
  the program header to its physical address, byte by byte as it is in the file, and jumps to the entry point. It always gets that far: none of
  the loops runs on.\<close>

theorem bootmain_loads:
  assumes disk: "kernel_disk ata img" and ok: "loadable img"
  shows "\<exists>m'. bootmain ata m = Some (Jump (img32 img 24), m') \<and>
    (\<forall>i < phnum img. \<forall>b < unat (seg_memsz img i). m' (seg_pa img i + word_of_nat b) = img (unat (seg_off img i) + b))"
proof -
  have "unat ELFHDR mod 512 = unat (0 :: u32) mod 512" "unat ELFHDR + unat (SECTSIZE * 8) + 512 \<le> 4294967296"
    by (simp_all add: layout)
  from readseg_run [OF disk this(2,1), of m] obtain m1 where m1: "readseg ata ELFHDR (SECTSIZE * 8) 0 m = Some m1"
    "\<And>a. m1 a = (if seg_lo ELFHDR \<le> unat a \<and> unat a < seg_hi ELFHDR (SECTSIZE * 8) then img (unat a - unat ELFHDR) else m a)"
    by auto
  have lo: "seg_lo ELFHDR = 65536" "seg_hi ELFHDR (SECTSIZE * 8) = 69632"
    by (simp_all add: seg_hi_def seg_lo_def layout)
  have hdr: "hdr_copy img m1"
    unfolding hdr_copy_def
  proof (intro allI impI)
    fix b :: nat assume b: "b < 4096"
    have "unat (ELFHDR + word_of_nat b) = 65536 + b"
      using b by (subst unat_add_no_wrap) (simp_all add: layout unat_of_nat)
    then show "m1 (ELFHDR + word_of_nat b) = img b"
      using m1(2) [of "ELFHDR + word_of_nat b"] b by (simp add: lo) (simp add: layout)
  qed
  note W = hdr_word [OF hdr]
  have ph: "rd32 m1 ELFHDR = ELF_MAGIC" "rd32 m1 (ELFHDR + 28) = word_of_nat (phoff img)" "rd32 m1 (ELFHDR + 44) AND 0xFFFF = word_of_nat (phnum img)"
    using W [of 0] W [of 28] W [of 44] ok by (simp_all add: loadable_def phoff_def phnum_def)
  obtain m2 where m2: "load_segs ata (ELFHDR + word_of_nat (phoff img)) (ELFHDR + word_of_nat (phoff img + 32 * phnum img)) m1 = Some m2"
    "hdr_copy img m2" "\<forall>j < phnum img. seg_loaded img j m2"
    using load_segs_run [OF disk ok, of 0 m1] hdr by auto
  have "rd32 m2 (ELFHDR + 24) = img32 img 24"
    using hdr_word [OF m2(2), of 24] by simp
  then have "bootmain ata m = Some (Jump (img32 img 24), m2)"
    using m1(1) ph m2(1) by (simp add: bootmain_def add.assoc)
  then show ?thesis
    using m2(3) unfolding seg_loaded_def by blast
qed

subsection \<open>Examples\<close>

text \<open>A file with one segment of 600 bytes that is loaded at 1 MB from offset 4096 of the file, on a disk that holds it.\<close>

definition demo_img :: "nat \<Rightarrow> u8" where
  "demo_img j =
     (if j = 0 then 0x7F else if j = 1 then 0x45 else if j = 2 then 0x4C else if j = 3 then 0x46
      else if j = 24 then 0x0C else if j = 26 then 0x10 else if j = 28 then 52 else if j = 44 then 1
      else if j = 57 then 0x10 else if j = 66 then 0x10 else if j = 72 then 0x58 else if j = 73 then 0x02
      else if j = 4100 then 0xF4 else 0)"

definition demo_ata :: "u8 list \<Rightarrow> nat \<Rightarrow> u8" where
  "demo_ata c j = (let lba = unat (c ! 1) + 256 * unat (c ! 2) + 65536 * unat (c ! 3) + 16777216 * (unat (c ! 4) mod 16) in demo_img ((lba - 1) * 512 + j))"

lemma lba_bytes:
  assumes "unat (w :: u32) < 268435456"
  shows "unat (ucast w :: u8) + 256 * unat (ucast (drop_bit 8 w) :: u8) + 65536 * unat (ucast (drop_bit 16 w) :: u8) +
    16777216 * (unat (ucast (drop_bit 24 w OR 0xE0) :: u8) mod 16) = unat w"
proof -
  have byte: "unat (ucast v :: u8) = unat v mod 256" for v :: u32
    by (simp add: unsigned_ucast_eq take_bit_eq_mod)
  have "take_bit 4 (drop_bit 24 w OR 0xE0) = take_bit 4 (drop_bit 24 w)"
    by (simp add: take_bit_or)
  then have "unat (drop_bit 24 w OR 0xE0) mod 16 = unat (drop_bit 24 w) mod 16"
    using unat_take_bit [of 4 "drop_bit 24 w OR 0xE0"] unat_take_bit [of 4 "drop_bit 24 w"] by simp
  then have top: "unat (ucast (drop_bit 24 w OR 0xE0) :: u8) mod 16 = unat w div 16777216 mod 16"
    unfolding byte by (simp add: mod_mod_cancel unat_drop_bit_div)
  have "x mod 256 + 256 * (x div 256 mod 256) + 65536 * (x div 65536 mod 256) + 16777216 * (x div 16777216 mod 16) = x"
    if "x < 268435456" for x :: nat
  proof -
    have "x div 16777216 < 16"
      using that by (simp add: less_mult_imp_div_less)
    moreover have "x div 65536 = x div 256 div 256" "x div 16777216 = x div 65536 div 256"
      by (simp_all flip: div_mult2_eq)
    moreover have "r0 + 256 * r1 + 65536 * r2 + 16777216 * q3 = y" if "q1 * 256 + r0 = y" "q2 * 256 + r1 = q1" "q3 * 256 + r2 = q2"
      for y q1 r0 q2 r1 q3 r2 :: nat
      using that by simp
    from this [OF div_mult_mod_eq div_mult_mod_eq div_mult_mod_eq] have
      "x mod 256 + 256 * (x div 256 mod 256) + 65536 * (x div 256 div 256 mod 256) + 16777216 * (x div 256 div 256 div 256) = x" .
    ultimately show ?thesis
      by simp
  qed
  moreover have "unat w div 16777216 mod 16 = unat w div 16777216"
    using assms by (simp add: less_mult_imp_div_less)
  ultimately show ?thesis
    using assms unfolding top unfolding byte unat_drop_bit_div by simp
qed

lemma demo_disk: "kernel_disk demo_ata demo_img"
  unfolding kernel_disk_def
proof (intro allI impI)
  fix n j :: nat assume n: "n < 268435455" and j: "j < 512"
  have u: "unat (word_of_nat (Suc n) :: u32) = Suc n"
    using n by (simp add: unat_of_nat del: of_nat_Suc)
  then show "demo_ata (ata_cmd (word_of_nat (Suc n))) j = demo_img (n * 512 + j)"
    using n lba_bytes [of "word_of_nat (Suc n)"] unfolding demo_ata_def ata_cmd_def Let_def by (simp del: of_nat_Suc)
qed

lemma demo_img_words:
  "img32 demo_img 0 = ELF_MAGIC" "img32 demo_img 24 = 0x10000C" "phoff demo_img = 52" "phnum demo_img = 1"
  "seg_pa demo_img 0 = 0x100000" "seg_memsz demo_img 0 = 600" "seg_off demo_img 0 = 4096"
proof -
  show "img32 demo_img 0 = ELF_MAGIC" "img32 demo_img 24 = 0x10000C" and p: "phoff demo_img = 52" "phnum demo_img = 1"
    by (simp_all add: phoff_def phnum_def img32_def rd32_def demo_img_def layout)
  show "seg_pa demo_img 0 = 0x100000" "seg_memsz demo_img 0 = 600" "seg_off demo_img 0 = 4096"
    by (simp_all add: seg_pa_def seg_memsz_def seg_off_def p img32_def rd32_def demo_img_def)
qed

theorem bootmain_loads_witness: "\<exists>m'. bootmain demo_ata (\<lambda>_. 0) = Some (Jump 0x10000C, m') \<and> m' 0x100004 = 0xF4"
proof -
  have ok: "loadable demo_img"
    by (simp add: loadable_def demo_img_words seg_lo_def seg_hi_def)
  obtain m' where m': "bootmain demo_ata (\<lambda>_. 0) = Some (Jump (img32 demo_img 24), m')"
    "\<forall>i < phnum demo_img. \<forall>b < unat (seg_memsz demo_img i).
       m' (seg_pa demo_img i + word_of_nat b) = demo_img (unat (seg_off demo_img i) + b)"
    using bootmain_loads [OF demo_disk ok, of "\<lambda>_. 0"] by blast
  have "m' (seg_pa demo_img 0 + word_of_nat 4) = demo_img (unat (seg_off demo_img 0) + 4)"
    by (rule m'(2) [rule_format]) (simp_all add: demo_img_words)
  then have "m' 0x100004 = 0xF4"
    by (simp add: demo_img_words demo_img_def)
  with m'(1) show ?thesis
    by (simp add: demo_img_words)
qed

text \<open>Memory with words in it.\<close>

definition words_mem :: "u32 \<Rightarrow> u32 list \<Rightarrow> bytemem \<Rightarrow> bytemem" where
  "words_mem base ws m = (\<lambda>a. let k = unat (a - base) in if k < 4 * length ws then ucast (drop_bit (8 * (k mod 4)) (ws ! (k div 4))) else m a)"

lemma rd32_words_mem:
  assumes "i < length ws" "length ws \<le> 1024"
  shows "rd32 (words_mem base ws m) (slot base (word_of_nat i)) = ws ! i"
proof -
  have "words_mem base ws m (slot base (word_of_nat i) + word_of_nat k) = ucast (drop_bit (8 * k) (ws ! i))" if "k < 4" for k
  proof -
    have "unat (4 * word_of_nat i + word_of_nat k :: u32) = 4 * i + k"
      using assms that by (subst unat_add_no_wrap; subst unat_mult_no_wrap) (simp_all add: unat_of_nat)
    moreover have "slot base (word_of_nat i) + word_of_nat k - base = 4 * word_of_nat i + word_of_nat k"
      by (simp add: slot_def)
    ultimately have "unat (slot base (word_of_nat i) + word_of_nat k - base) = 4 * i + k"
      by (simp only:)
    moreover have "(4 * i + k) mod 4 = k" "(4 * i + k) div 4 = i" "4 * i + k < 4 * length ws"
      using assms that by simp_all
    ultimately show ?thesis
      unfolding words_mem_def Let_def by (simp only: if_True)
  qed
  from this [of 0] this [of 1] this [of 2] this [of 3] show ?thesis
    by (simp add: rd32_def bytes_join)
qed

text \<open>Both tables in physical memory, at 4 KB and 8 KB.\<close>

definition demo_entry :: kstate where
  "demo_entry = demo\<lparr>pmem := words_mem 0x2000 (entry_pgdir 0xF0001000) (words_mem 0x1000 entry_pgtable (\<lambda>_. 0)), cr3 := 0x2000\<rparr>"

lemma demo_entry_holds:
  "holds_words demo_entry (PTE_ADDR (cr3 demo_entry)) (entry_pgdir 0xF0001000)" "holds_words demo_entry (0xF0001000 - KERNBASE) entry_pgtable"
proof -
  show "holds_words demo_entry (PTE_ADDR (cr3 demo_entry)) (entry_pgdir 0xF0001000)"
    unfolding holds_words_def by (simp add: demo_entry_def PTE_ADDR_def rd32_words_mem entry_pgdir_nth(1))
  have byte: "words_mem 0x2000 ws m (slot 0x1000 (word_of_nat i) + word_of_nat k) = m (slot 0x1000 (word_of_nat i) + word_of_nat k)"
    if "i < 1024" "k < 4" "length ws = 1024" for ws m i k
  proof -
    have "unat (slot 0x1000 (word_of_nat i) + word_of_nat k) = 4096 + 4 * i + k"
      unfolding slot_def using that by (subst unat_add_no_wrap; subst unat_add_no_wrap; subst unat_mult_no_wrap) (simp_all add: unat_of_nat)
    then have "\<not> unat (slot 0x1000 (word_of_nat i) + word_of_nat k - 0x2000) < 4096"
      using that by (simp add: unat_sub_if_size word_size)
    then show ?thesis
      using that(3) unfolding words_mem_def Let_def by simp
  qed
  have "rd32 (words_mem 0x2000 ws m) (slot 0x1000 (word_of_nat i)) = rd32 m (slot 0x1000 (word_of_nat i))" if "i < 1024" "length ws = 1024" for ws m i
    using byte [OF that(1) _ that(2), of 0] byte [OF that(1) _ that(2), of 1] byte [OF that(1) _ that(2), of 2] byte [OF that(1) _ that(2), of 3]
    by (simp add: rd32_def)
  then show "holds_words demo_entry (0xF0001000 - KERNBASE) entry_pgtable"
    unfolding holds_words_def using rd32_words_mem [where ws = entry_pgtable and base = 4096]
    by (simp add: demo_entry_def layout entry_pgdir_nth(1) entry_pgtable_nth(1))
qed

theorem entry_pgdir_maps_witness:
  "hw_translate demo_entry 0xF0123456 True = Some 0x123456 \<and> hw_translate demo_entry 0x123456 True = None"
proof -
  have "page_aligned 0xF0001000"
    by (simp add: page_aligned_unat)
  from entry_pgdir_maps [OF this demo_entry_holds] show ?thesis
    by (simp add: layout)
qed

end
