(* ===== verification/Spec2Isabelle.thy ===== *)
theory Spec2Isabelle
  imports Init Monitor Boot
begin

text \<open>
  \<^bold>\<open>The JOS exokernel with its user library.\<close>

  The program is a small x86 kernel in C. The boot loader (\<^verbatim>\<open>boot/main.c\<close>) reads the kernel from the disk; the
  kernel sets up its memory (\<^verbatim>\<open>kern/pmap.c\<close>), a table of environments, its name for processes (\<^verbatim>\<open>kern/env.c\<close>), the
  descriptor tables (\<^verbatim>\<open>kern/trap.c\<close>) and the other processors (\<^verbatim>\<open>kern/mpconfig.c\<close>, \<^verbatim>\<open>kern/lapic.c\<close>). From then on
  it runs only when a trap enters it: \<^verbatim>\<open>trap\<close> takes the big kernel lock (\<^verbatim>\<open>kern/spinlock.c\<close>), dispatches to a
  system call (\<^verbatim>\<open>kern/syscall.c\<close>), to the page fault handler, to the clock or to a device, and ends in
  \<^verbatim>\<open>env_run\<close> or in the scheduler (\<^verbatim>\<open>kern/sched.c\<close>). The system calls hand out raw pages, mappings and
  environments; \<^verbatim>\<open>fork\<close> with copy on write, page fault handlers and messages are built from them in the user
  library (\<^verbatim>\<open>lib/fork.c\<close>, \<^verbatim>\<open>lib/pgfault.c\<close>, \<^verbatim>\<open>lib/ipc.c\<close>). A monitor with a symbol lookup
  (\<^verbatim>\<open>kern/monitor.c\<close>, \<^verbatim>\<open>kern/kdebug.c\<close>) is entered on a panic or a breakpoint.

  \<^bold>\<open>How C becomes HOL.\<close> Integers keep their width: \<open>u8\<close>, \<open>u16\<close> and \<open>u32\<close> are words, so that additions wrap as they do
  in the program; an \<^verbatim>\<open>int\<close> result is an \<open>int\<close>. Structs are records, enumerations datatypes or the constants of the source.
  \<open>kstate\<close> (theory \<open>Kstate\<close>) is the kernel: its globals, the arrays \<^verbatim>\<open>pages\<close>, \<^verbatim>\<open>envs\<close> and \<^verbatim>\<open>cpus\<close> as functions from an
  index, and the physical memory \<open>pmem\<close>, a function from addresses to bytes, in which page directories and page tables are words
  that the code reads and writes with \<open>kld\<close> and \<open>kst\<close>; nothing about them is abstracted. A pointer into an array is
  an index, or \<^term>\<open>None\<close> for \<^verbatim>\<open>NULL\<close>. A definition returns an option where the code can panic, fail an
  assertion or touch memory that is not there: \<^term>\<open>None\<close> is that outcome, and the theorems prove it away. Loops are structural
  recursion, \<open>function\<close> with a measure, or \<open>partial_function (option)\<close>, with a theorem that the loop ends;
  no definition takes fuel. Values that come from hardware or from code outside the C files
  (the CMOS, the disk, device registers, the linker's symbols, the entry points in assembler) are arguments. The
  configuration is that of the build files and the headers: \<^verbatim>\<open>TESTING_GRADE_PURPOSE\<close>, \<^verbatim>\<open>BLOCK_ANNOY_INFO\<close> and
  \<^verbatim>\<open>DEBUG_SPINLOCK\<close> are defined, the other debugging switches are not.

  \<^bold>\<open>The theories.\<close>

  \<^item> \<open>Jos_Prelude\<close>: word arithmetic, little-endian memory, \<open>for_each\<close> for loops over a list of indices, linked lists
    through an array (\<open>linked\<close>), and the locale \<open>free_stack\<close> for a free list kept as a stack, interpreted for the
    free pages in \<open>Pmap_Alloc\<close> and for the free environments in \<open>Env_Table\<close>. \<open>Mmu\<close>: the macros of \<^verbatim>\<open>inc/mmu.h\<close>,
    \<^verbatim>\<open>inc/memlayout.h\<close> and \<^verbatim>\<open>inc/types.h\<close>. \<open>Kstate\<close>: the structs, the state, errors.
  \<^item> \<open>Pmap_Alloc\<close> and \<open>Pmap_Walk\<close>: \<^verbatim>\<open>kern/pmap.c\<close>. The invariant \<open>vm_inv base D fl\<close> says that the page directories in
    \<open>D\<close> are well formed, that \<open>fl\<close> is the free list, and that each page's \<^verbatim>\<open>pp_ref\<close> is exactly the number of its uses as
    directory, table and mapped page. It does not say that every unused page is on \<open>fl\<close>; which pages an operation puts there is part
    of its own theorem. Inserting, removing and looking up a page are shown correct against
    \<open>vmap\<close>, the map from addresses to frames and permissions that the page tables stand for; the locale \<open>address_space\<close> states
    this contract and derives what clients need from it. \<open>Pmap_Frame\<close> bounds the memory that these operations write.
    \<open>Usermem\<close>: \<^verbatim>\<open>user_mem_check\<close>, its termination, what it guarantees and where it does not.
  \<^item> \<open>Env\<close>, \<open>Env_Space\<close>, \<open>Env_Table\<close>: \<^verbatim>\<open>kern/env.c\<close>; building and tearing down address spaces keeps \<open>vm_inv\<close>,
    and a torn down one gives back exactly the pages it alone used (\<open>released\<close>); the identifiers of the live environments are distinct in every
    state the table can get into (\<open>table_run\<close>), so the look-up of one slot is a search of the table, and they are not reused. \<open>Env_Load\<close>: \<^verbatim>\<open>env_create\<close> builds the memory of a program from its ELF image. \<open>Sched\<close>: \<^verbatim>\<open>kern/sched.c\<close>, round robin order from the slot after the current environment, progress
    over any sequence of calls (\<open>passed_over\<close>), exclusion between processors.
  \<^item> \<open>Kern_Inv\<close>: the invariant \<open>kern_inv\<close> of the whole kernel between two traps, which joins \<open>vm_inv\<close> with the environment
    table, and its preservation by the operations above.
  \<^item> \<open>Syscall\<close>, \<open>Syscall_Mem\<close>, \<open>Syscall_Inv\<close>: \<^verbatim>\<open>kern/syscall.c\<close>. The three memory calls refine point updates of
    \<open>aspace\<close>, the map from environments and addresses to frames, and each error is returned exactly in its case, \<^verbatim>\<open>-E_NO_MEM\<close>
    included; every system call that does not panic keeps \<open>kern_inv\<close>, with explicit exceptions: the two arguments that the code leaves unchecked
    (\<open>args_ok\<close>), and a page whose 16-bit reference count is at its maximum (\<open>refs_low\<close>).
  \<^item> \<open>Trap\<close>, \<open>Trap_Inv\<close>, \<open>Trap_Fault\<close>: \<^verbatim>\<open>kern/trap.c\<close>. The gates, the invariant over every trap that does not panic under the same exceptions, and the frame that a
    page fault leaves on the user's exception stack.
  \<^item> \<open>User_Lib\<close>, \<open>User_Fork\<close>, \<open>User_Cow\<close>: the user library. Its system calls go through \<open>trap\<close>, its reads of
    \<^verbatim>\<open>vpt\<close> and \<^verbatim>\<open>vpd\<close> through the page tables themselves. The loop of \<^verbatim>\<open>fork\<close> shares exactly the pages it should,
    and the page fault handler makes a private copy, also of the stack of the loop, which faults there as soon as that page is shared
    (\<open>stack_push\<close>). What the calls of the library store on the stack is not modelled, only that they store.
  \<^item> \<open>Meminit\<close>: the allocations and mappings of \<^verbatim>\<open>mem_init\<close> establish \<open>kern_inv\<close> and the layout of the kernel half.
    \<open>Selftest\<close>, \<open>Selftest_Page\<close>, \<open>Selftest_Boot\<close>: the self-tests that it runs in between, which partition and poison the free list, play
    through a scenario of three pages (\<open>trial\<close>) and inspect the finished directory; \<^verbatim>\<open>mem_init\<close> as a whole passes them, and
    they leave nothing behind. \<open>Boot\<close>: the boot loader, the first
    page table, \<^verbatim>\<open>kern/kclock.c\<close>. \<open>Mpconfig\<close>: the multiprocessor tables and the local interrupt controller.
    \<open>Init\<close>: \<^verbatim>\<open>kern/init.c\<close>, the composition of all of these from the clearing of the uninitialised data to the first user program, with
    \<^verbatim>\<open>boot_aps\<close> and \<^verbatim>\<open>mp_main\<close> as the two sides of the start of a processor; the whole sequence runs through, and \<open>booted\<close> describes the state it leaves.
  \<^item> \<open>Spinlock\<close>: the lock as functions on the state, and as an inductive step relation over the interleaved instructions of all
    processors, with mutual exclusion by rule induction.
  \<^item> \<open>Console\<close>: \<^verbatim>\<open>kern/console.c\<close> and \<^verbatim>\<open>kern/picirq.c\<close>; the input ring is a queue (locale \<open>bounded_fifo\<close>).
    \<open>Strings\<close> and \<open>Printfmt\<close>: \<^verbatim>\<open>lib/string.c\<close>, \<^verbatim>\<open>lib/printfmt.c\<close> and both \<^verbatim>\<open>printf.c\<close>. \<open>Kdebug\<close> and \<open>Monitor\<close>:
    \<^verbatim>\<open>kern/kdebug.c\<close>, \<^verbatim>\<open>lib/readline.c\<close>, \<^verbatim>\<open>kern/monitor.c\<close>.

  \<^bold>\<open>What is assumed.\<close> The kernel runs under the big lock, so a trap is one function from state to state; the lock itself is proved
  in \<open>Spinlock\<close>. Interrupts are off in the kernel. The compiled code, its stack and its read-only data are outside \<open>pmem\<close>'s
  user pages, as the linker places them. A TLB entry is modelled only as the flushes that the code performs. The
  direct map of physical memory at \<^verbatim>\<open>KERNBASE\<close> is complete: that only its first 4 MB are mapped until \<^verbatim>\<open>mem_init\<close> loads its
  directory is not modelled. The strings that \<^verbatim>\<open>vsnprintf\<close> prints are read before its buffer is written, so they do not overlap it.

  \<^bold>\<open>Not modelled.\<close> \<^verbatim>\<open>_panic\<close> and \<^verbatim>\<open>_warn\<close> of \<^verbatim>\<open>kern/init.c\<close> and \<^verbatim>\<open>lib/panic.c\<close>, since a panic is the end of a run, and for
  the same reason the test of \<^verbatim>\<open>panicstr\<close> in \<^verbatim>\<open>trap\<close>; the call of \<^verbatim>\<open>lapic_eoi\<close> in \<^verbatim>\<open>trap_dispatch\<close>, a write to the
  interrupt controller, which is not in the kernel's state (the write itself is in \<open>Mpconfig\<close>); output that only
  informs (\<^verbatim>\<open>print_trapframe\<close>, \<^verbatim>\<open>mon_help\<close>, \<^verbatim>\<open>mon_kerninfo\<close>, the text of panics); loops that wait for a device; the assembler files; \<^verbatim>\<open>inc/queue.h\<close>, which
  nothing uses; the wrappers of single instructions in \<^verbatim>\<open>inc/x86.h\<close>, whose effect is written out where they are used; the
  programs under \<^verbatim>\<open>user\<close>, which are tests.
\<close>

end
